(* ===== verification/Prelude.thy ===== *)
theory Prelude
  imports Main "HOL-Library.Word" "HOL-Library.Monad_Syntax"
begin

unbundle bit_operations_syntax

text \<open>
  Shared types and generic lemmas of the development.

  Machine words: \<open>u8\<close>, \<open>u32\<close>, \<open>u64\<close> are words of their width; an \<open>f32\<close> is kept as
  its IEEE-754 bit pattern, which is what the file formats store and all the code that is
  modelled here looks at; a \<open>usize\<close> is a \<^typ>\<open>nat\<close>, and where the source computes with
  \<open>checked_mul\<close> / \<open>checked_add\<close> the 64-bit bound is written out.

  Byte strings are lists of \<open>u8\<close>. A slice read \<open>raw.get(a..b)\<close> is \<open>get_range\<close>, an
  element read \<open>raw.get(i)\<close> is \<open>get_at\<close>; both answer \<open>None\<close> out of range, as the
  source does. A positioned write into a file is \<open>write_at\<close>, which extends the file with
  zero bytes where the offset lies past its end.
\<close>

section \<open>Types\<close>

type_synonym u8 = "8 word"
type_synonym u32 = "32 word"
type_synonym u64 = "64 word"
type_synonym f32 = "32 word"
type_synonym bytes = "u8 list"

abbreviation usize_max :: nat where
  "usize_max \<equiv> 18446744073709551615"

named_theorems bytes_simps "lengths of encoders and reads of concatenated byte strings"

section \<open>Results\<close>

definition and_then :: "'e + 'a \<Rightarrow> ('a \<Rightarrow> 'e + 'b) \<Rightarrow> 'e + 'b" where
  "and_then m f = (case m of Inl e \<Rightarrow> Inl e | Inr x \<Rightarrow> f x)"

lemma and_then_simps [simp]:
  "and_then (Inl e) f = Inl e"
  "and_then (Inr x) f = f x"
  by (simp_all add: and_then_def)

lemma and_then_Inr: "and_then m f = Inr y \<longleftrightarrow> (\<exists>x. m = Inr x \<and> f x = Inr y)"
  by (cases m) auto

definition ok_or :: "'e \<Rightarrow> 'a option \<Rightarrow> 'e + 'a" where
  "ok_or e o' = (case o' of None \<Rightarrow> Inl e | Some x \<Rightarrow> Inr x)"

lemma ok_or_simps [simp]: "ok_or e None = Inl e" "ok_or e (Some x) = Inr x"
  by (simp_all add: ok_or_def)

definition guard_err :: "bool \<Rightarrow> 'e \<Rightarrow> 'e + unit" where
  "guard_err bad e = (if bad then Inl e else Inr ())"

lemma guard_err_simps [simp]:
  "guard_err True e = Inl e" "guard_err False e = Inr ()"
  by (simp_all add: guard_err_def)

definition guard_opt :: "bool \<Rightarrow> unit option" where
  "guard_opt ok = (if ok then Some () else None)"

lemma guard_opt_simps [simp]:
  "guard_opt True = Some ()" "guard_opt False = None"
  by (simp_all add: guard_opt_def)

lemma guard_opt_Some [simp]: "guard_opt ok = Some u \<longleftrightarrow> ok"
  by (simp add: guard_opt_def)

text \<open>Elimination rules that take a successful \<open>Option.bind\<close> chain apart.\<close>

lemma bind_SomeE:
  "Option.bind m f = Some y \<Longrightarrow> (\<And>x. m = Some x \<Longrightarrow> f x = Some y \<Longrightarrow> P) \<Longrightarrow> P"
  by (auto simp: Option.bind_eq_Some_conv)

lemma bind_pairE:
  "Option.bind m (\<lambda>(x, y). f x y) = Some z \<Longrightarrow>
    (\<And>x y. m = Some (x, y) \<Longrightarrow> f x y = Some z \<Longrightarrow> P) \<Longrightarrow> P"
  by (auto simp: Option.bind_eq_Some_conv)

lemma guard_optE:
  "Option.bind (guard_opt b) f = Some y \<Longrightarrow> (b \<Longrightarrow> f () = Some y \<Longrightarrow> P) \<Longrightarrow> P"
  by (cases b) auto

lemma bind_mono_Some:
  "Option.bind m f = Some y \<Longrightarrow> (\<And>x. f x = Some y \<Longrightarrow> f' x = Some y) \<Longrightarrow>
    Option.bind m f' = Some y"
  by (auto simp: Option.bind_eq_Some_conv)

lemma guard_le_mono:
  "Option.bind (guard_opt (x \<le> (a :: nat))) f = Some y \<Longrightarrow> a \<le> b \<Longrightarrow>
    Option.bind (guard_opt (x \<le> b)) f = Some y"
  by (cases "x \<le> a") auto

section \<open>Checked arithmetic on usize\<close>

definition checked_add :: "nat \<Rightarrow> nat \<Rightarrow> nat option" where
  "checked_add a b = (if a + b \<le> usize_max then Some (a + b) else None)"

definition checked_mul :: "nat \<Rightarrow> nat \<Rightarrow> nat option" where
  "checked_mul a b = (if a * b \<le> usize_max then Some (a * b) else None)"

lemma checked_add_Some: "checked_add a b = Some c \<longleftrightarrow> c = a + b \<and> a + b \<le> usize_max"
  by (auto simp: checked_add_def)

lemma checked_mul_Some: "checked_mul a b = Some c \<longleftrightarrow> c = a * b \<and> a * b \<le> usize_max"
  by (auto simp: checked_mul_def)

section \<open>Words\<close>

lemma xor_cancel_right: "(a :: 'a::len word) XOR c = b XOR c \<longleftrightarrow> a = b"
  by (metis xor.assoc xor_self_eq xor.right_neutral)

lemma xor_cancel_left: "(c :: 'a::len word) XOR a = c XOR b \<longleftrightarrow> a = b"
  by (metis xor_cancel_right xor.commute)

lemma ucast_u8_u32_id: "ucast (ucast b :: u32) = (b :: u8)"
  by (rule bit_word_eqI) (auto simp: bit_simps)

lemma ucast_u8_u32_inject: "(ucast b :: u32) = ucast c \<longleftrightarrow> (b :: u8) = c"
  by (metis ucast_u8_u32_id)

section \<open>Slices\<close>

definition get_range :: "'a list \<Rightarrow> nat \<Rightarrow> nat \<Rightarrow> 'a list option" where
  "get_range xs a b = (if a \<le> b \<and> b \<le> length xs then Some (take (b - a) (drop a xs)) else None)"

definition get_at :: "'a list \<Rightarrow> nat \<Rightarrow> 'a option" where
  "get_at xs i = (if i < length xs then Some (xs ! i) else None)"

lemma get_range_Some:
  "get_range xs a b = Some ys \<longleftrightarrow> a \<le> b \<and> b \<le> length xs \<and> ys = take (b - a) (drop a xs)"
  by (auto simp: get_range_def)

lemma get_range_length [dest]: "get_range xs a b = Some ys \<Longrightarrow> length ys = b - a"
  by (auto simp: get_range_def split: if_splits)

lemma get_range_mid:
  "a = length pre \<Longrightarrow> b = a + length ys \<Longrightarrow> get_range (pre @ ys @ post) a b = Some ys"
  by (simp add: get_range_def)

lemma get_range_at:
  "bs = pre @ ys @ post \<Longrightarrow> a = length pre \<Longrightarrow> b = a + length ys \<Longrightarrow> get_range bs a b = Some ys"
  by (simp add: get_range_mid)

lemma get_at_mid: "a = length pre \<Longrightarrow> get_at (pre @ y # post) a = Some y"
  by (simp add: get_at_def nth_append)

lemma get_range_all: "get_range xs 0 (length xs) = Some xs"
  by (simp add: get_range_def)

text \<open>Equal reads: a read depends on the bytes of its range only.\<close>

lemma get_range_cong:
  assumes "b \<le> length xs" and "b \<le> length ys"
    and "\<And>i. a \<le> i \<Longrightarrow> i < b \<Longrightarrow> xs ! i = ys ! i"
  shows "get_range xs a b = get_range ys a b"
proof -
  have "take (b - a) (drop a xs) = take (b - a) (drop a ys)" if "a \<le> b"
    using assms that by (intro nth_equalityI) auto
  then show ?thesis using assms by (auto simp: get_range_def)
qed

lemma get_range_prefix:
  "b \<le> length xs \<Longrightarrow> get_range (xs @ ys) a b = get_range xs a b"
  by (auto simp: get_range_def)

section \<open>Little-endian integers\<close>

definition le_bytes :: "nat \<Rightarrow> nat \<Rightarrow> bytes" where
  "le_bytes k x = map (\<lambda>i. of_nat (x div 256 ^ i)) [0..<k]"

fun le_nat :: "bytes \<Rightarrow> nat" where
  "le_nat [] = 0"
| "le_nat (b # bs) = unat b + 256 * le_nat bs"

lemma length_le_bytes [simp, bytes_simps]: "length (le_bytes k x) = k"
  by (simp add: le_bytes_def)

lemma le_bytes_0 [simp]: "le_bytes 0 x = []"
  by (simp add: le_bytes_def)

lemma le_bytes_Suc: "le_bytes (Suc k) x = of_nat x # le_bytes k (x div 256)"
proof -
  have "[0..<Suc k] = 0 # map Suc [0..<k]"
    by (simp add: map_Suc_upt upt_conv_Cons del: upt_Suc)
  then show ?thesis
    by (simp add: le_bytes_def div_mult2_eq del: upt_Suc)
qed

lemma unat_of_nat_u8: "unat (of_nat x :: u8) = x mod 256"
  by (simp add: unat_of_nat)

lemma le_nat_le_bytes: "le_nat (le_bytes k x) = x mod 256 ^ k"
proof (induction k arbitrary: x)
  case 0
  then show ?case by (simp add: le_bytes_def)
next
  case (Suc k)
  have "x mod 256 + 256 * (x div 256 mod 256 ^ k) = x mod (256 * 256 ^ k)"
    by (simp add: mod_mult2_eq)
  then show ?case
    by (simp add: le_bytes_Suc Suc.IH unat_of_nat_u8)
qed

lemma le_nat_bound: "le_nat bs < 256 ^ length bs"
proof (induction bs)
  case Nil
  then show ?case by simp
next
  case (Cons b bs)
  have "unat b < 256"
    using unsigned_less [of b] by simp
  with Cons.IH show ?case by simp
qed

lemma le_bytes_le_nat: "le_bytes (length bs) (le_nat bs) = bs"
proof (induction bs)
  case Nil
  then show ?case by (simp add: le_bytes_def)
next
  case (Cons b bs)
  have *: "unat b < 256"
    using unsigned_less [of b] by simp
  have z: "(256 :: u8) = 0" by simp
  have "of_nat (unat b + 256 * le_nat bs) = b"
    by (simp only: of_nat_add of_nat_mult of_nat_numeral z) simp
  moreover from * have "(unat b + 256 * le_nat bs) div 256 = le_nat bs"
    by simp
  ultimately show ?case
    using Cons.IH by (simp add: le_bytes_Suc)
qed

definition u32_to_le :: "u32 \<Rightarrow> bytes" where
  "u32_to_le w = le_bytes 4 (unat w)"

definition u64_to_le :: "u64 \<Rightarrow> bytes" where
  "u64_to_le w = le_bytes 8 (unat w)"

definition u32_from_le :: "bytes \<Rightarrow> u32" where
  "u32_from_le bs = of_nat (le_nat bs)"

definition u64_from_le :: "bytes \<Rightarrow> u64" where
  "u64_from_le bs = of_nat (le_nat bs)"

lemma length_u32_to_le [simp, bytes_simps]: "length (u32_to_le w) = 4"
  by (simp add: u32_to_le_def)

lemma length_u64_to_le [simp, bytes_simps]: "length (u64_to_le w) = 8"
  by (simp add: u64_to_le_def)

lemma u32_le_roundtrip [simp, bytes_simps]: "u32_from_le (u32_to_le w) = w"
proof -
  have "unat w < 256 ^ 4" using unsigned_less [of w] by simp
  then show ?thesis
    by (simp add: u32_from_le_def u32_to_le_def le_nat_le_bytes del: power_numeral)
qed

lemma u64_le_roundtrip [simp, bytes_simps]: "u64_from_le (u64_to_le w) = w"
proof -
  have "unat w < 256 ^ 8" using unsigned_less [of w] by simp
  then show ?thesis
    by (simp add: u64_from_le_def u64_to_le_def le_nat_le_bytes del: power_numeral)
qed

lemma u32_to_le_from_le: "length bs = 4 \<Longrightarrow> u32_to_le (u32_from_le bs) = bs"
proof -
  assume l: "length bs = 4"
  have "le_nat bs < 2 ^ 32" using le_nat_bound [of bs] by (simp add: l)
  then have "unat (u32_from_le bs) = le_nat bs"
    by (simp add: u32_from_le_def unat_of_nat)
  then show ?thesis using le_bytes_le_nat [of bs] by (simp add: u32_to_le_def l)
qed

lemma u64_to_le_from_le: "length bs = 8 \<Longrightarrow> u64_to_le (u64_from_le bs) = bs"
proof -
  assume l: "length bs = 8"
  have "le_nat bs < 2 ^ 64" using le_nat_bound [of bs] by (simp add: l)
  then have "unat (u64_from_le bs) = le_nat bs"
    by (simp add: u64_from_le_def unat_of_nat)
  then show ?thesis using le_bytes_le_nat [of bs] by (simp add: u64_to_le_def l)
qed

lemma u64_to_le_inject [simp]: "u64_to_le a = u64_to_le b \<longleftrightarrow> a = b"
  by (metis u64_le_roundtrip)

lemma u32_to_le_inject [simp]: "u32_to_le a = u32_to_le b \<longleftrightarrow> a = b"
  by (metis u32_le_roundtrip)

definition read_u32 :: "bytes \<Rightarrow> nat \<Rightarrow> u32 option" where
  "read_u32 bs p = map_option u32_from_le (get_range bs p (p + 4))"

definition read_u64 :: "bytes \<Rightarrow> nat \<Rightarrow> u64 option" where
  "read_u64 bs p = map_option u64_from_le (get_range bs p (p + 8))"

lemma read_u32_mid: "p = length pre \<Longrightarrow> read_u32 (pre @ u32_to_le w @ post) p = Some w"
  by (simp add: read_u32_def get_range_mid)

lemma read_u64_mid: "p = length pre \<Longrightarrow> read_u64 (pre @ u64_to_le w @ post) p = Some w"
  by (simp add: read_u64_def get_range_mid)

lemma read_u32_at: "bs = pre @ u32_to_le w @ post \<Longrightarrow> p = length pre \<Longrightarrow> read_u32 bs p = Some w"
  by (simp add: read_u32_mid)

lemma read_u64_at: "bs = pre @ u64_to_le w @ post \<Longrightarrow> p = length pre \<Longrightarrow> read_u64 bs p = Some w"
  by (simp add: read_u64_mid)

lemma unat_of_nat_u32: "n < 4294967296 \<Longrightarrow> unat (of_nat n :: u32) = n"
  by (simp add: unat_of_nat)

lemma unat_of_nat_u64: "n \<le> usize_max \<Longrightarrow> unat (of_nat n :: u64) = n"
  by (simp add: unat_of_nat)

end
