(* ===== verification/Crc.thy ===== *)
theory Crc
  imports Prelude
begin

text \<open>
  CRC-32C as \<open>io_v7.rs\<close> computes it: the table-driven register update, the one-chain
  checksum, the three-way split for inputs of 4096 bytes and more, and the streaming
  \<open>DeltaDigest\<close>.
\<close>

section \<open>Definitions\<close>

text \<open>One step of the table generator's inner loop: \<open>mask = (c \<and> 1).wrapping_neg()\<close>.\<close>

definition crc_bit :: "u32 \<Rightarrow> u32" where
  "crc_bit c = (let mask = - (c AND 1) in drop_bit 1 c XOR (0x82F63B78 AND mask))"

definition crc_table_entry :: "nat \<Rightarrow> u32" where
  "crc_table_entry i = (crc_bit ^^ 8) (of_nat i)"

definition crc_table :: "u32 list" where
  "crc_table = map crc_table_entry [0..<256]"

definition crc_byte :: "u32 \<Rightarrow> u8 \<Rightarrow> u32" where
  "crc_byte crc b = drop_bit 8 crc XOR crc_table ! unat (ucast crc XOR b)"

definition crc32c_upd_soft :: "u32 \<Rightarrow> bytes \<Rightarrow> u32" where
  "crc32c_upd_soft crc data = foldl crc_byte crc data"

definition crc32c_soft :: "bytes \<Rightarrow> u32" where
  "crc32c_soft data = NOT (crc32c_upd_soft 0xFFFFFFFF data)"

definition crc32_one :: "bytes \<Rightarrow> u32" where
  "crc32_one data = NOT (crc32c_upd_soft 0xFFFFFFFF data)"

definition crc32_three :: "bytes \<Rightarrow> bytes \<Rightarrow> bytes \<Rightarrow> u32 \<times> u32 \<times> u32" where
  "crc32_three a b c = (crc32c_soft a, crc32c_soft b, crc32c_soft c)"

definition crc32 :: "bytes \<Rightarrow> u32" where
  "crc32 data =
    (if length data < 4096 then crc32_one data
     else let third = length data div 3;
              a = take third data; rest = drop third data;
              b = take third rest; c = drop third rest;
              (ca, cb, cc) = crc32_three a b c
          in crc32_one (u32_to_le ca @ u32_to_le cb @ u32_to_le cc))"

record delta_digest_state =
  dd_at :: nat
  dd_split :: "(nat \<times> nat) option"
  dd_parts :: "u32 list"

definition dd_new :: "nat \<Rightarrow> delta_digest_state" where
  "dd_new n_total =
     \<lparr>dd_at = 0,
      dd_split = (if n_total \<ge> 4096 then let third = n_total div 3 in Some (third, third * 2) else None),
      dd_parts = [0xFFFFFFFF, 0xFFFFFFFF, 0xFFFFFFFF]\<rparr>"

text \<open>
  The routing loop of \<open>DeltaDigest::push\<close>. The source's bound for the last third is
  \<open>usize::MAX\<close>, past every slice; here it is \<open>None\<close>.
\<close>

definition dd_route :: "nat \<Rightarrow> nat \<Rightarrow> nat \<Rightarrow> nat \<times> nat option" where
  "dd_route s1 s2 a = (if a < s1 then (0, Some s1) else if a < s2 then (1, Some s2) else (2, None))"

definition dd_take :: "nat \<Rightarrow> nat \<Rightarrow> nat option \<Rightarrow> nat" where
  "dd_take len a e = (case e of None \<Rightarrow> len | Some e' \<Rightarrow> min len (e' - a))"

lemma dd_take_pos: "data \<noteq> [] \<Longrightarrow> dd_take (length data) a (snd (dd_route s1 s2 a)) > 0"
  by (simp add: dd_take_def dd_route_def)

function dd_push_loop :: "nat \<Rightarrow> nat \<Rightarrow> delta_digest_state \<Rightarrow> bytes \<Rightarrow> delta_digest_state" where
  "dd_push_loop s1 s2 d data =
     (if data = [] then d
      else let (part, e) = dd_route s1 s2 (dd_at d);
               k = dd_take (length data) (dd_at d) e
           in dd_push_loop s1 s2
                (d\<lparr>dd_parts := (dd_parts d)[part := crc32c_upd_soft (dd_parts d ! part) (take k data)],
                   dd_at := dd_at d + k\<rparr>)
                (drop k data))"
  by pat_completeness auto
termination
proof (relation "measure (\<lambda>(s1, s2, d, data). length data)", goal_cases)
  case 1
  show ?case by simp
next
  case (2 s1 s2 d data x part e k)
  then have "k > 0" using dd_take_pos [of data "dd_at d" s1 s2] by (auto simp: prod_eq_iff)
  with 2 show ?case by simp
qed

declare dd_push_loop.simps [simp del]

definition dd_push :: "delta_digest_state \<Rightarrow> bytes \<Rightarrow> delta_digest_state" where
  "dd_push d data =
     (case dd_split d of
        None \<Rightarrow> d\<lparr>dd_parts := (dd_parts d)[0 := crc32c_upd_soft (dd_parts d ! 0) data],
                  dd_at := dd_at d + length data\<rparr>
      | Some (s1, s2) \<Rightarrow> dd_push_loop s1 s2 d data)"

definition dd_finish :: "delta_digest_state \<Rightarrow> u32" where
  "dd_finish d =
     (case dd_split d of
        None \<Rightarrow> NOT (dd_parts d ! 0)
      | Some _ \<Rightarrow> crc32_one (concat (map (\<lambda>p. u32_to_le (NOT p)) (dd_parts d))))"

section \<open>Streaming\<close>

lemma upd_Nil [simp]: "crc32c_upd_soft s [] = s"
  by (simp add: crc32c_upd_soft_def)

lemma upd_Cons [simp]: "crc32c_upd_soft s (b # bs) = crc32c_upd_soft (crc_byte s b) bs"
  by (simp add: crc32c_upd_soft_def)

lemma upd_append: "crc32c_upd_soft s (xs @ ys) = crc32c_upd_soft (crc32c_upd_soft s xs) ys"
  by (simp add: crc32c_upd_soft_def)

text \<open>The state the digest is in after the bytes \<open>xs\<close>: each third's register has consumed its
  part of \<open>xs\<close>.\<close>

definition dd_absorbed :: "nat \<Rightarrow> nat \<Rightarrow> bytes \<Rightarrow> delta_digest_state" where
  "dd_absorbed s1 s2 xs =
     \<lparr>dd_at = length xs, dd_split = Some (s1, s2),
      dd_parts = [crc32c_upd_soft 0xFFFFFFFF (take s1 xs),
                  crc32c_upd_soft 0xFFFFFFFF (take (s2 - s1) (drop s1 xs)),
                  crc32c_upd_soft 0xFFFFFFFF (drop s2 xs)]\<rparr>"

lemma dd_step_absorbed:
  assumes le: "s1 \<le> s2" and ys: "ys \<noteq> []"
    and r: "dd_route s1 s2 (length xs) = (part, e)"
    and k: "k = dd_take (length ys) (length xs) e"
  defines "d \<equiv> dd_absorbed s1 s2 xs"
  shows "d\<lparr>dd_parts := (dd_parts d)[part := crc32c_upd_soft (dd_parts d ! part) (take k ys)],
           dd_at := dd_at d + k\<rparr> = dd_absorbed s1 s2 (xs @ take k ys)"
proof -
  consider (a) "length xs < s1" "part = 0" "k = min (length ys) (s1 - length xs)"
    | (b) "s1 \<le> length xs" "length xs < s2" "part = 1" "k = min (length ys) (s2 - length xs)"
    | (c) "s2 \<le> length xs" "part = 2" "k = length ys"
    using r k le by (auto simp: dd_route_def dd_take_def split: if_splits)
  then show ?thesis
  proof cases
    case a
    then show ?thesis using le by (auto simp: d_def dd_absorbed_def upd_append)
  next
    case b
    then show ?thesis using le by (auto simp: d_def dd_absorbed_def upd_append)
  next
    case c
    then show ?thesis using le by (auto simp: d_def dd_absorbed_def upd_append)
  qed
qed

lemma dd_push_loop_absorbed:
  "s1 \<le> s2 \<Longrightarrow> dd_push_loop s1 s2 (dd_absorbed s1 s2 xs) ys = dd_absorbed s1 s2 (xs @ ys)"
proof (induction ys arbitrary: xs rule: length_induct)
  case (1 ys)
  show ?case
  proof (cases "ys = []")
    case True
    then show ?thesis by (simp add: dd_push_loop.simps)
  next
    case False
    obtain part e where r: "dd_route s1 s2 (length xs) = (part, e)" by fastforce
    define k where "k = dd_take (length ys) (length xs) e"
    have kpos: "k > 0" using dd_take_pos [OF False, of "length xs" s1 s2] by (simp add: r k_def)
    have at: "dd_at (dd_absorbed s1 s2 xs) = length xs" by (simp add: dd_absorbed_def)
    have "dd_push_loop s1 s2 (dd_absorbed s1 s2 xs) ys
        = dd_push_loop s1 s2 (dd_absorbed s1 s2 (xs @ take k ys)) (drop k ys)"
      using False dd_step_absorbed [OF "1.prems" False r k_def]
      by (subst dd_push_loop.simps) (simp add: at r flip: k_def)
    also have "\<dots> = dd_absorbed s1 s2 ((xs @ take k ys) @ drop k ys)"
      using "1.IH" "1.prems" kpos False by simp
    finally show ?thesis by simp
  qed
qed

text \<open>Pushing chunks one after another absorbs their concatenation.\<close>

lemma dd_push_absorbed:
  "s1 \<le> s2 \<Longrightarrow> dd_push (dd_absorbed s1 s2 xs) ys = dd_absorbed s1 s2 (xs @ ys)"
proof -
  assume "s1 \<le> s2"
  moreover have "dd_split (dd_absorbed s1 s2 xs) = Some (s1, s2)" by (simp add: dd_absorbed_def)
  ultimately show ?thesis by (simp add: dd_push_def dd_push_loop_absorbed)
qed

definition dd_plain :: "bytes \<Rightarrow> delta_digest_state" where
  "dd_plain xs = \<lparr>dd_at = length xs, dd_split = None,
     dd_parts = [crc32c_upd_soft 0xFFFFFFFF xs, 0xFFFFFFFF, 0xFFFFFFFF]\<rparr>"

lemma dd_push_plain: "dd_push (dd_plain xs) ys = dd_plain (xs @ ys)"
  by (simp add: dd_push_def dd_plain_def upd_append)

lemma foldl_dd_push_plain: "foldl dd_push (dd_plain xs) chunks = dd_plain (xs @ concat chunks)"
  by (induction chunks arbitrary: xs) (simp_all add: dd_push_plain)

lemma foldl_dd_push_absorbed:
  "s1 \<le> s2 \<Longrightarrow>
    foldl dd_push (dd_absorbed s1 s2 xs) chunks = dd_absorbed s1 s2 (xs @ concat chunks)"
  by (induction chunks arbitrary: xs) (simp_all add: dd_push_absorbed)

lemma dd_new_short: "n_total < 4096 \<Longrightarrow> dd_new n_total = dd_plain []"
  by (simp add: dd_new_def dd_plain_def)

lemma dd_new_long:
  "4096 \<le> n_total \<Longrightarrow> dd_new n_total = dd_absorbed (n_total div 3) (n_total div 3 * 2) []"
  by (simp add: dd_new_def dd_absorbed_def Let_def)

lemma dd_finish_plain: "dd_finish (dd_plain xs) = crc32_one xs"
  by (simp add: dd_finish_def dd_plain_def crc32_one_def)

lemma dd_finish_absorbed:
  assumes "4096 \<le> length xs"
  shows "dd_finish (dd_absorbed (length xs div 3) (length xs div 3 * 2) xs) = crc32 xs"
proof -
  define t where "t = length xs div 3"
  show ?thesis
    using assms
    by (simp add: dd_finish_def dd_absorbed_def crc32_def crc32_three_def crc32c_soft_def Let_def
        mult_2_right flip: t_def)
qed

lemma dd_stream_eq_crc32:
  "dd_finish (foldl dd_push (dd_new (length (concat chunks))) chunks) = crc32 (concat chunks)"
proof (cases "length (concat chunks) < 4096")
  case True
  then show ?thesis
    by (simp add: dd_new_short foldl_dd_push_plain dd_finish_plain crc32_def)
next
  case False
  then show ?thesis
    by (simp add: dd_new_long foldl_dd_push_absorbed dd_finish_absorbed)
qed

section \<open>The table against the bit-serial register\<close>

lemma crc_bit_alt: "crc_bit c = drop_bit 1 c XOR (if bit c 0 then 0x82F63B78 else 0)"
  by (cases "odd c")
    (simp_all add: crc_bit_def and_one_eq bit_0 Let_def odd_iff_mod_2_eq_one even_iff_mod_2_eq_zero)

lemma crc_bit_xor: "crc_bit (x XOR y) = crc_bit x XOR crc_bit y"
  by (cases "bit x 0"; cases "bit y 0")
    (simp_all add: crc_bit_alt drop_bit_xor bit_xor_iff xor.assoc xor.commute xor.left_commute)

lemma crc_bits_xor: "(crc_bit ^^ k) (x XOR y) = (crc_bit ^^ k) x XOR (crc_bit ^^ k) y"
  by (induction k) (simp_all add: crc_bit_xor)

lemma crc_bits_low_zero: "(\<forall>i<k. \<not> bit y i) \<Longrightarrow> (crc_bit ^^ k) y = drop_bit k y"
proof (induction k)
  case 0
  then show ?case by simp
next
  case (Suc k)
  then have "(crc_bit ^^ Suc k) y = crc_bit (drop_bit k y)" by simp
  also have "\<dots> = drop_bit (Suc k) y"
    using Suc.prems by (simp add: crc_bit_alt bit_drop_bit_eq)
  finally show ?case .
qed

lemma crc_bit_top: "bit (crc_bit c) 31 \<longleftrightarrow> bit c 0"
proof -
  have "bit (0x82F63B78 :: u32) 31" by code_simp
  moreover have "\<not> bit c 32" by (simp add: bit_word.rep_eq)
  ultimately show ?thesis by (simp add: crc_bit_alt bit_xor_iff bit_drop_bit_eq)
qed

lemma crc_bit_inject: "crc_bit x = crc_bit y \<longleftrightarrow> x = y"
proof
  assume eq: "crc_bit x = crc_bit y"
  then have b0: "bit x 0 \<longleftrightarrow> bit y 0" by (metis crc_bit_top)
  with eq have d: "drop_bit 1 x = drop_bit 1 y"
    by (cases "bit x 0") (auto simp: crc_bit_alt xor_cancel_right)
  show "x = y"
  proof (rule bit_word_eqI)
    fix n
    from d have "bit (drop_bit 1 x) m \<longleftrightarrow> bit (drop_bit 1 y) m" for m
      by simp
    then show "bit x n \<longleftrightarrow> bit y n"
      using b0 by (cases n) (simp_all add: bit_drop_bit_eq)
  qed
qed simp

lemma crc_bits_inject: "(crc_bit ^^ k) x = (crc_bit ^^ k) y \<longleftrightarrow> x = y"
  by (induction k) (simp_all add: crc_bit_inject)

lemma crc_table_nth: "crc_table ! unat (i :: u8) = (crc_bit ^^ 8) (ucast i)"
proof -
  have "unat i < 256" using unsigned_less [of i] by simp
  then show ?thesis
    by (simp add: crc_table_def crc_table_entry_def del: funpow.simps)
qed

lemma crc_byte_bits: "crc_byte crc b = (crc_bit ^^ 8) (crc XOR ucast b)"
proof -
  have split: "crc XOR ucast b
      = ucast (ucast crc XOR b :: u8) XOR push_bit 8 (drop_bit 8 crc)"
    by (rule bit_word_eqI) (auto simp: bit_simps)
  have "(crc_bit ^^ 8) (push_bit 8 (drop_bit 8 crc)) = drop_bit 8 (push_bit 8 (drop_bit 8 crc))"
    by (rule crc_bits_low_zero) (auto simp: bit_simps)
  also have "\<dots> = drop_bit 8 crc"
    by (rule bit_word_eqI) (auto simp: bit_simps dest: bit_imp_le_length)
  finally show ?thesis
    by (simp add: crc_byte_def crc_table_nth split crc_bits_xor xor.commute del: funpow.simps)
qed

section \<open>Error detection\<close>

lemma crc_byte_inject_state: "crc_byte s b = crc_byte t b \<longleftrightarrow> s = t"
  by (simp add: crc_byte_bits crc_bits_inject xor_cancel_right del: funpow.simps)

lemma crc_byte_inject_byte: "crc_byte s b = crc_byte s c \<longleftrightarrow> b = c"
  by (simp add: crc_byte_bits crc_bits_inject xor_cancel_left ucast_u8_u32_inject del: funpow.simps)

lemma upd_inject_state: "crc32c_upd_soft s xs = crc32c_upd_soft t xs \<longleftrightarrow> s = t"
  by (induction xs arbitrary: s t) (simp_all add: crc_byte_inject_state)

text \<open>Up to four bytes enter the register as one little-endian word.\<close>

fun le_word :: "bytes \<Rightarrow> u32" where
  "le_word [] = 0"
| "le_word (b # bs) = ucast b XOR push_bit 8 (le_word bs)"

lemma le_word_high: "8 * length bs \<le> n \<Longrightarrow> \<not> bit (le_word bs) n"
proof (induction bs arbitrary: n)
  case Nil
  then show ?case by simp
next
  case (Cons b bs)
  then show ?case by (auto simp: bit_simps dest: bit_imp_le_length)
qed

lemma upd_word:
  "length bs \<le> 4 \<Longrightarrow>
    crc32c_upd_soft s bs = (crc_bit ^^ (8 * length bs)) (s XOR le_word bs)"
proof (induction bs arbitrary: s)
  case Nil
  then show ?case by simp
next
  case (Cons b bs)
  have "(crc_bit ^^ 8) (push_bit 8 (le_word bs)) = drop_bit 8 (push_bit 8 (le_word bs))"
    by (rule crc_bits_low_zero) (auto simp: bit_simps)
  also have "\<dots> = le_word bs"
  proof (rule bit_word_eqI)
    fix n
    assume "n < LENGTH(32)"
    show "bit (drop_bit 8 (push_bit 8 (le_word bs))) n \<longleftrightarrow> bit (le_word bs) n"
      using Cons.prems le_word_high [of bs n]
      by (cases "8 * length bs \<le> n") (auto simp: bit_simps dest: bit_imp_le_length)
  qed
  finally have "(crc_bit ^^ 8) (s XOR ucast b) XOR le_word bs
      = (crc_bit ^^ 8) (s XOR le_word (b # bs))"
    by (simp add: crc_bits_xor xor.assoc del: funpow.simps)
  moreover have "(crc_bit ^^ (8 * length bs)) ((crc_bit ^^ 8) x) = (crc_bit ^^ (8 * length (b # bs))) x"
    for x by (simp add: funpow_add [symmetric] add.commute del: funpow.simps flip: comp_apply [of "crc_bit ^^ _"])
  ultimately show ?case
    using Cons by (simp add: crc_byte_bits del: funpow.simps le_word.simps)
qed

lemma le_word_inject: "length xs = length ys \<Longrightarrow> length xs \<le> 4 \<Longrightarrow> le_word xs = le_word ys \<Longrightarrow> xs = ys"
proof (induction xs ys rule: list_induct2)
  case Nil
  then show ?case by simp
next
  case (Cons x xs y ys)
  have bits: "bit (le_word (x # xs)) n \<longleftrightarrow> bit (le_word (y # ys)) n" for n
    using Cons.prems by simp
  have "x = y"
  proof (rule bit_word_eqI)
    fix n
    assume "n < LENGTH(8)"
    then show "bit x n \<longleftrightarrow> bit y n"
      using bits [of n] by (simp add: bit_simps)
  qed
  moreover have "le_word xs = le_word ys"
  proof (rule bit_word_eqI)
    fix n
    assume "n < LENGTH(32)"
    show "bit (le_word xs) n \<longleftrightarrow> bit (le_word ys) n"
      using bits [of "n + 8"] Cons.hyps Cons.prems(1) le_word_high [of xs n] le_word_high [of ys n]
      by (cases "n + 8 < 32") (auto simp: bit_simps dest: bit_imp_le_length)
  qed
  ultimately show ?case using Cons by simp
qed

lemma upd_inject_word:
  assumes "length xs = length ys" and "length xs \<le> 4"
    and "crc32c_upd_soft s xs = crc32c_upd_soft s ys"
  shows "xs = ys"
  using assms by (simp add: upd_word crc_bits_inject xor_cancel_left le_word_inject del: funpow.simps)

lemma crc32_one_inject_mid:
  assumes "length xs = length ys" and "length xs \<le> 4"
  shows "crc32_one (pre @ xs @ post) = crc32_one (pre @ ys @ post) \<longleftrightarrow> xs = ys"
  using assms upd_inject_word [of xs ys]
  by (auto simp: crc32_one_def upd_append upd_inject_state)

lemma crc32_one_byte: "crc32_one (xs @ b # ys) = crc32_one (xs @ c # ys) \<longleftrightarrow> b = c"
  using crc32_one_inject_mid [of "[b]" "[c]" xs ys] by simp

text \<open>
  With the three-way split a changed byte lies in one third; that third's checksum differs,
  and the four bytes it contributes to the digest differ.
\<close>

lemma crc32_long:
  "4096 \<le> length xs \<Longrightarrow> t = length xs div 3 \<Longrightarrow>
    crc32 xs = crc32_one (u32_to_le (crc32_one (take t xs)) @
      u32_to_le (crc32_one (take t (drop t xs))) @ u32_to_le (crc32_one (drop (t + t) xs)))"
  by (simp add: crc32_def crc32_three_def crc32c_soft_def crc32_one_def Let_def)

lemma crc32_thirds:
  assumes "4096 \<le> length (a @ b @ c)"
    and "length a = t" and "length b = t" and "t = length (a @ b @ c) div 3"
  shows "crc32 (a @ b @ c) = crc32_one (u32_to_le (crc32_one a) @ u32_to_le (crc32_one b)
           @ u32_to_le (crc32_one c))"
proof -
  have "take t (a @ b @ c) = a" "take t (drop t (a @ b @ c)) = b" "drop (t + t) (a @ b @ c) = c"
    using assms(2,3) by simp_all
  then show ?thesis using crc32_long [OF assms(1,4)] by (simp only:)
qed

lemma digest_mid_neq:
  assumes "x \<noteq> y"
  shows "crc32_one (u32_to_le x @ post) \<noteq> crc32_one (u32_to_le y @ post)"
    and "crc32_one (pre @ u32_to_le x @ post) \<noteq> crc32_one (pre @ u32_to_le y @ post)"
    and "crc32_one (pre @ pre' @ u32_to_le x) \<noteq> crc32_one (pre @ pre' @ u32_to_le y)"
  using assms crc32_one_inject_mid [of "u32_to_le x" "u32_to_le y" "[]" post]
    crc32_one_inject_mid [of "u32_to_le x" "u32_to_le y" pre post]
    crc32_one_inject_mid [of "u32_to_le x" "u32_to_le y" "pre @ pre'" "[]"]
  by simp_all

lemma crc32_one_list_update:
  "i < length xs \<Longrightarrow> xs ! i \<noteq> v \<Longrightarrow> crc32_one (xs[i := v]) \<noteq> crc32_one xs"
  using crc32_one_byte [of "take i xs" v "drop (Suc i) xs" "xs ! i"]
  by (metis id_take_nth_drop upd_conv_take_nth_drop)

lemma crc32_list_update:
  assumes i: "i < length xs" and v: "xs ! i \<noteq> v"
  shows "crc32 (xs[i := v]) \<noteq> crc32 xs"
proof (cases "length xs < 4096")
  case True
  then show ?thesis using crc32_one_list_update [OF i v] by (simp add: crc32_def)
next
  case False
  define t where "t = length xs div 3"
  define a b c where "a = take t xs" and "b = take t (drop t xs)" and "c = drop (2 * t) xs"
  have xs: "xs = a @ b @ c"
    by (simp add: a_def b_def c_def mult_2 flip: drop_drop)
  have la: "length a = t" and lb: "length b = t" by (auto simp: a_def b_def t_def)
  have len: "4096 \<le> length xs" using False by simp
  have crc: "crc32 (a' @ b' @ c') = crc32_one (u32_to_le (crc32_one a') @ u32_to_le (crc32_one b')
      @ u32_to_le (crc32_one c'))"
    if "length a' = t" "length b' = t" "length c' = length c" for a' b' c'
  proof (rule crc32_thirds)
    have "length (a' @ b' @ c') = length xs" using that la lb by (simp add: xs)
    then show "4096 \<le> length (a' @ b' @ c')" and "t = length (a' @ b' @ c') div 3"
      using len by (simp_all only: t_def)
  qed (use that in simp_all)
  note old = crc [OF la lb refl]
  consider (a) "i < t" | (b) "t \<le> i" "i < 2 * t" | (c) "2 * t \<le> i" by linarith
  then show ?thesis
  proof cases
    case a
    then have "a ! i \<noteq> v" and "i < length a" using v la by (auto simp: xs nth_append)
    then have ne: "crc32_one (a[i := v]) \<noteq> crc32_one a" by (simp add: crc32_one_list_update)
    have upd: "xs[i := v] = a[i := v] @ b @ c" using a la by (simp add: xs list_update_append)
    have "length (a[i := v]) = t" using la by simp
    from crc [OF this lb refl] old digest_mid_neq(1) [OF ne] show ?thesis
      unfolding upd by (simp only: xs not_False_eq_True)
  next
    case b
    then have it: "i - t < t" by linarith
    with b have "b ! (i - t) \<noteq> v" and "i - t < length b" using v la lb by (auto simp: xs nth_append)
    then have ne: "crc32_one (b[i - t := v]) \<noteq> crc32_one b" by (simp add: crc32_one_list_update)
    have upd: "xs[i := v] = a @ b[i - t := v] @ c"
      using b it la lb by (simp add: xs list_update_append)
    have "length (b[i - t := v]) = t" using lb by simp
    from crc [OF la this refl] old digest_mid_neq(2) [OF ne] show ?thesis
      unfolding upd by (simp only: xs not_False_eq_True)
  next
    case c
    then have ge: "\<not> i < t" "\<not> i - t < t" "i - t - t = i - 2 * t" by linarith+
    then have "c ! (i - 2 * t) \<noteq> v" and "i - 2 * t < length c"
      using v i la lb c by (auto simp: xs nth_append)
    then have ne: "crc32_one (c[i - 2 * t := v]) \<noteq> crc32_one c"
      by (simp add: crc32_one_list_update)
    have upd: "xs[i := v] = a @ b @ c[i - 2 * t := v]"
      using c ge la lb by (simp add: xs list_update_append mult_2)
    have "length (c[i - 2 * t := v]) = length c" by simp
    from crc [OF la lb this] old digest_mid_neq(3) [OF ne] show ?thesis
      unfolding upd by (simp only: xs not_False_eq_True)
  qed
qed

end
