(* ===== verification/Geometry.thy ===== *)
theory Geometry
  imports Crc
begin

text \<open>
  The container's geometry (\<open>Geo\<close> of \<open>io_v7.rs\<close>, \<open>blocked_geometry\<close> of \<open>pack.rs\<close>), the
  records a sync borrows or keeps (\<open>SyncSource\<close>, \<open>SyncCursor\<close>), and the byte encoders of the
  three regions of a file: superblock, header slot, block unit.
\<close>

section \<open>Constants\<close>

definition V7_MAGIC :: bytes where "V7_MAGIC = [0x54, 0x56, 0x37, 0]"
definition V8_MAGIC :: bytes where "V8_MAGIC = [0x54, 0x56, 0x38, 0]"
definition V7_VERSION :: u8 where "V7_VERSION = 2"
definition V8_VERSION :: u8 where "V8_VERSION = 1"
definition LAYOUT_SEQ :: u8 where "LAYOUT_SEQ = 0"
definition LAYOUT_PLANES :: u8 where "LAYOUT_PLANES = 1"

abbreviation BLOCK :: nat where "BLOCK \<equiv> 32"

definition MAX_OPS :: nat where "MAX_OPS = 1024"
definition UNCLAIMED_NONCE :: u64 where "UNCLAIMED_NONCE = 0"

section \<open>Geometry\<close>

text \<open>\<open>pack::blocked_geometry\<close>: blocks, byte groups per row, and bytes of the blocked layout.\<close>

definition blocked_geometry :: "nat \<Rightarrow> nat \<Rightarrow> nat \<Rightarrow> nat \<times> nat \<times> nat" where
  "blocked_geometry n_vectors bits dim =
     (let codes_per_byte = 8 div bits;
          n_byte_groups = dim div codes_per_byte;
          n_blocks = (n_vectors + BLOCK - 1) div BLOCK
      in (n_blocks, n_byte_groups, n_blocks * n_byte_groups * BLOCK))"

record geo =
  g_kind :: u8
  g_dim :: nat
  g_bit_width :: nat
  g_n_calib :: nat
  g_version :: u8
  g_layout :: u8

definition geo_v8 :: "u8 \<Rightarrow> nat \<Rightarrow> nat \<Rightarrow> nat \<Rightarrow> u8 \<Rightarrow> geo" where
  "geo_v8 kind dim bit_width n_calib layout =
     \<lparr>g_kind = kind, g_dim = dim, g_bit_width = bit_width, g_n_calib = n_calib,
      g_version = 8, g_layout = layout\<rparr>"

definition sb_fixed :: "geo \<Rightarrow> nat" where
  "sb_fixed g = (if g_version g = 8 then 24 else 23)"

definition row_bytes :: "geo \<Rightarrow> nat" where
  "row_bytes g = (let (_, n_byte_groups, _) = blocked_geometry 1 (g_bit_width g) (g_dim g)
                  in n_byte_groups)"

definition n_levels :: "geo \<Rightarrow> nat" where
  "n_levels g = 2 ^ g_bit_width g"

definition id_bytes :: "geo \<Rightarrow> nat \<Rightarrow> nat" where
  "id_bytes g rows = (if g_kind g = 1 then rows * 8 else 0)"

definition sb_len :: "geo \<Rightarrow> nat" where
  "sb_len g = sb_fixed g + (n_levels g - 1) * 4 + n_levels g * 4 + 4 + g_n_calib g * 8 + 4"

definition op_size :: "geo \<Rightarrow> nat" where
  "op_size g = 1 + row_bytes g + 4 + id_bytes g 1"

definition hdr_probe_len :: "geo \<Rightarrow> nat" where
  "hdr_probe_len g =
     16 + 31 * (row_bytes g + 4 + id_bytes g 1) + 4 + 4 + MAX_OPS * 4 + 12 + 4"

definition hdr_len :: "geo \<Rightarrow> nat" where
  "hdr_len g =
     16 + 31 * (row_bytes g + 4 + id_bytes g 1) + 4 + MAX_OPS * (5 + op_size g)
       + 4 + MAX_OPS * 4 + 12 + 4"

definition hdr_at :: "geo \<Rightarrow> nat \<Rightarrow> nat" where
  "hdr_at g slot = sb_len g + slot * hdr_len g"

definition unit_len :: "geo \<Rightarrow> nat" where
  "unit_len g = BLOCK * row_bytes g + BLOCK * 4 + id_bytes g BLOCK"

definition unit_at :: "geo \<Rightarrow> nat \<Rightarrow> nat" where
  "unit_at g block = hdr_at g 2 + block * unit_len g"

definition full_len :: "geo \<Rightarrow> nat \<Rightarrow> nat" where
  "full_len g n_vectors = unit_at g (n_vectors div BLOCK)"

text \<open>One stored row outside a unit: its codes, scale and (id-mapped files) id.\<close>

definition tail_row :: "geo \<Rightarrow> nat" where
  "tail_row g = row_bytes g + 4 + id_bytes g 1"

section \<open>Cursor and source\<close>

record sync_cursor =
  sc_gen :: u64
  sc_n_synced :: u64
  sc_calib_gen :: u64
  sc_nonce :: u64

record sync_source =
  ss_kind :: u8
  ss_dim :: nat
  ss_bit_width :: nat
  ss_n_vectors :: nat
  ss_version :: u8
  ss_layout :: u8
  ss_unit_codes :: "nat \<Rightarrow> nat \<Rightarrow> bytes"
  ss_row_codes :: "nat \<Rightarrow> bytes"
  ss_scales :: "f32 list"
  ss_ids :: "u64 list option"
  ss_tqplus_shift :: "f32 list"
  ss_tqplus_scale :: "f32 list"
  ss_boundaries :: "f32 list"
  ss_centroids :: "f32 list"

definition src_geo :: "sync_source \<Rightarrow> geo" where
  "src_geo src =
     \<lparr>g_kind = ss_kind src, g_dim = ss_dim src, g_bit_width = ss_bit_width src,
      g_n_calib = length (ss_tqplus_shift src), g_version = ss_version src,
      g_layout = ss_layout src\<rparr>"

section \<open>Serialization\<close>

definition f32s_to_le :: "f32 list \<Rightarrow> bytes" where
  "f32s_to_le vs = concat (map u32_to_le vs)"

definition superblock :: "sync_source \<Rightarrow> u64 \<Rightarrow> bytes" where
  "superblock src nonce =
     (let head = (if ss_version src = 8
                  then V8_MAGIC @ [V8_VERSION, of_nat (ss_bit_width src), ss_kind src, ss_layout src]
                  else V7_MAGIC @ [V7_VERSION, of_nat (ss_bit_width src), ss_kind src]);
          sb = head @ u32_to_le (of_nat (ss_dim src)) @ u64_to_le nonce
                 @ u32_to_le (of_nat MAX_OPS)
                 @ f32s_to_le (ss_boundaries src) @ f32s_to_le (ss_centroids src)
                 @ u32_to_le (of_nat (length (ss_tqplus_shift src)))
                 @ f32s_to_le (ss_tqplus_shift src) @ f32s_to_le (ss_tqplus_scale src)
      in sb @ u32_to_le (crc32 sb))"

text \<open>A stored row: sequential code bytes, scale, and the id when the index keeps ids.\<close>

definition row_record :: "sync_source \<Rightarrow> nat \<Rightarrow> bytes" where
  "row_record src r =
     ss_row_codes src r @ u32_to_le (ss_scales src ! r)
       @ (case ss_ids src of None \<Rightarrow> [] | Some ids \<Rightarrow> u64_to_le (ids ! r))"

definition op_record :: "sync_source \<Rightarrow> nat \<Rightarrow> bytes" where
  "op_record src s = of_nat (s mod BLOCK) # row_record src s"

definition group_record :: "sync_source \<Rightarrow> nat \<times> nat list \<Rightarrow> bytes" where
  "group_record src g =
     (case g of (block, slots) \<Rightarrow>
        u32_to_le (of_nat block) @ [of_nat (length slots)]
          @ concat (map (op_record src) slots))"

text \<open>
  \<open>header_slot\<close>: generation, row count, the tail rows, the pending-op groups, the delta
  descriptor (materialized units, appended range, digest) and the CRC, used prefix only.
\<close>

definition header_body ::
  "sync_source \<Rightarrow> u64 \<Rightarrow> nat \<Rightarrow> (nat \<times> nat list) list \<Rightarrow> nat list \<Rightarrow> nat \<times> nat \<Rightarrow> u32 \<Rightarrow> bytes" where
  "header_body src gen n ops mat app delta_crc =
     (let n_tail = n mod BLOCK; first_tail = n - n_tail in
      u64_to_le gen @ u64_to_le (of_nat n)
        @ concat (map (\<lambda>k. row_record src (first_tail + k)) [0..<n_tail])
        @ u32_to_le (of_nat (length ops)) @ concat (map (group_record src) ops)
        @ u32_to_le (of_nat (length mat)) @ concat (map (\<lambda>b. u32_to_le (of_nat b)) mat)
        @ u32_to_le (of_nat (fst app)) @ u32_to_le (of_nat (snd app)) @ u32_to_le delta_crc)"

definition header_slot ::
  "sync_source \<Rightarrow> u64 \<Rightarrow> nat \<Rightarrow> (nat \<times> nat list) list \<Rightarrow> nat list \<Rightarrow> nat \<times> nat \<Rightarrow> u32 \<Rightarrow> bytes" where
  "header_slot src gen n ops mat app delta_crc =
     (let h = header_body src gen n ops mat app delta_crc in h @ u32_to_le (crc32 h))"

definition unit_scales :: "sync_source \<Rightarrow> nat \<Rightarrow> bytes" where
  "unit_scales src from =
     concat (map (\<lambda>lane. u32_to_le (if from + lane < ss_n_vectors src
                                     then ss_scales src ! (from + lane) else 0)) [0..<BLOCK])"

definition unit_ids :: "sync_source \<Rightarrow> nat \<Rightarrow> bytes" where
  "unit_ids src from =
     (case ss_ids src of None \<Rightarrow> []
      | Some ids \<Rightarrow>
          concat (map (\<lambda>lane. u64_to_le (if from + lane < ss_n_vectors src
                                          then ids ! (from + lane) else 0)) [0..<BLOCK]))"

definition unit_bytes :: "sync_source \<Rightarrow> nat \<Rightarrow> bytes" where
  "unit_bytes src block =
     (let from = block * BLOCK
      in ss_unit_codes src from (from + BLOCK) @ unit_scales src from @ unit_ids src from)"

section \<open>Well-formed sources\<close>

text \<open>
  What \<open>lib.rs\<close> hands to a sync: every row and unit encoder returns the geometry's byte
  count, the per-row arrays have one entry per row, ids are present exactly for kind 1, and
  the sizes fit the fields that store them.
\<close>

definition wf_source :: "sync_source \<Rightarrow> bool" where
  "wf_source src \<longleftrightarrow>
     (let g = src_geo src in
      ss_bit_width src \<in> {2, 3, 4} \<and> ss_dim src mod 8 = 0 \<and> ss_dim src \<le> 16384 \<and>
      ss_version src \<in> {7, 8} \<and> (ss_version src = 7 \<longrightarrow> ss_layout src = LAYOUT_SEQ) \<and>
      (\<forall>r < ss_n_vectors src. length (ss_row_codes src r) = row_bytes g) \<and>
      (\<forall>b < ss_n_vectors src div BLOCK.
         length (ss_unit_codes src (b * BLOCK) (b * BLOCK + BLOCK)) = BLOCK * row_bytes g) \<and>
      length (ss_scales src) = ss_n_vectors src \<and>
      (case ss_ids src of None \<Rightarrow> ss_kind src = 0
       | Some ids \<Rightarrow> ss_kind src = 1 \<and> length ids = ss_n_vectors src) \<and>
      length (ss_tqplus_scale src) = length (ss_tqplus_shift src) \<and>
      length (ss_boundaries src) = n_levels g - 1 \<and> length (ss_centroids src) = n_levels g \<and>
      ss_n_vectors src < 32 * 4294967296)"

section \<open>Sizes\<close>

lemma length_concat_const: "(\<And>x. x \<in> set xs \<Longrightarrow> length (f x) = k) \<Longrightarrow> length (concat (map f xs)) = k * length xs"
  by (induction xs) auto

lemma nth_concat_const:
  assumes "\<And>x. x \<in> set xs \<Longrightarrow> length (f x) = k" and "i < length xs" and "j < k"
  shows "concat (map f xs) ! (i * k + j) = f (xs ! i) ! j"
  using assms
proof (induction xs arbitrary: i)
  case Nil
  then show ?case by simp
next
  case (Cons x xs)
  show ?case
  proof (cases i)
    case 0
    then show ?thesis using Cons.prems by (simp add: nth_append)
  next
    case (Suc i')
    have "length (f x) = k" using Cons.prems by simp
    then have "concat (map f (x # xs)) ! (i * k + j) = concat (map f xs) ! (i' * k + j)"
      by (simp add: Suc nth_append)
    then show ?thesis using Cons Suc by simp
  qed
qed

lemma length_f32s_to_le [simp, bytes_simps]: "length (f32s_to_le vs) = 4 * length vs"
  by (simp add: f32s_to_le_def length_concat_const)

lemma src_geo_simps [simp]:
  "g_kind (src_geo src) = ss_kind src" "g_dim (src_geo src) = ss_dim src"
  "g_bit_width (src_geo src) = ss_bit_width src" "g_version (src_geo src) = ss_version src"
  "g_layout (src_geo src) = ss_layout src"
  "g_n_calib (src_geo src) = length (ss_tqplus_shift src)"
  by (simp_all add: src_geo_def)

lemma wf_sourceD:
  assumes "wf_source src"
  shows "r < ss_n_vectors src \<Longrightarrow> length (ss_row_codes src r) = row_bytes (src_geo src)"
    and "b < ss_n_vectors src div BLOCK \<Longrightarrow>
      length (ss_unit_codes src (b * BLOCK) (b * BLOCK + BLOCK)) = BLOCK * row_bytes (src_geo src)"
    and "length (ss_scales src) = ss_n_vectors src"
    and "ss_n_vectors src < 32 * 4294967296"
    and "length (ss_tqplus_scale src) = length (ss_tqplus_shift src)"
    and "length (ss_boundaries src) = n_levels (src_geo src) - 1"
    and "length (ss_centroids src) = n_levels (src_geo src)"
    and "ss_bit_width src \<in> {2, 3, 4}" and "ss_version src \<in> {7, 8}"
    and "ss_dim src \<le> 16384" and "ss_dim src mod 8 = 0"
    and "ss_kind src = 0 \<or> ss_kind src = 1"
    and "ss_version src = 7 \<Longrightarrow> ss_layout src = LAYOUT_SEQ"
  using assms by (auto simp: wf_source_def Let_def split: option.splits)

lemma wf_source_ids:
  assumes "wf_source src"
  shows "ss_kind src = 1 \<Longrightarrow> \<exists>ids. ss_ids src = Some ids \<and> length ids = ss_n_vectors src"
    and "ss_kind src \<noteq> 1 \<Longrightarrow> ss_ids src = None"
    and "ss_ids src = Some ids \<Longrightarrow> ss_kind src = 1 \<and> length ids = ss_n_vectors src"
  using assms by (auto simp: wf_source_def Let_def split: option.splits)

lemma length_row_record [bytes_simps]:
  assumes "wf_source src" and "r < ss_n_vectors src"
  shows "length (row_record src r) = tail_row (src_geo src)"
  using assms wf_sourceD(1) [OF assms] wf_source_ids [OF assms(1)]
  by (cases "ss_ids src") (auto simp: row_record_def tail_row_def id_bytes_def)

lemma op_size_tail_row: "op_size g = Suc (tail_row g)"
  by (simp add: op_size_def tail_row_def)

lemma length_op_record [bytes_simps]:
  assumes "wf_source src" and "s < ss_n_vectors src"
  shows "length (op_record src s) = op_size (src_geo src)"
  using length_row_record [OF assms] by (simp add: op_record_def op_size_tail_row)

lemma length_superblock:
  assumes "wf_source src"
  shows "length (superblock src nonce) = sb_len (src_geo src)"
  using wf_sourceD(5-7) [OF assms]
  by (simp add: superblock_def sb_len_def sb_fixed_def V7_MAGIC_def V8_MAGIC_def Let_def)

lemma length_unit_bytes:
  assumes "wf_source src" and "b < ss_n_vectors src div BLOCK"
  shows "length (unit_bytes src b) = unit_len (src_geo src)"
proof -
  have "length (unit_ids src (b * BLOCK)) = id_bytes (src_geo src) BLOCK"
    using wf_source_ids [OF assms(1)]
    by (cases "ss_ids src") (auto simp: unit_ids_def id_bytes_def length_concat_const)
  then show ?thesis
    using wf_sourceD(2) [OF assms]
    by (simp add: unit_bytes_def unit_len_def unit_scales_def length_concat_const Let_def)
qed

lemma unit_len_pos [simp]: "0 < unit_len g"
  by (simp add: unit_len_def)

lemma hdr_probe_le_hdr_len: "hdr_probe_len g \<le> hdr_len g"
  by (simp add: hdr_probe_len_def hdr_len_def op_size_def MAX_OPS_def)

text \<open>The regions of a file, in order and without overlap.\<close>

lemma hdr_at_0: "hdr_at g 0 = sb_len g"
  by (simp add: hdr_at_def)

lemma hdr_at_1: "hdr_at g 1 = sb_len g + hdr_len g"
  by (simp add: hdr_at_def)

lemma hdr_at_mono: "slot < slot' \<Longrightarrow> hdr_at g slot + hdr_len g \<le> hdr_at g slot'"
proof -
  assume "slot < slot'"
  then obtain d where d: "slot' = Suc slot + d" using less_iff_Suc_add [of slot slot'] by auto
  show ?thesis by (simp add: hdr_at_def d add_mult_distrib)
qed

lemma hdr_before_units: "slot < 2 \<Longrightarrow> hdr_at g slot + hdr_len g \<le> unit_at g b"
  using hdr_at_mono [of slot 2 g] by (simp add: unit_at_def)

lemma unit_at_Suc: "unit_at g (Suc b) = unit_at g b + unit_len g"
  by (simp add: unit_at_def)

lemma unit_at_mono: "b < c \<Longrightarrow> unit_at g b + unit_len g \<le> unit_at g c"
proof -
  assume "b < c"
  then obtain d where d: "c = Suc b + d" using less_iff_Suc_add [of b c] by auto
  show ?thesis by (simp add: unit_at_def d add_mult_distrib)
qed

lemma unit_at_disjoint:
  "b \<noteq> c \<Longrightarrow> unit_at g b + unit_len g \<le> unit_at g c \<or> unit_at g c + unit_len g \<le> unit_at g b"
  using unit_at_mono by (metis nat_neq_iff)

end
