(* ===== verification/Header.thy ===== *)
theory Header
  imports Geometry
begin

text \<open>
  The commit header's parser (\<open>parse_header_at\<close>, \<open>parse_header_slot\<close>) and its round trip with
  the writer \<open>header_slot\<close>. Every field is read through a bounds-checked slice, so the parser
  is a chain of \<open>Option.bind\<close>s; its three loops are recursive functions over the declared counts.
\<close>

section \<open>Definitions\<close>

record parsed_hdr =
  ph_gen :: u64
  ph_n :: nat
  ph_tail_at :: nat
  ph_groups :: "(nat \<times> (nat \<times> nat) list) list"
  ph_delta_mat :: "nat list"
  ph_delta_app :: "nat \<times> nat"
  ph_delta_crc :: u32
  ph_used :: nat

text \<open>One group's ops: \<open>(global slot, payload offset in the file)\<close>.\<close>

fun parse_ops :: "bytes \<Rightarrow> nat \<Rightarrow> nat \<Rightarrow> nat \<Rightarrow> nat \<Rightarrow> nat \<Rightarrow> ((nat \<times> nat) list \<times> nat) option" where
  "parse_ops bs at osz b 0 p = Some ([], p)"
| "parse_ops bs at osz b (Suc k) p =
     do {
       l \<leftarrow> get_at bs p;
       guard_opt (unat l < BLOCK);
       (ops, q) \<leftarrow> parse_ops bs at osz b k (p + osz);
       Some ((b * BLOCK + unat l, at + p + 1) # ops, q)
     }"

fun parse_groups ::
  "bytes \<Rightarrow> nat \<Rightarrow> nat \<Rightarrow> nat \<Rightarrow> nat \<Rightarrow> nat \<Rightarrow> ((nat \<times> (nat \<times> nat) list) list \<times> nat) option" where
  "parse_groups bs at osz n_blocks 0 p = Some ([], p)"
| "parse_groups bs at osz n_blocks (Suc k) p =
     do {
       b \<leftarrow> read_u32 bs p;
       guard_opt (unat b < n_blocks);
       n_ops \<leftarrow> get_at bs (p + 4);
       (ops, q) \<leftarrow> parse_ops bs at osz (unat b) (unat n_ops) (p + 5);
       (groups, r) \<leftarrow> parse_groups bs at osz n_blocks k q;
       Some ((unat b, ops) # groups, r)
     }"

fun parse_u32s :: "bytes \<Rightarrow> nat \<Rightarrow> nat \<Rightarrow> (nat list \<times> nat) option" where
  "parse_u32s bs 0 p = Some ([], p)"
| "parse_u32s bs (Suc k) p =
     do {
       w \<leftarrow> read_u32 bs p;
       (ws, q) \<leftarrow> parse_u32s bs k (p + 4);
       Some (unat w # ws, q)
     }"

definition parse_header_at :: "bytes \<Rightarrow> nat \<Rightarrow> geo \<Rightarrow> nat \<Rightarrow> nat \<Rightarrow> parsed_hdr option" where
  "parse_header_at bs at g slot file_len =
     do {
       gen \<leftarrow> read_u64 bs 0;
       guard_opt (unat (gen mod 2) = slot);
       n64 \<leftarrow> read_u64 bs 8;
       let n = unat n64;
       units \<leftarrow> checked_mul (n div BLOCK) (unit_len g);
       units_end \<leftarrow> checked_add units (unit_at g 0);
       guard_opt (units_end \<le> file_len);
       let p = 16 + (n mod BLOCK) * tail_row g;
       n_units \<leftarrow> read_u32 bs p;
       guard_opt (unat n_units \<le> MAX_OPS);
       (groups, p) \<leftarrow> parse_groups bs at (op_size g) (n div BLOCK) (unat n_units) (p + 4);
       n_mat \<leftarrow> read_u32 bs p;
       guard_opt (unat n_mat \<le> MAX_OPS);
       (delta_mat, p) \<leftarrow> parse_u32s bs (unat n_mat) (p + 4);
       app_from \<leftarrow> read_u32 bs p;
       app_to \<leftarrow> read_u32 bs (p + 4);
       delta_crc \<leftarrow> read_u32 bs (p + 8);
       let p = p + 12;
       stored \<leftarrow> read_u32 bs p;
       body \<leftarrow> get_range bs 0 p;
       guard_opt (crc32 body = stored);
       Some \<lparr>ph_gen = gen, ph_n = n, ph_tail_at = at + 16, ph_groups = groups,
             ph_delta_mat = delta_mat, ph_delta_app = (unat app_from, unat app_to),
             ph_delta_crc = delta_crc, ph_used = p + 4\<rparr>
     }"

definition parse_header_slot :: "bytes \<Rightarrow> geo \<Rightarrow> nat \<Rightarrow> nat \<Rightarrow> parsed_hdr option" where
  "parse_header_slot raw g slot file_len =
     do {
       bs \<leftarrow> get_range raw (hdr_at g slot) (hdr_at g slot + hdr_len g);
       parse_header_at bs (hdr_at g slot) g slot file_len
     }"

section \<open>Round trip of the loops\<close>

text \<open>What the parser makes of a group written by \<open>group_record\<close> at offset \<open>p\<close>.\<close>

fun ops_at :: "nat \<Rightarrow> nat \<Rightarrow> nat list \<Rightarrow> nat \<Rightarrow> (nat \<times> nat) list" where
  "ops_at at osz [] p = []"
| "ops_at at osz (s # ss) p = (s, at + p + 1) # ops_at at osz ss (p + osz)"

fun groups_at :: "nat \<Rightarrow> nat \<Rightarrow> (nat \<times> nat list) list \<Rightarrow> nat \<Rightarrow> (nat \<times> (nat \<times> nat) list) list" where
  "groups_at at osz [] p = []"
| "groups_at at osz ((b, ss) # gs) p =
     (b, ops_at at osz ss (p + 5)) # groups_at at osz gs (p + 5 + length ss * osz)"

text \<open>Groups as \<open>plan_incremental\<close> builds them: slots of committed blocks, counts that fit
  their byte.\<close>

definition wf_groups :: "nat \<Rightarrow> (nat \<times> nat list) list \<Rightarrow> bool" where
  "wf_groups n_blocks gs \<longleftrightarrow>
     (\<forall>(b, ss) \<in> set gs. b < n_blocks \<and> length ss \<le> 32 \<and> (\<forall>s \<in> set ss. s div BLOCK = b))"

lemma wf_groups_simps [simp]:
  "wf_groups nb []"
  "wf_groups nb ((b, ss) # gs) \<longleftrightarrow>
     b < nb \<and> length ss \<le> 32 \<and> (\<forall>s \<in> set ss. s div BLOCK = b) \<and> wf_groups nb gs"
  by (auto simp: wf_groups_def)

lemma parse_ops_roundtrip:
  assumes "wf_source src" and "\<forall>s \<in> set ss. s div BLOCK = b \<and> s < ss_n_vectors src"
    and "osz = op_size (src_geo src)" and "p = length pre"
  shows "parse_ops (pre @ concat (map (op_record src) ss) @ post) at osz b (length ss) p
       = Some (ops_at at osz ss p, p + length ss * osz)"
  using assms
proof (induction ss arbitrary: pre p)
  case Nil
  then show ?case by simp
next
  case (Cons s ss)
  define bs where "bs = pre @ concat (map (op_record src) (s # ss)) @ post"
  have lane: "get_at bs p = Some (of_nat (s mod BLOCK))"
    using Cons.prems(4) by (simp add: op_record_def get_at_mid bs_def)
  have len: "length (op_record src s) = osz"
    using Cons.prems by (simp add: length_op_record)
  have IH: "parse_ops bs at osz b (length ss) (p + osz)
      = Some (ops_at at osz ss (p + osz), p + osz + length ss * osz)"
    using Cons.IH [of "p + osz" "pre @ op_record src s"] Cons.prems len by (simp add: bs_def)
  have "unat (of_nat (s mod BLOCK) :: u8) = s mod BLOCK"
    by (simp add: unat_of_nat_u8)
  moreover have "b * BLOCK + s mod BLOCK = s" using Cons.prems(2) by auto
  ultimately show ?case unfolding bs_def [symmetric] by (simp add: lane IH)
qed

lemma length_group_record:
  assumes "wf_source src" and "\<forall>s \<in> set ss. s < ss_n_vectors src"
  shows "length (group_record src (b, ss)) = 5 + length ss * op_size (src_geo src)"
  using assms by (simp add: group_record_def length_concat_const length_op_record)

lemma parse_groups_roundtrip:
  assumes "wf_source src" and "wf_groups nb gs" and "nb * BLOCK \<le> ss_n_vectors src"
    and "osz = op_size (src_geo src)" and "p = length pre" and "nb < 4294967296"
  shows "parse_groups (pre @ concat (map (group_record src) gs) @ post) at osz nb (length gs) p
       = Some (groups_at at osz gs p, p + length (concat (map (group_record src) gs)))"
  using assms
proof (induction gs arbitrary: pre p)
  case Nil
  then show ?case by simp
next
  case (Cons g gs)
  obtain b ss where g: "g = (b, ss)" by (cases g)
  let ?rest = "concat (map (group_record src) gs) @ post"
  let ?bs = "pre @ concat (map (group_record src) (g # gs)) @ post"
  have slots: "\<forall>s \<in> set ss. s div BLOCK = b \<and> s < ss_n_vectors src"
    using Cons.prems(2,3) by (auto simp: g)
  have b: "b < nb" "length ss \<le> 32" using Cons.prems(2) by (simp_all add: g)
  have len: "length (group_record src g) = 5 + length ss * osz"
    using Cons.prems slots by (simp add: g length_group_record)
  have bs1: "?bs = pre @ u32_to_le (of_nat b) @ ([of_nat (length ss)]
      @ concat (map (op_record src) ss) @ ?rest)"
    by (simp add: g group_record_def)
  have bs2: "?bs = (pre @ u32_to_le (of_nat b)) @ of_nat (length ss)
      # (concat (map (op_record src) ss) @ ?rest)"
    by (simp add: g group_record_def)
  have bs3: "?bs = (pre @ u32_to_le (of_nat b) @ [of_nat (length ss)])
      @ concat (map (op_record src) ss) @ ?rest"
    by (simp add: g group_record_def)
  have r1: "read_u32 ?bs p = Some (of_nat b)"
    unfolding bs1 using Cons.prems(5) by (rule read_u32_mid)
  have r2: "get_at ?bs (p + 4) = Some (of_nat (length ss))"
    unfolding bs2 by (rule get_at_mid) (simp add: Cons.prems(5))
  have r3: "parse_ops ?bs at osz b (length ss) (p + 5)
      = Some (ops_at at osz ss (p + 5), p + 5 + length ss * osz)"
    unfolding bs3 by (rule parse_ops_roundtrip) (use Cons.prems slots in auto)
  have r4: "parse_groups ?bs at osz nb (length gs) (p + 5 + length ss * osz)
      = Some (groups_at at osz gs (p + 5 + length ss * osz),
              p + 5 + length ss * osz + length (concat (map (group_record src) gs)))"
    using Cons.IH [of "p + 5 + length ss * osz" "pre @ group_record src g"] Cons.prems len
    by (simp add: g)
  have ub: "unat (of_nat b :: u32) = b" and ul: "unat (of_nat (length ss) :: u8) = length ss"
    using b Cons.prems(6) by (simp_all add: unat_of_nat_u32 unat_of_nat_u8)
  show ?case
    by (simp add: r1 r2 ub ul r3 r4 b del: map_eq_conv list.map concat.simps)
      (simp add: g len [unfolded g])
qed

lemma parse_u32s_roundtrip:
  assumes "\<forall>b \<in> set ws. b < 4294967296" and "p = length pre"
  shows "parse_u32s (pre @ concat (map (\<lambda>b. u32_to_le (of_nat b)) ws) @ post) (length ws) p
       = Some (ws, p + 4 * length ws)"
  using assms
proof (induction ws arbitrary: pre p)
  case Nil
  then show ?case by simp
next
  case (Cons w ws)
  have "read_u32 (pre @ concat (map (\<lambda>b. u32_to_le (of_nat b)) (w # ws)) @ post) p
      = Some (of_nat w)"
    using Cons.prems(2) by (simp add: read_u32_mid)
  moreover have "parse_u32s ((pre @ u32_to_le (of_nat w))
      @ concat (map (\<lambda>b. u32_to_le (of_nat b)) ws) @ post) (length ws) (p + 4)
      = Some (ws, p + 4 + 4 * length ws)"
    using Cons.prems by (intro Cons.IH) auto
  ultimately show ?case using Cons.prems(1) by (simp add: unat_of_nat_u32)
qed

section \<open>Round trip of the header\<close>

definition header_tail :: "sync_source \<Rightarrow> nat \<Rightarrow> bytes" where
  "header_tail src n = concat (map (\<lambda>k. row_record src (n - n mod BLOCK + k)) [0..<n mod BLOCK])"

lemma length_header_tail:
  assumes "wf_source src" and "n = ss_n_vectors src"
  shows "length (header_tail src n) = n mod BLOCK * tail_row (src_geo src)"
proof -
  have "n - n mod BLOCK + k < ss_n_vectors src" if "k < n mod BLOCK" for k
    using that assms(2) by (metis add.commute le_add_diff_inverse2 mod_less_eq_dividend nat_add_left_cancel_less)
  then have "length (row_record src (n - n mod BLOCK + k)) = tail_row (src_geo src)"
    if "k \<in> set [0..<n mod BLOCK]" for k
    using that assms(1) by (simp add: length_row_record)
  then show ?thesis unfolding header_tail_def by (subst length_concat_const) auto
qed

text \<open>The header's fields in order, reassociated around one field at a time.\<close>

lemma header_body_fields:
  "header_body src gen n ops mat app crc =
     u64_to_le gen @ u64_to_le (of_nat n) @ header_tail src n
       @ u32_to_le (of_nat (length ops)) @ concat (map (group_record src) ops)
       @ u32_to_le (of_nat (length mat)) @ concat (map (\<lambda>b. u32_to_le (of_nat b)) mat)
       @ u32_to_le (of_nat (fst app)) @ u32_to_le (of_nat (snd app)) @ u32_to_le crc"
  by (simp add: header_body_def header_tail_def Let_def)

definition parsed_of ::
  "sync_source \<Rightarrow> nat \<Rightarrow> u64 \<Rightarrow> nat \<Rightarrow> (nat \<times> nat list) list \<Rightarrow> nat list \<Rightarrow> nat \<times> nat \<Rightarrow> u32 \<Rightarrow> parsed_hdr"
where
  "parsed_of src at gen n ops mat app crc =
     \<lparr>ph_gen = gen, ph_n = n, ph_tail_at = at + 16,
      ph_groups = groups_at at (op_size (src_geo src)) ops
                    (20 + n mod BLOCK * tail_row (src_geo src)),
      ph_delta_mat = mat, ph_delta_app = app, ph_delta_crc = crc,
      ph_used = length (header_slot src gen n ops mat app crc)\<rparr>"

lemma parse_header_roundtrip:
  assumes wf: "wf_source src" and n: "n = ss_n_vectors src"
    and groups: "wf_groups (n div BLOCK) ops" "length ops \<le> MAX_OPS"
    and mat: "length mat \<le> MAX_OPS" "\<forall>b \<in> set mat. b < 4294967296"
    and app: "fst app < 4294967296" "snd app < 4294967296"
    and slot: "slot = unat (gen mod 2)"
    and fits: "unit_at (src_geo src) (n div BLOCK) \<le> file_len" "file_len \<le> usize_max"
  shows "parse_header_at (header_slot src gen n ops mat app crc @ post) at (src_geo src) slot file_len
       = Some (parsed_of src at gen n ops mat app crc)"
proof -
  define g where "g = src_geo src"
  define T where "T = header_tail src n"
  define G where "G = concat (map (group_record src) ops)"
  define M where "M = concat (map (\<lambda>b. u32_to_le (of_nat b)) mat)"
  define gn where "gn = u64_to_le gen @ u64_to_le (of_nat n)"
  define h where "h = header_body src gen n ops mat app crc"
  define bs where "bs = header_slot src gen n ops mat app crc @ post"
  have h: "h = gn @ T @ u32_to_le (of_nat (length ops)) @ G
      @ u32_to_le (of_nat (length mat)) @ M
      @ u32_to_le (of_nat (fst app)) @ u32_to_le (of_nat (snd app)) @ u32_to_le crc"
    by (simp add: h_def gn_def header_body_fields T_def G_def M_def)
  have bs: "bs = h @ u32_to_le (crc32 h) @ post"
    by (simp add: bs_def header_slot_def h_def Let_def)
  have n32: "n < 32 * 4294967296" using wf_sourceD(4) [OF wf] n by simp
  have nw: "unat (of_nat n :: u64) = n" using n32 by (simp add: unat_of_nat_u64)
  define p1 where "p1 = 16 + n mod BLOCK * tail_row g"
  define p2 where "p2 = p1 + 4 + length G"
  define p3 where "p3 = p2 + 4 + 4 * length mat"
  have lgn: "length gn = 16" by (simp add: gn_def)
  have lT: "length T = n mod BLOCK * tail_row g"
    using length_header_tail [OF wf n] by (simp add: T_def g_def)
  have lM: "length M = 4 * length mat" by (simp add: M_def length_concat_const)
  have r0: "read_u64 bs 0 = Some gen"
    using read_u64_mid [of 0 "[]" gen] by (simp add: bs h gn_def)
  have r8: "read_u64 bs 8 = Some (of_nat n)"
    using read_u64_mid [of 8 "u64_to_le gen" "of_nat n"] by (simp add: bs h gn_def)
  have r1: "read_u32 bs p1 = Some (of_nat (length ops))"
    unfolding bs h using read_u32_mid [of p1 "gn @ T" "of_nat (length ops)"]
    by (simp add: p1_def lgn lT)
  have r2: "parse_groups bs at (op_size g) (n div BLOCK) (length ops) (p1 + 4)
      = Some (groups_at at (op_size g) ops (p1 + 4), p2)"
  proof -
    have "n div BLOCK < 4294967296" using n32 by (simp add: less_mult_imp_div_less)
    from parse_groups_roundtrip [OF wf groups(1) _ _ _ this, of "op_size g" "p1 + 4"
        "gn @ T @ u32_to_le (of_nat (length ops))"
        "u32_to_le (of_nat (length mat)) @ M @ u32_to_le (of_nat (fst app))
          @ u32_to_le (of_nat (snd app)) @ u32_to_le crc @ u32_to_le (crc32 h) @ post" at]
    show ?thesis
      by (simp add: bs h [symmetric] g_def n p1_def lgn lT p2_def)
        (simp add: h G_def n g_def)
  qed
  have r3: "read_u32 bs p2 = Some (of_nat (length mat))"
    unfolding bs h
    using read_u32_mid [of p2 "gn @ T @ u32_to_le (of_nat (length ops)) @ G" "of_nat (length mat)"]
    by (simp add: p2_def p1_def lgn lT)
  have r4: "parse_u32s bs (length mat) (p2 + 4) = Some (mat, p3)"
    unfolding bs h
    using parse_u32s_roundtrip [OF mat(2), of "p2 + 4"
        "gn @ T @ u32_to_le (of_nat (length ops)) @ G @ u32_to_le (of_nat (length mat))"]
    by (simp add: p3_def p2_def p1_def lgn lT M_def)
  let ?pre = "gn @ T @ u32_to_le (of_nat (length ops)) @ G @ u32_to_le (of_nat (length mat)) @ M"
  have lpre: "length ?pre = p3" by (simp add: p3_def p2_def p1_def lgn lT lM)
  have r5: "read_u32 bs p3 = Some (of_nat (fst app))"
    by (rule read_u32_at [of _ ?pre _ "u32_to_le (of_nat (snd app)) @ u32_to_le crc
        @ u32_to_le (crc32 h) @ post"]) (simp_all add: bs h lpre [symmetric])
  have r6: "read_u32 bs (p3 + 4) = Some (of_nat (snd app))"
    by (rule read_u32_at [of _ "?pre @ u32_to_le (of_nat (fst app))" _ "u32_to_le crc
        @ u32_to_le (crc32 h) @ post"]) (simp_all add: bs h lpre [symmetric])
  have r7: "read_u32 bs (p3 + 8) = Some crc"
    by (rule read_u32_at [of _ "?pre @ u32_to_le (of_nat (fst app)) @ u32_to_le (of_nat (snd app))" _
        "u32_to_le (crc32 h) @ post"]) (simp_all add: bs h lpre [symmetric])
  have lh: "length h = p3 + 12" unfolding h using lpre by simp
  have r9: "read_u32 bs (p3 + 12) = Some (crc32 h)"
    unfolding bs using read_u32_mid [of "p3 + 12" h] lh by simp
  have r10: "get_range bs 0 (p3 + 12) = Some h"
    unfolding bs using get_range_mid [of 0 "[]" "p3 + 12" h] lh by simp
  have ops: "unat (of_nat (length ops) :: u32) = length ops"
    and mats: "unat (of_nat (length mat) :: u32) = length mat"
    using groups(2) mat(1) by (simp_all add: unat_of_nat_u32 MAX_OPS_def)
  have apps: "unat (of_nat (fst app) :: u32) = fst app" "unat (of_nat (snd app) :: u32) = snd app"
    using app by (simp_all add: unat_of_nat_u32)
  have e: "n div BLOCK * unit_len g + unit_at g 0 = unit_at g (n div BLOCK)"
    by (simp add: unit_at_def)
  have c: "checked_mul (n div BLOCK) (unit_len g) = Some (n div BLOCK * unit_len g)"
    "checked_add (n div BLOCK * unit_len g) (unit_at g 0) = Some (unit_at g (n div BLOCK))"
    using fits e by (auto simp: checked_mul_Some checked_add_Some g_def)
  have used: "length (header_slot src gen n ops mat app crc) = p3 + 16"
    by (simp add: header_slot_def Let_def lh flip: h_def)
  have p1: "p1 + 4 = 20 + n mod BLOCK * tail_row g" by (simp add: p1_def)
  show ?thesis
    unfolding bs_def [symmetric] g_def [symmetric]
    by (simp add: parse_header_at_def r0 r8 slot nw c fits(1) [folded g_def] r1 [unfolded p1_def] ops
        groups(2) r2 [unfolded p1] r3 mats mat(1) r4 r5 r6 r7 r9 r10 parsed_of_def apps used
        Let_def flip: g_def)
qed

end
