(* ===== verification/SyncPlan.thy ===== *)
theory SyncPlan
  imports Header
begin

text \<open>
  The incremental sync (\<open>plan_incremental\<close>, \<open>run_sync\<close>), the delta digest and its check
  (\<open>delta_digest\<close>, \<open>delta_verified\<close>), and positioned file writes. A \<open>HashSet\<close> of slots is a
  set; collecting it, sorting and removing duplicates is \<^const>\<open>sorted_list_of_set\<close>.
\<close>

section \<open>Definitions\<close>

subsection \<open>Positioned writes\<close>

definition write_at :: "nat \<Rightarrow> bytes \<Rightarrow> bytes \<Rightarrow> bytes" where
  "write_at off bs f =
     take off (f @ replicate (off - length f) 0) @ bs @ drop (off + length bs) f"

type_synonym batch = "(nat \<times> bytes) list"

record sync_plan =
  sp_batches :: "batch list"
  sp_new_cursor :: sync_cursor
  sp_carried :: "nat list"

definition run_batch :: "batch \<Rightarrow> bytes \<Rightarrow> bytes" where
  "run_batch ops f = foldl (\<lambda>f (off, bs). write_at off bs f) f ops"

text \<open>\<open>run_sync\<close> on a file that accepts every write: the batches in order, then the new cursor.\<close>

definition run_sync :: "sync_plan \<Rightarrow> bytes \<Rightarrow> bytes \<times> sync_cursor" where
  "run_sync plan f = (foldl (\<lambda>f ops. run_batch ops f) f (sp_batches plan), sp_new_cursor plan)"

subsection \<open>The delta digest\<close>

definition sat_add :: "nat \<Rightarrow> nat \<Rightarrow> nat" where
  "sat_add a b = min usize_max (a + b)"

definition sat_mul :: "nat \<Rightarrow> nat \<Rightarrow> nat" where
  "sat_mul a b = min usize_max (a * b)"

definition delta_digest :: "u64 \<Rightarrow> (nat \<times> bytes) list \<Rightarrow> u32" where
  "delta_digest gen units =
     (let n_total = foldl (\<lambda>n (b, body). sat_add n (4 + length body)) 8 units;
          d = dd_push (dd_new n_total) (u64_to_le gen)
      in dd_finish (foldl (\<lambda>d (b, body). dd_push (dd_push d (u32_to_le (of_nat b))) body) d units))"

text \<open>\<open>feed_unit\<close> pushes the unit's bytes or answers \<open>false\<close>: here it is the optional bytes.\<close>

fun dv_loop :: "(nat \<Rightarrow> bytes option) \<Rightarrow> nat list \<Rightarrow> delta_digest_state \<Rightarrow> delta_digest_state option" where
  "dv_loop feed [] d = Some d"
| "dv_loop feed (b # bs) d =
     (let d' = dd_push d (u32_to_le (of_nat b)) in
      case feed b of None \<Rightarrow> None | Some u \<Rightarrow> dv_loop feed bs (dd_push d' u))"

definition delta_blocks :: "parsed_hdr \<Rightarrow> nat list" where
  "delta_blocks h = ph_delta_mat h @ [fst (ph_delta_app h)..<snd (ph_delta_app h)]"

definition delta_verified :: "parsed_hdr \<Rightarrow> nat \<Rightarrow> (nat \<Rightarrow> bytes option) \<Rightarrow> bool" where
  "delta_verified h ulen feed =
     (let count = sat_add (length (ph_delta_mat h)) (snd (ph_delta_app h) - fst (ph_delta_app h));
          d = dd_push (dd_new (sat_add 8 (sat_mul count (4 + ulen)))) (u64_to_le (ph_gen h))
      in case dv_loop feed (delta_blocks h) d of
           None \<Rightarrow> False
         | Some d' \<Rightarrow> dd_finish d' = ph_delta_crc h)"

text \<open>The loader's feed: the unit's slice of the image, if it is all there.\<close>

definition unit_at_image :: "bytes \<Rightarrow> geo \<Rightarrow> nat \<Rightarrow> bytes option" where
  "unit_at_image raw g b = get_range raw (unit_at g b) (unit_at g b + unit_len g)"

definition delta_ok :: "bytes \<Rightarrow> geo \<Rightarrow> parsed_hdr \<Rightarrow> bool" where
  "delta_ok raw g h = delta_verified h (unit_len g) (unit_at_image raw g)"

subsection \<open>Planning\<close>

definition live_floor :: "sync_source \<Rightarrow> sync_cursor \<Rightarrow> nat" where
  "live_floor src cursor =
     min (unat (sc_n_synced cursor) div BLOCK) (ss_n_vectors src div BLOCK) * BLOCK"

definition fresh_units :: "nat \<Rightarrow> nat set \<Rightarrow> nat set" where
  "fresh_units floor fresh = (\<lambda>s. s div BLOCK) ` Set.filter (\<lambda>s. s < floor) fresh"

definition plan_materialize :: "nat \<Rightarrow> nat set \<Rightarrow> nat set \<Rightarrow> nat list" where
  "plan_materialize floor pending fresh =
     sorted_list_of_set
       (Set.filter (\<lambda>b. b \<notin> fresh_units floor fresh)
          ((\<lambda>s. s div BLOCK) ` Set.filter (\<lambda>s. s < floor) pending))"

definition plan_carried :: "nat \<Rightarrow> nat set \<Rightarrow> nat set \<Rightarrow> nat list" where
  "plan_carried floor pending fresh =
     sorted_list_of_set
       (Set.filter (\<lambda>s. s < floor \<and> s div BLOCK \<in> fresh_units floor fresh) (pending \<union> fresh))"

definition push_group :: "nat \<Rightarrow> (nat \<times> nat list) list \<Rightarrow> (nat \<times> nat list) list" where
  "push_group s groups =
     (if groups \<noteq> [] \<and> fst (last groups) = s div BLOCK
      then butlast groups @ [(fst (last groups), snd (last groups) @ [s])]
      else groups @ [(s div BLOCK, [s])])"

definition plan_groups :: "nat list \<Rightarrow> (nat \<times> nat list) list" where
  "plan_groups carried = fold push_group carried []"

text \<open>The units one sync writes, in write order.\<close>

definition plan_blocks :: "sync_source \<Rightarrow> sync_cursor \<Rightarrow> nat set \<Rightarrow> nat set \<Rightarrow> nat list" where
  "plan_blocks src cursor pending fresh =
     plan_materialize (live_floor src cursor) pending fresh
       @ [unat (sc_n_synced cursor) div BLOCK..<ss_n_vectors src div BLOCK]"

definition plan_digest :: "sync_source \<Rightarrow> u64 \<Rightarrow> nat \<Rightarrow> nat list \<Rightarrow> u32" where
  "plan_digest src gen n_written blocks =
     dd_finish
       (foldl (\<lambda>d b. dd_push (dd_push d (u32_to_le (of_nat b))) (unit_bytes src b))
          (dd_push (dd_new (8 + n_written * (4 + unit_len (src_geo src)))) (u64_to_le gen))
          blocks)"

definition clear_bytes :: "geo \<Rightarrow> u64 \<Rightarrow> nat \<Rightarrow> bytes" where
  "clear_bytes g gen used =
     u64_to_le ((gen mod 2) XOR 1) @ replicate (max 8 (min used (hdr_len g)) - 8) 0"

text \<open>The commit: the new header's bytes, and the batch that writes the units, then the header.\<close>

definition plan_header :: "sync_source \<Rightarrow> sync_cursor \<Rightarrow> nat set \<Rightarrow> nat set \<Rightarrow> bytes" where
  "plan_header src cursor pending fresh =
     (let old_blocks = unat (sc_n_synced cursor) div BLOCK;
          new_blocks = ss_n_vectors src div BLOCK;
          gen = sc_gen cursor + 1;
          materialize = plan_materialize (live_floor src cursor) pending fresh;
          groups = plan_groups (plan_carried (live_floor src cursor) pending fresh);
          n_written = length materialize + (new_blocks - old_blocks);
          delta_crc = plan_digest src gen n_written (plan_blocks src cursor pending fresh)
      in header_slot src gen (ss_n_vectors src) groups materialize (old_blocks, new_blocks) delta_crc)"

definition plan_batch :: "sync_source \<Rightarrow> sync_cursor \<Rightarrow> nat set \<Rightarrow> nat set \<Rightarrow> batch" where
  "plan_batch src cursor pending fresh =
     (let g = src_geo src; slot = unat ((sc_gen cursor + 1) mod 2)
      in map (\<lambda>b. (unit_at g b, unit_bytes src b)) (plan_blocks src cursor pending fresh)
           @ [(hdr_at g slot, plan_header src cursor pending fresh)])"

definition plan_incremental ::
  "sync_source \<Rightarrow> sync_cursor \<Rightarrow> nat set \<Rightarrow> nat set \<Rightarrow> nat option \<Rightarrow> sync_plan option" where
  "plan_incremental src cursor pending fresh clear_target =
     (let g = src_geo src;
          gen = sc_gen cursor + 1;
          carried = plan_carried (live_floor src cursor) pending fresh
      in if length carried > MAX_OPS then None
         else
           let slot = unat (gen mod 2);
               batch = plan_batch src cursor pending fresh;
               batches = (case clear_target of
                            Some used \<Rightarrow> [[(hdr_at g slot, clear_bytes g gen used)], batch]
                          | None \<Rightarrow> [batch])
           in Some \<lparr>sp_batches = batches,
                    sp_new_cursor = \<lparr>sc_gen = gen, sc_n_synced = of_nat (ss_n_vectors src),
                                     sc_calib_gen = sc_calib_gen cursor,
                                     sc_nonce = sc_nonce cursor\<rparr>,
                    sp_carried = carried\<rparr>)"

section \<open>The digest is a checksum of the concatenation\<close>

definition delta_stream :: "u64 \<Rightarrow> (nat \<times> bytes) list \<Rightarrow> bytes" where
  "delta_stream gen units =
     u64_to_le gen @ concat (map (\<lambda>(b, body). u32_to_le (of_nat b) @ body) units)"

lemma foldl_push_units:
  "foldl (\<lambda>d (b, body). dd_push (dd_push d (u32_to_le (of_nat b))) body) d units
     = foldl dd_push d (concat (map (\<lambda>(b, body). [u32_to_le (of_nat b), body]) units))"
  by (induction units arbitrary: d) auto

lemma concat_push_units:
  "concat (concat (map (\<lambda>(b, body). [u32_to_le (of_nat b), body]) units))
     = concat (map (\<lambda>(b, body). u32_to_le (of_nat b) @ body) units)"
  by (induction units) auto

text \<open>Any run of the digest that announces the right total is the CRC of the stream.\<close>

lemma digest_stream:
  assumes "n_total = length (delta_stream gen units)"
  shows "dd_finish (foldl (\<lambda>d (b, body). dd_push (dd_push d (u32_to_le (of_nat b))) body)
           (dd_push (dd_new n_total) (u64_to_le gen)) units) = crc32 (delta_stream gen units)"
proof -
  define chunks where
    "chunks = u64_to_le gen # concat (map (\<lambda>(b, body). [u32_to_le (of_nat b), body]) units)"
  have c: "concat chunks = delta_stream gen units"
    by (simp add: chunks_def delta_stream_def concat_push_units)
  have "foldl (\<lambda>d (b, body). dd_push (dd_push d (u32_to_le (of_nat b))) body)
      (dd_push (dd_new n_total) (u64_to_le gen)) units = foldl dd_push (dd_new n_total) chunks"
    by (simp add: chunks_def foldl_push_units)
  then show ?thesis using dd_stream_eq_crc32 [of chunks] by (simp add: c assms)
qed

lemma length_delta_stream:
  "length (delta_stream gen units) = 8 + sum_list (map (\<lambda>(b, body). 4 + length body) units)"
proof -
  have "length (concat (map (\<lambda>(b, body). u32_to_le (of_nat b) @ body) units))
      = sum_list (map (\<lambda>(b, body). 4 + length body) units)"
    by (induction units) auto
  then show ?thesis by (simp add: delta_stream_def)
qed

lemma length_delta_stream_const:
  assumes "\<forall>(b, body) \<in> set units. length body = k"
  shows "length (delta_stream gen units) = 8 + length units * (4 + k)"
proof -
  have "sum_list (map (\<lambda>(b, body). 4 + length body) units) = length units * (4 + k)"
    using assms by (induction units) auto
  then show ?thesis by (simp add: length_delta_stream)
qed

lemma sat_fold:
  "n + sum_list (map (\<lambda>(b, body). 4 + length body) units) \<le> usize_max \<Longrightarrow>
    foldl (\<lambda>n (b, body). sat_add n (4 + length body)) n units
      = n + sum_list (map (\<lambda>(b, body). 4 + length body) units)"
proof (induction units arbitrary: n)
  case Nil
  then show ?case by simp
next
  case (Cons u units)
  obtain b body where u: "u = (b, body)" by (cases u)
  have "sat_add n (4 + length body) = n + (4 + length body)"
    using Cons.prems by (simp add: u sat_add_def min_def)
  then show ?case using Cons by (simp add: u)
qed

lemma delta_digest_stream:
  assumes "length (delta_stream gen units) \<le> usize_max"
  shows "delta_digest gen units = crc32 (delta_stream gen units)"
  using assms digest_stream [of _ gen units]
  by (simp add: delta_digest_def Let_def length_delta_stream sat_fold)

lemma dv_loop_Some:
  "dv_loop feed bs d = Some d' \<longleftrightarrow>
     (\<exists>us. map feed bs = map Some us \<and>
        d' = foldl (\<lambda>d (b, body). dd_push (dd_push d (u32_to_le (of_nat b))) body) d (zip bs us))"
proof (induction bs arbitrary: d)
  case Nil
  then show ?case by auto
next
  case (Cons b bs)
  show ?case
  proof (cases "feed b")
    case None
    then show ?thesis by (auto simp: Cons_eq_map_conv)
  next
    case (Some u)
    have "(\<exists>us. map feed (b # bs) = map Some us \<and> P us) \<longleftrightarrow>
        (\<exists>us. map feed bs = map Some us \<and> P (u # us))" for P
      using Some by (auto simp: Cons_eq_map_conv)
    then show ?thesis by (simp only: dv_loop.simps Let_def Some option.case Cons.IH) simp
  qed
qed

text \<open>The delta check, read as a condition on the units named by the header.\<close>

lemma delta_verified_iff:
  assumes len: "\<And>b u. feed b = Some u \<Longrightarrow> length u = ulen"
    and small: "8 + length (delta_blocks h) * (4 + ulen) \<le> usize_max"
  shows "delta_verified h ulen feed \<longleftrightarrow>
     (\<exists>us. map feed (delta_blocks h) = map Some us \<and>
        crc32 (delta_stream (ph_gen h) (zip (delta_blocks h) us)) = ph_delta_crc h)"
proof -
  define k where "k = length (delta_blocks h)"
  have kk: "k = length (ph_delta_mat h) + (snd (ph_delta_app h) - fst (ph_delta_app h))"
    by (simp add: k_def delta_blocks_def)
  have "k * (4 + ulen) \<le> usize_max" using small by (simp add: k_def)
  moreover have "k * 4 \<le> k * (4 + ulen)" by simp
  ultimately have kmax: "k \<le> usize_max" by linarith
  have count: "sat_add 8 (sat_mul (sat_add (length (ph_delta_mat h))
      (snd (ph_delta_app h) - fst (ph_delta_app h))) (4 + ulen)) = 8 + k * (4 + ulen)"
    using small kmax by (simp add: sat_add_def sat_mul_def min_def k_def flip: kk)
  have fin: "dd_finish (foldl (\<lambda>d (b, body). dd_push (dd_push d (u32_to_le (of_nat b))) body)
      (dd_push (dd_new (8 + k * (4 + ulen))) (u64_to_le (ph_gen h))) (zip (delta_blocks h) us))
      = crc32 (delta_stream (ph_gen h) (zip (delta_blocks h) us))"
    if us: "map feed (delta_blocks h) = map Some us" for us
  proof (rule digest_stream)
    have l: "length us = k" using map_eq_imp_length_eq [OF us] by (simp add: k_def)
    have "length u = ulen" if "u \<in> set us" for u
    proof -
      have "Some u \<in> set (map feed (delta_blocks h))" using us that by simp
      then show ?thesis using len by auto
    qed
    then have "\<forall>(b, body) \<in> set (zip (delta_blocks h) us). length body = ulen"
      by (auto dest: set_zip_rightD)
    then show "8 + k * (4 + ulen) = length (delta_stream (ph_gen h) (zip (delta_blocks h) us))"
      using l by (simp add: length_delta_stream_const k_def)
  qed
  show ?thesis
  proof (cases "dv_loop feed (delta_blocks h)
      (dd_push (dd_new (8 + k * (4 + ulen))) (u64_to_le (ph_gen h)))")
    case None
    then have "\<nexists>us. map feed (delta_blocks h) = map Some us"
      using dv_loop_Some [of feed "delta_blocks h"] by (metis option.distinct(1))
    then show ?thesis using None by (simp add: delta_verified_def count Let_def)
  next
    case (Some d')
    then obtain us where us: "map feed (delta_blocks h) = map Some us"
      and d': "d' = foldl (\<lambda>d (b, body). dd_push (dd_push d (u32_to_le (of_nat b))) body)
        (dd_push (dd_new (8 + k * (4 + ulen))) (u64_to_le (ph_gen h))) (zip (delta_blocks h) us)"
      by (auto simp: dv_loop_Some)
    have "us' = us" if "map feed (delta_blocks h) = map Some us'" for us'
      using that us by (simp add: inj_map_eq_map [OF inj_Some])
    then show ?thesis
      using Some us fin [OF us] by (auto simp: delta_verified_def count Let_def d')
  qed
qed

end
