(* ===== verification/Plan_Facts.thy ===== *)
theory Plan_Facts
  imports SyncPlan
begin

text \<open>
  What \<open>plan_incremental\<close> puts into a plan: which units are materialized, which slots are
  carried, how the carried slots are grouped, and that the header it builds satisfies the
  conditions of the header's round trip.
\<close>

section \<open>Slots and units\<close>

lemma mem_fresh_units: "b \<in> fresh_units floor fresh \<longleftrightarrow> (\<exists>s \<in> fresh. s < floor \<and> s div BLOCK = b)"
  by (auto simp: fresh_units_def)

lemma finite_fresh_units [simp]: "finite fresh \<Longrightarrow> finite (fresh_units floor fresh)"
  by (simp add: fresh_units_def)

lemma set_plan_materialize:
  "finite pending \<Longrightarrow> set (plan_materialize floor pending fresh) =
     {b. b \<notin> fresh_units floor fresh \<and> (\<exists>s \<in> pending. s < floor \<and> s div BLOCK = b)}"
  by (auto simp: plan_materialize_def)

lemma set_plan_carried:
  "finite pending \<Longrightarrow> finite fresh \<Longrightarrow> set (plan_carried floor pending fresh) =
     {s \<in> pending \<union> fresh. s < floor \<and> s div BLOCK \<in> fresh_units floor fresh}"
  by (simp add: plan_carried_def)

lemma sorted_plan_carried [simp]: "sorted (plan_carried floor pending fresh)"
  and distinct_plan_carried [simp]: "distinct (plan_carried floor pending fresh)"
  by (simp_all add: plan_carried_def)

lemma distinct_plan_materialize [simp]: "distinct (plan_materialize floor pending fresh)"
  by (simp add: plan_materialize_def)

lemma length_plan_materialize:
  "finite pending \<Longrightarrow> length (plan_materialize floor pending fresh) \<le> card pending"
proof -
  assume fin: "finite pending"
  have "length (plan_materialize floor pending fresh)
      \<le> card ((\<lambda>s. s div BLOCK) ` Set.filter (\<lambda>s. s < floor) pending)"
    using fin by (simp add: plan_materialize_def) (rule card_mono, auto)
  also have "\<dots> \<le> card (Set.filter (\<lambda>s. s < floor) pending)"
    using fin by (intro card_image_le) simp
  also have "\<dots> \<le> card pending" using fin by (simp add: card_mono)
  finally show ?thesis .
qed

lemma live_floor_le:
  "live_floor src cursor \<le> ss_n_vectors src"
  "live_floor src cursor \<le> unat (sc_n_synced cursor)"
  "live_floor src cursor div BLOCK \<le> ss_n_vectors src div BLOCK"
  by (simp_all add: live_floor_def min_def) linarith+

lemma live_floor_block: "s < live_floor src cursor \<Longrightarrow> s div BLOCK < ss_n_vectors src div BLOCK"
  "s < live_floor src cursor \<Longrightarrow> s div BLOCK < unat (sc_n_synced cursor) div BLOCK"
  by (auto simp: live_floor_def less_mult_imp_div_less min_def split: if_splits)

section \<open>Groups\<close>

lemma plan_groups_snoc: "plan_groups (xs @ [x]) = push_group x (plan_groups xs)"
  by (simp add: plan_groups_def)

lemma plan_groups_Nil [simp]: "plan_groups [] = []"
  by (simp add: plan_groups_def)

lemma concat_push_group: "concat (map snd (push_group s gs)) = concat (map snd gs) @ [s]"
  by (cases gs rule: rev_cases) (auto simp: push_group_def)

lemma concat_plan_groups: "concat (map snd (plan_groups xs)) = xs"
  by (induction xs rule: rev_induct) (simp_all add: plan_groups_snoc concat_push_group)

definition groups_of :: "nat list \<Rightarrow> (nat \<times> nat list) list \<Rightarrow> bool" where
  "groups_of xs gs \<longleftrightarrow>
     (\<forall>g \<in> set gs. snd g \<noteq> [] \<and> (\<forall>s \<in> set (snd g). s div BLOCK = fst g \<and> s \<in> set xs))"

lemma groups_of_push: "groups_of xs gs \<Longrightarrow> groups_of (xs @ [x]) (push_group x gs)"
  by (cases gs rule: rev_cases) (auto simp: groups_of_def push_group_def)

lemma groups_of_plan: "groups_of xs (plan_groups xs)"
proof (induction xs rule: rev_induct)
  case Nil
  then show ?case by (simp add: groups_of_def)
next
  case (snoc x xs)
  then show ?case by (simp add: plan_groups_snoc groups_of_push)
qed

lemma plan_groups_blocks:
  "(b, ss) \<in> set (plan_groups xs) \<Longrightarrow> ss \<noteq> [] \<and> (\<forall>s \<in> set ss. s div BLOCK = b \<and> s \<in> set xs)"
  using groups_of_plan [of xs] by (auto simp: groups_of_def)

lemma length_plan_groups: "length (plan_groups xs) \<le> length xs"
proof (induction xs rule: rev_induct)
  case Nil
  then show ?case by simp
next
  case (snoc x xs)
  then show ?case
    by (cases "plan_groups xs" rule: rev_cases) (auto simp: plan_groups_snoc push_group_def)
qed

lemma distinct_block_slots:
  assumes "distinct ss" and "\<forall>s \<in> set ss. s div BLOCK = b"
  shows "length ss \<le> 32"
proof -
  have "set ss \<subseteq> {b * 32..<b * 32 + 32}"
  proof
    fix s
    assume "s \<in> set ss"
    then have "s div BLOCK = b" using assms(2) by blast
    then show "s \<in> {b * 32..<b * 32 + 32}" by auto
  qed
  then have "card (set ss) \<le> card {b * 32..<b * 32 + 32}" by (rule card_mono [rotated]) simp
  then show ?thesis using assms(1) by (simp add: distinct_card)
qed

lemma wf_plan_groups:
  assumes "distinct xs" and "\<forall>s \<in> set xs. s div BLOCK < nb"
  shows "wf_groups nb (plan_groups xs)"
  unfolding wf_groups_def
proof (intro ballI, clarify)
  fix b ss
  assume mem: "(b, ss) \<in> set (plan_groups xs)"
  then have ss: "ss \<noteq> []" "\<forall>s \<in> set ss. s div BLOCK = b \<and> s \<in> set xs"
    using plan_groups_blocks by blast+
  from mem have "ss \<in> set (map snd (plan_groups xs))" by force
  then have "distinct ss"
    using assms(1) concat_plan_groups [of xs] by (metis distinct_concat_iff)
  then have "length ss \<le> 32" using ss(2) by (intro distinct_block_slots) auto
  moreover have "b < nb" using ss assms(2) by (metis last_in_set)
  ultimately show "b < nb \<and> length ss \<le> 32 \<and> (\<forall>s \<in> set ss. s div BLOCK = b)"
    using ss by blast
qed

text \<open>Sorted slots give one group per unit, in block order.\<close>

lemma plan_groups_sorted:
  "sorted xs \<Longrightarrow> sorted_wrt (<) (map fst (plan_groups xs))"
proof (induction xs rule: rev_induct)
  case Nil
  then show ?case by simp
next
  case (snoc x xs)
  then have IH: "sorted_wrt (<) (map fst (plan_groups xs))" and le: "\<forall>y \<in> set xs. y \<le> x"
    by (simp_all add: sorted_append)
  have bound: "b \<le> x div BLOCK" if "(b, ss) \<in> set (plan_groups xs)" for b ss
  proof -
    have "ss \<noteq> []" and "hd ss \<in> set ss \<Longrightarrow> hd ss div BLOCK = b \<and> hd ss \<in> set xs"
      using plan_groups_blocks [OF that] by auto
    then show ?thesis using le by (metis div_le_mono hd_in_set)
  qed
  show ?case
  proof (cases "plan_groups xs" rule: rev_cases)
    case Nil
    then show ?thesis by (simp add: plan_groups_snoc push_group_def)
  next
    case (snoc gs g)
    have "fst g \<le> x div BLOCK" using bound [of "fst g" "snd g"] snoc by simp
    moreover have "\<forall>h \<in> set gs. fst h < fst g" using IH snoc by (auto simp: sorted_wrt_append)
    ultimately show ?thesis
      using IH snoc by (auto simp: plan_groups_snoc push_group_def sorted_wrt_append)
  qed
qed

section \<open>Header length\<close>

lemma length_concat_groups:
  assumes wf: "wf_source src" and "\<forall>(b, ss) \<in> set gs. \<forall>s \<in> set ss. s < ss_n_vectors src"
  shows "length (concat (map (group_record src) gs))
    = 5 * length gs + length (concat (map snd gs)) * op_size (src_geo src)"
  using assms(2)
proof (induction gs)
  case Nil
  then show ?case by simp
next
  case (Cons g gs)
  obtain b ss where g: "g = (b, ss)" by (cases g)
  then show ?case using Cons length_group_record [OF wf, of ss b] by (simp add: algebra_simps)
qed

lemma length_header_slot:
  assumes wf: "wf_source src" and n: "n = ss_n_vectors src"
    and gs: "\<forall>(b, ss) \<in> set gs. \<forall>s \<in> set ss. s < n"
  shows "length (header_slot src gen n gs mat app crc)
    = 16 + n mod BLOCK * tail_row (src_geo src) + 4
        + (5 * length gs + length (concat (map snd gs)) * op_size (src_geo src))
        + 4 + length mat * 4 + 12 + 4"
  using length_header_tail [OF wf n] length_concat_groups [OF wf, of gs] gs n
  by (simp add: header_slot_def header_body_fields Let_def length_concat_const)

lemma header_slot_fits:
  assumes wf: "wf_source src" and n: "n = ss_n_vectors src"
    and gs: "\<forall>(b, ss) \<in> set gs. \<forall>s \<in> set ss. s < n"
    and cap: "length gs \<le> MAX_OPS" "length (concat (map snd gs)) \<le> MAX_OPS" "length mat \<le> MAX_OPS"
  shows "length (header_slot src gen n gs mat app crc) \<le> hdr_len (src_geo src)"
proof -
  let ?g = "src_geo src"
  have "n mod BLOCK \<le> 31" by simp
  then have t: "n mod BLOCK * tail_row ?g \<le> 31 * (row_bytes ?g + 4 + id_bytes ?g 1)"
    unfolding tail_row_def by (rule mult_le_mono1)
  have o: "length (concat (map snd gs)) * op_size ?g \<le> MAX_OPS * op_size ?g"
    using cap(2) by (rule mult_le_mono1)
  have m: "length mat * 4 \<le> MAX_OPS * 4" using cap(3) by simp
  have "5 * length gs \<le> 5 * MAX_OPS" using cap(1) by simp
  with t o m show ?thesis
    unfolding length_header_slot [OF wf n gs] hdr_len_def add_mult_distrib2 by linarith
qed

end
