(* ===== verification/Torn.thy ===== *)
theory Torn
  imports SyncPlan
begin

text \<open>
  What can be on disk while a batch of positioned writes is in flight. A power cut may leave
  any subset of the batch's bytes in any order: \<open>torn ops f f'\<close> is reached from \<open>f\<close> by
  byte-sized steps, each landing one byte of one write. The locale \<open>persistence\<close> states the
  two laws the crash-safety proofs need of such a relation; it is interpreted by \<open>torn\<close> and by
  the complete application \<open>run_batch\<close>.
\<close>

section \<open>Positioned writes\<close>

lemma length_write_head [simp]: "length (take off (f @ replicate (off - length f) 0)) = off"
  by (cases "off \<le> length f") auto

lemma length_write_at: "bs \<noteq> [] \<Longrightarrow> length (write_at off bs f) = max (length f) (off + length bs)"
  by (auto simp: write_at_def max_def)

lemma write_at_Nil: "off \<le> length f \<Longrightarrow> write_at off [] f = f"
  by (simp add: write_at_def)

lemma nth_write_at_out:
  "i < length f \<Longrightarrow> i < off \<or> off + length bs \<le> i \<Longrightarrow> write_at off bs f ! i = f ! i"
  by (auto simp: write_at_def nth_append)

lemma nth_write_at_in:
  "off \<le> i \<Longrightarrow> i < off + length bs \<Longrightarrow> write_at off bs f ! i = bs ! (i - off)"
proof -
  assume i: "off \<le> i" "i < off + length bs"
  define h where "h = take off (f @ replicate (off - length f) 0)"
  have lh: "length h = off" by (simp only: h_def length_write_head)
  have "write_at off bs f = h @ bs @ drop (off + length bs) f" by (simp add: write_at_def h_def)
  moreover have "i - off < length bs" using i by linarith
  ultimately show ?thesis using i lh by (simp add: nth_append)
qed

lemma length_write_at_ge: "length f \<le> length (write_at off bs f)"
  by (auto simp: write_at_def)

section \<open>Persisted bytes\<close>

definition in_op :: "nat \<times> bytes \<Rightarrow> nat \<Rightarrow> bool" where
  "in_op w i \<longleftrightarrow> fst w \<le> i \<and> i < fst w + length (snd w)"

lemma in_op_simp [simp]: "in_op (off, bs) i \<longleftrightarrow> off \<le> i \<and> i < off + length bs"
  by (simp add: in_op_def)

inductive torn :: "batch \<Rightarrow> bytes \<Rightarrow> bytes \<Rightarrow> bool" for ops :: batch where
  torn_none: "torn ops f f"
| torn_byte: "torn ops f f' \<Longrightarrow> (off, bs) \<in> set ops \<Longrightarrow> i < length bs \<Longrightarrow>
    torn ops f (write_at (off + i) [bs ! i] f')"

inductive_simps torn_empty [simp]: "torn [] f f'"

locale persistence =
  fixes persisted :: "batch \<Rightarrow> bytes \<Rightarrow> bytes \<Rightarrow> bool"
  assumes persisted_length: "persisted ops f f' \<Longrightarrow> length f \<le> length f'"
    and persisted_byte: "persisted ops f f' \<Longrightarrow> i < length f \<Longrightarrow>
      f' ! i = f ! i \<or> (\<exists>w \<in> set ops. in_op w i \<and> f' ! i = snd w ! (i - fst w))"
begin

lemma persisted_unwritten:
  "persisted ops f f' \<Longrightarrow> i < length f \<Longrightarrow> \<forall>w \<in> set ops. \<not> in_op w i \<Longrightarrow> f' ! i = f ! i"
  using persisted_byte by blast

text \<open>A range no write touches reads as before.\<close>

lemma persisted_range:
  assumes p: "persisted ops f f'" and b: "b \<le> length f"
    and out: "\<forall>w \<in> set ops. fst w + length (snd w) \<le> a \<or> b \<le> fst w"
  shows "get_range f' a b = get_range f a b"
proof (rule get_range_cong)
  show "b \<le> length f'" using persisted_length [OF p] b by simp
  show "b \<le> length f" by (rule b)
  fix i
  assume "a \<le> i" "i < b"
  then have "\<forall>w \<in> set ops. \<not> in_op w i" using out by (force simp: in_op_def)
  then show "f' ! i = f ! i" using persisted_unwritten [OF p] \<open>i < b\<close> b by simp
qed

text \<open>A byte whose every write repeats the byte already there is unchanged.\<close>

lemma persisted_same:
  assumes "persisted ops f f'" and "i < length f"
    and "\<And>w. w \<in> set ops \<Longrightarrow> in_op w i \<Longrightarrow> snd w ! (i - fst w) = f ! i"
  shows "f' ! i = f ! i"
  using persisted_byte [OF assms(1,2)] assms(3) by auto

end

lemma torn_length: "torn ops f f' \<Longrightarrow> length f \<le> length f'"
proof (induction rule: torn.induct)
  case (torn_none f)
  then show ?case by simp
next
  case (torn_byte f f' off bs i)
  then show ?case using length_write_at_ge order_trans by blast
qed

lemma torn_nth:
  "torn ops f f' \<Longrightarrow> i < length f \<Longrightarrow>
     f' ! i = f ! i \<or> (\<exists>w \<in> set ops. in_op w i \<and> f' ! i = snd w ! (i - fst w))"
proof (induction rule: torn.induct)
  case (torn_none f)
  then show ?case by simp
next
  case (torn_byte f f' off bs j)
  have len: "i < length f'" using torn_length [OF torn_byte.hyps(1)] torn_byte.prems by simp
  show ?case
  proof (cases "i = off + j")
    case True
    then have "write_at (off + j) [bs ! j] f' ! i = bs ! (i - off)" and "in_op (off, bs) i"
      using torn_byte.hyps(3) by (simp_all add: nth_write_at_in)
    then show ?thesis using torn_byte.hyps(2) by force
  next
    case False
    then have "write_at (off + j) [bs ! j] f' ! i = f' ! i"
      using len by (intro nth_write_at_out) auto
    then show ?thesis using torn_byte.IH torn_byte.prems by simp
  qed
qed

interpretation torn: persistence torn
  by unfold_locales (fact torn_length, fact torn_nth)

section \<open>The complete batch is one of the torn states\<close>

text \<open>Byte positions that a write may leave as a hole do not occur: every write of a plan starts
  inside the file or where the previous one ended.\<close>

lemma write_at_snoc:
  "write_at off (bs @ [b]) f = write_at (off + length bs) [b] (write_at off bs f)"
proof -
  define h where "h = take off (f @ replicate (off - length f) 0)"
  define d where "d = drop (off + length bs) f"
  have lh: "length h = off" by (simp only: h_def length_write_head)
  have w: "write_at off bs f = h @ bs @ d" by (simp add: write_at_def h_def d_def)
  have "write_at (off + length bs) [b] (h @ bs @ d) = h @ bs @ [b] @ drop 1 d"
    using lh by (simp add: write_at_def)
  moreover have "write_at off (bs @ [b]) f = h @ bs @ [b] @ drop 1 d"
    by (simp add: write_at_def h_def d_def)
  ultimately show ?thesis by (simp add: w)
qed

lemma torn_trans: "torn ops g h \<Longrightarrow> torn ops f g \<Longrightarrow> torn ops f h"
  by (induction rule: torn.induct) (auto intro: torn.intros)

lemma torn_write_prefix:
  assumes "(off, bs) \<in> set ops" and "k \<le> length bs" and "off \<le> length f"
  shows "torn ops f (write_at off (take k bs) f)"
  using assms(2)
proof (induction k)
  case 0
  then show ?case using assms(3) by (simp add: write_at_Nil torn.intros)
next
  case (Suc k)
  then have "take (Suc k) bs = take k bs @ [bs ! k]" by (simp add: take_Suc_conv_app_nth)
  then have "write_at off (take (Suc k) bs) f
      = write_at (off + k) [bs ! k] (write_at off (take k bs) f)"
    using write_at_snoc [of off "take k bs" "bs ! k" f] Suc.prems by simp
  moreover have "torn ops f (write_at off (take k bs) f)" using Suc by simp
  ultimately show ?case using assms(1) Suc.prems by (auto intro: torn_byte)
qed

text \<open>Writes that start within the file as it has grown so far.\<close>

fun no_gap :: "nat \<Rightarrow> batch \<Rightarrow> bool" where
  "no_gap n [] = True"
| "no_gap n ((off, bs) # ws) = (off \<le> n \<and> no_gap (max n (off + length bs)) ws)"

lemma run_batch_Nil [simp]: "run_batch [] f = f"
  by (simp add: run_batch_def)

lemma run_batch_Cons [simp]: "run_batch ((off, bs) # ws) f = run_batch ws (write_at off bs f)"
  by (simp add: run_batch_def)

lemma run_batch_append: "run_batch (xs @ ys) f = run_batch ys (run_batch xs f)"
  by (simp add: run_batch_def)

lemma length_write_at_nogap: "off \<le> length f \<Longrightarrow> length (write_at off bs f) = max (length f) (off + length bs)"
  by (auto simp: write_at_def max_def)

lemma torn_run_suffix:
  "set ws \<subseteq> set ops \<Longrightarrow> no_gap (length f) ws \<Longrightarrow> torn ops f (run_batch ws f)"
proof (induction ws arbitrary: f)
  case Nil
  then show ?case by (simp add: torn.intros)
next
  case (Cons w ws)
  obtain off bs where w: "w = (off, bs)" by (cases w)
  have "torn ops f (write_at off bs f)"
    using torn_write_prefix [of off bs ops "length bs" f] Cons.prems by (simp add: w)
  moreover have "torn ops (write_at off bs f) (run_batch ws (write_at off bs f))"
    using Cons.prems by (intro Cons.IH) (auto simp: w length_write_at_nogap)
  ultimately show ?case by (simp add: w torn_trans)
qed

lemma torn_run_batch: "no_gap (length f) ops \<Longrightarrow> torn ops f (run_batch ops f)"
  by (rule torn_run_suffix) auto

section \<open>Reading back a complete batch\<close>

lemma run_batch_length_ge: "length f \<le> length (run_batch ops f)"
proof (induction ops arbitrary: f)
  case Nil
  then show ?case by simp
next
  case (Cons w ws)
  obtain off bs where w: "w = (off, bs)" by (cases w)
  have "length f \<le> length (write_at off bs f)" by (rule length_write_at_ge)
  also have "\<dots> \<le> length (run_batch ws (write_at off bs f))" by (rule Cons.IH)
  finally show ?case by (simp add: w)
qed

lemma run_batch_nth:
  "i < length f \<Longrightarrow> run_batch ops f ! i = f ! i \<or>
     (\<exists>w \<in> set ops. in_op w i \<and> run_batch ops f ! i = snd w ! (i - fst w))"
proof (induction ops arbitrary: f)
  case Nil
  then show ?case by simp
next
  case (Cons w ws)
  obtain off bs where w: "w = (off, bs)" by (cases w)
  have len: "i < length (write_at off bs f)"
    using Cons.prems length_write_at_ge less_le_trans by blast
  consider "write_at off bs f ! i = f ! i" | "in_op w i" "write_at off bs f ! i = snd w ! (i - fst w)"
    using Cons.prems by (cases "in_op w i") (auto simp: w nth_write_at_in nth_write_at_out)
  then show ?case
  proof cases
    case 1
    with Cons.IH [OF len] show ?thesis by (auto simp: w)
  next
    case 2
    with Cons.IH [OF len] show ?thesis by (auto simp: w)
  qed
qed

lemma run_batch_length_le:
  "\<forall>w \<in> set ops. fst w + length (snd w) \<le> m \<Longrightarrow> length (run_batch ops f) \<le> max (length f) m"
proof (induction ops arbitrary: f)
  case Nil
  then show ?case by simp
next
  case (Cons w ws)
  obtain off bs where w: "w = (off, bs)" by (cases w)
  have "length (write_at off bs f) \<le> max (length f) m"
    using Cons.prems by (auto simp: w write_at_def)
  moreover have "length (run_batch ws (write_at off bs f)) \<le> max (length (write_at off bs f)) m"
    using Cons.prems by (intro Cons.IH) simp
  ultimately show ?case by (simp add: w)
qed

interpretation full: persistence "\<lambda>ops f f'. f' = run_batch ops f"
proof unfold_locales
  show "length f \<le> length f'" if "f' = run_batch ops f" for ops f f'
    using that by (simp add: run_batch_length_ge)
  show "f' ! i = f ! i \<or> (\<exists>w \<in> set ops. in_op w i \<and> f' ! i = snd w ! (i - fst w))"
    if "f' = run_batch ops f" and "i < length f" for ops f f' i
    using that by (simp add: run_batch_nth)
qed

text \<open>Disjoint writes all read back.\<close>

definition op_disjoint :: "nat \<times> bytes \<Rightarrow> nat \<times> bytes \<Rightarrow> bool" where
  "op_disjoint v w \<longleftrightarrow> fst v + length (snd v) \<le> fst w \<or> fst w + length (snd w) \<le> fst v"

lemma run_batch_read:
  assumes "sorted_wrt op_disjoint ops" and "no_gap (length f) ops" and "(off, bs) \<in> set ops"
  shows "get_range (run_batch ops f) off (off + length bs) = Some bs"
  using assms
proof (induction ops arbitrary: f)
  case Nil
  then show ?case by simp
next
  case (Cons w ws)
  obtain o' b' where w: "w = (o', b')" by (cases w)
  let ?f = "write_at o' b' f"
  have gap: "no_gap (length ?f) ws" using Cons.prems by (simp add: w length_write_at_nogap)
  show ?case
  proof (cases "(off, bs) \<in> set ws")
    case True
    then show ?thesis using Cons gap by (simp add: w)
  next
    case False
    then have eq: "o' = off" "b' = bs" using Cons.prems(3) by (simp_all add: w)
    have len: "off + length bs \<le> length ?f"
      using Cons.prems(2) by (simp add: w eq length_write_at_nogap)
    have "\<forall>v \<in> set ws. op_disjoint (off, bs) v" using Cons.prems(1) by (simp add: w eq)
    then have "get_range (run_batch ws ?f) off (off + length bs) = get_range ?f off (off + length bs)"
      using len by (intro full.persisted_range) (auto simp: op_disjoint_def)
    also have "\<dots> = Some bs"
    proof -
      have "take (length bs) (drop off ?f) = bs"
        using Cons.prems(2) by (simp add: w eq write_at_def)
      then show ?thesis using len by (simp add: get_range_def)
    qed
    finally show ?thesis by (simp add: w)
  qed
qed

end
