(* ===== verification/Commit.thy ===== *)
theory Commit
  imports Plan_Facts Torn
begin

text \<open>
  Which commit a file holds. \<open>header_cands\<close> and \<open>choose_header\<close> are the selection step of
  \<open>parse_image\<close> (both slots parsed, newest generation first, the first whose delta verifies);
  \<open>commit_at\<close> says that a header is adoptable; \<open>committed_row\<close> is the row record the loader
  takes for a slot under that header: the tail bytes, the pending op's payload, or the lane of
  the block unit.
\<close>

section \<open>Definitions\<close>

definition header_cands :: "bytes \<Rightarrow> geo \<Rightarrow> parsed_hdr list" where
  "header_cands raw g =
     sort_key (\<lambda>h. usize_max - unat (ph_gen h))
       (List.map_filter id [parse_header_slot raw g 0 (length raw),
                            parse_header_slot raw g 1 (length raw)])"

definition choose_header :: "bytes \<Rightarrow> geo \<Rightarrow> parsed_hdr option" where
  "choose_header raw g = List.find (delta_ok raw g) (header_cands raw g)"

definition commit_at :: "bytes \<Rightarrow> geo \<Rightarrow> parsed_hdr \<Rightarrow> bool" where
  "commit_at f g h \<longleftrightarrow>
     parse_header_slot f g (unat (ph_gen h mod 2)) (length f) = Some h \<and> delta_ok f g h"

definition op_list :: "parsed_hdr \<Rightarrow> (nat \<times> nat) list" where
  "op_list h = concat (map snd (ph_groups h))"

text \<open>The slots whose redo ops ride a header: \<open>pending_slots\<close> of a load.\<close>

definition op_slots :: "parsed_hdr \<Rightarrow> nat list" where
  "op_slots h = map fst (op_list h)"

text \<open>Where a row's bytes lie inside a sequential-blocked unit: one code byte per group, then
  its scale, then its id.\<close>

definition row_positions :: "geo \<Rightarrow> nat \<Rightarrow> nat list" where
  "row_positions g lane =
     map (\<lambda>i. i * BLOCK + lane) [0..<row_bytes g]
       @ map (\<lambda>j. BLOCK * row_bytes g + lane * 4 + j) [0..<4]
       @ (if g_kind g = 1
          then map (\<lambda>j. BLOCK * row_bytes g + BLOCK * 4 + lane * 8 + j) [0..<8] else [])"

definition unit_row :: "geo \<Rightarrow> bytes \<Rightarrow> nat \<Rightarrow> bytes" where
  "unit_row g u lane = map (\<lambda>p. u ! p) (row_positions g lane)"

definition committed_row :: "bytes \<Rightarrow> geo \<Rightarrow> parsed_hdr \<Rightarrow> nat \<Rightarrow> bytes option" where
  "committed_row f g h s =
     (if ph_n h \<le> s then None
      else if ph_n h div BLOCK \<le> s div BLOCK
           then get_range f (ph_tail_at h + s mod BLOCK * tail_row g)
                  (ph_tail_at h + s mod BLOCK * tail_row g + tail_row g)
      else case map_of (rev (op_list h)) s of
             Some at \<Rightarrow> get_range f at (at + tail_row g)
           | None \<Rightarrow> map_option (\<lambda>u. unit_row g u (s mod BLOCK)) (unit_at_image f g (s div BLOCK)))"

text \<open>A commit whose own delta units carry no pending op: what every planned header has.\<close>

definition detached :: "parsed_hdr \<Rightarrow> bool" where
  "detached h \<longleftrightarrow>
     (\<forall>b \<in> set (delta_blocks h). b < ph_n h div BLOCK \<and> b \<notin> (\<lambda>s. s div BLOCK) ` set (op_slots h))"

section \<open>Reads of the parser\<close>

lemma read_u32_bound: "read_u32 bs p = Some w \<Longrightarrow> p + 4 \<le> length bs"
  by (auto simp: read_u32_def get_range_Some)

lemma read_u64_bound: "read_u64 bs p = Some w \<Longrightarrow> p + 8 \<le> length bs"
  by (auto simp: read_u64_def get_range_Some)

lemma parse_ops_offsets:
  "parse_ops bs at osz b k p = Some (ops, q) \<Longrightarrow>
     q = p + k * osz \<and> (\<forall>(s, o') \<in> set ops. at + p + 1 \<le> o' \<and> o' + osz \<le> at + q + 1) \<and>
     (\<forall>(s, o') \<in> set ops. s div BLOCK = b)"
proof (induction k arbitrary: p ops q)
  case 0
  then show ?case by simp
next
  case (Suc k)
  from Suc.prems obtain l ops' where l: "unat (l :: u8) < BLOCK"
    and r: "parse_ops bs at osz b k (p + osz) = Some (ops', q)"
    and ops: "ops = (b * BLOCK + unat l, at + p + 1) # ops'"
    by (auto simp: Option.bind_eq_Some_conv)
  show ?case using Suc.IH [OF r] l by (auto simp: ops)
qed

lemma parse_groups_offsets:
  "parse_groups bs at osz nb k p = Some (gs, q) \<Longrightarrow>
     p \<le> q \<and> (\<forall>(s, o') \<in> set (concat (map snd gs)). at + p + 1 \<le> o' \<and> o' + osz \<le> at + q + 1
       \<and> s div BLOCK < nb)"
proof (induction k arbitrary: p gs q)
  case 0
  then show ?case by simp
next
  case (Suc k)
  from Suc.prems obtain b m ops q' gs' where b: "unat (b :: u32) < nb"
    and r1: "parse_ops bs at osz (unat b) m (p + 5) = Some (ops, q')"
    and r2: "parse_groups bs at osz nb k q' = Some (gs', q)"
    and gs: "gs = (unat b, ops) # gs'"
    by (auto simp: Option.bind_eq_Some_conv)
  have "q' = p + 5 + m * osz" using parse_ops_offsets [OF r1] by simp
  then show ?case
    using parse_ops_offsets [OF r1] Suc.IH [OF r2] b by (fastforce simp: gs)
qed

lemma parse_u32s_offset: "parse_u32s bs k p = Some (ws, q) \<Longrightarrow> q = p + 4 * k"
proof (induction k arbitrary: p ws q)
  case 0
  then show ?case by simp
next
  case (Suc k)
  then show ?case by (fastforce simp: Option.bind_eq_Some_conv)
qed

text \<open>A successful parse, field by field.\<close>

lemma parse_header_atE:
  assumes "parse_header_at bs at g slot fl = Some h"
  obtains n64 nu p nm p' af ato stored body where
    "read_u64 bs 0 = Some (ph_gen h)" "unat (ph_gen h mod 2) = slot"
    "read_u64 bs 8 = Some n64" "ph_n h = unat n64"
    "ph_n h div BLOCK * unit_len g \<le> usize_max"
    "unit_at g (ph_n h div BLOCK) \<le> usize_max" "unit_at g (ph_n h div BLOCK) \<le> fl"
    "read_u32 bs (16 + ph_n h mod BLOCK * tail_row g) = Some nu" "unat nu \<le> MAX_OPS"
    "parse_groups bs at (op_size g) (ph_n h div BLOCK) (unat nu)
       (16 + ph_n h mod BLOCK * tail_row g + 4) = Some (ph_groups h, p)"
    "read_u32 bs p = Some nm" "unat nm \<le> MAX_OPS"
    "parse_u32s bs (unat nm) (p + 4) = Some (ph_delta_mat h, p')"
    "read_u32 bs p' = Some af" "read_u32 bs (p' + 4) = Some ato"
    "ph_delta_app h = (unat af, unat ato)"
    "read_u32 bs (p' + 8) = Some (ph_delta_crc h)"
    "read_u32 bs (p' + 12) = Some stored" "get_range bs 0 (p' + 12) = Some body"
    "crc32 body = stored" "ph_tail_at h = at + 16" "ph_used h = p' + 12 + 4"
proof -
  have ua: "ph_n h div BLOCK * unit_len g + unit_at g 0 = unit_at g (ph_n h div BLOCK)" for h
    by (simp add: unit_at_def)
  from assms show thesis
    unfolding parse_header_at_def Let_def
    apply (elim guard_optE bind_pairE bind_SomeE)
    apply (unfold checked_mul_Some checked_add_Some option.inject)
    apply (elim conjE)
    apply hypsubst
    subgoal for gen n64 units ue nu groups p nm mat p' af ato dc stored body
      by (rule that [of n64 nu p nm p' af ato "crc32 body" body])
        (simp_all add: unit_at_def algebra_simps)
    done
qed

text \<open>What a parsed header guarantees about its own offsets and about the file's length.\<close>

lemma parse_header_at_facts:
  assumes "parse_header_at bs at g slot fl = Some h"
  shows "ph_tail_at h = at + 16" and "unat (ph_gen h mod 2) = slot"
    and "unit_at g (ph_n h div BLOCK) \<le> fl"
    and "16 + ph_n h mod BLOCK * tail_row g \<le> length bs"
    and "(s, o') \<in> set (op_list h) \<Longrightarrow> at \<le> o' \<and> o' + tail_row g \<le> at + length bs"
    and "(s, o') \<in> set (op_list h) \<Longrightarrow> s div BLOCK < ph_n h div BLOCK"
    and "ph_used h \<le> length bs"
proof -
  obtain nu q nm q' st where
      slot: "unat (ph_gen h mod 2) = slot" and ue: "unit_at g (ph_n h div BLOCK) \<le> fl"
    and gr: "parse_groups bs at (op_size g) (ph_n h div BLOCK) (unat (nu :: u32))
        (16 + ph_n h mod BLOCK * tail_row g + 4) = Some (ph_groups h, q)"
    and q: "read_u32 bs q = Some nm"
    and tl: "ph_tail_at h = at + 16" and us: "ph_used h = q' + 12 + 4" "read_u32 bs (q' + 12) = Some st"
    using assms by (rule parse_header_atE) blast
  have q4: "q + 4 \<le> length bs" using read_u32_bound [OF q] .
  note off = parse_groups_offsets [OF gr]
  show "ph_tail_at h = at + 16" and "unat (ph_gen h mod 2) = slot" by (fact tl, fact slot)
  show "unit_at g (ph_n h div BLOCK) \<le> fl" by (fact ue)
  show "16 + ph_n h mod BLOCK * tail_row g \<le> length bs" using off q4 by simp
  show "ph_used h \<le> length bs" using us(1) read_u32_bound [OF us(2)] by simp
  show "s div BLOCK < ph_n h div BLOCK" if "(s, o') \<in> set (op_list h)"
    using off that unfolding op_list_def by blast
  show "at \<le> o' \<and> o' + tail_row g \<le> at + length bs" if "(s, o') \<in> set (op_list h)"
  proof -
    have "at + (16 + ph_n h mod BLOCK * tail_row g + 4) + 1 \<le> o'"
      and "o' + op_size g \<le> at + q + 1"
      using off that unfolding op_list_def by blast+
    then show ?thesis using q4 by (simp add: op_size_tail_row)
  qed
qed

lemma parse_header_at_mono:
  assumes "parse_header_at bs at g slot fl = Some h" and "fl \<le> fl'"
  shows "parse_header_at bs at g slot fl' = Some h"
  using assms(1) unfolding parse_header_at_def Let_def
  apply (elim bind_mono_Some)
  apply (erule guard_le_mono)
  apply (rule assms(2))
  done

lemma parse_header_slot_mono:
  assumes "parse_header_slot f g slot fl = Some h" and "fl \<le> fl'"
    and "get_range f' (hdr_at g slot) (hdr_at g slot + hdr_len g)
       = get_range f (hdr_at g slot) (hdr_at g slot + hdr_len g)"
  shows "parse_header_slot f' g slot fl' = Some h"
  using assms(1) parse_header_at_mono [OF _ assms(2)]
  unfolding parse_header_slot_def assms(3) by (rule bind_mono_Some)

end
