(* ===== verification/Buffers.thy ===== *)
theory Buffers
  imports Prelude
begin

text \<open>
  Buffers written in place: a slice overwritten, and loops whose iterations each touch cells of
  their own. Such a loop gives every cell the value its own iteration computes from the buffer the
  loop started with, in whatever order the iterations run.
\<close>

section \<open>Overwriting a slice\<close>

definition overwrite :: "nat \<Rightarrow> 'a list \<Rightarrow> 'a list \<Rightarrow> 'a list" where
  "overwrite at xs buf = take at buf @ xs @ drop (at + length xs) buf"

lemma length_overwrite: "at + length xs \<le> length buf \<Longrightarrow> length (overwrite at xs buf) = length buf"
  by (simp add: overwrite_def)

lemma overwrite_read:
  assumes "at + length xs \<le> length buf"
  shows "take (length xs) (drop at (overwrite at xs buf)) = xs"
    and "b + k \<le> at \<or> at + length xs \<le> b \<Longrightarrow> take k (drop b (overwrite at xs buf)) = take k (drop b buf)"
proof -
  show "take (length xs) (drop at (overwrite at xs buf)) = xs" using assms by (simp add: overwrite_def)
  assume "b + k \<le> at \<or> at + length xs \<le> b"
  then show "take k (drop b (overwrite at xs buf)) = take k (drop b buf)"
    using assms by (auto simp: overwrite_def drop_append take_append drop_take min_def)
qed

lemma nth_overwrite:
  assumes "at + length xs \<le> length buf"
  shows "overwrite at xs buf ! i = (if at \<le> i \<and> i < at + length xs then xs ! (i - at) else buf ! i)"
proof -
  have "length (take at buf) = at" using assms by simp
  then show ?thesis using assms by (auto simp: overwrite_def nth_append not_less le_imp_diff_is_add)
qed

section \<open>Positions in mixed radix\<close>

lemma digit_unique: "m < k \<Longrightarrow> m' < k \<Longrightarrow> p * k + m = p' * k + m' \<Longrightarrow> p = p' \<and> m = (m' :: nat)"
proof -
  assume m: "m < k" "m' < k" and e: "p * k + m = p' * k + m'"
  have "p = (p * k + m) div k" "p' = (p' * k + m') div k" using m by simp_all
  then have "p = p'" using e by metis
  then show ?thesis using e by simp
qed

lemma digit_below: "(s :: nat) < k \<Longrightarrow> b * k + s < c * k \<longleftrightarrow> b < c"
proof
  assume s: "s < k" and "b < c"
  then have "Suc b * k \<le> c * k" by (intro mult_le_mono1) simp
  then show "b * k + s < c * k" using s by simp
next
  assume "b * k + s < c * k"
  then show "b < c" using mult_le_mono1 [of c b k] by (meson add_lessD1 leI leD less_le_trans)
qed

lemma digit_parts [simp]: "(s :: nat) < k \<Longrightarrow> (b * k + s) div k = b" "(s :: nat) < k \<Longrightarrow> (b * k + s) mod k = s"
  by simp_all

section \<open>Loops over cells of their own\<close>

lemma foldl_untouched:
  assumes len: "\<And>b c. c \<in> set cs \<Longrightarrow> length b = n \<Longrightarrow> length (step b c) = n"
    and out: "\<And>b c. c \<in> set cs \<Longrightarrow> length b = n \<Longrightarrow> k \<notin> cells c \<Longrightarrow> step b c ! k = b ! k"
    and b: "length b = n" and k: "\<And>c. c \<in> set cs \<Longrightarrow> k \<notin> cells c"
  shows "length (foldl step b cs) = n \<and> foldl step b cs ! k = b ! k"
  using assms
proof (induction cs arbitrary: b)
  case (Cons c cs)
  have "length (step b c) = n" using Cons.prems(1,3) by simp
  then have "length (foldl step (step b c) cs) = n \<and> foldl step (step b c) cs ! k = step b c ! k"
    using Cons.prems by (intro Cons.IH) auto
  then show ?case using Cons.prems by simp
qed simp

lemma foldl_disjoint:
  assumes len: "\<And>b c. c \<in> set cs \<Longrightarrow> length b = n \<Longrightarrow> length (step b c) = n"
    and out: "\<And>b c k. c \<in> set cs \<Longrightarrow> length b = n \<Longrightarrow> k < n \<Longrightarrow> k \<notin> cells c \<Longrightarrow> step b c ! k = b ! k"
    and inn: "\<And>b b' c k. c \<in> set cs \<Longrightarrow> length b = n \<Longrightarrow> length b' = n \<Longrightarrow> k \<in> cells c \<Longrightarrow>
      (\<forall>i\<in>cells c. b ! i = b' ! i) \<Longrightarrow> step b c ! k = step b' c ! k"
    and sub: "\<And>c. c \<in> set cs \<Longrightarrow> cells c \<subseteq> {..<n}"
    and disj: "\<And>c c'. c \<in> set cs \<Longrightarrow> c' \<in> set cs \<Longrightarrow> c \<noteq> c' \<Longrightarrow> cells c \<inter> cells c' = {}"
    and dist: "distinct cs" and b: "length b = n" and c: "c \<in> set cs" and k: "k \<in> cells c"
  shows "foldl step b cs ! k = step b c ! k"
  using assms
proof (induction cs arbitrary: b)
  case Nil
  from Nil.prems(8) show ?case unfolding list.set by (rule emptyE)
next
  case (Cons x cs)
  have lx: "length (step b x) = n" using Cons.prems(1,7) by simp
  have kn: "k < n" using Cons.prems(4,8,9) by blast
  show ?case
  proof (cases "c = x")
    case True
    have "length (foldl step (step b x) cs) = n \<and> foldl step (step b x) cs ! k = step b x ! k"
    proof (rule foldl_untouched [where cells = cells])
      show "k \<notin> cells y" if "y \<in> set cs" for y
        using Cons.prems(5) [of x y] that Cons.prems(6,9) True by auto
    qed (use Cons.prems(1,2) lx kn in auto)
    then show ?thesis by (simp add: True)
  next
    case False
    then have cs: "c \<in> set cs" using Cons.prems(8) by simp
    have "foldl step (step b x) cs ! k = step (step b x) c ! k"
    proof (rule Cons.IH)
      show "\<And>b c. c \<in> set cs \<Longrightarrow> length b = n \<Longrightarrow> length (step b c) = n" using Cons.prems(1) by simp
      show "\<And>b c k. c \<in> set cs \<Longrightarrow> length b = n \<Longrightarrow> k < n \<Longrightarrow> k \<notin> cells c \<Longrightarrow> step b c ! k = b ! k"
        using Cons.prems(2) by simp
      show "\<And>b b' c k. c \<in> set cs \<Longrightarrow> length b = n \<Longrightarrow> length b' = n \<Longrightarrow> k \<in> cells c \<Longrightarrow>
          (\<forall>i\<in>cells c. b ! i = b' ! i) \<Longrightarrow> step b c ! k = step b' c ! k"
        by (rule Cons.prems(3)) simp_all
      show "\<And>c. c \<in> set cs \<Longrightarrow> cells c \<subseteq> {..<n}" by (rule Cons.prems(4)) simp
      show "\<And>c c'. c \<in> set cs \<Longrightarrow> c' \<in> set cs \<Longrightarrow> c \<noteq> c' \<Longrightarrow> cells c \<inter> cells c' = {}"
        by (rule Cons.prems(5)) simp_all
      show "distinct cs" using Cons.prems(6) by simp
    qed (rule lx, rule cs, rule Cons.prems(9))
    also have "\<dots> = step b c ! k"
    proof (rule Cons.prems(3) [OF Cons.prems(8) lx Cons.prems(7,9)], intro ballI)
      fix i
      assume i: "i \<in> cells c"
      then have "i < n" "i \<notin> cells x" using Cons.prems(4) [OF Cons.prems(8)] Cons.prems(5) [of c x] Cons.prems(8) False by auto
      then show "step b x ! i = b ! i" using Cons.prems(2) [of x b i] Cons.prems(7) by simp
    qed
    finally show ?thesis by simp
  qed
qed

lemma foldl_concat_map: "foldl (\<lambda>b i. foldl f b (g i)) b xs = foldl f b (concat (map g xs))"
  by (induction xs arbitrary: b) simp_all

lemma foldl_map_step: "foldl f b (map g xs) = foldl (\<lambda>b x. f b (g x)) b xs"
  by (induction xs arbitrary: b) simp_all

text \<open>\<open>(a..b).step_by(s)\<close>, the values of a \<open>while\<close> loop's counter.\<close>

definition step_by :: "nat \<Rightarrow> nat \<Rightarrow> nat \<Rightarrow> nat list" where
  "step_by a b s = map (\<lambda>k. a + k * s) [0..<(b - a + s - 1) div s]"

lemma step_by_exact:
  assumes "0 < s"
  shows "step_by a (a + m * s) s = map (\<lambda>k. a + k * s) [0..<m]"
proof -
  have "m * s + s - 1 = m * s + (s - 1)" "s - 1 < s" using assms by simp_all
  then have "(m * s + s - 1) div s = m" by (simp only: digit_parts)
  then show ?thesis by (simp add: step_by_def)
qed

end
