(* ===== verification/Lanes.thy ===== *)
theory Lanes
  imports Geometry Buffers
begin

text \<open>
  The in-memory code layouts of \<open>pack.rs\<close>. A blocked cache holds, for every block of 32 vectors
  and every byte group, one code byte per lane; the target decides where that byte lies: the
  sequential layout, the two vector-major permutations, or the x86 nibble interleave. All
  in-place mutations go through \<open>read_code\<close> and \<open>write_code\<close>; the locale \<open>lane_store\<close> states
  what they promise, and is interpreted on every layout and on the dispatching pair.
\<close>

section \<open>Definitions\<close>

text \<open>What the code asks of its target: the architecture and the once-per-process answers.\<close>

datatype arch = X86 | AArch64 | OtherArch

record target =
  t_arch :: arch
  t_vector_major :: bool
  t_i8mm :: bool
  t_2bit_vm8 :: bool
  t_planes :: bool
  t_planes4 :: bool

abbreviation t_x86 :: "target \<Rightarrow> bool" where "t_x86 t \<equiv> t_arch t = X86"
abbreviation t_aarch64 :: "target \<Rightarrow> bool" where "t_aarch64 t \<equiv> t_arch t = AArch64"

definition VM_UNIT :: nat where "VM_UNIT = 4 * BLOCK"
definition VM8_UNIT :: nat where "VM8_UNIT = 8 * BLOCK"

definition use_vm8 :: "target \<Rightarrow> bool" where
  "use_vm8 t \<longleftrightarrow> t_aarch64 t \<and> t_i8mm t \<and> t_vector_major t"

definition vm8_2bit_for :: "target \<Rightarrow> nat \<Rightarrow> nat \<Rightarrow> bool" where
  "vm8_2bit_for t bits nbg \<longleftrightarrow> bits = 2 \<and> use_vm8 t \<and> nbg mod 8 = 0 \<and> t_2bit_vm8 t"

definition vm8_for :: "target \<Rightarrow> nat \<Rightarrow> nat \<Rightarrow> bool" where
  "vm8_for t bits nbg \<longleftrightarrow> bits = 4 \<and> use_vm8 t \<and> nbg mod 8 = 0 \<or> vm8_2bit_for t bits nbg"

definition vector_major_for :: "target \<Rightarrow> nat \<Rightarrow> nat \<Rightarrow> bool" where
  "vector_major_for t bits nbg \<longleftrightarrow> (t_x86 t \<or> bits = 4) \<and> t_vector_major t \<and> nbg mod 4 = 0"

definition vm_byte_index :: "nat \<Rightarrow> nat \<Rightarrow> nat \<Rightarrow> nat" where
  "vm_byte_index block_base g lane =
     block_base + (g div 4) * 128 + (lane div 16) * 64 + (lane mod 16) * 4 + (g mod 4)"

definition vm8_byte_index :: "nat \<Rightarrow> nat \<Rightarrow> nat \<Rightarrow> nat" where
  "vm8_byte_index block_base g lane =
     block_base + (g div 8) * VM8_UNIT + (lane div 2) * 16 + (lane mod 2) * 8 + (g mod 8)"

definition PERM0 :: "nat list" where
  "PERM0 = [0, 8, 1, 9, 2, 10, 3, 11, 4, 12, 5, 13, 6, 14, 7, 15]"

definition INV_PERM0 :: "nat list" where
  "INV_PERM0 = [0, 2, 4, 6, 8, 10, 12, 14, 1, 3, 5, 7, 9, 11, 13, 15]"

definition deinterleave_x86_code_byte :: "bytes \<Rightarrow> nat \<Rightarrow> nat \<Rightarrow> u8" where
  "deinterleave_x86_code_byte blocked group_off lane =
     (let j = INV_PERM0 ! (lane mod 16);
          hi_plane = blocked ! (group_off + j);
          lo_plane = blocked ! (group_off + 16 + j);
          (hi, lo) = (if lane < 16 then (hi_plane AND 0x0F, lo_plane AND 0x0F)
                      else (drop_bit 4 hi_plane, drop_bit 4 lo_plane))
      in (push_bit 4 hi) OR lo)"

definition write_x86_code_byte :: "bytes \<Rightarrow> nat \<Rightarrow> nat \<Rightarrow> u8 \<Rightarrow> bytes" where
  "write_x86_code_byte blocked group_off lane code =
     (let j = INV_PERM0 ! (lane mod 16);
          hp = group_off + j;
          lp = group_off + 16 + j
      in if lane < 16
         then let b = blocked[hp := (blocked ! hp AND 0xF0) OR drop_bit 4 code]
              in b[lp := (b ! lp AND 0xF0) OR (code AND 0x0F)]
         else let b = blocked[hp := (blocked ! hp AND 0x0F) OR (code AND 0xF0)]
              in b[lp := (b ! lp AND 0x0F) OR push_bit 4 (code AND 0x0F)])"

definition read_code :: "target \<Rightarrow> bytes \<Rightarrow> nat \<Rightarrow> nat \<Rightarrow> nat \<Rightarrow> nat \<Rightarrow> nat \<Rightarrow> u8" where
  "read_code t blocked bits nbg b g lane =
     (if vm8_for t bits nbg then blocked ! vm8_byte_index (b * nbg * BLOCK) g lane
      else if vector_major_for t bits nbg then blocked ! vm_byte_index (b * nbg * BLOCK) g lane
      else if t_x86 t then deinterleave_x86_code_byte blocked ((b * nbg + g) * BLOCK) lane
      else blocked ! ((b * nbg + g) * BLOCK + lane))"

definition write_code ::
  "target \<Rightarrow> bytes \<Rightarrow> nat \<Rightarrow> nat \<Rightarrow> nat \<Rightarrow> nat \<Rightarrow> nat \<Rightarrow> u8 \<Rightarrow> bytes" where
  "write_code t blocked bits nbg b g lane code =
     (if vm8_for t bits nbg then blocked[vm8_byte_index (b * nbg * BLOCK) g lane := code]
      else if vector_major_for t bits nbg then blocked[vm_byte_index (b * nbg * BLOCK) g lane := code]
      else if t_x86 t then write_x86_code_byte blocked ((b * nbg + g) * BLOCK) lane code
      else blocked[(b * nbg + g) * BLOCK + lane := code])"

text \<open>\<open>move_lane\<close>: the loop over byte groups, and the captured codes of the moved row.\<close>

definition move_lane :: "target \<Rightarrow> bytes \<Rightarrow> nat \<Rightarrow> nat \<Rightarrow> nat \<Rightarrow> nat \<Rightarrow> bytes \<times> bytes" where
  "move_lane t blocked bits nbg src_vec dst_vec =
     (let sb = src_vec div BLOCK; sl = src_vec mod BLOCK;
          db = dst_vec div BLOCK; dl = dst_vec mod BLOCK
      in foldl (\<lambda>(bl, out) g.
                  let code = read_code t bl bits nbg sb g sl
                  in (write_code t bl bits nbg db g dl code, out @ [code]))
           (blocked, []) [0..<nbg])"

definition zero_lane :: "target \<Rightarrow> bytes \<Rightarrow> nat \<Rightarrow> nat \<Rightarrow> nat \<Rightarrow> bytes" where
  "zero_lane t blocked bits nbg vec_idx =
     foldl (\<lambda>bl g. write_code t bl bits nbg (vec_idx div BLOCK) g (vec_idx mod BLOCK) 0)
       blocked [0..<nbg]"

text \<open>One row of \<open>append_lanes\<close>: the code bytes of vector \<open>v\<close> written into its lane.\<close>

definition write_row :: "target \<Rightarrow> nat \<Rightarrow> nat \<Rightarrow> bytes \<Rightarrow> nat \<Rightarrow> bytes \<Rightarrow> bytes" where
  "write_row t bits nbg blocked v row =
     foldl (\<lambda>bl g. write_code t bl bits nbg (v div BLOCK) g (v mod BLOCK) (row ! g))
       blocked [0..<length row]"

definition resize_bytes :: "bytes \<Rightarrow> nat \<Rightarrow> bytes" where
  "resize_bytes xs k = take k xs @ replicate (k - length xs) 0"

text \<open>\<open>append_lanes\<close> after \<open>extract_codes_flat\<close>: \<open>codes_flat\<close> is the row-major code bytes of the
  new vectors.\<close>

definition append_lanes :: "target \<Rightarrow> bytes \<Rightarrow> bytes \<Rightarrow> nat \<Rightarrow> nat \<Rightarrow> nat \<Rightarrow> nat \<Rightarrow> bytes" where
  "append_lanes t blocked codes_flat old_n n_new bits dim =
     (let (_, nbg, new_len) = blocked_geometry (old_n + n_new) bits dim
      in foldl (\<lambda>bl i. write_row t bits nbg bl (old_n + i)
                          (take nbg (drop (i * nbg) codes_flat)))
           (resize_bytes blocked new_len) [0..<n_new])"

definition read_row :: "target \<Rightarrow> nat \<Rightarrow> nat \<Rightarrow> bytes \<Rightarrow> nat \<Rightarrow> bytes" where
  "read_row t bits nbg blocked v =
     map (\<lambda>g. read_code t blocked bits nbg (v div BLOCK) g (v mod BLOCK)) [0..<nbg]"

section \<open>The contract of a lane store\<close>

locale lane_store =
  fixes nbg :: nat
    and rd :: "bytes \<Rightarrow> nat \<Rightarrow> nat \<Rightarrow> nat \<Rightarrow> u8"
    and wr :: "bytes \<Rightarrow> nat \<Rightarrow> nat \<Rightarrow> nat \<Rightarrow> u8 \<Rightarrow> bytes"
  assumes wr_length: "length (wr bl b g l c) = length bl"
    and rd_wr_same: "Suc b * nbg * BLOCK \<le> length bl \<Longrightarrow> g < nbg \<Longrightarrow> l < BLOCK \<Longrightarrow>
      rd (wr bl b g l c) b g l = c"
    and rd_wr_other: "Suc b * nbg * BLOCK \<le> length bl \<Longrightarrow> Suc b' * nbg * BLOCK \<le> length bl \<Longrightarrow>
      g < nbg \<Longrightarrow> g' < nbg \<Longrightarrow> l < BLOCK \<Longrightarrow> l' < BLOCK \<Longrightarrow> (b, g, l) \<noteq> (b', g', l') \<Longrightarrow>
      rd (wr bl b g l c) b' g' l' = rd bl b' g' l'"
    and rd_append: "Suc b * nbg * BLOCK \<le> length bl \<Longrightarrow> g < nbg \<Longrightarrow> l < BLOCK \<Longrightarrow>
      rd (bl @ ys) b g l = rd bl b g l"
begin

text \<open>Writing the groups of one lane in order, each from the store as it stands.\<close>

lemma fold_length:
  "length (foldl (\<lambda>bl g. wr bl b g l (f bl g)) bl gs) = length bl"
  by (induction gs arbitrary: bl) (simp_all add: wr_length)

lemma fold_read:
  assumes "Suc b * nbg * BLOCK \<le> length bl" "Suc b' * nbg * BLOCK \<le> length bl"
    and "k \<le> nbg" "g' < nbg" "l < BLOCK" "l' < BLOCK"
  shows "rd (foldl (\<lambda>bl g. wr bl b g l (f g)) bl [0..<k]) b' g' l'
    = (if b' = b \<and> l' = l \<and> g' < k then f g' else rd bl b' g' l')"
  using assms(3)
proof (induction k)
  case 0
  then show ?case by simp
next
  case (Suc k)
  let ?bl = "foldl (\<lambda>bl g. wr bl b g l (f g)) bl [0..<k]"
  have len: "length ?bl = length bl" using fold_length [of b l "\<lambda>_ g. f g"] by simp
  have step: "foldl (\<lambda>bl g. wr bl b g l (f g)) bl [0..<Suc k] = wr ?bl b k l (f k)" by simp
  show ?case
  proof (cases "(b, k, l) = (b', g', l')")
    case True
    then have "rd (wr ?bl b k l (f k)) b' g' l' = f g'"
      using rd_wr_same [of b ?bl k l "f k"] assms Suc.prems len by simp
    then show ?thesis using True by (simp add: step)
  next
    case False
    then have "rd (wr ?bl b k l (f k)) b' g' l' = rd ?bl b' g' l'"
      using assms Suc.prems len by (intro rd_wr_other) auto
    then show ?thesis using Suc False by (auto simp: step less_Suc_eq)
  qed
qed

end

locale byte_layout =
  fixes nbg :: nat and idx :: "nat \<Rightarrow> nat \<Rightarrow> nat \<Rightarrow> nat"
  assumes idx_bound: "g < nbg \<Longrightarrow> l < BLOCK \<Longrightarrow> idx b g l < Suc b * nbg * BLOCK"
    and idx_inj: "g < nbg \<Longrightarrow> g' < nbg \<Longrightarrow> l < BLOCK \<Longrightarrow> l' < BLOCK \<Longrightarrow> idx b g l = idx b' g' l' \<Longrightarrow>
      b = b' \<and> g = g' \<and> l = l'"
begin

lemma layout_length: "length (bl[idx b g l := c]) = length bl"
  by simp

lemma layout_same:
  "Suc b * nbg * BLOCK \<le> length bl \<Longrightarrow> g < nbg \<Longrightarrow> l < BLOCK \<Longrightarrow>
    bl[idx b g l := c] ! idx b g l = c"
  using idx_bound [of g l b] by (intro nth_list_update_eq) linarith

lemma layout_other:
  "g < nbg \<Longrightarrow> g' < nbg \<Longrightarrow> l < BLOCK \<Longrightarrow> l' < BLOCK \<Longrightarrow> (b, g, l) \<noteq> (b', g', l') \<Longrightarrow>
    bl[idx b g l := c] ! idx b' g' l' = bl ! idx b' g' l'"
  using idx_inj [of g g' l l' b b'] by (intro nth_list_update_neq) auto

lemma layout_append:
  "Suc b * nbg * BLOCK \<le> length bl \<Longrightarrow> g < nbg \<Longrightarrow> l < BLOCK \<Longrightarrow> (bl @ ys) ! idx b g l = bl ! idx b g l"
  using idx_bound [of g l b] by (simp add: nth_append)

end

sublocale byte_layout \<subseteq> lane_store nbg "\<lambda>bl b g l. bl ! idx b g l" "\<lambda>bl b g l c. bl[idx b g l := c]"
  by unfold_locales (simp_all add: layout_same layout_other layout_append)

section \<open>The layouts\<close>

lemma block_index_inj:
  assumes "x + b * n = x' + b' * n" "x < n" "x' < (n :: nat)"
  shows "x = x' \<and> b = b'"
proof -
  have "b = (x + b * n) div n" "b' = (x' + b' * n) div n" using assms(2,3) by auto
  then have "b = b'" using assms(1) by simp
  then show ?thesis using assms(1) by simp
qed

interpretation seq: byte_layout nbg "\<lambda>b g l. (b * nbg + g) * BLOCK + l"
proof unfold_locales
  fix g l b
  assume g: "g < nbg" and l: "l < BLOCK"
  have "Suc (b * nbg + g) * BLOCK \<le> Suc b * nbg * BLOCK" using g by (intro mult_le_mono1) simp
  then show "(b * nbg + g) * BLOCK + l < Suc b * nbg * BLOCK" using l by simp
next
  fix g g' l l' b b'
  assume a: "g < nbg" "g' < nbg" "l < BLOCK" "l' < BLOCK"
    "(b * nbg + g) * BLOCK + l = (b' * nbg + g') * BLOCK + l'"
  have "l = l' \<and> b * nbg + g = b' * nbg + g'"
    by (rule block_index_inj [of _ _ BLOCK]) (use a in \<open>simp_all add: add.commute\<close>)
  then show "b = b' \<and> g = g' \<and> l = l'"
    using block_index_inj [of g b nbg g' b'] a(1,2) by (simp add: add.commute)
qed

lemma vm_digits:
  fixes l m g :: nat
  assumes "l < 16 * p" "l' < 16 * p" "m < 4" "m' < 4"
    and "(l div 16) * 64 + (l mod 16) * 4 + m = (l' div 16) * 64 + (l' mod 16) * 4 + m'"
  shows "l = l' \<and> m = m'"
proof -
  have "4 * l + m = 4 * l' + m'"
    using assms(5) div_mult_mod_eq [of l 16] div_mult_mod_eq [of l' 16] by linarith
  then show ?thesis
    using block_index_inj [of m l 4 m' l'] assms(3,4) by (simp add: add.commute mult.commute)
qed

interpretation vm: byte_layout "4 * k" "\<lambda>b g l. vm_byte_index (b * (4 * k) * BLOCK) g l"
proof unfold_locales
  fix g l b
  assume g: "g < 4 * k" and l: "l < BLOCK"
  have "(l div 16) * 64 + (l mod 16) * 4 + g mod 4 < 128"
    using l div_mult_mod_eq [of l 16] mod_less_divisor [of 4 g] by linarith
  moreover have "Suc (b * k + g div 4) * 128 \<le> Suc b * k * 128"
    using g by (intro mult_le_mono1) (simp add: less_mult_imp_div_less mult.commute Suc_leI)
  ultimately show "vm_byte_index (b * (4 * k) * BLOCK) g l < Suc b * (4 * k) * BLOCK"
    by (simp add: vm_byte_index_def algebra_simps)
next
  fix g g' l l' b b'
  assume a: "g < 4 * k" "g' < 4 * k" "l < BLOCK" "l' < BLOCK"
    "vm_byte_index (b * (4 * k) * BLOCK) g l = vm_byte_index (b' * (4 * k) * BLOCK) g' l'"
  let ?r = "(l div 16) * 64 + (l mod 16) * 4 + g mod 4"
    and ?r' = "(l' div 16) * 64 + (l' mod 16) * 4 + g' mod 4"
  have r: "?r < 128" "?r' < 128"
    using a(3,4) div_mult_mod_eq [of l 16] div_mult_mod_eq [of l' 16]
      mod_less_divisor [of 4 g] mod_less_divisor [of 4 g'] by linarith+
  have e: "?r + (b * k + g div 4) * 128 = ?r' + (b' * k + g' div 4) * 128"
    using a(5) by (simp add: vm_byte_index_def algebra_simps)
  have u: "?r = ?r' \<and> b * k + g div 4 = b' * k + g' div 4"
    by (rule block_index_inj [OF e r])
  then have lm: "l = l' \<and> g mod 4 = g' mod 4"
    using vm_digits [of l 2 l' "g mod 4" "g' mod 4"] a(3,4) by simp
  have "g div 4 < k" "g' div 4 < k" using a(1,2) by (simp_all add: less_mult_imp_div_less mult.commute)
  then have "g div 4 = g' div 4 \<and> b = b'"
    using u by (intro block_index_inj [of _ b k]) (simp_all add: add.commute)
  then show "b = b' \<and> g = g' \<and> l = l'" using lm by (metis div_mult_mod_eq)
qed

interpretation vm8: byte_layout "8 * k" "\<lambda>b g l. vm8_byte_index (b * (8 * k) * BLOCK) g l"
proof unfold_locales
  fix g l b
  assume g: "g < 8 * k" and l: "l < BLOCK"
  have "(l div 2) * 16 + (l mod 2) * 8 + g mod 8 < 256"
    using l div_mult_mod_eq [of l 2] mod_less_divisor [of 8 g] by linarith
  moreover have "Suc (b * k + g div 8) * 256 \<le> Suc b * k * 256"
    using g by (intro mult_le_mono1) (simp add: less_mult_imp_div_less mult.commute Suc_leI)
  ultimately show "vm8_byte_index (b * (8 * k) * BLOCK) g l < Suc b * (8 * k) * BLOCK"
    by (simp add: vm8_byte_index_def VM8_UNIT_def algebra_simps)
next
  fix g g' l l' b b'
  assume a: "g < 8 * k" "g' < 8 * k" "l < BLOCK" "l' < BLOCK"
    "vm8_byte_index (b * (8 * k) * BLOCK) g l = vm8_byte_index (b' * (8 * k) * BLOCK) g' l'"
  let ?r = "(l div 2) * 16 + (l mod 2) * 8 + g mod 8"
    and ?r' = "(l' div 2) * 16 + (l' mod 2) * 8 + g' mod 8"
  have r: "?r < 256" "?r' < 256"
    using a(3,4) div_mult_mod_eq [of l 2] div_mult_mod_eq [of l' 2]
      mod_less_divisor [of 8 g] mod_less_divisor [of 8 g'] by linarith+
  have e: "?r + (b * k + g div 8) * 256 = ?r' + (b' * k + g' div 8) * 256"
    using a(5) by (simp add: vm8_byte_index_def VM8_UNIT_def algebra_simps)
  have u: "?r = ?r' \<and> b * k + g div 8 = b' * k + g' div 8"
    by (rule block_index_inj [OF e r])
  have "g mod 8 + l * 8 = g' mod 8 + l' * 8"
    using u div_mult_mod_eq [of l 2] div_mult_mod_eq [of l' 2] by linarith
  then have lm: "l = l' \<and> g mod 8 = g' mod 8"
    using block_index_inj [of "g mod 8" l 8 "g' mod 8" l'] by simp
  have "g div 8 < k" "g' div 8 < k" using a(1,2) by (simp_all add: less_mult_imp_div_less mult.commute)
  then have "g div 8 = g' div 8 \<and> b = b'"
    using u by (intro block_index_inj [of _ b k]) (simp_all add: add.commute)
  then show "b = b' \<and> g = g' \<and> l = l'" using lm by (metis div_mult_mod_eq)
qed

subsection \<open>The x86 nibble interleave\<close>

lemma perm0_inverse:
  "lane < 16 \<Longrightarrow> PERM0 ! (INV_PERM0 ! lane) = lane"
  "j < 16 \<Longrightarrow> INV_PERM0 ! (PERM0 ! j) = j"
  "lane < 16 \<Longrightarrow> INV_PERM0 ! lane < 16"
  by (auto simp: PERM0_def INV_PERM0_def less_Suc_eq numeral_eq_Suc)

lemma inv_perm0_inj: "l < 16 \<Longrightarrow> l' < 16 \<Longrightarrow> INV_PERM0 ! l = INV_PERM0 ! l' \<longleftrightarrow> l = l'"
  using perm0_inverse(1) [of l] perm0_inverse(1) [of l'] by metis

lemma bit_0F: "bit (0x0F :: u8) n \<longleftrightarrow> n < 4"
  using bit_mask_iff [where 'a = "8 word", of 4 n] by (auto simp: mask_eq_exp_minus_1)

lemma bit_F0: "bit (0xF0 :: u8) n \<longleftrightarrow> 4 \<le> n \<and> n < 8"
proof -
  have "(0xF0 :: u8) = push_bit 4 0x0F" by simp
  then have "bit (0xF0 :: u8) n \<longleftrightarrow> 4 \<le> n \<and> n < 8 \<and> bit (0x0F :: u8) (n - 4)"
    by (simp only: bit_push_bit_iff) auto
  then show ?thesis by (auto simp only: bit_0F)
qed

lemmas nibble_bits = bit_0F bit_F0 bit_and_iff bit_or_iff bit_push_bit_iff bit_drop_bit_eq comp_apply

text \<open>A plane-byte pair: reading a lane's nibbles, and merging a code's nibbles in.\<close>

definition lane_lo :: "u8 \<Rightarrow> u8 \<Rightarrow> u8" where
  "lane_lo h l = push_bit 4 (h AND 0x0F) OR (l AND 0x0F)"

definition lane_hi :: "u8 \<Rightarrow> u8 \<Rightarrow> u8" where
  "lane_hi h l = push_bit 4 (drop_bit 4 h) OR drop_bit 4 l"

definition put_lo :: "u8 \<Rightarrow> u8 \<times> u8 \<Rightarrow> u8 \<times> u8" where
  "put_lo c p = ((fst p AND 0xF0) OR drop_bit 4 c, (snd p AND 0xF0) OR (c AND 0x0F))"

definition put_hi :: "u8 \<Rightarrow> u8 \<times> u8 \<Rightarrow> u8 \<times> u8" where
  "put_hi c p = ((fst p AND 0x0F) OR (c AND 0xF0), (snd p AND 0x0F) OR push_bit 4 (c AND 0x0F))"

lemma nibble_eqI: "(\<And>n. n < 8 \<Longrightarrow> bit a n = bit b n) \<Longrightarrow> a = (b :: u8)"
  by (rule bit_word_eqI) simp

lemma nibble_facts:
  "lane_lo (fst (put_lo c p)) (snd (put_lo c p)) = c"
  "lane_hi (fst (put_hi c p)) (snd (put_hi c p)) = c"
  "lane_hi (fst (put_lo c p)) (snd (put_lo c p)) = lane_hi (fst p) (snd p)"
  "lane_lo (fst (put_hi c p)) (snd (put_hi c p)) = lane_lo (fst p) (snd p)"
  by (rule nibble_eqI, simp only: lane_lo_def lane_hi_def put_lo_def put_hi_def fst_conv snd_conv nibble_bits,
      auto dest: bit_imp_le_length)+

lemma deinterleave_eq:
  "deinterleave_x86_code_byte bl off l =
     (let h = bl ! (off + INV_PERM0 ! (l mod 16)); lo = bl ! (off + 16 + INV_PERM0 ! (l mod 16))
      in if l < 16 then lane_lo h lo else lane_hi h lo)"
  unfolding deinterleave_x86_code_byte_def lane_lo_def lane_hi_def Let_def by (cases "l < 16") simp_all

lemma write_x86_eq:
  assumes "INV_PERM0 ! (l mod 16) < 16"
  shows "write_x86_code_byte bl off l c =
     (let hp = off + INV_PERM0 ! (l mod 16); lp = off + 16 + INV_PERM0 ! (l mod 16);
          p = (if l < 16 then put_lo else put_hi) c (bl ! hp, bl ! lp)
      in bl[hp := fst p, lp := snd p])"
  using assms unfolding write_x86_code_byte_def put_lo_def put_hi_def Let_def by (cases "l < 16") simp_all

lemma x86_code_same:
  assumes "off + BLOCK \<le> length bl" and "l < BLOCK"
  shows "deinterleave_x86_code_byte (write_x86_code_byte bl off l c) off l = c"
proof -
  have j: "INV_PERM0 ! (l mod 16) < 16" by (rule perm0_inverse(3)) simp
  show ?thesis
    using assms(1) j by (simp add: deinterleave_eq write_x86_eq [OF j] Let_def nibble_facts)
qed

lemma x86_code_other:
  assumes "off + BLOCK \<le> length bl" "off' + BLOCK \<le> length bl" and "l < BLOCK" "l' < BLOCK"
    and off: "off = off' \<and> l \<noteq> l' \<or> off + BLOCK \<le> off' \<or> off' + BLOCK \<le> off"
  shows "deinterleave_x86_code_byte (write_x86_code_byte bl off l c) off' l'
    = deinterleave_x86_code_byte bl off' l'"
proof -
  have j: "INV_PERM0 ! (l mod 16) < 16" "INV_PERM0 ! (l' mod 16) < 16" by (rule perm0_inverse(3), simp)+
  show ?thesis
  proof (cases "off = off' \<and> l mod 16 = l' mod 16")
    case True
    have "l \<noteq> l'" using off True by auto
    then have "l div 16 \<noteq> l' div 16" using True by (metis div_mult_mod_eq)
    moreover have "l div 16 < 2" "l' div 16 < 2" using assms(3,4) by (simp_all add: less_mult_imp_div_less)
    moreover have "l < 16 \<longleftrightarrow> l div 16 = 0" "l' < 16 \<longleftrightarrow> l' div 16 = 0" by (auto simp: div_eq_0_iff)
    ultimately have "(l < 16) \<noteq> (l' < 16)" by linarith
    then show ?thesis
      using True j(2) assms(1) by (auto simp: deinterleave_eq write_x86_eq [OF j(1)] Let_def nibble_facts)
  next
    case False
    define i i' where "i = INV_PERM0 ! (l mod 16)" and "i' = INV_PERM0 ! (l' mod 16)"
    have "off + i \<noteq> off' + i'"
      using off False j inv_perm0_inj [of "l mod 16" "l' mod 16"] by (auto simp: i_def i'_def)
    moreover from this have "off + 16 + i \<noteq> off' + 16 + i'" by simp
    moreover have "off + i \<noteq> off' + 16 + i'" "off + 16 + i \<noteq> off' + i'"
      using off j by (auto simp: i_def i'_def)
    ultimately show ?thesis
      unfolding deinterleave_eq write_x86_eq [OF j(1)] Let_def i_def [symmetric] i'_def [symmetric]
      by (simp only: nth_list_update_neq not_False_eq_True)
  qed
qed

interpretation x86: lane_store nbg
  "\<lambda>bl b g l. deinterleave_x86_code_byte bl ((b * nbg + g) * BLOCK) l"
  "\<lambda>bl b g l c. write_x86_code_byte bl ((b * nbg + g) * BLOCK) l c"
proof unfold_locales
  show "length (write_x86_code_byte bl ((b * nbg + g) * BLOCK) l c) = length bl"
    for bl :: bytes and b g l c
    by (simp add: write_x86_code_byte_def Let_def)
next
  fix b g l :: nat and bl :: bytes and c
  assume a: "Suc b * nbg * BLOCK \<le> length bl" "g < nbg" "l < BLOCK"
  have "Suc (b * nbg + g) * BLOCK \<le> Suc b * nbg * BLOCK" using a(2) by (intro mult_le_mono1) simp
  then show "deinterleave_x86_code_byte (write_x86_code_byte bl ((b * nbg + g) * BLOCK) l c)
      ((b * nbg + g) * BLOCK) l = c"
    using a by (intro x86_code_same) simp_all
next
  fix b b' g g' l l' :: nat and bl :: bytes and c
  assume a: "Suc b * nbg * BLOCK \<le> length bl" "Suc b' * nbg * BLOCK \<le> length bl"
    "g < nbg" "g' < nbg" "l < BLOCK" "l' < BLOCK" "(b, g, l) \<noteq> (b', g', l')"
  have "Suc (b * nbg + g) * BLOCK \<le> Suc b * nbg * BLOCK" "Suc (b' * nbg + g') * BLOCK \<le> Suc b' * nbg * BLOCK"
    using a(3,4) by (intro mult_le_mono1; simp)+
  note fit = this
  have "b * nbg + g = b' * nbg + g' \<and> l \<noteq> l' \<or> b * nbg + g \<noteq> b' * nbg + g'"
    using a(3,4,7) block_index_inj [of g b nbg g' b'] by (auto simp: add.commute)
  then have sep: "(b * nbg + g) * BLOCK = (b' * nbg + g') * BLOCK \<and> l \<noteq> l' \<or>
      Suc (b * nbg + g) * BLOCK \<le> (b' * nbg + g') * BLOCK \<or> Suc (b' * nbg + g') * BLOCK \<le> (b * nbg + g) * BLOCK"
    by (metis Suc_leI mult_le_mono1 nat_neq_iff)
  show "deinterleave_x86_code_byte (write_x86_code_byte bl ((b * nbg + g) * BLOCK) l c)
      ((b' * nbg + g') * BLOCK) l' = deinterleave_x86_code_byte bl ((b' * nbg + g') * BLOCK) l'"
  proof (intro x86_code_other)
    show "(b * nbg + g) * BLOCK = (b' * nbg + g') * BLOCK \<and> l \<noteq> l' \<or>
        (b * nbg + g) * BLOCK + BLOCK \<le> (b' * nbg + g') * BLOCK \<or>
        (b' * nbg + g') * BLOCK + BLOCK \<le> (b * nbg + g) * BLOCK"
      using sep by (simp only: mult_Suc add.commute)
  qed (use a fit in simp_all)
next
  fix b g l :: nat and bl ys :: bytes
  assume a: "Suc b * nbg * BLOCK \<le> length bl" "g < nbg" "l < BLOCK"
  have "Suc (b * nbg + g) * BLOCK \<le> Suc b * nbg * BLOCK" using a(2) by (intro mult_le_mono1) simp
  moreover have "INV_PERM0 ! (l mod 16) < 16" by (rule perm0_inverse(3)) simp
  ultimately show "deinterleave_x86_code_byte (bl @ ys) ((b * nbg + g) * BLOCK) l
      = deinterleave_x86_code_byte bl ((b * nbg + g) * BLOCK) l"
    using a by (simp add: deinterleave_eq Let_def nth_append)
qed

subsection \<open>The dispatch\<close>

lemma vm8_for_groups: "vm8_for t bits nbg \<Longrightarrow> \<exists>k. nbg = 8 * k"
  by (auto simp: vm8_for_def vm8_2bit_for_def)

lemma vector_major_for_groups: "vector_major_for t bits nbg \<Longrightarrow> \<exists>k. nbg = 4 * k"
  by (auto simp: vector_major_for_def)

interpretation native: lane_store nbg
  "\<lambda>bl b g l. read_code t bl bits nbg b g l" "\<lambda>bl b g l c. write_code t bl bits nbg b g l c"
proof -
  consider k where "nbg = 8 * k" "vm8_for t bits nbg"
    | k where "nbg = 4 * k" "\<not> vm8_for t bits nbg" "vector_major_for t bits nbg"
    | "\<not> vm8_for t bits nbg" "\<not> vector_major_for t bits nbg" "t_x86 t"
    | "\<not> vm8_for t bits nbg" "\<not> vector_major_for t bits nbg" "\<not> t_x86 t"
    using vm8_for_groups vector_major_for_groups by blast
  then show "lane_store nbg (\<lambda>bl b g l. read_code t bl bits nbg b g l)
      (\<lambda>bl b g l c. write_code t bl bits nbg b g l c)"
  proof cases
    case 1
    then show ?thesis using vm8.lane_store_axioms [of k] by (simp add: read_code_def write_code_def)
  next
    case 2
    then show ?thesis using vm.lane_store_axioms [of k] by (simp add: read_code_def write_code_def)
  next
    case 3
    then show ?thesis using x86.lane_store_axioms by (simp add: read_code_def write_code_def)
  next
    case 4
    then show ?thesis using seq.lane_store_axioms by (simp add: read_code_def write_code_def)
  qed
qed

section \<open>Row operations\<close>

text \<open>A vector's lane lies in the buffer.\<close>

definition has_row :: "nat \<Rightarrow> bytes \<Rightarrow> nat \<Rightarrow> bool" where
  "has_row nbg bl v \<longleftrightarrow> Suc (v div BLOCK) * nbg * BLOCK \<le> length bl"

lemma length_write_row [simp]: "length (write_row t bits nbg bl v row) = length bl"
  unfolding write_row_def by (rule native.fold_length)

lemma length_zero_lane [simp]: "length (zero_lane t bl bits nbg v) = length bl"
  unfolding zero_lane_def by (rule native.fold_length)

lemma length_read_row [simp]: "length (read_row t bits nbg bl v) = nbg"
  by (simp add: read_row_def)

lemma same_slot: "v div BLOCK = w div BLOCK \<Longrightarrow> v mod BLOCK = w mod BLOCK \<Longrightarrow> v = (w :: nat)"
  by (metis div_mult_mod_eq)

lemma fold_row_read:
  assumes "has_row nbg bl v" "has_row nbg bl w"
  shows "read_row t bits nbg
      (foldl (\<lambda>bl g. write_code t bl bits nbg (v div BLOCK) g (v mod BLOCK) (f g)) bl [0..<nbg]) w
    = (if w = v then map f [0..<nbg] else read_row t bits nbg bl w)"
  using assms native.fold_read [of "v div BLOCK" nbg bl "w div BLOCK" nbg _ "v mod BLOCK" "w mod BLOCK" t bits f]
    same_slot [of w v]
  by (auto simp: read_row_def has_row_def)

lemma read_write_row:
  assumes "has_row nbg bl v" "has_row nbg bl w" and "length row = nbg"
  shows "read_row t bits nbg (write_row t bits nbg bl v row) w
    = (if w = v then row else read_row t bits nbg bl w)"
  using fold_row_read [OF assms(1,2), of t bits "\<lambda>g. row ! g"] assms(3)
  by (auto simp: write_row_def map_nth)

lemma read_zero_lane:
  assumes "has_row nbg bl v" "has_row nbg bl w"
  shows "read_row t bits nbg (zero_lane t bl bits nbg v) w
    = (if w = v then replicate nbg 0 else read_row t bits nbg bl w)"
  using fold_row_read [OF assms, of t bits "\<lambda>_. 0"] by (simp add: zero_lane_def map_replicate_const)

text \<open>The move loop reads each code from the buffer as the earlier groups have left it.\<close>

lemma move_loop:
  assumes "has_row nbg bl src" "has_row nbg bl dst" and "k \<le> nbg"
  shows "foldl (\<lambda>(bl, out) g.
        let code = read_code t bl bits nbg (src div BLOCK) g (src mod BLOCK)
        in (write_code t bl bits nbg (dst div BLOCK) g (dst mod BLOCK) code, out @ [code]))
      (bl, []) [0..<k]
    = (foldl (\<lambda>bl' g. write_code t bl' bits nbg (dst div BLOCK) g (dst mod BLOCK)
          (read_code t bl bits nbg (src div BLOCK) g (src mod BLOCK))) bl [0..<k],
       map (\<lambda>g. read_code t bl bits nbg (src div BLOCK) g (src mod BLOCK)) [0..<k])"
  using assms(3)
proof (induction k)
  case 0
  then show ?case by simp
next
  case (Suc k)
  let ?f = "\<lambda>g. read_code t bl bits nbg (src div BLOCK) g (src mod BLOCK)"
  let ?bl = "foldl (\<lambda>bl' g. write_code t bl' bits nbg (dst div BLOCK) g (dst mod BLOCK) (?f g)) bl [0..<k]"
  have "read_code t ?bl bits nbg (src div BLOCK) k (src mod BLOCK) = ?f k"
    using assms Suc.prems
      native.fold_read [of "dst div BLOCK" nbg bl "src div BLOCK" k k "dst mod BLOCK" "src mod BLOCK" t bits ?f]
    by (simp add: has_row_def)
  then show ?case using Suc by (simp add: Let_def)
qed

lemma move_lane_eq:
  assumes "has_row nbg bl src" "has_row nbg bl dst"
  shows "move_lane t bl bits nbg src dst
    = (write_row t bits nbg bl dst (read_row t bits nbg bl src), read_row t bits nbg bl src)"
proof -
  have "foldl (\<lambda>bl' g. write_code t bl' bits nbg (dst div BLOCK) g (dst mod BLOCK)
      (read_code t bl bits nbg (src div BLOCK) g (src mod BLOCK))) bl [0..<nbg]
    = write_row t bits nbg bl dst (read_row t bits nbg bl src)"
    unfolding write_row_def length_read_row by (rule foldl_cong) (simp_all add: read_row_def)
  then show ?thesis using move_loop [OF assms order_refl, of t bits] by (simp add: move_lane_def read_row_def)
qed

lemma read_move_lane:
  assumes "has_row nbg bl src" "has_row nbg bl dst" "has_row nbg bl w"
  shows "read_row t bits nbg (fst (move_lane t bl bits nbg src dst)) w
    = (if w = dst then read_row t bits nbg bl src else read_row t bits nbg bl w)"
  using assms by (simp add: move_lane_eq read_write_row)

section \<open>Appending rows\<close>

lemma has_row_mono: "has_row nbg bl v \<Longrightarrow> length bl \<le> length bl' \<Longrightarrow> has_row nbg bl' v"
  by (simp add: has_row_def)

lemma read_row_append:
  "has_row nbg bl v \<Longrightarrow> read_row t bits nbg (bl @ ys) v = read_row t bits nbg bl v"
  by (simp add: read_row_def has_row_def native.rd_append)

lemma length_write_rows [simp]:
  "length (foldl (\<lambda>bl i. write_row t bits nbg bl (n + i) (r i)) bl is) = length bl"
  by (induction "is" arbitrary: bl) simp_all

lemma read_write_rows:
  assumes "\<forall>i < k. has_row nbg bl (n + i)" and "has_row nbg bl w" and "\<forall>i < k. length (r i) = nbg"
  shows "read_row t bits nbg (foldl (\<lambda>bl i. write_row t bits nbg bl (n + i) (r i)) bl [0..<k]) w
    = (if n \<le> w \<and> w < n + k then r (w - n) else read_row t bits nbg bl w)"
  using assms(1,3)
proof (induction k)
  case 0
  then show ?case by auto
next
  case (Suc k)
  let ?bl = "foldl (\<lambda>bl i. write_row t bits nbg bl (n + i) (r i)) bl [0..<k]"
  have "has_row nbg ?bl (n + k)" "has_row nbg ?bl w" using Suc.prems assms(2) by (simp_all add: has_row_def)
  then have "read_row t bits nbg (write_row t bits nbg ?bl (n + k) (r k)) w
      = (if w = n + k then r k else read_row t bits nbg ?bl w)"
    using Suc.prems by (intro read_write_row) simp_all
  then show ?case using Suc by auto
qed

lemma block_count: "v < n \<Longrightarrow> Suc (v div BLOCK) \<le> (n + BLOCK - 1) div BLOCK"
proof -
  assume v: "v < n"
  have "Suc (v div BLOCK) = (v + BLOCK) div BLOCK" by simp
  also have "\<dots> \<le> (n + BLOCK - 1) div BLOCK" using v by (intro div_le_mono) simp
  finally show ?thesis .
qed

lemma append_lanes_rows:
  assumes geo: "blocked_geometry (old_n + n_new) bits dim = (nb, nbg, new_len)"
    and old: "length bl = (old_n + BLOCK - 1) div BLOCK * nbg * BLOCK"
    and codes: "length codes_flat = n_new * nbg" and w: "w < old_n + n_new"
  shows "read_row t bits nbg (append_lanes t bl codes_flat old_n n_new bits dim) w
    = (if w < old_n then read_row t bits nbg bl w
       else take nbg (drop ((w - old_n) * nbg) codes_flat))"
proof -
  have nl: "new_len = (old_n + n_new + BLOCK - 1) div BLOCK * nbg * BLOCK"
    using geo by (auto simp: blocked_geometry_def Let_def)
  have le: "length bl \<le> new_len"
    unfolding nl old by (intro mult_le_mono1 div_le_mono) simp
  have rs: "resize_bytes bl new_len = bl @ replicate (new_len - length bl) 0"
    using le by (simp add: resize_bytes_def)
  have fit: "has_row nbg (resize_bytes bl new_len) v" if "v < old_n + n_new" for v
  proof -
    have "Suc (v div BLOCK) \<le> (old_n + n_new + BLOCK - 1) div BLOCK" using that by (rule block_count)
    then have "Suc (v div BLOCK) * (nbg * BLOCK) \<le> (old_n + n_new + BLOCK - 1) div BLOCK * (nbg * BLOCK)"
      by (rule mult_le_mono1)
    moreover have "length (resize_bytes bl new_len) = new_len" using le by (simp add: rs)
    ultimately show ?thesis by (simp only: has_row_def nl mult.assoc)
  qed
  have fit0: "has_row nbg bl v" if "v < old_n" for v
  proof -
    have "Suc (v div BLOCK) \<le> (old_n + BLOCK - 1) div BLOCK" using that by (rule block_count)
    then have "Suc (v div BLOCK) * (nbg * BLOCK) \<le> (old_n + BLOCK - 1) div BLOCK * (nbg * BLOCK)"
      by (rule mult_le_mono1)
    then show ?thesis by (simp add: has_row_def old mult.assoc)
  qed
  have row: "length (take nbg (drop (i * nbg) codes_flat)) = nbg" if "i < n_new" for i
  proof -
    have "Suc i * nbg \<le> n_new * nbg" using that by (intro mult_le_mono1) simp
    then show ?thesis using codes by simp
  qed
  have "read_row t bits nbg (append_lanes t bl codes_flat old_n n_new bits dim) w
      = (if old_n \<le> w \<and> w < old_n + n_new then take nbg (drop ((w - old_n) * nbg) codes_flat)
         else read_row t bits nbg (resize_bytes bl new_len) w)"
    unfolding append_lanes_def geo Let_def prod.case
    by (rule read_write_rows) (use fit w row in simp_all)
  then show ?thesis using w fit0 by (simp add: rs read_row_append)
qed

end
