(* ===== verification/Planes.thy ===== *)
theory Planes
  imports Lanes
begin

text \<open>
  The planes layout: a 2- or 4-bit code split into its sign plane (one bit per dimension, kept
  in blocks) and its low planes (one row per vector). The definitions give the split of a row of
  code bytes (\<open>planes_row_from_codes\<close>), its inverse at 2 bits (\<open>planes_to_code_bytes\<close>), and the
  canonical form a v8 unit stores. The lemmas: the split loses nothing, and writing one row
  leaves every other row of the two regions alone.
\<close>

section \<open>Definitions\<close>

definition planes_geom :: "nat \<Rightarrow> nat \<Rightarrow> nat \<times> nat" where
  "planes_geom bits nbg = (let nsg = nbg div bits in (nsg, (bits - 1) * nsg))"

definition planes_geom_ok :: "nat \<Rightarrow> nat \<Rightarrow> bool" where
  "planes_geom_ok bits nbg =
     (if bits = 2 then nbg mod 8 = 0 else if bits = 4 then nbg mod 16 = 0 else False)"

definition PLANES_MIN_VECTORS :: nat where "PLANES_MIN_VECTORS = 32768"

definition planes_for :: "target \<Rightarrow> nat \<Rightarrow> nat \<Rightarrow> bool" where
  "planes_for t bits nbg =
     (let sign_scans = (if t_x86 t then t_vector_major t else t_aarch64 t \<and> \<not> t_2bit_vm8 t)
      in if bits = 2 then nbg mod 8 = 0 \<and> t_planes t \<and> sign_scans
         else if bits = 4 then nbg mod 16 = 0 \<and> t_planes4 t \<and> sign_scans \<and> t_vector_major t
         else False)"

definition planes_wanted :: "target \<Rightarrow> nat \<Rightarrow> nat \<Rightarrow> nat \<Rightarrow> bool" where
  "planes_wanted t bits nbg n_vectors \<longleftrightarrow>
     0 < n_vectors \<and> PLANES_MIN_VECTORS \<le> n_vectors \<and> planes_for t bits nbg"

text \<open>The table builders \<open>build_gather\<close> and \<open>build_spread\<close>, one entry at a time.\<close>

definition gather :: "nat \<Rightarrow> u8 \<Rightarrow> u8" where
  "gather sh c =
     push_bit 3 (drop_bit (6 + sh) c AND 1) OR push_bit 2 (drop_bit (4 + sh) c AND 1)
       OR push_bit 1 (drop_bit (2 + sh) c AND 1) OR (drop_bit sh c AND 1)"

definition GATHER_SIGN :: "u8 \<Rightarrow> u8" where "GATHER_SIGN = gather 1"
definition GATHER_LOW :: "u8 \<Rightarrow> u8" where "GATHER_LOW = gather 0"

definition SPREAD :: "u8 \<Rightarrow> u8" where
  "SPREAD n =
     push_bit 6 (drop_bit 3 n AND 1) OR push_bit 4 (drop_bit 2 n AND 1)
       OR push_bit 2 (drop_bit 1 n AND 1) OR (n AND 1)"

definition planes_to_code_bytes :: "u8 \<Rightarrow> u8 \<Rightarrow> u8 \<times> u8" where
  "planes_to_code_bytes sign low =
     (push_bit 1 (SPREAD (drop_bit 4 sign)) OR SPREAD (drop_bit 4 low),
      push_bit 1 (SPREAD (sign AND 15)) OR SPREAD (low AND 15))"

text \<open>One group of \<open>planes_row_from_codes\<close> at 2 bits: the sign byte and the low byte.\<close>

definition split2 :: "u8 \<Rightarrow> u8 \<Rightarrow> u8 \<times> u8" where
  "split2 c0 c1 = (push_bit 4 (GATHER_SIGN c0) OR GATHER_SIGN c1,
                   push_bit 4 (GATHER_LOW c0) OR GATHER_LOW c1)"

text \<open>One group at 4 bits: plane \<open>p\<close>'s byte, accumulated over the group's four code bytes.\<close>

definition plane4 :: "(nat \<Rightarrow> u8) \<Rightarrow> nat \<Rightarrow> u8" where
  "plane4 code p =
     foldl (\<lambda>pl j. pl OR (push_bit (7 - 2 * j) (drop_bit (4 + p) (code j) AND 1)
                          OR push_bit (6 - 2 * j) (drop_bit p (code j) AND 1)))
       0 [0..<4]"

definition planes_row_from_codes :: "bytes \<Rightarrow> nat \<Rightarrow> nat \<Rightarrow> bytes \<times> bytes" where
  "planes_row_from_codes codes bits nbg =
     (let (nsg, low_row) = planes_geom bits nbg in
      if bits = 2
      then (map (\<lambda>g. fst (split2 (codes ! (2 * g)) (codes ! (2 * g + 1)))) [0..<nsg],
            map (\<lambda>g. snd (split2 (codes ! (2 * g)) (codes ! (2 * g + 1)))) [0..<nsg])
      else (map (\<lambda>g. plane4 (\<lambda>j. codes ! (4 * g + j)) 3) [0..<nsg],
            concat (map (\<lambda>p. map (\<lambda>g. plane4 (\<lambda>j. codes ! (4 * g + j)) p) [0..<nsg]) [0..<3])))"

definition planes_write_row_canonical ::
  "bytes \<Rightarrow> bytes \<Rightarrow> nat \<Rightarrow> nat \<Rightarrow> nat \<Rightarrow> bytes \<Rightarrow> bytes \<times> bytes" where
  "planes_write_row_canonical sign low bits nbg v codes =
     (let (nsg, low_row) = planes_geom bits nbg;
          (srow, lrow) = planes_row_from_codes codes bits nbg;
          b = v div BLOCK; lane = v mod BLOCK
      in (foldl (\<lambda>s g. s[b * nsg * BLOCK + g * BLOCK + lane := srow ! g]) sign [0..<nsg],
          overwrite (v * low_row) lrow low))"

text \<open>A row of the two canonical regions, as \<open>planes_canonical_to_packed\<close> emits it: the low
  planes, then the sign plane.\<close>

definition planes_canonical_row :: "bytes \<Rightarrow> bytes \<Rightarrow> nat \<Rightarrow> nat \<Rightarrow> nat \<Rightarrow> bytes" where
  "planes_canonical_row sign low bits nbg v =
     (let (nsg, low_row) = planes_geom bits nbg; b = v div BLOCK; lane = v mod BLOCK
      in take low_row (drop (v * low_row) low)
           @ map (\<lambda>g. sign ! (b * nsg * BLOCK + g * BLOCK + lane)) [0..<nsg])"

definition planes_canonical_to_packed :: "bytes \<Rightarrow> bytes \<Rightarrow> nat \<Rightarrow> nat \<Rightarrow> nat \<Rightarrow> bytes" where
  "planes_canonical_to_packed sign low bits nbg n_vectors =
     concat (map (planes_canonical_row sign low bits nbg) [0..<n_vectors])"

section \<open>The split of a code byte\<close>

lemma one_bit: "bit (1 :: u8) n \<longleftrightarrow> n = 0"
  by (simp add: bit_1_iff)

lemma low_nibble_bit: "bit (15 :: u8) n \<longleftrightarrow> n < 4"
  by (rule bit_0F)

lemmas plane_bits = one_bit low_nibble_bit bit_and_iff bit_or_iff bit_push_bit_iff bit_drop_bit_eq comp_apply

lemma lt8: "n < (8 :: nat) \<longleftrightarrow> n \<in> {0, 1, 2, 3, 4, 5, 6, 7}"
  by auto

lemma gather_bit: "bit (gather sh c) n \<longleftrightarrow> n < 4 \<and> bit c (sh + 2 * n)"
proof (cases "n < 8")
  case True
  then show ?thesis
    unfolding lt8
    by (elim insertE emptyE) (simp_all only: gather_def plane_bits, simp_all add: add.commute)
next
  case False
  then show ?thesis by (auto dest: bit_imp_le_length)
qed

lemma SPREAD_bit: "bit (SPREAD w) n \<longleftrightarrow> even n \<and> n < 8 \<and> bit w (n div 2)"
proof (cases "n < 8")
  case True
  then show ?thesis
    unfolding lt8 by (elim insertE emptyE) (simp_all only: SPREAD_def plane_bits, simp_all)
next
  case False
  then show ?thesis by (auto dest: bit_imp_le_length)
qed

lemma code_bytes_bit:
  "bit (fst (planes_to_code_bytes s l)) n \<longleftrightarrow> n < 8 \<and> bit (if odd n then s else l) (4 + n div 2)"
  "bit (snd (planes_to_code_bytes s l)) n \<longleftrightarrow> n < 8 \<and> bit (if odd n then s else l) (n div 2)"
proof -
  have odd1: "even (n - Suc 0) \<longleftrightarrow> odd n" "(n - Suc 0) div 2 = n div 2" if "odd n"
    using that by (auto elim: oddE)
  show "bit (fst (planes_to_code_bytes s l)) n \<longleftrightarrow> n < 8 \<and> bit (if odd n then s else l) (4 + n div 2)"
  proof (cases "odd n")
    case True
    then have "1 \<le> n" by (auto elim: oddE)
    then show ?thesis
      using True odd1 unfolding planes_to_code_bytes_def fst_conv plane_bits SPREAD_bit by auto
  next
    case False
    then show ?thesis unfolding planes_to_code_bytes_def fst_conv plane_bits SPREAD_bit by auto
  qed
  show "bit (snd (planes_to_code_bytes s l)) n \<longleftrightarrow> n < 8 \<and> bit (if odd n then s else l) (n div 2)"
  proof (cases "odd n")
    case True
    then have "1 \<le> n" by (auto elim: oddE)
    then show ?thesis
      using True odd1 unfolding planes_to_code_bytes_def snd_conv plane_bits SPREAD_bit by auto
  next
    case False
    then show ?thesis unfolding planes_to_code_bytes_def snd_conv plane_bits SPREAD_bit by auto
  qed
qed

lemma split2_bit:
  "m < 4 \<Longrightarrow> bit (fst (split2 c0 c1)) (4 + m) \<longleftrightarrow> bit c0 (1 + 2 * m)"
  "m < 4 \<Longrightarrow> bit (fst (split2 c0 c1)) m \<longleftrightarrow> bit c1 (1 + 2 * m)"
  "m < 4 \<Longrightarrow> bit (snd (split2 c0 c1)) (4 + m) \<longleftrightarrow> bit c0 (2 * m)"
  "m < 4 \<Longrightarrow> bit (snd (split2 c0 c1)) m \<longleftrightarrow> bit c1 (2 * m)"
  unfolding split2_def fst_conv snd_conv plane_bits GATHER_SIGN_def GATHER_LOW_def gather_bit by auto

lemma split2_inverse: "planes_to_code_bytes (fst (split2 c0 c1)) (snd (split2 c0 c1)) = (c0, c1)"
proof -
  have h: "n div 2 < 4" and e: "odd n \<Longrightarrow> 1 + 2 * (n div 2) = n" "even n \<Longrightarrow> 2 * (n div 2) = n"
    if "n < 8" for n :: nat
    using that by (auto elim: oddE)
  have "bit (fst (planes_to_code_bytes (fst (split2 c0 c1)) (snd (split2 c0 c1)))) n = bit c0 n"
    "bit (snd (planes_to_code_bytes (fst (split2 c0 c1)) (snd (split2 c0 c1)))) n = bit c1 n" if n: "n < 8" for n
    using n e [OF n] split2_bit [OF h [OF n], of c0 c1] by (cases "odd n"; simp add: code_bytes_bit)+
  then show ?thesis by (intro prod_eqI nibble_eqI) auto
qed

lemma plane4_bit:
  assumes "n < 8" "p < 4"
  shows "bit (plane4 code p) n \<longleftrightarrow> bit (code (3 - n div 2)) (if odd n then 4 + p else p)"
proof -
  have u: "[0..<4] = [0, 1, 2, 3 :: nat]" by (simp add: upt_rec)
  have "plane4 code p =
      (((0 OR (push_bit 7 (drop_bit (4 + p) (code 0) AND 1) OR push_bit 6 (drop_bit p (code 0) AND 1)))
        OR (push_bit 5 (drop_bit (4 + p) (code 1) AND 1) OR push_bit 4 (drop_bit p (code 1) AND 1)))
        OR (push_bit 3 (drop_bit (4 + p) (code 2) AND 1) OR push_bit 2 (drop_bit p (code 2) AND 1)))
        OR (push_bit 1 (drop_bit (4 + p) (code 3) AND 1) OR push_bit 0 (drop_bit p (code 3) AND 1))"
    unfolding plane4_def u foldl.simps by (simp only: numeral_eq_Suc pred_numeral_simps mult_Suc_right
        mult_0_right diff_Suc_Suc diff_0_eq_0 minus_nat.diff_0 add_Suc add_0 One_nat_def BitM.simps)
  then show ?thesis
    using assms(1) unfolding lt8
    by (elim insertE emptyE) (simp_all only: plane_bits, simp_all)
qed

lemma plane4_inj:
  assumes "\<And>p. p < 4 \<Longrightarrow> plane4 c p = plane4 c' p" and j: "j < 4"
  shows "c j = c' j"
proof (rule nibble_eqI)
  fix m :: nat
  assume m: "m < 8"
  define p n where "p = m mod 4" and "n = 2 * (3 - j) + m div 4"
  have "m div 4 < 2" using m by (simp add: less_mult_imp_div_less)
  then have pn: "p < 4" "n < 8" "3 - n div 2 = j" "(if odd n then 4 + p else p) = m"
    using j m by (auto simp: p_def n_def less_Suc_eq numeral_2_eq_2) presburger+
  then show "bit (c j) m = bit (c' j) m"
    using plane4_bit [of n p c] plane4_bit [of n p c'] assms(1) by simp
qed

section \<open>The split of a row\<close>

lemma planes_row_lengths:
  "bits = 2 \<or> bits = 4 \<Longrightarrow> planes_row_from_codes codes bits nbg = (s, l) \<Longrightarrow>
    length s = fst (planes_geom bits nbg) \<and> length l = snd (planes_geom bits nbg)"
  by (auto simp: planes_row_from_codes_def planes_geom_def Let_def length_concat_const)

lemma planes_row_inj:
  assumes bits: "bits = 2 \<or> bits = 4" and div: "nbg mod bits = 0"
    and len: "length c = nbg" "length c' = nbg"
    and eq: "planes_row_from_codes c bits nbg = planes_row_from_codes c' bits nbg"
  shows "c = c'"
proof (rule nth_equalityI)
  show "length c = length c'" using len by simp
  fix i
  assume i: "i < length c"
  define g j where "g = i div bits" and "j = i mod bits"
  have ij: "i = bits * g + j" and j: "j < bits" using bits by (auto simp: g_def j_def)
  have g: "g < nbg div bits"
    using i len(1) div bits by (auto simp: g_def div_less_mono less_mult_imp_div_less mod_eq_0_iff_dvd dvd_div_mult_self)
  show "c ! i = c' ! i"
    using bits
  proof
    assume b: "bits = 2"
    have "split2 (c ! (2 * g)) (c ! (2 * g + 1)) = split2 (c' ! (2 * g)) (c' ! (2 * g + 1))"
      using eq g by (simp add: planes_row_from_codes_def planes_geom_def Let_def b prod_eq_iff)
    then have "(c ! (2 * g), c ! (2 * g + 1)) = (c' ! (2 * g), c' ! (2 * g + 1))"
      using split2_inverse by metis
    moreover have "j = 0 \<or> j = 1" using j b by auto
    ultimately show ?thesis using ij b by auto
  next
    assume b: "bits = 4"
    let ?low = "\<lambda>c. concat (map (\<lambda>p. map (\<lambda>g. plane4 (\<lambda>j. c ! (4 * g + j)) p) [0..<nbg div 4]) [0..<3])"
    have low: "?low c = ?low c'" and sgn: "plane4 (\<lambda>j. c ! (4 * g + j)) 3 = plane4 (\<lambda>j. c' ! (4 * g + j)) 3"
      using eq g by (simp_all add: planes_row_from_codes_def planes_geom_def Let_def b)
    have nth: "?low c ! (p * (nbg div 4) + g) = plane4 (\<lambda>j. c ! (4 * g + j)) p" if "p < 3" for p c
      using that g b by (subst nth_concat_const) auto
    have "plane4 (\<lambda>j. c ! (4 * g + j)) p = plane4 (\<lambda>j. c' ! (4 * g + j)) p" if "p < 4" for p
    proof (cases "p = 3")
      case True
      then show ?thesis using sgn by simp
    next
      case False
      then have "p < 3" using that by simp
      then show ?thesis using nth [of p c] nth [of p c'] low by simp
    qed
    then show ?thesis using plane4_inj [of "\<lambda>j. c ! (4 * g + j)" "\<lambda>j. c' ! (4 * g + j)" j] j ij b by simp
  qed
qed

section \<open>Writing one row\<close>

lemma canonical_row_write:
  assumes bits: "bits = 2 \<or> bits = 4" and geom: "planes_geom bits nbg = (nsg, low_row)"
    and v: "Suc (v div BLOCK) * nsg * BLOCK \<le> length sign" "Suc v * low_row \<le> length low"
    and w: "Suc (w div BLOCK) * nsg * BLOCK \<le> length sign"
    and wrt: "planes_write_row_canonical sign low bits nbg v codes = (sign', low')"
  shows "planes_canonical_row sign' low' bits nbg w
    = (if w = v then snd (planes_row_from_codes codes bits nbg) @ fst (planes_row_from_codes codes bits nbg)
       else planes_canonical_row sign low bits nbg w)"
proof -
  obtain s l where sl: "planes_row_from_codes codes bits nbg = (s, l)" by force
  have len: "length s = nsg" "length l = low_row" using planes_row_lengths [OF bits sl] geom by simp_all
  have sign': "sign' = foldl (\<lambda>sg g. sg[(v div BLOCK * nsg + g) * BLOCK + v mod BLOCK := s ! g]) sign [0..<nsg]"
    and low': "low' = overwrite (v * low_row) l low"
    using wrt by (auto simp: planes_write_row_canonical_def geom sl Let_def add_mult_distrib)
  have "map (\<lambda>g. sign' ! ((w div BLOCK * nsg + g) * BLOCK + w mod BLOCK)) [0..<nsg]
      = (if w = v then s else map (\<lambda>g. sign ! ((w div BLOCK * nsg + g) * BLOCK + w mod BLOCK)) [0..<nsg])"
    using seq.fold_read [of "v div BLOCK" nsg sign "w div BLOCK" nsg _ "v mod BLOCK" "w mod BLOCK" "\<lambda>g. s ! g"]
      v(1) w same_slot [of w v] len(1)
    by (auto simp: sign' intro!: nth_equalityI)
  moreover have "take low_row (drop (w * low_row) low')
      = (if w = v then l else take low_row (drop (w * low_row) low))"
  proof (cases "w = v")
    case True
    then show ?thesis using overwrite_read(1) [of "v * low_row" l low] v(2) len(2) by (simp add: low')
  next
    case False
    then have "w * low_row + low_row \<le> v * low_row \<or> v * low_row + low_row \<le> w * low_row"
      using mult_le_mono1 [of "Suc w" v low_row] mult_le_mono1 [of "Suc v" w low_row] by (cases "w < v") auto
    then show ?thesis
      using overwrite_read(2) [of "v * low_row" l low "w * low_row" low_row] v(2) len(2) False
      by (simp add: low')
  qed
  ultimately show ?thesis
    by (simp add: planes_canonical_row_def geom sl Let_def add_mult_distrib)
qed

end
