(* ===== verification/Float32.thy ===== *)
theory Float32
  imports Prelude
begin

text \<open>
  IEEE-754 single-precision values as their bit patterns: the classification and comparison the
  code uses on stored floats, the integer sort key of \<open>encode.rs\<close>, and the one-ULP step
  \<open>next_down_f32\<close> of \<open>search.rs\<close>. A finite value is ordered by its signed magnitude
  \<open>f32_ord\<close>, which identifies the two zeros.
\<close>

section \<open>Definitions\<close>

definition f32_sign :: "f32 \<Rightarrow> bool" where
  "f32_sign x \<longleftrightarrow> 2147483648 \<le> unat x"

definition f32_mag :: "f32 \<Rightarrow> nat" where
  "f32_mag x = unat x mod 2147483648"

definition f32_inf_mag :: nat where "f32_inf_mag = 2139095040"

definition f32_is_nan :: "f32 \<Rightarrow> bool" where
  "f32_is_nan x \<longleftrightarrow> f32_inf_mag < f32_mag x"

definition f32_is_finite :: "f32 \<Rightarrow> bool" where
  "f32_is_finite x \<longleftrightarrow> f32_mag x < f32_inf_mag"

definition f32_ord :: "f32 \<Rightarrow> int" where
  "f32_ord x = (if f32_sign x then - int (f32_mag x) else int (f32_mag x))"

text \<open>The comparison operators: false on NaN, equal zeros.\<close>

definition f32_eq :: "f32 \<Rightarrow> f32 \<Rightarrow> bool" where
  "f32_eq x y \<longleftrightarrow> \<not> f32_is_nan x \<and> \<not> f32_is_nan y \<and> f32_ord x = f32_ord y"

definition f32_lt :: "f32 \<Rightarrow> f32 \<Rightarrow> bool" where
  "f32_lt x y \<longleftrightarrow> \<not> f32_is_nan x \<and> \<not> f32_is_nan y \<and> f32_ord x < f32_ord y"

definition f32_le :: "f32 \<Rightarrow> f32 \<Rightarrow> bool" where
  "f32_le x y \<longleftrightarrow> \<not> f32_is_nan x \<and> \<not> f32_is_nan y \<and> f32_ord x \<le> f32_ord y"

text \<open>\<open>MAX_VECTOR_SCALE\<close>, the bit pattern of 1e22.\<close>

definition MAX_VECTOR_SCALE :: f32 where "MAX_VECTOR_SCALE = 0x64078678"

text \<open>The loaders' range check on a per-vector scale.\<close>

definition scale_ok :: "f32 \<Rightarrow> bool" where
  "scale_ok v \<longleftrightarrow> f32_is_finite v \<and> f32_le 0 v \<and> f32_le v MAX_VECTOR_SCALE"

definition f32_abs :: "f32 \<Rightarrow> f32" where
  "f32_abs x = of_nat (f32_mag x)"

text \<open>\<open>f32_sort_key\<close>: the arithmetic shift by 31 is all ones for a set sign bit.\<close>

definition f32_sort_key :: "f32 \<Rightarrow> u32" where
  "f32_sort_key b = b XOR ((if f32_sign b then 0xFFFFFFFF else 0) OR 0x80000000)"

definition f32_from_sort_key :: "u32 \<Rightarrow> f32" where
  "f32_from_sort_key k = k XOR (if k AND 0x80000000 \<noteq> 0 then 0x80000000 else 0xFFFFFFFF)"

definition f32_neg_inf :: f32 where "f32_neg_inf = 0xFF800000"

definition next_down_f32 :: "f32 \<Rightarrow> f32" where
  "next_down_f32 x =
     (if f32_eq x f32_neg_inf then x
      else if f32_eq x 0 then 0x80000001
      else if f32_lt 0 x then x - 1
      else x + 1)"

section \<open>Sign and magnitude\<close>

lemma u32_bound: "unat (x :: u32) < 4294967296"
proof -
  have "unat x < 2 ^ LENGTH(32)" by (rule unsigned_less)
  then show ?thesis by simp
qed

lemma f32_mag_bound: "f32_mag x < 2147483648"
  by (simp add: f32_mag_def)

lemma f32_unat: "unat x = (if f32_sign x then 2147483648 else 0) + f32_mag x"
proof (cases "f32_sign x")
  case True
  then have "2147483648 \<le> unat x" by (simp add: f32_sign_def)
  moreover from this have "unat x mod 2147483648 = unat x - 2147483648"
    using u32_bound [of x] by (simp add: mod_if)
  ultimately show ?thesis using True by (simp add: f32_mag_def)
next
  case False
  then show ?thesis by (simp add: f32_sign_def f32_mag_def)
qed

lemma f32_ext: "f32_sign x = f32_sign y \<Longrightarrow> f32_mag x = f32_mag y \<Longrightarrow> x = y"
  by (simp add: word_unat_eq_iff f32_unat)

lemma f32_ord_eq: "f32_ord x = f32_ord y \<longleftrightarrow> x = y \<or> f32_mag x = 0 \<and> f32_mag y = 0"
  by (auto simp: f32_ord_def split: if_splits intro: f32_ext)

lemma f32_finite_not_nan: "f32_is_finite x \<Longrightarrow> \<not> f32_is_nan x"
  by (simp add: f32_is_finite_def f32_is_nan_def)

text \<open>On non-NaN values the comparisons are a total preorder; only the zeros are identified.\<close>

lemma f32_compare_total:
  "\<not> f32_is_nan x \<Longrightarrow> \<not> f32_is_nan y \<Longrightarrow> f32_lt x y \<or> f32_eq x y \<or> f32_lt y x"
  by (auto simp: f32_lt_def f32_eq_def)

lemma f32_lt_trans: "f32_lt x y \<Longrightarrow> f32_lt y z \<Longrightarrow> f32_lt x z"
  by (auto simp: f32_lt_def)

lemma f32_lt_irrefl [simp]: "\<not> f32_lt x x"
  by (simp add: f32_lt_def)

section \<open>Bit-level facts\<close>

lemma f32_bit31: "bit x 31 \<longleftrightarrow> f32_sign x"
proof -
  have "bit x 31 \<longleftrightarrow> bit (unat x) 31" by (simp add: bit_unsigned_iff)
  also have "\<dots> \<longleftrightarrow> odd (unat x div 2147483648)" by (simp add: bit_iff_odd)
  also have "\<dots> \<longleftrightarrow> 2147483648 \<le> unat x"
  proof (cases "2147483648 \<le> unat x")
    case True
    then have "unat x div 2147483648 = 1"
      using u32_bound [of x] by (intro div_nat_eqI) auto
    then show ?thesis using True by simp
  qed simp
  finally show ?thesis by (simp add: f32_sign_def)
qed

lemma bit_sign_int: "bit (2147483648 :: int) n \<longleftrightarrow> n = 31"
  using bit_exp_iff [where 'a = int, of 31 n] by auto

lemma sign_and: "(x AND 0x80000000 :: u32) = (if f32_sign x then 0x80000000 else 0)"
proof -
  have b: "bit x 31 \<longleftrightarrow> f32_sign x" by (rule f32_bit31)
  have "x AND 0x80000000 = (if bit x 31 then 0x80000000 else 0)"
    by (rule bit_word_eqI) (auto simp: bit_and_iff bit_sign_int)
  then show ?thesis using b by simp
qed

lemma xor_sign_pos:
  assumes "\<not> f32_sign x"
  shows "unat (x XOR 0x80000000) = 2147483648 + unat x"
proof -
  have "x AND 0x80000000 = 0" using assms by (simp add: sign_and)
  then have "x XOR 0x80000000 = x + 0x80000000" by (simp add: disjunctive_add_eq_xor)
  moreover have "unat x < 2147483648" using assms by (simp add: f32_sign_def)
  ultimately show ?thesis by (simp add: unat_word_ariths)
qed

lemma unat_not32: "unat (x XOR 0xFFFFFFFF :: u32) = 4294967295 - unat x"
proof -
  have "uint (NOT x) = 4294967295 - uint x"
    by transfer (simp add: take_bit_not_eq_mask_diff mask_eq_exp_minus_1)
  then have "unat (NOT x) = 4294967295 - unat x" by (simp flip: nat_uint_eq add: nat_diff_distrib')
  moreover have "(0xFFFFFFFF :: u32) = - 1" by simp
  then have "x XOR 0xFFFFFFFF = NOT x" by (simp add: bit_eq_iff bit_simps)
  ultimately show ?thesis by simp
qed

section \<open>The sort key\<close>

text \<open>The key's unsigned value, as a function of sign and magnitude.\<close>

lemma unat_sort_key:
  "unat (f32_sort_key x) = (if f32_sign x then 2147483647 - f32_mag x else 2147483648 + f32_mag x)"
proof (cases "f32_sign x")
  case True
  have "(0xFFFFFFFF OR 0x80000000 :: u32) = 0xFFFFFFFF" by simp
  then show ?thesis using True f32_unat [of x] by (simp add: f32_sort_key_def unat_not32)
next
  case False
  then show ?thesis using f32_unat [of x] by (simp add: f32_sort_key_def xor_sign_pos)
qed

lemma f32_sort_key_inverse: "f32_from_sort_key (f32_sort_key x) = x"
proof (cases "f32_sign x")
  case True
  then have "\<not> f32_sign (f32_sort_key x)" by (simp add: f32_sign_def unat_sort_key)
  then show ?thesis using True
    by (simp add: f32_from_sort_key_def sign_and) (simp add: f32_sort_key_def xor.assoc)
next
  case False
  then have "f32_sign (f32_sort_key x)" by (simp add: f32_sign_def unat_sort_key)
  then show ?thesis using False
    by (simp add: f32_from_sort_key_def sign_and) (simp add: f32_sort_key_def xor.assoc)
qed

lemma f32_from_sort_key_inverse: "f32_sort_key (f32_from_sort_key k) = k"
proof (cases "f32_sign k")
  case True
  have "\<not> f32_sign (k XOR 0x80000000)"
  proof
    assume "f32_sign (k XOR 0x80000000)"
    then have "(k XOR 0x80000000) AND 0x80000000 = 0x80000000" by (simp add: sign_and)
    then have "bit (k XOR 0x80000000) 31" by (simp add: f32_bit31 sign_and split: if_splits)
    then show False using True by (simp add: bit_xor_iff f32_bit31 [of k] bit_sign_int)
  qed
  then show ?thesis using True
    by (simp add: f32_from_sort_key_def sign_and) (simp add: f32_sort_key_def xor.assoc)
next
  case False
  have "f32_sign (k XOR 0xFFFFFFFF)" using False by (simp add: f32_sign_def unat_not32)
  then show ?thesis using False
    by (simp add: f32_from_sort_key_def sign_and) (simp add: f32_sort_key_def xor.assoc)
qed

lemma f32_sort_key_less:
  assumes "\<not> f32_is_nan x" "\<not> f32_is_nan y"
  shows "f32_sort_key x < f32_sort_key y \<longleftrightarrow>
    f32_lt x y \<or> f32_mag x = 0 \<and> f32_mag y = 0 \<and> f32_sign x \<and> \<not> f32_sign y"
  using assms f32_mag_bound [of x] f32_mag_bound [of y]
  by (auto simp: word_less_nat_alt unat_sort_key f32_lt_def f32_ord_def)

section \<open>One step down\<close>

lemma f32_of_sign_mag:
  "unat x = m \<Longrightarrow> m < 2147483648 \<Longrightarrow> \<not> f32_sign x \<and> f32_mag x = m"
  "unat x = 2147483648 + m \<Longrightarrow> m < 2147483648 \<Longrightarrow> f32_sign x \<and> f32_mag x = m"
  by (simp_all add: f32_sign_def f32_mag_def)

lemma next_down_ord:
  assumes nan: "\<not> f32_is_nan x" and inf: "x \<noteq> f32_neg_inf"
  shows "f32_ord (next_down_f32 x) = f32_ord x - 1 \<and> \<not> f32_is_nan (next_down_f32 x)"
proof -
  have m: "f32_mag x \<le> f32_inf_mag" using nan by (simp add: f32_is_nan_def)
  have ni: "\<not> f32_eq x f32_neg_inf"
    using inf by (auto simp: f32_eq_def f32_ord_eq f32_mag_def f32_neg_inf_def)
  have zero: "\<not> f32_is_nan 0" "f32_ord 0 = 0"
    by (simp_all add: f32_is_nan_def f32_mag_def f32_ord_def f32_inf_mag_def)
  have e0: "f32_eq x 0 \<longleftrightarrow> f32_mag x = 0" and l0: "f32_lt 0 x \<longleftrightarrow> 0 < f32_mag x \<and> \<not> f32_sign x"
    using nan zero by (auto simp: f32_eq_def f32_lt_def f32_ord_def split: if_splits)
  consider "f32_mag x = 0" | "0 < f32_mag x" "\<not> f32_sign x" | "0 < f32_mag x" "f32_sign x" by blast
  then show ?thesis
  proof cases
    case 1
    then have "next_down_f32 x = 0x80000001"
      using ni e0 l0 by (simp add: next_down_f32_def)
    moreover have "f32_ord 0x80000001 = - 1" "\<not> f32_is_nan 0x80000001"
      by (simp_all add: f32_ord_def f32_sign_def f32_mag_def f32_is_nan_def f32_inf_mag_def)
    ultimately show ?thesis using 1 by (simp add: f32_ord_def)
  next
    case 2
    have nd: "next_down_f32 x = x - 1"
      using 2 ni e0 l0 by (simp add: next_down_f32_def)
    have "unat x = f32_mag x" using 2 by (simp add: f32_unat)
    then have "unat (x - 1) = f32_mag x - 1"
      using 2(1) by (subst unat_sub) (simp_all add: word_le_nat_alt)
    then have "\<not> f32_sign (x - 1) \<and> f32_mag (x - 1) = f32_mag x - 1"
      using f32_mag_bound [of x] by (intro f32_of_sign_mag(1)) auto
    then show ?thesis using 2 m by (simp add: nd f32_ord_def f32_is_nan_def)
  next
    case 3
    have "f32_mag x \<noteq> f32_inf_mag"
    proof
      assume "f32_mag x = f32_inf_mag"
      then have "x = f32_neg_inf"
        using 3(2) by (intro f32_ext) (simp_all add: f32_neg_inf_def f32_sign_def f32_mag_def f32_inf_mag_def)
      then show False using inf by simp
    qed
    then have ml: "f32_mag x < f32_inf_mag" using m by simp
    have nd: "next_down_f32 x = x + 1"
      using 3 ni e0 l0 by (simp add: next_down_f32_def)
    have "unat (x + 1) = 2147483648 + (f32_mag x + 1)"
      using 3 ml f32_unat [of x] by (simp add: unat_word_ariths f32_inf_mag_def)
    then have "f32_sign (x + 1) \<and> f32_mag (x + 1) = f32_mag x + 1"
      using ml by (intro f32_of_sign_mag(2)) (auto simp: f32_inf_mag_def)
    then show ?thesis using 3 ml by (simp add: nd f32_ord_def f32_is_nan_def)
  qed
qed

lemma next_down_largest_below:
  assumes "\<not> f32_is_nan x" "x \<noteq> f32_neg_inf" "\<not> f32_is_nan y"
  shows "f32_lt y x \<longleftrightarrow> f32_le y (next_down_f32 x)"
  using next_down_ord [OF assms(1,2)] assms by (auto simp: f32_lt_def f32_le_def)

end
