(* ===== verification/Load.thy ===== *)
theory Load
  imports Commit Planes Float32
begin

text \<open>
  The loader: \<open>parse_image\<close> (superblock validation, header selection, copies of the tail rows and
  pending ops) and \<open>load_image\<close> (in-place compaction of the block units, then the pending ops
  and the tail rows on top). Every \<open>Err\<close> of the source is a constructor of \<open>load_error\<close>. The
  codebook solver and the two calibration bounds compute in floating point; they are the fields
  of \<open>numerics\<close>, an argument of the parser.
\<close>

section \<open>Definitions\<close>

datatype load_error =
    NotAnImage
  | UnsupportedRevision nat u8
  | BitWidthOutOfRange nat
  | WrongKind u8
  | UnknownLayout u8
  | NoThreeBitPlanes
  | BadDim nat
  | TruncatedFile nat
  | UnexpectedEof
  | UnsupportedOpsCapacity nat
  | CodebookDrifted
  | CalibrationLength nat nat
  | InvalidTqShift nat
  | InvalidTqScale nat
  | CorruptSuperblock
  | NoPlanesLayout nat
  | NoValidCommit
  | RowsWithoutDim nat
  | TruncatedTail
  | TruncatedOp
  | TruncatedUnit
  | BadUnitScale nat
  | BadOpScale
  | BadTailScale

record numerics =
  nm_codebook :: "nat \<Rightarrow> nat \<Rightarrow> f32 list \<times> f32 list"
  nm_max_shift :: "nat \<Rightarrow> f32"
  nm_min_scale :: "nat \<Rightarrow> f32"

definition MAX_DIM :: nat where "MAX_DIM = 16384"

definition rd_u32 :: "bytes \<Rightarrow> nat \<Rightarrow> load_error + u32" where
  "rd_u32 raw at = ok_or UnexpectedEof (read_u32 raw at)"

definition rd_u64 :: "bytes \<Rightarrow> nat \<Rightarrow> load_error + u64" where
  "rd_u64 raw at = ok_or UnexpectedEof (read_u64 raw at)"

subsection \<open>The superblock\<close>

record sb_prefix =
  sbp_version :: u8
  sbp_bit_width :: nat
  sbp_kind :: u8
  sbp_layout :: u8
  sbp_dim :: nat
  sbp_nonce :: u64

definition sb_fixed_of :: "u8 \<Rightarrow> nat" where
  "sb_fixed_of version = (if version = 8 then 24 else 23)"

definition parse_prefix :: "bytes \<Rightarrow> u8 \<Rightarrow> load_error + sb_prefix" where
  "parse_prefix raw expect_kind =
     (if length raw < 11 \<or> take 4 raw \<noteq> V7_MAGIC \<and> take 4 raw \<noteq> V8_MAGIC then Inl NotAnImage
      else
        let version = (if take 4 raw = V8_MAGIC then 8 else 7 :: u8);
            bit_width = unat (raw ! 5);
            kind = raw ! 6;
            layout = (if version = 8 then raw ! 7 else LAYOUT_SEQ);
            sb_fixed = sb_fixed_of version
        in if version = 7 \<and> raw ! 4 \<noteq> V7_VERSION then Inl (UnsupportedRevision 7 (raw ! 4))
           else if version = 8 \<and> raw ! 4 \<noteq> V8_VERSION then Inl (UnsupportedRevision 8 (raw ! 4))
           else if \<not> (2 \<le> bit_width \<and> bit_width \<le> 4) then Inl (BitWidthOutOfRange bit_width)
           else if kind \<noteq> expect_kind then Inl (WrongKind kind)
           else if layout \<noteq> LAYOUT_SEQ \<and> layout \<noteq> LAYOUT_PLANES then Inl (UnknownLayout layout)
           else if layout = LAYOUT_PLANES \<and> bit_width = 3 then Inl NoThreeBitPlanes
           else and_then (rd_u32 raw (sb_fixed - 16)) (\<lambda>dim32.
             let dim = unat dim32;
                 min_header = sat_mul MAX_OPS (sat_mul dim bit_width div 8)
             in if dim \<noteq> 0 \<and> (dim mod 8 \<noteq> 0 \<or> MAX_DIM < dim) then Inl (BadDim dim)
                else if length raw < min_header then Inl (TruncatedFile min_header)
                else and_then (rd_u64 raw (sb_fixed - 12)) (\<lambda>nonce.
                  and_then (rd_u32 raw (sb_fixed - 4)) (\<lambda>max_ops.
                    if unat max_ops \<noteq> MAX_OPS then Inl (UnsupportedOpsCapacity (unat max_ops))
                    else Inr \<lparr>sbp_version = version, sbp_bit_width = bit_width, sbp_kind = kind,
                              sbp_layout = layout, sbp_dim = dim, sbp_nonce = nonce\<rparr>))))"

text \<open>The embedded codebook, compared value by value with the canonical one.\<close>

fun match_f32s :: "bytes \<Rightarrow> f32 list \<Rightarrow> nat \<Rightarrow> load_error + nat" where
  "match_f32s raw [] off = Inr off"
| "match_f32s raw (w # ws) off =
     and_then (rd_u32 raw off) (\<lambda>v.
       if f32_eq v w then match_f32s raw ws (off + 4) else Inl CodebookDrifted)"

definition parse_codebook :: "numerics \<Rightarrow> bytes \<Rightarrow> nat \<Rightarrow> nat \<Rightarrow> nat \<Rightarrow> load_error + nat" where
  "parse_codebook nm raw bit_width dim off =
     (let n_levels = 2 ^ bit_width in
      if dim = 0 then Inr (off + (2 * n_levels - 1) * 4)
      else let (canon_b, canon_c) = nm_codebook nm bit_width dim
           in match_f32s raw (canon_b @ canon_c) off)"

fun read_f32s :: "bytes \<Rightarrow> nat \<Rightarrow> nat \<Rightarrow> load_error + f32 list" where
  "read_f32s raw off 0 = Inr []"
| "read_f32s raw off (Suc k) =
     and_then (rd_u32 raw off) (\<lambda>v. and_then (read_f32s raw (off + 4) k) (\<lambda>vs. Inr (v # vs)))"

fun find_index :: "('a \<Rightarrow> bool) \<Rightarrow> 'a list \<Rightarrow> nat \<Rightarrow> nat option" where
  "find_index p [] i = None"
| "find_index p (x # xs) i = (if p x then Some i else find_index p xs (Suc i))"

definition validate_calibration :: "numerics \<Rightarrow> f32 list \<Rightarrow> f32 list \<Rightarrow> load_error + unit" where
  "validate_calibration nm shift scale =
     (case find_index (\<lambda>v. \<not> f32_is_finite v \<or> f32_lt (nm_max_shift nm (length shift)) (f32_abs v)) shift 0 of
        Some i \<Rightarrow> Inl (InvalidTqShift i)
      | None \<Rightarrow>
          (case find_index (\<lambda>v. \<not> f32_is_finite v \<or> f32_lt v (nm_min_scale nm (length scale))) scale 0 of
             Some i \<Rightarrow> Inl (InvalidTqScale i)
           | None \<Rightarrow> Inr ()))"

definition parse_superblock ::
  "numerics \<Rightarrow> bytes \<Rightarrow> u8 \<Rightarrow> load_error + (sb_prefix \<times> geo \<times> f32 list \<times> f32 list)" where
  "parse_superblock nm raw expect_kind =
     and_then (parse_prefix raw expect_kind) (\<lambda>p.
     and_then (parse_codebook nm raw (sbp_bit_width p) (sbp_dim p) (sb_fixed_of (sbp_version p))) (\<lambda>off.
     and_then (rd_u32 raw off) (\<lambda>nc.
     let n_calib = unat nc in
     if n_calib \<noteq> 0 \<and> n_calib \<noteq> sbp_dim p then Inl (CalibrationLength n_calib (sbp_dim p))
     else
     and_then (read_f32s raw (off + 4) n_calib) (\<lambda>shift.
     and_then (read_f32s raw (off + 4 + n_calib * 4) n_calib) (\<lambda>scale.
     let off' = off + 4 + n_calib * 4 + n_calib * 4 in
     and_then (validate_calibration nm shift scale) (\<lambda>_.
     and_then (rd_u32 raw off') (\<lambda>stored.
     let g = \<lparr>g_kind = sbp_kind p, g_dim = sbp_dim p, g_bit_width = sbp_bit_width p,
              g_n_calib = n_calib, g_version = sbp_version p, g_layout = sbp_layout p\<rparr>
     in if crc32 (take off' raw) \<noteq> stored then Inl CorruptSuperblock
        else if sbp_layout p = LAYOUT_PLANES \<and> sbp_dim p \<noteq> 0
                \<and> \<not> planes_geom_ok (sbp_bit_width p) (row_bytes g) then Inl (NoPlanesLayout (sbp_dim p))
        else Inr (p, g, shift, scale))))))))"

subsection \<open>The chosen commit\<close>

record parsed_image =
  pi_geo :: geo
  pi_nonce :: u64
  pi_gen :: u64
  pi_n_vectors :: nat
  pi_tail :: bytes
  pi_tqplus_shift :: "f32 list"
  pi_tqplus_scale :: "f32 list"
  pi_ops :: "(nat \<times> (nat \<times> bytes) list) list"
  pi_pending_slots :: "nat list"

text \<open>The owned copies of the op payloads: \<open>op_size\<close> here is a row record's length.\<close>

fun copy_ops :: "bytes \<Rightarrow> nat \<Rightarrow> (nat \<times> nat) list \<Rightarrow> load_error + (nat \<times> bytes) list" where
  "copy_ops raw osz [] = Inr []"
| "copy_ops raw osz ((slot, at) # ops) =
     and_then (ok_or TruncatedOp (get_range raw at (at + osz))) (\<lambda>payload.
     and_then (copy_ops raw osz ops) (\<lambda>rest. Inr ((slot, payload) # rest)))"

fun copy_groups ::
  "bytes \<Rightarrow> nat \<Rightarrow> (nat \<times> (nat \<times> nat) list) list \<Rightarrow> load_error + (nat \<times> (nat \<times> bytes) list) list" where
  "copy_groups raw osz [] = Inr []"
| "copy_groups raw osz ((b, ops) # gs) =
     and_then (copy_ops raw osz ops) (\<lambda>owned.
     and_then (copy_groups raw osz gs) (\<lambda>rest. Inr ((b, owned) # rest)))"

definition parse_image :: "numerics \<Rightarrow> bytes \<Rightarrow> u8 \<Rightarrow> load_error + parsed_image" where
  "parse_image nm raw expect_kind =
     and_then (parse_superblock nm raw expect_kind) (\<lambda>(p, g, shift, scale).
     and_then (ok_or NoValidCommit (choose_header raw g)) (\<lambda>h.
     if g_dim g = 0 \<and> ph_n h \<noteq> 0 then Inl (RowsWithoutDim (ph_n h))
     else
     and_then (ok_or TruncatedTail
       (get_range raw (ph_tail_at h) (ph_tail_at h + ph_n h mod BLOCK * tail_row g))) (\<lambda>tail.
     and_then (copy_groups raw (row_bytes g + 4 + id_bytes g 1) (ph_groups h)) (\<lambda>ops.
     Inr \<lparr>pi_geo = g, pi_nonce = sbp_nonce p, pi_gen = ph_gen h, pi_n_vectors = ph_n h,
          pi_tail = tail, pi_tqplus_shift = shift, pi_tqplus_scale = scale, pi_ops = ops,
          pi_pending_slots = concat (map (\<lambda>(_, ops). map fst ops) (ph_groups h))\<rparr>))))"

subsection \<open>Gathering the rows\<close>

record load_state =
  ls_buf :: bytes
  ls_sign :: bytes
  ls_scales :: "f32 list"
  ls_ids :: "u64 list"

definition slice :: "bytes \<Rightarrow> nat \<Rightarrow> nat \<Rightarrow> bytes" where
  "slice raw at k = take k (drop at raw)"

definition copy_within :: "nat \<Rightarrow> nat \<Rightarrow> nat \<Rightarrow> bytes \<Rightarrow> bytes" where
  "copy_within at k dest raw = overwrite dest (slice raw at k) raw"

definition planes_dims :: "geo \<Rightarrow> nat \<times> nat" where
  "planes_dims g = (if g_layout g = LAYOUT_PLANES then planes_geom (g_bit_width g) (row_bytes g) else (0, 0))"

text \<open>One pass of the unit loop: check the length, read the scales and ids from the unit, then
  move its codes to their place at the front of the same buffer.\<close>

definition unit_step :: "geo \<Rightarrow> nat \<Rightarrow> load_state \<Rightarrow> load_error + load_state" where
  "unit_step g b st =
     (let at = unit_at g b;
          raw = ls_buf st;
          block_bytes = BLOCK * row_bytes g;
          (nsg, low_row) = planes_dims g;
          sb = nsg * BLOCK; lb = BLOCK * low_row;
          vs = map (\<lambda>lane. u32_from_le (slice raw (at + block_bytes + lane * 4) 4)) [0..<BLOCK];
          is = (if g_kind g = 1
                then map (\<lambda>lane. u64_from_le (slice raw (at + block_bytes + BLOCK * 4 + lane * 8) 8)) [0..<BLOCK]
                else [])
      in if length raw < at + unit_len g then Inl TruncatedUnit
         else if list_ex (\<lambda>v. \<not> scale_ok v) vs then Inl (BadUnitScale b)
         else if g_layout g = LAYOUT_PLANES
              then Inr \<lparr>ls_buf = copy_within (at + sb) lb (b * lb) raw,
                        ls_sign = overwrite (b * sb) (slice raw at sb) (ls_sign st),
                        ls_scales = ls_scales st @ vs, ls_ids = ls_ids st @ is\<rparr>
              else Inr \<lparr>ls_buf = copy_within at block_bytes (b * block_bytes) raw,
                        ls_sign = ls_sign st,
                        ls_scales = ls_scales st @ vs, ls_ids = ls_ids st @ is\<rparr>)"

fun unit_loop :: "geo \<Rightarrow> nat \<Rightarrow> nat \<Rightarrow> load_state \<Rightarrow> load_error + load_state" where
  "unit_loop g b 0 st = Inr st"
| "unit_loop g b (Suc k) st = and_then (unit_step g b st) (unit_loop g (Suc b) k)"

definition put_row :: "geo \<Rightarrow> load_state \<Rightarrow> nat \<Rightarrow> bytes \<Rightarrow> load_state" where
  "put_row g st v codes =
     (if g_layout g = LAYOUT_PLANES
      then let (sign, low) = planes_write_row_canonical (ls_sign st) (ls_buf st) (g_bit_width g)
                               (row_bytes g) v codes
           in st\<lparr>ls_sign := sign, ls_buf := low\<rparr>
      else let b = v div BLOCK; lane = v mod BLOCK; block_bytes = BLOCK * row_bytes g
           in st\<lparr>ls_buf := foldl (\<lambda>buf i. buf[b * block_bytes + i * BLOCK + lane := codes ! i])
                            (ls_buf st) [0..<row_bytes g]\<rparr>)"

definition apply_op :: "geo \<Rightarrow> nat \<Rightarrow> bytes \<Rightarrow> load_state \<Rightarrow> load_error + load_state" where
  "apply_op g slot payload st =
     (let st1 = put_row g st slot (take (row_bytes g) payload);
          v = u32_from_le (slice payload (row_bytes g) 4)
      in if \<not> scale_ok v then Inl BadOpScale
         else Inr (st1\<lparr>ls_scales := (ls_scales st1)[slot := v],
                       ls_ids := (if g_kind g = 1
                                  then (ls_ids st1)[slot := u64_from_le (slice payload (row_bytes g + 4) 8)]
                                  else ls_ids st1)\<rparr>))"

fun op_loop :: "geo \<Rightarrow> (nat \<times> bytes) list \<Rightarrow> load_state \<Rightarrow> load_error + load_state" where
  "op_loop g [] st = Inr st"
| "op_loop g ((slot, payload) # ops) st = and_then (apply_op g slot payload st) (op_loop g ops)"

definition tail_step :: "geo \<Rightarrow> nat \<Rightarrow> bytes \<Rightarrow> load_state \<Rightarrow> load_error + load_state" where
  "tail_step g r row st =
     (let st1 = put_row g st r (take (row_bytes g) row);
          v = u32_from_le (slice row (row_bytes g) 4)
      in if \<not> scale_ok v then Inl BadTailScale
         else Inr (st1\<lparr>ls_scales := ls_scales st1 @ [v],
                       ls_ids := (if g_kind g = 1
                                  then ls_ids st1 @ [u64_from_le (slice row (row_bytes g + 4) 8)]
                                  else ls_ids st1)\<rparr>))"

fun tail_loop :: "geo \<Rightarrow> nat \<Rightarrow> bytes \<Rightarrow> nat \<Rightarrow> nat \<Rightarrow> load_state \<Rightarrow> load_error + load_state" where
  "tail_loop g base tail k 0 st = Inr st"
| "tail_loop g base tail k (Suc m) st =
     and_then (tail_step g (base + k) (slice tail (k * tail_row g) (tail_row g)) st)
       (tail_loop g base tail (Suc k) m)"

record v7_load =
  vl_dim :: nat
  vl_bit_width :: nat
  vl_n_vectors :: nat
  vl_layout :: u8
  vl_seq_blocked :: bytes
  vl_sign :: bytes
  vl_low :: bytes
  vl_scales :: "f32 list"
  vl_ids :: "u64 list"
  vl_tqplus_shift :: "f32 list"
  vl_tqplus_scale :: "f32 list"
  vl_cursor :: sync_cursor
  vl_pending_slots :: "nat list"

text \<open>Between the unit loop and the ops: drop everything after the gathered codes, then pad with
  zeros to whole blocks.\<close>

definition trim_buf :: "geo \<Rightarrow> nat \<Rightarrow> bytes \<Rightarrow> bytes" where
  "trim_buf g n raw =
     (let n_blocks = n div BLOCK; total_blocks = (n + BLOCK - 1) div BLOCK;
          block_bytes = BLOCK * row_bytes g; (nsg, low_row) = planes_dims g;
          (kept, padded) = (if g_layout g = LAYOUT_PLANES then (n_blocks * (BLOCK * low_row), n * low_row)
                            else (n_blocks * block_bytes, total_blocks * block_bytes))
      in resize_bytes (take kept raw) padded)"

definition gather_rows :: "geo \<Rightarrow> nat \<Rightarrow> (nat \<times> bytes) list \<Rightarrow> bytes \<Rightarrow> bytes \<Rightarrow> load_error + load_state" where
  "gather_rows g n ops tail raw =
     (let n_blocks = n div BLOCK; total_blocks = (n + BLOCK - 1) div BLOCK;
          (nsg, low_row) = planes_dims g;
          sign = (if g_layout g = LAYOUT_PLANES then replicate (total_blocks * (nsg * BLOCK)) 0 else [])
      in and_then (unit_loop g 0 n_blocks \<lparr>ls_buf = raw, ls_sign = sign, ls_scales = [], ls_ids = []\<rparr>) (\<lambda>st.
         and_then (op_loop g ops (st\<lparr>ls_buf := trim_buf g n (ls_buf st)\<rparr>))
           (tail_loop g (n_blocks * BLOCK) tail 0 (n mod BLOCK))))"

definition load_image :: "numerics \<Rightarrow> bytes \<Rightarrow> u64 \<Rightarrow> u8 \<Rightarrow> load_error + v7_load" where
  "load_image nm raw expect_calib_gen expect_kind =
     and_then (parse_image nm raw expect_kind) (\<lambda>img.
     let g = pi_geo img; n = pi_n_vectors img in
     and_then (gather_rows g n (concat (map snd (pi_ops img))) (pi_tail img) raw) (\<lambda>st.
     Inr \<lparr>vl_dim = g_dim g, vl_bit_width = g_bit_width g, vl_n_vectors = n, vl_layout = g_layout g,
          vl_seq_blocked = (if g_layout g = LAYOUT_PLANES then [] else ls_buf st),
          vl_sign = ls_sign st,
          vl_low = (if g_layout g = LAYOUT_PLANES then ls_buf st else []),
          vl_scales = ls_scales st, vl_ids = ls_ids st,
          vl_tqplus_shift = pi_tqplus_shift img, vl_tqplus_scale = pi_tqplus_scale img,
          vl_cursor = \<lparr>sc_gen = pi_gen img, sc_n_synced = of_nat n, sc_calib_gen = expect_calib_gen,
                       sc_nonce = pi_nonce img\<rparr>,
          vl_pending_slots = pi_pending_slots img\<rparr>))"

end
