(* ===== verification/CrashSafety.thy ===== *)
theory CrashSafety
  imports Commit
begin

text \<open>
  Crash safety of the incremental sync. A write is \<open>safe_write\<close> for a commit when it stays out
  of the commit's header slot and of the units the commit's delta names; such writes keep the
  commit adoptable, however they are torn or reordered (locale \<open>persistence\<close>). Every write of
  \<open>plan_incremental\<close> is safe for the commit it starts from, so a power cut during the sync
  leaves that commit in place, with every row it held.
\<close>

section \<open>Definitions\<close>

definition safe_write :: "geo \<Rightarrow> parsed_hdr \<Rightarrow> nat \<times> bytes \<Rightarrow> bool" where
  "safe_write g h w \<longleftrightarrow>
     (let slot = unat (ph_gen h mod 2) in
      (fst w + length (snd w) \<le> hdr_at g slot \<or> hdr_at g slot + hdr_len g \<le> fst w) \<and>
      (\<forall>b \<in> set (delta_blocks h).
         fst w + length (snd w) \<le> unit_at g b \<or> unit_at g b + unit_len g \<le> fst w))"

text \<open>The states a crash may leave: some batches complete, the next one torn anywhere.\<close>

inductive sync_crash :: "batch list \<Rightarrow> bytes \<Rightarrow> bytes \<Rightarrow> bool" where
  crash_in: "torn b f f' \<Longrightarrow> sync_crash (b # bs) f f'"
| crash_later: "sync_crash bs (run_batch b f) f' \<Longrightarrow> sync_crash (b # bs) f f'"
| crash_done: "sync_crash [] f f"

inductive_cases sync_crash_ConsE: "sync_crash (b # bs) f f'"

text \<open>
  The state in which a sync starts: the file's commit \<open>h\<close> is the cursor's, the index's pending
  slots are the ops riding \<open>h\<close>, the source is well-formed for the file's geometry, and block
  indexes fit the header's 32-bit fields.
\<close>

definition sync_ready ::
  "bytes \<Rightarrow> geo \<Rightarrow> parsed_hdr \<Rightarrow> sync_source \<Rightarrow> sync_cursor \<Rightarrow> nat set \<Rightarrow> nat set \<Rightarrow> bool" where
  "sync_ready f g h src cursor pending fresh \<longleftrightarrow>
     wf_source src \<and> src_geo src = g \<and> finite fresh \<and> commit_at f g h \<and> detached h \<and>
     pending = set (op_slots h) \<and> card pending \<le> MAX_OPS \<and>
     sc_gen cursor = ph_gen h \<and> unat (sc_n_synced cursor) = ph_n h \<and>
     ph_n h < 32 * 4294967296"

section \<open>Safe writes keep a commit\<close>

lemma dv_loop_cong:
  "(\<And>b. b \<in> set bs \<Longrightarrow> feed b = feed' b) \<Longrightarrow> dv_loop feed bs d = dv_loop feed' bs d"
  by (induction bs arbitrary: d) (auto split: option.splits)

lemma delta_verified_cong:
  "(\<And>b. b \<in> set (delta_blocks h) \<Longrightarrow> feed b = feed' b) \<Longrightarrow>
    delta_verified h ulen feed = delta_verified h ulen feed'"
  unfolding delta_verified_def Let_def by (simp add: dv_loop_cong [of "delta_blocks h" feed feed'])

lemma delta_verified_units:
  "delta_verified h ulen feed \<Longrightarrow> b \<in> set (delta_blocks h) \<Longrightarrow> \<exists>u. feed b = Some u"
proof -
  have "dv_loop feed bs d = Some d' \<Longrightarrow> b \<in> set bs \<Longrightarrow> \<exists>u. feed b = Some u" for bs d d'
    by (induction bs arbitrary: d) (auto split: option.splits)
  then show "delta_verified h ulen feed \<Longrightarrow> b \<in> set (delta_blocks h) \<Longrightarrow> \<exists>u. feed b = Some u"
    unfolding delta_verified_def Let_def by (auto split: option.splits)
qed

lemma delta_ok_units:
  "delta_ok f g h \<Longrightarrow> b \<in> set (delta_blocks h) \<Longrightarrow> unit_at g b + unit_len g \<le> length f"
  unfolding delta_ok_def
  by (drule (1) delta_verified_units) (auto simp: unit_at_image_def get_range_Some)

lemma commit_slot_in_file:
  "commit_at f g h \<Longrightarrow>
     hdr_at g (unat (ph_gen h mod 2)) + hdr_len g \<le> length f"
  by (auto simp: commit_at_def parse_header_slot_def Option.bind_eq_Some_conv get_range_Some)

context persistence
begin

lemma commit_preserved:
  assumes p: "persisted ops f f'" and safe: "\<forall>w \<in> set ops. safe_write g h w"
    and c: "commit_at f g h"
  shows "commit_at f' g h"
proof -
  let ?slot = "unat (ph_gen h mod 2)"
  have len: "length f \<le> length f'" using p by (rule persisted_length)
  have "get_range f' (hdr_at g ?slot) (hdr_at g ?slot + hdr_len g)
      = get_range f (hdr_at g ?slot) (hdr_at g ?slot + hdr_len g)"
    using safe commit_slot_in_file [OF c] by (intro persisted_range [OF p]) (auto simp: safe_write_def Let_def)
  moreover have "parse_header_slot f g ?slot (length f) = Some h" using c by (simp add: commit_at_def)
  ultimately have parse: "parse_header_slot f' g ?slot (length f') = Some h"
    using len by (metis parse_header_slot_mono)
  have units: "unit_at_image f' g b = unit_at_image f g b" if b: "b \<in> set (delta_blocks h)" for b
    unfolding unit_at_image_def
  proof (rule persisted_range [OF p])
    show "unit_at g b + unit_len g \<le> length f"
      using c delta_ok_units [OF _ b] by (simp add: commit_at_def)
    show "\<forall>w \<in> set ops. fst w + length (snd w) \<le> unit_at g b \<or> unit_at g b + unit_len g \<le> fst w"
      using safe b by (simp add: safe_write_def Let_def)
  qed
  have "delta_ok f' g h = delta_ok f g h"
    unfolding delta_ok_def by (rule delta_verified_cong) (rule units)
  then show ?thesis using parse c by (simp add: commit_at_def)
qed

end

lemma sync_crash_commit:
  assumes "sync_crash bs f f'" and "\<forall>b \<in> set bs. \<forall>w \<in> set b. safe_write g h w"
    and "commit_at f g h"
  shows "commit_at f' g h"
  using assms
proof (induction rule: sync_crash.induct)
  case (crash_in b f f' bs)
  have "\<forall>w \<in> set b. safe_write g h w" using crash_in.prems(1) by simp
  from torn.commit_preserved [OF crash_in.hyps this crash_in.prems(2)] show ?case .
next
  case (crash_later bs b f f')
  have "\<forall>w \<in> set b. safe_write g h w" using crash_later.prems(1) by simp
  from full.commit_preserved [OF refl this crash_later.prems(2)] show ?case
    using crash_later by simp
next
  case (crash_done f)
  then show ?case by simp
qed

section \<open>The writes of a plan are safe\<close>

lemma gen_flip: "unat ((g + 1 :: u64) mod 2) \<noteq> unat (g mod 2)"
proof -
  have "odd (g + 1) \<longleftrightarrow> even g" by simp
  then show ?thesis by (cases "odd g") (auto simp: odd_iff_mod_2_eq_one even_iff_mod_2_eq_zero)
qed

lemma gen_parity: "unat ((g :: u64) mod 2) < 2"
  by (cases "odd g") (auto simp: odd_iff_mod_2_eq_one even_iff_mod_2_eq_zero)

lemma set_plan_blocks:
  "finite pending \<Longrightarrow> b \<in> set (plan_blocks src cursor pending fresh) \<longleftrightarrow>
     (b \<notin> fresh_units (live_floor src cursor) fresh \<and>
        (\<exists>s \<in> pending. s < live_floor src cursor \<and> s div BLOCK = b)) \<or>
     unat (sc_n_synced cursor) div BLOCK \<le> b \<and> b < ss_n_vectors src div BLOCK"
  by (auto simp: plan_blocks_def set_plan_materialize)

lemma plan_blocks_bound:
  "finite pending \<Longrightarrow> b \<in> set (plan_blocks src cursor pending fresh) \<Longrightarrow> b < ss_n_vectors src div BLOCK"
  using live_floor_block(1) by (auto simp: set_plan_blocks)

text \<open>The units a sync writes are not named by the commit it starts from.\<close>

lemma plan_blocks_detached:
  assumes "sync_ready f g h src cursor pending fresh"
    and "b \<in> set (plan_blocks src cursor pending fresh)"
  shows "b \<notin> set (delta_blocks h)"
proof
  assume d: "b \<in> set (delta_blocks h)"
  have "b < ph_n h div BLOCK" and "b \<notin> (\<lambda>s. s div BLOCK) ` pending"
    using assms(1) d by (auto simp: sync_ready_def detached_def)
  moreover have "finite pending" and "unat (sc_n_synced cursor) = ph_n h"
    using assms(1) by (auto simp: sync_ready_def)
  ultimately show False using assms(2) by (auto simp: set_plan_blocks)
qed

lemma carried_facts:
  assumes "finite pending" "finite fresh" and "s \<in> set (plan_carried (live_floor src cursor) pending fresh)"
  shows "s < ss_n_vectors src" and "s div BLOCK < ss_n_vectors src div BLOCK"
    and "s div BLOCK \<in> fresh_units (live_floor src cursor) fresh"
proof -
  have s: "s < live_floor src cursor" "s div BLOCK \<in> fresh_units (live_floor src cursor) fresh"
    using assms by (auto simp: set_plan_carried)
  show "s < ss_n_vectors src" using s(1) live_floor_le(1) [of src cursor] by linarith
  show "s div BLOCK < ss_n_vectors src div BLOCK" using s(1) by (rule live_floor_block(1))
  show "s div BLOCK \<in> fresh_units (live_floor src cursor) fresh" by (fact s(2))
qed

lemma plan_incremental_Some:
  "plan_incremental src cursor pending fresh clear = Some pl \<Longrightarrow>
     length (plan_carried (live_floor src cursor) pending fresh) \<le> MAX_OPS \<and>
     sp_batches pl = (case clear of
        Some used \<Rightarrow> [[(hdr_at (src_geo src) (unat ((sc_gen cursor + 1) mod 2)),
                        clear_bytes (src_geo src) (sc_gen cursor + 1) used)],
                      plan_batch src cursor pending fresh]
      | None \<Rightarrow> [plan_batch src cursor pending fresh]) \<and>
     sp_new_cursor pl = \<lparr>sc_gen = sc_gen cursor + 1, sc_n_synced = of_nat (ss_n_vectors src),
                         sc_calib_gen = sc_calib_gen cursor, sc_nonce = sc_nonce cursor\<rparr> \<and>
     sp_carried pl = plan_carried (live_floor src cursor) pending fresh"
  by (auto simp: plan_incremental_def Let_def split: if_splits)

lemma plan_header_fits:
  assumes r: "sync_ready f g h src cursor pending fresh"
    and cap: "length (plan_carried (live_floor src cursor) pending fresh) \<le> MAX_OPS"
  shows "length (plan_header src cursor pending fresh) \<le> hdr_len g"
proof -
  let ?c = "plan_carried (live_floor src cursor) pending fresh"
  have fin: "finite pending" "finite fresh" and wf: "wf_source src" and g: "src_geo src = g"
    and card: "card pending \<le> MAX_OPS"
    using r by (auto simp: sync_ready_def)
  have "\<forall>(b, ss) \<in> set (plan_groups ?c). \<forall>s \<in> set ss. s < ss_n_vectors src"
    using plan_groups_blocks carried_facts(1) [OF fin] by blast
  moreover have "length (plan_groups ?c) \<le> MAX_OPS"
    using length_plan_groups cap by (rule order_trans)
  moreover have "length (plan_materialize (live_floor src cursor) pending fresh) \<le> MAX_OPS"
    using length_plan_materialize [OF fin(1)] card order_trans by blast
  ultimately show ?thesis
    using header_slot_fits [OF wf refl, of "plan_groups ?c"] cap g
    by (simp add: concat_plan_groups plan_header_def Let_def)
qed

lemma length_clear_bytes: "length (clear_bytes g gen used) \<le> hdr_len g"
proof -
  have "16 \<le> hdr_len g" by (simp add: hdr_len_def)
  then show ?thesis by (simp add: clear_bytes_def)
qed

lemma header_write_safe:
  assumes r: "sync_ready f g h src cursor pending fresh" and len: "length bs \<le> hdr_len g"
  shows "safe_write g h (hdr_at g (unat ((sc_gen cursor + 1) mod 2)), bs)"
proof -
  let ?s = "unat (ph_gen h mod 2)" and ?t = "unat ((sc_gen cursor + 1) mod 2)"
  have "?s < 2" "?t < 2" "?t \<noteq> ?s"
    using r gen_parity gen_flip by (simp_all add: sync_ready_def)
  then have "hdr_at g ?t + hdr_len g \<le> hdr_at g ?s \<or> hdr_at g ?s + hdr_len g \<le> hdr_at g ?t"
    using hdr_at_mono [of ?s ?t g] hdr_at_mono [of ?t ?s g] by linarith
  moreover have "hdr_at g ?t + hdr_len g \<le> unit_at g b" for b
    using \<open>?t < 2\<close> by (rule hdr_before_units)
  then have "hdr_at g ?t + length bs \<le> unit_at g b" for b
    using len by (meson add_le_cancel_left order_trans)
  ultimately show ?thesis using len by (auto simp: safe_write_def Let_def)
qed

lemma unit_write_safe:
  assumes r: "sync_ready f g h src cursor pending fresh"
    and b: "b \<in> set (plan_blocks src cursor pending fresh)"
  shows "safe_write g h (unit_at g b, unit_bytes src b)"
proof -
  have fin: "finite pending" and wf: "wf_source src" and g: "src_geo src = g"
    using r by (auto simp: sync_ready_def)
  have len: "length (unit_bytes src b) = unit_len g"
    using length_unit_bytes [OF wf plan_blocks_bound [OF fin b]] g by simp
  have "hdr_at g (unat (ph_gen h mod 2)) + hdr_len g \<le> unit_at g b"
    using gen_parity by (rule hdr_before_units)
  moreover have "unit_at g b + unit_len g \<le> unit_at g c \<or> unit_at g c + unit_len g \<le> unit_at g b"
    if "c \<in> set (delta_blocks h)" for c
    using that plan_blocks_detached [OF r b] by (intro unit_at_disjoint) auto
  ultimately show ?thesis by (auto simp: safe_write_def Let_def len)
qed

lemma plan_writes_safe:
  assumes r: "sync_ready f g h src cursor pending fresh"
    and pl: "plan_incremental src cursor pending fresh clear = Some pl"
  shows "\<forall>b \<in> set (sp_batches pl). \<forall>w \<in> set b. safe_write g h w"
proof -
  have g: "src_geo src = g" using r by (simp add: sync_ready_def)
  have cap: "length (plan_carried (live_floor src cursor) pending fresh) \<le> MAX_OPS"
    using plan_incremental_Some [OF pl] by blast
  note hdr = header_write_safe [OF r plan_header_fits [OF r cap]]
    and clr = header_write_safe [OF r length_clear_bytes]
    and unit = unit_write_safe [OF r]
  have "\<forall>w \<in> set (plan_batch src cursor pending fresh). safe_write g h w"
    using hdr unit by (auto simp: plan_batch_def Let_def g)
  then show ?thesis
    using plan_incremental_Some [OF pl] clr by (cases clear) (simp_all add: g)
qed

lemma sync_crash_keeps_commit:
  assumes "sync_ready f g h src cursor pending fresh"
    and "plan_incremental src cursor pending fresh clear = Some pl"
    and "sync_crash (sp_batches pl) f f'"
  shows "commit_at f' g h"
proof (rule sync_crash_commit [OF assms(3) plan_writes_safe [OF assms(1,2)]])
  show "commit_at f g h" using assms(1) by (simp add: sync_ready_def)
qed

end
