(* ===== verification/SyncComplete.thy ===== *)
theory SyncComplete
  imports CrashSafety
begin

text \<open>
  A sync that runs to its end: every unit and the header read back as written, the header
  parses, its delta verifies, and the loader's selection picks it. The new commit is again one
  a sync may start from (its pending ops are the plan's carried slots, and its delta units
  carry no op), so the conditions of the crash-safety theorem hold along a whole history of
  syncs.
\<close>

section \<open>Reading the plan's batch back\<close>

lemma no_gap_le: "\<forall>w \<in> set ws. fst w \<le> n \<Longrightarrow> no_gap n ws"
  by (induction ws arbitrary: n) (auto simp: le_max_iff_disj)

lemma no_gap_le_append:
  "\<forall>w \<in> set xs. fst w \<le> n \<Longrightarrow> (\<And>m. n \<le> m \<Longrightarrow> no_gap m ys) \<Longrightarrow> no_gap n (xs @ ys)"
proof (induction xs arbitrary: n)
  case Nil
  then show ?case by simp
next
  case (Cons x xs)
  obtain off bs where x: "x = (off, bs)" by (cases x)
  have "no_gap (max n (off + length bs)) (xs @ ys)"
    using Cons.prems by (intro Cons.IH) (auto simp: le_max_iff_disj)
  then show ?case using Cons.prems(1) by (simp add: x)
qed

lemma no_gap_units:
  assumes "\<forall>b \<in> {k..<m}. length (u b) = unit_len g" and "unit_at g k \<le> n"
    and "\<forall>w \<in> set ws. fst w \<le> n"
  shows "no_gap n (map (\<lambda>b. (unit_at g b, u b)) [k..<m] @ ws)"
  using assms
proof (induction "m - k" arbitrary: k n)
  case 0
  then show ?case using no_gap_le by simp
next
  case (Suc d)
  then have k: "[k..<m] = k # [Suc k..<m]" by (simp add: upt_conv_Cons)
  have "no_gap (max n (unit_at g k + length (u k)))
      (map (\<lambda>b. (unit_at g b, u b)) [Suc k..<m] @ ws)"
    using Suc.hyps(2) Suc.prems
    by (intro Suc.hyps(1)) (auto simp: unit_at_Suc le_max_iff_disj)
  then show ?case using Suc.prems by (simp add: k)
qed

lemma get_range_extend:
  assumes "get_range f a (a + k) = Some bs" and "k \<le> m" and "a + m \<le> length f"
  shows "\<exists>post. get_range f a (a + m) = Some (bs @ post)"
proof -
  have "take m (drop a f) = take k (drop a f) @ take (m - k) (drop k (drop a f))"
    using assms(2) by (metis le_add_diff_inverse take_add)
  then show ?thesis using assms by (auto simp: get_range_def split: if_splits)
qed

lemma distinct_sorted_wrt_neq: "distinct xs \<Longrightarrow> sorted_wrt (\<noteq>) xs"
  by (induction xs) auto

lemma distinct_plan_blocks:
  assumes "finite pending"
  shows "distinct (plan_blocks src cursor pending fresh)"
  using assms live_floor_block(2) leD by (fastforce simp: plan_blocks_def set_plan_materialize)

lemma length_unit_bytes_plan:
  assumes "sync_ready f g h src cursor pending fresh" and "b \<in> set (plan_blocks src cursor pending fresh)"
  shows "length (unit_bytes src b) = unit_len g"
proof -
  have "finite pending" "wf_source src" "src_geo src = g" using assms(1) by (auto simp: sync_ready_def)
  then show ?thesis using length_unit_bytes plan_blocks_bound assms(2) by blast
qed

lemma plan_batch_disjoint:
  assumes r: "sync_ready f g h src cursor pending fresh"
    and cap: "length (plan_carried (live_floor src cursor) pending fresh) \<le> MAX_OPS"
  shows "sorted_wrt op_disjoint (plan_batch src cursor pending fresh)"
proof -
  have fin: "finite pending" and g: "src_geo src = g" using r by (auto simp: sync_ready_def)
  let ?u = "\<lambda>b. (unit_at g b, unit_bytes src b)"
  let ?B = "plan_blocks src cursor pending fresh"
  have "sorted_wrt (\<lambda>b c. op_disjoint (?u b) (?u c)) ?B"
  proof (rule sorted_wrt_mono_rel [OF _ distinct_sorted_wrt_neq [OF distinct_plan_blocks [OF fin]]])
    fix b c
    assume "b \<in> set ?B" "c \<in> set ?B" "b \<noteq> c"
    then show "op_disjoint (?u b) (?u c)"
      using unit_at_disjoint [of b c g] length_unit_bytes_plan [OF r] by (simp add: op_disjoint_def)
  qed
  moreover have "op_disjoint (?u b) (hdr_at g (unat ((sc_gen cursor + 1) mod 2)),
      plan_header src cursor pending fresh)" if "b \<in> set ?B" for b
    using hdr_before_units [OF gen_parity, of g "sc_gen cursor + 1" b] plan_header_fits [OF r cap]
    by (simp add: op_disjoint_def)
  ultimately show ?thesis
    by (simp add: plan_batch_def Let_def g sorted_wrt_append sorted_wrt_map)
qed

lemma commit_file_length:
  assumes "commit_at f g h"
  shows "unit_at g (ph_n h div BLOCK) \<le> length f"
  using assms parse_header_at_facts(3)
  by (fastforce simp: commit_at_def parse_header_slot_def Option.bind_eq_Some_conv)

lemma plan_batch_no_gap:
  assumes r: "sync_ready f g h src cursor pending fresh" and len: "length f \<le> n"
  shows "no_gap n (plan_batch src cursor pending fresh)"
proof -
  have fin: "finite pending" and g: "src_geo src = g" and c: "commit_at f g h"
    and syn: "unat (sc_n_synced cursor) = ph_n h"
    using r by (auto simp: sync_ready_def)
  let ?floor = "live_floor src cursor" and ?u = "\<lambda>b. (unit_at g b, unit_bytes src b)"
  let ?app = "[unat (sc_n_synced cursor) div BLOCK..<ss_n_vectors src div BLOCK]"
  let ?hdr = "(hdr_at g (unat ((sc_gen cursor + 1) mod 2)), plan_header src cursor pending fresh)"
  have end': "unit_at g (ph_n h div BLOCK) \<le> n" using commit_file_length [OF c] len by simp
  have hdr: "fst ?hdr \<le> n"
    using hdr_before_units [OF gen_parity, of g "sc_gen cursor + 1" "ph_n h div BLOCK"] end' by simp
  have "\<forall>w \<in> set (map ?u (plan_materialize ?floor pending fresh)). fst w \<le> n"
  proof
    fix w
    assume "w \<in> set (map ?u (plan_materialize ?floor pending fresh))"
    then obtain s where s: "s < ?floor" and w: "fst w = unit_at g (s div BLOCK)"
      using fin by (auto simp: set_plan_materialize)
    have "s div BLOCK < ph_n h div BLOCK" using live_floor_block(2) [OF s] syn by simp
    then have "unit_at g (s div BLOCK) + unit_len g \<le> unit_at g (ph_n h div BLOCK)"
      by (rule unit_at_mono)
    then show "fst w \<le> n" using end' w by linarith
  qed
  moreover have "no_gap m (map ?u ?app @ [?hdr])" if "n \<le> m" for m
  proof (rule no_gap_units)
    show "\<forall>b \<in> {unat (sc_n_synced cursor) div BLOCK..<ss_n_vectors src div BLOCK}.
        length (unit_bytes src b) = unit_len g"
      using length_unit_bytes_plan [OF r] fin by (auto simp: set_plan_blocks)
    show "unit_at g (unat (sc_n_synced cursor) div BLOCK) \<le> m" using end' that syn by simp
    show "\<forall>w \<in> set [?hdr]. fst w \<le> m" using hdr that by simp
  qed
  ultimately show ?thesis
    using no_gap_le_append [of "map ?u (plan_materialize ?floor pending fresh)" n "map ?u ?app @ [?hdr]"]
    by (simp add: plan_batch_def plan_blocks_def Let_def g)
qed

section \<open>The new header\<close>

definition planned_hdr :: "sync_source \<Rightarrow> sync_cursor \<Rightarrow> nat set \<Rightarrow> nat set \<Rightarrow> parsed_hdr" where
  "planned_hdr src cursor pending fresh =
     (let old_blocks = unat (sc_n_synced cursor) div BLOCK;
          new_blocks = ss_n_vectors src div BLOCK;
          gen = sc_gen cursor + 1;
          mat = plan_materialize (live_floor src cursor) pending fresh;
          groups = plan_groups (plan_carried (live_floor src cursor) pending fresh)
      in parsed_of src (hdr_at (src_geo src) (unat (gen mod 2))) gen (ss_n_vectors src) groups mat
           (old_blocks, new_blocks)
           (plan_digest src gen (length mat + (new_blocks - old_blocks))
              (plan_blocks src cursor pending fresh)))"

lemma planned_hdr_simps:
  "ph_gen (planned_hdr src cursor pending fresh) = sc_gen cursor + 1"
  "ph_n (planned_hdr src cursor pending fresh) = ss_n_vectors src"
  "delta_blocks (planned_hdr src cursor pending fresh) = plan_blocks src cursor pending fresh"
  "ph_delta_crc (planned_hdr src cursor pending fresh)
     = plan_digest src (sc_gen cursor + 1) (length (plan_blocks src cursor pending fresh))
         (plan_blocks src cursor pending fresh)"
  by (simp_all add: planned_hdr_def parsed_of_def Let_def delta_blocks_def plan_blocks_def)

lemma map_fst_ops_at: "map fst (ops_at at osz ss p) = ss"
  by (induction ss arbitrary: p) simp_all

lemma slots_groups_at: "map fst (concat (map snd (groups_at at osz gs p))) = concat (map snd gs)"
  by (induction gs arbitrary: p) (auto simp: map_fst_ops_at)

lemma planned_hdr_ops:
  "op_slots (planned_hdr src cursor pending fresh) = plan_carried (live_floor src cursor) pending fresh"
  by (simp add: op_slots_def op_list_def planned_hdr_def parsed_of_def Let_def slots_groups_at
      concat_plan_groups)

text \<open>The invariant along syncs: delta units carry no pending op.\<close>

lemma planned_hdr_detached:
  assumes "finite pending" "finite fresh"
  shows "detached (planned_hdr src cursor pending fresh)"
  unfolding detached_def planned_hdr_simps planned_hdr_ops set_map
proof (intro ballI conjI)
  fix b
  assume b: "b \<in> set (plan_blocks src cursor pending fresh)"
  show "b < ss_n_vectors src div BLOCK" using plan_blocks_bound [OF assms(1) b] .
  show "b \<notin> (\<lambda>s. s div BLOCK) ` set (plan_carried (live_floor src cursor) pending fresh)"
  proof
    assume "b \<in> (\<lambda>s. s div BLOCK) ` set (plan_carried (live_floor src cursor) pending fresh)"
    then obtain s where s: "s < live_floor src cursor" "b = s div BLOCK"
      and fu: "b \<in> fresh_units (live_floor src cursor) fresh"
      using assms by (auto simp: set_plan_carried)
    from live_floor_block(2) [OF s(1)] fu b s(2) assms show False by (auto simp: set_plan_blocks)
  qed
qed

lemma planned_hdr_parses:
  assumes r: "sync_ready f g h src cursor pending fresh"
    and cap: "length (plan_carried (live_floor src cursor) pending fresh) \<le> MAX_OPS"
    and fits: "unit_at g (ss_n_vectors src div BLOCK) \<le> file_len" "file_len \<le> usize_max"
  shows "parse_header_at (plan_header src cursor pending fresh @ post)
      (hdr_at g (unat ((sc_gen cursor + 1) mod 2))) g (unat ((sc_gen cursor + 1) mod 2)) file_len
    = Some (planned_hdr src cursor pending fresh)"
proof -
  have fin: "finite pending" "finite fresh" and wf: "wf_source src" and g: "src_geo src = g"
    and card: "card pending \<le> MAX_OPS" and syn: "unat (sc_n_synced cursor) = ph_n h"
    and c: "commit_at f g h"
    using r by (auto simp: sync_ready_def)
  let ?c = "plan_carried (live_floor src cursor) pending fresh"
  let ?mat = "plan_materialize (live_floor src cursor) pending fresh"
  have nb: "ss_n_vectors src div BLOCK < 4294967296"
    using wf_sourceD(4) [OF wf] by (simp add: less_mult_imp_div_less)
  have ob: "unat (sc_n_synced cursor) div BLOCK < 4294967296"
    using r by (simp add: sync_ready_def less_mult_imp_div_less)
  have groups: "wf_groups (ss_n_vectors src div BLOCK) (plan_groups ?c)"
    using carried_facts(2) [OF fin] by (intro wf_plan_groups) auto
  have lg: "length (plan_groups ?c) \<le> MAX_OPS"
    using length_plan_groups cap by (rule order_trans)
  have lm: "length ?mat \<le> MAX_OPS"
    using length_plan_materialize [OF fin(1)] card by (rule order_trans)
  have mats: "\<forall>b \<in> set ?mat. b < 4294967296"
  proof
    fix b
    assume "b \<in> set ?mat"
    then have "b < ss_n_vectors src div BLOCK"
      using fin live_floor_block(1) by (auto simp: set_plan_materialize)
    then show "b < 4294967296" using nb by simp
  qed
  show ?thesis
    using parse_header_roundtrip [OF wf refl groups lg lm mats, of
        "(unat (sc_n_synced cursor) div BLOCK, ss_n_vectors src div BLOCK)"
        "unat ((sc_gen cursor + 1) mod 2)" "sc_gen cursor + 1" file_len] nb ob fits g
    by (simp add: plan_header_def planned_hdr_def Let_def)
qed

section \<open>The new commit is on disk\<close>

lemma row_bytes_le: "g_dim g \<le> 16384 \<Longrightarrow> row_bytes g \<le> 16384"
  by (simp add: row_bytes_def blocked_geometry_def Let_def) (meson div_le_dividend order_trans)

lemma unit_len_le: "g_dim g \<le> 16384 \<Longrightarrow> unit_len g \<le> 600000"
  using row_bytes_le [of g] by (simp add: unit_len_def id_bytes_def)

lemma plan_digest_stream:
  assumes "\<forall>b \<in> set blocks. length (unit_bytes src b) = unit_len (src_geo src)"
  shows "plan_digest src gen (length blocks) blocks
    = crc32 (delta_stream gen (map (\<lambda>b. (b, unit_bytes src b)) blocks))"
proof -
  let ?units = "map (\<lambda>b. (b, unit_bytes src b)) blocks"
  have "8 + length blocks * (4 + unit_len (src_geo src)) = length (delta_stream gen ?units)"
    using assms by (subst length_delta_stream_const) auto
  from digest_stream [OF this] show ?thesis
    by (simp add: plan_digest_def foldl_map)
qed

text \<open>The delta of the planned header verifies when the units on disk have the digest of the planned ones.\<close>

lemma planned_delta_iff:
  assumes r: "sync_ready f g h src cursor pending fresh"
  shows "delta_ok f' g (planned_hdr src cursor pending fresh) \<longleftrightarrow>
    (\<exists>us. map (unit_at_image f' g) (plan_blocks src cursor pending fresh) = map Some us \<and>
      crc32 (delta_stream (sc_gen cursor + 1) (zip (plan_blocks src cursor pending fresh) us))
        = crc32 (delta_stream (sc_gen cursor + 1)
            (zip (plan_blocks src cursor pending fresh) (map (unit_bytes src) (plan_blocks src cursor pending fresh)))))"
proof -
  let ?B = "plan_blocks src cursor pending fresh"
  have fin: "finite pending" and wf: "wf_source src" and g: "src_geo src = g"
    using r by (auto simp: sync_ready_def)
  have nb: "ss_n_vectors src div BLOCK < 4294967296"
    using wf_sourceD(4) [OF wf] by (simp add: less_mult_imp_div_less)
  have "length ?B = card (set ?B)" using distinct_plan_blocks [OF fin] by (simp add: distinct_card)
  also have "\<dots> \<le> card {..<4294967296 :: nat}"
    using plan_blocks_bound [OF fin] nb by (intro card_mono) force+
  finally have len: "length ?B \<le> 4294967296" by simp
  have "unit_len g \<le> 600000" using wf_sourceD(10) [OF wf] g by (intro unit_len_le) auto
  then have "length ?B * (4 + unit_len g) \<le> 4294967296 * 600004"
    using len by (intro mult_le_mono) auto
  then have small: "8 + length (delta_blocks (planned_hdr src cursor pending fresh))
      * (4 + unit_len g) \<le> usize_max"
    by (simp add: planned_hdr_simps)
  have feed: "length u = unit_len g" if "unit_at_image f' g b = Some u" for b u
    using that by (auto simp: unit_at_image_def)
  have crc: "plan_digest src (sc_gen cursor + 1) (length ?B) ?B
      = crc32 (delta_stream (sc_gen cursor + 1) (map (\<lambda>b. (b, unit_bytes src b)) ?B))"
    using length_unit_bytes_plan [OF r] g by (intro plan_digest_stream) auto
  have zip: "zip ?B (map (unit_bytes src) ?B) = map (\<lambda>b. (b, unit_bytes src b)) ?B"
    by (rule nth_equalityI) auto
  show ?thesis
    unfolding delta_ok_def
    by (subst delta_verified_iff [where ulen = "unit_len g"]) (use feed small in \<open>auto simp: planned_hdr_simps crc zip\<close>)
qed

lemma planned_delta_verified:
  assumes r: "sync_ready f g h src cursor pending fresh"
    and units: "\<And>b. b \<in> set (plan_blocks src cursor pending fresh) \<Longrightarrow>
      unit_at_image f' g b = Some (unit_bytes src b)"
  shows "delta_ok f' g (planned_hdr src cursor pending fresh)"
  unfolding planned_delta_iff [OF r]
  using units by (intro exI [of _ "map (unit_bytes src) (plan_blocks src cursor pending fresh)"]) simp

text \<open>A complete run of the data batch over any file that holds the old commit.\<close>

lemma plan_batch_commits:
  assumes r: "sync_ready f g h src cursor pending fresh"
    and cap: "length (plan_carried (live_floor src cursor) pending fresh) \<le> MAX_OPS"
    and len: "length f \<le> length f0"
    and f': "f' = run_batch (plan_batch src cursor pending fresh) f0"
    and max: "length f' \<le> usize_max"
  shows "commit_at f' g (planned_hdr src cursor pending fresh)"
proof -
  have fin: "finite pending" and wf: "wf_source src" and g: "src_geo src = g"
    and c: "commit_at f g h" and syn: "unat (sc_n_synced cursor) = ph_n h"
    using r by (auto simp: sync_ready_def)
  let ?t = "unat ((sc_gen cursor + 1) mod 2)" and ?B = "plan_batch src cursor pending fresh"
  let ?nb = "ss_n_vectors src div BLOCK"
  note rd = run_batch_read [OF plan_batch_disjoint [OF r cap] plan_batch_no_gap [OF r len], folded f']
  have grow: "length f0 \<le> length f'" unfolding f' by (rule run_batch_length_ge)
  have units: "unit_at_image f' g b = Some (unit_bytes src b)"
    if "b \<in> set (plan_blocks src cursor pending fresh)" for b
    using rd [of "unit_at g b" "unit_bytes src b"] that length_unit_bytes_plan [OF r that]
    by (simp add: unit_at_image_def plan_batch_def Let_def g)
  have fits: "unit_at g ?nb \<le> length f'"
  proof (cases "unat (sc_n_synced cursor) div BLOCK < ?nb")
    case True
    then have "?nb - 1 \<in> set (plan_blocks src cursor pending fresh)"
      and nb: "Suc (?nb - 1) = ?nb"
      using fin by (auto simp: set_plan_blocks)
    then have "unit_at g (?nb - 1) + unit_len g \<le> length f'"
      using units by (fastforce simp: unit_at_image_def get_range_Some)
    then show ?thesis using unit_at_Suc [of g "?nb - 1"] nb by simp
  next
    case False
    then have "unit_at g ?nb \<le> unit_at g (ph_n h div BLOCK)"
      using syn by (simp add: unit_at_def)
    then show ?thesis using commit_file_length [OF c] len grow by linarith
  qed
  have slot: "hdr_at g ?t + hdr_len g \<le> length f'"
    using hdr_before_units [OF gen_parity, of g "sc_gen cursor + 1" ?nb] fits by linarith
  have "get_range f' (hdr_at g ?t) (hdr_at g ?t + length (plan_header src cursor pending fresh))
      = Some (plan_header src cursor pending fresh)"
    by (rule rd) (simp add: plan_batch_def Let_def g)
  from get_range_extend [OF this plan_header_fits [OF r cap] slot]
  obtain post where "get_range f' (hdr_at g ?t) (hdr_at g ?t + hdr_len g)
      = Some (plan_header src cursor pending fresh @ post)" by blast
  then have "parse_header_slot f' g ?t (length f') = Some (planned_hdr src cursor pending fresh)"
    using planned_hdr_parses [OF r cap fits max] by (simp add: parse_header_slot_def)
  then show ?thesis
    using planned_delta_verified [OF r units] by (simp add: commit_at_def planned_hdr_simps)
qed

section \<open>The loader's choice\<close>

lemma choose_two:
  assumes "parse_header_slot f g s (length f) = Some h"
    and "parse_header_slot f g s' (length f) = Some h'" and "{s, s'} = {0, 1}" "s \<noteq> s'"
    and "delta_ok f g h'" and lt: "unat (ph_gen h) < unat (ph_gen h')"
  shows "choose_header f g = Some h'"
proof -
  have b: "unat (ph_gen h') \<le> usize_max"
    using unsigned_less [of "ph_gen h'"] by (simp add: less_Suc_eq_le [symmetric] del: less_Suc_eq_le)
  have key: "usize_max - unat (ph_gen h') < usize_max - unat (ph_gen h)" using lt b by linarith
  have "header_cands f g = [h', h]"
    using assms(1-4) key
    by (auto simp: header_cands_def doubleton_eq_iff map_filter_simps)
  then show ?thesis using assms(5) by (simp add: choose_header_def)
qed

lemma choose_exists:
  assumes "commit_at f g h"
  shows "\<exists>h'. choose_header f g = Some h' \<and> delta_ok f g h' \<and>
    (\<exists>s \<in> {0, 1}. parse_header_slot f g s (length f) = Some h')"
proof -
  have "unat (ph_gen h mod 2) \<in> {0, 1}" using gen_parity [of "ph_gen h"] by auto
  then have mem: "h \<in> set (header_cands f g)"
    using assms by (auto simp: header_cands_def commit_at_def map_filter_simps split: option.splits)
  then obtain h' where h': "choose_header f g = Some h'"
    using assms by (cases "choose_header f g")
      (auto simp: choose_header_def find_None_iff commit_at_def)
  then have "delta_ok f g h'" and "h' \<in> set (header_cands f g)"
    by (auto simp: choose_header_def find_Some_iff)
  then show ?thesis
    using h' by (auto simp: header_cands_def map_filter_simps split: option.splits)
qed

lemma parse_slot_parity:
  "parse_header_slot f g s fl = Some h \<Longrightarrow> unat (ph_gen h mod 2) = s"
  by (auto simp: parse_header_slot_def Option.bind_eq_Some_conv dest: parse_header_at_facts(2))

text \<open>The wiped slot is refused on its parity, whatever else it holds.\<close>

lemma clear_bytes_rejected:
  "parse_header_at (clear_bytes g gen used @ post) at g (unat (gen mod 2)) fl = None"
proof -
  have "read_u64 (clear_bytes g gen used @ post) 0 = Some ((gen mod 2) XOR 1)"
    using read_u64_mid [of 0 "[]"] by (simp add: clear_bytes_def)
  moreover have "unat (((gen mod 2) XOR 1) mod 2) \<noteq> unat (gen mod 2)"
    by (cases "odd gen") (auto simp: odd_iff_mod_2_eq_one even_iff_mod_2_eq_zero)
  ultimately show ?thesis by (simp add: parse_header_at_def)
qed

end
