(* ===== verification/SyncRows.thy ===== *)
theory SyncRows
  imports SyncComplete
begin

text \<open>
  Row-level crash safety. The row record the loader takes for a slot under the old commit does
  not change while a sync is in flight, although the sync rewrites units of that commit in
  place: a rewritten unit carries, for every slot the old commit still reads from it, the bytes
  that were already there.
\<close>

section \<open>Definitions\<close>

text \<open>The unit encoder lays the rows out sequential-blocked: byte group \<open>i\<close> of lane \<open>l\<close> of a block
  is its byte \<open>i * BLOCK + l\<close>.\<close>

definition seq_source :: "sync_source \<Rightarrow> bool" where
  "seq_source src \<longleftrightarrow>
     (\<forall>b < ss_n_vectors src div BLOCK. \<forall>lane < BLOCK. \<forall>i < row_bytes (src_geo src).
        ss_unit_codes src (b * BLOCK) (b * BLOCK + BLOCK) ! (i * BLOCK + lane)
          = ss_row_codes src (b * BLOCK + lane) ! i)"

text \<open>A write that is safe for every row read through the commit.\<close>

definition row_safe :: "geo \<Rightarrow> parsed_hdr \<Rightarrow> (nat \<Rightarrow> bytes option) \<Rightarrow> nat \<times> bytes \<Rightarrow> bool" where
  "row_safe g h R w \<longleftrightarrow>
     safe_write g h w \<and>
     (\<forall>b < ph_n h div BLOCK.
        fst w + length (snd w) \<le> unit_at g b \<or> unit_at g b + unit_len g \<le> fst w \<or>
        fst w = unit_at g b \<and> length (snd w) = unit_len g \<and>
        (\<forall>lane < BLOCK. b * BLOCK + lane \<notin> set (op_slots h) \<longrightarrow>
           R (b * BLOCK + lane) = Some (unit_row g (snd w) lane)))"

text \<open>Every row of the old commit's whole blocks that the index still holds and no operation touched
  since is the same; nothing is asked of the rows of its tail.\<close>

definition clean_rows_agree ::
  "bytes \<Rightarrow> geo \<Rightarrow> parsed_hdr \<Rightarrow> sync_source \<Rightarrow> nat set \<Rightarrow> nat set \<Rightarrow> bool" where
  "clean_rows_agree f g h src pending fresh \<longleftrightarrow>
     (\<forall>s < min (ph_n h div BLOCK * BLOCK) (ss_n_vectors src). s \<notin> pending \<longrightarrow> s \<notin> fresh \<longrightarrow>
        committed_row f g h s = Some (row_record src s))"

section \<open>Positions of a row in a unit\<close>

lemma row_positions_bound:
  assumes "p \<in> set (row_positions g lane)" and "lane < BLOCK"
  shows "p < unit_len g"
proof -
  have "i * BLOCK + lane < BLOCK * row_bytes g" if "i < row_bytes g" for i
  proof -
    have "Suc i * BLOCK \<le> row_bytes g * BLOCK" using that by (intro mult_le_mono1) simp
    then show ?thesis using assms(2) by (simp add: mult.commute)
  qed
  then show ?thesis
    using assms by (auto simp: row_positions_def unit_len_def id_bytes_def split: if_splits)
      (fastforce+)?
qed

lemma unit_row_cong:
  "(\<And>p. p \<in> set (row_positions g lane) \<Longrightarrow> u ! p = v ! p) \<Longrightarrow> unit_row g u lane = unit_row g v lane"
  by (simp add: unit_row_def)

lemma unit_row_eqD:
  "unit_row g u lane = unit_row g v lane \<Longrightarrow> p \<in> set (row_positions g lane) \<Longrightarrow> u ! p = v ! p"
  by (simp add: unit_row_def)

text \<open>The unit of a block holds the row records of its lanes.\<close>

lemma unit_row_unit_bytes:
  assumes wf: "wf_source src" and seq: "seq_source src"
    and b: "b < ss_n_vectors src div BLOCK" and lane: "lane < BLOCK"
  shows "unit_row (src_geo src) (unit_bytes src b) lane = row_record src (b * BLOCK + lane)"
proof -
  let ?g = "src_geo src" and ?r = "b * BLOCK + lane"
  let ?C = "ss_unit_codes src (b * BLOCK) (b * BLOCK + BLOCK)"
  have "Suc b * BLOCK \<le> ss_n_vectors src"
    using b by (meson Suc_leI div_le_dividend le_trans less_eq_div_iff_mult_less_eq zero_less_numeral)
  then have r: "?r < ss_n_vectors src" using lane by simp
  have lc: "length ?C = BLOCK * row_bytes ?g" using wf_sourceD(2) [OF wf b] .
  have ls: "length (unit_scales src (b * BLOCK)) = BLOCK * 4"
    by (simp add: unit_scales_def length_concat_const)
  have codes: "map (\<lambda>i. unit_bytes src b ! (i * BLOCK + lane)) [0..<row_bytes ?g] = ss_row_codes src ?r"
  proof (rule nth_equalityI)
    show "length (map (\<lambda>i. unit_bytes src b ! (i * BLOCK + lane)) [0..<row_bytes ?g])
        = length (ss_row_codes src ?r)" using wf_sourceD(1) [OF wf r] by simp
    fix i
    assume "i < length (map (\<lambda>i. unit_bytes src b ! (i * BLOCK + lane)) [0..<row_bytes ?g])"
    then have i: "i < row_bytes ?g" by simp
    then have "Suc i * BLOCK \<le> row_bytes ?g * BLOCK" by (intro mult_le_mono1) simp
    then have "i * BLOCK + lane < length ?C" using lane by (simp add: lc mult.commute)
    then show "map (\<lambda>i. unit_bytes src b ! (i * BLOCK + lane)) [0..<row_bytes ?g] ! i
        = ss_row_codes src ?r ! i"
      using seq b lane i by (simp add: unit_bytes_def nth_append seq_source_def Let_def)
  qed
  have scales: "map (\<lambda>j. unit_bytes src b ! (BLOCK * row_bytes ?g + lane * 4 + j)) [0..<4]
      = u32_to_le (ss_scales src ! ?r)"
  proof (rule nth_equalityI)
    fix j
    assume "j < length (map (\<lambda>j. unit_bytes src b ! (BLOCK * row_bytes ?g + lane * 4 + j)) [0..<4])"
    then have j: "j < 4" by simp
    then have "lane * 4 + j < BLOCK * 4" using lane by simp
    then have "unit_bytes src b ! (BLOCK * row_bytes ?g + lane * 4 + j)
        = unit_scales src (b * BLOCK) ! (lane * 4 + j)"
      by (simp add: unit_bytes_def nth_append Let_def lc ls)
    also have "\<dots> = u32_to_le (ss_scales src ! ?r) ! j"
      unfolding unit_scales_def using lane j r
      by (subst nth_concat_const) auto
    finally show "map (\<lambda>j. unit_bytes src b ! (BLOCK * row_bytes ?g + lane * 4 + j)) [0..<4] ! j
        = u32_to_le (ss_scales src ! ?r) ! j" using j by simp
  qed simp
  have ids: "(if ss_kind src = 1
      then map (\<lambda>j. unit_bytes src b ! (BLOCK * row_bytes ?g + BLOCK * 4 + lane * 8 + j)) [0..<8] else [])
      = (case ss_ids src of None \<Rightarrow> [] | Some ids \<Rightarrow> u64_to_le (ids ! ?r))"
  proof (cases "ss_ids src")
    case None
    then have "ss_kind src = 0" using wf by (simp add: wf_source_def Let_def)
    then show ?thesis using None by simp
  next
    case (Some ids)
    have k: "ss_kind src = 1" using wf_source_ids(3) [OF wf Some] by simp
    have "map (\<lambda>j. unit_bytes src b ! (BLOCK * row_bytes ?g + BLOCK * 4 + lane * 8 + j)) [0..<8]
        = u64_to_le (ids ! ?r)"
    proof (rule nth_equalityI)
      fix j
      assume "j < length (map (\<lambda>j. unit_bytes src b ! (BLOCK * row_bytes ?g + BLOCK * 4 + lane * 8 + j)) [0..<8])"
      then have j: "j < 8" by simp
      then have "lane * 8 + j < BLOCK * 8" using lane by simp
      then have "unit_bytes src b ! (BLOCK * row_bytes ?g + BLOCK * 4 + lane * 8 + j)
          = unit_ids src (b * BLOCK) ! (lane * 8 + j)"
        by (simp add: unit_bytes_def nth_append Let_def lc ls)
      also have "\<dots> = u64_to_le (ids ! ?r) ! j"
        unfolding unit_ids_def Some option.case using lane j r
        by (subst nth_concat_const) auto
      finally show "map (\<lambda>j. unit_bytes src b ! (BLOCK * row_bytes ?g + BLOCK * 4 + lane * 8 + j)) [0..<8] ! j
          = u64_to_le (ids ! ?r) ! j" using j by simp
    qed simp
    then show ?thesis using k Some by simp
  qed
  have "unit_row ?g (unit_bytes src b) lane
      = map (\<lambda>i. unit_bytes src b ! (i * BLOCK + lane)) [0..<row_bytes ?g]
        @ map (\<lambda>j. unit_bytes src b ! (BLOCK * row_bytes ?g + lane * 4 + j)) [0..<4]
        @ (if ss_kind src = 1
           then map (\<lambda>j. unit_bytes src b ! (BLOCK * row_bytes ?g + BLOCK * 4 + lane * 8 + j)) [0..<8]
           else [])"
    by (simp add: unit_row_def row_positions_def comp_def)
  then show ?thesis by (simp only: codes scales ids row_record_def)
qed

section \<open>Row-safe writes keep every committed row\<close>

lemma commit_parse:
  assumes "commit_at f g h"
  obtains bs where "get_range f (hdr_at g (unat (ph_gen h mod 2)))
      (hdr_at g (unat (ph_gen h mod 2)) + hdr_len g) = Some bs"
    "parse_header_at bs (hdr_at g (unat (ph_gen h mod 2))) g (unat (ph_gen h mod 2)) (length f) = Some h"
    "length bs = hdr_len g"
  using assms by (auto simp: commit_at_def parse_header_slot_def Option.bind_eq_Some_conv get_range_Some)

text \<open>Every row of a commit that is not read from its unit lies inside the header slot.\<close>

lemma commit_row_in_slot:
  assumes c: "commit_at f g h"
  shows "k < ph_n h mod BLOCK \<Longrightarrow> hdr_at g (unat (ph_gen h mod 2)) \<le> ph_tail_at h + k * tail_row g \<and>
      ph_tail_at h + k * tail_row g + tail_row g \<le> hdr_at g (unat (ph_gen h mod 2)) + hdr_len g"
    and "(s, o') \<in> set (op_list h) \<Longrightarrow> hdr_at g (unat (ph_gen h mod 2)) \<le> o' \<and>
      o' + tail_row g \<le> hdr_at g (unat (ph_gen h mod 2)) + hdr_len g"
proof -
  obtain bs where p: "parse_header_at bs (hdr_at g (unat (ph_gen h mod 2))) g
      (unat (ph_gen h mod 2)) (length f) = Some h" and l: "length bs = hdr_len g"
    using c by (rule commit_parse)
  show "(s, o') \<in> set (op_list h) \<Longrightarrow> hdr_at g (unat (ph_gen h mod 2)) \<le> o' \<and>
      o' + tail_row g \<le> hdr_at g (unat (ph_gen h mod 2)) + hdr_len g"
    using parse_header_at_facts(5) [OF p] l by auto
  assume "k < ph_n h mod BLOCK"
  then have "Suc k * tail_row g \<le> ph_n h mod BLOCK * tail_row g" by (intro mult_le_mono1) simp
  then show "hdr_at g (unat (ph_gen h mod 2)) \<le> ph_tail_at h + k * tail_row g \<and>
      ph_tail_at h + k * tail_row g + tail_row g \<le> hdr_at g (unat (ph_gen h mod 2)) + hdr_len g"
    using parse_header_at_facts(1,4) [OF p] l by simp
qed

context persistence
begin

lemma slot_range_preserved:
  assumes p: "persisted ops f f'" and safe: "\<forall>w \<in> set ops. safe_write g h w" and c: "commit_at f g h"
    and r: "hdr_at g (unat (ph_gen h mod 2)) \<le> a" "b \<le> hdr_at g (unat (ph_gen h mod 2)) + hdr_len g"
  shows "get_range f' a b = get_range f a b"
proof (rule persisted_range [OF p])
  show "b \<le> length f" using commit_slot_in_file [OF c] r by simp
  show "\<forall>w \<in> set ops. fst w + length (snd w) \<le> a \<or> b \<le> fst w"
    using safe r by (fastforce simp: safe_write_def Let_def)
qed

lemma unit_row_preserved:
  assumes p: "persisted ops f f'" and safe: "\<forall>w \<in> set ops. row_safe g h R w"
    and u: "unit_at_image f g b = Some u" and b: "b < ph_n h div BLOCK" and lane: "lane < BLOCK"
    and no: "b * BLOCK + lane \<notin> set (op_slots h)" and R: "R (b * BLOCK + lane) = Some (unit_row g u lane)"
  shows "\<exists>u'. unit_at_image f' g b = Some u' \<and> unit_row g u' lane = unit_row g u lane"
proof -
  have fit: "unit_at g b + unit_len g \<le> length f" using u by (auto simp: unit_at_image_def get_range_Some)
  have u_def: "u = take (unit_len g) (drop (unit_at g b) f)"
    using u by (auto simp: unit_at_image_def get_range_Some)
  define u' where "u' = take (unit_len g) (drop (unit_at g b) f')"
  have fit': "unit_at g b + unit_len g \<le> length f'" using fit persisted_length [OF p] by simp
  then have u': "unit_at_image f' g b = Some u'" by (simp add: unit_at_image_def get_range_Some u'_def)
  have "u' ! q = u ! q" if q: "q \<in> set (row_positions g lane)" for q
  proof -
    have ql: "q < unit_len g" using q lane by (rule row_positions_bound)
    have "f' ! (unit_at g b + q) = f ! (unit_at g b + q)"
    proof (rule persisted_same [OF p])
      show "unit_at g b + q < length f" using ql fit by simp
      fix w
      assume w: "w \<in> set ops" and i: "in_op w (unit_at g b + q)"
      have "row_safe g h R w" using safe w by blast
      then have "fst w = unit_at g b \<and> R (b * BLOCK + lane) = Some (unit_row g (snd w) lane)"
        using b lane no i ql unfolding row_safe_def in_op_def by fastforce
      then have f: "fst w = unit_at g b" and "unit_row g (snd w) lane = unit_row g u lane"
        using R by auto
      then have "snd w ! q = u ! q" using unit_row_eqD q by blast
      then show "snd w ! (unit_at g b + q - fst w) = f ! (unit_at g b + q)"
        using f ql fit by (simp add: u_def)
    qed
    then show ?thesis using ql fit fit' by (simp add: u_def u'_def)
  qed
  then show ?thesis using u' unit_row_cong by blast
qed

lemma rows_preserved:
  assumes p: "persisted ops f f'" and safe: "\<forall>w \<in> set ops. row_safe g h R w"
    and c: "commit_at f g h" and R: "\<forall>s. committed_row f g h s = R s"
  shows "committed_row f' g h s = R s"
proof -
  have sw: "\<forall>w \<in> set ops. safe_write g h w" using safe by (simp add: row_safe_def)
  note slot = slot_range_preserved [OF p sw c] and rows = commit_row_in_slot [OF c]
  have Rs: "R s = committed_row f g h s" using R by simp
  show ?thesis
  proof (cases "ph_n h div BLOCK \<le> s div BLOCK")
    case True
    have "s mod BLOCK < ph_n h mod BLOCK" if "s < ph_n h"
    proof -
      have "s div BLOCK = ph_n h div BLOCK" using True that by (meson div_le_mono le_antisym less_imp_le)
      moreover have "s = s div BLOCK * BLOCK + s mod BLOCK" "ph_n h = ph_n h div BLOCK * BLOCK + ph_n h mod BLOCK"
        by simp_all
      ultimately show ?thesis using that by linarith
    qed
    then show ?thesis unfolding Rs using True slot rows(1) by (simp add: committed_row_def)
  next
    case False
    show ?thesis
    proof (cases "map_of (rev (op_list h)) s")
      case (Some o')
      then have "(s, o') \<in> set (op_list h)" by (auto dest: map_of_SomeD)
      then show ?thesis unfolding Rs using False Some slot rows(2) by (simp add: committed_row_def)
    next
      case None
      then have no: "s \<notin> set (op_slots h)" by (auto simp: map_of_eq_None_iff op_slots_def)
      have b: "s div BLOCK < ph_n h div BLOCK" using False by simp
      then have n: "s < ph_n h" by (meson div_le_mono leD le_less_linear)
      have "unit_at g (s div BLOCK) + unit_len g \<le> length f"
        using unit_at_mono [OF b] commit_file_length [OF c] by (rule order_trans)
      then obtain u where u: "unit_at_image f g (s div BLOCK) = Some u"
        by (simp add: unit_at_image_def get_range_Some)
      have R': "R (s div BLOCK * BLOCK + s mod BLOCK) = Some (unit_row g u (s mod BLOCK))"
        using Rs n False None u by (simp add: committed_row_def)
      obtain u' where "unit_at_image f' g (s div BLOCK) = Some u'"
        "unit_row g u' (s mod BLOCK) = unit_row g u (s mod BLOCK)"
        using unit_row_preserved [OF p safe u b _ _ R'] no by auto
      then show ?thesis unfolding Rs using n False None u by (simp add: committed_row_def)
    qed
  qed
qed

end

lemma sync_crash_rows:
  assumes "sync_crash bs f f'" and "\<forall>b \<in> set bs. \<forall>w \<in> set b. row_safe g h R w"
    and "commit_at f g h" and "\<forall>s. committed_row f g h s = R s"
  shows "commit_at f' g h \<and> (\<forall>s. committed_row f' g h s = R s)"
  using assms
proof (induction rule: sync_crash.induct)
  case (crash_in b f f' bs)
  have rs: "\<forall>w \<in> set b. row_safe g h R w" using crash_in.prems(1) by simp
  then have "\<forall>w \<in> set b. safe_write g h w" by (simp add: row_safe_def)
  from torn.commit_preserved [OF crash_in.hyps this crash_in.prems(2)]
    torn.rows_preserved [OF crash_in.hyps rs crash_in.prems(2,3)] show ?case by blast
next
  case (crash_later bs b f f')
  have rs: "\<forall>w \<in> set b. row_safe g h R w" using crash_later.prems(1) by simp
  then have "\<forall>w \<in> set b. safe_write g h w" by (simp add: row_safe_def)
  from full.commit_preserved [OF refl this crash_later.prems(2)]
    full.rows_preserved [OF refl rs crash_later.prems(2,3)] show ?case
    using crash_later by simp
next
  case (crash_done f)
  then show ?case by simp
qed

section \<open>The writes of a plan are row-safe\<close>

lemma header_write_row_safe:
  assumes r: "sync_ready f g h src cursor pending fresh" and len: "length bs \<le> hdr_len g"
  shows "row_safe g h R (hdr_at g (unat ((sc_gen cursor + 1) mod 2)), bs)"
proof -
  have "hdr_at g (unat ((sc_gen cursor + 1) mod 2)) + length bs \<le> unit_at g b" for b
    using hdr_before_units [OF gen_parity, of g "sc_gen cursor + 1" b] len by linarith
  then show ?thesis using header_write_safe [OF r len] by (simp add: row_safe_def)
qed

lemma unit_write_row_safe:
  assumes r: "sync_ready f g h src cursor pending fresh" and seq: "seq_source src"
    and agree: "clean_rows_agree f g h src pending fresh"
    and b: "b \<in> set (plan_blocks src cursor pending fresh)"
  shows "row_safe g h (committed_row f g h) (unit_at g b, unit_bytes src b)"
proof -
  have fin: "finite pending" and finf: "finite fresh" and wf: "wf_source src" and g: "src_geo src = g"
    and pen: "pending = set (op_slots h)" and syn: "unat (sc_n_synced cursor) = ph_n h"
    using r by (auto simp: sync_ready_def)
  have bn: "b < ss_n_vectors src div BLOCK" using fin b by (rule plan_blocks_bound)
  have len: "length (unit_bytes src b) = unit_len g" using length_unit_bytes [OF wf bn] g by simp
  have rows: "committed_row f g h (b * BLOCK + lane) = Some (unit_row g (unit_bytes src b) lane)"
    if ob: "b < ph_n h div BLOCK" and lane: "lane < BLOCK" and no: "b * BLOCK + lane \<notin> set (op_slots h)" for lane
  proof -
    let ?s = "b * BLOCK + lane"
    have "Suc b * BLOCK \<le> ph_n h" "Suc b * BLOCK \<le> ss_n_vectors src"
      using ob bn by (meson Suc_leI div_le_dividend le_trans less_eq_div_iff_mult_less_eq zero_less_numeral)+
    moreover have "Suc b * BLOCK \<le> ph_n h div BLOCK * BLOCK" using ob by (intro mult_le_mono1) simp
    ultimately have s: "?s < min (ph_n h div BLOCK * BLOCK) (ss_n_vectors src)" using lane by simp
    have sb: "?s div BLOCK = b" using lane by simp
    have "?s < live_floor src cursor"
    proof -
      have "Suc b \<le> min (ph_n h div BLOCK) (ss_n_vectors src div BLOCK)" using ob bn by simp
      then have "Suc b * BLOCK \<le> min (ph_n h div BLOCK) (ss_n_vectors src div BLOCK) * BLOCK"
        by (rule mult_le_mono1)
      then show ?thesis using lane syn by (simp add: live_floor_def)
    qed
    moreover have "b \<notin> fresh_units (live_floor src cursor) fresh"
      using fin b ob syn by (auto simp: set_plan_blocks)
    ultimately have "?s \<notin> fresh" using sb by (force simp: fresh_units_def)
    then have "committed_row f g h ?s = Some (row_record src ?s)"
      using agree s no pen by (auto simp: clean_rows_agree_def)
    then show ?thesis using unit_row_unit_bytes [OF wf seq bn lane] g by simp
  qed
  show ?thesis
    unfolding row_safe_def fst_conv snd_conv
  proof (intro conjI allI impI)
    show "safe_write g h (unit_at g b, unit_bytes src b)" using r b by (rule unit_write_safe)
    fix c
    assume c: "c < ph_n h div BLOCK"
    show "unit_at g b + length (unit_bytes src b) \<le> unit_at g c \<or> unit_at g c + unit_len g \<le> unit_at g b \<or>
        unit_at g b = unit_at g c \<and> length (unit_bytes src b) = unit_len g \<and>
        (\<forall>lane < BLOCK. c * BLOCK + lane \<notin> set (op_slots h) \<longrightarrow>
          committed_row f g h (c * BLOCK + lane) = Some (unit_row g (unit_bytes src b) lane))"
    proof (cases "b = c")
      case True
      then show ?thesis using len rows c by simp
    next
      case False
      then show ?thesis using unit_at_disjoint [of b c g] len by auto
    qed
  qed
qed

lemma plan_writes_row_safe:
  assumes r: "sync_ready f g h src cursor pending fresh" and seq: "seq_source src"
    and agree: "clean_rows_agree f g h src pending fresh"
    and pl: "plan_incremental src cursor pending fresh clear = Some pl"
  shows "\<forall>b \<in> set (sp_batches pl). \<forall>w \<in> set b. row_safe g h (committed_row f g h) w"
proof -
  have g: "src_geo src = g" using r by (simp add: sync_ready_def)
  have cap: "length (plan_carried (live_floor src cursor) pending fresh) \<le> MAX_OPS"
    using plan_incremental_Some [OF pl] by blast
  have hdr: "row_safe g h (committed_row f g h)
      (hdr_at g (unat ((sc_gen cursor + 1) mod 2)), plan_header src cursor pending fresh)"
    using r plan_header_fits [OF r cap] by (rule header_write_row_safe)
  have clr: "row_safe g h (committed_row f g h)
      (hdr_at g (unat ((sc_gen cursor + 1) mod 2)), clear_bytes g (sc_gen cursor + 1) used)" for used
    using r length_clear_bytes by (rule header_write_row_safe)
  have "\<forall>w \<in> set (plan_batch src cursor pending fresh). row_safe g h (committed_row f g h) w"
    using hdr unit_write_row_safe [OF r seq agree] by (simp add: plan_batch_def Let_def g)
  then show ?thesis
    using plan_incremental_Some [OF pl] clr by (cases clear) (simp_all add: g)
qed

section \<open>What a power cut leaves, and what a finished sync leaves\<close>

text \<open>The loader falls back to the old commit, or takes the other slot's newer one.\<close>

lemma choose_after:
  assumes c: "commit_at f g h"
  shows "choose_header f g = Some h \<or>
    (\<exists>h'. choose_header f g = Some h' \<and> delta_ok f g h' \<and>
       parse_header_slot f g (1 - unat (ph_gen h mod 2)) (length f) = Some h' \<and>
       unat (ph_gen h) < unat (ph_gen h'))"
proof -
  let ?s = "unat (ph_gen h mod 2)"
  have s: "?s \<in> {0, 1}" using gen_parity [of "ph_gen h"] by auto
  have ps: "parse_header_slot f g ?s (length f) = Some h" and ok: "delta_ok f g h"
    using c by (simp_all add: commit_at_def)
  have key: "usize_max - unat x < usize_max - unat y \<longleftrightarrow> unat y < unat x" for x y :: u64
  proof -
    have "unat x < 2 ^ LENGTH(64)" "unat y < 2 ^ LENGTH(64)" by (rule unsigned_less)+
    then show ?thesis by simp linarith
  qed
  show ?thesis
  proof (cases "parse_header_slot f g (1 - ?s) (length f)")
    case None
    then have "header_cands f g = [h]"
      using ps s by (auto simp: header_cands_def map_filter_simps)
    then show ?thesis using ok by (simp add: choose_header_def)
  next
    case (Some h')
    have "unat (ph_gen h' mod 2) = 1 - ?s" using Some by (rule parse_slot_parity)
    then have "ph_gen h' \<noteq> ph_gen h" using s by auto
  then have ne: "unat (ph_gen h') \<noteq> unat (ph_gen h)" by (simp add: word_unat_eq_iff)
    then have lt: "unat (ph_gen h) < unat (ph_gen h') \<or> unat (ph_gen h') < unat (ph_gen h)" by linarith
    have sets: "{?s, 1 - ?s} = {0, 1}" and sn: "?s \<noteq> 1 - ?s" using s by auto
    show ?thesis
    proof (cases "unat (ph_gen h) < unat (ph_gen h')")
      case True
      then have "\<not> usize_max - unat (ph_gen h) \<le> usize_max - unat (ph_gen h')"
        and "usize_max - unat (ph_gen h') \<le> usize_max - unat (ph_gen h)"
        using key [of "ph_gen h'" "ph_gen h"] by linarith+
      then have cands: "header_cands f g = [h', h]"
        using s ps Some by (auto simp: header_cands_def map_filter_simps)
      then show ?thesis
        using ok True Some by (cases "delta_ok f g h'") (simp_all add: choose_header_def)
    next
      case False
      then have "choose_header f g = Some h"
        using choose_two [OF Some ps _ _ ok] lt sets sn by (auto simp: insert_commute)
      then show ?thesis by blast
    qed
  qed
qed

lemma run_batch_commit:
  assumes "commit_at f g h" "\<forall>w \<in> set b. safe_write g h w"
  shows "commit_at (run_batch b f) g h"
  using full.commit_preserved [OF refl assms(2,1)] .

lemma run_sync_batches:
  assumes "plan_incremental src cursor pending fresh clear = Some pl"
    and r: "sync_ready f g h src cursor pending fresh"
  obtains f0 where "fst (run_sync pl f) = run_batch (plan_batch src cursor pending fresh) f0"
    "commit_at f0 g h" "length f \<le> length f0"
proof -
  note pl = plan_incremental_Some [OF assms(1)] and safe = plan_writes_safe [OF r assms(1)]
  have c: "commit_at f g h" using r by (simp add: sync_ready_def)
  show thesis
  proof (cases clear)
    case None
    then show thesis using that [of f] pl c by (simp add: run_sync_def)
  next
    case (Some used)
    define f0 where "f0 = run_batch (hd (sp_batches pl)) f"
    have "\<forall>w \<in> set (hd (sp_batches pl)). safe_write g h w" using safe pl Some by simp
    then have "commit_at f0 g h" unfolding f0_def using c run_batch_commit by blast
    moreover have "length f \<le> length f0" unfolding f0_def by (rule run_batch_length_ge)
    moreover have "fst (run_sync pl f) = run_batch (plan_batch src cursor pending fresh) f0"
      using pl Some by (simp add: run_sync_def f0_def)
    ultimately show thesis by (rule that [rotated])
  qed
qed

lemma sync_finished:
  assumes r: "sync_ready f g h src cursor pending fresh"
    and pl: "plan_incremental src cursor pending fresh clear = Some pl"
    and max: "length (fst (run_sync pl f)) \<le> usize_max" and gen: "ph_gen h \<noteq> - 1"
  shows "choose_header (fst (run_sync pl f)) g = Some (planned_hdr src cursor pending fresh)"
    and "commit_at (fst (run_sync pl f)) g (planned_hdr src cursor pending fresh)"
proof -
  note pf = plan_incremental_Some [OF pl]
  then have cap: "length (plan_carried (live_floor src cursor) pending fresh) \<le> MAX_OPS" by blast
  obtain f0 where f0: "fst (run_sync pl f) = run_batch (plan_batch src cursor pending fresh) f0"
    "commit_at f0 g h" "length f \<le> length f0"
    using pl r by (rule run_sync_batches)
  have new: "commit_at (fst (run_sync pl f)) g (planned_hdr src cursor pending fresh)"
    using plan_batch_commits [OF r cap f0(3,1) max] .
  have "\<forall>w \<in> set (plan_batch src cursor pending fresh). safe_write g h w"
    using plan_writes_safe [OF r pl] pf by (cases clear) auto
  then have old: "commit_at (fst (run_sync pl f)) g h"
    unfolding f0(1) using f0(2) by (intro run_batch_commit)
  have g: "sc_gen cursor = ph_gen h" using r by (simp add: sync_ready_def)
  have "unat (ph_gen h + 1) = unat (ph_gen h) + 1"
    using gen by (metis add.commute unatSuc add_eq_0_iff Suc_eq_plus1)
  then have lt: "unat (ph_gen h) < unat (ph_gen (planned_hdr src cursor pending fresh))"
    by (simp add: planned_hdr_simps g)
  have par: "unat (ph_gen h mod 2) < 2" "unat ((ph_gen h + 1) mod 2) < 2"
    "unat ((ph_gen h + 1) mod 2) \<noteq> unat (ph_gen h mod 2)"
    using gen_parity gen_flip by auto
  show "choose_header (fst (run_sync pl f)) g = Some (planned_hdr src cursor pending fresh)"
  proof (rule choose_two [OF _ _ _ _ _ lt])
    show "parse_header_slot (fst (run_sync pl f)) g (unat (ph_gen h mod 2))
        (length (fst (run_sync pl f))) = Some h" using old by (simp add: commit_at_def)
    show "parse_header_slot (fst (run_sync pl f)) g (unat ((ph_gen h + 1) mod 2))
        (length (fst (run_sync pl f))) = Some (planned_hdr src cursor pending fresh)"
      using new by (simp add: commit_at_def planned_hdr_simps g)
    show "{unat (ph_gen h mod 2), unat ((ph_gen h + 1) mod 2)} = {0, 1}" using par by auto
    show "unat (ph_gen h mod 2) \<noteq> unat ((ph_gen h + 1) mod 2)" using par by simp
    show "delta_ok (fst (run_sync pl f)) g (planned_hdr src cursor pending fresh)"
      using new by (simp add: commit_at_def)
  qed
  show "commit_at (fst (run_sync pl f)) g (planned_hdr src cursor pending fresh)" by (fact new)
qed

end
