(* ===== verification/LoadRows.thy ===== *)
theory LoadRows
  imports Load SyncRows
begin

text \<open>
  The loader implements \<open>committed_row\<close>: whatever image it accepts, the row record assembled from
  the loaded codes, scale and id of a slot is the one that the adopted commit names: the unit's
  lane, overridden by the slot's last pending op, or the header's tail row. The unit loop moves
  codes inside the buffer it is reading from; the proof carries that no source is overwritten
  before it is read.
\<close>

section \<open>Results of the sum monad\<close>

lemma and_thenE:
  assumes "and_then m f = Inr y"
  obtains x where "m = Inr x" "f x = Inr y"
  using assms by (auto simp: and_then_Inr)

lemma ok_or_Inr [simp]: "ok_or e m = Inr x \<longleftrightarrow> m = Some x"
  by (cases m) auto

lemma if_InlE:
  assumes "(if c then Inl e else m) = Inr y"
  obtains "\<not> c" "m = Inr y"
  using assms by (auto split: if_splits)

section \<open>Rows of a load state\<close>

definition state_row :: "geo \<Rightarrow> load_state \<Rightarrow> nat \<Rightarrow> bytes" where
  "state_row g st s =
     map (\<lambda>i. ls_buf st ! ((s div BLOCK * row_bytes g + i) * BLOCK + s mod BLOCK)) [0..<row_bytes g]
       @ u32_to_le (ls_scales st ! s) @ (if g_kind g = 1 then u64_to_le (ls_ids st ! s) else [])"

text \<open>The sizes along the loading of \<open>n\<close> rows.\<close>

definition state_ok :: "geo \<Rightarrow> nat \<Rightarrow> load_state \<Rightarrow> bool" where
  "state_ok g n st \<longleftrightarrow> length (ls_scales st) = n \<and> (g_kind g = 1 \<longrightarrow> length (ls_ids st) = n)"

lemma slice_length: "at + k \<le> length raw \<Longrightarrow> length (slice raw at k) = k"
  by (simp add: slice_def)

lemma slice_Some: "get_range raw at (at + k) = Some bs \<longleftrightarrow> at + k \<le> length raw \<and> bs = slice raw at k"
  by (auto simp: get_range_Some slice_def)

lemma nth_slice: "i < k \<Longrightarrow> at + k \<le> length raw \<Longrightarrow> slice raw at k ! i = raw ! (at + i)"
  by (simp add: slice_def)

lemma slice_slice: "a + k \<le> m \<Longrightarrow> slice (slice raw at m) a k = slice raw (at + a) k"
  by (simp add: slice_def drop_take min_def add.commute)

lemma u32_slice: "at + 4 \<le> length bs \<Longrightarrow> u32_to_le (u32_from_le (slice bs at 4)) = slice bs at 4"
  by (simp add: u32_to_le_from_le slice_length)

lemma u64_slice: "at + 8 \<le> length bs \<Longrightarrow> u64_to_le (u64_from_le (slice bs at 8)) = slice bs at 8"
  by (simp add: u64_to_le_from_le slice_length)

lemma slice_map: "at + k \<le> length bs \<Longrightarrow> slice bs at k = map (\<lambda>j. bs ! (at + j)) [0..<k]"
  by (rule nth_equalityI) (simp_all add: slice_length nth_slice)

section \<open>The unit loop\<close>

definition units_done :: "geo \<Rightarrow> bytes \<Rightarrow> nat \<Rightarrow> load_state \<Rightarrow> bool" where
  "units_done g raw b st \<longleftrightarrow>
     length (ls_buf st) = length raw \<and> state_ok g (b * BLOCK) st \<and>
     (\<forall>p < length raw. b * (BLOCK * row_bytes g) \<le> p \<longrightarrow> ls_buf st ! p = raw ! p) \<and>
     (\<forall>s < b * BLOCK. state_row g st s = unit_row g (slice raw (unit_at g (s div BLOCK)) (unit_len g)) (s mod BLOCK))"

lemma unit_at_ge: "b * (BLOCK * row_bytes g) \<le> unit_at g b"
  by (simp add: unit_at_def unit_len_def trans_le_add2 add_mult_distrib2 le_add1 mult_le_mono2)

lemma codes_le_unit: "BLOCK * row_bytes g \<le> unit_len g"
  by (simp add: unit_len_def)

lemma unit_row_split:
  assumes "unit_at g b + unit_len g \<le> length raw" and lane: "lane < BLOCK"
  shows "unit_row g (slice raw (unit_at g b) (unit_len g)) lane =
    map (\<lambda>i. raw ! (unit_at g b + (i * BLOCK + lane))) [0..<row_bytes g]
      @ slice raw (unit_at g b + BLOCK * row_bytes g + lane * 4) 4
      @ (if g_kind g = 1 then slice raw (unit_at g b + BLOCK * row_bytes g + BLOCK * 4 + lane * 8) 8 else [])"
proof -
  have "unit_row g (slice raw (unit_at g b) (unit_len g)) lane
      = map (\<lambda>p. raw ! (unit_at g b + p)) (row_positions g lane)"
    unfolding unit_row_def using row_positions_bound [OF _ lane] assms(1)
    by (intro map_cong refl) (simp add: nth_slice)
  moreover have "lane * 4 + 4 \<le> BLOCK * 4" "lane * 8 + 8 \<le> BLOCK * 8" using lane by simp_all
  then have "unit_at g b + BLOCK * row_bytes g + lane * 4 + 4 \<le> length raw"
    "g_kind g = 1 \<Longrightarrow> unit_at g b + BLOCK * row_bytes g + BLOCK * 4 + lane * 8 + 8 \<le> length raw"
    using assms(1) by (auto simp: unit_len_def id_bytes_def)
  ultimately show ?thesis
    by (auto simp: row_positions_def slice_map comp_def add.assoc)
qed

lemma unit_step_done:
  assumes seq: "g_layout g \<noteq> LAYOUT_PLANES" and dn: "units_done g raw b st"
    and step: "unit_step g b st = Inr st'"
  shows "units_done g raw (Suc b) st' \<and> unit_at g b + unit_len g \<le> length raw"
proof -
  let ?bb = "BLOCK * row_bytes g" and ?at = "unit_at g b" and ?buf = "ls_buf st"
  let ?vs = "map (\<lambda>lane. u32_from_le (slice ?buf (?at + ?bb + lane * 4) 4)) [0..<BLOCK]"
  let ?is = "if g_kind g = 1
    then map (\<lambda>lane. u64_from_le (slice ?buf (?at + ?bb + BLOCK * 4 + lane * 8) 8)) [0..<BLOCK] else []"
  have len: "length ?buf = length raw" and ok: "state_ok g (b * BLOCK) st"
    and same: "\<And>p. p < length raw \<Longrightarrow> b * ?bb \<le> p \<Longrightarrow> ?buf ! p = raw ! p"
    and rows: "\<And>s. s < b * BLOCK \<Longrightarrow>
      state_row g st s = unit_row g (slice raw (unit_at g (s div BLOCK)) (unit_len g)) (s mod BLOCK)"
    using dn by (auto simp: units_done_def)
  have fit: "?at + unit_len g \<le> length raw"
    and st': "st' = \<lparr>ls_buf = copy_within ?at ?bb (b * ?bb) ?buf, ls_sign = ls_sign st,
      ls_scales = ls_scales st @ ?vs, ls_ids = ls_ids st @ ?is\<rparr>"
    using step seq len by (auto simp: unit_step_def Let_def planes_dims_def split: if_splits)
  have dest: "b * ?bb \<le> ?at" by (rule unit_at_ge)
  have src: "slice ?buf (?at + k) m = slice raw (?at + k) m" if "k + m \<le> unit_len g" for k m
    using that fit same dest len by (intro nth_equalityI) (auto simp: slice_length nth_slice)
  have cw: "length (copy_within ?at ?bb (b * ?bb) ?buf) = length raw"
    "\<And>i. i < ?bb \<Longrightarrow> copy_within ?at ?bb (b * ?bb) ?buf ! (b * ?bb + i) = raw ! (?at + i)"
    "\<And>p. p < length raw \<Longrightarrow> p < b * ?bb \<or> b * ?bb + ?bb \<le> p \<Longrightarrow>
      copy_within ?at ?bb (b * ?bb) ?buf ! p = ?buf ! p"
  proof -
    have fit2: "?at + ?bb \<le> length ?buf" using fit codes_le_unit [of g] len by linarith
    have l: "length (slice ?buf ?at ?bb) = ?bb" using fit2 by (rule slice_length)
    have d: "b * ?bb + ?bb \<le> length ?buf" using fit2 dest by linarith
    show "length (copy_within ?at ?bb (b * ?bb) ?buf) = length raw"
      unfolding copy_within_def using l d len by (simp add: length_overwrite)
    show "copy_within ?at ?bb (b * ?bb) ?buf ! (b * ?bb + i) = raw ! (?at + i)" if "i < ?bb" for i
    proof -
      have "copy_within ?at ?bb (b * ?bb) ?buf ! (b * ?bb + i) = slice ?buf ?at ?bb ! i"
        using that l d by (simp add: copy_within_def overwrite_def nth_append)
      also have "\<dots> = ?buf ! (?at + i)" using that fit2 by (rule nth_slice)
      also have "\<dots> = raw ! (?at + i)" using that fit2 dest len by (intro same) auto
      finally show ?thesis .
    qed
    show "copy_within ?at ?bb (b * ?bb) ?buf ! p = ?buf ! p"
      if "p < length raw" "p < b * ?bb \<or> b * ?bb + ?bb \<le> p" for p
      using that l d len by (auto simp: copy_within_def overwrite_def nth_append)
  qed
  have ok': "state_ok g (Suc b * BLOCK) st'" using ok by (simp add: state_ok_def st')
  have "state_row g st' s = unit_row g (slice raw (unit_at g (s div BLOCK)) (unit_len g)) (s mod BLOCK)"
    if s: "s < Suc b * BLOCK" for s
  proof (cases "s < b * BLOCK")
    case True
    then have c: "s div BLOCK < b" by (simp add: less_mult_imp_div_less)
    have "ls_buf st' ! ((s div BLOCK * row_bytes g + i) * BLOCK + s mod BLOCK)
        = ?buf ! ((s div BLOCK * row_bytes g + i) * BLOCK + s mod BLOCK)" if i: "i < row_bytes g" for i
    proof -
      have "(s div BLOCK * row_bytes g + i) * BLOCK + s mod BLOCK < Suc (s div BLOCK) * row_bytes g * BLOCK"
        using i by (intro seq.idx_bound) simp_all
      also have "\<dots> \<le> b * row_bytes g * BLOCK" using c by (intro mult_le_mono1) simp
      finally have p: "(s div BLOCK * row_bytes g + i) * BLOCK + s mod BLOCK < b * ?bb" by (simp add: ac_simps)
      have "b * ?bb \<le> length raw" using dest fit by linarith
      then show ?thesis using p cw(3) by (simp add: st')
    qed
    moreover have "ls_scales st' ! s = ls_scales st ! s"
      and "g_kind g = 1 \<Longrightarrow> ls_ids st' ! s = ls_ids st ! s"
      using ok True by (auto simp: state_ok_def st' nth_append)
    ultimately have "state_row g st' s = state_row g st s" by (simp add: state_row_def)
    then show ?thesis using rows [OF True] by simp
  next
    case False
    then have sb: "s div BLOCK = b" using s by (intro div_nat_eqI) simp_all
    then have sm: "s - b * BLOCK = s mod BLOCK" using minus_div_mult_eq_mod [of s BLOCK] by simp
    have ge: "\<not> s < b * BLOCK" by (fact False)
    have sl: "s = b * BLOCK + s mod BLOCK" using div_mult_mod_eq [of s BLOCK] sb by simp
    let ?l = "s mod BLOCK"
    have l: "?l < BLOCK" by simp
    have "map (\<lambda>i. ls_buf st' ! ((b * row_bytes g + i) * BLOCK + ?l)) [0..<row_bytes g]
        = map (\<lambda>i. raw ! (?at + (i * BLOCK + ?l))) [0..<row_bytes g]"
    proof (rule map_cong [OF refl])
      fix i
      assume "i \<in> set [0..<row_bytes g]"
      then have "Suc i * BLOCK \<le> row_bytes g * BLOCK" by (intro mult_le_mono1) auto
      then have "i * BLOCK + ?l < ?bb" using l by simp
      from cw(2) [OF this] show "ls_buf st' ! ((b * row_bytes g + i) * BLOCK + ?l) = raw ! (?at + (i * BLOCK + ?l))"
        by (simp add: st' algebra_simps)
    qed
    moreover have "ls_scales st' ! s = u32_from_le (slice raw (?at + ?bb + ?l * 4) 4)"
    proof -
      have "ls_scales st' ! s = ?vs ! ?l" using ok sm ge by (simp add: st' state_ok_def nth_append)
      also have "\<dots> = u32_from_le (slice ?buf (?at + (?bb + ?l * 4)) 4)" using l by (simp add: add.assoc)
      also have "slice ?buf (?at + (?bb + ?l * 4)) 4 = slice raw (?at + (?bb + ?l * 4)) 4"
        using l by (intro src) (simp add: unit_len_def)
      finally show ?thesis by (simp add: add.assoc)
    qed
    moreover have "ls_ids st' ! s = u64_from_le (slice raw (?at + ?bb + BLOCK * 4 + ?l * 8) 8)" if k: "g_kind g = 1"
    proof -
      have "ls_ids st' ! s = ?is ! ?l" using ok sm ge k by (simp add: st' state_ok_def nth_append)
      also have "\<dots> = u64_from_le (slice ?buf (?at + (?bb + BLOCK * 4 + ?l * 8)) 8)" using l k by (simp add: add.assoc)
      also have "slice ?buf (?at + (?bb + BLOCK * 4 + ?l * 8)) 8 = slice raw (?at + (?bb + BLOCK * 4 + ?l * 8)) 8"
        using l k by (intro src) (simp add: unit_len_def id_bytes_def)
      finally show ?thesis by (simp add: add.assoc)
    qed
    moreover have "?at + ?bb + ?l * 4 + 4 \<le> length raw"
      "g_kind g = 1 \<Longrightarrow> ?at + ?bb + BLOCK * 4 + ?l * 8 + 8 \<le> length raw"
      using fit l by (auto simp: unit_len_def id_bytes_def)
    ultimately show ?thesis
      unfolding sb unit_row_split [OF fit l] state_row_def by (simp add: u32_slice u64_slice)
  qed
  then show ?thesis
    using cw ok' same fit unfolding units_done_def by (auto simp: st')
qed

lemma unit_loop_done:
  assumes "g_layout g \<noteq> LAYOUT_PLANES" "units_done g raw b st" "unit_loop g b k st = Inr st'"
  shows "units_done g raw (b + k) st' \<and> (\<forall>c. b \<le> c \<and> c < b + k \<longrightarrow> unit_at g c + unit_len g \<le> length raw)"
  using assms(2,3)
proof (induction k arbitrary: b st)
  case 0
  then show ?case by simp
next
  case (Suc k)
  then obtain st1 where st1: "unit_step g b st = Inr st1" "unit_loop g (Suc b) k st1 = Inr st'"
    by (auto simp: and_then_Inr)
  note one = unit_step_done [OF assms(1) Suc.prems(1) st1(1)]
  have "units_done g raw (Suc b + k) st' \<and>
      (\<forall>c. Suc b \<le> c \<and> c < Suc b + k \<longrightarrow> unit_at g c + unit_len g \<le> length raw)"
    using one st1(2) by (intro Suc.IH) auto
  moreover have "b \<le> c \<longleftrightarrow> c = b \<or> Suc b \<le> c" for c by auto
  ultimately show ?case using one by auto
qed

section \<open>Ops and tail rows\<close>

text \<open>While rows are put in: the buffer covers \<open>n\<close> rows, \<open>k\<close> of which have a scale.\<close>

definition buf_ok :: "geo \<Rightarrow> nat \<Rightarrow> load_state \<Rightarrow> bool" where
  "buf_ok g n st \<longleftrightarrow> length (ls_buf st) = (n + BLOCK - 1) div BLOCK * row_bytes g * BLOCK"

lemma buf_ok_row:
  assumes "buf_ok g n st" "s < n"
  shows "Suc (s div BLOCK) * row_bytes g * BLOCK \<le> length (ls_buf st)"
  using mult_le_mono1 [OF block_count [OF assms(2)], of "row_bytes g * BLOCK"] assms(1)
  by (simp only: buf_ok_def mult.assoc)

lemma put_row_facts:
  assumes seq: "g_layout g \<noteq> LAYOUT_PLANES" and buf: "buf_ok g n st" and v: "v < n"
  shows "buf_ok g n (put_row g st v codes)"
    and "ls_scales (put_row g st v codes) = ls_scales st" "ls_ids (put_row g st v codes) = ls_ids st"
    and "w < n \<Longrightarrow> i < row_bytes g \<Longrightarrow>
      ls_buf (put_row g st v codes) ! ((w div BLOCK * row_bytes g + i) * BLOCK + w mod BLOCK)
        = (if w = v then codes ! i else ls_buf st ! ((w div BLOCK * row_bytes g + i) * BLOCK + w mod BLOCK))"
proof -
  have ix: "v div BLOCK * (BLOCK * row_bytes g) + i * BLOCK + v mod BLOCK
      = (v div BLOCK * row_bytes g + i) * BLOCK + v mod BLOCK" for i
    by (simp add: algebra_simps)
  have put: "put_row g st v codes = st\<lparr>ls_buf := foldl (\<lambda>buf i. buf[(v div BLOCK * row_bytes g + i) * BLOCK + v mod BLOCK := codes ! i])
      (ls_buf st) [0..<row_bytes g]\<rparr>"
    using seq by (simp add: put_row_def Let_def ix)
  show "buf_ok g n (put_row g st v codes)"
    using buf seq.fold_length [of "v div BLOCK" "row_bytes g" "v mod BLOCK" "\<lambda>_ i. codes ! i" "ls_buf st"]
    by (simp add: buf_ok_def put)
  show "ls_scales (put_row g st v codes) = ls_scales st" "ls_ids (put_row g st v codes) = ls_ids st"
    by (simp_all add: put)
  show "ls_buf (put_row g st v codes) ! ((w div BLOCK * row_bytes g + i) * BLOCK + w mod BLOCK)
      = (if w = v then codes ! i else ls_buf st ! ((w div BLOCK * row_bytes g + i) * BLOCK + w mod BLOCK))"
    if "w < n" "i < row_bytes g"
    using seq.fold_read [of "v div BLOCK" "row_bytes g" "ls_buf st" "w div BLOCK" "row_bytes g" i
        "v mod BLOCK" "w mod BLOCK" "\<lambda>i. codes ! i"] buf_ok_row [OF buf v] buf_ok_row [OF buf that(1)] that(2)
      same_slot [of w v]
    by (auto simp: put)
qed

lemma payload_split:
  assumes "length pl = tail_row g"
  shows "take (row_bytes g) pl @ slice pl (row_bytes g) 4
      @ (if g_kind g = 1 then slice pl (row_bytes g + 4) 8 else []) = pl"
  using assms by (auto simp: slice_def tail_row_def id_bytes_def append_assoc [symmetric] take_add [symmetric]
      simp del: append_assoc)

text \<open>One row put in with its scale and id is the record it came from.\<close>

lemma row_from_payload:
  assumes pl: "length pl = tail_row g"
    and codes: "\<And>i. i < row_bytes g \<Longrightarrow>
      ls_buf st ! ((s div BLOCK * row_bytes g + i) * BLOCK + s mod BLOCK) = take (row_bytes g) pl ! i"
    and "ls_scales st ! s = u32_from_le (slice pl (row_bytes g) 4)"
    and "g_kind g = 1 \<Longrightarrow> ls_ids st ! s = u64_from_le (slice pl (row_bytes g + 4) 8)"
  shows "state_row g st s = pl"
proof -
  have "map (\<lambda>i. ls_buf st ! ((s div BLOCK * row_bytes g + i) * BLOCK + s mod BLOCK)) [0..<row_bytes g]
      = take (row_bytes g) pl"
    using codes pl by (intro nth_equalityI) (auto simp: tail_row_def)
  moreover have "u32_to_le (u32_from_le (slice pl (row_bytes g) 4)) = slice pl (row_bytes g) 4"
    using pl by (intro u32_slice) (simp add: tail_row_def)
  moreover have "g_kind g = 1 \<Longrightarrow>
      u64_to_le (u64_from_le (slice pl (row_bytes g + 4) 8)) = slice pl (row_bytes g + 4) 8"
    using pl by (intro u64_slice) (simp add: tail_row_def id_bytes_def)
  ultimately have "state_row g st s = take (row_bytes g) pl @ slice pl (row_bytes g) 4
      @ (if g_kind g = 1 then slice pl (row_bytes g + 4) 8 else [])"
    using assms(3,4) by (simp add: state_row_def)
  then show ?thesis using payload_split [OF pl] by simp
qed

lemma apply_op_facts:
  assumes seq: "g_layout g \<noteq> LAYOUT_PLANES" and buf: "buf_ok g n st" and ok: "state_ok g k st"
    and k: "k \<le> n" and slot: "slot < k" and pl: "length pl = tail_row g"
    and st': "apply_op g slot pl st = Inr st'"
  shows "buf_ok g n st' \<and> state_ok g k st' \<and>
    (\<forall>s < k. state_row g st' s = (if s = slot then pl else state_row g st s))"
proof -
  let ?st1 = "put_row g st slot (take (row_bytes g) pl)"
  have sn: "slot < n" using slot k by simp
  note pf = put_row_facts [OF seq buf sn]
  have e: "st' = ?st1\<lparr>ls_scales := (ls_scales st)[slot := u32_from_le (slice pl (row_bytes g) 4)],
      ls_ids := (if g_kind g = 1 then (ls_ids st)[slot := u64_from_le (slice pl (row_bytes g + 4) 8)]
                 else ls_ids st)\<rparr>"
    using st' pf(2,3) by (simp add: apply_op_def Let_def split: if_splits)
  have "buf_ok g n st'" using pf(1) by (simp add: e buf_ok_def)
  moreover have "state_ok g k st'" using ok by (simp add: e state_ok_def)
  moreover have "state_row g st' s = (if s = slot then pl else state_row g st s)" if s: "s < k" for s
  proof (cases "s = slot")
    case True
    have "state_row g st' s = pl"
      by (rule row_from_payload [OF pl]) (use True pf(4) sn ok slot in \<open>auto simp: e state_ok_def\<close>)
    then show ?thesis using True by simp
  next
    case False
    have "s < n" using s k by simp
    then show ?thesis using False pf(4) by (simp add: state_row_def e)
  qed
  ultimately show ?thesis by blast
qed

lemma op_loop_facts:
  assumes seq: "g_layout g \<noteq> LAYOUT_PLANES" and k: "k \<le> n"
    and ops: "\<forall>(slot, pl) \<in> set ops. slot < k \<and> length pl = tail_row g"
    and "buf_ok g n st" "state_ok g k st" "op_loop g ops st = Inr st'"
  shows "buf_ok g n st' \<and> state_ok g k st' \<and>
    (\<forall>s < k. state_row g st' s = (case map_of (rev ops) s of Some pl \<Rightarrow> pl | None \<Rightarrow> state_row g st s))"
  using assms(3-6)
proof (induction ops arbitrary: st)
  case Nil
  then show ?case by simp
next
  case (Cons o1 ops)
  obtain slot pl where o1: "o1 = (slot, pl)" by (cases o1)
  obtain st1 where st1: "apply_op g slot pl st = Inr st1" "op_loop g ops st1 = Inr st'"
    using Cons.prems(4) by (auto simp: o1 and_then_Inr)
  have a: "buf_ok g n st1 \<and> state_ok g k st1 \<and>
      (\<forall>s < k. state_row g st1 s = (if s = slot then pl else state_row g st s))"
    using Cons.prems st1(1) by (intro apply_op_facts [OF seq _ _ k]) (auto simp: o1)
  have "buf_ok g n st' \<and> state_ok g k st' \<and>
      (\<forall>s < k. state_row g st' s = (case map_of (rev ops) s of Some pl \<Rightarrow> pl | None \<Rightarrow> state_row g st1 s))"
    using a Cons.prems(1) st1(2) by (intro Cons.IH) auto
  then show ?case using a by (auto simp: o1 map_add_def split: option.splits)
qed

lemma tail_step_facts:
  assumes seq: "g_layout g \<noteq> LAYOUT_PLANES" and buf: "buf_ok g n st" and ok: "state_ok g r st"
    and r: "r < n" and row: "length row = tail_row g" and st': "tail_step g r row st = Inr st'"
  shows "buf_ok g n st' \<and> state_ok g (Suc r) st' \<and>
    (\<forall>s < Suc r. state_row g st' s = (if s = r then row else state_row g st s))"
proof -
  let ?st1 = "put_row g st r (take (row_bytes g) row)"
  note pf = put_row_facts [OF seq buf r]
  have e: "st' = ?st1\<lparr>ls_scales := ls_scales st @ [u32_from_le (slice row (row_bytes g) 4)],
      ls_ids := (if g_kind g = 1 then ls_ids st @ [u64_from_le (slice row (row_bytes g + 4) 8)]
                 else ls_ids st)\<rparr>"
    using st' pf(2,3) by (simp add: tail_step_def Let_def split: if_splits)
  have "buf_ok g n st'" using pf(1) by (simp add: e buf_ok_def)
  moreover have "state_ok g (Suc r) st'" using ok by (simp add: e state_ok_def)
  moreover have "state_row g st' s = (if s = r then row else state_row g st s)" if s: "s < Suc r" for s
  proof (cases "s = r")
    case True
    have "state_row g st' s = row"
      by (rule row_from_payload [OF row]) (use True pf(4) r ok in \<open>auto simp: e state_ok_def nth_append\<close>)
    then show ?thesis using True by simp
  next
    case False
    then show ?thesis using s r pf(4) ok by (simp add: state_row_def e state_ok_def nth_append)
  qed
  ultimately show ?thesis by blast
qed

lemma tail_loop_facts:
  assumes seq: "g_layout g \<noteq> LAYOUT_PLANES" and n: "base + k + m \<le> n"
    and tail: "(k + m) * tail_row g \<le> length tail"
    and "buf_ok g n st" "state_ok g (base + k) st" "tail_loop g base tail k m st = Inr st'"
  shows "buf_ok g n st' \<and> state_ok g (base + k + m) st' \<and>
    (\<forall>s < base + k + m. state_row g st' s =
      (if s < base + k then state_row g st s else slice tail ((s - base) * tail_row g) (tail_row g)))"
  using n tail assms(4-6)
proof (induction m arbitrary: k st)
  case 0
  then show ?case by simp
next
  case (Suc m)
  let ?row = "slice tail (k * tail_row g) (tail_row g)"
  obtain st1 where st1: "tail_step g (base + k) ?row st = Inr st1" "tail_loop g base tail (Suc k) m st1 = Inr st'"
    using Suc.prems(5) by (auto simp: and_then_Inr)
  have "Suc k * tail_row g \<le> (k + Suc m) * tail_row g" by (intro mult_le_mono1) simp
  from order_trans [OF this Suc.prems(2)] have "k * tail_row g + tail_row g \<le> length tail" by simp
  then have row: "length ?row = tail_row g" by (rule slice_length)
  have a: "buf_ok g n st1 \<and> state_ok g (Suc (base + k)) st1 \<and>
      (\<forall>s < Suc (base + k). state_row g st1 s = (if s = base + k then ?row else state_row g st s))"
    using Suc.prems row st1(1) by (intro tail_step_facts [OF seq]) auto
  have "buf_ok g n st' \<and> state_ok g (base + Suc k + m) st' \<and>
      (\<forall>s < base + Suc k + m. state_row g st' s =
        (if s < base + Suc k then state_row g st1 s else slice tail ((s - base) * tail_row g) (tail_row g)))"
    using a Suc.prems st1(2) by (intro Suc.IH) auto
  then show ?case using a by (auto simp: less_Suc_eq)
qed

section \<open>The whole load\<close>

lemma resize_grow: "length xs \<le> k \<Longrightarrow> resize_bytes xs k = xs @ replicate (k - length xs) 0"
  by (simp add: resize_bytes_def)

lemma trim_facts:
  assumes seq: "g_layout g \<noteq> LAYOUT_PLANES" and dn: "units_done g raw (n div BLOCK) st"
    and fit: "\<forall>c < n div BLOCK. unit_at g c + unit_len g \<le> length raw"
  shows "buf_ok g n (st\<lparr>ls_buf := trim_buf g n (ls_buf st)\<rparr>)"
    and "s < n div BLOCK * BLOCK \<Longrightarrow>
      state_row g (st\<lparr>ls_buf := trim_buf g n (ls_buf st)\<rparr>) s = state_row g st s"
proof -
  let ?nb = "n div BLOCK" and ?bb = "BLOCK * row_bytes g" and ?tb = "(n + BLOCK - 1) div BLOCK"
  have len: "length (ls_buf st) = length raw" using dn by (simp add: units_done_def)
  have kept: "?nb * ?bb \<le> length raw"
  proof (cases ?nb)
    case (Suc m)
    have "unit_at g m + unit_len g = unit_at g ?nb" by (simp add: Suc unit_at_Suc)
    then show ?thesis using fit unit_at_ge [of ?nb g] Suc by fastforce
  qed simp
  have tb: "?nb * ?bb \<le> ?tb * ?bb" by (intro mult_le_mono1 div_le_mono) simp
  have "resize_bytes (take (?nb * ?bb) (ls_buf st)) (?tb * ?bb)
      = take (?nb * ?bb) (ls_buf st) @ replicate (?tb * ?bb - ?nb * ?bb) 0"
    using kept tb len by (subst resize_grow) simp_all
  then have trim: "trim_buf g n (ls_buf st) = take (?nb * ?bb) (ls_buf st) @ replicate (?tb * ?bb - ?nb * ?bb) 0"
    using seq by (simp add: trim_buf_def planes_dims_def Let_def)
  show "buf_ok g n (st\<lparr>ls_buf := trim_buf g n (ls_buf st)\<rparr>)"
    using kept tb len by (simp add: buf_ok_def trim ac_simps)
  assume s: "s < ?nb * BLOCK"
  have "(s div BLOCK * row_bytes g + i) * BLOCK + s mod BLOCK < ?nb * ?bb" if "i < row_bytes g" for i
  proof -
    have "(s div BLOCK * row_bytes g + i) * BLOCK + s mod BLOCK < Suc (s div BLOCK) * row_bytes g * BLOCK"
      using that by (intro seq.idx_bound) simp_all
    also have "\<dots> \<le> ?nb * row_bytes g * BLOCK"
      using s by (intro mult_le_mono1) (simp add: less_mult_imp_div_less Suc_leI)
    finally show ?thesis by (simp add: ac_simps)
  qed
  then have "trim_buf g n (ls_buf st) ! ((s div BLOCK * row_bytes g + i) * BLOCK + s mod BLOCK)
      = ls_buf st ! ((s div BLOCK * row_bytes g + i) * BLOCK + s mod BLOCK)" if "i < row_bytes g" for i
    using that kept len by (simp add: trim nth_append)
  then show "state_row g (st\<lparr>ls_buf := trim_buf g n (ls_buf st)\<rparr>) s = state_row g st s"
    by (simp add: state_row_def)
qed

lemma gather_rows_facts:
  assumes seq: "g_layout g \<noteq> LAYOUT_PLANES"
    and ops: "\<forall>(slot, pl) \<in> set ops. slot < n div BLOCK * BLOCK \<and> length pl = tail_row g"
    and tail: "length tail = n mod BLOCK * tail_row g"
    and load: "gather_rows g n ops tail raw = Inr st"
  shows "s < n \<Longrightarrow> state_row g st s =
    (if n div BLOCK \<le> s div BLOCK then slice tail (s mod BLOCK * tail_row g) (tail_row g)
     else case map_of (rev ops) s of Some pl \<Rightarrow> pl
       | None \<Rightarrow> unit_row g (slice raw (unit_at g (s div BLOCK)) (unit_len g)) (s mod BLOCK))"
    and "s div BLOCK < n div BLOCK \<Longrightarrow> unit_at g (s div BLOCK) + unit_len g \<le> length raw"
    and "length (ls_scales st) = n"
proof -
  let ?nb = "n div BLOCK"
  let ?st0 = "\<lparr>ls_buf = raw, ls_sign = [], ls_scales = [], ls_ids = []\<rparr>"
  obtain st1 st2 where
      st1: "unit_loop g 0 ?nb ?st0 = Inr st1"
    and st2: "op_loop g ops (st1\<lparr>ls_buf := trim_buf g n (ls_buf st1)\<rparr>) = Inr st2"
    and st3: "tail_loop g (?nb * BLOCK) tail 0 (n mod BLOCK) st2 = Inr st"
    using load seq by (auto simp: gather_rows_def Let_def and_then_Inr case_prod_unfold)
  have "units_done g raw 0 ?st0" by (simp add: units_done_def state_ok_def)
  from unit_loop_done [OF seq this st1] have
    dn: "units_done g raw ?nb st1" and fit: "\<forall>c < ?nb. unit_at g c + unit_len g \<le> length raw" by auto
  note tr = trim_facts [OF seq dn fit]
  have ok1: "state_ok g (?nb * BLOCK) (st1\<lparr>ls_buf := trim_buf g n (ls_buf st1)\<rparr>)"
    using dn by (simp add: units_done_def state_ok_def)
  have kn: "?nb * BLOCK \<le> n" by simp
  note o2 = op_loop_facts [OF seq kn ops tr(1) ok1 st2]
  have "buf_ok g n st \<and> state_ok g (?nb * BLOCK + 0 + n mod BLOCK) st \<and>
    (\<forall>s < ?nb * BLOCK + 0 + n mod BLOCK. state_row g st s =
      (if s < ?nb * BLOCK + 0 then state_row g st2 s
       else slice tail ((s - ?nb * BLOCK) * tail_row g) (tail_row g)))"
    using o2 by (intro tail_loop_facts [OF seq _ _ _ _ st3]) (simp_all add: tail)
  then have t3: "state_ok g n st" "\<And>s. s < n \<Longrightarrow> state_row g st s =
      (if s < ?nb * BLOCK then state_row g st2 s
       else slice tail ((s - ?nb * BLOCK) * tail_row g) (tail_row g))" by simp_all
  show "length (ls_scales st) = n" using t3(1) by (simp add: state_ok_def)
  show "s div BLOCK < ?nb \<Longrightarrow> unit_at g (s div BLOCK) + unit_len g \<le> length raw" using fit by blast
  have lt: "s < ?nb * BLOCK \<longleftrightarrow> s div BLOCK < ?nb" by (simp add: div_less_iff_less_mult)
  assume s: "s < n"
  show "state_row g st s =
    (if ?nb \<le> s div BLOCK then slice tail (s mod BLOCK * tail_row g) (tail_row g)
     else case map_of (rev ops) s of Some pl \<Rightarrow> pl
       | None \<Rightarrow> unit_row g (slice raw (unit_at g (s div BLOCK)) (unit_len g)) (s mod BLOCK))"
  proof (cases "s div BLOCK < ?nb")
    case True
    then have sk: "s < ?nb * BLOCK" using lt by simp
    have "state_row g st2 s = (case map_of (rev ops) s of Some pl \<Rightarrow> pl | None \<Rightarrow> state_row g st1 s)"
      using o2 sk tr(2) [OF sk] by (simp split: option.splits)
    moreover have "state_row g st1 s = unit_row g (slice raw (unit_at g (s div BLOCK)) (unit_len g)) (s mod BLOCK)"
      using dn sk by (simp add: units_done_def)
    ultimately show ?thesis using t3(2) [OF s] sk True by (simp split: option.splits)
  next
    case False
    then have "s div BLOCK = ?nb" using s by (meson div_le_mono le_antisym less_imp_le not_le)
    then have "s - ?nb * BLOCK = s mod BLOCK" using minus_div_mult_eq_mod [of s BLOCK] by simp
    then show ?thesis using t3(2) [OF s] lt False by simp
  qed
qed

definition loaded_row :: "geo \<Rightarrow> v7_load \<Rightarrow> nat \<Rightarrow> bytes" where
  "loaded_row g l s =
     state_row g \<lparr>ls_buf = vl_seq_blocked l, ls_sign = vl_sign l, ls_scales = vl_scales l, ls_ids = vl_ids l\<rparr> s"

lemma copy_ops_facts:
  "copy_ops raw k ops = Inr ops' \<Longrightarrow>
     ops' = map (\<lambda>(s, at). (s, slice raw at k)) ops \<and> (\<forall>(s, at) \<in> set ops. at + k \<le> length raw)"
proof (induction ops arbitrary: ops')
  case Nil
  then show ?case by simp
next
  case (Cons o1 ops)
  then show ?case by (cases o1) (auto simp: and_then_Inr slice_Some)
qed

lemma copy_groups_facts:
  "copy_groups raw k gs = Inr gs' \<Longrightarrow>
     concat (map snd gs') = map (\<lambda>(s, at). (s, slice raw at k)) (concat (map snd gs)) \<and>
     (\<forall>(s, at) \<in> set (concat (map snd gs)). at + k \<le> length raw)"
proof (induction gs arbitrary: gs')
  case Nil
  then show ?case by simp
next
  case (Cons g gs)
  obtain b ops where g: "g = (b, ops)" by (cases g)
  obtain ops' rest where o: "copy_ops raw k ops = Inr ops'" "copy_groups raw k gs = Inr rest"
    "gs' = (b, ops') # rest" using Cons.prems by (auto simp: g and_then_Inr)
  from copy_ops_facts [OF o(1)] Cons.IH [OF o(2)] show ?case by (auto simp: o(3) g)
qed

lemma choose_header_parsed:
  assumes "choose_header raw g = Some h"
  shows "delta_ok raw g h" and "\<exists>slot \<in> {0, 1}. parse_header_slot raw g slot (length raw) = Some h"
proof -
  have "delta_ok raw g h \<and> h \<in> set (header_cands raw g)"
    using assms by (auto simp: choose_header_def find_Some_iff)
  then show "delta_ok raw g h" and "\<exists>slot \<in> {0, 1}. parse_header_slot raw g slot (length raw) = Some h"
    by (auto simp: header_cands_def map_filter_simps split: option.splits)
qed

lemma parsed_op_slots:
  assumes "choose_header raw g = Some h" and "(s, o') \<in> set (op_list h)"
  shows "s div BLOCK < ph_n h div BLOCK"
  using choose_header_parsed(2) [OF assms(1)] assms(2) parse_header_at_facts(6)
  by (auto simp: parse_header_slot_def Option.bind_eq_Some_conv)

lemma map_of_copied: "map_of (map (\<lambda>(s, at). (s, f at)) xs) s = map_option f (map_of xs s)"
  by (induction xs) auto

lemma load_image_rows:
  assumes load: "load_image nm raw calib_gen kind = Inr l" and seq: "vl_layout l \<noteq> LAYOUT_PLANES"
  shows "\<exists>p g shift scale h. parse_superblock nm raw kind = Inr (p, g, shift, scale) \<and>
    choose_header raw g = Some h \<and> vl_n_vectors l = ph_n h \<and> vl_pending_slots l = op_slots h \<and>
    sc_gen (vl_cursor l) = ph_gen h \<and> sc_nonce (vl_cursor l) = sbp_nonce p \<and>
    length (vl_scales l) = ph_n h \<and>
    (\<forall>s < ph_n h. committed_row raw g h s = Some (loaded_row g l s))"
proof -
  obtain img st where img: "parse_image nm raw kind = Inr img"
    and st: "gather_rows (pi_geo img) (pi_n_vectors img) (concat (map snd (pi_ops img))) (pi_tail img) raw = Inr st"
    and l: "vl_n_vectors l = pi_n_vectors img" "vl_layout l = g_layout (pi_geo img)"
      "vl_seq_blocked l = (if g_layout (pi_geo img) = LAYOUT_PLANES then [] else ls_buf st)"
      "vl_sign l = ls_sign st" "vl_scales l = ls_scales st" "vl_ids l = ls_ids st"
      "sc_gen (vl_cursor l) = pi_gen img" "sc_nonce (vl_cursor l) = pi_nonce img"
      "vl_pending_slots l = pi_pending_slots img"
    using load by (auto simp: load_image_def and_then_Inr Let_def)
  obtain p g shift scale h tail ops where sb: "parse_superblock nm raw kind = Inr (p, g, shift, scale)"
    and h: "choose_header raw g = Some h"
    and tail: "get_range raw (ph_tail_at h) (ph_tail_at h + ph_n h mod BLOCK * tail_row g) = Some tail"
    and ops: "copy_groups raw (row_bytes g + 4 + id_bytes g 1) (ph_groups h) = Inr ops"
    and i: "pi_geo img = g" "pi_n_vectors img = ph_n h" "pi_tail img = tail" "pi_ops img = ops"
      "pi_gen img = ph_gen h" "pi_nonce img = sbp_nonce p"
      "pi_pending_slots img = concat (map (\<lambda>(_, ops). map fst ops) (ph_groups h))"
    using img by (auto simp: parse_image_def and_then_Inr split: if_splits)
  have tr: "row_bytes g + 4 + id_bytes g 1 = tail_row g" by (simp add: tail_row_def)
  have seqg: "g_layout g \<noteq> LAYOUT_PLANES" using seq l i by simp
  have co: "concat (map snd ops) = map (\<lambda>(s, at). (s, slice raw at (tail_row g))) (op_list h)"
    and fit: "\<forall>(s, at) \<in> set (op_list h). at + tail_row g \<le> length raw"
    using copy_groups_facts [OF ops [unfolded tr]] by (auto simp: op_list_def)
  have opk: "\<forall>(slot, pl) \<in> set (concat (map snd ops)). slot < ph_n h div BLOCK * BLOCK \<and> length pl = tail_row g"
    using parsed_op_slots [OF h] fit by (auto simp: co slice_length div_less_iff_less_mult)
  have tl: "length tail = ph_n h mod BLOCK * tail_row g" using get_range_length [OF tail] by simp
  note g = gather_rows_facts [OF seqg opk tl st [unfolded i]]
  have pend: "pi_pending_slots img = op_slots h"
    by (auto simp: i op_slots_def op_list_def map_concat comp_def intro!: arg_cong [where f = concat])
  have rows: "committed_row raw g h s = Some (loaded_row g l s)" if s: "s < ph_n h" for s
  proof -
    have lr: "loaded_row g l s = state_row g st s"
      using seqg by (simp add: loaded_row_def l i state_row_def)
    show ?thesis
    proof (cases "ph_n h div BLOCK \<le> s div BLOCK")
      case True
      have q: "s div BLOCK = ph_n h div BLOCK" using True s by (meson div_le_mono le_antisym less_imp_le)
      have "s mod BLOCK < ph_n h mod BLOCK"
        using s q div_mult_mod_eq [of s BLOCK] div_mult_mod_eq [of "ph_n h" BLOCK] by linarith
      then have le: "Suc (s mod BLOCK) * tail_row g \<le> ph_n h mod BLOCK * tail_row g"
        by (intro mult_le_mono1) simp
      have "tail = slice raw (ph_tail_at h) (ph_n h mod BLOCK * tail_row g)"
        and in_raw: "ph_tail_at h + ph_n h mod BLOCK * tail_row g \<le> length raw"
        using tail by (auto simp: slice_Some)
      then have "slice tail (s mod BLOCK * tail_row g) (tail_row g)
          = slice raw (ph_tail_at h + s mod BLOCK * tail_row g) (tail_row g)"
        using le by (simp add: slice_slice)
      moreover have "ph_tail_at h + s mod BLOCK * tail_row g + tail_row g \<le> length raw"
        using in_raw le by simp
      ultimately show ?thesis
        using True s g(1) [OF s] by (simp add: committed_row_def lr slice_Some)
    next
      case False
      have mo: "map_of (rev (concat (map snd ops))) s
          = map_option (\<lambda>at. slice raw at (tail_row g)) (map_of (rev (op_list h)) s)"
        unfolding co rev_map by (rule map_of_copied)
      show ?thesis
      proof (cases "map_of (rev (op_list h)) s")
        case None
        then show ?thesis
          using False s g(1) [OF s] g(2) [of s]
          by (simp add: committed_row_def lr mo unit_at_image_def slice_Some)
      next
        case (Some at)
        then have "(s, at) \<in> set (op_list h)" by (auto dest: map_of_SomeD)
        then have "at + tail_row g \<le> length raw" using fit by auto
        then show ?thesis using False s Some g(1) [OF s] by (simp add: committed_row_def lr mo slice_Some)
      qed
    qed
  qed
  have n0: "length (vl_scales l) = ph_n h" using g(3) by (simp add: l)
  show ?thesis using sb h l i pend rows n0 by auto
qed

end
