(* ===== verification/SyncResult.thy ===== *)
theory SyncResult
  imports SyncRows
begin

text \<open>
  The rows of a written header and of a finished sync: after \<open>run_sync\<close> the loader's row for
  every slot below the row count is the source's row record. A history of syncs from one cursor
  to the next keeps the start condition of all the theorems.
\<close>

section \<open>Rows of a written header\<close>

lemma get_range_sub:
  assumes "get_range f a b = Some (pre @ mid @ post)" and "c = a + length pre" and "d = c + length mid"
  shows "get_range f c d = Some mid"
proof -
  have b: "b \<le> length f" "a \<le> b" "take (b - a) (drop a f) = pre @ mid @ post"
    using assms(1) by (auto simp: get_range_Some)
  have l: "length pre + length mid \<le> b - a" using arg_cong [OF b(3), of length] b(1,2) by simp
  have "mid = take (length mid) (drop (length pre) (take (b - a) (drop a f)))" by (simp add: b(3))
  also have "\<dots> = take (length mid) (drop c f)"
    using l by (simp add: assms(2) drop_take add.commute)
  finally show ?thesis using l b assms by (simp add: get_range_Some)
qed

lemma header_tail_split:
  assumes "k < n mod BLOCK"
  shows "\<exists>post. header_tail src n =
    concat (map (\<lambda>k. row_record src (n - n mod BLOCK + k)) [0..<k])
      @ row_record src (n - n mod BLOCK + k) @ post"
proof -
  have "[0..<n mod BLOCK] = [0..<k] @ k # [Suc k..<n mod BLOCK]"
    using upt_add_eq_append [of 0 k "n mod BLOCK - k"] assms by (simp add: upt_conv_Cons)
  then show ?thesis by (simp add: header_tail_def)
qed

lemma written_tail_row:
  assumes wf: "wf_source src" and n: "n = ss_n_vectors src"
    and hdr: "get_range f at (at + length (header_slot src gen n ops mat app crc))
      = Some (header_slot src gen n ops mat app crc)"
    and k: "k < n mod BLOCK"
  shows "get_range f (at + 16 + k * tail_row (src_geo src))
      (at + 16 + k * tail_row (src_geo src) + tail_row (src_geo src))
    = Some (row_record src (n - n mod BLOCK + k))"
proof -
  obtain post where p: "header_tail src n =
    concat (map (\<lambda>k. row_record src (n - n mod BLOCK + k)) [0..<k])
      @ row_record src (n - n mod BLOCK + k) @ post" using header_tail_split [OF k] by blast
  let ?pre = "concat (map (\<lambda>k. row_record src (n - n mod BLOCK + k)) [0..<k])"
  have le: "n - n mod BLOCK + j < ss_n_vectors src" if "j \<le> k" for j
    using that k n mod_less_eq_dividend [of n BLOCK] by linarith
  have lp: "length ?pre = k * tail_row (src_geo src)"
    using le by (subst length_concat_const) (auto simp: length_row_record [OF wf])
  have lm: "length (row_record src (n - n mod BLOCK + k)) = tail_row (src_geo src)"
    using le by (simp add: length_row_record [OF wf])
  obtain post' where "header_slot src gen n ops mat app crc =
      (u64_to_le gen @ u64_to_le (of_nat n) @ ?pre) @ row_record src (n - n mod BLOCK + k) @ post'"
    using p by (simp add: header_slot_def header_body_fields Let_def)
  from hdr [unfolded this] show ?thesis by (rule get_range_sub) (use lp lm in simp_all)
qed

lemma ops_at_split:
  assumes "(s, o') \<in> set (ops_at at osz ss p)" and "\<forall>s \<in> set ss. length (op_record src s) = osz"
  shows "\<exists>pre post. concat (map (op_record src) ss) = pre @ row_record src s @ post \<and>
    o' = at + p + length pre"
  using assms
proof (induction ss arbitrary: p)
  case Nil
  then show ?case by simp
next
  case (Cons s' ss)
  show ?case
  proof (cases "(s, o') = (s', at + p + 1)")
    case True
    then have "concat (map (op_record src) (s' # ss))
        = [of_nat (s mod BLOCK)] @ row_record src s @ concat (map (op_record src) ss)"
      by (simp add: op_record_def)
    then show ?thesis
      using True by (intro exI [of _ "[of_nat (s mod BLOCK)]"] exI [of _ "concat (map (op_record src) ss)"]) simp
  next
    case False
    then have "(s, o') \<in> set (ops_at at osz ss (p + osz))" using Cons.prems(1) by auto
    from Cons.IH [OF this] Cons.prems(2) obtain pre post where
      "concat (map (op_record src) ss) = pre @ row_record src s @ post"
      "o' = at + (p + osz) + length pre" by auto
    then have "concat (map (op_record src) (s' # ss)) = (op_record src s' @ pre) @ row_record src s @ post"
      "o' = at + p + length (op_record src s' @ pre)"
      using Cons.prems(2) by simp_all
    then show ?thesis by blast
  qed
qed

lemma groups_at_split:
  assumes wf: "wf_source src" and "(s, o') \<in> set (concat (map snd (groups_at at osz gs p)))"
    and "\<forall>(b, ss) \<in> set gs. \<forall>s \<in> set ss. s < ss_n_vectors src" and osz: "osz = op_size (src_geo src)"
  shows "\<exists>pre post. concat (map (group_record src) gs) = pre @ row_record src s @ post \<and>
    o' = at + p + length pre \<and> s < ss_n_vectors src"
  using assms(2,3)
proof (induction gs arbitrary: p)
  case Nil
  then show ?case by simp
next
  case (Cons g gs)
  obtain b ss where g: "g = (b, ss)" by (cases g)
  have ss: "\<forall>s \<in> set ss. s < ss_n_vectors src" using Cons.prems(2) by (simp add: g)
  show ?case
  proof (cases "(s, o') \<in> set (ops_at at osz ss (p + 5))")
    case True
    have "s \<in> set ss" using True map_fst_ops_at [of at osz ss "p + 5"] by (metis fst_conv image_eqI set_map)
    moreover have "\<forall>s \<in> set ss. length (op_record src s) = osz"
      using ss by (simp add: length_op_record [OF wf] osz)
    from ops_at_split [OF True this] obtain pre post where
      "concat (map (op_record src) ss) = pre @ row_record src s @ post" "o' = at + (p + 5) + length pre"
      by blast
    then have "concat (map (group_record src) (g # gs))
        = (u32_to_le (of_nat b) @ [of_nat (length ss)] @ pre) @ row_record src s
            @ post @ concat (map (group_record src) gs)"
      "o' = at + p + length (u32_to_le (of_nat b) @ [of_nat (length ss)] @ pre)"
      by (simp_all add: g group_record_def)
    ultimately show ?thesis using ss by blast
  next
    case False
    then have "(s, o') \<in> set (concat (map snd (groups_at at osz gs (p + 5 + length ss * osz))))"
      using Cons.prems(1) by (simp add: g)
    moreover have "\<forall>(b, ss) \<in> set gs. \<forall>s \<in> set ss. s < ss_n_vectors src" using Cons.prems(2) by simp
    ultimately obtain pre post where
      c: "concat (map (group_record src) gs) = pre @ row_record src s @ post"
        "o' = at + (p + 5 + length ss * osz) + length pre" "s < ss_n_vectors src"
      using Cons.IH by blast
    have "concat (map (group_record src) (g # gs)) = (group_record src g @ pre) @ row_record src s @ post"
      "o' = at + p + length (group_record src g @ pre)"
      using c ss by (simp_all add: g length_group_record [OF wf] osz)
    then show ?thesis using c(3) by blast
  qed
qed

lemma written_op_row:
  assumes wf: "wf_source src" and n: "n = ss_n_vectors src"
    and hdr: "get_range f at (at + length (header_slot src gen n ops mat app crc))
      = Some (header_slot src gen n ops mat app crc)"
    and op: "(s, o') \<in> set (op_list (parsed_of src at gen n ops mat app crc))"
    and ops: "\<forall>(b, ss) \<in> set ops. \<forall>s \<in> set ss. s < ss_n_vectors src"
  shows "get_range f o' (o' + tail_row (src_geo src)) = Some (row_record src s)"
proof -
  have "(s, o') \<in> set (concat (map snd (groups_at at (op_size (src_geo src)) ops
      (20 + n mod BLOCK * tail_row (src_geo src)))))"
    using op by (simp add: op_list_def parsed_of_def)
  from groups_at_split [OF wf this ops refl] obtain pre post where
    c: "concat (map (group_record src) ops) = pre @ row_record src s @ post"
      "o' = at + (20 + n mod BLOCK * tail_row (src_geo src)) + length pre"
    and s: "s < ss_n_vectors src" by blast
  obtain post' where "header_slot src gen n ops mat app crc =
      (u64_to_le gen @ u64_to_le (of_nat n) @ header_tail src n @ u32_to_le (of_nat (length ops)) @ pre)
        @ row_record src s @ post'"
    using c(1) by (simp add: header_slot_def header_body_fields Let_def)
  from hdr [unfolded this] show ?thesis
    by (rule get_range_sub)
      (simp_all add: c(2) length_header_tail [OF wf n] length_row_record [OF wf s])
qed

text \<open>A written header whose units are in place gives the source's rows.\<close>

lemma committed_rows_of:
  assumes wf: "wf_source src" and h: "h = parsed_of src at gen (ss_n_vectors src) ops mat app crc"
    and hdr: "get_range f at (at + length (header_slot src gen (ss_n_vectors src) ops mat app crc))
      = Some (header_slot src gen (ss_n_vectors src) ops mat app crc)"
    and ops: "\<forall>(b, ss) \<in> set ops. \<forall>s \<in> set ss. s < ss_n_vectors src"
    and unit: "s div BLOCK < ss_n_vectors src div BLOCK \<Longrightarrow> s \<notin> set (op_slots h) \<Longrightarrow>
      \<exists>u. unit_at_image f (src_geo src) (s div BLOCK) = Some u \<and>
        unit_row (src_geo src) u (s mod BLOCK) = row_record src s"
    and s: "s < ss_n_vectors src"
  shows "committed_row f (src_geo src) h s = Some (row_record src s)"
proof -
  let ?n = "ss_n_vectors src" and ?g = "src_geo src"
  have hn: "ph_n h = ?n" "ph_tail_at h = at + 16" by (simp_all add: h parsed_of_def)
  show ?thesis
  proof (cases "?n div BLOCK \<le> s div BLOCK")
    case True
    have q: "s div BLOCK = ?n div BLOCK" using True s by (meson div_le_mono le_antisym less_imp_le)
    have e: "s = s div BLOCK * BLOCK + s mod BLOCK" "?n = ?n div BLOCK * BLOCK + ?n mod BLOCK" by simp_all
    then have k: "s mod BLOCK < ?n mod BLOCK" and se: "?n - ?n mod BLOCK + s mod BLOCK = s"
      using s q by linarith+
    show ?thesis
      using written_tail_row [OF wf refl hdr k] True s by (simp add: committed_row_def hn se)
  next
    case False
    show ?thesis
    proof (cases "map_of (rev (op_list h)) s")
      case (Some o')
      then have "(s, o') \<in> set (op_list h)" by (auto dest: map_of_SomeD)
      from written_op_row [OF wf refl hdr this [unfolded h] ops] show ?thesis
        using False Some s by (simp add: committed_row_def hn)
    next
      case None
      then have "s \<notin> set (op_slots h)" by (auto simp: map_of_eq_None_iff op_slots_def)
      then show ?thesis using unit False None s by (auto simp: committed_row_def hn)
    qed
  qed
qed

section \<open>Rows of a finished sync\<close>

lemma planned_hdr_written:
  assumes r: "sync_ready f g h src cursor pending fresh"
    and cap: "length (plan_carried (live_floor src cursor) pending fresh) \<le> MAX_OPS"
    and len: "length f \<le> length f0" and f': "f' = run_batch (plan_batch src cursor pending fresh) f0"
  shows "w \<in> set (plan_batch src cursor pending fresh) \<Longrightarrow>
    get_range f' (fst w) (fst w + length (snd w)) = Some (snd w)"
  using run_batch_read [OF plan_batch_disjoint [OF r cap] plan_batch_no_gap [OF r len], of "fst w" "snd w"]
  by (simp add: f')

lemma unit_bytes_row:
  assumes wf: "wf_source src" and seq: "seq_source src" and b: "s div BLOCK < ss_n_vectors src div BLOCK"
  shows "unit_row (src_geo src) (unit_bytes src (s div BLOCK)) (s mod BLOCK) = row_record src s"
  using unit_row_unit_bytes [OF wf seq b, of "s mod BLOCK"] by simp

text \<open>A unit the sync does not write keeps its committed rows.\<close>

lemma unwritten_unit_row:
  assumes r: "sync_ready f g h src cursor pending fresh" and seq: "seq_source src"
    and agree: "clean_rows_agree f g h src pending fresh"
    and cap: "length (plan_carried (live_floor src cursor) pending fresh) \<le> MAX_OPS"
    and p: "\<And>a b. b \<le> length f \<Longrightarrow> (\<And>w. w \<in> set (plan_batch src cursor pending fresh) \<Longrightarrow>
      fst w + length (snd w) \<le> a \<or> b \<le> fst w) \<Longrightarrow> hdr_at g 2 \<le> a \<Longrightarrow> get_range f' a b = get_range f a b"
    and b: "s div BLOCK < ss_n_vectors src div BLOCK"
    and nw: "s div BLOCK \<notin> set (plan_blocks src cursor pending fresh)"
    and nc: "s \<notin> set (plan_carried (live_floor src cursor) pending fresh)"
  shows "\<exists>u. unit_at_image f' g (s div BLOCK) = Some u \<and> unit_row g u (s mod BLOCK) = row_record src s"
proof -
  let ?fl = "live_floor src cursor"
  have fin: "finite pending" "finite fresh" and wf: "wf_source src" and g: "src_geo src = g"
    and pen: "pending = set (op_slots h)" and syn: "unat (sc_n_synced cursor) = ph_n h"
    and c: "commit_at f g h"
    using r by (auto simp: sync_ready_def)
  have old: "s div BLOCK < ph_n h div BLOCK"
    using nw b syn fin by (auto simp: set_plan_blocks)
  then have "Suc (s div BLOCK) \<le> min (ph_n h div BLOCK) (ss_n_vectors src div BLOCK)" using b by simp
  then have "Suc (s div BLOCK) * BLOCK \<le> ?fl"
    unfolding live_floor_def syn by (rule mult_le_mono1)
  then have fl: "s < ?fl" by simp
  have clean: "s \<notin> pending" "s \<notin> fresh"
    using nw nc fl fin by (auto simp: set_plan_blocks set_plan_carried mem_fresh_units)
  have n: "s < min (ph_n h) (ss_n_vectors src)" using fl syn live_floor_le [of src cursor] by simp
  have "Suc (s div BLOCK) * BLOCK \<le> ph_n h div BLOCK * BLOCK" using old by (intro mult_le_mono1) simp
  then have "s < min (ph_n h div BLOCK * BLOCK) (ss_n_vectors src)" using n by simp
  then have cr: "committed_row f g h s = Some (row_record src s)"
    using agree clean by (simp add: clean_rows_agree_def)
  have no: "map_of (rev (op_list h)) s = None"
    using clean pen by (auto simp: map_of_eq_None_iff op_slots_def)
  have end': "unit_at g (s div BLOCK) + unit_len g \<le> length f"
    using unit_at_mono [OF old] commit_file_length [OF c] by (rule order_trans)
  then obtain u where u: "unit_at_image f g (s div BLOCK) = Some u"
    by (simp add: unit_at_image_def get_range_Some)
  have row: "unit_row g u (s mod BLOCK) = row_record src s"
    using cr n old no u by (simp add: committed_row_def split: if_splits)
  have "fst w + length (snd w) \<le> unit_at g (s div BLOCK) \<or> unit_at g (s div BLOCK) + unit_len g \<le> fst w"
    if w: "w \<in> set (plan_batch src cursor pending fresh)" for w
  proof -
    consider c where "c \<in> set (plan_blocks src cursor pending fresh)" "w = (unit_at g c, unit_bytes src c)"
      | "w = (hdr_at g (unat ((sc_gen cursor + 1) mod 2)), plan_header src cursor pending fresh)"
      using w by (auto simp: plan_batch_def Let_def g)
    then show ?thesis
    proof cases
      case 1
      then show ?thesis using nw unit_at_disjoint [of c "s div BLOCK" g] length_unit_bytes_plan [OF r 1(1)]
        by auto
    next
      case 2
      then show ?thesis
        using hdr_before_units [OF gen_parity, of g "sc_gen cursor + 1" "s div BLOCK"] plan_header_fits [OF r cap]
        by simp
    qed
  qed
  then have "unit_at_image f' g (s div BLOCK) = unit_at_image f g (s div BLOCK)"
    unfolding unit_at_image_def using end' by (intro p) (auto simp: unit_at_def)
  then show ?thesis using u row by simp
qed

lemma sync_finished_rows:
  assumes r: "sync_ready f g h src cursor pending fresh" and seq: "seq_source src"
    and agree: "clean_rows_agree f g h src pending fresh"
    and pl: "plan_incremental src cursor pending fresh clear = Some pl"
    and s: "s < ss_n_vectors src"
  shows "committed_row (fst (run_sync pl f)) g (planned_hdr src cursor pending fresh) s
    = Some (row_record src s)"
proof -
  have fin: "finite pending" "finite fresh" and wf: "wf_source src" and g: "src_geo src = g"
    and c: "commit_at f g h" using r by (auto simp: sync_ready_def)
  let ?fl = "live_floor src cursor" and ?c = "plan_carried (live_floor src cursor) pending fresh"
  note pf = plan_incremental_Some [OF pl]
  then have cap: "length ?c \<le> MAX_OPS" by blast
  define f' where "f' = fst (run_sync pl f)"
  obtain f0 where f': "f' = run_batch (plan_batch src cursor pending fresh) f0" and len: "length f \<le> length f0"
    and f0: "f0 = f \<or> (\<exists>used. f0 = write_at (hdr_at g (unat ((sc_gen cursor + 1) mod 2)))
        (clear_bytes g (sc_gen cursor + 1) used) f)"
  proof (cases clear)
    case None
    then show thesis using that [of f] pf by (simp add: run_sync_def f'_def)
  next
    case (Some used)
    let ?f0 = "write_at (hdr_at g (unat ((sc_gen cursor + 1) mod 2))) (clear_bytes g (sc_gen cursor + 1) used) f"
    show thesis
    proof (rule that)
      show "f' = run_batch (plan_batch src cursor pending fresh) ?f0"
        using Some pf by (simp add: run_sync_def f'_def g)
    qed (auto simp: length_write_at_ge)
  qed
  note rd = planned_hdr_written [OF r cap len f']
  have same: "get_range f' a b = get_range f a b" if bl: "b \<le> length f"
    and out: "\<And>w. w \<in> set (plan_batch src cursor pending fresh) \<Longrightarrow> fst w + length (snd w) \<le> a \<or> b \<le> fst w"
    and a: "hdr_at g 2 \<le> a" for a b
  proof -
    have "get_range f' a b = get_range f0 a b"
      using f' bl len out by (intro full.persisted_range) auto
    moreover have "get_range f0 a b = get_range f a b"
      using f0
    proof
      assume "\<exists>used. f0 = write_at (hdr_at g (unat ((sc_gen cursor + 1) mod 2)))
          (clear_bytes g (sc_gen cursor + 1) used) f"
      then obtain used where f0u: "f0 = run_batch [(hdr_at g (unat ((sc_gen cursor + 1) mod 2)),
          clear_bytes g (sc_gen cursor + 1) used)] f" by auto
      have "hdr_at g (unat ((sc_gen cursor + 1) mod 2)) + hdr_len g \<le> a"
        using hdr_at_mono [OF gen_parity, of g "sc_gen cursor + 1"] a by linarith
      then have "hdr_at g (unat ((sc_gen cursor + 1) mod 2)) + length (clear_bytes g (sc_gen cursor + 1) used) \<le> a"
        using length_clear_bytes [of g "sc_gen cursor + 1" used] by linarith
      then show ?thesis using bl by (intro full.persisted_range [OF f0u]) auto
    qed simp
    ultimately show ?thesis by simp
  qed
  have unit: "\<exists>u. unit_at_image f' g (s div BLOCK) = Some u \<and> unit_row g u (s mod BLOCK) = row_record src s"
    if b: "s div BLOCK < ss_n_vectors src div BLOCK" and no: "s \<notin> set (op_slots (planned_hdr src cursor pending fresh))"
  proof (cases "s div BLOCK \<in> set (plan_blocks src cursor pending fresh)")
    case True
    have "unit_at_image f' g (s div BLOCK) = Some (unit_bytes src (s div BLOCK))"
      using rd [of "(unit_at g (s div BLOCK), unit_bytes src (s div BLOCK))"] True length_unit_bytes_plan [OF r True]
      by (simp add: unit_at_image_def plan_batch_def Let_def g)
    then show ?thesis using unit_bytes_row [OF wf seq b] g by simp
  next
    case False
    show ?thesis
      by (rule unwritten_unit_row [OF r seq agree cap same b False])
        (use no in \<open>simp_all add: planned_hdr_ops\<close>)
  qed
  have hdr: "get_range f' (hdr_at g (unat ((sc_gen cursor + 1) mod 2)))
      (hdr_at g (unat ((sc_gen cursor + 1) mod 2)) + length (plan_header src cursor pending fresh))
    = Some (plan_header src cursor pending fresh)"
    using rd [of "(hdr_at g (unat ((sc_gen cursor + 1) mod 2)), plan_header src cursor pending fresh)"]
    by (simp add: plan_batch_def Let_def g)
  have gb: "\<forall>(b, ss) \<in> set (plan_groups ?c). \<forall>s \<in> set ss. s < ss_n_vectors src"
    using plan_groups_blocks carried_facts(1) [OF fin] by blast
  have "committed_row f' (src_geo src) (planned_hdr src cursor pending fresh) s = Some (row_record src s)"
    by (rule committed_rows_of [OF wf _ _ gb _ s, where at = "hdr_at g (unat ((sc_gen cursor + 1) mod 2))"
          and gen = "sc_gen cursor + 1"])
      (use hdr unit in \<open>auto simp: planned_hdr_def plan_header_def Let_def g\<close>)
  then show ?thesis by (simp add: g f'_def)
qed

text \<open>The units a finished sync wrote are in place.\<close>

lemma finished_unit:
  assumes r: "sync_ready f g h src cursor pending fresh"
    and pl: "plan_incremental src cursor pending fresh clear = Some pl"
    and b: "b \<in> set (plan_blocks src cursor pending fresh)"
  shows "unit_at_image (fst (run_sync pl f)) g b = Some (unit_bytes src b)"
proof -
  have g: "src_geo src = g" using r by (simp add: sync_ready_def)
  have cap: "length (plan_carried (live_floor src cursor) pending fresh) \<le> MAX_OPS"
    using plan_incremental_Some [OF pl] by blast
  obtain f0 where f0: "fst (run_sync pl f) = run_batch (plan_batch src cursor pending fresh) f0"
    "length f \<le> length f0" using pl r by (rule run_sync_batches)
  show ?thesis
    using planned_hdr_written [OF r cap f0(2,1), of "(unit_at g b, unit_bytes src b)"] b
      length_unit_bytes_plan [OF r b]
    by (simp add: unit_at_image_def plan_batch_def Let_def g)
qed

lemma run_sync_full:
  assumes "plan_incremental src cursor pending fresh clear = Some pl"
  obtains ops where "fst (run_sync pl f) = run_batch ops f"
    "set ops = (\<Union>b \<in> set (sp_batches pl). set b)"
proof -
  show thesis
  proof (rule that)
    show "fst (run_sync pl f) = run_batch (concat (sp_batches pl)) f"
      using plan_incremental_Some [OF assms]
      by (cases clear) (simp_all add: run_sync_def run_batch_append)
  qed simp
qed

end
