(* ===== verification/Image.thy ===== *)
theory Image
  imports SyncResult
begin

text \<open>
  The full write (\<open>write_image\<close>, \<open>image_bytes\<close>, \<open>image_len\<close>, \<open>write_full_inner\<close>): superblock,
  header slot 0 at generation 0, a zeroed slot 1, then the block units, produced a batch at a
  time. The image is a valid start for incremental syncs: its only adoptable commit is the one
  it was written with, and that commit's rows are the source's.
\<close>

section \<open>Definitions\<close>

definition UNITS_PER_BATCH :: nat where "UNITS_PER_BATCH = 256"

text \<open>\<open>(0..n_blocks).step_by(UNITS_PER_BATCH)\<close> and the in-order batch it drives.\<close>

definition batch_starts :: "nat \<Rightarrow> nat list" where
  "batch_starts n_blocks =
     map (\<lambda>k. k * UNITS_PER_BATCH) [0..<(n_blocks + UNITS_PER_BATCH - 1) div UNITS_PER_BATCH]"

definition unit_batch :: "sync_source \<Rightarrow> nat \<Rightarrow> nat \<Rightarrow> bytes" where
  "unit_batch src n_blocks b0 =
     concat (map (unit_bytes src) [b0..<min (b0 + UNITS_PER_BATCH) n_blocks])"

definition write_image :: "sync_source \<Rightarrow> u64 \<Rightarrow> u64 \<Rightarrow> bytes" where
  "write_image src gen nonce =
     (let g = src_geo src;
          n_blocks = ss_n_vectors src div BLOCK;
          h = header_slot src gen (ss_n_vectors src) [] [] (0, 0) (delta_digest gen [])
      in superblock src nonce @ h @ replicate (hdr_len g - length h) 0 @ replicate (hdr_len g) 0
           @ concat (map (unit_batch src n_blocks) (batch_starts n_blocks)))"

definition image_bytes :: "sync_source \<Rightarrow> bytes" where
  "image_bytes src = write_image src 0 UNCLAIMED_NONCE"

definition image_len :: "sync_source \<Rightarrow> nat" where
  "image_len src = full_len (src_geo src) (ss_n_vectors src)"

text \<open>\<open>write_full_inner\<close> on a file system that accepts every call: the staged image renamed over
  the path, and the cursor bound to it. The nonce is an argument (a random draw, or 0).\<close>

definition write_full_inner :: "sync_source \<Rightarrow> u64 \<Rightarrow> u64 \<Rightarrow> bytes \<times> sync_cursor" where
  "write_full_inner src calib_gen nonce =
     (write_image src 0 nonce,
      \<lparr>sc_gen = 0, sc_n_synced = of_nat (ss_n_vectors src), sc_calib_gen = calib_gen,
       sc_nonce = nonce\<rparr>)"

section \<open>Batched unit output\<close>

lemma concat_batches:
  "concat (map (\<lambda>k. [k * c..<min (k * c + c) n]) [0..<m]) = [0..<min (m * c) n]"
proof (induction m)
  case 0
  then show ?case by simp
next
  case (Suc m)
  have "[0..<min (m * c) n] @ [m * c..<min (m * c + c) n] = [0..<min (m * c + c) n]"
  proof (cases "m * c \<le> n")
    case True
    then have "min (m * c + c) n = m * c + (min (m * c + c) n - m * c)" by simp
    then show ?thesis using True upt_add_eq_append [of 0 "m * c" "min (m * c + c) n - m * c"] by simp
  qed simp
  then show ?case using Suc by (simp add: add.commute)
qed

lemma batched_units:
  "concat (map (unit_batch src n_blocks) (batch_starts n_blocks))
     = concat (map (unit_bytes src) [0..<n_blocks])"
proof -
  have "n_blocks \<le> (n_blocks + UNITS_PER_BATCH - 1) div UNITS_PER_BATCH * UNITS_PER_BATCH"
    unfolding UNITS_PER_BATCH_def by simp
  then have starts: "concat (map (\<lambda>b0. [b0..<min (b0 + UNITS_PER_BATCH) n_blocks]) (batch_starts n_blocks))
      = [0..<n_blocks]"
    using concat_batches [of UNITS_PER_BATCH n_blocks "(n_blocks + UNITS_PER_BATCH - 1) div UNITS_PER_BATCH"]
    by (simp add: batch_starts_def comp_def)
  have fl: "concat (map (\<lambda>b0. concat (map u [b0..<min (b0 + UNITS_PER_BATCH) n_blocks])) xs)
      = concat (map u (concat (map (\<lambda>b0. [b0..<min (b0 + UNITS_PER_BATCH) n_blocks]) xs)))" for u xs
    by (induction xs) simp_all
  show ?thesis by (simp only: unit_batch_def [abs_def] fl starts)
qed

section \<open>The image, region by region\<close>

definition image_hdr :: "sync_source \<Rightarrow> u64 \<Rightarrow> bytes" where
  "image_hdr src gen = header_slot src gen (ss_n_vectors src) [] [] (0, 0) (delta_digest gen [])"

definition image_commit :: "sync_source \<Rightarrow> parsed_hdr" where
  "image_commit src = parsed_of src (hdr_at (src_geo src) 0) 0 (ss_n_vectors src) [] [] (0, 0)
     (delta_digest 0 [])"

lemma write_image_eq:
  "write_image src gen nonce = superblock src nonce @ image_hdr src gen
     @ replicate (hdr_len (src_geo src) - length (image_hdr src gen)) 0
     @ replicate (hdr_len (src_geo src)) 0
     @ concat (map (unit_bytes src) [0..<ss_n_vectors src div BLOCK])"
  by (simp add: write_image_def image_hdr_def Let_def batched_units)

lemma length_image_hdr:
  assumes "wf_source src"
  shows "length (image_hdr src gen) \<le> hdr_len (src_geo src)"
  using header_slot_fits [OF assms refl, of "[]" "[]"] by (simp add: image_hdr_def MAX_OPS_def)

lemma length_units:
  assumes "wf_source src" and "k \<le> ss_n_vectors src div BLOCK"
  shows "length (concat (map (unit_bytes src) [0..<k])) = k * unit_len (src_geo src)"
  using assms length_unit_bytes [OF assms(1)] by (subst length_concat_const) auto

lemma length_write_image:
  assumes "wf_source src"
  shows "length (write_image src gen nonce) = full_len (src_geo src) (ss_n_vectors src)"
  using length_image_hdr [OF assms, of gen]
  by (simp add: write_image_eq length_superblock [OF assms] length_units [OF assms] full_len_def
      unit_at_def hdr_at_def)

lemma image_unit:
  assumes wf: "wf_source src" and b: "b < ss_n_vectors src div BLOCK"
  shows "unit_at_image (write_image src gen nonce) (src_geo src) b = Some (unit_bytes src b)"
proof -
  let ?n = "ss_n_vectors src div BLOCK" and ?g = "src_geo src"
  have s: "[0..<?n] = [0..<b] @ b # [Suc b..<?n]"
    using upt_add_eq_append [of 0 b "?n - b"] b by (simp add: upt_conv_Cons)
  let ?pre = "superblock src nonce @ image_hdr src gen
     @ replicate (hdr_len ?g - length (image_hdr src gen)) 0 @ replicate (hdr_len ?g) 0
     @ concat (map (unit_bytes src) [0..<b])"
  have "write_image src gen nonce = ?pre @ unit_bytes src b @ concat (map (unit_bytes src) [Suc b..<?n])"
    by (simp add: write_image_eq s)
  moreover have "length ?pre = unit_at ?g b"
    using length_image_hdr [OF wf, of gen] b
    by (simp add: length_superblock [OF wf] length_units [OF wf] unit_at_def hdr_at_def)
  ultimately show ?thesis
    using get_range_mid [of "unit_at ?g b" ?pre "unit_at ?g b + unit_len ?g" "unit_bytes src b"]
    by (simp add: unit_at_image_def length_unit_bytes [OF wf b])
qed

lemma image_slot0:
  assumes wf: "wf_source src"
  shows "get_range (write_image src gen nonce) (hdr_at (src_geo src) 0)
      (hdr_at (src_geo src) 0 + hdr_len (src_geo src))
    = Some (image_hdr src gen @ replicate (hdr_len (src_geo src) - length (image_hdr src gen)) 0)"
  by (rule get_range_at [of _ "superblock src nonce" _ "replicate (hdr_len (src_geo src)) 0
      @ concat (map (unit_bytes src) [0..<ss_n_vectors src div BLOCK])"])
    (use length_image_hdr [OF wf, of gen] in
      \<open>simp_all add: write_image_eq hdr_at_0 length_superblock [OF wf]\<close>)

lemma image_slot1:
  assumes wf: "wf_source src"
  shows "get_range (write_image src gen nonce) (hdr_at (src_geo src) 1)
      (hdr_at (src_geo src) 1 + hdr_len (src_geo src)) = Some (replicate (hdr_len (src_geo src)) 0)"
  by (rule get_range_at [of _ "superblock src nonce @ image_hdr src gen
      @ replicate (hdr_len (src_geo src) - length (image_hdr src gen)) 0" _
      "concat (map (unit_bytes src) [0..<ss_n_vectors src div BLOCK])"])
    (use length_image_hdr [OF wf, of gen] in
      \<open>simp_all add: write_image_eq hdr_at_def length_superblock [OF wf]\<close>)

section \<open>The image's commit\<close>

lemma image_commit_simps:
  "ph_gen (image_commit src) = 0" "ph_n (image_commit src) = ss_n_vectors src"
  "delta_blocks (image_commit src) = []" "op_slots (image_commit src) = []"
  "ph_delta_crc (image_commit src) = delta_digest 0 []" "op_list (image_commit src) = []"
  by (simp_all add: image_commit_def parsed_of_def delta_blocks_def op_slots_def op_list_def)

lemma image_commit_detached: "detached (image_commit src)"
  by (simp add: detached_def image_commit_simps)

lemma full_len_le:
  assumes "wf_source src"
  shows "unit_at (src_geo src) (ss_n_vectors src div BLOCK) \<le> length (write_image src gen nonce)"
  by (simp add: length_write_image [OF assms] full_len_def)

lemma image_commit_at:
  assumes wf: "wf_source src" and max: "length (write_image src 0 nonce) \<le> usize_max"
  shows "commit_at (write_image src 0 nonce) (src_geo src) (image_commit src)"
proof -
  have "parse_header_at (image_hdr src 0 @ replicate (hdr_len (src_geo src) - length (image_hdr src 0)) 0)
      (hdr_at (src_geo src) 0) (src_geo src) 0 (length (write_image src 0 nonce)) = Some (image_commit src)"
    unfolding image_hdr_def image_commit_def
    by (rule parse_header_roundtrip [OF wf refl _ _ _ _ _ _ _ full_len_le [OF wf] max])
      (simp_all add: MAX_OPS_def)
  then have "parse_header_slot (write_image src 0 nonce) (src_geo src) 0
      (length (write_image src 0 nonce)) = Some (image_commit src)"
    using image_slot0 [OF wf] by (simp add: parse_header_slot_def)
  moreover have "delta_digest 0 [] = crc32 (delta_stream 0 [])"
    by (rule delta_digest_stream) (simp add: delta_stream_def)
  then have "delta_ok (write_image src 0 nonce) (src_geo src) (image_commit src)"
    unfolding delta_ok_def
    by (subst delta_verified_iff [where ulen = "unit_len (src_geo src)"])
      (auto simp: image_commit_simps unit_at_image_def)
  ultimately show ?thesis by (simp add: commit_at_def image_commit_simps)
qed

text \<open>The zeroed slot 1 is refused on its parity: its generation reads 0.\<close>

lemma image_slot1_empty:
  assumes wf: "wf_source src"
  shows "parse_header_slot (write_image src gen nonce) (src_geo src) 1 fl = None"
proof -
  have "8 \<le> hdr_len (src_geo src)" by (simp add: hdr_len_def)
  then have "read_u64 (replicate (hdr_len (src_geo src)) 0) 0 = Some (u64_from_le (replicate 8 0))"
    by (simp add: read_u64_def get_range_def min_def)
  moreover have "u64_from_le (replicate 8 0) = 0" by (simp add: u64_from_le_def numeral_eq_Suc)
  ultimately show ?thesis using image_slot1 [OF wf] by (simp add: parse_header_slot_def parse_header_at_def)
qed

lemma image_choose:
  assumes wf: "wf_source src" and max: "length (write_image src 0 nonce) \<le> usize_max"
  shows "choose_header (write_image src 0 nonce) (src_geo src) = Some (image_commit src)"
  using image_commit_at [OF assms] image_slot1_empty [OF wf, of 0 nonce]
  by (simp add: choose_header_def header_cands_def commit_at_def image_commit_simps map_filter_simps)

lemma image_rows:
  assumes wf: "wf_source src" and seq: "seq_source src" and s: "s < ss_n_vectors src"
  shows "committed_row (write_image src 0 nonce) (src_geo src) (image_commit src) s
    = Some (row_record src s)"
proof (rule committed_rows_of [OF wf image_commit_def])
  show "get_range (write_image src 0 nonce) (hdr_at (src_geo src) 0)
      (hdr_at (src_geo src) 0 + length (header_slot src 0 (ss_n_vectors src) [] [] (0, 0) (delta_digest 0 [])))
    = Some (header_slot src 0 (ss_n_vectors src) [] [] (0, 0) (delta_digest 0 []))"
    by (rule get_range_sub [of _ _ _ "[]"])
      (use image_slot0 [OF wf, of 0 nonce] in \<open>simp_all add: image_hdr_def\<close>)
  show "\<exists>u. unit_at_image (write_image src 0 nonce) (src_geo src) (s div BLOCK) = Some u \<and>
      unit_row (src_geo src) u (s mod BLOCK) = row_record src s"
    if "s div BLOCK < ss_n_vectors src div BLOCK"
    using image_unit [OF wf that] unit_bytes_row [OF wf seq that] by simp
qed (simp_all add: s)

text \<open>A fresh image is a start for incremental syncs, with nothing pending.\<close>

lemma image_sync_ready:
  assumes wf: "wf_source src" and max: "length (write_image src 0 nonce) \<le> usize_max"
    and wf': "wf_source src'" and g: "src_geo src' = src_geo src" and fresh: "finite fresh"
  shows "sync_ready (write_image src 0 nonce) (src_geo src) (image_commit src) src'
    (snd (write_full_inner src calib_gen nonce)) {} fresh"
  using image_commit_at [OF wf max] wf' g fresh image_commit_detached wf_sourceD(4) [OF wf]
  by (simp add: sync_ready_def image_commit_simps write_full_inner_def unat_of_nat_u64)

end
