(* ===== verification/TornCommit.thy ===== *)
theory TornCommit
  imports SyncResult
begin

text \<open>
  What a loader may adopt after a power cut. The commit a sync started from always survives
  (\<open>CrashSafety\<close>); here is the other half: when the loader adopts anything else, it is the header the
  interrupted sync was writing, whole, with every unit of its delta in place. That rests on the two
  checksums telling a torn header slot and torn units from whole ones (\<open>told_crash\<close>, \<open>units_told\<close>), on the
  stale headers \<open>cursor_state\<close> reports being wiped first (\<open>clears_ahead\<close>), and on no header of an abandoned sync
  lying in wait beyond the end of the file (\<open>no_hidden_header\<close>).
\<close>

section \<open>Reading a prefix of a header slot\<close>

lemma get_range_take: "get_range (take k bs) a b = Some r \<Longrightarrow> get_range bs a b = Some r"
  by (auto simp: get_range_Some drop_take)

lemma get_at_take: "get_at (take k bs) p = Some x \<Longrightarrow> get_at bs p = Some x"
  by (auto simp: get_at_def split: if_splits)

lemma read_u32_take: "read_u32 (take k bs) p = Some w \<Longrightarrow> read_u32 bs p = Some w"
  using get_range_take [of k bs p "p + 4"] by (auto simp: read_u32_def)

lemma read_u64_take: "read_u64 (take k bs) p = Some w \<Longrightarrow> read_u64 bs p = Some w"
  using get_range_take [of k bs p "p + 8"] by (auto simp: read_u64_def)

lemma parse_ops_take:
  "parse_ops (take k bs) at osz b m p = Some r \<Longrightarrow> parse_ops bs at osz b m p = Some r"
proof (induction m arbitrary: p r)
  case 0
  then show ?case by simp
next
  case (Suc m)
  obtain l ops q where l: "get_at (take k bs) p = Some l" "unat l < BLOCK"
    and r: "parse_ops (take k bs) at osz b m (p + osz) = Some (ops, q)"
    and e: "r = ((b * BLOCK + unat l, at + p + 1) # ops, q)"
    using Suc.prems by (auto simp: Option.bind_eq_Some_conv)
  show ?case using get_at_take [OF l(1)] l(2) Suc.IH [OF r] by (simp add: e)
qed

lemma parse_groups_take:
  "parse_groups (take k bs) at osz nb m p = Some r \<Longrightarrow> parse_groups bs at osz nb m p = Some r"
proof (induction m arbitrary: p r)
  case 0
  then show ?case by simp
next
  case (Suc m)
  obtain b n_ops ops q gs q' where b: "read_u32 (take k bs) p = Some b" "unat b < nb"
    and n: "get_at (take k bs) (p + 4) = Some n_ops"
    and o': "parse_ops (take k bs) at osz (unat b) (unat n_ops) (p + 5) = Some (ops, q)"
    and r: "parse_groups (take k bs) at osz nb m q = Some (gs, q')"
    and e: "r = ((unat b, ops) # gs, q')"
    using Suc.prems by (auto simp: Option.bind_eq_Some_conv)
  show ?case
    using read_u32_take [OF b(1)] b(2) get_at_take [OF n] parse_ops_take [OF o'] Suc.IH [OF r]
    by (simp add: e)
qed

lemma parse_u32s_take: "parse_u32s (take k bs) m p = Some r \<Longrightarrow> parse_u32s bs m p = Some r"
proof (induction m arbitrary: p r)
  case 0
  then show ?case by simp
next
  case (Suc m)
  obtain w ws q where w: "read_u32 (take k bs) p = Some w"
    and r: "parse_u32s (take k bs) m (p + 4) = Some (ws, q)" and e: "r = (unat w # ws, q)"
    using Suc.prems by (auto simp: Option.bind_eq_Some_conv)
  show ?case using read_u32_take [OF w] Suc.IH [OF r] by (simp add: e)
qed

lemma parse_header_take:
  assumes "parse_header_at (take k bs) at g slot fl = Some h"
  shows "parse_header_at bs at g slot fl = Some h"
  using assms unfolding parse_header_at_def Let_def
  by (elim bind_SomeE guard_optE bind_pairE)
    (auto dest!: read_u64_take read_u32_take parse_groups_take parse_u32s_take get_range_take)

section \<open>A header is parsed from its own bytes\<close>

lemma get_range_within: "get_range bs a b = Some r \<Longrightarrow> b \<le> k \<Longrightarrow> get_range (take k bs) a b = Some r"
  by (auto simp: get_range_Some drop_take min_def)

lemma get_at_within: "get_at bs p = Some x \<Longrightarrow> p < k \<Longrightarrow> get_at (take k bs) p = Some x"
  by (auto simp: get_at_def split: if_splits)

lemma read_u32_within: "read_u32 bs p = Some w \<Longrightarrow> p + 4 \<le> k \<Longrightarrow> read_u32 (take k bs) p = Some w"
  using get_range_within [of bs p "p + 4"] by (auto simp: read_u32_def)

lemma read_u64_within: "read_u64 bs p = Some w \<Longrightarrow> p + 8 \<le> k \<Longrightarrow> read_u64 (take k bs) p = Some w"
  using get_range_within [of bs p "p + 8"] by (auto simp: read_u64_def)

lemma parse_ops_within:
  "parse_ops bs at osz b m p = Some (ops, q) \<Longrightarrow> q \<le> k \<Longrightarrow> 0 < osz \<Longrightarrow> parse_ops (take k bs) at osz b m p = Some (ops, q)"
proof (induction m arbitrary: p ops)
  case (Suc m)
  obtain l ops' where l: "get_at bs p = Some l" "unat l < BLOCK" and r: "parse_ops bs at osz b m (p + osz) = Some (ops', q)"
    and e: "ops = (b * BLOCK + unat l, at + p + 1) # ops'"
    using Suc.prems(1) by (auto simp: Option.bind_eq_Some_conv)
  have "q = p + osz + m * osz" using parse_ops_offsets [OF r] by simp
  then have "get_at (take k bs) p = Some l" using Suc.prems(2,3) l(1) by (intro get_at_within) auto
  then show ?case using l(2) Suc.IH [OF r Suc.prems(2,3)] by (simp add: e)
qed simp

lemma parse_groups_within:
  "parse_groups bs at osz nb m p = Some (gs, q) \<Longrightarrow> q \<le> k \<Longrightarrow> 0 < osz \<Longrightarrow> parse_groups (take k bs) at osz nb m p = Some (gs, q)"
proof (induction m arbitrary: p gs)
  case (Suc m)
  obtain b n_ops ops q' gs' where b: "read_u32 bs p = Some b" "unat b < nb" and n: "get_at bs (p + 4) = Some n_ops"
    and o': "parse_ops bs at osz (unat b) (unat n_ops) (p + 5) = Some (ops, q')"
    and r: "parse_groups bs at osz nb m q' = Some (gs', q)" and e: "gs = (unat b, ops) # gs'"
    using Suc.prems(1) by (auto simp: Option.bind_eq_Some_conv)
  have q: "p + 5 \<le> q'" "q' \<le> q" using parse_ops_offsets [OF o'] parse_groups_offsets [OF r] by simp_all
  then have "read_u32 (take k bs) p = Some b" "get_at (take k bs) (p + 4) = Some n_ops"
    using Suc.prems(2) b(1) n by (auto intro: read_u32_within get_at_within)
  moreover have "parse_ops (take k bs) at osz (unat b) (unat n_ops) (p + 5) = Some (ops, q')"
    using q Suc.prems(2,3) by (intro parse_ops_within [OF o']) simp_all
  ultimately show ?case using b(2) Suc.IH [OF r Suc.prems(2,3)] by (simp add: e)
qed simp

lemma parse_u32s_within:
  "parse_u32s bs m p = Some (ws, q) \<Longrightarrow> q \<le> k \<Longrightarrow> parse_u32s (take k bs) m p = Some (ws, q)"
proof (induction m arbitrary: p ws)
  case (Suc m)
  obtain w ws' where w: "read_u32 bs p = Some w" and r: "parse_u32s bs m (p + 4) = Some (ws', q)" and e: "ws = unat w # ws'"
    using Suc.prems(1) by (auto simp: Option.bind_eq_Some_conv)
  have "read_u32 (take k bs) p = Some w"
    using parse_u32s_offset [OF r] Suc.prems(2) by (intro read_u32_within [OF w]) simp
  then show ?case using Suc.IH [OF r Suc.prems(2)] by (simp add: e)
qed simp

lemma parse_header_used:
  assumes "parse_header_at bs at g slot fl = Some h"
  shows "parse_header_at (take (ph_used h) bs) at g slot fl = Some h"
    and "read_u32 bs (ph_used h - 4) = Some (crc32 (take (ph_used h - 4) bs))"
proof -
  obtain n64 nu p nm p' af ato stored body where f: "read_u64 bs 0 = Some (ph_gen h)" "unat (ph_gen h mod 2) = slot"
    "read_u64 bs 8 = Some n64" "ph_n h = unat n64" "ph_n h div BLOCK * unit_len g \<le> usize_max"
    "unit_at g (ph_n h div BLOCK) \<le> usize_max" "unit_at g (ph_n h div BLOCK) \<le> fl"
    "read_u32 bs (16 + ph_n h mod BLOCK * tail_row g) = Some nu" "unat nu \<le> MAX_OPS"
    "parse_groups bs at (op_size g) (ph_n h div BLOCK) (unat nu) (16 + ph_n h mod BLOCK * tail_row g + 4) = Some (ph_groups h, p)"
    "read_u32 bs p = Some nm" "unat nm \<le> MAX_OPS" "parse_u32s bs (unat nm) (p + 4) = Some (ph_delta_mat h, p')"
    "read_u32 bs p' = Some af" "read_u32 bs (p' + 4) = Some ato" "ph_delta_app h = (unat af, unat ato)"
    "read_u32 bs (p' + 8) = Some (ph_delta_crc h)" "read_u32 bs (p' + 12) = Some stored" "get_range bs 0 (p' + 12) = Some body"
    "crc32 body = stored" "ph_tail_at h = at + 16" "ph_used h = p' + 12 + 4"
    using assms by (rule parse_header_atE)
  show "read_u32 bs (ph_used h - 4) = Some (crc32 (take (ph_used h - 4) bs))"
    using f(18-20,22) by (auto simp: get_range_Some add.commute)
  have le: "16 + ph_n h mod BLOCK * tail_row g + 4 \<le> p" "p' = p + 4 + 4 * unat nm"
    using parse_groups_offsets [OF f(10)] parse_u32s_offset [OF f(13)] by simp_all
  have ua: "ph_n h div BLOCK * unit_len g + unit_at g 0 = unit_at g (ph_n h div BLOCK)" by (simp add: unit_at_def)
  have osz: "0 < op_size g" by (simp add: op_size_def)
  note w = read_u64_within [OF f(1), of "ph_used h"] read_u64_within [OF f(3), of "ph_used h"]
    read_u32_within [OF f(8), of "ph_used h"] parse_groups_within [OF f(10) _ osz, of "ph_used h"]
    read_u32_within [OF f(11), of "ph_used h"] parse_u32s_within [OF f(13), of "ph_used h"]
    read_u32_within [OF f(14), of "ph_used h"] read_u32_within [OF f(15), of "ph_used h"]
    read_u32_within [OF f(17), of "ph_used h"] read_u32_within [OF f(18), of "ph_used h"]
    get_range_within [OF f(19), of "ph_used h"]
  have c: "checked_mul (ph_n h div BLOCK) (unit_len g) = Some (ph_n h div BLOCK * unit_len g)"
    "checked_add (ph_n h div BLOCK * unit_len g) (unit_at g 0) = Some (unit_at g (ph_n h div BLOCK))"
    using f(5,6) ua by (auto simp: checked_mul_Some checked_add_Some)
  have w': "read_u64 (take (ph_used h) bs) 0 = Some (ph_gen h)" "read_u64 (take (ph_used h) bs) 8 = Some n64"
    "read_u32 (take (ph_used h) bs) (16 + ph_n h mod BLOCK * tail_row g) = Some nu"
    "parse_groups (take (ph_used h) bs) at (op_size g) (ph_n h div BLOCK) (unat nu) (16 + ph_n h mod BLOCK * tail_row g + 4) = Some (ph_groups h, p)"
    "read_u32 (take (ph_used h) bs) p = Some nm" "parse_u32s (take (ph_used h) bs) (unat nm) (p + 4) = Some (ph_delta_mat h, p')"
    "read_u32 (take (ph_used h) bs) p' = Some af" "read_u32 (take (ph_used h) bs) (p' + 4) = Some ato"
    "read_u32 (take (ph_used h) bs) (p' + 8) = Some (ph_delta_crc h)" "read_u32 (take (ph_used h) bs) (p' + 12) = Some stored"
    "get_range (take (ph_used h) bs) 0 (p' + 12) = Some body"
    using le f(22) by (intro w; linarith)+
  show "parse_header_at (take (ph_used h) bs) at g slot fl = Some h"
    using w' f(2,7,9,12,16,20,21,22) c
    by (cases h) (simp add: parse_header_at_def Let_def f(4) [symmetric])
qed

text \<open>Two slots that agree on a header's bytes hold the same header, whatever the length of the file.\<close>

lemma parse_header_same:
  assumes "parse_header_at bs at g slot fl = Some h" "take (ph_used h) bs' = take (ph_used h) bs" "fl \<le> fl'"
  shows "parse_header_at bs' at g slot fl' = Some h"
  using parse_header_used(1) [OF assms(1)] parse_header_take [of "ph_used h" bs'] parse_header_at_mono [OF _ assms(3)] assms(2)
  by metis

section \<open>Told tears\<close>

definition slot_bytes :: "bytes \<Rightarrow> geo \<Rightarrow> nat \<Rightarrow> bytes option" where
  "slot_bytes f g slot = get_range f (hdr_at g slot) (hdr_at g slot + hdr_len g)"

text \<open>The bytes up to \<open>k\<close> carry their checksum.\<close>

definition sealed :: "bytes \<Rightarrow> nat \<Rightarrow> bool" where
  "sealed bs k \<longleftrightarrow> read_u32 bs k = Some (crc32 (take k bs))"

text \<open>No accident of the header checksum: when a header reads well from a slot of the torn file and its
  checksum matches, its bytes are those of the slot before the batch or after it.\<close>

definition header_told :: "geo \<Rightarrow> batch \<Rightarrow> bytes \<Rightarrow> bytes \<Rightarrow> bool" where
  "header_told g b f f' \<longleftrightarrow>
     (\<forall>slot < 2. \<forall>bs h. slot_bytes f' g slot = Some bs \<longrightarrow> parse_header_at bs (hdr_at g slot) g slot (length f') = Some h \<longrightarrow>
        sealed bs (ph_used h - 4) \<longrightarrow>
        (\<exists>f0 \<in> {f, run_batch b f}. \<exists>bs0. slot_bytes f0 g slot = Some bs0 \<and> take (ph_used h) bs0 = take (ph_used h) bs))"

text \<open>The crashes of \<open>sync_crash\<close> without such an accident.\<close>

inductive told_crash :: "geo \<Rightarrow> batch list \<Rightarrow> bytes \<Rightarrow> bytes \<Rightarrow> bool" for g :: geo where
  told_in: "torn b f f' \<Longrightarrow> header_told g b f f' \<Longrightarrow> told_crash g (b # bs) f f'"
| told_later: "told_crash g bs (run_batch b f) f' \<Longrightarrow> told_crash g (b # bs) f f'"
| told_done: "told_crash g [] f f"

inductive_cases told_crash_ConsE: "told_crash g (b # bs) f f'"
inductive_simps told_crash_Nil [simp]: "told_crash g [] f f'"

lemma told_crash_sync_crash: "told_crash g bs f f' \<Longrightarrow> sync_crash bs f f'"
  by (induction rule: told_crash.induct) (auto intro: sync_crash.intros)

text \<open>No accident of the delta digest: units on disk with the digest of the planned ones are the planned ones.\<close>

definition units_told :: "bytes \<Rightarrow> geo \<Rightarrow> sync_source \<Rightarrow> u64 \<Rightarrow> nat list \<Rightarrow> bool" where
  "units_told f' g src gen blocks \<longleftrightarrow>
     (\<forall>us. map (unit_at_image f' g) blocks = map Some us \<longrightarrow>
        crc32 (delta_stream gen (zip blocks us)) = crc32 (delta_stream gen (zip blocks (map (unit_bytes src) blocks))) \<longrightarrow>
        us = map (unit_bytes src) blocks)"

text \<open>The headers ahead of the cursor are among the bytes to be cleared: what \<open>cursor_state\<close> reports.\<close>

definition clears_ahead :: "bytes \<Rightarrow> geo \<Rightarrow> u64 \<Rightarrow> nat option \<Rightarrow> bool" where
  "clears_ahead f g gen clear \<longleftrightarrow>
     (\<forall>slot < 2. \<forall>h. parse_header_slot f g slot (length f) = Some h \<longrightarrow> gen < ph_gen h \<longrightarrow> (\<exists>u. clear = Some u \<and> ph_used h \<le> u))"

text \<open>No header of the file becomes readable just because the file grows.\<close>

definition no_hidden_header :: "bytes \<Rightarrow> geo \<Rightarrow> u64 \<Rightarrow> nat \<Rightarrow> bool" where
  "no_hidden_header f g gen fl \<longleftrightarrow>
     (\<forall>slot < 2. \<forall>h. parse_header_slot f g slot fl = Some h \<longrightarrow> gen < ph_gen h \<longrightarrow> parse_header_slot f g slot (length f) = Some h)"

text \<open>A power cut during an incremental sync of \<open>src\<close>, and what is known of it.\<close>

definition told_cut :: "geo \<Rightarrow> sync_source \<Rightarrow> sync_cursor \<Rightarrow> nat set \<Rightarrow> nat set \<Rightarrow> nat option \<Rightarrow> bytes \<Rightarrow> bytes \<Rightarrow> bool" where
  "told_cut g src cursor pending fresh clear f f' \<longleftrightarrow>
     (\<exists>pl. plan_incremental src cursor pending fresh clear = Some pl \<and> told_crash g (sp_batches pl) f f') \<and>
     units_told f' g src (sc_gen cursor + 1) (plan_blocks src cursor pending fresh) \<and>
     no_hidden_header f g (sc_gen cursor) (length f')"

lemma told_cut_facts:
  assumes "told_cut g src cursor pending fresh clear f f'" "plan_incremental src cursor pending fresh clear = Some pl"
  shows "told_crash g (sp_batches pl) f f'" "units_told f' g src (sc_gen cursor + 1) (plan_blocks src cursor pending fresh)"
    "no_hidden_header f g (sc_gen cursor) (length f')"
  using assms by (auto simp: told_cut_def)

section \<open>What is adopted\<close>

lemma parse_slot_bytes: "parse_header_slot f g slot fl = Some h \<longleftrightarrow>
    (\<exists>bs. slot_bytes f g slot = Some bs \<and> parse_header_at bs (hdr_at g slot) g slot fl = Some h)"
  by (auto simp: parse_header_slot_def slot_bytes_def Option.bind_eq_Some_conv)

text \<open>The slot after the batch of a sync.\<close>

lemma written_slot:
  assumes r: "sync_ready f g h src cursor pending fresh"
    and cap: "length (plan_carried (live_floor src cursor) pending fresh) \<le> MAX_OPS"
    and len: "length f \<le> length f0"
  shows "\<exists>post. slot_bytes (run_batch (plan_batch src cursor pending fresh) f0) g (unat ((sc_gen cursor + 1) mod 2))
    = Some (plan_header src cursor pending fresh @ post)"
proof -
  let ?t = "unat ((sc_gen cursor + 1) mod 2)" and ?f = "run_batch (plan_batch src cursor pending fresh) f0"
  have g: "src_geo src = g" and c: "commit_at f g h" using r by (auto simp: sync_ready_def)
  have hdr: "get_range ?f (hdr_at g ?t) (hdr_at g ?t + length (plan_header src cursor pending fresh)) = Some (plan_header src cursor pending fresh)"
    using planned_hdr_written [OF r cap len refl, of "(hdr_at g ?t, plan_header src cursor pending fresh)"]
    by (simp add: plan_batch_def Let_def g)
  have "hdr_at g ?t + hdr_len g \<le> unit_at g (ph_n h div BLOCK)" by (rule hdr_before_units [OF gen_parity])
  then have "hdr_at g ?t + hdr_len g \<le> length ?f"
    using commit_file_length [OF c] len run_batch_length_ge [of f0 "plan_batch src cursor pending fresh"] by linarith
  from get_range_extend [OF hdr plan_header_fits [OF r cap] this] show ?thesis by (simp add: slot_bytes_def)
qed

text \<open>Whatever reads well from bytes that begin like the written slot is the planned header.\<close>

lemma planned_unique:
  assumes r: "sync_ready f g h src cursor pending fresh"
    and cap: "length (plan_carried (live_floor src cursor) pending fresh) \<le> MAX_OPS"
    and p: "parse_header_at bs (hdr_at g (unat ((sc_gen cursor + 1) mod 2))) g (unat ((sc_gen cursor + 1) mod 2)) fl = Some h'"
    and same: "take (ph_used h') (plan_header src cursor pending fresh @ post) = take (ph_used h') bs"
  shows "h' = planned_hdr src cursor pending fresh" "take (length (plan_header src cursor pending fresh)) bs = plan_header src cursor pending fresh"
proof -
  let ?n = "ss_n_vectors src" and ?t = "unat ((sc_gen cursor + 1) mod 2)" and ?H = "plan_header src cursor pending fresh"
  have wf: "wf_source src" and g: "src_geo src = g" using r by (auto simp: sync_ready_def)
  let ?m = "unit_at g (?n div BLOCK)"
  obtain rest where H: "?H @ post = u64_to_le (sc_gen cursor + 1) @ u64_to_le (of_nat ?n) @ rest"
    by (simp add: plan_header_def header_slot_def header_body_fields Let_def)
  have "read_u64 (?H @ post) 8 = Some (of_nat ?n)"
    unfolding H using read_u64_mid [of 8 "u64_to_le (sc_gen cursor + 1)"] by simp
  moreover have "parse_header_at (?H @ post) (hdr_at g ?t) g ?t fl = Some h'" by (rule parse_header_same [OF p same]) simp
  ultimately have m: "?m \<le> usize_max"
    using wf_sourceD(4) [OF wf] by (auto elim!: parse_header_atE simp: unat_of_nat_u64)
  have pl: "parse_header_at (?H @ post) (hdr_at g ?t) g ?t ?m = Some (planned_hdr src cursor pending fresh)"
    by (rule planned_hdr_parses [OF r cap order_refl m])
  have "parse_header_at (?H @ post) (hdr_at g ?t) g ?t (max fl ?m) = Some h'"
    by (rule parse_header_same [OF p same]) simp
  moreover have "parse_header_at (?H @ post) (hdr_at g ?t) g ?t (max fl ?m) = Some (planned_hdr src cursor pending fresh)"
    by (rule parse_header_at_mono [OF pl]) simp
  ultimately show h': "h' = planned_hdr src cursor pending fresh" by simp
  have "ph_used h' = length ?H" by (simp add: h' planned_hdr_def plan_header_def parsed_of_def Let_def)
  then show "take (length ?H) bs = ?H" using same by simp
qed

lemma torn_length_same:
  "torn ops f f' \<Longrightarrow> \<forall>w \<in> set ops. fst w + length (snd w) \<le> length f \<Longrightarrow> length f' = length f"
proof (induction rule: torn.induct)
  case (torn_byte f f' off bs i)
  then have "off + i < length f'" by fastforce
  then show ?case using torn_byte by (simp add: length_write_at max_def)
qed simp

text \<open>A header ahead of the adopted one has a delta that does not verify.\<close>

lemma ahead_unverified:
  assumes c: "commit_at f g h" and ch: "choose_header f g = Some h"
    and p: "parse_header_slot f g (1 - unat (ph_gen h mod 2)) (length f) = Some h'" and lt: "unat (ph_gen h) < unat (ph_gen h')"
  shows "\<not> delta_ok f g h'"
proof
  assume d: "delta_ok f g h'"
  have "unat (ph_gen h mod 2) < 2" by (rule gen_parity)
  then have "{unat (ph_gen h mod 2), 1 - unat (ph_gen h mod 2)} = {0, 1}" "unat (ph_gen h mod 2) \<noteq> 1 - unat (ph_gen h mod 2)" by (auto, presburger)
  from choose_two [OF _ p this d lt] c have "choose_header f g = Some h'" by (simp add: commit_at_def)
  then show False using ch lt by simp
qed

lemma cleared_slot:
  assumes "hdr_at g slot + hdr_len g \<le> length f" "slot = unat (gen mod 2)"
    and "slot_bytes (run_batch [(hdr_at g slot, clear_bytes g gen used)] f) g slot = Some bs"
  shows "parse_header_at bs at g slot fl = None"
proof -
  let ?f = "run_batch [(hdr_at g slot, clear_bytes g gen used)] f"
  have ng: "no_gap (length f) [(hdr_at g slot, clear_bytes g gen used)]" using assms(1) by simp
  have "get_range ?f (hdr_at g slot) (hdr_at g slot + length (clear_bytes g gen used)) = Some (clear_bytes g gen used)"
    by (rule run_batch_read [OF _ ng]) simp_all
  moreover have "hdr_at g slot + hdr_len g \<le> length ?f" using assms(1) run_batch_length_ge [of f] le_trans by blast
  ultimately obtain post where "slot_bytes ?f g slot = Some (clear_bytes g gen used @ post)"
    using get_range_extend [OF _ length_clear_bytes] unfolding slot_bytes_def by blast
  then show ?thesis using assms(2,3) clear_bytes_rejected [of g gen used post] by auto
qed

text \<open>A cut while the stale header is wiped cannot make it adoptable: no unit has moved.\<close>

lemma wipe_keeps_units:
  assumes t: "torn [(hdr_at g slot, bs)] f f'" and len: "slot < 2" "length bs \<le> hdr_len g" "hdr_at g slot + hdr_len g \<le> length f"
    and d: "delta_ok f' g h'"
  shows "delta_ok f g h'"
proof -
  have l: "length f' = length f" using len by (intro torn_length_same [OF t]) auto
  have "unit_at_image f' g b = unit_at_image f g b" if b: "b \<in> set (delta_blocks h')" for b
    unfolding unit_at_image_def
  proof (rule torn.persisted_range [OF t])
    show "unit_at g b + unit_len g \<le> length f" using delta_ok_units [OF d b] l by simp
    show "\<forall>w \<in> set [(hdr_at g slot, bs)]. fst w + length (snd w) \<le> unit_at g b \<or> unit_at g b + unit_len g \<le> fst w"
      using hdr_before_units [OF len(1), of g b] len(2) by simp
  qed
  then show ?thesis using d delta_verified_cong unfolding delta_ok_def by blast
qed

lemma other_slot: "1 - unat (x mod 2) = unat ((x + 1) mod 2)" for x :: u64
  using gen_parity [of x] gen_parity [of "x + 1"] gen_flip [of x] by linarith

text \<open>Adopting something else than the old commit is adopting the planned header, whole.\<close>

lemma told_batch_adopts:
  assumes r: "sync_ready f g h src cursor pending fresh" and len: "length f \<le> length f0"
    and cap: "length (plan_carried (live_floor src cursor) pending fresh) \<le> MAX_OPS"
    and t: "f' = run_batch (plan_batch src cursor pending fresh) f0 \<or> header_told g (plan_batch src cursor pending fresh) f0 f'"
    and p: "parse_header_slot f' g (unat ((sc_gen cursor + 1) mod 2)) (length f') = Some h'"
    and old: "\<And>bs0 bs. slot_bytes f0 g (unat ((sc_gen cursor + 1) mod 2)) = Some bs0 \<Longrightarrow>
      slot_bytes f' g (unat ((sc_gen cursor + 1) mod 2)) = Some bs \<Longrightarrow> take (ph_used h') bs0 = take (ph_used h') bs \<Longrightarrow> False"
  shows "h' = planned_hdr src cursor pending fresh \<and>
    get_range f' (hdr_at g (unat ((sc_gen cursor + 1) mod 2)))
      (hdr_at g (unat ((sc_gen cursor + 1) mod 2)) + length (plan_header src cursor pending fresh)) = Some (plan_header src cursor pending fresh)"
proof -
  let ?t = "unat ((sc_gen cursor + 1) mod 2)" and ?H = "plan_header src cursor pending fresh"
  obtain bs where bs: "slot_bytes f' g ?t = Some bs" and ph: "parse_header_at bs (hdr_at g ?t) g ?t (length f') = Some h'"
    using p by (auto simp: parse_slot_bytes)
  obtain post where w: "slot_bytes (run_batch (plan_batch src cursor pending fresh) f0) g ?t = Some (?H @ post)"
    using written_slot [OF r cap len] by blast
  have "sealed bs (ph_used h' - 4)" using parse_header_used(2) [OF ph] by (simp add: sealed_def)
  then obtain f1 bs1 where f1: "f1 \<in> {f0, run_batch (plan_batch src cursor pending fresh) f0}" "slot_bytes f1 g ?t = Some bs1"
    "take (ph_used h') bs1 = take (ph_used h') bs"
    using t bs ph gen_parity [of "sc_gen cursor + 1"] unfolding header_told_def by blast
  then have "f1 \<noteq> f0" using old bs by blast
  then have "take (ph_used h') (?H @ post) = take (ph_used h') bs" using f1 w by simp
  note u = planned_unique [OF r cap ph this]
  have "length ?H \<le> hdr_len g" by (rule plan_header_fits [OF r cap])
  then have "get_range f' (hdr_at g ?t) (hdr_at g ?t + length ?H) = Some (take (length ?H) bs)"
    using bs by (auto simp: slot_bytes_def get_range_Some min_def)
  then show ?thesis using u by simp
qed

theorem told_crash_adopts:
  assumes r: "sync_ready f g h src cursor pending fresh" and ch: "choose_header f g = Some h"
    and pl: "plan_incremental src cursor pending fresh clear = Some pl" and crash: "told_crash g (sp_batches pl) f f'"
    and ca: "clears_ahead f g (sc_gen cursor) clear" and nh: "no_hidden_header f g (sc_gen cursor) (length f')"
    and ne: "choose_header f' g \<noteq> Some h"
  shows "choose_header f' g = Some (planned_hdr src cursor pending fresh)"
    and "get_range f' (hdr_at g (unat ((sc_gen cursor + 1) mod 2)))
      (hdr_at g (unat ((sc_gen cursor + 1) mod 2)) + length (plan_header src cursor pending fresh)) = Some (plan_header src cursor pending fresh)"
proof -
  let ?t = "unat ((sc_gen cursor + 1) mod 2)" and ?B = "plan_batch src cursor pending fresh"
  have c: "commit_at f g h" and g: "src_geo src = g" and gen: "sc_gen cursor = ph_gen h" using r by (auto simp: sync_ready_def)
  have t2: "?t < 2" by (rule gen_parity)
  have tl: "hdr_at g ?t + hdr_len g \<le> length f"
    using hdr_before_units [OF t2, of g "ph_n h div BLOCK"] commit_file_length [OF c] by linarith
  note pf = plan_incremental_Some [OF pl]
  then have cap: "length (plan_carried (live_floor src cursor) pending fresh) \<le> MAX_OPS" by blast
  have "commit_at f' g h" by (rule sync_crash_keeps_commit [OF r pl told_crash_sync_crash [OF crash]])
  from choose_after [OF this] ne obtain h' where h': "choose_header f' g = Some h'" "delta_ok f' g h'"
    "parse_header_slot f' g ?t (length f') = Some h'" "unat (ph_gen h) < unat (ph_gen h')"
    unfolding other_slot gen by blast
  have lt: "sc_gen cursor < ph_gen h'" using h'(4) gen by (simp add: word_less_nat_alt)
  have stale: "parse_header_slot f g ?t (length f) = Some h'" "\<not> delta_ok f g h'" "\<exists>u. clear = Some u"
    if bs0: "slot_bytes f g ?t = Some bs0" and bs: "slot_bytes f' g ?t = Some bs" and same: "take (ph_used h') bs0 = take (ph_used h') bs" for bs0 bs
  proof -
    have "parse_header_at bs (hdr_at g ?t) g ?t (length f') = Some h'" using h'(3) bs by (simp add: parse_slot_bytes)
    from parse_header_same [OF this same order_refl] have "parse_header_slot f g ?t (length f') = Some h'" using bs0 by (simp add: parse_slot_bytes)
    then show s: "parse_header_slot f g ?t (length f) = Some h'" using nh t2 lt by (simp add: no_hidden_header_def)
    show "\<not> delta_ok f g h'" using s h'(4) by (intro ahead_unverified [OF c ch]) (simp_all only: other_slot gen)
    show "\<exists>u. clear = Some u" using ca t2 s lt by (auto simp: clears_ahead_def)
  qed
  have "h' = planned_hdr src cursor pending fresh \<and>
    get_range f' (hdr_at g ?t) (hdr_at g ?t + length (plan_header src cursor pending fresh)) = Some (plan_header src cursor pending fresh)"
  proof (cases clear)
    case None
    then have b: "sp_batches pl = [?B]" using pf by simp
    have "f' = run_batch ?B f \<or> header_told g ?B f f'" using crash unfolding b by (auto elim: told_crash_ConsE)
    then show ?thesis by (rule told_batch_adopts [OF r order_refl cap _ h'(3)]) (use stale(3) None in blast)
  next
    case (Some used)
    let ?C = "[(hdr_at g ?t, clear_bytes g (sc_gen cursor + 1) used)]"
    have b: "sp_batches pl = [?C, ?B]" using pf Some by (simp add: g)
    have cleared: False if "slot_bytes (run_batch ?C f) g ?t = Some bs0" "slot_bytes f' g ?t = Some bs" "take (ph_used h') bs0 = take (ph_used h') bs" for bs0 bs
    proof -
      have "parse_header_at bs (hdr_at g ?t) g ?t (length f') = Some h'" using h'(3) that(2) by (simp add: parse_slot_bytes)
      from parse_header_same [OF this that(3) order_refl] cleared_slot [OF tl refl that(1)] show False by simp
    qed
    consider "torn ?C f f'" "header_told g ?C f f'" | "f' = run_batch ?B (run_batch ?C f) \<or> header_told g ?B (run_batch ?C f) f'"
      using crash unfolding b by (auto elim!: told_crash_ConsE)
    then show ?thesis
    proof cases
      case 1
      obtain bs where bs: "slot_bytes f' g ?t = Some bs" "parse_header_at bs (hdr_at g ?t) g ?t (length f') = Some h'"
        using h'(3) by (auto simp: parse_slot_bytes)
      have "sealed bs (ph_used h' - 4)" using parse_header_used(2) [OF bs(2)] by (simp add: sealed_def)
      then obtain f0 bs0 where "f0 \<in> {f, run_batch ?C f}" "slot_bytes f0 g ?t = Some bs0" "take (ph_used h') bs0 = take (ph_used h') bs"
        using 1(2) bs t2 unfolding header_told_def by blast
      then have "slot_bytes f g ?t = Some bs0" "take (ph_used h') bs0 = take (ph_used h') bs" using cleared bs(1) by blast+
      moreover have "delta_ok f g h'" by (rule wipe_keeps_units [OF 1(1) t2 length_clear_bytes tl h'(2)])
      ultimately show ?thesis using stale(2) bs(1) by blast
    next
      case 2
      then show ?thesis by (rule told_batch_adopts [OF r run_batch_length_ge cap _ h'(3)]) (use cleared in blast)
    qed
  qed
  then show "choose_header f' g = Some (planned_hdr src cursor pending fresh)"
    and "get_range f' (hdr_at g ?t) (hdr_at g ?t + length (plan_header src cursor pending fresh)) = Some (plan_header src cursor pending fresh)"
    using h'(1) by simp_all
qed

section \<open>The adopted commit is the interrupted sync's, complete\<close>

lemma sync_crash_range:
  assumes "sync_crash bs f f'" "b \<le> length f" "\<forall>ws \<in> set bs. \<forall>w \<in> set ws. fst w + length (snd w) \<le> a \<or> b \<le> fst w"
  shows "get_range f' a b = get_range f a b"
  using assms
proof (induction rule: sync_crash.induct)
  case (crash_in b1 f f' bs)
  then show ?case by (intro torn.persisted_range [OF crash_in.hyps]) auto
next
  case (crash_later bs b1 f f')
  have "b \<le> length (run_batch b1 f)" using crash_later.prems(1) run_batch_length_ge [of f b1] by linarith
  then have "get_range f' a b = get_range (run_batch b1 f) a b" using crash_later.IH crash_later.prems(2) by simp
  also have "\<dots> = get_range f a b" using crash_later.prems by (intro full.persisted_range [OF refl]) auto
  finally show ?case .
qed simp

lemma told_units:
  assumes r: "sync_ready f g h src cursor pending fresh" and d: "delta_ok f' g (planned_hdr src cursor pending fresh)"
    and t: "units_told f' g src (sc_gen cursor + 1) (plan_blocks src cursor pending fresh)"
    and b: "b \<in> set (plan_blocks src cursor pending fresh)"
  shows "unit_at_image f' g b = Some (unit_bytes src b)"
proof -
  have "map (unit_at_image f' g) (plan_blocks src cursor pending fresh) = map Some (map (unit_bytes src) (plan_blocks src cursor pending fresh))"
    using d t unfolding planned_delta_iff [OF r] units_told_def by blast
  then show ?thesis using b by simp
qed

lemma landed_rows:
  assumes r: "sync_ready f g h src cursor pending fresh" and seq: "seq_source src"
    and agree: "clean_rows_agree f g h src pending fresh"
    and pl: "plan_incremental src cursor pending fresh clear = Some pl" and crash: "sync_crash (sp_batches pl) f f'"
    and hdr: "get_range f' (hdr_at g (unat ((sc_gen cursor + 1) mod 2)))
      (hdr_at g (unat ((sc_gen cursor + 1) mod 2)) + length (plan_header src cursor pending fresh)) = Some (plan_header src cursor pending fresh)"
    and units: "\<And>b. b \<in> set (plan_blocks src cursor pending fresh) \<Longrightarrow> unit_at_image f' g b = Some (unit_bytes src b)"
    and s: "s < ss_n_vectors src"
  shows "committed_row f' g (planned_hdr src cursor pending fresh) s = Some (row_record src s)"
proof -
  have fin: "finite pending" "finite fresh" and wf: "wf_source src" and g: "src_geo src = g" using r by (auto simp: sync_ready_def)
  let ?c = "plan_carried (live_floor src cursor) pending fresh"
  note pf = plan_incremental_Some [OF pl]
  then have cap: "length ?c \<le> MAX_OPS" by blast
  have same: "get_range f' a b = get_range f a b" if bl: "b \<le> length f"
    and out: "\<And>w. w \<in> set (plan_batch src cursor pending fresh) \<Longrightarrow> fst w + length (snd w) \<le> a \<or> b \<le> fst w"
    and a: "hdr_at g 2 \<le> a" for a b
  proof (rule sync_crash_range [OF crash bl])
    have "hdr_at g (unat ((sc_gen cursor + 1) mod 2)) + length (clear_bytes g (sc_gen cursor + 1) used) \<le> a" for used
      using hdr_at_mono [OF gen_parity, of g "sc_gen cursor + 1"] a length_clear_bytes [of g "sc_gen cursor + 1" used] by linarith
    then show "\<forall>ws \<in> set (sp_batches pl). \<forall>w \<in> set ws. fst w + length (snd w) \<le> a \<or> b \<le> fst w"
      using pf out by (cases clear) (simp_all add: g)
  qed
  have unit: "\<exists>u. unit_at_image f' g (s div BLOCK) = Some u \<and> unit_row g u (s mod BLOCK) = row_record src s"
    if b: "s div BLOCK < ss_n_vectors src div BLOCK" and no: "s \<notin> set (op_slots (planned_hdr src cursor pending fresh))"
  proof (cases "s div BLOCK \<in> set (plan_blocks src cursor pending fresh)")
    case True
    then show ?thesis using units unit_bytes_row [OF wf seq b] g by simp
  next
    case False
    show ?thesis
      by (rule unwritten_unit_row [OF r seq agree cap same b False]) (use no in \<open>simp_all add: planned_hdr_ops\<close>)
  qed
  have gb: "\<forall>(b, ss) \<in> set (plan_groups ?c). \<forall>s \<in> set ss. s < ss_n_vectors src"
    using plan_groups_blocks carried_facts(1) [OF fin] by blast
  have "committed_row f' (src_geo src) (planned_hdr src cursor pending fresh) s = Some (row_record src s)"
    by (rule committed_rows_of [OF wf _ _ gb _ s, where at = "hdr_at g (unat ((sc_gen cursor + 1) mod 2))" and gen = "sc_gen cursor + 1"])
      (use hdr unit in \<open>auto simp: planned_hdr_def plan_header_def Let_def g\<close>)
  then show ?thesis by (simp add: g)
qed

end
