(* ===== verification/SyncHistory.thy ===== *)
theory SyncHistory
  imports Image TornCommit
begin

text \<open>
  Whole histories: a full write followed by any number of incremental syncs, finished or cut by a
  power failure. The reachable states are an inductive predicate; its invariant says that the loader
  adopts the last sync that took effect and reads back exactly the rows it was given, and that the next
  sync may start. A cut leaves the old commit or, once the new header and its delta have landed, the
  new one (\<open>synced_cut\<close>).
\<close>

section \<open>Definitions\<close>

text \<open>Every row outside \<open>fresh\<close> that lies in a whole block of the last sync and is still held is the
  one of that sync. Rows of the old tail may change without being marked, as \<open>mark_dirty\<close> skips them.\<close>

definition rows_unchanged :: "sync_source \<Rightarrow> sync_source \<Rightarrow> nat set \<Rightarrow> bool" where
  "rows_unchanged src src' fresh \<longleftrightarrow>
     (\<forall>s < min (ss_n_vectors src div BLOCK * BLOCK) (ss_n_vectors src'). s \<notin> fresh \<longrightarrow>
        row_record src' s = row_record src s)"

text \<open>The superblock of the two states is the same: an incremental sync is planned only while the
  calibration the file was written with is the live one.\<close>

definition same_codec :: "sync_source \<Rightarrow> sync_source \<Rightarrow> bool" where
  "same_codec src src' \<longleftrightarrow>
     ss_boundaries src' = ss_boundaries src \<and> ss_centroids src' = ss_centroids src \<and>
     ss_tqplus_shift src' = ss_tqplus_shift src \<and> ss_tqplus_scale src' = ss_tqplus_scale src"

text \<open>Every stored scale is non-negative and below \<open>0x64000000\<close> (9.4e21), the bound being one
  byte: the encoder's magnitudes are capped far lower.\<close>

definition bounded_scales :: "sync_source \<Rightarrow> bool" where
  "bounded_scales src \<longleftrightarrow> (\<forall>v \<in> set (ss_scales src). unat v < 0x64000000)"

text \<open>The most significant byte of every scale in a committed unit obeys that bound.\<close>

definition scale_tops_ok :: "bytes \<Rightarrow> geo \<Rightarrow> nat \<Rightarrow> bool" where
  "scale_tops_ok f g n \<longleftrightarrow>
     (\<forall>b < n div BLOCK. \<forall>lane < BLOCK. f ! (unit_at g b + (BLOCK * row_bytes g + lane * 4 + 3)) < 0x64)"

text \<open>\<open>synced g f h cursor pending src\<close>: the file \<open>f\<close>, its header, the bound cursor and pending
  slots after some history whose last sync wrote \<open>src\<close>. A history starts with a
  full write and goes on with finished syncs and with syncs cut by a power failure. After a cut the
  loader adopts the old commit (\<open>synced_recover\<close>: the reopened index has the same cursor, with the
  calibration generation of the new process), or it does not, and then the interrupted sync has
  taken effect (\<open>synced_landed\<close>, for the cuts \<open>TornCommit\<close> describes).\<close>

inductive synced ::
  "geo \<Rightarrow> bytes \<Rightarrow> parsed_hdr \<Rightarrow> sync_cursor \<Rightarrow> nat set \<Rightarrow> sync_source \<Rightarrow> bool" for g :: geo where
  synced_full: "wf_source src \<Longrightarrow> seq_source src \<Longrightarrow> bounded_scales src \<Longrightarrow> src_geo src = g \<Longrightarrow>
    write_full_inner src calib_gen nonce = (f, cursor) \<Longrightarrow> length f \<le> usize_max \<Longrightarrow>
    synced g f (image_commit src) cursor {} src"
| synced_step: "synced g f h cursor pending src \<Longrightarrow>
    wf_source src' \<Longrightarrow> seq_source src' \<Longrightarrow> bounded_scales src' \<Longrightarrow> src_geo src' = g \<Longrightarrow>
    same_codec src src' \<Longrightarrow> finite fresh \<Longrightarrow> rows_unchanged src src' fresh \<Longrightarrow>
    plan_incremental src' cursor pending fresh clear = Some pl \<Longrightarrow>
    run_sync pl f = (f', cursor') \<Longrightarrow> length f' \<le> usize_max \<Longrightarrow> sc_gen cursor \<noteq> - 1 \<Longrightarrow>
    synced g f' (planned_hdr src' cursor pending fresh) cursor' (set (sp_carried pl)) src'"
| synced_recover: "synced g f h cursor pending src \<Longrightarrow>
    wf_source src' \<Longrightarrow> seq_source src' \<Longrightarrow> bounded_scales src' \<Longrightarrow> src_geo src' = g \<Longrightarrow>
    finite fresh \<Longrightarrow> rows_unchanged src src' fresh \<Longrightarrow>
    plan_incremental src' cursor pending fresh clear = Some pl \<Longrightarrow>
    sync_crash (sp_batches pl) f f' \<Longrightarrow> choose_header f' g = Some h \<Longrightarrow>
    synced g f' h (cursor\<lparr>sc_calib_gen := c\<rparr>) pending src"
| synced_landed: "synced g f h cursor pending src \<Longrightarrow>
    wf_source src' \<Longrightarrow> seq_source src' \<Longrightarrow> bounded_scales src' \<Longrightarrow> src_geo src' = g \<Longrightarrow>
    same_codec src src' \<Longrightarrow> finite fresh \<Longrightarrow> rows_unchanged src src' fresh \<Longrightarrow>
    plan_incremental src' cursor pending fresh clear = Some pl \<Longrightarrow>
    told_cut g src' cursor pending fresh clear f f' \<Longrightarrow> clears_ahead f g (sc_gen cursor) clear \<Longrightarrow> choose_header f' g \<noteq> Some h \<Longrightarrow>
    synced g f' (planned_hdr src' cursor pending fresh) ((sp_new_cursor pl)\<lparr>sc_calib_gen := c\<rparr>)
      (set (sp_carried pl)) src'"

section \<open>Invariant\<close>

definition synced_inv ::
  "geo \<Rightarrow> bytes \<Rightarrow> parsed_hdr \<Rightarrow> sync_cursor \<Rightarrow> nat set \<Rightarrow> sync_source \<Rightarrow> bool" where
  "synced_inv g f h cursor pending src \<longleftrightarrow>
     wf_source src \<and> commit_at f g h \<and> detached h \<and> choose_header f g = Some h \<and>
     ph_n h = ss_n_vectors src \<and> pending = set (op_slots h) \<and> card pending \<le> MAX_OPS \<and>
     sc_gen cursor = ph_gen h \<and> unat (sc_n_synced cursor) = ph_n h \<and> ph_n h < 32 * 4294967296 \<and>
     (\<forall>s < ss_n_vectors src. committed_row f g h s = Some (row_record src s)) \<and>
     distinct (op_slots h) \<and> src_geo src = g \<and>
     get_range f 0 (sb_len g) = Some (superblock src (sc_nonce cursor)) \<and>
     bounded_scales src \<and> scale_tops_ok f g (ph_n h)"

section \<open>What no write of a plan can damage\<close>

lemma same_codec_superblock:
  assumes "same_codec src src'" "src_geo src' = src_geo src"
  shows "superblock src' nonce = superblock src nonce"
proof -
  have "ss_version src' = ss_version src" "ss_bit_width src' = ss_bit_width src" "ss_kind src' = ss_kind src"
    "ss_layout src' = ss_layout src" "ss_dim src' = ss_dim src"
    using src_geo_simps [of src'] src_geo_simps [of src] assms(2) by metis+
  then show ?thesis using assms(1) by (simp add: superblock_def same_codec_def Let_def)
qed

text \<open>A write behind the superblock whose bytes respect the scale bound.\<close>

definition tame_write :: "geo \<Rightarrow> nat \<times> bytes \<Rightarrow> bool" where
  "tame_write g w \<longleftrightarrow> sb_len g \<le> fst w \<and>
     (\<forall>b lane. lane < BLOCK \<longrightarrow> in_op w (unit_at g b + (BLOCK * row_bytes g + lane * 4 + 3)) \<longrightarrow>
        snd w ! (unit_at g b + (BLOCK * row_bytes g + lane * 4 + 3) - fst w) < 0x64)"

context persistence
begin

lemma superblock_preserved:
  assumes "persisted ops f f'" "\<forall>w \<in> set ops. tame_write g w" "get_range f 0 (sb_len g) = Some sb"
  shows "get_range f' 0 (sb_len g) = Some sb"
  using persisted_range [OF assms(1), of "sb_len g" 0] assms(2,3)
  by (auto simp: tame_write_def get_range_Some)

lemma scale_tops_preserved:
  assumes p: "persisted ops f f'" and t: "\<forall>w \<in> set ops. tame_write g w" and ok: "scale_tops_ok f g n"
    and len: "unit_at g (n div BLOCK) \<le> length f"
  shows "scale_tops_ok f' g n"
  unfolding scale_tops_ok_def
proof (intro allI impI)
  fix b lane :: nat
  assume b: "b < n div BLOCK" and lane: "lane < BLOCK"
  let ?i = "unit_at g b + (BLOCK * row_bytes g + lane * 4 + 3)"
  have "BLOCK * row_bytes g + lane * 4 + 3 < unit_len g" using lane by (simp add: unit_len_def)
  then have "?i < length f" using unit_at_mono [OF b, of g] len by linarith
  from persisted_byte [OF p this] show "f' ! ?i < 0x64"
    using ok b lane t unfolding scale_tops_ok_def tame_write_def by auto
qed

end

lemma scale_top_byte:
  assumes "unat (v :: f32) < 0x64000000"
  shows "u32_to_le v ! 3 < 0x64"
proof -
  have "u32_to_le v ! 3 = of_nat (unat v div 256 ^ 3)"
    by (simp add: u32_to_le_def le_bytes_def)
  moreover have "unat v div 256 ^ 3 < 0x64" using assms by (simp add: div_less_iff_less_mult)
  ultimately show ?thesis by (simp add: word_less_nat_alt unat_of_nat_u8)
qed

lemma unit_scale_byte:
  assumes wf: "wf_source src" and bs: "bounded_scales src" and b: "b < ss_n_vectors src div BLOCK"
    and lane: "lane < BLOCK"
  shows "unit_bytes src b ! (BLOCK * row_bytes (src_geo src) + lane * 4 + 3) < 0x64"
proof -
  have "Suc b * BLOCK \<le> ss_n_vectors src"
    using b by (meson Suc_leI div_le_dividend le_trans less_eq_div_iff_mult_less_eq zero_less_numeral)
  then have r: "b * BLOCK + lane < ss_n_vectors src" using lane by simp
  have lc: "length (ss_unit_codes src (b * BLOCK) (b * BLOCK + BLOCK)) = BLOCK * row_bytes (src_geo src)"
    using wf_sourceD(2) [OF wf b] .
  have ls: "length (unit_scales src (b * BLOCK)) = BLOCK * 4"
    by (simp add: unit_scales_def length_concat_const)
  have "lane * 4 + 3 < BLOCK * 4" using lane by simp
  then have "unit_bytes src b ! (BLOCK * row_bytes (src_geo src) + lane * 4 + 3)
      = unit_scales src (b * BLOCK) ! (lane * 4 + 3)"
    by (simp add: unit_bytes_def nth_append Let_def lc ls)
  also have "\<dots> = u32_to_le (ss_scales src ! (b * BLOCK + lane)) ! 3"
    unfolding unit_scales_def using lane r by (subst nth_concat_const) auto
  finally show ?thesis
    using scale_top_byte [of "ss_scales src ! (b * BLOCK + lane)"] bs r wf_sourceD(3) [OF wf]
    by (simp add: bounded_scales_def)
qed

lemma header_write_tame:
  assumes "slot < 2" and "length bs \<le> hdr_len g"
  shows "tame_write g (hdr_at g slot, bs)"
proof -
  have "hdr_at g slot + length bs \<le> unit_at g b" for b
    using hdr_before_units [OF assms(1), of g b] assms(2) by linarith
  then have out: "\<not> in_op (hdr_at g slot, bs) (unit_at g b + k)" for b k
    by (meson in_op_simp not_le trans_le_add1)
  show ?thesis
    unfolding tame_write_def using out by (auto simp: hdr_at_def simp del: in_op_simp)
qed

lemma unit_write_tame:
  assumes wf: "wf_source src" and bs: "bounded_scales src" and b: "b < ss_n_vectors src div BLOCK"
    and g: "src_geo src = g"
  shows "tame_write g (unit_at g b, unit_bytes src b)"
  unfolding tame_write_def fst_conv snd_conv
proof (intro conjI allI impI)
  show "sb_len g \<le> unit_at g b" by (simp add: unit_at_def hdr_at_def)
  fix c lane :: nat
  assume lane: "lane < BLOCK"
    and i: "in_op (unit_at g b, unit_bytes src b) (unit_at g c + (BLOCK * row_bytes g + lane * 4 + 3))"
  have k: "BLOCK * row_bytes g + lane * 4 + 3 < unit_len g" using lane by (simp add: unit_len_def)
  have "c = b"
    using i k length_unit_bytes [OF wf b] g unit_at_disjoint [of c b g] by fastforce
  then show "unit_bytes src b ! (unit_at g c + (BLOCK * row_bytes g + lane * 4 + 3) - unit_at g b) < 0x64"
    using unit_scale_byte [OF wf bs b lane] g by simp
qed

lemma plan_writes_tame:
  assumes r: "sync_ready f g h src cursor pending fresh" and bs: "bounded_scales src"
    and pl: "plan_incremental src cursor pending fresh clear = Some pl"
  shows "\<forall>b \<in> set (sp_batches pl). \<forall>w \<in> set b. tame_write g w"
proof -
  have fin: "finite pending" and wf: "wf_source src" and g: "src_geo src = g" using r by (auto simp: sync_ready_def)
  have cap: "length (plan_carried (live_floor src cursor) pending fresh) \<le> MAX_OPS"
    using plan_incremental_Some [OF pl] by blast
  note hdr = header_write_tame [OF gen_parity [of "sc_gen cursor + 1"] plan_header_fits [OF r cap]]
    and clr = header_write_tame [OF gen_parity [of "sc_gen cursor + 1"] length_clear_bytes]
  have "tame_write g (unit_at g b, unit_bytes src b)" if "b \<in> set (plan_blocks src cursor pending fresh)" for b
    using unit_write_tame [OF wf bs plan_blocks_bound [OF fin that] g] .
  then have "\<forall>w \<in> set (plan_batch src cursor pending fresh). tame_write g w"
    using hdr by (auto simp: plan_batch_def Let_def g)
  then show ?thesis using plan_incremental_Some [OF pl] clr by (cases clear) (simp_all add: g)
qed

lemma sync_crash_tame:
  assumes "sync_crash bs f f'" and "\<forall>b \<in> set bs. \<forall>w \<in> set b. tame_write g w"
    and "get_range f 0 (sb_len g) = Some sb" and "scale_tops_ok f g n" and "unit_at g (n div BLOCK) \<le> length f"
  shows "get_range f' 0 (sb_len g) = Some sb \<and> scale_tops_ok f' g n"
  using assms
proof (induction rule: sync_crash.induct)
  case (crash_in b f f' bs)
  have t: "\<forall>w \<in> set b. tame_write g w" using crash_in.prems(1) by simp
  from torn.superblock_preserved [OF crash_in.hyps t crash_in.prems(2)]
    torn.scale_tops_preserved [OF crash_in.hyps t crash_in.prems(3,4)] show ?case by blast
next
  case (crash_later bs b f f')
  have t: "\<forall>w \<in> set b. tame_write g w" using crash_later.prems(1) by simp
  have len: "unit_at g (n div BLOCK) \<le> length (run_batch b f)"
    using crash_later.prems(4) run_batch_length_ge [of f b] by linarith
  show ?case
    using crash_later.IH [OF _ full.superblock_preserved [OF refl t crash_later.prems(2)]
      full.scale_tops_preserved [OF refl t crash_later.prems(3,4)] len] crash_later.prems(1) by simp
next
  case (crash_done f)
  then show ?case by simp
qed

section \<open>The invariant\<close>

lemma synced_inv_ready:
  assumes "synced_inv g f h cursor pending src" and "wf_source src'" "src_geo src' = g" "finite fresh"
  shows "sync_ready f g h src' cursor pending fresh"
  using assms unfolding synced_inv_def sync_ready_def by blast

lemma synced_inv_clean:
  assumes "synced_inv g f h cursor pending src" and "rows_unchanged src src' fresh"
  shows "clean_rows_agree f g h src' pending fresh"
  using assms div_mult_mod_eq [of "ss_n_vectors src" BLOCK]
  by (auto simp: synced_inv_def clean_rows_agree_def rows_unchanged_def)

lemma image_superblock:
  assumes wf: "wf_source src"
  shows "get_range (write_image src gen nonce) 0 (sb_len (src_geo src)) = Some (superblock src nonce)"
  by (rule get_range_at [of _ "[]" _ "image_hdr src gen @ replicate (hdr_len (src_geo src) - length (image_hdr src gen)) 0
      @ replicate (hdr_len (src_geo src)) 0 @ concat (map (unit_bytes src) [0..<ss_n_vectors src div BLOCK])"])
    (simp_all add: write_image_eq length_superblock [OF wf])

lemma unit_image_tops:
  assumes "\<And>b. b < n div BLOCK \<Longrightarrow> \<exists>u. unit_at_image f g b = Some u \<and>
      (\<forall>lane < BLOCK. u ! (BLOCK * row_bytes g + lane * 4 + 3) < 0x64)"
  shows "scale_tops_ok f g n"
  unfolding scale_tops_ok_def
proof (intro allI impI)
  fix b lane :: nat
  assume b: "b < n div BLOCK" and lane: "lane < BLOCK"
  obtain u where u: "unit_at_image f g b = Some u" and t: "u ! (BLOCK * row_bytes g + lane * 4 + 3) < 0x64"
    using assms [OF b] lane by blast
  have "BLOCK * row_bytes g + lane * 4 + 3 < unit_len g" using lane by (simp add: unit_len_def)
  then have "u ! (BLOCK * row_bytes g + lane * 4 + 3) = f ! (unit_at g b + (BLOCK * row_bytes g + lane * 4 + 3))"
    using u by (auto simp: unit_at_image_def get_range_Some)
  then show "f ! (unit_at g b + (BLOCK * row_bytes g + lane * 4 + 3)) < 0x64" using t by simp
qed

lemma synced_inv_full:
  assumes wf: "wf_source src" and seq: "seq_source src" and bs: "bounded_scales src" and g: "src_geo src = g"
    and w: "write_full_inner src calib_gen nonce = (f, cursor)" and max: "length f \<le> usize_max"
  shows "synced_inv g f (image_commit src) cursor {} src"
proof -
  have f: "f = write_image src 0 nonce" and c: "cursor = snd (write_full_inner src calib_gen nonce)"
    using w by (auto simp: write_full_inner_def)
  note max = max [unfolded f]
  have "scale_tops_ok (write_image src 0 nonce) g (ss_n_vectors src)"
    using image_unit [OF wf] unit_scale_byte [OF wf bs] g by (intro unit_image_tops) simp
  then show ?thesis
    using wf image_commit_at [OF wf max] image_choose [OF wf max] image_rows [OF wf seq]
      image_commit_detached wf_sourceD(4) [OF wf] g image_superblock [OF wf] bs
    by (simp add: synced_inv_def image_commit_simps f c write_full_inner_def unat_of_nat_u64)
qed

lemma finished_tops:
  assumes inv: "synced_inv g f h cursor pending src" and r: "sync_ready f g h src' cursor pending fresh"
    and bs: "bounded_scales src'" and pl: "plan_incremental src' cursor pending fresh clear = Some pl"
  shows "scale_tops_ok (fst (run_sync pl f)) g (ss_n_vectors src')"
    and "get_range (fst (run_sync pl f)) 0 (sb_len g) = Some (superblock src (sc_nonce cursor))"
proof -
  obtain ops where ops: "fst (run_sync pl f) = run_batch ops f" "set ops = (\<Union>b \<in> set (sp_batches pl). set b)"
    using pl by (rule run_sync_full)
  have t: "\<forall>w \<in> set ops. tame_write g w" using plan_writes_tame [OF r bs pl] ops(2) by auto
  have fin: "finite pending" and wf: "wf_source src'" and g: "src_geo src' = g" and c: "commit_at f g h"
    and syn: "unat (sc_n_synced cursor) = ph_n h"
    using r by (auto simp: sync_ready_def)
  show "get_range (fst (run_sync pl f)) 0 (sb_len g) = Some (superblock src (sc_nonce cursor))"
    using full.superblock_preserved [OF ops(1) t] inv by (simp add: synced_inv_def)
  have old: "scale_tops_ok (fst (run_sync pl f)) g (ph_n h)"
    by (rule full.scale_tops_preserved [OF ops(1) t _ commit_file_length [OF c]])
      (use inv [unfolded synced_inv_def] in blast)
  have new: "\<forall>lane < BLOCK. fst (run_sync pl f) ! (unit_at g b + (BLOCK * row_bytes g + lane * 4 + 3)) < 0x64"
    if b: "b < ss_n_vectors src' div BLOCK" "\<not> b < ph_n h div BLOCK" for b
  proof -
    have m: "b \<in> set (plan_blocks src' cursor pending fresh)" using b fin syn by (simp add: set_plan_blocks)
    note u = finished_unit [OF r pl m]
    show ?thesis
    proof (intro allI impI)
      fix lane :: nat
      assume lane: "lane < BLOCK"
      have "BLOCK * row_bytes g + lane * 4 + 3 < unit_len g" using lane by (simp add: unit_len_def)
      then have "unit_bytes src' b ! (BLOCK * row_bytes g + lane * 4 + 3)
          = fst (run_sync pl f) ! (unit_at g b + (BLOCK * row_bytes g + lane * 4 + 3))"
        using u by (auto simp: unit_at_image_def get_range_Some)
      then show "fst (run_sync pl f) ! (unit_at g b + (BLOCK * row_bytes g + lane * 4 + 3)) < 0x64"
        using unit_scale_byte [OF wf bs b(1) lane] g by simp
    qed
  qed
  show "scale_tops_ok (fst (run_sync pl f)) g (ss_n_vectors src')"
    using old new unfolding scale_tops_ok_def by blast
qed

lemma synced_inv_step:
  assumes inv: "synced_inv g f h cursor pending src"
    and wf: "wf_source src'" and seq: "seq_source src'" and bs: "bounded_scales src'" and g: "src_geo src' = g"
    and codec: "same_codec src src'" and fin: "finite fresh"
    and rows: "rows_unchanged src src' fresh"
    and pl: "plan_incremental src' cursor pending fresh clear = Some pl"
    and run: "run_sync pl f = (f', cursor')" and max: "length f' \<le> usize_max" and gen: "sc_gen cursor \<noteq> - 1"
  shows "synced_inv g f' (planned_hdr src' cursor pending fresh) cursor' (set (sp_carried pl)) src'"
proof -
  have r: "sync_ready f g h src' cursor pending fresh" using inv wf g fin by (rule synced_inv_ready)
  have f': "f' = fst (run_sync pl f)" and c': "cursor' = sp_new_cursor pl"
    using run by (auto simp: run_sync_def)
  have h: "ph_gen h \<noteq> - 1" and finp: "finite pending"
    using inv gen by (auto simp: synced_inv_def)
  note fin' = sync_finished [OF r pl max [unfolded f'] h, folded f']
  note pf = plan_incremental_Some [OF pl]
  have car: "card (set (sp_carried pl)) \<le> MAX_OPS"
    using pf card_length order_trans by metis
  have rs: "committed_row f' g (planned_hdr src' cursor pending fresh) s = Some (row_record src' s)"
    if "s < ss_n_vectors src'" for s
    unfolding f' using sync_finished_rows [OF r seq synced_inv_clean [OF inv rows] pl that] .
  have dist: "distinct (plan_carried (live_floor src' cursor) pending fresh)" by (simp add: plan_carried_def)
  have sb: "superblock src' nonce = superblock src nonce" for nonce
    using codec g inv by (intro same_codec_superblock) (auto simp: synced_inv_def)
  show ?thesis
    unfolding synced_inv_def
    using wf fin' planned_hdr_detached [OF finp fin] pf car rs wf_sourceD(4) [OF wf] dist g bs
      finished_tops [OF inv r bs pl]
    by (simp add: planned_hdr_simps planned_hdr_ops c' unat_of_nat_u64 f' sb)
qed

text \<open>A power cut during the next sync.\<close>

lemma synced_inv_crash:
  assumes inv: "synced_inv g f h cursor pending src"
    and wf: "wf_source src'" and seq: "seq_source src'" and bs: "bounded_scales src'" and g: "src_geo src' = g"
    and fin: "finite fresh" and rows: "rows_unchanged src src' fresh"
    and pl: "plan_incremental src' cursor pending fresh clear = Some pl"
    and crash: "sync_crash (sp_batches pl) f f'"
  shows "commit_at f' g h \<and> (\<forall>k < ss_n_vectors src. committed_row f' g h k = Some (row_record src k)) \<and>
    get_range f' 0 (sb_len g) = Some (superblock src (sc_nonce cursor)) \<and> scale_tops_ok f' g (ph_n h)"
proof -
  have r: "sync_ready f g h src' cursor pending fresh" using inv wf g fin by (rule synced_inv_ready)
  have c: "commit_at f g h" using r by (simp add: sync_ready_def)
  have "commit_at f' g h \<and> (\<forall>k. committed_row f' g h k = committed_row f g h k)"
    by (rule sync_crash_rows [OF crash plan_writes_row_safe [OF r seq synced_inv_clean [OF inv rows] pl] c]) simp
  moreover have "get_range f' 0 (sb_len g) = Some (superblock src (sc_nonce cursor)) \<and> scale_tops_ok f' g (ph_n h)"
    by (rule sync_crash_tame [OF crash plan_writes_tame [OF r bs pl] _ _ commit_file_length [OF c]])
      (use inv in \<open>auto simp: synced_inv_def\<close>)
  ultimately show ?thesis using inv by (simp add: synced_inv_def)
qed

lemma synced_inv_recover:
  assumes inv: "synced_inv g f h cursor pending src"
    and "wf_source src'" "seq_source src'" "bounded_scales src'" "src_geo src' = g"
    and "finite fresh" "rows_unchanged src src' fresh"
    and "plan_incremental src' cursor pending fresh clear = Some pl"
    and "sync_crash (sp_batches pl) f f'" and h: "choose_header f' g = Some h"
  shows "synced_inv g f' h (cursor\<lparr>sc_calib_gen := c\<rparr>) pending src"
proof -
  note c = synced_inv_crash [OF assms(1-9)]
  show ?thesis unfolding synced_inv_def using inv [unfolded synced_inv_def] c h by (elim conjE) (intro conjI; simp)
qed

lemma landed_tops:
  assumes old: "scale_tops_ok f' g (ph_n h)" and r: "sync_ready f g h src' cursor pending fresh" and bs: "bounded_scales src'"
    and units: "\<And>b. b \<in> set (plan_blocks src' cursor pending fresh) \<Longrightarrow> unit_at_image f' g b = Some (unit_bytes src' b)"
  shows "scale_tops_ok f' g (ss_n_vectors src')"
proof -
  have fin: "finite pending" and wf: "wf_source src'" and g: "src_geo src' = g" and syn: "unat (sc_n_synced cursor) = ph_n h"
    using r by (auto simp: sync_ready_def)
  have "f' ! (unit_at g b + (BLOCK * row_bytes g + lane * 4 + 3)) < 0x64"
    if b: "b < ss_n_vectors src' div BLOCK" "\<not> b < ph_n h div BLOCK" and lane: "lane < BLOCK" for b lane
  proof -
    have "b \<in> set (plan_blocks src' cursor pending fresh)" using b fin syn by (simp add: set_plan_blocks)
    then have "get_range f' (unit_at g b) (unit_at g b + unit_len g) = Some (unit_bytes src' b)"
      using units by (simp add: unit_at_image_def)
    moreover have "BLOCK * row_bytes g + lane * 4 + 3 < unit_len g" using lane by (simp add: unit_len_def)
    ultimately have "unit_bytes src' b ! (BLOCK * row_bytes g + lane * 4 + 3) = f' ! (unit_at g b + (BLOCK * row_bytes g + lane * 4 + 3))"
      by (auto simp: get_range_Some)
    then show ?thesis using unit_scale_byte [OF wf bs b(1) lane] g by simp
  qed
  then show ?thesis using old unfolding scale_tops_ok_def by blast
qed

lemma landed_commit:
  assumes r: "sync_ready f g h src cursor pending fresh" and c: "commit_at f' g h"
    and ch: "choose_header f' g = Some (planned_hdr src cursor pending fresh)"
  shows "commit_at f' g (planned_hdr src cursor pending fresh)"
proof -
  have gen: "sc_gen cursor = ph_gen h" using r by (simp add: sync_ready_def)
  have "planned_hdr src cursor pending fresh \<noteq> h" using planned_hdr_simps(1) [of src cursor pending fresh] gen by auto
  with choose_after [OF c] ch have "delta_ok f' g (planned_hdr src cursor pending fresh)"
    "parse_header_slot f' g (1 - unat (ph_gen h mod 2)) (length f') = Some (planned_hdr src cursor pending fresh)"
    by auto
  then show ?thesis unfolding commit_at_def planned_hdr_simps(1) other_slot gen by blast
qed

lemma synced_inv_landed:
  assumes inv: "synced_inv g f h cursor pending src"
    and wf: "wf_source src'" and seq: "seq_source src'" and bs: "bounded_scales src'" and g: "src_geo src' = g"
    and codec: "same_codec src src'" and fin: "finite fresh" and rows: "rows_unchanged src src' fresh"
    and pl: "plan_incremental src' cursor pending fresh clear = Some pl"
    and cut: "told_cut g src' cursor pending fresh clear f f'" and ca: "clears_ahead f g (sc_gen cursor) clear"
    and ne: "choose_header f' g \<noteq> Some h"
  shows "synced_inv g f' (planned_hdr src' cursor pending fresh) ((sp_new_cursor pl)\<lparr>sc_calib_gen := c\<rparr>) (set (sp_carried pl)) src'"
proof -
  have r: "sync_ready f g h src' cursor pending fresh" using inv wf g fin by (rule synced_inv_ready)
  have ch: "choose_header f g = Some h" and finp: "finite pending" using inv by (auto simp: synced_inv_def)
  note t = told_cut_facts [OF cut pl]
  note pf = plan_incremental_Some [OF pl]
  note old = synced_inv_crash [OF inv wf seq bs g fin rows pl told_crash_sync_crash [OF t(1)]]
  note new = told_crash_adopts [OF r ch pl t(1) ca t(3) ne]
  have cm: "commit_at f' g (planned_hdr src' cursor pending fresh)" by (rule landed_commit [OF r _ new(1)]) (use old in blast)
  then have d: "delta_ok f' g (planned_hdr src' cursor pending fresh)" by (simp add: commit_at_def)
  note units = told_units [OF r d t(2)]
  have car: "card (set (sp_carried pl)) \<le> MAX_OPS" using pf card_length order_trans by metis
  have rs: "committed_row f' g (planned_hdr src' cursor pending fresh) s = Some (row_record src' s)" if "s < ss_n_vectors src'" for s
    by (rule landed_rows [OF r seq synced_inv_clean [OF inv rows] pl told_crash_sync_crash [OF t(1)] new(2) units that])
  have tops: "scale_tops_ok f' g (ss_n_vectors src')" by (rule landed_tops [OF _ r bs units]) (use old in blast)
  have dist: "distinct (plan_carried (live_floor src' cursor) pending fresh)" by (simp add: plan_carried_def)
  have sb: "superblock src' nonce = superblock src nonce" for nonce
    using codec g inv by (intro same_codec_superblock) (auto simp: synced_inv_def)
  show ?thesis
    unfolding synced_inv_def
    using wf cm new(1) planned_hdr_detached [OF finp fin] pf car rs wf_sourceD(4) [OF wf] dist g bs tops old
    by (simp add: planned_hdr_simps planned_hdr_ops unat_of_nat_u64 sb)
qed

lemma synced_invariant:
  "synced g f h cursor pending src \<Longrightarrow> synced_inv g f h cursor pending src"
proof (induction rule: synced.induct)
  case (synced_full src calib_gen nonce f cursor)
  then show ?case by (rule synced_inv_full)
next
  case (synced_step f h cursor pending src src' fresh clear pl f' cursor')
  show ?case by (rule synced_inv_step [OF synced_step.IH synced_step.hyps(2-)])
next
  case (synced_recover f h cursor pending src src' fresh clear pl f' c)
  show ?case by (rule synced_inv_recover [OF synced_recover.IH synced_recover.hyps(2-)])
next
  case (synced_landed f h cursor pending src src' fresh clear pl f' c)
  show ?case by (rule synced_inv_landed [OF synced_landed.IH synced_landed.hyps(2-)])
qed

lemmas synced_crash = synced_inv_crash [OF synced_invariant]

text \<open>A told cut leaves one of two histories, and the header the loader adopts says which.\<close>

lemma synced_cut:
  assumes s: "synced g f h cursor pending src"
    and wf: "wf_source src'" "seq_source src'" "bounded_scales src'" "src_geo src' = g"
    and codec: "same_codec src src'" and rows: "finite fresh" "rows_unchanged src src' fresh"
    and pl: "plan_incremental src' cursor pending fresh clear = Some pl"
    and cut: "told_cut g src' cursor pending fresh clear f f'" and ca: "clears_ahead f g (sc_gen cursor) clear"
  shows "(choose_header f' g = Some h \<longrightarrow> synced g f' h (cursor\<lparr>sc_calib_gen := c\<rparr>) pending src) \<and>
    (choose_header f' g \<noteq> Some h \<longrightarrow>
      synced g f' (planned_hdr src' cursor pending fresh) ((sp_new_cursor pl)\<lparr>sc_calib_gen := c\<rparr>) (set (sp_carried pl)) src')"
  using synced_recover [OF s wf rows pl told_crash_sync_crash [OF told_cut_facts(1) [OF cut pl]]]
    synced_landed [OF s wf codec rows pl cut ca] by blast

end
