(* ===== verification/LoadImage.thy ===== *)
theory LoadImage
  imports LoadRows SyncHistory
begin

text \<open>
  The superblock read back: a written superblock is accepted by \<open>parse_superblock\<close> with the
  source's own geometry, so the header selection and the unit geometry of the loader are those
  of the sync. Together with \<open>load_image_rows\<close> this turns the statements about commits into
  statements about \<open>load_image\<close>.
\<close>

section \<open>Sources whose superblock loads\<close>

definition loadable :: "numerics \<Rightarrow> sync_source \<Rightarrow> bool" where
  "loadable nm src \<longleftrightarrow>
     wf_source src \<and>
     (ss_layout src = LAYOUT_SEQ \<or>
      ss_layout src = LAYOUT_PLANES \<and> ss_bit_width src \<noteq> 3 \<and>
        (ss_dim src = 0 \<or> planes_geom_ok (ss_bit_width src) (row_bytes (src_geo src)))) \<and>
     (ss_dim src \<noteq> 0 \<longrightarrow>
        nm_codebook nm (ss_bit_width src) (ss_dim src) = (ss_boundaries src, ss_centroids src)) \<and>
     (\<forall>v \<in> set (ss_boundaries src @ ss_centroids src). \<not> f32_is_nan v) \<and>
     (ss_tqplus_shift src = [] \<or> length (ss_tqplus_shift src) = ss_dim src) \<and>
     validate_calibration nm (ss_tqplus_shift src) (ss_tqplus_scale src) = Inr ()"

section \<open>Reading float runs\<close>

lemma f32s_to_le_simps: "f32s_to_le [] = []" "f32s_to_le (v # vs) = u32_to_le v @ f32s_to_le vs"
  by (simp_all add: f32s_to_le_def)

lemma f32s_to_le_append: "f32s_to_le (xs @ ys) = f32s_to_le xs @ f32s_to_le ys"
  by (simp add: f32s_to_le_def)

lemma match_f32s_run:
  assumes "\<forall>v \<in> set vs. \<not> f32_is_nan v"
  shows "match_f32s (pre @ f32s_to_le vs @ post) vs (length pre) = Inr (length pre + 4 * length vs)"
  using assms
proof (induction vs arbitrary: pre)
  case Nil
  then show ?case by simp
next
  case (Cons v vs)
  let ?raw = "pre @ f32s_to_le (v # vs) @ post"
  have "read_u32 ?raw (length pre) = Some v"
    by (rule read_u32_at [of _ pre _ "f32s_to_le vs @ post"]) (simp_all add: f32s_to_le_simps)
  moreover have "match_f32s ((pre @ u32_to_le v) @ f32s_to_le vs @ post) vs (length (pre @ u32_to_le v))
      = Inr (length (pre @ u32_to_le v) + 4 * length vs)"
    using Cons.prems by (intro Cons.IH) simp
  then have "match_f32s ?raw vs (length pre + 4) = Inr (length pre + 4 + 4 * length vs)"
    by (simp add: f32s_to_le_simps)
  ultimately show ?case using Cons.prems by (simp add: rd_u32_def f32_eq_def)
qed

lemma read_f32s_run: "read_f32s (pre @ f32s_to_le vs @ post) (length pre) (length vs) = Inr vs"
proof (induction vs arbitrary: pre)
  case Nil
  then show ?case by simp
next
  case (Cons v vs)
  let ?raw = "pre @ f32s_to_le (v # vs) @ post"
  have "read_u32 ?raw (length pre) = Some v"
    by (rule read_u32_at [of _ pre _ "f32s_to_le vs @ post"]) (simp_all add: f32s_to_le_simps)
  moreover have "read_f32s ?raw (length pre + 4) (length vs) = Inr vs"
    using Cons.IH [of "pre @ u32_to_le v"] by (simp add: f32s_to_le_simps)
  ultimately show ?case by (simp add: rd_u32_def)
qed

lemma match_f32s_at:
  "raw = pre @ f32s_to_le vs @ post \<Longrightarrow> at = length pre \<Longrightarrow> \<forall>v \<in> set vs. \<not> f32_is_nan v \<Longrightarrow>
    match_f32s raw vs at = Inr (at + 4 * length vs)"
  using match_f32s_run by simp

lemma read_f32s_at:
  "raw = pre @ f32s_to_le vs @ post \<Longrightarrow> at = length pre \<Longrightarrow> k = length vs \<Longrightarrow> read_f32s raw at k = Inr vs"
  using read_f32s_run by simp

section \<open>The superblock's fields\<close>

definition sb_head :: "sync_source \<Rightarrow> bytes" where
  "sb_head src =
     (if ss_version src = 8 then V8_MAGIC @ [V8_VERSION, of_nat (ss_bit_width src), ss_kind src, ss_layout src]
      else V7_MAGIC @ [V7_VERSION, of_nat (ss_bit_width src), ss_kind src])"

definition sb_body :: "sync_source \<Rightarrow> u64 \<Rightarrow> bytes" where
  "sb_body src nonce =
     sb_head src @ u32_to_le (of_nat (ss_dim src)) @ u64_to_le nonce @ u32_to_le (of_nat MAX_OPS)
       @ f32s_to_le (ss_boundaries src @ ss_centroids src)
       @ u32_to_le (of_nat (length (ss_tqplus_shift src)))
       @ f32s_to_le (ss_tqplus_shift src) @ f32s_to_le (ss_tqplus_scale src)"

lemma superblock_eq: "superblock src nonce = sb_body src nonce @ u32_to_le (crc32 (sb_body src nonce))"
  by (simp add: superblock_def sb_body_def sb_head_def f32s_to_le_append Let_def)

lemma length_sb_head:
  "wf_source src \<Longrightarrow> length (sb_head src) + 16 = sb_fixed_of (ss_version src)"
  using wf_sourceD(9) [of src] by (auto simp: sb_head_def sb_fixed_of_def V7_MAGIC_def V8_MAGIC_def)

lemma sb_head_bytes:
  assumes wf: "wf_source src" and raw: "raw = sb_head src @ rest"
  shows "take 4 raw = (if ss_version src = 8 then V8_MAGIC else V7_MAGIC)"
    and "raw ! 4 = (if ss_version src = 8 then V8_VERSION else V7_VERSION)"
    and "unat (raw ! 5) = ss_bit_width src" and "raw ! 6 = ss_kind src"
    and "ss_version src = 8 \<Longrightarrow> raw ! 7 = ss_layout src"
  using wf_sourceD(8) [OF wf] raw
  by (auto simp: sb_head_def V7_MAGIC_def V8_MAGIC_def nth_append)

lemma min_header_le:
  assumes wf: "wf_source src"
  shows "sat_mul MAX_OPS (sat_mul (ss_dim src) (ss_bit_width src) div 8) \<le> hdr_len (src_geo src)"
proof -
  have d: "ss_dim src \<le> 16384" "ss_dim src mod 8 = 0" and b: "ss_bit_width src \<in> {2, 3, 4}"
    using wf_sourceD(8,10,11) [OF wf] by auto
  then obtain q where q: "ss_dim src = 8 * q" by auto
  have rb: "q * ss_bit_width src \<le> row_bytes (src_geo src)"
    using b by (auto simp: row_bytes_def blocked_geometry_def q)
  have "sat_mul (ss_dim src) (ss_bit_width src) div 8 = q * ss_bit_width src"
    using b d(1) by (auto simp: sat_mul_def q min_def)
  then have "sat_mul MAX_OPS (sat_mul (ss_dim src) (ss_bit_width src) div 8) \<le> MAX_OPS * row_bytes (src_geo src)"
    using rb by (simp add: sat_mul_def min.coboundedI2)
  then show ?thesis by (simp add: hdr_len_def op_size_def MAX_OPS_def)
qed

lemma parse_prefix_written:
  assumes l: "loadable nm src" and raw: "raw = sb_body src nonce @ rest"
    and long: "hdr_len (src_geo src) \<le> length raw"
  shows "parse_prefix raw (ss_kind src) = Inr \<lparr>sbp_version = ss_version src, sbp_bit_width = ss_bit_width src,
    sbp_kind = ss_kind src, sbp_layout = ss_layout src, sbp_dim = ss_dim src, sbp_nonce = nonce\<rparr>"
proof -
  have wf: "wf_source src" using l by (simp add: loadable_def)
  let ?v = "ss_version src"
  have hd: "raw = sb_head src @ (u32_to_le (of_nat (ss_dim src)) @ u64_to_le nonce @ u32_to_le (of_nat MAX_OPS)
      @ f32s_to_le (ss_boundaries src @ ss_centroids src) @ u32_to_le (of_nat (length (ss_tqplus_shift src)))
      @ f32s_to_le (ss_tqplus_shift src) @ f32s_to_le (ss_tqplus_scale src) @ rest)"
    by (simp add: raw sb_body_def)
  note hb = sb_head_bytes [OF wf hd]
  have fx: "length (sb_head src) = sb_fixed_of ?v - 16" and fx16: "16 \<le> sb_fixed_of ?v"
    using length_sb_head [OF wf] by auto
  have r1: "read_u32 raw (sb_fixed_of ?v - 16) = Some (of_nat (ss_dim src))"
    by (rule read_u32_at [OF hd]) (simp add: fx)
  have r2: "read_u64 raw (sb_fixed_of ?v - 12) = Some nonce"
    by (rule read_u64_at [of _ "sb_head src @ u32_to_le (of_nat (ss_dim src))"])
      (use hd fx fx16 in \<open>auto\<close>)
  have r3: "read_u32 raw (sb_fixed_of ?v - 4) = Some (of_nat MAX_OPS)"
    by (rule read_u32_at [of _ "sb_head src @ u32_to_le (of_nat (ss_dim src)) @ u64_to_le nonce"])
      (use hd fx fx16 in \<open>auto\<close>)
  have dim: "unat (of_nat (ss_dim src) :: u32) = ss_dim src" "ss_dim src mod 8 = 0" "\<not> MAX_DIM < ss_dim src"
    using wf_sourceD(10,11) [OF wf] by (simp_all add: unat_of_nat_u32 MAX_DIM_def)
  have ops: "unat (of_nat MAX_OPS :: u32) = MAX_OPS" by (simp add: MAX_OPS_def)
  have long11: "\<not> length raw < 11" using long by (simp add: hdr_len_def)
  have v: "?v = 7 \<or> ?v = 8" using wf_sourceD(9) [OF wf] by auto
  have lay: "ss_layout src = LAYOUT_SEQ \<or> ss_layout src = LAYOUT_PLANES" "\<not> (ss_layout src = LAYOUT_PLANES \<and> ss_bit_width src = 3)"
    using l by (auto simp: loadable_def LAYOUT_SEQ_def LAYOUT_PLANES_def)
  have bw: "2 \<le> ss_bit_width src \<and> ss_bit_width src \<le> 4" using wf_sourceD(8) [OF wf] by auto
  have mh: "\<not> length raw < sat_mul MAX_OPS (sat_mul (ss_dim src) (ss_bit_width src) div 8)"
    using min_header_le [OF wf] long by linarith
  have ly: "(if ?v = 8 then raw ! 7 else LAYOUT_SEQ) = ss_layout src"
    using v hb(5) wf_sourceD(13) [OF wf] by auto
  have mag: "(if take 4 raw = V8_MAGIC then 8 else 7 :: u8) = ?v"
    using v hb(1) by (auto simp: V7_MAGIC_def V8_MAGIC_def)
  have mag2: "\<not> (take 4 raw \<noteq> V7_MAGIC \<and> take 4 raw \<noteq> V8_MAGIC)" using hb(1) by auto
  have ver: "\<not> (?v = 7 \<and> raw ! 4 \<noteq> V7_VERSION)" "\<not> (?v = 8 \<and> raw ! 4 \<noteq> V8_VERSION)"
    using hb(2) by auto
  show ?thesis
    unfolding parse_prefix_def Let_def mag ly hb(3,4)
    using long11 mag2 ver lay bw dim mh ops
    by (simp add: rd_u32_def rd_u64_def r1 r2 r3)
qed

lemma parse_superblock_written:
  assumes l: "loadable nm src" and raw: "raw = superblock src nonce @ rest"
    and long: "hdr_len (src_geo src) \<le> length raw"
  shows "parse_superblock nm raw (ss_kind src) = Inr
    (\<lparr>sbp_version = ss_version src, sbp_bit_width = ss_bit_width src, sbp_kind = ss_kind src,
      sbp_layout = ss_layout src, sbp_dim = ss_dim src, sbp_nonce = nonce\<rparr>,
     src_geo src, ss_tqplus_shift src, ss_tqplus_scale src)"
proof -
  have wf: "wf_source src" using l by (simp add: loadable_def)
  let ?fx = "sb_fixed_of (ss_version src)"
  define pre where "pre = sb_head src @ u32_to_le (of_nat (ss_dim src)) @ u64_to_le nonce @ u32_to_le (of_nat MAX_OPS)"
  define B where "B = ss_boundaries src @ ss_centroids src"
  define sh sc where "sh = ss_tqplus_shift src" and "sc = ss_tqplus_scale src"
  define crc where "crc = u32_to_le (crc32 (sb_body src nonce))"
  have lp: "length pre = ?fx" using length_sb_head [OF wf] by (simp add: pre_def)
  have body: "sb_body src nonce = pre @ f32s_to_le B @ u32_to_le (of_nat (length sh)) @ f32s_to_le sh @ f32s_to_le sc"
    by (simp add: sb_body_def pre_def B_def sh_def sc_def)
  have eq: "raw = pre @ f32s_to_le B @ u32_to_le (of_nat (length sh)) @ f32s_to_le sh @ f32s_to_le sc @ crc @ rest"
    by (simp add: raw superblock_eq body crc_def)
  have lB: "length B = 2 * 2 ^ ss_bit_width src - 1"
    using wf_sourceD(6,7) [OF wf] by (simp add: B_def n_levels_def)
  have lsc: "length sc = length sh" using wf_sourceD(5) [OF wf] by (simp add: sh_def sc_def)
  have lsh: "length sh < 4294967296" "length sh = 0 \<or> length sh = ss_dim src"
    using l wf_sourceD(10) [OF wf] by (auto simp: loadable_def sh_def)
  have cb: "parse_codebook nm raw (ss_bit_width src) (ss_dim src) ?fx = Inr (?fx + 4 * length B)"
  proof (cases "ss_dim src = 0")
    case True
    then show ?thesis by (simp add: parse_codebook_def lB Let_def)
  next
    case False
    then have "nm_codebook nm (ss_bit_width src) (ss_dim src) = (ss_boundaries src, ss_centroids src)"
      using l by (simp add: loadable_def)
    moreover have "match_f32s raw B ?fx = Inr (?fx + 4 * length B)"
      using l by (intro match_f32s_at [OF eq]) (simp_all add: lp loadable_def B_def)
    ultimately show ?thesis using False by (simp add: parse_codebook_def B_def Let_def)
  qed
  let ?o = "?fx + 4 * length B"
  have r1: "read_u32 raw ?o = Some (of_nat (length sh))"
    by (rule read_u32_at [of _ "pre @ f32s_to_le B"]) (use eq lp in auto)
  have r2: "read_f32s raw (?o + 4) (length sh) = Inr sh"
    by (rule read_f32s_at [of _ "pre @ f32s_to_le B @ u32_to_le (of_nat (length sh))"]) (use eq lp in auto)
  have r3: "read_f32s raw (?o + 4 + length sh * 4) (length sh) = Inr sc"
    by (rule read_f32s_at [of _ "pre @ f32s_to_le B @ u32_to_le (of_nat (length sh)) @ f32s_to_le sh"])
      (use eq lp lsc in auto)
  have lb: "length (sb_body src nonce) = ?o + 4 + length sh * 4 + length sh * 4"
    by (simp add: body lp lsc)
  have r4: "read_u32 raw (?o + 4 + length sh * 4 + length sh * 4) = Some (crc32 (sb_body src nonce))"
    by (rule read_u32_at [of _ "sb_body src nonce" _ rest]) (use lb in \<open>simp_all add: raw superblock_eq\<close>)
  have r5: "take (?o + 4 + length sh * 4 + length sh * 4) raw = sb_body src nonce"
    unfolding raw superblock_eq lb [symmetric] by simp
  have pp: "parse_prefix raw (ss_kind src) = Inr \<lparr>sbp_version = ss_version src, sbp_bit_width = ss_bit_width src,
    sbp_kind = ss_kind src, sbp_layout = ss_layout src, sbp_dim = ss_dim src, sbp_nonce = nonce\<rparr>"
    by (rule parse_prefix_written [OF l, where rest = "crc @ rest"])
      (use long in \<open>simp_all add: raw superblock_eq crc_def\<close>)
  have n: "unat (of_nat (length sh) :: u32) = length sh" using lsh(1) by (rule unat_of_nat_u32)
  have vc: "validate_calibration nm sh sc = Inr ()" using l by (simp add: loadable_def sh_def sc_def)
  have g: "\<lparr>g_kind = ss_kind src, g_dim = ss_dim src, g_bit_width = ss_bit_width src,
      g_n_calib = length sh, g_version = ss_version src, g_layout = ss_layout src\<rparr> = src_geo src"
    by (simp add: src_geo_def sh_def)
  have nc: "\<not> (length sh \<noteq> 0 \<and> length sh \<noteq> ss_dim src)" using lsh(2) by blast
  have pl: "\<not> (ss_layout src = LAYOUT_PLANES \<and> ss_dim src \<noteq> 0 \<and>
      \<not> planes_geom_ok (ss_bit_width src) (row_bytes (src_geo src)))"
    using l by (auto simp: loadable_def LAYOUT_SEQ_def LAYOUT_PLANES_def)
  show ?thesis
    unfolding parse_superblock_def pp and_then_simps Let_def sb_prefix.simps cb rd_u32_def r1 ok_or_simps n
    by (simp only: nc if_False r2 r3 vc r4 r5 g pl and_then_simps ok_or_simps simp_thms
        sh_def [symmetric] sc_def [symmetric])
qed

end
