(* ===== verification/LoadTotal.thy ===== *)
theory LoadTotal
  imports LoadImage
begin

text \<open>
  The loader accepts what a history of syncs leaves, finished or cut short. Its remaining checks
  read four bytes at a time as a scale; a torn unit mixes bytes of two valid scales, and the
  bound on the most significant byte, which no write can break, keeps every mixture valid.
\<close>

section \<open>Scales\<close>

lemma scale_ok_small:
  assumes "unat v < 0x64000000"
  shows "scale_ok v"
proof -
  have m: "f32_mag v = unat v" "\<not> f32_sign v" using assms by (simp_all add: f32_mag_def f32_sign_def)
  have "f32_mag MAX_VECTOR_SCALE = 0x64078678" "\<not> f32_sign MAX_VECTOR_SCALE"
    by (simp_all add: f32_mag_def f32_sign_def MAX_VECTOR_SCALE_def)
  moreover have "f32_mag 0 = 0" "\<not> f32_sign 0" by (simp_all add: f32_mag_def f32_sign_def)
  moreover have "int (unat v) \<le> 0x64078678" using assms by linarith
  ultimately show ?thesis
    using assms m by (simp add: scale_ok_def f32_is_finite_def f32_inf_mag_def f32_le_def f32_is_nan_def f32_ord_def)
qed

lemma scale_ok_top:
  assumes "length bs = 4" "bs ! 3 < 0x64"
  shows "scale_ok (u32_from_le bs)"
proof (rule scale_ok_small)
  obtain a b c d where bs: "bs = [a, b, c, d]" using assms(1) by (auto simp: numeral_eq_Suc length_Suc_conv)
  have ub: "unat (x :: u8) \<le> 255" for x
  proof -
    have "unat x < 2 ^ LENGTH(8)" by (rule unsigned_less)
    then show ?thesis by simp
  qed
  have "unat d < 0x64" using assms(2) by (simp add: bs word_less_nat_alt)
  then have "le_nat bs < 0x64000000" using ub [of a] ub [of b] ub [of c] by (simp add: bs)
  then show "unat (u32_from_le bs) < 0x64000000" by (simp add: u32_from_le_def unat_of_nat_u32)
qed

section \<open>The loops never fail\<close>

lemma unit_step_total:
  assumes seq: "g_layout g \<noteq> LAYOUT_PLANES" and dn: "units_done g raw b st"
    and fit: "unit_at g b + unit_len g \<le> length raw"
    and tops: "\<forall>lane < BLOCK. raw ! (unit_at g b + (BLOCK * row_bytes g + lane * 4 + 3)) < 0x64"
  shows "\<exists>st'. unit_step g b st = Inr st'"
proof -
  have len: "length (ls_buf st) = length raw"
    and same: "\<And>p. p < length raw \<Longrightarrow> b * (BLOCK * row_bytes g) \<le> p \<Longrightarrow> ls_buf st ! p = raw ! p"
    using dn by (auto simp: units_done_def)
  have "scale_ok (u32_from_le (slice (ls_buf st) (unit_at g b + BLOCK * row_bytes g + lane * 4) 4))"
    if lane: "lane < BLOCK" for lane
  proof (rule scale_ok_top)
    have k: "BLOCK * row_bytes g + lane * 4 + 4 \<le> unit_len g" using lane by (simp add: unit_len_def)
    then have f: "unit_at g b + BLOCK * row_bytes g + lane * 4 + 4 \<le> length (ls_buf st)" using fit len by linarith
    then show "length (slice (ls_buf st) (unit_at g b + BLOCK * row_bytes g + lane * 4) 4) = 4"
      by (rule slice_length)
    have "slice (ls_buf st) (unit_at g b + BLOCK * row_bytes g + lane * 4) 4 ! 3
        = ls_buf st ! (unit_at g b + BLOCK * row_bytes g + lane * 4 + 3)"
      using f by (intro nth_slice) simp_all
    also have "\<dots> = raw ! (unit_at g b + BLOCK * row_bytes g + lane * 4 + 3)"
      using f len unit_at_ge [of b g] by (intro same) linarith+
    finally show "slice (ls_buf st) (unit_at g b + BLOCK * row_bytes g + lane * 4) 4 ! 3 < 0x64"
      using tops lane by (simp add: add.assoc)
  qed
  then have "\<not> list_ex (\<lambda>v. \<not> scale_ok v)
      (map (\<lambda>lane. u32_from_le (slice (ls_buf st) (unit_at g b + BLOCK * row_bytes g + lane * 4) 4)) [0..<BLOCK])"
    by (auto simp: list_ex_iff)
  then show ?thesis using fit len seq by (simp add: unit_step_def Let_def planes_dims_def)
qed

lemma unit_loop_total:
  assumes seq: "g_layout g \<noteq> LAYOUT_PLANES"
    and ok: "\<And>c. b \<le> c \<Longrightarrow> c < b + k \<Longrightarrow> unit_at g c + unit_len g \<le> length raw \<and>
      (\<forall>lane < BLOCK. raw ! (unit_at g c + (BLOCK * row_bytes g + lane * 4 + 3)) < 0x64)"
    and dn: "units_done g raw b st"
  shows "\<exists>st'. unit_loop g b k st = Inr st'"
  using ok dn
proof (induction k arbitrary: b st)
  case 0
  then show ?case by simp
next
  case (Suc k)
  obtain st1 where st1: "unit_step g b st = Inr st1"
    using unit_step_total [OF seq Suc.prems(2)] Suc.prems(1) [of b] by auto
  have "units_done g raw (Suc b) st1" using unit_step_done [OF seq Suc.prems(2) st1] by simp
  then obtain st2 where "unit_loop g (Suc b) k st1 = Inr st2"
    using Suc.IH [of "Suc b" st1] Suc.prems(1) by auto
  then show ?case using st1 by simp
qed

lemma op_loop_total:
  "\<forall>(slot, pl) \<in> set ops. scale_ok (u32_from_le (slice pl (row_bytes g) 4)) \<Longrightarrow> \<exists>st'. op_loop g ops st = Inr st'"
proof (induction ops arbitrary: st)
  case Nil
  then show ?case by simp
next
  case (Cons o1 ops)
  then show ?case by (cases o1) (auto simp: apply_op_def Let_def)
qed

lemma tail_loop_total:
  "\<forall>j < m. scale_ok (u32_from_le (slice (slice tail ((k + j) * tail_row g) (tail_row g)) (row_bytes g) 4)) \<Longrightarrow>
    \<exists>st'. tail_loop g base tail k m st = Inr st'"
proof (induction m arbitrary: k st)
  case 0
  then show ?case by simp
next
  case (Suc m)
  have "\<forall>j < m. scale_ok (u32_from_le (slice (slice tail ((Suc k + j) * tail_row g) (tail_row g)) (row_bytes g) 4))"
  proof (intro allI impI)
    fix j
    assume "j < m"
    then show "scale_ok (u32_from_le (slice (slice tail ((Suc k + j) * tail_row g) (tail_row g)) (row_bytes g) 4))"
      using Suc.prems [rule_format, of "Suc j"] by simp
  qed
  moreover have "scale_ok (u32_from_le (slice (slice tail (k * tail_row g) (tail_row g)) (row_bytes g) 4))"
    using Suc.prems [rule_format, of 0] by simp
  ultimately show ?case using Suc.IH [of "Suc k"] by (simp add: tail_step_def Let_def)
qed

lemma gather_rows_total:
  assumes seq: "g_layout g \<noteq> LAYOUT_PLANES"
    and units: "\<And>c. c < n div BLOCK \<Longrightarrow> unit_at g c + unit_len g \<le> length raw" and tops: "scale_tops_ok raw g n"
    and ops: "\<forall>(slot, pl) \<in> set ops. scale_ok (u32_from_le (slice pl (row_bytes g) 4))"
    and tail: "\<forall>j < n mod BLOCK. scale_ok (u32_from_le (slice (slice tail (j * tail_row g) (tail_row g)) (row_bytes g) 4))"
  shows "\<exists>st. gather_rows g n ops tail raw = Inr st"
proof -
  let ?st0 = "\<lparr>ls_buf = raw, ls_sign = [], ls_scales = [], ls_ids = []\<rparr>"
  have "units_done g raw 0 ?st0" by (simp add: units_done_def state_ok_def)
  then obtain st1 where st1: "unit_loop g 0 (n div BLOCK) ?st0 = Inr st1"
    using unit_loop_total [OF seq, of 0 "n div BLOCK" raw ?st0] units tops by (auto simp: scale_tops_ok_def)
  obtain st2 where st2: "op_loop g ops (st1\<lparr>ls_buf := trim_buf g n (ls_buf st1)\<rparr>) = Inr st2"
    using op_loop_total [OF ops] by blast
  obtain st where "tail_loop g (n div BLOCK * BLOCK) tail 0 (n mod BLOCK) st2 = Inr st"
    using tail_loop_total [of "n mod BLOCK" tail 0 g "n div BLOCK * BLOCK" st2] tail by auto
  then show ?thesis using st1 st2 seq by (simp add: gather_rows_def Let_def case_prod_unfold)
qed

section \<open>The load of a commit that holds a source's rows\<close>

lemma row_record_scale:
  assumes "wf_source src" "r < ss_n_vectors src" "bounded_scales src"
  shows "scale_ok (u32_from_le (slice (row_record src r) (row_bytes (src_geo src)) 4))"
proof -
  have "slice (row_record src r) (row_bytes (src_geo src)) 4 = u32_to_le (ss_scales src ! r)"
    using wf_sourceD(1) [OF assms(1,2)] by (simp add: row_record_def slice_def)
  then show ?thesis
    using assms wf_sourceD(3) [OF assms(1)] by (simp add: scale_ok_small bounded_scales_def)
qed

text \<open>The state of the file after a history, or after a crash in it.\<close>

definition holds_commit :: "geo \<Rightarrow> bytes \<Rightarrow> parsed_hdr \<Rightarrow> sync_source \<Rightarrow> u64 \<Rightarrow> bool" where
  "holds_commit g f h src nonce \<longleftrightarrow>
     wf_source src \<and> bounded_scales src \<and> src_geo src = g \<and> commit_at f g h \<and> ph_n h = ss_n_vectors src \<and>
     distinct (op_slots h) \<and> get_range f 0 (sb_len g) = Some (superblock src nonce) \<and> scale_tops_ok f g (ph_n h) \<and>
     (\<forall>s < ss_n_vectors src. committed_row f g h s = Some (row_record src s))"

lemma copy_ops_total:
  "\<forall>(s, at) \<in> set ops. at + k \<le> length raw \<Longrightarrow> \<exists>ops'. copy_ops raw k ops = Inr ops'"
proof (induction ops)
  case (Cons o1 ops)
  then show ?case by (cases o1) (auto simp: get_range_def)
qed simp

lemma copy_groups_total:
  "\<forall>(s, at) \<in> set (concat (map snd gs)). at + k \<le> length raw \<Longrightarrow> \<exists>gs'. copy_groups raw k gs = Inr gs'"
proof (induction gs)
  case (Cons g gs)
  obtain b ops where g: "g = (b, ops)" by (cases g)
  obtain ops' where "copy_ops raw k ops = Inr ops'" using copy_ops_total [of ops k raw] Cons.prems by (auto simp: g)
  moreover obtain gs' where "copy_groups raw k gs = Inr gs'" using Cons by (auto simp: g)
  ultimately show ?case by (simp add: g)
qed simp

lemma committed_op:
  assumes row: "\<And>s. s < ph_n h \<Longrightarrow> committed_row f g h s = Some (R s)"
    and dist: "distinct (op_slots h)" and h: "choose_header f g = Some h" and m: "(s, at) \<in> set (op_list h)"
  shows "s < ph_n h" and "slice f at (tail_row g) = R s" and "at + tail_row g \<le> length f"
proof -
  have s: "s div BLOCK < ph_n h div BLOCK" using parsed_op_slots [OF h m] .
  then show n: "s < ph_n h" by (meson div_le_mono not_le)
  have "map_of (rev (op_list h)) s = Some at"
    using dist m by (intro map_of_is_SomeI) (auto simp: op_slots_def rev_map [symmetric])
  then have "get_range f at (at + tail_row g) = Some (R s)"
    using row [OF n] s by (simp add: committed_row_def n not_le split: if_splits)
  then show "slice f at (tail_row g) = R s" and "at + tail_row g \<le> length f" by (auto simp: slice_Some)
qed

lemma commit_tail_at:
  assumes c: "commit_at f g h"
  shows "ph_tail_at h \<le> length f"
proof -
  obtain bs where p: "parse_header_at bs (hdr_at g (unat (ph_gen h mod 2))) g
      (unat (ph_gen h mod 2)) (length f) = Some h"
    using c by (rule commit_parse)
  have "hdr_at g (unat (ph_gen h mod 2)) + hdr_len g \<le> unit_at g (ph_n h div BLOCK)"
    by (rule hdr_before_units [OF gen_parity])
  then show ?thesis
    using parse_header_at_facts(1) [OF p] commit_file_length [OF c] by (simp add: hdr_len_def)
qed

lemma unit_fits: "unit_at g nb \<le> length f \<Longrightarrow> c < nb \<Longrightarrow> unit_at g c + unit_len g \<le> length f"
  using unit_at_mono order_trans by blast

lemma load_commit:
  assumes hc: "holds_commit g f h src nonce" and l: "loadable nm src" and seq: "g_layout g \<noteq> LAYOUT_PLANES"
    and h: "choose_header f g = Some h" and dim: "ss_dim src = 0 \<longrightarrow> ss_n_vectors src = 0"
  shows "\<exists>l. load_image nm f calib_gen (ss_kind src) = Inr l \<and> vl_layout l = g_layout g \<and>
    vl_n_vectors l = ss_n_vectors src \<and> vl_pending_slots l = op_slots h \<and>
    (\<forall>s < ss_n_vectors src. loaded_row g l s = row_record src s)"
proof -
  let ?n = "ph_n h"
  have wf: "wf_source src" and bs: "bounded_scales src" and g: "src_geo src = g" and c: "commit_at f g h"
    and n: "?n = ss_n_vectors src" and dist: "distinct (op_slots h)"
    and sb: "get_range f 0 (sb_len g) = Some (superblock src nonce)" and tops: "scale_tops_ok f g ?n"
    and rows: "\<And>s. s < ?n \<Longrightarrow> committed_row f g h s = Some (row_record src s)"
    using hc by (auto simp: holds_commit_def)
  have ul: "unit_at g (?n div BLOCK) \<le> length f" using commit_file_length [OF c] .
  have hl: "hdr_len g \<le> length f" using ul by (simp add: unit_at_def hdr_at_def)
  have pre: "f = superblock src nonce @ drop (sb_len g) f"
    using sb by (metis add.left_neutral append_take_drop_id get_range_Some slice_Some slice_def drop0)
  note ps = parse_superblock_written [OF l pre hl [folded g]]
  obtain p shift scale where p: "parse_superblock nm f (ss_kind src) = Inr (p, g, shift, scale)"
    using ps g by simp
  have gd: "g_dim g = ss_dim src" using g by (auto simp: src_geo_def)
  have sc: "scale_ok (u32_from_le (slice (row_record src s) (row_bytes g) 4))" if "s < ?n" for s
    using row_record_scale [OF wf _ bs] that n g by simp
  have tail_fit: "ph_tail_at h + ?n mod BLOCK * tail_row g \<le> length f"
  proof (cases "?n mod BLOCK")
    case 0
    have "ph_tail_at h \<le> length f"
      using c by (rule commit_tail_at)
    then show ?thesis using 0 by simp
  next
    case (Suc m)
    then have "ph_tail_at h + m * tail_row g + tail_row g \<le> hdr_at g (unat (ph_gen h mod 2)) + hdr_len g"
      using commit_row_in_slot(1) [OF c, of m] by simp
    moreover have "hdr_at g (unat (ph_gen h mod 2)) + hdr_len g \<le> unit_at g (?n div BLOCK)"
      by (rule hdr_before_units [OF gen_parity])
    ultimately show ?thesis using Suc ul by simp
  qed
  define tail where "tail = slice f (ph_tail_at h) (?n mod BLOCK * tail_row g)"
  have tail: "get_range f (ph_tail_at h) (ph_tail_at h + ?n mod BLOCK * tail_row g) = Some tail"
    using tail_fit by (simp add: tail_def slice_Some)
  note cop = committed_op [OF rows dist h]
  have tr: "row_bytes g + 4 + id_bytes g 1 = tail_row g" by (simp add: tail_row_def)
  obtain ops where ops: "copy_groups f (tail_row g) (ph_groups h) = Inr ops"
    using copy_groups_total [of "ph_groups h" "tail_row g" f] cop(3) by (fastforce simp: op_list_def)
  have co: "concat (map snd ops) = map (\<lambda>(s, at). (s, slice f at (tail_row g))) (op_list h)"
    using copy_groups_facts [OF ops] by (simp add: op_list_def)
  have osc: "\<forall>(slot, pl) \<in> set (concat (map snd ops)). scale_ok (u32_from_le (slice pl (row_bytes g) 4))"
    unfolding co using cop(1,2) sc by fastforce
  have tsc: "scale_ok (u32_from_le (slice (slice tail (j * tail_row g) (tail_row g)) (row_bytes g) 4))"
    if j: "j < ?n mod BLOCK" for j
  proof -
    let ?s = "?n div BLOCK * BLOCK + j"
    have s: "?s < ?n" using j div_mult_mod_eq [of ?n BLOCK] by linarith
    have jb: "j < BLOCK" using j by (meson less_trans mod_less_divisor zero_less_numeral)
    then have q: "?s div BLOCK = ?n div BLOCK" "?s mod BLOCK = j" by simp_all
    have le: "Suc j * tail_row g \<le> ?n mod BLOCK * tail_row g" using j by (intro mult_le_mono1) simp
    have "slice f (ph_tail_at h + j * tail_row g) (tail_row g) = row_record src ?s"
      using rows [OF s] s by (simp add: committed_row_def q slice_Some)
    moreover have "slice tail (j * tail_row g) (tail_row g) = slice f (ph_tail_at h + j * tail_row g) (tail_row g)"
      using le by (simp add: tail_def slice_slice)
    ultimately show ?thesis using sc [OF s] by simp
  qed
  obtain st where st: "gather_rows g ?n (concat (map snd ops)) tail f = Inr st"
    using gather_rows_total [OF seq _ tops osc] tsc unit_fits [OF ul] by blast
  have "\<exists>l. load_image nm f calib_gen (ss_kind src) = Inr l \<and> vl_layout l = g_layout g"
    using st p h tail ops dim gd n tr
    by (cases "ss_dim src = 0") (simp_all add: load_image_def parse_image_def Let_def)
  then obtain l where ld: "load_image nm f calib_gen (ss_kind src) = Inr l" and ly: "vl_layout l = g_layout g"
    by blast
  show ?thesis
    using load_image_rows [OF ld] ly seq p h rows n by (intro exI [of _ l]) (auto simp: ld)
qed

lemma load_synced:
  assumes s: "synced g f h cursor pending src" and l: "loadable nm src" and seq: "g_layout g \<noteq> LAYOUT_PLANES"
    and dim: "ss_dim src = 0 \<longrightarrow> ss_n_vectors src = 0"
  shows "\<exists>l. load_image nm f calib_gen (ss_kind src) = Inr l \<and> vl_n_vectors l = ss_n_vectors src \<and>
    set (vl_pending_slots l) = pending \<and> (\<forall>s < ss_n_vectors src. loaded_row g l s = row_record src s)"
proof -
  have i: "synced_inv g f h cursor pending src" using s by (rule synced_invariant)
  then have "holds_commit g f h src (sc_nonce cursor)" and h: "choose_header f g = Some h"
    and p: "pending = set (op_slots h)"
    by (auto simp: synced_inv_def holds_commit_def)
  from load_commit [OF this(1) l seq h dim, of calib_gen] show ?thesis using p by auto
qed

lemma load_crashed:
  assumes s: "synced g f h cursor pending src"
    and wf: "wf_source src'" and sq: "seq_source src'" and bs: "bounded_scales src'" and g: "src_geo src' = g"
    and fin: "finite fresh" and rows: "rows_unchanged src src' fresh"
    and pl: "plan_incremental src' cursor pending fresh clear = Some pl"
    and crash: "sync_crash (sp_batches pl) f f'"
    and l: "loadable nm src" and seq: "g_layout g \<noteq> LAYOUT_PLANES"
    and dim: "ss_dim src = 0 \<longrightarrow> ss_n_vectors src = 0" and old: "choose_header f' g = Some h"
  shows "\<exists>l. load_image nm f' calib_gen (ss_kind src) = Inr l \<and> vl_n_vectors l = ss_n_vectors src \<and>
    set (vl_pending_slots l) = pending \<and> (\<forall>s < ss_n_vectors src. loaded_row g l s = row_record src s)"
proof -
  have i: "synced_inv g f h cursor pending src" using s by (rule synced_invariant)
  have "holds_commit g f' h src (sc_nonce cursor)" and p: "pending = set (op_slots h)"
    using i synced_crash [OF s wf sq bs g fin rows pl crash] by (auto simp: synced_inv_def holds_commit_def)
  from load_commit [OF this(1) l seq old dim, of calib_gen] show ?thesis using p by auto
qed

end
