(* ===== verification/CursorState.thy ===== *)
theory CursorState
  imports LoadTotal
begin

text \<open>
  The identity check before a sync (\<open>cursor_state\<close>), the length probe of a load (\<open>declared_len\<close>,
  \<open>load\<close>) and the magic sniff (\<open>is_v7\<close>). The file is its bytes, or \<open>None\<close> when it does not
  exist; other I/O errors are not modelled. \<open>cursor_state\<close> selects the newest header from probe
  reads of the slots' prefixes; the lemmas show that this is the loader's selection.
\<close>

section \<open>Definitions\<close>

datatype cursor_verdict =
    CsIntact "nat option"
  | CsForeign
  | CsReplaced

definition read_slot :: "bytes \<Rightarrow> geo \<Rightarrow> nat \<Rightarrow> parsed_hdr option" where
  "read_slot f g slot =
     (let at = hdr_at g slot; file_len = length f in
      if file_len < at then None
      else let avail = file_len - at;
               want = min (hdr_probe_len g) avail;
               full = min (hdr_len g) avail
           in case parse_header_at (slice f at want) at g slot file_len of
                Some h \<Rightarrow> Some h
              | None \<Rightarrow> (if full \<le> want then None
                         else parse_header_at (slice f at full) at g slot file_len))"

definition slot_cands :: "bytes \<Rightarrow> geo \<Rightarrow> parsed_hdr list" where
  "slot_cands f g =
     sort_key (\<lambda>h. usize_max - unat (ph_gen h)) (List.map_filter id [read_slot f g 0, read_slot f g 1])"

definition stale_ahead_of :: "u64 \<Rightarrow> parsed_hdr list \<Rightarrow> nat option" where
  "stale_ahead_of gen cands =
     (let us = map ph_used (filter (\<lambda>h. gen < ph_gen h) cands)
      in if us = [] then None else Some (Max (set us)))"

text \<open>The verdict on a file of ours: the nonce and the form already match.\<close>

definition own_verdict :: "bytes \<Rightarrow> sync_cursor \<Rightarrow> geo \<Rightarrow> cursor_verdict" where
  "own_verdict f cursor g =
     (let cands = slot_cands f g in
      if cands \<noteq> [] \<and> ph_gen (hd cands) = sc_gen cursor then CsIntact None
      else case List.find (\<lambda>h. delta_verified h (unit_len g) (unit_at_image f g)) cands of
             Some h \<Rightarrow> (if ph_gen h = sc_gen cursor then CsIntact (stale_ahead_of (sc_gen cursor) cands)
                        else CsForeign)
           | None \<Rightarrow> CsReplaced)"

definition sniff_form :: "bytes \<Rightarrow> (u8 \<times> u8) option" where
  "sniff_form head =
     (if take 4 head = V7_MAGIC \<and> head ! 4 = V7_VERSION then Some (7, LAYOUT_SEQ)
      else if take 4 head = V8_MAGIC \<and> head ! 4 = V8_VERSION then Some (8, head ! 7)
      else None)"

definition cursor_state :: "bytes option \<Rightarrow> sync_cursor \<Rightarrow> geo \<Rightarrow> cursor_verdict" where
  "cursor_state file cursor g =
     (case file of None \<Rightarrow> CsReplaced
      | Some f \<Rightarrow>
          if length f < 20 then CsReplaced
          else case sniff_form (take 20 f) of None \<Rightarrow> CsReplaced
            | Some (version, layout) \<Rightarrow>
                let file_nonce = u64_from_le (slice (take 20 f) (sb_fixed_of version - 12) 8) in
                if file_nonce \<noteq> sc_nonce cursor
                then (if file_nonce = UNCLAIMED_NONCE then CsReplaced else CsForeign)
                else if version \<noteq> g_version g \<or> layout \<noteq> g_layout g then CsReplaced
                else own_verdict f cursor g)"

text \<open>The length a complete image of the file's declared geometry and row count has.\<close>

definition probe_geo :: "bytes \<Rightarrow> geo option" where
  "probe_geo f =
     do {
       sb \<leftarrow> get_range f 0 64;
       (version, layout) \<leftarrow> sniff_form sb;
       let bit_width = unat (sb ! 5);
       let kind = sb ! 6;
       guard_opt (2 \<le> bit_width \<and> bit_width \<le> 4 \<and> kind \<le> 1 \<and> layout \<le> LAYOUT_PLANES);
       let fx = sb_fixed_of version;
       let dim = unat (u32_from_le (slice sb (fx - 16) 4));
       guard_opt (dim = 0 \<or> dim mod 8 = 0 \<and> dim \<le> MAX_DIM);
       nc \<leftarrow> read_u32 f (fx + (2 * 2 ^ bit_width - 1) * 4);
       guard_opt (unat nc = 0 \<or> unat nc = dim);
       Some \<lparr>g_kind = kind, g_dim = dim, g_bit_width = bit_width, g_n_calib = unat nc,
             g_version = version, g_layout = layout\<rparr>
     }"

definition declared_len :: "bytes \<Rightarrow> nat option" where
  "declared_len f =
     do {
       g \<leftarrow> probe_geo f;
       h0 \<leftarrow> get_range f (hdr_at g 0) (hdr_at g 0 + 16);
       h1 \<leftarrow> get_range f (hdr_at g 1) (hdr_at g 1 + 16);
       let n = max (unat (u64_from_le (slice h0 8 8))) (unat (u64_from_le (slice h1 8 8)));
       units \<leftarrow> checked_mul (unit_len g) (n div BLOCK);
       checked_add (unit_at g 0) units
     }"

definition load_file :: "numerics \<Rightarrow> bytes \<Rightarrow> u64 \<Rightarrow> u8 \<Rightarrow> load_error + v7_load" where
  "load_file nm f expect_calib_gen expect_kind =
     (let on_disk = length f;
          want = min (case declared_len f of Some l \<Rightarrow> l | None \<Rightarrow> on_disk) on_disk
      in load_image nm (take want f) expect_calib_gen expect_kind)"

definition is_v7 :: "bytes option \<Rightarrow> bool" where
  "is_v7 file =
     (case file of None \<Rightarrow> False
      | Some f \<Rightarrow> 4 \<le> length f \<and> (take 4 f = V7_MAGIC \<or> take 4 f = V8_MAGIC))"

section \<open>The probe read of a header slot\<close>

lemma read_slot_eq:
  assumes "hdr_at g slot + hdr_len g \<le> length f"
  shows "read_slot f g slot = parse_header_slot f g slot (length f)"
proof -
  let ?at = "hdr_at g slot"
  have a: "min (hdr_len g) (length f - ?at) = hdr_len g" "\<not> length f < ?at"
    and w: "min (hdr_probe_len g) (length f - ?at) = hdr_probe_len g"
    using assms hdr_probe_le_hdr_len [of g] by simp_all
  have ps: "parse_header_slot f g slot (length f) = parse_header_at (slice f ?at (hdr_len g)) ?at g slot (length f)"
    using assms by (simp add: parse_header_slot_def slice_Some [THEN iffD2])
  have "slice f ?at (hdr_probe_len g) = take (hdr_probe_len g) (slice f ?at (hdr_len g))"
    using hdr_probe_le_hdr_len [of g] by (simp add: slice_def min_def)
  note sl = this
  have pre: "parse_header_slot f g slot (length f) = Some h"
    if p: "parse_header_at (slice f ?at (hdr_probe_len g)) ?at g slot (length f) = Some h" for h
    unfolding ps by (rule parse_header_take [OF p [unfolded sl]])
  show ?thesis
  proof (cases "parse_header_at (slice f ?at (hdr_probe_len g)) ?at g slot (length f)")
    case None
    have "parse_header_slot f g slot (length f) = None" if "hdr_len g \<le> hdr_probe_len g"
    proof -
      have "hdr_probe_len g = hdr_len g" using that hdr_probe_le_hdr_len [of g] by (rule antisym [rotated])
      then show ?thesis using ps None by simp
    qed
    then show ?thesis unfolding read_slot_def Let_def a w using ps a(2) by (simp add: None)
  next
    case (Some h)
    then show ?thesis unfolding read_slot_def Let_def a w using pre [OF Some] a(2) by simp
  qed
qed

lemma slot_cands_eq:
  assumes "hdr_at g 2 \<le> length f"
  shows "slot_cands f g = header_cands f g"
proof -
  have "hdr_at g 0 + hdr_len g \<le> length f" "hdr_at g 1 + hdr_len g \<le> length f"
    using hdr_at_mono [of 0 2 g] hdr_at_mono [of 1 2 g] assms by linarith+
  then show ?thesis by (simp add: slot_cands_def header_cands_def read_slot_eq)
qed

section \<open>The verdict\<close>

lemma own_verdict_choose:
  assumes fl: "hdr_at g 2 \<le> length f" and h: "choose_header f g = Some h" "ph_gen h = sc_gen cursor"
  shows "\<exists>stale. own_verdict f cursor g = CsIntact stale"
proof -
  have "List.find (\<lambda>h. delta_verified h (unit_len g) (unit_at_image f g)) (header_cands f g) = Some h"
    using h(1) by (simp add: choose_header_def delta_ok_def [abs_def])
  then show ?thesis using h(2) by (auto simp: own_verdict_def slot_cands_eq [OF fl] Let_def)
qed

text \<open>The superblock's head, as the check reads it.\<close>

lemma slice_at: "raw = pre @ mid @ post \<Longrightarrow> at = length pre \<Longrightarrow> k = length mid \<Longrightarrow> slice raw at k = mid"
  by (simp add: slice_def)

lemma slice_take: "at + k \<le> n \<Longrightarrow> slice (take n f) at k = slice f at k"
  by (simp add: slice_def drop_take min_def)

lemma superblock_prefix:
  assumes "get_range f 0 (sb_len g) = Some (superblock src nonce)"
  obtains rest where "f = superblock src nonce @ rest"
  using assms by (metis append_take_drop_id drop0 get_range_Some diff_zero)

lemma sniff_superblock:
  assumes wf: "wf_source src" and f: "f = superblock src nonce @ rest"
  shows "8 \<le> k \<Longrightarrow> sniff_form (take k f) = Some (ss_version src, ss_layout src)"
    and "slice f (sb_fixed_of (ss_version src) - 12) 8 = u64_to_le nonce"
    and "slice f (sb_fixed_of (ss_version src) - 16) 4 = u32_to_le (of_nat (ss_dim src))"
    and "20 \<le> length f"
proof -
  let ?d = "u32_to_le (of_nat (ss_dim src))"
  obtain tl where hd: "f = sb_head src @ ?d @ u64_to_le nonce @ tl" by (simp add: f superblock_eq sb_body_def)
  have v: "ss_version src = 7 \<or> ss_version src = 8" using wf_sourceD(9) [OF wf] by auto
  have fx: "sb_fixed_of (ss_version src) = 23 \<or> sb_fixed_of (ss_version src) = 24"
    by (auto simp: sb_fixed_of_def)
  have lh: "length (sb_head src) = sb_fixed_of (ss_version src) - 16" using length_sb_head [OF wf] by simp
  note hb = sb_head_bytes [OF wf hd]
  show "sniff_form (take k f) = Some (ss_version src, ss_layout src)" if "8 \<le> k"
  proof -
    have "take 4 (take k f) = take 4 f" "take k f ! 4 = f ! 4" "take k f ! 7 = f ! 7"
      using that by (simp_all add: min_def)
    then show ?thesis
      using v hb wf_sourceD(13) [OF wf] by (auto simp: sniff_form_def V7_MAGIC_def V8_MAGIC_def)
  qed
  show "slice f (sb_fixed_of (ss_version src) - 12) 8 = u64_to_le nonce"
    by (rule slice_at [of _ "sb_head src @ ?d" _ tl]) (use hd lh fx in auto)
  show "slice f (sb_fixed_of (ss_version src) - 16) 4 = ?d"
    by (rule slice_at [OF hd]) (use lh in auto)
  have "20 \<le> sb_len (src_geo src)" by (simp add: sb_len_def sb_fixed_def)
  then show "20 \<le> length f" by (simp add: f length_superblock [OF wf])
qed

text \<open>A file of another nonce is refused, an unclaimed one is replaced.\<close>

lemma cursor_state_nonce:
  assumes wf: "wf_source src" and f: "get_range f 0 (sb_len (src_geo src)) = Some (superblock src nonce)"
  shows "cursor_state (Some f) cursor g =
    (if nonce \<noteq> sc_nonce cursor then (if nonce = UNCLAIMED_NONCE then CsReplaced else CsForeign)
     else if ss_version src \<noteq> g_version g \<or> ss_layout src \<noteq> g_layout g then CsReplaced
     else own_verdict f cursor g)"
proof -
  obtain rest where r: "f = superblock src nonce @ rest" using f by (rule superblock_prefix)
  note s = sniff_superblock [OF wf r]
  have "sb_fixed_of (ss_version src) - 12 + 8 \<le> 20" by (simp add: sb_fixed_of_def)
  then have "slice (take 20 f) (sb_fixed_of (ss_version src) - 12) 8 = u64_to_le nonce"
    using s(2) by (simp add: slice_take)
  then show ?thesis using s(1) [of 20] s(4) by (simp add: cursor_state_def Let_def)
qed

lemma stale_ahead_bound:
  assumes "h \<in> set cands" "gen < ph_gen h"
  shows "\<exists>u. stale_ahead_of gen cands = Some u \<and> ph_used h \<le> u"
proof -
  have m: "ph_used h \<in> set (map ph_used (filter (\<lambda>h. gen < ph_gen h) cands))" using assms by auto
  then have "map ph_used (filter (\<lambda>h. gen < ph_gen h) cands) \<noteq> []" by (metis empty_iff empty_set)
  moreover have "ph_used h \<le> Max (set (map ph_used (filter (\<lambda>h. gen < ph_gen h) cands)))"
    using m by (intro Max_ge) simp_all
  ultimately show ?thesis by (simp add: stale_ahead_of_def Let_def)
qed

lemma cands_newest:
  assumes "h \<in> set (header_cands f g)"
  shows "header_cands f g \<noteq> [] \<and> ph_gen h \<le> ph_gen (hd (header_cands f g))"
proof -
  have ne: "header_cands f g \<noteq> []" using assms by auto
  have "sorted (map (\<lambda>h. usize_max - unat (ph_gen h)) (header_cands f g))" by (simp add: header_cands_def)
  then have "usize_max - unat (ph_gen (hd (header_cands f g))) \<le> usize_max - unat (ph_gen h)"
    using assms by (cases "header_cands f g") auto
  moreover have "unat (ph_gen h) < 2 ^ LENGTH(64)" by (rule unsigned_less)
  then have "unat (ph_gen h) \<le> usize_max" by simp
  ultimately have "unat (ph_gen h) \<le> unat (ph_gen (hd (header_cands f g)))" by linarith
  then show ?thesis using ne by (simp add: word_le_nat_alt)
qed

lemma parsed_cand: "slot < 2 \<Longrightarrow> parse_header_slot f g slot (length f) = Some h \<Longrightarrow> h \<in> set (header_cands f g)"
  by (auto simp: header_cands_def map_filter_simps less_2_cases_iff split: option.splits)

lemma cand_parsed: "h \<in> set (header_cands f g) \<Longrightarrow> \<exists>slot < 2. parse_header_slot f g slot (length f) = Some h"
  unfolding header_cands_def set_sort
  by (cases "parse_header_slot f g 0 (length f)"; cases "parse_header_slot f g 1 (length f)")
    (auto simp: map_filter_simps less_2_cases_iff)

lemma own_verdict_stale:
  assumes fl: "hdr_at g 2 \<le> length f" and v: "own_verdict f cursor g = CsIntact stale"
    and h: "slot < 2" "parse_header_slot f g slot (length f) = Some h'" "sc_gen cursor < ph_gen h'"
  shows "\<exists>u. stale = Some u \<and> ph_used h' \<le> u"
proof -
  have m: "h' \<in> set (slot_cands f g)" using parsed_cand [OF h(1,2)] by (simp add: slot_cands_eq [OF fl])
  have "ph_gen (hd (slot_cands f g)) \<noteq> sc_gen cursor"
    using cands_newest [of h' f g] m h(3) by (auto simp: slot_cands_eq [OF fl])
  then have "stale = stale_ahead_of (sc_gen cursor) (slot_cands f g)"
    using v by (auto simp: own_verdict_def Let_def split: option.splits if_splits)
  then show ?thesis using stale_ahead_bound [OF m h(3)] by simp
qed

text \<open>After any history the check accepts the file, and it reports every parseable header that
  is ahead of the cursor.\<close>

lemma cursor_state_synced:
  assumes s: "synced g f h cursor pending src"
  shows "\<exists>stale. cursor_state (Some f) cursor g = CsIntact stale \<and>
    (\<forall>slot h'. slot < 2 \<and> parse_header_slot f g slot (length f) = Some h' \<and> sc_gen cursor < ph_gen h' \<longrightarrow>
      (\<exists>u. stale = Some u \<and> ph_used h' \<le> u))"
proof -
  have i: "wf_source src" "src_geo src = g" "get_range f 0 (sb_len g) = Some (superblock src (sc_nonce cursor))"
    "choose_header f g = Some h" "ph_gen h = sc_gen cursor" "commit_at f g h"
    using synced_invariant [OF s] by (simp_all add: synced_inv_def)
  have fl: "hdr_at g 2 \<le> length f" using commit_file_length [OF i(6)] by (simp add: unit_at_def)
  have gv: "g_version g = ss_version src" "g_layout g = ss_layout src" using i(2) by (auto simp: src_geo_def)
  have "cursor_state (Some f) cursor g = own_verdict f cursor g"
    using cursor_state_nonce [OF i(1) i(3) [folded i(2)], of cursor g] gv by simp
  then show ?thesis using own_verdict_choose [OF fl i(4,5)] own_verdict_stale [OF fl] by metis
qed

text \<open>With no header ahead of the cursor there is nothing to report.\<close>

lemma cursor_state_current:
  assumes s: "synced g f h cursor pending src"
    and no: "\<And>slot h'. slot < 2 \<Longrightarrow> parse_header_slot f g slot (length f) = Some h' \<Longrightarrow> \<not> sc_gen cursor < ph_gen h'"
  shows "cursor_state (Some f) cursor g = CsIntact None"
proof -
  have i: "wf_source src" "src_geo src = g" "get_range f 0 (sb_len g) = Some (superblock src (sc_nonce cursor))"
    "ph_gen h = sc_gen cursor" "commit_at f g h"
    using synced_invariant [OF s] by (simp_all add: synced_inv_def)
  have fl: "hdr_at g 2 \<le> length f" using commit_file_length [OF i(5)] by (simp add: unit_at_def)
  have gv: "g_version g = ss_version src" "g_layout g = ss_layout src" using i(2) by (auto simp: src_geo_def)
  have "h \<in> set (header_cands f g)" using i(5) parsed_cand [OF gen_parity [of "ph_gen h"], of f g h] by (simp add: commit_at_def)
  note n = cands_newest [OF this]
  then have "hd (header_cands f g) \<in> set (header_cands f g)" by simp
  then obtain slot where "slot < 2" "parse_header_slot f g slot (length f) = Some (hd (header_cands f g))"
    using cand_parsed by blast
  then have "ph_gen (hd (slot_cands f g)) = sc_gen cursor" "slot_cands f g \<noteq> []"
    using no [of slot "hd (header_cands f g)"] n i(4) by (simp_all add: slot_cands_eq [OF fl])
  then have "own_verdict f cursor g = CsIntact None" by (simp add: own_verdict_def Let_def)
  then show ?thesis using cursor_state_nonce [OF i(1) i(3) [folded i(2)], of cursor g] gv by simp
qed

corollary synced_clears_ahead:
  "synced g f h cursor pending src \<Longrightarrow> cursor_state (Some f) cursor g = CsIntact clear \<Longrightarrow> clears_ahead f g (sc_gen cursor) clear"
  using cursor_state_synced by (fastforce simp: clears_ahead_def)

text \<open>The destroying write of a plan with \<open>clear_target\<close>: the stale header is gone.\<close>

lemma clear_kills_slot:
  assumes "hdr_at g 2 \<le> length f"
  shows "parse_header_slot (run_batch [(hdr_at g (unat (gen mod 2)), clear_bytes g gen used)] f) g
    (unat (gen mod 2)) fl = None"
proof -
  let ?at = "hdr_at g (unat (gen mod 2))" and ?c = "clear_bytes g gen used"
  have le: "length ?c \<le> hdr_len g" by (rule length_clear_bytes)
  have fl: "?at + hdr_len g \<le> length f" using hdr_at_mono [OF gen_parity [of gen], of g] assms by linarith
  let ?f = "run_batch [(?at, ?c)] f"
  have wr: "?f = take ?at f @ ?c @ drop (?at + length ?c) f"
    using fl le by (simp add: run_batch_def write_at_def)
  show ?thesis
  proof (cases "get_range ?f ?at (?at + hdr_len g)")
    case None
    then show ?thesis by (simp add: parse_header_slot_def)
  next
    case (Some bs)
    then have "bs = take (hdr_len g) (?c @ drop (?at + length ?c) f)"
      using fl unfolding wr by (auto simp: get_range_Some)
    then have "bs = ?c @ take (hdr_len g - length ?c) (drop (?at + length ?c) f)" using le by simp
    then show ?thesis using Some clear_bytes_rejected by (simp add: parse_header_slot_def)
  qed
qed

section \<open>Loading a path\<close>

lemma probe_geo_written:
  assumes l: "loadable nm src" and f: "f = superblock src nonce @ rest" and long: "64 \<le> length f"
  shows "probe_geo f = Some (src_geo src)"
proof -
  have wf: "wf_source src" using l by (simp add: loadable_def)
  note sn = sniff_superblock [OF wf f]
  define pre B where "pre = sb_head src @ u32_to_le (of_nat (ss_dim src)) @ u64_to_le nonce @ u32_to_le (of_nat MAX_OPS)"
    and "B = ss_boundaries src @ ss_centroids src"
  have lB: "length B = 2 * 2 ^ ss_bit_width src - 1"
    using wf_sourceD(6,7) [OF wf] by (simp add: B_def n_levels_def)
  have lp: "length pre = sb_fixed_of (ss_version src)" using length_sb_head [OF wf] by (simp add: pre_def)
  obtain tl where eq: "f = (pre @ f32s_to_le B) @ u32_to_le (of_nat (length (ss_tqplus_shift src))) @ tl"
    by (simp add: f superblock_eq sb_body_def pre_def B_def)
  have nc: "read_u32 f (sb_fixed_of (ss_version src) + (2 * 2 ^ ss_bit_width src - 1) * 4)
      = Some (of_nat (length (ss_tqplus_shift src)))"
    by (rule read_u32_at [OF eq]) (simp add: lp lB)
  have hd: "f = sb_head src @ (u32_to_le (of_nat (ss_dim src)) @ u64_to_le nonce @ u32_to_le (of_nat MAX_OPS)
      @ f32s_to_le B @ u32_to_le (of_nat (length (ss_tqplus_shift src))) @ tl)"
    using eq by (simp add: pre_def)
  note hb = sb_head_bytes [OF wf hd]
  have t: "take 64 f ! 5 = f ! 5" "take 64 f ! 6 = f ! 6" by simp_all
  have sl: "slice (take 64 f) (sb_fixed_of (ss_version src) - 16) 4 = u32_to_le (of_nat (ss_dim src))"
    using sn(3) by (simp add: slice_take sb_fixed_of_def)
  have ns: "unat (of_nat (length (ss_tqplus_shift src)) :: u32) = length (ss_tqplus_shift src)"
    and sh: "length (ss_tqplus_shift src) = 0 \<or> length (ss_tqplus_shift src) = ss_dim src"
    using l wf_sourceD(10) [OF wf] by (auto simp: loadable_def unat_of_nat_u32)
  have nd: "unat (of_nat (ss_dim src) :: u32) = ss_dim src" using wf_sourceD(10) [OF wf] by (simp add: unat_of_nat_u32)
  have g: "guard_opt (2 \<le> ss_bit_width src \<and> ss_bit_width src \<le> 4 \<and> ss_kind src \<le> 1 \<and> ss_layout src \<le> LAYOUT_PLANES) = Some ()"
    "guard_opt (ss_dim src = 0 \<or> ss_dim src mod 8 = 0 \<and> ss_dim src \<le> MAX_DIM) = Some ()"
    "guard_opt (ss_tqplus_shift src = [] \<or> length (ss_tqplus_shift src) = ss_dim src) = Some ()"
    using wf_sourceD(8,10-12) [OF wf] l sh
    by (auto simp: guard_opt_def loadable_def LAYOUT_SEQ_def LAYOUT_PLANES_def MAX_DIM_def)
  have r64: "get_range f 0 64 = Some (take 64 f)" using long by (simp add: get_range_def)
  show ?thesis
    unfolding probe_geo_def r64 Let_def
    using sn(1) [of 64] hb(3,4) nc
    by (simp add: t sl g nd ns src_geo_def)
qed

lemma choose_newest:
  assumes c: "choose_header f g = Some h" and m: "h' \<in> set (header_cands f g)" and d: "delta_ok f g h'"
  shows "\<not> unat (ph_gen h) < unat (ph_gen h')"
proof -
  have srt: "sorted (map (\<lambda>h. usize_max - unat (ph_gen h)) (header_cands f g))" by (simp add: header_cands_def)
  obtain i where i: "i < length (header_cands f g)" "h = header_cands f g ! i"
    "\<And>j. j < i \<Longrightarrow> \<not> delta_ok f g (header_cands f g ! j)"
    using c by (auto simp: choose_header_def find_Some_iff)
  obtain j where j: "j < length (header_cands f g)" "header_cands f g ! j = h'" using m by (auto simp: in_set_conv_nth)
  have "i \<le> j" using i(3) [of j] j d by (meson not_le)
  then have "usize_max - unat (ph_gen h) \<le> usize_max - unat (ph_gen h')"
    using sorted_nth_mono [OF srt, of i j] i j by simp
  moreover have "unat (ph_gen h') < 2 ^ LENGTH(64)" by (rule unsigned_less)
  then have "unat (ph_gen h') \<le> usize_max" by simp
  ultimately show ?thesis by linarith
qed

lemma parse_header_len:
  assumes p: "parse_header_at bs at g slot fl = Some h" and fl: "unit_at g (ph_n h div BLOCK) \<le> fl'"
  shows "parse_header_at bs at g slot fl' = Some h"
proof -
  obtain n64 where n: "read_u64 bs 8 = Some n64" "ph_n h = unat n64"
    "ph_n h div BLOCK * unit_len g \<le> usize_max" "unit_at g (ph_n h div BLOCK) \<le> usize_max"
    "unit_at g (ph_n h div BLOCK) \<le> fl"
    using p by (elim parse_header_atE)
  have "unat n64 div BLOCK * unit_len g + unit_at g 0 = unit_at g (ph_n h div BLOCK)"
    using n(2) by (simp add: unit_at_def)
  then show ?thesis
    using p n fl unfolding parse_header_at_def Let_def n(1) checked_mul_def checked_add_def
    by simp
qed

lemma parse_header_longer:
  "parse_header_at bs at g slot fl = Some h \<Longrightarrow> fl \<le> fl' \<Longrightarrow> parse_header_at bs at g slot fl' = Some h"
  using parse_header_len parse_header_at_facts(3) order_trans by blast

lemma parse_slot_take:
  assumes "parse_header_slot (take k f) g slot (length (take k f)) = Some h"
  shows "parse_header_slot f g slot (length f) = Some h"
proof -
  obtain bs where b: "get_range (take k f) (hdr_at g slot) (hdr_at g slot + hdr_len g) = Some bs"
    and p: "parse_header_at bs (hdr_at g slot) g slot (length (take k f)) = Some h"
    using assms by (auto simp: parse_header_slot_def Option.bind_eq_Some_conv)
  have "parse_header_at bs (hdr_at g slot) g slot (length f) = Some h" using parse_header_longer [OF p] by simp
  then show ?thesis using get_range_take [OF b] by (simp add: parse_header_slot_def)
qed

lemma delta_ok_take:
  assumes "delta_ok (take k f) g h"
  shows "delta_ok f g h"
proof -
  have "unit_at_image (take k f) g b = unit_at_image f g b" if "b \<in> set (delta_blocks h)" for b
    using delta_verified_units [OF assms [unfolded delta_ok_def] that]
      get_range_take [of k f "unit_at g b" "unit_at g b + unit_len g"]
    by (auto simp: unit_at_image_def)
  then show ?thesis using assms delta_verified_cong unfolding delta_ok_def by metis
qed

lemma take_commit:
  assumes c: "commit_at f g h" and ch: "choose_header f g = Some h" and dt: "detached h"
    and k: "unit_at g (ph_n h div BLOCK) \<le> k"
  shows "commit_at (take k f) g h \<and> choose_header (take k f) g = Some h"
proof -
  let ?s = "unat (ph_gen h mod 2)" and ?n = "unit_at g (ph_n h div BLOCK)"
  have fl: "?n \<le> length f" using commit_file_length [OF c] .
  have gr: "get_range (take k f) a b = get_range f a b" if "b \<le> ?n" for a b
    using that k fl by (auto simp: get_range_def drop_take min_def)
  have hs: "hdr_at g ?s + hdr_len g \<le> ?n" by (rule hdr_before_units [OF gen_parity])
  obtain bs where b: "get_range f (hdr_at g ?s) (hdr_at g ?s + hdr_len g) = Some bs"
    and p: "parse_header_at bs (hdr_at g ?s) g ?s (length f) = Some h"
    using c by (auto simp: commit_at_def parse_header_slot_def Option.bind_eq_Some_conv)
  have "parse_header_at bs (hdr_at g ?s) g ?s (length (take k f)) = Some h"
    using parse_header_len [OF p] k fl by simp
  then have ps: "parse_header_slot (take k f) g ?s (length (take k f)) = Some h"
    using b gr [OF hs] by (simp add: parse_header_slot_def)
  have "unit_at_image (take k f) g b = unit_at_image f g b" if "b \<in> set (delta_blocks h)" for b
  proof -
    have "b < ph_n h div BLOCK" using dt that by (auto simp: detached_def)
    then show ?thesis using gr unit_at_mono [of b "ph_n h div BLOCK" g] by (simp add: unit_at_image_def)
  qed
  then have "delta_ok (take k f) g h" using c delta_verified_cong by (metis commit_at_def delta_ok_def)
  then have ct: "commit_at (take k f) g h" using ps by (simp add: commit_at_def)
  from choose_after [OF ct] have "choose_header (take k f) g = Some h"
  proof
    assume "\<exists>h'. choose_header (take k f) g = Some h' \<and> delta_ok (take k f) g h' \<and>
      parse_header_slot (take k f) g (1 - ?s) (length (take k f)) = Some h' \<and> unat (ph_gen h) < unat (ph_gen h')"
    then obtain h' where h': "delta_ok (take k f) g h'" "unat (ph_gen h) < unat (ph_gen h')"
      "parse_header_slot (take k f) g (1 - ?s) (length (take k f)) = Some h'" by blast
    have "h' \<in> set (header_cands f g)" using parsed_cand [OF _ parse_slot_take [OF h'(3)]] by simp
    then show ?thesis using choose_newest [OF ch _ delta_ok_take [OF h'(1)]] h'(2) by blast
  qed
  then show ?thesis using ct by blast
qed

lemma declared_len_covers:
  assumes g: "probe_geo f = Some g" and c: "commit_at f g h" and d: "declared_len f = Some l"
  shows "unit_at g (ph_n h div BLOCK) \<le> l"
proof -
  obtain h0 h1 where h: "get_range f (hdr_at g 0) (hdr_at g 0 + 16) = Some h0"
      "get_range f (hdr_at g 1) (hdr_at g 1 + 16) = Some h1"
    and l: "l = unit_at g 0 + unit_len g *
      (max (unat (u64_from_le (slice h0 8 8))) (unat (u64_from_le (slice h1 8 8))) div BLOCK)"
    using d g by (auto simp: declared_len_def Let_def Option.bind_eq_Some_conv checked_add_def checked_mul_def
        split: if_splits)
  let ?s = "unat (ph_gen h mod 2)"
  obtain bs where b: "get_range f (hdr_at g ?s) (hdr_at g ?s + hdr_len g) = Some bs"
    and p: "parse_header_at bs (hdr_at g ?s) g ?s (length f) = Some h"
    using c by (auto simp: commit_at_def parse_header_slot_def Option.bind_eq_Some_conv)
  have n: "read_u64 bs 8 = Some n64 \<Longrightarrow> ph_n h = unat n64" for n64
    using p by (elim parse_header_atE) simp
  have p16: "16 \<le> hdr_len g" by (simp add: hdr_len_def)
  have "slice hs 8 8 = slice bs 8 8 \<and> get_range bs 8 (8 + 8) = Some (slice bs 8 8)"
    if "get_range f (hdr_at g ?s) (hdr_at g ?s + 16) = Some hs" for hs
  proof -
    have "bs = slice f (hdr_at g ?s) (hdr_len g)" "hs = slice f (hdr_at g ?s) 16" "length bs = hdr_len g"
      using b that by (auto simp: slice_Some slice_length)
    then show ?thesis using p16 slice_Some [of bs 8 8] by (simp add: slice_slice)
  qed
  then have eq: "unat (u64_from_le (slice hs 8 8)) = ph_n h"
    if "get_range f (hdr_at g ?s) (hdr_at g ?s + 16) = Some hs" for hs
    using that n by (simp add: read_u64_def)
  have "?s = 0 \<or> ?s = 1" using gen_parity [of "ph_gen h"] by linarith
  then have "ph_n h \<le> max (unat (u64_from_le (slice h0 8 8))) (unat (u64_from_le (slice h1 8 8)))"
    using eq h by auto
  then have "ph_n h div BLOCK \<le> max (unat (u64_from_le (slice h0 8 8))) (unat (u64_from_le (slice h1 8 8))) div BLOCK"
    by (rule div_le_mono)
  then show ?thesis unfolding l by (simp add: unit_at_def)
qed


lemma take_committed_row:
  assumes c: "commit_at f g h" and k: "unit_at g (ph_n h div BLOCK) \<le> k"
  shows "committed_row (take k f) g h s = committed_row f g h s"
proof -
  let ?n = "unit_at g (ph_n h div BLOCK)"
  have fl: "?n \<le> length f" using commit_file_length [OF c] .
  have gr: "get_range (take k f) a b = get_range f a b" if "b \<le> ?n" for a b
    using that k fl by (auto simp: get_range_def drop_take min_def)
  have hs: "hdr_at g (unat (ph_gen h mod 2)) + hdr_len g \<le> ?n" by (rule hdr_before_units [OF gen_parity])
  have "get_range (take k f) (ph_tail_at h + s mod BLOCK * tail_row g) (ph_tail_at h + s mod BLOCK * tail_row g + tail_row g)
      = get_range f (ph_tail_at h + s mod BLOCK * tail_row g) (ph_tail_at h + s mod BLOCK * tail_row g + tail_row g)"
    if n: "s < ph_n h" and q: "ph_n h div BLOCK \<le> s div BLOCK"
  proof -
    have "s div BLOCK = ph_n h div BLOCK" using n q by (meson div_le_mono le_antisym less_imp_le)
    then have "s mod BLOCK < ph_n h mod BLOCK"
      using n div_mult_mod_eq [of s BLOCK] div_mult_mod_eq [of "ph_n h" BLOCK] by linarith
    then show ?thesis using commit_row_in_slot(1) [OF c, of "s mod BLOCK"] hs by (intro gr) linarith
  qed
  moreover have "get_range (take k f) at (at + tail_row g) = get_range f at (at + tail_row g)"
    if "map_of (rev (op_list h)) s = Some at" for at
  proof -
    have "(s, at) \<in> set (op_list h)" using that by (auto dest: map_of_SomeD)
    then show ?thesis using commit_row_in_slot(2) [OF c, of s at] hs by (intro gr) linarith
  qed
  moreover have "unit_at_image (take k f) g (s div BLOCK) = unit_at_image f g (s div BLOCK)"
    if "\<not> ph_n h div BLOCK \<le> s div BLOCK"
    using that unit_at_mono [of "s div BLOCK" "ph_n h div BLOCK" g] unfolding unit_at_image_def by (intro gr) simp
  ultimately show ?thesis by (auto simp: committed_row_def split: option.splits)
qed

lemma take_holds_commit:
  assumes hc: "holds_commit g f h src nonce" and k: "unit_at g (ph_n h div BLOCK) \<le> k"
    and ch: "choose_header f g = Some h" and dt: "detached h"
  shows "holds_commit g (take k f) h src nonce"
proof -
  let ?n = "unit_at g (ph_n h div BLOCK)"
  have c: "commit_at f g h" and tops: "scale_tops_ok f g (ph_n h)"
    and sb: "get_range f 0 (sb_len g) = Some (superblock src nonce)"
    using hc unfolding holds_commit_def by blast+
  have fl: "?n \<le> length f" using commit_file_length [OF c] .
  have "scale_tops_ok (take k f) g (ph_n h)"
    unfolding scale_tops_ok_def
  proof (intro allI impI)
    fix b lane :: nat
    assume b: "b < ph_n h div BLOCK" and lane: "lane < BLOCK"
    have "BLOCK * row_bytes g + lane * 4 + 3 < unit_len g" using lane by (simp add: unit_len_def)
    then have "unit_at g b + (BLOCK * row_bytes g + lane * 4 + 3) < k"
      using unit_at_mono [OF b, of g] k by linarith
    then show "take k f ! (unit_at g b + (BLOCK * row_bytes g + lane * 4 + 3)) < 0x64"
      using tops b lane by (simp add: scale_tops_ok_def)
  qed
  moreover have "sb_len g \<le> ?n" by (simp add: unit_at_def hdr_at_def)
  then have "get_range (take k f) 0 (sb_len g) = Some (superblock src nonce)"
    using sb k fl by (auto simp: get_range_def drop_take min_def split: if_splits)
  ultimately show ?thesis
    using hc take_commit [OF c ch dt k] take_committed_row [OF c k] by (simp add: holds_commit_def)
qed

lemma load_file_synced:
  assumes s: "synced g f h cursor pending src" and l: "loadable nm src" and seq: "g_layout g \<noteq> LAYOUT_PLANES"
    and dim: "ss_dim src = 0 \<longrightarrow> ss_n_vectors src = 0"
  shows "\<exists>l. load_file nm f calib_gen (ss_kind src) = Inr l \<and> vl_n_vectors l = ss_n_vectors src \<and>
    set (vl_pending_slots l) = pending \<and> (\<forall>s < ss_n_vectors src. loaded_row g l s = row_record src s)"
proof -
  have i: "synced_inv g f h cursor pending src" using s by (rule synced_invariant)
  then have hc: "holds_commit g f h src (sc_nonce cursor)" and h: "choose_header f g = Some h"
    and p: "pending = set (op_slots h)" and dt: "detached h" and c: "commit_at f g h" and g: "src_geo src = g"
    by (auto simp: synced_inv_def holds_commit_def)
  have fl: "unit_at g (ph_n h div BLOCK) \<le> length f" using commit_file_length [OF c] .
  obtain rest where r: "f = superblock src (sc_nonce cursor) @ rest"
    using i superblock_prefix unfolding synced_inv_def by metis
  have "64 \<le> length f" using fl by (simp add: unit_at_def hdr_at_def hdr_len_def MAX_OPS_def op_size_def)
  then have pg: "probe_geo f = Some g" using probe_geo_written [OF l r] g by simp
  let ?k = "min (case declared_len f of Some l \<Rightarrow> l | None \<Rightarrow> length f) (length f)"
  have k: "unit_at g (ph_n h div BLOCK) \<le> ?k"
    using declared_len_covers [OF pg c] fl by (auto split: option.splits)
  have h': "choose_header (take ?k f) g = Some h" using take_commit [OF c h dt k] by blast
  from load_commit [OF take_holds_commit [OF hc k h dt] l seq h' dim, of calib_gen]
  show ?thesis using p by (auto simp: load_file_def Let_def)
qed

text \<open>After a told cut the file opens, to the rows of the one sync or of the other.\<close>

lemma loadable_same_codec:
  assumes "loadable nm src" "wf_source src'" "src_geo src' = src_geo src" "same_codec src src'"
  shows "loadable nm src'"
proof -
  have "ss_dim src' = ss_dim src" "ss_bit_width src' = ss_bit_width src" "ss_layout src' = ss_layout src"
    using src_geo_simps [of src'] src_geo_simps [of src] assms(3) by metis+
  then show ?thesis using assms by (simp add: loadable_def same_codec_def)
qed

lemma load_told_cut:
  assumes s: "synced g f h cursor pending src"
    and wf: "wf_source src'" "seq_source src'" "bounded_scales src'" "src_geo src' = g"
    and codec: "same_codec src src'" and rows: "finite fresh" "rows_unchanged src src' fresh"
    and cs: "cursor_state (Some f) cursor g = CsIntact clear" and cut: "told_cut g src' cursor pending fresh clear f f'"
    and l: "loadable nm src" and seq: "g_layout g \<noteq> LAYOUT_PLANES"
    and dim: "ss_dim src = 0 \<longrightarrow> ss_n_vectors src = 0 \<and> ss_n_vectors src' = 0"
  defines "old \<equiv> choose_header f' g = Some h"
  defines "kept \<equiv> if old then src else src'"
    and "redo \<equiv> if old then pending else set (plan_carried (live_floor src' cursor) pending fresh)"
  shows "(\<exists>l. load_file nm f' calib_gen (ss_kind src) = Inr l \<and> vl_n_vectors l = ss_n_vectors kept \<and>
      set (vl_pending_slots l) = redo \<and> (\<forall>s < ss_n_vectors kept. loaded_row g l s = row_record kept s)) \<and>
    (\<exists>l. load_image nm f' calib_gen (ss_kind src) = Inr l \<and> vl_n_vectors l = ss_n_vectors kept \<and>
      set (vl_pending_slots l) = redo \<and> (\<forall>s < ss_n_vectors kept. loaded_row g l s = row_record kept s))"
proof -
  have g: "src_geo src = g" using synced_invariant [OF s] by (simp add: synced_inv_def)
  then have same: "ss_kind src' = ss_kind src" "ss_dim src' = ss_dim src" using src_geo_simps [of src'] src_geo_simps [of src] wf(4) by metis+
  obtain pl where pl: "plan_incremental src' cursor pending fresh clear = Some pl" using cut by (auto simp: told_cut_def)
  have lk: "loadable nm kept" using l loadable_same_codec [OF l wf(1) _ codec] g wf(4) by (simp add: kept_def)
  have k: "ss_kind kept = ss_kind src" "ss_dim kept = 0 \<longrightarrow> ss_n_vectors kept = 0" using same dim by (simp_all add: kept_def)
  have "\<exists>h' c. synced g f' h' c redo kept"
    using synced_cut [OF s wf codec rows pl cut synced_clears_ahead [OF s cs]] plan_incremental_Some [OF pl]
    by (cases old) (auto simp: kept_def redo_def old_def)
  then obtain h' c where s': "synced g f' h' c redo kept" by blast
  show ?thesis using load_file_synced [OF s' lk seq k(2)] load_synced [OF s' lk seq k(2)] unfolding k(1) by blast
qed

end
