(* ===== verification/Demo.thy ===== *)
theory Demo
  imports SyncHistory
begin

text \<open>
  A small concrete index, used by the witnesses: dimension 8 at 4 bits (4 code bytes per row),
  row \<open>r\<close> carries the code byte \<open>r\<close> followed by \<open>tag\<close>, unit scales 1.0, no ids.
\<close>

definition demo :: "nat \<Rightarrow> u8 \<Rightarrow> sync_source" where
  "demo n tag =
     \<lparr>ss_kind = 0, ss_dim = 8, ss_bit_width = 4, ss_n_vectors = n, ss_version = 8,
      ss_layout = LAYOUT_SEQ,
      ss_unit_codes = (\<lambda>from to. map (\<lambda>i. if i < 32 then of_nat (from + i)
                                           else if i < 64 then tag else 0) [0..<128]),
      ss_row_codes = (\<lambda>r. [of_nat r, tag, 0, 0]),
      ss_scales = replicate n 0x3F800000, ss_ids = None, ss_tqplus_shift = [], ss_tqplus_scale = [],
      ss_boundaries = replicate 15 0, ss_centroids = replicate 16 0\<rparr>"

definition demo_geo :: geo where
  "demo_geo = \<lparr>g_kind = 0, g_dim = 8, g_bit_width = 4, g_n_calib = 0, g_version = 8, g_layout = 0\<rparr>"

lemma demo_simps [simp]:
  "ss_kind (demo n tag) = 0" "ss_dim (demo n tag) = 8" "ss_bit_width (demo n tag) = 4"
  "ss_n_vectors (demo n tag) = n" "ss_ids (demo n tag) = None"
  "ss_scales (demo n tag) = replicate n 0x3F800000"
  "ss_row_codes (demo n tag) = (\<lambda>r. [of_nat r, tag, 0, 0])"
  by (simp_all add: demo_def)

lemma demo_geo [simp]: "src_geo (demo n tag) = demo_geo"
  by (simp add: src_geo_def demo_geo_def demo_def LAYOUT_SEQ_def)

lemma row_bytes_demo [simp]: "row_bytes demo_geo = 4"
  by (simp add: row_bytes_def blocked_geometry_def demo_geo_def Let_def)

lemma demo_geo_simps [simp]:
  "g_kind demo_geo = 0" "g_dim demo_geo = 8" "g_bit_width demo_geo = 4" "g_n_calib demo_geo = 0"
  "g_version demo_geo = 8" "g_layout demo_geo = 0"
  by (simp_all add: demo_geo_def)

lemma wf_demo: "n < 32 * 4294967296 \<Longrightarrow> wf_source (demo n tag)"
  unfolding wf_source_def Let_def demo_geo row_bytes_demo
  by (simp add: n_levels_def) (simp add: demo_def)

lemma seq_demo: "seq_source (demo n tag)"
proof -
  have "map (\<lambda>i. if i < 32 then of_nat (b * BLOCK + i) else if i < 64 then tag else 0) [0..<128] ! (i * BLOCK + lane)
      = [of_nat (b * BLOCK + lane), tag, 0, 0] ! i" if "lane < BLOCK" "i < 4" for b lane i
  proof -
    have "i \<in> {0, 1, 2, 3}" using that(2) by auto
    then show ?thesis using that(1) by auto
  qed
  then show ?thesis unfolding seq_source_def demo_geo row_bytes_demo by (simp add: demo_def)
qed

lemma bounded_demo: "bounded_scales (demo n tag)"
  by (simp add: bounded_scales_def)

lemma same_codec_demo: "same_codec (demo n tag) (demo m tag')"
  by (simp add: same_codec_def demo_def)

lemma demo_image_len: "length (write_image (demo n tag) gen nonce) = full_len demo_geo n"
  if "n < 32 * 4294967296"
  using length_write_image [OF wf_demo [OF that]] by simp

lemma demo_unit_len [simp]: "unit_len demo_geo = 256"
  by (simp add: unit_len_def id_bytes_def)

lemma demo_hdr_at_2: "hdr_at demo_geo 2 = 37596"
  by (simp add: hdr_at_def sb_len_def sb_fixed_def n_levels_def hdr_len_def op_size_def id_bytes_def MAX_OPS_def)

lemma demo_full_len: "full_len demo_geo n = 37596 + n div BLOCK * 256"
  by (simp add: full_len_def unit_at_def demo_hdr_at_2)

end
