(* ===== verification/SyncTheorems.thy ===== *)
theory SyncTheorems
  imports Demo
begin

text \<open>
  The properties of the sync protocol, each with an instance on the small index of \<open>Demo\<close>.
\<close>

section \<open>Instances\<close>

lemma length_plan_carried:
  assumes "finite pending" "finite fresh"
  shows "length (plan_carried floor pending fresh) \<le> card (pending \<union> fresh)"
proof -
  have "card (Set.filter (\<lambda>s. s < floor \<and> s div BLOCK \<in> fresh_units floor fresh) (pending \<union> fresh))
      \<le> card (pending \<union> fresh)"
    using assms by (intro card_mono) auto
  then show ?thesis by (simp add: plan_carried_def)
qed

lemma plan_incremental_total:
  assumes "finite pending" "finite fresh" "card (pending \<union> fresh) \<le> MAX_OPS"
  shows "\<exists>pl. plan_incremental src cursor pending fresh clear = Some pl"
  using length_plan_carried [OF assms(1,2), of "live_floor src cursor"] assms(3)
  by (auto simp: plan_incremental_def Let_def)

abbreviation demo_file :: bytes where "demo_file \<equiv> write_image (demo 33 0) 0 5"

abbreviation demo_cursor :: sync_cursor where
  "demo_cursor \<equiv> \<lparr>sc_gen = 0, sc_n_synced = 33, sc_calib_gen = 1, sc_nonce = 5\<rparr>"

lemma demo_synced: "synced demo_geo demo_file (image_commit (demo 33 0)) demo_cursor {} (demo 33 0)"
  by (rule synced_full [where calib_gen = 1 and nonce = 5])
    (simp_all add: wf_demo seq_demo bounded_demo write_full_inner_def demo_image_len demo_full_len)

lemma demo_plan:
  obtains pl where "plan_incremental (demo 70 7) demo_cursor {} {..<32} None = Some pl"
  using plan_incremental_total [of "{}" "{..<32}" "demo 70 7" demo_cursor None]
  by (auto simp: MAX_OPS_def)

lemma demo_rows: "rows_unchanged (demo 33 0) (demo 70 7) {..<32}"
  by (simp add: rows_unchanged_def)

text \<open>The finished sync of the instance.\<close>

lemma demo_ready: "sync_ready demo_file demo_geo (image_commit (demo 33 0)) (demo 70 7) demo_cursor {} {..<32}"
  using synced_inv_ready [OF synced_invariant [OF demo_synced]] by (simp add: wf_demo)

lemma demo_step:
  assumes pl: "plan_incremental (demo 70 7) demo_cursor {} {..<32} None = Some pl" and run: "run_sync pl demo_file = (f', cursor')"
  shows "synced demo_geo f' (planned_hdr (demo 70 7) demo_cursor {} {..<32}) cursor' (set (sp_carried pl)) (demo 70 7)"
proof -
  note r = demo_ready
  have "length f' \<le> usize_max"
  proof -
    have "f' = run_batch (plan_batch (demo 70 7) demo_cursor {} {..<32}) demo_file"
      using run plan_incremental_Some [OF pl] by (simp add: run_sync_def)
    moreover have "\<forall>w \<in> set (plan_batch (demo 70 7) demo_cursor {} {..<32}). fst w + length (snd w) \<le> 200000"
    proof
      fix w
      assume "w \<in> set (plan_batch (demo 70 7) demo_cursor {} {..<32})"
      then consider b where "b \<in> set (plan_blocks (demo 70 7) demo_cursor {} {..<32})"
          "w = (unit_at demo_geo b, unit_bytes (demo 70 7) b)"
        | "w = (hdr_at demo_geo 1, plan_header (demo 70 7) demo_cursor {} {..<32})"
        by (auto simp: plan_batch_def Let_def)
      then show "fst w + length (snd w) \<le> 200000"
      proof cases
        case 1
        then show ?thesis
          using length_unit_bytes_plan [OF r 1(1)] plan_blocks_bound [OF _ 1(1)]
          by (simp add: unit_at_def demo_hdr_at_2)
      next
        case 2
        then show ?thesis
          using plan_header_fits [OF r] plan_incremental_Some [OF pl] hdr_at_mono [of 1 2 demo_geo]
          by (simp add: demo_hdr_at_2)
      qed
    qed
    ultimately show ?thesis
      using run_batch_length_le [of "plan_batch (demo 70 7) demo_cursor {} {..<32}" 200000 demo_file]
      by (simp add: demo_image_len demo_full_len)
  qed
  then show ?thesis
    by (intro synced_step [OF demo_synced _ _ _ _ same_codec_demo _ demo_rows pl run])
      (simp_all add: wf_demo seq_demo bounded_demo)
qed

section \<open>Properties\<close>

text \<open>C10. Power-cut safety. After any history of syncs, cut the next sync anywhere: any subset of
  the bytes of any prefix of its batches may be on disk. The last commit is still adoptable, every
  row it held reads back with its old bytes, and the loader picks that commit, or else the other
  slot's one with a newer generation whose delta digest matches the units on disk.\<close>

theorem sync_power_cut:
  assumes "synced g f h cursor pending src"
    and "wf_source src'" and "seq_source src'" and "bounded_scales src'" and "src_geo src' = g"
    and "finite fresh"
    and "rows_unchanged src src' fresh"
    and "plan_incremental src' cursor pending fresh clear = Some pl"
    and "sync_crash (sp_batches pl) f f'"
  shows "commit_at f' g h
    \<and> (\<forall>k < ss_n_vectors src. committed_row f' g h k = Some (row_record src k))
    \<and> (choose_header f' g = Some h \<or>
       (\<exists>h'. choose_header f' g = Some h' \<and> delta_ok f' g h' \<and> unat (ph_gen h) < unat (ph_gen h') \<and>
         parse_header_slot f' g (1 - unat (ph_gen h mod 2)) (length f') = Some h'))"
  using synced_crash [OF assms] choose_after by blast

text \<open>Instance: one byte of the new header lands, nothing else.\<close>

theorem sync_power_cut_witness:
  "\<exists>pl f'. plan_incremental (demo 70 7) demo_cursor {} {..<32} None = Some pl \<and>
     sync_crash (sp_batches pl) demo_file f' \<and> commit_at f' demo_geo (image_commit (demo 33 0)) \<and>
     committed_row f' demo_geo (image_commit (demo 33 0)) 5 = Some (row_record (demo 33 0) 5)"
proof -
  obtain pl where pl: "plan_incremental (demo 70 7) demo_cursor {} {..<32} None = Some pl"
    by (rule demo_plan)
  have b: "sp_batches pl = [plan_batch (demo 70 7) demo_cursor {} {..<32}]"
    using plan_incremental_Some [OF pl] by simp
  let ?f' = "write_at (hdr_at demo_geo 1 + 0) [plan_header (demo 70 7) demo_cursor {} {..<32} ! 0] demo_file"
  have "0 < length (plan_header (demo 70 7) demo_cursor {} {..<32})"
    by (simp add: plan_header_def header_slot_def Let_def)
  then have "torn (plan_batch (demo 70 7) demo_cursor {} {..<32}) demo_file ?f'"
    by (intro torn_byte torn_none) (auto simp: plan_batch_def Let_def)
  then have c: "sync_crash (sp_batches pl) demo_file ?f'" unfolding b by (rule crash_in)
  have r: "wf_source (demo 70 7)" by (simp add: wf_demo)
  from sync_power_cut [OF demo_synced r seq_demo bounded_demo _ _ demo_rows pl c] show ?thesis
    using pl c by (intro exI [of _ pl] exI [of _ ?f']) simp
qed

text \<open>C11. What a history of syncs leaves: the loader adopts the header of the last sync, and the
  row it takes for every slot is that sync's source row; the pending slots kept in memory are
  exactly the redo ops the header carries.\<close>

theorem sync_history_rows:
  assumes "synced g f h cursor pending src"
  shows "choose_header f g = Some h \<and> ph_n h = ss_n_vectors src \<and> pending = set (op_slots h) \<and>
    (\<forall>k < ss_n_vectors src. committed_row f g h k = Some (row_record src k))"
  using synced_invariant [OF assms] by (simp add: synced_inv_def)

theorem sync_history_rows_witness:
  "\<exists>pl f' cursor'. plan_incremental (demo 70 7) demo_cursor {} {..<32} None = Some pl \<and>
     run_sync pl demo_file = (f', cursor') \<and>
     committed_row f' demo_geo (planned_hdr (demo 70 7) demo_cursor {} {..<32}) 69
       = Some (row_record (demo 70 7) 69)"
proof -
  obtain pl where pl: "plan_incremental (demo 70 7) demo_cursor {} {..<32} None = Some pl"
    by (rule demo_plan)
  obtain f' cursor' where run: "run_sync pl demo_file = (f', cursor')" by force
  note s = demo_step [OF pl run]
  from sync_history_rows [OF s] show ?thesis using pl run by auto
qed

end
