(* ===== verification/Damage.thy ===== *)
theory Damage
  imports SyncTheorems
begin

text \<open>
  What the checksums catch: a single damaged byte in any unit a commit's delta digest covers makes
  the loader refuse that commit, so a newer header over half-written units falls back to the older
  one. CRC-32C maps any two byte strings that differ in one byte to different values
  (\<open>crc32_list_update\<close>); here that is carried through the digest's stream of units.
\<close>

lemma delta_stream_update:
  assumes "i < length bs" and "length us = length bs" and "j < length (us ! i)"
  obtains k where "k < length (delta_stream gen (zip bs us))" "delta_stream gen (zip bs us) ! k = us ! i ! j"
    "\<And>v. delta_stream gen (zip bs (us[i := (us ! i)[j := v]])) = (delta_stream gen (zip bs us))[k := v]"
proof -
  let ?c = "\<lambda>zs. concat (map (\<lambda>(b, body). u32_to_le (of_nat b) @ body) zs)"
  define P Q where "P = u64_to_le gen @ ?c (zip (take i bs) (take i us)) @ u32_to_le (of_nat (bs ! i))"
    and "Q = ?c (zip (drop (Suc i) bs) (drop (Suc i) us))"
  have i: "i < length us" using assms by simp
  have split: "zip bs (us[i := x]) = zip (take i bs) (take i us) @ (bs ! i, x) # zip (drop (Suc i) bs) (drop (Suc i) us)"
    for x
    using assms(1) i by (subst (1) id_take_nth_drop [OF assms(1)]) (simp add: upd_conv_take_nth_drop)
  have s: "delta_stream gen (zip bs (us[i := x])) = P @ x @ Q" for x
    unfolding split by (simp add: delta_stream_def P_def Q_def)
  have "delta_stream gen (zip bs us) = P @ us ! i @ Q" using s [of "us ! i"] by simp
  with assms(3) show thesis
    by (intro that [of "length P + j"]) (simp_all add: s nth_append list_update_append)
qed

lemma get_range_update_same:
  "get_range f a (a + k) = Some u \<Longrightarrow> j < k \<Longrightarrow> get_range (f[a + j := v]) a (a + k) = Some (u[j := v])"
  by (auto simp: get_range_Some drop_update_swap take_update_swap)

lemma get_range_update_other:
  "p < a \<or> a + k \<le> p \<Longrightarrow> get_range (f[p := v]) a (a + k) = get_range f a (a + k)"
  by (auto simp: get_range_def take_update_swap drop_update_swap list_update_beyond)

lemma unit_other:
  assumes "b' \<noteq> b" and "j < unit_len g"
  shows "unit_at_image (f[unit_at g b + j := v]) g b' = unit_at_image f g b'"
proof -
  have "Suc (min b b') * unit_len g \<le> max b b' * unit_len g" using assms(1) by (intro mult_le_mono1) simp
  then show ?thesis
    using assms unfolding unit_at_image_def
    by (intro get_range_update_other) (auto simp: unit_at_def min_def max_def split: if_splits)
qed

lemma delta_detects_byte:
  assumes ok: "delta_ok f g h" and dist: "distinct (delta_blocks h)" and b: "b \<in> set (delta_blocks h)"
    and j: "j < unit_len g" and v: "f ! (unit_at g b + j) \<noteq> v"
    and small: "8 + length (delta_blocks h) * (4 + unit_len g) \<le> usize_max"
  shows "\<not> delta_ok (f[unit_at g b + j := v]) g h"
proof
  let ?f = "f[unit_at g b + j := v]" and ?bs = "delta_blocks h"
  assume ok': "delta_ok ?f g h"
  have len: "length u = unit_len g" if "unit_at_image raw g b = Some u" for raw b u
    using that by (auto simp: unit_at_image_def get_range_Some)
  have iff: "delta_verified h (unit_len g) (unit_at_image raw g) \<longleftrightarrow> (\<exists>us. map (unit_at_image raw g) ?bs = map Some us \<and>
      crc32 (delta_stream (ph_gen h) (zip ?bs us)) = ph_delta_crc h)" for raw
    by (rule delta_verified_iff [OF len small])
  from ok obtain us where us: "map (unit_at_image f g) ?bs = map Some us"
    and crc: "crc32 (delta_stream (ph_gen h) (zip ?bs us)) = ph_delta_crc h"
    unfolding delta_ok_def iff by blast
  from ok' obtain us' where us': "map (unit_at_image ?f g) ?bs = map Some us'"
    and crc': "crc32 (delta_stream (ph_gen h) (zip ?bs us')) = ph_delta_crc h"
    unfolding delta_ok_def iff by blast
  obtain i where i: "i < length ?bs" "?bs ! i = b" using b by (auto simp: in_set_conv_nth)
  have l: "length us = length ?bs" "length us' = length ?bs"
    using us us' by (metis length_map)+
  have nth: "unit_at_image f g (?bs ! m) = Some (us ! m)" "unit_at_image ?f g (?bs ! m) = Some (us' ! m)"
    if "m < length ?bs" for m
    using that l arg_cong [OF us, of "\<lambda>xs. xs ! m"] arg_cong [OF us', of "\<lambda>xs. xs ! m"] by simp_all
  have ub: "get_range f (unit_at g b) (unit_at g b + unit_len g) = Some (us ! i)"
    using nth(1) [OF i(1)] i(2) by (simp add: unit_at_image_def)
  have "us' = us[i := (us ! i)[j := v]]"
  proof (rule nth_equalityI)
    fix m
    assume "m < length us'"
    then have m: "m < length ?bs" using l by simp
    show "us' ! m = us[i := (us ! i)[j := v]] ! m"
    proof (cases "m = i")
      case True
      then show ?thesis
        using nth(2) [OF m] get_range_update_same [OF ub j, of v] i l by (simp add: unit_at_image_def)
    next
      case False
      then have "?bs ! m \<noteq> b" using dist m i by (metis nth_eq_iff_index_eq)
      then show ?thesis using nth [OF m] unit_other [OF _ j, of "?bs ! m" b f v] False by simp
    qed
  qed (simp add: l)
  moreover have ui: "j < length (us ! i)" "us ! i ! j = f ! (unit_at g b + j)"
    using ub j by (auto simp: get_range_Some)
  moreover obtain k where "k < length (delta_stream (ph_gen h) (zip ?bs us))"
    "delta_stream (ph_gen h) (zip ?bs us) ! k = us ! i ! j"
    "\<And>v. delta_stream (ph_gen h) (zip ?bs (us[i := (us ! i)[j := v]])) = (delta_stream (ph_gen h) (zip ?bs us))[k := v]"
    using delta_stream_update [OF i(1) l(1) ui(1)] by blast
  ultimately show False
    using crc crc' crc32_list_update [of k "delta_stream (ph_gen h) (zip ?bs us)" v] v by simp
qed

end
