(* ===== verification/TornDemo.thy ===== *)
theory TornDemo
  imports CursorState SyncTheorems Damage
begin

text \<open>
  Two cuts of the first incremental sync after a full write, for the instances of the power-cut theorems: the
  header lands without its first byte, or the header lands whole and the first byte of a unit is missing. No
  checksum is fooled by either.
\<close>

section \<open>Torn writes\<close>

lemma torn_write_rest:
  assumes "(off, b # bs) \<in> set ops" "bs \<noteq> []"
  shows "torn ops f (write_at (off + 1) bs f)"
proof -
  have "torn ops f (write_at (off + 1) (take (Suc k) bs) f)" if "k < length bs" for k
    using that
  proof (induction k)
    case 0
    then have "take (Suc 0) bs = [(b # bs) ! 1]" by (cases bs) simp_all
    then show ?case using torn_byte [OF torn_none assms(1), of 1 f] 0 by simp
  next
    case (Suc k)
    have "take (Suc (Suc k)) bs = take (Suc k) bs @ [(b # bs) ! (Suc (Suc k))]" using Suc.prems by (simp add: take_Suc_conv_app_nth)
    then have "write_at (off + 1) (take (Suc (Suc k)) bs) f
        = write_at (off + Suc (Suc k)) [(b # bs) ! Suc (Suc k)] (write_at (off + 1) (take (Suc k) bs) f)"
      using write_at_snoc [of "off + 1" "take (Suc k) bs" "(b # bs) ! (Suc (Suc k))" f] Suc.prems by (simp add: min_def)
    then show ?case using torn_byte [OF Suc.IH assms(1), of "Suc (Suc k)"] Suc.prems by simp
  qed
  from this [of "length bs - 1"] assms(2) show ?thesis by simp
qed

lemma slot_elsewhere:
  assumes "off + length bs \<le> hdr_at g slot \<or> hdr_at g slot + hdr_len g \<le> off" "hdr_at g slot + hdr_len g \<le> length f"
  shows "slot_bytes (write_at off bs f) g slot = slot_bytes f g slot"
  unfolding slot_bytes_def
  by (rule get_range_cong) (use assms length_write_at_ge [of f off bs] in \<open>auto intro!: nth_write_at_out\<close>)

lemma slot_written:
  assumes "slot_bytes f g slot = Some bs" "k + length w \<le> hdr_len g"
  shows "slot_bytes (write_at (hdr_at g slot + k) w f) g slot = Some (take k bs @ w @ drop (k + length w) bs)"
proof -
  define P Q where "P = take (hdr_at g slot) f" and "Q = drop (hdr_at g slot + hdr_len g) f"
  have l: "hdr_at g slot + hdr_len g \<le> length f" and b: "bs = take (hdr_len g) (drop (hdr_at g slot) f)"
    using assms(1) by (auto simp: slot_bytes_def get_range_Some)
  have "Q = drop (hdr_len g) (drop (hdr_at g slot) f)" by (simp add: Q_def add.commute)
  then have f: "f = P @ bs @ Q" unfolding P_def b by (simp only: append_take_drop_id)
  have len: "length P = hdr_at g slot" "length bs = hdr_len g" using l b by (simp_all add: P_def)
  have "write_at (hdr_at g slot + k) w f = P @ (take k bs @ w @ drop (k + length w) bs) @ Q"
    unfolding f using len assms(2) by (simp add: write_at_def)
  then show ?thesis unfolding slot_bytes_def using len assms(2) by (intro get_range_at) auto
qed

text \<open>Where no slot holds a new mixture of bytes that reads well, the header checksum is not fooled.\<close>

lemma header_told_slots:
  assumes "\<And>slot. slot < 2 \<Longrightarrow> slot_bytes f' g slot \<in> {slot_bytes f g slot, slot_bytes (run_batch b f) g slot} \<or>
    parse_header_slot f' g slot (length f') = None"
  shows "header_told g b f f'"
  unfolding header_told_def
proof (intro allI impI)
  fix slot bs h
  assume s: "slot < 2" "slot_bytes f' g slot = Some bs" "parse_header_at bs (hdr_at g slot) g slot (length f') = Some h"
  then have "parse_header_slot f' g slot (length f') = Some h" by (auto simp: parse_slot_bytes)
  then have "slot_bytes f g slot = Some bs \<or> slot_bytes (run_batch b f) g slot = Some bs" using assms [OF s(1)] s(2) by auto
  then show "\<exists>f0 \<in> {f, run_batch b f}. \<exists>bs0. slot_bytes f0 g slot = Some bs0 \<and> take (ph_used h) bs0 = take (ph_used h) bs" by auto
qed

section \<open>The slot a first sync writes to\<close>

text \<open>A slot whose first byte has the other parity holds no header.\<close>

lemma wrong_parity:
  assumes "slot_bytes f g slot = Some (x # bs)" "unat x mod 2 \<noteq> slot"
  shows "parse_header_slot f g slot fl = None"
proof (rule ccontr)
  assume "parse_header_slot f g slot fl \<noteq> None"
  then obtain h where "parse_header_at (x # bs) (hdr_at g slot) g slot fl = Some h" using assms(1) by (auto simp: parse_slot_bytes)
  then have "read_u64 (x # bs) 0 = Some (ph_gen h)" "unat (ph_gen h mod 2) = slot" by (auto elim: parse_header_atE)
  moreover from this have "ph_gen h = of_nat (le_nat (x # take 7 bs))" by (auto simp: read_u64_def get_range_Some u64_from_le_def)
  then have "unat (ph_gen h) = le_nat (x # take 7 bs) mod 18446744073709551616" by (simp only: unat_of_nat) simp
  then have "unat (ph_gen h) mod 2 = unat x mod 2" by (simp add: mod_mod_cancel) presburger
  ultimately show False using assms(2) by (simp add: unat_mod)
qed

lemma image_slots:
  assumes wf: "wf_source src" and g: "src_geo src = g"
  shows "slot_bytes (write_image src 0 nonce) g 1 = Some (replicate (hdr_len g) 0)"
    and "slot < 2 \<Longrightarrow> parse_header_slot (write_image src 0 nonce) g slot fl = Some h \<Longrightarrow> ph_gen h = 0"
proof -
  show z: "slot_bytes (write_image src 0 nonce) g 1 = Some (replicate (hdr_len g) 0)"
    using image_slot1 [OF wf] g by (simp add: slot_bytes_def)
  obtain k where k: "hdr_len g = Suc k" using not0_implies_Suc [of "hdr_len g"] by (auto simp: hdr_len_def)
  assume s: "slot < 2" and p: "parse_header_slot (write_image src 0 nonce) g slot fl = Some h"
  have "slot \<noteq> 1" using wrong_parity [of "write_image src 0 nonce" g 1 0 "replicate k 0" fl] z p by (auto simp: k)
  then have 0: "slot = 0" using s by simp
  obtain rest where r: "image_hdr src 0 = u64_to_le 0 @ rest"
    by (simp add: image_hdr_def header_slot_def header_body_fields Let_def)
  obtain bs where "get_range (write_image src 0 nonce) (hdr_at g 0) (hdr_at g 0 + hdr_len g) = Some bs" "read_u64 bs 0 = Some (ph_gen h)"
    using p 0 by (auto simp: parse_header_slot_def Option.bind_eq_Some_conv elim: parse_header_atE)
  then show "ph_gen h = 0" using image_slot0 [OF wf, of 0 nonce] g read_u64_mid [of 0 "[]" 0] by (auto simp: r)
qed

section \<open>The first sync after a full write\<close>

definition first_sync :: "sync_source \<Rightarrow> u64 \<Rightarrow> bytes \<Rightarrow> geo \<Rightarrow> parsed_hdr \<Rightarrow> sync_source \<Rightarrow> sync_cursor \<Rightarrow> nat set \<Rightarrow> nat set \<Rightarrow> bool" where
  "first_sync src nonce f g h src' cursor pending fresh \<longleftrightarrow>
     wf_source src \<and> src_geo src = g \<and> f = write_image src 0 nonce \<and> sync_ready f g h src' cursor pending fresh \<and>
     sc_gen cursor = 0 \<and> length (plan_carried (live_floor src' cursor) pending fresh) \<le> MAX_OPS"

lemma first_syncD:
  assumes fs: "first_sync src nonce f g h src' cursor pending fresh"
  shows "wf_source src" "src_geo src = g" "f = write_image src 0 nonce" "sync_ready f g h src' cursor pending fresh" "sc_gen cursor = 0"
    "length (plan_carried (live_floor src' cursor) pending fresh) \<le> MAX_OPS"
proof -
  note d = iffD1 [OF first_sync_def fs]
  note e = conjunct2 [OF conjunct2 [OF conjunct2 [OF d]]]
  show "wf_source src" "src_geo src = g" "f = write_image src 0 nonce"
    by (rule conjunct1 [OF d] conjunct1 [OF conjunct2 [OF d]] conjunct1 [OF conjunct2 [OF conjunct2 [OF d]]])+
  show "sync_ready f g h src' cursor pending fresh" "sc_gen cursor = 0" "length (plan_carried (live_floor src' cursor) pending fresh) \<le> MAX_OPS"
    by (rule conjunct1 [OF e] conjunct1 [OF conjunct2 [OF e]] conjunct2 [OF conjunct2 [OF e]])+
qed

lemma first_sync_facts:
  assumes fs: "first_sync src nonce f g h src' cursor pending fresh"
  defines "H \<equiv> plan_header src' cursor pending fresh"
  shows "\<exists>rest. H = [1, 0, 0, 0, 0, 0, 0, 0] @ u64_to_le (of_nat (ss_n_vectors src')) @ rest" "length H \<le> hdr_len g"
    and "plan_batch src' cursor pending fresh = map (\<lambda>b. (unit_at g b, unit_bytes src' b)) (plan_blocks src' cursor pending fresh) @ [(hdr_at g 1, H)]"
    and "\<exists>pl. plan_incremental src' cursor pending fresh None = Some pl \<and> sp_batches pl = [plan_batch src' cursor pending fresh]"
    and "slot_bytes f g 1 = Some (replicate (hdr_len g) 0)" "hdr_at g 1 + hdr_len g \<le> length f" "hdr_at g 0 + hdr_len g = hdr_at g 1"
    and "slot < 2 \<Longrightarrow> parse_header_slot f g slot fl = Some h' \<Longrightarrow> \<not> sc_gen cursor < ph_gen h'"
proof -
  note a = first_syncD [OF fs]
  have "u64_to_le 1 = [1, 0, 0, 0, 0, 0, 0, 0]" by (simp add: u64_to_le_def le_bytes_def upt_rec)
  then show "\<exists>rest. H = [1, 0, 0, 0, 0, 0, 0, 0] @ u64_to_le (of_nat (ss_n_vectors src')) @ rest"
    by (simp add: H_def plan_header_def header_slot_def header_body_fields Let_def a(5))
  show "length H \<le> hdr_len g" unfolding H_def by (rule plan_header_fits [OF a(4,6)])
  show "plan_batch src' cursor pending fresh = map (\<lambda>b. (unit_at g b, unit_bytes src' b)) (plan_blocks src' cursor pending fresh) @ [(hdr_at g 1, H)]"
    using a(4) by (simp add: plan_batch_def H_def Let_def a(5) sync_ready_def)
  obtain pl where "plan_incremental src' cursor pending fresh None = Some pl" using a(6) by (auto simp: plan_incremental_def Let_def)
  then show "\<exists>pl. plan_incremental src' cursor pending fresh None = Some pl \<and> sp_batches pl = [plan_batch src' cursor pending fresh]"
    using plan_incremental_Some by fastforce
  show s: "slot_bytes f g 1 = Some (replicate (hdr_len g) 0)" using image_slots(1) [OF a(1,2), of nonce] a(3) by simp
  show "hdr_at g 1 + hdr_len g \<le> length f" using s by (auto simp: slot_bytes_def get_range_Some)
  show "hdr_at g 0 + hdr_len g = hdr_at g 1" by (simp add: hdr_at_def)
  show "slot < 2 \<Longrightarrow> parse_header_slot f g slot fl = Some h' \<Longrightarrow> \<not> sc_gen cursor < ph_gen h'"
    using image_slots(2) [OF a(1,2)] by (simp add: a(3,5))
qed

lemma first_sync_told:
  assumes fs: "first_sync src nonce f g h src' cursor pending fresh"
    and t: "torn (plan_batch src' cursor pending fresh) f f'" and ht: "header_told g (plan_batch src' cursor pending fresh) f f'"
    and u: "units_told f' g src' 1 (plan_blocks src' cursor pending fresh)"
  shows "told_cut g src' cursor pending fresh None f f'"
proof -
  have "no_hidden_header f g (sc_gen cursor) (length f')" using first_sync_facts(8) [OF fs] unfolding no_hidden_header_def by blast
  moreover obtain pl where "plan_incremental src' cursor pending fresh None = Some pl" "sp_batches pl = [plan_batch src' cursor pending fresh]"
    using first_sync_facts(4) [OF fs] by blast
  ultimately show ?thesis using told_in [OF t ht, of "[]"] u fs by (auto simp: told_cut_def first_sync_def)
qed

section \<open>The header lands without its first byte\<close>

lemma headless_cut:
  assumes fs: "first_sync src nonce f g h src' cursor pending fresh"
    and b: "plan_blocks src' cursor pending fresh = []" and n: "0 < ss_n_vectors src'" "ss_n_vectors src' < 256"
  defines "f' \<equiv> write_at (hdr_at g 1 + 1) (tl (plan_header src' cursor pending fresh)) f"
  shows "told_cut g src' cursor pending fresh None f f'" "f' \<noteq> f" "choose_header f' g = Some h" "choose_header f g = Some h"
proof -
  let ?H = "plan_header src' cursor pending fresh"
  note a = first_sync_facts [OF fs]
  note r = first_syncD(4) [OF fs] and gen = first_syncD(5) [OF fs]
  obtain rest where H: "?H = [1, 0, 0, 0, 0, 0, 0, 0] @ u64_to_le (of_nat (ss_n_vectors src')) @ rest" using a(1) by blast
  have tl: "tl ?H \<noteq> []" "?H = 1 # tl ?H" "length ?H = Suc (length (tl ?H))" unfolding H by simp_all
  have k: "1 + length (tl ?H) \<le> hdr_len g" using a(2) tl(3) by linarith
  then obtain m where m: "hdr_len g = Suc m" by (cases "hdr_len g") auto
  have s1: "slot_bytes f' g 1 = Some (0 # tl ?H @ replicate (hdr_len g - length ?H) 0)"
  proof -
    have "1 + length (tl ?H) = length ?H" using tl(3) by linarith
    with slot_written [OF a(5) k] show ?thesis by (simp add: f'_def m del: length_tl)
  qed
  have none: "parse_header_slot f' g 1 fl = None" "parse_header_slot f g 1 fl = None" for fl
    using wrong_parity [OF s1] wrong_parity [of f g 1 0 "replicate m 0"] a(5) by (simp_all add: m)
  have s0: "slot_bytes f' g 0 = slot_bytes f g 0" unfolding f'_def by (rule slot_elsewhere) (use a(6,7) in auto)
  have B: "plan_batch src' cursor pending fresh = [(hdr_at g 1, ?H)]" using a(3) by (simp add: b)
  have t: "torn [(hdr_at g 1, ?H)] f f'" unfolding f'_def
    by (rule torn_write_rest [OF _ tl(1), of "hdr_at g 1" 1]) (use tl(2) in simp)
  have "header_told g [(hdr_at g 1, ?H)] f f'"
    by (rule header_told_slots) (use s0 none in \<open>auto simp: less_2_cases_iff\<close>)
  then show tc: "told_cut g src' cursor pending fresh None f f'"
    using t by (intro first_sync_told [OF fs]) (simp_all add: B b units_told_def)
  obtain pl where pl: "plan_incremental src' cursor pending fresh None = Some pl" using a(4) by blast
  have c: "commit_at f g h" and slot: "1 - unat (ph_gen h mod 2) = 1" using r gen by (simp_all add: sync_ready_def)
  have c': "commit_at f' g h" by (rule sync_crash_keeps_commit [OF r pl told_crash_sync_crash [OF told_cut_facts(1) [OF tc pl]]])
  show "choose_header f' g = Some h" using choose_after [OF c'] none(1) unfolding slot by auto
  show "choose_header f g = Some h" using choose_after [OF c] none(2) unfolding slot by auto
  show "f' \<noteq> f"
  proof
    assume "f' = f"
    then have "0 # tl ?H @ replicate (hdr_len g - length ?H) 0 = replicate (hdr_len g) 0" using s1 a(5) by simp
    then have "(0 # tl ?H @ replicate (hdr_len g - length ?H) 0) ! 8 = (0 :: u8)" using k by (simp add: H)
    then have "u64_to_le (of_nat (ss_n_vectors src')) ! 0 = (0 :: u8)" by (simp add: H nth_append)
    then have "(of_nat (ss_n_vectors src') :: u8) = 0"
      using n(2) by (simp add: u64_to_le_def le_bytes_def unsigned_of_nat take_bit_nat_eq_self)
    then have "unat (of_nat (ss_n_vectors src') :: u8) = 0" by simp
    then show False using n by (simp add: unat_of_nat_u8)
  qed
qed

section \<open>A unit lands without its first byte\<close>

lemma get_range_write:
  assumes "b \<le> length f" "b \<le> off \<or> off + length bs \<le> a"
  shows "get_range (write_at off bs f) a b = get_range f a b"
  by (rule get_range_cong) (use assms length_write_at_ge [of f off bs] in \<open>auto intro!: nth_write_at_out\<close>)

lemma units_told_byte:
  assumes unit: "unit_at_image f g b = Some (v # us)" and u: "unit_bytes src b = x # us" "x \<noteq> v"
  shows "units_told f g src gen [b]"
  unfolding units_told_def
proof (intro allI impI)
  fix vs
  assume m: "map (unit_at_image f g) [b] = map Some vs"
    and c: "crc32 (delta_stream gen (zip [b] vs)) = crc32 (delta_stream gen (zip [b] (map (unit_bytes src) [b])))"
  have vs: "vs = [v # us]" using m unit by auto
  have p: "0 < length [b]" "length [x # us] = length [b]" "0 < length ([x # us] ! 0)" by simp_all
  obtain k where k: "k < length (delta_stream gen (zip [b] [x # us]))" "delta_stream gen (zip [b] [x # us]) ! k = [x # us] ! 0 ! 0"
    "\<And>v. delta_stream gen (zip [b] ([x # us][0 := ([x # us] ! 0)[0 := v]])) = (delta_stream gen (zip [b] [x # us]))[k := v]"
    using delta_stream_update [OF p, of gen] by metis
  have "crc32 ((delta_stream gen (zip [b] [x # us]))[k := v]) \<noteq> crc32 (delta_stream gen (zip [b] [x # us]))"
    by (rule crc32_list_update [OF k(1)]) (simp only: k(2) nth_Cons_0 u(2) not_False_eq_True)
  moreover have "crc32 (delta_stream gen (zip [b] [v # us])) = crc32 (delta_stream gen (zip [b] [x # us]))"
    using c by (simp only: vs u(1) list.map)
  moreover have "delta_stream gen (zip [b] [v # us]) = (delta_stream gen (zip [b] [x # us]))[k := v]"
    using k(3) [of v] by (simp only: nth_Cons_0 list_update_code)
  ultimately show "vs = map (unit_bytes src) [b]" by simp
qed

lemma holed_cut:
  assumes fs: "first_sync src nonce f g h src' cursor pending fresh"
    and b: "plan_blocks src' cursor pending fresh = [b]" and fl: "length f = unit_at g b"
    and u: "unit_bytes src' b = x # us" "us \<noteq> []" "x \<noteq> 0" and ch: "choose_header f g = Some h"
  defines "f' \<equiv> write_at (hdr_at g 1) (plan_header src' cursor pending fresh) (write_at (unit_at g b + 1) us f)"
  shows "told_cut g src' cursor pending fresh None f f'" "f' \<noteq> f" "choose_header f' g = Some h"
    and "get_range f' (hdr_at g 1) (hdr_at g 1 + length (plan_header src' cursor pending fresh)) = Some (plan_header src' cursor pending fresh)"
proof -
  let ?H = "plan_header src' cursor pending fresh" and ?x = "write_at (unit_at g b + 1) us f"
  let ?y = "write_at (unit_at g b) (x # us) f"
  note a = first_sync_facts [OF fs]
  note r = first_syncD(4) [OF fs] and gen = first_syncD(5) [OF fs]
  have B: "plan_batch src' cursor pending fresh = [(unit_at g b, x # us), (hdr_at g 1, ?H)]" using a(3) by (simp add: b u(1))
  have H: "?H \<noteq> []" using a(1) by auto
  have above: "hdr_at g 1 + hdr_len g \<le> unit_at g b" using hdr_before_units [of 1 g b] by simp
  have x: "?x = f @ 0 # us" by (simp add: write_at_def fl [symmetric])
  have y: "?y = f @ x # us" by (simp add: write_at_def fl [symmetric])
  have s: "slot_bytes ?x g slot = slot_bytes f g slot" "slot_bytes ?y g slot = slot_bytes f g slot" if "slot < 2" for slot
    using that a(6,7) above fl by (auto simp: less_2_cases_iff intro!: slot_elsewhere)
  have s1: "slot_bytes (write_at (hdr_at g 1) ?H z) g 1 = Some (?H @ drop (length ?H) (replicate (hdr_len g) 0))" if "slot_bytes z g 1 = slot_bytes f g 1" for z
    using slot_written [of z g 1 _ 0 ?H] a(2,5) that by simp
  have s0: "slot_bytes (write_at (hdr_at g 1) ?H z) g 0 = slot_bytes f g 0" if "slot_bytes z g 0 = slot_bytes f g 0" "hdr_at g 1 \<le> length z" for z
    using slot_elsewhere [of "hdr_at g 1" ?H g 0 z] that a(7) by simp
  have len: "hdr_at g 1 \<le> length ?x" "hdr_at g 1 \<le> length ?y"
    using a(6) length_write_at_ge [of f "unit_at g b + 1" us] length_write_at_ge [of f "unit_at g b" "x # us"] by linarith+
  have run: "run_batch (plan_batch src' cursor pending fresh) f = write_at (hdr_at g 1) ?H ?y" by (simp add: B)
  have "torn (plan_batch src' cursor pending fresh) f ?x" unfolding B by (rule torn_write_rest [OF _ u(2), where b = x]) simp
  moreover have "torn (plan_batch src' cursor pending fresh) ?x f'" unfolding f'_def B
    using torn_write_prefix [of "hdr_at g 1" ?H "[(unit_at g b, x # us), (hdr_at g 1, ?H)]" "length ?H" ?x] len(1) by simp
  ultimately have t: "torn (plan_batch src' cursor pending fresh) f f'" by (rule torn_trans [rotated])
  have ht: "header_told g (plan_batch src' cursor pending fresh) f f'"
    by (rule header_told_slots)
      (use s s0 [OF s(1) len(1)] s0 [OF s(2) len(2)] s1 [OF s(1)] s1 [OF s(2)] in \<open>auto simp: run f'_def less_2_cases_iff\<close>)
  have hdr: "get_range f' (hdr_at g 1) (hdr_at g 1 + length ?H) = Some ?H"
  proof (rule get_range_sub)
    show "get_range f' (hdr_at g 1) (hdr_at g 1 + hdr_len g) = Some ([] @ ?H @ drop (length ?H) (replicate (hdr_len g) 0))"
      using s1 [OF s(1)] by (simp add: f'_def slot_bytes_def)
  qed simp_all
  then show "get_range f' (hdr_at g 1) (hdr_at g 1 + length ?H) = Some ?H" .
  have "length (x # us) = unit_len g" using length_unit_bytes_plan [OF r, of b] b u(1) by simp
  then have "get_range ?x (unit_at g b) (unit_at g b + unit_len g) = Some (0 # us)"
    unfolding x by (simp add: fl get_range_Some)
  then have unit: "unit_at_image f' g b = Some (0 # us)"
    using above a(2) get_range_write [of "unit_at g b + unit_len g" ?x "hdr_at g 1" ?H "unit_at g b"]
    by (auto simp: unit_at_image_def f'_def get_range_Some)
  have ut: "units_told f' g src' 1 (plan_blocks src' cursor pending fresh)"
    unfolding b by (rule units_told_byte [OF unit u(1,3)])
  show tc: "told_cut g src' cursor pending fresh None f f'" by (rule first_sync_told [OF fs t ht ut])
  show "f' \<noteq> f"
  proof
    assume "f' = f"
    moreover have "length ?x \<le> length f'" unfolding f'_def by (rule length_write_at_ge)
    ultimately show False unfolding x by simp
  qed
  obtain pl where pl: "plan_incremental src' cursor pending fresh None = Some pl" using a(4) by blast
  note tf = told_cut_facts [OF tc pl]
  have ca: "clears_ahead f g (sc_gen cursor) None" using a(8) by (auto simp: clears_ahead_def)
  show "choose_header f' g = Some h"
  proof (rule ccontr)
    assume ne: "choose_header f' g \<noteq> Some h"
    have c': "commit_at f' g h" by (rule sync_crash_keeps_commit [OF r pl told_crash_sync_crash [OF tf(1)]])
    have "commit_at f' g (planned_hdr src' cursor pending fresh)"
      by (rule landed_commit [OF r c' told_crash_adopts(1) [OF r ch pl tf(1) ca tf(3) ne]])
    then have "delta_ok f' g (planned_hdr src' cursor pending fresh)" by (simp add: commit_at_def)
    from told_units [OF r this tf(2), of b] unit u(1,3) b show False by simp
  qed
qed

end
