(* ===== verification/LoadTheorems.thy ===== *)
theory LoadTheorems
  imports TornDemo
begin

text \<open>
  The properties of the loader and of the identity check over whole histories of syncs and power
  cuts, each with an instance on the small index of \<open>Demo\<close>.
\<close>

section \<open>The instance\<close>

definition demo_nm :: numerics where
  "demo_nm = \<lparr>nm_codebook = (\<lambda>bits dim. (replicate (2 ^ bits - 1) 0, replicate (2 ^ bits) 0)),
              nm_max_shift = (\<lambda>dim. 0x7F000000), nm_min_scale = (\<lambda>dim. 0)\<rparr>"

lemma loadable_demo: "n < 32 * 4294967296 \<Longrightarrow> loadable demo_nm (demo n tag)"
  by (simp add: loadable_def wf_demo demo_nm_def validate_calibration_def f32_is_nan_def f32_mag_def)
    (simp add: demo_def f32_inf_mag_def)

text \<open>Its next sync, cut: the header lands whole and the first byte of the new unit is missing;
  or everything has landed.\<close>

lemma demo_first_sync: "first_sync (demo 33 0) 5 demo_file demo_geo (image_commit (demo 33 0)) (demo 70 7) demo_cursor {} {..<32}"
proof -
  obtain pl where "plan_incremental (demo 70 7) demo_cursor {} {..<32} None = Some pl" by (rule demo_plan)
  then show ?thesis using plan_incremental_Some demo_ready unfolding first_sync_def by (simp add: wf_demo)
qed

lemma demo_unclear: "cursor_state (Some demo_file) demo_cursor demo_geo = CsIntact None"
  by (rule cursor_state_current [OF demo_synced]) (rule first_sync_facts(8) [OF demo_first_sync])

lemma demo_blocks: "plan_blocks (demo 70 7) demo_cursor {} {..<32} = [1]"
  by (simp add: plan_blocks_def plan_materialize_def live_floor_def upt_conv_Cons)

lemma demo_unit: "\<exists>us. us \<noteq> [] \<and> unit_bytes (demo 70 7) 1 = 32 # us"
proof -
  have "ss_unit_codes (demo 70 7) 32 64 ! 0 = 32" "length (ss_unit_codes (demo 70 7) 32 64) = 128" by (simp_all add: demo_def)
  then have "unit_bytes (demo 70 7) 1 ! 0 = 32" by (simp add: unit_bytes_def nth_append Let_def)
  moreover have "length (unit_bytes (demo 70 7) 1) = 256" using length_unit_bytes_plan [OF demo_ready, of 1] by (simp add: demo_blocks)
  ultimately show ?thesis by (cases "unit_bytes (demo 70 7) 1") (auto simp: Suc_length_conv numeral_eq_Suc)
qed

lemma demo_holed:
  "\<exists>f'. told_cut demo_geo (demo 70 7) demo_cursor {} {..<32} None demo_file f' \<and> f' \<noteq> demo_file \<and>
     choose_header f' demo_geo = Some (image_commit (demo 33 0)) \<and>
     get_range f' (hdr_at demo_geo 1) (hdr_at demo_geo 1 + length (plan_header (demo 70 7) demo_cursor {} {..<32}))
       = Some (plan_header (demo 70 7) demo_cursor {} {..<32})"
proof -
  obtain us where u: "unit_bytes (demo 70 7) 1 = 32 # us" "us \<noteq> []" using demo_unit by blast
  have "length demo_file = unit_at demo_geo 1" by (simp add: demo_image_len full_len_def)
  moreover have "choose_header demo_file demo_geo = Some (image_commit (demo 33 0))"
    using synced_invariant [OF demo_synced] by (simp add: synced_inv_def)
  ultimately show ?thesis using holed_cut [OF demo_first_sync demo_blocks _ u] by fastforce
qed

lemma demo_landed:
  "\<exists>f'. told_cut demo_geo (demo 70 7) demo_cursor {} {..<32} None demo_file f' \<and>
     choose_header f' demo_geo = Some (planned_hdr (demo 70 7) demo_cursor {} {..<32})"
proof -
  obtain pl where pl: "plan_incremental (demo 70 7) demo_cursor {} {..<32} None = Some pl"
    and b: "sp_batches pl = [plan_batch (demo 70 7) demo_cursor {} {..<32}]"
    using first_sync_facts(4) [OF demo_first_sync] by blast
  obtain f' cursor' where run: "run_sync pl demo_file = (f', cursor')" by force
  then have f': "f' = run_batch (plan_batch (demo 70 7) demo_cursor {} {..<32}) demo_file" by (auto simp: run_sync_def b)
  have "told_crash demo_geo (sp_batches pl) demo_file f'" unfolding b f' by (intro told_later told_done)
  moreover have "units_told f' demo_geo (demo 70 7) 1 [1]"
    using finished_unit [OF demo_ready pl, of 1] run unfolding units_told_def by (auto simp: demo_blocks)
  moreover have "no_hidden_header demo_file demo_geo 0 (length f')"
    using first_sync_facts(8) [OF demo_first_sync] by (auto simp: no_hidden_header_def)
  ultimately have "told_cut demo_geo (demo 70 7) demo_cursor {} {..<32} None demo_file f'"
    using pl by (auto simp: told_cut_def demo_blocks)
  moreover have "choose_header f' demo_geo = Some (planned_hdr (demo 70 7) demo_cursor {} {..<32})"
    using synced_invariant [OF demo_step [OF pl run]] by (simp add: synced_inv_def)
  ultimately show ?thesis by blast
qed

section \<open>Properties\<close>



text \<open>C13. After a power cut in the middle of a sync, with its writes torn anyhow, loading succeeds: with
  every row of the commit the sync started from and its redo slots, or, once the new header and its units are
  whole, with every row of the new one and its redo slots. None of the loader's checks is tripped by torn bytes,
  and no mixture of the two loads. This is for a sync that clears what \<open>cursor_state\<close> reported, and for cuts
  after which the two checksums are not fooled by the torn bytes and no header of an abandoned sync comes into
  reach because the file grew (\<open>told_cut\<close>).\<close>

theorem load_after_power_cut:
  assumes "synced g f h cursor pending src"
    and "wf_source src'" and "seq_source src'" and "bounded_scales src'" and "src_geo src' = g"
    and "same_codec src src'" and "finite fresh" and "rows_unchanged src src' fresh"
    and "cursor_state (Some f) cursor g = CsIntact clear" and "told_cut g src' cursor pending fresh clear f f'"
    and "loadable nm src" and "g_layout g \<noteq> LAYOUT_PLANES"
    and "ss_dim src = 0 \<longrightarrow> ss_n_vectors src = 0 \<and> ss_n_vectors src' = 0"
  shows "let old = choose_header f' g = Some h; kept = (if old then src else src');
      redo = (if old then pending else set (plan_carried (live_floor src' cursor) pending fresh))
    in (\<exists>l. load_file nm f' calib_gen (ss_kind src) = Inr l \<and> vl_n_vectors l = ss_n_vectors kept \<and>
          set (vl_pending_slots l) = redo \<and> (\<forall>s < ss_n_vectors kept. loaded_row g l s = row_record kept s)) \<and>
       (\<exists>l. load_image nm f' calib_gen (ss_kind src) = Inr l \<and> vl_n_vectors l = ss_n_vectors kept \<and>
          set (vl_pending_slots l) = redo \<and> (\<forall>s < ss_n_vectors kept. loaded_row g l s = row_record kept s))"
  using load_told_cut [OF assms] unfolding Let_def .

theorem load_after_power_cut_witness:
  "(\<exists>f' l. f' \<noteq> demo_file \<and> told_cut demo_geo (demo 70 7) demo_cursor {} {..<32} None demo_file f' \<and>
      get_range f' (hdr_at demo_geo 1) (hdr_at demo_geo 1 + length (plan_header (demo 70 7) demo_cursor {} {..<32}))
        = Some (plan_header (demo 70 7) demo_cursor {} {..<32}) \<and>
      load_file demo_nm f' 1 0 = Inr l \<and> vl_n_vectors l = 33 \<and> loaded_row demo_geo l 32 = row_record (demo 33 0) 32) \<and>
   (\<exists>f' l. told_cut demo_geo (demo 70 7) demo_cursor {} {..<32} None demo_file f' \<and>
      load_file demo_nm f' 1 0 = Inr l \<and> vl_n_vectors l = 70 \<and> loaded_row demo_geo l 32 = row_record (demo 70 7) 32)"
proof -
  have w: "wf_source (demo 70 7)" "finite {..<32 :: nat}" "loadable demo_nm (demo 33 0)" "g_layout demo_geo \<noteq> LAYOUT_PLANES"
    "ss_dim (demo 33 0) = 0 \<longrightarrow> ss_n_vectors (demo 33 0) = 0 \<and> ss_n_vectors (demo 70 7) = 0"
    by (simp_all add: wf_demo loadable_demo LAYOUT_PLANES_def)
  note load = load_after_power_cut [OF demo_synced w(1) seq_demo bounded_demo demo_geo same_codec_demo w(2) demo_rows demo_unclear _ w(3-5), of _ 1]
  have ne: "planned_hdr (demo 70 7) demo_cursor {} {..<32} \<noteq> image_commit (demo 33 0)"
    using planned_hdr_simps(2) [of "demo 70 7" demo_cursor "{}" "{..<32}"] image_commit_simps(2) [of "demo 33 0"] by auto
  obtain f1 where 1: "told_cut demo_geo (demo 70 7) demo_cursor {} {..<32} None demo_file f1" "f1 \<noteq> demo_file"
    "choose_header f1 demo_geo = Some (image_commit (demo 33 0))"
    "get_range f1 (hdr_at demo_geo 1) (hdr_at demo_geo 1 + length (plan_header (demo 70 7) demo_cursor {} {..<32}))
       = Some (plan_header (demo 70 7) demo_cursor {} {..<32})"
    using demo_holed by blast
  obtain f2 where 2: "told_cut demo_geo (demo 70 7) demo_cursor {} {..<32} None demo_file f2"
    "choose_header f2 demo_geo \<noteq> Some (image_commit (demo 33 0))"
    using demo_landed ne by auto
  obtain l1 where "load_file demo_nm f1 1 0 = Inr l1" "vl_n_vectors l1 = 33" "\<forall>s < 33. loaded_row demo_geo l1 s = row_record (demo 33 0) s"
    using load [OF 1(1)] 1(3) by (auto simp: Let_def)
  moreover obtain l2 where "load_file demo_nm f2 1 0 = Inr l2" "vl_n_vectors l2 = 70" "\<forall>s < 70. loaded_row demo_geo l2 s = row_record (demo 70 7) s"
    using load [OF 2(1)] 2(2) by (auto simp: Let_def)
  ultimately show ?thesis using 1 2(1)
    by (intro conjI exI [of _ f1] exI [of _ l1] exI [of _ f2] exI [of _ l2]) simp_all
qed



section \<open>A header out of reach\<close>

text \<open>Why \<open>told_cut\<close> excludes hidden headers. The header of an abandoned sync of 70 rows lands, its unit lies
  beyond the end of the file; so the header does not parse, and the identity check does not report it. The next
  sync, of 69 rows, writes the same unit and is cut before its header: now the abandoned header parses, its
  digest matches, and the loader adopts 70 rows, which neither the last sync nor the interrupted one held.\<close>

lemma demo_unit_same: "unit_bytes (demo 69 7) 1 = unit_bytes (demo 70 7) 1"
proof -
  have "unit_scales (demo n 7) 32 = concat (map (\<lambda>lane. u32_to_le 0x3F800000) [0..<32])" if "64 \<le> n" for n
    unfolding unit_scales_def using that by (intro arg_cong [where f = concat] map_cong) auto
  moreover have "ss_unit_codes (demo 69 7) = ss_unit_codes (demo 70 7)" "unit_ids (demo n 7) 32 = []" for n
    by (simp_all add: demo_def unit_ids_def)
  ultimately show ?thesis by (simp add: unit_bytes_def Let_def)
qed

lemma abandoned_header:
  defines "H \<equiv> plan_header (demo 70 7) demo_cursor {} {..<32}" and "P \<equiv> planned_hdr (demo 70 7) demo_cursor {} {..<32}"
  defines "f1 \<equiv> write_at (hdr_at demo_geo 1) H demo_file"
  shows "synced demo_geo f1 (image_commit (demo 33 0)) demo_cursor {} (demo 33 0)"
    and "cursor_state (Some f1) demo_cursor demo_geo = CsIntact None"
    and "\<exists>post. slot_bytes f1 demo_geo 1 = Some (H @ post)" "length f1 = unit_at demo_geo 1"
proof -
  note a = first_sync_facts [OF demo_first_sync, folded H_def]
  obtain pl where pl: "plan_incremental (demo 70 7) demo_cursor {} {..<32} None = Some pl"
    and b: "sp_batches pl = [plan_batch (demo 70 7) demo_cursor {} {..<32}]" using a(4) by blast
  have cap: "length (plan_carried (live_floor (demo 70 7) demo_cursor) {} {..<32}) \<le> MAX_OPS" using first_syncD(6) [OF demo_first_sync] .
  have len0: "length demo_file = unit_at demo_geo 1" by (simp add: demo_image_len full_len_def)
  have H: "H \<noteq> []" using a(1) by auto
  show len: "length f1 = unit_at demo_geo 1" using a(2,6) H by (simp add: f1_def length_write_at len0 max_def)
  have s1: "slot_bytes f1 demo_geo 1 = Some (H @ drop (length H) (replicate (hdr_len demo_geo) 0))"
    using slot_written [of demo_file demo_geo 1 _ 0 H] a(2,5) by (simp add: f1_def)
  then show "\<exists>post. slot_bytes f1 demo_geo 1 = Some (H @ post)" by blast
  have s0: "slot_bytes f1 demo_geo 0 = slot_bytes demo_file demo_geo 0"
    unfolding f1_def by (rule slot_elsewhere) (use a(6,7) in auto)
  have none: "parse_header_slot f1 demo_geo 1 (length f1) = None"
  proof (rule ccontr)
    assume "parse_header_slot f1 demo_geo 1 (length f1) \<noteq> None"
    then obtain h' where p: "parse_header_at (H @ drop (length H) (replicate (hdr_len demo_geo) 0)) (hdr_at demo_geo 1) demo_geo 1 (length f1) = Some h'"
      using s1 by (auto simp: parse_slot_bytes)
    have "h' = P" unfolding P_def 
      by (rule planned_unique(1) [OF demo_ready cap _ refl]) (use p in \<open>simp add: H_def\<close>)
    moreover have "unit_at demo_geo (ph_n h' div BLOCK) \<le> length f1" using p by (elim parse_header_atE)
    ultimately show False by (simp add: P_def planned_hdr_simps len unit_at_def)
  qed
  have "torn (plan_batch (demo 70 7) demo_cursor {} {..<32}) demo_file f1"
    using torn_write_prefix [of "hdr_at demo_geo 1" H "plan_batch (demo 70 7) demo_cursor {} {..<32}" "length H" demo_file] a(3,6)
    by (simp add: f1_def)
  then have crash: "sync_crash (sp_batches pl) demo_file f1" unfolding b by (rule crash_in)
  have "commit_at f1 demo_geo (image_commit (demo 33 0))" by (rule sync_crash_keeps_commit [OF demo_ready pl crash])
  from choose_after [OF this] none have ch: "choose_header f1 demo_geo = Some (image_commit (demo 33 0))"
    by (simp add: image_commit_simps)
  have "synced demo_geo f1 (image_commit (demo 33 0)) (demo_cursor\<lparr>sc_calib_gen := 1\<rparr>) {} (demo 33 0)"
    by (rule synced_recover [OF demo_synced _ seq_demo bounded_demo demo_geo _ demo_rows pl crash ch]) (simp_all add: wf_demo)
  then show s: "synced demo_geo f1 (image_commit (demo 33 0)) demo_cursor {} (demo 33 0)" by simp
  show "cursor_state (Some f1) demo_cursor demo_geo = CsIntact None"
  proof (rule cursor_state_current [OF s])
    fix slot h'
    assume "slot < 2" and p: "parse_header_slot f1 demo_geo slot (length f1) = Some h'"
    then have "slot = 0" using none by (auto simp: less_2_cases_iff)
    then have "parse_header_slot demo_file demo_geo 0 (length f1) = Some h'" using p s0 by (simp add: parse_slot_bytes)
    then show "\<not> sc_gen demo_cursor < ph_gen h'" using a(8) [of 0 "length f1" h'] by simp
  qed
qed

lemma abandoned_header_adopted:
  defines "P \<equiv> planned_hdr (demo 70 7) demo_cursor {} {..<32}"
  shows "\<exists>f1 f2 pl. synced demo_geo f1 (image_commit (demo 33 0)) demo_cursor {} (demo 33 0) \<and>
    cursor_state (Some f1) demo_cursor demo_geo = CsIntact None \<and>
    plan_incremental (demo 69 7) demo_cursor {} {..<32} None = Some pl \<and> sync_crash (sp_batches pl) f1 f2 \<and>
    choose_header f2 demo_geo = Some P \<and> ph_n P = 70"
proof -
  let ?ic = "image_commit (demo 33 0)"
  define f1 where "f1 = write_at (hdr_at demo_geo 1) (plan_header (demo 70 7) demo_cursor {} {..<32}) demo_file"
  note ab = abandoned_header [folded f1_def]
  define U f2 where "U = unit_bytes (demo 70 7) 1" and "f2 = write_at (unit_at demo_geo 1) U f1"
  have r: "sync_ready f1 demo_geo ?ic (demo 69 7) demo_cursor {} {..<32}"
    by (rule synced_inv_ready [OF synced_invariant [OF ab(1)]]) (simp_all add: wf_demo)
  obtain pl where pl: "plan_incremental (demo 69 7) demo_cursor {} {..<32} None = Some pl"
    using plan_incremental_total [of "{}" "{..<32}" "demo 69 7" demo_cursor None] by (auto simp: MAX_OPS_def)
  then have b: "sp_batches pl = [plan_batch (demo 69 7) demo_cursor {} {..<32}]" using plan_incremental_Some by fastforce
  have blocks: "plan_blocks (demo 69 7) demo_cursor {} {..<32} = [1]"
    by (simp add: plan_blocks_def plan_materialize_def live_floor_def upt_conv_Cons)
  have m: "(unit_at demo_geo 1, U) \<in> set (plan_batch (demo 69 7) demo_cursor {} {..<32})"
    using demo_unit_same by (simp add: plan_batch_def blocks U_def Let_def)
  have "torn (plan_batch (demo 69 7) demo_cursor {} {..<32}) f1 f2"
    using torn_write_prefix [OF m, of "length U" f1] ab(4) by (simp add: f2_def)
  then have crash: "sync_crash (sp_batches pl) f1 f2" unfolding b by (rule crash_in)
  have c: "commit_at f2 demo_geo ?ic" by (rule sync_crash_keeps_commit [OF r pl crash])
  have lU: "length U = 256" using length_unit_bytes_plan [OF demo_ready, of 1] by (simp add: demo_blocks U_def)
  have f2: "f2 = f1 @ U" using ab(4) by (simp add: f2_def write_at_def)
  have len: "length f2 = unit_at demo_geo 2" using ab(4) lU by (simp add: f2 unit_at_def)
  have "unit_at_image f2 demo_geo 1 = Some U" using ab(4) lU by (simp add: f2 unit_at_image_def get_range_Some)
  then have d: "delta_ok f2 demo_geo P" unfolding P_def
    by (intro planned_delta_verified [OF demo_ready]) (simp add: demo_blocks U_def)
  obtain post where "slot_bytes f1 demo_geo 1 = Some (plan_header (demo 70 7) demo_cursor {} {..<32} @ post)" using ab(3) by blast
  moreover have "slot_bytes f2 demo_geo 1 = slot_bytes f1 demo_geo 1"
    unfolding f2_def by (rule slot_elsewhere) (use hdr_before_units [of 1 demo_geo 1] ab(4) in auto)
  moreover have "parse_header_at (plan_header (demo 70 7) demo_cursor {} {..<32} @ post) (hdr_at demo_geo 1) demo_geo 1 (length f2) = Some P"
    using planned_hdr_parses [OF demo_ready first_syncD(6) [OF demo_first_sync], of "length f2" post]
    by (simp add: P_def len unit_at_def demo_hdr_at_2)
  ultimately have p: "parse_header_slot f2 demo_geo 1 (length f2) = Some P" by (simp add: parse_slot_bytes)
  have "choose_header f2 demo_geo = Some P"
    by (rule choose_two [OF _ p _ _ d, of 0 ?ic]) (use c in \<open>auto simp: commit_at_def image_commit_simps P_def planned_hdr_simps\<close>)
  moreover have "ph_n P = 70" by (simp add: P_def planned_hdr_simps)
  ultimately show ?thesis using ab(1,2) pl crash by blast
qed

end
