(* ===== verification/FormatTheorems.thy ===== *)
theory FormatTheorems
  imports Damage
begin

text \<open>
  The properties of the file format itself: what is written parses back, nothing overruns its
  region, and the checksums catch what they are there to catch.
\<close>

section \<open>Instances\<close>

lemma demo_unit_in_file:
  assumes "32 \<le> n" "n < 32 * 4294967296"
  shows "unit_at_image (write_image (demo n tag) gen nonce) demo_geo 0 = Some (unit_bytes (demo n tag) 0)"
  using image_unit [OF wf_demo [OF assms(2)], of 0 tag gen nonce] assms(1) div_le_mono [of 32 n 32] by simp

text \<open>A commit record covering unit 0 of the small index.\<close>

abbreviation demo_delta :: parsed_hdr where
  "demo_delta \<equiv> (image_commit (demo 33 0))
     \<lparr>ph_delta_mat := [0], ph_delta_app := (1, 1),
      ph_delta_crc := crc32 (delta_stream 0 [(0, unit_bytes (demo 33 0) 0)])\<rparr>"

lemma demo_delta_facts:
  "delta_blocks demo_delta = [0]" "ph_gen demo_delta = 0"
  by (simp_all add: delta_blocks_def image_commit_def parsed_of_def)

lemma demo_delta_ok: "delta_ok demo_file demo_geo demo_delta"
proof -
  have l: "length u = unit_len demo_geo" if "unit_at_image demo_file demo_geo b = Some u" for b u
    using that by (auto simp: unit_at_image_def get_range_Some)
  have small: "8 + length (delta_blocks demo_delta) * (4 + unit_len demo_geo) \<le> usize_max"
    unfolding demo_delta_facts by simp
  have "map (unit_at_image demo_file demo_geo) [0] = map Some [unit_bytes (demo 33 0) 0]"
    by (simp add: demo_unit_in_file)
  moreover have "crc32 (delta_stream 0 (zip [0] [unit_bytes (demo 33 0) 0])) = ph_delta_crc demo_delta" by simp
  moreover have "delta_verified demo_delta (unit_len demo_geo) (unit_at_image demo_file demo_geo) \<longleftrightarrow>
      (\<exists>us. map (unit_at_image demo_file demo_geo) (delta_blocks demo_delta) = map Some us \<and>
        crc32 (delta_stream (ph_gen demo_delta) (zip (delta_blocks demo_delta) us)) = ph_delta_crc demo_delta)"
    by (rule delta_verified_iff [OF l small])
  ultimately have "delta_verified demo_delta (unit_len demo_geo) (unit_at_image demo_file demo_geo)"
    unfolding demo_delta_facts by blast
  then show ?thesis by (simp only: delta_ok_def)
qed

section \<open>Properties\<close>

text \<open>C16. A commit header parses back to what was written: generation, row count, redo groups,
  delta blocks and digest, and the exact number of bytes used, whatever follows it in its slot.\<close>

theorem header_slot_roundtrip:
  assumes "wf_source src" and "n = ss_n_vectors src"
    and "wf_groups (n div BLOCK) ops" "length ops \<le> MAX_OPS"
    and "length mat \<le> MAX_OPS" "\<forall>b \<in> set mat. b < 4294967296"
    and "fst app < 4294967296" "snd app < 4294967296"
    and "slot = unat (gen mod 2)"
    and "unit_at (src_geo src) (n div BLOCK) \<le> file_len" "file_len \<le> usize_max"
  shows "parse_header_at (header_slot src gen n ops mat app crc @ post) at (src_geo src) slot file_len
    = Some (parsed_of src at gen n ops mat app crc)"
  using assms by (rule parse_header_roundtrip)

theorem header_slot_roundtrip_witness:
  "parse_header_at (header_slot (demo 33 7) 3 33 [(0, [4, 31])] [0] (1, 1) 9 @ [1, 2]) 50 demo_geo 1 40000
    = Some (parsed_of (demo 33 7) 50 3 33 [(0, [4, 31])] [0] (1, 1) 9)"
  using header_slot_roundtrip [of "demo 33 7" 33 "[(0, [4, 31])]" "[0]" "(1, 1)" 1 3 40000 9 "[1, 2]" 50]
  by (simp add: wf_demo MAX_OPS_def unit_at_def demo_hdr_at_2)

text \<open>C17. Damage to moved data is always noticed: change any one byte of any unit that a
  commit's delta digest covers, and the commit is no longer adoptable.\<close>

theorem delta_damage_detected:
  assumes "delta_ok f g h" and "distinct (delta_blocks h)" and "b \<in> set (delta_blocks h)"
    and "j < unit_len g" and "f ! (unit_at g b + j) \<noteq> v"
    and "8 + length (delta_blocks h) * (4 + unit_len g) \<le> usize_max"
  shows "\<not> delta_ok (f[unit_at g b + j := v]) g h"
  using assms by (rule delta_detects_byte)

theorem delta_damage_detected_witness:
  "\<not> delta_ok (demo_file[unit_at demo_geo 0 + 3 := demo_file ! (unit_at demo_geo 0 + 3) + 1]) demo_geo demo_delta"
  using delta_damage_detected [OF demo_delta_ok, of 0 3 "demo_file ! (unit_at demo_geo 0 + 3) + 1"]
  unfolding demo_delta_facts by simp

text \<open>C18. The streaming digest, which splits its input into thirds on the fly without knowing
  where the chunks end, is the checksum of the concatenated bytes.\<close>

theorem streaming_digest:
  "dd_finish (foldl dd_push (dd_new (length (concat chunks))) chunks) = crc32 (concat chunks)"
  by (rule dd_stream_eq_crc32)

text \<open>C19. The table-driven update is the bit-serial register of the reflected polynomial.\<close>

theorem crc_table_correct:
  "crc32c_upd_soft crc bs = foldl (\<lambda>c b. (crc_bit ^^ 8) (c XOR ucast b)) crc bs"
  by (induction bs arbitrary: crc) (simp_all add: crc_byte_bits)

end
