(* ===== verification/Packing.thy ===== *)
theory Packing
  imports Lanes
begin

text \<open>
  Step 1 of every conversion in \<open>pack.rs\<close>: packed bit-plane rows to code bytes
  (\<open>extract_codes_flat\<close>), code bytes to the sequential blocks a file stores
  (\<open>pack_blocked_sequential\<close>), and back (\<open>seq_to_packed\<close>). Both directions go through lookup
  tables, given here entry by entry; the lemmas show which bit each entry moves where, and that
  the two directions are inverse to each other.
\<close>

section \<open>Definitions\<close>

type_synonym u16 = "16 word"

abbreviation codes_per_byte :: "nat \<Rightarrow> nat" where "codes_per_byte bits \<equiv> 8 div bits"

definition code_field :: "nat \<Rightarrow> nat" where
  "code_field bits = (if bits = 3 then 4 else bits)"

text \<open>\<open>build_extract_lut\<close>: entry \<open>b\<close> of plane \<open>p\<close>.\<close>

definition extract_lut :: "nat \<Rightarrow> nat \<Rightarrow> u8 \<Rightarrow> u32" where
  "extract_lut bits p b =
     foldl (\<lambda>acc j. if bit b (7 - j)
                    then acc OR push_bit (j div codes_per_byte bits * 8
                           + (codes_per_byte bits - 1 - j mod codes_per_byte bits) * code_field bits + p) 1
                    else acc)
       0 [0..<8]"

definition extract_chunk :: "bytes \<Rightarrow> nat \<Rightarrow> nat \<Rightarrow> nat \<Rightarrow> nat \<Rightarrow> bytes" where
  "extract_chunk packed base bytes_per_plane bits c =
     take (8 div codes_per_byte bits) (u32_to_le
       (foldl (\<lambda>acc p. acc OR extract_lut bits p (packed ! (base + p * bytes_per_plane + c)))
         0 [0..<bits]))"

definition extract_row :: "bytes \<Rightarrow> nat \<Rightarrow> nat \<Rightarrow> nat \<Rightarrow> bytes" where
  "extract_row packed base bits dim =
     concat (map (extract_chunk packed base (dim div 8) bits) [0..<dim div 8])"

definition extract_codes_flat :: "bytes \<Rightarrow> nat \<Rightarrow> nat \<Rightarrow> nat \<Rightarrow> bytes" where
  "extract_codes_flat packed n_vectors bits dim =
     concat (map (\<lambda>v. extract_row packed (v * (bits * (dim div 8))) bits dim) [0..<n_vectors])"

text \<open>One block group of \<open>pack_blocked_sequential\<close>: a lane without a vector stays zero.\<close>

definition seq_group :: "nat \<Rightarrow> nat \<Rightarrow> bytes \<Rightarrow> nat \<Rightarrow> nat \<Rightarrow> bytes" where
  "seq_group n nbg codes_flat block g =
     map (\<lambda>lane. let vi = block * BLOCK + lane in if vi < n then codes_flat ! (vi * nbg + g) else 0) [0..<BLOCK]"

definition pack_blocked_sequential :: "nat \<Rightarrow> nat \<Rightarrow> nat \<Rightarrow> bytes \<Rightarrow> bytes" where
  "pack_blocked_sequential n n_blocks nbg codes_flat =
     concat (map (\<lambda>block. concat (map (seq_group n nbg codes_flat block) [0..<nbg])) [0..<n_blocks])"

definition repack_seq :: "bytes \<Rightarrow> nat \<Rightarrow> nat \<Rightarrow> nat \<Rightarrow> bytes" where
  "repack_seq packed n_vectors bits dim =
     (let (n_blocks, nbg, _) = blocked_geometry n_vectors bits dim
      in pack_blocked_sequential n_vectors n_blocks nbg (extract_codes_flat packed n_vectors bits dim))"

text \<open>\<open>build_unpack_lut\<close>: entry \<open>b\<close>.\<close>

definition unpack_lut :: "nat \<Rightarrow> u8 \<Rightarrow> u16" where
  "unpack_lut bits b =
     foldl (\<lambda>e c. let code = drop_bit ((codes_per_byte bits - 1 - c) * code_field bits) b AND (2 ^ bits - 1)
                 in foldl (\<lambda>e p. if bit code p
                               then e OR push_bit (p * codes_per_byte bits + (codes_per_byte bits - 1 - c)) 1
                               else e) e [0..<bits])
       0 [0..<codes_per_byte bits]"

text \<open>Plane \<open>p\<close>'s output byte \<open>ob\<close> of \<open>unpack_row\<close>.\<close>

definition unpack_byte :: "bytes \<Rightarrow> nat \<Rightarrow> nat \<Rightarrow> nat \<Rightarrow> nat \<Rightarrow> nat \<Rightarrow> u8" where
  "unpack_byte seq vec_idx bits nbg p ob =
     (let cpb = codes_per_byte bits; groups_per_out = 8 div cpb in
      foldl (\<lambda>a q. let e = unpack_lut bits (seq ! ((vec_idx div BLOCK * nbg + (ob * groups_per_out + q)) * BLOCK
                                                   + vec_idx mod BLOCK))
                   in a OR push_bit (8 - cpb * (q + 1)) (ucast (drop_bit (p * cpb) e AND (2 ^ cpb - 1))))
        0 [0..<groups_per_out])"

definition unpack_row :: "bytes \<Rightarrow> nat \<Rightarrow> nat \<Rightarrow> nat \<Rightarrow> nat \<Rightarrow> bytes" where
  "unpack_row seq vec_idx bits nbg bytes_per_plane =
     concat (map (\<lambda>p. map (unpack_byte seq vec_idx bits nbg p) [0..<bytes_per_plane]) [0..<bits])"

definition seq_to_packed :: "bytes \<Rightarrow> nat \<Rightarrow> nat \<Rightarrow> nat \<Rightarrow> bytes" where
  "seq_to_packed seq n_vectors bits dim =
     concat (map (\<lambda>v. unpack_row seq v bits (dim div codes_per_byte bits) (dim div 8)) [0..<n_vectors])"

section \<open>Bits of the tables\<close>

lemma bit_single: "bit (push_bit n (1 :: 'a :: len word)) k \<longleftrightarrow> n = k \<and> k < LENGTH('a)"
  by (auto simp: push_bit_of_1 bit_exp_iff)

lemma bit_fold_set:
  "bit (foldl (\<lambda>acc j. if P j then acc OR push_bit (f j) 1 else acc) (a :: 'a :: len word) js) k \<longleftrightarrow>
    bit a k \<or> k < LENGTH('a) \<and> (\<exists>j \<in> set js. P j \<and> f j = k)"
proof (induction js arbitrary: a)
  case Nil
  then show ?case by simp
next
  case (Cons j js)
  have "bit (if P j then a OR push_bit (f j) 1 else a) k \<longleftrightarrow> bit a k \<or> k < LENGTH('a) \<and> P j \<and> f j = k"
    by (auto simp: bit_or_iff push_bit_of_1 bit_exp_iff)
  then show ?case using Cons.IH by simp blast
qed

lemma bit_fold_or:
  "bit (foldl (\<lambda>acc p. acc OR f p) (a :: 'a :: len word) ps) k \<longleftrightarrow> bit a k \<or> (\<exists>p \<in> set ps. bit (f p) k)"
  by (induction ps arbitrary: a) (auto simp: bit_or_iff)

lemma bit_extract_lut:
  "bit (extract_lut bits p b) k \<longleftrightarrow> k < 32 \<and> (\<exists>j < 8. bit b (7 - j) \<and>
     j div codes_per_byte bits * 8 + (codes_per_byte bits - 1 - j mod codes_per_byte bits) * code_field bits + p = k)"
  by (auto simp: extract_lut_def bit_fold_set)

lemma bit_u32_to_le:
  assumes "q < 4"
  shows "bit (u32_to_le w ! q) i \<longleftrightarrow> i < 8 \<and> bit w (8 * q + i)"
proof -
  have "u32_to_le w ! q = of_nat (drop_bit (8 * q) (unat w))"
    using assms by (simp add: u32_to_le_def le_bytes_def drop_bit_eq_div power_mult)
  then show ?thesis by (simp add: bit_of_nat_iff bit_drop_bit_eq bit_unsigned_iff)
qed

lemma bit_fold_step:
  assumes "\<And>a c. bit (G a c) k \<longleftrightarrow> bit (a :: 'a :: len word) k \<or> Q c"
  shows "bit (foldl G a cs) k \<longleftrightarrow> bit a k \<or> (\<exists>c \<in> set cs. Q c)"
  using assms by (induction cs arbitrary: a) auto

text \<open>The three bit widths: codes fill a byte in fields of two or four bits.\<close>

lemma width_cases:
  assumes "bits \<in> {2, 3, 4}"
  shows "codes_per_byte bits * code_field bits = 8" "bits \<le> code_field bits" "0 < codes_per_byte bits"
    "8 div codes_per_byte bits * codes_per_byte bits = 8" "8 div codes_per_byte bits \<le> 4" "bits \<le> 4"
    "bits * codes_per_byte bits \<le> 16" "codes_per_byte bits \<le> 4" "8 div codes_per_byte bits = code_field bits"
  using assms by (auto simp: code_field_def)

lemma field_bound:
  assumes b: "bits \<in> {2, 3, 4}" and c: "c < codes_per_byte bits" and p: "p < code_field bits"
  shows "(codes_per_byte bits - 1 - c) * code_field bits + p < 8"
proof -
  have "Suc (codes_per_byte bits - 1 - c) * code_field bits \<le> codes_per_byte bits * code_field bits"
    using c by (intro mult_le_mono1) simp
  then show ?thesis using p width_cases(1) [OF b] by simp
qed

lemma field_unique:
  assumes b: "bits \<in> {2, 3, 4}" and c: "c < codes_per_byte bits" "c' < codes_per_byte bits"
    and p: "p < code_field bits" "p' < code_field bits"
    and eq: "q * 8 + (codes_per_byte bits - 1 - c) * code_field bits + p
      = q' * 8 + (codes_per_byte bits - 1 - c') * code_field bits + p'"
  shows "q = q' \<and> c = c' \<and> p = p'"
proof -
  let ?m = "codes_per_byte bits - 1 - c" and ?m' = "codes_per_byte bits - 1 - c'" and ?f = "code_field bits"
  have lt: "?m * ?f + p < 8" "?m' * ?f + p' < 8" by (rule field_bound [OF b c(1) p(1)], rule field_bound [OF b c(2) p(2)])
  have "(q * 8 + (?m * ?f + p)) div 8 = (q' * 8 + (?m' * ?f + p')) div 8" using eq by (simp only: add.assoc)
  then have q: "q = q'" using lt by simp
  then have e: "?m * ?f + p = ?m' * ?f + p'" using eq by simp
  then have "(?m * ?f + p) div ?f = (?m' * ?f + p') div ?f" by (simp only:)
  then have "?m = ?m'" using p by simp
  then show ?thesis using q e c by simp
qed

lemma bit_extract_chunk:
  assumes b: "bits \<in> {2, 3, 4}" and q: "q < 8 div codes_per_byte bits" and c: "c < codes_per_byte bits"
    and p: "p < bits"
  shows "bit (extract_chunk packed base bpp bits k ! q) ((codes_per_byte bits - 1 - c) * code_field bits + p)
    \<longleftrightarrow> bit (packed ! (base + p * bpp + k)) (7 - (q * codes_per_byte bits + c))"
proof -
  let ?cpb = "codes_per_byte bits" and ?f = "code_field bits"
  let ?i = "(?cpb - 1 - c) * ?f + p"
  note w = width_cases [OF b]
  have pf: "p < ?f" using p w(2) by simp
  have i: "?i < 8" using field_bound [OF b c pf] .
  have q4: "q < 4" using q w(5) by simp
  have "Suc q * ?cpb \<le> 8 div ?cpb * ?cpb" using q by (intro mult_le_mono1) simp
  then have j8: "q * ?cpb + c < 8" using c w(4) by simp
  have "bit (extract_chunk packed base bpp bits k ! q) ?i \<longleftrightarrow>
      (\<exists>p' < bits. \<exists>j < 8. bit (packed ! (base + p' * bpp + k)) (7 - j) \<and>
         j div ?cpb * 8 + (?cpb - 1 - j mod ?cpb) * ?f + p' = 8 * q + ?i)"
    using q q4 i by (auto simp: extract_chunk_def bit_u32_to_le bit_fold_or bit_extract_lut)
  also have "\<dots> \<longleftrightarrow> bit (packed ! (base + p * bpp + k)) (7 - (q * ?cpb + c))"
  proof
    assume "\<exists>p' < bits. \<exists>j < 8. bit (packed ! (base + p' * bpp + k)) (7 - j) \<and>
         j div ?cpb * 8 + (?cpb - 1 - j mod ?cpb) * ?f + p' = 8 * q + ?i"
    then obtain p' j where p': "p' < bits" and bt: "bit (packed ! (base + p' * bpp + k)) (7 - j)"
      and eq: "j div ?cpb * 8 + (?cpb - 1 - j mod ?cpb) * ?f + p' = 8 * q + ?i" by blast
    have "j div ?cpb = q \<and> j mod ?cpb = c \<and> p' = p"
      by (rule field_unique [OF b _ c _ pf]) (use p' w eq in simp_all)
    then have "p' = p" "j = q * ?cpb + c" using div_mult_mod_eq [of j ?cpb] by auto
    then show "bit (packed ! (base + p * bpp + k)) (7 - (q * ?cpb + c))" using bt by simp
  next
    assume "bit (packed ! (base + p * bpp + k)) (7 - (q * ?cpb + c))"
    then show "\<exists>p' < bits. \<exists>j < 8. bit (packed ! (base + p' * bpp + k)) (7 - j) \<and>
         j div ?cpb * 8 + (?cpb - 1 - j mod ?cpb) * ?f + p' = 8 * q + ?i"
      using p j8 c w(3) by (intro exI [of _ p] exI [of _ "q * ?cpb + c"]) auto
  qed
  finally show ?thesis .
qed

lemma bit_unpack_lut:
  assumes b: "bits \<in> {2, 3, 4}" and c: "c < codes_per_byte bits" and p: "p < bits"
  shows "bit (unpack_lut bits x) (p * codes_per_byte bits + (codes_per_byte bits - 1 - c))
    \<longleftrightarrow> bit x ((codes_per_byte bits - 1 - c) * code_field bits + p)"
proof -
  let ?cpb = "codes_per_byte bits" and ?f = "code_field bits"
  let ?k = "p * ?cpb + (?cpb - 1 - c)"
  note w = width_cases [OF b]
  have "Suc p * ?cpb \<le> bits * ?cpb" using p by (intro mult_le_mono1) simp
  then have k: "?k < 16" using c w(7) by simp
  have code: "bit (drop_bit s x AND (2 ^ bits - 1)) p' \<longleftrightarrow> bit x (s + p') \<and> p' < bits" for s p'
    by (auto simp: bit_and_iff bit_drop_bit_eq bit_mask_iff mask_eq_exp_minus_1 [symmetric] dest: bit_imp_possible_bit)
  let ?Q = "\<lambda>c'. \<exists>p' < bits. bit x ((?cpb - 1 - c') * ?f + p') \<and> p' * ?cpb + (?cpb - 1 - c') = ?k"
  let ?G = "\<lambda>e c'. let code = drop_bit ((?cpb - 1 - c') * ?f) x AND (2 ^ bits - 1)
      in foldl (\<lambda>e p'. if bit code p' then e OR push_bit (p' * ?cpb + (?cpb - 1 - c')) 1 else e) e [0..<bits]"
  have "bit (?G e c') ?k \<longleftrightarrow> bit (e :: u16) ?k \<or> ?Q c'" for e c'
    unfolding Let_def bit_fold_set code using k by (simp add: Bex_def)
  from bit_fold_step [of ?G ?k ?Q, OF this]
  have "bit (unpack_lut bits x) ?k \<longleftrightarrow> (\<exists>c' < ?cpb. ?Q c')"
    unfolding unpack_lut_def by (simp only: bit_0_eq bot_apply simp_thms set_upt atLeastLessThan_iff Bex_def le0)
      (simp only: bot_bool_def simp_thms)
  also have "\<dots> \<longleftrightarrow> bit x ((?cpb - 1 - c) * ?f + p)"
  proof
    assume "\<exists>c' < ?cpb. \<exists>p' < bits. bit x ((?cpb - 1 - c') * ?f + p') \<and> p' * ?cpb + (?cpb - 1 - c') = ?k"
    then obtain c' p' where *: "c' < ?cpb" "p' < bits" "bit x ((?cpb - 1 - c') * ?f + p')"
      "p' * ?cpb + (?cpb - 1 - c') = ?k" by blast
    have "p' = p \<and> ?cpb - 1 - c' = ?cpb - 1 - c"
      by (rule digit_unique [OF _ _ *(4)]) (use w(3) in simp_all)
    then have "p' = p" "?cpb - 1 - c' = ?cpb - 1 - c" by blast+
    then show "bit x ((?cpb - 1 - c) * ?f + p)" using *(3) by simp
  qed (use c p in blast)
  finally show ?thesis .
qed

section \<open>Where the bytes lie\<close>

lemma length_extract_chunk:
  "bits \<in> {2, 3, 4} \<Longrightarrow> length (extract_chunk packed base bpp bits k) = 8 div codes_per_byte bits"
  using width_cases(5) by (simp add: extract_chunk_def)

lemma div_factor:
  assumes "0 < c" and "d = k * (g * c)"
  shows "d div c = k * (g :: nat)"
  using assms by simp

lemma groups_of_dim:
  assumes b: "bits \<in> {2, 3, 4}" and d: "dim mod 8 = 0"
  shows "dim div codes_per_byte bits = dim div 8 * (8 div codes_per_byte bits)"
proof (rule div_factor)
  show "0 < codes_per_byte bits" by (rule width_cases(3) [OF b])
  have "dim = dim div 8 * 8"
    by (metis add.right_neutral d div_mult_mod_eq)
  then show "dim = dim div 8 * (8 div codes_per_byte bits * codes_per_byte bits)"
    unfolding width_cases(4) [OF b] .
qed

lemma length_extract_row:
  "bits \<in> {2, 3, 4} \<Longrightarrow> dim mod 8 = 0 \<Longrightarrow> length (extract_row packed base bits dim) = dim div codes_per_byte bits"
  by (simp add: extract_row_def length_concat_const length_extract_chunk groups_of_dim [of bits dim])

lemma length_extract_codes_flat:
  "bits \<in> {2, 3, 4} \<Longrightarrow> dim mod 8 = 0 \<Longrightarrow>
    length (extract_codes_flat packed n bits dim) = n * (dim div codes_per_byte bits)"
  by (simp add: extract_codes_flat_def length_concat_const length_extract_row)

lemma extract_codes_flat_nth:
  assumes b: "bits \<in> {2, 3, 4}" "dim mod 8 = 0" and v: "v < n" and k: "k < dim div 8"
    and q: "q < 8 div codes_per_byte bits"
  shows "extract_codes_flat packed n bits dim ! (v * (dim div codes_per_byte bits) + (k * (8 div codes_per_byte bits) + q))
    = extract_chunk packed (v * (bits * (dim div 8))) (dim div 8) bits k ! q"
proof -
  let ?gpo = "8 div codes_per_byte bits"
  have "Suc k * ?gpo \<le> dim div 8 * ?gpo" using k by (intro mult_le_mono1) simp
  then have g: "k * ?gpo + q < dim div codes_per_byte bits" using q unfolding groups_of_dim [OF b] by simp
  have "extract_codes_flat packed n bits dim ! (v * (dim div codes_per_byte bits) + (k * ?gpo + q))
      = extract_row packed ([0..<n] ! v * (bits * (dim div 8))) bits dim ! (k * ?gpo + q)"
    unfolding extract_codes_flat_def
    by (rule nth_concat_const) (use v g length_extract_row [OF b] in simp_all)
  also have "\<dots> = extract_row packed (v * (bits * (dim div 8))) bits dim ! (k * ?gpo + q)" using v by simp
  also have "\<dots> = extract_chunk packed (v * (bits * (dim div 8))) (dim div 8) bits ([0..<dim div 8] ! k) ! q"
    unfolding extract_row_def by (rule nth_concat_const) (use k q length_extract_chunk [OF b(1)] in simp_all)
  finally show ?thesis using k by simp
qed

lemma length_seq_group [simp]: "length (seq_group n nbg flat block g) = BLOCK"
  by (simp add: seq_group_def)

lemma length_pack_blocked_sequential:
  "length (pack_blocked_sequential n n_blocks nbg flat) = n_blocks * nbg * BLOCK"
  by (simp add: pack_blocked_sequential_def length_concat_const)

lemma pack_blocked_sequential_nth:
  assumes "block < n_blocks" "g < nbg" "lane < BLOCK"
  shows "pack_blocked_sequential n n_blocks nbg flat ! ((block * nbg + g) * BLOCK + lane)
    = (if block * BLOCK + lane < n then flat ! ((block * BLOCK + lane) * nbg + g) else 0)"
proof -
  let ?B = "\<lambda>block. concat (map (seq_group n nbg flat block) [0..<nbg])"
  have "Suc g * BLOCK \<le> nbg * BLOCK" using assms(2) by (intro mult_le_mono1) simp
  then have lt: "g * BLOCK + lane < nbg * BLOCK" using assms(3) by simp
  have "pack_blocked_sequential n n_blocks nbg flat ! (block * (nbg * BLOCK) + (g * BLOCK + lane))
      = ?B ([0..<n_blocks] ! block) ! (g * BLOCK + lane)"
    unfolding pack_blocked_sequential_def
    by (rule nth_concat_const) (use assms lt in \<open>simp_all add: length_concat_const\<close>)
  also have "\<dots> = ?B block ! (g * BLOCK + lane)" using assms(1) by simp
  also have "\<dots> = seq_group n nbg flat block ([0..<nbg] ! g) ! lane"
    by (rule nth_concat_const) (use assms in simp_all)
  finally have "pack_blocked_sequential n n_blocks nbg flat ! (block * (nbg * BLOCK) + (g * BLOCK + lane))
      = (if block * BLOCK + lane < n then flat ! ((block * BLOCK + lane) * nbg + g) else 0)"
    using assms by (simp add: seq_group_def)
  then show ?thesis by (simp add: add_mult_distrib mult.assoc add.assoc)
qed

section \<open>The way back\<close>

lemma field_place:
  assumes b: "bits \<in> {2, 3, 4}" and q: "q < 8 div codes_per_byte bits" "q' < 8 div codes_per_byte bits"
    and c: "c < codes_per_byte bits"
  shows "8 - codes_per_byte bits * (q' + 1) \<le> 7 - (q * codes_per_byte bits + c) \<and>
      7 - (q * codes_per_byte bits + c) - (8 - codes_per_byte bits * (q' + 1)) < codes_per_byte bits \<longleftrightarrow> q' = q"
    and "7 - (q * codes_per_byte bits + c) - (8 - codes_per_byte bits * (q + 1)) = codes_per_byte bits - 1 - c"
  using b by (elim insertE; use q c in \<open>simp, arith?\<close>)+

lemma bit_unpack_byte:
  assumes b: "bits \<in> {2, 3, 4}" and q: "q < 8 div codes_per_byte bits" and c: "c < codes_per_byte bits"
    and p: "p < bits"
  shows "bit (unpack_byte seq v bits nbg p ob) (7 - (q * codes_per_byte bits + c)) \<longleftrightarrow>
    bit (seq ! ((v div BLOCK * nbg + (ob * (8 div codes_per_byte bits) + q)) * BLOCK + v mod BLOCK))
      ((codes_per_byte bits - 1 - c) * code_field bits + p)"
proof -
  let ?cpb = "codes_per_byte bits" and ?t = "7 - (q * codes_per_byte bits + c)"
  let ?E = "\<lambda>q. unpack_lut bits (seq ! ((v div BLOCK * nbg + (ob * (8 div ?cpb) + q)) * BLOCK + v mod BLOCK))"
  let ?F = "\<lambda>q. push_bit (8 - ?cpb * (q + 1)) (ucast (drop_bit (p * ?cpb) (?E q) AND (2 ^ ?cpb - 1))) :: u8"
  have cpb: "?cpb \<le> 8" using width_cases(8) [OF b] by linarith
  have F: "bit (?F q') ?t \<longleftrightarrow> q' = q \<and> bit (?E q) (p * ?cpb + (?cpb - 1 - c))" if "q' < 8 div ?cpb" for q'
  proof -
    have "bit (?F q') ?t \<longleftrightarrow> (8 - ?cpb * (q' + 1) \<le> ?t \<and> ?t - (8 - ?cpb * (q' + 1)) < ?cpb) \<and>
        bit (?E q') (p * ?cpb + (?t - (8 - ?cpb * (q' + 1))))"
      using cpb by (auto simp: bit_push_bit_iff bit_ucast_iff bit_and_iff bit_drop_bit_eq bit_mask_iff mask_eq_exp_minus_1 [symmetric]
          dest: bit_imp_le_length)
    then show ?thesis using field_place [OF b q that c] by metis
  qed
  have "bit (unpack_byte seq v bits nbg p ob) ?t \<longleftrightarrow> (\<exists>q' \<in> {0..<8 div ?cpb}. bit (?F q') ?t)"
    unfolding unpack_byte_def Let_def bit_fold_or by simp
  also have "\<dots> \<longleftrightarrow> bit (?E q) (p * ?cpb + (?cpb - 1 - c))" using F q by auto
  finally show ?thesis unfolding bit_unpack_lut [OF b c p] .
qed

lemma repack_seq_nth:
  assumes b: "bits \<in> {2, 3, 4}" "dim mod 8 = 0" and v: "v < n" and k: "k < dim div 8"
    and q: "q < 8 div codes_per_byte bits"
  shows "repack_seq packed n bits dim ! ((v div BLOCK * (dim div codes_per_byte bits)
        + (k * (8 div codes_per_byte bits) + q)) * BLOCK + v mod BLOCK)
    = extract_chunk packed (v * (bits * (dim div 8))) (dim div 8) bits k ! q"
proof -
  have "Suc k * (8 div codes_per_byte bits) \<le> dim div 8 * (8 div codes_per_byte bits)"
    using k by (intro mult_le_mono1) simp
  then have g: "k * (8 div codes_per_byte bits) + q < dim div codes_per_byte bits"
    using q unfolding groups_of_dim [OF b] by simp
  have blk: "v div BLOCK < (n + BLOCK - 1) div BLOCK" using v by simp
  have "v div BLOCK * BLOCK + v mod BLOCK = v" by (rule div_mult_mod_eq)
  then show ?thesis
    using pack_blocked_sequential_nth [OF blk g, of "v mod BLOCK" n "extract_codes_flat packed n bits dim"]
      extract_codes_flat_nth [OF b v k q, of packed] v
    by (simp add: repack_seq_def blocked_geometry_def Let_def)
qed

lemma unpack_byte_repack:
  assumes b: "bits \<in> {2, 3, 4}" "dim mod 8 = 0" and v: "v < n" and k: "k < dim div 8" and p: "p < bits"
  shows "unpack_byte (repack_seq packed n bits dim) v bits (dim div codes_per_byte bits) p k
    = packed ! (v * (bits * (dim div 8)) + p * (dim div 8) + k)"
proof (rule bit_eqI)
  fix t
  assume "possible_bit TYPE(8 word) t"
  then have t: "t < 8" by simp
  let ?cpb = "codes_per_byte bits"
  let ?q = "(7 - t) div ?cpb" and ?c = "(7 - t) mod ?cpb"
  note w = width_cases [OF b(1)]
  have c: "?c < ?cpb" using w(3) by simp
  have "7 - t < 8 div ?cpb * ?cpb" unfolding w(4) by simp
  then have q: "?q < 8 div ?cpb" by (rule less_mult_imp_div_less)
  have t': "7 - (?q * ?cpb + ?c) = t" unfolding div_mult_mod_eq using t by simp
  show "bit (unpack_byte (repack_seq packed n bits dim) v bits (dim div ?cpb) p k) t
      \<longleftrightarrow> bit (packed ! (v * (bits * (dim div 8)) + p * (dim div 8) + k)) t"
    using bit_unpack_byte [OF b(1) q c p, of "repack_seq packed n bits dim" v "dim div ?cpb" k]
      bit_extract_chunk [OF b(1) q c p, of packed "v * (bits * (dim div 8))" "dim div 8" k]
    unfolding t' repack_seq_nth [OF b v k q] by blast
qed

lemma length_unpack_row [simp]: "length (unpack_row seq v bits nbg bpp) = bits * bpp"
  by (simp add: unpack_row_def length_concat_const)

lemma unpack_row_nth:
  "p < bits \<Longrightarrow> k < bpp \<Longrightarrow> unpack_row seq v bits nbg bpp ! (p * bpp + k) = unpack_byte seq v bits nbg p k"
  unfolding unpack_row_def by (subst nth_concat_const) simp_all

lemma length_seq_to_packed [simp]: "length (seq_to_packed seq n bits dim) = n * (bits * (dim div 8))"
  by (simp add: seq_to_packed_def length_concat_const)

lemma split_index:
  fixes i :: nat
  assumes "i < n * m"
  obtains v j where "v < n" "j < m" "i = v * m + j"
proof
  show "i div m < n" using assms by (rule less_mult_imp_div_less)
  show "i mod m < m" using assms by (cases "m = 0") simp_all
  show "i = i div m * m + i mod m" by (rule div_mult_mod_eq [symmetric])
qed

theorem seq_to_packed_repack:
  assumes b: "bits \<in> {2, 3, 4}" "dim mod 8 = 0" and l: "length packed = n * (bits * (dim div 8))"
  shows "seq_to_packed (repack_seq packed n bits dim) n bits dim = packed"
proof (rule nth_equalityI)
  fix i
  assume "i < length (seq_to_packed (repack_seq packed n bits dim) n bits dim)"
  then have "i < n * (bits * (dim div 8))" by simp
  then obtain v j where v: "v < n" and j: "j < bits * (dim div 8)" and i: "i = v * (bits * (dim div 8)) + j"
    by (rule split_index)
  from j obtain p k where p: "p < bits" and k: "k < dim div 8" and jj: "j = p * (dim div 8) + k" by (rule split_index)
  have "seq_to_packed (repack_seq packed n bits dim) n bits dim ! i
      = unpack_row (repack_seq packed n bits dim) ([0..<n] ! v) bits (dim div codes_per_byte bits) (dim div 8) ! j"
    unfolding i seq_to_packed_def by (rule nth_concat_const) (use v j in simp_all)
  also have "\<dots> = packed ! i"
    using v unfolding jj i by (simp add: unpack_row_nth [OF p k] unpack_byte_repack [OF b v k p] add.assoc)
  finally show "seq_to_packed (repack_seq packed n bits dim) n bits dim ! i = packed ! i" .
qed (simp add: l)

end
