(* ===== verification/LayoutTheorems.thy ===== *)
theory LayoutTheorems
  imports Planes Packing Float32
begin

text \<open>
  The properties of the in-memory code layouts. The lane operations are
  stated for every target at once: \<open>read_row\<close> asks the buffer, in whatever layout it has, for the
  code bytes of one vector.
\<close>

abbreviation demo_x86 :: target where
  "demo_x86 \<equiv> \<lparr>t_arch = X86, t_vector_major = False, t_i8mm = False,
    t_2bit_vm8 = False, t_planes = False, t_planes4 = False\<rparr>"

abbreviation demo_buf :: bytes where "demo_buf \<equiv> map (\<lambda>i. of_nat i) [0..<64]"

section \<open>Lane operations\<close>

text \<open>C20. Moving a vector's lane copies its code bytes onto the destination and leaves every
  other vector as it was, in the sequential, both vector-major and the nibble-interleaved layout;
  the captured codes are the moved row.\<close>

theorem move_lane_correct:
  assumes "has_row nbg bl src" and "has_row nbg bl dst" and "has_row nbg bl w"
  shows "snd (move_lane t bl bits nbg src dst) = read_row t bits nbg bl src \<and>
    read_row t bits nbg (fst (move_lane t bl bits nbg src dst)) w
      = (if w = dst then read_row t bits nbg bl src else read_row t bits nbg bl w)"
  using read_move_lane [OF assms] move_lane_eq [OF assms(1,2)] by simp

theorem move_lane_correct_witness:
  "read_row demo_x86 4 2 (fst (move_lane demo_x86 demo_buf 4 2 31 3)) 3 = read_row demo_x86 4 2 demo_buf 31 \<and>
   read_row demo_x86 4 2 (fst (move_lane demo_x86 demo_buf 4 2 31 3)) 19 = read_row demo_x86 4 2 demo_buf 19"
  using move_lane_correct [of 2 demo_buf 31 3 3 demo_x86 4] move_lane_correct [of 2 demo_buf 31 3 19 demo_x86 4]
  by (simp add: has_row_def)

text \<open>C21. Appending vectors, which may grow the buffer by whole blocks and fill a partly used
  one, keeps every old vector and stores every new one's code bytes.\<close>

theorem append_lanes_correct:
  assumes "blocked_geometry (old_n + n_new) bits dim = (nb, nbg, new_len)"
    and "length bl = (old_n + BLOCK - 1) div BLOCK * nbg * BLOCK"
    and "length codes_flat = n_new * nbg" and "w < old_n + n_new"
  shows "read_row t bits nbg (append_lanes t bl codes_flat old_n n_new bits dim) w
    = (if w < old_n then read_row t bits nbg bl w
       else take nbg (drop ((w - old_n) * nbg) codes_flat))"
  using assms by (rule append_lanes_rows)

theorem append_lanes_correct_witness:
  "read_row demo_x86 4 2 (append_lanes demo_x86 demo_buf [1, 2, 3, 4, 5, 6] 31 3 4 4) 32 = [3, 4] \<and>
   read_row demo_x86 4 2 (append_lanes demo_x86 demo_buf [1, 2, 3, 4, 5, 6] 31 3 4 4) 30
     = read_row demo_x86 4 2 demo_buf 30"
  using append_lanes_correct [of 31 3 4 4 2 2 128 demo_buf "[1, 2, 3, 4, 5, 6]" 32 demo_x86]
    append_lanes_correct [of 31 3 4 4 2 2 128 demo_buf "[1, 2, 3, 4, 5, 6]" 30 demo_x86]
  by (simp add: blocked_geometry_def)

end
