(* ===== verification/Native.thy ===== *)
theory Native
  imports Packing
begin

text \<open>
  The transforms between the stored, sequential blocks and the layout a target's kernels read
  (\<open>native_transform\<close>, \<open>seq_into_native\<close>, \<open>native_to_seq\<close>, \<open>repack\<close>, \<open>repack_block_range\<close> of
  \<open>pack.rs\<close>). The permuting transforms work in place on whole units, from a copy of the unit; the
  lemmas show that \<open>read_code\<close> finds every code byte of a transformed buffer, and that the way back
  is an exact inverse.
\<close>

section \<open>Definitions\<close>

text \<open>\<open>buf.chunks_exact_mut(u)\<close>, each unit replaced; and \<open>par_chunks_mut(n)\<close>, whose last chunk may
  be short.\<close>

function on_units :: "nat \<Rightarrow> (bytes \<Rightarrow> bytes) \<Rightarrow> bytes \<Rightarrow> bytes" where
  "on_units u f buf =
     (if u = 0 \<or> length buf < u then buf else f (take u buf) @ on_units u f (drop u buf))"
  by pat_completeness auto
termination by (relation "measure (\<lambda>(_, _, buf). length buf)") auto

declare on_units.simps [simp del]

function on_chunks :: "nat \<Rightarrow> (bytes \<Rightarrow> bytes) \<Rightarrow> bytes \<Rightarrow> bytes" where
  "on_chunks n f buf =
     (if n = 0 \<or> buf = [] then buf else f (take n buf) @ on_chunks n f (drop n buf))"
  by pat_completeness auto
termination by (relation "measure (\<lambda>(_, _, buf). length buf)") auto

declare on_chunks.simps [simp del]

text \<open>The two nested loops of the permuting transforms: \<open>unit[dst j v] = tmp[src j v]\<close> for every
  byte group \<open>j\<close> of the unit and every lane \<open>v\<close>.\<close>

definition relane :: "nat \<Rightarrow> (nat \<Rightarrow> nat \<Rightarrow> nat) \<Rightarrow> (nat \<Rightarrow> nat \<Rightarrow> nat) \<Rightarrow> bytes \<Rightarrow> bytes" where
  "relane k dst src tmp =
     foldl (\<lambda>un (j, v). un[dst j v := tmp ! src j v]) tmp (List.product [0..<k] [0..<BLOCK])"

definition seq_slot :: "nat \<Rightarrow> nat \<Rightarrow> nat" where "seq_slot j v = j * BLOCK + v"
definition vm_slot :: "nat \<Rightarrow> nat \<Rightarrow> nat" where "vm_slot j v = (v div 16) * 64 + (v mod 16) * 4 + j"
definition vm8_slot :: "nat \<Rightarrow> nat \<Rightarrow> nat" where "vm8_slot j v = (v div 2) * 16 + (v mod 2) * 8 + j"

definition vector_major8_chunk :: "bytes \<Rightarrow> bytes" where
  "vector_major8_chunk buf = on_units VM8_UNIT (relane 8 vm8_slot seq_slot) buf"

definition vector_major8_to_seq_chunk :: "bytes \<Rightarrow> bytes" where
  "vector_major8_to_seq_chunk buf = on_units VM8_UNIT (relane 8 seq_slot vm8_slot) buf"

definition vector_major_chunk :: "bytes \<Rightarrow> bytes" where
  "vector_major_chunk buf = on_units VM_UNIT (relane 4 vm_slot seq_slot) buf"

definition vector_major_to_seq_chunk :: "bytes \<Rightarrow> bytes" where
  "vector_major_to_seq_chunk buf = on_units VM_UNIT (relane 4 seq_slot vm_slot) buf"

text \<open>The portable body of \<open>interleave_chunk_x86\<close>, which the SSSE3 and AVX2 forms restate: one block
  group from its copy.\<close>

definition interleave_group :: "bytes \<Rightarrow> bytes" where
  "interleave_group tmp =
     foldl (\<lambda>b j. let ba = tmp ! (PERM0 ! j); bb = tmp ! (PERM0 ! j + 16)
                  in b[j := drop_bit 4 ba OR (bb AND 0xF0),
                       16 + j := (ba AND 0x0F) OR push_bit 4 (bb AND 0x0F)])
       tmp [0..<16]"

definition interleave_chunk_x86 :: "bytes \<Rightarrow> bytes" where
  "interleave_chunk_x86 buf = on_units BLOCK interleave_group buf"

definition deinterleave_chunk_x86 :: "bytes \<Rightarrow> bytes" where
  "deinterleave_chunk_x86 blocked =
     on_units BLOCK (\<lambda>b. map (deinterleave_x86_code_byte b 0) [0..<BLOCK])
       (take (length blocked div BLOCK * BLOCK) blocked) @ replicate (length blocked mod BLOCK) 0"

definition native_transform :: "target \<Rightarrow> nat \<Rightarrow> nat \<Rightarrow> (bytes \<Rightarrow> bytes) option" where
  "native_transform t bits nbg =
     (if vm8_for t bits nbg then Some vector_major8_chunk
      else if vector_major_for t bits nbg then Some vector_major_chunk
      else if t_x86 t then Some interleave_chunk_x86 else None)"

definition apply_native_transform :: "target \<Rightarrow> bytes \<Rightarrow> nat \<Rightarrow> nat \<Rightarrow> bytes" where
  "apply_native_transform t buf bits nbg =
     (case native_transform t bits nbg of None \<Rightarrow> buf
      | Some f \<Rightarrow> if length buf \<ge> 4 * 1024 * 1024 then on_chunks (2 * 1024 * 1024) f buf else f buf)"

definition seq_into_native :: "target \<Rightarrow> bytes \<Rightarrow> nat \<Rightarrow> nat \<Rightarrow> bytes" where
  "seq_into_native t seq bits nbg = apply_native_transform t seq bits nbg"

definition deinterleave_blocks_x86 :: "bytes \<Rightarrow> bytes" where
  "deinterleave_blocks_x86 blocked =
     (if length blocked \<ge> 4 * 1024 * 1024 then on_chunks (2 * 1024 * 1024) deinterleave_chunk_x86 blocked
      else deinterleave_chunk_x86 blocked)"

definition native_to_seq :: "target \<Rightarrow> bytes \<Rightarrow> nat \<Rightarrow> nat \<Rightarrow> bytes" where
  "native_to_seq t blocked bits nbg =
     (if vm8_for t bits nbg then vector_major8_to_seq_chunk blocked
      else if vector_major_for t bits nbg then vector_major_to_seq_chunk blocked
      else if t_x86 t then deinterleave_blocks_x86 blocked else blocked)"

text \<open>\<open>pack_blocked\<close> on x86, one block group at a time, and the dispatch \<open>pack_blocked_native!\<close>.\<close>

definition pack_group_x86 :: "nat \<Rightarrow> nat \<Rightarrow> bytes \<Rightarrow> nat \<Rightarrow> nat \<Rightarrow> bytes" where
  "pack_group_x86 n nbg codes_flat block g =
     (let cd = \<lambda>v. if v < n then codes_flat ! (v * nbg + g) else 0;
          ba = \<lambda>j. cd (block * BLOCK + PERM0 ! j); bb = \<lambda>j. cd (block * BLOCK + PERM0 ! j + 16)
      in map (\<lambda>j. drop_bit 4 (ba j) OR push_bit 4 (drop_bit 4 (bb j))) [0..<16]
       @ map (\<lambda>j. (ba j AND 0x0F) OR push_bit 4 (bb j AND 0x0F)) [0..<16])"

definition pack_blocked :: "nat \<Rightarrow> nat \<Rightarrow> nat \<Rightarrow> bytes \<Rightarrow> bytes" where
  "pack_blocked n n_blocks nbg codes_flat =
     concat (map (\<lambda>block. concat (map (pack_group_x86 n nbg codes_flat block) [0..<nbg])) [0..<n_blocks])"

definition pack_blocked_native :: "target \<Rightarrow> nat \<Rightarrow> nat \<Rightarrow> nat \<Rightarrow> nat \<Rightarrow> bytes \<Rightarrow> bytes" where
  "pack_blocked_native t n n_blocks bits nbg codes_flat =
     (if vm8_for t bits nbg then vector_major8_chunk (pack_blocked_sequential n n_blocks nbg codes_flat)
      else if vector_major_for t bits nbg then vector_major_chunk (pack_blocked_sequential n n_blocks nbg codes_flat)
      else if t_x86 t then pack_blocked n n_blocks nbg codes_flat
      else pack_blocked_sequential n n_blocks nbg codes_flat)"

definition repack :: "target \<Rightarrow> bytes \<Rightarrow> nat \<Rightarrow> nat \<Rightarrow> nat \<Rightarrow> bytes \<times> nat" where
  "repack t packed n_vectors bits dim =
     (let (n_blocks, nbg, _) = blocked_geometry n_vectors bits dim
      in (pack_blocked_native t n_vectors n_blocks bits nbg (extract_codes_flat packed n_vectors bits dim), n_blocks))"

definition repack_block_range :: "target \<Rightarrow> bytes \<Rightarrow> nat \<Rightarrow> nat \<Rightarrow> nat \<Rightarrow> nat \<Rightarrow> nat \<Rightarrow> bytes" where
  "repack_block_range t packed n_vectors bits dim block_start block_end =
     (let nbg = dim div codes_per_byte bits;
          first_vec = block_start * BLOCK;
          end_vec = min (block_end * BLOCK) n_vectors;
          n_range = end_vec - first_vec;
          bytes_per_row = bits * (dim div 8);
          sub_packed = take (end_vec * bytes_per_row - first_vec * bytes_per_row) (drop (first_vec * bytes_per_row) packed)
      in pack_blocked_native t n_range (block_end - block_start) bits nbg (extract_codes_flat sub_packed n_range bits dim))"

section \<open>Units and chunks\<close>

lemma on_units_short: "length buf < u \<Longrightarrow> on_units u f buf = buf"
  by (simp add: on_units.simps)

lemma on_units_step: "0 < u \<Longrightarrow> u \<le> length buf \<Longrightarrow> on_units u f buf = f (take u buf) @ on_units u f (drop u buf)"
  by (subst on_units.simps) simp

lemma on_units_induct [consumes 1, case_names short step]:
  assumes "0 < u" and "\<And>buf. length buf < u \<Longrightarrow> P buf"
    and "\<And>x buf. length x = u \<Longrightarrow> P buf \<Longrightarrow> P (x @ buf)"
  shows "P buf"
proof (induction buf rule: length_induct)
  case (1 buf)
  show ?case
  proof (cases "length buf < u")
    case False
    then have "P (take u buf @ drop u buf)" using 1 assms(1) by (intro assms(3)) auto
    then show ?thesis by simp
  qed (rule assms(2))
qed

lemma on_units_Cons: "0 < u \<Longrightarrow> length x = u \<Longrightarrow> on_units u f (x @ buf) = f x @ on_units u f buf"
  by (simp add: on_units_step)

lemma length_on_units:
  assumes "\<And>x. length x = u \<Longrightarrow> length (f x) = u" and "0 < u"
  shows "length (on_units u f buf) = length buf"
  using assms(2) by (induction buf rule: on_units_induct) (simp_all add: on_units_short on_units_Cons assms)

lemma on_units_append:
  assumes "0 < u" and "u dvd length xs"
  shows "on_units u f (xs @ ys) = on_units u f xs @ on_units u f ys"
  using assms
proof (induction xs rule: on_units_induct)
  case (short xs)
  then have "xs = []" by (auto dest: dvd_imp_le)
  then show ?case using assms(1) by (simp add: on_units_short)
next
  case (step x xs)
  then show ?case using assms(1) by (simp add: on_units_Cons)
qed

lemma on_units_nth:
  assumes "\<And>x. length x = u \<Longrightarrow> length (f x) = u" and "Suc i * u \<le> length buf" and "r < u"
  shows "on_units u f buf ! (i * u + r) = f (take u (drop (i * u) buf)) ! r"
  using assms(2)
proof (induction i arbitrary: buf)
  case 0
  then show ?case using assms(1,3) by (simp add: on_units_step nth_append)
next
  case (Suc i)
  then have "u \<le> length buf" by simp
  then have "on_units u f buf ! (Suc i * u + r) = on_units u f (drop u buf) ! (i * u + r)"
    using assms(1,3) by (simp add: on_units_step nth_append)
  also have "\<dots> = f (take u (drop (i * u) (drop u buf))) ! r" by (rule Suc.IH) (use Suc.prems in simp)
  finally show ?case by (simp add: add.commute)
qed

lemma on_units_inverse:
  assumes "\<And>x. length x = u \<Longrightarrow> length (f x) = u \<and> g (f x) = x" and "0 < u"
  shows "on_units u g (on_units u f buf) = buf"
  using assms(2) by (induction buf rule: on_units_induct) (simp_all add: on_units_short on_units_Cons assms)

lemma on_chunks_units:
  assumes "0 < u" "0 < k"
  shows "on_chunks (k * u) (on_units u f) buf = on_units u f buf"
proof (induction buf rule: length_induct)
  case (1 buf)
  show ?case
  proof (cases "length buf \<le> k * u")
    case True
    then show ?thesis using assms by (subst on_chunks.simps) (simp add: on_chunks.simps on_units_short)
  next
    case False
    then have "length (drop (k * u) buf) < length buf"
      using nat_0_less_mult_iff [of k u] assms unfolding length_drop by linarith
    then have "on_chunks (k * u) (on_units u f) (drop (k * u) buf) = on_units u f (drop (k * u) buf)"
      using 1 by blast
    then have "on_chunks (k * u) (on_units u f) buf = on_units u f (take (k * u) buf) @ on_units u f (drop (k * u) buf)"
      using assms False by (subst on_chunks.simps) auto
    also have "\<dots> = on_units u f (take (k * u) buf @ drop (k * u) buf)"
      using False assms by (intro on_units_append [symmetric]) simp_all
    finally show ?thesis by simp
  qed
qed

section \<open>The permuting transforms\<close>

lemma length_relane [simp]: "length (relane k dst src tmp) = length tmp"
proof -
  have "length (foldl (\<lambda>un (j, v). un[dst j v := tmp ! src j v]) un ps) = length un" for un ps
    by (induction ps arbitrary: un) auto
  then show ?thesis by (simp add: relane_def)
qed

lemma foldl_scatter:
  assumes "inj_on p (set ks)" and "x \<in> set ks" and "p x < length un"
  shows "foldl (\<lambda>un y. un[p y := q y]) un ks ! p x = q x"
  using assms
proof (induction ks arbitrary: un)
  case (Cons y ks)
  show ?case
  proof (cases "x \<in> set ks")
    case True
    then show ?thesis using Cons by simp
  next
    case False
    then have x: "x = y" using Cons.prems(2) by simp
    have "foldl (\<lambda>un y. un[p y := q y]) un ks ! p x = un ! p x" if "p x \<notin> p ` set ks" for un
      using that by (induction ks arbitrary: un) auto
    moreover have "p x \<notin> p ` set ks" using Cons.prems(1) False x by auto
    ultimately show ?thesis using x Cons.prems(3) by simp
  qed
qed simp

text \<open>A slot map that is a bijection of \<open>k\<close> byte groups and 32 lanes with the bytes of a unit.\<close>

definition slots :: "nat \<Rightarrow> (nat \<Rightarrow> nat \<Rightarrow> nat) \<Rightarrow> bool" where
  "slots k p \<longleftrightarrow> inj_on (\<lambda>(j, v). p j v) ({..<k} \<times> {..<BLOCK}) \<and>
     (\<forall>j < k. \<forall>v < BLOCK. p j v < k * BLOCK)"

lemma relane_nth:
  assumes "slots k dst" and "length tmp = k * BLOCK" and "j < k" "v < BLOCK"
  shows "relane k dst src tmp ! dst j v = tmp ! src j v"
proof -
  have "foldl (\<lambda>un jv. un[(case jv of (j, v) \<Rightarrow> dst j v) := (case jv of (j, v) \<Rightarrow> tmp ! src j v)]) tmp
      (List.product [0..<k] [0..<BLOCK]) ! (case (j, v) of (j, v) \<Rightarrow> dst j v) = (case (j, v) of (j, v) \<Rightarrow> tmp ! src j v)"
    by (rule foldl_scatter) (use assms in \<open>auto simp: slots_def inj_on_def\<close>)
  then show ?thesis by (simp add: relane_def case_prod_unfold)
qed

lemma slots_cover:
  assumes "slots k p" and "i < k * BLOCK"
  obtains j v where "j < k" "v < BLOCK" "i = p j v"
proof -
  let ?P = "\<lambda>(j, v). p j v" and ?D = "{..<k} \<times> {..<BLOCK :: nat}"
  have "?P ` ?D \<subseteq> {..<k * BLOCK}" using assms(1) by (auto simp: slots_def)
  moreover have "card (?P ` ?D) = k * BLOCK" using assms(1) by (simp add: slots_def card_image card_cartesian_product)
  ultimately have "?P ` ?D = {..<k * BLOCK}" by (intro card_subset_eq) simp_all
  then have "i \<in> ?P ` ?D" using assms(2) by simp
  then show thesis using that by auto
qed

lemma relane_inverse:
  assumes "slots k a" "slots k b" and "length x = k * BLOCK"
  shows "relane k a b (relane k b a x) = x"
proof (rule nth_equalityI)
  fix i
  assume "i < length (relane k a b (relane k b a x))"
  then have "i < k * BLOCK" using assms(3) by simp
  then obtain j v where "j < k" "v < BLOCK" "i = a j v" by (rule slots_cover [OF assms(1)])
  then show "relane k a b (relane k b a x) ! i = x ! i"
    using assms by (simp add: relane_nth)
qed simp

lemma slots_seq: "slots k seq_slot"
proof -
  have "inj_on (\<lambda>(j, v). seq_slot j v) ({..<k} \<times> {..<BLOCK})"
    using block_index_inj [of _ _ BLOCK] by (auto simp: inj_on_def seq_slot_def add.commute)
  moreover have "seq_slot j v < k * BLOCK" if "j < k" "v < BLOCK" for j v
    using that mult_le_mono1 [of "Suc j" k BLOCK] by (simp add: seq_slot_def)
  ultimately show ?thesis by (simp add: slots_def)
qed

lemma slots_vm: "slots 4 vm_slot"
proof -
  have "inj_on (\<lambda>(j, v). vm_slot j v) ({..<4} \<times> {..<BLOCK})"
    using vm_digits [of _ 2] by (auto simp: inj_on_def vm_slot_def)
  moreover have "vm_slot j v < 4 * BLOCK" if "j < 4" "v < BLOCK" for j v
    using that div_mult_mod_eq [of v 16] unfolding vm_slot_def by linarith
  ultimately show ?thesis by (simp add: slots_def)
qed

lemma slots_vm8: "slots 8 vm8_slot"
proof -
  have inj8: "j = j' \<and> v = v'" if "vm8_slot j v = vm8_slot j' v'" "j < 8" "j' < 8" for j v j' v'
  proof -
    have "j + v * 8 = j' + v' * 8"
      using that(1) div_mult_mod_eq [of v 2] div_mult_mod_eq [of v' 2] unfolding vm8_slot_def by linarith
    then show ?thesis using block_index_inj [of j v 8 j' v'] that(2,3) by simp
  qed
  have "inj_on (\<lambda>(j, v). vm8_slot j v) ({..<8} \<times> {..<BLOCK})"
    by (intro inj_onI) (auto dest: inj8)
  moreover have "vm8_slot j v < 8 * BLOCK" if "j < 8" "v < BLOCK" for j v
    using that div_mult_mod_eq [of v 2] unfolding vm8_slot_def by linarith
  ultimately show ?thesis by (simp add: slots_def)
qed

section \<open>Reading a transformed buffer\<close>

lemma take_drop_nth: "i + r < length xs \<Longrightarrow> r < k \<Longrightarrow> take k (drop i xs) ! r = xs ! (i + r)"
  by simp

text \<open>Unit \<open>i\<close> of a permuted buffer, and the sequential position of one of its codes.\<close>

lemma on_units_relane:
  assumes p: "slots k dst" "slots k src" and k: "0 < k" and i: "Suc i * (k * BLOCK) \<le> length buf" and jv: "j < k" "v < BLOCK"
  shows "on_units (k * BLOCK) (relane k dst src) buf ! (i * (k * BLOCK) + dst j v) = buf ! (i * (k * BLOCK) + src j v)"
proof -
  have d: "dst j v < k * BLOCK" "src j v < k * BLOCK" using p jv by (auto simp: slots_def)
  have l: "length (take (k * BLOCK) (drop (i * (k * BLOCK)) buf)) = k * BLOCK" using i by simp
  have "on_units (k * BLOCK) (relane k dst src) buf ! (i * (k * BLOCK) + dst j v)
      = relane k dst src (take (k * BLOCK) (drop (i * (k * BLOCK)) buf)) ! dst j v"
    by (rule on_units_nth) (use i d in simp_all)
  also have "\<dots> = take (k * BLOCK) (drop (i * (k * BLOCK)) buf) ! src j v"
    by (rule relane_nth [OF p(1) l jv])
  also have "\<dots> = buf ! (i * (k * BLOCK) + src j v)"
    using i d by (intro take_drop_nth) simp_all
  finally show ?thesis .
qed

text \<open>A byte group \<open>g\<close> of block \<open>b\<close> lies in unit \<open>b * m + g div k\<close>, when a block is \<open>m\<close> units.\<close>

lemma unit_of_group:
  assumes "g < k * m" and "0 < k" and "Suc b * (k * m) * BLOCK \<le> n"
  shows "Suc (b * m + g div k) * (k * BLOCK) \<le> n"
    and "(b * m + g div k) * (k * BLOCK) + seq_slot (g mod k) v = (b * (k * m) + g) * BLOCK + v"
    and "(b * m + g div k) * (k * BLOCK) = b * (k * m) * BLOCK + g div k * (k * BLOCK)"
proof -
  have "g div k < m" using assms(1,2) by (simp add: less_mult_imp_div_less mult.commute)
  then have "Suc (b * m + g div k) \<le> Suc b * m" by simp
  then have "Suc (b * m + g div k) * (k * BLOCK) \<le> Suc b * m * (k * BLOCK)" by (rule mult_le_mono1)
  also have "\<dots> = Suc b * (k * m) * BLOCK" by (simp only: mult.assoc mult.commute mult.left_commute)
  finally show "Suc (b * m + g div k) * (k * BLOCK) \<le> n" using assms(3) by simp
  show "(b * m + g div k) * (k * BLOCK) = b * (k * m) * BLOCK + g div k * (k * BLOCK)"
    by (simp add: algebra_simps)
  define q r where "q = g div k" and "r = g mod k"
  have "g = q * k + r" by (simp add: q_def r_def)
  then show "(b * m + g div k) * (k * BLOCK) + seq_slot (g mod k) v = (b * (k * m) + g) * BLOCK + v"
    unfolding q_def [symmetric] r_def [symmetric] by (simp add: seq_slot_def algebra_simps)
qed

lemma vm8_index: "vm8_byte_index base g l = base + g div 8 * (8 * BLOCK) + vm8_slot (g mod 8) l"
  by (simp add: vm8_byte_index_def vm8_slot_def VM8_UNIT_def)

lemma vm_index: "vm_byte_index base g l = base + g div 4 * (4 * BLOCK) + vm_slot (g mod 4) l"
  by (simp add: vm_byte_index_def vm_slot_def)

lemma vector_major8_read:
  assumes "nbg mod 8 = 0" "g < nbg" "l < BLOCK" "Suc b * nbg * BLOCK \<le> length seq"
  shows "vector_major8_chunk seq ! vm8_byte_index (b * nbg * BLOCK) g l = seq ! ((b * nbg + g) * BLOCK + l)"
    and "vector_major8_to_seq_chunk seq ! ((b * nbg + g) * BLOCK + l) = seq ! vm8_byte_index (b * nbg * BLOCK) g l"
proof -
  obtain m where m: "nbg = 8 * m" using assms(1) by auto
  have pre: "g < 8 * m" "Suc b * (8 * m) * BLOCK \<le> length seq" using assms m by simp_all
  note u = unit_of_group [OF pre(1) _ pre(2)]
  have fit: "Suc (b * m + g div 8) * (8 * BLOCK) \<le> length seq" by (rule u(1)) simp
  have s: "(b * m + g div 8) * (8 * BLOCK) + seq_slot (g mod 8) l = (b * nbg + g) * BLOCK + l"
    unfolding m by (rule u(2)) simp
  have d: "(b * m + g div 8) * (8 * BLOCK) + vm8_slot (g mod 8) l = vm8_byte_index (b * nbg * BLOCK) g l"
    unfolding m vm8_index u(3) by simp
  have v: "0 < (8 :: nat)" "g mod 8 < 8" by simp_all
  show "vector_major8_chunk seq ! vm8_byte_index (b * nbg * BLOCK) g l = seq ! ((b * nbg + g) * BLOCK + l)"
    using on_units_relane [OF slots_vm8 slots_seq v(1) fit v(2) assms(3)]
    unfolding s d vector_major8_chunk_def VM8_UNIT_def by simp
  show "vector_major8_to_seq_chunk seq ! ((b * nbg + g) * BLOCK + l) = seq ! vm8_byte_index (b * nbg * BLOCK) g l"
    using on_units_relane [OF slots_seq slots_vm8 v(1) fit v(2) assms(3)]
    unfolding s d vector_major8_to_seq_chunk_def VM8_UNIT_def by simp
qed

lemma vector_major_read:
  assumes "nbg mod 4 = 0" "g < nbg" "l < BLOCK" "Suc b * nbg * BLOCK \<le> length seq"
  shows "vector_major_chunk seq ! vm_byte_index (b * nbg * BLOCK) g l = seq ! ((b * nbg + g) * BLOCK + l)"
    and "vector_major_to_seq_chunk seq ! ((b * nbg + g) * BLOCK + l) = seq ! vm_byte_index (b * nbg * BLOCK) g l"
proof -
  obtain m where m: "nbg = 4 * m" using assms(1) by auto
  have pre: "g < 4 * m" "Suc b * (4 * m) * BLOCK \<le> length seq" using assms m by simp_all
  note u = unit_of_group [OF pre(1) _ pre(2)]
  have fit: "Suc (b * m + g div 4) * (4 * BLOCK) \<le> length seq" by (rule u(1)) simp
  have s: "(b * m + g div 4) * (4 * BLOCK) + seq_slot (g mod 4) l = (b * nbg + g) * BLOCK + l"
    unfolding m by (rule u(2)) simp
  have d: "(b * m + g div 4) * (4 * BLOCK) + vm_slot (g mod 4) l = vm_byte_index (b * nbg * BLOCK) g l"
    unfolding m vm_index u(3) by simp
  have v: "0 < (4 :: nat)" "g mod 4 < 4" by simp_all
  show "vector_major_chunk seq ! vm_byte_index (b * nbg * BLOCK) g l = seq ! ((b * nbg + g) * BLOCK + l)"
    using on_units_relane [OF slots_vm slots_seq v(1) fit v(2) assms(3)]
    unfolding s d vector_major_chunk_def VM_UNIT_def by simp
  show "vector_major_to_seq_chunk seq ! ((b * nbg + g) * BLOCK + l) = seq ! vm_byte_index (b * nbg * BLOCK) g l"
    using on_units_relane [OF slots_seq slots_vm v(1) fit v(2) assms(3)]
    unfolding s d vector_major_to_seq_chunk_def VM_UNIT_def by simp
qed

lemma permuting_inverse:
  "vector_major8_to_seq_chunk (vector_major8_chunk buf) = buf"
  "vector_major_to_seq_chunk (vector_major_chunk buf) = buf"
  unfolding vector_major8_to_seq_chunk_def vector_major8_chunk_def vector_major_to_seq_chunk_def
    vector_major_chunk_def VM8_UNIT_def VM_UNIT_def
  by (rule on_units_inverse; simp add: relane_inverse slots_seq slots_vm slots_vm8)+

subsection \<open>The nibble interleave\<close>

lemma nibble_pack:
  "lane_lo (drop_bit 4 a OR (c AND 0xF0)) ((a AND 0x0F) OR push_bit 4 (c AND 0x0F)) = a"
  "lane_hi (drop_bit 4 a OR (c AND 0xF0)) ((a AND 0x0F) OR push_bit 4 (c AND 0x0F)) = c"
  "push_bit 4 (drop_bit 4 c) = c AND (0xF0 :: u8)"
  by (rule nibble_eqI, simp only: lane_lo_def lane_hi_def nibble_bits, auto dest: bit_imp_le_length)+

lemma interleave_fold:
  assumes "length b = BLOCK" and "k \<le> 16"
  shows "length (foldl (\<lambda>b j. b[j := h j, 16 + j := lo j]) b [0..<k]) = BLOCK"
    and "j < k \<Longrightarrow> foldl (\<lambda>b j. b[j := h j, 16 + j := lo j]) b [0..<k] ! j = h j
      \<and> foldl (\<lambda>b j. b[j := h j, 16 + j := lo j]) b [0..<k] ! (16 + j) = lo j"
proof -
  show len: "length (foldl (\<lambda>b j. b[j := h j, 16 + j := lo j]) b [0..<k]) = BLOCK" for k
    using assms(1) by (induction k) simp_all
  show "j < k \<Longrightarrow> foldl (\<lambda>b j. b[j := h j, 16 + j := lo j]) b [0..<k] ! j = h j
      \<and> foldl (\<lambda>b j. b[j := h j, 16 + j := lo j]) b [0..<k] ! (16 + j) = lo j"
    using assms(2)
  proof (induction k)
    case (Suc k)
    then show ?case using len [of k] by (cases "j = k") simp_all
  qed simp
qed

lemma interleave_group_nth:
  assumes "length u = BLOCK" and "j < 16"
  shows "interleave_group u ! j = drop_bit 4 (u ! (PERM0 ! j)) OR (u ! (PERM0 ! j + 16) AND 0xF0)"
    and "interleave_group u ! (16 + j) = (u ! (PERM0 ! j) AND 0x0F) OR push_bit 4 (u ! (PERM0 ! j + 16) AND 0x0F)"
  using interleave_fold(2) [OF assms(1), of 16 j] assms(2) unfolding interleave_group_def Let_def by simp_all

lemma length_interleave_group: "length u = BLOCK \<Longrightarrow> length (interleave_group u) = BLOCK"
  using interleave_fold(1) [of u 16] unfolding interleave_group_def Let_def by simp

lemma lane_split: "l < BLOCK \<Longrightarrow> l = (if l < 16 then l mod 16 else l mod 16 + 16)"
  by (auto simp: mod_if)

lemma deinterleave_interleave_group:
  assumes u: "length u = BLOCK" and l: "l < BLOCK"
  shows "deinterleave_x86_code_byte (interleave_group u) 0 l = u ! l"
proof -
  let ?j = "INV_PERM0 ! (l mod 16)"
  have j: "?j < 16" "PERM0 ! ?j = l mod 16" by (simp_all add: perm0_inverse)
  note n = interleave_group_nth [OF u j(1), unfolded j(2)]
  show ?thesis
  proof (cases "l < 16")
    case True
    then have "u ! (l mod 16) = u ! l" by simp
    then show ?thesis
      unfolding deinterleave_eq Let_def by (simp only: add_0_left n nibble_pack True if_True)
  next
    case False
    then have "u ! (l mod 16 + 16) = u ! l" using lane_split [OF l] by simp
    then show ?thesis
      unfolding deinterleave_eq Let_def by (simp only: add_0_left n nibble_pack False if_False)
  qed
qed

lemma deinterleave_unit:
  assumes "Suc i * BLOCK \<le> length bl"
  shows "deinterleave_x86_code_byte bl (i * BLOCK) l = deinterleave_x86_code_byte (take BLOCK (drop (i * BLOCK) bl)) 0 l"
proof -
  have "INV_PERM0 ! (l mod 16) < 16" by (rule perm0_inverse(3)) simp
  then show ?thesis using assms by (simp add: deinterleave_eq Let_def add.assoc)
qed

lemma unit_slice:
  assumes "\<And>x. length x = u \<Longrightarrow> length (f x) = u" and "Suc i * u \<le> length buf" and "0 < u"
  shows "take u (drop (i * u) (on_units u f buf)) = f (take u (drop (i * u) buf))"
proof (rule nth_equalityI)
  have len: "length (on_units u f buf) = length buf" using assms(1,3) by (rule length_on_units)
  have fl: "length (f (take u (drop (i * u) buf))) = u" using assms(2) by (intro assms(1)) simp
  then show "length (take u (drop (i * u) (on_units u f buf))) = length (f (take u (drop (i * u) buf)))"
    using assms(2) len by simp
  fix r
  assume "r < length (take u (drop (i * u) (on_units u f buf)))"
  then have "r < u" by simp
  then show "take u (drop (i * u) (on_units u f buf)) ! r = f (take u (drop (i * u) buf)) ! r"
    using on_units_nth [OF assms(1,2)] assms(2) len by simp
qed

lemma interleave_read:
  assumes "Suc i * BLOCK \<le> length seq" "l < BLOCK"
  shows "deinterleave_x86_code_byte (interleave_chunk_x86 seq) (i * BLOCK) l = seq ! (i * BLOCK + l)"
proof -
  have "length (interleave_chunk_x86 seq) = length seq"
    unfolding interleave_chunk_x86_def by (rule length_on_units) (simp_all add: length_interleave_group)
  then show ?thesis
    using assms deinterleave_unit [of i "interleave_chunk_x86 seq" l]
      unit_slice [of BLOCK interleave_group i seq] deinterleave_interleave_group [of "take BLOCK (drop (i * BLOCK) seq)" l]
    by (simp add: interleave_chunk_x86_def length_interleave_group)
qed

lemma deinterleave_chunk_whole:
  "length blocked mod BLOCK = 0 \<Longrightarrow>
    deinterleave_chunk_x86 blocked = on_units BLOCK (\<lambda>b. map (deinterleave_x86_code_byte b 0) [0..<BLOCK]) blocked"
  using div_mult_mod_eq [of "length blocked" BLOCK] by (simp add: deinterleave_chunk_x86_def)

lemma deinterleave_read:
  assumes "length blocked mod BLOCK = 0" "Suc i * BLOCK \<le> length blocked" "l < BLOCK"
  shows "deinterleave_chunk_x86 blocked ! (i * BLOCK + l) = deinterleave_x86_code_byte blocked (i * BLOCK) l"
proof -
  let ?f = "\<lambda>b. map (deinterleave_x86_code_byte b 0) [0..<BLOCK]"
  have "on_units BLOCK ?f blocked ! (i * BLOCK + l) = ?f (take BLOCK (drop (i * BLOCK) blocked)) ! l"
    using assms by (intro on_units_nth) simp_all
  then show ?thesis
    using assms deinterleave_unit [of i blocked l] by (simp add: deinterleave_chunk_whole)
qed

section \<open>Both directions, for every target\<close>

lemma on_chunks_cong:
  assumes "\<And>x. d dvd length x \<Longrightarrow> f x = g x" and "d dvd n" and "d dvd length buf"
  shows "on_chunks n f buf = on_chunks n g buf"
  using assms(3)
proof (induction buf rule: length_induct)
  case (1 buf)
  show ?case
  proof (cases "n = 0 \<or> buf = []")
    case True
    then show ?thesis by (subst (1 2) on_chunks.simps) simp
  next
    case False
    have "d dvd length (drop n buf)" "d dvd length (take n buf)"
      using 1(2) assms(2) by (simp_all add: min_def dvd_diff_nat)
    moreover have "length (drop n buf) < length buf" using False by simp
    ultimately have "on_chunks n f (drop n buf) = on_chunks n g (drop n buf)" "f (take n buf) = g (take n buf)"
      using 1(1) assms(1) by simp_all
    then show ?thesis using False by (subst (1 2) on_chunks.simps) simp
  qed
qed

lemma chunk_whole: "0 < u \<Longrightarrow> u dvd n \<Longrightarrow> 0 < n \<Longrightarrow> on_chunks n (on_units u f) buf = on_units u f buf"
  using on_chunks_units [of u "n div u" f buf] by (simp add: div_greater_zero_iff dvd_imp_le)

lemma apply_native_units:
  "apply_native_transform t buf bits nbg =
    (if vm8_for t bits nbg then vector_major8_chunk buf
     else if vector_major_for t bits nbg then vector_major_chunk buf
     else if t_x86 t then interleave_chunk_x86 buf else buf)"
proof -
  have e: "vector_major8_chunk = on_units 256 (relane 8 vm8_slot seq_slot)"
    "vector_major_chunk = on_units 128 (relane 4 vm_slot seq_slot)"
    "interleave_chunk_x86 = on_units 32 interleave_group"
    by (simp_all add: fun_eq_iff vector_major8_chunk_def vector_major_chunk_def interleave_chunk_x86_def
        VM8_UNIT_def VM_UNIT_def)
  have d: "256 dvd (2097152 :: nat)" "128 dvd (2097152 :: nat)" "32 dvd (2097152 :: nat)" by simp_all
  have w: "on_chunks 2097152 (on_units 256 f) buf = on_units 256 f buf"
    "on_chunks 2097152 (on_units 128 f) buf = on_units 128 f buf"
    "on_chunks 2097152 (on_units 32 f) buf = on_units 32 f buf" for f
    by (rule chunk_whole; simp add: d)+
  show ?thesis unfolding apply_native_transform_def native_transform_def e by (simp add: w)
qed

lemma deinterleave_blocks_whole:
  assumes "length blocked mod BLOCK = 0"
  shows "deinterleave_blocks_x86 blocked = deinterleave_chunk_x86 blocked"
proof -
  let ?f = "\<lambda>b. map (deinterleave_x86_code_byte b 0) [0..<BLOCK]"
  have "on_chunks (2 * 1024 * 1024) deinterleave_chunk_x86 blocked = on_chunks (2 * 1024 * 1024) (on_units BLOCK ?f) blocked"
    using assms by (intro on_chunks_cong [of BLOCK]) (auto simp: deinterleave_chunk_whole dvd_eq_mod_eq_0)
  also have "\<dots> = on_units BLOCK ?f blocked" by (rule chunk_whole) simp_all
  finally show ?thesis using assms by (simp add: deinterleave_blocks_x86_def deinterleave_chunk_whole)
qed

lemma group_unit:
  assumes "g < nbg" "Suc b * nbg * BLOCK \<le> n"
  shows "Suc (b * nbg + g) * BLOCK \<le> n"
proof -
  have "Suc (b * nbg + g) * BLOCK \<le> Suc b * nbg * BLOCK" using assms(1) by (intro mult_le_mono1) simp
  then show ?thesis using assms(2) by linarith
qed

lemma for_groups:
  "vm8_for t bits nbg \<Longrightarrow> nbg mod 8 = 0" "vector_major_for t bits nbg \<Longrightarrow> nbg mod 4 = 0"
  by (auto simp: vm8_for_def vm8_2bit_for_def vector_major_for_def)

theorem native_read:
  assumes "g < nbg" "l < BLOCK" "Suc b * nbg * BLOCK \<le> length seq"
  shows "read_code t (seq_into_native t seq bits nbg) bits nbg b g l = seq ! ((b * nbg + g) * BLOCK + l)"
  using vector_major8_read(1) [OF for_groups(1) assms, of t bits]
    vector_major_read(1) [OF for_groups(2) assms, of t bits]
    interleave_read [OF group_unit [OF assms(1,3)] assms(2)]
  by (simp add: read_code_def seq_into_native_def apply_native_units)

theorem native_to_seq_read:
  assumes "g < nbg" "l < BLOCK" "Suc b * nbg * BLOCK \<le> length bl" and "length bl mod BLOCK = 0"
  shows "native_to_seq t bl bits nbg ! ((b * nbg + g) * BLOCK + l) = read_code t bl bits nbg b g l"
  using vector_major8_read(2) [OF for_groups(1) assms(1-3), of t bits]
    vector_major_read(2) [OF for_groups(2) assms(1-3), of t bits]
    deinterleave_read [OF assms(4) group_unit [OF assms(1,3)] assms(2)]
  by (simp add: read_code_def native_to_seq_def deinterleave_blocks_whole [OF assms(4)])

lemma length_seq_into_native [simp]: "length (seq_into_native t seq bits nbg) = length seq"
  unfolding seq_into_native_def apply_native_units vector_major8_chunk_def vector_major_chunk_def interleave_chunk_x86_def
  by (simp add: length_on_units VM8_UNIT_def VM_UNIT_def length_interleave_group)

lemma length_native_to_seq [simp]:
  assumes "length bl mod BLOCK = 0"
  shows "length (native_to_seq t bl bits nbg) = length bl"
  unfolding native_to_seq_def deinterleave_blocks_whole [OF assms] deinterleave_chunk_whole [OF assms]
    vector_major8_to_seq_chunk_def vector_major_to_seq_chunk_def
  by (simp add: length_on_units VM8_UNIT_def VM_UNIT_def)

theorem native_roundtrip:
  assumes "length seq mod BLOCK = 0"
  shows "native_to_seq t (seq_into_native t seq bits nbg) bits nbg = seq"
proof -
  have "length (interleave_chunk_x86 seq) mod BLOCK = 0"
    using assms by (simp add: interleave_chunk_x86_def length_on_units length_interleave_group)
  then have "deinterleave_chunk_x86 (interleave_chunk_x86 seq) = seq"
    unfolding interleave_chunk_x86_def deinterleave_chunk_whole [OF \<open>length (interleave_chunk_x86 seq) mod BLOCK = 0\<close>, unfolded interleave_chunk_x86_def]
    by (intro on_units_inverse) (auto simp: length_interleave_group deinterleave_interleave_group intro!: nth_equalityI)
  moreover have "length (interleave_chunk_x86 seq) mod BLOCK = 0" by fact
  ultimately show ?thesis
    unfolding native_to_seq_def seq_into_native_def apply_native_units
    by (simp add: permuting_inverse deinterleave_blocks_whole)
qed

section \<open>Building a cache from packed rows\<close>

lemma on_units_concat:
  assumes "\<And>x. x \<in> set xs \<Longrightarrow> u dvd length (G x)" and "0 < u"
  shows "on_units u f (concat (map G xs)) = concat (map (\<lambda>x. on_units u f (G x)) xs)"
  using assms by (induction xs) (simp_all add: on_units_append on_units_short)

lemma on_units_one: "0 < u \<Longrightarrow> length x = u \<Longrightarrow> on_units u f x = f x"
  using on_units_Cons [of u x f "[]"] by (simp add: on_units_short)

lemma pack_group_interleave:
  "pack_group_x86 n nbg flat block g = interleave_group (seq_group n nbg flat block g)"
proof (rule nth_equalityI)
  let ?u = "seq_group n nbg flat block g"
  define cd where "cd v = (if v < n then flat ! (v * nbg + g) else 0)" for v
  define ba bb where "ba j = cd (block * BLOCK + PERM0 ! j)" and "bb j = cd (block * BLOCK + PERM0 ! j + 16)" for j
  have pk: "pack_group_x86 n nbg flat block g
      = map (\<lambda>j. drop_bit 4 (ba j) OR push_bit 4 (drop_bit 4 (bb j))) [0..<16]
        @ map (\<lambda>j. (ba j AND 0x0F) OR push_bit 4 (bb j AND 0x0F)) [0..<16]"
    unfolding pack_group_x86_def Let_def ba_def bb_def cd_def ..
  show "length (pack_group_x86 n nbg flat block g) = length (interleave_group ?u)"
    unfolding pk by (simp add: length_interleave_group)
  have u: "?u ! (PERM0 ! j) = ba j" "?u ! (PERM0 ! j + 16) = bb j" if "j < 16" for j
  proof -
    have "PERM0 ! j < 16" using that by (auto simp: PERM0_def less_Suc_eq numeral_eq_Suc)
    then show "?u ! (PERM0 ! j) = ba j" "?u ! (PERM0 ! j + 16) = bb j"
      by (simp_all add: seq_group_def ba_def bb_def cd_def add.assoc)
  qed
  fix i
  assume "i < length (pack_group_x86 n nbg flat block g)"
  then have i: "i < BLOCK" unfolding pk by simp
  show "pack_group_x86 n nbg flat block g ! i = interleave_group ?u ! i"
  proof (cases "i < 16")
    case True
    then have "pack_group_x86 n nbg flat block g ! i = drop_bit 4 (ba i) OR push_bit 4 (drop_bit 4 (bb i))"
      unfolding pk nth_append by (simp only: length_map length_upt) simp
    then show ?thesis
      using interleave_group_nth(1) [of ?u i] True by (simp only: u nibble_pack(3) length_seq_group)
  next
    case False
    then obtain j where j: "i = 16 + j" "j < 16" using i by (metis add_diff_inverse_nat less_diff_conv2 not_less numeral_Bit0 add_less_cancel_left)
    then have "pack_group_x86 n nbg flat block g ! i = (ba j AND 0x0F) OR push_bit 4 (bb j AND 0x0F)"
      unfolding pk nth_append by (simp only: length_map length_upt) simp
    then show ?thesis
      using interleave_group_nth(2) [of ?u j] j by (simp only: u length_seq_group)
  qed
qed

theorem pack_native_eq:
  "pack_blocked_native t n n_blocks bits nbg flat
    = seq_into_native t (pack_blocked_sequential n n_blocks nbg flat) bits nbg"
proof -
  have "pack_group_x86 n nbg flat block = (\<lambda>g. interleave_group (seq_group n nbg flat block g))" for block
    by (rule ext) (rule pack_group_interleave)
  then have "pack_blocked n n_blocks nbg flat = interleave_chunk_x86 (pack_blocked_sequential n n_blocks nbg flat)"
    unfolding pack_blocked_def interleave_chunk_x86_def pack_blocked_sequential_def
    by (simp add: on_units_concat on_units_one length_concat_const)
  then show ?thesis by (simp add: pack_blocked_native_def seq_into_native_def apply_native_units)
qed

theorem repack_eq:
  "repack t packed n bits dim = (seq_into_native t (repack_seq packed n bits dim) bits (dim div codes_per_byte bits),
     (n + BLOCK - 1) div BLOCK)"
  by (simp add: repack_def repack_seq_def blocked_geometry_def Let_def pack_native_eq)

lemma length_pack_native [simp]:
  "length (pack_blocked_native t n n_blocks bits nbg flat) = n_blocks * nbg * BLOCK"
  by (simp add: pack_native_eq length_pack_blocked_sequential)

lemma pack_native_read:
  assumes "b < n_blocks" "g < nbg" "l < BLOCK"
  shows "read_code t (pack_blocked_native t n n_blocks bits nbg flat) bits nbg b g l
    = (if b * BLOCK + l < n then flat ! ((b * BLOCK + l) * nbg + g) else 0)"
proof -
  have "Suc b * nbg * BLOCK \<le> n_blocks * nbg * BLOCK" using assms(1) by (intro mult_le_mono1) simp
  then have "Suc b * nbg * BLOCK \<le> length (pack_blocked_sequential n n_blocks nbg flat)"
    by (simp only: length_pack_blocked_sequential)
  then show ?thesis
    unfolding pack_native_eq by (simp only: native_read [OF assms(2,3)] pack_blocked_sequential_nth [OF assms])
qed

text \<open>The row a vector has in a cache built from code bytes: its own bytes, or zeros for a lane
  that holds no vector.\<close>

lemma pack_native_row:
  assumes "v div BLOCK < n_blocks" and "length flat = n * nbg"
  shows "read_row t bits nbg (pack_blocked_native t n n_blocks bits nbg flat) v
    = (if v < n then take nbg (drop (v * nbg) flat) else replicate nbg 0)"
proof (rule nth_equalityI)
  have fit: "v * nbg + nbg \<le> length flat" if "v < n"
    using that mult_le_mono1 [of "Suc v" n nbg] assms(2) by simp
  show "length (read_row t bits nbg (pack_blocked_native t n n_blocks bits nbg flat) v)
      = length (if v < n then take nbg (drop (v * nbg) flat) else replicate nbg 0)"
    using fit by auto
  fix g
  assume "g < length (read_row t bits nbg (pack_blocked_native t n n_blocks bits nbg flat) v)"
  then have g: "g < nbg" by simp
  have v: "v div BLOCK * BLOCK + v mod BLOCK = v" by (rule div_mult_mod_eq)
  show "read_row t bits nbg (pack_blocked_native t n n_blocks bits nbg flat) v ! g
      = (if v < n then take nbg (drop (v * nbg) flat) else replicate nbg 0) ! g"
    using pack_native_read [OF assms(1) g, of "v mod BLOCK" t n bits flat] g fit
    by (cases "v < n") (simp_all add: read_row_def v)
qed

end
