(* ===== verification/PlanesNative.thy ===== *)
theory PlanesNative
  imports Native Planes
begin

text \<open>
  The planes cache of \<open>pack.rs\<close> as a target keeps it: the sign region in the target's own block
  order, the low region one row per vector. The definitions follow the file; the lemmas reduce
  every operation to the two rows a vector has (\<open>sign_row\<close>, \<open>low_of\<close>) and these to its code
  bytes.
\<close>

section \<open>Definitions\<close>

definition planes_slot :: "target \<Rightarrow> nat \<Rightarrow> nat \<Rightarrow> nat" where
  "planes_slot t g lane =
     (if t_x86 t then (g div 4) * 128 + (lane div 16) * 64 + (lane mod 16) * 4 + (g mod 4)
      else g * BLOCK + lane)"

definition planes_split_rows :: "bytes \<Rightarrow> nat \<Rightarrow> bytes \<times> bytes" where
  "planes_split_rows codes_flat nbg =
     (let nsg = nbg div 2;
          n = (if nbg = 0 then 0 else length codes_flat div nbg);
          sp = \<lambda>r g. split2 (codes_flat ! (r * nbg + 2 * g)) (codes_flat ! (r * nbg + (2 * g + 1)))
      in (concat (map (\<lambda>r. map (\<lambda>g. fst (sp r g)) [0..<nsg]) [0..<n]),
          concat (map (\<lambda>r. map (\<lambda>g. snd (sp r g)) [0..<nsg]) [0..<n])))"

definition planes_rows_from_packed :: "bytes \<Rightarrow> nat \<Rightarrow> nat \<Rightarrow> nat \<Rightarrow> bytes \<times> bytes" where
  "planes_rows_from_packed packed n bits dim =
     (let nsg = dim div 8; row = bits * nsg; low_row = (bits - 1) * nsg;
          r = \<lambda>i. take row (drop (i * row) packed)
      in (concat (map (\<lambda>i. drop low_row (r i)) [0..<n]), concat (map (\<lambda>i. take low_row (r i)) [0..<n])))"

definition planes_packed_row :: "target \<Rightarrow> bytes \<Rightarrow> bytes \<Rightarrow> nat \<Rightarrow> nat \<Rightarrow> nat \<Rightarrow> bytes" where
  "planes_packed_row t sign low bits nsg v =
     (let low_row = (bits - 1) * nsg; base = v div BLOCK * nsg * BLOCK
      in take low_row (drop (v * low_row) low) @ map (\<lambda>g. sign ! (base + planes_slot t g (v mod BLOCK))) [0..<nsg])"

definition planes_repack :: "target \<Rightarrow> bytes \<Rightarrow> nat \<Rightarrow> nat \<Rightarrow> nat \<Rightarrow> bytes \<times> bytes \<times> nat" where
  "planes_repack t packed n_vectors bits dim =
     (if bits \<noteq> 2
      then let n_blocks = (n_vectors + BLOCK - 1) div BLOCK; nsg = dim div 8;
               (sign_rows, low) = planes_rows_from_packed packed n_vectors bits dim
           in (pack_blocked_native t n_vectors n_blocks 2 nsg sign_rows, low, n_blocks)
      else let (n_blocks, nbg, _) = blocked_geometry n_vectors 2 dim; nsg = nbg div 2;
               (sign_rows, low) = planes_split_rows (extract_codes_flat packed n_vectors 2 dim) nbg
           in (pack_blocked_native t n_vectors n_blocks 2 nsg sign_rows, low, n_blocks))"

definition planes_repack_block_range ::
  "target \<Rightarrow> bytes \<Rightarrow> nat \<Rightarrow> nat \<Rightarrow> nat \<Rightarrow> nat \<Rightarrow> nat \<Rightarrow> bytes \<times> bytes" where
  "planes_repack_block_range t packed n_vectors bits dim block_start block_end =
     (let nbg = dim div 4; nsg = nbg div 2;
          first_vec = block_start * BLOCK;
          end_vec = min (block_end * BLOCK) n_vectors;
          n_range = end_vec - first_vec;
          bytes_per_row = bits * (dim div 8);
          sub_packed = take (end_vec * bytes_per_row - first_vec * bytes_per_row) (drop (first_vec * bytes_per_row) packed);
          range_blocks = block_end - block_start;
          (sign_rows, low) = (if bits \<noteq> 2 then planes_rows_from_packed sub_packed n_range bits dim
                              else planes_split_rows (extract_codes_flat sub_packed n_range 2 dim) nbg)
      in (pack_blocked_native t n_range range_blocks 2 nsg sign_rows, low))"

definition planes_append_lanes ::
  "target \<Rightarrow> bytes \<Rightarrow> bytes \<Rightarrow> bytes \<Rightarrow> nat \<Rightarrow> nat \<Rightarrow> nat \<Rightarrow> nat \<Rightarrow> bytes \<times> bytes" where
  "planes_append_lanes t sign low packed_rows old_n n_new bits dim =
     (let nbg = dim div 4; nsg = nbg div 2;
          new_len = (old_n + n_new + BLOCK - 1) div BLOCK * nsg * BLOCK;
          (sign_rows, low_rows) = (if bits = 2 then planes_split_rows (extract_codes_flat packed_rows n_new 2 dim) nbg
                                   else planes_rows_from_packed packed_rows n_new bits dim)
      in (foldl (\<lambda>sg i. write_row t 2 nsg sg (old_n + i) (take nsg (drop (i * nsg) sign_rows)))
             (resize_bytes sign new_len) [0..<n_new],
          take (old_n * (bits - 1) * nsg) low @ low_rows))"

definition planes_read_row :: "target \<Rightarrow> bytes \<Rightarrow> bytes \<Rightarrow> nat \<Rightarrow> nat \<Rightarrow> nat \<Rightarrow> bytes" where
  "planes_read_row t sign low bits nbg v =
     (if bits \<noteq> 2
      then let (nsg, _) = planes_geom bits nbg
           in extract_codes_flat (planes_packed_row t sign low bits nsg v) 1 bits (nsg * 8)
      else let nsg = nbg div 2; base = v div BLOCK * nsg * BLOCK;
               cb = \<lambda>g. planes_to_code_bytes (sign ! (base + planes_slot t g (v mod BLOCK))) (low ! (v * nsg + g))
           in concat (map (\<lambda>g. [fst (cb g), snd (cb g)]) [0..<nsg]) @ replicate (nbg - 2 * nsg) 0)"

definition planes_move :: "target \<Rightarrow> bytes \<Rightarrow> bytes \<Rightarrow> nat \<Rightarrow> nat \<Rightarrow> nat \<Rightarrow> nat \<Rightarrow> bytes \<times> bytes" where
  "planes_move t sign low bits nbg src dst =
     (let (nsg, low_row) = planes_geom bits nbg
      in (fst (move_lane t sign 2 nsg src dst),
          overwrite (dst * low_row) (take low_row (drop (src * low_row) low)) low))"

definition planes_sign_permuted :: "target \<Rightarrow> nat \<Rightarrow> bool" where
  "planes_sign_permuted t nsg \<longleftrightarrow> t_x86 t \<and> vector_major_for t 2 nsg"

definition planes_unit_codes :: "target \<Rightarrow> bytes \<Rightarrow> bytes \<Rightarrow> nat \<Rightarrow> nat \<Rightarrow> nat \<Rightarrow> nat \<Rightarrow> bytes" where
  "planes_unit_codes t sign low bits nbg b n_vectors =
     (let (nsg, low_row) = planes_geom bits nbg;
          sb = nsg * BLOCK;
          s = take sb (drop (b * sb) sign);
          s' = (if planes_sign_permuted t nsg then vector_major_to_seq_chunk s else s);
          v0 = b * BLOCK;
          v1 = min (v0 + BLOCK) n_vectors;
          rows = take (v1 * low_row - v0 * low_row) (drop (v0 * low_row) low)
      in s' @ rows @ replicate (BLOCK * low_row - length rows) 0)"

definition planes_sign_to_native :: "target \<Rightarrow> bytes \<Rightarrow> nat \<Rightarrow> bytes" where
  "planes_sign_to_native t sign nsg =
     (if \<not> planes_sign_permuted t nsg then sign
      else if length sign \<ge> 4 * 1024 * 1024 then on_chunks (2 * 1024 * 1024) vector_major_chunk sign
      else vector_major_chunk sign)"

section \<open>The two rows of a vector\<close>

definition sign_row :: "target \<Rightarrow> nat \<Rightarrow> bytes \<Rightarrow> nat \<Rightarrow> bytes" where
  "sign_row t nsg sign v = read_row t 2 nsg sign v"

definition low_of :: "nat \<Rightarrow> bytes \<Rightarrow> nat \<Rightarrow> bytes" where
  "low_of low_row low v = take low_row (drop (v * low_row) low)"

text \<open>The code bytes of a vector from its two rows.\<close>

definition join_rows :: "nat \<Rightarrow> nat \<Rightarrow> bytes \<Rightarrow> bytes \<Rightarrow> bytes" where
  "join_rows bits nsg s l =
     (if bits = 2
      then concat (map (\<lambda>g. [fst (planes_to_code_bytes (s ! g) (l ! g)), snd (planes_to_code_bytes (s ! g) (l ! g))]) [0..<nsg])
      else extract_codes_flat (l @ s) 1 bits (nsg * 8))"

text \<open>Where a target takes the planes layout, its kernels' order of the sign region is the one
  \<open>planes_slot\<close> addresses.\<close>

lemma planes_for_cases:
  assumes "planes_for t bits nbg"
  shows "bits = 2 \<and> nbg mod 8 = 0 \<or> bits = 4 \<and> nbg mod 16 = 0"
    and "(nbg div bits) mod 4 = 0" and "nbg = bits * (nbg div bits)"
  using assms by (auto simp: planes_for_def Let_def split: if_splits)

lemma planes_slot_read:
  assumes p: "planes_for t bits nbg" and g: "g < nbg div bits"
  shows "sign ! (v div BLOCK * (nbg div bits) * BLOCK + planes_slot t g (v mod BLOCK))
    = read_code t sign 2 (nbg div bits) (v div BLOCK) g (v mod BLOCK)"
proof -
  let ?nsg = "nbg div bits"
  have m: "?nsg mod 4 = 0" by (rule planes_for_cases(2) [OF p])
  show ?thesis
  proof (cases "t_x86 t")
    case True
    then have "vector_major_for t 2 ?nsg" "\<not> vm8_for t 2 ?nsg"
      using p m by (auto simp: planes_for_def vector_major_for_def vm8_for_def vm8_2bit_for_def use_vm8_def Let_def split: if_splits)
    then show ?thesis using True by (simp add: read_code_def planes_slot_def vm_byte_index_def add.assoc)
  next
    case False
    then have "\<not> vector_major_for t 2 ?nsg" "\<not> vm8_for t 2 ?nsg"
      using p by (auto simp: planes_for_def vector_major_for_def vm8_for_def vm8_2bit_for_def Let_def split: if_splits)
    then show ?thesis using False by (simp add: read_code_def planes_slot_def add_mult_distrib add.assoc)
  qed
qed

lemma length_sign_row [simp]: "length (sign_row t nsg sign v) = nsg"
  by (simp add: sign_row_def)

lemma planes_read_row_join:
  assumes p: "planes_for t bits nbg" and low: "Suc v * ((bits - 1) * (nbg div bits)) \<le> length low"
  shows "planes_read_row t sign low bits nbg v
    = join_rows bits (nbg div bits) (sign_row t (nbg div bits) sign v) (low_of ((bits - 1) * (nbg div bits)) low v)"
proof -
  note slot = planes_slot_read [OF p, of _ sign v]
  consider "bits = 2" | "bits = 4" using planes_for_cases(1) [OF p] by blast
  then show ?thesis
  proof cases
    case 1
    have "nbg - 2 * (nbg div 2) = 0" using planes_for_cases(3) [OF p] 1 by simp
    moreover have "low ! (v * (nbg div 2) + g) = low_of (nbg div 2) low v ! g" if "g < nbg div 2" for g
      using that low 1 by (simp add: low_of_def)
    ultimately show ?thesis
      using slot 1 unfolding planes_read_row_def join_rows_def sign_row_def read_row_def Let_def
      by (simp, intro arg_cong [where f = concat] map_cong) simp_all
  next
    case 2
    have "map (\<lambda>g. sign ! (v div BLOCK * (nbg div bits) * BLOCK + planes_slot t g (v mod BLOCK))) [0..<nbg div bits]
        = sign_row t (nbg div bits) sign v"
      unfolding sign_row_def read_row_def using slot by (intro map_cong) simp_all
    then show ?thesis
      using 2 by (simp only: planes_read_row_def planes_packed_row_def planes_geom_def join_rows_def low_of_def Let_def
          prod.case) simp
  qed
qed

section \<open>Rows of the packed form\<close>

lemma extract_row_cong:
  assumes "\<And>i. i < bits * (dim div 8) \<Longrightarrow> p ! (b + i) = q ! (c + i)"
  shows "extract_row p b bits dim = extract_row q c bits dim"
proof -
  have "p ! (b + j * (dim div 8) + k) = q ! (c + j * (dim div 8) + k)" if "k < dim div 8" "j < bits" for k j
  proof -
    have "Suc j * (dim div 8) \<le> bits * (dim div 8)" using that(2) by (intro mult_le_mono1) simp
    then show ?thesis using assms [of "j * (dim div 8) + k"] that(1) by (simp add: add.assoc)
  qed
  then have "extract_chunk p b (dim div 8) bits k = extract_chunk q c (dim div 8) bits k" if "k < dim div 8" for k
    unfolding extract_chunk_def using that
    by (intro arg_cong [where f = "\<lambda>x. take (8 div codes_per_byte bits) (u32_to_le x)"] foldl_cong) simp_all
  then show ?thesis unfolding extract_row_def by (intro arg_cong [where f = concat] map_cong) auto
qed

lemma extract_one: "extract_codes_flat r 1 bits dim = extract_row r 0 bits dim"
  by (simp add: extract_codes_flat_def)

lemma extract_flat_row:
  assumes b: "bits \<in> {2, 3, 4}" "dim mod 8 = 0" and v: "v < n"
  shows "take (dim div codes_per_byte bits) (drop (v * (dim div codes_per_byte bits)) (extract_codes_flat packed n bits dim))
    = extract_row packed (v * (bits * (dim div 8))) bits dim"
proof (rule nth_equalityI)
  let ?nbg = "dim div codes_per_byte bits"
  have "v * ?nbg + ?nbg \<le> n * ?nbg" using v mult_le_mono1 [of "Suc v" n ?nbg] by simp
  then show "length (take ?nbg (drop (v * ?nbg) (extract_codes_flat packed n bits dim)))
      = length (extract_row packed (v * (bits * (dim div 8))) bits dim)"
    by (simp add: length_extract_codes_flat [OF b] length_extract_row [OF b])
  fix i
  assume "i < length (take ?nbg (drop (v * ?nbg) (extract_codes_flat packed n bits dim)))"
  then have i: "i < ?nbg" by simp
  have "extract_codes_flat packed n bits dim ! (v * ?nbg + i) = extract_row packed ([0..<n] ! v * (bits * (dim div 8))) bits dim ! i"
    unfolding extract_codes_flat_def by (rule nth_concat_const) (use v i length_extract_row [OF b] in simp_all)
  then show "take ?nbg (drop (v * ?nbg) (extract_codes_flat packed n bits dim)) ! i
      = extract_row packed (v * (bits * (dim div 8))) bits dim ! i"
    using v i \<open>v * ?nbg + ?nbg \<le> n * ?nbg\<close> by (simp add: length_extract_codes_flat [OF b])
qed

lemma extract_slice:
  assumes "v * (bits * (dim div 8)) + bits * (dim div 8) \<le> length packed"
  shows "extract_row (take (bits * (dim div 8)) (drop (v * (bits * (dim div 8))) packed)) 0 bits dim
    = extract_row packed (v * (bits * (dim div 8))) bits dim"
  by (rule extract_row_cong) (use assms in simp)

section \<open>Splitting and joining\<close>

text \<open>The sign and low rows of the \<open>i\<close>-th of \<open>n\<close> vectors, from its packed row or its code bytes,
  join to the code bytes again.\<close>

lemma nsg_dim:
  assumes "bits = 2 \<or> bits = 4" and "dim mod 8 = 0"
  shows "dim div codes_per_byte bits = bits * (dim div 8)" and "dim div codes_per_byte bits div bits = dim div 8"
    and "dim div 8 * 8 = dim"
proof -
  show d: "dim div 8 * 8 = dim" using assms(2) div_mult_mod_eq [of dim 8] by linarith
  define m where "m = dim div 8"
  have "dim = m * 8" using d by (simp add: m_def)
  then show "dim div codes_per_byte bits = bits * (dim div 8)" using assms(1) by auto
  then show "dim div codes_per_byte bits div bits = dim div 8" using assms(1) by auto
qed

lemma concat_pairs:
  assumes "length c = 2 * n"
  shows "concat (map (\<lambda>g. [c ! (2 * g), c ! (2 * g + 1)]) [0..<n]) = c"
  using assms
proof (induction n arbitrary: c)
  case (Suc n)
  have c: "c = take (2 * n) c @ [c ! (2 * n), c ! (2 * n + 1)]"
    using Suc.prems by (intro nth_equalityI) (auto simp: nth_append less_Suc_eq)
  have "concat (map (\<lambda>g. [c ! (2 * g), c ! (2 * g + 1)]) [0..<n])
      = concat (map (\<lambda>g. [take (2 * n) c ! (2 * g), take (2 * n) c ! (2 * g + 1)]) [0..<n])"
    by (intro arg_cong [where f = concat] map_cong) simp_all
  also have "\<dots> = take (2 * n) c" by (rule Suc.IH) (use Suc.prems in simp)
  finally show ?case using c by simp
qed simp

lemma concat_slice:
  assumes len: "\<And>r. r < n \<Longrightarrow> length (f r) = k" and i: "i < n"
  shows "take k (drop (i * k) (concat (map f [0..<n]))) = f i"
proof (rule nth_equalityI)
  have tot: "length (concat (map f [0..<n])) = n * k" using length_concat_const [of "[0..<n]" f k] len by simp
  have fit: "Suc i * k \<le> n * k" using i by (intro mult_le_mono1) simp
  then show "length (take k (drop (i * k) (concat (map f [0..<n])))) = length (f i)" by (simp add: tot len [OF i])
  fix j
  assume "j < length (take k (drop (i * k) (concat (map f [0..<n]))))"
  then have j: "j < k" by simp
  have "concat (map f [0..<n]) ! (i * k + j) = f ([0..<n] ! i) ! j"
    by (rule nth_concat_const) (use len i j in simp_all)
  then show "take k (drop (i * k) (concat (map f [0..<n]))) ! j = f i ! j" using j i fit by (simp add: tot)
qed

lemma split_rows_nth:
  assumes "length flat = n * (2 * nsg)" and "i < n" and "0 < nsg"
  shows "take nsg (drop (i * nsg) (fst (planes_split_rows flat (2 * nsg))))
      = map (\<lambda>g. fst (split2 (flat ! (i * (2 * nsg) + 2 * g)) (flat ! (i * (2 * nsg) + (2 * g + 1))))) [0..<nsg]"
    and "take nsg (drop (i * nsg) (snd (planes_split_rows flat (2 * nsg))))
      = map (\<lambda>g. snd (split2 (flat ! (i * (2 * nsg) + 2 * g)) (flat ! (i * (2 * nsg) + (2 * g + 1))))) [0..<nsg]"
    and "length (fst (planes_split_rows flat (2 * nsg))) = n * nsg" "length (snd (planes_split_rows flat (2 * nsg))) = n * nsg"
proof -
  have n: "length flat div (2 * nsg) = n" using assms by simp
  show "take nsg (drop (i * nsg) (fst (planes_split_rows flat (2 * nsg))))
      = map (\<lambda>g. fst (split2 (flat ! (i * (2 * nsg) + 2 * g)) (flat ! (i * (2 * nsg) + (2 * g + 1))))) [0..<nsg]"
    using assms by (simp add: planes_split_rows_def Let_def n concat_slice)
  show "take nsg (drop (i * nsg) (snd (planes_split_rows flat (2 * nsg))))
      = map (\<lambda>g. snd (split2 (flat ! (i * (2 * nsg) + 2 * g)) (flat ! (i * (2 * nsg) + (2 * g + 1))))) [0..<nsg]"
    using assms by (simp add: planes_split_rows_def Let_def n concat_slice)
  show "length (fst (planes_split_rows flat (2 * nsg))) = n * nsg" "length (snd (planes_split_rows flat (2 * nsg))) = n * nsg"
    using assms(3) by (simp_all add: planes_split_rows_def Let_def n length_concat_const)
qed

text \<open>What \<open>planes_repack\<close>, \<open>planes_repack_block_range\<close> and \<open>planes_append_lanes\<close> take from packed rows.\<close>

definition planes_rows :: "bytes \<Rightarrow> nat \<Rightarrow> nat \<Rightarrow> nat \<Rightarrow> bytes \<times> bytes" where
  "planes_rows packed n bits dim =
     (if bits \<noteq> 2 then planes_rows_from_packed packed n bits dim
      else planes_split_rows (extract_codes_flat packed n 2 dim) (dim div 4))"

lemma join_split:
  assumes "bits = 2" "length row = 2 * nsg"
  shows "join_rows bits nsg (map (\<lambda>g. fst (split2 (row ! (2 * g)) (row ! (2 * g + 1)))) [0..<nsg])
    (map (\<lambda>g. snd (split2 (row ! (2 * g)) (row ! (2 * g + 1)))) [0..<nsg]) = row"
proof -
  have "join_rows bits nsg (map (\<lambda>g. fst (split2 (row ! (2 * g)) (row ! (2 * g + 1)))) [0..<nsg])
      (map (\<lambda>g. snd (split2 (row ! (2 * g)) (row ! (2 * g + 1)))) [0..<nsg])
    = concat (map (\<lambda>g. [row ! (2 * g), row ! (2 * g + 1)]) [0..<nsg])"
    unfolding join_rows_def using assms(1) split2_inverse
    by (simp, intro arg_cong [where f = concat] map_cong) simp_all
  then show ?thesis using concat_pairs [OF assms(2)] by simp
qed

lemma planes_rows_join4:
  assumes 4: "bits = 4" and dim: "dim = nsg * 8" and len: "length packed = n * (bits * nsg)"
    and rows: "planes_rows packed n bits dim = (sr, lr)"
  shows "length sr = n * nsg \<and> length lr = n * ((bits - 1) * nsg) \<and>
    (i < n \<longrightarrow> join_rows bits nsg (take nsg (drop (i * nsg) sr)) (low_of ((bits - 1) * nsg) lr i)
      = extract_row packed (i * (bits * nsg)) bits dim)"
proof -
  let ?r = "\<lambda>i. take (bits * nsg) (drop (i * (bits * nsg)) packed)" and ?low = "(bits - 1) * nsg"
  have s: "sr = concat (map (\<lambda>i. drop ?low (?r i)) [0..<n])" "lr = concat (map (\<lambda>i. take ?low (?r i)) [0..<n])"
    using rows 4 by (auto simp: planes_rows_def planes_rows_from_packed_def dim Let_def)
  have fit: "r * (bits * nsg) + bits * nsg \<le> length packed" if "r < n" for r
    using that len mult_le_mono1 [of "Suc r" n "bits * nsg"] by simp
  have ls: "length (drop ?low (?r r)) = nsg" "length (take ?low (?r r)) = ?low" if "r < n" for r
    using fit [OF that] 4 by simp_all
  have "join_rows bits nsg (take nsg (drop (i * nsg) sr)) (low_of ?low lr i) = extract_row packed (i * (bits * nsg)) bits dim"
    if i: "i < n"
  proof -
    have "take nsg (drop (i * nsg) sr) = drop ?low (?r i)" unfolding s by (rule concat_slice) (use ls i in simp_all)
    moreover have "low_of ?low lr i = take ?low (?r i)" unfolding s low_of_def by (rule concat_slice) (use ls i in simp_all)
    ultimately have "join_rows bits nsg (take nsg (drop (i * nsg) sr)) (low_of ?low lr i) = extract_codes_flat (?r i) 1 bits dim"
      using 4 by (simp only: join_rows_def append_take_drop_id dim) simp
    also have "\<dots> = extract_row packed (i * (bits * nsg)) bits dim"
      unfolding extract_one using extract_slice [of i bits dim packed] fit [OF i] by (simp add: dim)
    finally show ?thesis .
  qed
  then show ?thesis
    using length_concat_const [of "[0..<n]" "\<lambda>i. drop ?low (?r i)" nsg]
      length_concat_const [of "[0..<n]" "\<lambda>i. take ?low (?r i)" ?low] ls s by (simp add: mult.commute)
qed

lemma planes_rows_join2:
  assumes 2: "bits = 2" and dim: "dim = nsg * 8" and len: "length packed = n * (bits * nsg)"
    and rows: "planes_rows packed n bits dim = (sr, lr)"
  shows "length sr = n * nsg \<and> length lr = n * ((bits - 1) * nsg) \<and>
    (i < n \<longrightarrow> join_rows bits nsg (take nsg (drop (i * nsg) sr)) (low_of ((bits - 1) * nsg) lr i)
      = extract_row packed (i * (bits * nsg)) bits dim)"
proof -
  let ?flat = "extract_codes_flat packed n bits dim"
  have b3: "bits \<in> {2, 3, 4}" and d: "dim mod 8 = 0" using 2 dim by simp_all
  have g: "dim div 4 = 2 * nsg" "dim div codes_per_byte bits = 2 * nsg" using 2 dim by simp_all
  have fl: "length ?flat = n * (2 * nsg)" using length_extract_codes_flat [OF b3 d] g by simp
  have s: "sr = fst (planes_split_rows ?flat (2 * nsg))" "lr = snd (planes_split_rows ?flat (2 * nsg))"
    using rows 2 by (simp_all add: planes_rows_def g)
  show ?thesis
  proof (cases "nsg = 0 \<or> n = 0")
    case True
    then show ?thesis using s 2 fl by (auto simp: planes_split_rows_def join_rows_def extract_row_def dim)
  next
    case False
    have "join_rows bits nsg (take nsg (drop (i * nsg) sr)) (low_of ((bits - 1) * nsg) lr i) = extract_row packed (i * (bits * nsg)) bits dim"
      if i: "i < n"
    proof -
      let ?row = "take (2 * nsg) (drop (i * (2 * nsg)) ?flat)"
      have fit: "i * (2 * nsg) + 2 * nsg \<le> n * (2 * nsg)" using mult_le_mono1 [of "Suc i" n "2 * nsg"] i by simp
      have "i * (2 * nsg) \<le> length ?flat" using fit fl by linarith
      then have at: "?flat ! (i * (2 * nsg) + j) = ?row ! j" if "j < 2 * nsg" for j using that by simp
      have pos: "0 < nsg" and low1: "(bits - 1) * nsg = nsg" using False 2 by simp_all
      have e: "map (\<lambda>g. h (split2 (?flat ! (i * (2 * nsg) + 2 * g)) (?flat ! (i * (2 * nsg) + (2 * g + 1))))) [0..<nsg]
          = map (\<lambda>g. h (split2 (?row ! (2 * g)) (?row ! (2 * g + 1)))) [0..<nsg]" for h :: "u8 \<times> u8 \<Rightarrow> u8"
      proof (rule map_cong [OF refl])
        fix g
        assume "g \<in> set [0..<nsg]"
        then have "2 * g < 2 * nsg" "2 * g + 1 < 2 * nsg" by auto
        then show "h (split2 (?flat ! (i * (2 * nsg) + 2 * g)) (?flat ! (i * (2 * nsg) + (2 * g + 1))))
            = h (split2 (?row ! (2 * g)) (?row ! (2 * g + 1)))" by (simp only: at)
      qed
      have "take nsg (drop (i * nsg) sr) = map (\<lambda>g. fst (split2 (?row ! (2 * g)) (?row ! (2 * g + 1)))) [0..<nsg]"
        unfolding s split_rows_nth(1) [OF fl i pos] by (rule e)
      moreover have "low_of ((bits - 1) * nsg) lr i = map (\<lambda>g. snd (split2 (?row ! (2 * g)) (?row ! (2 * g + 1)))) [0..<nsg]"
        unfolding s low_of_def low1 split_rows_nth(2) [OF fl i pos] by (rule e)
      ultimately have "join_rows bits nsg (take nsg (drop (i * nsg) sr)) (low_of ((bits - 1) * nsg) lr i) = ?row"
        using join_split [OF 2, of ?row nsg] fit fl by simp
      also have "\<dots> = extract_row packed (i * (bits * nsg)) bits dim"
        using extract_flat_row [OF b3 d i, of packed] g dim by simp
      finally show ?thesis .
    qed
    then show ?thesis using split_rows_nth(3,4) [OF fl, of 0] False 2 s by simp
  qed
qed

lemma planes_rows_join:
  assumes "bits = 2 \<or> bits = 4" and "dim mod 8 = 0" and "length packed = n * (bits * (dim div 8))"
    and "planes_rows packed n bits dim = (sr, lr)"
  shows "length sr = n * (dim div 8)" "length lr = n * ((bits - 1) * (dim div 8))"
    and "i < n \<Longrightarrow> join_rows bits (dim div 8) (take (dim div 8) (drop (i * (dim div 8)) sr)) (low_of ((bits - 1) * (dim div 8)) lr i)
      = extract_row packed (i * (bits * (dim div 8))) bits dim"
proof -
  have d: "dim = dim div 8 * 8" using assms(2) div_mult_mod_eq [of dim 8] by linarith
  have "length sr = n * (dim div 8) \<and> length lr = n * ((bits - 1) * (dim div 8)) \<and>
    (i < n \<longrightarrow> join_rows bits (dim div 8) (take (dim div 8) (drop (i * (dim div 8)) sr)) (low_of ((bits - 1) * (dim div 8)) lr i)
      = extract_row packed (i * (bits * (dim div 8))) bits dim)" for i
    using assms(1) planes_rows_join2 [OF _ d assms(3,4)] planes_rows_join4 [OF _ d assms(3,4)] by blast
  then show "length sr = n * (dim div 8)" "length lr = n * ((bits - 1) * (dim div 8))"
    and "i < n \<Longrightarrow> join_rows bits (dim div 8) (take (dim div 8) (drop (i * (dim div 8)) sr)) (low_of ((bits - 1) * (dim div 8)) lr i)
      = extract_row packed (i * (bits * (dim div 8))) bits dim"
    by blast+
qed

section \<open>The operations, row by row\<close>

text \<open>The code bytes of vector \<open>v\<close> in a planes cache, from its two rows.\<close>

definition planes_row :: "target \<Rightarrow> nat \<Rightarrow> nat \<Rightarrow> bytes \<Rightarrow> bytes \<Rightarrow> nat \<Rightarrow> bytes" where
  "planes_row t bits nsg sign low v = join_rows bits nsg (sign_row t nsg sign v) (low_of ((bits - 1) * nsg) low v)"

lemma low_of_other:
  assumes "v \<noteq> w" and "Suc v * k \<le> length low" and "length x = k"
  shows "low_of k (overwrite (v * k) x low) w = low_of k low w"
proof -
  have "w * k + k \<le> v * k \<or> v * k + k \<le> w * k"
    using mult_le_mono1 [of "Suc w" v k] mult_le_mono1 [of "Suc v" w k] assms(1) by (cases "w < v") auto
  then show ?thesis
    unfolding low_of_def using overwrite_read(2) [of "v * k" x low "w * k" k] assms(2,3) by (simp add: add.commute)
qed

lemma planes_move_row:
  assumes "planes_move t sign low bits nbg src dst = (sign', low')" and nsg: "nsg = nbg div bits"
    and "has_row nsg sign src" "has_row nsg sign dst" "has_row nsg sign w"
    and "Suc src * ((bits - 1) * nsg) \<le> length low" "Suc dst * ((bits - 1) * nsg) \<le> length low"
  shows "planes_row t bits nsg sign' low' w = (if w = dst then planes_row t bits nsg sign low src else planes_row t bits nsg sign low w)"
    and "length sign' = length sign" "length low' = length low"
proof -
  let ?k = "(bits - 1) * nsg"
  have s: "sign' = fst (move_lane t sign 2 nsg src dst)" and l: "low' = overwrite (dst * ?k) (low_of ?k low src) low"
    using assms(1) by (simp_all add: planes_move_def planes_geom_def low_of_def nsg Let_def)
  have len: "length (low_of ?k low src) = ?k" using assms(6) by (simp add: low_of_def)
  have fit: "dst * ?k + length (low_of ?k low src) \<le> length low" using assms(7) by (simp only: len mult_Suc add.commute)
  have "low_of ?k low' w = (if w = dst then low_of ?k low src else low_of ?k low w)"
  proof (cases "w = dst")
    case True
    have "low_of ?k low' dst = low_of ?k low src"
      unfolding l low_of_def [of _ "overwrite _ _ _"] using overwrite_read(1) [OF fit] by (simp only: len)
    then show ?thesis using True by simp
  next
    case False
    then have "low_of ?k low' w = low_of ?k low w" unfolding l by (intro low_of_other assms(7) len) simp
    then show ?thesis using False by simp
  qed
  then show "planes_row t bits nsg sign' low' w = (if w = dst then planes_row t bits nsg sign low src else planes_row t bits nsg sign low w)"
    using read_move_lane [OF assms(3-5), of t 2] by (simp add: planes_row_def sign_row_def s)
  show "length sign' = length sign" using move_lane_eq [OF assms(3,4), of t 2] by (simp add: s)
  show "length low' = length low" unfolding l by (rule length_overwrite [OF fit])
qed

lemma planes_append_row:
  assumes rows: "planes_rows packed_rows n_new bits dim = (sr, lr)"
    and ap: "planes_append_lanes t sign low packed_rows old_n n_new bits dim = (sign', low')"
    and b: "bits = 2 \<or> bits = 4" "dim mod 8 = 0" and nsg: "nsg = dim div 8"
    and new: "length packed_rows = n_new * (bits * nsg)"
    and old: "length sign = (old_n + BLOCK - 1) div BLOCK * nsg * BLOCK" "length low = old_n * ((bits - 1) * nsg)"
    and w: "w < old_n + n_new"
  shows "planes_row t bits nsg sign' low' w
    = (if w < old_n then planes_row t bits nsg sign low w else extract_row packed_rows ((w - old_n) * (bits * nsg)) bits dim)"
    and "length low' = (old_n + n_new) * ((bits - 1) * nsg)"
    and "length sign' = (old_n + n_new + BLOCK - 1) div BLOCK * nsg * BLOCK"
proof -
  let ?k = "(bits - 1) * nsg"
  note rj = planes_rows_join [OF b new [unfolded nsg] rows, folded nsg]
  define n' where "n' = (old_n + n_new + BLOCK - 1) div BLOCK * nsg * BLOCK"
  have d: "dim div 4 div 2 = nsg" by (simp add: nsg div_mult2_eq [symmetric])
  have pr: "(if bits = 2 then planes_split_rows (extract_codes_flat packed_rows n_new 2 dim) (dim div 4)
      else planes_rows_from_packed packed_rows n_new bits dim) = (sr, lr)"
    using rows by (cases "bits = 2") (simp_all add: planes_rows_def)
  have s: "sign' = foldl (\<lambda>sg i. write_row t 2 nsg sg (old_n + i) (take nsg (drop (i * nsg) sr))) (resize_bytes sign n') [0..<n_new]"
    and l: "low' = low @ lr"
    using ap old(2) unfolding planes_append_lanes_def Let_def d pr by (auto simp: n'_def mult.assoc)
  have le: "length sign \<le> n'" unfolding old(1) n'_def by (intro mult_le_mono1 div_le_mono) simp
  have rs: "resize_bytes sign n' = sign @ replicate (n' - length sign) 0" using le by (simp add: resize_bytes_def)
  have lrs: "length (resize_bytes sign n') = n'" using le by (simp add: rs)
  have fit: "has_row nsg bl v" if "v < k" "length bl = (k + BLOCK - 1) div BLOCK * nsg * BLOCK" for bl v k
    using mult_le_mono1 [OF block_count [OF that(1)], of "nsg * BLOCK"] that(2) by (simp only: has_row_def mult.assoc)
  have srow: "sign_row t nsg sign' w
      = (if old_n \<le> w then take nsg (drop ((w - old_n) * nsg) sr) else sign_row t nsg sign w)"
  proof -
    have "length (take nsg (drop (i * nsg) sr)) = nsg" if "i < n_new" for i
      using rj(1) mult_le_mono1 [of "Suc i" n_new nsg] that by simp
    then have "read_row t 2 nsg sign' w = (if old_n \<le> w \<and> w < old_n + n_new then take nsg (drop ((w - old_n) * nsg) sr)
        else read_row t 2 nsg (resize_bytes sign n') w)"
      unfolding s using lrs w by (intro read_write_rows) (auto intro!: fit [of _ "old_n + n_new"] simp: n'_def)
    moreover have "read_row t 2 nsg (resize_bytes sign n') w = read_row t 2 nsg sign w" if "w < old_n"
      unfolding rs by (rule read_row_append) (rule fit [OF that old(1)])
    ultimately show ?thesis using w by (simp add: sign_row_def)
  qed
  have lrow: "low_of ?k low' w = (if old_n \<le> w then low_of ?k lr (w - old_n) else low_of ?k low w)"
  proof (cases "old_n \<le> w")
    case True
    then have "drop (w * ?k) low' = drop ((w - old_n) * ?k) lr"
      unfolding l using old(2) by (simp add: diff_mult_distrib)
    then show ?thesis using True by (simp add: low_of_def)
  next
    case False
    then have "w * ?k + ?k \<le> length low" using old(2) mult_le_mono1 [of "Suc w" old_n ?k] by simp
    then show ?thesis unfolding l low_of_def using False by simp
  qed
  show "planes_row t bits nsg sign' low' w
    = (if w < old_n then planes_row t bits nsg sign low w else extract_row packed_rows ((w - old_n) * (bits * nsg)) bits dim)"
    using rj(3) [of "w - old_n"] w unfolding planes_row_def srow lrow by (cases "w < old_n") auto
  show "length low' = (old_n + n_new) * ?k" using rj(2) old(2) by (simp add: l add_mult_distrib)
  show "length sign' = (old_n + n_new + BLOCK - 1) div BLOCK * nsg * BLOCK"
    unfolding s by (simp add: lrs) (simp add: n'_def)
qed

section \<open>Blocks laid end to end\<close>

lemma read_code_shift:
  assumes "length xs = fb * nbg * BLOCK"
  shows "read_code t (xs @ ys) bits nbg (fb + b) g l = read_code t ys bits nbg b g l"
proof -
  have e: "(fb + b) * nbg * BLOCK = length xs + b * nbg * BLOCK" "((fb + b) * nbg + g) * BLOCK = length xs + (b * nbg + g) * BLOCK"
    using assms by (simp_all add: algebra_simps)
  have v: "vm8_byte_index ((fb + b) * nbg * BLOCK) g l = length xs + vm8_byte_index (b * nbg * BLOCK) g l"
    "vm_byte_index ((fb + b) * nbg * BLOCK) g l = length xs + vm_byte_index (b * nbg * BLOCK) g l"
    by (simp_all only: e vm8_byte_index_def vm_byte_index_def add.assoc)
  have d: "deinterleave_x86_code_byte (xs @ ys) (length xs + off) l = deinterleave_x86_code_byte ys off l" for off
    by (simp add: deinterleave_x86_code_byte_def Let_def add.assoc)
  show ?thesis unfolding read_code_def v e(2) d add.assoc nth_append_length_plus ..
qed

lemma read_row_blocks:
  assumes "length data = fb * nbg * BLOCK"
  shows "read_row t bits nbg (data @ patch) v
    = (if v div BLOCK < fb then read_row t bits nbg data v else read_row t bits nbg patch (v - fb * BLOCK))"
proof (cases "v div BLOCK < fb")
  case True
  then have "Suc (v div BLOCK) * nbg * BLOCK \<le> length data" unfolding assms by (intro mult_le_mono1) simp
  then show ?thesis using True by (simp add: read_row_append has_row_def)
next
  case False
  then have "fb * BLOCK \<le> v" by (simp add: not_less less_eq_div_iff_mult_less_eq)
  then obtain r where r: "v = r + fb * BLOCK" by (auto simp: le_iff_add add.commute)
  then have "v div BLOCK = fb + r div BLOCK" "v mod BLOCK = r mod BLOCK" by simp_all
  then show ?thesis using False read_code_shift [OF assms] r by (simp add: read_row_def)
qed

section \<open>Building and patching\<close>

lemma sign_blocks_row:
  assumes "length sr = n * nsg" and "v div BLOCK < nb"
  shows "sign_row t nsg (pack_blocked_native t n nb 2 nsg sr) v
    = (if v < n then take nsg (drop (v * nsg) sr) else replicate nsg 0)"
  unfolding sign_row_def by (rule pack_native_row [OF assms(2,1)])

lemma planes_built_row:
  assumes "planes_rows packed n bits dim = (sr, lr)" and b: "bits = 2 \<or> bits = 4" "dim mod 8 = 0"
    and "length packed = n * (bits * (dim div 8))" and "v < n" "v div BLOCK < nb"
  shows "planes_row t bits (dim div 8) (pack_blocked_native t n nb 2 (dim div 8) sr) lr v
    = extract_row packed (v * (bits * (dim div 8))) bits dim"
proof -
  note rj = planes_rows_join [OF b assms(4,1)]
  show ?thesis
    unfolding planes_row_def sign_blocks_row [OF rj(1) assms(6)] using rj(3) [OF assms(5)] assms(5) by simp
qed

lemma planes_repack_rows:
  assumes "bits = 2 \<or> bits = 4" and "dim mod 8 = 0"
  shows "planes_repack t packed n bits dim =
    (case planes_rows packed n bits dim of (sr, lr) \<Rightarrow>
       (pack_blocked_native t n ((n + BLOCK - 1) div BLOCK) 2 (dim div 8) sr, lr, (n + BLOCK - 1) div BLOCK))"
proof -
  have "dim div 4 div 2 = dim div 8" by (simp add: div_mult2_eq [symmetric])
  then show ?thesis
    by (simp add: planes_repack_def planes_rows_def blocked_geometry_def Let_def split: prod.splits)
qed

lemma planes_range_rows:
  assumes "bits = 2 \<or> bits = 4"
  shows "planes_repack_block_range t packed n bits dim fb be =
    (let e = min (be * BLOCK) n; row = bits * (dim div 8) in
     case planes_rows (take (e * row - fb * BLOCK * row) (drop (fb * BLOCK * row) packed)) (e - fb * BLOCK) bits dim of
       (sr, lr) \<Rightarrow> (pack_blocked_native t (e - fb * BLOCK) (be - fb) 2 (dim div 8) sr, lr))"
proof -
  have "dim div 4 div 2 = dim div 8" by (simp add: div_mult2_eq [symmetric])
  then show ?thesis
    by (simp add: planes_repack_block_range_def planes_rows_def Let_def split: prod.splits)
qed

end
