(* ===== verification/PlanesConvert.thy ===== *)
theory PlanesConvert
  imports PlanesNative
begin

text \<open>
  Whole-buffer conversions between the sequential blocks and the planes regions (\<open>planes_from_seq\<close>,
  \<open>planes_from_seq_owned\<close>, \<open>planes_to_seq\<close> of \<open>pack.rs\<close>). The 4-bit routes work on eight lanes at a
  time in a 64-bit word, and the owned one converts in place: the low rows of a chunk of blocks
  overwrite bytes that have been read. The lemmas show that every route gives the rows the
  byte-at-a-time definitions give, and that the two directions are inverse.
\<close>

section \<open>Definitions\<close>

definition ONES :: u64 where "ONES = 0x0101010101010101"

text \<open>\<open>planes4_seq_block\<close>: plane \<open>p\<close> of the eight lanes from \<open>l0\<close> in byte group \<open>g\<close>, as one word.\<close>

definition planes4_word :: "bytes \<Rightarrow> nat \<Rightarrow> nat \<Rightarrow> nat \<Rightarrow> u64" where
  "planes4_word blk g l0 p =
     foldl (\<lambda>acc j. let w = u64_from_le (take 8 (drop ((4 * g + j) * BLOCK + l0) blk))
                   in acc OR (push_bit (7 - 2 * j) (drop_bit (4 + p) w AND ONES)
                              OR push_bit (6 - 2 * j) (drop_bit p w AND ONES)))
       0 [0..<4]"

definition planes4_cells :: "nat \<Rightarrow> nat \<Rightarrow> (nat \<times> nat \<times> nat \<times> nat) list" where
  "planes4_cells nsg in_block =
     concat (map (\<lambda>g. concat (map (\<lambda>l0. concat (map (\<lambda>p. map (\<lambda>i. (g, l0, p, i)) [0..<min 8 (in_block - l0)])
       [0..<4])) (filter (\<lambda>l0. l0 < in_block) [0, 8, 16, 24]))) [0..<nsg])"

definition planes4_seq_block ::
  "target \<Rightarrow> bytes \<Rightarrow> nat \<Rightarrow> nat \<Rightarrow> bytes \<Rightarrow> bytes \<Rightarrow> bytes \<times> bytes" where
  "planes4_seq_block t blk nsg in_block sign_blk low_rows =
     (let low_row = 3 * nsg;
          sign0 = (if in_block < BLOCK then replicate (length sign_blk) 0 else sign_blk)
      in foldl (\<lambda>(sg, lo) (g, l0, p, i).
            let b = u64_to_le (planes4_word blk g l0 p) ! i; lane = l0 + i
            in if p = 3 then (sg[planes_slot t g lane := b], lo)
               else (sg, lo[lane * low_row + p * nsg + g := b]))
          (sign0, low_rows) (planes4_cells nsg in_block))"

text \<open>One sign block of the 2-bit route, zeroed and then filled lane by lane.\<close>

definition planes2_sign_block :: "target \<Rightarrow> bytes \<Rightarrow> nat \<Rightarrow> nat \<Rightarrow> nat \<Rightarrow> bytes" where
  "planes2_sign_block t seq nbg n_vectors b =
     (let nsg = nbg div 2; src = take (nbg * BLOCK) (drop (b * nbg * BLOCK) seq)
      in foldl (\<lambda>sg (lane, g). sg[planes_slot t g lane :=
              fst (split2 (src ! (2 * g * BLOCK + lane)) (src ! ((2 * g + 1) * BLOCK + lane)))])
          (replicate (nsg * BLOCK) 0) (List.product [0..<min BLOCK (n_vectors - b * BLOCK)] [0..<nsg]))"

definition planes_from_seq :: "target \<Rightarrow> bytes \<Rightarrow> nat \<Rightarrow> nat \<Rightarrow> nat \<Rightarrow> bytes \<times> bytes" where
  "planes_from_seq t seq bits nbg n_vectors =
     (if bits \<noteq> 2
      then let nsg = fst (planes_geom bits nbg);
               (sign, low, _) = planes_repack t (seq_to_packed seq n_vectors bits (nsg * 8)) n_vectors bits (nsg * 8)
           in (sign, low)
      else let nsg = nbg div 2; n_blocks = (n_vectors + BLOCK - 1) div BLOCK
           in (concat (map (planes2_sign_block t seq nbg n_vectors) [0..<n_blocks]),
               concat (map (\<lambda>v. map (\<lambda>g. snd (split2 (seq ! ((v div BLOCK * nbg + 2 * g) * BLOCK + v mod BLOCK))
                                                   (seq ! ((v div BLOCK * nbg + (2 * g + 1)) * BLOCK + v mod BLOCK))))
                                  [0..<nsg]) [0..<n_vectors])))"

text \<open>\<open>planes_from_seq_owned\<close> at 4 bits: one chunk of up to 256 blocks. The low rows go straight
  into the buffer when they end at or before the chunk's own first byte, else through a
  chunk-sized buffer that is copied back once the chunk has been read.\<close>

definition CHUNK_BLOCKS :: nat where "CHUNK_BLOCKS = 256"

definition owned_chunk ::
  "target \<Rightarrow> nat \<Rightarrow> nat \<Rightarrow> nat \<Rightarrow> bytes \<times> bytes \<times> bytes \<Rightarrow> nat \<Rightarrow> bytes \<times> bytes \<times> bytes" where
  "owned_chunk t nbg n_vectors n_blocks st c0 =
     (let (sign, seq, low_buf) = st;
          (nsg, low_row) = planes_geom 4 nbg;
          block_bytes = nbg * BLOCK; sb = nsg * BLOCK; lb = BLOCK * low_row;
          c1 = min (c0 + CHUNK_BLOCKS) n_blocks; nb = c1 - c0;
          v0 = c0 * BLOCK; v1 = min (c1 * BLOCK) n_vectors;
          direct = (v1 * low_row \<le> c0 * block_bytes);
          src = take (nb * block_bytes) (drop (c0 * block_bytes) seq);
          low_dst = (if direct then take (v1 * low_row - v0 * low_row) (drop (v0 * low_row) seq)
                     else take ((v1 - v0) * low_row) low_buf);
          parts = map (\<lambda>i. planes4_seq_block t (take block_bytes (drop (i * block_bytes) src)) nsg
                              (min BLOCK (n_vectors - (c0 + i) * BLOCK))
                              (take sb (drop ((c0 + i) * sb) sign)) (take lb (drop (i * lb) low_dst))) [0..<nb];
          sign' = overwrite (c0 * sb) (concat (map fst parts)) sign;
          low' = concat (map snd parts)
      in (sign', overwrite (v0 * low_row) low' seq, if direct then low_buf else overwrite 0 low' low_buf))"

definition chunk_starts :: "nat \<Rightarrow> nat list" where
  "chunk_starts n_blocks = map (\<lambda>k. k * CHUNK_BLOCKS) [0..<(n_blocks + CHUNK_BLOCKS - 1) div CHUNK_BLOCKS]"

definition planes_from_seq_owned :: "target \<Rightarrow> bytes \<Rightarrow> nat \<Rightarrow> nat \<Rightarrow> nat \<Rightarrow> bytes \<times> bytes" where
  "planes_from_seq_owned t seq bits nbg n_vectors =
     (if bits \<noteq> 4 then planes_from_seq t seq bits nbg n_vectors
      else let (nsg, low_row) = planes_geom bits nbg;
               n_blocks = (n_vectors + BLOCK - 1) div BLOCK;
               (sign, seq', _) = foldl (owned_chunk t nbg n_vectors n_blocks)
                 (replicate (n_blocks * nsg * BLOCK) 0, seq, replicate (CHUNK_BLOCKS * (BLOCK * low_row)) 0)
                 (chunk_starts n_blocks)
           in (sign, take (n_vectors * low_row) seq'))"

text \<open>The way back, one code byte of one lane at a time at 2 bits, eight lanes a word at 4.\<close>

definition planes4_code_word :: "(nat \<Rightarrow> nat \<Rightarrow> u8) \<Rightarrow> nat \<Rightarrow> nat \<Rightarrow> u64" where
  "planes4_code_word plane n8 j =
     foldl (\<lambda>w p. let pl = foldl (\<lambda>a i. a OR push_bit (8 * i) (ucast (plane p i))) 0 [0..<n8]
                 in w OR (push_bit (4 + p) (drop_bit (7 - 2 * j) pl AND ONES)
                          OR push_bit p (drop_bit (6 - 2 * j) pl AND ONES)))
       0 [0..<4]"

definition planes4_to_seq :: "target \<Rightarrow> bytes \<Rightarrow> bytes \<Rightarrow> nat \<Rightarrow> nat \<Rightarrow> bytes" where
  "planes4_to_seq t sign low nbg n_vectors =
     (let (nsg, low_row) = planes_geom 4 nbg; n_blocks = (n_vectors + BLOCK - 1) div BLOCK
      in concat (map (\<lambda>b.
           let in_block = min BLOCK (n_vectors - b * BLOCK);
               sblk = take (nsg * BLOCK) (drop (b * nsg * BLOCK) sign)
           in concat (map (\<lambda>gj. let g = gj div 4; j = gj mod 4 in
                if nsg \<le> g then replicate BLOCK 0
                else map (\<lambda>lane. if in_block \<le> lane then 0
                   else let l0 = lane div 8 * 8; n8 = min 8 (in_block - l0);
                            plane = (\<lambda>p i. let v = b * BLOCK + (l0 + i) in
                                       if p = 3 then sblk ! planes_slot t g (l0 + i)
                                       else take low_row (drop (v * low_row) low) ! (p * nsg + g))
                        in u64_to_le (planes4_code_word plane n8 j) ! (lane - l0)) [0..<BLOCK])
              [0..<nbg]))
           [0..<n_blocks]))"

definition planes_to_packed :: "target \<Rightarrow> bytes \<Rightarrow> bytes \<Rightarrow> nat \<Rightarrow> nat \<Rightarrow> nat \<Rightarrow> bytes" where
  "planes_to_packed t sign low bits nsg n_vectors =
     concat (map (planes_packed_row t sign low bits nsg) [0..<n_vectors])"

definition planes_to_seq :: "target \<Rightarrow> bytes \<Rightarrow> bytes \<Rightarrow> nat \<Rightarrow> nat \<Rightarrow> nat \<Rightarrow> bytes" where
  "planes_to_seq t sign low bits nbg n_vectors =
     (if bits = 4 then planes4_to_seq t sign low nbg n_vectors
      else if bits \<noteq> 2 then
        (let nsg = fst (planes_geom bits nbg)
         in repack_seq (planes_to_packed t sign low bits nsg n_vectors) n_vectors bits (nsg * 8))
      else let nsg = nbg div 2; n_blocks = (n_vectors + BLOCK - 1) div BLOCK
           in concat (map (\<lambda>b. concat (map (\<lambda>gg. let g = gg div 2 in
                map (\<lambda>lane. let v = b * BLOCK + lane in
                       if n_vectors \<le> v \<or> nsg \<le> g then 0
                       else let c = planes_to_code_bytes (sign ! (b * nsg * BLOCK + planes_slot t g lane)) (low ! (v * nsg + g))
                            in if even gg then fst c else snd c) [0..<BLOCK]) [0..<nbg])) [0..<n_blocks]))"

section \<open>Eight bytes in a word\<close>

lemma bit_u64_to_le:
  assumes "q < 8"
  shows "bit (u64_to_le w ! q) i \<longleftrightarrow> i < 8 \<and> bit w (8 * q + i)"
proof -
  have "u64_to_le w ! q = of_nat (drop_bit (8 * q) (unat w))"
    using assms by (simp add: u64_to_le_def le_bytes_def drop_bit_eq_div power_mult)
  then show ?thesis by (simp add: bit_of_nat_iff bit_drop_bit_eq bit_unsigned_iff)
qed

lemma bit_u64_from_le:
  assumes "length bs = 8" "q < 8" "i < 8"
  shows "bit (u64_from_le bs) (8 * q + i) \<longleftrightarrow> bit (bs ! q) i"
  using bit_u64_to_le [OF assms(2), of "u64_from_le bs" i] assms(3) by (simp add: u64_to_le_from_le [OF assms(1)])

lemma ONES_bit: "q < 8 \<Longrightarrow> i < 8 \<Longrightarrow> bit ONES (8 * q + i) \<longleftrightarrow> i = 0"
proof -
  assume q: "q < 8" and i: "i < 8"
  have "ONES = u64_from_le [1, 1, 1, 1, 1, 1, 1, 1]" by (simp add: ONES_def u64_from_le_def)
  moreover have "[1, 1, 1, 1, 1, 1, 1, 1 :: u8] ! q = 1" using q unfolding lt8 by (elim insertE emptyE) simp_all
  ultimately show ?thesis using bit_u64_from_le [OF _ q i, of "[1, 1, 1, 1, 1, 1, 1, 1]"] by (simp add: bit_1_iff)
qed

text \<open>One bit of every byte of a word, moved to bit \<open>k\<close> of its byte.\<close>

lemma bit_lanes:
  assumes "i < 8" "m < 8" "k < 8" "d < 8"
  shows "bit (push_bit k (drop_bit d w AND ONES)) (8 * i + m) \<longleftrightarrow> m = k \<and> bit (w :: u64) (8 * i + d)"
proof (cases "k \<le> m")
  case True
  then have e: "8 * i + m - k = 8 * i + (m - k)" by simp
  have "8 * i + m < 64" using assms by simp
  then show ?thesis
    using True assms ONES_bit [of i "m - k"] unfolding bit_push_bit_iff bit_and_iff bit_drop_bit_eq comp_apply e
    by (auto simp: add.commute)
next
  case False
  have "\<not> bit ONES (8 * i + m - k)" if "k \<le> 8 * i + m"
  proof -
    have "0 < i" using that False by (cases i) simp_all
    then have "8 * i + m - k = 8 * (i - 1) + (8 + m - k)" using False assms by (simp add: algebra_simps)
    then show ?thesis using ONES_bit [of "i - 1" "8 + m - k"] assms False by simp
  qed
  then show ?thesis using False unfolding bit_push_bit_iff bit_and_iff by auto
qed

lemma bit_plane4:
  assumes "m < 8" "p < 4"
  shows "bit (plane4 code p) m \<longleftrightarrow>
    (\<exists>j < 4. m = 7 - 2 * j \<and> bit (code j) (4 + p) \<or> m = 6 - 2 * j \<and> bit (code j) p)"
proof -
  define q where "q = 3 - m div 2"
  have q: "q < 4" "m = (if odd m then 7 - 2 * q else 6 - 2 * q)"
    using assms(1) unfolding lt8 q_def by (elim insertE emptyE; simp)+
  have od: "j = q \<and> odd m" if "m = 7 - 2 * j" "j < 4" for j
  proof -
    have "j \<in> {0, 1, 2, 3}" using that by auto
    then show ?thesis using that(1) unfolding q_def by (elim insertE emptyE) simp_all
  qed
  have ev: "j = q \<and> even m" if "m = 6 - 2 * j" "j < 4" for j
  proof -
    have "j \<in> {0, 1, 2, 3}" using that by auto
    then show ?thesis using that(1) unfolding q_def by (elim insertE emptyE) simp_all
  qed
  have "bit (plane4 code p) m \<longleftrightarrow> bit (code q) (if odd m then 4 + p else p)"
    by (simp only: plane4_bit [OF assms] q_def)
  also have "\<dots> \<longleftrightarrow> (\<exists>j < 4. m = 7 - 2 * j \<and> bit (code j) (4 + p) \<or> m = 6 - 2 * j \<and> bit (code j) p)"
  proof
    assume "bit (code q) (if odd m then 4 + p else p)"
    then show "\<exists>j < 4. m = 7 - 2 * j \<and> bit (code j) (4 + p) \<or> m = 6 - 2 * j \<and> bit (code j) p"
      using q by (intro exI [of _ q]) (metis (full_types))
  next
    assume "\<exists>j < 4. m = 7 - 2 * j \<and> bit (code j) (4 + p) \<or> m = 6 - 2 * j \<and> bit (code j) p"
    then obtain j where "j < 4" "m = 7 - 2 * j \<and> bit (code j) (4 + p) \<or> m = 6 - 2 * j \<and> bit (code j) p" by blast
    then show "bit (code q) (if odd m then 4 + p else p)" using od [of j] ev [of j] by (elim disjE conjE) simp_all
  qed
  finally show ?thesis .
qed

lemma planes4_word_byte:
  assumes "i < 8" "p < 4" and fit: "(4 * g + 4) * BLOCK \<le> length blk" "l0 + 8 \<le> BLOCK"
  shows "u64_to_le (planes4_word blk g l0 p) ! i = plane4 (\<lambda>j. blk ! ((4 * g + j) * BLOCK + (l0 + i))) p"
proof (rule nibble_eqI)
  fix m :: nat
  assume m: "m < 8"
  let ?w = "\<lambda>j. u64_from_le (take 8 (drop ((4 * g + j) * BLOCK + l0) blk))"
  let ?c = "\<lambda>j. blk ! ((4 * g + j) * BLOCK + (l0 + i))"
  have w: "bit (?w j) (8 * i + x) \<longleftrightarrow> bit (?c j) x" if "j < 4" "x < 8" for j x
  proof -
    have "(4 * g + j + 1) * BLOCK \<le> (4 * g + 4) * BLOCK" using that by (intro mult_le_mono1) simp
    then have "(4 * g + j) * BLOCK + l0 + 8 \<le> length blk" using fit by simp
    then show ?thesis using bit_u64_from_le [of "take 8 (drop ((4 * g + j) * BLOCK + l0) blk)" i x] assms(1) that
      by (simp add: add.assoc)
  qed
  have step: "bit (let w = ?w j in acc OR (push_bit (7 - 2 * j) (drop_bit (4 + p) w AND ONES)
        OR push_bit (6 - 2 * j) (drop_bit p w AND ONES))) (8 * i + m)
      \<longleftrightarrow> bit acc (8 * i + m) \<or> (m = 7 - 2 * j \<and> bit (?w j) (8 * i + (4 + p)) \<or> m = 6 - 2 * j \<and> bit (?w j) (8 * i + p))"
    for acc j
    using bit_lanes [OF assms(1) m, of "7 - 2 * j" "4 + p" "?w j"] bit_lanes [OF assms(1) m, of "6 - 2 * j" p "?w j"] assms(2)
    unfolding Let_def bit_or_iff by auto
  have "bit (planes4_word blk g l0 p) (8 * i + m) \<longleftrightarrow>
      (\<exists>j \<in> set [0..<4]. m = 7 - 2 * j \<and> bit (?w j) (8 * i + (4 + p)) \<or> m = 6 - 2 * j \<and> bit (?w j) (8 * i + p))"
    unfolding planes4_word_def bit_fold_step [OF step] by simp
  also have "\<dots> \<longleftrightarrow> bit (plane4 ?c p) m"
    unfolding bit_plane4 [OF m assms(2)] using w assms(2) by auto
  finally show "bit (u64_to_le (planes4_word blk g l0 p) ! i) m \<longleftrightarrow> bit (plane4 ?c p) m"
    using bit_u64_to_le [OF assms(1)] m by simp
qed

section \<open>One block at 4 bits\<close>

lemma planes_slot_layout:
  assumes "t_x86 t \<longrightarrow> nsg mod 4 = 0" and "g < nsg" "lane < BLOCK"
  shows "planes_slot t g lane < nsg * BLOCK"
    and "g' < nsg \<Longrightarrow> lane' < BLOCK \<Longrightarrow> planes_slot t g lane = planes_slot t g' lane' \<Longrightarrow> g = g' \<and> lane = lane'"
proof -
  have "planes_slot t g lane < nsg * BLOCK \<and> (g' < nsg \<longrightarrow> lane' < BLOCK \<longrightarrow>
      planes_slot t g lane = planes_slot t g' lane' \<longrightarrow> g = g' \<and> lane = lane')" for g' lane'
  proof (cases "t_x86 t")
    case True
    then obtain k where k: "nsg = 4 * k" using assms(1) by auto
    have e: "planes_slot t g lane = vm_byte_index (0 * (4 * k) * BLOCK) g lane" for g lane
      using True by (simp add: planes_slot_def vm_byte_index_def)
    show ?thesis unfolding e using vm.idx_bound [of g k lane 0] vm.idx_inj [of g k g' lane lane' 0 0] assms k by auto
  next
    case False
    then have e: "planes_slot t g lane = (0 * nsg + g) * BLOCK + lane" for g lane by (simp add: planes_slot_def)
    show ?thesis unfolding e using seq.idx_bound [of g nsg lane 0] seq.idx_inj [of g nsg g' lane lane' 0 0] assms by auto
  qed
  then show "planes_slot t g lane < nsg * BLOCK"
    and "g' < nsg \<Longrightarrow> lane' < BLOCK \<Longrightarrow> planes_slot t g lane = planes_slot t g' lane' \<Longrightarrow> g = g' \<and> lane = lane'"
    by blast+
qed

lemma foldl_two:
  "foldl (\<lambda>(sg, lo) c. if P c then (sg[f c := v c], lo) else (sg, lo[h c := v c])) (s, l) cs
    = (foldl (\<lambda>sg c. sg[f c := v c]) s (filter P cs), foldl (\<lambda>lo c. lo[h c := v c]) l (filter (\<lambda>c. \<not> P c) cs))"
  by (induction cs arbitrary: s l) simp_all

lemma length_foldl_updates [simp]: "length (foldl (\<lambda>sg c. sg[f c := v c]) s cs) = length s"
  by (induction cs arbitrary: s) simp_all

lemma foldl_updates_other: "i \<notin> f ` set cs \<Longrightarrow> foldl (\<lambda>sg c. sg[f c := v c]) s cs ! i = s ! i"
  by (induction cs arbitrary: s) auto

lemma nested_cells:
  "(g, l0, p, i) \<in> set (concat (map (\<lambda>g. concat (map (\<lambda>l0. concat (map (\<lambda>p. map (\<lambda>i. (g, l0, p, i)) (I l0)) P)) L)) G))
    \<longleftrightarrow> g \<in> set G \<and> l0 \<in> set L \<and> p \<in> set P \<and> i \<in> set (I l0)"
  by auto

lemma set_planes4_cells:
  "(g, l0, p, i) \<in> set (planes4_cells nsg in_block) \<longleftrightarrow>
    g < nsg \<and> l0 \<in> {0, 8, 16, 24} \<and> l0 < in_block \<and> p < 4 \<and> i < 8 \<and> l0 + i < in_block"
  unfolding planes4_cells_def nested_cells by (simp only: set_upt set_filter list.set) auto

lemma lane_cell:
  assumes "lane < in_block" "in_block \<le> BLOCK" "g < nsg" "p < 4"
  shows "(g, lane div 8 * 8, p, lane mod 8) \<in> set (planes4_cells nsg in_block)"
proof -
  have "lane div 8 \<in> {0, 1, 2, 3}" using assms(1,2) by auto
  then have "lane div 8 * 8 \<in> {0, 8, 16, 24}" by (elim insertE emptyE) simp_all
  moreover have "lane div 8 * 8 + lane mod 8 = lane" by (rule div_mult_mod_eq)
  moreover have "lane div 8 * 8 < in_block" using assms(1) \<open>lane div 8 * 8 + lane mod 8 = lane\<close> by linarith
  ultimately show ?thesis using assms by (simp only: set_planes4_cells) simp
qed

lemma cells_lane:
  assumes "(g, l0, p, i) \<in> set (planes4_cells nsg in_block)" "(g', l0', p', i') \<in> set (planes4_cells nsg in_block)"
    and "l0 + i = l0' + i'"
  shows "l0 = l0' \<and> i = i'"
  using assms by (auto simp: set_planes4_cells)

text \<open>The code bytes of lane \<open>lane\<close> in byte group \<open>g\<close> of a sequential block.\<close>

definition group_codes :: "bytes \<Rightarrow> nat \<Rightarrow> nat \<Rightarrow> nat \<Rightarrow> u8" where
  "group_codes blk g lane j = blk ! ((4 * g + j) * BLOCK + lane)"

lemma block_low_bound:
  assumes "(g :: nat) < nsg" "lane < in_block" "p < q"
  shows "lane * (q * nsg) + p * nsg + g < in_block * (q * nsg)"
proof -
  have "Suc p * nsg \<le> q * nsg" "Suc lane * (q * nsg) \<le> in_block * (q * nsg)" using assms by (intro mult_le_mono1; simp)+
  then show ?thesis unfolding mult_Suc using assms(1) by linarith
qed

text \<open>Where a cell of the block's loop writes, and what.\<close>

definition cell_sign_at :: "target \<Rightarrow> nat \<times> nat \<times> nat \<times> nat \<Rightarrow> nat" where
  "cell_sign_at t = (\<lambda>(g, l0, p, i). planes_slot t g (l0 + i))"

definition cell_low_at :: "nat \<Rightarrow> nat \<times> nat \<times> nat \<times> nat \<Rightarrow> nat" where
  "cell_low_at nsg = (\<lambda>(g, l0, p, i). (l0 + i) * (3 * nsg) + p * nsg + g)"

definition cell_byte :: "bytes \<Rightarrow> nat \<times> nat \<times> nat \<times> nat \<Rightarrow> u8" where
  "cell_byte blk = (\<lambda>(g, l0, p, i). u64_to_le (planes4_word blk g l0 p) ! i)"

definition cell_is_sign :: "nat \<times> nat \<times> nat \<times> nat \<Rightarrow> bool" where
  "cell_is_sign = (\<lambda>(g, l0, p, i). p = 3)"

lemma planes4_seq_block_folds:
  "planes4_seq_block t blk nsg in_block sb lo =
    (foldl (\<lambda>sg c. sg[cell_sign_at t c := cell_byte blk c])
       (if in_block < BLOCK then replicate (length sb) 0 else sb) (filter cell_is_sign (planes4_cells nsg in_block)),
     foldl (\<lambda>lo c. lo[cell_low_at nsg c := cell_byte blk c]) lo
       (filter (\<lambda>c. \<not> cell_is_sign c) (planes4_cells nsg in_block)))"
  unfolding planes4_seq_block_def Let_def foldl_two [symmetric] cell_sign_at_def cell_low_at_def cell_byte_def cell_is_sign_def
  by (intro foldl_cong) auto

lemma inj_cell_sign_at:
  assumes x: "t_x86 t \<longrightarrow> nsg mod 4 = 0" and ib: "in_block \<le> BLOCK"
  shows "inj_on (cell_sign_at t) (set (filter cell_is_sign (planes4_cells nsg in_block)))"
proof (rule inj_onI, clarsimp simp: cell_sign_at_def cell_is_sign_def)
  fix g l0 i g' l0' i'
  assume c: "(g, l0, 3, i) \<in> set (planes4_cells nsg in_block)" "(g', l0', 3, i') \<in> set (planes4_cells nsg in_block)"
    and e: "planes_slot t g (l0 + i) = planes_slot t g' (l0' + i')"
  have b: "g < nsg" "l0 + i < BLOCK" "g' < nsg" "l0' + i' < BLOCK" using c ib by (auto simp: set_planes4_cells)
  have "g = g' \<and> l0 + i = l0' + i'" by (rule planes_slot_layout(2) [OF x b e])
  then show "g = g' \<and> l0 = l0' \<and> i = i'" using cells_lane [OF c] by blast
qed

lemma inj_cell_low_at: "inj_on (cell_low_at nsg) (set (filter (\<lambda>c. \<not> cell_is_sign c) (planes4_cells nsg in_block)))"
proof (rule inj_onI, clarsimp simp: cell_low_at_def cell_is_sign_def)
  fix g l0 p i g' l0' p' i'
  assume c: "(g, l0, p, i) \<in> set (planes4_cells nsg in_block)" "(g', l0', p', i') \<in> set (planes4_cells nsg in_block)"
    and p: "p \<noteq> 3" "p' \<noteq> 3"
    and e: "(l0 + i) * (3 * nsg) + p * nsg + g = (l0' + i') * (3 * nsg) + p' * nsg + g'"
  have b: "g < nsg" "g' < nsg" "p < 3" "p' < 3" using c p by (auto simp: set_planes4_cells)
  have "g = g' \<and> (l0 + i) * 3 + p = (l0' + i') * 3 + p'"
    by (rule block_index_inj [of _ _ nsg]) (use e b in \<open>simp_all add: algebra_simps\<close>)
  then have "g = g' \<and> p = p' \<and> l0 + i = l0' + i'"
    using block_index_inj [of p "l0 + i" 3 p' "l0' + i'"] b by (simp add: add.commute)
  then show "g = g' \<and> l0 = l0' \<and> p = p' \<and> i = i'" using cells_lane [OF c] by blast
qed

lemma cell_byte_plane:
  assumes blk: "length blk = 4 * nsg * BLOCK" and ib: "in_block \<le> BLOCK" and g: "g < nsg" "lane < in_block" "p < 4"
  shows "cell_byte blk (g, lane div 8 * 8, p, lane mod 8) = plane4 (group_codes blk g lane) p"
proof -
  have "4 * g + 4 \<le> 4 * nsg" using g by simp
  then have "(4 * g + 4) * BLOCK \<le> length blk" unfolding blk by (rule mult_le_mono1)
  moreover have "lane div 8 * 8 + 8 \<le> BLOCK" using g ib by simp
  ultimately have "u64_to_le (planes4_word blk g (lane div 8 * 8) p) ! (lane mod 8)
      = plane4 (\<lambda>j. blk ! ((4 * g + j) * BLOCK + (lane div 8 * 8 + lane mod 8))) p"
    using g by (intro planes4_word_byte) simp_all
  then show ?thesis unfolding div_mult_mod_eq group_codes_def [abs_def] cell_byte_def by simp
qed

lemma planes4_seq_block_sign:
  assumes blk: "length blk = 4 * nsg * BLOCK" and ib: "in_block \<le> BLOCK"
    and x: "t_x86 t \<longrightarrow> nsg mod 4 = 0" and len: "length sb = nsg * BLOCK" and g: "g < nsg" "lane < BLOCK"
  shows "fst (planes4_seq_block t blk nsg in_block sb lo) ! planes_slot t g lane
    = (if lane < in_block then plane4 (group_codes blk g lane) 3 else 0)"
proof -
  let ?cs = "filter cell_is_sign (planes4_cells nsg in_block)"
  define s0 where "s0 = (if in_block < BLOCK then replicate (length sb) 0 else sb)"
  have s: "planes_slot t g lane < length s0" using planes_slot_layout(1) [OF x g] by (simp add: s0_def len)
  have f: "fst (planes4_seq_block t blk nsg in_block sb lo) = foldl (\<lambda>sg c. sg[cell_sign_at t c := cell_byte blk c]) s0 ?cs"
    by (simp add: planes4_seq_block_folds s0_def)
  show ?thesis
  proof (cases "lane < in_block")
    case True
    let ?c = "(g, lane div 8 * 8, 3, lane mod 8)"
    have "?c \<in> set ?cs" using lane_cell [OF True ib g(1), of 3] by (simp add: cell_is_sign_def)
    then show ?thesis
      using foldl_scatter [OF inj_cell_sign_at [OF x ib], of ?c s0 "cell_byte blk"] s True cell_byte_plane [OF blk ib g(1) True, of 3]
      by (simp add: f cell_sign_at_def)
  next
    case False
    have "planes_slot t g lane \<noteq> cell_sign_at t c" if "c \<in> set ?cs" for c
    proof -
      obtain g' l0' p' i' where c: "c = (g', l0', p', i')" by (cases c)
      have "(g', l0', p', i') \<in> set (planes4_cells nsg in_block)" using that unfolding c set_filter by blast
      then have b: "g' < nsg" "l0' + i' < in_block" unfolding set_planes4_cells by blast+
      then show ?thesis using planes_slot_layout(2) [OF x g, of g' "l0' + i'"] ib False by (auto simp: c cell_sign_at_def)
    qed
    then have "foldl (\<lambda>sg c. sg[cell_sign_at t c := cell_byte blk c]) s0 ?cs ! planes_slot t g lane = s0 ! planes_slot t g lane"
      by (intro foldl_updates_other) blast
    then show ?thesis using False s g(2) by (simp add: f s0_def)
  qed
qed

lemma planes4_seq_block_low:
  assumes blk: "length blk = 4 * nsg * BLOCK" and ib: "in_block \<le> BLOCK"
    and len: "in_block * (3 * nsg) \<le> length lo" and g: "g < nsg" "lane < in_block" "p < 3"
  shows "snd (planes4_seq_block t blk nsg in_block sb lo) ! (lane * (3 * nsg) + p * nsg + g) = plane4 (group_codes blk g lane) p"
proof -
  let ?c = "(g, lane div 8 * 8, p, lane mod 8)"
  have "?c \<in> set (filter (\<lambda>c. \<not> cell_is_sign c) (planes4_cells nsg in_block))"
    using lane_cell [OF g(2) ib g(1), of p] g(3) by (simp add: cell_is_sign_def)
  moreover have "lane * (3 * nsg) + p * nsg + g < length lo" using block_low_bound [OF g] len by simp
  moreover have "cell_low_at nsg ?c = lane * (3 * nsg) + p * nsg + g" by (simp add: cell_low_at_def)
  ultimately show ?thesis
    using foldl_scatter [OF inj_cell_low_at, of ?c nsg in_block lo "cell_byte blk"] cell_byte_plane [OF blk ib g(1,2), of p] g(3)
    by (simp add: planes4_seq_block_folds)
qed

lemma length_planes4_seq_block:
  "length (fst (planes4_seq_block t blk nsg in_block sb lo)) = length sb"
  "length (snd (planes4_seq_block t blk nsg in_block sb lo)) = length lo"
  by (simp_all add: planes4_seq_block_folds)

section \<open>In place, chunk by chunk\<close>

lemma concat_slices:
  assumes len: "\<And>i. i < nb \<Longrightarrow> length (f i) = length (take k (drop (i * k) xs))" and tot: "length xs \<le> nb * k"
  shows "length (concat (map f [0..<nb])) = length xs"
    and "i < nb \<Longrightarrow> r < length (f i) \<Longrightarrow> concat (map f [0..<nb]) ! (i * k + r) = f i ! r"
proof -
  have l: "length (concat (map f [0..<m])) = min (m * k) (length xs)" if "m \<le> nb" for m
    using that by (induction m) (auto simp: len min_def)
  show "length (concat (map f [0..<nb])) = length xs" using l [of nb] tot by simp
  assume i: "i < nb" and r: "r < length (f i)"
  have "[0..<nb] = [0..<i] @ i # [Suc i..<nb]" using i by (metis less_imp_add_positive upt_add_eq_append upt_conv_Cons le_add1 add.left_neutral less_imp_le_nat zero_le)
  then have c: "concat (map f [0..<nb]) = concat (map f [0..<i]) @ f i @ concat (map f [Suc i..<nb])" by simp
  have "i * k \<le> length xs" using r len [OF i] by (cases "i * k \<le> length xs") simp_all
  then have "length (concat (map f [0..<i])) = i * k" using l [of i] i by simp
  then show "concat (map f [0..<nb]) ! (i * k + r) = f i ! r" using r unfolding c by (simp add: nth_append)
qed

text \<open>The code byte \<open>j\<close> of byte group \<open>g\<close> of vector \<open>v\<close> in the sequential blocks.\<close>

definition seq_code :: "bytes \<Rightarrow> nat \<Rightarrow> nat \<Rightarrow> nat \<Rightarrow> nat \<Rightarrow> u8" where
  "seq_code seq nbg v g j = seq ! ((v div BLOCK * nbg + (4 * g + j)) * BLOCK + v mod BLOCK)"

lemma block_group_codes:
  assumes "g < nsg" "j < 4" "nbg = 4 * nsg" "Suc b * (nbg * BLOCK) \<le> length seq" "lane < BLOCK"
    and un: "\<And>i. b * (nbg * BLOCK) \<le> i \<Longrightarrow> i < length seq \<Longrightarrow> seq ! i = seq0 ! i"
  shows "group_codes (take (nbg * BLOCK) (drop (b * (nbg * BLOCK)) seq)) g lane j = seq_code seq0 nbg (b * BLOCK + lane) g j"
proof -
  have "4 * g + j + 1 \<le> nbg" using assms(1-3) by simp
  then have "(4 * g + j + 1) * BLOCK \<le> nbg * BLOCK" by (rule mult_le_mono1)
  then have b: "(4 * g + j) * BLOCK + lane < nbg * BLOCK" using assms(5) by simp
  have e: "(b * nbg + (4 * g + j)) * BLOCK + lane = b * (nbg * BLOCK) + ((4 * g + j) * BLOCK + lane)"
    by (simp add: algebra_simps)
  have "group_codes (take (nbg * BLOCK) (drop (b * (nbg * BLOCK)) seq)) g lane j = seq ! (b * (nbg * BLOCK) + ((4 * g + j) * BLOCK + lane))"
    using b assms(4) by (simp add: group_codes_def)
  also have "\<dots> = seq0 ! (b * (nbg * BLOCK) + ((4 * g + j) * BLOCK + lane))" by (rule un) (use b assms(4) in simp_all)
  finally have "group_codes (take (nbg * BLOCK) (drop (b * (nbg * BLOCK)) seq)) g lane j
      = seq0 ! ((b * nbg + (4 * g + j)) * BLOCK + lane)" unfolding e .
  moreover have "(b * BLOCK + lane) div BLOCK = b" "(b * BLOCK + lane) mod BLOCK = lane" using assms(5) by simp_all
  ultimately show ?thesis by (simp only: seq_code_def)
qed

lemma plane4_cong: "(\<And>j. j < 4 \<Longrightarrow> c j = d j) \<Longrightarrow> plane4 c p = plane4 d p"
  unfolding plane4_def by (intro foldl_cong) auto

lemma rows_in_block:
  assumes "n_blocks = (n + BLOCK - 1) div BLOCK" "c0 + nb \<le> n_blocks" "i < nb" "v1 = min ((c0 + nb) * BLOCK) n"
  shows "min BLOCK (v1 - c0 * BLOCK - i * BLOCK) = min BLOCK (n - (c0 + i) * BLOCK)"
    and "c0 * BLOCK \<le> v1" "v1 - c0 * BLOCK \<le> nb * BLOCK"
proof -
  have "(c0 + nb - 1) * BLOCK < n"
  proof -
    have "c0 + nb - 1 < n_blocks" using assms(2,3) by simp
    then have "Suc (c0 + nb - 1) \<le> (n + BLOCK - 1) div BLOCK" using assms(1) by simp
    then have "Suc (c0 + nb - 1) * BLOCK \<le> n + BLOCK - 1" by (simp add: less_eq_div_iff_mult_less_eq)
    then show ?thesis by simp
  qed
  then show "min BLOCK (v1 - c0 * BLOCK - i * BLOCK) = min BLOCK (n - (c0 + i) * BLOCK)"
    "c0 * BLOCK \<le> v1" "v1 - c0 * BLOCK \<le> nb * BLOCK"
    using assms(3,4) by (auto simp: min_def)
qed

text \<open>Block \<open>c0 + i\<close> of a chunk, converted: its sign block and its low rows.\<close>

definition owned_part :: "target \<Rightarrow> nat \<Rightarrow> nat \<Rightarrow> nat \<Rightarrow> bytes \<Rightarrow> bytes \<Rightarrow> bytes \<Rightarrow> nat \<Rightarrow> bytes \<times> bytes" where
  "owned_part t nsg n c0 seq sign low_dst i =
     planes4_seq_block t (take (4 * nsg * BLOCK) (drop ((c0 + i) * (4 * nsg * BLOCK)) seq)) nsg (min BLOCK (n - (c0 + i) * BLOCK))
       (take (nsg * BLOCK) (drop ((c0 + i) * (nsg * BLOCK)) sign))
       (take (BLOCK * (3 * nsg)) (drop (i * (BLOCK * (3 * nsg))) low_dst))"

lemma slice_of_slice: "i < nb \<Longrightarrow> take k (drop (i * k) (take (nb * k) (drop (c * k) xs))) = take k (drop ((c + i) * k) xs)"
proof -
  assume "i < nb"
  then have "Suc i * k \<le> nb * k" by (intro mult_le_mono1) simp
  then have "k \<le> nb * k - i * k" by simp
  then show ?thesis by (simp add: drop_take min_def add_mult_distrib add.commute)
qed

lemma owned_chunk_parts:
  fixes n nsg c0 nk :: nat and t :: target
  defines "c1 \<equiv> min (c0 + CHUNK_BLOCKS) nk"
  defines "v0 \<equiv> c0 * BLOCK" and "v1 \<equiv> min (c1 * BLOCK) n" and "L \<equiv> 3 * nsg"
  defines "direct \<equiv> v1 * L \<le> c0 * (4 * nsg * BLOCK)"
  defines "low_dst \<equiv> (\<lambda>seq buf. if direct then take (v1 * L - v0 * L) (drop (v0 * L) seq) else take ((v1 - v0) * L) buf)"
  defines "low' \<equiv> (\<lambda>seq sign buf. concat (map (\<lambda>i. snd (owned_part t nsg n c0 seq sign (low_dst seq buf) i)) [0..<c1 - c0]))"
  shows "owned_chunk t (4 * nsg) n nk (sign, seq, buf) c0 =
    (overwrite (c0 * (nsg * BLOCK)) (concat (map (\<lambda>i. fst (owned_part t nsg n c0 seq sign (low_dst seq buf) i)) [0..<c1 - c0])) sign,
     overwrite (v0 * L) (low' seq sign buf) seq, if direct then buf else overwrite 0 (low' seq sign buf) buf)"
proof -
  have p: "planes4_seq_block t (take (4 * nsg * BLOCK) (drop (i * (4 * nsg * BLOCK)) (take ((c1 - c0) * (4 * nsg * BLOCK)) (drop (c0 * (4 * nsg * BLOCK)) seq))))
      nsg (min BLOCK (n - (c0 + i) * BLOCK)) (take (nsg * BLOCK) (drop ((c0 + i) * (nsg * BLOCK)) sign))
      (take (BLOCK * L) (drop (i * (BLOCK * L)) ld))
    = owned_part t nsg n c0 seq sign ld i" if "i < c1 - c0" for i ld
    unfolding owned_part_def slice_of_slice [OF that] L_def ..
  have g: "planes_geom 4 (4 * nsg) = (nsg, L)" by (simp add: planes_geom_def L_def)
  have m: "map (\<lambda>i. planes4_seq_block t (take (4 * nsg * BLOCK) (drop (i * (4 * nsg * BLOCK)) (take ((c1 - c0) * (4 * nsg * BLOCK)) (drop (c0 * (4 * nsg * BLOCK)) seq))))
      nsg (min BLOCK (n - (c0 + i) * BLOCK)) (take (nsg * BLOCK) (drop ((c0 + i) * (nsg * BLOCK)) sign))
      (take (BLOCK * L) (drop (i * (BLOCK * L)) ld))) [0..<c1 - c0]
    = map (owned_part t nsg n c0 seq sign ld) [0..<c1 - c0]" for ld
    by (intro map_cong refl p) simp
  show ?thesis
    unfolding owned_chunk_def g prod.case Let_def c1_def [symmetric] v0_def [symmetric] v1_def [symmetric] direct_def [symmetric]
    unfolding m unfolding low_dst_def low'_def map_map comp_def ..
qed

lemma owned_sign_blocks:
  assumes x: "t_x86 t \<longrightarrow> nsg mod 4 = 0" and nb: "c0 + nb \<le> nk"
    and len: "length seq = nk * (4 * nsg * BLOCK)" "length sign = nk * (nsg * BLOCK)"
    and un: "\<forall>i. c0 * (4 * nsg * BLOCK) \<le> i \<longrightarrow> i < length seq \<longrightarrow> seq ! i = seq0 ! i"
  shows "length (concat (map (\<lambda>i. fst (owned_part t nsg n c0 seq sign ld i)) [0..<nb])) = nb * (nsg * BLOCK)"
    and "i < nb \<Longrightarrow> g < nsg \<Longrightarrow> lane < BLOCK \<Longrightarrow>
      concat (map (\<lambda>i. fst (owned_part t nsg n c0 seq sign ld i)) [0..<nb]) ! (i * (nsg * BLOCK) + planes_slot t g lane)
      = (if (c0 + i) * BLOCK + lane < n then plane4 (seq_code seq0 (4 * nsg) ((c0 + i) * BLOCK + lane) g) 3 else 0)"
proof -
  let ?f = "\<lambda>i. fst (owned_part t nsg n c0 seq sign ld i)"
  have fit: "Suc (c0 + i) * k \<le> nk * k" if "i < nb" for i k using that nb by (intro mult_le_mono1) simp
  have sl: "length (take (nsg * BLOCK) (drop ((c0 + i) * (nsg * BLOCK)) sign)) = nsg * BLOCK" if "i < nb" for i
    using fit [OF that, of "nsg * BLOCK"] unfolding length_take length_drop len(2) mult_Suc by simp
  have lf: "length (?f i) = nsg * BLOCK" if "i < nb" for i
    unfolding owned_part_def by (simp only: length_planes4_seq_block sl [OF that])
  show "length (concat (map ?f [0..<nb])) = nb * (nsg * BLOCK)"
    using length_concat_const [of "[0..<nb]" ?f "nsg * BLOCK"] lf by simp
  assume i: "i < nb" and g: "g < nsg" and l: "lane < BLOCK"
  let ?blk = "take (4 * nsg * BLOCK) (drop ((c0 + i) * (4 * nsg * BLOCK)) seq)"
  have ni: "[0..<nb] ! i = i" using i by simp
  have f4: "Suc (c0 + i) * (4 * nsg * BLOCK) \<le> length seq" using fit [OF i] len(1) by simp
  then have lb: "length ?blk = 4 * nsg * BLOCK" unfolding length_take length_drop mult_Suc by linarith
  have "concat (map ?f [0..<nb]) ! (i * (nsg * BLOCK) + planes_slot t g lane) = ?f ([0..<nb] ! i) ! planes_slot t g lane"
    by (rule nth_concat_const) (use lf i planes_slot_layout(1) [OF x g l] in simp_all)
  also have "\<dots> = (if lane < min BLOCK (n - (c0 + i) * BLOCK) then plane4 (group_codes ?blk g lane) 3 else 0)"
    unfolding owned_part_def ni by (rule planes4_seq_block_sign [OF lb _ x sl [OF i] g l]) (rule min.cobounded1)
  also have "plane4 (group_codes ?blk g lane) 3 = plane4 (seq_code seq0 (4 * nsg) ((c0 + i) * BLOCK + lane) g) 3"
    by (intro plane4_cong block_group_codes [OF g] l refl f4 un [rule_format]) (use f4 in \<open>simp_all add: add_mult_distrib\<close>)
  finally show "concat (map ?f [0..<nb]) ! (i * (nsg * BLOCK) + planes_slot t g lane)
      = (if (c0 + i) * BLOCK + lane < n then plane4 (seq_code seq0 (4 * nsg) ((c0 + i) * BLOCK + lane) g) 3 else 0)"
    using l by (simp add: less_diff_conv add.commute)
qed

lemma owned_low_rows:
  assumes nk: "nk = (n + BLOCK - 1) div BLOCK" and nb: "c0 + nb \<le> nk" "v1 = min ((c0 + nb) * BLOCK) n"
    and len: "length seq = nk * (4 * nsg * BLOCK)" "length ld = (v1 - c0 * BLOCK) * (3 * nsg)"
    and un: "\<forall>i. c0 * (4 * nsg * BLOCK) \<le> i \<longrightarrow> i < length seq \<longrightarrow> seq ! i = seq0 ! i"
  shows "length (concat (map (\<lambda>i. snd (owned_part t nsg n c0 seq sign ld i)) [0..<nb])) = length ld"
    and "c0 * BLOCK \<le> v \<Longrightarrow> v < v1 \<Longrightarrow> g < nsg \<Longrightarrow> p < 3 \<Longrightarrow>
      concat (map (\<lambda>i. snd (owned_part t nsg n c0 seq sign ld i)) [0..<nb]) ! ((v - c0 * BLOCK) * (3 * nsg) + p * nsg + g)
      = plane4 (seq_code seq0 (4 * nsg) v g) p"
proof -
  let ?f = "\<lambda>i. snd (owned_part t nsg n c0 seq sign ld i)" and ?lb = "BLOCK * (3 * nsg)"
  have tot: "length ld \<le> nb * ?lb"
  proof (cases "nb = 0")
    case False
    then have "v1 - c0 * BLOCK \<le> nb * BLOCK" using rows_in_block(3) [OF nk nb(1) _ nb(2), of 0] by simp
    then have "(v1 - c0 * BLOCK) * (3 * nsg) \<le> nb * BLOCK * (3 * nsg)" by (rule mult_le_mono1)
    then show ?thesis by (simp only: len mult.assoc)
  qed (use len nb in simp)
  have lf: "length (?f i) = length (take ?lb (drop (i * ?lb) ld))" for i
    unfolding owned_part_def by (rule length_planes4_seq_block(2))
  note cs = concat_slices [of nb ?f ?lb ld, OF lf tot]
  show "length (concat (map ?f [0..<nb])) = length ld" by (rule cs(1))
  assume v: "c0 * BLOCK \<le> v" "v < v1" and g: "g < nsg" and p: "p < 3"
  define i where "i = (v - c0 * BLOCK) div BLOCK"
  define lane where "lane = (v - c0 * BLOCK) mod BLOCK"
  have vi: "v = (c0 + i) * BLOCK + lane" "lane < BLOCK"
    using v(1) div_mult_mod_eq [of "v - c0 * BLOCK" BLOCK] by (simp_all add: i_def lane_def add_mult_distrib)
  have i: "i < nb"
  proof -
    have "(c0 + i) * BLOCK < (c0 + nb) * BLOCK" using v(2) nb(2) vi by linarith
    then show ?thesis by simp
  qed
  let ?blk = "take (4 * nsg * BLOCK) (drop ((c0 + i) * (4 * nsg * BLOCK)) seq)" and ?ib = "min BLOCK (n - (c0 + i) * BLOCK)"
  have rib: "min BLOCK (v1 - c0 * BLOCK - i * BLOCK) = ?ib" by (rule rows_in_block(1) [OF nk nb(1) i nb(2)])
  have lane: "lane < ?ib" using v(2) nb(2) vi by (simp add: less_diff_conv add.commute)
  have "length (take ?lb (drop (i * ?lb) ld)) = min (BLOCK * (3 * nsg)) ((v1 - c0 * BLOCK) * (3 * nsg) - i * BLOCK * (3 * nsg))"
    by (simp add: len mult.assoc min.commute)
  also have "\<dots> = ?ib * (3 * nsg)" unfolding rib [symmetric] diff_mult_distrib [symmetric] by (simp add: min_def)
  finally have ll: "length (take ?lb (drop (i * ?lb) ld)) = ?ib * (3 * nsg)" .
  have "Suc (c0 + i) * (4 * nsg * BLOCK) \<le> nk * (4 * nsg * BLOCK)" using nb(1) i by (intro mult_le_mono1) simp
  then have f4: "Suc (c0 + i) * (4 * nsg * BLOCK) \<le> length seq" using len(1) by simp
  then have lb: "length ?blk = 4 * nsg * BLOCK" unfolding length_take length_drop mult_Suc by linarith
  have r: "lane * (3 * nsg) + p * nsg + g < length (?f i)" unfolding lf ll by (rule block_low_bound [OF g lane p])
  have e: "(v - c0 * BLOCK) * (3 * nsg) + p * nsg + g = i * ?lb + (lane * (3 * nsg) + p * nsg + g)"
  proof -
    have "v - c0 * BLOCK = i * BLOCK + lane" by (simp add: i_def lane_def)
    then show ?thesis by (simp add: add_mult_distrib mult.assoc)
  qed
  have "concat (map ?f [0..<nb]) ! ((v - c0 * BLOCK) * (3 * nsg) + p * nsg + g) = ?f i ! (lane * (3 * nsg) + p * nsg + g)"
    unfolding e by (rule cs(2) [OF i r])
  also have "\<dots> = plane4 (group_codes ?blk g lane) p"
    unfolding owned_part_def by (rule planes4_seq_block_low [OF lb min.cobounded1 _ g lane p]) (simp only: ll)
  also have "\<dots> = plane4 (seq_code seq0 (4 * nsg) ((c0 + i) * BLOCK + lane) g) p"
    by (intro plane4_cong block_group_codes [OF g] vi(2) refl f4 un [rule_format]) (use f4 in \<open>simp_all add: add_mult_distrib\<close>)
  finally show "concat (map ?f [0..<nb]) ! ((v - c0 * BLOCK) * (3 * nsg) + p * nsg + g) = plane4 (seq_code seq0 (4 * nsg) v g) p"
    by (simp only: vi(1))
qed

text \<open>What the buffers hold once the first \<open>c\<close> blocks are converted: the rows of those blocks, the
  sign lanes past the last vector zero, and the bytes of the other blocks as they were.\<close>

fun owned_upto ::
  "target \<Rightarrow> nat \<Rightarrow> nat \<Rightarrow> nat \<Rightarrow> bytes \<Rightarrow> nat \<Rightarrow> bytes \<times> bytes \<times> bytes \<Rightarrow> bool" where
  "owned_upto t nsg n nk seq0 c (sign, seq, buf) \<longleftrightarrow>
     length seq = nk * (4 * nsg * BLOCK) \<and> length sign = nk * (nsg * BLOCK) \<and> length buf = CHUNK_BLOCKS * (BLOCK * (3 * nsg))
     \<and> (\<forall>i. c * (4 * nsg * BLOCK) \<le> i \<longrightarrow> i < length seq \<longrightarrow> seq ! i = seq0 ! i)
     \<and> (\<forall>b g lane. b < c \<longrightarrow> g < nsg \<longrightarrow> lane < BLOCK \<longrightarrow> sign ! (b * (nsg * BLOCK) + planes_slot t g lane)
          = (if b * BLOCK + lane < n then plane4 (seq_code seq0 (4 * nsg) (b * BLOCK + lane) g) 3 else 0))
     \<and> (\<forall>v g p. v < min (c * BLOCK) n \<longrightarrow> g < nsg \<longrightarrow> p < 3 \<longrightarrow>
          seq ! (v * (3 * nsg) + p * nsg + g) = plane4 (seq_code seq0 (4 * nsg) v g) p)"

lemma owned_low_below:
  assumes "(g :: nat) < nsg" "(p :: nat) < 3" "v < c"
  shows "v * (3 * nsg) + p * nsg + g < c * (3 * nsg)"
  using block_low_bound [OF assms(1,3,2)] .

lemma owned_chunk_step:
  fixes n nsg c0 nk :: nat
  defines "c1 \<equiv> min (c0 + CHUNK_BLOCKS) nk"
  assumes x: "t_x86 t \<longrightarrow> nsg mod 4 = 0" and nk: "nk = (n + BLOCK - 1) div BLOCK" and c0: "c0 < nk"
    and st: "owned_upto t nsg n nk seq0 c0 st"
  shows "owned_upto t nsg n nk seq0 c1 (owned_chunk t (4 * nsg) n nk st c0)"
proof -
  obtain sign seq buf where t: "st = (sign, seq, buf)" by (cases st)
  define v1 where "v1 = min (c1 * BLOCK) n"
  let ?L = "3 * nsg" and ?bb = "4 * nsg * BLOCK" and ?sb = "nsg * BLOCK" and ?v0 = "c0 * BLOCK" and ?nb = "c1 - c0"
  have len: "length seq = nk * ?bb" "length sign = nk * ?sb" "length buf = CHUNK_BLOCKS * (BLOCK * ?L)"
    and un: "\<forall>i. c0 * ?bb \<le> i \<longrightarrow> i < length seq \<longrightarrow> seq ! i = seq0 ! i"
    and sg: "\<And>b g lane. b < c0 \<Longrightarrow> g < nsg \<Longrightarrow> lane < BLOCK \<Longrightarrow> sign ! (b * ?sb + planes_slot t g lane)
      = (if b * BLOCK + lane < n then plane4 (seq_code seq0 (4 * nsg) (b * BLOCK + lane) g) 3 else 0)"
    and lw: "\<And>v g p. v < min ?v0 n \<Longrightarrow> g < nsg \<Longrightarrow> p < 3 \<Longrightarrow>
      seq ! (v * ?L + p * nsg + g) = plane4 (seq_code seq0 (4 * nsg) v g) p"
    using st unfolding t owned_upto.simps by blast+
  have c01: "c0 < c1" "c1 \<le> nk" "c0 + ?nb = c1" "c0 + ?nb \<le> nk" "?nb \<le> CHUNK_BLOCKS"
    using c0 by (auto simp: c1_def CHUNK_BLOCKS_def)
  have v1b: "v1 = min ((c0 + ?nb) * BLOCK) n" by (simp only: c01 v1_def)
  have b0: "?v0 \<le> v1" "v1 - ?v0 \<le> ?nb * BLOCK"
    using rows_in_block(2,3) [OF nk c01(4) _ v1b, of 0] c01(1) by simp_all
  have v1L: "v1 * ?L \<le> c1 * ?bb"
  proof -
    have "v1 * ?L \<le> c1 * BLOCK * (4 * nsg)" unfolding v1_def by (intro mult_le_mono) simp_all
    then show ?thesis by (simp only: ac_simps)
  qed
  have c1b: "c1 * ?bb \<le> length seq" unfolding len using c01(2) by (rule mult_le_mono1)
  define direct where "direct = (v1 * ?L \<le> c0 * ?bb)"
  define ld where "ld = (if direct then take (v1 * ?L - ?v0 * ?L) (drop (?v0 * ?L) seq) else take ((v1 - ?v0) * ?L) buf)"
  have v01: "?v0 * ?L + (v1 - ?v0) * ?L = v1 * ?L" unfolding add_mult_distrib [symmetric] le_add_diff_inverse [OF b0(1)] ..
  have lld: "length ld = (v1 - ?v0) * ?L"
  proof -
    have "(v1 - ?v0) * ?L \<le> CHUNK_BLOCKS * BLOCK * ?L" using b0(2) c01(5) by (intro mult_le_mono1) (simp add: CHUNK_BLOCKS_def)
    then have "(v1 - ?v0) * ?L \<le> length buf" unfolding len by (simp add: mult.assoc)
    moreover have "v1 * ?L - ?v0 * ?L \<le> length seq - ?v0 * ?L" using v1L c1b by (intro diff_le_mono) linarith
    moreover have "v1 * ?L - ?v0 * ?L = (v1 - ?v0) * ?L" by (rule diff_mult_distrib [symmetric])
    ultimately show ?thesis unfolding ld_def length_take length_drop if_distrib [of length] min_def by (cases direct) (simp_all only: if_True if_False split: if_split, linarith+)
  qed
  let ?f = "owned_part t nsg n c0 seq sign ld"
  define sb' lo' where "sb' = concat (map (\<lambda>i. fst (?f i)) [0..<?nb])" and "lo' = concat (map (\<lambda>i. snd (?f i)) [0..<?nb])"
  have e: "owned_chunk t (4 * nsg) n nk st c0
      = (overwrite (c0 * ?sb) sb' sign, overwrite (?v0 * ?L) lo' seq, if direct then buf else overwrite 0 lo' buf)"
    unfolding t sb'_def lo'_def ld_def direct_def v1_def c1_def by (rule owned_chunk_parts)
  note S = owned_sign_blocks [where n = n and ld = ld, OF x c01(4) len(1,2) un, folded sb'_def]
  note R = owned_low_rows [where sign = sign and t = t, OF nk c01(4) v1b len(1) lld un, folded lo'_def]
  have fs: "c0 * ?sb + length sb' \<le> length sign"
    using mult_le_mono1 [OF c01(4), of ?sb] by (simp only: S(1) len add_mult_distrib)
  have fl: "?v0 * ?L + length lo' \<le> length seq" unfolding R(1) lld v01 using v1L c1b by (rule le_trans)
  have N1: "length (if direct then buf else overwrite 0 lo' buf) = length buf"
    using lld by (auto simp: R(1) ld_def intro!: length_overwrite split: if_splits)
  have N2: "overwrite (?v0 * ?L) lo' seq ! i = seq0 ! i" if "c1 * ?bb \<le> i" "i < length seq" for i
  proof -
    have "c0 * ?bb \<le> i" using that(1) mult_le_mono1 [of c0 c1 ?bb] c01(1) by linarith
    moreover have "\<not> i < ?v0 * ?L + length lo'" unfolding R(1) lld v01 using v1L that(1) by linarith
    ultimately show ?thesis using un that(2) by (simp only: nth_overwrite [OF fl] if_False simp_thms)
  qed
  have N3: "overwrite (c0 * ?sb) sb' sign ! (b * ?sb + planes_slot t g lane)
      = (if b * BLOCK + lane < n then plane4 (seq_code seq0 (4 * nsg) (b * BLOCK + lane) g) 3 else 0)"
    if "b < c1" "g < nsg" "lane < BLOCK" for b g lane
  proof (cases "b < c0")
    case True
    then have "b * ?sb + planes_slot t g lane < c0 * ?sb" by (simp only: digit_below [OF planes_slot_layout(1) [OF x that(2,3)]])
    then show ?thesis using sg [OF True that(2,3)] by (simp only: nth_overwrite [OF fs] not_le [symmetric] if_False simp_thms)
  next
    case False
    define i where "i = b - c0"
    have i: "b = c0 + i" "i < ?nb" using False that(1) by (simp_all add: i_def)
    have "i * ?sb + planes_slot t g lane < ?nb * ?sb"
      using i(2) by (simp only: digit_below [OF planes_slot_layout(1) [OF x that(2,3)]])
    then have "overwrite (c0 * ?sb) sb' sign ! (c0 * ?sb + (i * ?sb + planes_slot t g lane)) = sb' ! (i * ?sb + planes_slot t g lane)"
      unfolding nth_overwrite [OF fs] S(1) by simp
    then show ?thesis using S(2) [OF i(2) that(2,3)] by (simp only: i(1) add_mult_distrib add.assoc)
  qed
  have N4: "overwrite (?v0 * ?L) lo' seq ! (v * ?L + p * nsg + g) = plane4 (seq_code seq0 (4 * nsg) v g) p"
    if "v < min (c1 * BLOCK) n" "g < nsg" "p < 3" for v g p
  proof (cases "v < ?v0")
    case True
    then have "v * ?L + p * nsg + g < ?v0 * ?L" by (rule owned_low_below [OF that(2,3)])
    moreover have "v < min ?v0 n" using True that(1) by simp
    ultimately show ?thesis using lw that(2,3) by (simp only: nth_overwrite [OF fl] not_le [symmetric] if_False simp_thms)
  next
    case False
    then obtain r where r: "v = ?v0 + r" by (auto simp: le_iff_add not_less)
    have v: "?v0 \<le> v" "v < v1" using False that(1) by (simp_all add: v1_def)
    have "v * ?L + p * nsg + g < v1 * ?L" by (rule owned_low_below [OF that(2,3) v(2)])
    then have "v * ?L + p * nsg + g < ?v0 * ?L + length lo'" unfolding R(1) lld v01 .
    moreover have "v * ?L + p * nsg + g = ?v0 * ?L + ((v - ?v0) * ?L + p * nsg + g)" unfolding r by (simp add: add_mult_distrib)
    ultimately show ?thesis using R(2) [OF v that(2,3)] unfolding nth_overwrite [OF fl]
      by (simp only: le_add1 simp_thms if_True add_diff_cancel_left')
  qed
  show ?thesis
    unfolding e owned_upto.simps length_overwrite [OF fs] length_overwrite [OF fl]
    by (intro conjI allI impI) (rule len trans [OF N1 len(3)] N2 N3 N4 | assumption)+
qed

section \<open>The conversion, row by row\<close>

lemma owned_upto_mono_run:
  assumes x: "t_x86 t \<longrightarrow> nsg mod 4 = 0" and nk: "nk = (n + BLOCK - 1) div BLOCK"
    and st: "owned_upto t nsg n nk seq0 0 st" and m: "m \<le> (nk + CHUNK_BLOCKS - 1) div CHUNK_BLOCKS"
  shows "owned_upto t nsg n nk seq0 (min (m * CHUNK_BLOCKS) nk)
    (foldl (owned_chunk t (4 * nsg) n nk) st (map (\<lambda>k. k * CHUNK_BLOCKS) [0..<m]))"
  using m
proof (induction m)
  case 0
  show ?case using st by simp
next
  case (Suc m)
  have "Suc m * CHUNK_BLOCKS \<le> nk + CHUNK_BLOCKS - 1"
    using Suc.prems by (simp add: less_eq_div_iff_mult_less_eq CHUNK_BLOCKS_def)
  then have c: "m * CHUNK_BLOCKS < nk" by (simp add: CHUNK_BLOCKS_def)
  have "Suc m * CHUNK_BLOCKS = m * CHUNK_BLOCKS + CHUNK_BLOCKS" by simp
  then show ?case
    using owned_chunk_step [OF x nk c, of seq0] Suc c by (simp add: min_absorb1 add.commute)
qed

text \<open>The byte of plane \<open>p\<close> in group \<open>g\<close>, from the two rows of a vector, and the code byte the four
  planes give.\<close>

lemma join4_bit:
  assumes gj: "g < nsg" "j < 4" and m: "m < 8"
  shows "bit (join_rows 4 nsg s l ! (4 * g + j)) m
    \<longleftrightarrow> bit ((l @ s) ! (m mod 4 * nsg + g)) (if m < 4 then 6 - 2 * j else 7 - 2 * j)"
proof -
  have b: "(4 :: nat) \<in> {2, 3, 4}" by simp
  have d: "nsg * 8 div 8 = nsg" by simp
  have "extract_row (l @ s) 0 4 (nsg * 8) ! (g * 4 + j) = extract_chunk (l @ s) 0 nsg 4 ([0..<nsg] ! g) ! j"
    unfolding extract_row_def d by (rule nth_concat_const) (use gj length_extract_chunk [OF b] in simp_all)
  then have e: "join_rows 4 nsg s l ! (4 * g + j) = extract_chunk (l @ s) 0 nsg 4 g ! j"
    using gj by (simp add: join_rows_def extract_one [unfolded One_nat_def] mult.commute)
  define q r where "q = m mod 4" and "r = (if m < 4 then (1 :: nat) else 0)"
  have qr: "q < 4" "r < 2" "(1 - r) * 4 + q = m" using m unfolding lt8 q_def r_def by (elim insertE emptyE; simp)+
  have "7 - (j * 2 + r) = (if m < 4 then 6 - 2 * j else 7 - 2 * j)" by (simp add: r_def mult.commute)
  then show ?thesis
    using bit_extract_chunk [OF b, of j r q "l @ s" 0 nsg g] gj(2) qr unfolding e by (simp add: code_field_def q_def [symmetric])
qed

lemma sequential_planes4:
  assumes s: "\<And>g. g < nsg \<Longrightarrow> s ! g = plane4 (c g) 3" and l: "\<And>g p. g < nsg \<Longrightarrow> p < 3 \<Longrightarrow> l ! (p * nsg + g) = plane4 (c g) p"
    and len: "length l = 3 * nsg" and gj: "g < nsg" "j < 4"
  shows "join_rows 4 nsg s l ! (4 * g + j) = c g j"
proof (rule nibble_eqI)
  have byte: "(l @ s) ! (p * nsg + g) = plane4 (c g) p" if "p < 4" for p
  proof (cases "p < 3")
    case True
    then have "p * nsg + g < length l" using block_low_bound [OF gj(1) _ True, of 0 1] len by simp
    then show ?thesis using l [OF gj(1) True] by (simp add: nth_append)
  next
    case False
    then have "p = 3" using that by simp
    then show ?thesis using s [OF gj(1)] len by (simp add: nth_append)
  qed
  fix m :: nat
  assume m: "m < 8"
  let ?d = "if m < 4 then 6 - 2 * j else 7 - 2 * j"
  have "bit (join_rows 4 nsg s l ! (4 * g + j)) m \<longleftrightarrow> bit (plane4 (c g) (m mod 4)) ?d"
    unfolding join4_bit [OF gj m] by (simp add: byte)
  also have "\<dots> \<longleftrightarrow> bit (c g (3 - ?d div 2)) (if odd ?d then 4 + m mod 4 else m mod 4)"
    by (rule plane4_bit) (simp_all split: if_split, linarith)
  also have "3 - ?d div 2 = j"
  proof -
    have "j \<in> {0, 1, 2, 3}" using gj(2) by auto
    then show ?thesis by (elim insertE emptyE) simp_all
  qed
  also have "(if odd ?d then 4 + m mod 4 else m mod 4) = m"
  proof -
    have "j \<in> {0, 1, 2, 3}" using gj(2) by auto
    then show ?thesis using m unfolding lt8 by (elim insertE emptyE) simp_all
  qed
  finally show "bit (join_rows 4 nsg s l ! (4 * g + j)) m \<longleftrightarrow> bit (c g j) m" .
qed

text \<open>The code bytes of vector \<open>v\<close> in the sequential blocks.\<close>

definition stored_row :: "bytes \<Rightarrow> nat \<Rightarrow> nat \<Rightarrow> bytes" where
  "stored_row seq nbg v = map (\<lambda>g. seq ! ((v div BLOCK * nbg + g) * BLOCK + v mod BLOCK)) [0..<nbg]"

lemma length_stored_row [simp]: "length (stored_row seq nbg v) = nbg"
  by (simp add: stored_row_def)

lemma stored_row_nth: "k < nbg \<Longrightarrow> stored_row seq nbg v ! k = seq ! ((v div BLOCK * nbg + k) * BLOCK + v mod BLOCK)"
  by (simp add: stored_row_def)

lemma length_join_rows4: "length (join_rows 4 nsg s l) = 4 * nsg"
proof -
  have "length (extract_row (l @ s) 0 4 (nsg * 8)) = nsg * 8 div codes_per_byte 4" by (rule length_extract_row) simp_all
  then show ?thesis by (simp add: join_rows_def extract_one [unfolded One_nat_def])
qed

lemma owned_regions:
  assumes p: "planes_for t 4 nbg" and len: "length seq = (n + BLOCK - 1) div BLOCK * (nbg * BLOCK)"
    and r: "planes_from_seq_owned t seq 4 nbg n = (sign, low)"
  shows "\<exists>seq' buf. owned_upto t (nbg div 4) n ((n + BLOCK - 1) div BLOCK) seq ((n + BLOCK - 1) div BLOCK) (sign, seq', buf)
    \<and> low = take (n * (3 * (nbg div 4))) seq'"
proof -
  let ?nsg = "nbg div 4" and ?nk = "(n + BLOCK - 1) div BLOCK"
  have nbg: "nbg = 4 * ?nsg" and m: "?nsg mod 4 = 0" using planes_for_cases(2,3) [OF p] by simp_all
  let ?st = "(replicate (?nk * ?nsg * BLOCK) 0, seq, replicate (CHUNK_BLOCKS * (BLOCK * (3 * ?nsg))) 0)"
  let ?m = "(?nk + CHUNK_BLOCKS - 1) div CHUNK_BLOCKS"
  have "owned_upto t ?nsg n ?nk seq 0 ?st" unfolding owned_upto.simps using len nbg by simp
  then have u: "owned_upto t ?nsg n ?nk seq (min (?m * CHUNK_BLOCKS) ?nk)
      (foldl (owned_chunk t (4 * ?nsg) n ?nk) ?st (chunk_starts ?nk))"
    unfolding chunk_starts_def using m by (intro owned_upto_mono_run refl le_refl) simp_all
  have c: "min (?m * CHUNK_BLOCKS) ?nk = ?nk"
  proof -
    have "?nk + CHUNK_BLOCKS - 1 = ?m * CHUNK_BLOCKS + (?nk + CHUNK_BLOCKS - 1) mod CHUNK_BLOCKS" by (rule div_mult_mod_eq [symmetric])
    moreover have "(?nk + CHUNK_BLOCKS - 1) mod CHUNK_BLOCKS < CHUNK_BLOCKS" by (simp add: CHUNK_BLOCKS_def)
    ultimately show ?thesis unfolding CHUNK_BLOCKS_def by linarith
  qed
  obtain sg seq' buf where f: "foldl (owned_chunk t (4 * ?nsg) n ?nk) ?st (chunk_starts ?nk) = (sg, seq', buf)"
    by (metis prod_cases3)
  have "sign = sg \<and> low = take (n * (3 * ?nsg)) seq'"
    using r f nbg by (simp add: planes_from_seq_owned_def planes_geom_def Let_def)
  then show ?thesis using u unfolding c f by blast
qed

theorem owned_rows:
  assumes p: "planes_for t 4 nbg" and len: "length seq = (n + BLOCK - 1) div BLOCK * (nbg * BLOCK)"
    and r: "planes_from_seq_owned t seq 4 nbg n = (sign, low)"
  shows "length sign = (n + BLOCK - 1) div BLOCK * (nbg div 4 * BLOCK)" "length low = n * (3 * (nbg div 4))"
    and "v < n \<Longrightarrow> planes_row t 4 (nbg div 4) sign low v = stored_row seq nbg v"
    and "v div BLOCK < (n + BLOCK - 1) div BLOCK \<Longrightarrow> n \<le> v \<Longrightarrow> sign_row t (nbg div 4) sign v = replicate (nbg div 4) 0"
proof -
  let ?nsg = "nbg div 4" and ?nk = "(n + BLOCK - 1) div BLOCK"
  have nbg: "4 * ?nsg = nbg" using planes_for_cases(3) [OF p] by simp
  obtain seq' buf where u: "owned_upto t ?nsg n ?nk seq ?nk (sign, seq', buf)" and low: "low = take (n * (3 * ?nsg)) seq'"
    using owned_regions [OF p len r] by blast
  have l: "length seq' = ?nk * (4 * ?nsg * BLOCK)"
    and sg: "b < ?nk \<Longrightarrow> g < ?nsg \<Longrightarrow> lane < BLOCK \<Longrightarrow> sign ! (b * (?nsg * BLOCK) + planes_slot t g lane)
      = (if b * BLOCK + lane < n then plane4 (seq_code seq nbg (b * BLOCK + lane) g) 3 else 0)"
    and lw: "v < min (?nk * BLOCK) n \<Longrightarrow> g < ?nsg \<Longrightarrow> p < 3 \<Longrightarrow>
      seq' ! (v * (3 * ?nsg) + p * ?nsg + g) = plane4 (seq_code seq nbg v g) p" for b g lane v p
    using u unfolding owned_upto.simps nbg by blast+
  show "length sign = ?nk * (?nsg * BLOCK)" using u unfolding owned_upto.simps by blast
  have n32: "n \<le> ?nk * BLOCK"
    using div_mult_mod_eq [of "n + BLOCK - 1" BLOCK] mod_less_divisor [of BLOCK "n + BLOCK - 1"] by linarith
  have "n * (3 * ?nsg) \<le> ?nk * BLOCK * (4 * ?nsg)" using n32 by (intro mult_le_mono) simp_all
  then have fit: "n * (3 * ?nsg) \<le> length seq'" unfolding l by (simp only: ac_simps)
  then show ll: "length low = n * (3 * ?nsg)" by (simp add: low)
  have srow: "sign_row t ?nsg sign v ! g = (if v < n then plane4 (seq_code seq nbg v g) 3 else 0)"
    if "v div BLOCK < ?nk" "g < ?nsg" for v g
  proof -
    have "sign_row t ?nsg sign v ! g = sign ! (v div BLOCK * ?nsg * BLOCK + planes_slot t g (v mod BLOCK))"
      using planes_slot_read [OF p that(2), of sign v] that(2) by (simp add: sign_row_def read_row_def)
    also have "\<dots> = sign ! (v div BLOCK * (?nsg * BLOCK) + planes_slot t g (v mod BLOCK))" by (simp only: mult.assoc)
    also have "\<dots> = (if v div BLOCK * BLOCK + v mod BLOCK < n then plane4 (seq_code seq nbg (v div BLOCK * BLOCK + v mod BLOCK) g) 3 else 0)"
      by (rule sg [OF that]) simp
    finally show ?thesis by (simp only: div_mult_mod_eq)
  qed
  show "sign_row t ?nsg sign v = replicate ?nsg 0" if "v div BLOCK < ?nk" "n \<le> v"
    using srow [OF that(1)] that(2) by (intro nth_equalityI) simp_all
  show "planes_row t 4 ?nsg sign low v = stored_row seq nbg v" if v: "v < n"
  proof (rule nth_equalityI)
    have L: "Suc v * (3 * ?nsg) \<le> n * (3 * ?nsg)" using v by (intro mult_le_mono1) simp
    have b: "v div BLOCK < ?nk" using v by simp
    have lr: "low_of (3 * ?nsg) low v ! (p * ?nsg + g) = plane4 (seq_code seq nbg v g) p" if "g < ?nsg" "p < 3" for g p
    proof -
      have i: "p * ?nsg + g < 3 * ?nsg" using block_low_bound [OF that(1) _ that(2), of 0 1] by simp
      then have "v * (3 * ?nsg) + (p * ?nsg + g) < n * (3 * ?nsg)" using L by simp
      then show ?thesis using lw [OF _ that, of v] v n32 i ll by (simp add: low_of_def low add.assoc)
    qed
    have lenl: "length (low_of (3 * ?nsg) low v) = 3 * ?nsg" using L ll by (simp add: low_of_def)
    show "length (planes_row t 4 ?nsg sign low v) = length (stored_row seq nbg v)"
      using nbg by (simp add: planes_row_def length_join_rows4)
    fix i
    assume "i < length (planes_row t 4 ?nsg sign low v)"
    then have i: "i < 4 * ?nsg" by (simp add: planes_row_def length_join_rows4)
    define g j where "g = i div 4" and "j = i mod 4"
    have gj: "g < ?nsg" "j < 4" "i = 4 * g + j" using i by (auto simp: g_def j_def)
    have "join_rows 4 ?nsg (sign_row t ?nsg sign v) (low_of (3 * ?nsg) low v) ! (4 * g + j) = seq_code seq nbg v g j"
      by (rule sequential_planes4 [OF _ lr lenl gj(1,2)]) (use srow [OF b] v in simp_all)
    then show "planes_row t 4 ?nsg sign low v ! i = stored_row seq nbg v ! i"
      using i nbg by (simp add: planes_row_def stored_row_def seq_code_def gj(3))
  qed
qed

section \<open>The 2-bit conversion\<close>

lemma length_foldl_pair_updates: "length (foldl (\<lambda>sg (a, b). sg[f a b := v a b]) s cs) = length s"
  by (induction cs arbitrary: s) auto

lemma length_planes2_sign_block: "length (planes2_sign_block t seq nbg n b) = nbg div 2 * BLOCK"
  by (simp add: planes2_sign_block_def Let_def length_foldl_pair_updates)

lemma planes2_sign_block_nth:
  assumes x: "t_x86 t \<longrightarrow> (nbg div 2) mod 4 = 0" and g: "g < nbg div 2" "lane < BLOCK"
  shows "planes2_sign_block t seq nbg n b ! planes_slot t g lane =
    (if b * BLOCK + lane < n
     then fst (split2 (take (nbg * BLOCK) (drop (b * nbg * BLOCK) seq) ! (2 * g * BLOCK + lane))
                (take (nbg * BLOCK) (drop (b * nbg * BLOCK) seq) ! ((2 * g + 1) * BLOCK + lane))) else 0)"
proof -
  let ?nsg = "nbg div 2" and ?src = "take (nbg * BLOCK) (drop (b * nbg * BLOCK) seq)"
  let ?cs = "List.product [0..<min BLOCK (n - b * BLOCK)] [0..<?nsg]"
  let ?f = "\<lambda>(lane, g). planes_slot t g lane"
  let ?v = "\<lambda>(lane, g). fst (split2 (?src ! (2 * g * BLOCK + lane)) (?src ! ((2 * g + 1) * BLOCK + lane)))"
  have e: "planes2_sign_block t seq nbg n b = foldl (\<lambda>sg c. sg[?f c := ?v c]) (replicate (?nsg * BLOCK) 0) ?cs"
    unfolding planes2_sign_block_def Let_def by (intro foldl_cong) auto
  have inj: "inj_on ?f (set ?cs)"
    by (rule inj_onI) (use planes_slot_layout(2) [OF x] in auto)
  have bound: "planes_slot t g lane < ?nsg * BLOCK" by (rule planes_slot_layout(1) [OF x g])
  show "planes2_sign_block t seq nbg n b ! planes_slot t g lane = (if b * BLOCK + lane < n
     then fst (split2 (?src ! (2 * g * BLOCK + lane)) (?src ! ((2 * g + 1) * BLOCK + lane))) else 0)"
  proof (cases "b * BLOCK + lane < n")
    case True
    then have "(lane, g) \<in> set ?cs" using g by (auto simp: less_diff_conv add.commute)
    then show ?thesis using foldl_scatter [OF inj, of "(lane, g)" "replicate (?nsg * BLOCK) 0" ?v] bound True
      unfolding e by simp
  next
    case False
    then have "planes_slot t g lane \<notin> ?f ` set ?cs" using planes_slot_layout(2) [OF x g] by auto
    then show ?thesis using False bound unfolding e by (simp add: foldl_updates_other)
  qed
qed

lemma planes2_rows:
  assumes p: "planes_for t 2 nbg" and len: "length seq = (n + BLOCK - 1) div BLOCK * (nbg * BLOCK)"
    and r: "planes_from_seq t seq 2 nbg n = (sign, low)"
  shows "length sign = (n + BLOCK - 1) div BLOCK * (nbg div 2 * BLOCK)" "length low = n * (nbg div 2)"
    and "v < n \<Longrightarrow> planes_row t 2 (nbg div 2) sign low v = stored_row seq nbg v"
    and "v div BLOCK < (n + BLOCK - 1) div BLOCK \<Longrightarrow> n \<le> v \<Longrightarrow> sign_row t (nbg div 2) sign v = replicate (nbg div 2) 0"
proof -
  let ?nsg = "nbg div 2" and ?nk = "(n + BLOCK - 1) div BLOCK" and ?row = "stored_row seq nbg"
  have nbg: "nbg = 2 * ?nsg" and x: "t_x86 t \<longrightarrow> ?nsg mod 4 = 0" using planes_for_cases(2,3) [OF p] by simp_all
  have sign: "sign = concat (map (planes2_sign_block t seq nbg n) [0..<?nk])"
    and low: "low = concat (map (\<lambda>v. map (\<lambda>g. snd (split2 (seq ! ((v div BLOCK * nbg + 2 * g) * BLOCK + v mod BLOCK))
        (seq ! ((v div BLOCK * nbg + (2 * g + 1)) * BLOCK + v mod BLOCK)))) [0..<?nsg]) [0..<n])"
    using r unfolding planes_from_seq_def Let_def by auto
  note lb = length_planes2_sign_block
  show "length sign = ?nk * (?nsg * BLOCK)" "length low = n * ?nsg" by (simp_all add: sign low length_concat_const lb)
  have srow: "sign_row t ?nsg sign v ! g = (if v < n then fst (split2 (?row v ! (2 * g)) (?row v ! (2 * g + 1))) else 0)"
    if b: "v div BLOCK < ?nk" and g: "g < ?nsg" for v g
  proof -
    let ?b = "v div BLOCK" and ?l = "v mod BLOCK"
    have "sign_row t ?nsg sign v ! g = sign ! (?b * ?nsg * BLOCK + planes_slot t g ?l)"
      using planes_slot_read [OF p g, of sign v] g by (simp add: sign_row_def read_row_def)
    also have "\<dots> = planes2_sign_block t seq nbg n ([0..<?nk] ! ?b) ! planes_slot t g ?l"
      unfolding sign mult.assoc by (rule nth_concat_const) (use lb b planes_slot_layout(1) [OF x g] in simp_all)
    also have "\<dots> = planes2_sign_block t seq nbg n ?b ! planes_slot t g ?l" using b by simp
    finally have e: "sign_row t ?nsg sign v ! g = planes2_sign_block t seq nbg n ?b ! planes_slot t g ?l" .
    have s: "take (nbg * BLOCK) (drop (?b * nbg * BLOCK) seq) ! (k * BLOCK + ?l) = ?row v ! k" if "k < nbg" for k
    proof -
      have "Suc k * BLOCK \<le> nbg * BLOCK" using that by (intro mult_le_mono1) simp
      then have i: "k * BLOCK + ?l < nbg * BLOCK" using mod_less_divisor [of BLOCK v] by simp
      have "Suc ?b * (nbg * BLOCK) \<le> length seq" unfolding len using b by (intro mult_le_mono1) simp
      then show ?thesis using i that by (simp add: stored_row_def add_mult_distrib mult.assoc add.assoc)
    qed
    have "2 * g < nbg" "2 * g + 1 < nbg" "?l < BLOCK" using g by auto
    then show ?thesis
      unfolding e planes2_sign_block_nth [OF x g \<open>?l < BLOCK\<close>] div_mult_mod_eq by (simp only: s)
  qed
  show "sign_row t ?nsg sign v = replicate ?nsg 0" if "v div BLOCK < ?nk" "n \<le> v"
    using srow [OF that(1)] that(2) by (intro nth_equalityI) simp_all
  show "planes_row t 2 ?nsg sign low v = ?row v" if v: "v < n"
  proof -
    have b: "v div BLOCK < ?nk" using v by simp
    have sr: "sign_row t ?nsg sign v = map (\<lambda>g. fst (split2 (?row v ! (2 * g)) (?row v ! (2 * g + 1)))) [0..<?nsg]"
      using srow [OF b] v by (intro nth_equalityI) simp_all
    have "low_of ?nsg low v = map (\<lambda>g. snd (split2 (seq ! ((v div BLOCK * nbg + 2 * g) * BLOCK + v mod BLOCK))
        (seq ! ((v div BLOCK * nbg + (2 * g + 1)) * BLOCK + v mod BLOCK)))) [0..<?nsg]"
      unfolding low_of_def low by (rule concat_slice) (use v in simp_all)
    also have "\<dots> = map (\<lambda>g. snd (split2 (?row v ! (2 * g)) (?row v ! (2 * g + 1)))) [0..<?nsg]"
    proof (rule map_cong [OF refl])
      fix g
      assume "g \<in> set [0..<?nsg]"
      then have "2 * g < nbg" "2 * g + 1 < nbg" by auto
      then show "snd (split2 (seq ! ((v div BLOCK * nbg + 2 * g) * BLOCK + v mod BLOCK))
          (seq ! ((v div BLOCK * nbg + (2 * g + 1)) * BLOCK + v mod BLOCK)))
        = snd (split2 (?row v ! (2 * g)) (?row v ! (2 * g + 1)))" by (simp only: stored_row_nth)
    qed
    finally have lr: "low_of ((2 - 1) * ?nsg) low v = \<dots>" by simp
    show ?thesis unfolding planes_row_def sr lr by (rule join_split) (use nbg in simp_all)
  qed
qed

section \<open>Back to the sequential blocks\<close>

lemma blocks_nth:
  assumes len: "\<And>b g. b < nk \<Longrightarrow> g < nbg \<Longrightarrow> length (f b g) = BLOCK" and i: "b < nk" "g < nbg" "l < BLOCK"
  shows "concat (map (\<lambda>b. concat (map (f b) [0..<nbg])) [0..<nk]) ! ((b * nbg + g) * BLOCK + l) = f b g ! l"
    and "length (concat (map (\<lambda>b. concat (map (f b) [0..<nbg])) [0..<nk])) = nk * (nbg * BLOCK)"
proof -
  have lb: "length (concat (map (f b) [0..<nbg])) = nbg * BLOCK" if "b < nk" for b
    using length_concat_const [of "[0..<nbg]" "f b" BLOCK] len [OF that] by simp
  show "length (concat (map (\<lambda>b. concat (map (f b) [0..<nbg])) [0..<nk])) = nk * (nbg * BLOCK)"
    using length_concat_const [of "[0..<nk]" "\<lambda>b. concat (map (f b) [0..<nbg])" "nbg * BLOCK"] lb by simp
  have "Suc g * BLOCK \<le> nbg * BLOCK" using i(2) by (intro mult_le_mono1) simp
  then have gl: "g * BLOCK + l < nbg * BLOCK" using i(3) by simp
  have "concat (map (\<lambda>b. concat (map (f b) [0..<nbg])) [0..<nk]) ! (b * (nbg * BLOCK) + (g * BLOCK + l))
      = concat (map (f ([0..<nk] ! b)) [0..<nbg]) ! (g * BLOCK + l)"
    by (rule nth_concat_const) (use lb i(1) gl in simp_all)
  also have "\<dots> = concat (map (f b) [0..<nbg]) ! (g * BLOCK + l)" using i(1) by simp
  also have "\<dots> = f b ([0..<nbg] ! g) ! l"
    by (rule nth_concat_const) (use len [OF i(1)] i in simp_all)
  finally show "concat (map (\<lambda>b. concat (map (f b) [0..<nbg])) [0..<nk]) ! ((b * nbg + g) * BLOCK + l) = f b g ! l"
    using i(2) by (simp only: add_mult_distrib mult.assoc add.assoc) simp
qed

lemma planes4_code_byte:
  assumes "i < n8" "n8 \<le> 8" "j < 4" "m < 8"
  shows "bit (u64_to_le (planes4_code_word plane n8 j) ! i) m
    \<longleftrightarrow> bit (plane (m mod 4) i) (if m < 4 then 6 - 2 * j else 7 - 2 * j)"
proof -
  let ?pl = "\<lambda>p. foldl (\<lambda>a i. a OR push_bit (8 * i) (ucast (plane p i))) (0 :: u64) [0..<n8]"
  have i8: "i < 8" using assms by simp
  have pl: "bit (?pl p) (8 * i + d) \<longleftrightarrow> bit (plane p i) d" if d: "d < 8" for p d
  proof -
    have "bit (?pl p) (8 * i + d) \<longleftrightarrow> (\<exists>i' \<in> set [0..<n8]. bit (push_bit (8 * i') (ucast (plane p i') :: u64)) (8 * i + d))"
      unfolding bit_fold_or by simp
    also have "\<dots> \<longleftrightarrow> bit (plane p i) d"
    proof
      assume "\<exists>i' \<in> set [0..<n8]. bit (push_bit (8 * i') (ucast (plane p i') :: u64)) (8 * i + d)"
      then obtain i' where i': "8 * i' \<le> 8 * i + d" "bit (plane p i') (8 * i + d - 8 * i')"
        by (auto simp: bit_push_bit_iff bit_ucast_iff)
      then have "8 * i + d - 8 * i' < 8" using bit_imp_le_length [OF i'(2)] by simp
      then have "i' = i" using i'(1) d by linarith
      then show "bit (plane p i) d" using i'(2) by simp
    next
      assume "bit (plane p i) d"
      then show "\<exists>i' \<in> set [0..<n8]. bit (push_bit (8 * i') (ucast (plane p i') :: u64)) (8 * i + d)"
        using assms(1) i8 d by (intro bexI [of _ i]) (auto simp: bit_push_bit_iff bit_ucast_iff)
    qed
    finally show ?thesis .
  qed
  let ?G = "\<lambda>w p. let pl = ?pl p in w OR (push_bit (4 + p) (drop_bit (7 - 2 * j) pl AND ONES)
      OR push_bit p (drop_bit (6 - 2 * j) pl AND ONES))"
  define Q where "Q p \<longleftrightarrow> p < 4 \<and> (m = 4 + p \<and> bit (plane p i) (7 - 2 * j) \<or> m = p \<and> bit (plane p i) (6 - 2 * j))" for p
  have "foldl ?G 0 [0..<4] = foldl (\<lambda>w p. if p < 4 then ?G w p else w) 0 [0..<4]" by (intro foldl_cong) auto
  moreover have "bit (if p < 4 then ?G w p else w) (8 * i + m) \<longleftrightarrow> bit w (8 * i + m) \<or> Q p" for w p
  proof (cases "p < 4")
    case True
    then have k: "4 + p < 8" "p < 8" and d: "7 - 2 * j < 8" "6 - 2 * j < 8" by simp_all
    show ?thesis
      unfolding Let_def bit_or_iff Q_def if_P [OF True] bit_lanes [OF i8 assms(4) k(1) d(1)] bit_lanes [OF i8 assms(4) k(2) d(2)]
        pl [OF d(1)] pl [OF d(2)] using True by blast
  qed (simp add: Q_def)
  ultimately have "bit (planes4_code_word plane n8 j) (8 * i + m) \<longleftrightarrow> (\<exists>p \<in> set [0..<4]. Q p)"
    unfolding planes4_code_word_def by (simp only: bit_fold_step [of "\<lambda>w p. if p < 4 then ?G w p else w" "8 * i + m" Q]) simp
  also have "\<dots> \<longleftrightarrow> bit (plane (m mod 4) i) (if m < 4 then 6 - 2 * j else 7 - 2 * j)"
  proof (cases "m < 4")
    case True
    then show ?thesis by (auto simp: Q_def)
  next
    case False
    then have "m = 4 + m mod 4" using assms(4) unfolding lt8 by (elim insertE emptyE) simp_all
    then show ?thesis using False by (auto simp: Q_def)
  qed
  finally show ?thesis using bit_u64_to_le [OF i8] assms(4) by simp
qed

text \<open>The two rows of a vector and the planes they hold.\<close>

lemma rows_byte:
  assumes p: "planes_for t 4 nbg" and low: "length low = n * (3 * (nbg div 4))"
    and sign: "length sign = (n + BLOCK - 1) div BLOCK * (nbg div 4 * BLOCK)" and v: "v < n" and g: "g < nbg div 4" and q: "q < 4"
  shows "(low_of (3 * (nbg div 4)) low v @ sign_row t (nbg div 4) sign v) ! (q * (nbg div 4) + g)
    = (if q = 3 then take (nbg div 4 * BLOCK) (drop (v div BLOCK * (nbg div 4) * BLOCK) sign) ! planes_slot t g (v mod BLOCK)
       else take (3 * (nbg div 4)) (drop (v * (3 * (nbg div 4))) low) ! (q * (nbg div 4) + g))"
proof -
  let ?nsg = "nbg div 4"
  have x: "t_x86 t \<longrightarrow> ?nsg mod 4 = 0" using planes_for_cases(2) [OF p] by simp
  have "Suc v * (3 * ?nsg) \<le> n * (3 * ?nsg)" using v by (intro mult_le_mono1) simp
  then have ll: "length (low_of (3 * ?nsg) low v) = 3 * ?nsg" by (simp add: low_of_def low)
  show ?thesis
  proof (cases "q = 3")
    case True
    have "sign_row t ?nsg sign v ! g = sign ! (v div BLOCK * ?nsg * BLOCK + planes_slot t g (v mod BLOCK))"
      using planes_slot_read [OF p g, of sign v] g by (simp add: sign_row_def read_row_def)
    moreover have "v div BLOCK * (?nsg * BLOCK) \<le> length sign" unfolding sign by (intro mult_le_mono1 div_le_mono) (use v in simp)
    then have "take (?nsg * BLOCK) (drop (v div BLOCK * ?nsg * BLOCK) sign) ! planes_slot t g (v mod BLOCK)
        = sign ! (v div BLOCK * ?nsg * BLOCK + planes_slot t g (v mod BLOCK))"
      using planes_slot_layout(1) [OF x g, of "v mod BLOCK"] by (simp add: mult.assoc)
    ultimately show ?thesis using True ll by (simp add: nth_append)
  next
    case False
    then have "q < 3" using q by simp
    then have "q * ?nsg + g < 3 * ?nsg" using block_low_bound [OF g _ , of 0 1 q 3] by simp
    then show ?thesis using False ll by (simp add: nth_append low_of_def)
  qed
qed

lemma planes4_seq_rows:
  assumes p: "planes_for t 4 nbg" and low: "length low = n * (3 * (nbg div 4))"
    and sign: "length sign = (n + BLOCK - 1) div BLOCK * (nbg div 4 * BLOCK)" and b: "v div BLOCK < (n + BLOCK - 1) div BLOCK"
  shows "stored_row (planes4_to_seq t sign low nbg n) nbg v
    = (if v < n then planes_row t 4 (nbg div 4) sign low v else replicate nbg 0)"
proof (rule nth_equalityI)
  let ?nsg = "nbg div 4" and ?nk = "(n + BLOCK - 1) div BLOCK"
  have nbg: "4 * ?nsg = nbg" using planes_for_cases(3) [OF p] by simp
  show "length (stored_row (planes4_to_seq t sign low nbg n) nbg v)
      = length (if v < n then planes_row t 4 ?nsg sign low v else replicate nbg 0)"
    using nbg by (simp add: planes_row_def length_join_rows4)
  fix gj
  assume "gj < length (stored_row (planes4_to_seq t sign low nbg n) nbg v)"
  then have gj: "gj < nbg" by simp
  define g j where "g = gj div 4" and "j = gj mod 4"
  have g: "g < ?nsg" "j < 4" "gj = 4 * g + j" using gj nbg by (auto simp: g_def j_def)
  define F where "F = (\<lambda>b gj. let in_block = min BLOCK (n - b * BLOCK);
               sblk = take (?nsg * BLOCK) (drop (b * ?nsg * BLOCK) sign); g = gj div 4; j = gj mod 4 in
                if ?nsg \<le> g then replicate BLOCK 0
                else map (\<lambda>lane. if in_block \<le> lane then 0
                   else let l0 = lane div 8 * 8; n8 = min 8 (in_block - l0);
                            plane = (\<lambda>p i. let v = b * BLOCK + (l0 + i) in
                                       if p = 3 then sblk ! planes_slot t g (l0 + i)
                                       else take (3 * ?nsg) (drop (v * (3 * ?nsg)) low) ! (p * ?nsg + g))
                        in u64_to_le (planes4_code_word plane n8 j) ! (lane - l0)) [0..<BLOCK])"
  have e: "planes4_to_seq t sign low nbg n = concat (map (\<lambda>b. concat (map (F b) [0..<nbg])) [0..<?nk])"
    by (simp add: planes4_to_seq_def planes_geom_def F_def Let_def)
  have lF: "length (F b gj) = BLOCK" for b gj by (simp add: F_def Let_def)
  let ?b = "v div BLOCK" and ?l = "v mod BLOCK"
  have "stored_row (planes4_to_seq t sign low nbg n) nbg v ! gj = F ?b gj ! ?l"
    unfolding stored_row_nth [OF gj] e by (rule blocks_nth(1)) (use lF b gj in simp_all)
  also have "\<dots> = (if v < n then planes_row t 4 ?nsg sign low v ! gj else 0)"
  proof (cases "v < n")
    case False
    then have "min BLOCK (n - ?b * BLOCK) \<le> ?l" using div_mult_mod_eq [of v BLOCK] by linarith
    then show ?thesis using False by (simp add: F_def Let_def)
  next
    case True
    define l0 i n8 where "l0 = ?l div 8 * 8" and "i = ?l - l0" and "n8 = min 8 (min BLOCK (n - ?b * BLOCK) - l0)"
    have "?l < BLOCK" "?l < n - ?b * BLOCK" using True div_mult_mod_eq [of v BLOCK] by (simp, linarith)
    then have l: "?l < min BLOCK (n - ?b * BLOCK)" by simp
    have "?l = l0 + ?l mod 8" by (simp add: l0_def)
    then have i0: "l0 + i = ?l" "i = ?l mod 8" by (simp_all add: i_def)
    then have "i < 8" "i < min BLOCK (n - ?b * BLOCK) - l0" using l by (simp, linarith)
    then have i: "l0 + i = ?l" "i < n8" "n8 \<le> 8" using i0(1) unfolding n8_def by (simp_all only: min_less_iff_conj min.cobounded1 simp_thms)
    define plane where "plane = (\<lambda>p i. let v = ?b * BLOCK + (l0 + i) in
        if p = 3 then take (?nsg * BLOCK) (drop (?b * ?nsg * BLOCK) sign) ! planes_slot t g (l0 + i)
        else take (3 * ?nsg) (drop (v * (3 * ?nsg)) low) ! (p * ?nsg + g))"
    have lt: "?l < length [0..<BLOCK]" "[0..<BLOCK] ! ?l = ?l" and ng: "\<not> ?nsg \<le> g" "\<not> min BLOCK (n - ?b * BLOCK) \<le> ?l"
      using l g by simp_all
    have "F ?b gj ! ?l = u64_to_le (planes4_code_word plane n8 j) ! i"
      unfolding F_def Let_def g_def [symmetric] j_def [symmetric] if_not_P [OF ng(1)] nth_map [OF lt(1)] lt(2) if_not_P [OF ng(2)]
        i_def n8_def l0_def plane_def ..
    also have "\<dots> = join_rows 4 ?nsg (sign_row t ?nsg sign v) (low_of (3 * ?nsg) low v) ! (4 * g + j)"
    proof (rule nibble_eqI)
      fix m :: nat
      assume m: "m < 8"
      have "?b * BLOCK + ?l = v" by (rule div_mult_mod_eq)
      moreover have q: "m mod 4 < 4" by simp
      ultimately have "plane (m mod 4) i = (low_of (3 * ?nsg) low v @ sign_row t ?nsg sign v) ! (m mod 4 * ?nsg + g)"
        unfolding rows_byte [OF p low sign True g(1) q] plane_def i(1) Let_def by simp
      then show "bit (u64_to_le (planes4_code_word plane n8 j) ! i) m
          \<longleftrightarrow> bit (join_rows 4 ?nsg (sign_row t ?nsg sign v) (low_of (3 * ?nsg) low v) ! (4 * g + j)) m"
        unfolding planes4_code_byte [OF i(2,3) g(2) m] join4_bit [OF g(1,2) m] by simp
    qed
    finally show ?thesis using True by (simp add: planes_row_def g(3))
  qed
  finally show "stored_row (planes4_to_seq t sign low nbg n) nbg v ! gj
      = (if v < n then planes_row t 4 ?nsg sign low v else replicate nbg 0) ! gj" using gj by simp
qed

lemma join_rows2_nth:
  assumes "gg < 2 * nsg"
  shows "join_rows 2 nsg s l ! gg = (let c = planes_to_code_bytes (s ! (gg div 2)) (l ! (gg div 2)) in if even gg then fst c else snd c)"
    and "length (join_rows 2 nsg s l) = 2 * nsg"
proof -
  let ?f = "\<lambda>g. [fst (planes_to_code_bytes (s ! g) (l ! g)), snd (planes_to_code_bytes (s ! g) (l ! g))]"
  show "length (join_rows 2 nsg s l) = 2 * nsg" by (simp add: join_rows_def length_concat_const mult.commute)
  have g: "gg div 2 < nsg" using assms by auto
  have "concat (map ?f [0..<nsg]) ! (gg div 2 * 2 + gg mod 2) = ?f ([0..<nsg] ! (gg div 2)) ! (gg mod 2)"
    by (rule nth_concat_const) (use g in simp_all)
  then show "join_rows 2 nsg s l ! gg = (let c = planes_to_code_bytes (s ! (gg div 2)) (l ! (gg div 2)) in if even gg then fst c else snd c)"
    using g unfolding div_mult_mod_eq by (cases "even gg") (simp_all add: join_rows_def Let_def even_iff_mod_2_eq_zero odd_iff_mod_2_eq_one)
qed

lemma planes2_seq_rows:
  assumes p: "planes_for t 2 nbg" and low: "length low = n * (nbg div 2)" and b: "v div BLOCK < (n + BLOCK - 1) div BLOCK"
  shows "stored_row (planes_to_seq t sign low 2 nbg n) nbg v
    = (if v < n then planes_row t 2 (nbg div 2) sign low v else replicate nbg 0)"
proof (rule nth_equalityI)
  let ?nsg = "nbg div 2" and ?nk = "(n + BLOCK - 1) div BLOCK" and ?b = "v div BLOCK" and ?l = "v mod BLOCK"
  have nbg: "2 * ?nsg = nbg" using planes_for_cases(3) [OF p] by simp
  have lj: "length (planes_row t 2 ?nsg sign low v) = nbg"
    using nbg by (simp add: planes_row_def join_rows_def length_concat_const mult.commute)
  show "length (stored_row (planes_to_seq t sign low 2 nbg n) nbg v)
      = length (if v < n then planes_row t 2 ?nsg sign low v else replicate nbg 0)"
    using lj by simp
  fix gg
  assume "gg < length (stored_row (planes_to_seq t sign low 2 nbg n) nbg v)"
  then have gg: "gg < nbg" by simp
  then have g: "gg div 2 < ?nsg" "gg < 2 * ?nsg" using nbg by auto
  define F where "F = (\<lambda>b gg. map (\<lambda>lane. if n \<le> b * BLOCK + lane \<or> ?nsg \<le> gg div 2 then 0
      else let c = planes_to_code_bytes (sign ! (b * ?nsg * BLOCK + planes_slot t (gg div 2) lane)) (low ! ((b * BLOCK + lane) * ?nsg + gg div 2))
           in if even gg then fst c else snd c) [0..<BLOCK])"
  have e: "planes_to_seq t sign low 2 nbg n = concat (map (\<lambda>b. concat (map (F b) [0..<nbg])) [0..<?nk])"
    by (simp add: planes_to_seq_def F_def Let_def)
  have "stored_row (planes_to_seq t sign low 2 nbg n) nbg v ! gg = F ?b gg ! ?l"
    unfolding stored_row_nth [OF gg] e by (rule blocks_nth(1)) (use b gg in \<open>simp_all add: F_def\<close>)
  also have "\<dots> = (if n \<le> v then 0 else let c = planes_to_code_bytes (sign ! (?b * ?nsg * BLOCK + planes_slot t (gg div 2) ?l)) (low ! (v * ?nsg + gg div 2))
      in if even gg then fst c else snd c)"
    using g(1) by (simp add: F_def not_le)
  also have "sign ! (?b * ?nsg * BLOCK + planes_slot t (gg div 2) ?l) = sign_row t ?nsg sign v ! (gg div 2)"
    using planes_slot_read [OF p g(1), of sign v] g(1) by (simp add: sign_row_def read_row_def)
  finally have s: "stored_row (planes_to_seq t sign low 2 nbg n) nbg v ! gg
    = (if n \<le> v then 0 else let c = planes_to_code_bytes (sign_row t ?nsg sign v ! (gg div 2)) (low ! (v * ?nsg + gg div 2))
      in if even gg then fst c else snd c)" .
  have "low ! (v * ?nsg + gg div 2) = low_of ((2 - 1) * ?nsg) low v ! (gg div 2)" if "v < n"
  proof -
    have "v * ?nsg \<le> length low" unfolding low using that by (intro mult_le_mono1) simp
    then show ?thesis using g(1) by (simp add: low_of_def)
  qed
  then show "stored_row (planes_to_seq t sign low 2 nbg n) nbg v ! gg
      = (if v < n then planes_row t 2 ?nsg sign low v else replicate nbg 0) ! gg"
    unfolding s planes_row_def using gg by (simp add: join_rows2_nth(1) [OF g(2)] not_le)
qed

text \<open>Both widths together: a cache converted from the stored blocks has their rows, and converted
  back it gives them.\<close>

theorem planes_owned_rows:
  assumes p: "planes_for t bits nbg" and len: "length seq = (n + BLOCK - 1) div BLOCK * (nbg * BLOCK)"
    and r: "planes_from_seq_owned t seq bits nbg n = (sign, low)"
  shows "length sign = (n + BLOCK - 1) div BLOCK * (nbg div bits * BLOCK)" "length low = n * ((bits - 1) * (nbg div bits))"
    and "v < n \<Longrightarrow> planes_row t bits (nbg div bits) sign low v = stored_row seq nbg v"
    and "v div BLOCK < (n + BLOCK - 1) div BLOCK \<Longrightarrow> n \<le> v \<Longrightarrow> sign_row t (nbg div bits) sign v = replicate (nbg div bits) 0"
proof -
  consider "bits = 2" | "bits = 4" using planes_for_cases(1) [OF p] by blast
  then have "length sign = (n + BLOCK - 1) div BLOCK * (nbg div bits * BLOCK) \<and> length low = n * ((bits - 1) * (nbg div bits))
    \<and> (v < n \<longrightarrow> planes_row t bits (nbg div bits) sign low v = stored_row seq nbg v)
    \<and> (v div BLOCK < (n + BLOCK - 1) div BLOCK \<longrightarrow> n \<le> v \<longrightarrow> sign_row t (nbg div bits) sign v = replicate (nbg div bits) 0)" for v
  proof cases
    case 1
    have f: "planes_from_seq t seq 2 nbg n = (sign, low)" using r 1 by (simp add: planes_from_seq_owned_def)
    show ?thesis using planes2_rows [OF p [unfolded 1] len f] 1 by simp
  next
    case 2
    show ?thesis using owned_rows [OF p [unfolded 2] len r [unfolded 2]] 2 by simp
  qed
  then show "length sign = (n + BLOCK - 1) div BLOCK * (nbg div bits * BLOCK)" "length low = n * ((bits - 1) * (nbg div bits))"
    and "v < n \<Longrightarrow> planes_row t bits (nbg div bits) sign low v = stored_row seq nbg v"
    and "v div BLOCK < (n + BLOCK - 1) div BLOCK \<Longrightarrow> n \<le> v \<Longrightarrow> sign_row t (nbg div bits) sign v = replicate (nbg div bits) 0"
    by blast+
qed

theorem planes_seq_rows:
  assumes p: "planes_for t bits nbg" and low: "length low = n * ((bits - 1) * (nbg div bits))"
    and sign: "length sign = (n + BLOCK - 1) div BLOCK * (nbg div bits * BLOCK)" and b: "v div BLOCK < (n + BLOCK - 1) div BLOCK"
  shows "stored_row (planes_to_seq t sign low bits nbg n) nbg v
    = (if v < n then planes_row t bits (nbg div bits) sign low v else replicate nbg 0)"
proof -
  consider "bits = 2" | "bits = 4" using planes_for_cases(1) [OF p] by blast
  then show ?thesis
  proof cases
    case 1
    show ?thesis using planes2_seq_rows [OF p [unfolded 1], of low n v sign] low b 1 by simp
  next
    case 2
    have "length low = n * (3 * (nbg div 4))" "length sign = (n + BLOCK - 1) div BLOCK * (nbg div 4 * BLOCK)"
      using low sign 2 by simp_all
    then show ?thesis using planes4_seq_rows [OF p [unfolded 2], of low n sign v] b 2 by (simp add: planes_to_seq_def)
  qed
qed

end
