(* ===== verification/Region.thy ===== *)
theory Region
  imports PlanesConvert
begin

text \<open>
  What every cache buffer satisfies between operations: whole blocks of lanes for the vectors held,
  the lanes past the last vector zero. The lemmas say that building, appending, patching the tail,
  removing and converting keep this, and that such a buffer is determined by its rows.
\<close>

section \<open>Definitions\<close>

abbreviation nblk :: "nat \<Rightarrow> nat" where "nblk n \<equiv> (n + BLOCK - 1) div BLOCK"

definition region :: "target \<Rightarrow> nat \<Rightarrow> nat \<Rightarrow> nat \<Rightarrow> bytes \<Rightarrow> bool" where
  "region t k w n data \<longleftrightarrow> length data = nblk n * w * BLOCK \<and>
     (\<forall>v. n \<le> v \<longrightarrow> v < nblk n * BLOCK \<longrightarrow> read_row t k w data v = replicate w 0)"

text \<open>A removal in a region: the last lane moves to the hole, its own lane is cleared, and the
  blocks no longer needed are cut off.\<close>

definition region_remove :: "target \<Rightarrow> nat \<Rightarrow> nat \<Rightarrow> nat \<Rightarrow> nat \<Rightarrow> bytes \<Rightarrow> bytes" where
  "region_remove t k w lst idx data =
     (let moved = (if idx \<noteq> lst then fst (move_lane t data k w lst idx) else data)
      in take (nblk lst * w * BLOCK) (zero_lane t moved k w lst))"

section \<open>Reading a region\<close>

lemma nblk_mono: "m \<le> n \<Longrightarrow> nblk m \<le> nblk n"
  by (intro div_le_mono) simp

lemma nblk_bound: "n \<le> nblk n * BLOCK"
  using div_mult_mod_eq [of "n + BLOCK - 1" BLOCK] mod_less_divisor [of BLOCK "n + BLOCK - 1"] by linarith

lemma in_block: "v < m * BLOCK \<longleftrightarrow> v div BLOCK < m"
  by (simp add: div_less_iff_less_mult)

lemma has_row_blocks:
  assumes "length data = m * w * BLOCK" and "v < m * BLOCK"
  shows "has_row w data v"
proof -
  have "Suc (v div BLOCK) \<le> m" using assms(2) by (simp add: in_block)
  then have "Suc (v div BLOCK) * (w * BLOCK) \<le> m * (w * BLOCK)" by (rule mult_le_mono1)
  then show ?thesis using assms(1) by (simp only: has_row_def mult.assoc)
qed

lemma region_has_row: "region t k w n data \<Longrightarrow> v < nblk n * BLOCK \<Longrightarrow> has_row w data v"
  by (rule has_row_blocks) (auto simp: region_def)

lemma region_has_vector: "region t k w n data \<Longrightarrow> v < n \<Longrightarrow> has_row w data v"
  by (erule region_has_row) (use nblk_bound [of n] in linarith)

lemma region_lengthD: "region t k w n data \<Longrightarrow> length data = nblk n * w * BLOCK"
  by (simp add: region_def)

lemma region_padding: "region t k w n data \<Longrightarrow> n \<le> v \<Longrightarrow> v < nblk n * BLOCK \<Longrightarrow> read_row t k w data v = replicate w 0"
  by (simp add: region_def)

lemma read_row_take: "has_row w (take m data) v \<Longrightarrow> read_row t k w (take m data) v = read_row t k w data v"
  using read_row_append [of w "take m data" v t k "drop m data"] by simp

lemma slice_prefix: "i + k \<le> m \<Longrightarrow> m \<le> length xs \<Longrightarrow> take k (drop i (take m xs @ ys)) = take k (drop i xs)"
  by (intro nth_equalityI) (auto simp: nth_append)

text \<open>Lanes of fresh blocks, filled with zero bytes, read as zero.\<close>

lemma read_code_nth:
  assumes "g < w" "l < BLOCK" "Suc b * w * BLOCK \<le> length bl" and "length bl mod BLOCK = 0"
  shows "native_to_seq t bl k w ! ((b * w + g) * BLOCK + l) = read_code t bl k w b g l"
  by (rule native_to_seq_read [OF assms])

lemma group_position:
  assumes "i < m * w * BLOCK"
  shows "\<exists>b g l. b < m \<and> g < w \<and> l < BLOCK \<and> i = (b * w + g) * BLOCK + l"
proof (intro exI conjI)
  have q: "i div BLOCK < m * w" using assms by (simp add: div_less_iff_less_mult)
  then have w: "0 < w" by (cases w) simp_all
  show "i div BLOCK div w < m" using q by (simp add: div_less_iff_less_mult w)
  show "i div BLOCK mod w < w" using w by simp
  show "i mod BLOCK < BLOCK" by simp
  show "i = (i div BLOCK div w * w + i div BLOCK mod w) * BLOCK + i mod BLOCK" unfolding div_mult_mod_eq ..
qed

section \<open>A region is determined by its rows\<close>

lemma inverse_onto:
  assumes "finite A" and "f ` A \<subseteq> A" and "g ` A \<subseteq> A" and "\<And>x. x \<in> A \<Longrightarrow> g (f x) = x" and "y \<in> A"
  shows "f (g y) = y"
proof -
  have "inj_on f A" using assms(4) by (metis inj_onI)
  then have "f ` A = A" using endo_inj_surj [OF assms(1,2)] by blast
  then obtain x where "x \<in> A" "y = f x" using assms(5) by blast
  then show ?thesis using assms(4) by simp
qed

lemma finite_bytes: "finite {xs :: bytes. length xs = n}"
  using finite_lists_length_eq [of "UNIV :: u8 set" n] by simp

lemma native_to_seq_inverse:
  assumes "length data mod BLOCK = 0"
  shows "seq_into_native t (native_to_seq t data k w) k w = data"
  by (rule inverse_onto [where A = "{xs. length xs = length data}"])
    (use assms in \<open>auto simp: finite_bytes intro: native_roundtrip\<close>)

lemma native_to_seq_eqI:
  assumes len: "length a = m * w * BLOCK" "length b = m * w * BLOCK"
    and rows: "\<And>v. v < m * BLOCK \<Longrightarrow> read_row t k w a v = read_row t k w b v"
  shows "a = b"
proof -
  have md: "length a mod BLOCK = 0" "length b mod BLOCK = 0" unfolding len by simp_all
  have "native_to_seq t a k w = native_to_seq t b k w"
  proof (rule nth_equalityI)
    show "length (native_to_seq t a k w) = length (native_to_seq t b k w)" using md len by simp
    fix i
    assume "i < length (native_to_seq t a k w)"
    then have "i < m * w * BLOCK" using md len by simp
    from group_position [OF this] obtain b' g l where p: "b' < m" "g < w" "l < BLOCK" "i = (b' * w + g) * BLOCK + l"
      by blast
    have fit: "Suc b' * w * BLOCK \<le> m * w * BLOCK" using p(1) by (intro mult_le_mono1) simp
    have "b' * BLOCK + l < m * BLOCK" using p by (simp add: in_block)
    from rows [OF this] have "read_row t k w a (b' * BLOCK + l) ! g = read_row t k w b (b' * BLOCK + l) ! g" by simp
    then have "read_code t a k w b' g l = read_code t b k w b' g l" using p by (simp add: read_row_def)
    then show "native_to_seq t a k w ! i = native_to_seq t b k w ! i"
      unfolding p(4) using read_code_nth [OF p(2,3) _ md(1), of b' t k] read_code_nth [OF p(2,3) _ md(2), of b' t k] fit len
      by simp
  qed
  then have "seq_into_native t (native_to_seq t a k w) k w = seq_into_native t (native_to_seq t b k w) k w" by (rule arg_cong)
  then show ?thesis unfolding native_to_seq_inverse [OF md(1)] native_to_seq_inverse [OF md(2)] .
qed

theorem region_unique:
  assumes "region t k w n a" "region t k w n b" and "\<And>v. v < n \<Longrightarrow> read_row t k w a v = read_row t k w b v"
  shows "a = b"
proof (rule native_to_seq_eqI)
  show "length a = nblk n * w * BLOCK" "length b = nblk n * w * BLOCK" using assms by (simp_all add: region_def)
  fix v
  assume v: "v < nblk n * BLOCK"
  show "read_row t k w a v = read_row t k w b v"
    using assms(3) [of v] region_padding [OF assms(1) _ v] region_padding [OF assms(2) _ v] by (cases "v < n") simp_all
qed

lemma write_zero_zeros: "write_code t (replicate m 0) k w b g l 0 = replicate m 0"
proof -
  have u: "(replicate m (0 :: u8))[i := 0] = replicate m 0" for i
    by (cases "i < m") (simp_all add: list_update_beyond list_update_same_conv)
  have u': "(replicate m (0 :: u8))[i := replicate m 0 ! i AND c] = replicate m 0" for i c
    by (cases "i < m") (simp_all add: list_update_beyond list_update_same_conv)
  show ?thesis by (simp add: write_code_def write_x86_code_byte_def Let_def u u')
qed

lemma read_zeros:
  assumes "v < m * BLOCK"
  shows "read_row t k w (replicate (m * w * BLOCK) 0) v = replicate w 0"
proof (rule nth_equalityI)
  fix g
  assume "g < length (read_row t k w (replicate (m * w * BLOCK) 0) v)"
  then have g: "g < w" by simp
  have "has_row w (replicate (m * w * BLOCK) (0 :: u8)) v" by (rule has_row_blocks [OF _ assms]) simp
  then have "read_code t (write_code t (replicate (m * w * BLOCK) 0) k w (v div BLOCK) g (v mod BLOCK) 0) k w (v div BLOCK) g (v mod BLOCK) = 0"
    using g by (intro native.rd_wr_same) (simp_all add: has_row_def)
  then show "read_row t k w (replicate (m * w * BLOCK) 0) v ! g = replicate w 0 ! g"
    using g by (simp add: write_zero_zeros read_row_def)
qed simp

section \<open>The operations keep a region\<close>

lemma regionI:
  assumes "length data = nblk n * w * BLOCK"
    and "\<And>v. n \<le> v \<Longrightarrow> v < nblk n * BLOCK \<Longrightarrow> read_row t k w data v = replicate w 0"
  shows "region t k w n data"
  using assms by (simp add: region_def)

text \<open>Building from code bytes.\<close>

lemma region_pack:
  assumes "length flat = n * w"
  shows "region t k w n (pack_blocked_native t n (nblk n) k w flat)"
    and "v < n \<Longrightarrow> read_row t k w (pack_blocked_native t n (nblk n) k w flat) v = take w (drop (v * w) flat)"
proof -
  note r = pack_native_row [OF _ assms]
  show "region t k w n (pack_blocked_native t n (nblk n) k w flat)"
    by (rule regionI) (use r in \<open>simp_all add: in_block\<close>)
  assume v: "v < n"
  then have "v div BLOCK < nblk n" using block_count [OF v] by simp
  then show "read_row t k w (pack_blocked_native t n (nblk n) k w flat) v = take w (drop (v * w) flat)"
    using r v by simp
qed

text \<open>Appending rows lane by lane after growing with zeros.\<close>

lemma region_append:
  assumes old: "region t k w n data" and len: "\<And>i. i < m \<Longrightarrow> length (r i) = w"
  defines "data' \<equiv> foldl (\<lambda>bl i. write_row t k w bl (n + i) (r i)) (resize_bytes data (nblk (n + m) * w * BLOCK)) [0..<m]"
  shows "region t k w (n + m) data'"
    and "v < n + m \<Longrightarrow> read_row t k w data' v = (if v < n then read_row t k w data v else r (v - n))"
proof -
  let ?big = "nblk (n + m) * w * BLOCK"
  have le: "length data \<le> ?big" unfolding region_lengthD [OF old] by (intro mult_le_mono1 nblk_mono) simp
  have "?big - length data = (nblk (n + m) - nblk n) * w * BLOCK"
    unfolding region_lengthD [OF old] by (simp only: diff_mult_distrib)
  then have rs: "resize_bytes data ?big = data @ replicate ((nblk (n + m) - nblk n) * w * BLOCK) 0"
    using le by (simp add: resize_bytes_def)
  have lr: "length (resize_bytes data ?big) = ?big" using le by (simp add: resize_bytes_def)
  have fit: "has_row w (resize_bytes data ?big) v" if "v < nblk (n + m) * BLOCK" for v
    by (rule has_row_blocks [OF lr that])
  have base: "read_row t k w (resize_bytes data ?big) v = (if v < n then read_row t k w data v else replicate w 0)"
    if v: "v < nblk (n + m) * BLOCK" for v
  proof (cases "v div BLOCK < nblk n")
    case True
    then have "v < nblk n * BLOCK" by (simp add: in_block)
    then show ?thesis
      using region_has_row [OF old] region_padding [OF old, of v] unfolding rs by (simp add: read_row_append)
  next
    case False
    then have nv: "\<not> v < n" using block_count [of v n] by (meson Suc_le_lessD)
    have d: "length data = nblk n * w * BLOCK" by (rule region_lengthD [OF old])
    have "v - nblk n * BLOCK < (nblk (n + m) - nblk n) * BLOCK"
      using v False by (simp add: diff_mult_distrib not_less less_eq_div_iff_mult_less_eq)
    then show ?thesis using nv False unfolding rs by (simp add: read_row_blocks [OF d] read_zeros)
  qed
  have wr: "read_row t k w data' v
      = (if n \<le> v \<and> v < n + m then r (v - n) else read_row t k w (resize_bytes data ?big) v)"
    if v: "v < nblk (n + m) * BLOCK" for v
    unfolding data'_def
  proof (rule read_write_rows)
    show "\<forall>i < m. has_row w (resize_bytes data ?big) (n + i)" using fit nblk_bound [of "n + m"] by simp
  qed (use fit [OF v] len in simp_all)
  show "region t k w (n + m) data'"
    by (rule regionI) (use wr base lr in \<open>simp_all add: data'_def\<close>)
  assume "v < n + m"
  then show "read_row t k w data' v = (if v < n then read_row t k w data v else r (v - n))"
    using wr [of v] base [of v] nblk_bound [of "n + m"] by simp
qed

text \<open>Replacing the blocks from \<open>fb\<close> on by freshly packed ones.\<close>

lemma region_patch:
  assumes old: "region t k w n data" and fb: "fb * BLOCK \<le> n" "n \<le> n'"
    and flat: "length flat = (n' - fb * BLOCK) * w"
  defines "data' \<equiv> take (fb * w * BLOCK) data @ pack_blocked_native t (n' - fb * BLOCK) (nblk n' - fb) k w flat"
  shows "region t k w n' data'"
    and "v < n' \<Longrightarrow> read_row t k w data' v
      = (if v < fb * BLOCK then read_row t k w data v else take w (drop ((v - fb * BLOCK) * w) flat))"
proof -
  have fn: "fb \<le> nblk n" using fb(1) by (simp add: less_eq_div_iff_mult_less_eq)
  then have fn': "fb \<le> nblk n'" using nblk_mono [OF fb(2)] by linarith
  have "fb * w * BLOCK \<le> length data" unfolding region_lengthD [OF old] using fn by (intro mult_le_mono1)
  then have lt: "length (take (fb * w * BLOCK) data) = fb * w * BLOCK" by simp
  have rd: "read_row t k w data' v = (if v < fb * BLOCK then read_row t k w data v
      else if v < n' then take w (drop ((v - fb * BLOCK) * w) flat) else replicate w 0)"
    if v: "v < nblk n' * BLOCK" for v
  proof (cases "v < fb * BLOCK")
    case True
    then have "has_row w (take (fb * w * BLOCK) data) v" by (rule has_row_blocks [OF lt])
    then show ?thesis using True unfolding data'_def by (simp add: read_row_append read_row_take)
  next
    case False
    have "(v - fb * BLOCK) div BLOCK < nblk n' - fb"
      using v False fn' by (simp add: in_block [symmetric] diff_mult_distrib)
    from pack_native_row [OF this flat, of t k] False show ?thesis
      unfolding data'_def read_row_blocks [OF lt] by (auto simp: in_block)
  qed
  have "length data' = fb * w * BLOCK + (nblk n' - fb) * w * BLOCK" unfolding data'_def length_append lt length_pack_native ..
  also have "\<dots> = nblk n' * w * BLOCK" using fn' by (metis add_mult_distrib le_add_diff_inverse)
  finally show "region t k w n' data'" using rd fb by (intro regionI) simp_all
  assume "v < n'"
  then show "read_row t k w data' v
      = (if v < fb * BLOCK then read_row t k w data v else take w (drop ((v - fb * BLOCK) * w) flat))"
    using rd [of v] nblk_bound [of n'] by simp
qed

text \<open>Removing.\<close>

lemma region_remove:
  assumes old: "region t k w n data" and n: "lst = n - 1" "idx < n"
  shows "region t k w lst (region_remove t k w lst idx data)"
    and "v < lst \<Longrightarrow> read_row t k w (region_remove t k w lst idx data) v
      = read_row t k w data (if v = idx then lst else v)"
proof -
  let ?moved = "if idx \<noteq> lst then fst (move_lane t data k w lst idx) else data"
  have hr: "has_row w data v" if "v < nblk n * BLOCK" for v using region_has_row [OF old that] .
  have li: "lst < n" "lst < nblk n * BLOCK" "idx < nblk n * BLOCK" using n nblk_bound [of n] by linarith+
  have lm: "length ?moved = length data" by (simp add: move_lane_eq [OF hr hr, OF li(2,3)])
  have mv: "read_row t k w ?moved v = read_row t k w data (if v = idx then lst else v)" if "v < nblk n * BLOCK" for v
    using read_move_lane [OF hr hr hr, OF li(2,3) that, of t k] by (cases "v = idx") auto
  have hm: "has_row w ?moved v" if "v < nblk n * BLOCK" for v using hr [OF that] lm by (simp add: has_row_def)
  have z: "read_row t k w (zero_lane t ?moved k w lst) v
      = (if v = lst then replicate w 0 else read_row t k w data (if v = idx then lst else v))" if "v < nblk n * BLOCK" for v
    using read_zero_lane [OF hm hm, OF li(2) that] mv [OF that] by simp
  have le: "nblk lst \<le> nblk n" using li(1) by (intro nblk_mono) simp
  then have "nblk lst * w * BLOCK \<le> nblk n * w * BLOCK" by (intro mult_le_mono1)
  then have lt: "length (region_remove t k w lst idx data) = nblk lst * w * BLOCK"
    using lm region_lengthD [OF old] by (simp add: region_remove_def)
  have rd: "read_row t k w (region_remove t k w lst idx data) v
      = (if v = lst then replicate w 0 else read_row t k w data (if v = idx then lst else v))"
    if v: "v < nblk lst * BLOCK" for v
  proof -
    have "has_row w (region_remove t k w lst idx data) v" by (rule has_row_blocks [OF lt v])
    moreover have "v < nblk n * BLOCK" using v mult_le_mono1 [OF le, of BLOCK] by linarith
    ultimately show ?thesis using z [of v] by (simp add: region_remove_def read_row_take)
  qed
  have pad: "read_row t k w data v = replicate w 0" if "lst < v" "v < nblk lst * BLOCK" for v
    using region_padding [OF old, of v] that n li mult_le_mono1 [OF le, of BLOCK] by linarith
  show "region t k w lst (region_remove t k w lst idx data)"
    using rd pad n by (intro regionI lt) (auto simp: le_less)
  assume "v < lst"
  then show "read_row t k w (region_remove t k w lst idx data) v = read_row t k w data (if v = idx then lst else v)"
    using rd [of v] nblk_bound [of lst] by simp
qed

text \<open>Converting to and from the sequential blocks.\<close>

lemma stored_row_native:
  assumes "length data = m * w * BLOCK" and v: "v < m * BLOCK"
  shows "stored_row (native_to_seq t data k w) w v = read_row t k w data v"
proof -
  have fit: "Suc (v div BLOCK) * w * BLOCK \<le> length data"
    using has_row_blocks [OF assms] by (simp add: has_row_def)
  have md: "length data mod BLOCK = 0" using assms by simp
  show ?thesis
    unfolding stored_row_def read_row_def by (intro map_cong refl native_to_seq_read [OF _ _ fit md]) simp_all
qed

lemma read_row_seq:
  assumes "length seq = m * w * BLOCK" and v: "v < m * BLOCK"
  shows "read_row t k w (seq_into_native t seq k w) v = stored_row seq w v"
proof -
  have fit: "Suc (v div BLOCK) * w * BLOCK \<le> length seq"
    using has_row_blocks [OF assms] by (simp add: has_row_def)
  show ?thesis
    unfolding stored_row_def read_row_def by (intro map_cong refl native_read [OF _ _ fit]) simp_all
qed

lemma stored_rows_eqI:
  assumes "length a = m * w * BLOCK" "length b = m * w * BLOCK"
    and "\<And>v. v < m * BLOCK \<Longrightarrow> stored_row a w v = stored_row b w v"
  shows "a = b"
proof (rule nth_equalityI)
  show "length a = length b" using assms by simp
  fix i
  assume "i < length a"
  then have "i < m * w * BLOCK" using assms(1) by simp
  from group_position [OF this] obtain b' g l where p: "b' < m" "g < w" "l < BLOCK" "i = (b' * w + g) * BLOCK + l" by blast
  have "b' * BLOCK + l < m * BLOCK" using p by (simp add: in_block)
  from assms(3) [OF this] have "stored_row a w (b' * BLOCK + l) ! g = stored_row b w (b' * BLOCK + l) ! g" by simp
  then show "a ! i = b ! i" using p by (simp add: stored_row_nth)
qed

end
