(* ===== verification/RowStore.thy ===== *)
theory RowStore
  imports Region "HOL-Library.Multiset"
begin

text \<open>
  The contract a code store offers the index: it holds the rows of \<open>n\<close> vectors, \<open>swap_remove\<close> on it is
  \<open>Vec::swap_remove\<close> on the rows, and an add appends rows. The two stores of an index offer it: the
  packed bit-plane rows and the search cache.
\<close>

section \<open>The contract\<close>

text \<open>\<open>Vec::swap_remove\<close>.\<close>

definition list_swap_remove :: "nat \<Rightarrow> 'a list \<Rightarrow> 'a list" where
  "list_swap_remove i xs = butlast (xs[i := last xs])"

lemma length_list_swap_remove [simp]: "length (list_swap_remove i xs) = length xs - 1"
  by (simp add: list_swap_remove_def)

lemma list_swap_remove_nth:
  assumes "i < length xs" and "v < length xs - 1"
  shows "list_swap_remove i xs ! v = xs ! (if v = i then length xs - 1 else v)"
proof -
  have "last xs = xs ! (length xs - 1)" using assms(1) by (intro last_conv_nth) auto
  then show ?thesis using assms by (simp add: list_swap_remove_def nth_butlast nth_list_update)
qed

lemma list_swap_remove_map: "xs \<noteq> [] \<Longrightarrow> list_swap_remove i (map f xs) = map f (list_swap_remove i xs)"
  by (simp add: list_swap_remove_def map_butlast map_update last_map)

lemma list_swap_remove_last: "xs \<noteq> [] \<Longrightarrow> list_swap_remove (length xs - 1) xs = butlast xs"
  by (simp add: list_swap_remove_def last_conv_nth list_update_id)

text \<open>The rows left are the old ones less the removed row, as multisets.\<close>

lemma mset_list_swap_remove:
  assumes "i < length xs"
  shows "mset (list_swap_remove i xs) = mset xs - {#xs ! i#}"
proof -
  let ?ys = "xs[i := last xs]"
  have ne: "xs \<noteq> []" using assms by auto
  have l: "last ?ys = last xs" using ne assms by (simp add: last_list_update)
  have "mset ?ys = mset (butlast ?ys @ [last ?ys])" using ne by simp
  then have "mset (list_swap_remove i xs) + {#last xs#} = mset ?ys" by (simp add: list_swap_remove_def l)
  also have "\<dots> = add_mset (last xs) (mset xs - {#xs ! i#})" using assms by (simp add: mset_update)
  finally show ?thesis by simp
qed

locale row_store =
  fixes ok :: "nat \<Rightarrow> 's \<Rightarrow> bool" and row :: "'s \<Rightarrow> nat \<Rightarrow> 'r" and remove_at :: "nat \<Rightarrow> nat \<Rightarrow> 's \<Rightarrow> 's"
  assumes remove_ok: "ok n s \<Longrightarrow> idx < n \<Longrightarrow> ok (n - 1) (remove_at idx (n - 1) s)"
    and remove_row: "ok n s \<Longrightarrow> idx < n \<Longrightarrow> v < n - 1 \<Longrightarrow>
      row (remove_at idx (n - 1) s) v = row s (if v = idx then n - 1 else v)"
begin

lemma remove_rows:
  assumes "ok n s" "idx < n"
  shows "map (row (remove_at idx (n - 1) s)) [0..<n - 1] = list_swap_remove idx (map (row s) [0..<n])"
proof (rule nth_equalityI)
  show "length (map (row (remove_at idx (n - 1) s)) [0..<n - 1]) = length (list_swap_remove idx (map (row s) [0..<n]))"
    by simp
  fix v
  assume "v < length (map (row (remove_at idx (n - 1) s)) [0..<n - 1])"
  then have v: "v < n - 1" by simp
  then have "list_swap_remove idx (map (row s) [0..<n]) ! v = row s (if v = idx then n - 1 else v)"
    using assms(2) list_swap_remove_nth [of idx "map (row s) [0..<n]" v] by simp
  then show "map (row (remove_at idx (n - 1) s)) [0..<n - 1] ! v = list_swap_remove idx (map (row s) [0..<n]) ! v"
    using remove_row [OF assms v] v by simp
qed

text \<open>Removing every row, last one first, leaves an empty store.\<close>

lemma drain:
  "ok n s \<Longrightarrow> ok 0 (foldl (\<lambda>s lst. remove_at lst lst s) s (rev [0..<n]))"
proof (induction n arbitrary: s)
  case (Suc n)
  then show ?case using remove_ok [of "Suc n" s n] by simp
qed simp

end

locale growing_store = row_store ok row remove_at
  for ok :: "nat \<Rightarrow> 's \<Rightarrow> bool" and row :: "'s \<Rightarrow> nat \<Rightarrow> 'r" and remove_at :: "nat \<Rightarrow> nat \<Rightarrow> 's \<Rightarrow> 's" +
  fixes fits :: "nat \<Rightarrow> 'b \<Rightarrow> bool" and batch_row :: "'b \<Rightarrow> nat \<Rightarrow> 'r" and append_rows :: "'b \<Rightarrow> nat \<Rightarrow> nat \<Rightarrow> 's \<Rightarrow> 's"
  assumes append_ok: "ok n s \<Longrightarrow> 0 < n \<Longrightarrow> fits m b \<Longrightarrow> ok (n + m) (append_rows b n m s)"
    and append_row: "ok n s \<Longrightarrow> 0 < n \<Longrightarrow> fits m b \<Longrightarrow> v < n + m \<Longrightarrow>
      row (append_rows b n m s) v = (if v < n then row s v else batch_row b (v - n))"
begin

lemma append_all:
  assumes "ok n s" "0 < n" "fits m b"
  shows "map (row (append_rows b n m s)) [0..<n + m] = map (row s) [0..<n] @ map (batch_row b) [0..<m]"
proof (rule nth_equalityI)
  fix v
  assume "v < length (map (row (append_rows b n m s)) [0..<n + m])"
  then show "map (row (append_rows b n m s)) [0..<n + m] ! v = (map (row s) [0..<n] @ map (batch_row b) [0..<m]) ! v"
    using append_row [OF assms, of v] by (auto simp: nth_append)
qed simp

text \<open>An add undone by removing its rows again.\<close>

lemma append_then_pop:
  assumes "ok n s" "0 < n" "fits 1 b"
  shows "map (row (remove_at n n (append_rows b n 1 s))) [0..<n] = map (row s) [0..<n]"
proof -
  have ok1: "ok (n + 1) (append_rows b n 1 s)" by (rule append_ok [OF assms])
  have "row (remove_at n n (append_rows b n 1 s)) v = row s v" if "v < n" for v
    using remove_row [OF ok1, of n v] append_row [OF assms, of v] that by simp
  then show ?thesis by (intro map_cong) simp_all
qed

end

section \<open>The packed rows\<close>

text \<open>The packed part of \<open>swap_remove\<close>: \<open>copy_within\<close> and \<open>truncate\<close>.\<close>

definition packed_swap_remove :: "nat \<Rightarrow> nat \<Rightarrow> nat \<Rightarrow> bytes \<Rightarrow> bytes" where
  "packed_swap_remove bytes_per_vec idx lst packed =
     (let p = (if idx \<noteq> lst
               then overwrite (idx * bytes_per_vec) (take bytes_per_vec (drop (lst * bytes_per_vec) packed)) packed
               else packed)
      in take (lst * bytes_per_vec) p)"

definition packed_row :: "nat \<Rightarrow> bytes \<Rightarrow> nat \<Rightarrow> bytes" where
  "packed_row bytes_per_vec packed v = take bytes_per_vec (drop (v * bytes_per_vec) packed)"

lemma packed_row_low_of: "packed_row k p v = low_of k p v"
  by (simp add: packed_row_def low_of_def)

lemma packed_remove:
  assumes len: "length p = n * k" and n: "lst = n - 1" "idx < n"
  shows "length (packed_swap_remove k idx lst p) = lst * k"
    and "v < lst \<Longrightarrow> packed_row k (packed_swap_remove k idx lst p) v = packed_row k p (if v = idx then lst else v)"
proof -
  let ?x = "take k (drop (lst * k) p)"
  let ?p = "if idx \<noteq> lst then overwrite (idx * k) ?x p else p"
  have li: "lst < n" using n by simp
  have fit: "w * k + k \<le> length p" if "w < n" for w using mult_le_mono1 [of "Suc w" n k] that len by simp
  have lx: "length ?x = k" using fit [OF li] by simp
  have lp: "length ?p = n * k" using length_overwrite [of "idx * k" ?x p] fit [OF n(2)] lx len by simp
  have "lst * k \<le> n * k" using li by (intro mult_le_mono1) simp
  then show "length (packed_swap_remove k idx lst p) = lst * k" by (simp add: packed_swap_remove_def lp)
  assume v: "v < lst"
  have "v * k + k \<le> lst * k" using mult_le_mono1 [of "Suc v" lst k] v by simp
  then have "packed_row k (packed_swap_remove k idx lst p) v = packed_row k ?p v"
    using slice_prefix [of "v * k" k "lst * k" ?p "[]"] \<open>lst * k \<le> n * k\<close> lp by (simp add: packed_row_def packed_swap_remove_def)
  also have "\<dots> = packed_row k p (if v = idx then lst else v)"
  proof (cases "v = idx \<and> idx \<noteq> lst")
    case True
    then show ?thesis using overwrite_read(1) [of "idx * k" ?x p] fit [OF n(2)] lx by (simp add: packed_row_def)
  next
    case False
    have "Suc idx * k \<le> length p" using fit [OF n(2)] by (simp add: add.commute)
    then have "low_of k (overwrite (idx * k) ?x p) v = low_of k p v" if "v \<noteq> idx"
      using that lx by (intro low_of_other) simp_all
    then show ?thesis using False v by (auto simp: packed_row_low_of)
  qed
  finally show "packed_row k (packed_swap_remove k idx lst p) v = packed_row k p (if v = idx then lst else v)" .
qed

lemma packed_append:
  assumes "length p = n * k" "length b = m * k" "v < n + m"
  shows "packed_row k (p @ b) v = (if v < n then packed_row k p v else packed_row k b (v - n))"
proof (cases "v < n")
  case True
  then have "v * k + k \<le> length p" using mult_le_mono1 [of "Suc v" n k] assms(1) by simp
  then show ?thesis using True by (simp add: packed_row_def)
next
  case False
  then have "length p \<le> v * k" unfolding assms(1) by (intro mult_le_mono1) simp
  then show ?thesis using False by (simp add: packed_row_def assms(1) diff_mult_distrib)
qed

interpretation packed_store: growing_store "\<lambda>n p. length p = n * k" "packed_row k" "packed_swap_remove k"
  "\<lambda>m b. length b = m * k" "packed_row k" "\<lambda>b n m p. p @ b"
proof
  fix n idx v m :: nat and p b :: bytes
  assume p: "length p = n * k"
  show "length (packed_swap_remove k idx (n - 1) p) = (n - 1) * k" if "idx < n"
    by (rule packed_remove(1) [OF p refl that])
  show "packed_row k (packed_swap_remove k idx (n - 1) p) v = packed_row k p (if v = idx then n - 1 else v)"
    if "idx < n" "v < n - 1"
    by (rule packed_remove(2) [OF p refl that])
  assume b: "length b = m * k"
  show "length (p @ b) = (n + m) * k" using p b by (simp add: add_mult_distrib)
  show "packed_row k (p @ b) v = (if v < n then packed_row k p v else packed_row k b (v - n))" if "v < n + m"
    by (rule packed_append [OF p b that])
qed

end
