(* ===== verification/Cache.thy ===== *)
theory Cache
  imports RowStore
begin

text \<open>
  The search cache of an index (\<open>BlockedCache\<close> of \<open>lib.rs\<close>): the lane blocks of the classic layout,
  or the sign and low regions of the planes layout. The operations are building, the promotion to
  planes at the size threshold, the in-place append and tail patch of an add, the lane moves of a
  removal, and the way back to the stored blocks. Each keeps the cache well formed and acts on its
  rows as the corresponding list operation; a well-formed cache is determined by its rows.
\<close>

section \<open>Definitions\<close>

record cache =
  bc_data :: bytes
  bc_low :: bytes
  bc_n_blocks :: nat

lemma cache_fields:
  "bc_data (c\<lparr>bc_data := d, bc_low := l, bc_n_blocks := n\<rparr>) = d" "bc_low (c\<lparr>bc_data := d, bc_low := l, bc_n_blocks := n\<rparr>) = l"
  "bc_n_blocks (c\<lparr>bc_data := d, bc_low := l, bc_n_blocks := n\<rparr>) = n"
  "bc_data (c\<lparr>bc_data := d, bc_n_blocks := n\<rparr>) = d" "bc_low (c\<lparr>bc_data := d, bc_n_blocks := n\<rparr>) = bc_low c"
  "bc_n_blocks (c\<lparr>bc_data := d, bc_n_blocks := n\<rparr>) = n"
  by simp_all

definition is_planes :: "cache \<Rightarrow> bool" where
  "is_planes c \<longleftrightarrow> bc_low c \<noteq> []"

definition cache_build :: "target \<Rightarrow> bytes \<Rightarrow> nat \<Rightarrow> nat \<Rightarrow> nat \<Rightarrow> cache" where
  "cache_build t packed n bits dim =
     (if planes_wanted t bits (dim div codes_per_byte bits) n
      then let (data, low, nb) = planes_repack t packed n bits dim
           in \<lparr>bc_data = data, bc_low = low, bc_n_blocks = nb\<rparr>
      else let (data, nb) = repack t packed n bits dim
           in \<lparr>bc_data = data, bc_low = [], bc_n_blocks = nb\<rparr>)"

definition promote_if_due :: "target \<Rightarrow> nat \<Rightarrow> nat \<Rightarrow> nat \<Rightarrow> cache \<Rightarrow> cache" where
  "promote_if_due t n bits nbg c =
     (if is_planes c \<or> \<not> planes_wanted t bits nbg n then c
      else let seq = native_to_seq t (bc_data c) bits nbg;
               (data, low) = planes_from_seq_owned t seq bits nbg n
           in c\<lparr>bc_data := data, bc_low := low\<rparr>)"

definition cache_to_seq :: "target \<Rightarrow> nat \<Rightarrow> nat \<Rightarrow> nat \<Rightarrow> cache \<Rightarrow> bytes" where
  "cache_to_seq t n bits nbg c =
     (if is_planes c then planes_to_seq t (bc_data c) (bc_low c) bits nbg n
      else native_to_seq t (bc_data c) bits nbg)"

text \<open>The code bytes of one row (the cache part of \<open>seq_row\<close>).\<close>

definition cache_row :: "target \<Rightarrow> nat \<Rightarrow> nat \<Rightarrow> cache \<Rightarrow> nat \<Rightarrow> bytes" where
  "cache_row t bits nbg c idx =
     (if is_planes c then planes_read_row t (bc_data c) (bc_low c) bits nbg idx
      else map (\<lambda>g. read_code t (bc_data c) bits nbg (idx div BLOCK) g (idx mod BLOCK)) [0..<nbg])"

text \<open>The cache part of \<open>encode_and_append\<close>: the lazy branch writes the new rows' lanes, the eager
  one rebuilds the blocks from the old tail on.\<close>

definition cache_append :: "target \<Rightarrow> bytes \<Rightarrow> nat \<Rightarrow> nat \<Rightarrow> nat \<Rightarrow> nat \<Rightarrow> cache \<Rightarrow> cache" where
  "cache_append t packed_rows old_n n bits dim c =
     (let c' = (if is_planes c
                then let (data, low) = planes_append_lanes t (bc_data c) (bc_low c) packed_rows old_n n bits dim
                     in c\<lparr>bc_data := data, bc_low := low\<rparr>
                else promote_if_due t (old_n + n) bits (dim div codes_per_byte bits)
                       (c\<lparr>bc_data := append_lanes t (bc_data c) (extract_codes_flat packed_rows n bits dim) old_n n bits dim\<rparr>));
          (new_n_blocks, _, _) = blocked_geometry (old_n + n) bits dim
      in c'\<lparr>bc_n_blocks := new_n_blocks\<rparr>)"

definition cache_patch :: "target \<Rightarrow> bytes \<Rightarrow> nat \<Rightarrow> nat \<Rightarrow> nat \<Rightarrow> nat \<Rightarrow> cache \<Rightarrow> cache" where
  "cache_patch t packed old_n new_n bits dim c =
     (let (new_n_blocks, nbg, _) = blocked_geometry new_n bits dim;
          first_block = old_n div BLOCK;
          planes = is_planes c;
          (patch, low_patch) = (if planes then planes_repack_block_range t packed new_n bits dim first_block new_n_blocks
                                else (repack_block_range t packed new_n bits dim first_block new_n_blocks, []));
          (nsg, low_row) = planes_geom bits nbg;
          block_bytes = (if planes then nsg * BLOCK else nbg * BLOCK);
          data = take (first_block * block_bytes) (bc_data c) @ patch;
          c' = (if planes then c\<lparr>bc_data := data, bc_low := take (first_block * BLOCK * low_row) (bc_low c) @ low_patch\<rparr>
                else promote_if_due t new_n bits nbg (c\<lparr>bc_data := data\<rparr>))
      in c'\<lparr>bc_n_blocks := new_n_blocks\<rparr>)"

text \<open>The cache part of \<open>swap_remove\<close>, with the code bytes the move reads (what a capture stores).\<close>

definition cache_swap_remove :: "target \<Rightarrow> nat \<Rightarrow> nat \<Rightarrow> nat \<Rightarrow> nat \<Rightarrow> cache \<Rightarrow> cache \<times> bytes" where
  "cache_swap_remove t bits dim idx lst c =
     (let (new_n_blocks, nbg, _) = blocked_geometry lst bits dim;
          planes = is_planes c;
          (c1, out) = (if idx = lst then (c, [])
                       else if planes
                       then let (data, low) = planes_move t (bc_data c) (bc_low c) bits nbg lst idx
                            in (c\<lparr>bc_data := data, bc_low := low\<rparr>, planes_read_row t (bc_data c) (bc_low c) bits nbg lst)
                       else let (data, out) = move_lane t (bc_data c) bits nbg lst idx
                            in (c\<lparr>bc_data := data\<rparr>, out));
          c2 = (if planes
                then let (nsg, low_row) = planes_geom bits nbg
                     in c1\<lparr>bc_data := take (new_n_blocks * nsg * BLOCK) (zero_lane t (bc_data c1) 2 nsg lst),
                           bc_low := take (lst * low_row) (bc_low c1)\<rparr>
                else c1\<lparr>bc_data := take (new_n_blocks * (nbg * BLOCK)) (zero_lane t (bc_data c1) bits nbg lst)\<rparr>)
      in (c2\<lparr>bc_n_blocks := new_n_blocks\<rparr>, out))"

section \<open>Well-formed caches\<close>

definition geom_ok :: "nat \<Rightarrow> nat \<Rightarrow> bool" where
  "geom_ok bits dim \<longleftrightarrow> bits \<in> {2, 3, 4} \<and> dim mod 8 = 0 \<and> 0 < dim"

definition wf_cache :: "target \<Rightarrow> nat \<Rightarrow> nat \<Rightarrow> nat \<Rightarrow> cache \<Rightarrow> bool" where
  "wf_cache t bits dim n c \<longleftrightarrow>
     (let nbg = dim div codes_per_byte bits; nsg = dim div 8 in
      bc_n_blocks c = nblk n \<and>
      (if is_planes c
       then planes_for t bits nbg \<and> region t 2 nsg n (bc_data c) \<and> length (bc_low c) = n * ((bits - 1) * nsg)
       else region t bits nbg n (bc_data c)))"

lemma geom_okD:
  assumes "geom_ok bits dim"
  shows "bits \<in> {2, 3, 4}" "dim mod 8 = 0" "dim = dim div 8 * 8" "0 < dim div 8" "0 < dim div codes_per_byte bits"
proof -
  show b: "bits \<in> {2, 3, 4}" "dim mod 8 = 0" using assms by (simp_all add: geom_ok_def)
  show d: "dim = dim div 8 * 8" using b(2) div_mult_mod_eq [of dim 8] by linarith
  then show p: "0 < dim div 8" using assms by (cases "dim div 8") (simp_all add: geom_ok_def)
  show "0 < dim div codes_per_byte bits"
    using groups_of_dim [OF b] width_cases(3-5) [OF b(1)] p by (cases "8 div codes_per_byte bits") auto
qed

lemma planes_geometry:
  assumes "geom_ok bits dim" and "planes_for t bits (dim div codes_per_byte bits)"
  shows "bits = 2 \<or> bits = 4" "dim div codes_per_byte bits = bits * (dim div 8)"
    "dim div codes_per_byte bits div bits = dim div 8"
proof -
  show b: "bits = 2 \<or> bits = 4" using planes_for_cases(1) [OF assms(2)] by blast
  show "dim div codes_per_byte bits = bits * (dim div 8)" "dim div codes_per_byte bits div bits = dim div 8"
    using nsg_dim [OF b geom_okD(2) [OF assms(1)]] by simp_all
qed

text \<open>The row of a well-formed cache, in the two layouts.\<close>

lemma cache_row_classic: "\<not> is_planes c \<Longrightarrow> cache_row t bits nbg c v = read_row t bits nbg (bc_data c) v"
  by (simp add: cache_row_def read_row_def)

lemma cache_row_planes:
  assumes "geom_ok bits dim" "wf_cache t bits dim n c" "is_planes c" "v < n"
  shows "cache_row t bits (dim div codes_per_byte bits) c v = planes_row t bits (dim div 8) (bc_data c) (bc_low c) v"
proof -
  have p: "planes_for t bits (dim div codes_per_byte bits)" and l: "length (bc_low c) = n * ((bits - 1) * (dim div 8))"
    using assms(2,3) by (auto simp: wf_cache_def Let_def)
  note g = planes_geometry [OF assms(1) p]
  have "Suc v * ((bits - 1) * (dim div 8)) \<le> length (bc_low c)" unfolding l using assms(4) by (intro mult_le_mono1) simp
  then show ?thesis
    using planes_read_row_join [OF p, of v "bc_low c" "bc_data c"] assms(3) g(3) by (simp add: cache_row_def planes_row_def)
qed

lemma wf_classicI:
  assumes "bc_n_blocks c = nblk n" "bc_low c = []" "region t bits (dim div codes_per_byte bits) n (bc_data c)"
  shows "wf_cache t bits dim n c"
  using assms by (simp add: wf_cache_def is_planes_def)

lemma wf_planesI:
  assumes "bc_n_blocks c = nblk n" "planes_for t bits (dim div codes_per_byte bits)" "region t 2 (dim div 8) n (bc_data c)"
    and "length (bc_low c) = n * ((bits - 1) * (dim div 8))" "0 < n" "geom_ok bits dim"
  shows "wf_cache t bits dim n c \<and> is_planes c"
proof -
  have "0 < (bits - 1) * (dim div 8)" using geom_okD(1,4) [OF assms(6)] by auto
  then have "0 < length (bc_low c)" using assms(4,5) by simp
  then have "is_planes c" by (auto simp: is_planes_def)
  then show ?thesis using assms(1-4) by (simp add: wf_cache_def)
qed

lemma classic_low: "\<not> is_planes c \<longleftrightarrow> bc_low c = []"
  by (simp add: is_planes_def)

section \<open>Building\<close>

lemma wanted_pos: "planes_wanted t bits nbg n \<Longrightarrow> 0 < n \<and> planes_for t bits nbg"
  by (simp add: planes_wanted_def)

lemma rows_slice:
  assumes "bits \<in> {2, 3, 4}" "dim mod 8 = 0" "v < n"
  shows "take (dim div codes_per_byte bits) (drop (v * (dim div codes_per_byte bits)) (extract_codes_flat packed n bits dim))
    = extract_row packed (v * (bits * (dim div 8))) bits dim"
  by (rule extract_flat_row [OF assms])

theorem cache_build_rows:
  assumes g: "geom_ok bits dim" and len: "length packed = n * (bits * (dim div 8))"
  shows "wf_cache t bits dim n (cache_build t packed n bits dim)"
    and "v < n \<Longrightarrow> cache_row t bits (dim div codes_per_byte bits) (cache_build t packed n bits dim) v
      = extract_row packed (v * (bits * (dim div 8))) bits dim"
proof -
  let ?c = "cache_build t packed n bits dim" and ?nbg = "dim div codes_per_byte bits" and ?nsg = "dim div 8"
  note gd = geom_okD [OF g]
  have "wf_cache t bits dim n ?c \<and> (v < n \<longrightarrow> cache_row t bits ?nbg ?c v = extract_row packed (v * (bits * ?nsg)) bits dim)" for v
  proof (cases "planes_wanted t bits ?nbg n")
    case True
    then have n: "0 < n" and p: "planes_for t bits ?nbg" using wanted_pos by blast+
    note b = planes_geometry(1) [OF g p]
    obtain sr lr where rows: "planes_rows packed n bits dim = (sr, lr)" by force
    note rj = planes_rows_join [OF b gd(2) len rows]
    have c: "?c = \<lparr>bc_data = pack_blocked_native t n (nblk n) 2 ?nsg sr, bc_low = lr, bc_n_blocks = nblk n\<rparr>"
      using True by (simp add: cache_build_def planes_repack_rows [OF b gd(2)] rows)
    have "wf_cache t bits dim n ?c \<and> is_planes ?c"
      unfolding c by (rule wf_planesI [OF _ p _ _ n g]) (simp_all only: cache.simps rj(2) region_pack(1) [OF rj(1)])
    then have w: "wf_cache t bits dim n ?c" "is_planes ?c" by blast+
    moreover have "cache_row t bits ?nbg ?c v = extract_row packed (v * (bits * ?nsg)) bits dim" if v: "v < n"
      unfolding cache_row_planes [OF g w v]
      using planes_built_row [OF rows b gd(2) len v, of "nblk n" t] block_count [OF v] by (simp add: c)
    ultimately show ?thesis by blast
  next
    case False
    let ?flat = "extract_codes_flat packed n bits dim"
    have c: "?c = \<lparr>bc_data = pack_blocked_native t n (nblk n) bits ?nbg ?flat, bc_low = [], bc_n_blocks = nblk n\<rparr>"
      using False by (simp add: cache_build_def repack_def blocked_geometry_def Let_def)
    have fl: "length ?flat = n * ?nbg" by (rule length_extract_codes_flat [OF gd(1,2)])
    have "cache_row t bits ?nbg ?c v = extract_row packed (v * (bits * ?nsg)) bits dim" if v: "v < n"
      using region_pack(2) [OF fl v, of t bits] rows_slice [OF gd(1,2) v, of packed] by (simp add: c cache_row_classic is_planes_def)
    moreover have "wf_cache t bits dim n ?c" unfolding c by (rule wf_classicI) (simp_all only: cache.simps region_pack(1) [OF fl])
    ultimately show ?thesis by blast
  qed
  then show "wf_cache t bits dim n ?c"
    and "v < n \<Longrightarrow> cache_row t bits ?nbg ?c v = extract_row packed (v * (bits * ?nsg)) bits dim" by blast+
qed

section \<open>Promotion to planes, and back to the stored blocks\<close>

lemma promote_rows:
  assumes g: "geom_ok bits dim" and c: "\<not> is_planes c" "region t bits (dim div codes_per_byte bits) n (bc_data c)"
  defines "c' \<equiv> (promote_if_due t n bits (dim div codes_per_byte bits) c)\<lparr>bc_n_blocks := nblk n\<rparr>"
  shows "wf_cache t bits dim n c'"
    and "v < n \<Longrightarrow> cache_row t bits (dim div codes_per_byte bits) c' v = read_row t bits (dim div codes_per_byte bits) (bc_data c) v"
    and "is_planes c' \<longleftrightarrow> planes_wanted t bits (dim div codes_per_byte bits) n"
proof -
  let ?nbg = "dim div codes_per_byte bits" and ?nsg = "dim div 8"
  have "wf_cache t bits dim n c' \<and> (v < n \<longrightarrow> cache_row t bits ?nbg c' v = read_row t bits ?nbg (bc_data c) v)
      \<and> (is_planes c' \<longleftrightarrow> planes_wanted t bits ?nbg n)" for v
  proof (cases "planes_wanted t bits ?nbg n")
    case True
    then have n: "0 < n" and p: "planes_for t bits ?nbg" using wanted_pos by blast+
    let ?seq = "native_to_seq t (bc_data c) bits ?nbg"
    obtain sign low where r: "planes_from_seq_owned t ?seq bits ?nbg n = (sign, low)" by force
    note pg = planes_geometry [OF g p]
    have ld: "length (bc_data c) = nblk n * ?nbg * BLOCK" by (rule region_lengthD [OF c(2)])
    have ls: "length ?seq = nblk n * (?nbg * BLOCK)" using ld by (simp add: mult.assoc)
    note o = planes_owned_rows [OF p ls r, unfolded pg(3)]
    have c': "c' = c\<lparr>bc_data := sign, bc_low := low, bc_n_blocks := nblk n\<rparr>"
      using True c(1) r by (simp add: c'_def promote_if_due_def)
    have "region t 2 ?nsg n sign"
    proof (rule regionI)
      show "length sign = nblk n * ?nsg * BLOCK" using o(1) by (simp only: mult.assoc)
      show "read_row t 2 ?nsg sign v = replicate ?nsg 0" if "n \<le> v" "v < nblk n * BLOCK" for v
        using o(4) [of v] that by (simp add: in_block sign_row_def)
    qed
    then have "wf_cache t bits dim n c' \<and> is_planes c'"
      unfolding c' by (intro wf_planesI [OF _ p _ _ n g]) (simp_all add: o(2))
    then have w: "wf_cache t bits dim n c'" "is_planes c'" by blast+
    moreover have "cache_row t bits ?nbg c' v = read_row t bits ?nbg (bc_data c) v" if v: "v < n"
      unfolding cache_row_planes [OF g w v]
      using o(3) [OF v] stored_row_native [OF ld, of v t bits] v nblk_bound [of n] by (simp add: c')
    ultimately show ?thesis using True by blast
  next
    case False
    then have c': "c' = c\<lparr>bc_n_blocks := nblk n\<rparr>" by (simp add: c'_def promote_if_due_def)
    have "wf_cache t bits dim n c'" unfolding c' by (rule wf_classicI) (use c in \<open>simp_all add: classic_low\<close>)
    moreover have "cache_row t bits ?nbg c' v = read_row t bits ?nbg (bc_data c) v"
      using c(1) by (simp add: c' cache_row_def is_planes_def read_row_def)
    moreover have "\<not> is_planes c'" using c(1) by (simp add: c' is_planes_def)
    ultimately show ?thesis using False by blast
  qed
  then show "wf_cache t bits dim n c'"
    and "v < n \<Longrightarrow> cache_row t bits ?nbg c' v = read_row t bits ?nbg (bc_data c) v"
    and "is_planes c' \<longleftrightarrow> planes_wanted t bits ?nbg n" by blast+
qed

theorem cache_to_seq_rows:
  assumes g: "geom_ok bits dim" and c: "wf_cache t bits dim n c" and v: "v < nblk n * BLOCK"
  shows "stored_row (cache_to_seq t n bits (dim div codes_per_byte bits) c) (dim div codes_per_byte bits) v
    = (if v < n then cache_row t bits (dim div codes_per_byte bits) c v else replicate (dim div codes_per_byte bits) 0)"
proof (cases "is_planes c")
  case True
  then have p: "planes_for t bits (dim div codes_per_byte bits)" and r: "region t 2 (dim div 8) n (bc_data c)"
    and l: "length (bc_low c) = n * ((bits - 1) * (dim div 8))"
    using c by (auto simp: wf_cache_def Let_def)
  note pg = planes_geometry [OF g p]
  have "length (bc_data c) = nblk n * (dim div 8 * BLOCK)" using region_lengthD [OF r] by (simp only: mult.assoc)
  then show ?thesis
    using planes_seq_rows [OF p, of "bc_low c" n "bc_data c" v] l v cache_row_planes [OF g c True, of v] True
    by (simp add: cache_to_seq_def pg(3) in_block)
next
  case False
  then have r: "region t bits (dim div codes_per_byte bits) n (bc_data c)" using c by (simp add: wf_cache_def Let_def)
  show ?thesis
    using stored_row_native [OF region_lengthD [OF r] v, of t bits] region_padding [OF r _ v] False
    by (simp add: cache_to_seq_def cache_row_classic)
qed

section \<open>Appending\<close>

lemma append_lanes_region:
  assumes g: "geom_ok bits dim" and old: "region t bits (dim div codes_per_byte bits) old_n data"
    and len: "length flat = n * (dim div codes_per_byte bits)"
  shows "region t bits (dim div codes_per_byte bits) (old_n + n) (append_lanes t data flat old_n n bits dim)"
    and "v < old_n + n \<Longrightarrow> read_row t bits (dim div codes_per_byte bits) (append_lanes t data flat old_n n bits dim) v
      = (if v < old_n then read_row t bits (dim div codes_per_byte bits) data v
         else take (dim div codes_per_byte bits) (drop ((v - old_n) * (dim div codes_per_byte bits)) flat))"
proof -
  let ?nbg = "dim div codes_per_byte bits"
  have e: "append_lanes t data flat old_n n bits dim = foldl (\<lambda>bl i. write_row t bits ?nbg bl (old_n + i) (take ?nbg (drop (i * ?nbg) flat)))
      (resize_bytes data (nblk (old_n + n) * ?nbg * BLOCK)) [0..<n]"
    by (simp add: append_lanes_def blocked_geometry_def Let_def)
  have row: "length (take ?nbg (drop (i * ?nbg) flat)) = ?nbg" if "i < n" for i
    using mult_le_mono1 [of "Suc i" n ?nbg] that len by simp
  show "region t bits ?nbg (old_n + n) (append_lanes t data flat old_n n bits dim)"
    unfolding e by (rule region_append(1) [OF old row])
  show "read_row t bits ?nbg (append_lanes t data flat old_n n bits dim) v
      = (if v < old_n then read_row t bits ?nbg data v else take ?nbg (drop ((v - old_n) * ?nbg) flat))" if "v < old_n + n"
    unfolding e by (rule region_append(2) [OF old row that])
qed

lemma planes_append_region:
  assumes g: "geom_ok bits dim" and b: "bits = 2 \<or> bits = 4" and old: "region t 2 (dim div 8) old_n sign"
    and low: "length low = old_n * ((bits - 1) * (dim div 8))" and len: "length packed_rows = n * (bits * (dim div 8))"
    and ap: "planes_append_lanes t sign low packed_rows old_n n bits dim = (sign', low')"
  shows "region t 2 (dim div 8) (old_n + n) sign'" "length low' = (old_n + n) * ((bits - 1) * (dim div 8))"
    and "v < old_n + n \<Longrightarrow> planes_row t bits (dim div 8) sign' low' v
      = (if v < old_n then planes_row t bits (dim div 8) sign low v
         else extract_row packed_rows ((v - old_n) * (bits * (dim div 8))) bits dim)"
proof -
  let ?nsg = "dim div 8"
  obtain sr lr where rows: "planes_rows packed_rows n bits dim = (sr, lr)" by force
  note d = geom_okD(2) [OF g]
  note rj = planes_rows_join [OF b d len rows]
  have dd: "dim div 4 div 2 = ?nsg" by (simp add: div_mult2_eq [symmetric])
  have "(if bits = 2 then planes_split_rows (extract_codes_flat packed_rows n 2 dim) (dim div 4)
      else planes_rows_from_packed packed_rows n bits dim) = (sr, lr)"
    using rows by (cases "bits = 2") (simp_all add: planes_rows_def)
  then have s: "sign' = foldl (\<lambda>sg i. write_row t 2 ?nsg sg (old_n + i) (take ?nsg (drop (i * ?nsg) sr)))
      (resize_bytes sign (nblk (old_n + n) * ?nsg * BLOCK)) [0..<n]"
    using ap unfolding planes_append_lanes_def Let_def dd by auto
  have row: "length (take ?nsg (drop (i * ?nsg) sr)) = ?nsg" if "i < n" for i
    using mult_le_mono1 [of "Suc i" n ?nsg] that rj(1) by simp
  show "region t 2 ?nsg (old_n + n) sign'" unfolding s by (rule region_append(1) [OF old row])
  note pa = planes_append_row [OF rows ap b d refl len region_lengthD [OF old] low]
  show "planes_row t bits ?nsg sign' low' v = (if v < old_n then planes_row t bits ?nsg sign low v
         else extract_row packed_rows ((v - old_n) * (bits * ?nsg)) bits dim)" if "v < old_n + n"
    by (rule pa(1) [OF that])
  show "length low' = (old_n + n) * ((bits - 1) * ?nsg)"
    using ap low rj(2) rows unfolding planes_append_lanes_def Let_def dd
    by (auto simp: planes_rows_def add_mult_distrib split: if_splits)
qed

theorem cache_append_rows:
  assumes g: "geom_ok bits dim" and c: "wf_cache t bits dim old_n c" and n: "0 < old_n"
    and len: "length packed_rows = n * (bits * (dim div 8))"
  shows "wf_cache t bits dim (old_n + n) (cache_append t packed_rows old_n n bits dim c)"
    and "v < old_n + n \<Longrightarrow> cache_row t bits (dim div codes_per_byte bits) (cache_append t packed_rows old_n n bits dim c) v
      = (if v < old_n then cache_row t bits (dim div codes_per_byte bits) c v
         else extract_row packed_rows ((v - old_n) * (bits * (dim div 8))) bits dim)"
    and "is_planes (cache_append t packed_rows old_n n bits dim c)
      \<longleftrightarrow> is_planes c \<or> planes_wanted t bits (dim div codes_per_byte bits) (old_n + n)"
proof -
  let ?nbg = "dim div codes_per_byte bits" and ?nsg = "dim div 8" and ?c' = "cache_append t packed_rows old_n n bits dim c"
  note gd = geom_okD [OF g]
  have "wf_cache t bits dim (old_n + n) ?c' \<and> (v < old_n + n \<longrightarrow> cache_row t bits ?nbg ?c' v
      = (if v < old_n then cache_row t bits ?nbg c v else extract_row packed_rows ((v - old_n) * (bits * ?nsg)) bits dim))
      \<and> (is_planes ?c' \<longleftrightarrow> is_planes c \<or> planes_wanted t bits ?nbg (old_n + n))" for v
  proof (cases "is_planes c")
    case True
    then have p: "planes_for t bits ?nbg" and r: "region t 2 ?nsg old_n (bc_data c)"
      and l: "length (bc_low c) = old_n * ((bits - 1) * ?nsg)"
      using c by (auto simp: wf_cache_def Let_def)
    obtain sign' low' where ap: "planes_append_lanes t (bc_data c) (bc_low c) packed_rows old_n n bits dim = (sign', low')" by force
    note pa = planes_append_region [OF g planes_geometry(1) [OF g p] r l len ap]
    have c': "?c' = c\<lparr>bc_data := sign', bc_low := low', bc_n_blocks := nblk (old_n + n)\<rparr>"
      using True ap by (simp add: cache_append_def blocked_geometry_def Let_def)
    have "wf_cache t bits dim (old_n + n) ?c' \<and> is_planes ?c'"
      unfolding c' by (rule wf_planesI [OF _ p _ _ _ g]) (use n pa(1,2) in simp_all)
    then have w: "wf_cache t bits dim (old_n + n) ?c'" "is_planes ?c'" by blast+
    have "cache_row t bits ?nbg ?c' v = (if v < old_n then cache_row t bits ?nbg c v
        else extract_row packed_rows ((v - old_n) * (bits * ?nsg)) bits dim)" if v: "v < old_n + n"
      unfolding cache_row_planes [OF g w v] using pa(3) [OF v] cache_row_planes [OF g c True, of v] by (simp add: c')
    then show ?thesis using w True by blast
  next
    case False
    then have r: "region t bits ?nbg old_n (bc_data c)" using c by (simp add: wf_cache_def Let_def)
    let ?flat = "extract_codes_flat packed_rows n bits dim"
    have fl: "length ?flat = n * ?nbg" by (rule length_extract_codes_flat [OF gd(1,2)])
    note ar = append_lanes_region [OF g r fl]
    let ?c1 = "c\<lparr>bc_data := append_lanes t (bc_data c) ?flat old_n n bits dim\<rparr>"
    have c': "?c' = (promote_if_due t (old_n + n) bits ?nbg ?c1)\<lparr>bc_n_blocks := nblk (old_n + n)\<rparr>"
      using False by (simp add: cache_append_def blocked_geometry_def Let_def)
    have np: "\<not> is_planes ?c1" using False by (simp add: is_planes_def)
    have rg: "region t bits ?nbg (old_n + n) (bc_data ?c1)" using ar(1) by simp
    note pr = promote_rows [OF g np rg, folded c']
    have "cache_row t bits ?nbg ?c' v = (if v < old_n then cache_row t bits ?nbg c v
        else extract_row packed_rows ((v - old_n) * (bits * ?nsg)) bits dim)" if v: "v < old_n + n"
      using pr(2) [OF v] ar(2) [OF v] rows_slice [OF gd(1,2), of "v - old_n" n packed_rows] v False
      by (simp add: cache_row_classic)
    then show ?thesis using pr(1,3) False by blast
  qed
  then show "wf_cache t bits dim (old_n + n) ?c'" and "v < old_n + n \<Longrightarrow> cache_row t bits ?nbg ?c' v
      = (if v < old_n then cache_row t bits ?nbg c v else extract_row packed_rows ((v - old_n) * (bits * ?nsg)) bits dim)"
    and "is_planes ?c' \<longleftrightarrow> is_planes c \<or> planes_wanted t bits ?nbg (old_n + n)"
    by blast+
qed

section \<open>Rebuilding the tail\<close>

lemma sub_packed_row:
  assumes "f \<le> v" "v < n'" and len: "length packed = n' * (bits * (dim div 8))"
  shows "extract_row (drop (f * (bits * (dim div 8))) packed) ((v - f) * (bits * (dim div 8))) bits dim
    = extract_row packed (v * (bits * (dim div 8))) bits dim"
proof (rule extract_row_cong)
  let ?row = "bits * (dim div 8)"
  fix i
  assume "i < ?row"
  have "f * ?row \<le> length packed" unfolding len using assms by (intro mult_le_mono1) simp
  moreover have "f * ?row + (v - f) * ?row = v * ?row" using assms(1) by (metis add_mult_distrib le_add_diff_inverse)
  ultimately show "drop (f * ?row) packed ! ((v - f) * ?row + i) = packed ! (v * ?row + i)"
    by (simp add: add.assoc [symmetric])
qed

lemma patch_slice:
  assumes "f \<le> n'" and "length packed = n' * row"
  shows "take (n' * row - f * row) (drop (f * row) packed) = drop (f * row) packed"
    and "length (drop (f * row) packed) = (n' - f) * row" and "min (nblk n' * BLOCK) n' = n'"
  using assms nblk_bound [of n'] by (simp, simp add: diff_mult_distrib, intro min_absorb2)

text \<open>The regions of a planes cache after the tail is replaced.\<close>

lemma planes_patch_rows:
  assumes rows: "planes_rows sub (n' - f * BLOCK) bits dim = (sr, lr)" and b: "bits = 2 \<or> bits = 4" "dim mod 8 = 0"
    and sub: "length sub = (n' - f * BLOCK) * (bits * (dim div 8))"
    and r: "region t 2 (dim div 8) n sign" and l: "length low = n * ((bits - 1) * (dim div 8))"
    and f: "f * BLOCK \<le> n" "n \<le> n'"
  defines "sign' \<equiv> take (f * (dim div 8) * BLOCK) sign @ pack_blocked_native t (n' - f * BLOCK) (nblk n' - f) 2 (dim div 8) sr"
    and "low' \<equiv> take (f * BLOCK * ((bits - 1) * (dim div 8))) low @ lr"
  shows "region t 2 (dim div 8) n' sign'" "length low' = n' * ((bits - 1) * (dim div 8))"
    and "v < n' \<Longrightarrow> planes_row t bits (dim div 8) sign' low' v
      = (if v < f * BLOCK then planes_row t bits (dim div 8) sign low v
         else extract_row sub ((v - f * BLOCK) * (bits * (dim div 8))) bits dim)"
proof -
  let ?nsg = "dim div 8" and ?k = "(bits - 1) * (dim div 8)"
  note rj = planes_rows_join [OF b sub rows]
  note rp = region_patch [OF r f rj(1), folded sign'_def]
  show "region t 2 ?nsg n' sign'" by (rule rp(1))
  have ll: "length (take (f * BLOCK * ?k) low) = f * BLOCK * ?k" using mult_le_mono1 [OF f(1), of ?k] l by simp
  have "f * BLOCK \<le> n'" using f by (rule le_trans)
  then show "length low' = n' * ?k"
    unfolding low'_def length_append ll rj(2) by (simp only: add_mult_distrib [symmetric] le_add_diff_inverse)
  show "planes_row t bits ?nsg sign' low' v = (if v < f * BLOCK then planes_row t bits ?nsg sign low v
      else extract_row sub ((v - f * BLOCK) * (bits * ?nsg)) bits dim)" if v: "v < n'"
  proof (cases "v < f * BLOCK")
    case True
    have "Suc v * ?k \<le> f * BLOCK * ?k" using True by (intro mult_le_mono1) simp
    then have "v * ?k + ?k \<le> f * BLOCK * ?k" by (simp only: mult_Suc add.commute)
    moreover have "f * BLOCK * ?k \<le> length low" unfolding l using f(1) by (rule mult_le_mono1)
    ultimately have "low_of ?k low' v = low_of ?k low v" unfolding low_of_def low'_def by (rule slice_prefix)
    then show ?thesis using rp(2) [OF v] True by (simp add: planes_row_def sign_row_def)
  next
    case False
    have "f * BLOCK * ?k \<le> v * ?k" using False by (intro mult_le_mono1) simp
    then have "drop (v * ?k) (take (f * BLOCK * ?k) low) = []" by (intro drop_all) (simp only: ll)
    then have "drop (v * ?k) low' = drop ((v - f * BLOCK) * ?k) lr"
      unfolding low'_def drop_append ll diff_mult_distrib [symmetric] by simp
    then have "low_of ?k low' v = low_of ?k lr (v - f * BLOCK)" by (simp add: low_of_def)
    then show ?thesis using rp(2) [OF v] False rj(3) [of "v - f * BLOCK"] v by (simp add: planes_row_def sign_row_def)
  qed
qed

lemma cache_patch_planes:
  assumes g: "geom_ok bits dim" and c: "wf_cache t bits dim old_n c" and n: "old_n < new_n" and pl: "is_planes c"
    and len: "length packed = new_n * (bits * (dim div 8))"
    and old: "\<And>v. v < old_n \<Longrightarrow> cache_row t bits (dim div codes_per_byte bits) c v = extract_row packed (v * (bits * (dim div 8))) bits dim"
  shows "wf_cache t bits dim new_n (cache_patch t packed old_n new_n bits dim c) \<and>
    (v < new_n \<longrightarrow> cache_row t bits (dim div codes_per_byte bits) (cache_patch t packed old_n new_n bits dim c) v
      = extract_row packed (v * (bits * (dim div 8))) bits dim) \<and>
    (is_planes (cache_patch t packed old_n new_n bits dim c)
      \<longleftrightarrow> is_planes c \<or> planes_wanted t bits (dim div codes_per_byte bits) new_n)"
proof -
  let ?nbg = "dim div codes_per_byte bits" and ?nsg = "dim div 8" and ?c' = "cache_patch t packed old_n new_n bits dim c"
  let ?row = "bits * (dim div 8)" and ?fb = "old_n div BLOCK"
  let ?sub = "drop (?fb * BLOCK * ?row) packed" and ?nr = "new_n - ?fb * BLOCK"
  have fb: "?fb * BLOCK \<le> old_n" "?fb * BLOCK \<le> new_n" "old_n \<le> new_n" using n div_mult_mod_eq [of old_n BLOCK] by linarith+
  note ps = patch_slice [OF fb(2) len]
  have p: "planes_for t bits ?nbg" and r: "region t 2 ?nsg old_n (bc_data c)"
    and l: "length (bc_low c) = old_n * ((bits - 1) * ?nsg)"
    using c pl by (auto simp: wf_cache_def Let_def)
  note pg = planes_geometry [OF g p]
  obtain sr lr where rows: "planes_rows ?sub ?nr bits dim = (sr, lr)" by force
  note pr = planes_patch_rows [OF rows pg(1) geom_okD(2) [OF g] ps(2) r l fb(1,3)]
  let ?sign = "take (?fb * ?nsg * BLOCK) (bc_data c) @ pack_blocked_native t ?nr (nblk new_n - ?fb) 2 ?nsg sr"
  let ?low = "take (?fb * BLOCK * ((bits - 1) * ?nsg)) (bc_low c) @ lr"
  have pb: "planes_repack_block_range t packed new_n bits dim ?fb (nblk new_n)
      = (pack_blocked_native t ?nr (nblk new_n - ?fb) 2 ?nsg sr, lr)"
    unfolding planes_range_rows [OF pg(1)] Let_def ps(1,3) rows prod.case ..
  have c': "?c' = c\<lparr>bc_data := ?sign, bc_low := ?low, bc_n_blocks := nblk new_n\<rparr>"
    unfolding cache_patch_def blocked_geometry_def planes_geom_def Let_def prod.case pg(3) if_P [OF pl] pb mult.assoc by simp
  have "wf_cache t bits dim new_n ?c' \<and> is_planes ?c'"
    unfolding c' by (rule wf_planesI [OF _ p _ _ _ g]) (use n pr(1,2) in simp_all)
  then have w: "wf_cache t bits dim new_n ?c'" "is_planes ?c'" by blast+
  have "cache_row t bits ?nbg ?c' v = extract_row packed (v * ?row) bits dim" if v: "v < new_n"
  proof -
    have "cache_row t bits ?nbg ?c' v = planes_row t bits ?nsg ?sign ?low v" using cache_row_planes [OF g w v] by (simp add: c')
    also have "\<dots> = extract_row packed (v * ?row) bits dim"
      using pr(3) [OF v] cache_row_planes [OF g c pl, of v] old [of v] sub_packed_row [OF _ v len, of "?fb * BLOCK"] fb(1) by auto
    finally show ?thesis .
  qed
  then show ?thesis using w pl by blast
qed

lemma cache_patch_classic:
  assumes g: "geom_ok bits dim" and c: "wf_cache t bits dim old_n c" and n: "old_n < new_n" and pl: "\<not> is_planes c"
    and len: "length packed = new_n * (bits * (dim div 8))"
    and old: "\<And>v. v < old_n \<Longrightarrow> cache_row t bits (dim div codes_per_byte bits) c v = extract_row packed (v * (bits * (dim div 8))) bits dim"
  shows "wf_cache t bits dim new_n (cache_patch t packed old_n new_n bits dim c) \<and>
    (v < new_n \<longrightarrow> cache_row t bits (dim div codes_per_byte bits) (cache_patch t packed old_n new_n bits dim c) v
      = extract_row packed (v * (bits * (dim div 8))) bits dim) \<and>
    (is_planes (cache_patch t packed old_n new_n bits dim c)
      \<longleftrightarrow> is_planes c \<or> planes_wanted t bits (dim div codes_per_byte bits) new_n)"
proof -
  let ?nbg = "dim div codes_per_byte bits" and ?c' = "cache_patch t packed old_n new_n bits dim c"
  let ?row = "bits * (dim div 8)" and ?fb = "old_n div BLOCK"
  let ?sub = "drop (?fb * BLOCK * ?row) packed" and ?nr = "new_n - ?fb * BLOCK"
  note gd = geom_okD [OF g]
  have fb: "?fb * BLOCK \<le> old_n" "?fb * BLOCK \<le> new_n" "old_n \<le> new_n" using n div_mult_mod_eq [of old_n BLOCK] by linarith+
  note ps = patch_slice [OF fb(2) len]
  have r: "region t bits ?nbg old_n (bc_data c)" using c pl by (simp add: wf_cache_def Let_def)
  let ?flat = "extract_codes_flat ?sub ?nr bits dim"
  have fl: "length ?flat = ?nr * ?nbg" by (rule length_extract_codes_flat [OF gd(1,2)])
  let ?data = "take (?fb * ?nbg * BLOCK) (bc_data c) @ pack_blocked_native t ?nr (nblk new_n - ?fb) bits ?nbg ?flat"
  note rp = region_patch [OF r fb(1,3) fl]
  have rb: "repack_block_range t packed new_n bits dim ?fb (nblk new_n) = pack_blocked_native t ?nr (nblk new_n - ?fb) bits ?nbg ?flat"
    unfolding repack_block_range_def Let_def ps(3) ps(1) ..
  have c': "?c' = (promote_if_due t new_n bits ?nbg (c\<lparr>bc_data := ?data\<rparr>))\<lparr>bc_n_blocks := nblk new_n\<rparr>"
    unfolding cache_patch_def blocked_geometry_def planes_geom_def Let_def prod.case if_not_P [OF pl] rb mult.assoc ..
  have np: "\<not> is_planes (c\<lparr>bc_data := ?data\<rparr>)" using pl by (simp add: is_planes_def)
  have rg: "region t bits ?nbg new_n (bc_data (c\<lparr>bc_data := ?data\<rparr>))" using rp(1) by simp
  note pr = promote_rows [OF g np rg, folded c']
  have "cache_row t bits ?nbg ?c' v = extract_row packed (v * ?row) bits dim" if v: "v < new_n"
  proof -
    have "cache_row t bits ?nbg ?c' v = read_row t bits ?nbg ?data v" using pr(2) [OF v] by simp
    also have "\<dots> = extract_row packed (v * ?row) bits dim"
    proof (cases "v < ?fb * BLOCK")
      case True
      then show ?thesis using rp(2) [OF v] old [of v] fb(1) cache_row_classic [OF pl, of t bits ?nbg v] by simp
    next
      case False
      have s: "v - ?fb * BLOCK < ?nr" and le: "?fb * BLOCK \<le> v" using False v by simp_all
      show ?thesis
        unfolding rp(2) [OF v] if_not_P [OF False] rows_slice [OF gd(1,2) s] by (rule sub_packed_row [OF le v len])
    qed
    finally show ?thesis .
  qed
  then show ?thesis using pr(1,3) pl by blast
qed

theorem cache_patch_rows:
  assumes "geom_ok bits dim" and "wf_cache t bits dim old_n c" and "old_n < new_n"
    and "length packed = new_n * (bits * (dim div 8))"
    and "\<And>v. v < old_n \<Longrightarrow> cache_row t bits (dim div codes_per_byte bits) c v = extract_row packed (v * (bits * (dim div 8))) bits dim"
  shows "wf_cache t bits dim new_n (cache_patch t packed old_n new_n bits dim c)"
    and "v < new_n \<Longrightarrow> cache_row t bits (dim div codes_per_byte bits) (cache_patch t packed old_n new_n bits dim c) v
      = extract_row packed (v * (bits * (dim div 8))) bits dim"
    and "is_planes (cache_patch t packed old_n new_n bits dim c)
      \<longleftrightarrow> is_planes c \<or> planes_wanted t bits (dim div codes_per_byte bits) new_n"
  using cache_patch_planes [OF assms(1-3) _ assms(4,5)] cache_patch_classic [OF assms(1-3) _ assms(4,5)] by blast+

section \<open>Removing\<close>

lemma planes_remove_rows:
  assumes r: "region t 2 nsg n sign" and l: "length low = n * ((bits - 1) * nsg)" and n: "lst = n - 1" "idx < n"
  defines "mv \<equiv> (if idx = lst then (sign, low) else planes_move t sign low bits (bits * nsg) lst idx)"
  defines "sign' \<equiv> take (nblk lst * nsg * BLOCK) (zero_lane t (fst mv) 2 nsg lst)"
    and "low' \<equiv> take (lst * ((bits - 1) * nsg)) (snd mv)"
  assumes b: "0 < bits"
  shows "region t 2 nsg lst sign'" "length low' = lst * ((bits - 1) * nsg)"
    and "v < lst \<Longrightarrow> planes_row t bits nsg sign' low' v = planes_row t bits nsg sign low (if v = idx then lst else v)"
proof -
  let ?k = "(bits - 1) * nsg"
  have g: "planes_geom bits (bits * nsg) = (nsg, ?k)" using b by (simp add: planes_geom_def)
  have s: "sign' = region_remove t 2 nsg lst idx sign"
    by (simp add: sign'_def mv_def region_remove_def planes_move_def g)
  have p: "low' = packed_swap_remove ?k idx lst low"
    by (simp add: low'_def mv_def packed_swap_remove_def planes_move_def g)
  note rr = region_remove [OF r n] and pr = packed_remove [OF l n]
  show "region t 2 nsg lst sign'" "length low' = lst * ?k" by (simp_all only: s p rr(1) pr(1))
  show "planes_row t bits nsg sign' low' v = planes_row t bits nsg sign low (if v = idx then lst else v)" if "v < lst"
    using rr(2) [OF that] pr(2) [OF that] by (simp add: planes_row_def sign_row_def s p packed_row_low_of)
qed

text \<open>The bytes the move reports are the moved row.\<close>

theorem cache_remove_rows:
  assumes g: "geom_ok bits dim" and c: "wf_cache t bits dim n c" and n: "idx < n"
    and r: "cache_swap_remove t bits dim idx (n - 1) c = (c', out)"
  shows "wf_cache t bits dim (n - 1) c'"
    and "v < n - 1 \<Longrightarrow> cache_row t bits (dim div codes_per_byte bits) c' v
      = cache_row t bits (dim div codes_per_byte bits) c (if v = idx then n - 1 else v)"
    and "idx \<noteq> n - 1 \<Longrightarrow> out = cache_row t bits (dim div codes_per_byte bits) c (n - 1)"
proof -
  let ?nbg = "dim div codes_per_byte bits" and ?nsg = "dim div 8" and ?lst = "n - 1"
  have bg: "blocked_geometry ?lst bits dim = (nblk ?lst, ?nbg, nblk ?lst * ?nbg * BLOCK)" by (simp add: blocked_geometry_def Let_def)
  have "wf_cache t bits dim ?lst c' \<and> (v < ?lst \<longrightarrow> cache_row t bits ?nbg c' v = cache_row t bits ?nbg c (if v = idx then ?lst else v))
      \<and> (idx \<noteq> ?lst \<longrightarrow> out = cache_row t bits ?nbg c ?lst)" for v
  proof (cases "is_planes c")
    case True
    then have p: "planes_for t bits ?nbg" and rg: "region t 2 ?nsg n (bc_data c)" and l: "length (bc_low c) = n * ((bits - 1) * ?nsg)"
      using c by (auto simp: wf_cache_def Let_def)
    note pg = planes_geometry [OF g p]
    have b: "0 < bits" using pg(1) by auto
    let ?mv = "if idx = ?lst then (bc_data c, bc_low c) else planes_move t (bc_data c) (bc_low c) bits (bits * ?nsg) ?lst idx"
    note pr = planes_remove_rows [OF rg l refl n b]
    have geo: "planes_geom bits (bits * ?nsg) = (?nsg, (bits - 1) * ?nsg)" using b by (simp add: planes_geom_def Let_def)
    have c': "c' = c\<lparr>bc_data := take (nblk ?lst * ?nsg * BLOCK) (zero_lane t (fst ?mv) 2 ?nsg ?lst),
          bc_low := take (?lst * ((bits - 1) * ?nsg)) (snd ?mv), bc_n_blocks := nblk ?lst\<rparr>"
      and out: "idx \<noteq> ?lst \<longrightarrow> out = cache_row t bits ?nbg c ?lst"
      using r True unfolding cache_swap_remove_def bg Let_def prod.case pg(2) geo
      by (auto simp: cache_row_def geo split: prod.splits if_splits)
    have ld: "bc_data c' = take (nblk ?lst * ?nsg * BLOCK) (zero_lane t (fst ?mv) 2 ?nsg ?lst)"
      "bc_low c' = take (?lst * ((bits - 1) * ?nsg)) (snd ?mv)" "bc_n_blocks c' = nblk ?lst" by (simp_all only: c' cache_fields)
    show ?thesis
    proof (cases "?lst = 0")
      case z: True
      have "wf_cache t bits dim ?lst c'"
        by (rule wf_classicI) (use ld z in \<open>simp_all add: region_def\<close>)
      then show ?thesis using out z by simp
    next
      case nz: False
      have "wf_cache t bits dim ?lst c' \<and> is_planes c'"
      proof (rule wf_planesI [OF ld(3) p _ _ _ g])
        show "region t 2 ?nsg ?lst (bc_data c')" unfolding ld by (rule pr(1))
        show "length (bc_low c') = ?lst * ((bits - 1) * ?nsg)" unfolding ld by (rule pr(2))
        show "0 < ?lst" using nz by simp
      qed
      then have w: "wf_cache t bits dim ?lst c'" "is_planes c'" by blast+
      have "cache_row t bits ?nbg c' v = cache_row t bits ?nbg c (if v = idx then ?lst else v)" if v: "v < ?lst"
      proof -
        have vn: "(if v = idx then ?lst else v) < n" using v n by auto
        show ?thesis unfolding cache_row_planes [OF g w v] cache_row_planes [OF g c True vn] ld by (rule pr(3) [OF v])
      qed
      then show ?thesis using w(1) out by blast
    qed
  next
    case False
    then have rg: "region t bits ?nbg n (bc_data c)" using c by (simp add: wf_cache_def Let_def)
    have hr: "has_row ?nbg (bc_data c) ?lst" "has_row ?nbg (bc_data c) idx"
      using region_has_vector [OF rg] n by simp_all
    have c': "c' = c\<lparr>bc_data := region_remove t bits ?nbg ?lst idx (bc_data c), bc_n_blocks := nblk ?lst\<rparr>"
      and out: "idx \<noteq> ?lst \<longrightarrow> out = cache_row t bits ?nbg c ?lst"
      using r False move_lane_eq [OF hr, of t bits] unfolding cache_swap_remove_def bg Let_def prod.case
      by (auto simp: region_remove_def cache_row_classic mult.assoc split: prod.splits if_splits)
    note rr = region_remove [OF rg refl n]
    have "wf_cache t bits dim ?lst c'"
      by (rule wf_classicI) (use False rr(1) in \<open>simp_all only: c' cache_fields classic_low\<close>)
    then show ?thesis using rr(2) [of v] out False by (simp add: c' cache_row_def is_planes_def read_row_def)
  qed
  then show "wf_cache t bits dim (n - 1) c'"
    and "v < n - 1 \<Longrightarrow> cache_row t bits ?nbg c' v = cache_row t bits ?nbg c (if v = idx then n - 1 else v)"
    and "idx \<noteq> n - 1 \<Longrightarrow> out = cache_row t bits ?nbg c (n - 1)" by blast+
qed

section \<open>The contract of a row store\<close>

interpretation cache_store: growing_store
  "\<lambda>n c. geom_ok bits dim \<and> wf_cache t bits dim n c" "cache_row t bits (dim div codes_per_byte bits)"
  "\<lambda>idx lst c. fst (cache_swap_remove t bits dim idx lst c)"
  "\<lambda>m b. length b = m * (bits * (dim div 8))" "\<lambda>b v. extract_row b (v * (bits * (dim div 8))) bits dim"
  "\<lambda>b n m c. cache_append t b n m bits dim c"
proof
  fix n m idx v :: nat and c :: cache and b :: bytes
  assume c: "geom_ok bits dim \<and> wf_cache t bits dim n c"
  obtain c' out where r: "cache_swap_remove t bits dim idx (n - 1) c = (c', out)" by force
  show "geom_ok bits dim \<and> wf_cache t bits dim (n - 1) (fst (cache_swap_remove t bits dim idx (n - 1) c))" if "idx < n"
    unfolding r fst_conv using c cache_remove_rows(1) [OF _ _ that r] by blast
  show "cache_row t bits (dim div codes_per_byte bits) (fst (cache_swap_remove t bits dim idx (n - 1) c)) v
      = cache_row t bits (dim div codes_per_byte bits) c (if v = idx then n - 1 else v)" if "idx < n" "v < n - 1"
    unfolding r fst_conv by (rule cache_remove_rows(2) [OF _ _ that(1) r that(2)]) (use c in blast)+
  assume n: "0 < n" and b: "length b = m * (bits * (dim div 8))"
  show "geom_ok bits dim \<and> wf_cache t bits dim (n + m) (cache_append t b n m bits dim c)"
    using c cache_append_rows(1) [OF _ _ n b] by blast
  show "cache_row t bits (dim div codes_per_byte bits) (cache_append t b n m bits dim c) v
      = (if v < n then cache_row t bits (dim div codes_per_byte bits) c v
         else extract_row b ((v - n) * (bits * (dim div 8))) bits dim)" if "v < n + m"
    by (rule cache_append_rows(2) [OF _ _ n b that]) (use c in blast)+
qed

section \<open>A cache is determined by its rows\<close>

lemma split2_onto: "split2 (fst (planes_to_code_bytes s l)) (snd (planes_to_code_bytes s l)) = (s, l)"
proof -
  let ?f = "\<lambda>x. split2 (fst x) (snd x)" and ?g = "\<lambda>x. planes_to_code_bytes (fst x) (snd x)"
  have "?g (?f x) = x" for x using split2_inverse [of "fst x" "snd x"] by simp
  then have "?f (?g (s, l)) = (s, l)" using inverse_onto [of "UNIV :: (u8 \<times> u8) set" ?f ?g "(s, l)"] by simp
  then show ?thesis by simp
qed

lemma join_rows2_inj:
  assumes e: "join_rows 2 nsg s l = join_rows 2 nsg s' l'" and g: "g < nsg"
  shows "s ! g = s' ! g \<and> l ! g = l' ! g"
proof -
  have i: "2 * g < 2 * nsg" "2 * g + 1 < 2 * nsg" using g by simp_all
  have "planes_to_code_bytes (s ! g) (l ! g) = planes_to_code_bytes (s' ! g) (l' ! g)"
    using arg_cong [OF e, of "\<lambda>x. x ! (2 * g)"] arg_cong [OF e, of "\<lambda>x. x ! (2 * g + 1)"]
    unfolding join_rows2_nth(1) [OF i(1)] join_rows2_nth(1) [OF i(2)] Let_def by (simp add: prod_eq_iff)
  then have "(s ! g, l ! g) = (s' ! g, l' ! g)" using split2_onto by metis
  then show ?thesis by simp
qed

lemma join_rows4_inj:
  assumes e: "join_rows 4 nsg s l = join_rows 4 nsg s' l'" and g: "g < nsg" "q < 4"
  shows "(l @ s) ! (q * nsg + g) = (l' @ s') ! (q * nsg + g)"
proof (rule nibble_eqI)
  fix d :: nat
  assume d: "d < 8"
  define j m where "j = 3 - d div 2" and "m = (if odd d then 4 + q else q)"
  have jm: "j < 4" "m < 8" "m mod 4 = q" "(if m < 4 then 6 - 2 * j else 7 - 2 * j) = d"
  proof -
    have "(if odd d then 7 - 2 * j else 6 - 2 * j) = d" using d unfolding lt8 j_def by (elim insertE emptyE) simp_all
    then show "(if m < 4 then 6 - 2 * j else 7 - 2 * j) = d" using g(2) by (simp add: m_def split: if_splits)
  qed (use g(2) in \<open>simp_all add: j_def m_def\<close>)
  have "bit (join_rows 4 nsg s l ! (4 * g + j)) m \<longleftrightarrow> bit ((l @ s) ! (q * nsg + g)) d" for s l
    using join4_bit [OF g(1) jm(1,2), of s l] unfolding jm(3,4) .
  then show "bit ((l @ s) ! (q * nsg + g)) d \<longleftrightarrow> bit ((l' @ s') ! (q * nsg + g)) d" using e by metis
qed

lemma join_rows_inj:
  assumes b: "bits = 2 \<or> bits = 4" and len: "length s = nsg" "length s' = nsg" "length l = (bits - 1) * nsg" "length l' = (bits - 1) * nsg"
    and e: "join_rows bits nsg s l = join_rows bits nsg s' l'"
  shows "s = s' \<and> l = l'"
  using b
proof
  assume b: "bits = 2"
  then show ?thesis using join_rows2_inj [of nsg s l s' l'] e len by (auto intro: nth_equalityI)
next
  assume b: "bits = 4"
  have "l @ s = l' @ s'"
  proof (rule nth_equalityI)
    show "length (l @ s) = length (l' @ s')" using len by simp
    fix i
    assume "i < length (l @ s)"
    then have i: "i < 4 * nsg" using len b by simp
    then have p: "0 < nsg" by (cases nsg) simp_all
    have "i div nsg < 4" using i by (simp add: div_less_iff_less_mult p)
    then have "(l @ s) ! (i div nsg * nsg + i mod nsg) = (l' @ s') ! (i div nsg * nsg + i mod nsg)"
      using e b p by (intro join_rows4_inj) simp_all
    then show "(l @ s) ! i = (l' @ s') ! i" by simp
  qed
  then show ?thesis using len by (simp add: append_eq_append_conv)
qed

lemma rows_flat_eqI:
  assumes len: "length x = n * k" "length y = n * k" and k: "0 < k" and rows: "\<And>v. v < n \<Longrightarrow> low_of k x v = low_of k y v"
  shows "x = y"
proof (rule nth_equalityI)
  fix i
  assume "i < length x"
  then have v: "i div k < n" using len(1) by (simp add: div_less_iff_less_mult [OF k])
  then have le: "i div k * k \<le> n * k" by (intro mult_le_mono1) simp
  have "low_of k z (i div k) ! (i mod k) = z ! i" if "length z = n * k" for z
  proof -
    have "i div k * k \<le> length z" "i mod k < k" using le that k by simp_all
    then show ?thesis by (simp add: low_of_def)
  qed
  from this [OF len(1)] this [OF len(2)] show "x ! i = y ! i" using rows [OF v] by simp
qed (simp add: len)

theorem cache_unique:
  assumes g: "geom_ok bits dim" and c: "wf_cache t bits dim n c" "wf_cache t bits dim n d" and pl: "is_planes c = is_planes d"
    and rows: "\<And>v. v < n \<Longrightarrow> cache_row t bits (dim div codes_per_byte bits) c v = cache_row t bits (dim div codes_per_byte bits) d v"
  shows "c = d"
proof (cases "is_planes c")
  case True
  let ?nbg = "dim div codes_per_byte bits" and ?nsg = "dim div 8" and ?k = "(bits - 1) * (dim div 8)"
  have p: "planes_for t bits ?nbg" and r: "region t 2 ?nsg n (bc_data c)" "region t 2 ?nsg n (bc_data d)"
    and l: "length (bc_low c) = n * ?k" "length (bc_low d) = n * ?k" and nb: "bc_n_blocks c = bc_n_blocks d"
    using c True pl by (auto simp: wf_cache_def Let_def)
  have j: "sign_row t ?nsg (bc_data c) v = sign_row t ?nsg (bc_data d) v \<and> low_of ?k (bc_low c) v = low_of ?k (bc_low d) v"
    if v: "v < n" for v
  proof (rule join_rows_inj [OF planes_geometry(1) [OF g p]])
    have "Suc v * ?k \<le> n * ?k" using v by (intro mult_le_mono1) simp
    then have "?k \<le> n * ?k - v * ?k" unfolding mult_Suc by linarith
    then show "length (low_of ?k (bc_low c) v) = ?k" "length (low_of ?k (bc_low d) v) = ?k"
      unfolding low_of_def length_take length_drop l by (simp_all only: min_absorb2)
    show "join_rows bits ?nsg (sign_row t ?nsg (bc_data c) v) (low_of ?k (bc_low c) v)
        = join_rows bits ?nsg (sign_row t ?nsg (bc_data d) v) (low_of ?k (bc_low d) v)"
      using rows [OF v] cache_row_planes [OF g c(1) True v] cache_row_planes [OF g c(2) True [unfolded pl] v] by (simp add: planes_row_def)
  qed simp_all
  have "bc_data c = bc_data d" by (rule region_unique [OF r]) (use j in \<open>simp add: sign_row_def\<close>)
  moreover have "0 < ?k" using planes_geometry(1) [OF g p] geom_okD(4) [OF g] by auto
  then have "bc_low c = bc_low d" by (rule rows_flat_eqI [OF l]) (use j in blast)
  ultimately show ?thesis using nb by simp
next
  case False
  then have r: "region t bits (dim div codes_per_byte bits) n (bc_data c)" "region t bits (dim div codes_per_byte bits) n (bc_data d)"
    and nb: "bc_n_blocks c = bc_n_blocks d" and lw: "bc_low c = []" "bc_low d = []"
    using c pl by (auto simp: wf_cache_def Let_def is_planes_def)
  have "bc_data c = bc_data d"
    by (rule region_unique [OF r]) (use rows False pl in \<open>simp add: cache_row_classic\<close>)
  then show ?thesis using nb lw by simp
qed

text \<open>The two branches of an add, on the same rows: writing the new lanes in place and rebuilding
  the blocks from the old tail on give the same bytes.\<close>

theorem append_eq_patch:
  assumes g: "geom_ok bits dim" and c: "wf_cache t bits dim old_n c" and n: "0 < old_n" "0 < n"
    and len: "length packed = old_n * (bits * (dim div 8))" "length rows = n * (bits * (dim div 8))"
    and old: "\<And>v. v < old_n \<Longrightarrow> cache_row t bits (dim div codes_per_byte bits) c v = extract_row packed (v * (bits * (dim div 8))) bits dim"
  shows "cache_append t rows old_n n bits dim c = cache_patch t (packed @ rows) old_n (old_n + n) bits dim c"
proof -
  let ?row = "bits * (dim div 8)"
  have lt: "old_n < old_n + n" using n by simp
  have lp: "length (packed @ rows) = (old_n + n) * ?row" using len by (simp add: add_mult_distrib)
  have left: "extract_row (packed @ rows) (v * ?row) bits dim = extract_row packed (v * ?row) bits dim" if "v < old_n" for v
  proof (rule extract_row_cong)
    fix i
    assume "i < ?row"
    moreover have "Suc v * ?row \<le> old_n * ?row" using that by (intro mult_le_mono1) simp
    ultimately have "v * ?row + i < length packed" unfolding len mult_Suc by linarith
    then show "(packed @ rows) ! (v * ?row + i) = packed ! (v * ?row + i)" by (simp add: nth_append)
  qed
  have right: "extract_row (packed @ rows) (v * ?row) bits dim = extract_row rows ((v - old_n) * ?row) bits dim" if "old_n \<le> v" for v
  proof (rule extract_row_cong)
    fix i
    define k where "k = v - old_n"
    have v: "v = old_n + k" using that by (simp add: k_def)
    have e: "v * ?row + i = length packed + (k * ?row + i)" unfolding v len add_mult_distrib by (rule add.assoc)
    show "(packed @ rows) ! (v * ?row + i) = rows ! ((v - old_n) * ?row + i)" unfolding e nth_append_length_plus k_def ..
  qed
  note a = cache_append_rows [OF g c n(1) len(2)] and p = cache_patch_rows [OF g c lt lp]
  have p': "cache_row t bits (dim div codes_per_byte bits) c v = extract_row (packed @ rows) (v * ?row) bits dim" if "v < old_n" for v
    using old [OF that] left [OF that] by simp
  show ?thesis
  proof (rule cache_unique [OF g a(1) p(1)])
    show "is_planes (cache_append t rows old_n n bits dim c) = is_planes (cache_patch t (packed @ rows) old_n (old_n + n) bits dim c)"
      unfolding a(3) by (rule p(3) [symmetric]) (rule p')
    show "cache_row t bits (dim div codes_per_byte bits) (cache_append t rows old_n n bits dim c) v
        = cache_row t bits (dim div codes_per_byte bits) (cache_patch t (packed @ rows) old_n (old_n + n) bits dim c) v"
      if "v < old_n + n" for v
    proof -
      have "cache_row t bits (dim div codes_per_byte bits) (cache_append t rows old_n n bits dim c) v
          = extract_row (packed @ rows) (v * ?row) bits dim"
        unfolding a(2) [OF that] using p' [of v] right [of v] by (simp split: if_split)
      also have "\<dots> = cache_row t bits (dim div codes_per_byte bits) (cache_patch t (packed @ rows) old_n (old_n + n) bits dim c) v"
        by (rule p(2) [OF _ that, symmetric]) (rule p')
      finally show ?thesis .
    qed
  qed (rule p')
qed

end
