(* ===== verification/CacheTheorems.thy ===== *)
theory CacheTheorems
  imports Cache LayoutTheorems
begin

text \<open>
  The properties of the search cache: the native lane layouts lose nothing, the conversion to the
  planes layout keeps every row, adds and removals act on the rows as on a list, and the two branches
  of an add write the same bytes.
\<close>

abbreviation demo_planes :: target where
  "demo_planes \<equiv> \<lparr>t_arch = X86, t_vector_major = True, t_i8mm = False,
    t_2bit_vm8 = False, t_planes = True, t_planes4 = True\<rparr>"

abbreviation demo_cache :: cache where "demo_cache \<equiv> cache_build demo_x86 [1, 2, 3, 4, 5, 6] 3 2 8"
abbreviation demo_rows :: bytes where "demo_rows \<equiv> [7, 8, 9, 10]"
abbreviation demo_grown :: cache where "demo_grown \<equiv> cache_append demo_x86 demo_rows 3 2 2 8 demo_cache"

lemma demo_cache:
  "geom_ok 2 8" "wf_cache demo_x86 2 8 3 demo_cache"
  "v < 3 \<Longrightarrow> cache_row demo_x86 2 2 demo_cache v = extract_row [1, 2, 3, 4, 5, 6] (v * 2) 2 8"
proof -
  show g: "geom_ok 2 8" by (simp add: geom_ok_def)
  show "wf_cache demo_x86 2 8 3 demo_cache" by (rule cache_build_rows(1) [OF g]) simp
  show "cache_row demo_x86 2 2 demo_cache v = extract_row [1, 2, 3, 4, 5, 6] (v * 2) 2 8" if "v < 3"
    using cache_build_rows(2) [OF g, of "[1, 2, 3, 4, 5, 6]" 3 v demo_x86] that by simp
qed

lemma demo_grown: "wf_cache demo_x86 2 8 5 demo_grown"
  using cache_append_rows(1) [OF demo_cache(1,2), of demo_rows 2] by simp

text \<open>C22. Whatever lane layout the target selects, un-transforming a cache built from packed rows
  gives exactly the stored blocks of those rows.\<close>

theorem native_layout_lossless:
  "native_to_seq t (fst (repack t packed n bits dim)) bits (dim div codes_per_byte bits) = repack_seq packed n bits dim"
proof -
  have "length (repack_seq packed n bits dim) mod BLOCK = 0"
    by (simp add: repack_seq_def blocked_geometry_def Let_def length_pack_blocked_sequential)
  then show ?thesis by (simp add: repack_eq native_roundtrip)
qed

text \<open>C23. The chunked in-place conversion of the stored blocks to the planes layout (the load and
  the promotion of a grown cache) keeps the code bytes of every vector, leaves the sign lanes past
  the last vector zero, and sizes both regions exactly.\<close>

theorem planes_conversion_rows:
  assumes "planes_for t bits nbg" and "length seq = (n + BLOCK - 1) div BLOCK * (nbg * BLOCK)"
    and "planes_from_seq_owned t seq bits nbg n = (sign, low)"
  shows "length sign = (n + BLOCK - 1) div BLOCK * (nbg div bits * BLOCK) \<and> length low = n * ((bits - 1) * (nbg div bits)) \<and>
    (\<forall>v. (v < n \<longrightarrow> planes_row t bits (nbg div bits) sign low v = stored_row seq nbg v) \<and>
      (n \<le> v \<and> v div BLOCK < (n + BLOCK - 1) div BLOCK \<longrightarrow> sign_row t (nbg div bits) sign v = replicate (nbg div bits) 0))"
  using planes_owned_rows [OF assms] by blast

theorem planes_conversion_rows_witness:
  "\<exists>sign low. planes_from_seq_owned demo_planes (replicate 1024 7) 4 32 1 = (sign, low) \<and>
    planes_row demo_planes 4 8 sign low 0 = stored_row (replicate 1024 7) 32 0 \<and>
    sign_row demo_planes 8 sign 31 = replicate 8 0"
proof -
  obtain sign low where r: "planes_from_seq_owned demo_planes (replicate 1024 7) 4 32 1 = (sign, low)" by force
  have "planes_for demo_planes 4 32" by (simp add: planes_for_def)
  from planes_conversion_rows [OF this _ r]
  have "planes_row demo_planes 4 8 sign low 0 = stored_row (replicate 1024 7) 32 0"
    "sign_row demo_planes 8 sign 31 = replicate 8 0" by auto
  then show ?thesis using r by blast
qed

text \<open>C24. Adding rows to a cache in place appends their code bytes to the rows it holds, in the
  classic and in the planes layout and when the add promotes the one to the other.\<close>

theorem cache_append_list:
  assumes "geom_ok bits dim" and "wf_cache t bits dim n c" and "0 < n"
    and "length rows = m * (bits * (dim div 8))"
  shows "wf_cache t bits dim (n + m) (cache_append t rows n m bits dim c) \<and>
    map (cache_row t bits (dim div codes_per_byte bits) (cache_append t rows n m bits dim c)) [0..<n + m]
    = map (cache_row t bits (dim div codes_per_byte bits) c) [0..<n]
      @ map (\<lambda>v. extract_row rows (v * (bits * (dim div 8))) bits dim) [0..<m]"
  using cache_store.append_all [of bits dim t n c] cache_store.append_ok [of bits dim t n c] assms by blast

theorem cache_append_list_witness:
  "map (cache_row demo_x86 2 2 demo_grown) [0..<5]
    = map (cache_row demo_x86 2 2 demo_cache) [0..<3] @ map (\<lambda>v. extract_row demo_rows (v * 2) 2 8) [0..<2]"
  using cache_append_list [OF demo_cache(1,2), of demo_rows 2] by simp

text \<open>C25. Removing vector \<open>idx\<close> from a cache of \<open>n\<close> is \<open>Vec::swap_remove\<close> on its rows, and the code
  bytes the lane move reports, which the sync capture keeps, are the moved row's.\<close>

theorem cache_remove_list:
  assumes "geom_ok bits dim" and "wf_cache t bits dim n c" and "idx < n"
    and "cache_swap_remove t bits dim idx (n - 1) c = (c', out)"
  shows "wf_cache t bits dim (n - 1) c' \<and>
    map (cache_row t bits (dim div codes_per_byte bits) c') [0..<n - 1]
      = list_swap_remove idx (map (cache_row t bits (dim div codes_per_byte bits) c) [0..<n]) \<and>
    (idx \<noteq> n - 1 \<longrightarrow> out = cache_row t bits (dim div codes_per_byte bits) c (n - 1))"
  using cache_store.remove_rows [of bits dim t n c idx] cache_remove_rows(1,3) [OF assms] assms by simp

theorem cache_remove_list_witness:
  "let (c', out) = cache_swap_remove demo_x86 2 8 0 4 demo_grown
    in map (cache_row demo_x86 2 2 c') [0..<4] = list_swap_remove 0 (map (cache_row demo_x86 2 2 demo_grown) [0..<5])
      \<and> out = cache_row demo_x86 2 2 demo_grown 4"
proof -
  obtain c' out where r: "cache_swap_remove demo_x86 2 8 0 (5 - 1) demo_grown = (c', out)" by force
  from cache_remove_list [OF demo_cache(1) demo_grown _ r] show ?thesis using r by simp
qed

text \<open>C26. The lazy branch of an add (new lanes written into the cache) and the eager one (the blocks
  from the old tail on rebuilt from the packed rows) leave byte-identical caches.\<close>

theorem lazy_add_eq_eager_add:
  assumes "geom_ok bits dim" and "wf_cache t bits dim n c" and "0 < n" and "0 < m"
    and "length packed = n * (bits * (dim div 8))" and "length rows = m * (bits * (dim div 8))"
    and "\<forall>v<n. cache_row t bits (dim div codes_per_byte bits) c v = extract_row packed (v * (bits * (dim div 8))) bits dim"
  shows "cache_append t rows n m bits dim c = cache_patch t (packed @ rows) n (n + m) bits dim c"
  by (rule append_eq_patch [OF assms(1-6)]) (use assms(7) in blast)

theorem lazy_add_eq_eager_add_witness:
  "demo_grown = cache_patch demo_x86 [1, 2, 3, 4, 5, 6, 7, 8, 9, 10] 3 5 2 8 demo_cache"
  using lazy_add_eq_eager_add [OF demo_cache(1,2), of 2 "[1, 2, 3, 4, 5, 6]" demo_rows] demo_cache(3) by simp

end
