(* ===== verification/Hadamard.thy ===== *)
theory Hadamard
  imports Buffers
begin

text \<open>
  The Walsh-Hadamard butterfly of \<open>rotation.rs\<close>: the scalar ladder \<open>wht_block_scalar\<close> and the NEON,
  AVX2 and AVX-512 kernels, which resolve the lowest stages inside a register by lane shuffles and
  then run passes of radix 8, 4 and 2. The kernels evaluate the scalar expression trees, so all four
  agree for every addition, subtraction and multiplication, the rounding ones of IEEE included; the
  operations are therefore parameters here.
\<close>

section \<open>Definitions\<close>

subsection \<open>The scalar ladder\<close>

definition wht_stage :: "('a \<Rightarrow> 'a \<Rightarrow> 'a) \<Rightarrow> ('a \<Rightarrow> 'a \<Rightarrow> 'a) \<Rightarrow> nat \<Rightarrow> nat \<Rightarrow> 'a list \<Rightarrow> 'a list" where
  "wht_stage add sub len block blk =
     foldl (\<lambda>blk i. foldl (\<lambda>blk j. let a = blk ! j; b = blk ! (j + len)
                                  in blk[j := add a b, j + len := sub a b])
                         blk [i..<i + len])
       blk (step_by 0 block (2 * len))"

function wht_stages :: "('a \<Rightarrow> 'a \<Rightarrow> 'a) \<Rightarrow> ('a \<Rightarrow> 'a \<Rightarrow> 'a) \<Rightarrow> nat \<Rightarrow> nat \<Rightarrow> 'a list \<Rightarrow> 'a list" where
  "wht_stages add sub len block blk =
     (if 0 < len \<and> len < block then wht_stages add sub (2 * len) block (wht_stage add sub len block blk)
      else blk)"
  by pat_completeness auto
termination by (relation "measure (\<lambda>(_, _, len, block, _). block - len)") auto

declare wht_stages.simps [simp del]

definition wht_block_scalar ::
  "('a \<Rightarrow> 'a \<Rightarrow> 'a) \<Rightarrow> ('a \<Rightarrow> 'a \<Rightarrow> 'a) \<Rightarrow> ('a \<Rightarrow> 'a \<Rightarrow> 'a) \<Rightarrow> 'a list \<Rightarrow> nat \<Rightarrow> 'a \<Rightarrow> 'a list" where
  "wht_block_scalar add sub mul blk block inv_sqrt_block =
     map (\<lambda>x. mul x inv_sqrt_block) (wht_stages add sub 1 block blk)"

subsection \<open>Register operations\<close>

text \<open>A vector register is the list of its lanes. The \<open>_ps\<close> arithmetic is lane by lane; the shuffles
  are used with one register as both sources.\<close>

definition mm_shuffle_ps :: "nat \<Rightarrow> 'a list \<Rightarrow> 'a list" where
  "mm_shuffle_ps imm v = map (\<lambda>k. v ! (k div 4 * 4 + imm div 4 ^ (k mod 4) mod 4)) [0..<length v]"

definition mm_blend :: "nat \<Rightarrow> 'a list \<Rightarrow> 'a list \<Rightarrow> 'a list" where
  "mm_blend sel x y = map (\<lambda>k. if odd (sel div 2 ^ k) then y ! k else x ! k) [0..<length x]"

definition mm256_permute2f128 :: "nat \<Rightarrow> 'a list \<Rightarrow> 'a list" where
  "mm256_permute2f128 imm v =
     (let half = (\<lambda>s. take 4 (drop (4 * (s mod 2)) v)) in half imm @ half (imm div 16))"

definition mm512_shuffle_f32x4 :: "nat \<Rightarrow> 'a list \<Rightarrow> 'a list" where
  "mm512_shuffle_f32x4 imm v = concat (map (\<lambda>e. take 4 (drop (4 * (imm div 4 ^ e mod 4)) v)) [0..<4])"

text \<open>\<open>vld2q\<close> splits into even and odd lanes; \<open>vtrn1q\<close> and \<open>vtrn2q\<close> interleave even and odd lanes.\<close>

definition vtrn1q :: "'a list \<Rightarrow> 'a list \<Rightarrow> 'a list" where
  "vtrn1q x y = [x ! 0, y ! 0, x ! 2, y ! 2]"

definition vtrn2q :: "'a list \<Rightarrow> 'a list \<Rightarrow> 'a list" where
  "vtrn2q x y = [x ! 1, y ! 1, x ! 3, y ! 3]"

subsection \<open>The stages resolved inside a register\<close>

definition avx2_head :: "('a \<Rightarrow> 'a \<Rightarrow> 'a) \<Rightarrow> ('a \<Rightarrow> 'a \<Rightarrow> 'a) \<Rightarrow> 'a list \<Rightarrow> 'a list" where
  "avx2_head add sub v =
     (let a = mm_shuffle_ps 160 v; b = mm_shuffle_ps 245 v;
          r1 = mm_blend 170 (map2 add a b) (map2 sub a b);
          a = mm_shuffle_ps 68 r1; b = mm_shuffle_ps 238 r1;
          r2 = mm_blend 204 (map2 add a b) (map2 sub a b);
          a = mm256_permute2f128 0 r2; b = mm256_permute2f128 17 r2
      in mm_blend 240 (map2 add a b) (map2 sub a b))"

definition avx512_head :: "('a \<Rightarrow> 'a \<Rightarrow> 'a) \<Rightarrow> ('a \<Rightarrow> 'a \<Rightarrow> 'a) \<Rightarrow> 'a list \<Rightarrow> 'a list" where
  "avx512_head add sub v =
     (let a = mm_shuffle_ps 160 v; b = mm_shuffle_ps 245 v;
          r1 = mm_blend 43690 (map2 add a b) (map2 sub a b);
          a = mm_shuffle_ps 68 r1; b = mm_shuffle_ps 238 r1;
          r2 = mm_blend 52428 (map2 add a b) (map2 sub a b);
          a = mm512_shuffle_f32x4 160 r2; b = mm512_shuffle_f32x4 245 r2;
          r4 = mm_blend 61680 (map2 add a b) (map2 sub a b);
          a = mm512_shuffle_f32x4 68 r4; b = mm512_shuffle_f32x4 238 r4
      in mm_blend 65280 (map2 add a b) (map2 sub a b))"

definition neon_head :: "('a \<Rightarrow> 'a \<Rightarrow> 'a) \<Rightarrow> ('a \<Rightarrow> 'a \<Rightarrow> 'a) \<Rightarrow> 'a list \<Rightarrow> 'a list" where
  "neon_head add sub v =
     (let ab0 = [v ! 0, v ! 2, v ! 4, v ! 6]; ab1 = [v ! 1, v ! 3, v ! 5, v ! 7];
          s1 = map2 add ab0 ab1; d1 = map2 sub ab0 ab1;
          s_even = vtrn1q s1 d1; s_odd = vtrn2q s1 d1;
          sum2 = map2 add s_even s_odd; dif2 = map2 sub s_even s_odd
      in (take 2 sum2 @ take 2 dif2) @ (drop 2 sum2 @ drop 2 dif2))"

text \<open>One register of \<open>w\<close> lanes at a time, in place.\<close>

definition head_pass :: "nat \<Rightarrow> ('a list \<Rightarrow> 'a list) \<Rightarrow> nat \<Rightarrow> 'a list \<Rightarrow> 'a list" where
  "head_pass w f block blk =
     foldl (\<lambda>blk j. overwrite j (f (take w (drop j blk))) blk) blk (step_by 0 block w)"

subsection \<open>Passes over memory\<close>

definition radix2 :: "('v \<Rightarrow> 'v \<Rightarrow> 'v) \<Rightarrow> ('v \<Rightarrow> 'v \<Rightarrow> 'v) \<Rightarrow> 'v list \<Rightarrow> 'v list" where
  "radix2 add sub rs = [add (rs ! 0) (rs ! 1), sub (rs ! 0) (rs ! 1)]"

definition radix4 :: "('v \<Rightarrow> 'v \<Rightarrow> 'v) \<Rightarrow> ('v \<Rightarrow> 'v \<Rightarrow> 'v) \<Rightarrow> 'v list \<Rightarrow> 'v list" where
  "radix4 add sub rs =
     (let apb = add (rs ! 0) (rs ! 1); amb = sub (rs ! 0) (rs ! 1);
          cpd = add (rs ! 2) (rs ! 3); cmd = sub (rs ! 2) (rs ! 3)
      in [add apb cpd, add amb cmd, sub apb cpd, sub amb cmd])"

definition radix8 :: "('v \<Rightarrow> 'v \<Rightarrow> 'v) \<Rightarrow> ('v \<Rightarrow> 'v \<Rightarrow> 'v) \<Rightarrow> 'v list \<Rightarrow> 'v list" where
  "radix8 add sub rs =
     (let apb = add (rs ! 0) (rs ! 1); amb = sub (rs ! 0) (rs ! 1);
          cpd = add (rs ! 2) (rs ! 3); cmd = sub (rs ! 2) (rs ! 3);
          epf = add (rs ! 4) (rs ! 5); emf = sub (rs ! 4) (rs ! 5);
          gph = add (rs ! 6) (rs ! 7); gmh = sub (rs ! 6) (rs ! 7);
          s0 = add apb cpd; s1 = add amb cmd; s2 = sub apb cpd; s3 = sub amb cmd;
          s4 = add epf gph; s5 = add emf gmh; s6 = sub epf gph; s7 = sub emf gmh
      in [add s0 s4, add s1 s5, add s2 s6, add s3 s7, sub s0 s4, sub s1 s5, sub s2 s6, sub s3 s7])"

text \<open>A pass loads \<open>radix\<close> registers of \<open>lanes\<close> lanes, \<open>len\<close> apart, and stores them back.\<close>

definition vec_pass :: "nat \<Rightarrow> nat \<Rightarrow> ('a list list \<Rightarrow> 'a list list) \<Rightarrow> nat \<Rightarrow> nat \<Rightarrow> 'a list \<Rightarrow> 'a list" where
  "vec_pass lanes radix f len block blk =
     foldl (\<lambda>blk i. foldl (\<lambda>blk j.
         let outs = f (map (\<lambda>m. take lanes (drop (j + m * len) blk)) [0..<radix])
         in foldl (\<lambda>blk m. overwrite (j + m * len) (outs ! m) blk) blk [0..<radix])
       blk (step_by i (i + len) lanes)) blk (step_by 0 block (radix * len))"

function wht_radix8 :: "('a \<Rightarrow> 'a \<Rightarrow> 'a) \<Rightarrow> ('a \<Rightarrow> 'a \<Rightarrow> 'a) \<Rightarrow> nat \<Rightarrow> nat \<Rightarrow> nat \<Rightarrow> 'a list \<Rightarrow> nat \<times> 'a list" where
  "wht_radix8 add sub lanes len block blk =
     (if 0 < len \<and> 4 * len < block
      then wht_radix8 add sub lanes (8 * len) block (vec_pass lanes 8 (radix8 (map2 add) (map2 sub)) len block blk)
      else (len, blk))"
  by pat_completeness auto
termination by (relation "measure (\<lambda>(_, _, _, len, block, _). block - len)") auto

declare wht_radix8.simps [simp del]

definition wht_passes :: "('a \<Rightarrow> 'a \<Rightarrow> 'a) \<Rightarrow> ('a \<Rightarrow> 'a \<Rightarrow> 'a) \<Rightarrow> nat \<Rightarrow> nat \<Rightarrow> nat \<Rightarrow> 'a list \<Rightarrow> 'a list" where
  "wht_passes add sub lanes len block blk =
     (let (len, blk) = wht_radix8 add sub lanes len block blk;
          (len, blk) = (if 2 * len < block
                        then (4 * len, vec_pass lanes 4 (radix4 (map2 add) (map2 sub)) len block blk)
                        else (len, blk))
      in if len < block then vec_pass lanes 2 (radix2 (map2 add) (map2 sub)) len block blk else blk)"

subsection \<open>The kernels\<close>

datatype wht_kernel = Wht_Scalar | Wht_Neon | Wht_Avx2 | Wht_Avx512

definition wht_block_neon ::
  "('a \<Rightarrow> 'a \<Rightarrow> 'a) \<Rightarrow> ('a \<Rightarrow> 'a \<Rightarrow> 'a) \<Rightarrow> ('a \<Rightarrow> 'a \<Rightarrow> 'a) \<Rightarrow> 'a list \<Rightarrow> nat \<Rightarrow> 'a \<Rightarrow> 'a list" where
  "wht_block_neon add sub mul blk block inv_sqrt_block =
     map (\<lambda>x. mul x inv_sqrt_block) (wht_passes add sub 4 4 block (head_pass 8 (neon_head add sub) block blk))"

definition wht_block_avx2 ::
  "('a \<Rightarrow> 'a \<Rightarrow> 'a) \<Rightarrow> ('a \<Rightarrow> 'a \<Rightarrow> 'a) \<Rightarrow> ('a \<Rightarrow> 'a \<Rightarrow> 'a) \<Rightarrow> 'a list \<Rightarrow> nat \<Rightarrow> 'a \<Rightarrow> 'a list" where
  "wht_block_avx2 add sub mul blk block inv_sqrt_block =
     map (\<lambda>x. mul x inv_sqrt_block) (wht_passes add sub 8 8 block (head_pass 8 (avx2_head add sub) block blk))"

definition wht_block_avx512 ::
  "('a \<Rightarrow> 'a \<Rightarrow> 'a) \<Rightarrow> ('a \<Rightarrow> 'a \<Rightarrow> 'a) \<Rightarrow> ('a \<Rightarrow> 'a \<Rightarrow> 'a) \<Rightarrow> 'a list \<Rightarrow> nat \<Rightarrow> 'a \<Rightarrow> 'a list" where
  "wht_block_avx512 add sub mul blk block inv_sqrt_block =
     (if block < 16 then wht_block_avx2 add sub mul blk block inv_sqrt_block
      else map (\<lambda>x. mul x inv_sqrt_block)
             (wht_passes add sub 16 16 block (head_pass 16 (avx512_head add sub) block blk)))"

definition wht_block ::
  "wht_kernel \<Rightarrow> ('a \<Rightarrow> 'a \<Rightarrow> 'a) \<Rightarrow> ('a \<Rightarrow> 'a \<Rightarrow> 'a) \<Rightarrow> ('a \<Rightarrow> 'a \<Rightarrow> 'a) \<Rightarrow> 'a list \<Rightarrow> nat \<Rightarrow> 'a \<Rightarrow> 'a list" where
  "wht_block k add sub mul blk block inv_sqrt_block =
     (case k of Wht_Scalar \<Rightarrow> wht_block_scalar add sub mul blk block inv_sqrt_block
      | Wht_Neon \<Rightarrow> wht_block_neon add sub mul blk block inv_sqrt_block
      | Wht_Avx2 \<Rightarrow> wht_block_avx2 add sub mul blk block inv_sqrt_block
      | Wht_Avx512 \<Rightarrow> wht_block_avx512 add sub mul blk block inv_sqrt_block)"

section \<open>Passes give every position the value of its own butterfly\<close>

lemma foldl_product: "foldl (\<lambda>b x. foldl (\<lambda>b y. f b (x, y)) b ys) b xs = foldl f b (List.product xs ys)"
  by (induction xs arbitrary: b) (simp_all add: foldl_map)

lemma nested_bases:
  "foldl (\<lambda>b i. foldl step b (map (\<lambda>p. i + p * l) [0..<np])) b (map (\<lambda>q. q * w) [0..<nq])
    = foldl (\<lambda>b (q, p). step b (q * w + p * l)) b (List.product [0..<nq] [0..<np])"
  by (simp add: foldl_map foldl_product [symmetric])

text \<open>Positions of a pass: group \<open>q\<close>, operand \<open>m\<close>, offset \<open>r\<close>.\<close>

lemma pos_digits:
  assumes "m < radix" "r < (len :: nat)"
  shows "(q * (radix * len) + m * len + r) div (radix * len) = q" "(q * (radix * len) + m * len + r) mod len = r"
    "q < nq \<Longrightarrow> q * (radix * len) + m * len + r < nq * (radix * len)"
proof -
  have lt: "m * len + r < radix * len" using assms by (simp add: digit_below)
  show "(q * (radix * len) + m * len + r) div (radix * len) = q" using lt by (simp only: add.assoc digit_parts)
  have "q * (radix * len) + m * len + r = (q * radix + m) * len + r" by (simp add: algebra_simps)
  then show "(q * (radix * len) + m * len + r) mod len = r" using assms by (simp only: digit_parts)
  show "q < nq \<Longrightarrow> q * (radix * len) + m * len + r < nq * (radix * len)" using lt by (simp only: add.assoc digit_below)
qed

lemma pos_split:
  assumes "k < nq * (radix * (len :: nat))"
  obtains q m r where "q < nq" "m < radix" "r < len" "k = q * (radix * len) + m * len + r"
proof -
  have w: "0 < radix * len" using assms by (cases "radix * len") simp_all
  then have len: "0 < len" by (cases len) simp_all
  have e: "k = k div (radix * len) * (radix * len) + k mod (radix * len) div len * len + k mod (radix * len) mod len"
    by (simp only: add.assoc div_mult_mod_eq)
  show thesis
  proof (rule that [OF _ _ _ e])
    show "k div (radix * len) < nq" using assms w by (simp add: div_less_iff_less_mult)
    show "k mod (radix * len) div len < radix" using w len by (simp add: div_less_iff_less_mult)
    show "k mod (radix * len) mod len < len" using len by simp
  qed
qed

lemma pass_nth:
  fixes step :: "'a list \<Rightarrow> nat \<Rightarrow> 'a list" and len lanes np radix nq :: nat
  defines "w \<equiv> radix * len"
  assumes len: "len = np * lanes" and block: "length blk = nq * w"
    and lens: "\<And>b q p. length b = nq * w \<Longrightarrow> q < nq \<Longrightarrow> p < np \<Longrightarrow> length (step b (q * w + p * lanes)) = nq * w"
    and out: "\<And>b q p k. length b = nq * w \<Longrightarrow> q < nq \<Longrightarrow> p < np \<Longrightarrow> k < nq * w \<Longrightarrow>
      k div w \<noteq> q \<or> k mod len div lanes \<noteq> p \<Longrightarrow> step b (q * w + p * lanes) ! k = b ! k"
    and val: "\<And>b q p m l. length b = nq * w \<Longrightarrow> q < nq \<Longrightarrow> p < np \<Longrightarrow> m < radix \<Longrightarrow> l < lanes \<Longrightarrow>
      step b (q * w + p * lanes) ! (q * w + m * len + (p * lanes + l))
        = F (map (\<lambda>m. b ! (q * w + m * len + (p * lanes + l))) [0..<radix]) m"
  defines "res \<equiv> foldl (\<lambda>b i. foldl step b (map (\<lambda>p. i + p * lanes) [0..<np])) blk (map (\<lambda>q. q * w) [0..<nq])"
  shows "length res = nq * w"
    and "q < nq \<Longrightarrow> m < radix \<Longrightarrow> r < len \<Longrightarrow>
      res ! (q * w + m * len + r) = F (map (\<lambda>m. blk ! (q * w + m * len + r)) [0..<radix]) m"
proof -
  define cells where "cells c = {k. k < nq * w \<and> k div w = fst c \<and> k mod len div lanes = snd c}" for c :: "nat \<times> nat"
  define st where "st b c = step b (fst c * w + snd c * lanes)" for b and c :: "nat \<times> nat"
  let ?cs = "List.product [0..<nq] [0..<np]"
  have res: "res = foldl st blk ?cs" unfolding res_def nested_bases st_def by (simp add: case_prod_beta')
  have cs: "fst c < nq" "snd c < np" if "c \<in> set ?cs" for c using that by auto
  have slens: "length (st b c) = nq * w" if "c \<in> set ?cs" "length b = nq * w" for b c
    unfolding st_def by (rule lens [OF that(2) cs [OF that(1)]])
  have sout: "st b c ! k = b ! k" if "c \<in> set ?cs" "length b = nq * w" "k < nq * w" "k \<notin> cells c" for b c k
    unfolding st_def by (rule out [OF that(2) cs [OF that(1)] that(3)]) (use that(3,4) in \<open>auto simp: cells_def\<close>)
  have "length (foldl st b xs) = nq * w" if "set xs \<subseteq> set ?cs" "length b = nq * w" for b xs
    using that by (induction xs arbitrary: b) (simp_all add: slens)
  then show "length res = nq * w" using block by (simp add: res)
  assume q: "q < nq" and m: "m < radix" and r: "r < len"
  then have lanes: "0 < lanes" using len by (cases lanes) simp_all
  define p l where "p = r div lanes" and "l = r mod lanes"
  have p: "p < np" using r lanes by (simp add: p_def len div_less_iff_less_mult)
  have l: "l < lanes" using lanes by (simp add: l_def)
  have rp: "r = p * lanes + l" by (simp add: p_def l_def)
  have mem: "q * w + m * len + r \<in> cells (q, p)" if "m < radix" for m
    using pos_digits [OF that r, of q] pos_digits(3) [OF that r q] by (simp add: cells_def w_def p_def)
  have "foldl st blk ?cs ! (q * w + m * len + r) = st blk (q, p) ! (q * w + m * len + r)"
  proof (rule foldl_disjoint [where cells = cells and n = "nq * w"])
    fix b b' :: "'a list" and c :: "nat \<times> nat" and k :: nat
    assume c: "c \<in> set ?cs" and b: "length b = nq * w" "length b' = nq * w" and k: "k \<in> cells c"
      and eq: "\<forall>i\<in>cells c. b ! i = b' ! i"
    have "k < nq * (radix * len)" using k by (simp add: cells_def w_def)
    then obtain q' m' r' where d: "q' < nq" "m' < radix" "r' < len" "k = q' * (radix * len) + m' * len + r'"
      by (rule pos_split)
    have c': "c = (q', r' div lanes)" using k pos_digits(1,2) [OF d(2,3), of q'] by (simp add: cells_def w_def d(4) prod_eq_iff)
    define l' where "l' = r' mod lanes"
    have r': "r' = r' div lanes * lanes + l'" "l' < lanes" using lanes by (simp_all add: l'_def)
    have k': "k = q' * w + m' * len + (r' div lanes * lanes + l')" using d(4) by (simp add: w_def l'_def)
    have p': "r' div lanes < np" using d(3) lanes by (simp add: len div_less_iff_less_mult)
    have at: "q' * w + m * len + (r' div lanes * lanes + l') \<in> cells c" if "m < radix" for m
      using pos_digits(1,2) [OF that d(3), of q'] pos_digits(3) [OF that d(3,1)]
      by (simp add: cells_def w_def c' r'(1) [symmetric])
    show "st b c ! k = st b' c ! k"
      unfolding st_def c' fst_conv snd_conv k' val [OF b(1) d(1) p' d(2) r'(2)] val [OF b(2) d(1) p' d(2) r'(2)]
      by (rule arg_cong [where f = "\<lambda>xs. F xs m'"], rule map_cong [OF refl]) (use eq at in simp)
  next
    show "distinct ?cs" by (simp add: distinct_product)
    show "(q, p) \<in> set ?cs" using q p by simp
    show "q * w + m * len + r \<in> cells (q, p)" by (rule mem [OF m])
    show "length blk = nq * w" by (rule block)
  qed (rule slens, assumption, assumption, rule sout, assumption+, auto simp: cells_def)
  then show "res ! (q * w + m * len + r) = F (map (\<lambda>m. blk ! (q * w + m * len + r)) [0..<radix]) m"
    using val [OF block q p m l] by (simp add: res st_def rp)
qed

section \<open>The scalar stage and the register passes\<close>

lemma bases_by: "0 < w \<Longrightarrow> step_by 0 (nq * w) w = map (\<lambda>q. q * w) [0..<nq]"
  using step_by_exact [of w 0 nq] by simp

lemma bases_upt: "[i..<i + len] = map (\<lambda>p. i + p * 1) [0..<len]"
proof -
  have "map (\<lambda>p. i + p * 1) [0..<len] = map (\<lambda>p. p + i) [0..<len]" by (simp add: add.commute)
  then show ?thesis using map_add_upt [of i len] by (simp add: add.commute)
qed

lemma wht_stage_nth:
  assumes len: "0 < len" and block: "length blk = nq * (2 * len)"
  shows "length (wht_stage add sub len (nq * (2 * len)) blk) = nq * (2 * len)"
    and "q < nq \<Longrightarrow> m < 2 \<Longrightarrow> r < len \<Longrightarrow> wht_stage add sub len (nq * (2 * len)) blk ! (q * (2 * len) + m * len + r)
      = radix2 add sub (map (\<lambda>m. blk ! (q * (2 * len) + m * len + r)) [0..<2]) ! m"
proof -
  define step where "step b j = (let x = b ! j; y = b ! (j + len) in b[j := add x y, j + len := sub x y])" for b and j :: nat
  have s: "wht_stage add sub len (nq * (2 * len)) blk
      = foldl (\<lambda>b i. foldl step b (map (\<lambda>p. i + p * 1) [0..<len])) blk (map (\<lambda>q. q * (2 * len)) [0..<nq])"
    unfolding wht_stage_def step_def bases_upt using bases_by [of "2 * len" nq] len by simp
  have lens: "length (step b j) = length b" for b j by (simp add: step_def Let_def)
  have out: "step b (q * (2 * len) + p) ! k = b ! k"
    if "p < len" "k div (2 * len) \<noteq> q \<or> k mod len div 1 \<noteq> p" for b q p k
  proof -
    have "k \<noteq> q * (2 * len) + m * len + p" if "m < 2" for m
      using pos_digits [OF that \<open>p < len\<close>, of q] that \<open>_ \<or> _\<close> by auto
    from this [of 0] this [of 1] show ?thesis by (simp add: step_def Let_def nth_list_update)
  qed
  have val: "step b (q * (2 * len) + p) ! (q * (2 * len) + m * len + (p + l))
      = radix2 add sub (map (\<lambda>m. b ! (q * (2 * len) + m * len + (p + l))) [0..<2]) ! m"
    if b: "length b = nq * (2 * len)" "q < nq" and p: "p < len" and ml: "m < 2" "l < 1" for b q p m l
  proof -
    have "q * (2 * len) + 1 * len + p < length b" unfolding b(1) by (rule pos_digits(3)) (use p b(2) in simp_all)
    then have "q * (2 * len) + p < length b" "q * (2 * len) + len + p < length b" by simp_all
    moreover have "m = 0 \<or> m = 1" using ml by auto
    ultimately show ?thesis using ml len
      by (auto simp: step_def Let_def nth_list_update radix2_def numeral_2_eq_2 ac_simps)
  qed
  show "length (wht_stage add sub len (nq * (2 * len)) blk) = nq * (2 * len)"
    unfolding s by (rule pass_nth(1) [where radix = 2 and len = len and lanes = 1 and F = "\<lambda>xs m. radix2 add sub xs ! m"])
      (simp_all only: mult_1_right block lens out val)
  show "wht_stage add sub len (nq * (2 * len)) blk ! (q * (2 * len) + m * len + r)
      = radix2 add sub (map (\<lambda>m. blk ! (q * (2 * len) + m * len + r)) [0..<2]) ! m"
    if "q < nq" "m < 2" "r < len"
    unfolding s by (rule pass_nth(2) [where radix = 2 and len = len and lanes = 1 and F = "\<lambda>xs m. radix2 add sub xs ! m"])
      (simp_all only: mult_1_right block lens out val that)
qed

text \<open>Stores of registers \<open>len\<close> apart.\<close>

lemma stores_nth:
  fixes len lanes :: nat
  assumes fit: "lanes \<le> len" "\<And>m. m < radix \<Longrightarrow> j + m * len + lanes \<le> length b"
    and outs: "\<And>m. m < radix \<Longrightarrow> length (outs ! m) = lanes"
  defines "res \<equiv> foldl (\<lambda>b m. overwrite (j + m * len) (outs ! m) b) b [0..<radix]"
  shows "length res = length b" and "m < radix \<Longrightarrow> l < lanes \<Longrightarrow> res ! (j + m * len + l) = outs ! m ! l"
    and "(\<And>m. m < radix \<Longrightarrow> \<not> (j + m * len \<le> k \<and> k < j + m * len + lanes)) \<Longrightarrow> res ! k = b ! k"
proof -
  define cells where "cells m = {j + m * len..<j + m * len + lanes}" for m
  have ln: "length (overwrite (j + m * len) (outs ! m) b') = length b" if "m < radix" "length b' = length b" for b' m
    using fit(2) [OF that(1)] outs [OF that(1)] that(2) by (simp add: length_overwrite)
  have ov: "overwrite (j + m * len) (outs ! m) b' ! k = (if k \<in> cells m then outs ! m ! (k - (j + m * len)) else b' ! k)"
    if "m < radix" "length b' = length b" for b' m k
    using fit(2) [OF that(1)] outs [OF that(1)] that(2) by (simp add: nth_overwrite cells_def)
  have un: "length res = length b \<and> res ! k = b ! k" if "\<And>m. m < radix \<Longrightarrow> k \<notin> cells m" for k
    unfolding res_def by (rule foldl_untouched [where cells = cells]) (use ln ov that in simp_all)
  have "length (foldl (\<lambda>b m. overwrite (j + m * len) (outs ! m) b) b' ms) = length b" if "set ms \<subseteq> {..<radix}" "length b' = length b" for b' ms
    using that by (induction ms arbitrary: b') (simp_all add: ln)
  then show "length res = length b" by (simp add: res_def atLeast0LessThan)
  show "res ! k = b ! k" if "\<And>m. m < radix \<Longrightarrow> \<not> (j + m * len \<le> k \<and> k < j + m * len + lanes)"
    using un [of k] that by (simp add: cells_def)
  assume m: "m < radix" and l: "l < lanes"
  have "res ! (j + m * len + l) = overwrite (j + m * len) (outs ! m) b ! (j + m * len + l)"
    unfolding res_def
  proof (rule foldl_disjoint [where cells = cells and n = "length b"])
    fix c c' :: nat
    assume "c \<noteq> c'"
    show "cells c \<inter> cells c' = {}"
    proof (cases "c < c'")
      case True
      then have "Suc c * len \<le> c' * len" by (intro mult_le_mono1) simp
      then show ?thesis using fit(1) by (auto simp: cells_def)
    next
      case False
      then have "Suc c' * len \<le> c * len" using \<open>c \<noteq> c'\<close> by (intro mult_le_mono1) simp
      then show ?thesis using fit(1) by (auto simp: cells_def)
    qed
  next
    fix c :: nat
    assume "c \<in> set [0..<radix]"
    then show "cells c \<subseteq> {..<length b}" using fit(2) [of c] by (auto simp: cells_def)
  qed (use ln ov m l in \<open>auto simp: cells_def\<close>)
  then show "res ! (j + m * len + l) = outs ! m ! l" using ov [OF m refl] l by (simp add: cells_def)
qed

text \<open>A register function works lane by lane when each lane of its results is the scalar function
  of that lane of its operands.\<close>

definition lanewise :: "nat \<Rightarrow> nat \<Rightarrow> ('a list list \<Rightarrow> 'a list list) \<Rightarrow> ('a list \<Rightarrow> 'a list) \<Rightarrow> bool" where
  "lanewise lanes radix f g \<longleftrightarrow> (\<forall>rs. length rs = radix \<longrightarrow> (\<forall>r\<in>set rs. length r = lanes) \<longrightarrow>
     (\<forall>m<radix. length (f rs ! m) = lanes \<and> (\<forall>l<lanes. f rs ! m ! l = g (map (\<lambda>r. r ! l) rs) ! m)))"

lemma vec_pass_nth:
  assumes f: "lanewise lanes radix f g" and len: "len = np * lanes" "0 < len" and radix: "0 < radix"
    and block: "length blk = nq * (radix * len)"
  shows "length (vec_pass lanes radix f len (nq * (radix * len)) blk) = nq * (radix * len)"
    and "q < nq \<Longrightarrow> m < radix \<Longrightarrow> r < len \<Longrightarrow>
      vec_pass lanes radix f len (nq * (radix * len)) blk ! (q * (radix * len) + m * len + r)
      = g (map (\<lambda>m. blk ! (q * (radix * len) + m * len + r)) [0..<radix]) ! m"
proof -
  let ?w = "radix * len"
  have lanes: "0 < lanes" "lanes \<le> len" using len by (cases lanes; cases np; simp)+
  define regs where "regs b j = map (\<lambda>m. take lanes (drop (j + m * len) b)) [0..<radix]" for b :: "'a list" and j :: nat
  define step where "step b j = foldl (\<lambda>b' m. overwrite (j + m * len) (f (regs b j) ! m) b') b [0..<radix]" for b j
  have s: "vec_pass lanes radix f len (nq * ?w) blk
      = foldl (\<lambda>b i. foldl step b (map (\<lambda>p. i + p * lanes) [0..<np])) blk (map (\<lambda>q. q * ?w) [0..<nq])"
    unfolding vec_pass_def step_def regs_def Let_def len(1) step_by_exact [OF lanes(1)]
    using bases_by [of "radix * (np * lanes)" nq] radix len by simp
  have fit: "q * ?w + p * lanes + m * len + lanes \<le> length b"
    if b: "length b = nq * ?w" "q < nq" "p < np" and m: "m < radix" for b :: "'a list" and q p m
  proof -
    have "lanes - 1 < lanes" using lanes(1) by simp
    then have "p * lanes + (lanes - 1) < np * lanes" using that(3) by (simp only: digit_below)
    then have "p * lanes + (lanes - 1) < len" by (simp add: len(1))
    from pos_digits(3) [OF m this b(2)] show ?thesis using b(1) lanes(1) by (simp add: ac_simps)
  qed
  have rg: "length (regs b j) = radix" "\<And>m. m < radix \<Longrightarrow> j + m * len + lanes \<le> length b \<Longrightarrow> length (regs b j ! m) = lanes" for b j
    by (simp_all add: regs_def)
  have fr: "length (f (regs b j) ! m) = lanes \<and> (\<forall>l<lanes. f (regs b j) ! m ! l = g (map (\<lambda>r. r ! l) (regs b j)) ! m)"
    if "m < radix" "\<And>m. m < radix \<Longrightarrow> j + m * len + lanes \<le> length b" for b j m
  proof -
    have "lanes \<le> length b - (j + m * len)" if "m < radix" for m using \<open>\<And>m. m < radix \<Longrightarrow> _\<close> [OF that] by linarith
    then have "\<forall>r\<in>set (regs b j). length r = lanes" by (auto simp: regs_def intro!: min_absorb2)
    then show ?thesis using f that(1) rg(1) by (auto simp: lanewise_def)
  qed
  have st: "length (step b (q * ?w + p * lanes)) = nq * ?w \<and>
      (\<forall>m<radix. \<forall>l<lanes. step b (q * ?w + p * lanes) ! (q * ?w + p * lanes + m * len + l) = f (regs b (q * ?w + p * lanes)) ! m ! l) \<and>
      (\<forall>k. (\<forall>m<radix. \<not> (q * ?w + p * lanes + m * len \<le> k \<and> k < q * ?w + p * lanes + m * len + lanes)) \<longrightarrow>
        step b (q * ?w + p * lanes) ! k = b ! k)"
    if b: "length b = nq * ?w" "q < nq" "p < np" for b q p
    using stores_nth [OF lanes(2) fit [OF b], of radix "f (regs b (q * ?w + p * lanes))"] fr [OF _ fit [OF b]] b(1)
    unfolding step_def by simp
  have out: "step b (q * ?w + p * lanes) ! k = b ! k"
    if b: "length b = nq * ?w" "q < nq" "p < np" and k: "k div ?w \<noteq> q \<or> k mod len div lanes \<noteq> p" for b q p k
  proof -
    have "\<not> (q * ?w + p * lanes + m * len \<le> k \<and> k < q * ?w + p * lanes + m * len + lanes)" if m: "m < radix" for m
    proof
      assume a: "q * ?w + p * lanes + m * len \<le> k \<and> k < q * ?w + p * lanes + m * len + lanes"
      define l where "l = k - (q * ?w + p * lanes + m * len)"
      have l: "l < lanes" "k = q * ?w + m * len + (p * lanes + l)" using a by (auto simp: l_def)
      have "p * lanes + l < len" using l(1) b(3) by (simp add: len(1) digit_below)
      then show False using k pos_digits(1,2) [OF m, of "p * lanes + l" len q] l by simp
    qed
    then show ?thesis using st [OF b] by blast
  qed
  have val: "step b (q * ?w + p * lanes) ! (q * ?w + m * len + (p * lanes + l))
      = g (map (\<lambda>m. b ! (q * ?w + m * len + (p * lanes + l))) [0..<radix]) ! m"
    if b: "length b = nq * ?w" "q < nq" "p < np" and m: "m < radix" and l: "l < lanes" for b q p m l
  proof -
    have rm: "map (\<lambda>r. r ! l) (regs b (q * ?w + p * lanes)) = map (\<lambda>m. b ! (q * ?w + m * len + (p * lanes + l))) [0..<radix]"
    proof (rule nth_equalityI)
      fix i
      assume "i < length (map (\<lambda>r. r ! l) (regs b (q * ?w + p * lanes)))"
      then have i: "i < radix" by (simp add: regs_def)
      then show "map (\<lambda>r. r ! l) (regs b (q * ?w + p * lanes)) ! i = map (\<lambda>m. b ! (q * ?w + m * len + (p * lanes + l))) [0..<radix] ! i"
        using fit [OF b i] l by (simp add: regs_def ac_simps)
    qed (simp add: regs_def)
    have e: "q * ?w + m * len + (p * lanes + l) = q * ?w + p * lanes + m * len + l" by simp
    have "step b (q * ?w + p * lanes) ! (q * ?w + p * lanes + m * len + l) = f (regs b (q * ?w + p * lanes)) ! m ! l"
      using st [OF b] m l by blast
    also have "\<dots> = g (map (\<lambda>r. r ! l) (regs b (q * ?w + p * lanes))) ! m" using fr [OF m fit [OF b]] l by blast
    finally show ?thesis by (simp only: e rm)
  qed
  have lens: "length (step b (q * ?w + p * lanes)) = nq * ?w" if "length b = nq * ?w" "q < nq" "p < np" for b q p
    using st [OF that] by blast
  show "length (vec_pass lanes radix f len (nq * ?w) blk) = nq * ?w"
    unfolding s by (rule pass_nth(1) [where radix = radix and len = len and lanes = lanes and F = "\<lambda>xs m. g xs ! m"])
      (use len(1) block lens out val in simp_all)
  show "vec_pass lanes radix f len (nq * ?w) blk ! (q * ?w + m * len + r)
      = g (map (\<lambda>m. blk ! (q * ?w + m * len + r)) [0..<radix]) ! m"
    if "q < nq" "m < radix" "r < len"
    unfolding s by (rule pass_nth(2) [where radix = radix and len = len and lanes = lanes and F = "\<lambda>xs m. g xs ! m"])
      (use len(1) block lens out val that in simp_all)
qed

section \<open>Passes of radix 2, 4 and 8 are one, two and three stages\<close>

lemma radix_lanewise:
  "lanewise lanes 2 (radix2 (map2 add) (map2 sub)) (radix2 add sub)"
  "lanewise lanes 4 (radix4 (map2 add) (map2 sub)) (radix4 add sub)"
  "lanewise lanes 8 (radix8 (map2 add) (map2 sub)) (radix8 add sub)"
proof -
  have rs: "length (rs ! i) = lanes" if "length rs = n" "\<forall>r\<in>set rs. length r = lanes" "i < n" for rs :: "'a list list" and n i
    using that by simp
  show "lanewise lanes 2 (radix2 (map2 add) (map2 sub)) (radix2 add sub)"
    unfolding lanewise_def radix2_def
    by (intro allI impI) (auto simp: numeral_eq_Suc less_Suc_eq rs)
  show "lanewise lanes 4 (radix4 (map2 add) (map2 sub)) (radix4 add sub)"
    unfolding lanewise_def radix4_def Let_def
    by (intro allI impI) (auto simp: numeral_eq_Suc less_Suc_eq rs)
  show "lanewise lanes 8 (radix8 (map2 add) (map2 sub)) (radix8 add sub)"
    unfolding lanewise_def radix8_def Let_def
    by (intro allI impI) (auto simp: numeral_eq_Suc less_Suc_eq rs)
qed

lemma stage_length:
  assumes "0 < len" "length blk = block" "block = nq * (2 * len)"
  shows "length (wht_stage add sub len block blk) = block"
  using wht_stage_nth(1) [OF assms(1), of blk nq] assms(2,3) by simp

lemma stage_pair:
  assumes "0 < len" "length blk = block" "block = nq * (2 * len)" "q < nq" "r < len"
  shows "wht_stage add sub len block blk ! (q * (2 * len) + r)
      = add (blk ! (q * (2 * len) + r)) (blk ! (q * (2 * len) + (len + r)))"
    and "wht_stage add sub len block blk ! (q * (2 * len) + (len + r))
      = sub (blk ! (q * (2 * len) + r)) (blk ! (q * (2 * len) + (len + r)))"
  using wht_stage_nth(2) [OF assms(1), of blk nq q 0 r add sub] wht_stage_nth(2) [OF assms(1), of blk nq q 1 r add sub] assms
  by (simp_all add: radix2_def numeral_2_eq_2 ac_simps)

lemma radix8_tree:
  fixes x y1 y2 y3 :: "nat \<Rightarrow> 'a"
  assumes y1: "\<And>c. c < 4 \<Longrightarrow> y1 (2 * c) = add (x (2 * c)) (x (2 * c + 1)) \<and> y1 (2 * c + 1) = sub (x (2 * c)) (x (2 * c + 1))"
    and y2: "\<And>c e. c < 2 \<Longrightarrow> e < 2 \<Longrightarrow> y2 (4 * c + e) = add (y1 (4 * c + e)) (y1 (4 * c + e + 2)) \<and>
      y2 (4 * c + e + 2) = sub (y1 (4 * c + e)) (y1 (4 * c + e + 2))"
    and y3: "\<And>e. e < 4 \<Longrightarrow> y3 e = add (y2 e) (y2 (e + 4)) \<and> y3 (e + 4) = sub (y2 e) (y2 (e + 4))"
    and m: "m < 8"
  shows "y3 m = radix8 add sub (map x [0..<8]) ! m"
proof -
  have "m = 0 \<or> m = 1 \<or> m = 2 \<or> m = 3 \<or> m = 4 \<or> m = 5 \<or> m = 6 \<or> m = 7" using m by auto
  then show ?thesis
    using y1 [of 0] y1 [of 1] y1 [of 2] y1 [of 3] y2 [of 0 0] y2 [of 0 1] y2 [of 1 0] y2 [of 1 1]
      y3 [of 0] y3 [of 1] y3 [of 2] y3 [of 3]
    by (elim disjE) (simp_all add: radix8_def Let_def numeral_eq_Suc)
qed

lemma pass8_stages:
  assumes len: "len = np * lanes" "0 < len" and block: "length blk = block" "block = nq * (8 * len)"
  shows "vec_pass lanes 8 (radix8 (map2 add) (map2 sub)) len block blk
    = wht_stage add sub (4 * len) block (wht_stage add sub (2 * len) block (wht_stage add sub len block blk))"
proof (rule nth_equalityI)
  let ?y1 = "wht_stage add sub len block blk"
  let ?y2 = "wht_stage add sub (2 * len) block ?y1"
  let ?y3 = "wht_stage add sub (4 * len) block ?y2"
  have lb: "length blk = nq * (8 * len)" using block by simp
  note vp = vec_pass_nth [OF radix_lanewise(3) [of lanes add sub] len zero_less_numeral lb, folded block(2)]
  have b: "block = (4 * nq) * (2 * len)" "block = (2 * nq) * (2 * (2 * len))" "block = nq * (2 * (4 * len))"
    using block(2) by simp_all
  have l: "0 < 2 * len" "0 < 4 * len" using len(2) by simp_all
  have ly: "length ?y1 = block" "length ?y2 = block" "length ?y3 = block"
    by (rule stage_length [OF len(2) block(1) b(1)], rule stage_length [OF l(1) stage_length [OF len(2) block(1) b(1)] b(2)],
        rule stage_length [OF l(2) stage_length [OF l(1) stage_length [OF len(2) block(1) b(1)] b(2)] b(3)])
  show "length (vec_pass lanes 8 (radix8 (map2 add) (map2 sub)) len block blk) = length ?y3"
    using vp(1) block(1) ly(3) by simp
  fix k
  assume "k < length (vec_pass lanes 8 (radix8 (map2 add) (map2 sub)) len block blk)"
  then have "k < nq * (8 * len)" using vp(1) block by simp
  then obtain q m r where d: "q < nq" "m < 8" "r < len" "k = q * (8 * len) + m * len + r" by (rule pos_split)
  define P where "P m = q * (8 * len) + m * len + r" for m
  have y1: "?y1 ! P (2 * c) = add (blk ! P (2 * c)) (blk ! P (2 * c + 1))"
    "?y1 ! P (2 * c + 1) = sub (blk ! P (2 * c)) (blk ! P (2 * c + 1))" if "c < 4" for c
    using stage_pair [OF len(2) block(1) b(1), of "4 * q + c" r add sub] d(1,3) that
    by (simp_all add: P_def algebra_simps)
  have y2: "?y2 ! P (4 * c + e) = add (?y1 ! P (4 * c + e)) (?y1 ! P (4 * c + e + 2))"
    "?y2 ! P (4 * c + e + 2) = sub (?y1 ! P (4 * c + e)) (?y1 ! P (4 * c + e + 2))" if "c < 2" "e < 2" for c e
  proof -
    have "e * len + r < 2 * len" using d(3) that(2) by (simp only: digit_below)
    then show "?y2 ! P (4 * c + e) = add (?y1 ! P (4 * c + e)) (?y1 ! P (4 * c + e + 2))"
      "?y2 ! P (4 * c + e + 2) = sub (?y1 ! P (4 * c + e)) (?y1 ! P (4 * c + e + 2))"
      using stage_pair [OF l(1) ly(1) b(2), of "2 * q + c" "e * len + r" add sub] d(1) that
      by (simp_all add: P_def algebra_simps)
  qed
  have y3: "?y3 ! P e = add (?y2 ! P e) (?y2 ! P (e + 4))" "?y3 ! P (e + 4) = sub (?y2 ! P e) (?y2 ! P (e + 4))" if "e < 4" for e
  proof -
    have "e * len + r < 4 * len" using d(3) that by (simp only: digit_below)
    then show "?y3 ! P e = add (?y2 ! P e) (?y2 ! P (e + 4))" "?y3 ! P (e + 4) = sub (?y2 ! P e) (?y2 ! P (e + 4))"
      using stage_pair [OF l(2) ly(2) b(3), of q "e * len + r" add sub] d(1)
      by (simp_all add: P_def algebra_simps)
  qed
  have "?y3 ! P m = radix8 add sub (map (\<lambda>m. blk ! P m) [0..<8]) ! m"
    by (rule radix8_tree [of "\<lambda>m. ?y1 ! P m" add _ sub "\<lambda>m. ?y2 ! P m" "\<lambda>m. ?y3 ! P m"])
      (simp_all only: y1 y2 y3 d(2) simp_thms)
  then show "vec_pass lanes 8 (radix8 (map2 add) (map2 sub)) len block blk ! k = ?y3 ! k"
    using vp(2) [OF d(1-3)] by (simp add: d(4) P_def)
qed

lemma pass2_stage:
  assumes len: "len = np * lanes" "0 < len" and block: "length blk = block" "block = nq * (2 * len)"
  shows "vec_pass lanes 2 (radix2 (map2 add) (map2 sub)) len block blk = wht_stage add sub len block blk"
proof (rule nth_equalityI)
  have lb: "length blk = nq * (2 * len)" using block by simp
  note vp = vec_pass_nth [OF radix_lanewise(1) [of lanes add sub] len zero_less_numeral lb, folded block(2)]
    and st = wht_stage_nth [OF len(2) lb, where add = add and sub = sub, folded block(2)]
  show "length (vec_pass lanes 2 (radix2 (map2 add) (map2 sub)) len block blk) = length (wht_stage add sub len block blk)"
    by (simp only: vp(1) st(1))
  fix k
  assume "k < length (vec_pass lanes 2 (radix2 (map2 add) (map2 sub)) len block blk)"
  then have "k < nq * (2 * len)" using vp(1) block by simp
  then obtain q m r where d: "q < nq" "m < 2" "r < len" "k = q * (2 * len) + m * len + r" by (rule pos_split)
  show "vec_pass lanes 2 (radix2 (map2 add) (map2 sub)) len block blk ! k = wht_stage add sub len block blk ! k"
    unfolding d(4) vp(2) [OF d(1-3)] st(2) [OF d(1-3)] ..
qed

lemma pass4_stages:
  assumes len: "len = np * lanes" "0 < len" and block: "length blk = block" "block = nq * (4 * len)"
  shows "vec_pass lanes 4 (radix4 (map2 add) (map2 sub)) len block blk
    = wht_stage add sub (2 * len) block (wht_stage add sub len block blk)"
proof (rule nth_equalityI)
  let ?y1 = "wht_stage add sub len block blk"
  let ?y2 = "wht_stage add sub (2 * len) block ?y1"
  have lb: "length blk = nq * (4 * len)" using block by simp
  note vp = vec_pass_nth [OF radix_lanewise(2) [of lanes add sub] len zero_less_numeral lb, folded block(2)]
  have b: "block = (2 * nq) * (2 * len)" "block = nq * (2 * (2 * len))" using block(2) by simp_all
  have l: "0 < 2 * len" using len(2) by simp
  have ly: "length ?y1 = block" "length ?y2 = block"
    by (rule stage_length [OF len(2) block(1) b(1)], rule stage_length [OF l stage_length [OF len(2) block(1) b(1)] b(2)])
  show "length (vec_pass lanes 4 (radix4 (map2 add) (map2 sub)) len block blk) = length ?y2"
    using vp(1) ly(2) by simp
  fix k
  assume "k < length (vec_pass lanes 4 (radix4 (map2 add) (map2 sub)) len block blk)"
  then have "k < nq * (4 * len)" using vp(1) block by simp
  then obtain q m r where d: "q < nq" "m < 4" "r < len" "k = q * (4 * len) + m * len + r" by (rule pos_split)
  define P where "P m = q * (4 * len) + m * len + r" for m
  have y1: "?y1 ! P (2 * c) = add (blk ! P (2 * c)) (blk ! P (2 * c + 1))"
    "?y1 ! P (2 * c + 1) = sub (blk ! P (2 * c)) (blk ! P (2 * c + 1))" if "c < 2" for c
    using stage_pair [OF len(2) block(1) b(1), of "2 * q + c" r add sub] d(1,3) that
    by (simp_all add: P_def algebra_simps)
  have y2: "?y2 ! P e = add (?y1 ! P e) (?y1 ! P (e + 2))" "?y2 ! P (e + 2) = sub (?y1 ! P e) (?y1 ! P (e + 2))" if "e < 2" for e
  proof -
    have "e * len + r < 2 * len" using d(3) that by (simp only: digit_below)
    then show "?y2 ! P e = add (?y1 ! P e) (?y1 ! P (e + 2))" "?y2 ! P (e + 2) = sub (?y1 ! P e) (?y1 ! P (e + 2))"
      using stage_pair [OF l ly(1) b(2), of q "e * len + r" add sub] d(1)
      by (simp_all add: P_def algebra_simps)
  qed
  have tree: "y2 m = radix4 add sub (map x [0..<4]) ! m"
    if y1: "\<And>c. c < 2 \<Longrightarrow> y1 (2 * c) = add (x (2 * c)) (x (2 * c + 1)) \<and> y1 (2 * c + 1) = sub (x (2 * c)) (x (2 * c + 1))"
      and y2: "\<And>e. e < 2 \<Longrightarrow> y2 e = add (y1 e) (y1 (e + 2)) \<and> y2 (e + 2) = sub (y1 e) (y1 (e + 2))"
    for x y1 y2 :: "nat \<Rightarrow> 'a"
  proof -
    have "m = 0 \<or> m = 1 \<or> m = 2 \<or> m = 3" using d(2) by auto
    then show ?thesis
      using y1 [of 0] y1 [of 1] y2 [of 0] y2 [of 1] by (elim disjE) (simp_all add: radix4_def Let_def numeral_eq_Suc)
  qed
  have "?y2 ! P m = radix4 add sub (map (\<lambda>m. blk ! P m) [0..<4]) ! m"
    by (rule tree [of "\<lambda>m. ?y1 ! P m" _ "\<lambda>m. ?y2 ! P m"]) (simp_all only: y1 y2 simp_thms)
  then show "vec_pass lanes 4 (radix4 (map2 add) (map2 sub)) len block blk ! k = ?y2 ! k"
    using vp(2) [OF d(1-3)] by (simp add: d(4) P_def)
qed

section \<open>The stages inside a register\<close>

lemma head_pass_nth:
  assumes f: "\<And>xs. length xs = w \<Longrightarrow> length (f xs) = w" and w: "0 < w" and block: "length blk = nq * w"
  shows "length (head_pass w f (nq * w) blk) = nq * w"
    and "q < nq \<Longrightarrow> m < w \<Longrightarrow> head_pass w f (nq * w) blk ! (q * w + m) = f (map (\<lambda>m. blk ! (q * w + m)) [0..<w]) ! m"
proof -
  define step where "step b j = overwrite j (f (take w (drop j b))) b" for b j
  have s: "head_pass w f (nq * w) blk
      = foldl (\<lambda>b i. foldl step b (map (\<lambda>p. i + p * 1) [0..<1])) blk (map (\<lambda>q. q * (w * 1)) [0..<nq])"
    unfolding head_pass_def step_def bases_by [OF w] by simp
  have fit: "q * w + w \<le> nq * w" if "q < nq" for q
    using mult_le_mono1 [of "Suc q" nq w] that by simp
  have sl: "take w (drop (q * w) b) = map (\<lambda>m. b ! (q * w + m)) [0..<w]" if "q < nq" "length b = nq * w" for q and b :: "'a list"
  proof (rule nth_equalityI)
    have "q * w \<le> length b" using fit [OF that(1)] unfolding that(2) by linarith
    then show "take w (drop (q * w) b) ! i = map (\<lambda>m. b ! (q * w + m)) [0..<w] ! i" if "i < length (take w (drop (q * w) b))" for i
      using that by simp
  qed (use fit [OF that(1)] that(2) in simp)
  have ov: "length (step b (q * w)) = nq * w \<and> step b (q * w) ! k
      = (if q * w \<le> k \<and> k < q * w + w then f (map (\<lambda>m. b ! (q * w + m)) [0..<w]) ! (k - q * w) else b ! k)"
    if "q < nq" "length b = nq * w" for b q k
  proof -
    have "q * w + length (f (take w (drop (q * w) b))) \<le> length b"
      using fit [OF that(1)] that(2) by (simp add: sl [OF that] f)
    then show ?thesis using that(2) unfolding step_def sl [OF that] by (simp add: length_overwrite nth_overwrite f)
  qed
  have out: "step b (q * w) ! k = b ! k" if "length b = nq * w" "q < nq" "k div w \<noteq> q" for b q k
  proof -
    have "\<not> (q * w \<le> k \<and> k < q * w + w)"
    proof
      assume "q * w \<le> k \<and> k < q * w + w"
      then have "k div w = q" by (intro div_nat_eqI) (simp_all add: mult.commute)
      then show False using that(3) by simp
    qed
    then show ?thesis using ov [OF that(2,1), of k] by auto
  qed
  show "length (head_pass w f (nq * w) blk) = nq * w"
    unfolding s using pass_nth(1) [where radix = w and len = 1 and lanes = 1 and np = 1 and F = "\<lambda>xs m. f xs ! m"
        and step = step and nq = nq and blk = blk] block ov out by simp
  show "head_pass w f (nq * w) blk ! (q * w + m) = f (map (\<lambda>m. blk ! (q * w + m)) [0..<w]) ! m" if "q < nq" "m < w"
    unfolding s using pass_nth(2) [where radix = w and len = 1 and lanes = 1 and np = 1 and F = "\<lambda>xs m. f xs ! m"
        and q = q and m = m and r = 0 and step = step and nq = nq and blk = blk] that block ov out by simp
qed

lemma eight: "length v = 8 \<Longrightarrow> \<exists>a b c d e f g h. v = [a, b, c, d, e, f, g, h]"
  by (auto simp: length_Suc_conv numeral_eq_Suc)

lemma lanes8:
  "mm_shuffle_ps 160 [a, b, c, d, e, f, g, h] = [a, a, c, c, e, e, g, g]"
  "mm_shuffle_ps 245 [a, b, c, d, e, f, g, h] = [b, b, d, d, f, f, h, h]"
  "mm_shuffle_ps 68 [a, b, c, d, e, f, g, h] = [a, b, a, b, e, f, e, f]"
  "mm_shuffle_ps 238 [a, b, c, d, e, f, g, h] = [c, d, c, d, g, h, g, h]"
  "mm256_permute2f128 0 [a, b, c, d, e, f, g, h] = [a, b, c, d, a, b, c, d]"
  "mm256_permute2f128 17 [a, b, c, d, e, f, g, h] = [e, f, g, h, e, f, g, h]"
  "mm_blend 170 [a, b, c, d, e, f, g, h] [a', b', c', d', e', f', g', h'] = [a, b', c, d', e, f', g, h']"
  "mm_blend 204 [a, b, c, d, e, f, g, h] [a', b', c', d', e', f', g', h'] = [a, b, c', d', e, f, g', h']"
  "mm_blend 240 [a, b, c, d, e, f, g, h] [a', b', c', d', e', f', g', h'] = [a, b, c, d, e', f', g', h']"
  by (simp_all add: mm_shuffle_ps_def mm256_permute2f128_def mm_blend_def upt_rec)

lemma avx2_head_radix8:
  assumes "length v = 8"
  shows "avx2_head add sub v = radix8 add sub v"
proof -
  obtain a b c d e f g h where v: "v = [a, b, c, d, e, f, g, h]" using eight [OF assms] by blast
  show ?thesis by (simp add: v avx2_head_def radix8_def lanes8 Let_def)
qed

lemma neon_head_radix4:
  assumes "length v = 8"
  shows "neon_head add sub v = radix4 add sub (take 4 v) @ radix4 add sub (drop 4 v)"
proof -
  obtain a b c d e f g h where v: "v = [a, b, c, d, e, f, g, h]" using eight [OF assms] by blast
  show ?thesis
    by (simp add: v neon_head_def radix4_def vtrn1q_def vtrn2q_def Let_def numeral_eq_Suc)
qed

lemma sixteen: "length v = 16 \<Longrightarrow> \<exists>x y. v = x @ y \<and> length x = 8 \<and> length y = 8"
  by (intro exI [of _ "take 8 v"] exI [of _ "drop 8 v"]) simp

lemma lanes16:
  assumes "length x = 8" "length y = 8"
  shows "i \<in> {68, 160, 238, 245} \<Longrightarrow> mm_shuffle_ps i (x @ y) = mm_shuffle_ps i x @ mm_shuffle_ps i y"
    "mm512_shuffle_f32x4 160 (x @ y) = mm256_permute2f128 0 x @ mm256_permute2f128 0 y"
    "mm512_shuffle_f32x4 245 (x @ y) = mm256_permute2f128 17 x @ mm256_permute2f128 17 y"
    "mm512_shuffle_f32x4 68 (x @ y) = x @ x" "mm512_shuffle_f32x4 238 (x @ y) = y @ y"
proof -
  obtain a b c d e f g h where x: "x = [a, b, c, d, e, f, g, h]" using eight [OF assms(1)] by blast
  obtain i j k l m n p q where y: "y = [i, j, k, l, m, n, p, q]" using eight [OF assms(2)] by blast
  show "mm_shuffle_ps i (x @ y) = mm_shuffle_ps i x @ mm_shuffle_ps i y" if "i \<in> {68, 160, 238, 245}" for i
    using that by (auto simp: x y mm_shuffle_ps_def upt_rec)
  show "mm512_shuffle_f32x4 160 (x @ y) = mm256_permute2f128 0 x @ mm256_permute2f128 0 y"
    "mm512_shuffle_f32x4 245 (x @ y) = mm256_permute2f128 17 x @ mm256_permute2f128 17 y"
    "mm512_shuffle_f32x4 68 (x @ y) = x @ x" "mm512_shuffle_f32x4 238 (x @ y) = y @ y"
    by (simp_all add: x y mm512_shuffle_f32x4_def mm256_permute2f128_def upt_rec)
qed

lemma blends16:
  assumes "length x = 8" "length y = 8" "length x' = 8" "length y' = 8"
  shows "mm_blend 43690 (x @ y) (x' @ y') = mm_blend 170 x x' @ mm_blend 170 y y'"
    "mm_blend 52428 (x @ y) (x' @ y') = mm_blend 204 x x' @ mm_blend 204 y y'"
    "mm_blend 61680 (x @ y) (x' @ y') = mm_blend 240 x x' @ mm_blend 240 y y'"
    "mm_blend 65280 (x @ y) (x' @ y') = x @ y'"
proof -
  obtain a b c d e f g h where x: "x = [a, b, c, d, e, f, g, h]" using eight [OF assms(1)] by blast
  obtain i j k l m n p q where y: "y = [i, j, k, l, m, n, p, q]" using eight [OF assms(2)] by blast
  obtain a' b' c' d' e' f' g' h' where x': "x' = [a', b', c', d', e', f', g', h']" using eight [OF assms(3)] by blast
  obtain i' j' k' l' m' n' p' q' where y': "y' = [i', j', k', l', m', n', p', q']" using eight [OF assms(4)] by blast
  show "mm_blend 43690 (x @ y) (x' @ y') = mm_blend 170 x x' @ mm_blend 170 y y'"
    "mm_blend 52428 (x @ y) (x' @ y') = mm_blend 204 x x' @ mm_blend 204 y y'"
    "mm_blend 61680 (x @ y) (x' @ y') = mm_blend 240 x x' @ mm_blend 240 y y'"
    "mm_blend 65280 (x @ y) (x' @ y') = x @ y'"
    by (simp_all add: x y x' y' mm_blend_def upt_rec)
qed

lemma length_lanes:
  "length (mm_shuffle_ps i v) = length v" "length (mm_blend i v w) = length v"
  "length v = 8 \<Longrightarrow> length (mm256_permute2f128 i v) = 8"
  by (simp_all add: mm_shuffle_ps_def mm_blend_def mm256_permute2f128_def mod_2_eq_odd)

lemma avx512_head_radix8:
  assumes "length v = 16"
  shows "avx512_head add sub v
    = (let x = radix8 add sub (take 8 v); y = radix8 add sub (drop 8 v) in map2 add x y @ map2 sub x y)"
proof -
  obtain x y where v: "v = x @ y" "length x = 8" "length y = 8" using sixteen [OF assms] by blast
  have "avx512_head add sub v
      = (let x = avx2_head add sub x; y = avx2_head add sub y in map2 add x y @ map2 sub x y)"
    by (simp add: v avx512_head_def avx2_head_def Let_def lanes16 blends16 length_lanes)
  then show ?thesis using v by (simp add: avx2_head_radix8)
qed

lemma length_radix: "length (radix4 add sub v) = 4" "length (radix8 add sub v) = 8"
  by (simp_all add: radix4_def radix8_def Let_def)

lemma head8_stages:
  assumes block: "length blk = block" "block = nq * 8"
  shows "head_pass 8 (avx2_head add sub) block blk
    = wht_stage add sub 4 block (wht_stage add sub 2 block (wht_stage add sub 1 block blk))"
proof -
  have "head_pass 8 (avx2_head add sub) block blk = vec_pass 1 8 (radix8 (map2 add) (map2 sub)) 1 block blk"
  proof (rule nth_equalityI)
    have lb: "length blk = nq * (8 * 1)" "length blk = nq * 8" using block by simp_all
    have f: "length (avx2_head add sub xs) = 8" if "length xs = 8" for xs using that by (simp add: avx2_head_radix8 length_radix)
    note hp = head_pass_nth [of 8 "avx2_head add sub", OF f _ lb(2), folded block(2)]
      and vp = vec_pass_nth [OF radix_lanewise(3) [of 1 add sub], of 1 1 blk nq, OF _ _ _ lb(1)]
    have b: "nq * (8 * 1) = block" using block(2) by simp
    show "length (head_pass 8 (avx2_head add sub) block blk) = length (vec_pass 1 8 (radix8 (map2 add) (map2 sub)) 1 block blk)"
      using hp(1) vp(1) b by simp
    fix k
    assume "k < length (head_pass 8 (avx2_head add sub) block blk)"
    then have "k < nq * (8 * 1)" using hp(1) block by simp
    then obtain q m r where d: "q < nq" "m < 8" "r < 1" "k = q * (8 * 1) + m * 1 + r" by (rule pos_split)
    have "head_pass 8 (avx2_head add sub) block blk ! (q * 8 + m) = radix8 add sub (map (\<lambda>m. blk ! (q * 8 + m)) [0..<8]) ! m"
      using hp(2) [OF _ _ d(1,2)] by (simp add: avx2_head_radix8)
    also have "\<dots> = vec_pass 1 8 (radix8 (map2 add) (map2 sub)) 1 block blk ! (q * (8 * 1) + m * 1 + 0)"
      using vp(2) [OF _ _ _ d(1,2), of 0] b by simp
    finally show "head_pass 8 (avx2_head add sub) block blk ! k = vec_pass 1 8 (radix8 (map2 add) (map2 sub)) 1 block blk ! k"
      using d(3,4) by simp
  qed
  then show ?thesis using pass8_stages [of 1 1 1 blk block nq add sub] block by simp
qed

lemma neon_head_stages:
  assumes block: "length blk = block" "block = nq * 8"
  shows "head_pass 8 (neon_head add sub) block blk = wht_stage add sub 2 block (wht_stage add sub 1 block blk)"
proof -
  have "head_pass 8 (neon_head add sub) block blk = vec_pass 1 4 (radix4 (map2 add) (map2 sub)) 1 block blk"
  proof (rule nth_equalityI)
    have lb: "length blk = 2 * nq * (4 * 1)" "length blk = nq * 8" using block by simp_all
    have f: "length (neon_head add sub xs) = 8" if "length xs = 8" for xs using that by (simp add: neon_head_radix4 length_radix)
    note hp = head_pass_nth [of 8 "neon_head add sub", OF f _ lb(2), folded block(2)]
      and vp = vec_pass_nth [OF radix_lanewise(2) [of 1 add sub], of 1 1 blk "2 * nq", OF _ _ _ lb(1)]
    have b: "2 * nq * (4 * 1) = block" using block(2) by simp
    show "length (head_pass 8 (neon_head add sub) block blk) = length (vec_pass 1 4 (radix4 (map2 add) (map2 sub)) 1 block blk)"
      using hp(1) vp(1) b by simp
    fix k
    assume "k < length (head_pass 8 (neon_head add sub) block blk)"
    then have "k < nq * (8 * 1)" using hp(1) block by simp
    then obtain q m r where d: "q < nq" "m < 8" "r < 1" "k = q * (8 * 1) + m * 1 + r" by (rule pos_split)
    define h where "h = m div 4"
    have h: "2 * q + h < 2 * nq" "m mod 4 < 4" "m = h * 4 + m mod 4" "h < 2" using d(1,2) by (simp_all add: h_def)
    let ?v = "map (\<lambda>m. blk ! (q * 8 + m)) [0..<8]"
    have half: "take 4 (drop (h * 4) ?v) = map (\<lambda>j. blk ! ((2 * q + h) * 4 + j)) [0..<4]"
      using h(4) by (intro nth_equalityI) (auto simp: algebra_simps)
    have "head_pass 8 (neon_head add sub) block blk ! (q * 8 + m) = neon_head add sub ?v ! m"
      using hp(2) [OF _ _ d(1,2)] by simp
    also have "\<dots> = radix4 add sub (take 4 (drop (h * 4) ?v)) ! (m mod 4)"
    proof (cases "h = 0")
      case True
      then show ?thesis using h by (simp add: neon_head_radix4 nth_append length_radix)
    next
      case False
      then have "h = 1" "m = 4 + m mod 4" using h by simp_all
      moreover from this have "\<not> m < 4" "m - 4 = m mod 4" by linarith+
      ultimately show ?thesis by (simp add: neon_head_radix4 nth_append length_radix)
    qed
    also have "\<dots> = vec_pass 1 4 (radix4 (map2 add) (map2 sub)) 1 block blk ! ((2 * q + h) * (4 * 1) + m mod 4 * 1 + 0)"
      unfolding half using vp(2) [OF _ _ _ h(1,2), of 0] b by simp
    finally have "head_pass 8 (neon_head add sub) block blk ! (q * 8 + m)
        = vec_pass 1 4 (radix4 (map2 add) (map2 sub)) 1 block blk ! ((2 * q + h) * (4 * 1) + m mod 4 * 1 + 0)" .
    moreover have "(2 * q + h) * (4 * 1) + m mod 4 * 1 + 0 = q * 8 + (h * 4 + m mod 4)" by simp
    ultimately have "head_pass 8 (neon_head add sub) block blk ! (q * 8 + m)
        = vec_pass 1 4 (radix4 (map2 add) (map2 sub)) 1 block blk ! (q * 8 + m)"
      by (simp only: h(3) [symmetric])
    then show "head_pass 8 (neon_head add sub) block blk ! k = vec_pass 1 4 (radix4 (map2 add) (map2 sub)) 1 block blk ! k"
      using d(3,4) by simp
  qed
  then show ?thesis using pass4_stages [of 1 1 1 blk block "2 * nq" add sub] block by simp
qed

lemma avx512_head_stages:
  assumes block: "length blk = block" "block = nq * 16"
  shows "head_pass 16 (avx512_head add sub) block blk
    = wht_stage add sub 8 block (wht_stage add sub 4 block (wht_stage add sub 2 block (wht_stage add sub 1 block blk)))"
proof (rule nth_equalityI)
  let ?y = "wht_stage add sub 4 block (wht_stage add sub 2 block (wht_stage add sub 1 block blk))"
  have b: "block = 2 * nq * (8 * 1)" "block = nq * (2 * 8)" "block = 2 * nq * 8" using block by simp_all
  have lb: "length blk = nq * 16" "length blk = 2 * nq * (8 * 1)" using block by simp_all
  have y: "?y = vec_pass 1 8 (radix8 (map2 add) (map2 sub)) 1 block blk"
    using pass8_stages [of 1 1 1 blk block "2 * nq" add sub, unfolded mult_1_right, OF refl zero_less_one block(1) b(3)] ..
  note vp = vec_pass_nth [OF radix_lanewise(3) [of 1 add sub], of 1 1 blk "2 * nq", OF _ _ _ lb(2)]
  have ly: "length ?y = block" unfolding y using vp(1) b(1) by simp
  have f: "length (avx512_head add sub xs) = 16" if "length xs = 16" for xs
    using that by (simp add: avx512_head_radix8 length_radix Let_def)
  note hp = head_pass_nth [of 16 "avx512_head add sub", OF f _ lb(1), folded block(2)]
  have st: "length (wht_stage add sub 8 block ?y) = block" by (rule stage_length [OF _ ly b(2)]) simp
  show "length (head_pass 16 (avx512_head add sub) block blk) = length (wht_stage add sub 8 block ?y)"
    using hp(1) st by simp
  fix k
  assume "k < length (head_pass 16 (avx512_head add sub) block blk)"
  then have "k < nq * (2 * 8)" using hp(1) block by simp
  then obtain q m r where d: "q < nq" "m < 2" "r < 8" "k = q * (2 * 8) + m * 8 + r" by (rule pos_split)
  let ?v = "map (\<lambda>m. blk ! (q * 16 + m)) [0..<16]"
  have yv: "?y ! (q * (2 * 8) + h * 8 + r) = radix8 add sub (take 8 (drop (h * 8) ?v)) ! r" if "h < 2" for h
  proof -
    have "2 * q + h < 2 * nq" using d(1) that by simp
    then have "?y ! ((2 * q + h) * (8 * 1) + r * 1 + 0) = radix8 add sub (map (\<lambda>m. blk ! ((2 * q + h) * (8 * 1) + m * 1 + 0)) [0..<8]) ! r"
      unfolding y using vp(2) [OF _ _ _ _ d(3), of "2 * q + h" 0] b(1) by simp
    moreover have "map (\<lambda>m. blk ! ((2 * q + h) * (8 * 1) + m * 1 + 0)) [0..<8] = take 8 (drop (h * 8) ?v)"
      using that by (intro nth_equalityI) (auto simp: algebra_simps)
    ultimately show ?thesis by (simp add: algebra_simps)
  qed
  have m01: "m = 0 \<or> m = 1" using d(2) by auto
  have "head_pass 16 (avx512_head add sub) block blk ! (q * 16 + (m * 8 + r)) = avx512_head add sub ?v ! (m * 8 + r)"
    using hp(2) [OF _ _ d(1), of "m * 8 + r"] d(2,3) by simp
  also have "\<dots> = (if m = 0 then add else sub) (?y ! (q * (2 * 8) + 0 * 8 + r)) (?y ! (q * (2 * 8) + 1 * 8 + r))"
    using m01 d(3) yv [of 0] yv [of 1] by (elim disjE) (simp_all add: avx512_head_radix8 Let_def length_radix nth_append)
  also have "\<dots> = wht_stage add sub 8 block ?y ! (q * (2 * 8) + m * 8 + r)"
    using stage_pair [OF _ ly b(2) d(1,3), of add sub] m01 by (elim disjE) (simp_all add: add.assoc)
  finally show "head_pass 16 (avx512_head add sub) block blk ! k = wht_stage add sub 8 block ?y ! k"
    by (simp add: d(4) add.assoc)
qed

section \<open>The kernels agree with the ladder\<close>

lemma wht_passes_stages:
  assumes "block = len * 2 ^ j" and "len = np * lanes" and "0 < len" and "length blk = block"
  shows "wht_passes add sub lanes len block blk = wht_stages add sub len block blk"
  using assms
proof (induction j arbitrary: len np blk rule: less_induct)
  case (less j)
  note len = less.prems(2,3) and lb = less.prems(4)
  consider "j = 0" | "j = 1" | "j = 2" | i where "j = i + 3"
    using less_Suc_eq nat_less_le by (metis (no_types, lifting) add.commute le_add_diff_inverse less_one not_less numeral_2_eq_2 numeral_3_eq_3 One_nat_def)
  then show ?case
  proof cases
    case 1
    then show ?thesis using less.prems by (simp add: wht_passes_def wht_radix8.simps wht_stages.simps)
  next
    case 2
    have b: "block = 1 * (2 * len)" using less.prems(1) 2 by simp
    have "wht_passes add sub lanes len block blk = vec_pass lanes 2 (radix2 (map2 add) (map2 sub)) len block blk"
      using b len by (simp add: wht_passes_def wht_radix8.simps)
    also have "\<dots> = wht_stage add sub len block blk" by (rule pass2_stage [OF len lb b])
    also have "\<dots> = wht_stages add sub len block blk"
      using b len wht_stages.simps [of add sub len block blk] wht_stages.simps [of add sub "2 * len" block] by simp
    finally show ?thesis .
  next
    case 3
    have b: "block = 1 * (4 * len)" using less.prems(1) 3 by simp
    have "wht_passes add sub lanes len block blk = vec_pass lanes 4 (radix4 (map2 add) (map2 sub)) len block blk"
      using b len by (simp add: wht_passes_def wht_radix8.simps)
    also have "\<dots> = wht_stage add sub (2 * len) block (wht_stage add sub len block blk)" by (rule pass4_stages [OF len lb b])
    also have "\<dots> = wht_stages add sub len block blk"
      using b len wht_stages.simps [of add sub len block blk] wht_stages.simps [of add sub "2 * len" block]
        wht_stages.simps [of add sub "4 * len" block] by simp
    finally show ?thesis .
  next
    case 4
    have b: "block = 2 ^ i * (8 * len)" using less.prems(1) 4 by (simp add: power_add)
    let ?b = "vec_pass lanes 8 (radix8 (map2 add) (map2 sub)) len block blk"
    have "8 * len \<le> block" unfolding b by simp
    then have lt: "4 * len < block" using len(2) by linarith
    have p8: "?b = wht_stage add sub (4 * len) block (wht_stage add sub (2 * len) block (wht_stage add sub len block blk))"
      by (rule pass8_stages [OF len lb b])
    have l8: "length ?b = block"
      using vec_pass_nth(1) [OF radix_lanewise(3) [of lanes add sub] len, of blk "2 ^ i"] lb b by simp
    have "wht_passes add sub lanes len block blk = wht_passes add sub lanes (8 * len) block ?b"
    proof -
      have "wht_radix8 add sub lanes len block blk = wht_radix8 add sub lanes (8 * len) block ?b"
        using lt len(2) by (subst wht_radix8.simps) (simp only: simp_thms if_True)
      then show ?thesis by (simp only: wht_passes_def)
    qed
    also have "\<dots> = wht_stages add sub (8 * len) block ?b"
      by (rule less.IH [of i "8 * len" "8 * np"]) (use less.prems 4 b l8 in simp_all)
    also have "\<dots> = wht_stages add sub len block blk"
      unfolding p8 using lt len wht_stages.simps [of add sub len block] wht_stages.simps [of add sub "2 * len" block]
        wht_stages.simps [of add sub "4 * len" block] by simp
    finally show ?thesis .
  qed
qed

theorem wht_kernels_agree:
  assumes block: "block = 2 ^ e" "8 \<le> block" and blk: "length blk = block"
  shows "wht_block k add sub mul blk block s = wht_block_scalar add sub mul blk block s"
proof -
  have "3 \<le> e"
  proof (rule ccontr)
    assume "\<not> 3 \<le> e"
    then have "(2 :: nat) ^ e \<le> 2 ^ 2" by (intro power_increasing) simp_all
    then show False using block by simp
  qed
  then obtain i where i: "e = 3 + i" using le_Suc_ex by blast
  have b8: "block = 2 ^ i * 8" "block = 8 * 2 ^ i" "block = 4 * 2 ^ (i + 1)" using block(1) i by (simp_all add: power_add)
  have b2: "block = 2 ^ i * 4 * (2 * 1)" "block = 2 ^ i * 2 * (2 * 2)" "block = 2 ^ i * (2 * 4)" using b8 by simp_all
  note len1 = stage_length [OF zero_less_one blk b2(1), of add sub]
  note len2 = stage_length [OF zero_less_numeral len1 b2(2), of add sub]
  note len3 = stage_length [OF zero_less_numeral len2 b2(3), of add sub]
  have low: "wht_stages add sub 1 block blk = wht_stages add sub 4 block (wht_stage add sub 2 block (wht_stage add sub 1 block blk))"
    "wht_stages add sub 1 block blk
      = wht_stages add sub 8 block (wht_stage add sub 4 block (wht_stage add sub 2 block (wht_stage add sub 1 block blk)))"
    using block(2) wht_stages.simps [of add sub 1 block blk] wht_stages.simps [of add sub 2 block]
      wht_stages.simps [of add sub 4 block] by simp_all
  have avx2: "wht_block_avx2 add sub mul blk block s = wht_block_scalar add sub mul blk block s"
    unfolding wht_block_avx2_def wht_block_scalar_def head8_stages [OF blk b8(1)] low(2)
    using wht_passes_stages [of block 8 i 1 8, OF b8(2) _ _ len3] by simp
  have neon: "wht_block_neon add sub mul blk block s = wht_block_scalar add sub mul blk block s"
    unfolding wht_block_neon_def wht_block_scalar_def neon_head_stages [OF blk b8(1)] low(1)
    using wht_passes_stages [of block 4 "i + 1" 1 4, OF b8(3) _ _ len2] by simp
  have avx512: "wht_block_avx512 add sub mul blk block s = wht_block_scalar add sub mul blk block s"
  proof (cases "block < 16")
    case True
    then show ?thesis by (simp add: wht_block_avx512_def avx2)
  next
    case False
    then have "i \<noteq> 0" using b8(1) by (cases i) simp_all
    then obtain j where j: "i = Suc j" by (cases i) simp_all
    have b16: "block = 2 ^ j * 16" "block = 16 * 2 ^ j" using b8 j by simp_all
    have b28: "block = 2 ^ j * (2 * 8)" using b16 by simp
    note len4 = stage_length [OF zero_less_numeral len3 b28, of add sub]
    have "wht_stages add sub 1 block blk
        = wht_stages add sub 16 block (wht_stage add sub 8 block (wht_stage add sub 4 block (wht_stage add sub 2 block (wht_stage add sub 1 block blk))))"
      unfolding low(2) using False wht_stages.simps [of add sub 8 block] by simp
    then show ?thesis
      using wht_passes_stages [of block 16 j 1 16, OF b16(2) _ _ len4] False
      by (simp add: wht_block_avx512_def wht_block_scalar_def avx512_head_stages [OF blk b16(1)])
  qed
  show ?thesis by (cases k) (simp_all add: wht_block_def avx2 neon avx512)
qed

lemma length_wht_stages: "length blk = block \<Longrightarrow> block = len * 2 ^ j \<Longrightarrow> 0 < len \<Longrightarrow> length (wht_stages add sub len block blk) = block"
proof (induction j arbitrary: len blk)
  case 0
  then show ?case by (simp add: wht_stages.simps)
next
  case (Suc j)
  have "length (wht_stage add sub len block blk) = block"
    by (rule stage_length [of _ _ _ "2 ^ j"]) (use Suc.prems in simp_all)
  then show ?case using Suc.IH [of _ "2 * len"] Suc.prems wht_stages.simps [of add sub len block blk] by simp
qed

lemma length_wht_block_scalar [simp]:
  "block = 2 ^ e \<Longrightarrow> length blk = block \<Longrightarrow> length (wht_block_scalar add sub mul blk block s) = block"
  using length_wht_stages [of blk block 1 e add sub] by (simp add: wht_block_scalar_def)

end
