(* ===== verification/FloatOps.thy ===== *)
theory FloatOps
  imports Float32
begin

text \<open>
  The floating-point operations of the encoder. Values are bit patterns; comparisons are defined on
  them (\<open>Float32\<close> and, for \<open>f64\<close>, here), the rounding operations are the fields of \<open>float_ops\<close>. No
  theorem uses more of an operation than that it is a function of its operands, so each holds for
  IEEE arithmetic in every rounding mode.
\<close>

unbundle bit_operations_syntax

type_synonym f64 = u64

record float_ops =
  f_add :: "f32 \<Rightarrow> f32 \<Rightarrow> f32"
  f_sub :: "f32 \<Rightarrow> f32 \<Rightarrow> f32"
  f_mul :: "f32 \<Rightarrow> f32 \<Rightarrow> f32"
  f_div :: "f32 \<Rightarrow> f32 \<Rightarrow> f32"
  f_sqrt :: "f32 \<Rightarrow> f32"
  f_of_usize :: "nat \<Rightarrow> f32"
  f_of_d :: "f64 \<Rightarrow> f32"
  d_of_f :: "f32 \<Rightarrow> f64"
  d_add :: "f64 \<Rightarrow> f64 \<Rightarrow> f64"
  d_sub :: "f64 \<Rightarrow> f64 \<Rightarrow> f64"
  d_mul :: "f64 \<Rightarrow> f64 \<Rightarrow> f64"
  d_div :: "f64 \<Rightarrow> f64 \<Rightarrow> f64"
  d_sqrt :: "f64 \<Rightarrow> f64"
  d_of_usize :: "nat \<Rightarrow> f64"
  d_to_usize :: "f64 \<Rightarrow> nat"

text \<open>The constants 0, 1 and -1.\<close>

definition f32_zero :: f32 where "f32_zero = 0"
definition f32_one :: f32 where "f32_one = 0x3F800000"
definition f32_minus_one :: f32 where "f32_minus_one = 0xBF800000"
definition f64_zero :: f64 where "f64_zero = 0"

definition f64_mag :: "f64 \<Rightarrow> nat" where
  "f64_mag x = unat x mod 9223372036854775808"

definition f64_is_nan :: "f64 \<Rightarrow> bool" where
  "f64_is_nan x \<longleftrightarrow> 9218868437227405312 < f64_mag x"

definition f64_ord :: "f64 \<Rightarrow> int" where
  "f64_ord x = (if 9223372036854775808 \<le> unat x then - int (f64_mag x) else int (f64_mag x))"

definition f64_gt :: "f64 \<Rightarrow> f64 \<Rightarrow> bool" where
  "f64_gt x y \<longleftrightarrow> \<not> f64_is_nan x \<and> \<not> f64_is_nan y \<and> f64_ord y < f64_ord x"

abbreviation f64_lt :: "f64 \<Rightarrow> f64 \<Rightarrow> bool" where
  "f64_lt x y \<equiv> f64_gt y x"

text \<open>\<open>abs\<close>, negation, and \<open>max\<close> (which prefers a number to a NaN).\<close>

definition f64_abs :: "f64 \<Rightarrow> f64" where
  "f64_abs x = x AND 0x7FFFFFFFFFFFFFFF"

definition f64_max :: "f64 \<Rightarrow> f64 \<Rightarrow> f64" where
  "f64_max x y = (if f64_is_nan x then y else if f64_is_nan y then x else if f64_gt y x then y else x)"

definition f32_neg :: "f32 \<Rightarrow> f32" where
  "f32_neg x = x XOR 0x80000000"

definition f32_max :: "f32 \<Rightarrow> f32 \<Rightarrow> f32" where
  "f32_max x y = (if f32_is_nan x then y else if f32_is_nan y then x else if f32_lt x y then y else x)"

abbreviation f32_gt :: "f32 \<Rightarrow> f32 \<Rightarrow> bool" where
  "f32_gt x y \<equiv> f32_lt y x"

end
