(* ===== verification/Rotation.thy ===== *)
theory Rotation
  imports Hadamard FloatOps Load "HOL-Library.Multiset"
begin

text \<open>
  The rotation of \<open>rotation.rs\<close>: two rounds of a permutation with sign flips and a blockwise
  Walsh-Hadamard transform. The ChaCha8 generator of \<open>rand_chacha\<close> is a parameter: a state and its
  two draws.
\<close>

section \<open>Definitions\<close>

record 'r rng =
  rng_seed :: 'r
  next_u32 :: "'r \<Rightarrow> u32 \<times> 'r"
  next_u64 :: "'r \<Rightarrow> u64 \<times> 'r"

record rotation =
  r_dim :: nat
  r_block :: nat
  r_inv_sqrt_block :: f32
  r_signs :: "f32 list list"
  r_perms :: "u32 list list"
  r_signs1_pre :: "f32 list"

definition block_size :: "nat \<Rightarrow> nat" where
  "block_size dim = unat ((of_nat dim :: u64) AND - of_nat dim)"

text \<open>\<open>slice::swap\<close>.\<close>

definition swap_at :: "nat \<Rightarrow> nat \<Rightarrow> 'a list \<Rightarrow> 'a list" where
  "swap_at i j xs = xs[i := xs ! j, j := xs ! i]"

definition fisher_yates :: "'r rng \<Rightarrow> nat \<Rightarrow> 'r \<Rightarrow> u32 list \<times> 'r" where
  "fisher_yates g dim r =
     foldl (\<lambda>(perm, r) i. let (x, r) = next_u64 g r in (swap_at i (unat (x mod (of_nat i + 1))) perm, r))
       (map of_nat [0..<dim], r) (rev [1..<dim])"

fun draw_signs :: "'r rng \<Rightarrow> nat \<Rightarrow> 'r \<Rightarrow> f32 list \<times> 'r" where
  "draw_signs g 0 r = ([], r)"
| "draw_signs g (Suc n) r =
     (let (x, r) = next_u32 g r; (ss, r) = draw_signs g n r
      in ((if x AND 1 = 1 then f32_minus_one else f32_one) # ss, r))"

text \<open>\<open>Rotation::new\<close>; \<open>None\<close> is its panic.\<close>

definition rotation_new :: "float_ops \<Rightarrow> 'r rng \<Rightarrow> nat \<Rightarrow> rotation option" where
  "rotation_new fo g dim =
     do {
       guard_opt (0 < dim \<and> dim mod 8 = 0);
       guard_opt (dim \<le> MAX_DIM);
       let block = block_size dim;
       let (signs0, r) = draw_signs g dim (rng_seed g);
       let (perm0, r) = fisher_yates g dim r;
       let (signs1, r) = draw_signs g dim r;
       let (perm1, r) = fisher_yates g dim r;
       let pre = foldl (\<lambda>pre (i, p). pre[unat p := signs1 ! i]) (replicate dim f32_one) (enumerate 0 perm1);
       Some \<lparr>r_dim = dim, r_block = block, r_inv_sqrt_block = f_div fo f32_one (f_sqrt fo (f_of_usize fo block)),
             r_signs = [signs0, signs1], r_perms = [perm0, perm1], r_signs1_pre = pre\<rparr>
     }"

text \<open>\<open>permute_gather\<close>: the scalar loop, and the SIMD ones, which gather \<open>w\<close> lanes at a time and
  finish with narrower registers and scalars.\<close>

definition gather_one :: "float_ops \<Rightarrow> nat \<Rightarrow> f32 list \<Rightarrow> f32 \<Rightarrow> u32 \<Rightarrow> f32 \<Rightarrow> f32" where
  "gather_one fo mode src iv p s =
     (let v = src ! unat p
      in if mode = 0 then v else if mode = 1 then f_mul fo v s else f_mul fo (f_mul fo v iv) s)"

definition permute_gather_scalar :: "float_ops \<Rightarrow> nat \<Rightarrow> f32 list \<Rightarrow> u32 list \<Rightarrow> f32 list \<Rightarrow> f32 \<Rightarrow> f32 list" where
  "permute_gather_scalar fo mode src perm signs iv = map2 (gather_one fo mode src iv) perm signs"

definition gather_lanes :: "float_ops \<Rightarrow> nat \<Rightarrow> f32 list \<Rightarrow> u32 list \<Rightarrow> f32 list \<Rightarrow> f32 \<Rightarrow> nat \<Rightarrow> nat \<Rightarrow> f32 list" where
  "gather_lanes fo mode src perm signs iv w i =
     (let v = map (\<lambda>p. src ! unat p) (take w (drop i perm));
          v = (if mode = 2 then map (\<lambda>x. f_mul fo x iv) v else v)
      in if mode \<noteq> 0 then map2 (f_mul fo) v (take w (drop i signs)) else v)"

text \<open>The loop \<open>while i + w <= n\<close> over one register width, from the position the previous loop left.\<close>

definition gather_loop :: "float_ops \<Rightarrow> nat \<Rightarrow> f32 list \<Rightarrow> u32 list \<Rightarrow> f32 list \<Rightarrow> f32 \<Rightarrow> nat \<Rightarrow> f32 list \<Rightarrow> f32 list" where
  "gather_loop fo mode src perm signs iv w dst =
     foldl (\<lambda>dst k. dst @ gather_lanes fo mode src perm signs iv w (length dst)) dst
       [0..<(length perm - length dst) div w]"

definition permute_gather_simd :: "nat list \<Rightarrow> float_ops \<Rightarrow> nat \<Rightarrow> f32 list \<Rightarrow> u32 list \<Rightarrow> f32 list \<Rightarrow> f32 \<Rightarrow> f32 list" where
  "permute_gather_simd ws fo mode src perm signs iv =
     (let dst = foldl (\<lambda>dst w. gather_loop fo mode src perm signs iv w dst) [] ws
      in dst @ map2 (gather_one fo mode src iv) (drop (length dst) perm) (drop (length dst) signs))"

definition permute_gather :: "wht_kernel \<Rightarrow> float_ops \<Rightarrow> nat \<Rightarrow> f32 list \<Rightarrow> u32 list \<Rightarrow> f32 list \<Rightarrow> f32 \<Rightarrow> f32 list" where
  "permute_gather k fo mode src perm signs iv =
     (case k of Wht_Avx512 \<Rightarrow> permute_gather_simd [16, 8] fo mode src perm signs iv
      | Wht_Avx2 \<Rightarrow> permute_gather_simd [8] fo mode src perm signs iv
      | _ \<Rightarrow> permute_gather_scalar fo mode src perm signs iv)"

text \<open>The transform of every block of a row.\<close>

definition wht_row :: "wht_kernel \<Rightarrow> float_ops \<Rightarrow> rotation \<Rightarrow> f32 list \<Rightarrow> f32 list" where
  "wht_row k fo rot buf =
     head_pass (r_block rot)
       (\<lambda>blk. wht_block k (f_add fo) (f_sub fo) (f_mul fo) blk (r_block rot) (r_inv_sqrt_block rot))
       (r_dim rot) buf"

definition apply_scaled_into :: "wht_kernel \<Rightarrow> float_ops \<Rightarrow> rotation \<Rightarrow> f32 list \<Rightarrow> f32 \<Rightarrow> f32 list" where
  "apply_scaled_into k fo rot src iv =
     (let scratch = permute_gather k fo 2 src (r_perms rot ! 0) (r_signs rot ! 0) iv;
          scratch = wht_row k fo rot scratch;
          scratch = map2 (f_mul fo) scratch (r_signs1_pre rot);
          dst = permute_gather k fo 0 scratch (r_perms rot ! 1) (r_signs1_pre rot) f32_one
      in wht_row k fo rot dst)"

definition apply_with_scratch :: "wht_kernel \<Rightarrow> float_ops \<Rightarrow> rotation \<Rightarrow> f32 list \<Rightarrow> f32 list" where
  "apply_with_scratch k fo rot row =
     foldl (\<lambda>input round. wht_row k fo rot
              (permute_gather k fo 1 input (r_perms rot ! round) (r_signs rot ! round) f32_one))
       row [0..<2]"

section \<open>Fisher-Yates\<close>

lemma length_swap_at [simp]: "length (swap_at i j xs) = length xs"
  by (simp add: swap_at_def)

lemma mset_swap_at: "i < length xs \<Longrightarrow> j < length xs \<Longrightarrow> mset (swap_at i j xs) = mset xs"
  by (simp add: swap_at_def mset_swap)

lemma fisher_yates_step:
  assumes "i < 18446744073709551615"
  shows "unat ((x :: u64) mod (of_nat i + 1)) \<le> i"
proof -
  have e: "unat (of_nat i + 1 :: u64) = Suc i"
  proof -
    have "(of_nat i + 1 :: u64) = of_nat (Suc i)" by simp
    then show ?thesis using assms by (simp only: unat_of_nat) simp
  qed
  have "unat (x mod (of_nat i + 1)) = unat x mod Suc i" by (simp only: unat_mod_distrib e)
  then show ?thesis using mod_less_divisor [of "Suc i" "unat x"] by simp
qed

lemma fisher_yates_mset:
  assumes "dim < 18446744073709551615"
  shows "mset (fst (fisher_yates g dim r)) = mset (map of_nat [0..<dim])"
proof -
  have "mset (fst (foldl (\<lambda>(perm, r) i. let (x, r) = next_u64 g r in (swap_at i (unat (x mod (of_nat i + 1))) perm, r)) (perm, r) is))
      = mset perm" if "set is \<subseteq> {..<dim}" "length perm = dim" for "is" and perm :: "u32 list" and r
    using that
  proof (induction "is" arbitrary: perm r)
    case (Cons i "is")
    obtain x r' where x: "next_u64 g r = (x, r')" by force
    have "i < dim" using Cons.prems by simp
    then have "unat (x mod (of_nat i + 1)) \<le> i" using assms by (intro fisher_yates_step) simp
    then have "mset (swap_at i (unat (x mod (of_nat i + 1))) perm) = mset perm"
      using Cons.prems by (intro mset_swap_at) simp_all
    then show ?case using Cons by (simp add: x)
  qed simp
  moreover have "set (rev [1..<dim]) \<subseteq> {..<dim}" by auto
  moreover have "length (map (of_nat :: nat \<Rightarrow> u32) [0..<dim]) = dim" by simp
  ultimately show ?thesis unfolding fisher_yates_def by blast
qed

text \<open>A permutation of \<open>0..dim\<close>, as source coordinates.\<close>

definition is_perm :: "nat \<Rightarrow> u32 list \<Rightarrow> bool" where
  "is_perm dim ps \<longleftrightarrow> mset (map unat ps) = mset [0..<dim]"

lemma is_permD:
  assumes "is_perm dim ps"
  shows "length ps = dim" "distinct (map unat ps)" "i < dim \<Longrightarrow> unat (ps ! i) < dim"
proof -
  show l: "length ps = dim" using arg_cong [OF assms [unfolded is_perm_def], of size] by simp
  show "distinct (map unat ps)" using assms unfolding is_perm_def by (metis distinct_upt mset_eq_imp_distinct_iff)
  have "set (map unat ps) = {..<dim}" using assms unfolding is_perm_def by (metis mset_eq_setD atLeast_upt)
  then show "i < dim \<Longrightarrow> unat (ps ! i) < dim" using l by (metis length_map lessThan_iff nth_map nth_mem)
qed

lemma fisher_yates_perm:
  assumes "dim \<le> MAX_DIM"
  shows "is_perm dim (fst (fisher_yates g dim r))"
proof -
  have "dim < 18446744073709551615" using assms by (simp add: MAX_DIM_def)
  then have "mset (fst (fisher_yates g dim r)) = mset (map of_nat [0..<dim])" by (rule fisher_yates_mset)
  then have "mset (map unat (fst (fisher_yates g dim r))) = mset (map unat (map (of_nat :: nat \<Rightarrow> u32) [0..<dim]))"
    by (simp only: mset_map)
  also have "map unat (map (of_nat :: nat \<Rightarrow> u32) [0..<dim]) = [0..<dim]"
    unfolding map_map o_def using assms by (intro map_idI) (simp add: MAX_DIM_def unat_of_nat_u32)
  finally show ?thesis by (simp only: is_perm_def)
qed

section \<open>The gather kernels\<close>

lemma gather_lanes_scalar:
  assumes "length perm = length signs" "mode \<in> {0, 1, 2}"
  shows "gather_lanes fo mode src perm signs iv w i = take w (drop i (permute_gather_scalar fo mode src perm signs iv))"
  using assms
  by (intro nth_equalityI) (auto simp: gather_lanes_def permute_gather_scalar_def gather_one_def Let_def)

lemma gather_loop_prefix:
  fixes w :: nat
  assumes "length perm = length signs" "mode \<in> {0, 1, 2}"
    and "dst = take (length dst) (permute_gather_scalar fo mode src perm signs iv)"
  defines "res \<equiv> gather_loop fo mode src perm signs iv w dst"
  shows "res = take (length res) (permute_gather_scalar fo mode src perm signs iv)"
proof -
  let ?full = "permute_gather_scalar fo mode src perm signs iv"
  let ?f = "\<lambda>dst k. dst @ gather_lanes fo mode src perm signs iv w (length dst)"
  have "foldl ?f d ks = take (length (foldl ?f d ks)) ?full" if "d = take (length d) ?full" for d and ks :: "nat list"
    using that
  proof (induction ks arbitrary: d)
    case (Cons k ks)
    let ?e = "?f d k"
    have "d @ take w (drop (length d) ?full) = take (length d + w) ?full"
      using Cons.prems by (metis take_add)
    then have "?e = take (length d + w) ?full" by (simp only: gather_lanes_scalar [OF assms(1,2)])
    then have "?e = take (length ?e) ?full" by (metis length_take take_all take_take nle_le min.commute min_def)
    from Cons.IH [OF this] show ?case by (simp only: foldl_Cons)
  qed simp
  then show ?thesis using assms(3) unfolding res_def gather_loop_def by blast
qed

lemma permute_gather_simd_scalar:
  assumes "length perm = length signs" "mode \<in> {0, 1, 2}"
  shows "permute_gather_simd ws fo mode src perm signs iv = permute_gather_scalar fo mode src perm signs iv"
proof -
  let ?full = "permute_gather_scalar fo mode src perm signs iv"
  let ?g = "\<lambda>dst w. gather_loop fo mode src perm signs iv w dst"
  have "foldl ?g d ws = take (length (foldl ?g d ws)) ?full" if "d = take (length d) ?full" for d
    using that
  proof (induction ws arbitrary: d)
    case (Cons w ws)
    then show ?case using gather_loop_prefix [OF assms Cons.prems, of w] by simp
  qed simp
  from this [of "[]"] have p: "foldl ?g [] ws = take (length (foldl ?g [] ws)) ?full" by simp
  have "map2 (gather_one fo mode src iv) (drop n perm) (drop n signs) = drop n ?full" for n
    by (simp add: permute_gather_scalar_def drop_zip drop_map)
  then show ?thesis unfolding permute_gather_simd_def Let_def by (metis append_take_drop_id p)
qed

lemma permute_gather_kernel:
  assumes "length perm = length signs" "mode \<in> {0, 1, 2}"
  shows "permute_gather k fo mode src perm signs iv = permute_gather_scalar fo mode src perm signs iv"
  by (cases k) (simp_all add: permute_gather_def permute_gather_simd_scalar [OF assms])

section \<open>The block size\<close>

lemma and_minus_odd:
  assumes "odd (m :: int)"
  shows "(m * 2 ^ e) AND - (m * 2 ^ e) = 2 ^ e"
proof (rule bit_eqI)
  fix n
  obtain h where h: "m = 2 * h + 1" using assms by (elim oddE)
  have p: "m * 2 ^ e = push_bit e m" by (simp add: push_bit_eq_mult)
  have minus: "- (m * 2 ^ e) = push_bit e (- m)" by (simp add: push_bit_eq_mult)
  have "- m = NOT (2 * h)" using h by (simp add: not_int_def)
  then have nm: "bit (- m) k \<longleftrightarrow> \<not> bit (2 * h) k" for k by (simp add: bit_not_iff)
  have m: "bit m k \<longleftrightarrow> k = 0 \<or> bit (2 * h) k" for k
  proof (cases k)
    case (Suc k)
    then show ?thesis by (simp add: h bit_Suc)
  qed (simp add: h bit_0)
  have "\<not> bit (2 * h) 0" by (simp add: bit_0)
  then show "bit (m * 2 ^ e AND - (m * 2 ^ e)) n \<longleftrightarrow> bit (2 ^ e :: int) n"
    unfolding bit_and_iff minus unfolding p by (auto simp: bit_push_bit_iff_int bit_exp_iff nm m dest: le_antisym)
qed

lemma block_size_pow:
  assumes "odd m" "dim = m * 2 ^ e" "dim < 18446744073709551616"
  shows "block_size dim = 2 ^ e"
proof -
  have "(of_nat dim :: u64) AND - of_nat dim = of_int (int dim) AND of_int (- int dim)" by simp
  also have "\<dots> = of_int (int dim AND - int dim)" by (simp only: of_int_and_eq)
  also have "int dim AND - int dim = int (2 ^ e)"
    using and_minus_odd [of "int m" e] assms by simp
  finally have e: "(of_nat dim :: u64) AND - of_nat dim = of_nat (2 ^ e)" by (simp only: of_int_of_nat_eq)
  have "2 ^ e \<le> dim" using assms(1,2) by (cases m) simp_all
  then have l: "2 ^ e < (18446744073709551616 :: nat)" using assms(3) by linarith
  have "unat (of_nat (2 ^ e) :: u64) = 2 ^ e mod 2 ^ 64" by (simp only: unat_of_nat take_bit_eq_mod) simp
  then show ?thesis using l by (simp only: block_size_def e) simp
qed

lemma odd_part:
  assumes "0 < (n :: nat)"
  shows "\<exists>m e. n = m * 2 ^ e \<and> odd m"
  using assms
proof (induction n rule: less_induct)
  case (less n)
  show ?case
  proof (cases "even n")
    case True
    then obtain k where k: "n = 2 * k" by (elim evenE)
    with less.prems have "k < n" "0 < k" by simp_all
    then obtain m e where "k = m * 2 ^ e" "odd m" using less.IH by blast
    then have "n = m * 2 ^ Suc e \<and> odd m" using k by simp
    then show ?thesis by blast
  next
    case False
    then have "n = n * 2 ^ 0 \<and> odd n" by simp
    then show ?thesis by blast
  qed
qed

text \<open>The largest power of two dividing a dimension.\<close>

lemma block_size_divides:
  assumes "0 < dim" "dim mod 8 = 0" "dim < 18446744073709551616"
  shows "\<exists>e. block_size dim = 2 ^ e" "8 \<le> block_size dim" "block_size dim dvd dim" "\<not> 2 * block_size dim dvd dim"
proof -
  obtain m e where d: "dim = m * 2 ^ e" "odd m" using odd_part [OF assms(1)] by blast
  have b: "block_size dim = 2 ^ e" using block_size_pow [OF d(2,1) assms(3)] .
  show "\<exists>e. block_size dim = 2 ^ e" using b by blast
  show "block_size dim dvd dim" unfolding b using d(1) by simp
  show "\<not> 2 * block_size dim dvd dim"
  proof
    assume "2 * block_size dim dvd dim"
    then obtain k where "dim = 2 * 2 ^ e * k" unfolding b by (elim dvdE)
    then have "m = 2 * k" using d(1) by simp
    then show False using d(2) by simp
  qed
  have "(2 :: nat) ^ 3 dvd m * 2 ^ e" using assms(2) d(1) by (simp add: dvd_eq_mod_eq_0)
  moreover have "coprime ((2 :: nat) ^ 3) m" using d(2) by (simp only: coprime_power_left_iff coprime_left_2_iff_odd) simp
  ultimately have "(2 :: nat) ^ 3 dvd 2 ^ e" by (simp only: coprime_dvd_mult_right_iff)
  then have "(2 :: nat) ^ 3 \<le> 2 ^ e" by (rule dvd_imp_le) simp
  then show "8 \<le> block_size dim" by (simp add: b)
qed

section \<open>The transform of a row\<close>

lemma length_wht_block:
  assumes "block = 2 ^ e" "8 \<le> block" "length blk = block"
  shows "length (wht_block k add sub mul blk block s) = block"
  unfolding wht_kernels_agree [OF assms] using assms(1,3) by (rule length_wht_block_scalar)

lemma length_wht_row:
  assumes "r_block rot = 2 ^ e" "8 \<le> r_block rot" "r_block rot dvd r_dim rot" "length buf = r_dim rot"
  shows "length (wht_row k fo rot buf) = r_dim rot"
proof -
  obtain nq where d: "r_dim rot = nq * r_block rot" using assms(3) by (metis dvdE mult.commute)
  have l: "length (wht_block k (f_add fo) (f_sub fo) (f_mul fo) xs (r_block rot) (r_inv_sqrt_block rot)) = r_block rot"
    if "length xs = r_block rot" for xs
    using assms(1,2) that by (rule length_wht_block)
  show ?thesis unfolding wht_row_def d by (rule head_pass_nth(1) [OF l]) (use assms d in simp_all)
qed

lemma head_pass_cong:
  assumes same: "\<And>xs. length xs = w \<Longrightarrow> f xs = g xs" and len: "\<And>xs. length xs = w \<Longrightarrow> length (g xs) = w"
    and w: "0 < w" and blk: "length blk = nq * w"
  shows "head_pass w f (nq * w) blk = head_pass w g (nq * w) blk"
proof (rule nth_equalityI)
  have lf: "length (f xs) = w" if "length xs = w" for xs using same len that by simp
  note hf = head_pass_nth [of w f, OF lf w blk] and hg = head_pass_nth [of w g, OF len w blk]
  show "length (head_pass w f (nq * w) blk) = length (head_pass w g (nq * w) blk)" by (simp only: hf(1) hg(1))
  fix i
  assume "i < length (head_pass w f (nq * w) blk)"
  then have "i < nq * w" by (simp only: hf(1))
  then have q: "i div w < nq" "i mod w < w" and i: "i = i div w * w + i mod w"
    using w by (simp_all add: less_mult_imp_div_less)
  have "f (map (\<lambda>m. blk ! (i div w * w + m)) [0..<w]) = g (map (\<lambda>m. blk ! (i div w * w + m)) [0..<w])"
    by (rule same) simp
  then show "head_pass w f (nq * w) blk ! i = head_pass w g (nq * w) blk ! i"
    using hf(2) [OF _ q] hg(2) [OF _ q] by (simp flip: i)
qed

lemma wht_row_kernel:
  assumes "r_block rot = 2 ^ e" "8 \<le> r_block rot" "r_block rot dvd r_dim rot" "length buf = r_dim rot"
  shows "wht_row k fo rot buf = wht_row Wht_Scalar fo rot buf"
proof -
  obtain nq where d: "r_dim rot = nq * r_block rot" using assms(3) by (metis dvdE mult.commute)
  show ?thesis
    unfolding wht_row_def d
  proof (rule head_pass_cong)
    fix xs :: "f32 list"
    assume xs: "length xs = r_block rot"
    show "wht_block k (f_add fo) (f_sub fo) (f_mul fo) xs (r_block rot) (r_inv_sqrt_block rot)
        = wht_block Wht_Scalar (f_add fo) (f_sub fo) (f_mul fo) xs (r_block rot) (r_inv_sqrt_block rot)"
      by (simp only: wht_kernels_agree [OF assms(1,2) xs])
    show "length (wht_block Wht_Scalar (f_add fo) (f_sub fo) (f_mul fo) xs (r_block rot) (r_inv_sqrt_block rot)) = r_block rot"
      using assms(1,2) xs by (rule length_wht_block)
  qed (use assms d in simp_all)
qed

section \<open>Well-formed rotations\<close>

definition wf_rotation :: "rotation \<Rightarrow> bool" where
  "wf_rotation rot \<longleftrightarrow>
     (\<exists>e \<le> r_block rot. r_block rot = 2 ^ e) \<and> 8 \<le> r_block rot \<and> r_block rot dvd r_dim rot \<and>
     (\<forall>round < 2. is_perm (r_dim rot) (r_perms rot ! round) \<and> length (r_signs rot ! round) = r_dim rot) \<and>
     length (r_signs1_pre rot) = r_dim rot \<and>
     (\<forall>i < r_dim rot. r_signs1_pre rot ! unat (r_perms rot ! 1 ! i) = r_signs rot ! 1 ! i)"

lemma wf_rotationE:
  assumes "wf_rotation rot"
  obtains e where "r_block rot = 2 ^ e" "8 \<le> r_block rot" "r_block rot dvd r_dim rot"
  using assms unfolding wf_rotation_def by blast

lemma length_draw_signs: "length (fst (draw_signs g n r)) = n"
  by (induction n arbitrary: r) (simp_all add: case_prod_beta Let_def)

lemma scatter_nth:
  assumes "distinct (map unat ps)" "\<forall>p \<in> set ps. unat p < length pre" "length ps \<le> length vs"
  shows "length (foldl (\<lambda>pre (i, p). pre[unat p := vs ! i]) pre (enumerate 0 ps)) = length pre"
    and "\<forall>i < length ps. foldl (\<lambda>pre (i, p). pre[unat p := vs ! i]) pre (enumerate 0 ps) ! unat (ps ! i) = vs ! i"
proof -
  have "length (foldl (\<lambda>pre (i, p). pre[unat p := vs ! i]) pre (enumerate 0 ps)) = length pre \<and>
    (\<forall>i < length ps. foldl (\<lambda>pre (i, p). pre[unat p := vs ! i]) pre (enumerate 0 ps) ! unat (ps ! i) = vs ! i)"
    using assms
  proof (induction ps rule: rev_induct)
    case (snoc p ps)
    then have "unat p \<noteq> unat (ps ! i)" if "i < length ps" for i
      using that by (auto simp: in_set_conv_nth) (metis imageI nth_mem)
    then show ?case using snoc by (auto simp: enumerate_append_eq nth_append less_Suc_eq)
  qed simp
  then show "length (foldl (\<lambda>pre (i, p). pre[unat p := vs ! i]) pre (enumerate 0 ps)) = length pre"
    and "\<forall>i < length ps. foldl (\<lambda>pre (i, p). pre[unat p := vs ! i]) pre (enumerate 0 ps) ! unat (ps ! i) = vs ! i"
    by blast+
qed

lemma rotation_new_wf:
  assumes "rotation_new fo g dim = Some rot"
  shows "wf_rotation rot" "r_dim rot = dim"
proof -
  obtain signs0 r1 where s0: "draw_signs g dim (rng_seed g) = (signs0, r1)" by force
  obtain perm0 r2 where p0: "fisher_yates g dim r1 = (perm0, r2)" by force
  obtain signs1 r3 where s1: "draw_signs g dim r2 = (signs1, r3)" by force
  obtain perm1 r4 where p1: "fisher_yates g dim r3 = (perm1, r4)" by force
  define pre where "pre = foldl (\<lambda>pre (i, p). pre[unat p := signs1 ! i]) (replicate dim f32_one) (enumerate 0 perm1)"
  have g: "0 < dim" "dim mod 8 = 0" "dim \<le> MAX_DIM"
    and rot: "rot = \<lparr>r_dim = dim, r_block = block_size dim,
       r_inv_sqrt_block = f_div fo f32_one (f_sqrt fo (f_of_usize fo (block_size dim))),
       r_signs = [signs0, signs1], r_perms = [perm0, perm1], r_signs1_pre = pre\<rparr>"
    using assms by (auto simp: rotation_new_def guard_opt_def Let_def s0 p0 s1 p1 pre_def split: if_splits)
  have d: "dim < 18446744073709551616" using g(3) by (simp add: MAX_DIM_def)
  have ls: "length signs0 = dim" "length signs1 = dim"
    using length_draw_signs [of g dim] by (metis fst_conv s0, metis fst_conv s1)
  have ps: "is_perm dim perm0" "is_perm dim perm1"
    using fisher_yates_perm [OF g(3), of g] by (metis fst_conv p0, metis fst_conv p1)
  have "\<forall>p \<in> set perm1. unat p < length (replicate dim f32_one)"
    using is_permD [OF ps(2)] by (auto simp: in_set_conv_nth)
  moreover have "length perm1 \<le> length signs1" using is_permD(1) [OF ps(2)] ls by simp
  ultimately have pre: "length pre = dim" "\<forall>i < dim. pre ! unat (perm1 ! i) = signs1 ! i"
    using scatter_nth [OF is_permD(2) [OF ps(2)], of "replicate dim f32_one" signs1] is_permD(1) [OF ps(2)]
    unfolding pre_def by simp_all
  note b = block_size_divides [OF g(1,2) d]
  from b(1) obtain e where e: "block_size dim = 2 ^ e" by blast
  have "e \<le> block_size dim" unfolding e by (rule less_imp_le) simp
  then have "\<exists>e \<le> block_size dim. block_size dim = 2 ^ e" using e by blast
  then show "wf_rotation rot"
    unfolding wf_rotation_def rot using b(2,3) ls ps pre by (simp add: less_2_cases_iff)
  show "r_dim rot = dim" by (simp add: rot)
qed

lemma rotation_new_block: "rotation_new fo g dim = Some rot \<Longrightarrow> r_block rot = block_size dim"
  by (auto simp: rotation_new_def guard_opt_def Let_def case_prod_beta split: if_splits)

section \<open>The encode-side rotation is the query-side one\<close>

lemma permute_gather_scalar_nth:
  assumes "length perm = n" "length signs = n" "i < n"
  shows "permute_gather_scalar fo mode src perm signs iv ! i = gather_one fo mode src iv (perm ! i) (signs ! i)"
  using assms by (simp add: permute_gather_scalar_def)

lemma length_permute_gather_scalar [simp]:
  "length (permute_gather_scalar fo mode src perm signs iv) = min (length perm) (length signs)"
  by (simp add: permute_gather_scalar_def)

text \<open>Scaling in the first gather, and flipping the second round's signs at the source positions, is
  what the scaled row goes through.\<close>

lemma gather_scaled:
  assumes "is_perm (length src) perm" "length signs = length src"
  shows "permute_gather_scalar fo 2 src perm signs iv
    = permute_gather_scalar fo 1 (map (\<lambda>x. f_mul fo x iv) src) perm signs f32_one"
proof (rule nth_equalityI)
  fix i
  assume "i < length (permute_gather_scalar fo 2 src perm signs iv)"
  then have i: "i < length src" using is_permD(1) [OF assms(1)] assms(2) by simp
  then show "permute_gather_scalar fo 2 src perm signs iv ! i
      = permute_gather_scalar fo 1 (map (\<lambda>x. f_mul fo x iv) src) perm signs f32_one ! i"
    using is_permD(3) [OF assms(1) i]
    by (simp add: permute_gather_scalar_nth [OF is_permD(1) [OF assms(1)] assms(2)] gather_one_def)
qed simp

lemma gather_presigned:
  assumes "is_perm dim perm" "length signs = dim" "length pre = dim" "length x = dim"
    and "\<forall>i < dim. pre ! unat (perm ! i) = signs ! i"
  shows "permute_gather_scalar fo 0 (map2 (f_mul fo) x pre) perm pre f32_one = permute_gather_scalar fo 1 x perm signs f32_one"
proof (rule nth_equalityI)
  note l = is_permD(1) [OF assms(1)]
  show "length (permute_gather_scalar fo 0 (map2 (f_mul fo) x pre) perm pre f32_one)
      = length (permute_gather_scalar fo 1 x perm signs f32_one)"
    using assms l by simp
  fix i
  assume "i < length (permute_gather_scalar fo 0 (map2 (f_mul fo) x pre) perm pre f32_one)"
  then have i: "i < dim" using l assms by simp
  show "permute_gather_scalar fo 0 (map2 (f_mul fo) x pre) perm pre f32_one ! i
      = permute_gather_scalar fo 1 x perm signs f32_one ! i"
    using is_permD(3) [OF assms(1) i] assms(3-5) i
    by (simp add: permute_gather_scalar_nth [OF l assms(3) i] permute_gather_scalar_nth [OF l assms(2) i] gather_one_def)
qed

lemma apply_with_scratch_eq:
  "apply_with_scratch k fo rot row =
    wht_row k fo rot (permute_gather k fo 1
      (wht_row k fo rot (permute_gather k fo 1 row (r_perms rot ! 0) (r_signs rot ! 0) f32_one))
      (r_perms rot ! 1) (r_signs rot ! 1) f32_one)"
  by (simp add: apply_with_scratch_def upt_rec numeral_2_eq_2)

lemma apply_scaled_into_scratch:
  assumes wf: "wf_rotation rot" and src: "length src = r_dim rot"
  shows "apply_scaled_into k fo rot src iv = apply_with_scratch k' fo rot (map (\<lambda>x. f_mul fo x iv) src)"
proof -
  let ?d = "r_dim rot" and ?row = "map (\<lambda>x. f_mul fo x iv) src"
  from wf have p: "is_perm ?d (r_perms rot ! 0)" "is_perm ?d (r_perms rot ! 1)"
    and s: "length (r_signs rot ! 0) = ?d" "length (r_signs rot ! 1) = ?d" "length (r_signs1_pre rot) = ?d"
    and pre: "\<forall>i < ?d. r_signs1_pre rot ! unat (r_perms rot ! 1 ! i) = r_signs rot ! 1 ! i"
    by (simp_all add: wf_rotation_def)
  note lp = is_permD(1) [OF p(1)] is_permD(1) [OF p(2)]
  from wf obtain e where b: "r_block rot = 2 ^ e" "8 \<le> r_block rot" "r_block rot dvd ?d" by (rule wf_rotationE)
  note wk = wht_row_kernel [OF b] and wl = length_wht_row [OF b]
  have g: "permute_gather k fo m x (r_perms rot ! 0) (r_signs rot ! 0) iv = permute_gather_scalar fo m x (r_perms rot ! 0) (r_signs rot ! 0) iv"
    "permute_gather k fo m x (r_perms rot ! 1) (r_signs rot ! 1) iv = permute_gather_scalar fo m x (r_perms rot ! 1) (r_signs rot ! 1) iv"
    "permute_gather k fo m x (r_perms rot ! 1) (r_signs1_pre rot) iv = permute_gather_scalar fo m x (r_perms rot ! 1) (r_signs1_pre rot) iv"
    if "m \<in> {0, 1, 2}" for k m x iv
    using that s lp by (simp_all only: permute_gather_kernel)
  define a where "a = permute_gather_scalar fo 1 ?row (r_perms rot ! 0) (r_signs rot ! 0) f32_one"
  define h where "h = wht_row Wht_Scalar fo rot a"
  define c where "c = permute_gather_scalar fo 1 h (r_perms rot ! 1) (r_signs rot ! 1) f32_one"
  have la: "length a = ?d" and lc: "length c = ?d" using lp s by (simp_all add: a_def c_def)
  have lh: "length h = ?d" unfolding h_def by (rule wl [OF la])
  have first: "permute_gather_scalar fo 2 src (r_perms rot ! 0) (r_signs rot ! 0) iv = a"
    unfolding a_def using p(1) s(1) by (intro gather_scaled) (simp_all add: src)
  have "apply_scaled_into k fo rot src iv = wht_row k fo rot c"
    unfolding apply_scaled_into_def Let_def
    by (simp only: g insert_iff simp_thms first wk [OF la, of k fo] h_def [symmetric] gather_presigned [OF p(2) s(2) s(3) lh pre] c_def)
  also have "\<dots> = wht_row k' fo rot c" by (simp only: wk [OF lc, of k fo] wk [OF lc, of k' fo])
  also have "\<dots> = apply_with_scratch k' fo rot ?row"
    unfolding apply_with_scratch_eq
    by (simp only: g insert_iff simp_thms a_def [symmetric] wk [OF la, of k' fo] h_def [symmetric] c_def [symmetric])
  finally show ?thesis .
qed

lemma length_apply_with_scratch:
  assumes wf: "wf_rotation rot" and src: "length row = r_dim rot"
  shows "length (apply_with_scratch k fo rot row) = r_dim rot"
proof -
  from wf obtain e where b: "r_block rot = 2 ^ e" "8 \<le> r_block rot" "r_block rot dvd r_dim rot" by (rule wf_rotationE)
  have p: "length (r_perms rot ! 1) = r_dim rot" "length (r_signs rot ! 1) = r_dim rot"
    using wf is_permD(1) by (simp_all add: wf_rotation_def)
  have l: "length (permute_gather k fo 1 x (r_perms rot ! 1) (r_signs rot ! 1) f32_one) = r_dim rot" for x
    using p by (subst permute_gather_kernel) simp_all
  show ?thesis unfolding apply_with_scratch_eq by (rule length_wht_row [OF b l])
qed

end
