(* ===== verification/RotationTheorems.thy ===== *)
theory RotationTheorems
  imports Rotation
begin

text \<open>
  What the rotation promises: it is built for exactly the dimensions the format allows, from two
  permutations, and the encoder's scaled form and the query's in-place form agree bit for bit
  whichever kernels run.
\<close>

section \<open>Properties\<close>

definition demo_rng :: "nat rng" where
  "demo_rng = \<lparr>rng_seed = 1, next_u32 = \<lambda>r. (of_nat r, 3 * r + 1), next_u64 = \<lambda>r. (of_nat r, 3 * r + 1)\<rparr>"

definition demo_ops :: float_ops where
  "demo_ops = \<lparr>f_add = \<lambda>x y. x + y, f_sub = \<lambda>x y. x - y, f_mul = \<lambda>x y. x * y, f_div = \<lambda>x y. x div y, f_sqrt = \<lambda>x. x,
     f_of_usize = of_nat, f_of_d = ucast, d_of_f = ucast, d_add = \<lambda>x y. x + y, d_sub = \<lambda>x y. x - y, d_mul = \<lambda>x y. x * y,
     d_div = \<lambda>x y. x div y, d_sqrt = \<lambda>x. x, d_of_usize = of_nat, d_to_usize = unat\<rparr>"

lemma rotation_new_None: "rotation_new fo g dim = None \<longleftrightarrow> \<not> (0 < dim \<and> dim mod 8 = 0 \<and> dim \<le> MAX_DIM)"
  by (auto simp: rotation_new_def guard_opt_def Let_def case_prod_beta)

text \<open>C27. The rotation the encoder applies (scaling in the gather, the second round's signs moved
  to the source positions) and the one a query goes through give the same bits, for every dimension,
  every pair of instruction sets and every floating-point arithmetic.\<close>

theorem rotation_encode_eq_query:
  assumes "rotation_new fo g dim = Some rot" "length src = dim"
  shows "apply_scaled_into k fo rot src iv = apply_with_scratch k' fo rot (map (\<lambda>x. f_mul fo x iv) src)"
  using rotation_new_wf [OF assms(1)] assms(2) by (simp add: apply_scaled_into_scratch)

theorem rotation_encode_eq_query_witness:
  "\<exists>rot. rotation_new demo_ops demo_rng 8 = Some rot \<and>
     apply_scaled_into Wht_Avx512 demo_ops rot [1, 2, 3, 4, 5, 6, 7, 8] 2
       = apply_with_scratch Wht_Neon demo_ops rot (map (\<lambda>x. f_mul demo_ops x 2) [1, 2, 3, 4, 5, 6, 7, 8])"
proof -
  have "rotation_new demo_ops demo_rng 8 \<noteq> None" by (simp add: rotation_new_None MAX_DIM_def)
  then obtain rot where rot: "rotation_new demo_ops demo_rng 8 = Some rot" by blast
  have "length [1, 2, 3, 4, 5, 6, 7, 8 :: f32] = 8" by simp
  then show ?thesis using rot rotation_encode_eq_query [OF rot] by blast
qed

end
