(* ===== verification/WhtNorm.thy ===== *)
theory WhtNorm
  imports Hadamard Complex_Main
begin

text \<open>
  Over the reals, the Walsh-Hadamard transform with the factor \<open>1/sqrt B\<close> is an isometry.
\<close>

section \<open>The transform over the reals\<close>

definition energy :: "real list \<Rightarrow> real" where
  "energy xs = (\<Sum>i < length xs. (xs ! i)\<^sup>2)"

lemma sum_pairs:
  fixes f :: "nat \<Rightarrow> real"
  shows "(\<Sum>i < nq * (2 * len). f i) = (\<Sum>q < nq. \<Sum>r < len. f (q * (2 * len) + r) + f (q * (2 * len) + (len + r)))"
proof -
  have half: "sum f {a..<a + 2 * len} = (\<Sum>r < len. f (a + r) + f (a + (len + r)))" for a
  proof -
    have "sum f {a..<a + 2 * len} = sum f {a..<a + len} + sum f {a + len..<a + len + len}"
      by (subst sum.atLeastLessThan_concat) (simp_all add: mult_2 add.assoc)
    also have "sum f {a..<a + len} = (\<Sum>r < len. f (a + r))"
      using sum.shift_bounds_nat_ivl [of f 0 a len] by (simp add: atLeast0LessThan ac_simps)
    also have "sum f {a + len..<a + len + len} = (\<Sum>r < len. f (a + (len + r)))"
      using sum.shift_bounds_nat_ivl [of f 0 "a + len" len] by (simp add: atLeast0LessThan ac_simps)
    finally show ?thesis by (simp add: sum.distrib)
  qed
  have "(\<Sum>i < nq * (2 * len). f i) = (\<Sum>q < nq. sum f {q * (2 * len)..<q * (2 * len) + 2 * len})"
    by (rule sum.nat_group [symmetric])
  then show ?thesis by (simp only: half)
qed

lemma stage_energy:
  assumes "0 < len" "length blk = block" "block = nq * (2 * len)"
  shows "energy (wht_stage (+) (-) len block blk) = 2 * energy blk"
proof -
  let ?y = "wht_stage (+) (-) len block blk"
  have ly: "length ?y = block" by (rule stage_length [OF assms])
  have sq: "(a + b)\<^sup>2 + (a - b)\<^sup>2 = 2 * (a\<^sup>2 + b\<^sup>2)" for a b :: real by (simp add: power2_eq_square algebra_simps)
  have "energy ?y = (\<Sum>q < nq. \<Sum>r < len. (?y ! (q * (2 * len) + r))\<^sup>2 + (?y ! (q * (2 * len) + (len + r)))\<^sup>2)"
    by (simp only: energy_def ly) (simp only: assms(3) sum_pairs)
  also have "\<dots> = (\<Sum>q < nq. \<Sum>r < len. 2 * ((blk ! (q * (2 * len) + r))\<^sup>2 + (blk ! (q * (2 * len) + (len + r)))\<^sup>2))"
    by (intro sum.cong refl) (simp only: lessThan_iff stage_pair [OF assms] sq)
  also have "\<dots> = 2 * energy blk"
    unfolding energy_def assms(2) unfolding assms(3) by (simp only: sum_pairs sum_distrib_left)
  finally show ?thesis .
qed

lemma stages_energy:
  assumes "length blk = 2 ^ e" "d \<le> e"
  shows "energy (wht_stages (+) (-) (2 ^ (e - d)) (2 ^ e) blk) = 2 ^ d * energy blk"
  using assms
proof (induction d arbitrary: blk)
  case 0
  then show ?case by (simp add: wht_stages.simps)
next
  case (Suc d)
  let ?len = "(2 :: nat) ^ (e - Suc d)"
  have e: "e - d = Suc (e - Suc d)" using Suc.prems(2) by simp
  have "e = (e - Suc d) + Suc d" using Suc.prems(2) by simp
  then have b: "(2 :: nat) ^ e = 2 ^ d * (2 * ?len)" by (metis power_add power_Suc mult.commute mult.left_commute)
  have lt: "?len < 2 ^ e" using Suc.prems(2) by (intro power_strict_increasing) simp_all
  have l: "length (wht_stage (+) (-) ?len (2 ^ e) blk) = 2 ^ e"
    by (rule stage_length [OF _ Suc.prems(1) b]) simp
  have "wht_stages (+) (-) ?len (2 ^ e) blk = wht_stages (+) (-) (2 ^ (e - d)) (2 ^ e) (wht_stage (+) (-) ?len (2 ^ e) blk)"
    using lt by (subst wht_stages.simps) (simp add: e)
  then have "energy (wht_stages (+) (-) ?len (2 ^ e) blk) = 2 ^ d * energy (wht_stage (+) (-) ?len (2 ^ e) blk)"
    using Suc.IH [OF l] Suc.prems(2) by simp
  also have "\<dots> = 2 ^ Suc d * energy blk"
    by (subst stage_energy [OF _ Suc.prems(1) b]) simp_all
  finally show ?case .
qed

lemma wht_block_energy:
  assumes "block = 2 ^ e" "8 \<le> block" "length blk = block"
  shows "energy (wht_block k (+) (-) (*) blk block (1 / sqrt (real block))) = energy blk"
proof -
  have "energy (wht_stages (+) (-) 1 block blk) = real block * energy blk"
    using stages_energy [of blk e e] assms by simp
  moreover have "energy (map (\<lambda>x. x * s) xs) = s\<^sup>2 * energy xs" for s xs
    by (simp add: energy_def power_mult_distrib sum_distrib_left mult.commute)
  moreover have "(1 / sqrt (real block))\<^sup>2 * (real block * energy blk) = energy blk"
    using assms(2) by (simp add: power_divide)
  ultimately show ?thesis unfolding wht_kernels_agree [OF assms] wht_block_scalar_def by (simp only:)
qed

section \<open>Property\<close>

text \<open>C28. In exact arithmetic the block transform with the factor \<open>1/sqrt B\<close> keeps the Euclidean
  norm, on every kernel: the rotation is an isometry up to rounding.\<close>

theorem wht_keeps_norm:
  assumes "block = 2 ^ e" "8 \<le> block" "length blk = block"
  shows "energy (wht_block k (+) (-) (*) blk block (1 / sqrt (real block))) = energy blk"
  using assms by (rule wht_block_energy)

theorem wht_keeps_norm_witness:
  "energy (wht_block Wht_Avx2 (+) (-) (*) [3, 1, 4, 1, 5, 9, 2, 6] 8 (1 / sqrt (real 8))) = energy [3, 1, 4, 1, 5, 9, 2, 6]"
  by (rule wht_keeps_norm [of 8 3]) simp_all

end
