(* ===== verification/Validate.thy ===== *)
theory Validate
  imports FloatOps
begin

text \<open>
  The input check of \<open>encode.rs\<close>: every coordinate must be finite and below
  \<open>MAX_INPUT_MAGNITUDE\<close>. A batch is scanned in chunks by all workers, each chunk a register at a
  time; the reported position is the one a left-to-right scan reports. A value of type
  \<open>_ option option\<close> is a scan's result, with \<open>None\<close> for the \<open>unreachable!\<close> of the SIMD scans.
\<close>

section \<open>Definitions\<close>

datatype simd = Simd_Scalar | Simd_Neon | Simd_Avx

definition VALIDATE_CHUNK :: nat where "VALIDATE_CHUNK = 65536"

text \<open>The bit pattern of 1e16.\<close>

definition MAX_INPUT_MAGNITUDE :: f32 where "MAX_INPUT_MAGNITUDE = 0x5A0E1BCA"

definition magnitude_fails :: "f32 \<Rightarrow> f32 \<Rightarrow> bool" where
  "magnitude_fails bound x \<longleftrightarrow> \<not> f32_lt (f32_abs x) bound"

definition first_invalid_in_chunk_scalar :: "f32 list \<Rightarrow> f32 \<Rightarrow> nat option" where
  "first_invalid_in_chunk_scalar chunk bound =
     find (\<lambda>j. let x = chunk ! j in \<not> f32_is_finite x \<or> f32_le bound (f32_abs x)) [0..<length chunk]"

text \<open>\<open>for j in a..n\<close> with the scalar predicate.\<close>

definition scan_from :: "f32 list \<Rightarrow> f32 \<Rightarrow> nat \<Rightarrow> nat option" where
  "scan_from chunk bound a = find (\<lambda>j. magnitude_fails bound (chunk ! j)) [a..<length chunk]"

text \<open>Groups of \<open>w\<close> lanes from \<open>g\<close>; a group with a failing lane is scanned again, to the end.\<close>

fun scan_groups :: "nat \<Rightarrow> f32 list \<Rightarrow> f32 \<Rightarrow> nat list \<Rightarrow> nat option option" where
  "scan_groups w chunk bound [] = Some (scan_from chunk bound (length chunk div w * w))"
| "scan_groups w chunk bound (g # gs) =
     (if list_ex (magnitude_fails bound) (take w (drop (g * w) chunk))
      then (case scan_from chunk bound (g * w) of None \<Rightarrow> None | Some j \<Rightarrow> Some (Some j))
      else scan_groups w chunk bound gs)"

definition first_invalid_in_chunk_neon :: "f32 list \<Rightarrow> f32 \<Rightarrow> nat option option" where
  "first_invalid_in_chunk_neon chunk bound = scan_groups 4 chunk bound [0..<length chunk div 4]"

definition first_invalid_in_chunk_avx2 :: "f32 list \<Rightarrow> f32 \<Rightarrow> nat option option" where
  "first_invalid_in_chunk_avx2 chunk bound = scan_groups 8 chunk bound [0..<length chunk div 8]"

definition first_invalid_in_chunk :: "simd \<Rightarrow> f32 list \<Rightarrow> f32 \<Rightarrow> nat option option" where
  "first_invalid_in_chunk k chunk bound =
     (case k of Simd_Neon \<Rightarrow> first_invalid_in_chunk_neon chunk bound
      | Simd_Avx \<Rightarrow> first_invalid_in_chunk_avx2 chunk bound
      | Simd_Scalar \<Rightarrow> Some (first_invalid_in_chunk_scalar chunk bound))"

text \<open>\<open>par_chunks(c)\<close>.\<close>

definition par_chunks :: "nat \<Rightarrow> 'a list \<Rightarrow> 'a list list" where
  "par_chunks c xs = map (\<lambda>i. take c (drop (i * c) xs)) [0..<(length xs + c - 1) div c]"

definition par_first_invalid_coord :: "simd \<Rightarrow> f32 list \<Rightarrow> nat \<Rightarrow> f32 \<Rightarrow> (nat \<times> nat \<times> f32) option option" where
  "par_first_invalid_coord k values dim bound =
     do {
       found \<leftarrow> those (map (\<lambda>(ci, chunk). map_option (map_option (\<lambda>j. ci * VALIDATE_CHUNK + j))
                              (first_invalid_in_chunk k chunk bound))
                        (enumerate 0 (par_chunks VALIDATE_CHUNK values)));
       Some (case List.map_filter id found of
         [] \<Rightarrow> None
       | f # fs \<Rightarrow> let first = fold min fs f; x = values ! first
                   in Some (if dim = 0 then 0 else first div dim, if dim = 0 then first else first mod dim, x))
     }"

definition first_invalid_coord :: "simd \<Rightarrow> f32 list \<Rightarrow> nat \<Rightarrow> (nat \<times> nat \<times> f32) option option" where
  "first_invalid_coord k values dim = par_first_invalid_coord k values dim MAX_INPUT_MAGNITUDE"

section \<open>The two forms of the predicate\<close>

lemma f32_mag_abs [simp]: "f32_mag (f32_abs x) = f32_mag x"
  by (simp add: f32_abs_def f32_mag_def unat_of_nat take_bit_eq_mod)

lemma f32_sign_abs [simp]: "\<not> f32_sign (f32_abs x)"
  using f32_mag_bound [of x] by (simp add: f32_abs_def f32_sign_def unat_of_nat take_bit_eq_mod)

lemma fails_iff:
  assumes "f32_is_finite bound" "\<not> f32_sign bound"
  shows "(\<not> f32_is_finite x \<or> f32_le bound (f32_abs x)) \<longleftrightarrow> magnitude_fails bound x"
  using assms
  by (auto simp: magnitude_fails_def f32_le_def f32_lt_def f32_is_finite_def f32_is_nan_def f32_ord_def)

lemma MAX_INPUT_MAGNITUDE_finite: "f32_is_finite MAX_INPUT_MAGNITUDE" "\<not> f32_sign MAX_INPUT_MAGNITUDE"
  by (simp_all add: MAX_INPUT_MAGNITUDE_def f32_is_finite_def f32_sign_def f32_mag_def f32_inf_mag_def)

section \<open>The chunk scans\<close>

lemma find_upt_Some:
  "find P [a..<b] = Some j \<longleftrightarrow> a \<le> j \<and> j < b \<and> P j \<and> (\<forall>i. a \<le> i \<and> i < j \<longrightarrow> \<not> P i)"
proof (induction "b - a" arbitrary: a)
  case (Suc n)
  then have l: "a < b" "n = b - Suc a" by simp_all
  have up: "[a..<b] = a # [Suc a..<b]" using l by (simp add: upt_rec)
  show ?case
  proof (cases "P a")
    case True
    then show ?thesis unfolding up using l by (auto simp: le_less)
  next
    case False
    then have "(\<forall>i. a \<le> i \<and> i < j \<longrightarrow> \<not> P i) \<longleftrightarrow> (\<forall>i. Suc a \<le> i \<and> i < j \<longrightarrow> \<not> P i)"
      by (metis Suc_le_eq le_less)
    moreover have "P j \<Longrightarrow> a \<le> j \<longleftrightarrow> Suc a \<le> j" using False by (metis Suc_le_eq le_less)
    ultimately show ?thesis unfolding up using Suc(1) [OF l(2)] False by auto
  qed
qed auto

lemma find_upt_None: "find P [a..<b] = None \<longleftrightarrow> (\<forall>i. a \<le> i \<and> i < b \<longrightarrow> \<not> P i)"
  by (auto simp: find_None_iff)

lemma find_upt_skip:
  assumes "\<forall>i. a \<le> i \<and> i < c \<longrightarrow> \<not> P i" "a \<le> c"
  shows "find P [a..<b] = find P [c..<b]"
proof (cases "find P [c..<b]")
  case None
  then have "\<forall>i. c \<le> i \<and> i < b \<longrightarrow> \<not> P i" by (simp only: find_upt_None)
  then have "find P [a..<b] = None" using assms unfolding find_upt_None by (metis not_le)
  then show ?thesis using None by simp
next
  case (Some j)
  have "find P [a..<b] = Some j"
    using Some assms unfolding find_upt_Some by (metis not_le order_trans)
  then show ?thesis using Some by simp
qed

lemma scan_groups_correct:
  assumes "0 < w" "g + n = length chunk div w" "\<forall>i < g * w. \<not> magnitude_fails bound (chunk ! i)"
  shows "scan_groups w chunk bound [g..<g + n] = Some (scan_from chunk bound 0)"
  using assms(2,3)
proof (induction n arbitrary: g)
  case 0
  then show ?case using find_upt_skip [of 0 "g * w" "\<lambda>j. magnitude_fails bound (chunk ! j)"] by (simp add: scan_from_def)
next
  case (Suc n)
  have up: "[g..<g + Suc n] = g # [Suc g..<Suc g + n]" by (simp add: upt_rec)
  have skip: "scan_from chunk bound 0 = scan_from chunk bound (g * w)"
    unfolding scan_from_def by (rule find_upt_skip) (use Suc.prems(2) in auto)
  have "Suc g * w \<le> length chunk"
    using Suc.prems(1) assms(1) by (metis add_Suc_right add_Suc le_add1 less_eq_div_iff_mult_less_eq)
  then have len: "g * w + w \<le> length chunk" by simp
  have lanes: "list_ex (magnitude_fails bound) (take w (drop (g * w) chunk)) \<longleftrightarrow>
      (\<exists>j. g * w \<le> j \<and> j < g * w + w \<and> magnitude_fails bound (chunk ! j))"
  proof
    assume "list_ex (magnitude_fails bound) (take w (drop (g * w) chunk))"
    then obtain m where "m < w" "magnitude_fails bound (chunk ! (g * w + m))"
      using len by (auto simp: list_ex_length)
    then show "\<exists>j. g * w \<le> j \<and> j < g * w + w \<and> magnitude_fails bound (chunk ! j)" by (intro exI [of _ "g * w + m"]) simp
  next
    assume "\<exists>j. g * w \<le> j \<and> j < g * w + w \<and> magnitude_fails bound (chunk ! j)"
    then obtain j where j: "g * w \<le> j" "j < g * w + w" "magnitude_fails bound (chunk ! j)" by blast
    then show "list_ex (magnitude_fails bound) (take w (drop (g * w) chunk))"
      using len by (auto simp: list_ex_length intro!: exI [of _ "j - g * w"])
  qed
  show ?case
  proof (cases "list_ex (magnitude_fails bound) (take w (drop (g * w) chunk))")
    case True
    then obtain j where "g * w \<le> j" "j < length chunk" "magnitude_fails bound (chunk ! j)"
      using lanes len by (meson less_le_trans)
    then have "scan_from chunk bound (g * w) \<noteq> None" unfolding scan_from_def find_upt_None by blast
    then show ?thesis unfolding up using True skip by (auto simp del: upt_Suc)
  next
    case False
    then have "\<forall>i < Suc g * w. \<not> magnitude_fails bound (chunk ! i)" using Suc.prems(2) lanes
      by (metis add.commute mult_Suc not_le)
    then show ?thesis unfolding up using Suc.IH [of "Suc g"] Suc.prems(1) False by (simp del: upt_Suc)
  qed
qed

lemma first_invalid_in_chunk_correct:
  assumes "f32_is_finite bound" "\<not> f32_sign bound"
  shows "first_invalid_in_chunk k chunk bound = Some (scan_from chunk bound 0)"
proof (cases k)
  case Simd_Scalar
  then show ?thesis
    using fails_iff [OF assms] by (simp add: first_invalid_in_chunk_def first_invalid_in_chunk_scalar_def scan_from_def Let_def)
next
  case Simd_Neon
  then show ?thesis using scan_groups_correct [of 4 0 "length chunk div 4" chunk bound]
    by (simp add: first_invalid_in_chunk_def first_invalid_in_chunk_neon_def)
next
  case Simd_Avx
  then show ?thesis using scan_groups_correct [of 8 0 "length chunk div 8" chunk bound]
    by (simp add: first_invalid_in_chunk_def first_invalid_in_chunk_avx2_def)
qed

section \<open>The parallel scan\<close>

lemma chunk_scan:
  assumes "ci * c \<le> length values"
  shows "map_option (\<lambda>j. ci * c + j) (scan_from (take c (drop (ci * c) values)) bound 0)
    = find (\<lambda>i. magnitude_fails bound (values ! i)) [ci * c..<min (ci * c + c) (length values)]"
proof (cases "scan_from (take c (drop (ci * c) values)) bound 0")
  case None
  then have n: "\<forall>i. i < length (take c (drop (ci * c) values)) \<longrightarrow> \<not> magnitude_fails bound (take c (drop (ci * c) values) ! i)"
    unfolding scan_from_def find_upt_None by simp
  have "find (\<lambda>i. magnitude_fails bound (values ! i)) [ci * c..<min (ci * c + c) (length values)] = None"
    unfolding find_upt_None
  proof (intro allI impI)
    fix i
    assume i: "ci * c \<le> i \<and> i < min (ci * c + c) (length values)"
    then have "i - ci * c < length (take c (drop (ci * c) values))" by auto
    then show "\<not> magnitude_fails bound (values ! i)" using n [rule_format, of "i - ci * c"] i assms by simp
  qed
  then show ?thesis using None by simp
next
  case (Some j)
  then have "j < length (take c (drop (ci * c) values)) \<and> magnitude_fails bound (take c (drop (ci * c) values) ! j)
      \<and> (\<forall>i. 0 \<le> i \<and> i < j \<longrightarrow> \<not> magnitude_fails bound (take c (drop (ci * c) values) ! i))"
    unfolding scan_from_def find_upt_Some by blast
  then have j: "j < c" "ci * c + j < length values" "magnitude_fails bound (values ! (ci * c + j))"
    and n: "\<forall>i < j. \<not> magnitude_fails bound (values ! (ci * c + i))"
    using assms by auto
  have "find (\<lambda>i. magnitude_fails bound (values ! i)) [ci * c..<min (ci * c + c) (length values)] = Some (ci * c + j)"
    unfolding find_upt_Some
  proof (intro conjI allI impI)
    fix i
    assume i: "ci * c \<le> i \<and> i < ci * c + j"
    then have "i - ci * c < j" "ci * c + (i - ci * c) = i" by auto
    then show "\<not> magnitude_fails bound (values ! i)" using n by metis
  qed (use j in simp_all)
  then show ?thesis using Some by simp
qed

lemma first_of_ranges:
  fixes P :: "nat \<Rightarrow> bool"
  assumes c: "0 < c" and cover: "n \<le> m * c"
  defines "R \<equiv> List.map_filter (\<lambda>ci. find P [ci * c..<min (ci * c + c) n]) [0..<m]"
  shows "(case R of [] \<Rightarrow> None | f # fs \<Rightarrow> Some (fold min fs f)) = find P [0..<n]"
proof -
  have set: "j \<in> set R \<longleftrightarrow> (\<exists>ci < m. find P [ci * c..<min (ci * c + c) n] = Some j)" for j
    unfolding R_def List.map_filter_def by (force simp: image_iff)
  show ?thesis
  proof (cases "find P [0..<n]")
    case None
    then have "\<forall>i < n. \<not> P i" unfolding find_upt_None by simp
    then have "j \<notin> set R" for j using set [of j] unfolding find_upt_Some by auto
    then have "R = []" by (cases R) force+
    then show ?thesis using None by simp
  next
    case (Some j)
    then have j: "j < n" "P j" "\<forall>i < j. \<not> P i" unfolding find_upt_Some by simp_all
    have jm: "j div c < m" using j(1) cover c by (simp add: div_less_iff_less_mult)
    have "j < j div c * c + c" using c by (metis dividend_less_div_times add.commute)
    then have "find P [j div c * c..<min (j div c * c + c) n] = Some j" using j unfolding find_upt_Some by simp
    then have jR: "j \<in> set R" using set jm by blast
    have least: "j \<le> i" if "i \<in> set R" for i
      using that j(3) unfolding set find_upt_Some by (metis not_le)
    from jR obtain f fs where R: "R = f # fs" by (cases R) simp_all
    have "fold min fs f = Min (set R)" unfolding R by (simp only: Min.set_eq_fold)
    also have "\<dots> = j" using jR least by (intro Min_eqI) simp_all
    finally show ?thesis using Some R by simp
  qed
qed

lemma those_map_Some: "those (map (\<lambda>x. Some (f x)) xs) = Some (map f xs)"
  by (induction xs) simp_all

lemma map_filter_id: "List.map_filter id (map f xs) = List.map_filter f xs"
  by (simp add: map_filter_def filter_map o_def)

lemma par_first_invalid_coord_correct:
  assumes bound: "f32_is_finite bound" "\<not> f32_sign bound"
  shows "par_first_invalid_coord k values dim bound =
    Some (map_option (\<lambda>i. (if dim = 0 then 0 else i div dim, if dim = 0 then i else i mod dim, values ! i))
           (find (\<lambda>i. magnitude_fails bound (values ! i)) [0..<length values]))"
proof -
  let ?P = "\<lambda>i. magnitude_fails bound (values ! i)" and ?c = VALIDATE_CHUNK
  define m where "m = (length values + ?c - 1) div ?c"
  have c: "0 < ?c" by (simp add: VALIDATE_CHUNK_def)
  have starts: "ci * ?c \<le> length values" if "ci < m" for ci
  proof -
    have "Suc ci * ?c \<le> length values + ?c - 1"
      using that c unfolding m_def by (metis Suc_leI less_eq_div_iff_mult_less_eq)
    then show ?thesis by simp
  qed
  have cover: "length values \<le> m * ?c"
  proof -
    have "length values + ?c - 1 < m * ?c + ?c" unfolding m_def using dividend_less_div_times [OF c, of "length values + ?c - 1"] by (simp add: add.commute)
    then show ?thesis by simp
  qed
  have en: "enumerate 0 (par_chunks ?c values) = map (\<lambda>i. (i, take ?c (drop (i * ?c) values))) [0..<m]"
    unfolding par_chunks_def m_def [symmetric] by (rule nth_equalityI) (simp_all add: nth_enumerate_eq)
  have "map (\<lambda>(ci, chunk). map_option (map_option (\<lambda>j. ci * ?c + j)) (first_invalid_in_chunk k chunk bound))
          (enumerate 0 (par_chunks ?c values))
      = map (\<lambda>ci. Some (find ?P [ci * ?c..<min (ci * ?c + ?c) (length values)])) [0..<m]"
    unfolding en map_map o_def
    by (rule map_cong) (simp_all add: first_invalid_in_chunk_correct [OF bound] chunk_scan [OF starts])
  then have "par_first_invalid_coord k values dim bound =
    Some (case List.map_filter (\<lambda>ci. find ?P [ci * ?c..<min (ci * ?c + ?c) (length values)]) [0..<m] of
         [] \<Rightarrow> None
       | f # fs \<Rightarrow> let first = fold min fs f; x = values ! first
                   in Some (if dim = 0 then 0 else first div dim, if dim = 0 then first else first mod dim, x))"
    unfolding par_first_invalid_coord_def by (simp add: those_map_Some map_filter_id)
  also have "\<dots> = Some (map_option (\<lambda>i. (if dim = 0 then 0 else i div dim, if dim = 0 then i else i mod dim, values ! i))
      (case List.map_filter (\<lambda>ci. find ?P [ci * ?c..<min (ci * ?c + ?c) (length values)]) [0..<m] of
         [] \<Rightarrow> None | f # fs \<Rightarrow> Some (fold min fs f)))"
    by (simp add: Let_def split: list.split)
  also have "\<dots> = Some (map_option (\<lambda>i. (if dim = 0 then 0 else i div dim, if dim = 0 then i else i mod dim, values ! i))
      (find ?P [0..<length values]))"
    by (simp only: first_of_ranges [OF c cover])
  finally show ?thesis .
qed

end
