(* ===== verification/Quantize.thy ===== *)
theory Quantize
  imports FloatOps Validate
begin

text \<open>
  The per-row kernels of \<open>encode.rs\<close>: the norm (\<open>simd_norm\<close>) and the fused quantizer
  (\<open>fused_quantize_scale_pack\<close>) in their scalar, NEON and AVX2 forms. A register is the list of its
  lanes; an operation that acts on every lane alone is given by its lane. A comparison yields the
  all-ones or all-zeros word. Every form is shown to produce the bits of the scalar one.
\<close>

section \<open>Norm\<close>

definition combine_norm_chains :: "float_ops \<Rightarrow> f32 list \<Rightarrow> f32" where
  "combine_norm_chains fo c =
     f_add fo (f_add fo (f_add fo (c ! 0) (c ! 1)) (f_add fo (c ! 2) (c ! 3)))
              (f_add fo (f_add fo (c ! 4) (c ! 5)) (f_add fo (c ! 6) (c ! 7)))"

text \<open>The scalar accumulation of positions \<open>a..n\<close>, into eight chains.\<close>

definition norm_chains :: "float_ops \<Rightarrow> f32 list \<Rightarrow> nat \<Rightarrow> nat \<Rightarrow> f32 list \<Rightarrow> f32 list" where
  "norm_chains fo row a n accs =
     foldl (\<lambda>ch j. ch[j mod 8 := f_add fo (ch ! (j mod 8)) (f_mul fo (row ! j) (row ! j))]) accs [a..<n]"

definition norm_sq_scalar :: "float_ops \<Rightarrow> f32 list \<Rightarrow> f32" where
  "norm_sq_scalar fo row = combine_norm_chains fo (norm_chains fo row 0 (length row) (replicate 8 f32_zero))"

definition norm_sq_avx :: "float_ops \<Rightarrow> f32 list \<Rightarrow> f32" where
  "norm_sq_avx fo row =
     (let n = length row;
          acc = foldl (\<lambda>acc q. let v = take 8 (drop (q * 8) row) in map2 (f_add fo) acc (map2 (f_mul fo) v v))
                  (replicate 8 f32_zero) [0..<n div 8]
      in combine_norm_chains fo (norm_chains fo row (n div 8 * 8) n acc))"

definition norm_sq_neon :: "float_ops \<Rightarrow> f32 list \<Rightarrow> f32" where
  "norm_sq_neon fo row =
     (let n = length row;
          (acc_lo, acc_hi) = foldl (\<lambda>(acc_lo, acc_hi) q.
              let lo = take 4 (drop (q * 8) row); hi = take 4 (drop (q * 8 + 4) row)
              in (map2 (f_add fo) acc_lo (map2 (f_mul fo) lo lo), map2 (f_add fo) acc_hi (map2 (f_mul fo) hi hi)))
            (replicate 4 f32_zero, replicate 4 f32_zero) [0..<n div 8]
      in combine_norm_chains fo (norm_chains fo row (n div 8 * 8) n (acc_lo @ acc_hi)))"

definition simd_norm :: "simd \<Rightarrow> float_ops \<Rightarrow> f32 list \<Rightarrow> f32" where
  "simd_norm k fo row =
     f_sqrt fo (case k of Simd_Avx \<Rightarrow> norm_sq_avx fo row | Simd_Neon \<Rightarrow> norm_sq_neon fo row
                | Simd_Scalar \<Rightarrow> norm_sq_scalar fo row)"

section \<open>Reconstruction\<close>

definition recon_entry :: "float_ops \<Rightarrow> f32 \<Rightarrow> f64 \<Rightarrow> f64 \<Rightarrow> f64" where
  "recon_entry fo centroid iv sh = d_sub fo (d_mul fo (d_of_f fo centroid) iv) sh"

definition build_recon_table :: "float_ops \<Rightarrow> nat \<Rightarrow> nat \<Rightarrow> f32 list \<Rightarrow> f32 list \<Rightarrow> f32 list \<Rightarrow> f64 list" where
  "build_recon_table fo bit_width dim centroids inv_scale_tq shift =
     concat (map (\<lambda>d. let iv = d_of_f fo (inv_scale_tq ! d); sh = d_of_f fo (shift ! d)
                      in map (\<lambda>c. recon_entry fo (centroids ! c) iv sh) [0..<2 ^ bit_width]) [0..<dim])"

text \<open>\<open>DEGENERATE_INNER_EPS\<close>, the \<open>f64\<close> 0.1.\<close>

definition DEGENERATE_INNER_EPS :: f64 where "DEGENERATE_INNER_EPS = 0x3FB999999999999A"

definition scale_from_inner :: "float_ops \<Rightarrow> f64 \<Rightarrow> f32 \<Rightarrow> f32" where
  "scale_from_inner fo inner norm =
     (if f64_gt inner DEGENERATE_INNER_EPS then f_div fo norm (f_of_d fo inner) else f32_zero)"

section \<open>The arguments of the row kernel\<close>

record quant =
  q_bits :: nat
  q_dim :: nat
  q_shift :: "f32 list"
  q_scale_tq :: "f32 list"
  q_inv_scale_tq :: "f32 list"
  q_table :: "f64 list option"
  q_boundaries :: "f32 list"
  q_centroids :: "f32 list"

definition calibrated :: "float_ops \<Rightarrow> quant \<Rightarrow> f32 list \<Rightarrow> nat \<Rightarrow> f32" where
  "calibrated fo q rot j = f_mul fo (f_add fo (rot ! j) (q_shift q ! j)) (q_scale_tq q ! j)"

section \<open>Scalar kernel\<close>

definition scalar_code :: "quant \<Rightarrow> f32 \<Rightarrow> u8" where
  "scalar_code q calib =
     foldl (\<lambda>v bi. if f32_gt calib (q_boundaries q ! bi) then v + 1 else v) 0 [0..<2 ^ q_bits q - 1]"

definition centroid_in_orig :: "float_ops \<Rightarrow> quant \<Rightarrow> nat \<Rightarrow> u8 \<Rightarrow> f64" where
  "centroid_in_orig fo q j v =
     (case q_table q of
        Some table \<Rightarrow> table ! (j * 2 ^ q_bits q + unat v)
      | None \<Rightarrow> recon_entry fo (q_centroids q ! unat v) (d_of_f fo (q_inv_scale_tq q ! j)) (d_of_f fo (q_shift q ! j)))"

definition scalar_byte :: "nat \<Rightarrow> u8 list \<Rightarrow> u8" where
  "scalar_byte p codes =
     foldl (\<lambda>byte k. byte OR push_bit (7 - k) (drop_bit p (codes ! k) AND 1)) 0 [0..<8]"

definition scalar_chunk :: "float_ops \<Rightarrow> quant \<Rightarrow> f32 list \<Rightarrow> f64 list \<times> bytes \<Rightarrow> nat \<Rightarrow> f64 list \<times> bytes" where
  "scalar_chunk fo q rot = (\<lambda>(accs, row) c.
     let (codes, accs) = foldl (\<lambda>(codes, accs) k.
             let j = c * 8 + k; v = scalar_code q (calibrated fo q rot j)
             in (codes[k := v],
                 accs[j mod 4 := d_add fo (accs ! (j mod 4)) (d_mul fo (d_of_f fo (rot ! j)) (centroid_in_orig fo q j v))]))
           (replicate 8 0, accs) [0..<8]
     in (accs, foldl (\<lambda>row p. row[p * (q_dim q div 8) + c := scalar_byte p codes]) row [0..<q_bits q]))"

definition combine_inner :: "float_ops \<Rightarrow> f64 list \<Rightarrow> f64" where
  "combine_inner fo ch = d_add fo (d_add fo (ch ! 0) (ch ! 1)) (d_add fo (ch ! 2) (ch ! 3))"

definition fused_scalar :: "float_ops \<Rightarrow> quant \<Rightarrow> f32 list \<Rightarrow> f32 \<Rightarrow> bytes \<Rightarrow> f32 \<times> bytes" where
  "fused_scalar fo q rot norm row =
     (let (accs, row) = foldl (scalar_chunk fo q rot) (replicate 4 f64_zero, row) [0..<q_dim q div 8]
      in (scale_from_inner fo (combine_inner fo accs) norm, row))"

section \<open>NEON kernel\<close>

definition cmp_gt :: "f32 \<Rightarrow> f32 \<Rightarrow> u32" where
  "cmp_gt x y = (if f32_gt x y then 0xFFFFFFFF else 0)"

definition bsl :: "u32 \<Rightarrow> u32 \<Rightarrow> u32 \<Rightarrow> u32" where
  "bsl m a b = (m AND a) OR (NOT m AND b)"

definition neon_count :: "quant \<Rightarrow> f32 \<Rightarrow> u32" where
  "neon_count q x =
     (if q_bits q = 4
      then let m = cmp_gt x (q_boundaries q ! 7) in
        foldl (\<lambda>acc k. acc + drop_bit 31 (cmp_gt x (bsl m (q_boundaries q ! (8 + k)) (q_boundaries q ! k))))
          (push_bit 3 (drop_bit 31 m)) [0..<7]
      else foldl (\<lambda>acc bi. acc + drop_bit 31 (cmp_gt x (q_boundaries q ! bi))) 0 [0..<2 ^ q_bits q - 1])"

definition neon_byte :: "nat \<Rightarrow> u8 list \<Rightarrow> u8" where
  "neon_byte p counts =
     sum_list (map2 (\<lambda>code w. (if 0 < unat (code AND push_bit p 1) then 0xFF else 0) AND w) counts
                 [128, 64, 32, 16, 8, 4, 2, 1])"

definition neon_chunk :: "float_ops \<Rightarrow> quant \<Rightarrow> f32 list \<Rightarrow> (f64 list \<times> f64 list) \<times> bytes \<Rightarrow> nat \<Rightarrow> (f64 list \<times> f64 list) \<times> bytes" where
  "neon_chunk fo q rot = (\<lambda>((acc_a, acc_b), row) c.
     let offset = c * 8;
         vals_lo = map (\<lambda>k. calibrated fo q rot (offset + k)) [0..<4];
         vals_hi = map (\<lambda>k. calibrated fo q rot (offset + 4 + k)) [0..<4];
         counts = map ucast (map (neon_count q) vals_lo @ map (neon_count q) vals_hi);
         terms = map (\<lambda>k. d_mul fo (d_of_f fo (rot ! (offset + k))) (centroid_in_orig fo q (offset + k) (counts ! k))) [0..<8];
         acc_a = map2 (d_add fo) acc_a (take 2 terms);
         acc_b = map2 (d_add fo) acc_b (take 2 (drop 2 terms));
         acc_a = map2 (d_add fo) acc_a (take 2 (drop 4 terms));
         acc_b = map2 (d_add fo) acc_b (take 2 (drop 6 terms))
     in ((acc_a, acc_b), foldl (\<lambda>row p. row[p * (q_dim q div 8) + offset div 8 := neon_byte p counts]) row [0..<q_bits q]))"

definition fused_neon :: "float_ops \<Rightarrow> quant \<Rightarrow> f32 list \<Rightarrow> f32 \<Rightarrow> bytes \<Rightarrow> f32 \<times> bytes" where
  "fused_neon fo q rot norm row =
     (let ((acc_a, acc_b), row) = foldl (neon_chunk fo q rot) ((replicate 2 f64_zero, replicate 2 f64_zero), row) [0..<q_dim q div 8]
      in (scale_from_inner fo (d_add fo (d_add fo (acc_a ! 0) (acc_a ! 1)) (d_add fo (acc_b ! 0) (acc_b ! 1))) norm, row))"

section \<open>AVX2 kernel\<close>

text \<open>\<open>blendv\<close> looks at a lane's top bit; \<open>movemask\<close> collects the top bits in lane order.\<close>

definition blendv :: "u32 \<Rightarrow> u32 \<Rightarrow> u32 \<Rightarrow> u32" where
  "blendv a b m = (if bit m 31 then b else a)"

definition movemask :: "u32 list \<Rightarrow> u8" where
  "movemask v = foldl (\<lambda>m k. m OR (if bit (v ! k) 31 then push_bit k 1 else 0)) 0 [0..<8]"

definition permutevar8 :: "'a list \<Rightarrow> u32 list \<Rightarrow> 'a list" where
  "permutevar8 v idx = map (\<lambda>i. v ! unat (i AND 7)) idx"

definition avx2_count :: "quant \<Rightarrow> f32 \<Rightarrow> u32" where
  "avx2_count q x =
     (if q_bits q = 4
      then let m = cmp_gt x (q_boundaries q ! 7) in
        foldl (\<lambda>acc k. acc - cmp_gt x (blendv (q_boundaries q ! k) (q_boundaries q ! (8 + k)) m))
          (push_bit 3 (drop_bit 31 m)) [0..<7]
      else if q_bits q = 2
      then let m = cmp_gt x (q_boundaries q ! 1) in
        push_bit 1 (drop_bit 31 m) - cmp_gt x (blendv (q_boundaries q ! 0) (q_boundaries q ! 2) m)
      else foldl (\<lambda>acc bi. acc - cmp_gt x (q_boundaries q ! bi)) 0 [0..<2 ^ q_bits q - 1])"

definition avx2_byte :: "nat \<Rightarrow> u32 list \<Rightarrow> u8" where
  "avx2_byte p acc = movemask (map (push_bit (31 - p)) (permutevar8 acc [7, 6, 5, 4, 3, 2, 1, 0]))"

definition avx2_select :: "quant \<Rightarrow> u32 list \<Rightarrow> f32 list" where
  "avx2_select q acc =
     (let cvec = map (\<lambda>i. q_centroids q ! min i (2 ^ q_bits q - 1)) [0..<8];
          cvec_hi = (if q_bits q = 4 then map (\<lambda>i. q_centroids q ! (8 + i)) [0..<8] else replicate 8 f32_zero)
      in if q_bits q = 4
         then let low3 = map (\<lambda>a. a AND 7) acc; lo = permutevar8 cvec low3; hi = permutevar8 cvec_hi low3;
                  use_hi = map (\<lambda>a. if 7 < sint a then 0xFFFFFFFF else 0) acc
              in map (\<lambda>k. blendv (lo ! k) (hi ! k) (use_hi ! k)) [0..<8]
         else permutevar8 cvec acc)"

definition avx2_chunk :: "float_ops \<Rightarrow> quant \<Rightarrow> f32 list \<Rightarrow> f64 list \<times> bytes \<Rightarrow> nat \<Rightarrow> f64 list \<times> bytes" where
  "avx2_chunk fo q rot = (\<lambda>(acc4, row) c.
     let offset = c * 8;
         vals = map (\<lambda>k. calibrated fo q rot (offset + k)) [0..<8];
         acc = map (avx2_count q) vals;
         row = foldl (\<lambda>row p. row[p * (q_dim q div 8) + c := avx2_byte p acc]) row [0..<q_bits q];
         sel = avx2_select q acc;
         x = map (\<lambda>k. d_sub fo (d_mul fo (d_of_f fo (sel ! k)) (d_of_f fo (q_inv_scale_tq q ! (offset + k))))
                        (d_of_f fo (q_shift q ! (offset + k)))) [0..<8];
         rot8 = map (\<lambda>k. d_of_f fo (rot ! (offset + k))) [0..<8];
         acc4 = map2 (d_add fo) acc4 (map2 (d_mul fo) (take 4 rot8) (take 4 x));
         acc4 = map2 (d_add fo) acc4 (map2 (d_mul fo) (drop 4 rot8) (drop 4 x))
     in (acc4, row))"

definition fused_avx2 :: "float_ops \<Rightarrow> quant \<Rightarrow> f32 list \<Rightarrow> f32 \<Rightarrow> bytes \<Rightarrow> f32 \<times> bytes" where
  "fused_avx2 fo q rot norm row =
     (let (accs, row) = foldl (avx2_chunk fo q rot) (replicate 4 f64_zero, row) [0..<q_dim q div 8]
      in (scale_from_inner fo (combine_inner fo accs) norm, row))"

definition fused_quantize_scale_pack :: "simd \<Rightarrow> float_ops \<Rightarrow> quant \<Rightarrow> f32 list \<Rightarrow> f32 \<Rightarrow> bytes \<Rightarrow> f32 \<times> bytes" where
  "fused_quantize_scale_pack k fo q rot norm row =
     (case k of Simd_Scalar \<Rightarrow> fused_scalar fo q rot norm row
      | Simd_Neon \<Rightarrow> fused_neon fo q rot norm row
      | Simd_Avx \<Rightarrow> fused_avx2 fo q rot norm row)"

section \<open>The norm kernels agree\<close>

lemma length8E:
  assumes "length xs = 8"
  obtains a b c d e f g h where "xs = [a, b, c, d, e, f, g, h]"
  using assms by (auto simp: numeral_eq_Suc length_Suc_conv)

lemma length4E:
  assumes "length xs = 4"
  obtains a b c d where "xs = [a, b, c, d]"
  using assms by (auto simp: numeral_eq_Suc length_Suc_conv)

lemma length2E:
  assumes "length xs = 2"
  obtains a b where "xs = [a, b]"
  using assms by (auto simp: numeral_eq_Suc length_Suc_conv)

lemma length_norm_chains [simp]: "length (norm_chains fo row a b ch) = length ch"
proof -
  have "length (foldl (\<lambda>ch j. ch[j mod 8 := f_add fo (ch ! (j mod 8)) (f_mul fo (row ! j) (row ! j))]) ch js) = length ch" for js
    by (induction js arbitrary: ch) simp_all
  then show ?thesis by (simp add: norm_chains_def)
qed

lemma norm_chains_some:
  assumes "length ch = 8" "m \<le> 8"
  shows "\<forall>r < 8. norm_chains fo row (q * 8) (q * 8 + m) ch ! r
    = (if r < m then f_add fo (ch ! r) (f_mul fo (row ! (q * 8 + r)) (row ! (q * 8 + r))) else ch ! r)"
  using assms(2)
proof (induction m)
  case 0
  then show ?case by (simp add: norm_chains_def)
next
  case (Suc m)
  let ?c = "norm_chains fo row (q * 8) (q * 8 + m) ch"
  have m: "(q * 8 + m) mod 8 = m" using Suc.prems by simp
  have "norm_chains fo row (q * 8) (q * 8 + Suc m) ch = ?c[m := f_add fo (?c ! m) (f_mul fo (row ! (q * 8 + m)) (row ! (q * 8 + m)))]"
    using m by (simp add: norm_chains_def)
  then show ?case using Suc assms(1) by (simp add: nth_list_update less_Suc_eq)
qed

lemma norm_chains_eight:
  assumes "length ch = 8" "q * 8 + 8 \<le> length row"
  shows "norm_chains fo row (q * 8) (q * 8 + 8) ch
    = (let v = take 8 (drop (q * 8) row) in map2 (f_add fo) ch (map2 (f_mul fo) v v))"
  using assms norm_chains_some [OF assms(1) order_refl, of fo row q]
  by (intro nth_equalityI) (simp_all add: Let_def)

lemma norm_chains_append:
  "a \<le> b \<Longrightarrow> b \<le> c \<Longrightarrow> norm_chains fo row a c ch = norm_chains fo row b c (norm_chains fo row a b ch)"
  using upt_add_eq_append [of a b "c - b"] by (simp add: norm_chains_def)

lemma norm_avx_chains:
  assumes "m * 8 \<le> length row"
  shows "foldl (\<lambda>acc q. let v = take 8 (drop (q * 8) row) in map2 (f_add fo) acc (map2 (f_mul fo) v v)) (replicate 8 f32_zero) [0..<m]
    = norm_chains fo row 0 (m * 8) (replicate 8 f32_zero)"
  using assms
proof (induction m)
  case (Suc m)
  then have "norm_chains fo row 0 (Suc m * 8) (replicate 8 f32_zero)
      = norm_chains fo row (m * 8) (m * 8 + 8) (norm_chains fo row 0 (m * 8) (replicate 8 f32_zero))"
    using norm_chains_append [of 0 "m * 8" "Suc m * 8"] by (simp add: add.commute)
  also have "\<dots> = (let v = take 8 (drop (m * 8) row) in map2 (f_add fo) (norm_chains fo row 0 (m * 8) (replicate 8 f32_zero)) (map2 (f_mul fo) v v))"
    using Suc.prems by (intro norm_chains_eight) simp_all
  finally show ?case using Suc by simp
qed (simp add: norm_chains_def)

lemma norm_neon_chains:
  fixes fo row
  defines "step \<equiv> \<lambda>(acc_lo, acc_hi) q.
              let lo = take 4 (drop (q * 8) row); hi = take 4 (drop (q * 8 + 4) row)
              in (map2 (f_add fo) acc_lo (map2 (f_mul fo) lo lo), map2 (f_add fo) acc_hi (map2 (f_mul fo) hi hi))"
  assumes "m * 8 \<le> length row"
  shows "\<exists>lo hi. foldl step (replicate 4 f32_zero, replicate 4 f32_zero) [0..<m] = (lo, hi) \<and> length lo = 4 \<and> length hi = 4 \<and>
    lo @ hi = norm_chains fo row 0 (m * 8) (replicate 8 f32_zero)"
  using assms(2)
proof (induction m)
  case 0
  have "replicate 4 f32_zero @ replicate 4 f32_zero = replicate 8 f32_zero" by (simp flip: replicate_add)
  then show ?case by (simp add: norm_chains_def)
next
  case (Suc m)
  then obtain lo hi where ih: "foldl step (replicate 4 f32_zero, replicate 4 f32_zero) [0..<m] = (lo, hi)"
      "length lo = 4" "length hi = 4" "lo @ hi = norm_chains fo row 0 (m * 8) (replicate 8 f32_zero)" by auto
  let ?v = "take 8 (drop (m * 8) row)"
  have v: "?v = take 4 (drop (m * 8) row) @ take 4 (drop (m * 8 + 4) row)"
    using take_add [of 4 4 "drop (m * 8) row"] by (simp add: drop_drop add.commute)
  have l: "length (take 4 (drop (m * 8) row)) = 4" using Suc.prems by simp
  have "norm_chains fo row 0 (Suc m * 8) (replicate 8 f32_zero)
      = norm_chains fo row (m * 8) (m * 8 + 8) (lo @ hi)"
    unfolding ih(4) using norm_chains_append [of 0 "m * 8" "Suc m * 8"] by (simp add: add.commute)
  also have "\<dots> = map2 (f_add fo) (lo @ hi) (map2 (f_mul fo) ?v ?v)"
    using Suc.prems ih(2,3) by (subst norm_chains_eight) (simp_all add: Let_def)
  finally have "norm_chains fo row 0 (Suc m * 8) (replicate 8 f32_zero)
      = fst (step (lo, hi) m) @ snd (step (lo, hi) m)"
    unfolding v step_def using ih(2,3) l by (simp add: Let_def)
  moreover have "length (fst (step (lo, hi) m)) = 4" "length (snd (step (lo, hi) m)) = 4"
    using ih(2,3) Suc.prems by (simp_all add: step_def Let_def)
  moreover have "foldl step (replicate 4 f32_zero, replicate 4 f32_zero) [0..<Suc m] = step (lo, hi) m" using ih(1) by simp
  ultimately show ?case
    by (intro exI [of _ "fst (step (lo, hi) m)"] exI [of _ "snd (step (lo, hi) m)"]) simp
qed

theorem norm_kernels_agree: "simd_norm k fo row = f_sqrt fo (norm_sq_scalar fo row)"
proof (cases k)
  case Simd_Avx
  have "norm_sq_avx fo row = norm_sq_scalar fo row"
    unfolding norm_sq_avx_def Let_def norm_avx_chains [unfolded Let_def, OF div_times_less_eq_dividend] norm_sq_scalar_def
    using norm_chains_append [of 0 "length row div 8 * 8" "length row" fo row "replicate 8 f32_zero"] by simp
  then show ?thesis using Simd_Avx by (simp add: simd_norm_def)
next
  case Simd_Neon
  obtain lo hi where "foldl (\<lambda>(acc_lo, acc_hi) q.
              let lo = take 4 (drop (q * 8) row); hi = take 4 (drop (q * 8 + 4) row)
              in (map2 (f_add fo) acc_lo (map2 (f_mul fo) lo lo), map2 (f_add fo) acc_hi (map2 (f_mul fo) hi hi)))
            (replicate 4 f32_zero, replicate 4 f32_zero) [0..<length row div 8] = (lo, hi)"
      and "lo @ hi = norm_chains fo row 0 (length row div 8 * 8) (replicate 8 f32_zero)"
    using norm_neon_chains [of "length row div 8" row fo] by auto
  then have "norm_sq_neon fo row = norm_sq_scalar fo row"
    unfolding norm_sq_neon_def Let_def norm_sq_scalar_def
    using norm_chains_append [of 0 "length row div 8 * 8" "length row" fo row "replicate 8 f32_zero"] by simp
  then show ?thesis using Simd_Neon by (simp add: simd_norm_def)
qed (simp add: simd_norm_def)

end
