(* ===== verification/QuantizeKernels.thy ===== *)
theory QuantizeKernels
  imports Quantize Packing
begin

text \<open>
  The SIMD forms of the fused quantizer return the scalar form's scale and bytes: the two-level
  boundary scan counts what the flat scan counts when the boundaries ascend, the plane bytes hold the
  same bits, the reconstruction table holds what the kernels compute inline, and the four
  accumulation chains receive the same terms in the same order.
\<close>

section \<open>Counting boundaries\<close>

definition code_count :: "quant \<Rightarrow> f32 \<Rightarrow> nat" where
  "code_count q x = length (filter (\<lambda>bi. f32_gt x (q_boundaries q ! bi)) [0..<2 ^ q_bits q - 1])"

definition ascending :: "quant \<Rightarrow> bool" where
  "ascending q \<longleftrightarrow> (\<forall>j < 2 ^ q_bits q - 1. \<forall>i \<le> j. f32_le (q_boundaries q ! i) (q_boundaries q ! j))"

lemma fold_count: "foldl (\<lambda>v b. if P b then v + 1 else v) (a :: 'a :: len word) bs = a + of_nat (length (filter P bs))"
  by (induction bs arbitrary: a) simp_all

lemma code_count_less: "code_count q x < 2 ^ q_bits q"
proof -
  have "code_count q x \<le> 2 ^ q_bits q - 1" 
    unfolding code_count_def using length_filter_le [of _ "[0..<2 ^ q_bits q - 1]"] by simp
  moreover have "0 < (2 :: nat) ^ q_bits q" by simp
  ultimately show ?thesis by linarith
qed

lemma scalar_code_count: "scalar_code q x = of_nat (code_count q x)"
  by (simp add: scalar_code_def code_count_def fold_count)

lemma drop_cmp: "drop_bit 31 (cmp_gt x y) = (if f32_gt x y then 1 else 0)"
  by (simp add: cmp_gt_def)

lemma flat_counts:
  "foldl (\<lambda>acc b. acc + drop_bit 31 (cmp_gt x (f b))) a bs = a + of_nat (length (filter (\<lambda>b. f32_gt x (f b)) bs))"
  "foldl (\<lambda>acc b. acc - cmp_gt x (f b)) a bs = a + of_nat (length (filter (\<lambda>b. f32_gt x (f b)) bs))"
proof -
  have "(\<lambda>acc b. acc + drop_bit 31 (cmp_gt x (f b))) = (\<lambda>acc b. if f32_gt x (f b) then acc + 1 else acc)"
    by (intro ext) (simp add: drop_cmp)
  then show "foldl (\<lambda>acc b. acc + drop_bit 31 (cmp_gt x (f b))) a bs = a + of_nat (length (filter (\<lambda>b. f32_gt x (f b)) bs))"
    by (simp only: fold_count)
  have m: "a - (0xFFFFFFFF :: u32) = a + 1" for a by simp
  have "(\<lambda>acc b. acc - cmp_gt x (f b)) = (\<lambda>acc b. if f32_gt x (f b) then acc + 1 else acc)"
    by (intro ext) (simp add: cmp_gt_def m)
  then show "foldl (\<lambda>acc b. acc - cmp_gt x (f b)) a bs = a + of_nat (length (filter (\<lambda>b. f32_gt x (f b)) bs))"
    by (simp only: fold_count)
qed

lemma bsl_cmp: "bsl (cmp_gt x y) a b = (if f32_gt x y then a else b)"
proof -
  have "(0xFFFFFFFF :: u32) = - 1" by simp
  then show ?thesis unfolding bsl_def cmp_gt_def by (simp only: split: if_splits) simp
qed

lemma blendv_cmp: "blendv a b (cmp_gt x y) = (if f32_gt x y then b else a)"
  by (simp add: blendv_def cmp_gt_def bit_numeral_rec)

lemma gt_below: "f32_gt x b \<Longrightarrow> f32_le a b \<Longrightarrow> f32_gt x a"
  by (simp add: f32_lt_def f32_le_def)

text \<open>A scan split at boundary \<open>mid\<close>: every boundary up to an exceeded one is exceeded.\<close>

lemma split_count:
  assumes asc: "ascending q" and m: "2 ^ q_bits q - 1 = 2 * mid + 1"
  shows "code_count q x =
    (if f32_gt x (q_boundaries q ! mid) then mid + 1 else 0) +
    length (filter (\<lambda>k. f32_gt x (if f32_gt x (q_boundaries q ! mid) then q_boundaries q ! (mid + 1 + k) else q_boundaries q ! k)) [0..<mid])"
proof -
  let ?gt = "\<lambda>bi. f32_gt x (q_boundaries q ! bi)"
  have up: "[0..<2 * mid + 1] = [0..<mid] @ [mid] @ map (\<lambda>k. mid + 1 + k) [0..<mid]"
    by (rule nth_equalityI) (auto simp: nth_append nth_Cons split: nat.split)
  have c: "code_count q x = length (filter ?gt [0..<mid]) + (if ?gt mid then 1 else 0)
      + length (filter (\<lambda>k. ?gt (mid + 1 + k)) [0..<mid])"
    unfolding code_count_def m up by (simp add: filter_map o_def)
  have le: "f32_le (q_boundaries q ! i) (q_boundaries q ! j)" if "i \<le> j" "j < 2 * mid + 1" for i j
    using asc that m unfolding ascending_def by metis
  show ?thesis
  proof (cases "?gt mid")
    case True
    then have "filter ?gt [0..<mid] = [0..<mid]" using gt_below le by (intro filter_True) fastforce
    then show ?thesis using c True by simp
  next
    case False
    then have "filter (\<lambda>k. ?gt (mid + 1 + k)) [0..<mid] = []"
      using gt_below le [of mid] by (intro filter_False) fastforce
    then show ?thesis using c False by simp
  qed
qed

lemma neon_count_correct:
  assumes "ascending q" "q_bits q \<in> {2, 3, 4}"
  shows "neon_count q x = of_nat (code_count q x)"
proof (cases "q_bits q = 4")
  case True
  then have "2 ^ q_bits q - 1 = 2 * 7 + (1 :: nat)" by simp
  note sc = split_count [OF assms(1) this, of x]
  show ?thesis
    unfolding neon_count_def Let_def drop_cmp [of x "q_boundaries q ! 7"] bsl_cmp flat_counts using True sc by simp
next
  case False
  then show ?thesis by (simp add: neon_count_def flat_counts code_count_def)
qed

lemma avx2_count_correct:
  assumes "ascending q" "q_bits q \<in> {2, 3, 4}"
  shows "avx2_count q x = of_nat (code_count q x)"
proof -
  consider "q_bits q = 4" | "q_bits q = 2" | "q_bits q = 3" using assms(2) by blast
  then show ?thesis
  proof cases
    case 1
    then have "2 ^ q_bits q - 1 = 2 * 7 + (1 :: nat)" by simp
    note sc = split_count [OF assms(1) this, of x]
    show ?thesis
      unfolding avx2_count_def Let_def drop_cmp [of x "q_boundaries q ! 7"] blendv_cmp flat_counts using 1 sc by simp
  next
    case 2
    then have "2 ^ q_bits q - 1 = 2 * 1 + (1 :: nat)" by simp
    note sc = split_count [OF assms(1) this, of x]
    have m: "a - cmp_gt x y = a + (if f32_gt x y then 1 else 0)" for a y by (simp add: cmp_gt_def)
    show ?thesis
      unfolding avx2_count_def Let_def drop_cmp blendv_cmp m using 2 sc by (simp add: numeral_2_eq_2)
  next
    case 3
    then show ?thesis by (simp add: avx2_count_def flat_counts code_count_def)
  qed
qed

section \<open>Plane bytes\<close>

lemma bit_scalar_byte:
  assumes "i < 8"
  shows "bit (scalar_byte p codes) i \<longleftrightarrow> bit (codes ! (7 - i)) p"
proof -
  have one: "bit (push_bit (7 - k) (drop_bit p (codes ! k) AND 1)) i \<longleftrightarrow> k = 7 - i \<and> bit (codes ! k) p" if "k < 8" for k
  proof (cases "k = 7 - i")
    case True
    have "bit (drop_bit p (codes ! k) AND 1) 0 \<longleftrightarrow> bit (codes ! k) p"
      by (simp only: bit_and_iff bit_drop_bit_eq bit_1_iff) simp
    moreover have "i - (7 - k) = 0" "7 - k \<le> i" using True that assms by simp_all
    ultimately show ?thesis unfolding bit_push_bit_iff using True assms by simp
  next
    case False
    then have "7 - k \<le> i \<Longrightarrow> i - (7 - k) \<noteq> 0" using that assms by linarith
    then show ?thesis
      unfolding bit_push_bit_iff bit_and_iff bit_1_iff using False by auto
  qed
  have "bit (scalar_byte p codes) i \<longleftrightarrow> (\<exists>k \<in> {..<8}. bit (push_bit (7 - k) (drop_bit p (codes ! k) AND 1)) i)"
    unfolding scalar_byte_def bit_fold_or by (simp add: atLeast0LessThan)
  also have "\<dots> \<longleftrightarrow> (\<exists>k \<in> {..<8}. k = 7 - i \<and> bit (codes ! k) p)" using one by (intro bex_cong refl) simp
  also have "\<dots> \<longleftrightarrow> bit (codes ! (7 - i)) p" using assms by auto
  finally show ?thesis .
qed

lemma bit_avx2_byte:
  assumes "i < 8" "p \<le> 31" "length acc = 8"
  shows "bit (avx2_byte p acc) i \<longleftrightarrow> bit (acc ! (7 - i)) p"
proof -
  have rev: "map (push_bit (31 - p)) (permutevar8 acc [7, 6, 5, 4, 3, 2, 1, 0]) ! k = push_bit (31 - p) (acc ! (7 - k))" if "k < 8" for k
  proof -
    have "k = 0 \<or> k = 1 \<or> k = 2 \<or> k = 3 \<or> k = 4 \<or> k = 5 \<or> k = 6 \<or> k = 7" using that by auto
    then show ?thesis unfolding permutevar8_def by (elim disjE) simp_all
  qed
  have "bit (avx2_byte p acc) i \<longleftrightarrow>
      (\<exists>k \<in> {..<8}. bit (if bit (map (push_bit (31 - p)) (permutevar8 acc [7, 6, 5, 4, 3, 2, 1, 0]) ! k) 31 then push_bit k (1 :: u8) else 0) i)"
    unfolding avx2_byte_def movemask_def bit_fold_or by (simp add: atLeast0LessThan)
  also have "\<dots> \<longleftrightarrow> (\<exists>k \<in> {..<8}. k = i \<and> bit (push_bit (31 - p) (acc ! (7 - k))) 31)"
  proof (intro bex_cong refl)
    fix k :: nat
    assume "k \<in> {..<8}"
    then have k: "k < 8" by simp
    show "bit (if bit (map (push_bit (31 - p)) (permutevar8 acc [7, 6, 5, 4, 3, 2, 1, 0]) ! k) 31 then push_bit k (1 :: u8) else 0) i
        \<longleftrightarrow> k = i \<and> bit (push_bit (31 - p) (acc ! (7 - k))) 31"
      unfolding rev [OF k] using k assms(1) by (cases "bit (push_bit (31 - p) (acc ! (7 - k))) 31") (simp_all only: if_True if_False bit_single, simp_all)
  qed
  also have "\<dots> \<longleftrightarrow> bit (push_bit (31 - p) (acc ! (7 - i))) 31" using assms(1) by auto
  also have "\<dots> \<longleftrightarrow> bit (acc ! (7 - i)) p" using assms(2) by (simp add: bit_push_bit_iff)
  finally show ?thesis .
qed

lemma neon_lane:
  assumes "p < 8"
  shows "0 < unat ((code :: u8) AND push_bit p 1) \<longleftrightarrow> bit code p"
proof -
  have "0 < unat (code AND push_bit p 1) \<longleftrightarrow> code AND push_bit p 1 \<noteq> 0" by (simp add: unat_gt_0)
  also have "\<dots> \<longleftrightarrow> (\<exists>i. bit (code AND push_bit p 1) i)"
    using bit_eq_iff [of "code AND push_bit p 1" 0] by (auto simp only: bit_0_eq bot_apply bot_bool_def dest: bit_imp_possible_bit)
  also have "\<dots> \<longleftrightarrow> bit code p" unfolding bit_and_iff bit_single using assms by auto
  finally show ?thesis .
qed

text \<open>The horizontal sum of distinct weights sets the bits of the weights.\<close>

lemma weights_bits:
  assumes "distinct ns"
  shows "bit (sum_list (map (\<lambda>n. if c n then push_bit n 1 else 0) ns) :: u8) i \<longleftrightarrow> i \<in> set ns \<and> c i \<and> i < 8"
  using assms
proof (induction ns arbitrary: i)
  case (Cons n ns)
  let ?a = "if c n then push_bit n 1 else 0 :: u8" and ?r = "sum_list (map (\<lambda>n. if c n then push_bit n 1 else 0) ns) :: u8"
  have r: "bit ?r k \<longleftrightarrow> k \<in> set ns \<and> c k \<and> k < 8" for k using Cons by simp
  have a: "bit ?a k \<longleftrightarrow> k = n \<and> c n \<and> n < 8" for k
    by (cases "c n") (simp_all only: if_True if_False bit_single, auto)
  have "?a + ?r = ?a OR ?r"
  proof (rule disjunctive_add_eq_or, rule bit_word_eqI)
    fix k
    have "\<not> (bit ?a k \<and> bit ?r k)" unfolding a r using Cons.prems by auto
    then show "bit (?a AND ?r) k \<longleftrightarrow> bit (0 :: u8) k" unfolding bit_and_iff by simp
  qed
  then show ?case by (simp add: bit_or_iff a r del: push_bit_of_1) blast
qed simp

lemma bit_neon_byte:
  assumes "i < 8" "p < 8" "length codes = 8"
  shows "bit (neon_byte p codes) i \<longleftrightarrow> bit (codes ! (7 - i)) p"
proof -
  have lane: "(if 0 < unat (x AND push_bit p 1) then 0xFF else 0) AND w = (if bit x p then w else 0)" for x w :: u8
  proof -
    have "(0xFF :: u8) = - 1" by simp
    then show ?thesis unfolding neon_lane [OF assms(2)] by (simp only: split: if_splits) simp
  qed
  have ws: "[128, 64, 32, 16, 8, 4, 2, 1 :: u8] = map (\<lambda>k. push_bit (7 - k) 1) [0..<8]" by (simp add: upt_rec)
  have "neon_byte p codes = sum_list (map (\<lambda>k. if bit (codes ! k) p then push_bit (7 - k) 1 else 0) [0..<8])"
    unfolding neon_byte_def lane ws
    by (rule arg_cong [of _ _ sum_list], rule nth_equalityI) (use assms(3) in simp_all)
  moreover have "map (\<lambda>k. if bit (codes ! k) p then push_bit (7 - k) 1 else 0 :: u8) [0..<8]
      = map (\<lambda>n. if bit (codes ! (7 - n)) p then push_bit n 1 else 0) (map (\<lambda>k. 7 - k) [0..<8])"
    by simp
  ultimately have e: "neon_byte p codes
      = sum_list (map (\<lambda>n. if bit (codes ! (7 - n)) p then push_bit n 1 else 0) (map (\<lambda>k. 7 - k) [0..<8]))" by (simp only:)
  have "distinct (map (\<lambda>k. 7 - k) [0..<8 :: nat])" "i \<in> set (map (\<lambda>k. 7 - k) [0..<8])"
    using assms(1) by (auto simp: upt_rec)
  then show ?thesis unfolding e by (subst weights_bits) (use assms(1) in simp_all)
qed

lemma plane_bytes:
  assumes "length codes = 8" "p < 8"
  shows "neon_byte p codes = scalar_byte p codes"
    and "codes = map ucast acc \<Longrightarrow> avx2_byte p acc = scalar_byte p codes"
proof -
  show "neon_byte p codes = scalar_byte p codes"
    by (rule bit_word_eqI) (use assms in \<open>simp add: bit_neon_byte bit_scalar_byte\<close>)
  assume a: "codes = map ucast acc"
  then have l: "length acc = 8" using assms(1) by simp
  show "avx2_byte p acc = scalar_byte p codes"
  proof (rule bit_word_eqI)
    fix i
    assume "i < LENGTH(8)"
    then have i: "i < 8" by simp
    then have "bit (codes ! (7 - i)) p \<longleftrightarrow> bit (acc ! (7 - i)) p" using a l assms(2) by (simp add: bit_unsigned_iff)
    then show "bit (avx2_byte p acc) i \<longleftrightarrow> bit (scalar_byte p codes) i"
      using i assms(2) l by (simp add: bit_avx2_byte bit_scalar_byte)
  qed
qed

section \<open>One chunk\<close>

definition codes_at :: "float_ops \<Rightarrow> quant \<Rightarrow> f32 list \<Rightarrow> nat \<Rightarrow> u8 list" where
  "codes_at fo q rot c = map (\<lambda>k. of_nat (code_count q (calibrated fo q rot (c * 8 + k)))) [0..<8]"

definition term_at :: "float_ops \<Rightarrow> quant \<Rightarrow> f32 list \<Rightarrow> nat \<Rightarrow> f64" where
  "term_at fo q rot j =
     d_mul fo (d_of_f fo (rot ! j))
       (recon_entry fo (q_centroids q ! code_count q (calibrated fo q rot j)) (d_of_f fo (q_inv_scale_tq q ! j)) (d_of_f fo (q_shift q ! j)))"

definition add_terms :: "float_ops \<Rightarrow> f64 list \<Rightarrow> (nat \<Rightarrow> f64) \<Rightarrow> f64 list" where
  "add_terms fo ch t = map (\<lambda>r. d_add fo (d_add fo (ch ! r) (t r)) (t (4 + r))) [0..<4]"

definition chunk_row :: "float_ops \<Rightarrow> quant \<Rightarrow> f32 list \<Rightarrow> bytes \<Rightarrow> nat \<Rightarrow> bytes" where
  "chunk_row fo q rot row c =
     foldl (\<lambda>row p. row[p * (q_dim q div 8) + c := scalar_byte p (codes_at fo q rot c)]) row [0..<q_bits q]"

definition table_ok :: "float_ops \<Rightarrow> quant \<Rightarrow> bool" where
  "table_ok fo q \<longleftrightarrow> q_table q = None \<or>
     q_table q = Some (build_recon_table fo (q_bits q) (q_dim q) (q_centroids q) (q_inv_scale_tq q) (q_shift q))"

lemma foldl_pair:
  "foldl (\<lambda>(a, b) k. (f a k, g b k)) (a, b) ks = (foldl f a ks, foldl g b ks)"
  by (induction ks arbitrary: a b) simp_all

lemma foldl_fill: "m \<le> length xs \<Longrightarrow> foldl (\<lambda>xs k. xs[k := v k]) xs [0..<m] = map v [0..<m] @ drop m xs"
proof (induction m)
  case (Suc m)
  then have "(map v [0..<m] @ drop m xs)[m := v m] = map v [0..<m] @ v m # drop (Suc m) xs"
    by (simp add: list_update_append Cons_nth_drop_Suc [symmetric])
  then show ?case using Suc by simp
qed simp

lemma map_upt_digits:
  "map f [0..<2] = [f 0, f (Suc 0)]"
  "map f [0..<4] = [f 0, f (Suc 0), f 2, f 3]"
  "map f [0..<8] = [f 0, f (Suc 0), f 2, f 3, f 4, f 5, f 6, f 7]"
  by (simp_all add: upt_rec numeral_eq_Suc)

lemma four_chains:
  assumes "length ch = 4"
  shows "foldl (\<lambda>ch k. ch[k mod 4 := d_add fo (ch ! (k mod 4)) (t k)]) ch [0..<8] = add_terms fo ch t"
proof -
  from assms obtain a b c d where ch: "ch = [a, b, c, d]" by (rule length4E)
  have up: "[0..<8] = [0, Suc 0, 2, 3, 4, 5, 6, 7 :: nat]" by (simp add: upt_rec)
  have m: "(0 :: nat) mod 4 = 0" "Suc 0 mod 4 = Suc 0" "(2 :: nat) mod 4 = Suc (Suc 0)" "(3 :: nat) mod 4 = Suc (Suc (Suc 0))"
    "(4 :: nat) mod 4 = 0" "(5 :: nat) mod 4 = Suc 0" "(6 :: nat) mod 4 = Suc (Suc 0)" "(7 :: nat) mod 4 = Suc (Suc (Suc 0))"
    by simp_all
  have n: "(2 :: nat) = Suc (Suc 0)" "(3 :: nat) = Suc (Suc (Suc 0))" by simp_all
  have l: "[a, b, c, d] ! 2 = c" "[a, b, c, d] ! 3 = d" by (simp_all add: n)
  show ?thesis
    unfolding ch up add_terms_def map_upt_digits l
    by (simp only: foldl_Cons foldl_Nil m list_update.simps nat.case nth_Cons_0 nth_Cons_Suc) simp
qed

lemma recon_table_nth:
  assumes "v < 2 ^ bits" "j < dim"
  shows "build_recon_table fo bits dim centroids iv sh ! (j * 2 ^ bits + v)
    = recon_entry fo (centroids ! v) (d_of_f fo (iv ! j)) (d_of_f fo (sh ! j))"
proof -
  define row where "row d = map (\<lambda>c. recon_entry fo (centroids ! c) (d_of_f fo (iv ! d)) (d_of_f fo (sh ! d))) [0..<2 ^ bits]" for d
  have l: "length (row d) = 2 ^ bits" for d by (simp add: row_def)
  have "concat (map row [0..<m]) ! (j * 2 ^ bits + v) = row j ! v" if "j < m" for m
    using that
  proof (induction m)
    case (Suc m)
    have lm: "length (concat (map row [0..<m])) = m * 2 ^ bits" by (simp add: length_concat o_def l sum_list_triv)
    show ?case
    proof (cases "j = m")
      case True
      then show ?thesis using lm by (simp add: nth_append)
    next
      case False
      then have "j < m" using Suc.prems by simp
      have "j * 2 ^ bits + v < m * 2 ^ bits" using digit_below [OF assms(1)] \<open>j < m\<close> by blast
      then show ?thesis using Suc.IH \<open>j < m\<close> lm by (simp add: nth_append)
    qed
  qed simp
  from this [OF assms(2)] have "build_recon_table fo bits dim centroids iv sh ! (j * 2 ^ bits + v) = row j ! v"
    by (simp add: build_recon_table_def row_def [abs_def] Let_def)
  then show ?thesis using assms(1) by (simp add: row_def)
qed

lemma centroid_at:
  assumes "table_ok fo q" "q_bits q \<in> {2, 3, 4}" "j < q_dim q"
  shows "d_mul fo (d_of_f fo (rot ! j)) (centroid_in_orig fo q j (of_nat (code_count q (calibrated fo q rot j)))) = term_at fo q rot j"
proof -
  let ?v = "code_count q (calibrated fo q rot j)"
  have "?v < 2 ^ q_bits q" by (rule code_count_less)
  moreover have "(2 :: nat) ^ q_bits q \<le> 16" using assms(2) by auto
  ultimately have v: "unat (of_nat ?v :: u8) = ?v" "?v < 2 ^ q_bits q" by (simp_all add: unat_of_nat_u8)
  show ?thesis
    using assms(1) recon_table_nth [OF v(2) assms(3)]
    by (auto simp: table_ok_def centroid_in_orig_def term_at_def v(1))
qed

lemma scalar_chunk_eq:
  assumes "length ch = 4" "table_ok fo q" "q_bits q \<in> {2, 3, 4}" "c * 8 + 8 \<le> q_dim q"
  shows "scalar_chunk fo q rot (ch, row) c = (add_terms fo ch (\<lambda>k. term_at fo q rot (c * 8 + k)), chunk_row fo q rot row c)"
proof -
  let ?t = "\<lambda>k. term_at fo q rot (c * 8 + k)" and ?v = "\<lambda>k. of_nat (code_count q (calibrated fo q rot (c * 8 + k))) :: u8"
  have m: "(c * 8 + k) mod 4 = k mod 4" for k
  proof -
    have "c * 8 + k = k + c * 2 * 4" by simp
    then show ?thesis by (simp only: mod_mult_self1)
  qed
  have sums: "foldl (\<lambda>accs k. accs[k mod 4 := d_add fo (accs ! (k mod 4))
          (d_mul fo (d_of_f fo (rot ! (c * 8 + k))) (centroid_in_orig fo q (c * 8 + k) (?v k)))]) ch [0..<8] = add_terms fo ch ?t"
    (is "foldl ?f ch _ = _")
  proof -
    have "foldl ?f ch [0..<8] = foldl (\<lambda>ch k. ch[k mod 4 := d_add fo (ch ! (k mod 4)) (?t k)]) ch [0..<8]"
      using assms(4) by (intro foldl_cong refl) (simp add: centroid_at [OF assms(2,3)])
    then show ?thesis by (simp only: four_chains [OF assms(1)])
  qed
  have codes: "foldl (\<lambda>codes k. codes[k := ?v k]) (replicate 8 0) [0..<8] = codes_at fo q rot c"
    using foldl_fill [of 8 "replicate 8 0" ?v] by (simp add: codes_at_def)
  show ?thesis
    unfolding scalar_chunk_def Let_def prod.case foldl_pair scalar_code_count m sums codes chunk_row_def ..
qed

lemma code_count_16: "q_bits q \<in> {2, 3, 4} \<Longrightarrow> code_count q x < 16"
  using code_count_less [of q x] by auto

lemma ucast_count: "ucast (of_nat n :: u32) = (of_nat n :: u8)"
  by (simp add: word_unat_eq_iff unsigned_of_nat unat_of_nat take_bit_eq_mod mod_mod_cancel)

lemma length_codes_at [simp]: "length (codes_at fo q rot c) = 8"
  by (simp add: codes_at_def)

lemma neon_counts:
  assumes "ascending q" "q_bits q \<in> {2, 3, 4}"
  shows "map ucast (map (neon_count q) (map (\<lambda>k. calibrated fo q rot (c * 8 + k)) [0..<4])
      @ map (neon_count q) (map (\<lambda>k. calibrated fo q rot (c * 8 + 4 + k)) [0..<4])) = codes_at fo q rot c"
proof (rule nth_equalityI)
  fix k
  assume "k < length (map ucast (map (neon_count q) (map (\<lambda>k. calibrated fo q rot (c * 8 + k)) [0..<4])
      @ map (neon_count q) (map (\<lambda>k. calibrated fo q rot (c * 8 + 4 + k)) [0..<4])) :: u8 list)"
  then have k: "k < 8" by simp
  have lane: "ucast (neon_count q x) = (of_nat (code_count q x) :: u8)" for x
    by (simp add: neon_count_correct [OF assms] ucast_count)
  show "map ucast (map (neon_count q) (map (\<lambda>k. calibrated fo q rot (c * 8 + k)) [0..<4])
      @ map (neon_count q) (map (\<lambda>k. calibrated fo q rot (c * 8 + 4 + k)) [0..<4])) ! k = codes_at fo q rot c ! k"
    using k by (cases "k < 4") (simp_all add: codes_at_def nth_append lane)
qed simp

lemma neon_chunk_eq:
  fixes rot :: "f32 list"
  assumes "length a = 2" "length b = 2" "ascending q" "table_ok fo q" "q_bits q \<in> {2, 3, 4}" "c * 8 + 8 \<le> q_dim q"
  defines "sums \<equiv> add_terms fo (a @ b) (\<lambda>k. term_at fo q rot (c * 8 + k))"
  shows "neon_chunk fo q rot ((a, b), row) c = ((take 2 sums, drop 2 sums), chunk_row fo q rot row c)"
proof -
  from assms(1) obtain a0 a1 where a: "a = [a0, a1]" by (rule length2E)
  from assms(2) obtain b0 b1 where b: "b = [b0, b1]" by (rule length2E)
  let ?t = "\<lambda>k. term_at fo q rot (c * 8 + k)"
  have terms: "map (\<lambda>k. d_mul fo (d_of_f fo (rot ! (c * 8 + k))) (centroid_in_orig fo q (c * 8 + k) (codes_at fo q rot c ! k))) [0..<8]
      = map ?t [0..<8]"
    using assms(6) by (intro map_cong refl) (simp add: codes_at_def centroid_at [OF assms(4,5)])
  have acc: "map2 (d_add fo) (map2 (d_add fo) a (take 2 (map ?t [0..<8]))) (take 2 (drop 4 (map ?t [0..<8]))) = take 2 sums"
    "map2 (d_add fo) (map2 (d_add fo) b (take 2 (drop 2 (map ?t [0..<8])))) (take 2 (drop 6 (map ?t [0..<8]))) = drop 2 sums"
    unfolding sums_def a b add_terms_def map_upt_digits by (simp_all add: numeral_eq_Suc)
  have row: "foldl (\<lambda>row p. row[p * (q_dim q div 8) + c * 8 div 8 := neon_byte p (codes_at fo q rot c)]) row [0..<q_bits q]
      = chunk_row fo q rot row c"
    unfolding chunk_row_def using assms(5) by (intro foldl_cong refl) (auto simp: plane_bytes(1))
  show ?thesis
    unfolding neon_chunk_def Let_def prod.case neon_counts [OF assms(3,5)] terms acc row ..
qed

lemma avx2_counts:
  assumes "ascending q" "q_bits q \<in> {2, 3, 4}"
  shows "map (avx2_count q) (map (\<lambda>k. calibrated fo q rot (c * 8 + k)) [0..<8])
    = map (\<lambda>k. of_nat (code_count q (calibrated fo q rot (c * 8 + k)))) [0..<8]"
  by (simp add: avx2_count_correct [OF assms])

lemma code_lane:
  assumes "m < 16"
  shows "(of_nat m AND 7 :: u32) = of_nat (m mod 8)" "7 < sint (of_nat m :: u32) \<longleftrightarrow> 7 < m"
proof -
  have "\<forall>m \<in> set [0..<16]. (of_nat m AND 7 :: u32) = of_nat (m mod 8) \<and> (7 < sint (of_nat m :: u32) \<longleftrightarrow> 7 < m)"
    by code_simp
  then show "(of_nat m AND 7 :: u32) = of_nat (m mod 8)" "7 < sint (of_nat m :: u32) \<longleftrightarrow> 7 < m" using assms by simp_all
qed

lemma avx2_select_nth:
  assumes "q_bits q \<in> {2, 3, 4}" "k < 8" "\<forall>k < 8. n k < 2 ^ q_bits q"
  shows "avx2_select q (map (\<lambda>k. of_nat (n k)) [0..<8]) ! k = q_centroids q ! n k"
proof -
  have "n k < 2 ^ q_bits q" using assms by simp
  moreover from this have n: "n k < 16" using assms(1) by auto
  moreover have "unat (of_nat (n k mod 8) AND 7 :: u32) = n k mod 8"
    using code_lane(1) [of "n k mod 8"] by (simp add: unat_of_nat_u32)
  moreover have "unat (of_nat (n k) AND 7 :: u32) = n k mod 8" using n by (simp add: code_lane unat_of_nat_u32)
  moreover have "7 < n k \<Longrightarrow> 8 + n k mod 8 = n k" using n by presburger
  ultimately show ?thesis
    using assms(1,2)
    by (auto simp: avx2_select_def Let_def permutevar8_def code_lane blendv_def bit_numeral_rec nth_append not_less)
qed

lemma avx2_chunk_eq:
  assumes "length ch = 4" "ascending q" "q_bits q \<in> {2, 3, 4}" "c * 8 + 8 \<le> q_dim q"
  shows "avx2_chunk fo q rot (ch, row) c = (add_terms fo ch (\<lambda>k. term_at fo q rot (c * 8 + k)), chunk_row fo q rot row c)"
proof -
  from assms(1) obtain a b d e where ch: "ch = [a, b, d, e]" by (rule length4E)
  let ?n = "\<lambda>k. code_count q (calibrated fo q rot (c * 8 + k))"
  let ?acc = "map (\<lambda>k. of_nat (?n k) :: u32) [0..<8]"
  have codes: "codes_at fo q rot c = map ucast ?acc"
    by (simp add: codes_at_def ucast_count)
  have row: "foldl (\<lambda>row p. row[p * (q_dim q div 8) + c := avx2_byte p ?acc]) row [0..<q_bits q] = chunk_row fo q rot row c"
    unfolding chunk_row_def using assms(3) plane_bytes(2) [OF length_codes_at _ codes]
    by (intro foldl_cong refl) auto
  have sel: "avx2_select q ?acc ! k = q_centroids q ! ?n k" if "k < 8" for k
    using avx2_select_nth [OF assms(3) that, of ?n] code_count_less by simp
  let ?x = "map (\<lambda>k. d_sub fo (d_mul fo (d_of_f fo (avx2_select q ?acc ! k)) (d_of_f fo (q_inv_scale_tq q ! (c * 8 + k))))
        (d_of_f fo (q_shift q ! (c * 8 + k)))) [0..<8]" and ?r = "map (\<lambda>k. d_of_f fo (rot ! (c * 8 + k))) [0..<8]"
  have sum: "map2 (d_add fo) (map2 (d_add fo) ch (map2 (d_mul fo) (take 4 ?r) (take 4 ?x))) (map2 (d_mul fo) (drop 4 ?r) (drop 4 ?x))
      = add_terms fo ch (\<lambda>k. term_at fo q rot (c * 8 + k))"
    by (rule nth_equalityI) (use assms(1) in \<open>simp_all add: add_terms_def term_at_def recon_entry_def sel\<close>)
  show ?thesis
    unfolding avx2_chunk_def Let_def prod.case avx2_counts [OF assms(2,3)] row sum ..
qed

section \<open>The row kernels agree\<close>

lemma length_add_terms [simp]: "length (add_terms fo ch t) = 4"
  by (simp add: add_terms_def)

text \<open>The chunk loop of every kernel, over the four sums and the row.\<close>

definition row_loop :: "float_ops \<Rightarrow> quant \<Rightarrow> f32 list \<Rightarrow> bytes \<Rightarrow> nat \<Rightarrow> f64 list \<times> bytes" where
  "row_loop fo q rot row m =
     foldl (\<lambda>(ch, row) c. (add_terms fo ch (\<lambda>k. term_at fo q rot (c * 8 + k)), chunk_row fo q rot row c))
       (replicate 4 f64_zero, row) [0..<m]"

lemma length_row_loop: "length (fst (row_loop fo q rot row m)) = 4"
  by (cases m) (simp_all add: row_loop_def case_prod_beta)

lemma chunk_bound: "c < m \<Longrightarrow> m \<le> n div 8 \<Longrightarrow> c * 8 + 8 \<le> (n :: nat)"
  by linarith

lemma row_loop_Suc:
  obtains ch rw where "row_loop fo q rot row m = (ch, rw)" "length ch = 4"
    "row_loop fo q rot row (Suc m) = (add_terms fo ch (\<lambda>k. term_at fo q rot (m * 8 + k)), chunk_row fo q rot rw m)"
proof -
  obtain ch rw where loop: "row_loop fo q rot row m = (ch, rw)" by force
  show thesis
  proof (rule that [OF loop])
    show "length ch = 4" using length_row_loop [of fo q rot row m] loop by simp
    show "row_loop fo q rot row (Suc m) = (add_terms fo ch (\<lambda>k. term_at fo q rot (m * 8 + k)), chunk_row fo q rot rw m)"
      using loop by (simp add: row_loop_def)
  qed
qed

lemma scalar_loop:
  assumes "table_ok fo q" "q_bits q \<in> {2, 3, 4}" "m \<le> q_dim q div 8"
  shows "foldl (scalar_chunk fo q rot) (replicate 4 f64_zero, row) [0..<m] = row_loop fo q rot row m"
  using assms(3)
proof (induction m)
  case (Suc m)
  then have b: "m * 8 + 8 \<le> q_dim q" by linarith
  obtain ch rw where loop: "row_loop fo q rot row m = (ch, rw)" "length ch = 4"
    "row_loop fo q rot row (Suc m) = (add_terms fo ch (\<lambda>k. term_at fo q rot (m * 8 + k)), chunk_row fo q rot rw m)"
    by (rule row_loop_Suc)
  then show ?case using Suc scalar_chunk_eq [OF loop(2) assms(1,2) b] by simp
qed (simp add: row_loop_def)

lemma avx2_loop:
  assumes "ascending q" "q_bits q \<in> {2, 3, 4}" "m \<le> q_dim q div 8"
  shows "foldl (avx2_chunk fo q rot) (replicate 4 f64_zero, row) [0..<m] = row_loop fo q rot row m"
  using assms(3)
proof (induction m)
  case (Suc m)
  then have b: "m * 8 + 8 \<le> q_dim q" by linarith
  obtain ch rw where loop: "row_loop fo q rot row m = (ch, rw)" "length ch = 4"
    "row_loop fo q rot row (Suc m) = (add_terms fo ch (\<lambda>k. term_at fo q rot (m * 8 + k)), chunk_row fo q rot rw m)"
    by (rule row_loop_Suc)
  then show ?case using Suc avx2_chunk_eq [OF loop(2) assms(1,2) b] by simp
qed (simp add: row_loop_def)

lemma neon_loop:
  assumes "ascending q" "table_ok fo q" "q_bits q \<in> {2, 3, 4}" "m \<le> q_dim q div 8"
  shows "foldl (neon_chunk fo q rot) ((replicate 2 f64_zero, replicate 2 f64_zero), row) [0..<m]
    = (let (ch, row) = row_loop fo q rot row m in ((take 2 ch, drop 2 ch), row))"
  using assms(4)
proof (induction m)
  case 0
  then show ?case by (simp add: row_loop_def)
next
  case (Suc m)
  then have b: "m * 8 + 8 \<le> q_dim q" by linarith
  obtain ch rw where loop: "row_loop fo q rot row m = (ch, rw)" "length ch = 4"
    "row_loop fo q rot row (Suc m) = (add_terms fo ch (\<lambda>k. term_at fo q rot (m * 8 + k)), chunk_row fo q rot rw m)"
    by (rule row_loop_Suc)
  have "length (take 2 ch) = 2" "length (drop 2 ch) = 2" using loop(2) by simp_all
  then show ?case using Suc loop neon_chunk_eq [OF _ _ assms(1-3) b, of "take 2 ch" "drop 2 ch" rot rw] by simp
qed

theorem fused_kernels_agree:
  assumes "ascending q" "table_ok fo q" "q_bits q \<in> {2, 3, 4}"
  shows "fused_quantize_scale_pack k fo q rot norm row =
    (let (ch, row) = row_loop fo q rot row (q_dim q div 8) in (scale_from_inner fo (combine_inner fo ch) norm, row))"
proof (cases k)
  case Simd_Scalar
  then show ?thesis by (simp add: fused_quantize_scale_pack_def fused_scalar_def scalar_loop [OF assms(2,3) order_refl])
next
  case Simd_Avx
  then show ?thesis by (simp add: fused_quantize_scale_pack_def fused_avx2_def avx2_loop [OF assms(1,3) order_refl])
next
  case Simd_Neon
  obtain ch rw where loop: "row_loop fo q rot row (q_dim q div 8) = (ch, rw)" by force
  then have "length ch = 4" using length_row_loop [of fo q rot row "q_dim q div 8"] by simp
  then obtain a b c d where "ch = [a, b, c, d]" by (rule length4E)
  moreover have "fused_quantize_scale_pack k fo q rot norm row = fused_neon fo q rot norm row"
    by (simp add: Simd_Neon fused_quantize_scale_pack_def)
  ultimately show ?thesis
    unfolding fused_neon_def neon_loop [OF assms order_refl] loop combine_inner_def by simp
qed

section \<open>The row\<close>

text \<open>The packed row and the scale of a rotated row, whatever the staging buffer held.\<close>

definition quantized_row :: "float_ops \<Rightarrow> quant \<Rightarrow> f32 list \<Rightarrow> bytes" where
  "quantized_row fo q rot =
     map (\<lambda>i. scalar_byte (i div (q_dim q div 8)) (codes_at fo q rot (i mod (q_dim q div 8)))) [0..<q_bits q * (q_dim q div 8)]"

definition row_scale :: "float_ops \<Rightarrow> quant \<Rightarrow> f32 list \<Rightarrow> f32 \<Rightarrow> f32" where
  "row_scale fo q rot norm = scale_from_inner fo (combine_inner fo (fst (row_loop fo q rot [] (q_dim q div 8)))) norm"

lemma fst_row_loop: "fst (row_loop fo q rot row m) = fst (row_loop fo q rot [] m)"
proof (induction m)
  case (Suc m)
  then show ?case by (simp add: row_loop_def case_prod_beta)
qed (simp add: row_loop_def)

lemma length_chunk_row [simp]: "length (chunk_row fo q rot row c) = length row"
proof -
  have "length (foldl (\<lambda>row p. row[p * b + c := f p]) row ps) = length row" for b :: nat and f :: "nat \<Rightarrow> u8" and ps
    by (induction ps arbitrary: row) simp_all
  then show ?thesis by (simp add: chunk_row_def)
qed

lemma chunk_row_nth:
  assumes "length row = q_bits q * b" "b = q_dim q div 8" "c < b" "c' < b" "p < q_bits q"
  shows "chunk_row fo q rot row c ! (p * b + c') = (if c' = c then scalar_byte p (codes_at fo q rot c) else row ! (p * b + c'))"
proof -
  let ?f = "\<lambda>row p. row[p * b + c := scalar_byte p (codes_at fo q rot c)]"
  have len: "length (foldl ?f row ps) = length row" for row ps by (induction ps arbitrary: row) simp_all
  have "m \<le> q_bits q \<Longrightarrow> foldl ?f row [0..<m] ! (p * b + c') = (if c' = c \<and> p < m then scalar_byte p (codes_at fo q rot c) else row ! (p * b + c'))" for m
  proof (induction m)
    case (Suc m)
    have l: "m * b + c < length (foldl ?f row [0..<m])"
      unfolding len assms(1) using Suc.prems digit_below [OF assms(3), of m "q_bits q"] by simp
    have "m * b + c = p * b + c' \<longleftrightarrow> m = p \<and> c = c'" using assms(3,4) by (metis digit_unique)
    then show ?case using Suc l by (auto simp: nth_list_update less_Suc_eq)
  qed simp
  from this [of "q_bits q"] show ?thesis unfolding chunk_row_def assms(2) [symmetric] using assms(5) by simp
qed

lemma row_loop_bytes:
  assumes "length row = q_bits q * b" "b = q_dim q div 8" "m \<le> b"
  shows "length (snd (row_loop fo q rot row m)) = length row"
    and "p < q_bits q \<Longrightarrow> c < b \<Longrightarrow> snd (row_loop fo q rot row m) ! (p * b + c)
      = (if c < m then scalar_byte p (codes_at fo q rot c) else row ! (p * b + c))"
proof -
  have "length (snd (row_loop fo q rot row m)) = length row \<and> (\<forall>p < q_bits q. \<forall>c < b. snd (row_loop fo q rot row m) ! (p * b + c)
      = (if c < m then scalar_byte p (codes_at fo q rot c) else row ! (p * b + c)))"
    using assms(3)
  proof (induction m)
    case 0
    then show ?case by (simp add: row_loop_def)
  next
    case (Suc m)
    obtain ch rw where loop: "row_loop fo q rot row m = (ch, rw)" "length ch = 4"
      "row_loop fo q rot row (Suc m) = (add_terms fo ch (\<lambda>k. term_at fo q rot (m * 8 + k)), chunk_row fo q rot rw m)"
      by (rule row_loop_Suc)
    have l: "length rw = q_bits q * b" using Suc loop assms(1) by simp
    have "m < b" using Suc.prems by simp
    then show ?case
      using Suc loop chunk_row_nth [OF l assms(2) \<open>m < b\<close>, where fo = fo and rot = rot] by (auto simp: less_Suc_eq)
  qed
  then show "length (snd (row_loop fo q rot row m)) = length row"
    and "p < q_bits q \<Longrightarrow> c < b \<Longrightarrow> snd (row_loop fo q rot row m) ! (p * b + c)
      = (if c < m then scalar_byte p (codes_at fo q rot c) else row ! (p * b + c))"
    by blast+
qed

lemma fused_row:
  assumes "ascending q" "table_ok fo q" "q_bits q \<in> {2, 3, 4}" "length row = q_bits q * (q_dim q div 8)"
  shows "fused_quantize_scale_pack k fo q rot norm row = (row_scale fo q rot norm, quantized_row fo q rot)"
proof -
  let ?b = "q_dim q div 8"
  note rb = row_loop_bytes [OF assms(4) refl order_refl, where fo = fo and rot = rot]
  have "snd (row_loop fo q rot row ?b) = quantized_row fo q rot"
  proof (rule nth_equalityI)
    show "length (snd (row_loop fo q rot row ?b)) = length (quantized_row fo q rot)" by (simp add: rb(1) quantized_row_def assms(4))
    fix i
    assume "i < length (snd (row_loop fo q rot row ?b))"
    then have i: "i < q_bits q * ?b" by (simp add: rb(1) assms(4))
    then have "0 < ?b" by (cases "?b = 0") simp_all
    then have d: "i div ?b < q_bits q" "i mod ?b < ?b" using i by (simp_all add: less_mult_imp_div_less)
    then show "snd (row_loop fo q rot row ?b) ! i = quantized_row fo q rot ! i"
      using rb(2) [OF d, unfolded div_mult_mod_eq] d i by (simp add: quantized_row_def)
  qed
  moreover have "fst (row_loop fo q rot row ?b) = fst (row_loop fo q rot [] ?b)" by (rule fst_row_loop)
  ultimately show ?thesis
    unfolding fused_kernels_agree [OF assms(1-3)] row_scale_def by (simp add: case_prod_beta)
qed

text \<open>Bit \<open>7 - k\<close> of byte \<open>c\<close> of plane \<open>p\<close> is bit \<open>p\<close> of the code of coordinate \<open>8 c + k\<close>.\<close>

lemma bit_quantized_row:
  assumes "p < q_bits q" "q_bits q \<in> {2, 3, 4}" "c < q_dim q div 8" "k < 8"
  shows "bit (quantized_row fo q rot ! (p * (q_dim q div 8) + c)) (7 - k)
    \<longleftrightarrow> bit (code_count q (calibrated fo q rot (c * 8 + k))) p"
proof -
  have i: "p * (q_dim q div 8) + c < q_bits q * (q_dim q div 8)" using assms(1) digit_below [OF assms(3)] by blast
  have "p < 8" using assms(1,2) by auto
  then show ?thesis
    using i assms(3,4) by (simp add: quantized_row_def bit_scalar_byte codes_at_def bit_of_nat_iff)
qed

end
