(* ===== verification/Encode.thy ===== *)
theory Encode
  imports Rotation QuantizeKernels
begin

text \<open>
  \<open>encode\<close> and \<open>encode_prerotated\<close> of \<open>encode.rs\<close>: a batch is normalized, rotated, calibrated,
  quantized and packed, and its rows and scales are appended to the caller's buffers. What the
  processor offers is the record \<open>cpu\<close>. The result is shown to be the concatenation of the rows'
  own encodings, on every processor, so a batch may be split or merged freely.
\<close>

section \<open>Definitions\<close>

record cpu =
  cpu_wht :: wht_kernel
  cpu_norm :: simd
  cpu_quant :: simd
  cpu_scan :: simd
  KERNEL_USES_RECON_TABLE :: bool

text \<open>The bit pattern of 1e-10.\<close>

definition MIN_INPUT_NORM :: f32 where "MIN_INPUT_NORM = 0x2EDBE6FF"

definition RECON_TABLE_MIN_ROWS :: nat where "RECON_TABLE_MIN_ROWS = 16"

definition row_slice :: "nat \<Rightarrow> nat \<Rightarrow> 'a list \<Rightarrow> 'a list" where
  "row_slice dim i xs = take dim (drop (i * dim) xs)"

definition rotate_row :: "cpu \<Rightarrow> float_ops \<Rightarrow> rotation \<Rightarrow> f32 list \<Rightarrow> f32 \<times> f32 list" where
  "rotate_row cpu fo rot src =
     (let n_val = simd_norm (cpu_norm cpu) fo src;
          iv = (if f32_gt n_val MIN_INPUT_NORM then f_div fo f32_one n_val else f32_zero)
      in (n_val, apply_scaled_into (cpu_wht cpu) fo rot src iv))"

text \<open>The norms and the rotated rows of a batch.\<close>

definition rotate_batch_into :: "cpu \<Rightarrow> float_ops \<Rightarrow> rotation \<Rightarrow> f32 list \<Rightarrow> nat \<Rightarrow> nat \<Rightarrow> f32 list \<times> f32 list" where
  "rotate_batch_into cpu fo rot vectors n dim =
     (let rows = map (\<lambda>i. rotate_row cpu fo rot (row_slice dim i vectors)) [0..<n]
      in (map fst rows, concat (map snd rows)))"

text \<open>Every row is quantized into a staging buffer that earlier rows have used.\<close>

definition quantize_batch :: "cpu \<Rightarrow> float_ops \<Rightarrow> quant \<Rightarrow> f32 list \<Rightarrow> f32 list \<Rightarrow> nat \<Rightarrow> bytes \<times> f32 list \<Rightarrow> bytes \<times> f32 list" where
  "quantize_batch cpu fo q rotated norms n = (\<lambda>(packed_out, scales_out).
     snd (foldl (\<lambda>(row_buf, packed, scales) i.
              let (scale, row_buf) = fused_quantize_scale_pack (cpu_quant cpu) fo q (row_slice (q_dim q) i rotated) (norms ! i) row_buf
              in (row_buf, packed @ row_buf, scales @ [scale]))
            (replicate (q_bits q * (q_dim q div 8)) 0, packed_out, scales_out) [0..<n]))"

definition identity_or :: "nat \<Rightarrow> (f32 list \<times> f32 list) option \<Rightarrow> (f32 list \<times> f32 list) option" where
  "identity_or dim calibration =
     (case calibration of
        Some (s, sc) \<Rightarrow> do { guard_opt (length s = dim); guard_opt (length sc = dim); Some (s, sc) }
      | None \<Rightarrow> Some (replicate dim f32_zero, replicate dim f32_one))"

text \<open>\<open>None\<close> is a panic.\<close>

definition encode_prerotated ::
  "cpu \<Rightarrow> float_ops \<Rightarrow> f32 list \<Rightarrow> f32 list \<Rightarrow> nat \<Rightarrow> nat \<Rightarrow> f32 list \<Rightarrow> f32 list \<Rightarrow> nat \<Rightarrow> (f32 list \<times> f32 list) option \<Rightarrow>
   bytes \<times> f32 list \<Rightarrow> (bytes \<times> f32 list) option" where
  "encode_prerotated cpu fo rotated norms n dim boundaries centroids bit_width calibration out =
     do {
       (shift, scale_tq) \<leftarrow> identity_or dim calibration;
       let inv_scale_tq = map (f_div fo f32_one) scale_tq;
       let centroid_orig = (if KERNEL_USES_RECON_TABLE cpu \<and> RECON_TABLE_MIN_ROWS \<le> n
                            then Some (build_recon_table fo bit_width dim centroids inv_scale_tq shift) else None);
       guard_opt (bit_width = 2 \<or> bit_width = 3 \<or> bit_width = 4);
       Some (quantize_batch cpu fo
               \<lparr>q_bits = bit_width, q_dim = dim, q_shift = shift, q_scale_tq = scale_tq, q_inv_scale_tq = inv_scale_tq,
                q_table = centroid_orig, q_boundaries = boundaries, q_centroids = centroids\<rparr> rotated norms n out)
     }"

definition encode ::
  "cpu \<Rightarrow> float_ops \<Rightarrow> rotation \<Rightarrow> f32 list \<Rightarrow> nat \<Rightarrow> nat \<Rightarrow> f32 list \<Rightarrow> f32 list \<Rightarrow> nat \<Rightarrow> (f32 list \<times> f32 list) option \<Rightarrow>
   bytes \<times> f32 list \<Rightarrow> (bytes \<times> f32 list) option" where
  "encode cpu fo rot vectors n dim boundaries centroids bit_width calibration out =
     do {
       guard_opt (dim \<noteq> 0 \<and> dim mod 8 = 0);
       let (norms, rotated) = rotate_batch_into cpu fo rot vectors n dim;
       encode_prerotated cpu fo rotated norms n dim boundaries centroids bit_width calibration out
     }"

section \<open>The encoding of one row\<close>

definition scalar_cpu :: cpu where
  "scalar_cpu = \<lparr>cpu_wht = Wht_Scalar, cpu_norm = Simd_Scalar, cpu_quant = Simd_Scalar, cpu_scan = Simd_Scalar,
     KERNEL_USES_RECON_TABLE = False\<rparr>"

text \<open>The codebook and calibration an index encodes with.\<close>

record coder =
  c_rot :: rotation
  c_bits :: nat
  c_dim :: nat
  c_boundaries :: "f32 list"
  c_centroids :: "f32 list"
  c_calibration :: "(f32 list \<times> f32 list) option"

definition coder_quant :: "float_ops \<Rightarrow> coder \<Rightarrow> quant" where
  "coder_quant fo c =
     (let (s, sc) = (case c_calibration c of Some p \<Rightarrow> p | None \<Rightarrow> (replicate (c_dim c) f32_zero, replicate (c_dim c) f32_one))
      in \<lparr>q_bits = c_bits c, q_dim = c_dim c, q_shift = s, q_scale_tq = sc, q_inv_scale_tq = map (f_div fo f32_one) sc,
          q_table = None, q_boundaries = c_boundaries c, q_centroids = c_centroids c\<rparr>)"

definition wf_coder :: "float_ops \<Rightarrow> coder \<Rightarrow> bool" where
  "wf_coder fo c \<longleftrightarrow> wf_rotation (c_rot c) \<and> r_dim (c_rot c) = c_dim c \<and> c_bits c \<in> {2, 3, 4} \<and> c_dim c \<noteq> 0 \<and> c_dim c mod 8 = 0 \<and>
     ascending (coder_quant fo c) \<and>
     (\<forall>s sc. c_calibration c = Some (s, sc) \<longrightarrow> length s = c_dim c \<and> length sc = c_dim c)"

text \<open>Quantizing a rotated row, and encoding a raw one.\<close>

definition quantize_row :: "float_ops \<Rightarrow> coder \<Rightarrow> f32 \<times> f32 list \<Rightarrow> bytes \<times> f32" where
  "quantize_row fo c = (\<lambda>(norm, row). (quantized_row fo (coder_quant fo c) row, row_scale fo (coder_quant fo c) row norm))"

definition encode_row :: "float_ops \<Rightarrow> coder \<Rightarrow> f32 list \<Rightarrow> bytes \<times> f32" where
  "encode_row fo c src = quantize_row fo c (rotate_row scalar_cpu fo (c_rot c) src)"

lemma length_quantized_row [simp]: "length (quantized_row fo q rot) = q_bits q * (q_dim q div 8)"
  by (simp add: quantized_row_def)

lemma coder_quant_shape [simp]:
  "q_bits (coder_quant fo c) = c_bits c" "q_dim (coder_quant fo c) = c_dim c"
  "q_table (coder_quant fo c) = None"
  "q_boundaries (coder_quant fo c) = c_boundaries c" "q_centroids (coder_quant fo c) = c_centroids c"
  by (simp_all add: coder_quant_def case_prod_beta)

section \<open>Batches\<close>

lemma quantized_row_table: "quantized_row fo (q\<lparr>q_table := t\<rparr>) rot = quantized_row fo q rot"
  by (simp add: quantized_row_def codes_at_def code_count_def calibrated_def)

lemma row_scale_table: "row_scale fo (q\<lparr>q_table := t\<rparr>) rot norm = row_scale fo q rot norm"
proof -
  have "term_at fo (q\<lparr>q_table := t\<rparr>) rot = term_at fo q rot"
    by (intro ext) (simp add: term_at_def code_count_def calibrated_def)
  moreover have "chunk_row fo (q\<lparr>q_table := t\<rparr>) rot = chunk_row fo q rot"
    by (intro ext) (simp add: chunk_row_def codes_at_def code_count_def calibrated_def)
  ultimately show ?thesis by (simp add: row_scale_def row_loop_def)
qed

lemma quantize_batch_rows:
  assumes "ascending q" "table_ok fo q" "q_bits q \<in> {2, 3, 4}"
  shows "quantize_batch cpu fo q rotated norms n (po, so) =
    (po @ concat (map (\<lambda>i. quantized_row fo q (row_slice (q_dim q) i rotated)) [0..<n]),
     so @ map (\<lambda>i. row_scale fo q (row_slice (q_dim q) i rotated) (norms ! i)) [0..<n])"
proof -
  define step where "step = (\<lambda>(row_buf, packed, scales) i.
              let (scale, row_buf) = fused_quantize_scale_pack (cpu_quant cpu) fo q (row_slice (q_dim q) i rotated) (norms ! i) row_buf
              in (row_buf, packed @ row_buf, scales @ [scale]))"
  let ?init = "(replicate (q_bits q * (q_dim q div 8)) 0, po, so)"
  have "\<exists>buf. length buf = q_bits q * (q_dim q div 8) \<and> foldl step ?init [0..<n] =
      (buf, po @ concat (map (\<lambda>i. quantized_row fo q (row_slice (q_dim q) i rotated)) [0..<n]),
       so @ map (\<lambda>i. row_scale fo q (row_slice (q_dim q) i rotated) (norms ! i)) [0..<n])"
  proof (induction n)
    case (Suc n)
    then obtain buf where buf: "length buf = q_bits q * (q_dim q div 8)" "foldl step ?init [0..<n] =
      (buf, po @ concat (map (\<lambda>i. quantized_row fo q (row_slice (q_dim q) i rotated)) [0..<n]),
       so @ map (\<lambda>i. row_scale fo q (row_slice (q_dim q) i rotated) (norms ! i)) [0..<n])" by blast
    have "foldl step ?init [0..<Suc n] = step (foldl step ?init [0..<n]) n" by simp
    also have "\<dots> = (quantized_row fo q (row_slice (q_dim q) n rotated),
        po @ concat (map (\<lambda>i. quantized_row fo q (row_slice (q_dim q) i rotated)) [0..<Suc n]),
        so @ map (\<lambda>i. row_scale fo q (row_slice (q_dim q) i rotated) (norms ! i)) [0..<Suc n])"
      unfolding buf(2) by (simp add: step_def fused_row [OF assms buf(1)])
    finally show ?case by (intro exI [of _ "quantized_row fo q (row_slice (q_dim q) n rotated)"]) simp
  qed (intro exI [of _ "replicate (q_bits q * (q_dim q div 8)) 0"], simp)
  then show ?thesis unfolding quantize_batch_def step_def [symmetric] by auto
qed

definition rows_of :: "nat \<Rightarrow> nat \<Rightarrow> 'a list \<Rightarrow> 'a list list" where
  "rows_of dim n xs = map (\<lambda>i. row_slice dim i xs) [0..<n]"

lemma encode_prerotated_rows:
  assumes "wf_coder fo c"
  shows "encode_prerotated cpu fo rotated norms n (c_dim c) (c_boundaries c) (c_centroids c) (c_bits c) (c_calibration c) (po, so) =
    Some (po @ concat (map (\<lambda>i. fst (quantize_row fo c (norms ! i, row_slice (c_dim c) i rotated))) [0..<n]),
          so @ map (\<lambda>i. snd (quantize_row fo c (norms ! i, row_slice (c_dim c) i rotated))) [0..<n])"
proof -
  let ?t = "if KERNEL_USES_RECON_TABLE cpu \<and> RECON_TABLE_MIN_ROWS \<le> n
      then Some (build_recon_table fo (c_bits c) (c_dim c) (c_centroids c) (q_inv_scale_tq (coder_quant fo c)) (q_shift (coder_quant fo c)))
      else None"
  let ?q = "(coder_quant fo c)\<lparr>q_table := ?t\<rparr>"
  have "encode_prerotated cpu fo rotated norms n (c_dim c) (c_boundaries c) (c_centroids c) (c_bits c) (c_calibration c) (po, so) =
      Some (quantize_batch cpu fo ?q rotated norms n (po, so))"
    using assms
    by (cases "c_calibration c") (auto simp: encode_prerotated_def identity_or_def wf_coder_def coder_quant_def Let_def guard_opt_def)
  moreover have "ascending ?q" "table_ok fo ?q" "q_bits ?q \<in> {2, 3, 4}"
    using assms by (simp_all add: wf_coder_def ascending_def table_ok_def)
  ultimately show ?thesis
    by (simp add: quantize_batch_rows quantized_row_table row_scale_table quantize_row_def)
qed

lemma row_slice_concat:
  assumes "\<forall>xs \<in> set xss. length xs = dim" "i < length xss"
  shows "row_slice dim i (concat xss) = xss ! i"
  using assms
proof (induction xss arbitrary: i)
  case (Cons xs xss)
  then show ?case by (cases i) (simp_all add: row_slice_def)
qed simp

lemma length_apply_scaled_into:
  assumes "wf_rotation rot" "length src = r_dim rot"
  shows "length (apply_scaled_into k fo rot src iv) = r_dim rot"
  using length_apply_with_scratch [OF assms(1), of "map (\<lambda>x. f_mul fo x iv) src" Wht_Scalar fo] assms(2)
  by (simp add: apply_scaled_into_scratch [OF assms, of k fo iv Wht_Scalar])

lemma rotate_row_cpu:
  assumes "wf_rotation rot" "length src = r_dim rot"
  shows "rotate_row cpu fo rot src = rotate_row scalar_cpu fo rot src"
proof -
  have "apply_scaled_into (cpu_wht cpu) fo rot src iv = apply_scaled_into Wht_Scalar fo rot src iv" for iv
    using apply_scaled_into_scratch [OF assms, where k' = Wht_Scalar and fo = fo and iv = iv] by metis
  then show ?thesis by (simp add: rotate_row_def norm_kernels_agree scalar_cpu_def)
qed

theorem encode_rows:
  assumes "wf_coder fo c" "length vectors = n * c_dim c"
  shows "encode cpu fo (c_rot c) vectors n (c_dim c) (c_boundaries c) (c_centroids c) (c_bits c) (c_calibration c) (po, so) =
    Some (po @ concat (map (fst \<circ> encode_row fo c) (rows_of (c_dim c) n vectors)),
          so @ map (snd \<circ> encode_row fo c) (rows_of (c_dim c) n vectors))"
proof -
  let ?d = "c_dim c" and ?r = "\<lambda>i. rotate_row scalar_cpu fo (c_rot c) (row_slice (c_dim c) i vectors)"
  have wf: "wf_rotation (c_rot c)" "r_dim (c_rot c) = ?d" "?d \<noteq> 0 \<and> ?d mod 8 = 0"
    using assms(1) by (simp_all add: wf_coder_def)
  have l: "length (row_slice ?d i vectors) = ?d" if "i < n" for i
  proof -
    have "i * ?d + ?d \<le> n * ?d" using that by (metis Suc_leI add.commute mult_Suc mult_le_mono1)
    then show ?thesis by (simp add: row_slice_def assms(2))
  qed
  have rows: "map (\<lambda>i. rotate_row cpu fo (c_rot c) (row_slice ?d i vectors)) [0..<n] = map ?r [0..<n]"
    using l wf(2) by (intro map_cong refl rotate_row_cpu [OF wf(1)]) simp
  have snds: "\<forall>xs \<in> set (map snd (map ?r [0..<n])). length xs = ?d"
    using l wf by (auto simp: rotate_row_def Let_def length_apply_scaled_into)
  have slice: "row_slice ?d i (concat (map snd (map ?r [0..<n]))) = snd (?r i)" if "i < n" for i
    using row_slice_concat [OF snds, of i] that by simp
  have pairs: "map (\<lambda>i. (map fst (map ?r [0..<n]) ! i, row_slice ?d i (concat (map snd (map ?r [0..<n]))))) [0..<n] = map ?r [0..<n]"
    by (intro map_cong refl) (simp add: slice del: map_map)
  have same: "map (\<lambda>i. fst (quantize_row fo c (map fst (map ?r [0..<n]) ! i, row_slice ?d i (concat (map snd (map ?r [0..<n])))))) [0..<n]
      = map (\<lambda>i. fst (quantize_row fo c (?r i))) [0..<n]"
    "map (\<lambda>i. snd (quantize_row fo c (map fst (map ?r [0..<n]) ! i, row_slice ?d i (concat (map snd (map ?r [0..<n])))))) [0..<n]
      = map (\<lambda>i. snd (quantize_row fo c (?r i))) [0..<n]"
    using arg_cong [OF pairs, of "map (\<lambda>p. fst (quantize_row fo c p))"] arg_cong [OF pairs, of "map (\<lambda>p. snd (quantize_row fo c p))"]
    unfolding map_map o_def by (simp_all only:)
  have "encode cpu fo (c_rot c) vectors n ?d (c_boundaries c) (c_centroids c) (c_bits c) (c_calibration c) (po, so) =
      encode_prerotated cpu fo (concat (map snd (map ?r [0..<n]))) (map fst (map ?r [0..<n])) n ?d (c_boundaries c)
        (c_centroids c) (c_bits c) (c_calibration c) (po, so)"
    using wf(3) by (simp add: encode_def rotate_batch_into_def Let_def rows guard_opt_def del: map_map)
  also have "\<dots> = Some (po @ concat (map (\<lambda>i. fst (quantize_row fo c (?r i))) [0..<n]), so @ map (\<lambda>i. snd (quantize_row fo c (?r i))) [0..<n])"
    unfolding encode_prerotated_rows [OF assms(1)] by (simp only: same)
  finally show ?thesis by (simp add: rows_of_def encode_row_def o_def)
qed

end
