(* ===== verification/EncodeTheorems.thy ===== *)
theory EncodeTheorems
  imports Encode RotationTheorems
begin

text \<open>
  What the encoder promises: the input check reports what a left-to-right scan reports; the bytes and
  scales of a batch are those of its rows, on every processor and however the rows are batched; and
  a stored code is the number of codebook boundaries below the calibrated coordinate.
\<close>

section \<open>Supporting facts\<close>

lemma rows_of_append:
  assumes "length xs = n * dim" "length ys = m * dim"
  shows "rows_of dim (n + m) (xs @ ys) = rows_of dim n xs @ rows_of dim m ys"
proof -
  have e: "[0..<n + m] = [0..<n] @ map (\<lambda>i. n + i) [0..<m]" using upt_add_eq_append [of 0 n m] map_add_upt [of n m] by (simp add: add.commute)
  have a: "row_slice dim i (xs @ ys) = row_slice dim i xs" if "i < n" for i
  proof -
    have "i * dim + dim \<le> length xs" using that unfolding assms(1) by (metis Suc_leI add.commute mult_Suc mult_le_mono1)
    then show ?thesis by (simp add: row_slice_def)
  qed
  have b: "row_slice dim (n + i) (xs @ ys) = row_slice dim i ys" for i
    by (simp add: row_slice_def assms(1) add_mult_distrib)
  show ?thesis unfolding rows_of_def e by (simp add: a b o_def)
qed

lemma length_encode_row [simp]: "length (fst (encode_row fo c src)) = c_bits c * (c_dim c div 8)"
  by (simp add: encode_row_def quantize_row_def case_prod_beta)

lemma concat_rows_nth:
  assumes "\<forall>xs \<in> set xss. length xs = w" "i < length xss" "k < w"
  shows "concat xss ! (i * w + k) = xss ! i ! k"
  using assms
proof (induction xss arbitrary: i)
  case (Cons xs xss)
  then show ?case by (cases i) (simp_all add: nth_append add.assoc)
qed simp

text \<open>A coder to try the properties on: 2-bit codes with the boundaries -1, 0 and 1.\<close>

definition demo_coder :: "rotation \<Rightarrow> coder" where
  "demo_coder rot = \<lparr>c_rot = rot, c_bits = 2, c_dim = 8, c_boundaries = [f32_minus_one, f32_zero, f32_one],
     c_centroids = [0xC0000000, 0xBF000000, 0x3F000000, 0x40000000], c_calibration = None\<rparr>"

lemma demo_coder_wf:
  assumes "rotation_new demo_ops demo_rng 8 = Some rot"
  shows "wf_coder demo_ops (demo_coder rot)"
proof -
  have "\<forall>j < 3. \<forall>i \<le> j. f32_le ([f32_minus_one, f32_zero, f32_one] ! i) ([f32_minus_one, f32_zero, f32_one] ! j)"
  proof (intro allI impI)
    fix i j :: nat
    assume "j < 3" "i \<le> j"
    then have "i = 0 \<and> j = 0 \<or> i = 0 \<and> j = 1 \<or> i = 0 \<and> j = 2 \<or> i = 1 \<and> j = 1 \<or> i = 1 \<and> j = 2 \<or> i = 2 \<and> j = 2" by auto
    moreover have "f32_le f32_minus_one f32_minus_one" "f32_le f32_minus_one f32_zero" "f32_le f32_minus_one f32_one"
      "f32_le f32_zero f32_zero" "f32_le f32_zero f32_one" "f32_le f32_one f32_one"
      by (simp_all add: f32_le_def f32_is_nan_def f32_ord_def f32_mag_def f32_inf_mag_def f32_sign_def
          f32_minus_one_def f32_zero_def f32_one_def)
    ultimately show "f32_le ([f32_minus_one, f32_zero, f32_one] ! i) ([f32_minus_one, f32_zero, f32_one] ! j)"
      by (elim disjE) simp_all
  qed
  then show ?thesis
    using rotation_new_wf [OF assms] by (simp add: wf_coder_def demo_coder_def ascending_def)
qed

lemma demo_rotation: "\<exists>rot. rotation_new demo_ops demo_rng 8 = Some rot"
proof -
  have "rotation_new demo_ops demo_rng 8 \<noteq> None" by (simp add: rotation_new_None MAX_DIM_def)
  then show ?thesis by blast
qed

section \<open>Properties\<close>

text \<open>C29. The chunked, vectorized input check never reaches its \<open>unreachable!\<close> and reports exactly
  the first coordinate, in storage order, that is not finite or not below 1e16 in magnitude, with its
  row and column; a clean batch is reported clean.\<close>

theorem first_invalid_coord_leftmost:
  "first_invalid_coord k values dim =
    Some (map_option (\<lambda>i. (if dim = 0 then 0 else i div dim, if dim = 0 then i else i mod dim, values ! i))
      (find (\<lambda>i. \<not> (f32_is_finite (values ! i) \<and> \<not> f32_le MAX_INPUT_MAGNITUDE (f32_abs (values ! i)))) [0..<length values]))"
  unfolding first_invalid_coord_def par_first_invalid_coord_correct [OF MAX_INPUT_MAGNITUDE_finite]
  by (simp only: fails_iff [OF MAX_INPUT_MAGNITUDE_finite, symmetric] de_Morgan_conj not_not)

text \<open>C30. On every processor, with or without the reconstruction table, encoding a batch appends to
  the caller's buffers the rows' own encodings in order. In particular encoding two batches one after
  the other leaves the bytes and scales of encoding them at once.\<close>

theorem encode_batch_is_rows:
  assumes "wf_coder fo c" "length xs = n * c_dim c" "length ys = m * c_dim c"
  defines "enc \<equiv> \<lambda>cpu vectors k. encode cpu fo (c_rot c) vectors k (c_dim c) (c_boundaries c) (c_centroids c) (c_bits c) (c_calibration c)"
  shows "enc cpu (xs @ ys) (n + m) (po, so) =
      Some (po @ concat (map (fst \<circ> encode_row fo c) (rows_of (c_dim c) n xs @ rows_of (c_dim c) m ys)),
            so @ map (snd \<circ> encode_row fo c) (rows_of (c_dim c) n xs @ rows_of (c_dim c) m ys))
    \<and> Option.bind (enc cpu1 xs n (po, so)) (enc cpu2 ys m) = enc cpu (xs @ ys) (n + m) (po, so)"
proof -
  have l: "length (xs @ ys) = (n + m) * c_dim c" using assms(2,3) by (simp add: add_mult_distrib)
  show ?thesis
    unfolding enc_def encode_rows [OF assms(1) l] encode_rows [OF assms(1,2)] rows_of_append [OF assms(2,3)]
    by (simp add: encode_rows [OF assms(1,3)])
qed

theorem encode_batch_is_rows_witness:
  "\<exists>rot. rotation_new demo_ops demo_rng 8 = Some rot \<and>
    Option.bind (encode scalar_cpu demo_ops rot [1, 2, 3, 4, 5, 6, 7, 8] 1 8 (c_boundaries (demo_coder rot)) (c_centroids (demo_coder rot)) 2 None ([], []))
      (encode scalar_cpu demo_ops rot [8, 7, 6, 5, 4, 3, 2, 1] 1 8 (c_boundaries (demo_coder rot)) (c_centroids (demo_coder rot)) 2 None)
    = encode scalar_cpu demo_ops rot ([1, 2, 3, 4, 5, 6, 7, 8] @ [8, 7, 6, 5, 4, 3, 2, 1]) 2 8
        (c_boundaries (demo_coder rot)) (c_centroids (demo_coder rot)) 2 None ([], [])"
proof -
  obtain rot where rot: "rotation_new demo_ops demo_rng 8 = Some rot" using demo_rotation by blast
  have shape: "c_rot (demo_coder rot) = rot" "c_bits (demo_coder rot) = 2" "c_dim (demo_coder rot) = 8" "c_calibration (demo_coder rot) = None"
    by (simp_all add: demo_coder_def)
  have "length [1, 2, 3, 4, 5, 6, 7, 8 :: f32] = 1 * c_dim (demo_coder rot)" "length [8, 7, 6, 5, 4, 3, 2, 1 :: f32] = 1 * c_dim (demo_coder rot)"
    by (simp_all add: shape)
  from encode_batch_is_rows [OF demo_coder_wf [OF rot] this, of scalar_cpu "[]" "[]" scalar_cpu scalar_cpu] show ?thesis
    unfolding shape one_add_one using rot by blast
qed

text \<open>C31. The code stored for a coordinate is the number of boundaries below its calibrated rotated
  value: bit \<open>7 - k\<close> of byte \<open>b\<close> of plane \<open>p\<close> of row \<open>i\<close> is bit \<open>p\<close> of the code of coordinate
  \<open>8 b + k\<close>, and a code is below \<open>2^bits\<close>.\<close>

theorem stored_code_counts_boundaries:
  assumes "wf_coder fo c" "length vectors = n * c_dim c"
    and "i < n" "p < c_bits c" "b < c_dim c div 8" "k < 8"
    and "encode cpu fo (c_rot c) vectors n (c_dim c) (c_boundaries c) (c_centroids c) (c_bits c) (c_calibration c) (po, so) = Some (packed, scales)"
  defines "code \<equiv> code_count (coder_quant fo c) (calibrated fo (coder_quant fo c)
      (snd (rotate_row cpu fo (c_rot c) (row_slice (c_dim c) i vectors))) (b * 8 + k))"
  shows "code < 2 ^ c_bits c \<and>
    (bit (packed ! (length po + i * (c_bits c * (c_dim c div 8)) + p * (c_dim c div 8) + b)) (7 - k) \<longleftrightarrow> bit code p)"
proof -
  let ?w = "c_bits c * (c_dim c div 8)" and ?rows = "map (fst \<circ> encode_row fo c) (rows_of (c_dim c) n vectors)"
  have wf: "wf_rotation (c_rot c)" "r_dim (c_rot c) = c_dim c" "c_bits c \<in> {2, 3, 4}" using assms(1) by (simp_all add: wf_coder_def)
  have k: "p * (c_dim c div 8) + b < ?w" using assms(4) digit_below [OF assms(5)] by blast
  have "packed = po @ concat ?rows" using assms(7) by (simp add: encode_rows [OF assms(1,2)])
  then have "packed ! (length po + i * ?w + p * (c_dim c div 8) + b) = concat ?rows ! (i * ?w + (p * (c_dim c div 8) + b))"
    by (simp add: nth_append add.assoc)
  also have "\<dots> = ?rows ! i ! (p * (c_dim c div 8) + b)"
    by (rule concat_rows_nth [OF _ _ k]) (use assms(3) in \<open>auto simp: rows_of_def\<close>)
  also have "?rows ! i = quantized_row fo (coder_quant fo c) (snd (rotate_row scalar_cpu fo (c_rot c) (row_slice (c_dim c) i vectors)))"
    using assms(3) by (simp add: rows_of_def encode_row_def quantize_row_def case_prod_beta)
  finally have byte: "packed ! (length po + i * ?w + p * (c_dim c div 8) + b)
      = quantized_row fo (coder_quant fo c) (snd (rotate_row scalar_cpu fo (c_rot c) (row_slice (c_dim c) i vectors))) ! (p * (c_dim c div 8) + b)" .
  have "i * c_dim c + c_dim c \<le> length vectors" unfolding assms(2) using assms(3) by (metis Suc_leI add.commute mult_Suc mult_le_mono1)
  then have "rotate_row cpu fo (c_rot c) (row_slice (c_dim c) i vectors) = rotate_row scalar_cpu fo (c_rot c) (row_slice (c_dim c) i vectors)"
    by (intro rotate_row_cpu [OF wf(1)]) (simp add: row_slice_def wf(2))
  then have code: "code = code_count (coder_quant fo c) (calibrated fo (coder_quant fo c)
      (snd (rotate_row scalar_cpu fo (c_rot c) (row_slice (c_dim c) i vectors))) (b * 8 + k))" by (simp add: code_def)
  show ?thesis
    unfolding byte using bit_quantized_row [of p "coder_quant fo c" b k] assms(4-6) wf(3) code code_count_less [of "coder_quant fo c"] by simp
qed

theorem stored_code_counts_boundaries_witness:
  "\<exists>rot packed scales. rotation_new demo_ops demo_rng 8 = Some rot \<and>
    encode scalar_cpu demo_ops rot [1, 2, 3, 4, 5, 6, 7, 8] 1 8 (c_boundaries (demo_coder rot)) (c_centroids (demo_coder rot)) 2 None ([], []) = Some (packed, scales) \<and>
    (bit (packed ! 1) 2 \<longleftrightarrow> bit (code_count (coder_quant demo_ops (demo_coder rot)) (calibrated demo_ops (coder_quant demo_ops (demo_coder rot))
       (snd (rotate_row scalar_cpu demo_ops rot (row_slice 8 0 [1, 2, 3, 4, 5, 6, 7, 8]))) 5)) 1)"
proof -
  obtain rot where rot: "rotation_new demo_ops demo_rng 8 = Some rot" using demo_rotation by blast
  note wf = demo_coder_wf [OF rot]
  have shape: "c_rot (demo_coder rot) = rot" "c_bits (demo_coder rot) = 2" "c_dim (demo_coder rot) = 8" "c_calibration (demo_coder rot) = None"
    by (simp_all add: demo_coder_def)
  have l: "length [1, 2, 3, 4, 5, 6, 7, 8 :: f32] = 1 * c_dim (demo_coder rot)" by (simp add: shape)
  obtain packed scales where enc: "encode scalar_cpu demo_ops (c_rot (demo_coder rot)) [1, 2, 3, 4, 5, 6, 7, 8] 1 (c_dim (demo_coder rot))
      (c_boundaries (demo_coder rot)) (c_centroids (demo_coder rot)) (c_bits (demo_coder rot)) (c_calibration (demo_coder rot)) ([], []) = Some (packed, scales)"
    using encode_rows [OF wf l, of scalar_cpu "[]" "[]"] by blast
  have b: "(1 :: nat) < c_bits (demo_coder rot)" "(0 :: nat) < c_dim (demo_coder rot) div 8" by (simp_all add: shape)
  from stored_code_counts_boundaries [OF wf l _ b(1) b(2) _ enc, of 0 5] show ?thesis
    using rot enc by (simp add: shape)
qed

end
