(* ===== verification/Codebook.thy ===== *)
theory Codebook
  imports FloatOps Prelude "HOL-Library.Monad_Syntax"
begin

text \<open>
  The Lloyd-Max codebook (\<open>codebook.rs\<close>). The Beta distribution is a third-party crate's: \<open>beta_new a b\<close>
  is \<open>Beta::new\<close>, \<open>None\<close> where it refuses its shapes. The quadrature recurses at most \<open>max_depth\<close>
  levels and the iteration runs at most \<open>max_iter\<close> rounds, so both are total. The process-wide memo
  is a state that any thread may extend between two critical sections; whatever a call finds there,
  it returns the codebook.
\<close>

section \<open>Definitions\<close>

record beta =
  beta_cdf :: "f64 \<Rightarrow> f64"
  beta_pdf :: "f64 \<Rightarrow> f64"

type_synonym beta_dist = "f64 \<Rightarrow> f64 \<Rightarrow> beta option"

definition f64_one :: f64 where "f64_one = 0x3FF0000000000000"
definition f64_two :: f64 where "f64_two = 0x4000000000000000"
definition f64_three :: f64 where "f64_three = 0x4008000000000000"
definition f64_four :: f64 where "f64_four = 0x4010000000000000"
definition f64_six :: f64 where "f64_six = 0x4018000000000000"
definition f64_fifteen :: f64 where "f64_fifteen = 0x402E000000000000"
definition f64_minus_one :: f64 where "f64_minus_one = 0xBFF0000000000000"
definition f32_half :: f32 where "f32_half = 0x3F000000"

text \<open>1e-15, 1e-14 and 1e-12.\<close>

definition PROB_FLOOR :: f64 where "PROB_FLOOR = 0x3CD203AF9EE75616"
definition SIMPSON_TOL :: f64 where "SIMPSON_TOL = 0x3D06849B86A12B9B"
definition LLOYD_TOL :: f64 where "LLOYD_TOL = 0x3D719799812DEA11"

definition f64_neg :: "f64 \<Rightarrow> f64" where
  "f64_neg x = x XOR 0x8000000000000000"

fun adaptive_simpson_rec ::
  "float_ops \<Rightarrow> (f64 \<Rightarrow> f64) \<Rightarrow> f64 \<Rightarrow> f64 \<Rightarrow> f64 \<Rightarrow> f64 \<Rightarrow> f64 \<Rightarrow> f64 \<Rightarrow> f64 \<Rightarrow> nat \<Rightarrow> f64" where
  "adaptive_simpson_rec fo f a b fa fb fm whole tol depth =
     (let mid = d_div fo (d_add fo a b) f64_two;
          m1 = d_div fo (d_add fo a mid) f64_two;
          m2 = d_div fo (d_add fo mid b) f64_two;
          fm1 = f m1;
          fm2 = f m2;
          left = d_mul fo (d_div fo (d_sub fo mid a) f64_six) (d_add fo (d_add fo fa (d_mul fo f64_four fm1)) fm);
          right = d_mul fo (d_div fo (d_sub fo b mid) f64_six) (d_add fo (d_add fo fm (d_mul fo f64_four fm2)) fb);
          refined = d_add fo left right
      in if depth = 0 \<or> f64_lt (f64_abs (d_sub fo refined whole)) (d_mul fo f64_fifteen tol)
         then d_add fo refined (d_div fo (d_sub fo refined whole) f64_fifteen)
         else d_add fo (adaptive_simpson_rec fo f a mid fa fm fm1 left (d_div fo tol f64_two) (depth - 1))
                (adaptive_simpson_rec fo f mid b fm fb fm2 right (d_div fo tol f64_two) (depth - 1)))"

declare adaptive_simpson_rec.simps [simp del]

definition adaptive_simpson :: "float_ops \<Rightarrow> (f64 \<Rightarrow> f64) \<Rightarrow> f64 \<Rightarrow> f64 \<Rightarrow> f64 \<Rightarrow> nat \<Rightarrow> f64" where
  "adaptive_simpson fo f a b tol max_depth =
     (let mid = d_div fo (d_add fo a b) f64_two;
          fa = f a;
          fb = f b;
          fm = f mid;
          whole = d_mul fo (d_div fo (d_sub fo b a) f64_six) (d_add fo (d_add fo fa (d_mul fo f64_four fm)) fb)
      in adaptive_simpson_rec fo f a b fa fb fm whole tol max_depth)"

text \<open>One round of the iteration: the conditional means of the cells between the midpoints.\<close>

definition cell_mean :: "float_ops \<Rightarrow> beta \<Rightarrow> f64 \<Rightarrow> f64 \<Rightarrow> f64 \<Rightarrow> f64" where
  "cell_mean fo beta old lo hi =
     (let cdf_lo = beta_cdf beta (d_div fo (d_add fo lo f64_one) f64_two);
          cdf_hi = beta_cdf beta (d_div fo (d_add fo hi f64_one) f64_two);
          prob = d_sub fo cdf_hi cdf_lo
      in if f64_lt prob PROB_FLOOR then old
         else let mean = adaptive_simpson fo
                    (\<lambda>x. let t = d_div fo (d_add fo x f64_one) f64_two in d_div fo (d_mul fo x (beta_pdf beta t)) f64_two)
                    lo hi SIMPSON_TOL 50
              in d_div fo mean prob)"

definition lloyd_round :: "float_ops \<Rightarrow> beta \<Rightarrow> nat \<Rightarrow> f64 list \<Rightarrow> f64 list" where
  "lloyd_round fo beta n_levels centroids =
     (let boundaries = map (\<lambda>i. d_div fo (d_add fo (centroids ! i) (centroids ! (i + 1))) f64_two) [0..<n_levels - 1];
          edges = [f64_minus_one] @ boundaries @ [f64_one]
      in map (\<lambda>i. cell_mean fo beta (centroids ! i) (edges ! i) (edges ! (i + 1))) [0..<n_levels])"

definition max_change_of :: "float_ops \<Rightarrow> f64 list \<Rightarrow> f64 list \<Rightarrow> f64" where
  "max_change_of fo centroids new_centroids =
     foldl f64_max f64_zero (map (\<lambda>(a, b). f64_abs (d_sub fo a b)) (zip centroids new_centroids))"

primrec lloyd_loop :: "float_ops \<Rightarrow> beta \<Rightarrow> nat \<Rightarrow> f64 \<Rightarrow> nat \<Rightarrow> f64 list \<Rightarrow> f64 list" where
  "lloyd_loop fo beta n_levels tol 0 centroids = centroids"
| "lloyd_loop fo beta n_levels tol (Suc k) centroids =
     (let new_centroids = lloyd_round fo beta n_levels centroids
      in if f64_lt (max_change_of fo centroids new_centroids) tol then new_centroids
         else lloyd_loop fo beta n_levels tol k new_centroids)"

definition initial_centroids :: "float_ops \<Rightarrow> f64 \<Rightarrow> nat \<Rightarrow> f64 list" where
  "initial_centroids fo a n_levels =
     (let two_a = d_mul fo f64_two a;
          std_dev = d_sqrt fo (d_div fo two_a (d_mul fo (d_mul fo (d_add fo two_a f64_one) f64_four) a));
          spread = d_mul fo f64_three std_dev
      in map (\<lambda>i. d_add fo (f64_neg spread)
                (d_div fo (d_mul fo (d_mul fo f64_two spread) (d_of_usize fo i)) (d_sub fo (d_of_usize fo n_levels) f64_one)))
           [0..<n_levels])"

text \<open>\<open>None\<close> is the panic of \<open>Beta::new(a, a).unwrap()\<close>.\<close>

definition lloyd_max :: "float_ops \<Rightarrow> beta_dist \<Rightarrow> nat \<Rightarrow> nat \<Rightarrow> nat \<Rightarrow> f64 \<Rightarrow> (f32 list \<times> f32 list) option" where
  "lloyd_max fo beta_new bits dim max_iter tol =
     (let a = d_div fo (d_sub fo (d_of_usize fo dim) f64_one) f64_two
      in do {
           beta \<leftarrow> beta_new a a;
           let n_levels = 2 ^ bits;
           let centroids = lloyd_loop fo beta n_levels tol max_iter (initial_centroids fo a n_levels);
           let centroids_f32 = map (f_of_d fo) centroids;
           let boundaries = map (\<lambda>i. f_mul fo (f_add fo (centroids_f32 ! i) (centroids_f32 ! (i + 1))) f32_half) [0..<n_levels - 1];
           Some (boundaries, centroids_f32)
         })"

text \<open>The memo: \<open>None\<close> until the first solve is stored.\<close>

type_synonym memo = "((nat \<times> nat) \<rightharpoonup> (f32 list \<times> f32 list)) option"

definition memo_get :: "memo \<Rightarrow> nat \<Rightarrow> nat \<Rightarrow> (f32 list \<times> f32 list) option" where
  "memo_get m bits dim = (case m of Some t \<Rightarrow> t (bits, dim) | None \<Rightarrow> None)"

definition memo_insert :: "nat \<Rightarrow> nat \<Rightarrow> f32 list \<times> f32 list \<Rightarrow> memo \<Rightarrow> memo" where
  "memo_insert bits dim v m = Some ((case m of Some t \<Rightarrow> t | None \<Rightarrow> Map.empty) ((bits, dim) \<mapsto> v))"

text \<open>A call: \<open>seen\<close> is the memo under the first \<open>try_lock\<close>, \<open>None\<close> where the lock was taken. The
  outcome is the value and, after a miss, what the second \<open>try_lock\<close> is to store.\<close>

definition codebook_call :: "float_ops \<Rightarrow> beta_dist \<Rightarrow> memo option \<Rightarrow> nat \<Rightarrow> nat \<Rightarrow>
    (f32 list \<times> f32 list) option \<times> (memo \<Rightarrow> memo)" where
  "codebook_call fo beta_new seen bits dim =
     (case Option.bind seen (\<lambda>m. memo_get m bits dim) of
        Some hit \<Rightarrow> (Some hit, id)
      | None \<Rightarrow> (case lloyd_max fo beta_new bits dim 200 LLOYD_TOL of
                   None \<Rightarrow> (None, id)
                 | Some computed \<Rightarrow> (Some computed, memo_insert bits dim computed)))"

definition codebook :: "float_ops \<Rightarrow> beta_dist \<Rightarrow> nat \<Rightarrow> nat \<Rightarrow> (f32 list \<times> f32 list) option" where
  "codebook fo beta_new bits dim = fst (codebook_call fo beta_new None bits dim)"

section \<open>The codebook has its shape\<close>

lemma length_lloyd_round [simp]: "length (lloyd_round fo beta n cs) = n"
  by (simp add: lloyd_round_def Let_def)

lemma length_lloyd_loop: "length cs = n \<Longrightarrow> length (lloyd_loop fo beta n tol k cs) = n"
  by (induction k arbitrary: cs) (simp_all add: Let_def)

lemma length_initial_centroids [simp]: "length (initial_centroids fo a n) = n"
  by (simp add: initial_centroids_def Let_def)

lemma codebook_lloyd: "codebook fo bn bits dim = lloyd_max fo bn bits dim 200 LLOYD_TOL"
  by (simp add: codebook_def codebook_call_def split: option.split)

lemma lloyd_max_shape:
  assumes "lloyd_max fo bn bits dim k tol = Some (bs, cs)"
  shows "length cs = 2 ^ bits" "length bs = 2 ^ bits - 1"
    and "i < 2 ^ bits - 1 \<Longrightarrow> bs ! i = f_mul fo (f_add fo (cs ! i) (cs ! (i + 1))) f32_half"
proof -
  let ?a = "d_div fo (d_sub fo (d_of_usize fo dim) f64_one) f64_two"
  from assms obtain beta where b: "bn ?a ?a = Some beta" by (auto simp: lloyd_max_def Let_def split: Option.bind_splits)
  let ?cs = "map (f_of_d fo) (lloyd_loop fo beta (2 ^ bits) tol k (initial_centroids fo ?a (2 ^ bits)))"
  have e: "map (\<lambda>i. f_mul fo (f_add fo (?cs ! i) (?cs ! (i + 1))) f32_half) [0..<2 ^ bits - 1] = bs \<and> ?cs = cs"
    using assms unfolding lloyd_max_def Let_def b bind.bind_lunit option.inject prod.inject .
  note cs = e [THEN conjunct2, symmetric] and bs = e [THEN conjunct1, symmetric]
  show "length cs = 2 ^ bits" by (simp add: cs length_lloyd_loop)
  show "length bs = 2 ^ bits - 1" by (simp add: bs)
  show "bs ! i = f_mul fo (f_add fo (cs ! i) (cs ! (i + 1))) f32_half" if "i < 2 ^ bits - 1"
    unfolding bs cs using that by simp
qed

section \<open>The memo is transparent\<close>

text \<open>The memos of a process: a thread that missed stores what it solved, at any later time.\<close>

inductive memo_reachable :: "float_ops \<Rightarrow> beta_dist \<Rightarrow> memo \<Rightarrow> bool" for fo bn where
  memo_start: "memo_reachable fo bn None"
| memo_store: "memo_reachable fo bn m \<Longrightarrow> memo_reachable fo bn m' \<Longrightarrow> seen = None \<or> seen = Some m' \<Longrightarrow>
    codebook_call fo bn seen bits dim = (r, store) \<Longrightarrow> memo_reachable fo bn (store m)"

definition memo_ok :: "float_ops \<Rightarrow> beta_dist \<Rightarrow> memo \<Rightarrow> bool" where
  "memo_ok fo bn m \<longleftrightarrow> (\<forall>bits dim v. memo_get m bits dim = Some v \<longrightarrow> codebook fo bn bits dim = Some v)"

lemma codebook_call_value:
  assumes "seen = None \<or> seen = Some m" "memo_ok fo bn m"
  shows "fst (codebook_call fo bn seen bits dim) = codebook fo bn bits dim"
  using assms by (auto simp: codebook_call_def codebook_lloyd memo_ok_def split: option.split)

lemma codebook_call_store:
  "snd (codebook_call fo bn seen bits dim) = id \<or>
   (\<exists>v. snd (codebook_call fo bn seen bits dim) = memo_insert bits dim v \<and> codebook fo bn bits dim = Some v)"
proof (cases "Option.bind seen (\<lambda>m. memo_get m bits dim)")
  case None
  then show ?thesis
  proof (cases "codebook fo bn bits dim")
    case (Some v)
    then have "snd (codebook_call fo bn seen bits dim) = memo_insert bits dim v"
      using None by (simp add: codebook_call_def codebook_lloyd)
    then show ?thesis using Some by blast
  qed (simp add: codebook_call_def codebook_lloyd)
qed (simp add: codebook_call_def)

lemma memo_reachable_ok: "memo_reachable fo bn m \<Longrightarrow> memo_ok fo bn m"
proof (induction rule: memo_reachable.induct)
  case (memo_store m m' seen bits dim r store)
  have "store = id \<or> (\<exists>v. store = memo_insert bits dim v \<and> codebook fo bn bits dim = Some v)"
    using codebook_call_store [of fo bn seen bits dim] memo_store.hyps(4) by simp
  then show ?case
    using memo_store.IH(1) by (auto simp: memo_ok_def memo_insert_def memo_get_def split: option.splits if_splits)
qed (simp add: memo_ok_def memo_get_def)

end
