(* ===== verification/Calibration.thy ===== *)
theory Calibration
  imports Encode Codebook Buffers "HOL-Library.Multiset"
begin

text \<open>
  The calibration fit (\<open>fit_calibration\<close>, \<open>compute_tqplus_calibration\<close> and \<open>tqplus_anchor\<close> of
  \<open>encode.rs\<close>): per rotated coordinate, two order statistics of the sample are mapped onto the outer
  centroids. The tiles a thread pool works on and the partial sorts are those of the code; the result
  is shown to be the one of sorting every column, for every number of workers.
\<close>

section \<open>Definitions\<close>

definition MIN_CALIBRATION_ROWS :: nat where "MIN_CALIBRATION_ROWS = 2"

text \<open>1e-6.\<close>

definition SPAN_FLOOR :: f32 where "SPAN_FLOOR = 0x358637BD"

definition tqplus_anchor :: "float_ops \<Rightarrow> beta \<Rightarrow> f32 list \<Rightarrow> f64 \<times> f64 \<times> f32 \<times> f32" where
  "tqplus_anchor fo beta centroids =
     (let c_outer = foldl (\<lambda>acc c. f32_max acc (f32_abs c)) f32_zero centroids;
          p_hi = beta_cdf beta (d_div fo (d_add fo (d_of_f fo c_outer) f64_one) f64_two)
      in (d_sub fo f64_one p_hi, p_hi, f32_neg c_outer, c_outer))"

text \<open>\<open>select_nth_unstable\<close> reorders the slice by the standard library's \<open>sel\<close>; the element and what
  lies right of it are returned, and an index past the end panics.\<close>

type_synonym selector = "u32 list \<Rightarrow> nat \<Rightarrow> u32 list"

definition select_nth_unstable :: "selector \<Rightarrow> u32 list \<Rightarrow> nat \<Rightarrow> (u32 \<times> u32 list) option" where
  "select_nth_unstable sel xs k =
     (if k < length xs then let ys = sel xs k in Some (ys ! k, drop (k + 1) ys) else None)"

text \<open>The tile is halved while it would leave fewer than two per worker.\<close>

function tile_size_from :: "nat \<Rightarrow> nat \<Rightarrow> nat \<Rightarrow> nat" where
  "tile_size_from dim workers tile_size =
     (if 32 < tile_size \<and> dim div tile_size < 2 * workers then tile_size_from dim workers (tile_size div 2)
      else tile_size)"
  by pat_completeness auto
termination by (relation "measure (\<lambda>(dim, workers, tile_size). tile_size)") auto

declare tile_size_from.simps [simp del]

text \<open>The sort keys of a tile's columns, scattered row by row into a buffer.\<close>

definition scatter_tile :: "f32 list \<Rightarrow> nat \<Rightarrow> nat \<Rightarrow> nat \<Rightarrow> nat \<Rightarrow> u32 list \<Rightarrow> u32 list" where
  "scatter_tile rotated n dim d0 tile spare =
     foldl (\<lambda>cols i.
         let row = take tile (drop (i * dim + d0) rotated)
         in foldl (\<lambda>cols c. cols[c * n + i := f32_sort_key (row ! c)]) cols [0..<tile])
       spare [0..<n]"

text \<open>The pair of one coordinate from its two quantiles: \<open>(shift, scale)\<close>.\<close>

definition fit_pair :: "float_ops \<Rightarrow> f32 \<Rightarrow> f32 \<Rightarrow> u32 \<Rightarrow> u32 \<Rightarrow> f32 \<times> f32" where
  "fit_pair fo qc_lo qc_span lo_val hi_val =
     (let qe_lo = f32_from_sort_key lo_val;
          qe_hi = f32_from_sort_key hi_val;
          qe_span = f_sub fo qe_hi qe_lo
      in if f32_gt qe_span SPAN_FLOOR
         then let sc = f_div fo qc_span qe_span in (f_sub fo (f_div fo qc_lo sc) qe_lo, sc)
         else (f32_zero, f32_one))"

definition fit_coord :: "float_ops \<Rightarrow> selector \<Rightarrow> f32 \<Rightarrow> f32 \<Rightarrow> nat \<Rightarrow> nat \<Rightarrow> u32 list \<Rightarrow> (f32 \<times> f32) option" where
  "fit_coord fo sel qc_lo qc_span lo_idx hi_idx coord =
     do {
       (lo_val, right) \<leftarrow> select_nth_unstable sel coord lo_idx;
       (hi_val, _) \<leftarrow> select_nth_unstable sel right (hi_idx - lo_idx - 1);
       Some (fit_pair fo qc_lo qc_span lo_val hi_val)
     }"

definition fit_tile :: "float_ops \<Rightarrow> selector \<Rightarrow> f32 \<Rightarrow> f32 \<Rightarrow> nat \<Rightarrow> nat \<Rightarrow> f32 list \<Rightarrow> nat \<Rightarrow> nat \<Rightarrow> nat \<Rightarrow> nat \<Rightarrow>
    (f32 \<times> f32) list option" where
  "fit_tile fo sel qc_lo qc_span lo_idx hi_idx rotated n dim d0 tile =
     (let cols = scatter_tile rotated n dim d0 tile (replicate (tile * n) 0)
      in those (map (\<lambda>c. fit_coord fo sel qc_lo qc_span lo_idx hi_idx (take n (drop (c * n) cols))) [0..<tile]))"

text \<open>\<open>None\<close> is a panic: of \<open>Beta::new\<close>, or of a selection out of range.\<close>

definition compute_tqplus_calibration ::
  "float_ops \<Rightarrow> beta_dist \<Rightarrow> selector \<Rightarrow> nat \<Rightarrow> f32 list \<Rightarrow> nat \<Rightarrow> nat \<Rightarrow> f32 list \<Rightarrow> (f32 list \<times> f32 list) option" where
  "compute_tqplus_calibration fo beta_new sel current_num_threads rotated n dim centroids =
     (let a = d_div fo (d_sub fo (d_of_usize fo dim) f64_one) f64_two
      in do {
           beta \<leftarrow> beta_new a a;
           let (p_lo, p_hi, qc_lo, qc_hi) = tqplus_anchor fo beta centroids;
           let qc_span = f_sub fo qc_hi qc_lo;
           let lo_idx = d_to_usize fo (d_mul fo (d_of_usize fo n) p_lo);
           let hi_idx = max (min (d_to_usize fo (d_mul fo (d_of_usize fo n) p_hi)) (n - 1)) (lo_idx + 1);
           let workers = max current_num_threads 1;
           let tile_size = tile_size_from dim workers 128;
           tiles \<leftarrow> those (map (\<lambda>(tile_idx, ch). fit_tile fo sel qc_lo qc_span lo_idx hi_idx rotated n dim
                                     (tile_idx * tile_size) (length ch))
                       (enumerate 0 (par_chunks tile_size (replicate dim f32_zero))));
           let pairs = concat tiles;
           Some (map fst pairs, map snd pairs)
         })"

definition fit_calibration ::
  "cpu \<Rightarrow> float_ops \<Rightarrow> beta_dist \<Rightarrow> selector \<Rightarrow> nat \<Rightarrow> f32 list \<Rightarrow> nat \<Rightarrow> nat \<Rightarrow> rotation \<Rightarrow> f32 list \<Rightarrow>
   (f32 list \<times> f32 list) option" where
  "fit_calibration cpu fo beta_new sel current_num_threads vectors n dim rot centroids =
     (let (norms, rotated) = rotate_batch_into cpu fo rot vectors n dim
      in compute_tqplus_calibration fo beta_new sel current_num_threads rotated n dim centroids)"

section \<open>Selection\<close>

text \<open>What the standard library documents of the reordering.\<close>

definition nth_selector :: "selector \<Rightarrow> bool" where
  "nth_selector sel \<longleftrightarrow>
     (\<forall>xs k. k < length xs \<longrightarrow>
        mset (sel xs k) = mset xs \<and> (\<forall>x \<in> set (take k (sel xs k)). x \<le> sel xs k ! k) \<and>
        (\<forall>x \<in> set (drop (k + 1) (sel xs k)). sel xs k ! k \<le> x))"

lemma nth_selector_sort: "nth_selector (\<lambda>xs k. sort xs)"
proof -
  have "\<forall>x \<in> set (take k (sort xs)). x \<le> sort xs ! k" "\<forall>x \<in> set (drop (k + 1) (sort xs)). sort xs ! k \<le> x"
    if "k < length xs" for k and xs :: "u32 list"
  proof -
    have "sort xs = take k (sort xs) @ sort xs ! k # drop (k + 1) (sort xs)"
      using that id_take_nth_drop [of k "sort xs"] by simp
    then have "sorted (take k (sort xs) @ sort xs ! k # drop (k + 1) (sort xs))" by (metis sorted_sort)
    then show "\<forall>x \<in> set (take k (sort xs)). x \<le> sort xs ! k" "\<forall>x \<in> set (drop (k + 1) (sort xs)). sort xs ! k \<le> x"
      by (simp_all add: sorted_append)
  qed
  then show ?thesis by (simp add: nth_selector_def)
qed

lemma select_nth_sort:
  assumes sel: "nth_selector sel" and k: "k < length xs"
  obtains right where "select_nth_unstable sel xs k = Some (sort xs ! k, right)" "sort right = drop (k + 1) (sort xs)"
    "length right = length xs - k - 1"
proof -
  let ?ys = "sel xs k"
  let ?a = "sort (take k ?ys)" and ?c = "sort (drop (k + 1) ?ys)"
  have s: "mset ?ys = mset xs" "\<forall>x \<in> set (take k ?ys). x \<le> ?ys ! k" "\<forall>x \<in> set (drop (k + 1) ?ys). ?ys ! k \<le> x"
    using sel k unfolding nth_selector_def by blast+
  have l: "length ?ys = length xs" using s(1) by (metis size_mset)
  have d: "?ys = take k ?ys @ ?ys ! k # drop (k + 1) ?ys" using id_take_nth_drop [of k ?ys] k l by simp
  have "x \<le> y" if "x \<in> set (take k ?ys)" "y \<in> set (drop (k + 1) ?ys)" for x y
    using s(2,3) that order_trans by blast
  then have "sorted (?a @ ?ys ! k # ?c)" using s(2,3) by (simp add: sorted_append)
  moreover have "mset (?a @ ?ys ! k # ?c) = mset (take k ?ys @ ?ys ! k # drop (k + 1) ?ys)" by simp
  then have "mset (?a @ ?ys ! k # ?c) = mset xs" by (simp only: d [symmetric] s(1))
  ultimately have e: "sort xs = ?a @ ?ys ! k # ?c" by (intro properties_for_sort) simp_all
  have la: "length ?a = k" using k l by simp
  have "sort xs ! k = ?ys ! k" "drop (k + 1) (sort xs) = ?c" unfolding e using la by (simp_all add: nth_append)
  then show thesis using k l by (intro that [of "drop (k + 1) ?ys"]) (simp_all add: select_nth_unstable_def Let_def)
qed

lemma fit_coord_sort:
  assumes "nth_selector sel" "lo < hi" "hi < length coord"
  shows "fit_coord fo sel qc_lo qc_span lo hi coord = Some (fit_pair fo qc_lo qc_span (sort coord ! lo) (sort coord ! hi))"
proof -
  obtain right where r: "select_nth_unstable sel coord lo = Some (sort coord ! lo, right)"
    "sort right = drop (lo + 1) (sort coord)" "length right = length coord - lo - 1"
    using select_nth_sort [OF assms(1), of lo coord] assms(2,3) by auto
  have k: "hi - lo - 1 < length right" using assms(2,3) r(3) by simp
  obtain r2 where "select_nth_unstable sel right (hi - lo - 1) = Some (sort right ! (hi - lo - 1), r2)"
    by (rule select_nth_sort [OF assms(1) k])
  moreover have "sort right ! (hi - lo - 1) = sort coord ! hi" using assms(2,3) by (simp add: r(2))
  ultimately show ?thesis by (simp add: fit_coord_def r(1))
qed

section \<open>The scatter is a transpose\<close>

lemma foldl_update_other:
  "(\<forall>p \<in> set ps. pos p \<noteq> k) \<Longrightarrow> foldl (\<lambda>b p. b[pos p := val p]) b ps ! k = b ! k"
  by (induction ps arbitrary: b) simp_all

lemma length_foldl_update [simp]: "length (foldl (\<lambda>b p. b[pos p := val p]) b ps) = length b"
  by (induction ps arbitrary: b) simp_all

lemma foldl_update_at:
  "p \<in> set ps \<Longrightarrow> inj_on pos (set ps) \<Longrightarrow> distinct ps \<Longrightarrow> pos p < length b \<Longrightarrow>
    foldl (\<lambda>b p. b[pos p := val p]) b ps ! pos p = val p"
proof (induction ps arbitrary: b)
  case (Cons q ps)
  then show ?case
  proof (cases "p = q")
    case True
    then have "\<forall>r \<in> set ps. pos r \<noteq> pos p" using Cons.prems(2,3) by (auto simp: inj_on_def)
    then show ?thesis using True Cons.prems(4) by (simp add: foldl_update_other)
  qed simp
qed simp

lemma scatter_column:
  assumes "c < tile" "length rotated = n * dim" "d0 + tile \<le> dim"
  shows "take n (drop (c * n) (scatter_tile rotated n dim d0 tile (replicate (tile * n) 0)))
    = map (\<lambda>i. f32_sort_key (rotated ! (i * dim + (d0 + c)))) [0..<n]"
proof -
  let ?ps = "concat (map (\<lambda>i. map (\<lambda>c. (i, c)) [0..<tile]) [0..<n])"
  let ?pos = "\<lambda>p. snd p * n + fst p" and ?val = "\<lambda>p. f32_sort_key (take tile (drop (fst p * dim + d0) rotated) ! snd p)"
  let ?b = "replicate (tile * n) 0"
  have e: "scatter_tile rotated n dim d0 tile ?b = foldl (\<lambda>b p. b[?pos p := ?val p]) ?b ?ps"
    unfolding scatter_tile_def Let_def foldl_concat_map [symmetric] foldl_map_step by simp
  have ps: "distinct ?ps"
    by (rule distinct_concat) (use assms(1) in \<open>auto simp: distinct_map inj_on_def\<close>)
  have set: "set ?ps = {..<n} \<times> {..<tile}" by auto
  have inj: "inj_on ?pos (set ?ps)"
    unfolding set
  proof (rule inj_onI)
    fix p q
    assume "p \<in> {..<n} \<times> {..<tile}" "q \<in> {..<n} \<times> {..<tile}" and e: "?pos p = ?pos q"
    then have "fst p < n" "fst q < n" by auto
    then show "p = q" using digit_unique [OF _ _ e] by (simp add: prod_eq_iff)
  qed
  have fit: "c * n + n \<le> tile * n" using mult_le_mono1 [of "Suc c" tile n] assms(1) by (simp add: add.commute)
  show ?thesis
  proof (rule nth_equalityI)
    show "length (take n (drop (c * n) (scatter_tile rotated n dim d0 tile ?b)))
        = length (map (\<lambda>i. f32_sort_key (rotated ! (i * dim + (d0 + c)))) [0..<n])"
      unfolding e using fit by simp
    fix i
    assume "i < length (take n (drop (c * n) (scatter_tile rotated n dim d0 tile ?b)))"
    then have i: "i < n" by simp
    have mem: "(i, c) \<in> set ?ps" unfolding set using i assms(1) by simp
    have lt: "?pos (i, c) < length ?b" using i fit by simp
    note foldl_update_at [where val = ?val, OF mem inj ps lt]
    moreover have "i * dim + (d0 + c) < length rotated"
      using mult_le_mono1 [of "Suc i" n dim] i assms by simp
    ultimately show "take n (drop (c * n) (scatter_tile rotated n dim d0 tile ?b)) ! i
        = map (\<lambda>i. f32_sort_key (rotated ! (i * dim + (d0 + c)))) [0..<n] ! i"
      unfolding e using i assms(1) fit by (simp add: add.assoc)
  qed
qed

section \<open>Every column, however the tiles fall\<close>

lemma upt_split: "a \<le> b \<Longrightarrow> b \<le> c \<Longrightarrow> [a..<c] = [a..<b] @ [b..<c]"
  using upt_add_eq_append [of a b "c - b"] by simp

lemma map_add_from: "map (\<lambda>k. a + k) [0..<b] = [a..<a + b]"
  by (rule nth_equalityI) simp_all

lemma concat_tiles:
  assumes "0 < c"
  shows "concat (map (\<lambda>(i, ch). map (\<lambda>k. i * c + k) [0..<length ch]) (enumerate 0 (par_chunks c xs))) = [0..<length xs]"
proof -
  let ?n = "length xs"
  let ?m = "(?n + c - 1) div c"
  have "concat (map (\<lambda>i. map (\<lambda>k. i * c + k) [0..<min c (?n - i * c)]) [0..<m]) = [0..<min (m * c) ?n]" for m
  proof (induction m)
    case (Suc m)
    have "[0..<min (Suc m * c) ?n] = [0..<min (m * c) ?n] @ [min (m * c) ?n..<min (Suc m * c) ?n]"
      by (rule upt_split) (simp_all add: min_def)
    moreover have "map (\<lambda>k. m * c + k) [0..<min c (?n - m * c)] = [min (m * c) ?n..<min (Suc m * c) ?n]"
      unfolding map_add_from by (cases "m * c \<le> ?n") (auto simp: min_def add.commute)
    ultimately show ?case using Suc by simp
  qed simp
  moreover have "?n \<le> ?m * c"
    using div_mult_mod_eq [of "?n + c - 1" c] mod_less_divisor [OF assms, of "?n + c - 1"] assms by linarith
  moreover have "map (\<lambda>(i, ch). map (\<lambda>k. i * c + k) [0..<length ch]) (enumerate 0 (par_chunks c xs))
      = map (\<lambda>i. map (\<lambda>k. i * c + k) [0..<min c (?n - i * c)]) [0..<?m]"
    by (rule nth_equalityI) (simp_all add: par_chunks_def nth_enumerate_eq min.commute)
  ultimately show ?thesis by (simp add: min_absorb2)
qed

lemma tile_size_pos: "0 < tile \<Longrightarrow> 0 < tile_size_from dim workers tile"
  by (induction dim workers tile rule: tile_size_from.induct) (subst tile_size_from.simps, auto)

lemma tile_bound: "(i, ch) \<in> set (enumerate 0 (par_chunks c xs)) \<Longrightarrow> i * c + length ch \<le> length xs \<or> length ch = 0"
  by (auto simp: par_chunks_def in_set_enumerate_eq)

text \<open>The reference: each column sorted.\<close>

definition column_of :: "f32 list \<Rightarrow> nat \<Rightarrow> nat \<Rightarrow> nat \<Rightarrow> u32 list" where
  "column_of rotated n dim d = map (\<lambda>i. f32_sort_key (rotated ! (i * dim + d))) [0..<n]"

lemma those_concat_map:
  assumes "\<And>x. x \<in> set xs \<Longrightarrow> f x = Some (map g (h x))"
  shows "map_option concat (those (map f xs)) = Some (map g (concat (map h xs)))"
proof -
  have "those (map f xs) = those (map (\<lambda>x. Some (map g (h x))) xs)" using assms by (intro arg_cong [where f = those]) simp
  also have "\<dots> = Some (map (\<lambda>x. map g (h x)) xs)" by (rule those_map_Some)
  finally show ?thesis by (simp add: map_concat o_def)
qed

theorem compute_tqplus_columns:
  assumes sel: "nth_selector sel" and len: "length rotated = n * dim"
    and beta: "beta_new (d_div fo (d_sub fo (d_of_usize fo dim) f64_one) f64_two) (d_div fo (d_sub fo (d_of_usize fo dim) f64_one) f64_two) = Some beta"
    and anchor: "tqplus_anchor fo beta centroids = (p_lo, p_hi, qc_lo, qc_hi)"
    and lo: "lo = d_to_usize fo (d_mul fo (d_of_usize fo n) p_lo)" "lo + 1 < n"
    and hi: "hi = max (min (d_to_usize fo (d_mul fo (d_of_usize fo n) p_hi)) (n - 1)) (lo + 1)"
  defines "pair \<equiv> \<lambda>d. fit_pair fo qc_lo (f_sub fo qc_hi qc_lo) (sort (column_of rotated n dim d) ! lo) (sort (column_of rotated n dim d) ! hi)"
  shows "compute_tqplus_calibration fo beta_new sel threads rotated n dim centroids
    = Some (map (\<lambda>d. fst (pair d)) [0..<dim], map (\<lambda>d. snd (pair d)) [0..<dim])"
proof -
  define ts where "ts = tile_size_from dim (max threads 1) 128"
  have ts: "0 < ts" unfolding ts_def by (rule tile_size_pos) simp
  let ?chunks = "enumerate 0 (par_chunks ts (replicate dim f32_zero))"
  let ?fit = "\<lambda>(tile_idx, ch). fit_tile fo sel qc_lo (f_sub fo qc_hi qc_lo) lo hi rotated n dim (tile_idx * ts) (length ch)"
  let ?at = "\<lambda>(i, ch). map (\<lambda>k. i * ts + k) [0..<length ch]"
  have h: "lo < hi" "hi < n" using lo(2) hi by auto
  have "?fit x = Some (map pair (?at x))" if x: "x \<in> set ?chunks" for x
  proof -
    obtain i ch where ic: "x = (i, ch)" by force
    have b: "i * ts + length ch \<le> dim \<or> length ch = 0" using tile_bound [of i ch ts "replicate dim f32_zero"] x ic by simp
    have "fit_coord fo sel qc_lo (f_sub fo qc_hi qc_lo) lo hi
        (take n (drop (c * n) (scatter_tile rotated n dim (i * ts) (length ch) (replicate (length ch * n) 0)))) = Some (pair (i * ts + c))"
      if c: "c < length ch" for c
    proof -
      have d: "i * ts + length ch \<le> dim" using b c by auto
      have "hi < length (column_of rotated n dim (i * ts + c))" using h(2) by (simp add: column_of_def)
      then show ?thesis
        unfolding scatter_column [OF c len d] column_of_def [symmetric] pair_def by (rule fit_coord_sort [OF sel h(1)])
    qed
    then have "map (\<lambda>c. fit_coord fo sel qc_lo (f_sub fo qc_hi qc_lo) lo hi
        (take n (drop (c * n) (scatter_tile rotated n dim (i * ts) (length ch) (replicate (length ch * n) 0))))) [0..<length ch]
      = map (\<lambda>c. Some (pair (i * ts + c))) [0..<length ch]" by (intro map_cong) simp_all
    then show ?thesis by (simp add: ic fit_tile_def those_map_Some o_def del: map_eq_conv)
  qed
  then have "map_option concat (those (map ?fit ?chunks)) = Some (map pair [0..<dim])"
    by (subst those_concat_map [where g = pair and h = ?at]) (simp_all only: concat_tiles [OF ts] length_replicate)
  then obtain tiles where t: "those (map ?fit ?chunks) = Some tiles" "concat tiles = map pair [0..<dim]" by auto
  show ?thesis
    unfolding compute_tqplus_calibration_def Let_def beta bind.bind_lunit anchor prod.case lo(1) [symmetric] hi [symmetric]
      ts_def [symmetric] t by (simp add: o_def)
qed

lemma length_rotate_batch:
  assumes "wf_rotation rot" "r_dim rot = dim" "length vectors = n * dim"
  shows "length (snd (rotate_batch_into cpu fo rot vectors n dim)) = n * dim"
proof -
  have "length (row_slice dim i vectors) = dim" if "i < n" for i
    using mult_le_mono1 [of "Suc i" n dim] that assms(3) by (simp add: row_slice_def)
  then have "\<forall>xs \<in> set (map snd (map (\<lambda>i. rotate_row cpu fo rot (row_slice dim i vectors)) [0..<n])). length xs = dim"
    using assms by (auto simp: rotate_row_def Let_def length_apply_scaled_into)
  then have "map length (map snd (map (\<lambda>i. rotate_row cpu fo rot (row_slice dim i vectors)) [0..<n])) = replicate n dim"
    by (intro replicate_eqI) auto
  then show ?thesis unfolding rotate_batch_into_def Let_def snd_conv length_concat by (simp only: sum_list_replicate of_nat_id mult.commute)
qed

end
