(* ===== verification/IndexState.thy ===== *)
theory IndexState
  imports Cache Calibration CursorState
begin

text \<open>
  \<open>TurboQuantIndex\<close> (\<open>lib.rs\<close>): its fields, its constructors and its reads. An index holds its rows as
  packed bit planes, as the search cache, or both; \<open>represents\<close> says which rows those are. A mapped
  index is an index with the flag \<open>ix_mapped\<close>: it takes no mutation (its reads go through the mapped
  image). The scratch buffer of the encoder and the lazily computed plane statistics carry no
  observable state and are left out.
\<close>

section \<open>The state\<close>

text \<open>What the build, the machine and third-party crates provide.\<close>

record 'r env =
  e_target :: target
  e_cpu :: cpu
  e_fo :: float_ops
  e_rng :: "'r rng"
  e_beta :: beta_dist
  e_sel :: selector
  e_threads :: nat

record index =
  ix_dim :: "nat option"
  ix_bit_width :: nat
  ix_n_vectors :: nat
  ix_packed_codes :: "bytes option"
  ix_scales :: "f32 list"
  ix_tqplus_shift :: "f32 list"
  ix_tqplus_scale :: "f32 list"
  ix_rotation :: "rotation option"
  ix_boundaries :: "f32 list option"
  ix_centroids :: "f32 list option"
  ix_blocked :: "cache option"
  ix_mapped :: bool
  ix_sync_cursor :: "sync_cursor option"
  ix_sync_path :: "string option"
  ix_sync_pending :: "nat set"
  ix_sync_fresh :: "nat set"
  ix_sync_capture_buf :: bytes
  ix_sync_capture_at :: "(u32 \<times> u32) list"
  ix_calib_gen :: u64

text \<open>A call either returns or panics; a caught panic leaves the state it unwound to.\<close>

datatype 'a outcome = Returned 'a | Panicked

datatype construct_error =
    CE_BitWidthOutOfRange nat
  | CE_DimNotPositiveMultipleOf8 nat
  | CE_DimTooLarge nat

datatype from_parts_error =
    FP_BitWidthOutOfRange nat
  | FP_DimNotPositiveMultipleOf8 nat
  | FP_DimTooLarge nat
  | FP_PackedCodesSizeOverflow nat nat nat
  | FP_PackedCodesLengthMismatch nat nat
  | FP_ScalesLengthMismatch nat nat
  | FP_TqplusLengthMismatch nat nat
  | FP_TqplusLengthNotDim nat nat
  | FP_InvalidScaleValue nat f32
  | FP_InvalidTqplusShiftValue nat f32
  | FP_InvalidTqplusScaleValue nat f32
  | FP_LazyMustHaveZeroVectors nat
  | FP_LazyMustHaveEmptyPackedCodes nat
  | FP_LazyMustHaveEmptyScales nat
  | FP_LazyMustHaveEmptyTqplus nat

section \<open>Construction\<close>

definition blank_index :: "nat option \<Rightarrow> nat \<Rightarrow> index" where
  "blank_index dim bit_width =
     \<lparr>ix_dim = dim, ix_bit_width = bit_width, ix_n_vectors = 0, ix_packed_codes = Some [], ix_scales = [],
      ix_tqplus_shift = [], ix_tqplus_scale = [], ix_rotation = None, ix_boundaries = None, ix_centroids = None,
      ix_blocked = None, ix_mapped = False, ix_sync_cursor = None, ix_sync_path = None, ix_sync_pending = {},
      ix_sync_fresh = {}, ix_sync_capture_buf = [], ix_sync_capture_at = [], ix_calib_gen = 0\<rparr>"

definition index_new :: "nat \<Rightarrow> nat \<Rightarrow> construct_error + index" where
  "index_new dim bit_width =
     (if \<not> (2 \<le> bit_width \<and> bit_width \<le> 4) then Inl (CE_BitWidthOutOfRange bit_width)
      else if dim = 0 \<or> dim mod 8 \<noteq> 0 then Inl (CE_DimNotPositiveMultipleOf8 dim)
      else if MAX_DIM < dim then Inl (CE_DimTooLarge dim)
      else Inr (blank_index (Some dim) bit_width))"

definition new_lazy :: "nat \<Rightarrow> construct_error + index" where
  "new_lazy bit_width =
     (if \<not> (2 \<le> bit_width \<and> bit_width \<le> 4) then Inl (CE_BitWidthOutOfRange bit_width)
      else Inr (blank_index None bit_width))"

text \<open>\<open>f32::MAX\<close>, 10.0, and the bounds a calibration must keep.\<close>

definition F32_MAX :: f32 where "F32_MAX = 0x7F7FFFFF"
definition f32_ten :: f32 where "f32_ten = 0x41200000"

definition min_tqplus_scale :: "float_ops \<Rightarrow> nat \<Rightarrow> f32" where
  "min_tqplus_scale fo dim =
     f_mul fo (f_div fo (f_mul fo (f_of_usize fo (max dim 1)) MAX_INPUT_MAGNITUDE) F32_MAX) f32_ten"

definition max_tqplus_shift :: "float_ops \<Rightarrow> nat \<Rightarrow> f32" where
  "max_tqplus_shift fo dim =
     f_div fo (f_div fo F32_MAX (f_mul fo (f_of_usize fo (max dim 1)) MAX_INPUT_MAGNITUDE)) f32_ten"

definition find_at :: "('a \<Rightarrow> bool) \<Rightarrow> 'a list \<Rightarrow> (nat \<times> 'a) option" where
  "find_at P xs = find (\<lambda>(i, x). P x) (enumerate 0 xs)"

definition normalize_calibration :: "f32 list \<Rightarrow> f32 list \<Rightarrow> f32 list \<times> f32 list" where
  "normalize_calibration shift scale =
     (if (\<forall>x \<in> set shift. f32_eq x f32_zero) \<and> (\<forall>x \<in> set scale. f32_eq x f32_one) then ([], []) else (shift, scale))"

definition from_parts :: "float_ops \<Rightarrow> nat option \<Rightarrow> nat \<Rightarrow> nat \<Rightarrow> bytes \<Rightarrow> f32 list \<Rightarrow> f32 list \<Rightarrow> f32 list \<Rightarrow>
    from_parts_error + index" where
  "from_parts fo dim bit_width n_vectors packed_codes scales tqplus_shift tqplus_scale =
     (if \<not> (2 \<le> bit_width \<and> bit_width \<le> 4) then Inl (FP_BitWidthOutOfRange bit_width)
      else if length tqplus_shift \<noteq> length tqplus_scale
      then Inl (FP_TqplusLengthMismatch (length tqplus_shift) (length tqplus_scale))
      else case (case dim of
          Some d \<Rightarrow>
            if d = 0 \<or> d mod 8 \<noteq> 0 then Some (FP_DimNotPositiveMultipleOf8 d)
            else if MAX_DIM < d then Some (FP_DimTooLarge d)
            else (case Option.bind (checked_mul (d div 8) bit_width) (\<lambda>x. checked_mul x n_vectors) of
                None \<Rightarrow> Some (FP_PackedCodesSizeOverflow n_vectors d bit_width)
              | Some expected_packed \<Rightarrow>
                  if length packed_codes \<noteq> expected_packed
                  then Some (FP_PackedCodesLengthMismatch expected_packed (length packed_codes))
                  else if length scales \<noteq> n_vectors then Some (FP_ScalesLengthMismatch n_vectors (length scales))
                  else if tqplus_shift \<noteq> [] \<and> length tqplus_shift \<noteq> d then Some (FP_TqplusLengthNotDim (length tqplus_shift) d)
                  else None)
        | None \<Rightarrow>
            if n_vectors \<noteq> 0 then Some (FP_LazyMustHaveZeroVectors n_vectors)
            else if packed_codes \<noteq> [] then Some (FP_LazyMustHaveEmptyPackedCodes (length packed_codes))
            else if scales \<noteq> [] then Some (FP_LazyMustHaveEmptyScales (length scales))
            else if tqplus_shift \<noteq> [] then Some (FP_LazyMustHaveEmptyTqplus (length tqplus_shift))
            else None) of
        Some e \<Rightarrow> Inl e
      | None \<Rightarrow>
        (case find_at (\<lambda>s. \<not> f32_is_finite s \<or> f32_lt s f32_zero \<or> f32_gt s MAX_VECTOR_SCALE) scales of
           Some (i, s) \<Rightarrow> Inl (FP_InvalidScaleValue i s)
         | None \<Rightarrow>
        (case find_at (\<lambda>v. \<not> f32_is_finite v \<or> f32_gt (f32_abs v) (max_tqplus_shift fo (length tqplus_shift))) tqplus_shift of
           Some (i, v) \<Rightarrow> Inl (FP_InvalidTqplusShiftValue i v)
         | None \<Rightarrow>
        (case find_at (\<lambda>v. \<not> f32_is_finite v \<or> f32_lt v (min_tqplus_scale fo (length tqplus_scale))) tqplus_scale of
           Some (i, v) \<Rightarrow> Inl (FP_InvalidTqplusScaleValue i v)
         | None \<Rightarrow>
             let (shift, scale) = normalize_calibration tqplus_shift tqplus_scale
             in Inr ((blank_index dim bit_width)\<lparr>ix_n_vectors := n_vectors, ix_packed_codes := Some packed_codes, ix_scales := scales,
                       ix_tqplus_shift := shift, ix_tqplus_scale := scale\<rparr>)))))"

section \<open>Reads\<close>

text \<open>The packed rows: the materialized ones, or rebuilt from the cache.\<close>

definition index_packed :: "'r env \<Rightarrow> index \<Rightarrow> bytes" where
  "index_packed e ix =
     (case ix_packed_codes ix of
        Some p \<Rightarrow> p
      | None \<Rightarrow>
          (case (ix_dim ix, ix_blocked ix) of
             (Some dim, Some cache) \<Rightarrow>
               if ix_n_vectors ix = 0 then []
               else let (_, nbg, _) = blocked_geometry (ix_n_vectors ix) (ix_bit_width ix) dim;
                        seq = cache_to_seq (e_target e) (ix_n_vectors ix) (ix_bit_width ix) nbg cache
                    in seq_to_packed seq (ix_n_vectors ix) (ix_bit_width ix) dim
           | _ \<Rightarrow> []))"

definition materialize_packed :: "'r env \<Rightarrow> index \<Rightarrow> index" where
  "materialize_packed e ix = ix\<lparr>ix_packed_codes := Some (index_packed e ix)\<rparr>"

definition packed_ready :: "index \<Rightarrow> bool" where
  "packed_ready ix \<longleftrightarrow> ix_packed_codes ix \<noteq> None"

text \<open>\<open>OnceLock::set\<close>, and the two seedings; \<open>None\<close> is a panic of what computes the value.\<close>

definition once_set :: "'a option \<Rightarrow> 'a \<Rightarrow> 'a option" where
  "once_set lock v = (case lock of Some x \<Rightarrow> Some x | None \<Rightarrow> Some v)"

definition seed_rotation :: "'r env \<Rightarrow> nat \<Rightarrow> index \<Rightarrow> index option" where
  "seed_rotation e dim ix =
     (case ix_rotation ix of
        Some _ \<Rightarrow> Some ix
      | None \<Rightarrow> map_option (\<lambda>r. ix\<lparr>ix_rotation := Some r\<rparr>) (rotation_new (e_fo e) (e_rng e) dim))"

definition seed_codebook :: "'r env \<Rightarrow> nat \<Rightarrow> index \<Rightarrow> index option" where
  "seed_codebook e dim ix =
     (if ix_boundaries ix = None \<or> ix_centroids ix = None
      then map_option (\<lambda>(b, c). ix\<lparr>ix_boundaries := once_set (ix_boundaries ix) b, ix_centroids := once_set (ix_centroids ix) c\<rparr>)
             (codebook (e_fo e) (e_beta e) (ix_bit_width ix) dim)
      else Some ix)"

text \<open>\<open>prepare\<close>: the rotation, the centroids alone, and the cache.\<close>

definition prepare :: "'r env \<Rightarrow> index \<Rightarrow> index \<times> unit outcome" where
  "prepare e ix =
     (case ix_dim ix of
        None \<Rightarrow> (ix, Returned ())
      | Some dim \<Rightarrow>
          if ix_n_vectors ix = 0 then (ix, Returned ())
          else (case seed_rotation e dim ix of
              None \<Rightarrow> (ix, Panicked)
            | Some ix \<Rightarrow>
                (case (case ix_centroids ix of
                         Some _ \<Rightarrow> Some ix
                       | None \<Rightarrow> map_option (\<lambda>(_, c). ix\<lparr>ix_centroids := Some c\<rparr>)
                                  (codebook (e_fo e) (e_beta e) (ix_bit_width ix) dim)) of
                   None \<Rightarrow> (ix, Panicked)
                 | Some ix \<Rightarrow>
                     (if ix_mapped ix \<or> ix_blocked ix \<noteq> None then ix
                      else (materialize_packed e ix)\<lparr>ix_blocked :=
                             Some (cache_build (e_target e) (index_packed e ix) (ix_n_vectors ix) (ix_bit_width ix) dim)\<rparr>,
                      Returned ()))))"

definition calibrated_pair :: "index \<Rightarrow> (f32 list \<times> f32 list) option" where
  "calibrated_pair ix = (if ix_tqplus_shift ix = [] then None else Some (ix_tqplus_shift ix, ix_tqplus_scale ix))"

datatype calibration_state = Uncalibrated | Calibrated

definition index_calibration_state :: "index \<Rightarrow> calibration_state" where
  "index_calibration_state ix = (if ix_tqplus_shift ix = [] then Uncalibrated else Calibrated)"

text \<open>One row's code bytes, from whichever layout is live; \<open>None\<close> is an \<open>expect\<close>.\<close>

definition seq_row :: "'r env \<Rightarrow> index \<Rightarrow> nat \<Rightarrow> bytes option" where
  "seq_row e ix idx =
     (case ix_dim ix of
        None \<Rightarrow> None
      | Some dim \<Rightarrow>
          let packed_row = dim * ix_bit_width ix div 8;
              (_, row_bytes, _) = blocked_geometry 1 (ix_bit_width ix) dim
          in (case ix_packed_codes ix of
                Some packed \<Rightarrow>
                  map_option (\<lambda>r. extract_codes_flat r 1 (ix_bit_width ix) dim)
                    (get_range packed (idx * packed_row) ((idx + 1) * packed_row))
              | None \<Rightarrow> map_option (\<lambda>cache. cache_row (e_target e) (ix_bit_width ix) row_bytes cache idx) (ix_blocked ix)))"

definition codes_blocked_seq :: "'r env \<Rightarrow> index \<Rightarrow> bytes" where
  "codes_blocked_seq e ix =
     (case ix_dim ix of
        None \<Rightarrow> []
      | Some dim \<Rightarrow>
          if ix_n_vectors ix = 0 then []
          else (case ix_blocked ix of
              Some cache \<Rightarrow>
                let (_, nbg, _) = blocked_geometry (ix_n_vectors ix) (ix_bit_width ix) dim
                in cache_to_seq (e_target e) (ix_n_vectors ix) (ix_bit_width ix) nbg cache
            | None \<Rightarrow> repack_seq (index_packed e ix) (ix_n_vectors ix) (ix_bit_width ix) dim))"

section \<open>The rows an index holds\<close>

text \<open>A row is its packed codes and its scale.\<close>

type_synonym row = "bytes \<times> f32"

definition holds_rows :: "target \<Rightarrow> nat \<Rightarrow> nat \<Rightarrow> bytes list \<Rightarrow> bytes option \<Rightarrow> cache option \<Rightarrow> bool" where
  "holds_rows t bits dim rows packed blocked \<longleftrightarrow>
     (packed \<noteq> None \<or> blocked \<noteq> None) \<and>
     (\<forall>p. packed = Some p \<longrightarrow> p = concat rows) \<and>
     (\<forall>c. blocked = Some c \<longrightarrow> wf_cache t bits dim (length rows) c \<and>
        (\<forall>v < length rows. cache_row t bits (dim div codes_per_byte bits) c v = extract_row (rows ! v) 0 bits dim))"

text \<open>The caches derived from the dimension hold what they are derived from.\<close>

definition codec_ok :: "'r env \<Rightarrow> index \<Rightarrow> bool" where
  "codec_ok e ix \<longleftrightarrow>
     (\<forall>r. ix_rotation ix = Some r \<longrightarrow> (\<exists>dim. ix_dim ix = Some dim \<and> rotation_new (e_fo e) (e_rng e) dim = Some r)) \<and>
     (\<forall>b. ix_boundaries ix = Some b \<longrightarrow>
        (\<exists>dim c. ix_dim ix = Some dim \<and> codebook (e_fo e) (e_beta e) (ix_bit_width ix) dim = Some (b, c))) \<and>
     (\<forall>c. ix_centroids ix = Some c \<longrightarrow>
        (\<exists>dim b. ix_dim ix = Some dim \<and> codebook (e_fo e) (e_beta e) (ix_bit_width ix) dim = Some (b, c)))"

definition calibration_ok :: "index \<Rightarrow> bool" where
  "calibration_ok ix \<longleftrightarrow>
     (case ix_dim ix of
        None \<Rightarrow> ix_tqplus_shift ix = [] \<and> ix_tqplus_scale ix = []
      | Some dim \<Rightarrow> length (ix_tqplus_scale ix) = length (ix_tqplus_shift ix) \<and> length (ix_tqplus_shift ix) \<in> {0, dim})"

definition represents :: "'r env \<Rightarrow> index \<Rightarrow> row list \<Rightarrow> bool" where
  "represents e ix rows \<longleftrightarrow>
     ix_n_vectors ix = length rows \<and> ix_scales ix = map snd rows \<and> ix_bit_width ix \<in> {2, 3, 4} \<and> \<not> ix_mapped ix \<and>
     codec_ok e ix \<and> calibration_ok ix \<and>
     (case ix_dim ix of
        None \<Rightarrow> rows = [] \<and> ix_packed_codes ix = Some [] \<and> ix_blocked ix = None
      | Some dim \<Rightarrow> geom_ok (ix_bit_width ix) dim \<and> dim \<le> MAX_DIM \<and>
          (\<forall>r \<in> set rows. length (fst r) = ix_bit_width ix * (dim div 8)) \<and>
          holds_rows (e_target e) (ix_bit_width ix) dim (map fst rows) (ix_packed_codes ix) (ix_blocked ix))"

end
