(* ===== verification/IndexFacts.thy ===== *)
theory IndexFacts
  imports IndexState
begin

text \<open>
  What an index that represents its rows returns from its reads, and that its constructors produce
  such an index.
\<close>

section \<open>Rows laid end to end\<close>

lemma concat_row_nth:
  assumes "\<forall>x \<in> set xs. length x = w" "i < length xs" "k < w"
  shows "concat xs ! (i * w + k) = xs ! i ! k"
  using assms
proof (induction xs arbitrary: i)
  case (Cons x xs)
  then show ?case by (cases i) (simp_all add: nth_append add.assoc)
qed simp

lemma length_concat_rows: "\<forall>x \<in> set xs. length x = w \<Longrightarrow> length (concat xs) = length xs * w"
  by (induction xs) simp_all

lemma slice_concat_rows:
  assumes "\<forall>x \<in> set xs. length x = w" "i < length xs"
  shows "take w (drop (i * w) (concat xs)) = xs ! i"
proof (rule nth_equalityI)
  have b: "i * w + w \<le> length (concat xs)"
    unfolding length_concat_rows [OF assms(1)] using mult_le_mono1 [of "Suc i" "length xs" w] assms(2) by simp
  then show l: "length (take w (drop (i * w) (concat xs))) = length (xs ! i)" using assms by simp
  fix k
  assume "k < length (take w (drop (i * w) (concat xs)))"
  then have k: "k < w" by simp
  then show "take w (drop (i * w) (concat xs)) ! k = xs ! i ! k"
    using concat_row_nth [OF assms k] b by simp
qed

lemma extract_concat_row:
  assumes "\<forall>x \<in> set rows. length x = bits * (dim div 8)" "v < length rows"
  shows "extract_row (concat rows) (v * (bits * (dim div 8))) bits dim = extract_row (rows ! v) 0 bits dim"
  by (rule extract_row_cong) (simp add: concat_row_nth [OF assms])

section \<open>The packed rows from the stored blocks\<close>

lemma seq_to_packed_cong:
  assumes b: "bits \<in> {2, 3, 4}" "dim mod 8 = 0"
    and eq: "\<And>v. v < n \<Longrightarrow> stored_row a (dim div codes_per_byte bits) v = stored_row b (dim div codes_per_byte bits) v"
  shows "seq_to_packed a n bits dim = seq_to_packed b n bits dim"
proof -
  let ?nbg = "dim div codes_per_byte bits" and ?gpo = "8 div codes_per_byte bits"
  have "unpack_byte a v bits ?nbg p ob = unpack_byte b v bits ?nbg p ob" if v: "v < n" and ob: "ob < dim div 8" for v p ob
  proof -
    have "a ! ((v div BLOCK * ?nbg + (ob * ?gpo + q)) * BLOCK + v mod BLOCK)
        = b ! ((v div BLOCK * ?nbg + (ob * ?gpo + q)) * BLOCK + v mod BLOCK)" if q: "q < ?gpo" for q
    proof -
      have "Suc ob * ?gpo \<le> dim div 8 * ?gpo" using ob by (intro mult_le_mono1) simp
      then have g: "ob * ?gpo + q < ?nbg" using q unfolding groups_of_dim [OF b] by simp
      show ?thesis using arg_cong [OF eq [OF v], of "\<lambda>r. r ! (ob * ?gpo + q)"] by (simp only: stored_row_nth [OF g])
    qed
    then show ?thesis unfolding unpack_byte_def Let_def by (intro foldl_cong refl) simp
  qed
  then show ?thesis unfolding seq_to_packed_def unpack_row_def by (intro arg_cong [where f = concat] map_cong refl) simp
qed

lemma stored_row_repack:
  assumes b: "bits \<in> {2, 3, 4}" "dim mod 8 = 0" and v: "v < n"
  shows "stored_row (repack_seq packed n bits dim) (dim div codes_per_byte bits) v = extract_row packed (v * (bits * (dim div 8))) bits dim"
proof (rule nth_equalityI)
  let ?nbg = "dim div codes_per_byte bits" and ?gpo = "8 div codes_per_byte bits"
  show "length (stored_row (repack_seq packed n bits dim) ?nbg v) = length (extract_row packed (v * (bits * (dim div 8))) bits dim)"
    by (simp add: length_extract_row [OF b])
  fix g
  assume "g < length (stored_row (repack_seq packed n bits dim) ?nbg v)"
  then have g: "g < dim div 8 * ?gpo" by (simp add: groups_of_dim [OF b])
  then obtain k q where k: "k < dim div 8" and q: "q < ?gpo" and gk: "g = k * ?gpo + q" by (rule split_index)
  have gn: "k * ?gpo + q < ?nbg" using g by (simp add: gk groups_of_dim [OF b])
  have "extract_row packed (v * (bits * (dim div 8))) bits dim ! (k * ?gpo + q)
      = extract_chunk packed (v * (bits * (dim div 8))) (dim div 8) bits k ! q"
    unfolding extract_row_def
    by (subst nth_concat_const [where k = ?gpo]) (simp_all add: k q length_extract_chunk [OF b(1)])
  then show "stored_row (repack_seq packed n bits dim) ?nbg v ! g = extract_row packed (v * (bits * (dim div 8))) bits dim ! g"
    using repack_seq_nth [OF b v k q, of packed] by (simp only: gk stored_row_nth [OF gn])
qed

lemma cache_rebuilds_packed:
  assumes g: "geom_ok bits dim" and c: "wf_cache t bits dim (length rows) c"
    and rows: "\<forall>v < length rows. cache_row t bits (dim div codes_per_byte bits) c v = extract_row (rows ! v) 0 bits dim"
    and len: "\<forall>x \<in> set rows. length x = bits * (dim div 8)"
  shows "seq_to_packed (cache_to_seq t (length rows) bits (dim div codes_per_byte bits) c) (length rows) bits dim = concat rows"
proof -
  note gd = geom_okD [OF g]
  let ?n = "length rows" and ?nbg = "dim div codes_per_byte bits"
  have "stored_row (cache_to_seq t ?n bits ?nbg c) ?nbg v = stored_row (repack_seq (concat rows) ?n bits dim) ?nbg v" if v: "v < ?n" for v
    using cache_to_seq_rows [OF g c, of v] rows v nblk_bound [of ?n]
      stored_row_repack [OF gd(1,2) v, of "concat rows"] extract_concat_row [OF len v] by simp
  then have "seq_to_packed (cache_to_seq t ?n bits ?nbg c) ?n bits dim = seq_to_packed (repack_seq (concat rows) ?n bits dim) ?n bits dim"
    by (rule seq_to_packed_cong [OF gd(1,2)])
  also have "\<dots> = concat rows" by (rule seq_to_packed_repack [OF gd(1,2) length_concat_rows [OF len]])
  finally show ?thesis .
qed

section \<open>Reading an index\<close>

lemma representsD:
  assumes "represents e ix rows"
  shows "ix_n_vectors ix = length rows" "ix_scales ix = map snd rows" "ix_bit_width ix \<in> {2, 3, 4}" "\<not> ix_mapped ix"
    "codec_ok e ix" "calibration_ok ix"
    and "ix_dim ix = None \<Longrightarrow> rows = [] \<and> ix_packed_codes ix = Some [] \<and> ix_blocked ix = None"
    and "ix_dim ix = Some dim \<Longrightarrow> geom_ok (ix_bit_width ix) dim"
    and "ix_dim ix = Some dim \<Longrightarrow> dim \<le> MAX_DIM"
    and "ix_dim ix = Some dim \<Longrightarrow> \<forall>x \<in> set (map fst rows). length x = ix_bit_width ix * (dim div 8)"
    and "ix_dim ix = Some dim \<Longrightarrow> holds_rows (e_target e) (ix_bit_width ix) dim (map fst rows) (ix_packed_codes ix) (ix_blocked ix)"
  using assms unfolding represents_def by (auto split: option.splits)

lemma representsI:
  assumes "ix_n_vectors ix = length rows" "ix_scales ix = map snd rows" "ix_bit_width ix \<in> {2, 3, 4}" "\<not> ix_mapped ix"
    and "codec_ok e ix" "calibration_ok ix" "ix_dim ix = Some dim" "geom_ok (ix_bit_width ix) dim" "dim \<le> MAX_DIM"
    and "\<forall>x \<in> set (map fst rows). length x = ix_bit_width ix * (dim div 8)"
    and "holds_rows (e_target e) (ix_bit_width ix) dim (map fst rows) (ix_packed_codes ix) (ix_blocked ix)"
  shows "represents e ix rows"
  using assms unfolding represents_def by auto

theorem index_packed_rows:
  assumes "represents e ix rows"
  shows "index_packed e ix = concat (map fst rows)"
proof (cases "ix_dim ix")
  case None
  then show ?thesis using representsD(7) [OF assms] by (simp add: index_packed_def)
next
  case (Some dim)
  note g = representsD(8) [OF assms Some] and len = representsD(10) [OF assms Some]
  have h: "holds_rows (e_target e) (ix_bit_width ix) dim (map fst rows) (ix_packed_codes ix) (ix_blocked ix)"
    by (rule representsD(11) [OF assms Some])
  show ?thesis
  proof (cases "ix_packed_codes ix")
    case None
    then obtain c where c: "ix_blocked ix = Some c" using h by (auto simp: holds_rows_def)
    have w: "wf_cache (e_target e) (ix_bit_width ix) dim (length (map fst rows)) c"
      and r: "\<forall>v < length (map fst rows). cache_row (e_target e) (ix_bit_width ix) (dim div codes_per_byte (ix_bit_width ix)) c v
        = extract_row (map fst rows ! v) 0 (ix_bit_width ix) dim"
      using h c by (auto simp: holds_rows_def)
    show ?thesis
      using cache_rebuilds_packed [OF g w r len] representsD(1) [OF assms]
      by (auto simp: index_packed_def None Some c blocked_geometry_def Let_def)
  next
    case (Some p)
    then show ?thesis using h by (simp add: index_packed_def holds_rows_def)
  qed
qed

lemma represents_materialize:
  assumes "represents e ix rows"
  shows "represents e (materialize_packed e ix) rows"
  using assms index_packed_rows [OF assms]
  by (auto simp: represents_def materialize_packed_def codec_ok_def calibration_ok_def holds_rows_def split: option.splits)

text \<open>The rows are determined by the index.\<close>

lemma concat_rows_inj:
  assumes "concat xs = concat ys" "length xs = length ys" "\<forall>x \<in> set xs. length x = w" "\<forall>y \<in> set ys. length y = w"
  shows "xs = ys"
  using assms
proof (induction xs arbitrary: ys)
  case (Cons x xs)
  then show ?case by (cases ys) (auto simp: append_eq_append_conv)
qed simp

lemma represents_unique:
  assumes "represents e ix rows" "represents e ix rows'"
  shows "rows = rows'"
proof (cases "ix_dim ix")
  case None
  then show ?thesis using representsD(7) [OF assms(1)] representsD(7) [OF assms(2)] by simp
next
  case (Some dim)
  have "map fst rows = map fst rows'"
    by (rule concat_rows_inj [OF _ _ representsD(10) [OF assms(1) Some] representsD(10) [OF assms(2) Some]])
      (use index_packed_rows [OF assms(1)] index_packed_rows [OF assms(2)] representsD(1) [OF assms(1)] representsD(1) [OF assms(2)] in simp_all)
  moreover have "map snd rows = map snd rows'" using representsD(2) [OF assms(1)] representsD(2) [OF assms(2)] by simp
  ultimately show ?thesis by (metis zip_map_fst_snd)
qed

theorem seq_row_represents:
  assumes rep: "represents e ix rows" and d: "ix_dim ix = Some dim" and v: "v < length rows"
  shows "seq_row e ix v = Some (extract_row (fst (rows ! v)) 0 (ix_bit_width ix) dim)"
proof -
  let ?bits = "ix_bit_width ix"
  note g = geom_okD [OF representsD(8) [OF rep d]] and len = representsD(10) [OF rep d] and h = representsD(11) [OF rep d]
  obtain k where k: "dim = k * 8" using g(3) by blast
  have row: "dim * ?bits div 8 = ?bits * (dim div 8)" by (simp add: k mult.assoc [symmetric])
  show ?thesis
  proof (cases "ix_packed_codes ix")
    case None
    then obtain c where c: "ix_blocked ix = Some c" using h by (auto simp: holds_rows_def)
    then show ?thesis using h v None by (simp add: seq_row_def d holds_rows_def blocked_geometry_def Let_def)
  next
    case (Some p)
    have p: "p = concat (map fst rows)" using h Some by (simp add: holds_rows_def)
    have fit: "v * (?bits * (dim div 8)) + ?bits * (dim div 8) \<le> length p"
      unfolding p length_concat_rows [OF len] using mult_le_mono1 [of "Suc v" "length rows" "?bits * (dim div 8)"] v by simp
    have "get_range p (v * (dim * ?bits div 8)) ((v + 1) * (dim * ?bits div 8)) = Some (fst (rows ! v))"
      using slice_concat_rows [OF len, of v] v fit by (simp add: row get_range_def p slice_def)
    then show ?thesis using Some by (simp add: seq_row_def d extract_one [unfolded One_nat_def] Let_def case_prod_beta)
  qed
qed

lemma length_planes_to_seq:
  assumes "planes_for t bits nbg"
  shows "length (planes_to_seq t sign low bits nbg n) = nblk n * nbg * BLOCK"
proof -
  have "length (planes4_to_seq t sign low nbg n) = nblk n * nbg * BLOCK"
    unfolding planes4_to_seq_def Let_def case_prod_beta
    by (subst length_concat_const [where k = "nbg * BLOCK"], subst length_concat_const [where k = BLOCK]) auto
  moreover have "length (planes_to_seq t sign low 2 nbg n) = nblk n * nbg * BLOCK"
    unfolding planes_to_seq_def Let_def
    by (simp, subst length_concat_const [where k = "nbg * BLOCK"], subst length_concat_const [where k = BLOCK]) auto
  ultimately show ?thesis using planes_for_cases(1) [OF assms] by (auto simp: planes_to_seq_def)
qed

lemma length_cache_to_seq:
  assumes "geom_ok bits dim" "wf_cache t bits dim n c"
  shows "length (cache_to_seq t n bits (dim div codes_per_byte bits) c) = nblk n * (dim div codes_per_byte bits) * BLOCK"
proof (cases "is_planes c")
  case True
  then have "planes_for t bits (dim div codes_per_byte bits)" using assms(2) by (auto simp: wf_cache_def Let_def)
  then show ?thesis using True by (simp add: cache_to_seq_def length_planes_to_seq)
next
  case False
  then have l: "length (bc_data c) = nblk n * (dim div codes_per_byte bits) * BLOCK"
    using assms(2) by (simp add: wf_cache_def region_def Let_def)
  then show ?thesis using False by (simp add: cache_to_seq_def)
qed

lemma length_repack_seq: "length (repack_seq packed n bits dim) = nblk n * (dim div codes_per_byte bits) * BLOCK"
  by (simp add: repack_seq_def blocked_geometry_def Let_def length_pack_blocked_sequential)

lemma stored_row_repack_pad:
  assumes "n \<le> v" "v < nblk n * BLOCK"
  shows "stored_row (repack_seq packed n bits dim) (dim div codes_per_byte bits) v = replicate (dim div codes_per_byte bits) 0"
proof (rule nth_equalityI)
  fix g
  assume "g < length (stored_row (repack_seq packed n bits dim) (dim div codes_per_byte bits) v)"
  then have g: "g < dim div codes_per_byte bits" by simp
  have b: "v div BLOCK < (n + BLOCK - 1) div BLOCK" using assms(2) by (simp add: less_mult_imp_div_less)
  have "v div BLOCK * BLOCK + v mod BLOCK = v" by (rule div_mult_mod_eq)
  then show "stored_row (repack_seq packed n bits dim) (dim div codes_per_byte bits) v ! g = replicate (dim div codes_per_byte bits) 0 ! g"
    using pack_blocked_sequential_nth [OF b g, of "v mod BLOCK" n "extract_codes_flat packed n bits dim"] g assms(1)
    by (simp add: stored_row_nth repack_seq_def blocked_geometry_def Let_def)
qed simp

text \<open>The stored blocks do not depend on the layout the index holds.\<close>

lemma codes_blocked_seq_represents:
  assumes rep: "represents e ix rows" and d: "ix_dim ix = Some dim"
  shows "codes_blocked_seq e ix = (if rows = [] then [] else repack_seq (concat (map fst rows)) (length rows) (ix_bit_width ix) dim)"
proof (cases "ix_blocked ix")
  case None
  then show ?thesis using index_packed_rows [OF rep] representsD(1) [OF rep] by (simp add: codes_blocked_seq_def d)
next
  case (Some c)
  let ?bits = "ix_bit_width ix" and ?n = "length rows" and ?p = "concat (map fst rows)"
  let ?nbg = "dim div codes_per_byte ?bits"
  note g = representsD(8) [OF rep d] and len = representsD(10) [OF rep d] and h = representsD(11) [OF rep d]
  note gd = geom_okD [OF g]
  have w: "wf_cache (e_target e) ?bits dim ?n c"
    and r: "v < ?n \<Longrightarrow> cache_row (e_target e) ?bits ?nbg c v = extract_row (fst (rows ! v)) 0 ?bits dim" for v
    using h Some by (auto simp: holds_rows_def)
  have fl: "length (extract_codes_flat ?p ?n ?bits dim) = ?n * ?nbg" by (rule length_extract_codes_flat [OF gd(1,2)])
  have "cache_to_seq (e_target e) ?n ?bits ?nbg c = repack_seq ?p ?n ?bits dim"
  proof (rule stored_rows_eqI)
    show "length (cache_to_seq (e_target e) ?n ?bits ?nbg c) = nblk ?n * ?nbg * BLOCK"
      by (rule length_cache_to_seq [OF g w])
    show "length (repack_seq ?p ?n ?bits dim) = nblk ?n * ?nbg * BLOCK"
      by (rule length_repack_seq)
    fix v
    assume v: "v < nblk ?n * BLOCK"
    show "stored_row (cache_to_seq (e_target e) ?n ?bits ?nbg c) ?nbg v = stored_row (repack_seq ?p ?n ?bits dim) ?nbg v"
    proof (cases "v < ?n")
      case True
      then show ?thesis
        using cache_to_seq_rows [OF g w v] r [OF True] stored_row_repack [OF gd(1,2) True, of ?p]
          extract_concat_row [OF len, of v] by simp
    next
      case False
      then show ?thesis using cache_to_seq_rows [OF g w v] stored_row_repack_pad [of ?n v ?p ?bits dim] v by simp
    qed
  qed
  then show ?thesis using representsD(1) [OF rep] by (simp add: codes_blocked_seq_def d Some blocked_geometry_def Let_def)
qed

section \<open>Constructors\<close>

lemma represents_blank:
  assumes "bits \<in> {2, 3, 4}" and "\<forall>d. dim = Some d \<longrightarrow> d \<noteq> 0 \<and> d mod 8 = 0 \<and> d \<le> MAX_DIM"
  shows "represents e (blank_index dim bits) []"
  using assms
  by (auto simp: represents_def blank_index_def codec_ok_def calibration_ok_def holds_rows_def geom_ok_def split: option.split)

lemma width_range: "2 \<le> bits \<and> bits \<le> 4 \<longleftrightarrow> bits \<in> {2, 3, 4 :: nat}"
  by auto

theorem index_new_represents:
  "(case index_new dim bits of
      Inr ix \<Rightarrow> represents e ix [] \<and> ix_dim ix = Some dim \<and> ix_bit_width ix = bits
    | Inl err \<Rightarrow> bits \<notin> {2, 3, 4} \<and> err = CE_BitWidthOutOfRange bits
        \<or> bits \<in> {2, 3, 4} \<and> (dim = 0 \<or> dim mod 8 \<noteq> 0) \<and> err = CE_DimNotPositiveMultipleOf8 dim
        \<or> bits \<in> {2, 3, 4} \<and> MAX_DIM < dim \<and> err = CE_DimTooLarge dim)"
  using represents_blank [of bits "Some dim" e] unfolding index_new_def width_range
  by (auto simp: blank_index_def)

lemma new_lazy_represents: "new_lazy bits = Inr ix \<Longrightarrow> represents e ix [] \<and> ix_dim ix = None \<and> ix_bit_width ix = bits"
  using represents_blank [of bits None e] unfolding new_lazy_def width_range by (auto simp: blank_index_def split: if_splits)

text \<open>The rows of validated parts.\<close>

definition parts_rows :: "nat option \<Rightarrow> nat \<Rightarrow> nat \<Rightarrow> bytes \<Rightarrow> f32 list \<Rightarrow> row list" where
  "parts_rows dim bits n packed scales =
     (case dim of None \<Rightarrow> [] | Some d \<Rightarrow> zip (rows_of (bits * (d div 8)) n packed) scales)"

lemma length_rows_of [simp]: "length (rows_of w n xs) = n"
  by (simp add: rows_of_def)

lemma row_length_rows_of: "length xs = n * w \<Longrightarrow> \<forall>x \<in> set (rows_of w n xs). length x = w"
proof (rule ballI)
  fix x
  assume l: "length xs = n * w" and "x \<in> set (rows_of w n xs)"
  then obtain i where i: "i < n" "x = row_slice w i xs" by (auto simp: rows_of_def)
  then show "length x = w" using l mult_le_mono1 [of "Suc i" n w] by (simp add: row_slice_def)
qed

lemma concat_rows_of:
  assumes "length xs = n * w"
  shows "concat (rows_of w n xs) = xs"
proof (rule nth_equalityI)
  note l = row_length_rows_of [OF assms]
  show len: "length (concat (rows_of w n xs)) = length xs" using assms by (simp add: length_concat_rows [OF l])
  fix i
  assume "i < length (concat (rows_of w n xs))"
  then have "i < n * w" using len assms by simp
  then obtain v j where v: "v < n" "j < w" and i: "i = v * w + j" by (rule split_index)
  have "concat (rows_of w n xs) ! i = rows_of w n xs ! v ! j" unfolding i by (rule concat_row_nth [OF l]) (use v in simp_all)
  also have "\<dots> = xs ! i"
    using v assms mult_le_mono1 [of "Suc v" n w] by (simp add: rows_of_def row_slice_def i)
  finally show "concat (rows_of w n xs) ! i = xs ! i" .
qed

lemma normalize_length: "length shift = length scale \<Longrightarrow> normalize_calibration shift scale = (s, c) \<Longrightarrow>
    length s = length c \<and> (length s = 0 \<or> length s = length shift)"
  by (auto simp: normalize_calibration_def split: if_splits)

lemma from_parts_cases:
  assumes "from_parts fo dim bits n packed scales shift scale = Inr ix"
  obtains s c where "bits \<in> {2, 3, 4}" "length shift = length scale" "normalize_calibration shift scale = (s, c)"
    "ix = (blank_index dim bits)\<lparr>ix_n_vectors := n, ix_packed_codes := Some packed, ix_scales := scales,
        ix_tqplus_shift := s, ix_tqplus_scale := c\<rparr>"
    "case dim of None \<Rightarrow> n = 0 \<and> packed = [] \<and> scales = [] \<and> shift = []
      | Some d \<Rightarrow> d \<noteq> 0 \<and> d mod 8 = 0 \<and> d \<le> MAX_DIM \<and> length packed = n * (bits * (d div 8)) \<and> length scales = n \<and>
          length shift \<in> {0, d}"
proof -
  obtain s c where sc: "normalize_calibration shift scale = (s, c)" by force
  have "\<not> \<not> (2 \<le> bits \<and> bits \<le> 4)" "length shift = length scale"
    using assms unfolding from_parts_def by (auto split: if_splits)
  then show thesis
    using assms sc unfolding from_parts_def
    by (intro that [of s c]) (auto simp: checked_mul_def width_range ac_simps split: if_splits option.splits Option.bind_splits)
qed

theorem from_parts_represents:
  assumes "from_parts fo dim bits n packed scales shift scale = Inr ix"
  shows "represents e ix (parts_rows dim bits n packed scales) \<and> index_packed e ix = packed \<and> ix_dim ix = dim \<and>
    ix_bit_width ix = bits \<and> (ix_tqplus_shift ix, ix_tqplus_scale ix) = normalize_calibration shift scale"
proof -
  obtain s c where f: "bits \<in> {2, 3, 4}" "length shift = length scale" "normalize_calibration shift scale = (s, c)"
    and ix: "ix = (blank_index dim bits)\<lparr>ix_n_vectors := n, ix_packed_codes := Some packed, ix_scales := scales,
        ix_tqplus_shift := s, ix_tqplus_scale := c\<rparr>"
    and d: "case dim of None \<Rightarrow> n = 0 \<and> packed = [] \<and> scales = [] \<and> shift = []
      | Some d \<Rightarrow> d \<noteq> 0 \<and> d mod 8 = 0 \<and> d \<le> MAX_DIM \<and> length packed = n * (bits * (d div 8)) \<and> length scales = n \<and>
          length shift \<in> {0, d}"
    by (rule from_parts_cases [OF assms])
  have "represents e ix (parts_rows dim bits n packed scales)"
  proof (cases dim)
    case None
    then have "s = [] \<and> c = []" using f(2,3) d by (auto simp: normalize_calibration_def split: if_splits)
    then show ?thesis using d f(1) None
      by (simp add: represents_def ix blank_index_def parts_rows_def codec_ok_def calibration_ok_def)
  next
    case (Some k)
    have l: "length packed = n * (bits * (k div 8))" using d Some by simp
    have "length c = length s" "s = [] \<or> length s = k" using normalize_length [OF f(2,3)] d Some f(2) by auto
    moreover have "map fst (parts_rows dim bits n packed scales) = rows_of (bits * (k div 8)) n packed"
      "map snd (parts_rows dim bits n packed scales) = scales" "length (parts_rows dim bits n packed scales) = n"
      using d Some by (simp_all add: parts_rows_def)
    ultimately show ?thesis
      using d f(1) row_length_rows_of [OF l] concat_rows_of [OF l]
      by (intro representsI [of _ _ _ k])
        (simp_all add: Some ix blank_index_def codec_ok_def calibration_ok_def holds_rows_def geom_ok_def)
  qed
  then show ?thesis by (simp add: ix blank_index_def index_packed_def f(3))
qed

section \<open>Preparing the caches\<close>

lemma holds_rows_build:
  assumes g: "geom_ok bits dim" and len: "\<forall>x \<in> set rows. length x = bits * (dim div 8)"
  shows "wf_cache t bits dim (length rows) (cache_build t (concat rows) (length rows) bits dim) \<and>
    (\<forall>v < length rows. cache_row t bits (dim div codes_per_byte bits) (cache_build t (concat rows) (length rows) bits dim) v
      = extract_row (rows ! v) 0 bits dim)"
  using cache_build_rows [OF g length_concat_rows [OF len]] extract_concat_row [OF len] by simp

lemma codec_ok_seed_rotation:
  assumes "codec_ok e ix" "ix_dim ix = Some dim" "seed_rotation e dim ix = Some ix'"
  shows "\<exists>r. rotation_new (e_fo e) (e_rng e) dim = Some r \<and> ix' = ix\<lparr>ix_rotation := Some r\<rparr>"
proof (cases "ix_rotation ix")
  case (Some r)
  then have "rotation_new (e_fo e) (e_rng e) dim = Some r" using assms(1,2) by (auto simp: codec_ok_def)
  moreover have "ix' = ix\<lparr>ix_rotation := Some r\<rparr>" using Some assms(3) by (simp add: seed_rotation_def)
  ultimately show ?thesis by blast
qed (use assms(3) in \<open>auto simp: seed_rotation_def\<close>)

lemma codec_ok_seed_codebook:
  assumes "codec_ok e ix" "ix_dim ix = Some dim" "seed_codebook e dim ix = Some ix'"
  shows "\<exists>b c. codebook (e_fo e) (e_beta e) (ix_bit_width ix) dim = Some (b, c) \<and>
    ix' = ix\<lparr>ix_boundaries := Some b, ix_centroids := Some c\<rparr>"
proof (cases "ix_boundaries ix = None \<or> ix_centroids ix = None")
  case True
  then show ?thesis using assms by (auto simp: seed_codebook_def once_set_def codec_ok_def split: option.split)
next
  case False
  then show ?thesis using assms by (auto simp: seed_codebook_def codec_ok_def)
qed

text \<open>Seeding a cache changes no row.\<close>

lemma represents_rotation:
  assumes "represents e ix rows" "ix_dim ix = Some dim" "rotation_new (e_fo e) (e_rng e) dim = Some r"
  shows "represents e (ix\<lparr>ix_rotation := Some r\<rparr>) rows"
  using assms by (simp add: represents_def codec_ok_def calibration_ok_def)

lemma represents_codebook:
  assumes "represents e ix rows" "ix_dim ix = Some dim" "codebook (e_fo e) (e_beta e) (ix_bit_width ix) dim = Some (b, c)"
  shows "represents e (ix\<lparr>ix_boundaries := Some b, ix_centroids := Some c\<rparr>) rows"
    and "represents e (ix\<lparr>ix_centroids := Some c\<rparr>) rows"
  using assms by (auto simp: represents_def codec_ok_def calibration_ok_def)

lemma represents_blocked:
  assumes rep: "represents e ix rows" and d: "ix_dim ix = Some dim"
  shows "represents e (ix\<lparr>ix_blocked := Some (cache_build (e_target e) (concat (map fst rows)) (length rows) (ix_bit_width ix) dim)\<rparr>) rows"
proof (rule representsI)
  show "holds_rows (e_target e) (ix_bit_width (ix\<lparr>ix_blocked := Some (cache_build (e_target e) (concat (map fst rows)) (length rows) (ix_bit_width ix) dim)\<rparr>)) dim
      (map fst rows) (ix_packed_codes (ix\<lparr>ix_blocked := Some (cache_build (e_target e) (concat (map fst rows)) (length rows) (ix_bit_width ix) dim)\<rparr>))
      (ix_blocked (ix\<lparr>ix_blocked := Some (cache_build (e_target e) (concat (map fst rows)) (length rows) (ix_bit_width ix) dim)\<rparr>))"
    using holds_rows_build [OF representsD(8,10) [OF rep d], where t = "e_target e"] representsD(11) [OF rep d]
    by (simp add: holds_rows_def)
qed (use representsD [OF rep] representsD(8-10) [OF rep d] d in \<open>simp_all add: codec_ok_def calibration_ok_def\<close>)

theorem prepare_represents:
  assumes rep: "represents e ix rows" and p: "prepare e ix = (ix', out)"
  shows "represents e ix' rows" and "out = Returned () \<Longrightarrow> rows \<noteq> [] \<Longrightarrow> ix_blocked ix' \<noteq> None"
proof -
  have "represents e ix' rows \<and> (out = Returned () \<longrightarrow> rows \<noteq> [] \<longrightarrow> ix_blocked ix' \<noteq> None)"
  proof (cases "ix_dim ix")
    case None
    then show ?thesis using p rep representsD(7) [OF rep] by (simp add: prepare_def)
  next
    case d: (Some dim)
    note n = representsD(1) [OF rep]
    show ?thesis
    proof (cases "rows = [] \<or> seed_rotation e dim ix = None")
      case True
      then show ?thesis using p rep n d by (cases "rows = []") (simp_all add: prepare_def)
    next
      case False
      then obtain ix1 where s: "seed_rotation e dim ix = Some ix1" by auto
      obtain r where r: "rotation_new (e_fo e) (e_rng e) dim = Some r" "ix1 = ix\<lparr>ix_rotation := Some r\<rparr>"
        using codec_ok_seed_rotation [OF representsD(5) [OF rep] d s] by blast
      have rep1: "represents e ix1 rows" unfolding r(2) by (rule represents_rotation [OF rep d r(1)])
      have d1: "ix_dim ix1 = Some dim" using d r(2) by simp
      define step where "step = (case ix_centroids ix1 of Some _ \<Rightarrow> Some ix1
        | None \<Rightarrow> map_option (\<lambda>(_, c). ix1\<lparr>ix_centroids := Some c\<rparr>) (codebook (e_fo e) (e_beta e) (ix_bit_width ix1) dim))"
      have p1: "prepare e ix = (case step of None \<Rightarrow> (ix1, Panicked)
        | Some ix \<Rightarrow> (if ix_mapped ix \<or> ix_blocked ix \<noteq> None then ix
                      else (materialize_packed e ix)\<lparr>ix_blocked :=
                             Some (cache_build (e_target e) (index_packed e ix) (ix_n_vectors ix) (ix_bit_width ix) dim)\<rparr>, Returned ()))"
        using False n by (simp add: prepare_def d s step_def split: option.split)
      show ?thesis
      proof (cases step)
        case None
        then show ?thesis using p rep1 by (auto simp: p1)
      next
        case (Some ix2)
        have rep2: "represents e ix2 rows" and d2: "ix_dim ix2 = Some dim"
          using Some rep1 d1 represents_codebook(2) [OF rep1 d1] by (auto simp: step_def split: option.splits)
        have rep3: "represents e ((materialize_packed e ix2)\<lparr>ix_blocked :=
            Some (cache_build (e_target e) (index_packed e ix2) (ix_n_vectors ix2) (ix_bit_width ix2) dim)\<rparr>) rows"
          using represents_blocked [OF represents_materialize [OF rep2], of dim] d2 index_packed_rows [OF rep2] representsD(1) [OF rep2]
          by (simp add: materialize_packed_def)
        show ?thesis using p rep2 rep3 representsD(4) [OF rep2] by (auto simp: p1 Some split: if_splits)
      qed
    qed
  qed
  then show "represents e ix' rows" and "out = Returned () \<Longrightarrow> rows \<noteq> [] \<Longrightarrow> ix_blocked ix' \<noteq> None" by blast+
qed

end
