(* ===== verification/IndexAdd.thy ===== *)
theory IndexAdd
  imports IndexFacts Validate
begin

text \<open>
  Adding rows (\<open>encode_and_append\<close>, \<open>add\<close> and \<open>add_2d\<close> of \<open>lib.rs\<close>) with the unwind guards. A fault
  is a panic the code does not decide: in the encoder after it has appended some bytes, or in the
  repack. Whatever happens, the index represents either the old rows or the old rows and the new.
\<close>

section \<open>Definitions\<close>

record fault =
  ft_encode :: "(bytes \<times> f32 list) option"
  ft_repack :: bool

definition no_fault :: fault where "no_fault = \<lparr>ft_encode = None, ft_repack = False\<rparr>"

text \<open>The guarded call of \<open>encode\<close>: the buffers after a panic, or the extended ones.\<close>

definition encode_caught ::
  "'r env \<Rightarrow> fault \<Rightarrow> f32 list \<Rightarrow> nat \<Rightarrow> nat \<Rightarrow> index \<Rightarrow> bytes \<times> f32 list \<Rightarrow> (bytes \<times> f32 list) + (bytes \<times> f32 list)" where
  "encode_caught e ft vectors n dim ix = (\<lambda>(packed_codes, scales_buf).
     (case ft_encode ft of
        Some (pj, sj) \<Rightarrow> Inl (packed_codes @ pj, scales_buf @ sj)
      | None \<Rightarrow>
          (case (ix_rotation ix, ix_boundaries ix, ix_centroids ix) of
             (Some rotation, Some boundaries, Some centroids) \<Rightarrow>
               (case encode (e_cpu e) (e_fo e) rotation vectors n dim boundaries centroids (ix_bit_width ix) (calibrated_pair ix)
                       (packed_codes, scales_buf) of
                  None \<Rightarrow> Inl (packed_codes, scales_buf)
                | Some r \<Rightarrow> Inr r)
           | _ \<Rightarrow> Inl (packed_codes, scales_buf))))"

definition lazy_append :: "index \<Rightarrow> bool" where
  "lazy_append ix \<longleftrightarrow> 0 < ix_n_vectors ix \<and> ix_packed_codes ix = None \<and> ix_blocked ix \<noteq> None"

text \<open>The buffers put back after an unwind.\<close>

definition restore_buffers :: "bool \<Rightarrow> nat \<Rightarrow> nat \<Rightarrow> bytes \<times> f32 list \<Rightarrow> index \<Rightarrow> index" where
  "restore_buffers lz packed_len_before scales_len_before = (\<lambda>(packed_codes, scales_buf) ix.
     ix\<lparr>ix_scales := take scales_len_before scales_buf,
        ix_packed_codes := (if lz then None else Some (take packed_len_before packed_codes))\<rparr>)"

text \<open>After the encode: the lazy branch appends to the cache, the eager one builds or patches it, and
  the commit drops the packed rows.\<close>

definition commit_append :: "'r env \<Rightarrow> fault \<Rightarrow> bool \<Rightarrow> nat \<Rightarrow> nat \<Rightarrow> nat \<Rightarrow> nat \<Rightarrow> bytes \<times> f32 list \<Rightarrow> index \<Rightarrow> index \<times> unit outcome" where
  "commit_append e ft lz packed_len_before scales_len_before n dim = (\<lambda>(packed_codes, scales_buf) ix.
     (let old_n = ix_n_vectors ix; new_n = old_n + n; bits = ix_bit_width ix; t = e_target e in
      if lz then
        (case ix_blocked ix of
           None \<Rightarrow> (ix, Panicked)
         | Some cache \<Rightarrow>
             (ix\<lparr>ix_blocked := Some (cache_append t packed_codes old_n n bits dim cache),
                 ix_scales := scales_buf, ix_n_vectors := new_n\<rparr>, Returned ()))
      else if ft_repack ft
      then (restore_buffers False packed_len_before scales_len_before (packed_codes, scales_buf) ix, Panicked)
      else
        (let cache = (case ix_blocked ix of
                        None \<Rightarrow> cache_build t packed_codes new_n bits dim
                      | Some c \<Rightarrow> cache_patch t packed_codes old_n new_n bits dim c)
         in (ix\<lparr>ix_blocked := Some cache, ix_scales := scales_buf, ix_n_vectors := new_n\<rparr>, Returned ()))))"

definition encode_and_append :: "'r env \<Rightarrow> fault \<Rightarrow> index \<Rightarrow> f32 list \<Rightarrow> nat \<Rightarrow> nat \<Rightarrow> index \<times> unit outcome" where
  "encode_and_append e ft ix vectors n dim =
     (if ix_mapped ix then (ix, Panicked)
      else case seed_rotation e dim ix of
        None \<Rightarrow> (ix, Panicked)
      | Some ix \<Rightarrow>
        (case seed_codebook e dim ix of
           None \<Rightarrow> (ix, Panicked)
         | Some ix \<Rightarrow>
             let lz = lazy_append ix;
                 ix = (if lz then ix else materialize_packed e ix);
                 packed_codes = (case ix_packed_codes ix of Some p \<Rightarrow> p | None \<Rightarrow> []);
                 scales_buf = ix_scales ix;
                 taken = ix\<lparr>ix_packed_codes := None, ix_scales := []\<rparr>;
                 packed_len_before = length packed_codes;
                 scales_len_before = length scales_buf
             in (case encode_caught e ft vectors n dim taken (packed_codes, scales_buf) of
                   Inl bufs \<Rightarrow> (restore_buffers lz packed_len_before scales_len_before bufs taken, Panicked)
                 | Inr bufs \<Rightarrow> commit_append e ft lz packed_len_before scales_len_before n dim bufs taken)))"

definition index_add :: "'r env \<Rightarrow> fault \<Rightarrow> index \<Rightarrow> f32 list \<Rightarrow> index \<times> unit outcome" where
  "index_add e ft ix vectors =
     (case ix_dim ix of
        None \<Rightarrow> (ix, Panicked)
      | Some dim \<Rightarrow>
          if dim = 0 then (ix, Panicked)
          else let n = length vectors div dim in
            if length vectors \<noteq> n * dim then (ix, Panicked)
            else if n = 0 then (ix, Returned ())
            else (case first_invalid_coord (cpu_scan (e_cpu e)) vectors dim of
                Some None \<Rightarrow> encode_and_append e ft ix vectors n dim
              | _ \<Rightarrow> (ix, Panicked)))"

datatype add_error =
    AE_DimMismatch nat nat
  | AE_DimNotMultipleOf8 nat
  | AE_DimTooLarge nat
  | AE_VectorBufferNotMultipleOfDim nat nat
  | AE_ZeroDim
  | AE_IdsCountMismatch nat nat
  | AE_IdAlreadyPresent u64
  | AE_DuplicateIdInBatch u64
  | AE_InvalidInputValue nat nat f32

text \<open>The dimension checks of the first lines, shared with the id map.\<close>

definition add_2d :: "'r env \<Rightarrow> fault \<Rightarrow> index \<Rightarrow> f32 list \<Rightarrow> nat \<Rightarrow> index \<times> (add_error + unit) outcome" where
  "add_2d e ft ix vectors dim =
     (case (case ix_dim ix of
              Some existing \<Rightarrow> if existing \<noteq> dim then Some (AE_DimMismatch existing dim) else None
            | None \<Rightarrow>
                if dim = 0 then Some AE_ZeroDim
                else if dim mod 8 \<noteq> 0 then Some (AE_DimNotMultipleOf8 dim)
                else if MAX_DIM < dim then Some (AE_DimTooLarge dim)
                else None) of
        Some err \<Rightarrow> (ix, Returned (Inl err))
      | None \<Rightarrow>
        (case first_invalid_coord (cpu_scan (e_cpu e)) vectors dim of
           None \<Rightarrow> (ix, Panicked)
         | Some (Some (vi, ci, v)) \<Rightarrow> (ix, Returned (Inl (AE_InvalidInputValue vi ci v)))
         | Some None \<Rightarrow>
             if length vectors mod dim \<noteq> 0 then (ix, Panicked)
             else if vectors = [] then (ix, Returned (Inr ()))
             else if ix_dim ix = None
             then (case index_add e ft (ix\<lparr>ix_dim := Some dim\<rparr>) vectors of
                     (ix', Panicked) \<Rightarrow> (ix'\<lparr>ix_dim := None, ix_rotation := None, ix_boundaries := None, ix_centroids := None\<rparr>, Panicked)
                   | (ix', Returned _) \<Rightarrow> (ix', Returned (Inr ())))
             else (case index_add e ft ix vectors of
                     (ix', Panicked) \<Rightarrow> (ix', Panicked)
                   | (ix', Returned _) \<Rightarrow> (ix', Returned (Inr ())))))"

section \<open>The coder of an index\<close>

definition index_coder :: "'r env \<Rightarrow> index \<Rightarrow> nat \<Rightarrow> coder option" where
  "index_coder e ix dim =
     do {
       rot \<leftarrow> rotation_new (e_fo e) (e_rng e) dim;
       (boundaries, centroids) \<leftarrow> codebook (e_fo e) (e_beta e) (ix_bit_width ix) dim;
       Some \<lparr>c_rot = rot, c_bits = ix_bit_width ix, c_dim = dim, c_boundaries = boundaries, c_centroids = centroids,
             c_calibration = calibrated_pair ix\<rparr>
     }"

lemma index_coder_cong:
  "ix_bit_width ix' = ix_bit_width ix \<Longrightarrow> ix_tqplus_shift ix' = ix_tqplus_shift ix \<Longrightarrow> ix_tqplus_scale ix' = ix_tqplus_scale ix \<Longrightarrow>
    index_coder e ix' dim = index_coder e ix dim"
  by (simp add: index_coder_def calibrated_pair_def)

text \<open>What an add leaves alone.\<close>

definition same_elsewhere :: "index \<Rightarrow> index \<Rightarrow> bool" where
  "same_elsewhere ix ix' \<longleftrightarrow>
     ix_dim ix' = ix_dim ix \<and> ix_bit_width ix' = ix_bit_width ix \<and> ix_tqplus_shift ix' = ix_tqplus_shift ix \<and>
     ix_tqplus_scale ix' = ix_tqplus_scale ix \<and> ix_mapped ix' = ix_mapped ix \<and> ix_sync_cursor ix' = ix_sync_cursor ix \<and>
     ix_sync_path ix' = ix_sync_path ix \<and> ix_sync_pending ix' = ix_sync_pending ix \<and> ix_sync_fresh ix' = ix_sync_fresh ix \<and>
     ix_sync_capture_buf ix' = ix_sync_capture_buf ix \<and> ix_sync_capture_at ix' = ix_sync_capture_at ix \<and>
     ix_calib_gen ix' = ix_calib_gen ix"

lemma same_elsewhere_refl [simp]: "same_elsewhere ix ix"
  by (simp add: same_elsewhere_def)

section \<open>Appending\<close>

lemma holds_rows_append:
  assumes g: "geom_ok bits dim" and len: "\<forall>x \<in> set rows. length x = bits * (dim div 8)" "\<forall>x \<in> set news. length x = bits * (dim div 8)"
    and w: "wf_cache t bits dim (length rows) c" and n: "rows \<noteq> []"
    and r: "\<forall>v < length rows. cache_row t bits (dim div codes_per_byte bits) c v = extract_row (rows ! v) 0 bits dim"
  shows "holds_rows t bits dim (rows @ news) None (Some (cache_append t (concat news) (length rows) (length news) bits dim c))"
proof -
  have n0: "0 < length rows" using n by simp
  note ca = cache_append_rows [OF g w n0 length_concat_rows [OF len(2)]]
  have "cache_row t bits (dim div codes_per_byte bits) (cache_append t (concat news) (length rows) (length news) bits dim c) v
      = extract_row ((rows @ news) ! v) 0 bits dim" if v: "v < length rows + length news" for v
    using ca(2) [OF v] r v extract_concat_row [OF len(2), of "v - length rows"] by (simp add: nth_append)
  then show ?thesis using ca(1) by (simp add: holds_rows_def)
qed

lemma holds_rows_patch:
  assumes g: "geom_ok bits dim" and len: "\<forall>x \<in> set (rows @ news). length x = bits * (dim div 8)"
    and w: "wf_cache t bits dim (length rows) c" and n: "news \<noteq> []"
    and r: "\<forall>v < length rows. cache_row t bits (dim div codes_per_byte bits) c v = extract_row (rows ! v) 0 bits dim"
  shows "holds_rows t bits dim (rows @ news) None
    (Some (cache_patch t (concat (rows @ news)) (length rows) (length rows + length news) bits dim c))"
proof -
  have lt: "length rows < length rows + length news" using n by simp
  have l: "length (concat (rows @ news)) = (length rows + length news) * (bits * (dim div 8))"
    using length_concat_rows [OF len] by simp
  have x: "extract_row (concat (rows @ news)) (v * (bits * (dim div 8))) bits dim = extract_row ((rows @ news) ! v) 0 bits dim"
    if "v < length rows + length news" for v
    by (rule extract_concat_row [OF len]) (use that in simp)
  have old: "cache_row t bits (dim div codes_per_byte bits) c v = extract_row (concat (rows @ news)) (v * (bits * (dim div 8))) bits dim"
    if "v < length rows" for v
    using x [of v] r that by (simp add: nth_append)
  note cp = cache_patch_rows [OF g w lt l old]
  show ?thesis unfolding holds_rows_def using cp(1,2) x by simp
qed

lemma holds_rows_rebuild:
  assumes "geom_ok bits dim" "\<forall>x \<in> set rows. length x = bits * (dim div 8)"
  shows "holds_rows t bits dim rows None (Some (cache_build t (concat rows) (length rows) bits dim))"
  using holds_rows_build [OF assms, of t] by (simp add: holds_rows_def)

lemma index_coderE:
  assumes "index_coder e ix dim = Some c"
  obtains r b cs where "rotation_new (e_fo e) (e_rng e) dim = Some r" "codebook (e_fo e) (e_beta e) (ix_bit_width ix) dim = Some (b, cs)"
    "c = \<lparr>c_rot = r, c_bits = ix_bit_width ix, c_dim = dim, c_boundaries = b, c_centroids = cs, c_calibration = calibrated_pair ix\<rparr>"
  using assms by (auto simp: index_coder_def split: Option.bind_splits)

lemma seeds_represent:
  assumes rep: "represents e ix rows" and d: "ix_dim ix = Some dim"
    and r: "rotation_new (e_fo e) (e_rng e) dim = Some r" and bc: "codebook (e_fo e) (e_beta e) (ix_bit_width ix) dim = Some (b, cs)"
  shows "seed_rotation e dim ix = Some (ix\<lparr>ix_rotation := Some r\<rparr>)"
    and "seed_codebook e dim (ix\<lparr>ix_rotation := Some r\<rparr>)
      = Some (ix\<lparr>ix_rotation := Some r, ix_boundaries := Some b, ix_centroids := Some cs\<rparr>)"
    and "represents e (ix\<lparr>ix_rotation := Some r, ix_boundaries := Some b, ix_centroids := Some cs\<rparr>) rows"
proof -
  note rep1 = represents_rotation [OF rep d r]
  have "seed_rotation e dim ix \<noteq> None" using r by (simp add: seed_rotation_def split: option.split)
  then show s: "seed_rotation e dim ix = Some (ix\<lparr>ix_rotation := Some r\<rparr>)"
    using codec_ok_seed_rotation [OF representsD(5) [OF rep] d] r by fastforce
  have "seed_codebook e dim (ix\<lparr>ix_rotation := Some r\<rparr>) \<noteq> None" using bc by (simp add: seed_codebook_def)
  then show "seed_codebook e dim (ix\<lparr>ix_rotation := Some r\<rparr>)
      = Some (ix\<lparr>ix_rotation := Some r, ix_boundaries := Some b, ix_centroids := Some cs\<rparr>)"
    using codec_ok_seed_codebook [OF representsD(5) [OF rep1], of dim] d bc by fastforce
  show "represents e (ix\<lparr>ix_rotation := Some r, ix_boundaries := Some b, ix_centroids := Some cs\<rparr>) rows"
    using represents_codebook(1) [OF rep1, of dim] d bc by simp
qed

text \<open>Putting the buffers back undoes the taking, whatever was appended to them.\<close>

lemma restore_taken:
  assumes "lz \<Longrightarrow> ix_packed_codes ix = None" "\<not> lz \<Longrightarrow> ix_packed_codes ix = Some p"
  shows "restore_buffers lz (length p) (length (ix_scales ix)) (p @ pj, ix_scales ix @ sj) (ix\<lparr>ix_packed_codes := None, ix_scales := []\<rparr>) = ix"
  using assms by (cases lz) (auto simp: restore_buffers_def)

lemma commit_append_represents:
  assumes rep: "represents e ix rows" and d: "ix_dim ix = Some dim"
    and len: "\<forall>x \<in> set (map fst news). length x = ix_bit_width ix * (dim div 8)" and ne: "news \<noteq> []"
    and lz: "lz = lazy_append ix" and p: "p = (if lz then [] else concat (map fst rows))" and lazy: "\<not> lz \<Longrightarrow> ix_packed_codes ix = Some p"
    and c: "commit_append e ft lz (length p) (length rows) (length news) dim (p @ concat (map fst news), ix_scales ix @ map snd news)
        (ix\<lparr>ix_packed_codes := None, ix_scales := []\<rparr>) = (ix', out)"
  shows "same_elsewhere ix ix' \<and> represents e ix' (if out = Returned () then rows @ news else rows) \<and> (\<not> ft_repack ft \<longrightarrow> out = Returned ())
    \<and> (out = Panicked \<longrightarrow> ix' = ix)"
proof -
  let ?bits = "ix_bit_width ix" and ?t = "e_target e"
  note n = representsD(1,2) [OF rep] and g = representsD(8) [OF rep d] and lr = representsD(10) [OF rep d]
  have h: "holds_rows ?t ?bits dim (map fst rows) (ix_packed_codes ix) (ix_blocked ix)" by (rule representsD(11) [OF rep d])
  have ln: "length rows = length (map fst rows)" "length news = length (map fst news)" by simp_all
  have all: "\<forall>x \<in> set (map fst rows @ map fst news). length x = ?bits * (dim div 8)" using lr len by auto
  have new: "represents e (ix\<lparr>ix_packed_codes := None, ix_blocked := Some cache, ix_scales := ix_scales ix @ map snd news,
      ix_n_vectors := length rows + length news\<rparr>) (rows @ news)"
    if "holds_rows ?t ?bits dim (map fst rows @ map fst news) None (Some cache)" for cache
    using that representsD [OF rep] representsD(9) [OF rep d] g all d n
    by (intro representsI [where dim = dim]) (simp_all add: codec_ok_def calibration_ok_def)
  show ?thesis
  proof (cases lz)
    case True
    then have ne0: "map fst rows \<noteq> []" "ix_packed_codes ix = None" and b: "ix_blocked ix \<noteq> None" using lz n by (auto simp: lazy_append_def)
    then obtain cache where cache: "ix_blocked ix = Some cache" by blast
    have w: "wf_cache ?t ?bits dim (length (map fst rows)) cache"
      and r: "\<forall>v < length (map fst rows). cache_row ?t ?bits (dim div codes_per_byte ?bits) cache v = extract_row (map fst rows ! v) 0 ?bits dim"
      using h cache by (auto simp: holds_rows_def)
    note hr = holds_rows_append [OF g lr len w ne0(1) r]
    have "ix' = ix\<lparr>ix_packed_codes := None, ix_blocked := Some (cache_append ?t (concat (map fst news)) (length (map fst rows)) (length (map fst news)) ?bits dim cache),
        ix_scales := ix_scales ix @ map snd news, ix_n_vectors := length rows + length news\<rparr>" "out = Returned ()"
      using c True p cache n by (auto simp: commit_append_def Let_def)
    then show ?thesis using new [OF hr] by (simp add: same_elsewhere_def)
  next
    case False
    have pk: "p = concat (map fst rows)" using p False by simp
    show ?thesis
    proof (cases "ft_repack ft")
      case True
      then have "ix' = ix" "out = Panicked"
        using c False restore_taken [of False ix p "concat (map fst news)" "map snd news"] lazy n by (simp_all add: commit_append_def)
      then show ?thesis using rep True by simp
    next
      case nf: False
      let ?cache = "case ix_blocked ix of None \<Rightarrow> cache_build ?t (concat (map fst rows @ map fst news)) (length (map fst rows @ map fst news)) ?bits dim
          | Some c \<Rightarrow> cache_patch ?t (concat (map fst rows @ map fst news)) (length (map fst rows)) (length (map fst rows) + length (map fst news)) ?bits dim c"
      have "holds_rows ?t ?bits dim (map fst rows @ map fst news) None (Some ?cache)"
      proof (cases "ix_blocked ix")
        case None
        then show ?thesis using holds_rows_rebuild [OF g all, of ?t] by simp
      next
        case (Some cache)
        then have w: "wf_cache ?t ?bits dim (length (map fst rows)) cache"
          and r: "\<forall>v < length (map fst rows). cache_row ?t ?bits (dim div codes_per_byte ?bits) cache v = extract_row (map fst rows ! v) 0 ?bits dim"
          using h by (auto simp: holds_rows_def)
        show ?thesis using holds_rows_patch [OF g all w _ r] ne Some by simp
      qed
      moreover have "ix' = ix\<lparr>ix_packed_codes := None, ix_blocked := Some ?cache, ix_scales := ix_scales ix @ map snd news,
          ix_n_vectors := length rows + length news\<rparr>" "out = Returned ()"
        using c False nf n by (simp_all add: commit_append_def Let_def pk cong: option.case_cong)
      ultimately show ?thesis using new by (simp add: same_elsewhere_def)
    qed
  qed
qed

section \<open>An add appends the encodings or changes nothing\<close>

definition unwound :: "index \<Rightarrow> row list \<Rightarrow> index \<Rightarrow> bool" where
  "unwound ix rows ix' \<longleftrightarrow> ix_blocked ix' = ix_blocked ix \<and> (rows = [] \<longrightarrow> ix_packed_codes ix' = Some [])"

theorem encode_and_append_represents:
  assumes rep: "represents e ix rows" and d: "ix_dim ix = Some dim" and c: "index_coder e ix dim = Some c" "wf_coder (e_fo e) c"
    and len: "length vectors = n * dim" "0 < n" and run: "encode_and_append e ft ix vectors n dim = (ix', out)"
  shows "same_elsewhere ix ix' \<and>
    represents e ix' (if out = Returned () then rows @ map (encode_row (e_fo e) c) (rows_of dim n vectors) else rows) \<and>
    (ft = no_fault \<longrightarrow> out = Returned ()) \<and> (out = Panicked \<longrightarrow> unwound ix rows ix')"
proof -
  obtain r b cs where r: "rotation_new (e_fo e) (e_rng e) dim = Some r"
    and bc: "codebook (e_fo e) (e_beta e) (ix_bit_width ix) dim = Some (b, cs)"
    and cc: "c = \<lparr>c_rot = r, c_bits = ix_bit_width ix, c_dim = dim, c_boundaries = b, c_centroids = cs, c_calibration = calibrated_pair ix\<rparr>"
    by (rule index_coderE [OF c(1)])
  let ?news = "map (encode_row (e_fo e) c) (rows_of dim n vectors)"
  define ix2 where "ix2 = ix\<lparr>ix_rotation := Some r, ix_boundaries := Some b, ix_centroids := Some cs\<rparr>"
  note seeds = seeds_represent [OF rep d r bc, folded ix2_def]
  define lz where "lz = lazy_append ix2"
  define ix3 where "ix3 = (if lz then ix2 else materialize_packed e ix2)"
  define p where "p = (if lz then [] else concat (map fst rows))"
  have ix3: "same_elsewhere ix ix3" "ix_rotation ix3 = Some r" "ix_boundaries ix3 = Some b" "ix_centroids ix3 = Some cs"
    "calibrated_pair ix3 = calibrated_pair ix" "ix_bit_width ix3 = ix_bit_width ix" "ix_dim ix3 = Some dim"
    using d by (simp_all add: ix3_def ix2_def materialize_packed_def calibrated_pair_def same_elsewhere_def)
  have uw: "unwound ix rows ix3" if "\<not> lz \<or> rows = []"
    using that lz_def representsD(1) [OF rep] index_packed_rows [OF seeds(3)]
    by (auto simp: unwound_def ix3_def ix2_def materialize_packed_def lazy_append_def)
  have uw2: "unwound ix rows ix3"
    using uw representsD(1) [OF rep] by (cases "rows = []") (auto simp: unwound_def ix3_def ix2_def materialize_packed_def)
  have rep3: "represents e ix3 rows" using seeds(3) represents_materialize [OF seeds(3)] by (simp add: ix3_def)
  have packed: "\<not> lz \<Longrightarrow> ix_packed_codes ix3 = Some p" using index_packed_rows [OF seeds(3)] by (simp add: ix3_def materialize_packed_def p_def)
  have lz3: "lz = lazy_append ix3" "lz \<Longrightarrow> ix_packed_codes ix3 = None"
    using lz_def by (auto simp: ix3_def lazy_append_def materialize_packed_def)
  have pk: "(case ix_packed_codes ix3 of Some p \<Rightarrow> p | None \<Rightarrow> []) = p" using packed lz3(2) by (cases lz) (auto simp: p_def)
  have ls: "length (ix_scales ix3) = length rows" using representsD(2) [OF rep3] by simp
  let ?taken = "ix3\<lparr>ix_packed_codes := None, ix_scales := []\<rparr>"
  have e: "encode_and_append e ft ix vectors n dim = (case encode_caught e ft vectors n dim ?taken (p, ix_scales ix3) of
      Inl bufs \<Rightarrow> (restore_buffers lz (length p) (length rows) bufs ?taken, Panicked)
    | Inr bufs \<Rightarrow> commit_append e ft lz (length p) (length rows) n dim bufs ?taken)"
    unfolding encode_and_append_def if_not_P [OF representsD(4) [OF rep]] seeds(1,2) option.case Let_def lz_def [symmetric]
      ix3_def [symmetric] pk ls ..
  have enc: "encode (e_cpu e) (e_fo e) r vectors n dim b cs (ix_bit_width ix) (calibrated_pair ix) (p, ix_scales ix3)
      = Some (p @ concat (map fst ?news), ix_scales ix3 @ map snd ?news)"
    using encode_rows [OF c(2), of vectors n "e_cpu e" p "ix_scales ix3"] len(1) by (simp add: cc comp_def)
  have ct: "encode_caught e ft vectors n dim ?taken (p, ix_scales ix3) = (case ft_encode ft of
      Some (pj, sj) \<Rightarrow> Inl (p @ pj, ix_scales ix3 @ sj)
    | None \<Rightarrow> Inr (p @ concat (map fst ?news), ix_scales ix3 @ map snd ?news))"
  proof -
    have cp: "calibrated_pair ?taken = calibrated_pair ix" unfolding ix3(5) [symmetric] by (simp add: calibrated_pair_def)
    show ?thesis using enc ix3(2-4,6) by (simp add: encode_caught_def cp split: option.split)
  qed
  show ?thesis
  proof (cases "ft_encode ft")
    case (Some pjsj)
    then obtain pj sj where "ft_encode ft = Some (pj, sj)" by (cases pjsj) auto
    then have "ix' = ix3" "out = Panicked"
      using run ct restore_taken [of lz ix3 p pj sj, OF lz3(2) packed]
      by (simp_all add: e ls)
    then show ?thesis using ix3(1) rep3 Some uw2 by (auto simp: no_fault_def)
  next
    case None
    have lw: "\<forall>x \<in> set (map fst ?news). length x = ix_bit_width ix3 * (dim div 8)" by (auto simp: cc ix3(6) encode_row_def quantize_row_def case_prod_beta)
    have ne: "?news \<noteq> []" using len(2) by (simp add: rows_of_def)
    have ln: "length ?news = n" by simp
    have "commit_append e ft lz (length p) (length rows) (length ?news) dim (p @ concat (map fst ?news), ix_scales ix3 @ map snd ?news) ?taken = (ix', out)"
      unfolding ln using run ct None by (simp add: e)
    note cm = commit_append_represents [OF rep3 ix3(7) lw ne lz3(1) p_def packed this]
    show ?thesis using cm ix3(1) uw2 by (auto simp: same_elsewhere_def no_fault_def)
  qed
qed

theorem index_add_represents:
  assumes rep: "represents e ix rows" and d: "ix_dim ix = Some dim" and c: "index_coder e ix dim = Some c" "wf_coder (e_fo e) c"
    and len: "length vectors = n * dim" and valid: "first_invalid_coord (cpu_scan (e_cpu e)) vectors dim = Some None"
    and run: "index_add e ft ix vectors = (ix', out)"
  shows "same_elsewhere ix ix' \<and>
    represents e ix' (if out = Returned () then rows @ map (encode_row (e_fo e) c) (rows_of dim n vectors) else rows) \<and>
    (ft = no_fault \<longrightarrow> out = Returned ()) \<and> (out = Panicked \<longrightarrow> unwound ix rows ix')"
proof (cases "n = 0")
  case True
  have "0 < dim" using representsD(8) [OF rep d] by (simp add: geom_ok_def)
  then have "ix' = ix" "out = Returned ()" using run True len d by (simp_all add: index_add_def)
  then show ?thesis using rep True by (simp add: rows_of_def)
next
  case False
  have "0 < dim" using representsD(8) [OF rep d] by (simp add: geom_ok_def)
  then have "encode_and_append e ft ix vectors n dim = (ix', out)" using run False len d valid by (simp add: index_add_def Let_def)
  from encode_and_append_represents [OF rep d c len _ this] False show ?thesis by blast
qed

section \<open>The two-dimensional form\<close>

definition input_ok :: "f32 list \<Rightarrow> bool" where
  "input_ok vectors \<longleftrightarrow> (\<forall>x \<in> set vectors. \<not> magnitude_fails MAX_INPUT_MAGNITUDE x)"

lemma first_invalid_coord_total:
  "first_invalid_coord k vectors dim \<noteq> None"
  "first_invalid_coord k vectors dim = Some None \<longleftrightarrow> input_ok vectors"
  unfolding first_invalid_coord_def par_first_invalid_coord_correct [OF MAX_INPUT_MAGNITUDE_finite]
  by (simp, auto simp: find_None_iff input_ok_def all_set_conv_all_nth)

lemma represents_commit_dim:
  assumes "represents e ix rows" "ix_dim ix = None" "dim \<noteq> 0" "dim mod 8 = 0" "dim \<le> MAX_DIM"
  shows "represents e (ix\<lparr>ix_dim := Some dim\<rparr>) []" "rows = []"
proof -
  show r: "rows = []" using representsD(7) [OF assms(1,2)] by blast
  show "represents e (ix\<lparr>ix_dim := Some dim\<rparr>) []"
    using assms unfolding represents_def r by (auto simp: codec_ok_def calibration_ok_def geom_ok_def holds_rows_def)
qed

lemma same_dim_update: "ix_dim ix = Some d \<Longrightarrow> ix\<lparr>ix_dim := Some d\<rparr> = (ix :: index)"
  by (cases ix) simp

lemma represents_rollback:
  assumes "represents e ix []" "ix_blocked ix = None" "ix_packed_codes ix = Some []" "ix_tqplus_shift ix = []"
  shows "represents e (ix\<lparr>ix_dim := None, ix_rotation := None, ix_boundaries := None, ix_centroids := None\<rparr>) []"
  using assms by (auto simp: represents_def codec_ok_def calibration_ok_def split: option.splits)

theorem add_2d_represents:
  assumes rep: "represents e ix rows" and run: "add_2d e ft ix vectors dim = (ix', out)"
    and coder: "index_coder e ix dim = Some c" "wf_coder (e_fo e) c"
  shows "case out of
      Returned (Inr _) \<Rightarrow> input_ok vectors \<and> ix_dim ix \<in> {None, Some dim} \<and> (vectors \<noteq> [] \<longrightarrow> ix_dim ix' = Some dim) \<and>
        represents e ix' (rows @ map (encode_row (e_fo e) c) (rows_of dim (length vectors div dim) vectors))
    | Returned (Inl err) \<Rightarrow> ix' = ix
    | Panicked \<Rightarrow> represents e ix' rows \<and> ix_dim ix' = ix_dim ix \<and> (ft \<noteq> no_fault \<or> length vectors mod dim \<noteq> 0)"
proof -
  let ?err = "case ix_dim ix of
              Some existing \<Rightarrow> if existing \<noteq> dim then Some (AE_DimMismatch existing dim) else None
            | None \<Rightarrow> if dim = 0 then Some AE_ZeroDim else if dim mod 8 \<noteq> 0 then Some (AE_DimNotMultipleOf8 dim)
                else if MAX_DIM < dim then Some (AE_DimTooLarge dim) else None"
  let ?fi = "first_invalid_coord (cpu_scan (e_cpu e)) vectors dim"
  consider err where "?err = Some err" | vi ci v where "?err = None" "?fi = Some (Some (vi, ci, v))" | "?err = None" "?fi = Some None"
    using first_invalid_coord_total(1) [of "cpu_scan (e_cpu e)" vectors dim] by (cases ?err; cases ?fi; cases "the ?fi") (simp_all, force+)
  then show ?thesis
  proof cases
    case 1
    then show ?thesis using run by (auto simp: add_2d_def)
  next
    case 2
    then show ?thesis using run by (auto simp: add_2d_def)
  next
    case 3
    then have ok: "input_ok vectors" by (simp add: first_invalid_coord_total)
    have dims: "ix_dim ix = Some dim \<or> ix_dim ix = None \<and> dim \<noteq> 0 \<and> dim mod 8 = 0 \<and> dim \<le> MAX_DIM"
      using 3(1) by (auto split: option.splits if_splits)
    show ?thesis
    proof (cases "length vectors mod dim \<noteq> 0 \<or> vectors = []")
      case True
      have e: "add_2d e ft ix vectors dim = (ix, if length vectors mod dim \<noteq> 0 then Panicked else Returned (Inr ()))"
        unfolding add_2d_def 3 option.case using True by (cases "length vectors mod dim = 0") simp_all
      show ?thesis
      proof (cases "length vectors mod dim = 0")
        case z: True
        then have v: "vectors = []" using True by simp
        have "ix' = ix" "out = Returned (Inr ())" using run unfolding e by (simp_all add: z)
        moreover have "ix_dim ix \<in> {None, Some dim}" using dims by blast
        ultimately show ?thesis using rep ok by (simp add: v rows_of_def)
      next
        case nz: False
        have "ix' = ix" "out = Panicked" using run unfolding e by (simp_all add: nz)
        then show ?thesis using rep nz by simp
      qed
    next
      case False
      then have len: "length vectors = length vectors div dim * dim" using div_mult_mod_eq [of "length vectors" dim] by simp
      define ix1 where "ix1 = ix\<lparr>ix_dim := Some dim\<rparr>"
      have d1: "ix_dim ix1 = Some dim" by (simp add: ix1_def)
      have rep1: "represents e ix1 rows"
      proof (cases "ix_dim ix")
        case None
        then show ?thesis using dims represents_commit_dim [OF rep, of dim] unfolding ix1_def by simp
      next
        case (Some d)
        then have "ix1 = ix" using dims same_dim_update [of ix dim] unfolding ix1_def by simp
        then show ?thesis using rep by (simp only:)
      qed
      have c1: "index_coder e ix1 dim = Some c" unfolding coder(1) [symmetric] by (rule index_coder_cong) (simp_all add: ix1_def)
      obtain ix2 out2 where add: "index_add e ft ix1 vectors = (ix2, out2)" by force
      note ar = index_add_represents [OF rep1 d1 c1 coder(2) len 3(2) add]
      have r: "add_2d e ft ix vectors dim = (case (ix2, out2) of
          (ix', Panicked) \<Rightarrow> (if ix_dim ix = None then ix'\<lparr>ix_dim := None, ix_rotation := None, ix_boundaries := None, ix_centroids := None\<rparr> else ix', Panicked)
        | (ix', Returned _) \<Rightarrow> (ix', Returned (Inr ())))"
      proof (cases "ix_dim ix")
        case None
        then show ?thesis unfolding add_2d_def 3 option.case using False add by (simp add: ix1_def split: outcome.split)
      next
        case (Some d)
        then have "ix1 = ix" using dims same_dim_update [of ix dim] unfolding ix1_def by simp
        then have "index_add e ft ix vectors = (ix2, out2)" using add by (simp only:)
        then show ?thesis unfolding add_2d_def 3 option.case using False Some by (simp split: outcome.split)
      qed
      show ?thesis
      proof (cases out2)
        case (Returned u)
        then show ?thesis using run ar r ok dims d1 by (auto simp: same_elsewhere_def)
      next
        case Panicked
        have p: "represents e ix2 rows" "same_elsewhere ix1 ix2" "ft \<noteq> no_fault" "unwound ix1 rows ix2" using ar Panicked by auto
        show ?thesis
        proof (cases "ix_dim ix")
          case None
          have e0: "rows = []" "ix_blocked ix = None" using representsD(7) [OF rep None] by simp_all
          have "ix_tqplus_shift ix = []" using representsD(6) [OF rep] None by (simp add: calibration_ok_def)
          then have "represents e (ix2\<lparr>ix_dim := None, ix_rotation := None, ix_boundaries := None, ix_centroids := None\<rparr>) []"
            using p e0 by (intro represents_rollback) (simp_all add: unwound_def same_elsewhere_def ix1_def)
          then show ?thesis using run r Panicked None e0(1) p(3) by auto
        next
          case (Some d)
          then show ?thesis using run r Panicked p dims d1 by (auto simp: same_elsewhere_def)
        qed
      qed
    qed
  qed
qed

end
