(* ===== verification/IndexRemove.thy ===== *)
theory IndexRemove
  imports IndexFacts
begin

text \<open>
  \<open>swap_remove\<close> (\<open>lib.rs\<close>) with the marking of diverged slots and the capture of the moved rows'
  bytes for the next sync. The capture arena is a cache: \<open>arena_ok\<close> says that every entry in it is
  the live row of its slot, in a lane of its own.
\<close>

section \<open>Definitions\<close>

definition sync_watermark :: "index \<Rightarrow> nat" where
  "sync_watermark ix = (case ix_sync_cursor ix of Some c \<Rightarrow> unat (sc_n_synced c) div BLOCK * BLOCK | None \<Rightarrow> 0)"

definition mark_dirty :: "nat \<Rightarrow> index \<Rightarrow> index" where
  "mark_dirty slot ix = (if slot < sync_watermark ix then ix\<lparr>ix_sync_fresh := insert slot (ix_sync_fresh ix)\<rparr> else ix)"

text \<open>Slot to \<open>(offset, length)\<close>, later captures winning; empty while the packed rows are live.\<close>

definition capture_lookup :: "index \<Rightarrow> nat \<Rightarrow> (nat \<times> nat) option" where
  "capture_lookup ix =
     (if ix_packed_codes ix \<noteq> None \<or> ix_sync_capture_at ix = [] then Map.empty
      else case ix_dim ix of
        None \<Rightarrow> Map.empty
      | Some dim \<Rightarrow>
          (let (_, nbg, _) = blocked_geometry (ix_n_vectors ix) (ix_bit_width ix) dim
           in foldl (\<lambda>m (slot, off). m(unat slot \<mapsto> (unat off, nbg))) Map.empty (ix_sync_capture_at ix)))"

text \<open>Where the removal of \<open>idx\<close> captures: the range of an older entry, or the end of the arena.\<close>

definition capture_place :: "'r env \<Rightarrow> index \<Rightarrow> nat \<Rightarrow> nat \<Rightarrow> nat option" where
  "capture_place e ix dim idx =
     (let (_, capture_lane, _) = blocked_geometry (ix_n_vectors ix) (ix_bit_width ix) dim in
      if t_x86 (e_target e) \<and> ix_sync_cursor ix \<noteq> None \<and> idx < sync_watermark ix \<and> ix_packed_codes ix = None
      then (case find (\<lambda>(s, _). unat s = idx) (ix_sync_capture_at ix) of
              Some (_, off) \<Rightarrow> Some (unat off)
            | None \<Rightarrow> let off = length (ix_sync_capture_buf ix) in if off < MAX_OPS * capture_lane then Some off else None)
      else None)"

text \<open>The write of a captured lane; \<open>None\<close> is the panic of a slice out of range.\<close>

definition capture_write :: "nat \<Rightarrow> nat option \<Rightarrow> bytes \<Rightarrow> bytes \<Rightarrow> bytes option" where
  "capture_write nbg place out buf =
     (case place of
        None \<Rightarrow> Some buf
      | Some off \<Rightarrow>
          let buf = (if off = length buf then buf @ replicate nbg 0 else buf)
          in if off + nbg \<le> length buf then Some (overwrite off out buf) else None)"

definition swap_remove :: "'r env \<Rightarrow> index \<Rightarrow> nat \<Rightarrow> index \<times> nat outcome" where
  "swap_remove e ix idx =
     (if ix_mapped ix then (ix, Panicked)
      else if \<not> idx < ix_n_vectors ix then (ix, Panicked)
      else
        let lst = ix_n_vectors ix - 1;
            ix = (if ix_sync_cursor ix \<noteq> None
                  then (let ix = mark_dirty idx ix in if lst \<noteq> idx then mark_dirty lst ix else ix)
                  else ix)
        in (case ix_dim ix of
              None \<Rightarrow> (ix, Panicked)
            | Some dim \<Rightarrow>
                let bytes_per_vec = dim * ix_bit_width ix div 8;
                    capture_at = capture_place e ix dim idx;
                    ix = ix\<lparr>ix_packed_codes := map_option (packed_swap_remove bytes_per_vec idx lst) (ix_packed_codes ix),
                            ix_scales := take lst (if idx \<noteq> lst then (ix_scales ix)[idx := ix_scales ix ! lst] else ix_scales ix),
                            ix_n_vectors := lst\<rparr>;
                    (_, nbg, _) = blocked_geometry (ix_n_vectors ix) (ix_bit_width ix) dim
                in (case (case ix_blocked ix of
                            None \<Rightarrow> Some ix
                          | Some cache \<Rightarrow>
                              let (cache, out) = cache_swap_remove (e_target e) (ix_bit_width ix) dim idx lst cache
                              in map_option (\<lambda>buf. ix\<lparr>ix_blocked := Some cache, ix_sync_capture_buf := buf\<rparr>)
                                   (if idx \<noteq> lst then capture_write nbg capture_at out (ix_sync_capture_buf ix)
                                    else Some (ix_sync_capture_buf ix))) of
                      None \<Rightarrow> (ix, Panicked)
                    | Some ix \<Rightarrow>
                        let kept = filter (\<lambda>(s, _). unat s \<noteq> idx \<and> unat s \<noteq> lst) (ix_sync_capture_at ix);
                            new = (case capture_at of
                                     Some off \<Rightarrow> if idx \<noteq> lst \<and> idx < 4294967296 then [(of_nat idx, of_nat off)] else []
                                   | None \<Rightarrow> [])
                        in (ix\<lparr>ix_sync_capture_at := kept @ new\<rparr>, Returned lst))))"

section \<open>The arena\<close>

text \<open>\<open>code s\<close> is the live row of slot \<open>s\<close>, for the \<open>n\<close> slots there are; \<open>w\<close> the length of a lane.\<close>

definition entry_ok :: "nat \<Rightarrow> nat \<Rightarrow> (nat \<Rightarrow> bytes) \<Rightarrow> bytes \<Rightarrow> u32 \<times> u32 \<Rightarrow> bool" where
  "entry_ok w n code buf = (\<lambda>(s, off).
     unat s < n \<and> w dvd unat off \<and> unat off + w \<le> length buf \<and> take w (drop (unat off) buf) = code (unat s))"

definition arena_ok :: "nat \<Rightarrow> nat \<Rightarrow> (nat \<Rightarrow> bytes) \<Rightarrow> bytes \<Rightarrow> (u32 \<times> u32) list \<Rightarrow> bool" where
  "arena_ok w n code buf at \<longleftrightarrow>
     w dvd length buf \<and> length buf \<le> MAX_OPS * w \<and> distinct (map fst at) \<and> distinct (map snd at) \<and>
     (\<forall>p \<in> set at. entry_ok w n code buf p)"

lemma arena_retire:
  assumes "arena_ok w n code buf at" and "\<And>s off. (s, off) \<in> set at \<Longrightarrow> P (s, off) \<Longrightarrow> unat s < n' \<and> code' (unat s) = code (unat s)"
  shows "arena_ok w n' code' buf (filter P at)"
  using assms by (auto simp: arena_ok_def entry_ok_def distinct_map_filter)

lemma lanes_apart:
  fixes a b w :: nat
  assumes "w dvd a" "w dvd b" "a \<noteq> b"
  shows "a + w \<le> b \<or> b + w \<le> a"
proof -
  obtain i where i: "a = w * i" using assms(1) by (rule dvdE)
  obtain j where j: "b = w * j" using assms(2) by (rule dvdE)
  note ij = i j
  then consider "Suc i \<le> j" | "Suc j \<le> i" using assms(3) by (metis not_less_eq_eq le_antisym)
  then show ?thesis
  proof cases
    case 1
    then have "w * Suc i \<le> w * j" by (intro mult_le_mono2)
    then show ?thesis by (simp add: ij)
  next
    case 2
    then have "w * Suc j \<le> w * i" by (intro mult_le_mono2)
    then show ?thesis by (simp add: ij)
  qed
qed

text \<open>Writing a lane that no entry uses, and recording it.\<close>

lemma arena_write:
  assumes a: "arena_ok w n code buf at" and place: "w dvd off" "off = length buf \<and> off < MAX_OPS * w \<or> off + w \<le> length buf"
    and free: "\<forall>p \<in> set at. unat (snd p) \<noteq> off" and w: "0 < w" and out: "length out = w"
  obtains buf' where "capture_write w (Some off) out buf = Some buf'" "arena_ok w n code buf' at"
    "off + w \<le> length buf'" "take w (drop off buf') = out"
proof -
  let ?buf = "if off = length buf then buf @ replicate w 0 else buf"
  let ?buf' = "overwrite off out ?buf"
  have l: "w dvd length buf" "length buf \<le> MAX_OPS * w" using a by (simp_all add: arena_ok_def)
  have grow: "length buf + w \<le> MAX_OPS * w" if "length buf < MAX_OPS * w"
    using lanes_apart [OF l(1), of "MAX_OPS * w"] that by auto
  have fit: "off + w \<le> length ?buf" "w dvd length ?buf" "length ?buf \<le> MAX_OPS * w"
    using place l grow w(1) by (auto split: if_splits)
  have lb: "length ?buf' = length ?buf" using fit(1) out by (simp add: length_overwrite)
  have keep: "take w (drop o' ?buf') = take w (drop o' buf)" if o': "w dvd o'" "o' + w \<le> length buf" "o' \<noteq> off" for o'
  proof -
    have "take w (drop o' ?buf') = take w (drop o' ?buf)"
      by (rule overwrite_read(2)) (use lanes_apart [OF o'(1) place(1) o'(3)] fit(1) out in auto)
    also have "\<dots> = take w (drop o' buf)" using o'(2) by simp
    finally show ?thesis .
  qed
  have old: "entry_ok w n code ?buf' p" if p: "p \<in> set at" for p
  proof -
    have "entry_ok w n code buf p" using a p by (simp add: arena_ok_def)
    moreover have "length buf \<le> length ?buf'" unfolding lb by simp
    ultimately show ?thesis using free p keep [of "unat (snd p)"] unfolding entry_ok_def case_prod_beta by auto
  qed
  show thesis
  proof (rule that)
    show "capture_write w (Some off) out buf = Some ?buf'" using fit(1) by (simp add: capture_write_def Let_def)
    show "arena_ok w n code ?buf' at" using a old fit(2,3) lb by (auto simp: arena_ok_def)
    show "off + w \<le> length ?buf'" unfolding lb by (rule fit(1))
    show "take w (drop off ?buf') = out" using overwrite_read(1) [of off out ?buf] fit(1) out by simp
  qed
qed

lemma arena_push:
  assumes a: "arena_ok w n code buf at" and off: "w dvd off" "off + w \<le> length buf" "take w (drop off buf) = code idx"
    and free: "\<forall>p \<in> set at. unat (snd p) \<noteq> off" "\<forall>p \<in> set at. unat (fst p) \<noteq> idx" and w: "0 < w" "MAX_OPS * w \<le> 4294967296"
    and idx: "idx < n" "idx < 4294967296"
  shows "arena_ok w n code buf (at @ [(of_nat idx, of_nat off)])"
proof -
  have "off < 4294967296" using a off(2) w unfolding arena_ok_def by linarith
  then have u: "unat (of_nat off :: u32) = off" "unat (of_nat idx :: u32) = idx"
    using idx(2) by (simp_all add: unat_of_nat_u32)
  then have "entry_ok w n code buf (of_nat idx, of_nat off)" using off idx(1) by (simp add: entry_ok_def)
  then show ?thesis using a free u by (auto simp: arena_ok_def)
qed

text \<open>The arena of an index.\<close>

definition row_seq :: "nat \<Rightarrow> nat \<Rightarrow> row \<Rightarrow> bytes" where
  "row_seq bits dim r = extract_row (fst r) 0 bits dim"

definition capture_ok :: "index \<Rightarrow> row list \<Rightarrow> bool" where
  "capture_ok ix rows \<longleftrightarrow>
     (case ix_dim ix of
        None \<Rightarrow> ix_sync_capture_at ix = [] \<and> ix_sync_capture_buf ix = []
      | Some dim \<Rightarrow> arena_ok (dim div codes_per_byte (ix_bit_width ix)) (length rows) (\<lambda>s. row_seq (ix_bit_width ix) dim (rows ! s))
          (ix_sync_capture_buf ix) (ix_sync_capture_at ix))"

lemma capture_ok_empty: "ix_sync_capture_at ix = [] \<Longrightarrow> ix_sync_capture_buf ix = [] \<Longrightarrow> capture_ok ix rows"
  by (simp add: capture_ok_def arena_ok_def split: option.split)

lemma capture_lookup_entry:
  assumes a: "arena_ok w n code buf at" and l: "foldl (\<lambda>m (slot, off). m(unat slot \<mapsto> (unat off, w))) Map.empty at s = Some (off, k)"
  shows "k = w \<and> s < n \<and> off + w \<le> length buf \<and> take k (drop off buf) = code s"
proof -
  have "foldl (\<lambda>m (slot, off). m(unat slot \<mapsto> (unat off, w))) Map.empty at s = Some (off, k) \<Longrightarrow>
      \<exists>p \<in> set at. unat (fst p) = s \<and> unat (snd p) = off \<and> k = w" for at :: "(u32 \<times> u32) list"
    by (induction at rule: rev_induct) (auto split: if_splits)
  from this [OF l] obtain p where "p \<in> set at" "unat (fst p) = s" "unat (snd p) = off" "k = w" by auto
  then show ?thesis using a by (auto simp: arena_ok_def entry_ok_def)
qed

section \<open>The rows after a removal\<close>

lemma list_swap_remove_take:
  assumes "idx < length xs" "lst = length xs - 1"
  shows "take lst (if idx \<noteq> lst then xs[idx := xs ! lst] else xs) = list_swap_remove idx xs"
proof -
  have "xs \<noteq> []" using assms(1) by auto
  then have "last xs = xs ! lst" by (simp add: last_conv_nth assms(2))
  then show ?thesis using assms(2) by (simp add: list_swap_remove_def butlast_conv_take)
qed

lemma packed_swap_remove_rows:
  assumes len: "\<forall>x \<in> set rows. length x = w" and idx: "idx < length rows"
  shows "packed_swap_remove w idx (length rows - 1) (concat rows) = concat (list_swap_remove idx rows)"
proof -
  let ?n = "length rows" and ?p = "packed_swap_remove w idx (length rows - 1) (concat rows)"
  note pr = packed_remove [OF length_concat_rows [OF len] refl idx]
  have "rows_of w (?n - 1) ?p = list_swap_remove idx rows"
  proof (rule nth_equalityI)
    fix v
    assume "v < length (rows_of w (?n - 1) ?p)"
    then have v: "v < ?n - 1" by simp
    have "rows_of w (?n - 1) ?p ! v = packed_row w ?p v" using v by (simp add: rows_of_def row_slice_def packed_row_def)
    also have "\<dots> = rows ! (if v = idx then ?n - 1 else v)"
      unfolding pr(2) [OF v] unfolding packed_row_def by (rule slice_concat_rows [OF len]) (use v idx in auto)
    also have "\<dots> = list_swap_remove idx rows ! v" by (rule list_swap_remove_nth [OF idx v, symmetric])
    finally show "rows_of w (?n - 1) ?p ! v = list_swap_remove idx rows ! v" .
  qed simp
  then show ?thesis using concat_rows_of [OF pr(1)] by simp
qed

lemma set_list_swap_remove: "idx < length xs \<Longrightarrow> set (list_swap_remove idx xs) \<subseteq> set xs"
proof
  fix x
  assume idx: "idx < length xs" and "x \<in> set (list_swap_remove idx xs)"
  then obtain v where v: "v < length xs - 1" "x = list_swap_remove idx xs ! v" by (auto simp: in_set_conv_nth)
  then have "x = xs ! (if v = idx then length xs - 1 else v)" using list_swap_remove_nth [OF idx v(1)] by simp
  then show "x \<in> set xs" using v(1) idx by auto
qed

lemma holds_rows_remove:
  assumes g: "geom_ok bits dim" and len: "\<forall>x \<in> set rows. length x = bits * (dim div 8)" and idx: "idx < length rows"
    and h: "holds_rows t bits dim rows packed blocked"
  defines "lst \<equiv> length rows - 1"
  shows "holds_rows t bits dim (list_swap_remove idx rows) (map_option (packed_swap_remove (bits * (dim div 8)) idx lst) packed)
      (map_option (\<lambda>c. fst (cache_swap_remove t bits dim idx lst c)) blocked)"
    and "blocked = Some c \<Longrightarrow> idx \<noteq> lst \<Longrightarrow> snd (cache_swap_remove t bits dim idx lst c) = extract_row (rows ! lst) 0 bits dim"
proof -
  have c: "wf_cache t bits dim lst (fst (cache_swap_remove t bits dim idx lst c)) \<and>
      (\<forall>v < lst. cache_row t bits (dim div codes_per_byte bits) (fst (cache_swap_remove t bits dim idx lst c)) v
        = extract_row (list_swap_remove idx rows ! v) 0 bits dim) \<and>
      (idx \<noteq> lst \<longrightarrow> snd (cache_swap_remove t bits dim idx lst c) = extract_row (rows ! lst) 0 bits dim)" if "blocked = Some c" for c
  proof -
    obtain c' out where r: "cache_swap_remove t bits dim idx (length rows - 1) c = (c', out)" by force
    have w: "wf_cache t bits dim (length rows) c"
      and rows: "\<And>v. v < length rows \<Longrightarrow> cache_row t bits (dim div codes_per_byte bits) c v = extract_row (rows ! v) 0 bits dim"
      using h that by (auto simp: holds_rows_def)
    note cr = cache_remove_rows [OF g w idx r]
    have "cache_row t bits (dim div codes_per_byte bits) c' v = extract_row (list_swap_remove idx rows ! v) 0 bits dim" if v: "v < lst" for v
    proof -
      have v': "v < length rows - 1" "(if v = idx then length rows - 1 else v) < length rows" using v idx by (auto simp: lst_def)
      show ?thesis unfolding cr(2) [OF v'(1)] rows [OF v'(2)] list_swap_remove_nth [OF idx v'(1)] ..
    qed
    then show ?thesis unfolding lst_def r fst_conv snd_conv using cr(1,3) rows [of "length rows - 1"] idx by simp
  qed
  show "holds_rows t bits dim (list_swap_remove idx rows) (map_option (packed_swap_remove (bits * (dim div 8)) idx lst) packed)
      (map_option (\<lambda>c. fst (cache_swap_remove t bits dim idx lst c)) blocked)"
    using h c packed_swap_remove_rows [OF len idx] by (auto simp: holds_rows_def lst_def)
  show "snd (cache_swap_remove t bits dim idx lst c) = extract_row (rows ! lst) 0 bits dim" if "blocked = Some c" "idx \<noteq> lst"
    using c that by blast
qed

section \<open>Removing a row\<close>

text \<open>Marking changes the set of fresh slots alone.\<close>

definition marked :: "index \<Rightarrow> nat \<Rightarrow> index" where
  "marked ix idx = ix\<lparr>ix_sync_fresh := ix_sync_fresh ix \<union> {s. s \<in> {idx, ix_n_vectors ix - 1} \<and> s < sync_watermark ix}\<rparr>"

lemma sync_watermark_fresh [simp]: "sync_watermark (ix\<lparr>ix_sync_fresh := F\<rparr>) = sync_watermark ix"
  by (simp add: sync_watermark_def)

lemma fresh_same: "ix\<lparr>ix_sync_fresh := ix_sync_fresh ix\<rparr> = (ix :: index)"
  by (cases ix) simp

lemma mark_dirty_fresh: "mark_dirty s ix = ix\<lparr>ix_sync_fresh := ix_sync_fresh ix \<union> {s'. s' = s \<and> s' < sync_watermark ix}\<rparr>"
proof (cases "s < sync_watermark ix")
  case True
  then have "ix_sync_fresh ix \<union> {s'. s' = s \<and> s' < sync_watermark ix} = insert s (ix_sync_fresh ix)" by blast
  then show ?thesis using True by (simp add: mark_dirty_def)
next
  case False
  then have "{s'. s' = s \<and> s' < sync_watermark ix} = {}" by blast
  then show ?thesis using False by (simp only: mark_dirty_def Un_empty_right fresh_same if_False)
qed

lemma marked_eq:
  assumes "lst = ix_n_vectors ix - 1"
  shows "(if ix_sync_cursor ix \<noteq> None then (let ix = mark_dirty idx ix in if lst \<noteq> idx then mark_dirty lst ix else ix) else ix) = marked ix idx"
proof (cases "ix_sync_cursor ix = None")
  case True
  then have "{s. s \<in> {idx, ix_n_vectors ix - 1} \<and> s < sync_watermark ix} = {}" by (simp add: sync_watermark_def)
  then show ?thesis using True by (simp only: marked_def Un_empty_right fresh_same simp_thms if_True if_False)
next
  case False
  have e: "(ix_sync_fresh ix \<union> {s. s = idx \<and> s < sync_watermark ix}) \<union> {s. s = lst \<and> s < sync_watermark ix}
      = ix_sync_fresh ix \<union> {s. s \<in> {idx, ix_n_vectors ix - 1} \<and> s < sync_watermark ix}"
    "lst = idx \<Longrightarrow> ix_sync_fresh ix \<union> {s. s = idx \<and> s < sync_watermark ix}
      = ix_sync_fresh ix \<union> {s. s \<in> {idx, ix_n_vectors ix - 1} \<and> s < sync_watermark ix}"
    unfolding assms by blast+
  show ?thesis
  proof (cases "lst = idx")
    case True
    then show ?thesis using False e(2) by (simp only: mark_dirty_fresh Let_def marked_def simp_thms if_True if_False)
  next
    case ne: False
    have "mark_dirty lst (mark_dirty idx ix) = marked ix idx"
      unfolding mark_dirty_fresh [of lst] unfolding mark_dirty_fresh [of idx] marked_def e(1) [symmetric]
      by (simp add: sync_watermark_def)
    then show ?thesis using False ne by (simp only: Let_def simp_thms if_True if_False)
  qed
qed

definition kept_captures :: "nat \<Rightarrow> nat \<Rightarrow> (u32 \<times> u32) list \<Rightarrow> (u32 \<times> u32) list" where
  "kept_captures idx lst at = filter (\<lambda>(s, _). unat s \<noteq> idx \<and> unat s \<noteq> lst) at"

lemma find_Some_mem: "find P xs = Some x \<Longrightarrow> x \<in> set xs \<and> P x"
  by (induction xs) (auto split: if_splits)

lemma capture_place_ok:
  assumes a: "arena_ok w n code (ix_sync_capture_buf ix) (ix_sync_capture_at ix)" and w: "w = dim div codes_per_byte (ix_bit_width ix)" "0 < w"
    and p: "capture_place e ix dim idx = Some off"
  shows "ix_packed_codes ix = None" "w dvd off"
    and "off = length (ix_sync_capture_buf ix) \<and> off < MAX_OPS * w \<or> off + w \<le> length (ix_sync_capture_buf ix)"
    and "\<forall>q \<in> set (kept_captures idx lst (ix_sync_capture_at ix)). unat (snd q) \<noteq> off"
    and "\<forall>q \<in> set (kept_captures idx lst (ix_sync_capture_at ix)). unat (fst q) \<noteq> idx"
proof -
  let ?at = "ix_sync_capture_at ix" and ?buf = "ix_sync_capture_buf ix"
  show "ix_packed_codes ix = None" using p by (auto simp: capture_place_def Let_def case_prod_beta split: if_splits)
  have f: "case find (\<lambda>(s, _). unat s = idx) ?at of Some (_, o') \<Rightarrow> off = unat o' | None \<Rightarrow> off = length ?buf \<and> off < MAX_OPS * w"
    using p w(1) by (auto simp: capture_place_def blocked_geometry_def Let_def split: if_splits option.splits)
  have "w dvd off \<and> (off = length ?buf \<and> off < MAX_OPS * w \<or> off + w \<le> length ?buf) \<and>
      (\<forall>q \<in> set (kept_captures idx lst ?at). unat (snd q) \<noteq> off)"
  proof (cases "find (\<lambda>(s, _). unat s = idx) ?at")
    case None
    then have "off = length ?buf" "off < MAX_OPS * w" using f by simp_all
    moreover have "unat (snd q) + w \<le> length ?buf" if "q \<in> set ?at" for q
      using a that by (cases q) (auto simp: arena_ok_def entry_ok_def)
    ultimately show ?thesis using a w(2) by (fastforce simp: arena_ok_def kept_captures_def)
  next
    case (Some so)
    obtain s o' where so: "so = (s, o')" by force
    have "so \<in> set ?at" "case so of (s, _) \<Rightarrow> unat s = idx" using find_Some_mem [OF Some] by blast+
    then have at: "(s, o') \<in> set ?at" "unat s = idx" by (simp_all add: so)
    have off: "off = unat o'" using f Some so by simp
    have "unat (snd q) \<noteq> off" if q: "q \<in> set (kept_captures idx lst ?at)" for q
    proof
      assume "unat (snd q) = off"
      then have "snd q = snd (s, o')" using off by (simp add: unsigned_word_eqI)
      moreover have "q \<in> set ?at" "fst q \<noteq> s" using q at(2) by (auto simp: kept_captures_def)
      moreover have "inj_on snd (set ?at)" using a by (simp add: arena_ok_def distinct_map)
      ultimately have "q = (s, o')" using at(1) by (meson inj_onD)
      then show False using \<open>fst q \<noteq> s\<close> by simp
    qed
    moreover have "entry_ok w n code ?buf (s, o')" using a at(1) by (auto simp: arena_ok_def)
    ultimately show ?thesis by (simp add: off entry_ok_def)
  qed
  then show "w dvd off" "off = length ?buf \<and> off < MAX_OPS * w \<or> off + w \<le> length ?buf"
    "\<forall>q \<in> set (kept_captures idx lst ?at). unat (snd q) \<noteq> off" by blast+
  show "\<forall>q \<in> set (kept_captures idx lst ?at). unat (fst q) \<noteq> idx" by (auto simp: kept_captures_def)
qed

text \<open>What becomes of the arena.\<close>

definition new_capture :: "nat \<Rightarrow> nat \<Rightarrow> nat option \<Rightarrow> (u32 \<times> u32) list" where
  "new_capture idx lst capture_at =
     (case capture_at of Some off \<Rightarrow> if idx \<noteq> lst \<and> idx < 4294967296 then [(of_nat idx, of_nat off)] else [] | None \<Rightarrow> [])"

lemma arena_after_remove:
  assumes a: "arena_ok w (length rows) (\<lambda>s. row_seq bits dim (rows ! s)) (ix_sync_capture_buf ix) (ix_sync_capture_at ix)"
    and w: "w = dim div codes_per_byte bits" "0 < w" "MAX_OPS * w \<le> 4294967296" "ix_bit_width ix = bits"
    and idx: "idx < length rows" "lst = length rows - 1"
    and out: "idx \<noteq> lst \<Longrightarrow> out = row_seq bits dim (rows ! lst) \<and> length out = w"
  shows "\<exists>buf'. (if idx \<noteq> lst then capture_write w (capture_place e ix dim idx) out (ix_sync_capture_buf ix) else Some (ix_sync_capture_buf ix)) = Some buf' \<and>
    arena_ok w lst (\<lambda>s. row_seq bits dim (list_swap_remove idx rows ! s)) buf'
      (kept_captures idx lst (ix_sync_capture_at ix) @ new_capture idx lst (capture_place e ix dim idx))"
proof -
  let ?at = "ix_sync_capture_at ix" and ?buf = "ix_sync_capture_buf ix" and ?code = "\<lambda>s. row_seq bits dim (list_swap_remove idx rows ! s)"
  have "unat s < lst \<and> ?code (unat s) = row_seq bits dim (rows ! unat s)" if "(s, o') \<in> set ?at" "unat s \<noteq> idx" "unat s \<noteq> lst" for s o'
  proof -
    have "unat s < length rows" using a that(1) by (auto simp: arena_ok_def entry_ok_def)
    then have "unat s < length rows - 1" using that(3) idx(2) by linarith
    then show ?thesis using list_swap_remove_nth [OF idx(1), of "unat s"] that(2) idx(2) by simp
  qed
  then have kept: "arena_ok w lst ?code ?buf (kept_captures idx lst ?at)"
    unfolding kept_captures_def by (intro arena_retire [OF a]) auto
  show ?thesis
  proof (cases "idx = lst \<or> capture_place e ix dim idx = None")
    case True
    then show ?thesis using kept by (auto simp: new_capture_def capture_write_def split: option.split)
  next
    case False
    then obtain off where place: "capture_place e ix dim idx = Some off" and ne: "idx \<noteq> lst" by auto
    have w1: "w = dim div codes_per_byte (ix_bit_width ix)" using w(1,4) by simp
    note cp = capture_place_ok(1-3) [OF a w1 w(2) place] capture_place_ok(4,5) [where lst = lst, OF a w1 w(2) place]
    obtain buf' where b: "capture_write w (Some off) out ?buf = Some buf'" "arena_ok w lst ?code buf' (kept_captures idx lst ?at)"
      "off + w \<le> length buf'" "take w (drop off buf') = out"
      by (rule arena_write [OF kept cp(2,3,4) w(2) conjunct2 [OF out [OF ne]]])
    have il: "idx < lst" using idx ne by linarith
    have code: "take w (drop off buf') = ?code idx"
      using b(4) out ne list_swap_remove_nth [OF idx(1), of idx] il idx(2) by simp
    show ?thesis
    proof (cases "idx < 4294967296")
      case True
      then show ?thesis
        using b(1) arena_push [OF b(2) cp(2) b(3) code cp(4,5) w(2,3) il True] ne place by (simp add: new_capture_def)
    next
      case big: False
      then show ?thesis using b(1,2) ne place by (simp add: new_capture_def)
    qed
  qed
qed

definition removed_elsewhere :: "index \<Rightarrow> nat \<Rightarrow> index \<Rightarrow> bool" where
  "removed_elsewhere ix idx ix' \<longleftrightarrow>
     ix_dim ix' = ix_dim ix \<and> ix_bit_width ix' = ix_bit_width ix \<and> ix_tqplus_shift ix' = ix_tqplus_shift ix \<and>
     ix_tqplus_scale ix' = ix_tqplus_scale ix \<and> ix_mapped ix' = ix_mapped ix \<and> ix_sync_cursor ix' = ix_sync_cursor ix \<and>
     ix_sync_path ix' = ix_sync_path ix \<and> ix_sync_pending ix' = ix_sync_pending ix \<and> ix_calib_gen ix' = ix_calib_gen ix \<and>
     ix_sync_fresh ix' = ix_sync_fresh ix \<union> {s. s \<in> {idx, ix_n_vectors ix - 1} \<and> s < sync_watermark ix}"

lemma update_same:
  "ix_blocked x = b \<Longrightarrow> ix_sync_capture_buf x = f \<Longrightarrow>
    x\<lparr>ix_blocked := b, ix_sync_capture_buf := f, ix_sync_capture_at := a\<rparr> = (x\<lparr>ix_sync_capture_at := a\<rparr> :: index)"
  by (cases x) simp

theorem swap_remove_represents:
  assumes rep: "represents e ix rows" and cap: "capture_ok ix rows" and idx: "idx < length rows"
  shows "\<exists>ix'. swap_remove e ix idx = (ix', Returned (length rows - 1)) \<and> represents e ix' (list_swap_remove idx rows) \<and>
    capture_ok ix' (list_swap_remove idx rows) \<and> removed_elsewhere ix idx ix'"
proof -
  let ?lst = "length rows - 1" and ?bits = "ix_bit_width ix" and ?t = "e_target e"
  obtain dim where d: "ix_dim ix = Some dim" using representsD(7) [OF rep] idx by (cases "ix_dim ix") auto
  note g = representsD(8) [OF rep d] and len = representsD(10) [OF rep d] and h = representsD(11) [OF rep d] and n = representsD(1,2) [OF rep]
  note gd = geom_okD [OF g]
  let ?w = "dim div codes_per_byte ?bits"
  define m where "m = marked ix idx"
  have m: "ix_dim m = Some dim" "ix_bit_width m = ?bits" "ix_packed_codes m = ix_packed_codes ix" "ix_scales m = ix_scales ix"
    "ix_blocked m = ix_blocked ix" "ix_sync_capture_buf m = ix_sync_capture_buf ix" "ix_sync_capture_at m = ix_sync_capture_at ix"
    by (simp_all add: m_def marked_def d)
  define place where "place = capture_place e m dim idx"
  obtain k where k: "dim = k * 8" using gd(3) by blast
  have bpv: "dim * ?bits div 8 = ?bits * (dim div 8)" by (simp add: k mult.assoc [symmetric])
  have lr: "length (map fst rows) = length rows" "idx < length (map fst rows)" using idx by simp_all
  note hr = holds_rows_remove [OF g len lr(2) h, unfolded lr(1)]
  have w0: "0 < ?w" by (rule gd(5))
  have "?w \<le> dim" by (rule div_le_dividend)
  then have "?w \<le> 16384" using representsD(9) [OF rep d] unfolding MAX_DIM_def by linarith
  then have w32: "MAX_OPS * ?w \<le> 4294967296" unfolding MAX_OPS_def by linarith
  have a: "arena_ok ?w (length rows) (\<lambda>s. row_seq ?bits dim (rows ! s)) (ix_sync_capture_buf m) (ix_sync_capture_at m)"
    using cap by (simp add: capture_ok_def d m)
  define scales' where "scales' = take ?lst (if idx \<noteq> ?lst then (ix_scales ix)[idx := ix_scales ix ! ?lst] else ix_scales ix)"
  have scales': "scales' = map snd (list_swap_remove idx rows)"
  proof -
    have ne: "rows \<noteq> []" using idx by auto
    have e: "scales' = list_swap_remove idx (map snd rows)"
      unfolding scales'_def n(2) by (rule list_swap_remove_take) (use idx in simp_all)
    show ?thesis unfolding e by (rule list_swap_remove_map [OF ne])
  qed
  define ix2 where "ix2 = m\<lparr>ix_packed_codes := map_option (packed_swap_remove (?bits * (dim div 8)) idx ?lst) (ix_packed_codes ix),
      ix_scales := scales', ix_n_vectors := ?lst\<rparr>"
  define at' where "at' = kept_captures idx ?lst (ix_sync_capture_at ix) @ new_capture idx ?lst place"
  define out where "out = (case ix_blocked ix of Some c \<Rightarrow> snd (cache_swap_remove ?t ?bits dim idx ?lst c) | None \<Rightarrow> row_seq ?bits dim (rows ! ?lst))"
  have out: "out = row_seq ?bits dim (rows ! ?lst) \<and> length out = ?w" if "idx \<noteq> ?lst"
    using hr(2) [OF _ that] idx by (auto simp: out_def row_seq_def length_extract_row [OF gd(1,2)] split: option.split)
  obtain buf' where buf': "(if idx \<noteq> ?lst then capture_write ?w place out (ix_sync_capture_buf m) else Some (ix_sync_capture_buf m)) = Some buf'"
    "arena_ok ?w ?lst (\<lambda>s. row_seq ?bits dim (list_swap_remove idx rows ! s)) buf' at'"
    using arena_after_remove [OF a refl w0 w32 m(2) idx refl out, of e] unfolding place_def at'_def m(7) by blast
  define blocked' where "blocked' = map_option (\<lambda>c. fst (cache_swap_remove ?t ?bits dim idx ?lst c)) (ix_blocked ix)"
  define fin where "fin = (case ix_blocked ix of None \<Rightarrow> ix_sync_capture_buf ix | Some _ \<Rightarrow> buf')"
  have fin_ok: "arena_ok ?w ?lst (\<lambda>s. row_seq ?bits dim (list_swap_remove idx rows ! s)) fin at'"
  proof (cases "ix_blocked ix")
    case None
    then have "ix_packed_codes m \<noteq> None" using h m(3) by (simp add: holds_rows_def)
    then have "place = None" by (auto simp: place_def capture_place_def Let_def case_prod_beta)
    then show ?thesis using buf' None by (simp add: fin_def m capture_write_def split: if_splits)
  qed (use buf'(2) in \<open>simp add: fin_def\<close>)
  have run: "swap_remove e ix idx = (ix2\<lparr>ix_blocked := blocked', ix_sync_capture_buf := fin, ix_sync_capture_at := at'\<rparr>, Returned ?lst)"
  proof -
    have gt: "\<not> \<not> idx < ix_n_vectors ix" using idx n by simp
    have bg: "blocked_geometry ?lst ?bits dim = (nblk ?lst, ?w, nblk ?lst * ?w * BLOCK)" by (simp add: blocked_geometry_def Let_def)
    show ?thesis
    proof (cases "ix_blocked ix")
      case None
      have "swap_remove e ix idx = (ix2\<lparr>ix_sync_capture_at := at'\<rparr>, Returned ?lst)"
        unfolding swap_remove_def if_not_P [OF representsD(4) [OF rep]] if_not_P [OF gt] Let_def
        unfolding marked_eq [OF refl, unfolded Let_def] m_def [symmetric]
        unfolding m option.case n(1) bpv place_def [symmetric] scales'_def [symmetric] ix2_def [symmetric]
          kept_captures_def [symmetric] new_capture_def [symmetric]
        using None by (simp add: ix2_def bg m at'_def)
      moreover have "ix_blocked ix2 = None" "ix_sync_capture_buf ix2 = ix_sync_capture_buf ix" using None m by (simp_all add: ix2_def)
      ultimately show ?thesis using update_same [of ix2] by (simp add: blocked'_def fin_def None)
    next
      case (Some c)
      define l where ld: "l = length rows - 1"
      have o: "snd (cache_swap_remove ?t ?bits dim idx ?lst c) = out" unfolding out_def Some by simp
      show ?thesis
        unfolding swap_remove_def if_not_P [OF representsD(4) [OF rep]] if_not_P [OF gt] Let_def
        unfolding marked_eq [OF refl, unfolded Let_def] m_def [symmetric]
        unfolding m option.case n(1) bpv place_def [symmetric] scales'_def [symmetric] ix2_def [symmetric]
          kept_captures_def [symmetric] new_capture_def [symmetric]
        unfolding ld [symmetric]
        using buf'(1) [unfolded m(6), folded ld]
        by (cases "idx = l") (simp_all add: ix2_def [folded ld] bg [folded ld] m fin_def blocked'_def [folded ld] at'_def [folded ld]
            Some o [folded ld] case_prod_beta comp_def)
    qed
  qed
  let ?ix' = "ix2\<lparr>ix_blocked := blocked', ix_sync_capture_buf := fin, ix_sync_capture_at := at'\<rparr>"
  have elsewhere: "removed_elsewhere ix idx ?ix'" by (simp add: removed_elsewhere_def ix2_def m_def marked_def)
  have "map fst (list_swap_remove idx rows) = list_swap_remove idx (map fst rows)"
    using idx by (intro list_swap_remove_map [symmetric]) auto
  moreover have "\<forall>x \<in> set (list_swap_remove idx (map fst rows)). length x = ?bits * (dim div 8)"
    using len set_list_swap_remove [OF lr(2)] by blast
  ultimately have "represents e ?ix' (list_swap_remove idx rows)"
    using hr(1) representsD(3-6) [OF rep] representsD(9) [OF rep d] g d
    by (intro representsI [where dim = dim])
      (simp_all add: ix2_def m_def marked_def scales' blocked'_def codec_ok_def calibration_ok_def)
  moreover have "capture_ok ?ix' (list_swap_remove idx rows)"
    using fin_ok by (simp add: capture_ok_def ix2_def m_def marked_def d)
  ultimately show ?thesis using run elsewhere by blast
qed

lemma swap_remove_out_of_range: "\<not> idx < ix_n_vectors ix \<Longrightarrow> swap_remove e ix idx = (ix, Panicked)"
  by (simp add: swap_remove_def)

end
