(* ===== verification/DemoIndex.thy ===== *)
theory DemoIndex
  imports IndexAdd IndexRemove RotationTheorems
begin

text \<open>
  A concrete build and a concrete index for the witnesses: an arithmetic whose Lloyd iteration stops at
  once, a two-bit codebook with boundaries 1, 2 and 3 (as bit patterns), and an index of two rows.
\<close>

definition demo_arith :: float_ops where
  "demo_arith = demo_ops\<lparr>f_add := \<lambda>x y. y, f_mul := \<lambda>x y. x, d_add := \<lambda>x y. y, d_mul := \<lambda>x y. y, d_div := \<lambda>x y. x\<rparr>"

definition demo_env :: "nat env" where
  "demo_env = \<lparr>e_target = \<lparr>t_arch = X86, t_vector_major = True, t_i8mm = False, t_2bit_vm8 = False, t_planes = False, t_planes4 = False\<rparr>,
     e_cpu = scalar_cpu, e_fo = demo_arith, e_rng = demo_rng, e_beta = \<lambda>_ _. Some \<lparr>beta_cdf = \<lambda>_. 0, beta_pdf = \<lambda>_. 0\<rparr>,
     e_sel = \<lambda>xs k. sort xs, e_threads = 4\<rparr>"

lemma demo_env_fields [simp]:
  "e_fo demo_env = demo_arith" "e_rng demo_env = demo_rng" "e_cpu demo_env = scalar_cpu"
  by (simp_all add: demo_env_def)

lemma demo_gt [simp]: "f64_gt PROB_FLOOR 0" "f64_gt LLOYD_TOL 0"
  by (simp_all add: f64_gt_def f64_is_nan_def f64_ord_def f64_mag_def PROB_FLOOR_def LLOYD_TOL_def)

abbreviation demo_beta :: beta where
  "demo_beta \<equiv> \<lparr>beta_cdf = \<lambda>_. 0, beta_pdf = \<lambda>_. 0\<rparr>"

lemma demo_round:
  assumes "length cs = n"
  shows "lloyd_round demo_arith demo_beta n cs = cs"
proof -
  have "cell_mean demo_arith demo_beta old lo hi = old" for old lo hi
    by (simp add: cell_mean_def demo_arith_def demo_ops_def)
  then show ?thesis by (auto simp: lloyd_round_def Let_def assms [symmetric] intro: nth_equalityI)
qed

lemma demo_max_change: "max_change_of demo_arith cs cs = 0"
proof -
  have "max_change_of demo_arith cs cs = foldl f64_max 0 (map (\<lambda>_. 0) cs)"
    by (simp add: max_change_of_def demo_arith_def demo_ops_def zip_same_conv_map f64_abs_def f64_zero_def comp_def)
  also have "\<dots> = 0" by (induction cs) (simp_all add: f64_max_def f64_is_nan_def f64_mag_def)
  finally show ?thesis .
qed

lemma demo_codebook: "codebook demo_arith (e_beta demo_env) 2 8 = Some ([1, 2, 3], [0, 1, 2, 3])"
proof -
  have u: "[0..<4] = [0, 1, 2, 3 :: nat]" "[0..<3] = [0, 1, 2 :: nat]" by (simp_all add: upt_rec)
  have i: "initial_centroids demo_arith a 4 = [0, 1, 2, 3]" for a
    by (simp add: initial_centroids_def Let_def u demo_arith_def demo_ops_def)
  have l: "lloyd_loop demo_arith demo_beta 4 LLOYD_TOL (Suc k) [0, 1, 2, 3] = [0, 1, 2, 3]" for k
    by (simp add: demo_round demo_max_change)
  have s: "(200 :: nat) = Suc 199" by simp
  have "lloyd_loop demo_arith demo_beta 4 LLOYD_TOL 200 [0, 1, 2, 3] = [0, 1, 2, 3]" unfolding s by (rule l)
  then show ?thesis
    by (simp add: codebook_lloyd lloyd_max_def Let_def demo_env_def i u) (simp add: demo_arith_def demo_ops_def)
qed

lemma demo_index_coder:
  assumes "ix_bit_width ix = 2" "ix_tqplus_shift ix = []"
  shows "\<exists>c. index_coder demo_env ix 8 = Some c \<and> wf_coder demo_arith c"
proof -
  have "rotation_new demo_arith demo_rng 8 \<noteq> None" by (simp add: rotation_new_None MAX_DIM_def)
  then obtain rot where rot: "rotation_new demo_arith demo_rng 8 = Some rot" by blast
  let ?c = "\<lparr>c_rot = rot, c_bits = 2, c_dim = 8, c_boundaries = [1, 2, 3], c_centroids = [0, 1, 2, 3], c_calibration = None\<rparr>"
  have c: "index_coder demo_env ix 8 = Some ?c"
    using assms by (simp add: index_coder_def rot demo_codebook calibrated_pair_def)
  have "\<forall>j < 3. \<forall>i \<le> j. f32_le ([1, 2, 3] ! i) ([1, 2, 3 :: f32] ! j)"
  proof (intro allI impI)
    fix i j :: nat
    assume "j < 3" "i \<le> j"
    then have "i = 0 \<and> j = 0 \<or> i = 0 \<and> j = 1 \<or> i = 0 \<and> j = 2 \<or> i = 1 \<and> j = 1 \<or> i = 1 \<and> j = 2 \<or> i = 2 \<and> j = 2" by auto
    moreover have "f32_le 1 1" "f32_le 1 2" "f32_le 1 3" "f32_le 2 2" "f32_le 2 3" "f32_le 3 3"
      by (simp_all add: f32_le_def f32_is_nan_def f32_ord_def f32_mag_def f32_inf_mag_def f32_sign_def)
    ultimately show "f32_le ([1, 2, 3] ! i) ([1, 2, 3 :: f32] ! j)" by (elim disjE) simp_all
  qed
  then have "wf_coder demo_arith ?c"
    using rotation_new_wf [OF rot] by (simp add: wf_coder_def ascending_def coder_quant_def Let_def)
  then show ?thesis using c by blast
qed

section \<open>An index of two rows\<close>

definition demo_parts :: "from_parts_error + index" where
  "demo_parts = from_parts demo_arith (Some 8) 2 2 [1, 2, 3, 4] [5, 6] [] []"

definition demo_index :: index where
  "demo_index = (case demo_parts of Inr ix \<Rightarrow> ix)"

lemma demo_parts: "demo_parts = Inr demo_index"
proof -
  have "demo_parts \<in> range Inr"
    by (simp add: demo_parts_def from_parts_def MAX_DIM_def checked_mul_def find_at_def f32_is_finite_def f32_lt_def
        f32_is_nan_def f32_ord_def f32_mag_def f32_inf_mag_def f32_sign_def f32_zero_def MAX_VECTOR_SCALE_def normalize_calibration_def Let_def)
  then obtain ix where e: "demo_parts = Inr ix" by blast
  show ?thesis unfolding demo_index_def e sum.case ..
qed

definition demo_rows :: "row list" where
  "demo_rows = [([1, 2], 5), ([3, 4], 6)]"

lemma demo_index_represents: "represents demo_env demo_index demo_rows"
proof -
  note r = from_parts_represents [OF demo_parts [unfolded demo_parts_def], of demo_env]
  have "parts_rows (Some 8) 2 2 [1, 2, 3, 4] [5, 6] = demo_rows"
    by (simp add: parts_rows_def demo_rows_def rows_of_def row_slice_def upt_rec numeral_2_eq_2)
  then show ?thesis using r by simp
qed

lemma demo_index_eq:
  "demo_index = (blank_index (Some 8) 2)\<lparr>ix_n_vectors := 2, ix_packed_codes := Some [1, 2, 3, 4], ix_scales := [5, 6]\<rparr>"
proof -
  obtain s c where n: "normalize_calibration [] [] = (s, c)"
    and e: "demo_index = (blank_index (Some 8) 2)\<lparr>ix_n_vectors := 2, ix_packed_codes := Some [1, 2, 3, 4], ix_scales := [5, 6],
      ix_tqplus_shift := s, ix_tqplus_scale := c\<rparr>"
    by (rule from_parts_cases [OF demo_parts [unfolded demo_parts_def]])
  from n have "s = []" "c = []" by (simp_all add: normalize_calibration_def)
  then show ?thesis unfolding e by (simp add: blank_index_def)
qed

lemma demo_index_fields [simp]:
  "ix_dim demo_index = Some 8" "ix_bit_width demo_index = 2" "ix_tqplus_shift demo_index = []" "ix_tqplus_scale demo_index = []"
  "ix_n_vectors demo_index = 2" "ix_sync_capture_at demo_index = []" "ix_sync_capture_buf demo_index = []"
  by (simp_all add: demo_index_eq blank_index_def)

lemma demo_index_captures: "capture_ok demo_index demo_rows"
  by (rule capture_ok_empty) simp_all

end
