(* ===== verification/IndexTheorems.thy ===== *)
theory IndexTheorems
  imports DemoIndex
begin

text \<open>
  What the in-memory index promises: what an add and a removal do to the rows it represents, panics
  included; that the calibration fit is the one of sorted columns; that the codebook memo cannot be
  observed.
\<close>

section \<open>Rows\<close>

text \<open>C34. \<open>add_2d\<close> is all or nothing. It returns with exactly the encoded input rows appended to the
  represented ones, refuses with the index untouched, or, whatever panics inside (the encoder with rows
  half appended, the repack), unwinds to an index with the old rows and the old dimension.\<close>

theorem add_2d_all_or_nothing:
  assumes "represents e ix rows" "index_coder e ix dim = Some c" "wf_coder (e_fo e) c" "add_2d e ft ix vectors dim = (ix', out)"
  shows "case out of
      Returned (Inr _) \<Rightarrow> input_ok vectors \<and> (vectors \<noteq> [] \<longrightarrow> ix_dim ix' = Some dim) \<and>
        represents e ix' (rows @ map (encode_row (e_fo e) c) (rows_of dim (length vectors div dim) vectors))
    | Returned (Inl err) \<Rightarrow> ix' = ix
    | Panicked \<Rightarrow> represents e ix' rows \<and> ix_dim ix' = ix_dim ix \<and> (ft = no_fault \<longrightarrow> length vectors mod dim \<noteq> 0)"
  using add_2d_represents [OF assms(1,4,2,3)] by (auto split: outcome.split sum.split)

theorem add_2d_all_or_nothing_witness:
  "\<exists>c. index_coder demo_env demo_index 8 = Some c \<and>
     (case add_2d demo_env \<lparr>ft_encode = None, ft_repack = True\<rparr> demo_index [1, 2, 3, 4, 5, 6, 7, 8] 8 of
        (ix', Returned (Inr _)) \<Rightarrow> represents demo_env ix' (demo_rows @ map (encode_row demo_arith c) (rows_of 8 1 [1, 2, 3, 4, 5, 6, 7, 8]))
      | (ix', Returned (Inl _)) \<Rightarrow> ix' = demo_index
      | (ix', Panicked) \<Rightarrow> represents demo_env ix' demo_rows)"
proof -
  obtain c where c: "index_coder demo_env demo_index 8 = Some c" "wf_coder (e_fo demo_env) c"
    using demo_index_coder [of demo_index] by auto
  obtain ix' out where run: "add_2d demo_env \<lparr>ft_encode = None, ft_repack = True\<rparr> demo_index [1, 2, 3, 4, 5, 6, 7, 8] 8 = (ix', out)"
    by force
  show ?thesis
    using add_2d_all_or_nothing [OF demo_index_represents c run] c(1) unfolding run by (auto split: outcome.splits sum.splits)
qed

text \<open>C35. \<open>swap_remove\<close> of a slot in range returns the slot the last row moved from and leaves exactly the
  rows of \<open>Vec::swap_remove\<close>; the captures kept for the next sync still hold the bytes of the rows they
  are for, and every committed slot that changed is marked.\<close>

theorem swap_remove_rows:
  assumes "represents e ix rows" "capture_ok ix rows" "idx < length rows"
  shows "\<exists>ix'. swap_remove e ix idx = (ix', Returned (length rows - 1)) \<and> represents e ix' (list_swap_remove idx rows) \<and>
    capture_ok ix' (list_swap_remove idx rows) \<and>
    ix_sync_fresh ix' = ix_sync_fresh ix \<union> {s. s \<in> {idx, length rows - 1} \<and> s < sync_watermark ix}"
  using swap_remove_represents [OF assms] representsD(1) [OF assms(1)] by (auto simp: removed_elsewhere_def)

theorem swap_remove_rows_witness:
  "\<exists>ix'. swap_remove demo_env demo_index 0 = (ix', Returned 1) \<and> represents demo_env ix' [([3, 4], 6)]"
proof -
  have "list_swap_remove 0 demo_rows = [([3, 4], 6)]" by (simp add: demo_rows_def list_swap_remove_def)
  then show ?thesis
    using swap_remove_rows [OF demo_index_represents demo_index_captures, of 0] by (auto simp: demo_rows_def)
qed

section \<open>Calibration\<close>

text \<open>C36. The calibration fit maps, in every coordinate, the two order statistics of the sorted sample column
  onto the outer centroids. The tiles, the number of worker threads and the partial sorts leave no trace
  in the result.\<close>

theorem fit_uses_order_statistics:
  assumes "nth_selector sel" "length rotated = n * dim"
    and "beta_new (d_div fo (d_sub fo (d_of_usize fo dim) f64_one) f64_two) (d_div fo (d_sub fo (d_of_usize fo dim) f64_one) f64_two) = Some beta"
    and "tqplus_anchor fo beta centroids = (p_lo, p_hi, qc_lo, qc_hi)"
    and "lo = d_to_usize fo (d_mul fo (d_of_usize fo n) p_lo)" "lo + 1 < n"
    and "hi = max (min (d_to_usize fo (d_mul fo (d_of_usize fo n) p_hi)) (n - 1)) (lo + 1)"
  shows "\<exists>shift scale. compute_tqplus_calibration fo beta_new sel threads rotated n dim centroids = Some (shift, scale) \<and>
    length shift = dim \<and> length scale = dim \<and>
    (\<forall>d < dim. (shift ! d, scale ! d) =
       fit_pair fo qc_lo (f_sub fo qc_hi qc_lo) (sort (column_of rotated n dim d) ! lo) (sort (column_of rotated n dim d) ! hi))"
  using compute_tqplus_columns [where fo = fo and beta_new = beta_new and dim = dim and n = n and beta = beta and centroids = centroids,
    OF assms] by simp

theorem fit_uses_order_statistics_witness:
  "\<exists>shift scale qc_lo qc_hi. compute_tqplus_calibration demo_arith (\<lambda>_ _. Some \<lparr>beta_cdf = \<lambda>_. f64_one, beta_pdf = \<lambda>_. 0\<rparr>)
      (\<lambda>xs k. sort xs) 4 [4, 1, 3, 2] 4 1 [2] = Some (shift, scale) \<and>
    (shift ! 0, scale ! 0) = fit_pair demo_arith qc_lo (f_sub demo_arith qc_hi qc_lo)
      (sort (column_of [4, 1, 3, 2] 4 1 0) ! 0) (sort (column_of [4, 1, 3, 2] 4 1 0) ! 3)"
proof -
  let ?beta = "\<lparr>beta_cdf = \<lambda>_. f64_one, beta_pdf = \<lambda>_. 0\<rparr>"
  define c where "c = f32_max f32_zero (f32_abs 2)"
  have a: "tqplus_anchor demo_arith ?beta [2] = (0, f64_one, f32_neg c, c)"
    by (simp add: tqplus_anchor_def c_def Let_def demo_arith_def demo_ops_def)
  have ops: "d_mul demo_arith x y = y" "d_to_usize demo_arith y = unat y" for x y by (simp_all add: demo_arith_def demo_ops_def)
  have hi: "3 = max (min (d_to_usize demo_arith (d_mul demo_arith (d_of_usize demo_arith 4) f64_one)) (4 - 1)) (0 + 1)"
    by (simp add: ops f64_one_def)
  have "0 = d_to_usize demo_arith (d_mul demo_arith (d_of_usize demo_arith 4) 0)" by (simp add: ops)
  from fit_uses_order_statistics [where fo = demo_arith and beta_new = "\<lambda>_ _. Some ?beta" and dim = 1 and n = 4 and centroids = "[2]"
      and rotated = "[4, 1, 3, 2]" and threads = 4, OF nth_selector_sort _ refl a this _ hi]
  show ?thesis by auto
qed

end
