(* ===== verification/IndexCalibrate.thy ===== *)
theory IndexCalibrate
  imports IndexAdd IndexRemove
begin

text \<open>
  Calibrating an index (\<open>calibrate_2d\<close>, \<open>calibrate\<close> and \<open>reencode_stored_rows\<close> of \<open>lib.rs\<close>): the fit,
  the re-encoding of every stored row from its reconstruction, and the commit. The re-encoding works in
  chunks of 4096 rows; the rows it produces are those of one row at a time.
\<close>

section \<open>Definitions\<close>

datatype calibrate_error =
    CA_MappedReadOnly
  | CA_SampleTooSmall nat nat
  | CA_DimMismatch nat nat
  | CA_ZeroDim
  | CA_DimNotMultipleOf8 nat
  | CA_DimTooLarge nat
  | CA_SampleBufferNotMultipleOfDim nat nat
  | CA_DegenerateSample
  | CA_InvalidInputValue nat nat f32

definition REENCODE_CHUNK_ROWS :: nat where "REENCODE_CHUNK_ROWS = 4096"

text \<open>The code of coordinate \<open>d\<close> in a row of group bytes.\<close>

definition decode_code :: "nat \<Rightarrow> bytes \<Rightarrow> nat \<Rightarrow> nat" where
  "decode_code bits row d =
     (let cpb = 8 div bits;
          field = (if bits = 3 then 4 else bits);
          mask = push_bit bits 1 - 1
      in unat (drop_bit ((cpb - 1 - d mod cpb) * field) (row ! (d div cpb)) AND mask))"

text \<open>A row's reconstruction in rotated coordinates, and the norm it is re-encoded with.\<close>

definition recon_row :: "float_ops \<Rightarrow> nat \<Rightarrow> nat \<Rightarrow> f32 list \<Rightarrow> f32 list \<times> f32 list \<Rightarrow> bytes \<Rightarrow> f32 \<Rightarrow> f32 \<times> f32 list" where
  "recon_row fo bits dim centroids = (\<lambda>(old_shift, old_inv) row scale.
     (let out = map (\<lambda>d. f_sub fo (f_mul fo (centroids ! decode_code bits row d) (old_inv ! d)) (old_shift ! d)) [0..<dim];
          sumsq = foldl (\<lambda>acc x. d_add fo acc (d_mul fo (d_of_f fo x) (d_of_f fo x))) f64_zero out
      in (f_of_d fo (d_mul fo (d_of_f fo scale) sumsq), out)))"

text \<open>The pair the stored codes decode under.\<close>

definition decode_pair :: "float_ops \<Rightarrow> nat \<Rightarrow> (f32 list \<times> f32 list) option \<Rightarrow> f32 list \<times> f32 list" where
  "decode_pair fo dim calibration =
     (case calibration of
        None \<Rightarrow> (replicate dim f32_zero, replicate dim f32_one)
      | Some (shift, scale) \<Rightarrow> (shift, map (f_div fo f32_one) scale))"

text \<open>One chunk of rows: extract, reconstruct, encode. \<open>None\<close> is a panic of the encoder.\<close>

definition reencode_chunk ::
  "cpu \<Rightarrow> float_ops \<Rightarrow> nat \<Rightarrow> nat \<Rightarrow> f32 list \<Rightarrow> f32 list \<Rightarrow> f32 list \<times> f32 list \<Rightarrow> f32 list \<times> f32 list \<Rightarrow> bytes \<Rightarrow> f32 list \<Rightarrow>
   nat \<Rightarrow> nat \<Rightarrow> bytes \<times> f32 list \<Rightarrow> (bytes \<times> f32 list) option" where
  "reencode_chunk cpu fo bits dim boundaries centroids old_pair new_pair packed scales start rows out =
     (let bytes_per_row = bits * (dim div 8);
          n_byte_groups = dim div (8 div bits);
          codes_flat = extract_codes_flat (take (rows * bytes_per_row) (drop (start * bytes_per_row) packed)) rows bits dim;
          recon = map (\<lambda>i. recon_row fo bits dim centroids old_pair
                              (take n_byte_groups (drop (i * n_byte_groups) codes_flat)) (scales ! (start + i))) [0..<rows]
      in encode_prerotated cpu fo (concat (map snd recon)) (map fst recon) rows dim boundaries centroids bits (Some new_pair) out)"

function reencode_loop :: "(nat \<Rightarrow> nat \<Rightarrow> 'o \<Rightarrow> 'o option) \<Rightarrow> nat \<Rightarrow> nat \<Rightarrow> nat \<Rightarrow> 'o \<Rightarrow> 'o option" where
  "reencode_loop chunk chunk_rows n start out =
     (if start < n \<and> 0 < chunk_rows
      then let rows = min chunk_rows (n - start)
           in (case chunk start rows out of
                 None \<Rightarrow> None
               | Some out \<Rightarrow> reencode_loop chunk chunk_rows n (start + rows) out)
      else Some out)"
  by pat_completeness auto
termination by (relation "measure (\<lambda>(_, _, n, start, _). n - start)") auto

declare reencode_loop.simps [simp del]

text \<open>Reading the packed rows materializes them; \<open>None\<close> is a panic.\<close>

definition reencode_stored_rows :: "'r env \<Rightarrow> index \<Rightarrow> nat \<Rightarrow> f32 list \<times> f32 list \<Rightarrow> index \<times> (bytes \<times> f32 list) option" where
  "reencode_stored_rows e ix dim new_pair =
     (let n = ix_n_vectors ix;
          bits = ix_bit_width ix;
          packed = index_packed e ix;
          ix = materialize_packed e ix
      in (ix, do {
            boundaries \<leftarrow> ix_boundaries ix;
            centroids \<leftarrow> ix_centroids ix;
            reencode_loop
              (reencode_chunk (e_cpu e) (e_fo e) bits dim boundaries centroids (decode_pair (e_fo e) dim (calibrated_pair ix)) new_pair
                 packed (ix_scales ix))
              (min REENCODE_CHUNK_ROWS n) n 0 ([], [])
          }))"

text \<open>The faults: a panic in the fit, and one in the re-encoding.\<close>

record calibrate_fault =
  cf_fit :: bool
  cf_reencode :: bool

definition reset_lazy :: "index \<Rightarrow> index" where
  "reset_lazy ix = (if ix_dim ix = None then ix\<lparr>ix_rotation := None, ix_boundaries := None, ix_centroids := None\<rparr> else ix)"

definition commit_calibration :: "nat \<Rightarrow> (bytes \<times> f32 list) option \<Rightarrow> f32 list \<Rightarrow> f32 list \<Rightarrow> index \<Rightarrow> index" where
  "commit_calibration dim reencoded shift scale_tq ix =
     (let ix = ix\<lparr>ix_dim := Some dim\<rparr>;
          ix = (case reencoded of
                  None \<Rightarrow> ix
                | Some (packed, scales) \<Rightarrow> ix\<lparr>ix_packed_codes := Some packed, ix_scales := scales, ix_blocked := None\<rparr>)
      in ix\<lparr>ix_tqplus_shift := shift, ix_tqplus_scale := scale_tq, ix_calib_gen := ix_calib_gen ix + 1,
            ix_sync_capture_buf := [], ix_sync_capture_at := []\<rparr>)"

definition fit_and_commit :: "'r env \<Rightarrow> calibrate_fault \<Rightarrow> index \<Rightarrow> f32 list \<Rightarrow> nat \<Rightarrow> nat \<Rightarrow> index \<times> (calibrate_error + unit) outcome" where
  "fit_and_commit e ft ix sample n dim =
     (case seed_rotation e dim ix of
        None \<Rightarrow> (ix, Panicked)
      | Some ix \<Rightarrow>
        (case seed_codebook e dim ix of
           None \<Rightarrow> (ix, Panicked)
         | Some ix \<Rightarrow>
           (case (if cf_fit ft then None
                  else do {
                    rotation \<leftarrow> ix_rotation ix;
                    centroids \<leftarrow> ix_centroids ix;
                    fit_calibration (e_cpu e) (e_fo e) (e_beta e) (e_sel e) (e_threads e) sample n dim rotation centroids
                  }) of
              None \<Rightarrow> (reset_lazy ix, Panicked)
            | Some (shift, scale_tq) \<Rightarrow>
                if (\<forall>x \<in> set shift. f32_eq x f32_zero) \<and> (\<forall>x \<in> set scale_tq. f32_eq x f32_one)
                then (reset_lazy ix, Returned (Inl CA_DegenerateSample))
                else if 0 < ix_n_vectors ix
                then (case reencode_stored_rows e ix dim (shift, scale_tq) of
                        (ix, reencoded) \<Rightarrow>
                          if cf_reencode ft \<or> reencoded = None then (ix, Panicked)
                          else (commit_calibration dim reencoded shift scale_tq ix, Returned (Inr ())))
                else (commit_calibration dim None shift scale_tq ix, Returned (Inr ())))))"

definition calibrate_2d :: "'r env \<Rightarrow> calibrate_fault \<Rightarrow> index \<Rightarrow> f32 list \<Rightarrow> nat \<Rightarrow> index \<times> (calibrate_error + unit) outcome" where
  "calibrate_2d e ft ix sample dim =
     (if ix_mapped ix then (ix, Returned (Inl CA_MappedReadOnly))
      else case (case ix_dim ix of
              Some existing \<Rightarrow> if existing \<noteq> dim then Some (CA_DimMismatch existing dim) else None
            | None \<Rightarrow>
                if dim = 0 then Some CA_ZeroDim
                else if dim mod 8 \<noteq> 0 then Some (CA_DimNotMultipleOf8 dim)
                else if MAX_DIM < dim then Some (CA_DimTooLarge dim)
                else None) of
        Some err \<Rightarrow> (ix, Returned (Inl err))
      | None \<Rightarrow>
        if dim = 0 then (ix, Panicked)
        else if length sample mod dim \<noteq> 0 then (ix, Returned (Inl (CA_SampleBufferNotMultipleOfDim (length sample) dim)))
        else let n = length sample div dim in
          if n < MIN_CALIBRATION_ROWS then (ix, Returned (Inl (CA_SampleTooSmall n MIN_CALIBRATION_ROWS)))
          else (case first_invalid_coord (cpu_scan (e_cpu e)) sample dim of
                  None \<Rightarrow> (ix, Panicked)
                | Some (Some (vi, ci, v)) \<Rightarrow> (ix, Returned (Inl (CA_InvalidInputValue vi ci v)))
                | Some None \<Rightarrow> fit_and_commit e ft ix sample n dim))"

definition calibrate :: "'r env \<Rightarrow> calibrate_fault \<Rightarrow> index \<Rightarrow> f32 list \<Rightarrow> index \<times> (calibrate_error + unit) outcome" where
  "calibrate e ft ix sample =
     (case ix_dim ix of None \<Rightarrow> (ix, Panicked) | Some dim \<Rightarrow> calibrate_2d e ft ix sample dim)"

section \<open>Re-encoding, a row at a time\<close>

text \<open>The reference: reconstruct under the old coder, quantize under the new.\<close>

definition reencode_row :: "float_ops \<Rightarrow> coder \<Rightarrow> coder \<Rightarrow> row \<Rightarrow> row" where
  "reencode_row fo c c' r =
     quantize_row fo c' (recon_row fo (c_bits c) (c_dim c) (c_centroids c) (decode_pair fo (c_dim c) (c_calibration c))
       (extract_row (fst r) 0 (c_bits c) (c_dim c)) (snd r))"

lemma reencode_loop_rows:
  assumes step: "\<And>start rows out. start + rows \<le> n \<Longrightarrow>
      chunk start rows out = Some (fst out @ concat (map (fst \<circ> f) [start..<start + rows]), snd out @ map (snd \<circ> f) [start..<start + rows])"
    and "0 < chunk_rows" "start \<le> n"
  shows "reencode_loop chunk chunk_rows n start out
    = Some (fst out @ concat (map (fst \<circ> f) [start..<n]), snd out @ map (snd \<circ> f) [start..<n])"
  using assms(2,3)
proof (induction "n - start" arbitrary: start out rule: less_induct)
  case less
  show ?case
  proof (cases "start < n")
    case True
    define k where "k = min chunk_rows (n - start)"
    have k: "start + k \<le> n" "n - (start + k) < n - start" using True less.prems by (simp_all add: k_def)
    have u: "[start..<n] = [start..<start + k] @ [start + k..<n]" by (rule upt_split) (use k in simp_all)
    show ?thesis
      using less.hyps [OF k(2) less.prems(1) k(1)] True less.prems
      by (subst reencode_loop.simps) (simp add: k_def [symmetric] Let_def step [OF k(1)] u)
  next
    case False
    then show ?thesis using less.prems by (subst reencode_loop.simps) simp
  qed
qed

lemma concat_middle:
  assumes "\<forall>x \<in> set xs. length x = w" "s + k \<le> length xs"
  shows "take (k * w) (drop (s * w) (concat xs)) = concat (take k (drop s xs))"
proof -
  have xs: "xs = take s xs @ take k (drop s xs) @ drop k (drop s xs)" by (simp only: append_take_drop_id)
  have l: "length (concat (take s xs)) = s * w" "length (concat (take k (drop s xs))) = k * w"
  proof -
    have "\<forall>x \<in> set (take s xs). length x = w" "\<forall>x \<in> set (take k (drop s xs)). length x = w"
      using assms(1) by (auto dest!: in_set_takeD in_set_dropD)
    then show "length (concat (take s xs)) = s * w" "length (concat (take k (drop s xs))) = k * w"
      using assms(2) by (simp_all add: length_concat_rows [where w = w])
  qed
  have "concat xs = concat (take s xs) @ concat (take k (drop s xs)) @ concat (drop k (drop s xs))"
    by (subst xs) (simp only: concat_append)
  then show ?thesis using l by simp
qed

lemma reencode_chunk_rows:
  assumes wf: "wf_coder fo (c\<lparr>c_calibration := Some np\<rparr>)" and g: "geom_ok (c_bits c) (c_dim c)"
    and len: "\<forall>x \<in> set (map fst rows). length x = c_bits c * (c_dim c div 8)" and k: "start + k \<le> length rows"
  defines "f \<equiv> \<lambda>i. reencode_row fo c (c\<lparr>c_calibration := Some np\<rparr>) (rows ! i)"
  shows "reencode_chunk cpu fo (c_bits c) (c_dim c) (c_boundaries c) (c_centroids c) (decode_pair fo (c_dim c) (c_calibration c)) np
      (concat (map fst rows)) (map snd rows) start k out
    = Some (fst out @ concat (map (fst \<circ> f) [start..<start + k]), snd out @ map (snd \<circ> f) [start..<start + k])"
proof -
  let ?c' = "c\<lparr>c_calibration := Some np\<rparr>" and ?w = "c_bits c * (c_dim c div 8)" and ?nbg = "c_dim c div (8 div c_bits c)"
  let ?rec = "\<lambda>i. recon_row fo (c_bits c) (c_dim c) (c_centroids c) (decode_pair fo (c_dim c) (c_calibration c))
      (extract_row (fst (rows ! (start + i))) 0 (c_bits c) (c_dim c)) (snd (rows ! (start + i)))"
  note gd = geom_okD [OF g]
  define mid where "mid = take k (drop start (map fst rows))"
  have mid: "\<forall>x \<in> set mid. length x = ?w" "length mid = k" "\<And>i. i < k \<Longrightarrow> mid ! i = fst (rows ! (start + i))"
    using len k by (auto simp: mid_def dest!: in_set_takeD in_set_dropD)
  have packed: "take (k * ?w) (drop (start * ?w) (concat (map fst rows))) = concat mid"
    unfolding mid_def by (rule concat_middle [OF len]) (use k in simp)
  define flat where "flat = extract_codes_flat (concat mid) k (c_bits c) (c_dim c)"
  have ext: "extract_row (concat mid) (i * ?w) (c_bits c) (c_dim c) = extract_row (fst (rows ! (start + i))) 0 (c_bits c) (c_dim c)" if "i < k" for i
    using extract_concat_row [OF mid(1), of i] mid(2,3) that by simp
  have flat: "take ?nbg (drop (i * ?nbg) flat) = extract_row (fst (rows ! (start + i))) 0 (c_bits c) (c_dim c)" if i: "i < k" for i
  proof -
    have "take ?nbg (drop (i * ?nbg) (concat (map (\<lambda>v. extract_row (concat mid) (v * ?w) (c_bits c) (c_dim c)) [0..<k])))
        = map (\<lambda>v. extract_row (concat mid) (v * ?w) (c_bits c) (c_dim c)) [0..<k] ! i"
      by (rule slice_concat_rows) (use i gd in \<open>auto simp: length_extract_row\<close>)
    then show ?thesis using i ext by (simp add: flat_def extract_codes_flat_def)
  qed
  define recon where "recon = map ?rec [0..<k]"
  have "map (\<lambda>i. recon_row fo (c_bits c) (c_dim c) (c_centroids c) (decode_pair fo (c_dim c) (c_calibration c))
      (take ?nbg (drop (i * ?nbg) flat)) (map snd rows ! (start + i))) [0..<k] = recon"
    unfolding recon_def by (rule map_cong [OF refl]) (use flat k in simp)
  then have e: "reencode_chunk cpu fo (c_bits c) (c_dim c) (c_boundaries c) (c_centroids c) (decode_pair fo (c_dim c) (c_calibration c)) np
      (concat (map fst rows)) (map snd rows) start k out
    = encode_prerotated cpu fo (concat (map snd recon)) (map fst recon) k (c_dim c) (c_boundaries c) (c_centroids c) (c_bits c) (Some np) out"
    unfolding reencode_chunk_def Let_def packed flat_def [symmetric] by simp
  have "\<forall>x \<in> set (map snd recon). length x = c_dim c" by (auto simp: recon_def recon_row_def decode_pair_def Let_def split: option.split)
  then have q: "quantize_row fo ?c' (map fst recon ! i, row_slice (c_dim c) i (concat (map snd recon))) = f (start + i)" if "i < k" for i
    using that by (simp add: row_slice_concat f_def reencode_row_def recon_def)
  obtain po so where out: "out = (po, so)" by force
  have u: "[start..<start + k] = map (\<lambda>i. start + i) [0..<k]" by (simp add: map_add_from)
  have m: "map (\<lambda>i. h (quantize_row fo ?c' (map fst recon ! i, row_slice (c_dim c) i (concat (map snd recon))))) [0..<k]
      = map (h \<circ> f) [start..<start + k]" for h :: "bytes \<times> f32 \<Rightarrow> 'a"
    unfolding u map_map by (rule map_cong [OF refl]) (simp add: q)
  show ?thesis
    unfolding e unfolding out
    using encode_prerotated_rows [OF wf, of cpu "concat (map snd recon)" "map fst recon" k po so] by (simp add: m)
qed

lemma reencode_stored_represents:
  assumes rep: "represents e ix rows" and d: "ix_dim ix = Some dim" and c: "index_coder e ix dim = Some c"
    and wf: "wf_coder (e_fo e) (c\<lparr>c_calibration := Some np\<rparr>)"
    and seeded: "ix_boundaries ix = Some (c_boundaries c)" "ix_centroids ix = Some (c_centroids c)" and n: "rows \<noteq> []"
  defines "news \<equiv> map (reencode_row (e_fo e) c (c\<lparr>c_calibration := Some np\<rparr>)) rows"
  shows "reencode_stored_rows e ix dim np = (materialize_packed e ix, Some (concat (map fst news), map snd news))"
proof -
  have cc: "c_bits c = ix_bit_width ix" "c_dim c = dim" "c_calibration c = calibrated_pair ix"
    by (rule index_coderE [OF c], simp)+
  let ?f = "\<lambda>i. reencode_row (e_fo e) c (c\<lparr>c_calibration := Some np\<rparr>) (rows ! i)"
  have cp: "calibrated_pair (materialize_packed e ix) = calibrated_pair ix"
    and mf: "ix_boundaries (materialize_packed e ix) = ix_boundaries ix" "ix_centroids (materialize_packed e ix) = ix_centroids ix"
      "ix_scales (materialize_packed e ix) = ix_scales ix"
    by (simp_all add: calibrated_pair_def materialize_packed_def)
  note g = representsD(8) [OF rep d, folded cc(1), folded cc(2)] and len = representsD(10) [OF rep d, folded cc(1), folded cc(2)]
  have "reencode_loop (reencode_chunk (e_cpu e) (e_fo e) (ix_bit_width ix) dim (c_boundaries c) (c_centroids c)
      (decode_pair (e_fo e) dim (calibrated_pair ix)) np (concat (map fst rows)) (map snd rows))
      (min REENCODE_CHUNK_ROWS (length rows)) (length rows) 0 ([], [])
    = Some (concat (map (fst \<circ> ?f) [0..<length rows]), map (snd \<circ> ?f) [0..<length rows])"
    by (subst reencode_loop_rows [where f = ?f])
      (use reencode_chunk_rows [OF wf g len, unfolded cc] n in \<open>simp_all add: REENCODE_CHUNK_ROWS_def\<close>)
  moreover have "map ?f [0..<length rows] = news" unfolding news_def by (rule nth_equalityI) simp_all
  then have "map (fst \<circ> ?f) [0..<length rows] = map fst news" "map (snd \<circ> ?f) [0..<length rows] = map snd news"
    by (simp_all flip: map_map)
  ultimately show ?thesis
    unfolding reencode_stored_rows_def Let_def cp mf seeded index_packed_rows [OF rep] representsD(1,2) [OF rep] bind.bind_lunit by simp
qed

section \<open>The commit\<close>

lemma those_map_nth: "those (map f xs) = Some ys \<Longrightarrow> length ys = length xs \<and> (\<forall>i < length xs. f (xs ! i) = Some (ys ! i))"
proof (induction xs arbitrary: ys)
  case (Cons x xs)
  then show ?case by (auto split: option.splits simp: nth_Cons split: nat.split)
qed simp

lemma length_fit_tile: "fit_tile fo sel q s lo hi rotated n dim d0 tile = Some xs \<Longrightarrow> length xs = tile"
  by (auto simp: fit_tile_def Let_def dest: those_map_nth)

lemma fit_calibration_shape:
  assumes "fit_calibration cpu fo bn sel threads vectors n dim rot cs = Some (shift, scale)"
  shows "length shift = dim \<and> length scale = dim"
proof -
  define ts where "ts = tile_size_from dim (max threads 1) 128"
  have ts: "0 < ts" unfolding ts_def by (rule tile_size_pos) simp
  let ?en = "enumerate 0 (par_chunks ts (replicate dim f32_zero))"
  let ?a = "d_div fo (d_sub fo (d_of_usize fo dim) f64_one) f64_two"
  obtain norms rotated where rb: "rotate_batch_into cpu fo rot vectors n dim = (norms, rotated)" by force
  have c: "compute_tqplus_calibration fo bn sel threads rotated n dim cs = Some (shift, scale)"
    using assms by (simp add: fit_calibration_def rb)
  then obtain beta where beta: "bn ?a ?a = Some beta" by (auto simp: compute_tqplus_calibration_def Let_def split: Option.bind_splits)
  obtain p_lo p_hi qc_lo qc_hi where anchor: "tqplus_anchor fo beta cs = (p_lo, p_hi, qc_lo, qc_hi)" by (metis prod_cases4)
  define lo where "lo = d_to_usize fo (d_mul fo (d_of_usize fo n) p_lo)"
  define hi where "hi = max (min (d_to_usize fo (d_mul fo (d_of_usize fo n) p_hi)) (n - 1)) (lo + 1)"
  let ?g = "\<lambda>i k. fit_tile fo sel qc_lo (f_sub fo qc_hi qc_lo) lo hi rotated n dim (i * ts) k"
  have "those (map (\<lambda>(i, ch). ?g i (length ch)) ?en) \<bind> (\<lambda>tiles. Some (map fst (concat tiles), map snd (concat tiles))) = Some (shift, scale)"
    using c unfolding compute_tqplus_calibration_def Let_def beta bind.bind_lunit anchor prod.case lo_def [symmetric]
    unfolding hi_def [symmetric] ts_def [symmetric] .
  then obtain tiles where t: "those (map (\<lambda>(i, ch). ?g i (length ch)) ?en) = Some tiles"
    and r: "shift = map fst (concat tiles)" "scale = map snd (concat tiles)"
    by (auto split: Option.bind_splits)
  have l: "length tiles = length ?en" "\<And>i. i < length ?en \<Longrightarrow> length (tiles ! i) = length (snd (?en ! i))"
    using those_map_nth [OF t] length_fit_tile by (auto simp: case_prod_beta)
  then have "map length tiles = map (\<lambda>x. length (snd x)) ?en" by (intro nth_equalityI) simp_all
  moreover have "sum_list (map (\<lambda>x. length (snd x)) ?en) = dim"
    using arg_cong [OF concat_tiles [OF ts, of "replicate dim f32_zero"], of length] by (simp add: length_concat o_def case_prod_beta)
  ultimately have "length (concat tiles) = dim" by (simp add: length_concat)
  then show ?thesis by (simp add: r)
qed

lemma represents_dim:
  assumes "represents e ix rows" "ix_dim ix = Some dim \<or> ix_dim ix = None \<and> dim \<noteq> 0 \<and> dim mod 8 = 0 \<and> dim \<le> MAX_DIM"
  shows "represents e (ix\<lparr>ix_dim := Some dim\<rparr>) rows"
proof (cases "ix_dim ix")
  case None
  then show ?thesis using represents_commit_dim [OF assms(1)] assms(2) by auto
next
  case (Some d)
  then have d: "ix_dim ix = Some dim" using assms(2) by simp
  show ?thesis unfolding same_dim_update [OF d] by (rule assms(1))
qed

lemma seeds_any_dim:
  assumes rep: "represents e ix rows" and dims: "ix_dim ix = Some dim \<or> ix_dim ix = None \<and> dim \<noteq> 0 \<and> dim mod 8 = 0 \<and> dim \<le> MAX_DIM"
    and r: "rotation_new (e_fo e) (e_rng e) dim = Some r" and bc: "codebook (e_fo e) (e_beta e) (ix_bit_width ix) dim = Some (b, cs)"
  defines "ix2 \<equiv> ix\<lparr>ix_rotation := Some r, ix_boundaries := Some b, ix_centroids := Some cs\<rparr>"
  shows "seed_rotation e dim ix = Some (ix\<lparr>ix_rotation := Some r\<rparr>)"
    and "seed_codebook e dim (ix\<lparr>ix_rotation := Some r\<rparr>) = Some ix2"
    and "represents e (ix2\<lparr>ix_dim := Some dim\<rparr>) rows" and "represents e (reset_lazy ix2) rows" and "same_elsewhere ix (reset_lazy ix2)"
proof -
  have rep1: "represents e (ix\<lparr>ix_dim := Some dim\<rparr>) rows" by (rule represents_dim [OF rep dims])
  have "represents e (ix\<lparr>ix_dim := Some dim, ix_rotation := Some r, ix_boundaries := Some b, ix_centroids := Some cs\<rparr>) rows"
    by (rule seeds_represent(3) [OF rep1 _ r]) (simp_all add: bc)
  moreover have "ix\<lparr>ix_dim := Some dim, ix_rotation := Some r, ix_boundaries := Some b, ix_centroids := Some cs\<rparr> = ix2\<lparr>ix_dim := Some dim\<rparr>"
    by (cases ix) (simp add: ix2_def)
  ultimately show "represents e (ix2\<lparr>ix_dim := Some dim\<rparr>) rows" by (simp only:)
  have "(seed_rotation e dim ix = Some (ix\<lparr>ix_rotation := Some r\<rparr>) \<and> seed_codebook e dim (ix\<lparr>ix_rotation := Some r\<rparr>) = Some ix2) \<and>
      represents e (reset_lazy ix2) rows"
  proof (cases "ix_dim ix")
    case None
    have n: "ix_rotation ix = None" "ix_boundaries ix = None" "ix_centroids ix = None"
      using representsD(5) [OF rep] None by (auto simp: codec_ok_def)
    have "reset_lazy ix2 = ix\<lparr>ix_rotation := None, ix_boundaries := None, ix_centroids := None\<rparr>" using None by (simp add: reset_lazy_def ix2_def)
    also have "\<dots> = ix" using n by (cases ix) simp
    finally have "reset_lazy ix2 = ix" .
    then show ?thesis using n r bc rep by (simp add: seed_rotation_def seed_codebook_def once_set_def ix2_def)
  next
    case (Some d)
    then have d: "ix_dim ix = Some dim" using dims by simp
    show ?thesis using seeds_represent [OF rep d r bc] d by (simp add: ix2_def reset_lazy_def)
  qed
  then show "seed_rotation e dim ix = Some (ix\<lparr>ix_rotation := Some r\<rparr>)" "seed_codebook e dim (ix\<lparr>ix_rotation := Some r\<rparr>) = Some ix2"
    "represents e (reset_lazy ix2) rows" by blast+
  show "same_elsewhere ix (reset_lazy ix2)" by (simp add: same_elsewhere_def reset_lazy_def ix2_def)
qed

text \<open>What a successful calibration leaves.\<close>

definition calibrated_with :: "'r env \<Rightarrow> coder \<Rightarrow> index \<Rightarrow> row list \<Rightarrow> nat \<Rightarrow> f32 list \<times> f32 list \<Rightarrow> index \<Rightarrow> bool" where
  "calibrated_with e c ix rows dim pair ix' \<longleftrightarrow>
     represents e ix' (map (reencode_row (e_fo e) c (c\<lparr>c_calibration := Some pair\<rparr>)) rows) \<and>
     ix_dim ix' = Some dim \<and> calibrated_pair ix' = Some pair \<and> ix_calib_gen ix' = ix_calib_gen ix + 1 \<and>
     ix_sync_capture_buf ix' = [] \<and> ix_sync_capture_at ix' = [] \<and> ix_sync_cursor ix' = ix_sync_cursor ix \<and>
     ix_sync_path ix' = ix_sync_path ix \<and> ix_sync_pending ix' = ix_sync_pending ix \<and> ix_sync_fresh ix' = ix_sync_fresh ix \<and>
     ix_bit_width ix' = ix_bit_width ix"

lemma length_reencode_row:
  "length (fst (reencode_row fo c c' r)) = c_bits c' * (c_dim c' div 8)"
  by (simp add: reencode_row_def quantize_row_def case_prod_beta)

lemma commit_calibration_represents:
  assumes rep: "represents e ix rows" and d: "ix_dim ix = Some dim" and c: "index_coder e ix dim = Some c"
    and l: "length (fst pair) = dim" "length (snd pair) = dim"
  defines "news \<equiv> map (reencode_row (e_fo e) c (c\<lparr>c_calibration := Some pair\<rparr>)) rows"
  shows "calibrated_with e c ix rows dim pair
    (commit_calibration dim (if rows = [] then None else Some (concat (map fst news), map snd news)) (fst pair) (snd pair) ix)"
proof -
  have cc: "c_bits c = ix_bit_width ix" "c_dim c = dim" by (rule index_coderE [OF c], simp)+
  note g = representsD(8) [OF rep d] and h = representsD(11) [OF rep d] and n = representsD(1-3) [OF rep]
  have dim0: "fst pair \<noteq> []" using l geom_okD(3) [OF g] g by (auto simp: geom_ok_def)
  let ?ix' = "commit_calibration dim (if rows = [] then None else Some (concat (map fst news), map snd news)) (fst pair) (snd pair) ix"
  have f: "ix_n_vectors ?ix' = ix_n_vectors ix" "ix_bit_width ?ix' = ix_bit_width ix" "ix_mapped ?ix' = ix_mapped ix"
    "ix_rotation ?ix' = ix_rotation ix" "ix_boundaries ?ix' = ix_boundaries ix" "ix_centroids ?ix' = ix_centroids ix"
    "ix_dim ?ix' = Some dim" "ix_tqplus_shift ?ix' = fst pair" "ix_tqplus_scale ?ix' = snd pair"
    "ix_scales ?ix' = map snd news"
    using n(2) by (simp_all add: commit_calibration_def Let_def news_def split: option.split)
  have "holds_rows (e_target e) (ix_bit_width ix) dim (map fst news) (ix_packed_codes ?ix') (ix_blocked ?ix')"
    using h by (auto simp: commit_calibration_def Let_def news_def holds_rows_def)
  then have "represents e ?ix' news"
    using n representsD(4-5) [OF rep] representsD(9) [OF rep d] g d l
    by (intro representsI [where dim = dim])
      (auto simp: f codec_ok_def calibration_ok_def news_def length_reencode_row cc)
  then show ?thesis
    using f(2,7-9) dim0
    by (simp add: calibrated_with_def news_def calibrated_pair_def) (simp add: commit_calibration_def Let_def split: option.split)
qed

theorem fit_and_commit_represents:
  assumes rep: "represents e ix rows" and dims: "ix_dim ix = Some dim \<or> ix_dim ix = None \<and> dim \<noteq> 0 \<and> dim mod 8 = 0 \<and> dim \<le> MAX_DIM"
    and c: "index_coder e ix dim = Some c" "wf_coder (e_fo e) c" and run: "fit_and_commit e ft ix sample n dim = (ix', out)"
  shows "case out of
      Returned (Inr _) \<Rightarrow> \<exists>pair. fit_calibration (e_cpu e) (e_fo e) (e_beta e) (e_sel e) (e_threads e) sample n dim (c_rot c) (c_centroids c) = Some pair \<and>
        normalize_calibration (fst pair) (snd pair) = pair \<and> calibrated_with e c ix rows dim pair ix'
    | _ \<Rightarrow> represents e ix' rows \<and> same_elsewhere ix ix'"
proof -
  obtain r b cs where r: "rotation_new (e_fo e) (e_rng e) dim = Some r"
    and bc: "codebook (e_fo e) (e_beta e) (ix_bit_width ix) dim = Some (b, cs)"
    and cc: "c = \<lparr>c_rot = r, c_bits = ix_bit_width ix, c_dim = dim, c_boundaries = b, c_centroids = cs, c_calibration = calibrated_pair ix\<rparr>"
    by (rule index_coderE [OF c(1)])
  define ix2 where "ix2 = ix\<lparr>ix_rotation := Some r, ix_boundaries := Some b, ix_centroids := Some cs\<rparr>"
  note seeds = seeds_any_dim [OF rep dims r bc, folded ix2_def]
  have f2: "ix_rotation ix2 = Some r" "ix_boundaries ix2 = Some b" "ix_centroids ix2 = Some cs" "ix_n_vectors ix2 = length rows"
    "ix_dim ix2 = ix_dim ix"
    using representsD(1) [OF rep] by (simp_all add: ix2_def)
  let ?fit = "fit_calibration (e_cpu e) (e_fo e) (e_beta e) (e_sel e) (e_threads e) sample n dim r cs"
  define fitted where "fitted = (if cf_fit ft then None else ?fit)"
  have start: "fit_and_commit e ft ix sample n dim = (case fitted of
      None \<Rightarrow> (reset_lazy ix2, Panicked)
    | Some (shift, scale_tq) \<Rightarrow>
        if (\<forall>x \<in> set shift. f32_eq x f32_zero) \<and> (\<forall>x \<in> set scale_tq. f32_eq x f32_one)
        then (reset_lazy ix2, Returned (Inl CA_DegenerateSample))
        else if 0 < length rows
        then (case reencode_stored_rows e ix2 dim (shift, scale_tq) of
                (ix, reencoded) \<Rightarrow>
                  if cf_reencode ft \<or> reencoded = None then (ix, Panicked)
                  else (commit_calibration dim reencoded shift scale_tq ix, Returned (Inr ())))
        else (commit_calibration dim None shift scale_tq ix2, Returned (Inr ())))"
    unfolding fit_and_commit_def seeds(1,2) option.case f2 bind.bind_lunit fitted_def [symmetric] ..
  show ?thesis
  proof (cases fitted)
    case None
    then show ?thesis using run seeds(4,5) by (auto simp: start)
  next
    case (Some pair)
    then obtain shift scale where p: "pair = (shift, scale)" and fit: "?fit = Some (shift, scale)" by (cases pair) (auto simp: fitted_def split: if_splits)
    show ?thesis
    proof (cases "(\<forall>x \<in> set shift. f32_eq x f32_zero) \<and> (\<forall>x \<in> set scale. f32_eq x f32_one)")
      case True
      then show ?thesis using run seeds(4,5) Some p by (auto simp: start)
    next
      case False
      have nc: "normalize_calibration shift scale = (shift, scale)" using False by (auto simp: normalize_calibration_def)
      note l = fit_calibration_shape [OF fit]
      define ix3 where "ix3 = (if rows = [] then ix2 else materialize_packed e ix2)"
      let ?news = "map (reencode_row (e_fo e) c (c\<lparr>c_calibration := Some (shift, scale)\<rparr>)) rows"
      let ?re = "if rows = [] then None else Some (concat (map fst ?news), map snd ?news)"
      have c2: "index_coder e ix2 dim = Some c" unfolding c(1) [symmetric] by (rule index_coder_cong) (simp_all add: ix2_def)
      have wf: "wf_coder (e_fo e) (c\<lparr>c_calibration := Some (shift, scale)\<rparr>)"
        using c(2) l by (auto simp: wf_coder_def ascending_def cc)
      have d2: "ix_dim ix2 = Some dim" "represents e ix2 rows" if "rows \<noteq> []"
      proof -
        show "ix_dim ix2 = Some dim" using that dims representsD(7) [OF rep] f2(5) by auto
        then show "represents e ix2 rows" using seeds(4) by (simp add: reset_lazy_def)
      qed
      have re: "reencode_stored_rows e ix2 dim (shift, scale) = (ix3, ?re)" if ne: "rows \<noteq> []"
        using reencode_stored_represents [OF d2(2) [OF ne] d2(1) [OF ne] c2 wf] f2(2,3) ne by (simp add: ix3_def cc)
      have start2: "fit_and_commit e ft ix sample n dim = (if rows \<noteq> [] \<and> cf_reencode ft then (ix3, Panicked)
          else (commit_calibration dim ?re shift scale ix3, Returned (Inr ())))"
        unfolding start Some p option.case prod.case if_not_P [OF False] using re by (cases "rows = []") (simp_all add: ix3_def)
      show ?thesis
      proof (cases "rows \<noteq> [] \<and> cf_reencode ft")
        case True
        then have "represents e ix3 rows" using represents_materialize [OF d2(2)] by (simp add: ix3_def)
        moreover have "same_elsewhere ix ix3" by (simp add: ix3_def same_elsewhere_def ix2_def materialize_packed_def)
        ultimately show ?thesis using run True by (auto simp: start2)
      next
        case ok: False
        have d3: "commit_calibration dim ?re shift scale ix3 = commit_calibration dim ?re shift scale (ix3\<lparr>ix_dim := Some dim\<rparr>)"
          by (simp add: commit_calibration_def Let_def)
        have rep3: "represents e (ix3\<lparr>ix_dim := Some dim\<rparr>) rows"
        proof (cases "rows = []")
          case False
          then have "represents e ix3 rows" "ix_dim ix3 = Some dim"
            using represents_materialize [OF d2(2)] d2(1) by (simp_all add: ix3_def materialize_packed_def)
          then show ?thesis by (simp add: same_dim_update)
        qed (use seeds(3) in \<open>simp add: ix3_def\<close>)
        have c3: "index_coder e (ix3\<lparr>ix_dim := Some dim\<rparr>) dim = Some c"
          unfolding c(1) [symmetric] by (rule index_coder_cong) (simp_all add: ix3_def ix2_def materialize_packed_def)
        have "calibrated_with e c (ix3\<lparr>ix_dim := Some dim\<rparr>) rows dim (shift, scale) (commit_calibration dim ?re shift scale ix3)"
          unfolding d3 using commit_calibration_represents [OF rep3 _ c3, of "(shift, scale)"] l by simp
        then have "calibrated_with e c ix rows dim (shift, scale) (commit_calibration dim ?re shift scale ix3)"
          by (simp add: calibrated_with_def ix3_def ix2_def materialize_packed_def split: if_splits)
        then show ?thesis using run ok fit nc by (auto simp: start2 cc)
      qed
    qed
  qed
qed

theorem calibrate_2d_represents:
  assumes rep: "represents e ix rows" and c: "index_coder e ix dim = Some c" "wf_coder (e_fo e) c"
    and run: "calibrate_2d e ft ix sample dim = (ix', out)"
  shows "case out of
      Returned (Inr _) \<Rightarrow> input_ok sample \<and> length sample = length sample div dim * dim \<and> MIN_CALIBRATION_ROWS \<le> length sample div dim \<and>
        (\<exists>pair. fit_calibration (e_cpu e) (e_fo e) (e_beta e) (e_sel e) (e_threads e) sample (length sample div dim) dim (c_rot c) (c_centroids c) = Some pair \<and>
           normalize_calibration (fst pair) (snd pair) = pair \<and> calibrated_with e c ix rows dim pair ix')
    | _ \<Rightarrow> represents e ix' rows \<and> same_elsewhere ix ix'"
proof -
  let ?err = "case ix_dim ix of
              Some existing \<Rightarrow> if existing \<noteq> dim then Some (CA_DimMismatch existing dim) else None
            | None \<Rightarrow> if dim = 0 then Some CA_ZeroDim else if dim mod 8 \<noteq> 0 then Some (CA_DimNotMultipleOf8 dim)
                else if MAX_DIM < dim then Some (CA_DimTooLarge dim) else None"
  let ?fi = "first_invalid_coord (cpu_scan (e_cpu e)) sample dim" and ?n = "length sample div dim"
  note mapped = representsD(4) [OF rep]
  show ?thesis
  proof (cases "?err = None \<and> dim \<noteq> 0 \<and> length sample mod dim = 0 \<and> MIN_CALIBRATION_ROWS \<le> ?n \<and> ?fi = Some None")
    case True
    then have f: "fit_and_commit e ft ix sample ?n dim = (ix', out)" using run mapped by (simp add: calibrate_2d_def Let_def)
    have dims: "ix_dim ix = Some dim \<or> ix_dim ix = None \<and> dim \<noteq> 0 \<and> dim mod 8 = 0 \<and> dim \<le> MAX_DIM"
      using True by (auto split: option.splits if_splits)
    note fit_and_commit_represents [OF rep dims c f]
    moreover have "length sample = ?n * dim" using True div_mult_mod_eq [of "length sample" dim] by simp
    ultimately show ?thesis using True first_invalid_coord_total(2) [of "cpu_scan (e_cpu e)" sample dim]
      by (auto split: outcome.splits sum.splits)
  next
    case False
    then have "ix' = ix \<and> (out = Panicked \<or> (\<exists>err. out = Returned (Inl err)))"
      using run mapped by (auto simp: calibrate_2d_def Let_def split: option.splits if_splits)
    then show ?thesis using rep by auto
  qed
qed

end
