(* ===== verification/LoadFields.thy ===== *)
theory LoadFields
  imports CursorState PlanesConvert Region
begin

text \<open>
  Every field of what the loader returns for a file of a sync history: not only the rows, but the
  geometry, the calibration, the cursor, the size of the code blocks and their zero padding, which is
  what an index is built from.
\<close>

section \<open>The padding lanes stay zero\<close>

definition padded :: "geo \<Rightarrow> nat \<Rightarrow> load_state \<Rightarrow> bool" where
  "padded g n st \<longleftrightarrow> (\<forall>v i. n \<le> v \<longrightarrow> v div BLOCK < nblk n \<longrightarrow> i < row_bytes g \<longrightarrow>
     ls_buf st ! ((v div BLOCK * row_bytes g + i) * BLOCK + v mod BLOCK) = 0)"

lemma ls_buf_upd: "ls_buf (st\<lparr>ls_buf := x\<rparr>) = x"
  by simp

lemma padded_buf: "ls_buf st' = ls_buf st \<Longrightarrow> padded g n st' = padded g n st"
  by (simp add: padded_def)

lemma padded_put:
  assumes seq: "g_layout g \<noteq> LAYOUT_PLANES" and buf: "buf_ok g n st" and v: "v < n" and p: "padded g n st"
  shows "padded g n (put_row g st v codes)"
  unfolding padded_def
proof (intro allI impI)
  fix w i
  assume w: "n \<le> w" "w div BLOCK < nblk n" and i: "i < row_bytes g"
  have pos: "v div BLOCK * (BLOCK * row_bytes g) + i * BLOCK + v mod BLOCK = (v div BLOCK * row_bytes g + i) * BLOCK + v mod BLOCK" for i
    by (simp add: algebra_simps)
  have put: "ls_buf (put_row g st v codes) = foldl (\<lambda>buf i. buf[(v div BLOCK * row_bytes g + i) * BLOCK + v mod BLOCK := codes ! i])
      (ls_buf st) [0..<row_bytes g]"
    using seq by (simp add: put_row_def Let_def pos)
  have "Suc (w div BLOCK) * (row_bytes g * BLOCK) \<le> nblk n * (row_bytes g * BLOCK)" using w(2) by (intro mult_le_mono1) simp
  then have fit: "Suc (w div BLOCK) * row_bytes g * BLOCK \<le> length (ls_buf st)" using buf by (simp only: buf_ok_def mult.assoc)
  have "\<not> (w div BLOCK = v div BLOCK \<and> w mod BLOCK = v mod BLOCK \<and> i < row_bytes g)" using same_slot [of w v] w(1) v by auto
  then have "ls_buf (put_row g st v codes) ! ((w div BLOCK * row_bytes g + i) * BLOCK + w mod BLOCK)
      = ls_buf st ! ((w div BLOCK * row_bytes g + i) * BLOCK + w mod BLOCK)"
    using seq.fold_read [OF buf_ok_row [OF buf v] fit, of "row_bytes g" i "v mod BLOCK" "w mod BLOCK" "\<lambda>i. codes ! i"] i
    by (auto simp: put)
  then show "ls_buf (put_row g st v codes) ! ((w div BLOCK * row_bytes g + i) * BLOCK + w mod BLOCK) = 0"
    using p w i by (simp add: padded_def)
qed

lemma padded_ops:
  assumes seq: "g_layout g \<noteq> LAYOUT_PLANES" and k: "k \<le> n"
    and "\<forall>(slot, pl) \<in> set ops. slot < k \<and> length pl = tail_row g"
    and "buf_ok g n st" "state_ok g k st" "op_loop g ops st = Inr st'" "padded g n st"
  shows "padded g n st'"
  using assms(3-7)
proof (induction ops arbitrary: st)
  case (Cons o1 ops)
  obtain slot pl where o1: "o1 = (slot, pl)" by (cases o1)
  obtain st1 where st1: "apply_op g slot pl st = Inr st1" "op_loop g ops st1 = Inr st'"
    using Cons.prems(4) by (auto simp: o1 and_then_Inr)
  have a: "buf_ok g n st1 \<and> state_ok g k st1"
    using apply_op_facts [OF seq _ _ k _ _ st1(1)] Cons.prems by (auto simp: o1)
  have "ls_buf st1 = ls_buf (put_row g st slot (take (row_bytes g) pl))"
    using st1(1) by (auto simp: apply_op_def Let_def split: if_splits)
  moreover have "slot < n" using Cons.prems(1) k by (simp add: o1)
  ultimately have "padded g n st1"
    using padded_put [OF seq Cons.prems(2) _ Cons.prems(5)] padded_buf by blast
  then show ?case using Cons.IH [of st1] a Cons.prems(1) st1(2) by simp
qed simp

lemma padded_tail:
  assumes seq: "g_layout g \<noteq> LAYOUT_PLANES" and n: "base + k + m \<le> n" and tail: "(k + m) * tail_row g \<le> length tail"
    and "buf_ok g n st" "state_ok g (base + k) st" "tail_loop g base tail k m st = Inr st'" "padded g n st"
  shows "padded g n st'"
  using n tail assms(4-7)
proof (induction m arbitrary: k st)
  case (Suc m)
  let ?row = "slice tail (k * tail_row g) (tail_row g)"
  obtain st1 where st1: "tail_step g (base + k) ?row st = Inr st1" "tail_loop g base tail (Suc k) m st1 = Inr st'"
    using Suc.prems(5) by (auto simp: and_then_Inr)
  have "Suc k * tail_row g \<le> (k + Suc m) * tail_row g" by (intro mult_le_mono1) simp
  from order_trans [OF this Suc.prems(2)] have row: "length ?row = tail_row g" by (intro slice_length) simp
  have kn: "base + k < n" using Suc.prems(1) by simp
  have a: "buf_ok g n st1 \<and> state_ok g (Suc (base + k)) st1"
    using tail_step_facts [OF seq Suc.prems(3,4) kn row st1(1)] by blast
  have "ls_buf st1 = ls_buf (put_row g st (base + k) (take (row_bytes g) ?row))"
    using st1(1) by (auto simp: tail_step_def Let_def split: if_splits)
  then have "padded g n st1" using padded_put [OF seq Suc.prems(3) kn Suc.prems(6)] padded_buf by blast
  then show ?case using Suc.IH [of "Suc k" st1] a Suc.prems(1,2) st1(2) by simp
qed simp

lemma zero_after: "length xs \<le> p \<Longrightarrow> p < length (xs @ replicate k (0 :: 'a :: zero)) \<Longrightarrow> (xs @ replicate k 0) ! p = 0"
  by (simp add: nth_append)

lemma padded_trim:
  assumes seq: "g_layout g \<noteq> LAYOUT_PLANES" and dn: "units_done g raw (n div BLOCK) st"
    and fit: "\<forall>c < n div BLOCK. unit_at g c + unit_len g \<le> length raw"
  shows "padded g n (st\<lparr>ls_buf := trim_buf g n (ls_buf st)\<rparr>)"
  unfolding padded_def
proof (intro allI impI)
  fix v i
  assume v: "n \<le> v" "v div BLOCK < nblk n" and i: "i < row_bytes g"
  let ?nb = "n div BLOCK" and ?bb = "BLOCK * row_bytes g" and ?p = "(v div BLOCK * row_bytes g + i) * BLOCK + v mod BLOCK"
  have b: "buf_ok g n (st\<lparr>ls_buf := trim_buf g n (ls_buf st)\<rparr>)" by (rule trim_facts(1) [OF seq dn fit])
  have "Suc (v div BLOCK) * row_bytes g * BLOCK \<le> nblk n * row_bytes g * BLOCK" using v(2) by (intro mult_le_mono1) simp
  moreover have "?p < Suc (v div BLOCK) * row_bytes g * BLOCK" by (rule seq.idx_bound [OF i]) simp
  ultimately have lt: "?p < length (trim_buf g n (ls_buf st))" using b by (simp add: buf_ok_def)
  have "?nb \<le> v div BLOCK" by (rule div_le_mono [OF v(1)])
  then have "?nb * (row_bytes g * BLOCK) \<le> v div BLOCK * (row_bytes g * BLOCK)" by (rule mult_le_mono1)
  moreover have "?p = v div BLOCK * (row_bytes g * BLOCK) + (i * BLOCK + v mod BLOCK)" by (simp add: algebra_simps)
  moreover have "?nb * ?bb = ?nb * (row_bytes g * BLOCK)" by (simp only: mult.commute)
  ultimately have pos: "?nb * ?bb \<le> ?p" by linarith
  let ?xs = "take (?nb * ?bb) (ls_buf st)"
  have t: "trim_buf g n (ls_buf st) = resize_bytes ?xs (nblk n * ?bb)"
    using seq by (simp add: trim_buf_def planes_dims_def Let_def)
  have lx: "length ?xs \<le> ?p" using pos by (simp add: min.coboundedI2)
  have "resize_bytes ?xs (nblk n * ?bb) ! ?p = 0"
  proof (cases "nblk n * ?bb \<le> length ?xs")
    case True
    then have "length (resize_bytes ?xs (nblk n * ?bb)) \<le> length ?xs" by (simp add: resize_bytes_def)
    then show ?thesis using lt lx unfolding t by linarith
  next
    case False
    then have e: "resize_bytes ?xs (nblk n * ?bb) = ?xs @ replicate (nblk n * ?bb - length ?xs) 0" by (intro resize_grow) linarith
    show ?thesis unfolding e by (rule zero_after [OF lx]) (use lt in \<open>simp only: t e\<close>)
  qed
  then show "ls_buf (st\<lparr>ls_buf := trim_buf g n (ls_buf st)\<rparr>) ! ?p = 0"
    unfolding t ls_buf_upd .
qed

lemma gather_rows_padded:
  assumes seq: "g_layout g \<noteq> LAYOUT_PLANES"
    and ops: "\<forall>(slot, pl) \<in> set ops. slot < n div BLOCK * BLOCK \<and> length pl = tail_row g"
    and tail: "length tail = n mod BLOCK * tail_row g"
    and load: "gather_rows g n ops tail raw = Inr st"
  shows "buf_ok g n st" "state_ok g n st" "padded g n st"
proof -
  let ?nb = "n div BLOCK"
  let ?st0 = "\<lparr>ls_buf = raw, ls_sign = [], ls_scales = [], ls_ids = []\<rparr>"
  obtain st1 st2 where
      st1: "unit_loop g 0 ?nb ?st0 = Inr st1"
    and st2: "op_loop g ops (st1\<lparr>ls_buf := trim_buf g n (ls_buf st1)\<rparr>) = Inr st2"
    and st3: "tail_loop g (?nb * BLOCK) tail 0 (n mod BLOCK) st2 = Inr st"
    using load seq by (auto simp: gather_rows_def Let_def and_then_Inr case_prod_unfold)
  have "units_done g raw 0 ?st0" by (simp add: units_done_def state_ok_def)
  from unit_loop_done [OF seq this st1] have
    dn: "units_done g raw ?nb st1" and fit: "\<forall>c < ?nb. unit_at g c + unit_len g \<le> length raw" by auto
  note tr = trim_facts [OF seq dn fit]
  have ok1: "state_ok g (?nb * BLOCK) (st1\<lparr>ls_buf := trim_buf g n (ls_buf st1)\<rparr>)"
    using dn by (simp add: units_done_def state_ok_def)
  have kn: "?nb * BLOCK \<le> n" by simp
  note o2 = op_loop_facts [OF seq kn ops tr(1) ok1 st2]
  have p2: "padded g n st2" by (rule padded_ops [OF seq kn ops tr(1) ok1 st2 padded_trim [OF seq dn fit]])
  have t: "?nb * BLOCK + 0 + n mod BLOCK \<le> n" "(0 + n mod BLOCK) * tail_row g \<le> length tail" "buf_ok g n st2" "state_ok g (?nb * BLOCK + 0) st2"
    using o2 by (simp_all add: tail)
  have "buf_ok g n st \<and> state_ok g (?nb * BLOCK + 0 + n mod BLOCK) st" using tail_loop_facts [OF seq t st3] by blast
  then show "buf_ok g n st" "state_ok g n st" by simp_all
  show "padded g n st" by (rule padded_tail [OF seq t st3 p2])
qed

section \<open>The fields of a loaded file\<close>

lemma load_image_fields:
  assumes load: "load_image nm raw calib_gen kind = Inr l" and seq: "g_layout g \<noteq> LAYOUT_PLANES"
    and sb: "parse_superblock nm raw kind = Inr (p, g, shift, scale)"
  shows "vl_dim l = g_dim g" "vl_bit_width l = g_bit_width g" "vl_layout l = g_layout g" "vl_sign l = []"
    and "vl_tqplus_shift l = shift" "vl_tqplus_scale l = scale"
    and "vl_cursor l = \<lparr>sc_gen = sc_gen (vl_cursor l), sc_n_synced = of_nat (vl_n_vectors l), sc_calib_gen = calib_gen, sc_nonce = sbp_nonce p\<rparr>"
    and "length (vl_seq_blocked l) = nblk (vl_n_vectors l) * row_bytes g * BLOCK"
    and "vl_n_vectors l \<le> v \<Longrightarrow> v < nblk (vl_n_vectors l) * BLOCK \<Longrightarrow> stored_row (vl_seq_blocked l) (row_bytes g) v = replicate (row_bytes g) 0"
    and "length (vl_scales l) = vl_n_vectors l" "g_kind g = 1 \<Longrightarrow> length (vl_ids l) = vl_n_vectors l"
proof -
  obtain img st where img: "parse_image nm raw kind = Inr img"
    and st: "gather_rows (pi_geo img) (pi_n_vectors img) (concat (map snd (pi_ops img))) (pi_tail img) raw = Inr st"
    and l: "l = \<lparr>vl_dim = g_dim (pi_geo img), vl_bit_width = g_bit_width (pi_geo img), vl_n_vectors = pi_n_vectors img,
      vl_layout = g_layout (pi_geo img), vl_seq_blocked = (if g_layout (pi_geo img) = LAYOUT_PLANES then [] else ls_buf st),
      vl_sign = ls_sign st, vl_low = (if g_layout (pi_geo img) = LAYOUT_PLANES then ls_buf st else []),
      vl_scales = ls_scales st, vl_ids = ls_ids st, vl_tqplus_shift = pi_tqplus_shift img, vl_tqplus_scale = pi_tqplus_scale img,
      vl_cursor = \<lparr>sc_gen = pi_gen img, sc_n_synced = of_nat (pi_n_vectors img), sc_calib_gen = calib_gen, sc_nonce = pi_nonce img\<rparr>,
      vl_pending_slots = pi_pending_slots img\<rparr>"
    using load by (auto simp: load_image_def and_then_Inr Let_def)
  obtain h tail ops where h: "choose_header raw g = Some h"
    and tail: "get_range raw (ph_tail_at h) (ph_tail_at h + ph_n h mod BLOCK * tail_row g) = Some tail"
    and ops: "copy_groups raw (row_bytes g + 4 + id_bytes g 1) (ph_groups h) = Inr ops"
    and i: "pi_geo img = g" "pi_n_vectors img = ph_n h" "pi_tail img = tail" "pi_ops img = ops" "pi_nonce img = sbp_nonce p"
      "pi_tqplus_shift img = shift" "pi_tqplus_scale img = scale"
    using img by (auto simp: parse_image_def and_then_Inr sb split: if_splits)
  have tr: "row_bytes g + 4 + id_bytes g 1 = tail_row g" by (simp add: tail_row_def)
  have co: "concat (map snd ops) = map (\<lambda>(s, at). (s, slice raw at (tail_row g))) (op_list h)"
    and fit: "\<forall>(s, at) \<in> set (op_list h). at + tail_row g \<le> length raw"
    using copy_groups_facts [OF ops [unfolded tr]] by (auto simp: op_list_def)
  have opk: "\<forall>(slot, pl) \<in> set (concat (map snd ops)). slot < ph_n h div BLOCK * BLOCK \<and> length pl = tail_row g"
    using parsed_op_slots [OF h] fit by (auto simp: co slice_length div_less_iff_less_mult)
  have tl: "length tail = ph_n h mod BLOCK * tail_row g" using get_range_length [OF tail] by simp
  note gp = gather_rows_padded [OF seq opk tl st [unfolded i]]
  have sign: "ls_sign st = []"
  proof -
    have put: "ls_sign (put_row g st0 v c) = ls_sign st0" for st0 v c using seq by (simp add: put_row_def Let_def)
    have u: "unit_loop g b k st0 = Inr st1 \<Longrightarrow> ls_sign st1 = ls_sign st0" for b k st0 st1
      using seq by (induction k arbitrary: b st0) (auto simp: and_then_Inr unit_step_def Let_def case_prod_beta split: if_splits)
    have o: "op_loop g os st0 = Inr st1 \<Longrightarrow> ls_sign st1 = ls_sign st0" for os st0 st1
      by (induction os arbitrary: st0) (auto simp: and_then_Inr apply_op_def Let_def put split: if_splits)
    have t: "tail_loop g base tl k m st0 = Inr st1 \<Longrightarrow> ls_sign st1 = ls_sign st0" for base tl k m st0 st1
      by (induction m arbitrary: k st0) (auto simp: and_then_Inr tail_step_def Let_def put split: if_splits)
    show ?thesis using st seq by (auto simp: gather_rows_def Let_def and_then_Inr case_prod_unfold i dest!: u o t)
  qed
  show "vl_dim l = g_dim g" "vl_bit_width l = g_bit_width g" "vl_layout l = g_layout g" "vl_sign l = []"
    "vl_tqplus_shift l = shift" "vl_tqplus_scale l = scale"
    "vl_cursor l = \<lparr>sc_gen = sc_gen (vl_cursor l), sc_n_synced = of_nat (vl_n_vectors l), sc_calib_gen = calib_gen, sc_nonce = sbp_nonce p\<rparr>"
    by (simp_all add: l i sign)
  show "length (vl_seq_blocked l) = nblk (vl_n_vectors l) * row_bytes g * BLOCK"
    using gp(1) seq by (simp add: l i buf_ok_def)
  show "length (vl_scales l) = vl_n_vectors l" "g_kind g = 1 \<Longrightarrow> length (vl_ids l) = vl_n_vectors l"
    using gp(2) by (simp_all add: l i state_ok_def)
  show "stored_row (vl_seq_blocked l) (row_bytes g) v = replicate (row_bytes g) 0"
    if "vl_n_vectors l \<le> v" "v < nblk (vl_n_vectors l) * BLOCK"
    using gp(3) that seq by (intro nth_equalityI) (simp_all add: l i padded_def stored_row_nth in_block)
qed

text \<open>A loaded row taken apart.\<close>

lemma loaded_row_fields:
  assumes wf: "wf_source src" and s: "s < ss_n_vectors src" and g: "src_geo src = g" and r: "loaded_row g l s = row_record src s"
  shows "stored_row (vl_seq_blocked l) (row_bytes g) s = ss_row_codes src s" "vl_scales l ! s = ss_scales src ! s"
    and "ss_ids src = Some ids \<Longrightarrow> vl_ids l ! s = ids ! s"
proof -
  have "length (ss_row_codes src s) = row_bytes g" using wf_sourceD(1) [OF wf s] g by simp
  then have "stored_row (vl_seq_blocked l) (row_bytes g) s = ss_row_codes src s \<and>
      u32_to_le (vl_scales l ! s) @ (if g_kind g = 1 then u64_to_le (vl_ids l ! s) else [])
        = u32_to_le (ss_scales src ! s) @ (case ss_ids src of None \<Rightarrow> [] | Some ids \<Rightarrow> u64_to_le (ids ! s))"
    using r by (cases "g_kind g = 1") (simp_all add: loaded_row_def state_row_def row_record_def stored_row_def)
  then show "stored_row (vl_seq_blocked l) (row_bytes g) s = ss_row_codes src s" "vl_scales l ! s = ss_scales src ! s"
    and "ss_ids src = Some ids \<Longrightarrow> vl_ids l ! s = ids ! s"
    using wf_source_ids(3) [OF wf] g by (auto simp: src_geo_def)
qed

text \<open>What a file of a sync history loads as.\<close>

definition loads_source :: "sync_source \<Rightarrow> sync_cursor \<Rightarrow> nat set \<Rightarrow> u64 \<Rightarrow> v7_load \<Rightarrow> bool" where
  "loads_source src cursor pending calib_gen l \<longleftrightarrow>
     (let n = ss_n_vectors src; w = row_bytes (src_geo src) in
      vl_dim l = ss_dim src \<and> vl_bit_width l = ss_bit_width src \<and> vl_n_vectors l = n \<and> vl_layout l = ss_layout src \<and>
      length (vl_seq_blocked l) = nblk n * w * BLOCK \<and>
      (\<forall>v < nblk n * BLOCK. stored_row (vl_seq_blocked l) w v = (if v < n then ss_row_codes src v else replicate w 0)) \<and>
      vl_scales l = ss_scales src \<and> (\<forall>ids. ss_ids src = Some ids \<longrightarrow> vl_ids l = ids) \<and>
      vl_tqplus_shift l = ss_tqplus_shift src \<and> vl_tqplus_scale l = ss_tqplus_scale src \<and>
      vl_cursor l = cursor\<lparr>sc_calib_gen := calib_gen\<rparr> \<and> set (vl_pending_slots l) = pending)"

lemma holds_commit_loads:
  assumes hc: "holds_commit g f h src nonce" and l: "loadable nm src" and seq: "g_layout g \<noteq> LAYOUT_PLANES"
    and h: "choose_header f g = Some h" and dim: "ss_dim src = 0 \<longrightarrow> ss_n_vectors src = 0"
    and cur: "cursor = \<lparr>sc_gen = ph_gen h, sc_n_synced = of_nat (ss_n_vectors src), sc_calib_gen = cg, sc_nonce = nonce\<rparr>"
  shows "\<exists>l. load_image nm f calib_gen (ss_kind src) = Inr l \<and> loads_source src cursor (set (op_slots h)) calib_gen l"
proof -
  have wf: "wf_source src" and g: "src_geo src = g" and c: "commit_at f g h"
    and n: "ph_n h = ss_n_vectors src" and sb: "get_range f 0 (sb_len g) = Some (superblock src nonce)"
    using hc by (auto simp: holds_commit_def)
  have "unit_at g (ph_n h div BLOCK) \<le> length f" using commit_file_length [OF c] .
  then have hl: "hdr_len (src_geo src) \<le> length f" by (simp add: unit_at_def hdr_at_def g)
  obtain rest where pre: "f = superblock src nonce @ rest" using superblock_prefix [OF sb] by blast
  note ps = parse_superblock_written [OF l pre hl, unfolded g]
  obtain v where v: "load_image nm f calib_gen (ss_kind src) = Inr v" "vl_layout v = g_layout g" "vl_n_vectors v = ss_n_vectors src"
    "vl_pending_slots v = op_slots h" "\<forall>s < ss_n_vectors src. loaded_row g v s = row_record src s"
    using load_commit [OF hc l seq h dim, of calib_gen] by blast
  note fs = load_image_fields [OF v(1) seq ps]
  note rf = loaded_row_fields [OF wf _ g, of _ v]
  have gf: "g_dim g = ss_dim src" "g_bit_width g = ss_bit_width src" "g_layout g = ss_layout src" "g_kind g = ss_kind src"
    using g by (auto simp: src_geo_def)
  obtain p g' sh sc h' where "choose_header f g' = Some h'" "parse_superblock nm f (ss_kind src) = Inr (p, g', sh, sc)" "sc_gen (vl_cursor v) = ph_gen h'"
    using load_image_rows [OF v(1)] v(2) seq by auto
  then have gen: "sc_gen (vl_cursor v) = ph_gen h" using ps h by simp
  have scales: "vl_scales v = ss_scales src"
    using fs(10) v(3,5) rf(2) wf_sourceD(3) [OF wf] by (intro nth_equalityI) simp_all
  have ids: "vl_ids v = ids" if i: "ss_ids src = Some ids" for ids
  proof (rule nth_equalityI)
    have k: "ss_kind src = 1" "length ids = ss_n_vectors src" using wf_source_ids(3) [OF wf i] by simp_all
    then show "length (vl_ids v) = length ids" using fs(11) gf(4) v(3) by simp
    show "vl_ids v ! s = ids ! s" if "s < length (vl_ids v)" for s
      using rf(3) [OF _ _ i] that v(5) k fs(11) gf(4) v(3) by simp
  qed
  have "\<forall>s < nblk (ss_n_vectors src) * BLOCK. stored_row (vl_seq_blocked v) (row_bytes g) s
      = (if s < ss_n_vectors src then ss_row_codes src s else replicate (row_bytes g) 0)"
    using rf(1) v(5) fs(9) v(3) by simp
  moreover have "vl_cursor v = cursor\<lparr>sc_calib_gen := calib_gen\<rparr>" using fs(7) gen v(3) by (simp add: cur)
  ultimately have "loads_source src cursor (set (op_slots h)) calib_gen v"
    using fs(1,2,3,5,6,8) v(3,4) gf scales ids by (simp add: loads_source_def Let_def g)
  then show ?thesis using v(1) by blast
qed

theorem load_file_loads:
  assumes s: "synced g f h cursor pending src" and l: "loadable nm src" and seq: "g_layout g \<noteq> LAYOUT_PLANES"
    and dim: "ss_dim src = 0 \<longrightarrow> ss_n_vectors src = 0"
  shows "\<exists>l. load_file nm f calib_gen (ss_kind src) = Inr l \<and> loads_source src cursor pending calib_gen l"
proof -
  have i: "synced_inv g f h cursor pending src" using s by (rule synced_invariant)
  then have hc: "holds_commit g f h src (sc_nonce cursor)" and h: "choose_header f g = Some h"
    and p: "pending = set (op_slots h)" and dt: "detached h" and c: "commit_at f g h" and g: "src_geo src = g"
    and n: "unat (sc_n_synced cursor) = ss_n_vectors src" "sc_gen cursor = ph_gen h"
    by (auto simp: synced_inv_def holds_commit_def)
  have fl: "unit_at g (ph_n h div BLOCK) \<le> length f" using commit_file_length [OF c] .
  obtain rest where r: "f = superblock src (sc_nonce cursor) @ rest"
    using i superblock_prefix unfolding synced_inv_def by metis
  have "64 \<le> length f" using fl by (simp add: unit_at_def hdr_at_def hdr_len_def MAX_OPS_def op_size_def)
  then have pg: "probe_geo f = Some g" using probe_geo_written [OF l r] g by simp
  let ?k = "min (case declared_len f of Some l \<Rightarrow> l | None \<Rightarrow> length f) (length f)"
  have k: "unit_at g (ph_n h div BLOCK) \<le> ?k"
    using declared_len_covers [OF pg c] fl by (auto split: option.splits)
  have h': "choose_header (take ?k f) g = Some h" using take_commit [OF c h dt k] by blast
  have "of_nat (ss_n_vectors src) = sc_n_synced cursor" unfolding n(1) [symmetric] by simp
  then have "cursor = \<lparr>sc_gen = ph_gen h, sc_n_synced = of_nat (ss_n_vectors src), sc_calib_gen = sc_calib_gen cursor, sc_nonce = sc_nonce cursor\<rparr>"
    using n(2) by (cases cursor) simp
  from holds_commit_loads [OF take_holds_commit [OF hc k h dt] l seq h' dim this, of calib_gen]
  show ?thesis using p by (auto simp: load_file_def Let_def)
qed

end
