(* ===== verification/IndexSync.thy ===== *)
theory IndexSync
  imports IndexCalibrate LoadFields
begin

text \<open>
  An index and its file (\<open>lib.rs\<close>): the sync source an index presents (\<open>unit_layout\<close>,
  \<open>seq_blocks_range\<close>, \<open>unit_codes_range\<close>, \<open>with_sync_source\<close>), \<open>sync_v7_impl\<close>, the byte images
  (\<open>to_bytes\<close>, \<open>from_bytes\<close>) and the loader's tail \<open>from_v7\<close>, \<open>load_v7\<close>.
\<close>

section \<open>The source\<close>

definition unit_layout :: "'r env \<Rightarrow> index \<Rightarrow> u8" where
  "unit_layout e ix =
     (case ix_dim ix of
        None \<Rightarrow> LAYOUT_SEQ
      | Some dim \<Rightarrow>
          let (_, row_bytes, _) = blocked_geometry (ix_n_vectors ix) (ix_bit_width ix) dim
          in if planes_wanted (e_target e) (ix_bit_width ix) row_bytes (ix_n_vectors ix) then LAYOUT_PLANES else LAYOUT_SEQ)"

text \<open>Code blocks of the rows \<open>[from, to)\<close>, whole blocks; \<open>None\<close> is an \<open>expect\<close> or a slice out of range.\<close>

definition seq_blocks_range :: "'r env \<Rightarrow> index \<Rightarrow> nat \<Rightarrow> nat \<Rightarrow> nat \<Rightarrow> bytes option" where
  "seq_blocks_range e ix dim from to =
     (let bits = ix_bit_width ix;
          packed_row = dim * bits div 8;
          (_, row_bytes, _) = blocked_geometry 1 bits dim
      in (case ix_packed_codes ix of
            Some packed \<Rightarrow>
              map_option (\<lambda>p. let n = to - from
                              in pack_blocked_sequential n (n div BLOCK) row_bytes (extract_codes_flat p n bits dim))
                (get_range packed (from * packed_row) (to * packed_row))
          | None \<Rightarrow>
              (case ix_blocked ix of
                 None \<Rightarrow> None
               | Some cache \<Rightarrow>
                   if is_planes cache
                   then let (nsg, low_row) = planes_geom bits row_bytes
                        in do {
                             sign \<leftarrow> get_range (bc_data cache) (from * nsg) (to * nsg);
                             low \<leftarrow> get_range (bc_low cache) (from * low_row) (min (to * low_row) (length (bc_low cache)));
                             Some (planes_to_seq (e_target e) sign low bits row_bytes (min (to - from) (ix_n_vectors ix - from)))
                           }
                   else let block_bytes = row_bytes * BLOCK
                        in map_option (\<lambda>d. native_to_seq (e_target e) d bits row_bytes)
                             (get_range (bc_data cache) (from div BLOCK * block_bytes) (to div BLOCK * block_bytes)))))"

text \<open>From the rows: the range's own planes, then its units.\<close>

definition unit_codes_from_rows :: "'r env \<Rightarrow> index \<Rightarrow> nat \<Rightarrow> nat \<Rightarrow> nat \<Rightarrow> bytes option" where
  "unit_codes_from_rows e ix dim from to =
     (let bits = ix_bit_width ix;
          (_, row_bytes, _) = blocked_geometry 1 bits dim
      in map_option (\<lambda>seq.
           let n_range = min (to - from) (ix_n_vectors ix - from);
               (sign, low) = planes_from_seq (e_target e) seq bits row_bytes n_range
           in concat (map (\<lambda>b. planes_unit_codes (e_target e) sign low bits row_bytes b n_range) [0..<(to - from) div BLOCK]))
           (seq_blocks_range e ix dim from to))"

definition unit_codes_range :: "'r env \<Rightarrow> index \<Rightarrow> nat \<Rightarrow> u8 \<Rightarrow> nat \<Rightarrow> nat \<Rightarrow> bytes option" where
  "unit_codes_range e ix dim layout from to =
     (if layout \<noteq> LAYOUT_PLANES then seq_blocks_range e ix dim from to
      else let bits = ix_bit_width ix;
               (_, row_bytes, _) = blocked_geometry 1 bits dim
           in (case ix_blocked ix of
                 Some cache \<Rightarrow>
                   if is_planes cache
                   then Some (concat (map (\<lambda>b. planes_unit_codes (e_target e) (bc_data cache) (bc_low cache) bits row_bytes b (ix_n_vectors ix))
                                       [from div BLOCK..<to div BLOCK]))
                   else unit_codes_from_rows e ix dim from to
               | None \<Rightarrow> unit_codes_from_rows e ix dim from to))"

text \<open>A row's codes: its capture where there is one, else the live row.\<close>

definition row_codes :: "'r env \<Rightarrow> index \<Rightarrow> nat \<Rightarrow> bytes option" where
  "row_codes e ix idx =
     (case capture_lookup ix idx of
        Some (off, len) \<Rightarrow> get_range (ix_sync_capture_buf ix) off (off + len)
      | None \<Rightarrow> seq_row e ix idx)"

definition or_empty :: "'a list option \<Rightarrow> 'a list" where
  "or_empty r = (case r of Some x \<Rightarrow> x | None \<Rightarrow> [])"

text \<open>The source of an index whose codebook is seeded. A closure that would panic answers nothing here;
  \<open>index_source_rows\<close> shows that none does on the rows a writer asks for.\<close>

definition index_source :: "'r env \<Rightarrow> index \<Rightarrow> nat \<Rightarrow> u8 \<Rightarrow> u64 list option \<Rightarrow> u8 \<Rightarrow> u8 \<Rightarrow> sync_source" where
  "index_source e ix dim kind ids version layout =
     \<lparr>ss_kind = kind, ss_dim = dim, ss_bit_width = ix_bit_width ix, ss_n_vectors = ix_n_vectors ix, ss_version = version,
      ss_layout = layout,
      ss_unit_codes = \<lambda>from to. or_empty (unit_codes_range e ix dim layout from to),
      ss_row_codes = \<lambda>idx. or_empty (row_codes e ix idx),
      ss_scales = ix_scales ix, ss_ids = ids, ss_tqplus_shift = ix_tqplus_shift ix, ss_tqplus_scale = ix_tqplus_scale ix,
      ss_boundaries = (if dim = 0 then replicate (2 ^ ix_bit_width ix - 1) f32_zero else or_empty (ix_boundaries ix)),
      ss_centroids = (if dim = 0 then replicate (2 ^ ix_bit_width ix) f32_zero else or_empty (ix_centroids ix))\<rparr>"

definition code_layout_ready :: "'r env \<Rightarrow> index \<Rightarrow> index" where
  "code_layout_ready e ix = (if ix_blocked ix = None then materialize_packed e ix else ix)"

definition with_sync_source :: "'r env \<Rightarrow> index \<Rightarrow> u8 \<Rightarrow> u64 list option \<Rightarrow> u8 \<Rightarrow> (sync_source \<Rightarrow> 'a) \<Rightarrow> index \<times> 'a outcome" where
  "with_sync_source e ix kind ids version f =
     (let dim = (case ix_dim ix of Some d \<Rightarrow> d | None \<Rightarrow> 0);
          ix = code_layout_ready e ix
      in (case (if dim \<noteq> 0 then seed_codebook e dim ix else Some ix) of
            None \<Rightarrow> (ix, Panicked)
          | Some ix \<Rightarrow>
              let layout = (if version = 8 then unit_layout e ix else LAYOUT_SEQ)
              in (ix, Returned (f (index_source e ix dim kind ids version layout)))))"

definition image_in_version :: "'r env \<Rightarrow> index \<Rightarrow> u8 \<Rightarrow> u64 list option \<Rightarrow> u8 \<Rightarrow> index \<times> bytes outcome" where
  "image_in_version e ix kind ids version = with_sync_source e ix kind ids version image_bytes"

definition v7_image :: "'r env \<Rightarrow> index \<Rightarrow> u8 \<Rightarrow> u64 list option \<Rightarrow> index \<times> bytes outcome" where
  "v7_image e ix kind ids = with_sync_source e ix kind ids 8 image_bytes"

definition v7_image_len :: "'r env \<Rightarrow> index \<Rightarrow> u8 \<Rightarrow> u64 list option \<Rightarrow> index \<times> nat outcome" where
  "v7_image_len e ix kind ids = with_sync_source e ix kind ids 8 image_len"

definition to_bytes :: "'r env \<Rightarrow> index \<Rightarrow> index \<times> bytes outcome" where
  "to_bytes e ix = v7_image e ix 0 None"

definition serialized_len :: "'r env \<Rightarrow> index \<Rightarrow> index \<times> nat outcome" where
  "serialized_len e ix = v7_image_len e ix 0 None"

text \<open>\<open>write\<close> (a snapshot, claimed by nobody) and \<open>write_to_writer\<close>: what is at the path, and what the sink has received.\<close>

definition write_snapshot :: "sync_source \<Rightarrow> bytes" where
  "write_snapshot src = fst (write_full_inner src 0 UNCLAIMED_NONCE)"

definition stream_image :: "sync_source \<Rightarrow> bytes" where
  "stream_image src = write_image src 0 UNCLAIMED_NONCE"

definition index_write :: "'r env \<Rightarrow> index \<Rightarrow> index \<times> bytes outcome" where
  "index_write e ix = with_sync_source e ix 0 None 8 write_snapshot"

definition write_to_writer :: "'r env \<Rightarrow> index \<Rightarrow> index \<times> bytes outcome" where
  "write_to_writer e ix = with_sync_source e ix 0 None 8 stream_image"

text \<open>The codebook a raw writer embeds.\<close>

definition codebook_for_write :: "'r env \<Rightarrow> index \<Rightarrow> index \<times> (f32 list \<times> f32 list) outcome" where
  "codebook_for_write e ix =
     (let n_levels = 2 ^ ix_bit_width ix;
          zeros = (replicate (n_levels - 1) f32_zero, replicate n_levels f32_zero)
      in case ix_dim ix of
           None \<Rightarrow> (ix, Returned zeros)
         | Some dim \<Rightarrow>
             if ix_n_vectors ix = 0 then (ix, Returned zeros)
             else (case seed_codebook e dim ix of
                     None \<Rightarrow> (ix, Panicked)
                   | Some ix \<Rightarrow> (ix, Returned (or_empty (ix_boundaries ix), or_empty (ix_centroids ix)))))"

section \<open>The sync\<close>

datatype sync_error = SE_MappedReadOnly | SE_Lazy | SE_Foreign | SE_Io

text \<open>What the operating system answers: whether reading the file for the identity check fails, whether
  writing fails (and what is then at the path), and the nonce of a fresh file.\<close>

record io_run =
  io_check_fails :: bool
  io_write_fails :: "bytes option option"
  io_nonce :: u64

text \<open>The bytes written: an incremental plan where the file is the one the cursor left and the calibration
  has not moved, else a full write.\<close>

definition sync_write ::
  "u64 \<Rightarrow> bytes option \<Rightarrow> sync_source \<Rightarrow> cursor_verdict \<Rightarrow> sync_cursor option \<Rightarrow> index \<Rightarrow> bytes \<times> sync_cursor \<times> nat list" where
  "sync_write nonce file src state bound ix =
     (let full = (let (f, c) = write_full_inner src (ix_calib_gen ix) nonce in (f, c, []))
      in (case (state, bound, file) of
            (CsIntact stale_ahead, Some c, Some f) \<Rightarrow>
              if sc_calib_gen c = ix_calib_gen ix
              then (case plan_incremental src c (ix_sync_pending ix) (ix_sync_fresh ix) stale_ahead of
                      Some plan \<Rightarrow> (case run_sync plan f of (f', c') \<Rightarrow> (f', c', sp_carried plan))
                    | None \<Rightarrow> full)
              else full
          | _ \<Rightarrow> full))"

definition sync_committed :: "string \<Rightarrow> sync_cursor \<Rightarrow> nat list \<Rightarrow> index \<Rightarrow> index" where
  "sync_committed path cursor carried ix =
     ix\<lparr>ix_sync_pending := set carried, ix_sync_fresh := {}, ix_sync_capture_buf := [], ix_sync_capture_at := [],
        ix_sync_cursor := Some (cursor\<lparr>sc_calib_gen := ix_calib_gen ix\<rparr>), ix_sync_path := Some path\<rparr>"

definition sync_failed :: "index \<Rightarrow> index" where
  "sync_failed ix = ix\<lparr>ix_sync_cursor := None, ix_sync_path := None, ix_sync_capture_buf := [], ix_sync_capture_at := []\<rparr>"

definition sync_bound :: "index \<Rightarrow> string \<Rightarrow> sync_cursor option" where
  "sync_bound ix path =
     (case (ix_sync_cursor ix, ix_sync_path ix) of (Some c, Some p) \<Rightarrow> if p = path then Some c else None | _ \<Rightarrow> None)"

text \<open>\<open>file\<close> is what is at the path. A full write replaces it atomically.\<close>

definition sync_v7_impl ::
  "'r env \<Rightarrow> io_run \<Rightarrow> bytes option \<Rightarrow> index \<Rightarrow> string \<Rightarrow> u8 \<Rightarrow> u64 list option \<Rightarrow> index \<times> bytes option \<times> (sync_error + unit) outcome" where
  "sync_v7_impl e io file ix path kind ids =
     (if ix_mapped ix then (ix, file, Returned (Inl SE_MappedReadOnly))
      else case ix_dim ix of
        None \<Rightarrow> (ix, file, Returned (Inl SE_Lazy))
      | Some dim \<Rightarrow>
        (case seed_codebook e dim (code_layout_ready e ix) of
           None \<Rightarrow> (code_layout_ready e ix, file, Panicked)
         | Some ix \<Rightarrow>
           let src = index_source e ix dim kind ids 8 (unit_layout e ix);
               bound = sync_bound ix path;
               state = (case bound of Some c \<Rightarrow> cursor_state file c (src_geo src) | None \<Rightarrow> CsReplaced)
           in if bound \<noteq> None \<and> io_check_fails io then (ix, file, Returned (Inl SE_Io))
              else if state = CsForeign then (ix, file, Returned (Inl SE_Foreign))
              else let (f', cursor, carried) = sync_write (io_nonce io) file src state bound ix
                   in (case io_write_fails io of
                         Some left \<Rightarrow> (sync_failed ix, left, Returned (Inl SE_Io))
                       | None \<Rightarrow> (sync_committed path cursor carried ix, Some f', Returned (Inr ())))))"

definition index_sync :: "'r env \<Rightarrow> io_run \<Rightarrow> bytes option \<Rightarrow> index \<Rightarrow> string \<Rightarrow> index \<times> bytes option \<times> (sync_error + unit) outcome" where
  "index_sync e io file ix path = sync_v7_impl e io file ix path 0 None"

section \<open>Loading\<close>

text \<open>The search cache from the loaded blocks or planes.\<close>

definition native_cache :: "target \<Rightarrow> v7_load \<Rightarrow> cache" where
  "native_cache t l =
     (let n_blocks = (vl_n_vectors l + BLOCK - 1) div BLOCK;
          (_, nbg, _) = blocked_geometry (vl_n_vectors l) (vl_bit_width l) (vl_dim l);
          planes = planes_wanted t (vl_bit_width l) nbg (vl_n_vectors l)
      in (case (vl_layout l = LAYOUT_PLANES, planes) of
            (True, True) \<Rightarrow>
              let (nsg, _) = planes_geom (vl_bit_width l) nbg
              in \<lparr>bc_data = planes_sign_to_native t (vl_sign l) nsg, bc_low = vl_low l, bc_n_blocks = n_blocks\<rparr>
          | (True, False) \<Rightarrow>
              let packed = planes_canonical_to_packed (vl_sign l) (vl_low l) (vl_bit_width l) nbg (vl_n_vectors l);
                  seq = repack_seq packed (vl_n_vectors l) (vl_bit_width l) (vl_dim l)
              in \<lparr>bc_data = seq_into_native t seq (vl_bit_width l) nbg, bc_low = [], bc_n_blocks = n_blocks\<rparr>
          | (False, True) \<Rightarrow>
              let (data, low) = planes_from_seq_owned t (vl_seq_blocked l) (vl_bit_width l) nbg (vl_n_vectors l)
              in \<lparr>bc_data = data, bc_low = low, bc_n_blocks = n_blocks\<rparr>
          | (False, False) \<Rightarrow>
              \<lparr>bc_data = seq_into_native t (vl_seq_blocked l) (vl_bit_width l) nbg, bc_low = [], bc_n_blocks = n_blocks\<rparr>))"

text \<open>\<open>None\<close> is a panic of the codebook solver.\<close>

definition from_v7 :: "'r env \<Rightarrow> v7_load \<Rightarrow> string option \<Rightarrow> index option" where
  "from_v7 e l path =
     (let native = native_cache (e_target e) l;
          (shift, scale) = normalize_calibration (vl_tqplus_shift l) (vl_tqplus_scale l)
      in do {
           (boundaries, centroids) \<leftarrow> (if vl_dim l = 0 then Some ([], [])
                                       else codebook (e_fo e) (e_beta e) (vl_bit_width l) (vl_dim l));
           let some = (vl_n_vectors l \<noteq> 0);
           Some \<lparr>ix_dim = (if vl_dim l \<noteq> 0 then Some (vl_dim l) else None), ix_bit_width = vl_bit_width l,
                 ix_n_vectors = vl_n_vectors l, ix_packed_codes = (if some then None else Some []), ix_scales = vl_scales l,
                 ix_tqplus_shift = shift, ix_tqplus_scale = scale, ix_rotation = None,
                 ix_boundaries = (if some then Some boundaries else None), ix_centroids = (if some then Some centroids else None),
                 ix_blocked = (if some then Some native else None), ix_mapped = False,
                 ix_sync_cursor = map_option (\<lambda>_. vl_cursor l) path, ix_sync_path = path,
                 ix_sync_pending = set (vl_pending_slots l), ix_sync_fresh = {}, ix_sync_capture_buf = [], ix_sync_capture_at = [],
                 ix_calib_gen = 0\<rparr>
         })"

text \<open>The numbers the loader validates against.\<close>

definition env_numerics :: "'r env \<Rightarrow> numerics" where
  "env_numerics e =
     \<lparr>nm_codebook = \<lambda>bits dim. (case codebook (e_fo e) (e_beta e) bits dim of Some c \<Rightarrow> c | None \<Rightarrow> ([], [])),
      nm_max_shift = max_tqplus_shift (e_fo e), nm_min_scale = min_tqplus_scale (e_fo e)\<rparr>"

definition load_v7 :: "'r env \<Rightarrow> bytes \<Rightarrow> string \<Rightarrow> load_error + index option" where
  "load_v7 e f path =
     (case load_file (env_numerics e) f 0 0 of
        Inl err \<Rightarrow> Inl err
      | Inr l \<Rightarrow> Inr (from_v7 e l (if sc_nonce (vl_cursor l) \<noteq> UNCLAIMED_NONCE then Some path else None)))"

text \<open>\<open>load\<close>: anything but a v7 or v8 container is refused.\<close>

datatype open_error = OE_Legacy | OE_Load load_error

definition index_load :: "'r env \<Rightarrow> bytes \<Rightarrow> string \<Rightarrow> open_error + index option" where
  "index_load e f path =
     (if is_v7 (Some f) then (case load_v7 e f path of Inl err \<Rightarrow> Inl (OE_Load err) | Inr r \<Rightarrow> Inr r) else Inl OE_Legacy)"

definition from_bytes :: "'r env \<Rightarrow> bytes \<Rightarrow> load_error + index option" where
  "from_bytes e raw =
     (case load_image (env_numerics e) raw 0 0 of
        Inl err \<Rightarrow> Inl err
      | Inr l \<Rightarrow> Inr (from_v7 e l None))"

end
