(* ===== verification/IndexSource.thy ===== *)
theory IndexSource
  imports IndexSync
begin

text \<open>
  The sync source an index presents is the one its rows determine: the stored blocks of a range of rows,
  a single row from the capture log or the live layout, and the facts the container needs of a source
  (\<open>wf_source\<close>, \<open>seq_source\<close>).
\<close>

section \<open>A range of rows\<close>

lemma read_row_block:
  assumes fit: "Suc b * w * BLOCK \<le> length data" and l: "l < BLOCK"
  shows "read_row t k w (take (w * BLOCK) (drop (b * w * BLOCK) data)) l = read_row t k w data (b * BLOCK + l)"
proof -
  have bl: "b * w * BLOCK \<le> length data" using fit by simp
  have "read_code t (drop (b * w * BLOCK) data) k w 0 g l' = read_code t data k w b g l'" for g l'
    using bl by (simp add: read_code_def vm8_byte_index_def vm_byte_index_def deinterleave_x86_code_byte_def Let_def algebra_simps)
  then have "read_row t k w (drop (b * w * BLOCK) data) l = read_row t k w data (b * BLOCK + l)"
    using l by (simp add: read_row_def)
  moreover have "has_row w (take (w * BLOCK) (drop (b * w * BLOCK) data)) l" using fit l by (simp add: has_row_def)
  ultimately show ?thesis using read_row_take by metis
qed

lemma seq_block_packed:
  assumes g: "geom_ok bits dim" and len: "\<forall>x \<in> set mid. length x = bits * (dim div 8)" and n: "length mid = BLOCK"
  defines "u \<equiv> pack_blocked_sequential BLOCK 1 (dim div codes_per_byte bits) (extract_codes_flat (concat mid) BLOCK bits dim)"
  shows "length u = BLOCK * (dim div codes_per_byte bits)"
    and "l < BLOCK \<Longrightarrow> stored_row u (dim div codes_per_byte bits) l = extract_row (mid ! l) 0 bits dim"
proof -
  have u: "u = repack_seq (concat mid) BLOCK bits dim" by (simp add: u_def repack_seq_def blocked_geometry_def Let_def)
  show "length u = BLOCK * (dim div codes_per_byte bits)" unfolding u length_repack_seq by simp
  show "stored_row u (dim div codes_per_byte bits) l = extract_row (mid ! l) 0 bits dim" if "l < BLOCK"
    using stored_row_repack [OF geom_okD(1,2) [OF g] that, of "concat mid"] extract_concat_row [OF len, of l] that n
    by (simp add: u)
qed

text \<open>A block of a planes cache.\<close>

lemma seq_block_planes:
  assumes g: "geom_ok bits dim" and c: "wf_cache t bits dim n c" and p: "is_planes c" and b: "b * BLOCK + BLOCK \<le> n"
  defines "nsg \<equiv> dim div 8" and "low_row \<equiv> (bits - 1) * (dim div 8)" and "nbg \<equiv> dim div codes_per_byte bits"
  defines "sign \<equiv> take (BLOCK * nsg) (drop (b * BLOCK * nsg) (bc_data c))" and "low \<equiv> take (BLOCK * low_row) (drop (b * BLOCK * low_row) (bc_low c))"
  shows "length (planes_to_seq t sign low bits nbg BLOCK) = BLOCK * nbg"
    and "l < BLOCK \<Longrightarrow> stored_row (planes_to_seq t sign low bits nbg BLOCK) nbg l = cache_row t bits nbg c (b * BLOCK + l)"
proof -
  have pf: "planes_for t bits nbg" and r: "region t 2 nsg n (bc_data c)" and lo: "length (bc_low c) = n * low_row"
    using c p by (auto simp: wf_cache_def Let_def nbg_def nsg_def low_row_def)
  note pg = planes_geometry [OF g pf [unfolded nbg_def], folded nbg_def nsg_def]
  show "length (planes_to_seq t sign low bits nbg BLOCK) = BLOCK * nbg"
    unfolding length_planes_to_seq [OF pf] by simp
  assume l: "l < BLOCK"
  have "nblk n * nsg * BLOCK = length (bc_data c)" using region_lengthD [OF r] ..
  moreover have "Suc b \<le> nblk n" using b by simp
  then have "Suc b * (nsg * BLOCK) \<le> nblk n * (nsg * BLOCK)" by (rule mult_le_mono1)
  ultimately have fit: "Suc b * nsg * BLOCK \<le> length (bc_data c)" by (simp only: mult.assoc)
  have ls: "length sign = nblk BLOCK * (nbg div bits * BLOCK)" using fit pg(3) by (simp add: sign_def algebra_simps)
  have "(b * BLOCK + BLOCK) * low_row \<le> n * low_row" using b by (rule mult_le_mono1)
  then have "length low = BLOCK * low_row" using lo by (simp add: low_def add_mult_distrib)
  then have ll: "length low = BLOCK * ((bits - 1) * (nbg div bits))" using pg(3) by (simp add: low_row_def nsg_def)
  have sr: "sign_row t nsg sign l = sign_row t nsg (bc_data c) (b * BLOCK + l)"
    using read_row_block [OF fit l, of t 2] by (simp add: sign_row_def sign_def ac_simps)
  have lr: "low_of low_row low l = low_of low_row (bc_low c) (b * BLOCK + l)"
  proof -
    have "low_row + l * low_row \<le> BLOCK * low_row" using mult_le_mono1 [of "Suc l" BLOCK low_row] l by simp
    then have "low_row \<le> BLOCK * low_row - l * low_row" by linarith
    then have "take low_row (drop (l * low_row) (take (BLOCK * low_row) (drop (b * BLOCK * low_row) (bc_low c))))
        = take low_row (drop (l * low_row) (drop (b * BLOCK * low_row) (bc_low c)))"
      unfolding drop_take take_take by (simp only: min_absorb1)
    then show ?thesis by (simp add: low_of_def low_def algebra_simps)
  qed
  have "stored_row (planes_to_seq t sign low bits nbg BLOCK) nbg l = planes_row t bits nsg sign low l"
    using planes_seq_rows [OF pf ll ls, of l] l pg(3) by simp
  also have "\<dots> = planes_row t bits nsg (bc_data c) (bc_low c) (b * BLOCK + l)"
    using sr lr by (simp add: planes_row_def low_row_def nsg_def)
  also have "\<dots> = cache_row t bits nbg c (b * BLOCK + l)"
    using cache_row_planes [OF g c p, of "b * BLOCK + l"] b l by (simp add: nbg_def nsg_def)
  finally show "stored_row (planes_to_seq t sign low bits nbg BLOCK) nbg l = cache_row t bits nbg c (b * BLOCK + l)" .
qed

lemma get_range_between: "a + k \<le> length xs \<Longrightarrow> b = a + k \<Longrightarrow> get_range xs a b = Some (take k (drop a xs))"
  by (simp add: get_range_def slice_def)

lemma seq_blocks_range_represents:
  assumes rep: "represents e ix rows" and d: "ix_dim ix = Some dim" and b: "b * BLOCK + BLOCK \<le> length rows"
  shows "\<exists>u. seq_blocks_range e ix dim (b * BLOCK) (b * BLOCK + BLOCK) = Some u \<and>
    length u = BLOCK * (dim div codes_per_byte (ix_bit_width ix)) \<and>
    (\<forall>l < BLOCK. stored_row u (dim div codes_per_byte (ix_bit_width ix)) l = row_seq (ix_bit_width ix) dim (rows ! (b * BLOCK + l)))"
proof -
  let ?bits = "ix_bit_width ix"
  let ?nbg = "dim div codes_per_byte ?bits" and ?w = "?bits * (dim div 8)"
  note g = representsD(8) [OF rep d] and len = representsD(10) [OF rep d] and h = representsD(11) [OF rep d]
  obtain k where k: "dim = k * 8" using geom_okD(3) [OF g] by blast
  have row: "dim * ?bits div 8 = ?w" by (simp add: k mult.assoc [symmetric])
  have geo: "blocked_geometry 1 ?bits dim = (nblk 1, ?nbg, nblk 1 * ?nbg * BLOCK)" by (simp add: blocked_geometry_def Let_def)
  show ?thesis
  proof (cases "ix_packed_codes ix")
    case (Some p)
    have p: "p = concat (map fst rows)" using h Some by (simp add: holds_rows_def)
    define mid where "mid = take BLOCK (drop (b * BLOCK) (map fst rows))"
    have mid: "\<forall>x \<in> set mid. length x = ?w" "length mid = BLOCK" "\<And>l. l < BLOCK \<Longrightarrow> mid ! l = fst (rows ! (b * BLOCK + l))"
      using len b by (auto simp: mid_def dest!: in_set_takeD in_set_dropD)
    have fit: "(b * BLOCK + BLOCK) * ?w \<le> length p"
      unfolding p length_concat_rows [OF len] using mult_le_mono1 [OF b, of ?w] by simp
    have "get_range p (b * BLOCK * ?w) ((b * BLOCK + BLOCK) * ?w) = Some (take (BLOCK * ?w) (drop (b * BLOCK * ?w) p))"
      by (rule get_range_between) (use fit in \<open>simp_all only: add_mult_distrib\<close>)
    also have "take (BLOCK * ?w) (drop (b * BLOCK * ?w) p) = concat mid"
      unfolding p mid_def by (rule concat_middle [OF len]) (use b in simp)
    finally have "seq_blocks_range e ix dim (b * BLOCK) (b * BLOCK + BLOCK)
        = Some (pack_blocked_sequential BLOCK 1 ?nbg (extract_codes_flat (concat mid) BLOCK ?bits dim))"
      unfolding seq_blocks_range_def Let_def geo prod.case Some option.case row by simp
    then show ?thesis using seq_block_packed [OF g mid(1,2)] mid(3) by (auto simp: row_seq_def)
  next
    case None
    then obtain c where c: "ix_blocked ix = Some c" and w: "wf_cache (e_target e) ?bits dim (length rows) c"
      and cr: "\<And>v. v < length rows \<Longrightarrow> cache_row (e_target e) ?bits ?nbg c v = row_seq ?bits dim (rows ! v)"
      using h by (auto simp: holds_rows_def row_seq_def)
    have inb: "b * BLOCK + l < length rows" if "l < BLOCK" for l using b that by simp
    have "Suc b \<le> nblk (length rows)" using b by simp
    note nb = mult_le_mono1 [OF this]
    show ?thesis
    proof (cases "is_planes c")
      case True
      have pf: "planes_for (e_target e) ?bits ?nbg" and r: "region (e_target e) 2 (dim div 8) (length rows) (bc_data c)"
        and lo: "length (bc_low c) = length rows * ((?bits - 1) * (dim div 8))"
        using w True by (auto simp: wf_cache_def Let_def)
      note pg = planes_geometry [OF g pf]
      have pgeo: "planes_geom ?bits ?nbg = (dim div 8, (?bits - 1) * (dim div 8))" using pg by (simp add: planes_geom_def Let_def)
      let ?k = "(?bits - 1) * (dim div 8)"
      have f1: "(b * BLOCK + BLOCK) * (dim div 8) \<le> length (bc_data c)"
        using nb [of "dim div 8 * BLOCK"] region_lengthD [OF r] by (simp add: algebra_simps)
      have f2: "(b * BLOCK + BLOCK) * ?k \<le> length (bc_low c)" unfolding lo by (rule mult_le_mono1 [OF b])
      have g1: "get_range (bc_data c) (b * BLOCK * (dim div 8)) ((b * BLOCK + BLOCK) * (dim div 8))
          = Some (take (BLOCK * (dim div 8)) (drop (b * BLOCK * (dim div 8)) (bc_data c)))"
        by (rule get_range_between) (use f1 in \<open>simp_all only: add_mult_distrib\<close>)
      have g2: "get_range (bc_low c) (b * BLOCK * ?k) (min ((b * BLOCK + BLOCK) * ?k) (length (bc_low c)))
          = Some (take (BLOCK * ?k) (drop (b * BLOCK * ?k) (bc_low c)))"
        unfolding min_absorb1 [OF f2] by (rule get_range_between) (use f2 in \<open>simp_all only: add_mult_distrib\<close>)
      have m: "min (b * BLOCK + BLOCK - b * BLOCK) (length rows - b * BLOCK) = BLOCK" using b by simp
      have "seq_blocks_range e ix dim (b * BLOCK) (b * BLOCK + BLOCK)
          = Some (planes_to_seq (e_target e) (take (BLOCK * (dim div 8)) (drop (b * BLOCK * (dim div 8)) (bc_data c)))
              (take (BLOCK * ?k) (drop (b * BLOCK * ?k) (bc_low c))) ?bits ?nbg BLOCK)"
        unfolding seq_blocks_range_def Let_def geo prod.case None c option.case pgeo g1 g2 bind.bind_lunit representsD(1) [OF rep] m if_P [OF True] ..
      then show ?thesis using seq_block_planes [OF g w True b] cr inb by auto
    next
      case False
      have r: "region (e_target e) ?bits ?nbg (length rows) (bc_data c)" using w False by (simp add: wf_cache_def Let_def)
      have fit: "Suc b * ?nbg * BLOCK \<le> length (bc_data c)"
        using nb [of "?nbg * BLOCK"] region_lengthD [OF r] by (simp only: mult.assoc)
      let ?d = "take (?nbg * BLOCK) (drop (b * ?nbg * BLOCK) (bc_data c))"
      have ld: "length ?d = 1 * ?nbg * BLOCK" using fit by simp
      have g1: "get_range (bc_data c) (b * BLOCK div BLOCK * (?nbg * BLOCK)) ((b * BLOCK + BLOCK) div BLOCK * (?nbg * BLOCK)) = Some ?d"
        by (subst get_range_between [where k = "?nbg * BLOCK"]) (use fit in \<open>simp_all add: algebra_simps\<close>)
      have "seq_blocks_range e ix dim (b * BLOCK) (b * BLOCK + BLOCK) = Some (native_to_seq (e_target e) ?d ?bits ?nbg)"
        unfolding seq_blocks_range_def Let_def geo prod.case None c option.case g1 if_not_P [OF False] by simp
      moreover have "stored_row (native_to_seq (e_target e) ?d ?bits ?nbg) ?nbg l = row_seq ?bits dim (rows ! (b * BLOCK + l))" if l: "l < BLOCK" for l
        using stored_row_native [OF ld, of l "e_target e" ?bits] l read_row_block [OF fit l, of "e_target e" ?bits] cr [OF inb [OF l]]
          cache_row_classic [OF False, of "e_target e" ?bits ?nbg "b * BLOCK + l"] by simp
      ultimately show ?thesis using ld by simp
    qed
  qed
qed

section \<open>A row\<close>

lemma row_codes_represents:
  assumes rep: "represents e ix rows" and d: "ix_dim ix = Some dim" and cap: "capture_ok ix rows" and v: "v < length rows"
  shows "row_codes e ix v = Some (row_seq (ix_bit_width ix) dim (rows ! v))"
proof (cases "capture_lookup ix v")
  case None
  then show ?thesis using seq_row_represents [OF rep d v] by (simp add: row_codes_def row_seq_def)
next
  case (Some p)
  obtain off k where p: "p = (off, k)" by (cases p)
  have "foldl (\<lambda>m (slot, off). m(unat slot \<mapsto> (unat off, dim div codes_per_byte (ix_bit_width ix)))) Map.empty (ix_sync_capture_at ix) v = Some (off, k)"
    using Some p d by (auto simp: capture_lookup_def blocked_geometry_def Let_def split: if_splits)
  from capture_lookup_entry [OF _ this] cap d
  have "off + k \<le> length (ix_sync_capture_buf ix)" "take k (drop off (ix_sync_capture_buf ix)) = row_seq (ix_bit_width ix) dim (rows ! v)"
    by (auto simp: capture_ok_def)
  then show ?thesis using Some p by (simp add: row_codes_def get_range_def slice_def)
qed

section \<open>The source\<close>

text \<open>The record a row is stored as.\<close>

definition row_rec :: "nat \<Rightarrow> nat \<Rightarrow> row list \<Rightarrow> u64 list option \<Rightarrow> nat \<Rightarrow> bytes" where
  "row_rec bits dim rows ids s =
     row_seq bits dim (rows ! s) @ u32_to_le (snd (rows ! s)) @ (case ids of None \<Rightarrow> [] | Some i \<Rightarrow> u64_to_le (i ! s))"

definition ids_fit :: "u8 \<Rightarrow> u64 list option \<Rightarrow> nat \<Rightarrow> bool" where
  "ids_fit kind ids n \<longleftrightarrow> (case ids of None \<Rightarrow> kind = 0 | Some i \<Rightarrow> kind = 1 \<and> length i = n)"

definition index_geo :: "index \<Rightarrow> nat \<Rightarrow> u8 \<Rightarrow> geo" where
  "index_geo ix dim kind =
     \<lparr>g_kind = kind, g_dim = dim, g_bit_width = ix_bit_width ix, g_n_calib = length (ix_tqplus_shift ix), g_version = 8,
      g_layout = LAYOUT_SEQ\<rparr>"

lemma row_bytes_index_geo [simp]: "row_bytes (index_geo ix dim kind) = dim div codes_per_byte (ix_bit_width ix)"
  by (simp add: index_geo_def row_bytes_def blocked_geometry_def Let_def)

lemma src_geo_index [simp]: "src_geo (index_source e ix dim kind ids 8 LAYOUT_SEQ) = index_geo ix dim kind"
  by (simp add: src_geo_def index_source_def index_geo_def)

lemma index_source_fields:
  fixes kind v l :: u8 and ids :: "u64 list option"
  assumes "represents e ix rows" "dim \<noteq> 0"
  defines "src \<equiv> index_source e ix dim kind ids v l"
  shows "ss_kind src = kind" "ss_dim src = dim" "ss_bit_width src = ix_bit_width ix" "ss_n_vectors src = length rows"
    "ss_version src = v" "ss_layout src = l" "ss_scales src = map snd rows" "ss_ids src = ids"
    "ss_tqplus_shift src = ix_tqplus_shift ix" "ss_tqplus_scale src = ix_tqplus_scale ix"
    "ix_boundaries ix = Some b \<Longrightarrow> ss_boundaries src = b" "ix_centroids ix = Some c \<Longrightarrow> ss_centroids src = c"
  using representsD(1,2) [OF assms(1)] assms(2) by (simp_all add: src_def index_source_def or_empty_def)

lemma codebook_lengths: "codebook fo bn bits dim = Some (b, c) \<Longrightarrow> length b = 2 ^ bits - 1 \<and> length c = 2 ^ bits"
  using lloyd_max_shape [of fo bn bits dim 200 LLOYD_TOL b c] by (simp add: codebook_lloyd)

lemma length_row_seq:
  "geom_ok bits dim \<Longrightarrow> length (row_seq bits dim r) = dim div codes_per_byte bits"
  using geom_okD(1,2) [of bits dim] by (simp add: row_seq_def length_extract_row)

lemma index_source_codes:
  fixes kind :: u8 and ids :: "u64 list option"
  assumes rep: "represents e ix rows" and d: "ix_dim ix = Some dim" and cap: "capture_ok ix rows"
  defines "src \<equiv> index_source e ix dim kind ids 8 LAYOUT_SEQ"
  shows "v < length rows \<Longrightarrow> ss_row_codes src v = row_seq (ix_bit_width ix) dim (rows ! v)"
    and "b < length rows div BLOCK \<Longrightarrow> length (ss_unit_codes src (b * BLOCK) (b * BLOCK + BLOCK)) = BLOCK * (dim div codes_per_byte (ix_bit_width ix)) \<and>
      (\<forall>l < BLOCK. stored_row (ss_unit_codes src (b * BLOCK) (b * BLOCK + BLOCK)) (dim div codes_per_byte (ix_bit_width ix)) l
        = row_seq (ix_bit_width ix) dim (rows ! (b * BLOCK + l)))"
proof -
  show "v < length rows \<Longrightarrow> ss_row_codes src v = row_seq (ix_bit_width ix) dim (rows ! v)"
    using row_codes_represents [OF rep d cap] by (simp add: src_def index_source_def or_empty_def)
  assume "b < length rows div BLOCK"
  then have "b * BLOCK + BLOCK \<le> length rows" by simp
  from seq_blocks_range_represents [OF rep d this]
  show "length (ss_unit_codes src (b * BLOCK) (b * BLOCK + BLOCK)) = BLOCK * (dim div codes_per_byte (ix_bit_width ix)) \<and>
      (\<forall>l < BLOCK. stored_row (ss_unit_codes src (b * BLOCK) (b * BLOCK + BLOCK)) (dim div codes_per_byte (ix_bit_width ix)) l
        = row_seq (ix_bit_width ix) dim (rows ! (b * BLOCK + l)))"
    by (auto simp: src_def index_source_def unit_codes_range_def or_empty_def LAYOUT_SEQ_def LAYOUT_PLANES_def)
qed

lemma row_record_index:
  assumes rep: "represents e ix rows" and d: "ix_dim ix = Some dim" and cap: "capture_ok ix rows" and v: "v < length rows"
  shows "row_record (index_source e ix dim kind ids 8 LAYOUT_SEQ) v = row_rec (ix_bit_width ix) dim rows ids v"
proof -
  have "dim \<noteq> 0" using representsD(8) [OF rep d] by (simp add: geom_ok_def)
  note f = index_source_fields(7,8) [OF rep this, where kind = kind and ids = ids and v = 8 and l = LAYOUT_SEQ]
  show ?thesis unfolding row_record_def row_rec_def f index_source_codes(1) [OF rep d cap v] using v by simp
qed

theorem index_source_rows:
  assumes rep: "represents e ix rows" and d: "ix_dim ix = Some dim" and cap: "capture_ok ix rows"
    and b: "ix_boundaries ix = Some b" "ix_centroids ix = Some c" and ids: "ids_fit kind ids (length rows)"
    and n: "length rows < 32 * 4294967296"
  defines "src \<equiv> index_source e ix dim kind ids 8 LAYOUT_SEQ"
  shows "wf_source src" and "seq_source src"
proof -
  let ?bits = "ix_bit_width ix"
  note g = representsD(8) [OF rep d]
  have d0: "dim \<noteq> 0" using g by (simp add: geom_ok_def)
  note f = index_source_fields [OF rep d0, where kind = kind and ids = ids and v = 8 and l = LAYOUT_SEQ, folded src_def]
  note cd = index_source_codes [OF rep d cap, where kind = kind and ids = ids, folded src_def]
  have geo: "src_geo src = index_geo ix dim kind" by (simp add: src_def)
  obtain dim' c' dim'' b' where "ix_dim ix = Some dim'" "codebook (e_fo e) (e_beta e) ?bits dim' = Some (b, c')"
    "ix_dim ix = Some dim''" "codebook (e_fo e) (e_beta e) ?bits dim'' = Some (b', c)"
    using representsD(5) [OF rep] b by (auto simp: codec_ok_def)
  then have cb: "length b = 2 ^ ?bits - 1" "length c = 2 ^ ?bits" using codebook_lengths by blast+
  have cal: "length (ix_tqplus_scale ix) = length (ix_tqplus_shift ix)" using representsD(6) [OF rep] d by (simp add: calibration_ok_def)
  have i: "case ids of None \<Rightarrow> kind = 0 | Some i \<Rightarrow> kind = 1 \<and> length i = length rows" using ids by (simp add: ids_fit_def)
  have lr: "length (ss_row_codes src v) = row_bytes (index_geo ix dim kind)" if "v < length rows" for v
    using cd(1) [OF that] length_row_seq [OF g] by simp
  have lu: "length (ss_unit_codes src (b * BLOCK) (b * BLOCK + BLOCK)) = BLOCK * row_bytes (index_geo ix dim kind)" if "b < length rows div BLOCK" for b
    using cd(2) [OF that] by simp
  show "wf_source src"
    unfolding wf_source_def Let_def geo f(1-10) f(11) [OF b(1)] f(12) [OF b(2)]
    using representsD(3) [OF rep] representsD(9) [OF rep d] geom_okD(2) [OF g] lr lu i cal cb n
    by (simp add: n_levels_def index_geo_def MAX_DIM_def)
  show "seq_source src"
    unfolding seq_source_def geo f(4)
  proof (intro allI impI)
    fix b l k
    assume b: "b < length rows div BLOCK" and l: "l < BLOCK" and k: "k < row_bytes (index_geo ix dim kind)"
    have v: "b * BLOCK + l < length rows" using b l by simp
    let ?w = "dim div codes_per_byte ?bits"
    have "stored_row (ss_unit_codes src (b * BLOCK) (b * BLOCK + BLOCK)) ?w l ! k
        = ss_unit_codes src (b * BLOCK) (b * BLOCK + BLOCK) ! (k * BLOCK + l)"
      using k l by (simp add: stored_row_def)
    then show "ss_unit_codes src (b * BLOCK) (b * BLOCK + BLOCK) ! (k * BLOCK + l) = ss_row_codes src (b * BLOCK + l) ! k"
      using cd(2) [OF b] cd(1) [OF v] l by simp
  qed
qed

end
