(* ===== verification/IndexLoad.thy ===== *)
theory IndexLoad
  imports IndexSource
begin

text \<open>
  The index a loader returns (\<open>from_v7\<close>): the search cache made of the loaded blocks holds the rows of
  the source the file was written from.
\<close>

section \<open>The cache\<close>

lemma native_cache_rows:
  assumes g: "geom_ok (vl_bit_width l) (vl_dim l)" and s: "vl_layout l \<noteq> LAYOUT_PLANES"
  defines "w \<equiv> vl_dim l div codes_per_byte (vl_bit_width l)"
  assumes ls: "length (vl_seq_blocked l) = nblk (vl_n_vectors l) * w * BLOCK"
    and pad: "\<And>v. vl_n_vectors l \<le> v \<Longrightarrow> v < nblk (vl_n_vectors l) * BLOCK \<Longrightarrow> stored_row (vl_seq_blocked l) w v = replicate w 0"
  shows "wf_cache t (vl_bit_width l) (vl_dim l) (vl_n_vectors l) (native_cache t l)"
    and "v < vl_n_vectors l \<Longrightarrow> cache_row t (vl_bit_width l) w (native_cache t l) v = stored_row (vl_seq_blocked l) w v"
proof -
  let ?bits = "vl_bit_width l" and ?n = "vl_n_vectors l" and ?seq = "vl_seq_blocked l"
  define c where "c = \<lparr>bc_data = seq_into_native t ?seq ?bits w, bc_low = [], bc_n_blocks = nblk ?n\<rparr>"
  have rr: "read_row t ?bits w (bc_data c) v = stored_row ?seq w v" if "v < nblk ?n * BLOCK" for v
    using read_row_seq [OF ls that] by (simp add: c_def)
  have r: "region t ?bits w ?n (bc_data c)"
    by (rule regionI) (use ls rr pad in \<open>simp_all add: c_def\<close>)
  have inv: "native_to_seq t (seq_into_native t ?seq ?bits w) ?bits w = ?seq" by (rule native_roundtrip) (use ls in simp)
  have gw: "blocked_geometry ?n ?bits (vl_dim l) = (nblk ?n, w, nblk ?n * w * BLOCK)" by (simp add: blocked_geometry_def w_def Let_def)
  have nc: "native_cache t l = (promote_if_due t ?n ?bits w c)\<lparr>bc_n_blocks := nblk ?n\<rparr>"
    using s inv by (simp add: native_cache_def promote_if_due_def gw c_def is_planes_def case_prod_beta Let_def)
  have np: "\<not> is_planes c" by (simp add: c_def is_planes_def)
  note p = promote_rows [OF g np r [unfolded w_def], folded w_def, folded nc]
  show "wf_cache t ?bits (vl_dim l) ?n (native_cache t l)" by (rule p(1))
  show "cache_row t ?bits w (native_cache t l) v = stored_row ?seq w v" if v: "v < ?n"
    using p(2) [OF v] rr [of v] v nblk_bound [of ?n] by simp
qed

section \<open>The index\<close>

text \<open>A loaded container as an index: its rows, its fields, and the state of its next sync.\<close>

definition opened :: "'r env \<Rightarrow> sync_source \<Rightarrow> sync_cursor \<Rightarrow> nat set \<Rightarrow> string option \<Rightarrow> row list \<Rightarrow> index \<Rightarrow> bool" where
  "opened e src cursor pending path rows ix \<longleftrightarrow>
     represents e ix rows \<and> ix_dim ix = Some (ss_dim src) \<and> ix_bit_width ix = ss_bit_width src \<and>
     ix_tqplus_shift ix = ss_tqplus_shift src \<and> ix_tqplus_scale ix = ss_tqplus_scale src \<and>
     ix_sync_cursor ix = map_option (\<lambda>_. cursor) path \<and> ix_sync_path ix = path \<and> ix_sync_pending ix = pending \<and>
     ix_sync_fresh ix = {} \<and> ix_sync_capture_buf ix = [] \<and> ix_sync_capture_at ix = [] \<and> ix_calib_gen ix = 0"

theorem from_v7_represents:
  assumes l: "loads_source src cursor pending 0 l" and g: "geom_ok (ss_bit_width src) (ss_dim src)" "ss_dim src \<le> MAX_DIM"
    and s: "ss_layout src \<noteq> LAYOUT_PLANES"
    and n: "ss_n_vectors src = length rows" and sc: "ss_scales src = map snd rows"
    and len: "\<forall>x \<in> set (map fst rows). length x = ss_bit_width src * (ss_dim src div 8)"
    and codes: "\<And>v. v < length rows \<Longrightarrow> ss_row_codes src v = row_seq (ss_bit_width src) (ss_dim src) (rows ! v)"
    and cal: "normalize_calibration (ss_tqplus_shift src) (ss_tqplus_scale src) = (ss_tqplus_shift src, ss_tqplus_scale src)"
      "length (ss_tqplus_scale src) = length (ss_tqplus_shift src)" "length (ss_tqplus_shift src) \<in> {0, ss_dim src}"
    and cb: "codebook (e_fo e) (e_beta e) (ss_bit_width src) (ss_dim src) = Some (b, c)"
  shows "\<exists>ix. from_v7 e l path = Some ix \<and> opened e src (cursor\<lparr>sc_calib_gen := 0\<rparr>) pending path rows ix"
proof -
  have w: "row_bytes (src_geo src) = ss_dim src div codes_per_byte (ss_bit_width src)"
    by (simp add: src_geo_def row_bytes_def blocked_geometry_def Let_def)
  note f = l [unfolded loads_source_def Let_def w n]
  have dim: "ss_dim src \<noteq> 0" using g(1) by (simp add: geom_ok_def)
  note nc = native_cache_rows [where l = l and t = "e_target e"]
  have wf: "wf_cache (e_target e) (ss_bit_width src) (ss_dim src) (length rows) (native_cache (e_target e) l)"
    using nc(1) f g(1) s by auto
  have cr: "cache_row (e_target e) (ss_bit_width src) (ss_dim src div codes_per_byte (ss_bit_width src)) (native_cache (e_target e) l) v
      = extract_row (fst (rows ! v)) 0 (ss_bit_width src) (ss_dim src)" if v: "v < length rows" for v
    using nc(2) [of v] f g(1) s v codes [OF v] nblk_bound [of "length rows"] by (auto simp: row_seq_def)
  define ix where "ix = \<lparr>ix_dim = Some (ss_dim src), ix_bit_width = ss_bit_width src, ix_n_vectors = length rows,
      ix_packed_codes = (if rows = [] then Some [] else None), ix_scales = map snd rows,
      ix_tqplus_shift = ss_tqplus_shift src, ix_tqplus_scale = ss_tqplus_scale src, ix_rotation = None,
      ix_boundaries = (if rows = [] then None else Some b), ix_centroids = (if rows = [] then None else Some c),
      ix_blocked = (if rows = [] then None else Some (native_cache (e_target e) l)), ix_mapped = False,
      ix_sync_cursor = map_option (\<lambda>_. cursor\<lparr>sc_calib_gen := 0\<rparr>) path, ix_sync_path = path, ix_sync_pending = pending,
      ix_sync_fresh = {}, ix_sync_capture_buf = [], ix_sync_capture_at = [], ix_calib_gen = 0\<rparr>"
  have fv: "from_v7 e l path = Some ix"
    using f dim cal(1) cb sc by (simp add: from_v7_def ix_def)
  have "represents e ix rows"
  proof (rule representsI)
    show "codec_ok e ix" using cb by (simp add: codec_ok_def ix_def)
    show "calibration_ok ix" using cal(2,3) by (simp add: calibration_ok_def ix_def)
    show "holds_rows (e_target e) (ix_bit_width ix) (ss_dim src) (map fst rows) (ix_packed_codes ix) (ix_blocked ix)"
      using wf cr by (simp add: holds_rows_def ix_def)
    show "ix_bit_width ix \<in> {2, 3, 4}" using geom_okD(1) [OF g(1)] by (simp add: ix_def)
  qed (use g len in \<open>simp_all add: ix_def\<close>)
  then have "opened e src (cursor\<lparr>sc_calib_gen := 0\<rparr>) pending path rows ix" by (simp add: opened_def ix_def)
  then show ?thesis using fv by blast
qed

end
