(* ===== verification/IndexFile.thy ===== *)
theory IndexFile
  imports IndexLoad
begin

text \<open>
  The index and its file over time. \<open>file_holds\<close> says that a file, whatever its history, holds a
  snapshot; \<open>tracked\<close> is the bookkeeping invariant an index keeps with the file it is bound to: every
  committed slot it has not marked still is, byte for byte, what the file holds.
\<close>

section \<open>Snapshots\<close>

record snapshot =
  sn_kind :: u8
  sn_bits :: nat
  sn_dim :: nat
  sn_shift :: "f32 list"
  sn_scale :: "f32 list"
  sn_rows :: "row list"
  sn_ids :: "u64 list option"

definition snapshot_of :: "index \<Rightarrow> nat \<Rightarrow> u8 \<Rightarrow> row list \<Rightarrow> u64 list option \<Rightarrow> snapshot" where
  "snapshot_of ix dim kind rows ids =
     \<lparr>sn_kind = kind, sn_bits = ix_bit_width ix, sn_dim = dim, sn_shift = ix_tqplus_shift ix, sn_scale = ix_tqplus_scale ix,
      sn_rows = rows, sn_ids = ids\<rparr>"

definition snap_geo :: "snapshot \<Rightarrow> geo" where
  "snap_geo sn =
     \<lparr>g_kind = sn_kind sn, g_dim = sn_dim sn, g_bit_width = sn_bits sn, g_n_calib = length (sn_shift sn), g_version = 8,
      g_layout = LAYOUT_SEQ\<rparr>"

text \<open>What makes a snapshot one an index can hold, and one a loader accepts.\<close>

definition snap_ok :: "snapshot \<Rightarrow> bool" where
  "snap_ok sn \<longleftrightarrow>
     geom_ok (sn_bits sn) (sn_dim sn) \<and> sn_dim sn \<le> MAX_DIM \<and>
     (\<forall>x \<in> set (map fst (sn_rows sn)). length x = sn_bits sn * (sn_dim sn div 8)) \<and>
     length (sn_scale sn) = length (sn_shift sn) \<and> length (sn_shift sn) \<in> {0, sn_dim sn} \<and>
     ids_fit (sn_kind sn) (sn_ids sn) (length (sn_rows sn))"

definition snap_loadable :: "'r env \<Rightarrow> snapshot \<Rightarrow> bool" where
  "snap_loadable e sn \<longleftrightarrow>
     normalize_calibration (sn_shift sn) (sn_scale sn) = (sn_shift sn, sn_scale sn) \<and>
     validate_calibration (env_numerics e) (sn_shift sn) (sn_scale sn) = Inr () \<and>
     (\<exists>b c. codebook (e_fo e) (e_beta e) (sn_bits sn) (sn_dim sn) = Some (b, c) \<and> (\<forall>v \<in> set (b @ c). \<not> f32_is_nan v))"

text \<open>A source that presents a snapshot.\<close>

definition source_of :: "'r env \<Rightarrow> snapshot \<Rightarrow> sync_source \<Rightarrow> bool" where
  "source_of e sn src \<longleftrightarrow>
     src_geo src = snap_geo sn \<and> ss_n_vectors src = length (sn_rows sn) \<and> ss_scales src = map snd (sn_rows sn) \<and>
     ss_ids src = sn_ids sn \<and> ss_tqplus_shift src = sn_shift sn \<and> ss_tqplus_scale src = sn_scale sn \<and>
     codebook (e_fo e) (e_beta e) (sn_bits sn) (sn_dim sn) = Some (ss_boundaries src, ss_centroids src) \<and>
     (\<forall>v < length (sn_rows sn). ss_row_codes src v = row_seq (sn_bits sn) (sn_dim sn) (sn_rows sn ! v))"

lemma source_of_geo:
  assumes "source_of e sn src"
  shows "ss_kind src = sn_kind sn" "ss_dim src = sn_dim sn" "ss_bit_width src = sn_bits sn" "ss_version src = 8"
    "ss_layout src = LAYOUT_SEQ"
  using assms by (auto simp: source_of_def src_geo_def snap_geo_def)

lemma source_of_record:
  assumes "source_of e sn src" "v < length (sn_rows sn)"
  shows "row_record src v = row_rec (sn_bits sn) (sn_dim sn) (sn_rows sn) (sn_ids sn) v"
  using assms by (simp add: row_record_def row_rec_def source_of_def)

lemma source_of_index:
  assumes rep: "represents e ix rows" and d: "ix_dim ix = Some dim" and cap: "capture_ok ix rows"
    and b: "ix_boundaries ix = Some b" "ix_centroids ix = Some c"
  shows "source_of e (snapshot_of ix dim kind rows ids) (index_source e ix dim kind ids 8 LAYOUT_SEQ)"
proof -
  have d0: "dim \<noteq> 0" using representsD(8) [OF rep d] by (simp add: geom_ok_def)
  note f = index_source_fields [OF rep d0, where kind = kind and ids = ids and v = 8 and l = LAYOUT_SEQ]
  have "codebook (e_fo e) (e_beta e) (ix_bit_width ix) dim = Some (b, c)"
    using representsD(5) [OF rep] d b by (auto simp: codec_ok_def)
  then show ?thesis
    using f(1-10) f(11) [OF b(1)] f(12) [OF b(2)] index_source_codes(1) [OF rep d cap, where kind = kind and ids = ids]
    by (simp add: source_of_def snapshot_of_def snap_geo_def index_geo_def)
qed

lemma same_codec_sources:
  assumes "source_of e sn src" "source_of e sn' src'" "snap_geo sn' = snap_geo sn" "sn_shift sn' = sn_shift sn" "sn_scale sn' = sn_scale sn"
  shows "same_codec src src'"
  using assms by (auto simp: source_of_def same_codec_def snap_geo_def)

lemma snap_ok_index:
  assumes "represents e ix rows" "ix_dim ix = Some dim" "ids_fit kind ids (length rows)"
  shows "snap_ok (snapshot_of ix dim kind rows ids)"
  using representsD(6) [OF assms(1)] representsD(8-10) [OF assms(1,2)] assms(2,3)
  by (simp add: snap_ok_def snapshot_of_def calibration_ok_def)

section \<open>Files\<close>

text \<open>After some history of syncs, cuts and recoveries the file holds the snapshot; \<open>c\<close> and \<open>pending\<close> are
  the cursor and the redo slots a bound index keeps.\<close>

definition file_holds :: "'r env \<Rightarrow> bytes \<Rightarrow> snapshot \<Rightarrow> sync_cursor \<Rightarrow> nat set \<Rightarrow> bool" where
  "file_holds e f sn c pending \<longleftrightarrow>
     snap_ok sn \<and> (\<exists>h src cg. synced (snap_geo sn) f h (c\<lparr>sc_calib_gen := cg\<rparr>) pending src \<and> source_of e sn src)"

lemma file_holds_gen: "file_holds e f sn (c\<lparr>sc_calib_gen := g\<rparr>) pending = file_holds e f sn c pending"
  by (simp add: file_holds_def)

lemma file_holds_watermark:
  assumes "file_holds e f sn c pending"
  shows "unat (sc_n_synced c) = length (sn_rows sn)"
proof -
  obtain h src cg where s: "synced (snap_geo sn) f h (c\<lparr>sc_calib_gen := cg\<rparr>) pending src" and so: "source_of e sn src"
    using assms by (auto simp: file_holds_def)
  show ?thesis using synced_invariant [OF s] so by (simp add: synced_inv_def source_of_def)
qed

text \<open>Another processor reads the same rows: only the numbers must agree.\<close>

definition same_numbers :: "'r env \<Rightarrow> 's env \<Rightarrow> bool" where
  "same_numbers e e' \<longleftrightarrow> e_fo e' = e_fo e \<and> e_beta e' = e_beta e"

lemma loadable_source:
  assumes so: "source_of e sn src" and wf: "wf_source src" and ok: "snap_ok sn" and l: "snap_loadable e sn"
  shows "loadable (env_numerics e) src"
proof -
  have cb: "codebook (e_fo e) (e_beta e) (sn_bits sn) (sn_dim sn) = Some (ss_boundaries src, ss_centroids src)"
    using so by (simp add: source_of_def)
  then have "\<forall>v \<in> set (ss_boundaries src @ ss_centroids src). \<not> f32_is_nan v" using l by (auto simp: snap_loadable_def)
  moreover have "nm_codebook (env_numerics e) (sn_bits sn) (sn_dim sn) = (ss_boundaries src, ss_centroids src)"
    using cb by (simp add: env_numerics_def)
  moreover have "ss_tqplus_shift src = [] \<or> length (ss_tqplus_shift src) = ss_dim src"
    using so ok source_of_geo [OF so] by (auto simp: source_of_def snap_ok_def)
  ultimately show ?thesis
    using wf l so source_of_geo [OF so] by (simp add: loadable_def snap_loadable_def source_of_def)
qed

text \<open>An index freshly opened from a file that holds a snapshot.\<close>

definition reopened :: "'r env \<Rightarrow> snapshot \<Rightarrow> sync_cursor \<Rightarrow> nat set \<Rightarrow> string option \<Rightarrow> index \<Rightarrow> bool" where
  "reopened e sn c pending bound ix \<longleftrightarrow>
     represents e ix (sn_rows sn) \<and> snapshot_of ix (sn_dim sn) (sn_kind sn) (sn_rows sn) (sn_ids sn) = sn \<and> ix_dim ix = Some (sn_dim sn) \<and>
     ix_sync_cursor ix = map_option (\<lambda>_. c\<lparr>sc_calib_gen := 0\<rparr>) bound \<and> ix_sync_path ix = bound \<and> ix_sync_pending ix = pending \<and>
     ix_sync_fresh ix = {} \<and> ix_sync_capture_buf ix = [] \<and> ix_sync_capture_at ix = [] \<and> ix_calib_gen ix = 0"

lemma loaded_reopens:
  assumes so: "source_of e sn src" and ok: "snap_ok sn" and l: "snap_loadable e sn" and num: "same_numbers e e'"
    and l': "loads_source src (c\<lparr>sc_calib_gen := cg\<rparr>) pending 0 l'"
  shows "(\<forall>ids. sn_ids sn = Some ids \<longrightarrow> vl_ids l' = ids) \<and> vl_cursor l' = c\<lparr>sc_calib_gen := 0\<rparr> \<and>
    (\<exists>ix. from_v7 e' l' bound = Some ix \<and> reopened e' sn c pending bound ix)"
proof -
  note sg = source_of_geo [OF so]
  have cur: "vl_cursor l' = c\<lparr>sc_calib_gen := 0\<rparr>" and ids: "\<forall>ids. sn_ids sn = Some ids \<longrightarrow> vl_ids l' = ids"
    using l' so by (simp_all add: loads_source_def source_of_def Let_def)
  obtain b cs where cb: "codebook (e_fo e') (e_beta e') (ss_bit_width src) (ss_dim src) = Some (b, cs)"
    using l num sg by (auto simp: snap_loadable_def same_numbers_def)
  have "\<exists>ix. from_v7 e' l' bound = Some ix \<and> opened e' src ((c\<lparr>sc_calib_gen := cg\<rparr>)\<lparr>sc_calib_gen := 0\<rparr>) pending bound (sn_rows sn) ix"
    by (rule from_v7_represents [OF l' _ _ _ _ _ _ _ _ _ _ cb])
      (use ok so sg l in \<open>auto simp: snap_ok_def source_of_def snap_loadable_def LAYOUT_SEQ_def LAYOUT_PLANES_def\<close>)
  then obtain ix where ix: "from_v7 e' l' bound = Some ix" "opened e' src (c\<lparr>sc_calib_gen := 0\<rparr>) pending bound (sn_rows sn) ix" by auto
  have "reopened e' sn c pending bound ix"
    using ix(2) so sg by (simp add: reopened_def opened_def snapshot_of_def source_of_def)
  then show ?thesis using cur ids ix(1) by blast
qed

text \<open>What a file is loaded from, whole (\<open>load_image\<close>) or up to its declared length (\<open>load_file\<close>).\<close>

lemma file_holds_source:
  assumes h: "file_holds e f sn c pending" and l: "snap_loadable e sn"
  shows "\<exists>src cg. source_of e sn src \<and> snap_ok sn \<and>
    (\<exists>l. load_file (env_numerics e) f 0 (sn_kind sn) = Inr l \<and> loads_source src (c\<lparr>sc_calib_gen := cg\<rparr>) pending 0 l) \<and>
    (\<exists>l. load_image (env_numerics e) f 0 (sn_kind sn) = Inr l \<and> loads_source src (c\<lparr>sc_calib_gen := cg\<rparr>) pending 0 l)"
proof -
  obtain hd src cg where s: "synced (snap_geo sn) f hd (c\<lparr>sc_calib_gen := cg\<rparr>) pending src" and so: "source_of e sn src"
    and ok: "snap_ok sn" using h by (auto simp: file_holds_def)
  have i: "synced_inv (snap_geo sn) f hd (c\<lparr>sc_calib_gen := cg\<rparr>) pending src" using s by (rule synced_invariant)
  then have wf: "wf_source src" by (simp add: synced_inv_def)
  note sg = source_of_geo [OF so] and ld = loadable_source [OF so wf ok l]
  have d0: "ss_dim src = 0 \<longrightarrow> ss_n_vectors src = 0" using ok sg by (auto simp: snap_ok_def geom_ok_def)
  have lay: "g_layout (snap_geo sn) \<noteq> LAYOUT_PLANES" by (simp add: snap_geo_def LAYOUT_SEQ_def LAYOUT_PLANES_def)
  have hc: "holds_commit (snap_geo sn) f hd src (sc_nonce c)" and ch: "choose_header f (snap_geo sn) = Some hd"
    and p: "pending = set (op_slots hd)" and n: "sc_gen c = ph_gen hd" "unat (sc_n_synced c) = ss_n_vectors src"
    using i by (auto simp: synced_inv_def holds_commit_def)
  have "of_nat (ss_n_vectors src) = sc_n_synced c" unfolding n(2) [symmetric] by simp
  then have "c\<lparr>sc_calib_gen := cg\<rparr> = \<lparr>sc_gen = ph_gen hd, sc_n_synced = of_nat (ss_n_vectors src), sc_calib_gen = cg, sc_nonce = sc_nonce c\<rparr>"
    using n(1) by (cases c) simp
  from holds_commit_loads [OF hc ld lay ch d0 this, of 0] load_file_loads [OF s ld lay d0, of 0]
  show ?thesis using so ok p sg(1) by auto
qed

theorem file_holds_loads:
  assumes h: "file_holds e f sn c pending" and l: "snap_loadable e sn" and num: "same_numbers e e'"
  shows "\<exists>l ix. load_file (env_numerics e') f 0 (sn_kind sn) = Inr l \<and> (\<forall>ids. sn_ids sn = Some ids \<longrightarrow> vl_ids l = ids) \<and>
      vl_cursor l = c\<lparr>sc_calib_gen := 0\<rparr> \<and> from_v7 e' l bound = Some ix \<and> reopened e' sn c pending bound ix"
    and "\<exists>l ix. load_image (env_numerics e') f 0 (sn_kind sn) = Inr l \<and> (\<forall>ids. sn_ids sn = Some ids \<longrightarrow> vl_ids l = ids) \<and>
      vl_cursor l = c\<lparr>sc_calib_gen := 0\<rparr> \<and> from_v7 e' l bound = Some ix \<and> reopened e' sn c pending bound ix"
proof -
  have nm: "env_numerics e' = env_numerics e" using num by (simp add: same_numbers_def env_numerics_def)
  obtain src cg l1 l2 where s: "source_of e sn src" "snap_ok sn"
    "load_file (env_numerics e) f 0 (sn_kind sn) = Inr l1" "loads_source src (c\<lparr>sc_calib_gen := cg\<rparr>) pending 0 l1"
    "load_image (env_numerics e) f 0 (sn_kind sn) = Inr l2" "loads_source src (c\<lparr>sc_calib_gen := cg\<rparr>) pending 0 l2"
    using file_holds_source [OF h l] by blast
  note r = loaded_reopens [OF s(1,2) l num, where bound = bound]
  show "\<exists>l ix. load_file (env_numerics e') f 0 (sn_kind sn) = Inr l \<and> (\<forall>ids. sn_ids sn = Some ids \<longrightarrow> vl_ids l = ids) \<and>
      vl_cursor l = c\<lparr>sc_calib_gen := 0\<rparr> \<and> from_v7 e' l bound = Some ix \<and> reopened e' sn c pending bound ix"
    unfolding nm using r [OF s(4)] s(3) by blast
  show "\<exists>l ix. load_image (env_numerics e') f 0 (sn_kind sn) = Inr l \<and> (\<forall>ids. sn_ids sn = Some ids \<longrightarrow> vl_ids l = ids) \<and>
      vl_cursor l = c\<lparr>sc_calib_gen := 0\<rparr> \<and> from_v7 e' l bound = Some ix \<and> reopened e' sn c pending bound ix"
    unfolding nm using r [OF s(6)] s(5) by blast
qed

text \<open>Opening a file that holds a snapshot gives an index of its rows, on any processor.\<close>

lemma file_holds_is_v7:
  assumes "file_holds e f sn c pending"
  shows "is_v7 (Some f)"
proof -
  obtain h src cg where s: "synced (snap_geo sn) f h (c\<lparr>sc_calib_gen := cg\<rparr>) pending src" and so: "source_of e sn src"
    using assms by (auto simp: file_holds_def)
  have "get_range f 0 (sb_len (snap_geo sn)) = Some (superblock src (sc_nonce c))"
    using synced_invariant [OF s] by (simp add: synced_inv_def)
  then obtain rest where f: "f = superblock src (sc_nonce c) @ rest" by (rule superblock_prefix)
  have "take 4 (superblock src (sc_nonce c) @ rest) = V8_MAGIC" "4 \<le> length (superblock src (sc_nonce c) @ rest)"
    using source_of_geo(4) [OF so] by (simp_all add: superblock_def V8_MAGIC_def Let_def)
  then show ?thesis by (simp add: is_v7_def f)
qed

lemma load_reopens:
  assumes "file_holds e f sn c pending" "snap_loadable e sn" "same_numbers e e'" "sn_kind sn = 0"
  shows "\<exists>ix. index_load e' f path = Inr (Some ix) \<and>
    reopened e' sn c pending (if sc_nonce c \<noteq> UNCLAIMED_NONCE then Some path else None) ix"
  using file_holds_loads(1) [OF assms(1-3), of "if sc_nonce c \<noteq> UNCLAIMED_NONCE then Some path else None"] assms(4)
    file_holds_is_v7 [OF assms(1)]
  by (auto simp: index_load_def load_v7_def)

lemma from_bytes_reopens:
  assumes "file_holds e f sn c pending" "snap_loadable e sn" "same_numbers e e'" "sn_kind sn = 0"
  shows "\<exists>ix. from_bytes e' f = Inr (Some ix) \<and> reopened e' sn c pending None ix"
  using file_holds_loads(2) [OF assms(1-3), of None] assms(4) by (auto simp: from_bytes_def)

end
