(* ===== verification/IndexTracked.thy ===== *)
theory IndexTracked
  imports IndexFile
begin

text \<open>
  The bookkeeping an index keeps for its next sync (\<open>sync_cursor\<close>, \<open>sync_pending\<close>, \<open>sync_fresh\<close> and
  the capture log) against the file it is bound to: the invariant \<open>tracked\<close>, that every operation keeps
  it, and that a sync (\<open>sync_v7_impl\<close>) leaves a file that holds the index.
\<close>

section \<open>What a sync does to a file\<close>

lemma plan_incremental_gen:
  "plan_incremental src (c\<lparr>sc_calib_gen := g\<rparr>) pending fresh clear
     = map_option (\<lambda>pl. pl\<lparr>sp_new_cursor := (sp_new_cursor pl)\<lparr>sc_calib_gen := g\<rparr>\<rparr>) (plan_incremental src c pending fresh clear)"
  by (simp add: plan_incremental_def plan_batch_def plan_header_def plan_digest_def plan_blocks_def delta_blocks_def live_floor_def Let_def)

lemma cursor_gen: "sc_gen (c\<lparr>sc_calib_gen := g\<rparr>) = sc_gen c" "sc_nonce (c\<lparr>sc_calib_gen := g\<rparr>) = sc_nonce c"
  by simp_all

lemma own_verdict_gen: "own_verdict f (c\<lparr>sc_calib_gen := g\<rparr>) geo = own_verdict f c geo"
  unfolding own_verdict_def cursor_gen ..

lemma cursor_state_gen: "cursor_state file (c\<lparr>sc_calib_gen := g\<rparr>) geo = cursor_state file c geo"
  unfolding cursor_state_def own_verdict_gen cursor_gen ..

lemma cursor_state_holds:
  assumes "file_holds e f sn c pending"
  shows "\<exists>stale. cursor_state (Some f) c (snap_geo sn) = CsIntact stale"
proof -
  obtain h src cg where s: "synced (snap_geo sn) f h (c\<lparr>sc_calib_gen := cg\<rparr>) pending src"
    using assms by (auto simp: file_holds_def)
  show ?thesis using cursor_state_synced [OF s] by (auto simp: cursor_state_gen)
qed

text \<open>A source ready to be written.\<close>

definition ready :: "'r env \<Rightarrow> snapshot \<Rightarrow> sync_source \<Rightarrow> bool" where
  "ready e sn src \<longleftrightarrow> source_of e sn src \<and> snap_ok sn \<and> wf_source src \<and> seq_source src \<and> bounded_scales src"

lemma full_write_holds:
  assumes "ready e sn src" "write_full_inner src gen nonce = (f, c)" "length f \<le> usize_max"
  shows "file_holds e f sn c {}"
proof -
  have "synced (snap_geo sn) f (image_commit src) c {} src"
    using synced_full [of src "snap_geo sn" gen nonce f c] assms by (simp add: ready_def source_of_def)
  then have "synced (snap_geo sn) f (image_commit src) (c\<lparr>sc_calib_gen := sc_calib_gen c\<rparr>) {} src" by simp
  then show ?thesis using assms(1) unfolding file_holds_def ready_def by blast
qed

text \<open>What the next sync's plan relies on.\<close>

definition in_step :: "snapshot \<Rightarrow> snapshot \<Rightarrow> nat set \<Rightarrow> bool" where
  "in_step sn sn' fresh \<longleftrightarrow>
     sn_kind sn' = sn_kind sn \<and> sn_bits sn' = sn_bits sn \<and> sn_dim sn' = sn_dim sn \<and> sn_shift sn' = sn_shift sn \<and> sn_scale sn' = sn_scale sn \<and>
     (\<forall>s < length (sn_rows sn) div BLOCK * BLOCK. s \<notin> fresh \<longrightarrow>
        s < length (sn_rows sn') \<and> row_rec (sn_bits sn) (sn_dim sn) (sn_rows sn') (sn_ids sn') s
          = row_rec (sn_bits sn) (sn_dim sn) (sn_rows sn) (sn_ids sn) s)"

lemma in_step_sources:
  assumes st: "in_step sn sn' fresh" and so: "source_of e sn src" "source_of e sn' src'"
  shows "snap_geo sn' = snap_geo sn" "same_codec src src'" "rows_unchanged src src' fresh"
proof -
  show g: "snap_geo sn' = snap_geo sn" using st by (simp add: in_step_def snap_geo_def)
  show "same_codec src src'" by (rule same_codec_sources [OF so g]) (use st in \<open>simp_all add: in_step_def\<close>)
  show "rows_unchanged src src' fresh"
    unfolding rows_unchanged_def
  proof (intro allI impI)
    fix s
    assume s: "s < min (ss_n_vectors src div BLOCK * BLOCK) (ss_n_vectors src')" "s \<notin> fresh"
    have "ss_n_vectors src = length (sn_rows sn)" "ss_n_vectors src' = length (sn_rows sn')" using so by (simp_all add: source_of_def)
    then have n2: "s < length (sn_rows sn')" "s < length (sn_rows sn) div BLOCK * BLOCK" using s by simp_all
    have n1: "s < length (sn_rows sn)" using n2(2) div_times_less_eq_dividend [of "length (sn_rows sn)" BLOCK] by linarith
    note n = n1 n2
    show "row_record src' s = row_record src s"
      unfolding source_of_record [OF so(1) n(1)] source_of_record [OF so(2) n(2)] using st s(2) n(3) by (simp add: in_step_def)
  qed
qed

lemma incremental_holds:
  assumes h: "file_holds e f sn c pending" and r: "ready e sn' src'" and st: "in_step sn sn' fresh" and fin: "finite fresh"
    and pl: "plan_incremental src' c pending fresh clear = Some pl" and run: "run_sync pl f = (f', c')"
    and len: "length f' \<le> usize_max" and gen: "sc_gen c \<noteq> - 1"
  shows "file_holds e f' sn' c' (set (sp_carried pl))"
proof -
  obtain hd src cg where s: "synced (snap_geo sn) f hd (c\<lparr>sc_calib_gen := cg\<rparr>) pending src" and so: "source_of e sn src"
    using h by (auto simp: file_holds_def)
  have so': "source_of e sn' src'" using r by (simp add: ready_def)
  note ins = in_step_sources [OF st so so']
  have pl': "plan_incremental src' (c\<lparr>sc_calib_gen := cg\<rparr>) pending fresh clear = Some (pl\<lparr>sp_new_cursor := (sp_new_cursor pl)\<lparr>sc_calib_gen := cg\<rparr>\<rparr>)"
    unfolding plan_incremental_gen pl by simp
  have run': "run_sync (pl\<lparr>sp_new_cursor := (sp_new_cursor pl)\<lparr>sc_calib_gen := cg\<rparr>\<rparr>) f = (f', c'\<lparr>sc_calib_gen := cg\<rparr>)"
    using run by (simp add: run_sync_def)
  have g: "src_geo src' = snap_geo sn" using so' ins(1) by (simp add: source_of_def)
  have "synced (snap_geo sn) f' (planned_hdr src' (c\<lparr>sc_calib_gen := cg\<rparr>) pending fresh) (c'\<lparr>sc_calib_gen := cg\<rparr>)
      (set (sp_carried (pl\<lparr>sp_new_cursor := (sp_new_cursor pl)\<lparr>sc_calib_gen := cg\<rparr>\<rparr>))) src'"
    by (rule synced_step [OF s _ _ _ g ins(2) fin ins(3) pl' run' len]) (use r gen in \<open>simp_all add: ready_def\<close>)
  then show ?thesis using r so' ins(1) unfolding file_holds_def ready_def by auto
qed

text \<open>A power cut during a sync: once the loader adopts the old header, the file holds the old snapshot.\<close>

lemma crash_holds:
  assumes h: "file_holds e f sn c pending" and r: "ready e sn' src'" and st: "in_step sn sn' fresh" and fin: "finite fresh"
    and pl: "plan_incremental src' c pending fresh clear = Some pl" and crash: "sync_crash (sp_batches pl) f f'"
    and hd: "choose_header f' (snap_geo sn) = choose_header f (snap_geo sn)"
  shows "file_holds e f' sn c pending"
proof -
  obtain hd src cg where s: "synced (snap_geo sn) f hd (c\<lparr>sc_calib_gen := cg\<rparr>) pending src" and so: "source_of e sn src"
    using h by (auto simp: file_holds_def)
  have so': "source_of e sn' src'" using r by (simp add: ready_def)
  note ins = in_step_sources [OF st so so']
  have pl': "plan_incremental src' (c\<lparr>sc_calib_gen := cg\<rparr>) pending fresh clear = Some (pl\<lparr>sp_new_cursor := (sp_new_cursor pl)\<lparr>sc_calib_gen := cg\<rparr>\<rparr>)"
    unfolding plan_incremental_gen pl by simp
  have g: "src_geo src' = snap_geo sn" using so' ins(1) by (simp add: source_of_def)
  have ch: "choose_header f' (snap_geo sn) = Some hd" using hd synced_invariant [OF s] by (simp add: synced_inv_def)
  have "synced (snap_geo sn) f' hd ((c\<lparr>sc_calib_gen := cg\<rparr>)\<lparr>sc_calib_gen := cg\<rparr>) pending src"
    by (rule synced_recover [OF s _ _ _ g fin ins(3) pl' _ ch]) (use r crash in \<open>simp_all add: ready_def\<close>)
  then show ?thesis using h so by (auto simp: file_holds_def)
qed

text \<open>A power cut whose torn bytes the checksums tell: once the loader adopts anything else than the old header,
  the interrupted sync has taken effect and the file holds the new snapshot.\<close>

lemma plan_blocks_gen: "plan_blocks src (c\<lparr>sc_calib_gen := g\<rparr>) pending fresh = plan_blocks src c pending fresh"
  by (simp add: plan_blocks_def live_floor_def)

lemma told_cut_gen: "told_cut geo src c pending fresh clear f f' \<Longrightarrow> told_cut geo src (c\<lparr>sc_calib_gen := g\<rparr>) pending fresh clear f f'"
  by (auto simp: told_cut_def plan_blocks_gen plan_incremental_gen)

lemma landed_holds:
  assumes h: "file_holds e f sn c pending" and r: "ready e sn' src'" and st: "in_step sn sn' fresh" and fin: "finite fresh"
    and cs: "cursor_state (Some f) c (snap_geo sn) = CsIntact clear"
    and cut: "told_cut (snap_geo sn) src' c pending fresh clear f f'"
    and hd: "choose_header f' (snap_geo sn) \<noteq> choose_header f (snap_geo sn)"
  shows "\<exists>c p. file_holds e f' sn' c p"
proof -
  obtain hd src cg where s: "synced (snap_geo sn) f hd (c\<lparr>sc_calib_gen := cg\<rparr>) pending src" and so: "source_of e sn src"
    using h by (auto simp: file_holds_def)
  have so': "source_of e sn' src'" using r by (simp add: ready_def)
  note ins = in_step_sources [OF st so so']
  have g: "src_geo src' = snap_geo sn" using so' ins(1) by (simp add: source_of_def)
  have ch: "choose_header f' (snap_geo sn) \<noteq> Some hd" using hd synced_invariant [OF s] by (simp add: synced_inv_def)
  have ca: "clears_ahead f (snap_geo sn) (sc_gen (c\<lparr>sc_calib_gen := cg\<rparr>)) clear"
    using s by (rule synced_clears_ahead) (simp add: cursor_state_gen cs)
  note cut' = told_cut_gen [OF cut, of cg]
  then obtain pl where pl: "plan_incremental src' (c\<lparr>sc_calib_gen := cg\<rparr>) pending fresh clear = Some pl" by (auto simp: told_cut_def)
  have "synced (snap_geo sn) f' (planned_hdr src' (c\<lparr>sc_calib_gen := cg\<rparr>) pending fresh)
      ((sp_new_cursor pl)\<lparr>sc_calib_gen := cg\<rparr>) (set (sp_carried pl)) src'"
    by (rule synced_landed [OF s _ _ _ g ins(2) fin ins(3) pl cut' ca ch]) (use r in \<open>simp_all add: ready_def\<close>)
  then show ?thesis using r so' ins(1) unfolding file_holds_def ready_def by metis
qed

lemma in_step_loadable: "in_step sn sn' fresh \<Longrightarrow> snap_loadable e sn' = snap_loadable e sn"
  by (simp add: in_step_def snap_loadable_def)

section \<open>The invariant\<close>

definition tracked :: "'r env \<Rightarrow> bytes option \<Rightarrow> snapshot option \<Rightarrow> string \<Rightarrow> u8 \<Rightarrow> index \<Rightarrow> row list \<Rightarrow> u64 list option \<Rightarrow> bool" where
  "tracked e file stored path kind ix rows ids \<longleftrightarrow>
     finite (ix_sync_fresh ix) \<and>
     (\<forall>c. sync_bound ix path = Some c \<longrightarrow>
        (\<exists>f sn. file = Some f \<and> stored = Some sn \<and> file_holds e f sn c (ix_sync_pending ix) \<and> ix_dim ix = Some (sn_dim sn) \<and>
           sn_bits sn = ix_bit_width ix \<and> sc_calib_gen c \<le> ix_calib_gen ix \<and>
           (sc_calib_gen c = ix_calib_gen ix \<longrightarrow>
              in_step sn (snapshot_of ix (sn_dim sn) kind rows ids) (ix_sync_fresh ix))))"

lemma sync_bound_Some: "sync_bound ix path = Some c \<longleftrightarrow> ix_sync_cursor ix = Some c \<and> ix_sync_path ix = Some path"
  by (auto simp: sync_bound_def split: option.splits)

text \<open>The fields of an index that \<open>tracked\<close> reads, apart from the dimension.\<close>

definition sync_state :: "index \<Rightarrow> nat \<times> f32 list \<times> f32 list \<times> sync_cursor option \<times> string option \<times> nat set \<times> nat set \<times> u64 \<times> bytes \<times> (u32 \<times> u32) list" where
  "sync_state ix = (ix_bit_width ix, ix_tqplus_shift ix, ix_tqplus_scale ix, ix_sync_cursor ix, ix_sync_path ix, ix_sync_pending ix,
     ix_sync_fresh ix, ix_calib_gen ix, ix_sync_capture_buf ix, ix_sync_capture_at ix)"

lemma tracked_cong:
  assumes "tracked e file stored path kind ix rows ids" "sync_state ix' = sync_state ix" "ix_dim ix \<noteq> None \<Longrightarrow> ix_dim ix' = ix_dim ix"
  shows "tracked e file stored path kind ix' rows ids"
  using assms by (fastforce simp: tracked_def sync_bound_def sync_state_def snapshot_of_def)

lemma capture_cong:
  assumes "capture_ok ix rows" "sync_state ix' = sync_state ix" "ix_dim ix' = ix_dim ix"
  shows "capture_ok ix' rows"
  using assms by (cases "ix_dim ix") (simp_all add: capture_ok_def sync_state_def)

lemma written_holds:
  assumes r: "ready e (snapshot_of ix dim kind rows ids) src" and tr: "tracked e file stored path kind ix rows ids" and d: "ix_dim ix = Some dim"
    and w: "sync_write nonce file src state (sync_bound ix path) ix = (f', c', carried)" and len: "length f' \<le> usize_max"
    and gen: "\<And>c. sync_bound ix path = Some c \<Longrightarrow> sc_gen c \<noteq> - 1"
  shows "file_holds e f' (snapshot_of ix dim kind rows ids) c' (set carried)"
proof -
  let ?sn = "snapshot_of ix dim kind rows ids"
  obtain ff fc where fw: "write_full_inner src (ix_calib_gen ix) nonce = (ff, fc)" by force
  show ?thesis
  proof (cases "(f', c', carried) = (ff, fc, [])")
    case True
    then show ?thesis using full_write_holds [OF r fw] len by simp
  next
    case False
    obtain stale c f pl where st: "sync_bound ix path = Some c" "file = Some f" "sc_calib_gen c = ix_calib_gen ix"
      "plan_incremental src c (ix_sync_pending ix) (ix_sync_fresh ix) stale = Some pl" "run_sync pl f = (f', c')" "carried = sp_carried pl"
      using w False fw by (auto simp: sync_write_def Let_def split: cursor_verdict.splits option.splits if_splits prod.splits)
    obtain sn where sn: "file_holds e f sn c (ix_sync_pending ix)" "sn_dim sn = dim" "in_step sn ?sn (ix_sync_fresh ix)"
      using tr st(1-3) d by (auto simp: tracked_def)
    have "finite (ix_sync_fresh ix)" using tr by (simp add: tracked_def)
    from incremental_holds [OF sn(1) r sn(3) this st(4,5) len gen [OF st(1)]] show ?thesis unfolding st(6) .
  qed
qed

section \<open>The sync\<close>

text \<open>What the code relies on and does not check: a file below \<open>2^64\<close> bytes, a generation that does
  not wrap, scales in range; and that the blocks are written in the sequential layout.\<close>

definition sync_fits :: "'r env \<Rightarrow> index \<Rightarrow> row list \<Rightarrow> string \<Rightarrow> bytes option \<Rightarrow> bool" where
  "sync_fits e ix rows path file' \<longleftrightarrow>
     unit_layout e ix = LAYOUT_SEQ \<and> length rows < 32 * 4294967296 \<and> (\<forall>r \<in> set rows. unat (snd r) < 0x64000000) \<and>
     (\<forall>f. file' = Some f \<longrightarrow> length f \<le> usize_max) \<and> (\<forall>c. sync_bound ix path = Some c \<longrightarrow> sc_gen c \<noteq> - 1)"

lemma represents_sync_fields:
  assumes "represents e ix rows"
  shows "represents e (sync_failed ix) rows" "represents e (sync_committed path c carried ix) rows"
proof -
  show "represents e (sync_failed ix) rows"
    using assms by (cases "ix_dim ix") (simp_all add: sync_failed_def represents_def codec_ok_def calibration_ok_def)
  show "represents e (sync_committed path c carried ix) rows"
    using assms by (cases "ix_dim ix") (simp_all add: sync_committed_def represents_def codec_ok_def calibration_ok_def)
qed

text \<open>The index a sync writes from: layout ready, codebook seeded.\<close>

lemma sync_prepared:
  assumes rep: "represents e ix rows" and d: "ix_dim ix = Some dim" and s: "seed_codebook e dim (code_layout_ready e ix) = Some ix1"
  shows "represents e ix1 rows" "sync_state ix1 = sync_state ix" "ix_dim ix1 = Some dim" "unit_layout e ix1 = unit_layout e ix"
    "\<exists>b c. ix_boundaries ix1 = Some b \<and> ix_centroids ix1 = Some c" "ix_mapped ix1 = ix_mapped ix"
proof -
  let ?ix0 = "code_layout_ready e ix"
  have rep0: "represents e ?ix0 rows" using rep represents_materialize [OF rep] by (simp add: code_layout_ready_def)
  have same: "sync_state ?ix0 = sync_state ix" "ix_dim ?ix0 = Some dim" "ix_n_vectors ?ix0 = ix_n_vectors ix" "ix_mapped ?ix0 = ix_mapped ix"
    using d by (simp_all add: code_layout_ready_def materialize_packed_def sync_state_def)
  obtain b c where bc: "codebook (e_fo e) (e_beta e) (ix_bit_width ?ix0) dim = Some (b, c)"
    and ix1: "ix1 = ?ix0\<lparr>ix_boundaries := Some b, ix_centroids := Some c\<rparr>"
    using codec_ok_seed_codebook [OF representsD(5) [OF rep0] same(2) s] by blast
  show "represents e ix1 rows" unfolding ix1 by (rule represents_codebook(1) [OF rep0 same(2) bc])
  show st: "sync_state ix1 = sync_state ix" using same(1) by (simp add: ix1 sync_state_def)
  show "ix_dim ix1 = Some dim" "ix_mapped ix1 = ix_mapped ix" "\<exists>b c. ix_boundaries ix1 = Some b \<and> ix_centroids ix1 = Some c"
    using same by (simp_all add: ix1)
  show "unit_layout e ix1 = unit_layout e ix"
    using same d st by (simp add: unit_layout_def ix1 sync_state_def)
qed

lemma ready_index:
  assumes rep: "represents e ix rows" and d: "ix_dim ix = Some dim" and cap: "capture_ok ix rows"
    and b: "\<exists>b c. ix_boundaries ix = Some b \<and> ix_centroids ix = Some c" and ids: "ids_fit kind ids (length rows)"
    and n: "length rows < 32 * 4294967296" and sc: "\<forall>r \<in> set rows. unat (snd r) < 0x64000000"
  shows "ready e (snapshot_of ix dim kind rows ids) (index_source e ix dim kind ids 8 LAYOUT_SEQ)"
proof -
  obtain bs cs where bc: "ix_boundaries ix = Some bs" "ix_centroids ix = Some cs" using b by blast
  have "dim \<noteq> 0" using representsD(8) [OF rep d] by (simp add: geom_ok_def)
  then have "bounded_scales (index_source e ix dim kind ids 8 LAYOUT_SEQ)"
    using index_source_fields(7) [OF rep] sc by (auto simp: bounded_scales_def)
  then show ?thesis
    unfolding ready_def
    using source_of_index [OF rep d cap bc] snap_ok_index [OF rep d ids] index_source_rows [OF rep d cap bc ids n] by blast
qed

text \<open>What is stored after a sync: the index where it returned, nothing known where it left something else.\<close>

definition stored_after :: "bytes option \<Rightarrow> bytes option \<Rightarrow> snapshot option \<Rightarrow> (sync_error + unit) outcome \<Rightarrow> snapshot \<Rightarrow> snapshot option" where
  "stored_after file file' stored out sn = (if out = Returned (Inr ()) then Some sn else if file' = file then stored else None)"

theorem sync_tracked:
  assumes rep: "represents e ix rows" and cap: "capture_ok ix rows" and tr: "tracked e file stored path kind ix rows ids"
    and ids: "ids_fit kind ids (length rows)" and run: "sync_v7_impl e io file ix path kind ids = (ix', file', out)"
    and fits: "sync_fits e ix rows path file'"
  shows "represents e ix' rows" "capture_ok ix' rows" "tracked e file' (stored_after file file' stored out (snapshot_of ix (the (ix_dim ix)) kind rows ids)) path kind ix' rows ids" "ix_dim ix' = ix_dim ix"
    and "out = Returned (Inr ()) \<Longrightarrow> \<exists>f c dim. file' = Some f \<and> ix_dim ix = Some dim \<and>
      file_holds e f (snapshot_of ix dim kind rows ids) c (ix_sync_pending ix') \<and> sync_bound ix' path = Some (c\<lparr>sc_calib_gen := ix_calib_gen ix'\<rparr>)"
proof -
  have m: "\<not> ix_mapped ix" using representsD(4) [OF rep] .
  have "represents e ix' rows \<and> capture_ok ix' rows \<and> tracked e file' (stored_after file file' stored out (snapshot_of ix (the (ix_dim ix)) kind rows ids)) path kind ix' rows ids \<and> ix_dim ix' = ix_dim ix \<and>
    (out = Returned (Inr ()) \<longrightarrow> (\<exists>f c dim. file' = Some f \<and> ix_dim ix = Some dim \<and>
      file_holds e f (snapshot_of ix dim kind rows ids) c (ix_sync_pending ix') \<and> sync_bound ix' path = Some (c\<lparr>sc_calib_gen := ix_calib_gen ix'\<rparr>)))"
  proof (cases "ix_dim ix")
    case None
    then show ?thesis using run m rep cap tr by (auto simp: sync_v7_impl_def stored_after_def)
  next
    case (Some dim)
    show ?thesis
    proof (cases "seed_codebook e dim (code_layout_ready e ix)")
      case None
      have "represents e (code_layout_ready e ix) rows" using rep represents_materialize [OF rep] by (simp add: code_layout_ready_def)
      moreover have "sync_state (code_layout_ready e ix) = sync_state ix" "ix_dim (code_layout_ready e ix) = ix_dim ix"
        by (simp_all add: code_layout_ready_def materialize_packed_def sync_state_def)
      ultimately show ?thesis
        using run m None Some tracked_cong [OF tr] capture_cong [OF cap] by (auto simp: sync_v7_impl_def stored_after_def)
    next
      case (Some ix1)
      note p = sync_prepared [OF rep \<open>ix_dim ix = Some dim\<close> Some]
      have tr1: "tracked e file stored path kind ix1 rows ids" by (rule tracked_cong [OF tr p(2)]) (simp add: p(3) \<open>ix_dim ix = Some dim\<close>)
      have cap1: "capture_ok ix1 rows" by (rule capture_cong [OF cap p(2)]) (simp add: p(3) \<open>ix_dim ix = Some dim\<close>)
      have b1: "sync_bound ix1 path = sync_bound ix path" using p(2) by (simp add: sync_bound_def sync_state_def)
      have sn: "snapshot_of ix1 dim kind rows ids = snapshot_of ix dim kind rows ids" using p(2) by (simp add: snapshot_of_def sync_state_def)
      have lay: "unit_layout e ix1 = LAYOUT_SEQ" using fits p(4) by (simp add: sync_fits_def)
      let ?src = "index_source e ix1 dim kind ids 8 LAYOUT_SEQ"
      let ?state = "case sync_bound ix1 path of Some c \<Rightarrow> cursor_state file c (src_geo ?src) | None \<Rightarrow> CsReplaced"
      obtain f1 c1 carried where w: "sync_write (io_nonce io) file ?src ?state (sync_bound ix1 path) ix1 = (f1, c1, carried)"
        using prod_cases3 by blast
      have run1: "(ix', file', out) = (if sync_bound ix1 path \<noteq> None \<and> io_check_fails io then (ix1, file, Returned (Inl SE_Io))
          else if ?state = CsForeign then (ix1, file, Returned (Inl SE_Foreign))
          else (case io_write_fails io of Some left \<Rightarrow> (sync_failed ix1, left, Returned (Inl SE_Io))
            | None \<Rightarrow> (sync_committed path c1 carried ix1, Some f1, Returned (Inr ()))))"
        unfolding run [symmetric] sync_v7_impl_def if_not_P [OF m] \<open>ix_dim ix = Some dim\<close> Some option.case Let_def lay w prod.case ..
      then consider "ix' = ix1" "file' = file" "out \<noteq> Returned (Inr ())"
        | "ix' = sync_failed ix1" "out \<noteq> Returned (Inr ())"
        | "ix' = sync_committed path c1 carried ix1" "file' = Some f1" "out = Returned (Inr ())"
        by (auto split: if_splits option.splits)
      then show ?thesis
      proof cases
        case 1
        then show ?thesis using p(1,3) tr1 cap1 \<open>ix_dim ix = Some dim\<close> by (simp add: stored_after_def)
      next
        case 2
        have "represents e ix' rows" unfolding 2 by (rule represents_sync_fields(1) [OF p(1)])
        then show ?thesis
          using 2 p(3) tr1 \<open>ix_dim ix = Some dim\<close> by (simp add: sync_failed_def capture_ok_empty tracked_def sync_bound_def)
      next
        case 3
        have r: "ready e (snapshot_of ix1 dim kind rows ids) ?src"
          by (rule ready_index [OF p(1,3) cap1 p(5) ids]) (use fits in \<open>simp_all add: sync_fits_def\<close>)
        have h: "file_holds e f1 (snapshot_of ix1 dim kind rows ids) c1 (set carried)"
          by (rule written_holds [OF r tr1 p(3) w]) (use fits 3 b1 in \<open>simp_all add: sync_fits_def\<close>)
        have rep': "represents e ix' rows" unfolding 3 by (rule represents_sync_fields(2) [OF p(1)])
        have b': "sync_bound ix' path = Some (c1\<lparr>sc_calib_gen := ix_calib_gen ix1\<rparr>)" by (simp add: 3 sync_committed_def sync_bound_def)
        have f: "ix_sync_pending ix' = set carried" "ix_sync_fresh ix' = {}" "ix_calib_gen ix' = ix_calib_gen ix1" "ix_dim ix' = Some dim"
          "ix_bit_width ix' = ix_bit_width ix1" "snapshot_of ix' dim kind rows ids = snapshot_of ix1 dim kind rows ids"
          using p(3) by (simp_all add: 3 sync_committed_def snapshot_of_def)
        have st: "in_step (snapshot_of ix1 dim kind rows ids) (snapshot_of ix1 dim kind rows ids) {}"
          using div_times_less_eq_dividend [of "length rows" BLOCK] by (auto simp: in_step_def snapshot_of_def)
        have "tracked e (Some f1) (Some (snapshot_of ix1 dim kind rows ids)) path kind ix' rows ids"
          unfolding tracked_def f(1-3,5) b'
          using h st f(4,6) by (intro conjI allI impI) (auto intro!: exI [of _ "snapshot_of ix1 dim kind rows ids"] simp: file_holds_gen, auto simp: snapshot_of_def)
        moreover have "capture_ok ix' rows" by (rule capture_ok_empty) (simp_all add: 3 sync_committed_def)
        moreover have "stored_after file file' stored out (snapshot_of ix (the (ix_dim ix)) kind rows ids) = Some (snapshot_of ix1 dim kind rows ids)"
          using 3(3) sn \<open>ix_dim ix = Some dim\<close> by (simp add: stored_after_def)
        ultimately show ?thesis using rep' b' f h 3 sn \<open>ix_dim ix = Some dim\<close> by auto
      qed
    qed
  qed
  then show "represents e ix' rows" "capture_ok ix' rows" "tracked e file' (stored_after file file' stored out (snapshot_of ix (the (ix_dim ix)) kind rows ids)) path kind ix' rows ids" "ix_dim ix' = ix_dim ix"
    and "out = Returned (Inr ()) \<Longrightarrow> \<exists>f c dim. file' = Some f \<and> ix_dim ix = Some dim \<and>
      file_holds e f (snapshot_of ix dim kind rows ids) c (ix_sync_pending ix') \<and> sync_bound ix' path = Some (c\<lparr>sc_calib_gen := ix_calib_gen ix'\<rparr>)"
    by blast+
qed

end
