(* ===== verification/IndexSession.thy ===== *)
theory IndexSession
  imports IndexTracked
begin

text \<open>
  Every operation of an index keeps the bookkeeping invariant \<open>tracked\<close>, and the life of an index with
  its file: the relation \<open>session\<close> of the states reached by adds, removals, calibrations, searches'
  preparation, syncs (failed ones included), power cuts and reopenings.
\<close>

section \<open>Adds\<close>

lemma seed_sync_state:
  "seed_rotation e dim ix = Some ix' \<Longrightarrow> sync_state ix' = sync_state ix \<and> ix_dim ix' = ix_dim ix"
  "seed_codebook e dim ix = Some ix' \<Longrightarrow> sync_state ix' = sync_state ix \<and> ix_dim ix' = ix_dim ix"
  by (auto simp: seed_rotation_def seed_codebook_def sync_state_def split: option.splits if_splits)

lemma commit_append_sync_state:
  "commit_append e ft lz a b n dim bufs ix = (ix', out) \<Longrightarrow> sync_state ix' = sync_state ix \<and> ix_dim ix' = ix_dim ix"
  by (cases bufs) (auto simp: commit_append_def restore_buffers_def sync_state_def Let_def split: option.splits if_splits)

lemma taken_sync_state:
  "sync_state (ix\<lparr>ix_packed_codes := a, ix_scales := b\<rparr>) = sync_state ix" "ix_dim (ix\<lparr>ix_packed_codes := a, ix_scales := b\<rparr>) = ix_dim ix"
  "sync_state (materialize_packed e ix) = sync_state ix" "ix_dim (materialize_packed e ix) = ix_dim ix"
  "sync_state (restore_buffers lz p s bufs ix) = sync_state ix" "ix_dim (restore_buffers lz p s bufs ix) = ix_dim ix"
  by (simp_all add: sync_state_def materialize_packed_def restore_buffers_def case_prod_beta)

lemma encode_and_append_sync_state:
  assumes "encode_and_append e ft ix vectors n dim = (ix', out)"
  shows "sync_state ix' = sync_state ix \<and> ix_dim ix' = ix_dim ix"
proof (cases "ix_mapped ix \<or> seed_rotation e dim ix = None")
  case True
  then show ?thesis using assms by (cases "ix_mapped ix") (auto simp: encode_and_append_def)
next
  case False
  then obtain ix1 where s1: "seed_rotation e dim ix = Some ix1" and m: "\<not> ix_mapped ix" by auto
  note t1 = seed_sync_state(1) [OF s1]
  show ?thesis
  proof (cases "seed_codebook e dim ix1")
    case None
    then show ?thesis using assms s1 m t1 by (simp add: encode_and_append_def)
  next
    case (Some ix2)
    note t2 = seed_sync_state(2) [OF Some]
    define ix3 where "ix3 = (if lazy_append ix2 then ix2 else materialize_packed e ix2)"
    have t3: "sync_state ix3 = sync_state ix2 \<and> ix_dim ix3 = ix_dim ix2" by (simp add: ix3_def taken_sync_state)
    show ?thesis
      using assms t1 t2 t3
      unfolding encode_and_append_def if_not_P [OF m] s1 option.case Some Let_def ix3_def [symmetric]
      by (auto split: sum.splits dest!: commit_append_sync_state simp: taken_sync_state)
  qed
qed

lemma index_add_sync_state:
  "index_add e ft ix vectors = (ix', out) \<Longrightarrow> sync_state ix' = sync_state ix \<and> ix_dim ix' = ix_dim ix"
  by (auto simp: index_add_def Let_def dest: encode_and_append_sync_state split: option.splits if_splits)

lemma add_2d_sync_state:
  assumes "add_2d e ft ix vectors dim = (ix', out)"
  shows "sync_state ix' = sync_state ix" "ix_dim ix \<noteq> None \<Longrightarrow> ix_dim ix' = ix_dim ix"
proof -
  have up: "sync_state (x\<lparr>ix_dim := d\<rparr>) = sync_state x"
    "sync_state (x\<lparr>ix_dim := d, ix_rotation := None, ix_boundaries := None, ix_centroids := None\<rparr>) = sync_state x" for x d
    by (simp_all add: sync_state_def)
  obtain x1 o1 where i1: "index_add e ft (ix\<lparr>ix_dim := Some dim\<rparr>) vectors = (x1, o1)" by force
  obtain x2 o2 where i2: "index_add e ft ix vectors = (x2, o2)" by force
  have t: "sync_state x1 = sync_state ix" "sync_state x2 = sync_state ix" "ix_dim x2 = ix_dim ix"
    using index_add_sync_state [OF i1] index_add_sync_state [OF i2] up by simp_all
  let ?err = "case ix_dim ix of Some existing \<Rightarrow> if existing \<noteq> dim then Some (AE_DimMismatch existing dim) else None
      | None \<Rightarrow> if dim = 0 then Some AE_ZeroDim else if dim mod 8 \<noteq> 0 then Some (AE_DimNotMultipleOf8 dim)
          else if MAX_DIM < dim then Some (AE_DimTooLarge dim) else None"
  let ?roll = "x1\<lparr>ix_dim := None, ix_rotation := None, ix_boundaries := None, ix_centroids := None\<rparr>"
  have "ix' = ix \<or> ix' = x2 \<or> ix_dim ix = None \<and> (ix' = x1 \<or> ix' = ?roll)"
  proof (cases ?err)
    case (Some err)
    then show ?thesis using assms unfolding add_2d_def Some option.case by simp
  next
    case None
    note err = None
    show ?thesis
    proof (cases "first_invalid_coord (cpu_scan (e_cpu e)) vectors dim")
      case None
      then show ?thesis using assms unfolding add_2d_def err None option.case by simp
    next
      case (Some bad)
      show ?thesis
      proof (cases bad)
        case (Some x)
        then show ?thesis
          using assms unfolding add_2d_def err \<open>first_invalid_coord (cpu_scan (e_cpu e)) vectors dim = Some bad\<close> Some option.case
          by (cases x) simp
      next
        case None
        show ?thesis
        proof (cases "length vectors mod dim \<noteq> 0 \<or> vectors = []")
          case True
          then show ?thesis
            using assms unfolding add_2d_def err \<open>first_invalid_coord (cpu_scan (e_cpu e)) vectors dim = Some bad\<close> None option.case
            by (cases "length vectors mod dim = 0") simp_all
        next
          case False
          then have "(ix', out) = (if ix_dim ix = None
              then (case o1 of Panicked \<Rightarrow> (?roll, Panicked) | Returned _ \<Rightarrow> (x1, Returned (Inr ())))
              else (case o2 of Panicked \<Rightarrow> (x2, Panicked) | Returned _ \<Rightarrow> (x2, Returned (Inr ()))))"
            using assms unfolding add_2d_def err \<open>first_invalid_coord (cpu_scan (e_cpu e)) vectors dim = Some bad\<close> None option.case i1 i2
            by (cases "ix_dim ix"; cases o1; cases o2) auto
          then show ?thesis by (cases "ix_dim ix"; cases o1; cases o2) simp_all
        qed
      qed
    qed
  qed
  then have "sync_state ix' = sync_state ix \<and> (ix_dim ix \<noteq> None \<longrightarrow> ix_dim ix' = ix_dim ix)"
    using t up by auto
  then show "sync_state ix' = sync_state ix" "ix_dim ix \<noteq> None \<Longrightarrow> ix_dim ix' = ix_dim ix" by blast+
qed

lemma tracked_rows:
  assumes tr: "tracked e file stored path kind ix rows ids"
    and r: "\<And>s bits dim. s < length rows \<Longrightarrow> s \<notin> ix_sync_fresh ix \<Longrightarrow> s < length rows' \<and> row_rec bits dim rows' ids' s = row_rec bits dim rows ids s"
  shows "tracked e file stored path kind ix rows' ids'"
proof -
  have "in_step sn (snapshot_of ix dim kind rows' ids') (ix_sync_fresh ix)"
    if "in_step sn (snapshot_of ix dim kind rows ids) (ix_sync_fresh ix)" for sn dim
    unfolding in_step_def
  proof (intro conjI allI impI)
    fix s
    assume s: "s < length (sn_rows sn) div BLOCK * BLOCK" "s \<notin> ix_sync_fresh ix"
    then have o: "s < length rows" "row_rec (sn_bits sn) (sn_dim sn) rows ids s = row_rec (sn_bits sn) (sn_dim sn) (sn_rows sn) (sn_ids sn) s"
      using that by (auto simp: in_step_def snapshot_of_def)
    note n = r [OF o(1) s(2), of "sn_bits sn" "sn_dim sn"]
    show "s < length (sn_rows (snapshot_of ix dim kind rows' ids'))" using n by (simp add: snapshot_of_def)
    show "row_rec (sn_bits sn) (sn_dim sn) (sn_rows (snapshot_of ix dim kind rows' ids')) (sn_ids (snapshot_of ix dim kind rows' ids')) s
        = row_rec (sn_bits sn) (sn_dim sn) (sn_rows sn) (sn_ids sn) s"
      using n o(2) by (simp add: snapshot_of_def)
  qed (use that in \<open>simp_all add: in_step_def snapshot_of_def\<close>)
  then show ?thesis using tr unfolding tracked_def by meson
qed

lemma capture_ok_append: "capture_ok ix rows \<Longrightarrow> capture_ok ix (rows @ news)"
  by (auto simp: capture_ok_def arena_ok_def entry_ok_def nth_append split: option.splits)

text \<open>The ids of the rows there are stay in front.\<close>

definition ids_extend :: "u64 list option \<Rightarrow> nat \<Rightarrow> u64 list option \<Rightarrow> bool" where
  "ids_extend ids n ids' \<longleftrightarrow> (case (ids, ids') of (None, None) \<Rightarrow> True | (Some i, Some i') \<Rightarrow> n \<le> length i \<and> take n i' = take n i | _ \<Rightarrow> False)"

lemma row_rec_append:
  assumes "ids_extend ids (length rows) ids'" "s < length rows"
  shows "row_rec bits dim (rows @ news) ids' s = row_rec bits dim rows ids s"
proof (cases ids)
  case None
  then show ?thesis using assms by (simp add: row_rec_def ids_extend_def nth_append split: option.splits)
next
  case (Some i)
  then obtain i' where i': "ids' = Some i'" "take (length rows) i' = take (length rows) i"
    using assms(1) by (auto simp: ids_extend_def split: option.splits)
  have "i' ! s = i ! s" using arg_cong [OF i'(2), of "\<lambda>l. l ! s"] assms(2) by simp
  then show ?thesis using assms(2) by (simp add: row_rec_def Some i'(1) nth_append)
qed

lemma tracked_add:
  assumes tr: "tracked e file stored path kind ix rows ids" and cap: "capture_ok ix rows" and run: "add_2d e ft ix vectors dim = (ix', out)"
    and d: "ix_dim ix' = None \<longrightarrow> ix_dim ix = None" and ids: "ids_extend ids (length rows) ids'"
  shows "tracked e file stored path kind ix' (rows @ news) ids'" "capture_ok ix' (rows @ news)"
proof -
  note s = add_2d_sync_state [OF run]
  have "tracked e file stored path kind ix (rows @ news) ids'" by (rule tracked_rows [OF tr]) (simp add: row_rec_append [OF ids])
  then show "tracked e file stored path kind ix' (rows @ news) ids'" by (rule tracked_cong [OF _ s(1)]) (rule s(2))
  show "capture_ok ix' (rows @ news)"
  proof (cases "ix_dim ix")
    case None
    then have "ix_sync_capture_buf ix' = []" "ix_sync_capture_at ix' = []" using cap s(1) by (simp_all add: capture_ok_def sync_state_def)
    then show ?thesis by (intro capture_ok_empty)
  next
    case (Some _)
    then show ?thesis using capture_cong [OF capture_ok_append [OF cap] s(1)] s(2) by simp
  qed
qed

section \<open>Removals and calibrations\<close>

lemma tracked_remove:
  assumes tr: "tracked e file stored path kind ix rows ids" and idx: "idx < length rows" and rm: "removed_elsewhere ix idx ix'"
    and n: "ix_n_vectors ix = length rows" and ids: "case ids of None \<Rightarrow> ids' = None | Some i \<Rightarrow> length i = length rows \<and> ids' = Some (list_swap_remove idx i)"
  shows "tracked e file stored path kind ix' (list_swap_remove idx rows) ids'"
proof -
  have f: "ix_dim ix' = ix_dim ix" "ix_bit_width ix' = ix_bit_width ix" "ix_tqplus_shift ix' = ix_tqplus_shift ix"
    "ix_tqplus_scale ix' = ix_tqplus_scale ix" "ix_sync_pending ix' = ix_sync_pending ix" "ix_calib_gen ix' = ix_calib_gen ix"
    "ix_sync_fresh ix' = ix_sync_fresh ix \<union> {s. s \<in> {idx, length rows - 1} \<and> s < sync_watermark ix}"
    "sync_bound ix' path = sync_bound ix path"
    using rm n by (simp_all add: removed_elsewhere_def sync_bound_def)
  have rec: "row_rec bits dim (list_swap_remove idx rows) ids' s = row_rec bits dim rows ids s"
    if "s < length rows" "s \<noteq> idx" "s \<noteq> length rows - 1" for bits dim s
  proof -
    have s: "s < length rows - 1" using that by simp
    have r: "list_swap_remove idx rows ! s = rows ! s" using list_swap_remove_nth [OF idx s] that(2) by simp
    show ?thesis
    proof (cases ids)
      case None
      then show ?thesis using ids r by (simp add: row_rec_def)
    next
      case (Some i)
      then have "list_swap_remove idx i ! s = i ! s" using list_swap_remove_nth [of idx i s] ids idx s that(2) by simp
      then show ?thesis using ids r Some by (simp add: row_rec_def)
    qed
  qed
  have st: "in_step sn (snapshot_of ix' (sn_dim sn) kind (list_swap_remove idx rows) ids') (ix_sync_fresh ix')"
    if b: "sync_bound ix path = Some c" and h: "file_holds e f sn c p" and i: "in_step sn (snapshot_of ix (sn_dim sn) kind rows ids) (ix_sync_fresh ix)"
    for f sn c p
  proof -
    have w: "sync_watermark ix = length (sn_rows sn) div BLOCK * BLOCK"
      using b file_holds_watermark [OF h] by (simp add: sync_watermark_def sync_bound_Some)
    show ?thesis
      unfolding in_step_def
    proof (intro conjI allI impI)
      fix s
      assume s: "s < length (sn_rows sn) div BLOCK * BLOCK" "s \<notin> ix_sync_fresh ix'"
      then have n: "s \<notin> ix_sync_fresh ix" "s \<noteq> idx" "s \<noteq> length rows - 1" using w f(7) by auto
      from i s(1) n(1) have "s < length rows" and e: "row_rec (sn_bits sn) (sn_dim sn) rows ids s = row_rec (sn_bits sn) (sn_dim sn) (sn_rows sn) (sn_ids sn) s"
        by (auto simp: in_step_def snapshot_of_def)
      then show "s < length (sn_rows (snapshot_of ix' (sn_dim sn) kind (list_swap_remove idx rows) ids'))"
        using n by (simp add: snapshot_of_def)
      show "row_rec (sn_bits sn) (sn_dim sn) (sn_rows (snapshot_of ix' (sn_dim sn) kind (list_swap_remove idx rows) ids'))
          (sn_ids (snapshot_of ix' (sn_dim sn) kind (list_swap_remove idx rows) ids')) s
        = row_rec (sn_bits sn) (sn_dim sn) (sn_rows sn) (sn_ids sn) s"
        using rec [OF \<open>s < length rows\<close> n(2,3)] e by (simp add: snapshot_of_def)
    qed (use i f(2-4) in \<open>simp_all add: in_step_def snapshot_of_def\<close>)
  qed
  have "finite {s. s \<in> {idx, length rows - 1} \<and> s < sync_watermark ix}" by simp
  then have "finite (ix_sync_fresh ix')" using tr unfolding f(7) tracked_def by blast
  then show ?thesis using tr st unfolding tracked_def f(1,2,5,6,8) by meson
qed

lemma tracked_calibrated:
  assumes tr: "tracked e file stored path kind ix rows ids" and c: "calibrated_with e' co ix rows' dim pair ix'" and d: "ix_dim ix \<in> {None, Some dim}"
    and g: "ix_calib_gen ix \<noteq> - 1"
  shows "tracked e file stored path kind ix' rows'' ids''" "capture_ok ix' rows''"
proof -
  have f: "ix_dim ix' = Some dim" "ix_bit_width ix' = ix_bit_width ix" "ix_sync_pending ix' = ix_sync_pending ix"
    "ix_sync_fresh ix' = ix_sync_fresh ix" "ix_calib_gen ix' = ix_calib_gen ix + 1" "sync_bound ix' path = sync_bound ix path"
    "ix_sync_capture_buf ix' = []" "ix_sync_capture_at ix' = []"
    using c by (simp_all add: calibrated_with_def sync_bound_def)
  have lt: "ix_calib_gen ix < ix_calib_gen ix + 1" using g unatSuc [of "ix_calib_gen ix"] by (simp add: word_less_nat_alt add.commute add_eq_0_iff)
  show "tracked e file stored path kind ix' rows'' ids''"
    unfolding tracked_def f(2-6)
  proof (intro conjI allI impI)
    show "finite (ix_sync_fresh ix)" using tr by (simp add: tracked_def)
    fix c
    assume "sync_bound ix path = Some c"
    then obtain f sn where "file = Some f" "stored = Some sn" "file_holds e f sn c (ix_sync_pending ix)" "ix_dim ix = Some (sn_dim sn)"
      "sn_bits sn = ix_bit_width ix" "sc_calib_gen c \<le> ix_calib_gen ix"
      using tr by (auto simp: tracked_def)
    then show "\<exists>f sn. file = Some f \<and> stored = Some sn \<and> file_holds e f sn c (ix_sync_pending ix) \<and> ix_dim ix' = Some (sn_dim sn) \<and>
        sn_bits sn = ix_bit_width ix \<and> sc_calib_gen c \<le> ix_calib_gen ix + 1 \<and>
        (sc_calib_gen c = ix_calib_gen ix + 1 \<longrightarrow> in_step sn (snapshot_of ix' (sn_dim sn) kind rows'' ids'') (ix_sync_fresh ix))"
      using d lt f(1) by (intro exI [of _ f] exI [of _ sn]) auto
  qed
  show "capture_ok ix' rows''" by (rule capture_ok_empty [OF f(8,7)])
qed

section \<open>Reopening\<close>

lemma tracked_reopened:
  assumes h: "file_holds e f sn c pending" and r: "reopened e' sn c pending bound ix" and b: "bound = None \<or> bound = Some path"
  shows "tracked e (Some f) (Some sn) path (sn_kind sn) ix (sn_rows sn) (sn_ids sn)" "capture_ok ix (sn_rows sn)"
proof -
  have st: "in_step sn sn {}" using div_times_less_eq_dividend [of "length (sn_rows sn)" BLOCK] by (auto simp: in_step_def)
  have bits: "sn_bits sn = ix_bit_width ix" using r by (auto simp: reopened_def snapshot_of_def) (metis snapshot.select_convs(2))
  show "tracked e (Some f) (Some sn) path (sn_kind sn) ix (sn_rows sn) (sn_ids sn)"
    unfolding tracked_def using h r st bits b
    by (auto simp: reopened_def sync_bound_Some file_holds_gen intro!: exI [of _ sn])
  show "capture_ok ix (sn_rows sn)" using r by (intro capture_ok_empty) (simp_all add: reopened_def)
qed

section \<open>The live index\<close>

text \<open>A live index of \<open>rows\<close> (and \<open>ids\<close>, when it is the inner index of an \<open>IdMapIndex\<close>) beside the file
  at \<open>path\<close>, and that every operation keeps it so.\<close>

definition live :: "'r env \<Rightarrow> string \<Rightarrow> u8 \<Rightarrow> bytes option \<Rightarrow> snapshot option \<Rightarrow> index \<Rightarrow> row list \<Rightarrow> u64 list option \<Rightarrow> bool" where
  "live e path kind file stored ix rows ids \<longleftrightarrow>
     represents e ix rows \<and> capture_ok ix rows \<and> tracked e file stored path kind ix rows ids"

lemma liveD:
  assumes "live e path kind file stored ix rows ids"
  shows "represents e ix rows" "capture_ok ix rows" "tracked e file stored path kind ix rows ids"
  using assms by (simp_all add: live_def)

lemma live_start:
  assumes "represents e ix rows" "ix_sync_cursor ix = None" "ix_sync_fresh ix = {}" "ix_sync_capture_buf ix = []" "ix_sync_capture_at ix = []"
  shows "live e path kind file stored ix rows ids"
  using assms by (simp add: live_def capture_ok_empty tracked_def sync_bound_def)

lemma live_cong:
  assumes "live e path kind file stored ix rows ids" "represents e ix' rows" "sync_state ix' = sync_state ix" "ix_dim ix' = ix_dim ix"
  shows "live e path kind file stored ix' rows ids"
  using assms(2) tracked_cong [OF liveD(3) [OF assms(1)] assms(3)] capture_cong [OF liveD(2) [OF assms(1)] assms(3,4)] assms(4)
  by (simp add: live_def)

lemma live_add:
  assumes l: "live e path kind file stored ix rows ids" and run: "add_2d e ft ix vectors dim = (ix', out)"
    and ids: "ids_extend ids (length rows) ids'" and rep: "represents e ix' (rows @ news)"
  shows "live e path kind file stored ix' (rows @ news) ids'"
proof (cases "ix_dim ix' = None \<and> ix_dim ix \<noteq> None")
  case True
  then show ?thesis using add_2d_sync_state(2) [OF run] by simp
next
  case False
  from tracked_add [OF liveD(3,2) [OF l] run _ ids, of news] False rep show ?thesis by (auto simp: live_def)
qed

lemma live_prepare:
  assumes l: "live e path kind file stored ix rows ids" and run: "prepare e ix = (ix', out)"
  shows "live e path kind file stored ix' rows ids"
proof -
  have "sync_state ix' = sync_state ix" "ix_dim ix' = ix_dim ix"
    using run by (auto simp: prepare_def seed_rotation_def sync_state_def materialize_packed_def split: option.splits if_splits prod.splits)
  then show ?thesis by (rule live_cong [OF l prepare_represents(1) [OF liveD(1) [OF l] run]])
qed

lemma live_calibrate:
  assumes l: "live e path kind file stored ix rows ids" and c: "index_coder e ix dim = Some c" "wf_coder (e_fo e) c"
    and run: "calibrate_2d e ft ix sample dim = (ix', out)" and g: "ix_calib_gen ix \<noteq> - 1"
  shows "live e path kind file stored ix'
    (if out = Returned (Inr ()) then map (reencode_row (e_fo e) c (c\<lparr>c_calibration := calibrated_pair ix'\<rparr>)) rows else rows) ids"
proof -
  note i = liveD [OF l]
  note a = calibrate_2d_represents [OF i(1) c run]
  show ?thesis
  proof (cases "out = Returned (Inr ())")
    case True
    then obtain pair where cw: "calibrated_with e c ix rows dim pair ix'" using a by auto
    then have cp: "calibrated_pair ix' = Some pair" "represents e ix' (map (reencode_row (e_fo e) c (c\<lparr>c_calibration := Some pair\<rparr>)) rows)"
      by (simp_all add: calibrated_with_def)
    have d: "ix_dim ix \<in> {None, Some dim}"
      using run True by (auto simp: calibrate_2d_def split: option.splits if_splits)
    show ?thesis using tracked_calibrated [OF i(3) cw d g] cp True by (simp add: live_def)
  next
    case False
    then have r: "represents e ix' rows" "same_elsewhere ix ix'" using a by (auto split: outcome.splits sum.splits)
    have "sync_state ix' = sync_state ix" "ix_dim ix' = ix_dim ix" using r(2) by (simp_all add: same_elsewhere_def sync_state_def)
    from live_cong [OF l r(1) this] show ?thesis using False by simp
  qed
qed

lemma live_reopened:
  assumes h: "file_holds e f sn c p" and r: "reopened e sn c p bound ix" and b: "bound = None \<or> bound = Some path"
  shows "live e path (sn_kind sn) (Some f) (Some sn) ix (sn_rows sn) (sn_ids sn)"
  using tracked_reopened [OF h r b] r by (simp add: live_def reopened_def)

section \<open>The life of an index\<close>

text \<open>A power cut during an incremental sync: the writes of its plan, torn. (A full write is atomic: a cut
  leaves the old file or the finished one.)\<close>

definition sync_cut :: "'r env \<Rightarrow> index \<Rightarrow> string \<Rightarrow> u8 \<Rightarrow> u64 list option \<Rightarrow> bytes \<Rightarrow> bytes \<Rightarrow> bool" where
  "sync_cut e ix path kind ids f f' \<longleftrightarrow>
     (\<exists>dim ix1 c stale pl. ix_dim ix = Some dim \<and> seed_codebook e dim (code_layout_ready e ix) = Some ix1 \<and>
        sync_bound ix1 path = Some c \<and> sc_calib_gen c = ix_calib_gen ix1 \<and>
        (let src = index_source e ix1 dim kind ids 8 (unit_layout e ix1)
         in cursor_state (Some f) c (src_geo src) = CsIntact stale \<and>
            plan_incremental src c (ix_sync_pending ix1) (ix_sync_fresh ix1) stale = Some pl \<and> sync_crash (sp_batches pl) f f'))"

text \<open>The same cut, when the checksums tell its torn bytes from whole ones (\<open>told_cut\<close>): the plan the sync makes
  after its identity check, interrupted.\<close>

definition told_sync_cut :: "'r env \<Rightarrow> index \<Rightarrow> string \<Rightarrow> u8 \<Rightarrow> u64 list option \<Rightarrow> bytes \<Rightarrow> bytes \<Rightarrow> bool" where
  "told_sync_cut e ix path kind ids f f' \<longleftrightarrow>
     (\<exists>dim ix1 c stale. ix_dim ix = Some dim \<and> seed_codebook e dim (code_layout_ready e ix) = Some ix1 \<and>
        sync_bound ix1 path = Some c \<and> sc_calib_gen c = ix_calib_gen ix1 \<and>
        (let src = index_source e ix1 dim kind ids 8 (unit_layout e ix1)
         in cursor_state (Some f) c (src_geo src) = CsIntact stale \<and>
            told_cut (src_geo src) src c (ix_sync_pending ix1) (ix_sync_fresh ix1) stale f f'))"

lemma told_sync_cut_cut: "told_sync_cut e ix path kind ids f f' \<Longrightarrow> sync_cut e ix path kind ids f f'"
  using told_crash_sync_crash by (fastforce simp: told_sync_cut_def sync_cut_def told_cut_def Let_def)

text \<open>\<open>session e path file stored ix rows\<close>: \<open>file\<close> is what is at \<open>path\<close>, \<open>stored\<close> the snapshot it is
  known to hold, \<open>ix\<close> the live index, \<open>rows\<close> the list of rows it stands for. After a power cut the loader adopts the
  old commit (\<open>session_cut\<close>) or the interrupted sync has taken effect (\<open>session_landed\<close>).\<close>

inductive session :: "'r env \<Rightarrow> string \<Rightarrow> bytes option \<Rightarrow> snapshot option \<Rightarrow> index \<Rightarrow> row list \<Rightarrow> bool" for e :: "'r env" and path where
  session_new: "index_new dim bits = Inr ix \<Longrightarrow> session e path file None ix []"
| session_new_lazy: "new_lazy bits = Inr ix \<Longrightarrow> session e path file None ix []"
| session_from_parts: "from_parts (e_fo e) dim bits n packed scales shift scale = Inr ix \<Longrightarrow>
    session e path file None ix (parts_rows dim bits n packed scales)"
| session_add: "session e path file stored ix rows \<Longrightarrow> index_coder e ix dim = Some c \<Longrightarrow> wf_coder (e_fo e) c \<Longrightarrow>
    add_2d e ft ix vectors dim = (ix', out) \<Longrightarrow>
    session e path file stored ix'
      (if out = Returned (Inr ()) then rows @ map (encode_row (e_fo e) c) (rows_of dim (length vectors div dim) vectors) else rows)"
| session_remove: "session e path file stored ix rows \<Longrightarrow> idx < length rows \<Longrightarrow> swap_remove e ix idx = (ix', out) \<Longrightarrow>
    session e path file stored ix' (list_swap_remove idx rows)"
| session_prepare: "session e path file stored ix rows \<Longrightarrow> prepare e ix = (ix', out) \<Longrightarrow> session e path file stored ix' rows"
| session_calibrate: "session e path file stored ix rows \<Longrightarrow> index_coder e ix dim = Some c \<Longrightarrow> wf_coder (e_fo e) c \<Longrightarrow>
    calibrate_2d e ft ix sample dim = (ix', out) \<Longrightarrow> ix_calib_gen ix \<noteq> - 1 \<Longrightarrow>
    session e path file stored ix'
      (if out = Returned (Inr ()) then map (reencode_row (e_fo e) c (c\<lparr>c_calibration := calibrated_pair ix'\<rparr>)) rows else rows)"
| session_sync: "session e path file stored ix rows \<Longrightarrow> sync_v7_impl e io file ix path 0 None = (ix', file', out) \<Longrightarrow>
    sync_fits e ix rows path file' \<Longrightarrow>
    session e path file' (stored_after file file' stored out (snapshot_of ix (the (ix_dim ix)) 0 rows None)) ix' rows"
| session_reopen: "session e path (Some f) (Some sn) ix rows \<Longrightarrow> snap_loadable e sn \<Longrightarrow> index_load e f path = Inr (Some ix') \<Longrightarrow>
    session e path (Some f) (Some sn) ix' (sn_rows sn)"
| session_cut: "session e path (Some f) (Some sn) ix rows \<Longrightarrow> sync_fits e ix rows path None \<Longrightarrow> sync_cut e ix path 0 None f f' \<Longrightarrow>
    choose_header f' (snap_geo sn) = choose_header f (snap_geo sn) \<Longrightarrow> snap_loadable e sn \<Longrightarrow> index_load e f' path = Inr (Some ix') \<Longrightarrow>
    session e path (Some f') (Some sn) ix' (sn_rows sn)"
| session_landed: "session e path (Some f) (Some sn) ix rows \<Longrightarrow> sync_fits e ix rows path None \<Longrightarrow> told_sync_cut e ix path 0 None f f' \<Longrightarrow>
    choose_header f' (snap_geo sn) \<noteq> choose_header f (snap_geo sn) \<Longrightarrow> snap_loadable e sn \<Longrightarrow> index_load e f' path = Inr (Some ix') \<Longrightarrow>
    session e path (Some f') (Some (snapshot_of ix (sn_dim sn) 0 rows None)) ix' rows"

definition stored_ok :: "'r env \<Rightarrow> bytes option \<Rightarrow> snapshot option \<Rightarrow> bool" where
  "stored_ok e file stored \<longleftrightarrow>
     (\<forall>sn. stored = Some sn \<longrightarrow> sn_kind sn = 0 \<and> sn_ids sn = None \<and> (\<exists>f c p. file = Some f \<and> file_holds e f sn c p))"

definition session_inv :: "'r env \<Rightarrow> string \<Rightarrow> bytes option \<Rightarrow> snapshot option \<Rightarrow> index \<Rightarrow> row list \<Rightarrow> bool" where
  "session_inv e path file stored ix rows \<longleftrightarrow>
     represents e ix rows \<and> capture_ok ix rows \<and> tracked e file stored path 0 ix rows None \<and> stored_ok e file stored"

lemma session_inv_live: "session_inv e path file stored ix rows \<longleftrightarrow> live e path 0 file stored ix rows None \<and> stored_ok e file stored"
  by (auto simp: session_inv_def live_def)

lemma session_inv_start:
  assumes "represents e ix rows" "ix_sync_cursor ix = None" "ix_sync_fresh ix = {}" "ix_sync_capture_buf ix = []" "ix_sync_capture_at ix = []"
  shows "session_inv e path file None ix rows"
  using live_start [OF assms] by (simp add: session_inv_live stored_ok_def)

lemma session_inv_reopen:
  assumes h: "file_holds e f sn c p" and sn: "sn_kind sn = 0" "sn_ids sn = None" and l: "snap_loadable e sn" "index_load e f path = Inr (Some ix)"
  shows "session_inv e path (Some f) (Some sn) ix (sn_rows sn)"
proof -
  have "same_numbers e e" by (simp add: same_numbers_def)
  from load_reopens [OF h l(1) this sn(1), of path] l(2)
  have r: "reopened e sn c p (if sc_nonce c \<noteq> UNCLAIMED_NONCE then Some path else None) ix" by auto
  have b: "(if sc_nonce c \<noteq> UNCLAIMED_NONCE then Some path else None) = None
    \<or> (if sc_nonce c \<noteq> UNCLAIMED_NONCE then Some path else None) = Some path" by simp
  have "stored_ok e (Some f) (Some sn)" using h sn by (auto simp: stored_ok_def)
  then show ?thesis using live_reopened [OF h r b] by (simp add: session_inv_live sn)
qed

text \<open>What an incremental sync starts from.\<close>

lemma sync_attempt:
  assumes rep: "represents e ix rows" and cap: "capture_ok ix rows" and tr: "tracked e (Some f) (Some sn) path kind ix rows ids"
    and ids: "ids_fit kind ids (length rows)" and fits: "sync_fits e ix rows path None"
    and d: "ix_dim ix = Some dim" and s: "seed_codebook e dim (code_layout_ready e ix) = Some ix1"
    and b: "sync_bound ix1 path = Some c" "sc_calib_gen c = ix_calib_gen ix1"
  shows "unit_layout e ix1 = LAYOUT_SEQ"
    and "ready e (snapshot_of ix dim kind rows ids) (index_source e ix1 dim kind ids 8 LAYOUT_SEQ)"
    and "file_holds e f sn c (ix_sync_pending ix1)" "in_step sn (snapshot_of ix dim kind rows ids) (ix_sync_fresh ix1)"
    and "finite (ix_sync_fresh ix1)" "sn_dim sn = dim"
proof -
  note p = sync_prepared [OF rep d s]
  have tr1: "tracked e (Some f) (Some sn) path kind ix1 rows ids" by (rule tracked_cong [OF tr p(2)]) (simp add: p(3) d)
  have cap1: "capture_ok ix1 rows" by (rule capture_cong [OF cap p(2)]) (simp add: p(3) d)
  have sn: "snapshot_of ix1 dim kind rows ids = snapshot_of ix dim kind rows ids" using p(2) by (simp add: snapshot_of_def sync_state_def)
  show "unit_layout e ix1 = LAYOUT_SEQ" using fits p(4) by (simp add: sync_fits_def)
  have "ready e (snapshot_of ix1 dim kind rows ids) (index_source e ix1 dim kind ids 8 LAYOUT_SEQ)"
    by (rule ready_index [OF p(1,3) cap1 p(5) ids]) (use fits in \<open>simp_all add: sync_fits_def\<close>)
  then show "ready e (snapshot_of ix dim kind rows ids) (index_source e ix1 dim kind ids 8 LAYOUT_SEQ)" unfolding sn .
  show "file_holds e f sn c (ix_sync_pending ix1)" "in_step sn (snapshot_of ix dim kind rows ids) (ix_sync_fresh ix1)"
    "finite (ix_sync_fresh ix1)" "sn_dim sn = dim"
    using tr1 b p(3) sn by (auto simp: tracked_def)
qed

text \<open>What a power cut leaves.\<close>

lemma sync_cut_holds:
  assumes rep: "represents e ix rows" and cap: "capture_ok ix rows" and tr: "tracked e (Some f) (Some sn) path kind ix rows ids"
    and ids: "ids_fit kind ids (length rows)" and fits: "sync_fits e ix rows path None" and cut: "sync_cut e ix path kind ids f f'"
    and hd: "choose_header f' (snap_geo sn) = choose_header f (snap_geo sn)"
  shows "\<exists>c p. file_holds e f' sn c p"
proof -
  obtain dim ix1 c stale pl where d: "ix_dim ix = Some dim" and s: "seed_codebook e dim (code_layout_ready e ix) = Some ix1"
    and b: "sync_bound ix1 path = Some c" "sc_calib_gen c = ix_calib_gen ix1"
    and pl: "plan_incremental (index_source e ix1 dim kind ids 8 (unit_layout e ix1)) c (ix_sync_pending ix1) (ix_sync_fresh ix1) stale = Some pl"
    and cr: "sync_crash (sp_batches pl) f f'"
    using cut by (auto simp: sync_cut_def Let_def)
  note a = sync_attempt [OF rep cap tr ids fits d s b]
  from crash_holds [OF a(3,2,4,5) pl [unfolded a(1)] cr hd] show ?thesis by blast
qed

lemma told_cut_holds:
  assumes rep: "represents e ix rows" and cap: "capture_ok ix rows" and tr: "tracked e (Some f) (Some sn) path kind ix rows ids"
    and ids: "ids_fit kind ids (length rows)" and fits: "sync_fits e ix rows path None" and cut: "told_sync_cut e ix path kind ids f f'"
  defines "sn' \<equiv> if choose_header f' (snap_geo sn) = choose_header f (snap_geo sn) then sn else snapshot_of ix (sn_dim sn) kind rows ids"
  shows "(\<exists>c p. file_holds e f' sn' c p) \<and> snap_loadable e sn' = snap_loadable e sn"
proof (cases "choose_header f' (snap_geo sn) = choose_header f (snap_geo sn)")
  case True
  then show ?thesis using sync_cut_holds [OF rep cap tr ids fits told_sync_cut_cut [OF cut]] by (simp add: sn'_def)
next
  case False
  obtain dim ix1 c stale where d: "ix_dim ix = Some dim" and s: "seed_codebook e dim (code_layout_ready e ix) = Some ix1"
    and b: "sync_bound ix1 path = Some c" "sc_calib_gen c = ix_calib_gen ix1"
    and cs: "cursor_state (Some f) c (src_geo (index_source e ix1 dim kind ids 8 (unit_layout e ix1))) = CsIntact stale"
    and t: "told_cut (src_geo (index_source e ix1 dim kind ids 8 (unit_layout e ix1))) (index_source e ix1 dim kind ids 8 (unit_layout e ix1)) c
      (ix_sync_pending ix1) (ix_sync_fresh ix1) stale f f'"
    using cut by (auto simp: told_sync_cut_def Let_def)
  note a = sync_attempt [OF rep cap tr ids fits d s b]
  have sn: "snapshot_of ix dim kind rows ids = sn'" using False a(6) by (simp add: sn'_def)
  have "snap_geo (snapshot_of ix dim kind rows ids) = snap_geo sn" using a(4) by (simp add: in_step_def snap_geo_def)
  then have g: "src_geo (index_source e ix1 dim kind ids 8 LAYOUT_SEQ) = snap_geo sn"
    using a(2) by (simp add: ready_def source_of_def del: src_geo_index)
  have "\<exists>c p. file_holds e f' (snapshot_of ix dim kind rows ids) c p"
    by (rule landed_holds [OF a(3,2,4,5) cs [unfolded a(1) g] t [unfolded a(1) g] False])
  then show ?thesis using in_step_loadable [OF a(4)] unfolding sn by blast
qed

theorem session_invariant:
  assumes "session e path file stored ix rows"
  shows "session_inv e path file stored ix rows"
  using assms
proof (induction rule: session.induct)
  case (session_new dim bits ix fl)
  then have "represents e ix []" using index_new_represents [where e = e and dim = dim and bits = bits] by simp
  then show ?case
    using session_new by (intro session_inv_start) (auto simp: index_new_def blank_index_def split: if_splits)
next
  case (session_new_lazy bits ix fl)
  then have "represents e ix []" using new_lazy_represents [where e = e] by blast
  then show ?case
    using session_new_lazy by (intro session_inv_start) (auto simp: new_lazy_def blank_index_def split: if_splits)
next
  case (session_from_parts dim bits n packed scales shift scale ix fl)
  then have r: "represents e ix (parts_rows dim bits n packed scales)" using from_parts_represents by blast
  obtain s c where "ix = (blank_index dim bits)\<lparr>ix_n_vectors := n, ix_packed_codes := Some packed, ix_scales := scales,
      ix_tqplus_shift := s, ix_tqplus_scale := c\<rparr>"
    by (rule from_parts_cases [OF session_from_parts])
  then show ?case by (intro session_inv_start [OF r]) (simp_all add: blank_index_def)
next
  case (session_add fl stored ix rows dim c ft vectors ix' out)
  then have i: "represents e ix rows" "capture_ok ix rows" "tracked e fl stored path 0 ix rows None" "stored_ok e fl stored"
    by (simp_all add: session_inv_def)
  note a = add_2d_represents [OF i(1) session_add(4,2,3)]
  let ?rows' = "if out = Returned (Inr ()) then rows @ map (encode_row (e_fo e) c) (rows_of dim (length vectors div dim) vectors) else rows"
  have rep: "represents e ix' ?rows'" using a i(1) by (auto split: outcome.splits sum.splits)
  have "ids_extend None (length rows) None" by (simp add: ids_extend_def)
  note add = live_add [OF _ session_add(4) this]
  obtain news where n: "?rows' = rows @ news" by (cases "out = Returned (Inr ())") auto
  have "live e path 0 fl stored ix rows None" using i by (simp add: live_def)
  from add [OF this rep [unfolded n]] show ?case using i(4) unfolding session_inv_live n by blast
next
  case (session_remove fl stored ix rows idx ix' out)
  then have i: "represents e ix rows" "capture_ok ix rows" "tracked e fl stored path 0 ix rows None" "stored_ok e fl stored"
    by (simp_all add: session_inv_def)
  obtain r: "represents e ix' (list_swap_remove idx rows)" "capture_ok ix' (list_swap_remove idx rows)" "removed_elsewhere ix idx ix'"
    using swap_remove_represents [OF i(1,2) session_remove(2)] session_remove(3) by auto
  have "tracked e fl stored path 0 ix' (list_swap_remove idx rows) None"
    by (rule tracked_remove [OF i(3) session_remove(2) r(3) representsD(1) [OF i(1)]]) simp
  then show ?case using r(1,2) i(4) by (simp add: session_inv_def)
next
  case (session_prepare fl stored ix rows ix' out)
  then show ?case using live_prepare by (auto simp: session_inv_live)
next
  case (session_calibrate fl stored ix rows dim c ft sample ix' out)
  then show ?case using live_calibrate [OF _ session_calibrate(2-5)] by (simp add: session_inv_live)
next
  case (session_sync fl stored ix rows io ix' fl' out)
  then have i: "represents e ix rows" "capture_ok ix rows" "tracked e fl stored path 0 ix rows None" "stored_ok e fl stored"
    by (simp_all add: session_inv_def)
  have ids: "ids_fit 0 None (length rows)" by (simp add: ids_fit_def)
  note t = sync_tracked [OF i(1-3) ids session_sync(2,3)]
  let ?sn = "snapshot_of ix (the (ix_dim ix)) 0 rows None"
  have sn: "sn_kind ?sn = 0" "sn_ids ?sn = None" by (simp_all add: snapshot_of_def)
  have "stored_ok e fl' (stored_after fl fl' stored out ?sn)"
  proof (cases "out = Returned (Inr ())")
    case True
    then obtain f c where "fl' = Some f" "file_holds e f ?sn c (ix_sync_pending ix')" using t(5) by auto
    then show ?thesis using True sn unfolding stored_ok_def stored_after_def by auto
  next
    case False
    then show ?thesis using i(4) by (auto simp: stored_ok_def stored_after_def split: if_splits)
  qed
  then show ?case using t(1-3) by (simp add: session_inv_def)
next
  case (session_reopen f sn ix rows ix')
  then obtain c p where "file_holds e f sn c p" "sn_kind sn = 0" "sn_ids sn = None" by (auto simp: session_inv_def stored_ok_def)
  then show ?case using session_reopen(2,3) by (rule session_inv_reopen)
next
  case (session_cut f sn ix rows f' ix')
  then have i: "represents e ix rows" "capture_ok ix rows" "tracked e (Some f) (Some sn) path 0 ix rows None" "sn_kind sn = 0" "sn_ids sn = None"
    by (auto simp: session_inv_def stored_ok_def)
  have ids: "ids_fit 0 None (length rows)" by (simp add: ids_fit_def)
  obtain c p where "file_holds e f' sn c p" using sync_cut_holds [OF i(1-3) ids session_cut(2,3,4)] by blast
  then show ?case using i(4,5) session_cut(5,6) by (rule session_inv_reopen)
next
  case (session_landed f sn ix rows f' ix')
  then have i: "represents e ix rows" "capture_ok ix rows" "tracked e (Some f) (Some sn) path 0 ix rows None"
    by (auto simp: session_inv_def stored_ok_def)
  have ids: "ids_fit 0 None (length rows)" by (simp add: ids_fit_def)
  let ?sn = "snapshot_of ix (sn_dim sn) 0 rows None"
  have sn: "sn_kind ?sn = 0" "sn_ids ?sn = None" "sn_rows ?sn = rows" by (simp_all add: snapshot_of_def)
  obtain c p where "file_holds e f' ?sn c p" "snap_loadable e ?sn"
    using told_cut_holds [OF i ids session_landed(2,3)] session_landed(4,5) by auto
  from session_inv_reopen [OF this(1) sn(1,2) this(2) session_landed(6)] show ?case unfolding sn(3) .
qed

section \<open>Byte images\<close>

lemma with_sync_source_index:
  assumes rep: "represents e ix rows" and d: "ix_dim ix = Some dim" and cb: "codebook (e_fo e) (e_beta e) (ix_bit_width ix) dim \<noteq> None"
  shows "\<exists>ix1. seed_codebook e dim (code_layout_ready e ix) = Some ix1 \<and>
    with_sync_source e ix kind ids 8 act = (ix1, Returned (act (index_source e ix1 dim kind ids 8 (unit_layout e ix1))))"
proof -
  let ?ix0 = "code_layout_ready e ix"
  have b: "ix_bit_width ?ix0 = ix_bit_width ix" by (simp add: code_layout_ready_def materialize_packed_def)
  have d0: "dim \<noteq> 0" using representsD(8) [OF rep d] by (simp add: geom_ok_def)
  have "seed_codebook e dim ?ix0 \<noteq> None" using cb b by (simp add: seed_codebook_def)
  then obtain ix1 where s: "seed_codebook e dim ?ix0 = Some ix1" by blast
  then show ?thesis using d d0 by (simp add: with_sync_source_def Let_def)
qed

lemma image_holds:
  assumes rep: "represents e ix rows" and cap: "capture_ok ix rows" and d: "ix_dim ix = Some dim"
    and cb: "codebook (e_fo e) (e_beta e) (ix_bit_width ix) dim \<noteq> None" and ids: "ids_fit kind ids (length rows)"
    and fits: "unit_layout e ix = LAYOUT_SEQ" "length rows < 32 * 4294967296" "\<forall>r \<in> set rows. unat (snd r) < 0x64000000"
      "full_len (index_geo ix dim kind) (length rows) \<le> usize_max"
  shows "\<exists>ix1 img c. v7_image e ix kind ids = (ix1, Returned img) \<and> v7_image_len e ix kind ids = (ix1, Returned (length img)) \<and>
    represents e ix1 rows \<and> file_holds e img (snapshot_of ix dim kind rows ids) c {} \<and> sc_nonce c = UNCLAIMED_NONCE"
proof -
  obtain ix1 where s: "seed_codebook e dim (code_layout_ready e ix) = Some ix1"
    using with_sync_source_index [OF rep d cb] by blast
  note p = sync_prepared [OF rep d s]
  let ?src = "index_source e ix1 dim kind ids 8 LAYOUT_SEQ"
  have lay: "unit_layout e ix1 = LAYOUT_SEQ" using fits(1) p(4) by simp
  have w: "with_sync_source e ix kind ids 8 act = (ix1, Returned (act ?src))" for act :: "sync_source \<Rightarrow> 'c"
    using with_sync_source_index [OF rep d cb, of kind ids act] s lay by auto
  have cap1: "capture_ok ix1 rows" by (rule capture_cong [OF cap p(2)]) (simp add: p(3) d)
  have r: "ready e (snapshot_of ix1 dim kind rows ids) ?src" by (rule ready_index [OF p(1,3) cap1 p(5) ids fits(2,3)])
  then have wf: "wf_source ?src" by (simp add: ready_def)
  have "dim \<noteq> 0" using representsD(8) [OF rep d] by (simp add: geom_ok_def)
  then have n: "ss_n_vectors ?src = length rows" by (rule index_source_fields(4) [OF p(1)])
  have len: "length (write_image ?src 0 UNCLAIMED_NONCE) = image_len ?src" "image_len ?src = full_len (index_geo ix dim kind) (length rows)"
    using length_write_image [OF wf, of 0 UNCLAIMED_NONCE] p(2) n by (simp_all add: image_len_def index_geo_def sync_state_def)
  obtain c where c: "write_full_inner ?src 0 UNCLAIMED_NONCE = (image_bytes ?src, c)" "sc_nonce c = UNCLAIMED_NONCE"
    by (simp add: write_full_inner_def image_bytes_def)
  have h: "file_holds e (image_bytes ?src) (snapshot_of ix1 dim kind rows ids) c {}"
    by (rule full_write_holds [OF r c(1)]) (use len fits(4) in \<open>simp add: image_bytes_def\<close>)
  have sn: "snapshot_of ix1 dim kind rows ids = snapshot_of ix dim kind rows ids" using p(2) by (simp add: snapshot_of_def sync_state_def)
  have "v7_image e ix kind ids = (ix1, Returned (image_bytes ?src))" "v7_image_len e ix kind ids = (ix1, Returned (length (image_bytes ?src)))"
    using len(1) by (simp_all add: v7_image_def v7_image_len_def w image_bytes_def)
  then show ?thesis using p(1) h sn c(2) by auto
qed

text \<open>An unbound sync on a working file system is a full write.\<close>

lemma sync_unbound:
  assumes rep: "represents e ix rows" and d: "ix_dim ix = Some dim" and cb: "codebook (e_fo e) (e_beta e) (ix_bit_width ix) dim \<noteq> None"
    and b: "sync_bound ix path = None" and io: "io_write_fails io = None" and lay: "unit_layout e ix = LAYOUT_SEQ"
  shows "\<exists>ix1 f c. seed_codebook e dim (code_layout_ready e ix) = Some ix1 \<and>
    write_full_inner (index_source e ix1 dim kind ids 8 LAYOUT_SEQ) (ix_calib_gen ix1) (io_nonce io) = (f, c) \<and>
    sync_v7_impl e io fl ix path kind ids = (sync_committed path c [] ix1, Some f, Returned (Inr ()))"
proof -
  obtain ix1 where s: "seed_codebook e dim (code_layout_ready e ix) = Some ix1"
    using with_sync_source_index [OF rep d cb] by blast
  note p = sync_prepared [OF rep d s]
  have b1: "sync_bound ix1 path = None" using b p(2) by (simp add: sync_bound_def sync_state_def)
  have lay1: "unit_layout e ix1 = LAYOUT_SEQ" using lay p(4) by simp
  obtain f c where w: "write_full_inner (index_source e ix1 dim kind ids 8 LAYOUT_SEQ) (ix_calib_gen ix1) (io_nonce io) = (f, c)" by force
  have "sync_v7_impl e io fl ix path kind ids = (sync_committed path c [] ix1, Some f, Returned (Inr ()))"
    using representsD(4) [OF rep] io by (simp add: sync_v7_impl_def d s b1 lay1 sync_write_def w)
  then show ?thesis using s w by blast
qed

text \<open>A bound index whose calibration has not moved finds its own file.\<close>

lemma bound_state:
  assumes tr: "tracked e fl stored path kind ix rows ids" and d: "ix_dim ix = Some dim" and lay: "unit_layout e ix = LAYOUT_SEQ"
    and b: "sync_bound ix path = Some c" and g: "sc_calib_gen c = ix_calib_gen ix"
  shows "\<exists>stale. cursor_state fl c (src_geo (index_source e ix dim kind ids 8 LAYOUT_SEQ)) = CsIntact stale"
proof -
  obtain f sn where f: "fl = Some f" "file_holds e f sn c (ix_sync_pending ix)" "sn_dim sn = dim"
    "in_step sn (snapshot_of ix dim kind rows ids) (ix_sync_fresh ix)"
    using tr b g d by (auto simp: tracked_def)
  have "snap_geo sn = index_geo ix dim kind" using f(3,4) by (simp add: in_step_def snap_geo_def index_geo_def snapshot_of_def)
  then show ?thesis using cursor_state_holds [OF f(2)] f(1) by simp
qed

theorem sync_succeeds:
  assumes rep: "represents e ix rows" and d: "ix_dim ix = Some dim" and cb: "codebook (e_fo e) (e_beta e) (ix_bit_width ix) dim \<noteq> None"
    and tr: "tracked e fl stored path kind ix rows ids" and lay: "unit_layout e ix = LAYOUT_SEQ"
    and io: "\<not> io_check_fails io" "io_write_fails io = None" and g: "\<And>c. sync_bound ix path = Some c \<Longrightarrow> sc_calib_gen c = ix_calib_gen ix"
  shows "\<exists>ix' f. sync_v7_impl e io fl ix path kind ids = (ix', Some f, Returned (Inr ()))"
proof -
  obtain ix1 where s: "seed_codebook e dim (code_layout_ready e ix) = Some ix1"
    using with_sync_source_index [OF rep d cb] by blast
  note p = sync_prepared [OF rep d s]
  have tr1: "tracked e fl stored path kind ix1 rows ids" by (rule tracked_cong [OF tr p(2)]) (simp add: p(3) d)
  have lay1: "unit_layout e ix1 = LAYOUT_SEQ" using lay p(4) by simp
  let ?src = "index_source e ix1 dim kind ids 8 LAYOUT_SEQ"
  let ?state = "case sync_bound ix1 path of Some c \<Rightarrow> cursor_state fl c (src_geo ?src) | None \<Rightarrow> CsReplaced"
  have b1: "sync_bound ix1 path = sync_bound ix path" "ix_calib_gen ix1 = ix_calib_gen ix"
    using p(2) by (simp_all add: sync_bound_def sync_state_def)
  have st: "?state \<noteq> CsForeign"
  proof (cases "sync_bound ix1 path")
    case (Some c)
    then have "sc_calib_gen c = ix_calib_gen ix1" using g b1 by simp
    from bound_state [OF tr1 p(3) lay1 Some this] show ?thesis using Some by auto
  qed simp
  obtain f1 c1 carried where w: "sync_write (io_nonce io) fl ?src ?state (sync_bound ix1 path) ix1 = (f1, c1, carried)"
    using prod_cases3 by blast
  have "sync_v7_impl e io fl ix path kind ids = (sync_committed path c1 carried ix1, Some f1, Returned (Inr ()))"
    unfolding sync_v7_impl_def if_not_P [OF representsD(4) [OF rep]] d s option.case Let_def lay1 w prod.case
    using io st by (simp del: src_geo_index)
  then show ?thesis by blast
qed

end
