(* ===== verification/SessionTheorems.thy ===== *)
theory SessionTheorems
  imports DemoIndex IndexSession TornDemo
begin

text \<open>
  What an index and its file promise together, over any sequence of adds, removals, calibrations, syncs,
  failures, power cuts and reopenings.
\<close>

section \<open>The demo index as a session\<close>

lemma demo_parts_rows: "parts_rows (Some 8) 2 2 [1, 2, 3, 4] [5, 6] = demo_rows"
  by (simp add: parts_rows_def demo_rows_def rows_of_def row_slice_def upt_rec numeral_2_eq_2)

lemma demo_session: "session demo_env path fl None demo_index demo_rows"
  using session_from_parts [of demo_env "Some 8" 2 2 "[1, 2, 3, 4]" "[5, 6]" "[]" "[]" demo_index path fl] demo_parts
  by (simp add: demo_parts_def demo_parts_rows)

lemma demo_layout: "unit_layout demo_env demo_index = LAYOUT_SEQ"
  by (simp add: unit_layout_def blocked_geometry_def planes_wanted_def planes_for_def demo_env_def Let_def)

lemma demo_codebook_Some: "codebook (e_fo demo_env) (e_beta demo_env) (ix_bit_width demo_index) 8 \<noteq> None"
  by (simp add: demo_codebook)

lemma demo_unbound: "sync_bound demo_index path = None"
  by (simp add: sync_bound_def demo_index_eq blank_index_def)

lemma demo_scales: "\<forall>r \<in> set demo_rows. unat (snd r) < 0x64000000"
  by (simp add: demo_rows_def)

lemma demo_len_any: "kind \<in> {0, 1} \<Longrightarrow> full_len (index_geo demo_index 8 kind) (length demo_rows) \<le> usize_max"
  by (auto simp: full_len_def unit_at_def hdr_at_def hdr_len_def unit_len_def op_size_def sb_len_def sb_fixed_def id_bytes_def
      n_levels_def index_geo_def row_bytes_def blocked_geometry_def MAX_OPS_def demo_rows_def Let_def)

lemma demo_len: "full_len (index_geo demo_index 8 0) (length demo_rows) \<le> usize_max"
  by (rule demo_len_any) simp

lemma demo_loadable: "snap_loadable demo_env (snapshot_of demo_index 8 0 demo_rows None)"
  by (simp add: snap_loadable_def snapshot_of_def normalize_calibration_def validate_calibration_def demo_codebook
      f32_is_nan_def f32_mag_def f32_inf_mag_def)

text \<open>Its first sync.\<close>

definition demo_io :: io_run where
  "demo_io = \<lparr>io_check_fails = False, io_write_fails = None, io_nonce = 5\<rparr>"

lemma demo_sync_any:
  assumes ids: "ids_fit kind ids (length demo_rows)"
  shows "\<exists>ix f. sync_v7_impl demo_env demo_io None demo_index path kind ids = (ix, Some f, Returned (Inr ())) \<and>
     sync_fits demo_env demo_index demo_rows path (Some f) \<and>
     (\<exists>src. wf_source src \<and> src_geo src = index_geo demo_index 8 kind \<and> f = write_image src 0 5)"
proof -
  have io: "io_write_fails demo_io = None" by (simp add: demo_io_def)
  have d: "ix_dim demo_index = Some 8" by simp
  have k: "kind \<in> {0, 1}" using ids by (auto simp: ids_fit_def split: option.splits)
  obtain ix1 f c where s: "seed_codebook demo_env 8 (code_layout_ready demo_env demo_index) = Some ix1"
    and w: "write_full_inner (index_source demo_env ix1 8 kind ids 8 LAYOUT_SEQ) (ix_calib_gen ix1) (io_nonce demo_io) = (f, c)"
    and run: "sync_v7_impl demo_env demo_io None demo_index path kind ids = (sync_committed path c [] ix1, Some f, Returned (Inr ()))"
    using sync_unbound [OF demo_index_represents d demo_codebook_Some demo_unbound io demo_layout] by blast
  note p = sync_prepared [OF demo_index_represents d s]
  have cap: "capture_ok ix1 demo_rows" by (rule capture_cong [OF demo_index_captures p(2)]) (simp add: p(3))
  have "ready demo_env (snapshot_of ix1 8 kind demo_rows ids) (index_source demo_env ix1 8 kind ids 8 LAYOUT_SEQ)"
    by (rule ready_index [OF p(1,3) cap p(5) ids]) (simp_all add: demo_rows_def)
  then have wf: "wf_source (index_source demo_env ix1 8 kind ids 8 LAYOUT_SEQ)" by (simp add: ready_def)
  have n: "ss_n_vectors (index_source demo_env ix1 8 kind ids 8 LAYOUT_SEQ) = length demo_rows"
    by (rule index_source_fields(4) [OF p(1)]) simp
  have "length f = full_len (index_geo demo_index 8 kind) (length demo_rows)"
    using length_write_image [OF wf, of 0 "io_nonce demo_io"] w p(2) n
    by (auto simp: write_full_inner_def index_geo_def sync_state_def)
  then have "sync_fits demo_env demo_index demo_rows path (Some f)"
    using demo_layout demo_scales demo_len_any [OF k] demo_unbound by (simp add: sync_fits_def demo_rows_def)
  moreover have "src_geo (index_source demo_env ix1 8 kind ids 8 LAYOUT_SEQ) = index_geo demo_index 8 kind"
    using p(2) by (simp add: index_geo_def sync_state_def)
  moreover have "f = write_image (index_source demo_env ix1 8 kind ids 8 LAYOUT_SEQ) 0 5" using w by (auto simp: write_full_inner_def demo_io_def)
  ultimately show ?thesis using run wf by blast
qed

lemma demo_sync:
  "\<exists>ix f. sync_v7_impl demo_env demo_io None demo_index path 0 None = (ix, Some f, Returned (Inr ())) \<and>
     sync_fits demo_env demo_index demo_rows path (Some f)"
  using demo_sync_any [of 0 None path] by (auto simp: ids_fit_def)

text \<open>The next sync of a small index bound to a freshly written file, cut when its header has landed without the
  first byte.\<close>

lemma small_plan:
  assumes "ss_n_vectors src < 32"
  shows "plan_blocks src c pending fresh = []" "plan_carried (live_floor src c) pending fresh = []"
proof -
  have "live_floor src c = 0" using assms by (simp add: live_floor_def)
  moreover have "Set.filter (\<lambda>s. False) A = {}" for A :: "nat set" by auto
  ultimately show "plan_blocks src c pending fresh = []" "plan_carried (live_floor src c) pending fresh = []"
    using assms by (simp_all add: plan_blocks_def plan_materialize_def plan_carried_def)
qed

lemma fresh_file:
  assumes s: "synced g (write_image src0 0 nonce) h c pending src" and wf: "wf_source src0" "src_geo src0 = g"
  shows "sc_gen c = 0" "cursor_state (Some (write_image src0 0 nonce)) c g = CsIntact None"
proof -
  have i: "commit_at (write_image src0 0 nonce) g h" "ph_gen h = sc_gen c" using synced_invariant [OF s] by (simp_all add: synced_inv_def)
  show "sc_gen c = 0" using image_slots(2) [OF wf gen_parity [of "ph_gen h"]] i by (auto simp: commit_at_def)
  then show "cursor_state (Some (write_image src0 0 nonce)) c g = CsIntact None"
    by (intro cursor_state_current [OF s]) (use image_slots(2) [OF wf] in fastforce)
qed

lemma sync_ready_gen: "sync_ready f g h src (c\<lparr>sc_calib_gen := cg\<rparr>) pending fresh = sync_ready f g h src c pending fresh"
  by (simp add: sync_ready_def)

lemma small_cut:
  assumes l: "live e path kind (Some f) (Some sn) ix rows ids" and ids: "ids_fit kind ids (length rows)" and fits: "sync_fits e ix rows path None"
    and d: "ix_dim ix = Some dim" and cb: "codebook (e_fo e) (e_beta e) (ix_bit_width ix) dim \<noteq> None"
    and b: "sync_bound ix path = Some c" "sc_calib_gen c = ix_calib_gen ix"
    and f: "f = write_image src0 0 nonce" "wf_source src0" "src_geo src0 = snap_geo sn"
    and rows: "rows \<noteq> []" "length rows < 32"
  shows "\<exists>f'. told_sync_cut e ix path kind ids f f' \<and> f' \<noteq> f \<and> choose_header f' (snap_geo sn) = choose_header f (snap_geo sn)"
proof -
  obtain ix1 where s: "seed_codebook e dim (code_layout_ready e ix) = Some ix1"
    using with_sync_source_index [OF liveD(1) [OF l] d cb] by blast
  note p = sync_prepared [OF liveD(1) [OF l] d s]
  have b1: "sync_bound ix1 path = Some c" "sc_calib_gen c = ix_calib_gen ix1" using b p(2) by (simp_all add: sync_bound_def sync_state_def)
  note a = sync_attempt [OF liveD [OF l] ids fits d s b1]
  let ?src = "index_source e ix1 dim kind ids 8 LAYOUT_SEQ"
  obtain h src cg where sy: "synced (snap_geo sn) f h (c\<lparr>sc_calib_gen := cg\<rparr>) (ix_sync_pending ix1) src"
    using a(3) by (auto simp: file_holds_def)
  have g: "src_geo ?src = snap_geo sn" "wf_source ?src" "ss_n_vectors ?src = length rows"
    using a(2,4) by (auto simp: ready_def source_of_def in_step_def snap_geo_def snapshot_of_def simp del: src_geo_index)
  note ff = fresh_file [OF sy [unfolded f(1)] f(2,3), folded f(1)]
  have "sync_ready f (snap_geo sn) h ?src (c\<lparr>sc_calib_gen := cg\<rparr>) (ix_sync_pending ix1) (ix_sync_fresh ix1)"
    by (rule synced_inv_ready [OF synced_invariant [OF sy] g(2,1) a(5)])
  then have "sync_ready f (snap_geo sn) h ?src c (ix_sync_pending ix1) (ix_sync_fresh ix1)"
    by (simp only: sync_ready_gen)
  then have fs: "first_sync src0 nonce f (snap_geo sn) h ?src c (ix_sync_pending ix1) (ix_sync_fresh ix1)"
    unfolding first_sync_def using f ff(1) small_plan(2) [of ?src] g(3) rows(2) by (simp only: cursor_gen) simp
  have n: "0 < ss_n_vectors ?src" "ss_n_vectors ?src < 256" using rows g(3) by simp_all
  have pb: "plan_blocks ?src c (ix_sync_pending ix1) (ix_sync_fresh ix1) = []" using g(3) rows(2) by (intro small_plan) simp
  note hc = headless_cut [OF fs pb n]
  have cs: "cursor_state (Some f) c (snap_geo sn) = CsIntact None" using ff(2) by (simp only: cursor_state_gen)
  show ?thesis
    unfolding told_sync_cut_def Let_def
    using hc d s b1 a(1) g(1) cs by fastforce
qed

text \<open>The demo index after its first sync and a removal, ready for the next sync.\<close>

lemma demo_removed:
  assumes ids: "ids_fit kind ids (length demo_rows)" "ids_fit kind ids' 1"
    and run: "sync_v7_impl demo_env demo_io None demo_index [] kind ids = (ix, Some f, Returned (Inr ()))"
    and l: "live demo_env [] kind (Some f) (Some (snapshot_of demo_index 8 kind demo_rows ids)) ix' [([3, 4], 6)] ids'"
    and rm: "removed_elsewhere ix 0 ix'"
  shows "sync_fits demo_env ix' [([3, 4], 6)] [] None"
    and "\<exists>f'. told_sync_cut demo_env ix' [] kind ids' f f' \<and> f' \<noteq> f \<and>
      choose_header f' (snap_geo (snapshot_of demo_index 8 kind demo_rows ids)) = choose_header f (snap_geo (snapshot_of demo_index 8 kind demo_rows ids))"
proof -
  let ?sn = "snapshot_of demo_index 8 kind demo_rows ids"
  have fits: "sync_fits demo_env demo_index demo_rows [] (Some f)"
    and im: "\<exists>src. wf_source src \<and> src_geo src = index_geo demo_index 8 kind \<and> f = write_image src 0 5"
    using demo_sync_any [OF ids(1), of "[]"] run by auto
  have g: "index_geo demo_index 8 kind = snap_geo ?sn" by (simp add: index_geo_def snap_geo_def snapshot_of_def)
  obtain src where src: "f = write_image src 0 5" "wf_source src" "src_geo src = snap_geo ?sn" using im g by auto
  have tr: "tracked demo_env None None [] kind demo_index demo_rows ids" using demo_unbound by (simp add: tracked_def demo_index_eq blank_index_def)
  obtain c where h: "file_holds demo_env f ?sn c (ix_sync_pending ix)" and b: "sync_bound ix [] = Some (c\<lparr>sc_calib_gen := ix_calib_gen ix\<rparr>)"
    using sync_tracked(5) [OF demo_index_represents demo_index_captures tr ids(1) run fits] by auto
  obtain hd s cg where sy: "synced (snap_geo ?sn) (write_image src 0 5) hd (c\<lparr>sc_calib_gen := cg\<rparr>) (ix_sync_pending ix) s"
    using h by (auto simp: file_holds_def src(1))
  have gen: "sc_gen c = 0" using fresh_file(1) [OF sy src(2,3)] by simp
  have b': "sync_bound ix' [] = Some (c\<lparr>sc_calib_gen := ix_calib_gen ix'\<rparr>)" using b rm by (simp add: removed_elsewhere_def sync_bound_def)
  have t: "ix_dim ix' = Some 8" "ix_bit_width ix' = 2" using liveD(3) [OF l] b' by (auto simp: tracked_def snapshot_of_def)
  have lay: "unit_layout demo_env ix' = LAYOUT_SEQ"
    by (simp add: unit_layout_def blocked_geometry_def planes_wanted_def planes_for_def demo_env_def Let_def split: option.split)
  show fits': "sync_fits demo_env ix' [([3, 4], 6)] [] None" using lay b' gen by (simp add: sync_fits_def)
  have cb: "codebook (e_fo demo_env) (e_beta demo_env) (ix_bit_width ix') 8 \<noteq> None" using demo_codebook_Some by (simp add: t(2))
  have ids'': "ids_fit kind ids' (length [([3, 4] :: bytes, 6 :: f32)])" using ids(2) by simp
  show "\<exists>f'. told_sync_cut demo_env ix' [] kind ids' f f' \<and> f' \<noteq> f \<and> choose_header f' (snap_geo ?sn) = choose_header f (snap_geo ?sn)"
    by (rule small_cut [OF l ids'' fits' t(1) cb b' _ src]) simp_all
qed

lemma demo_session_cut:
  obtains ix f where "session demo_env [] (Some f) (Some (snapshot_of demo_index 8 0 demo_rows None)) ix [([3, 4], 6)]"
    "sync_fits demo_env ix [([3, 4], 6)] [] None"
    "\<exists>f'. told_sync_cut demo_env ix [] 0 None f f' \<and> f' \<noteq> f \<and>
      choose_header f' (snap_geo (snapshot_of demo_index 8 0 demo_rows None)) = choose_header f (snap_geo (snapshot_of demo_index 8 0 demo_rows None))"
proof -
  have ids: "ids_fit 0 None (length demo_rows)" "ids_fit 0 None 1" by (simp_all add: ids_fit_def)
  obtain ix f where run: "sync_v7_impl demo_env demo_io None demo_index [] 0 None = (ix, Some f, Returned (Inr ()))"
    and fits: "sync_fits demo_env demo_index demo_rows [] (Some f)" using demo_sync by blast
  have s: "session demo_env [] (Some f) (Some (snapshot_of demo_index 8 0 demo_rows None)) ix demo_rows"
    using session_sync [OF demo_session run fits] by (simp add: stored_after_def)
  have i: "represents demo_env ix demo_rows" "capture_ok ix demo_rows" using session_invariant [OF s] by (simp_all add: session_inv_def)
  have r: "list_swap_remove 0 demo_rows = [([3, 4], 6)]" "0 < length demo_rows" by (simp_all add: demo_rows_def list_swap_remove_def)
  obtain ix' where rm: "swap_remove demo_env ix 0 = (ix', Returned (length demo_rows - 1))" "removed_elsewhere ix 0 ix'"
    using swap_remove_represents [OF i r(2)] by blast
  have s': "session demo_env [] (Some f) (Some (snapshot_of demo_index 8 0 demo_rows None)) ix' [([3, 4], 6)]"
    using session_remove [OF s r(2) rm(1)] unfolding r(1) .
  then have "live demo_env [] 0 (Some f) (Some (snapshot_of demo_index 8 0 demo_rows None)) ix' [([3, 4], 6)] None"
    using session_invariant session_inv_live by blast
  from that [OF s'] demo_removed [OF ids run this rm(2)] show thesis by blast
qed

section \<open>The properties\<close>



text \<open>C1. Whatever came before, an index that syncs and returns leaves a file that opens, on any processor
  with the same arithmetic, to an index of the same rows, dimension, width and calibration, ready for its
  next incremental sync.\<close>

theorem sync_then_reopen:
  assumes "session e path file stored ix rows" "sync_v7_impl e io file ix path 0 None = (ix', file', Returned (Inr ()))"
    and "sync_fits e ix rows path file'" "ix_dim ix = Some dim" "snap_loadable e (snapshot_of ix dim 0 rows None)" "same_numbers e e'"
  shows "\<exists>f ix2. file' = Some f \<and> index_load e' f path = Inr (Some ix2) \<and> represents e' ix2 rows \<and> represents e ix' rows \<and>
    ix_dim ix2 = Some dim \<and> ix_bit_width ix2 = ix_bit_width ix \<and> calibrated_pair ix2 = calibrated_pair ix \<and>
    ix_sync_pending ix2 = ix_sync_pending ix'"
proof -
  have i: "represents e ix rows" "capture_ok ix rows" "tracked e file stored path 0 ix rows None"
    using session_invariant [OF assms(1)] by (simp_all add: session_inv_def)
  have ids: "ids_fit 0 None (length rows)" by (simp add: ids_fit_def)
  note t = sync_tracked [OF i ids assms(2,3)]
  obtain f c where f: "file' = Some f" "file_holds e f (snapshot_of ix dim 0 rows None) c (ix_sync_pending ix')"
    using t(5) assms(4) by auto
  have k: "sn_kind (snapshot_of ix dim 0 rows None) = 0" "sn_dim (snapshot_of ix dim 0 rows None) = dim"
    "sn_rows (snapshot_of ix dim 0 rows None) = rows" "sn_ids (snapshot_of ix dim 0 rows None) = None" by (simp_all add: snapshot_of_def)
  obtain ix2 where l: "index_load e' f path = Inr (Some ix2)" and r: "represents e' ix2 rows" "ix_dim ix2 = Some dim"
    "snapshot_of ix2 dim 0 rows None = snapshot_of ix dim 0 rows None" "ix_sync_pending ix2 = ix_sync_pending ix'"
    using load_reopens [OF f(2) assms(5,6) k(1), of path] unfolding reopened_def k by blast
  have "ix_bit_width ix2 = ix_bit_width ix \<and> calibrated_pair ix2 = calibrated_pair ix"
    using r(3) by (simp add: snapshot_of_def calibrated_pair_def)
  then show ?thesis using f(1) l r t(1) by blast
qed

theorem sync_then_reopen_witness:
  "\<exists>ix' f ix2. sync_v7_impl demo_env demo_io None demo_index [] 0 None = (ix', Some f, Returned (Inr ())) \<and>
     index_load demo_env f [] = Inr (Some ix2) \<and> represents demo_env ix2 [([1, 2], 5), ([3, 4], 6)]"
proof -
  obtain ix' f where s: "sync_v7_impl demo_env demo_io None demo_index [] 0 None = (ix', Some f, Returned (Inr ()))"
    "sync_fits demo_env demo_index demo_rows [] (Some f)" using demo_sync by blast
  have "same_numbers demo_env demo_env" by (simp add: same_numbers_def)
  from sync_then_reopen [OF demo_session s _ demo_loadable this] s(1) show ?thesis by (auto simp: demo_rows_def)
qed

text \<open>C3. An incremental sync that loses power at any point, with its writes torn anyhow, leaves a file that
  opens: to exactly the rows of the last sync when the loader adopts the header it adopted before, and to exactly
  the rows of the interrupted sync when it does not. This holds for every cut after which the header checksum and
  the delta digest are not fooled by torn bytes and no header of an abandoned sync comes into reach because the
  file grew (\<open>told_cut\<close>).\<close>

theorem power_cut_then_reopen:
  assumes "session e path (Some f) (Some sn) ix rows" "sync_fits e ix rows path None" "told_sync_cut e ix path 0 None f f'"
    and "snap_loadable e sn" "same_numbers e e'"
  shows "\<exists>ix2. index_load e' f' path = Inr (Some ix2) \<and> ix_dim ix2 = Some (sn_dim sn) \<and>
    represents e' ix2 (if choose_header f' (snap_geo sn) = choose_header f (snap_geo sn) then sn_rows sn else rows)"
proof -
  have i: "represents e ix rows" "capture_ok ix rows" "tracked e (Some f) (Some sn) path 0 ix rows None" "sn_kind sn = 0"
    using session_invariant [OF assms(1)] by (auto simp: session_inv_def stored_ok_def)
  have ids: "ids_fit 0 None (length rows)" by (simp add: ids_fit_def)
  define sn' where "sn' = (if choose_header f' (snap_geo sn) = choose_header f (snap_geo sn) then sn else snapshot_of ix (sn_dim sn) 0 rows None)"
  have sn': "sn_kind sn' = 0" "sn_dim sn' = sn_dim sn"
    "sn_rows sn' = (if choose_header f' (snap_geo sn) = choose_header f (snap_geo sn) then sn_rows sn else rows)"
    using i(4) by (simp_all add: sn'_def snapshot_of_def)
  obtain c p where "file_holds e f' sn' c p" "snap_loadable e sn'"
    using told_cut_holds [OF i(1-3) ids assms(2,3), folded sn'_def] assms(4) by blast
  from load_reopens [OF this assms(5) sn'(1), of path] show ?thesis unfolding reopened_def sn' by auto
qed

theorem power_cut_then_reopen_witness:
  "\<exists>ix f f' ix2. session demo_env [] (Some f) (Some (snapshot_of demo_index 8 0 demo_rows None)) ix [([3, 4], 6)] \<and>
     told_sync_cut demo_env ix [] 0 None f f' \<and> f' \<noteq> f \<and> index_load demo_env f' [] = Inr (Some ix2) \<and>
     represents demo_env ix2 [([1, 2], 5), ([3, 4], 6)]"
proof -
  let ?sn = "snapshot_of demo_index 8 0 demo_rows None"
  obtain ix f where s: "session demo_env [] (Some f) (Some ?sn) ix [([3, 4], 6)]" and fits: "sync_fits demo_env ix [([3, 4], 6)] [] None"
    and cut: "\<exists>f'. told_sync_cut demo_env ix [] 0 None f f' \<and> f' \<noteq> f \<and> choose_header f' (snap_geo ?sn) = choose_header f (snap_geo ?sn)"
    by (rule demo_session_cut)
  obtain f' where c: "told_sync_cut demo_env ix [] 0 None f f'" "f' \<noteq> f" "choose_header f' (snap_geo ?sn) = choose_header f (snap_geo ?sn)"
    using cut by blast
  have "same_numbers demo_env demo_env" by (simp add: same_numbers_def)
  from power_cut_then_reopen [OF s fits c(1) demo_loadable this] s c show ?thesis
    by (auto simp: snapshot_of_def demo_rows_def)
qed

lemma write_is_image: "write_snapshot = image_bytes" "stream_image = image_bytes"
  by (simp_all add: fun_eq_iff write_snapshot_def stream_image_def image_bytes_def write_full_inner_def)

text \<open>C32. \<open>to_bytes\<close> and \<open>from_bytes\<close> are inverse on what an index stands for, \<open>serialized_len\<close> is the
  length of the bytes, and \<open>write\<close> and \<open>write_to_writer\<close> produce the same bytes; the copy is bound to no file.\<close>

theorem to_bytes_roundtrip:
  assumes "represents e ix rows" "capture_ok ix rows" "ix_dim ix = Some dim" "snap_loadable e (snapshot_of ix dim 0 rows None)"
    and "same_numbers e e'" "unit_layout e ix = LAYOUT_SEQ" "length rows < 32 * 4294967296" "\<forall>r \<in> set rows. unat (snd r) < 0x64000000"
    and "full_len (index_geo ix dim 0) (length rows) \<le> usize_max"
  shows "\<exists>ix1 img ix2. to_bytes e ix = (ix1, Returned img) \<and> serialized_len e ix = (ix1, Returned (length img)) \<and>
    index_write e ix = (ix1, Returned img) \<and> write_to_writer e ix = (ix1, Returned img) \<and> represents e ix1 rows \<and>
    from_bytes e' img = Inr (Some ix2) \<and> represents e' ix2 rows \<and> ix_dim ix2 = Some dim \<and> calibrated_pair ix2 = calibrated_pair ix \<and>
    ix_sync_cursor ix2 = None"
proof -
  have cb: "codebook (e_fo e) (e_beta e) (ix_bit_width ix) dim \<noteq> None"
    using assms(4) by (auto simp: snap_loadable_def snapshot_of_def)
  have ids: "ids_fit 0 None (length rows)" by (simp add: ids_fit_def)
  obtain ix1 img c where v: "v7_image e ix 0 None = (ix1, Returned img)" "v7_image_len e ix 0 None = (ix1, Returned (length img))"
    "represents e ix1 rows" "file_holds e img (snapshot_of ix dim 0 rows None) c {}"
    using image_holds [OF assms(1-3) cb ids assms(6-9)] by blast
  have k: "sn_kind (snapshot_of ix dim 0 rows None) = 0" "sn_dim (snapshot_of ix dim 0 rows None) = dim"
    "sn_rows (snapshot_of ix dim 0 rows None) = rows" "sn_ids (snapshot_of ix dim 0 rows None) = None" by (simp_all add: snapshot_of_def)
  obtain ix2 where l: "from_bytes e' img = Inr (Some ix2)" and r: "represents e' ix2 rows" "ix_dim ix2 = Some dim"
    "snapshot_of ix2 dim 0 rows None = snapshot_of ix dim 0 rows None" "ix_sync_cursor ix2 = None"
    using from_bytes_reopens [OF v(4) assms(4,5) k(1)] unfolding reopened_def k by auto
  have "calibrated_pair ix2 = calibrated_pair ix" using r(3) by (simp add: snapshot_of_def calibrated_pair_def)
  then show ?thesis using v(1-3) l r by (simp add: to_bytes_def serialized_len_def index_write_def write_to_writer_def v7_image_def write_is_image)
qed

theorem to_bytes_roundtrip_witness:
  "\<exists>ix1 img ix2. to_bytes demo_env demo_index = (ix1, Returned img) \<and> from_bytes demo_env img = Inr (Some ix2) \<and>
     represents demo_env ix2 [([1, 2], 5), ([3, 4], 6)]"
proof -
  have "same_numbers demo_env demo_env" by (simp add: same_numbers_def)
  from to_bytes_roundtrip [OF demo_index_represents demo_index_captures _ demo_loadable this demo_layout _ demo_scales demo_len]
  show ?thesis by (auto simp: demo_rows_def)
qed

text \<open>C4. As long as the calibration has not moved since the last sync, a sync on a working file system
  returns: after any session it neither panics, nor takes the file for another writer's, nor refuses it.\<close>

theorem session_sync_returns:
  assumes "session e path fl stored ix rows" "ix_dim ix = Some dim" "codebook (e_fo e) (e_beta e) (ix_bit_width ix) dim \<noteq> None"
    and "unit_layout e ix = LAYOUT_SEQ" "\<not> io_check_fails io" "io_write_fails io = None"
    and "\<forall>c. sync_bound ix path = Some c \<longrightarrow> sc_calib_gen c = ix_calib_gen ix"
  shows "\<exists>ix' f. sync_v7_impl e io fl ix path 0 None = (ix', Some f, Returned (Inr ()))"
  using sync_succeeds [OF _ assms(2,3) _ assms(4-6)] session_invariant [OF assms(1)] assms(7) by (auto simp: session_inv_def)

theorem session_sync_returns_witness:
  "\<exists>ix f. sync_v7_impl demo_env demo_io None demo_index [] 0 None = (ix, Some f, Returned (Inr ()))"
  by (rule session_sync_returns [OF demo_session _ demo_codebook_Some demo_layout]) (simp_all add: demo_io_def demo_unbound)

text \<open>C33. A calibration that returns has fitted a pair to the sample and re-encoded every stored row under it,
  row by row, from its reconstruction under the old pair; one that refuses or panics leaves the rows, the old
  pair and the sync bookkeeping.\<close>

theorem calibrate_reencodes:
  assumes "represents e ix rows" "index_coder e ix dim = Some c" "wf_coder (e_fo e) c" "calibrate_2d e ft ix sample dim = (ix', out)"
  shows "case out of
      Returned (Inr _) \<Rightarrow> \<exists>pair.
        fit_calibration (e_cpu e) (e_fo e) (e_beta e) (e_sel e) (e_threads e) sample (length sample div dim) dim (c_rot c) (c_centroids c) = Some pair \<and>
        calibrated_pair ix' = Some pair \<and> ix_dim ix' = Some dim \<and> ix_calib_gen ix' = ix_calib_gen ix + 1 \<and>
        represents e ix' (map (reencode_row (e_fo e) c (c\<lparr>c_calibration := Some pair\<rparr>)) rows)
    | _ \<Rightarrow> represents e ix' rows \<and> same_elsewhere ix ix'"
  using calibrate_2d_represents [OF assms] by (fastforce simp: calibrated_with_def split: outcome.splits sum.splits)

theorem calibrate_reencodes_witness:
  "case calibrate_2d demo_env \<lparr>cf_fit = False, cf_reencode = True\<rparr> demo_index (replicate 8000 1) 8 of
     (ix', Returned (Inr _)) \<Rightarrow> ix_calib_gen ix' = ix_calib_gen demo_index + 1
   | (ix', _) \<Rightarrow> represents demo_env ix' demo_rows \<and> same_elsewhere demo_index ix'"
proof -
  obtain c where c: "index_coder demo_env demo_index 8 = Some c" "wf_coder (e_fo demo_env) c"
    using demo_index_coder [of demo_index] by auto
  obtain ix' out where run: "calibrate_2d demo_env \<lparr>cf_fit = False, cf_reencode = True\<rparr> demo_index (replicate 8000 1) 8 = (ix', out)" by force
  show ?thesis
    using calibrate_reencodes [OF demo_index_represents c run] unfolding run by (auto split: outcome.splits sum.splits)
qed

end
