(* ===== verification/IdMap.thy ===== *)
theory IdMap
  imports IndexSession
begin

unbundle bit_operations_syntax

text \<open>
  \<open>IdMapIndex\<close> (\<open>id_map.rs\<close>): external ids over the slots of a \<open>TurboQuantIndex\<close>. The id to slot map is
  built when it is first needed; until then (after a load) membership is a binary search in the loaded
  ids and a lookup among the ids added since. A hash map is a map, a hash set a set; what \<open>&self\<close>
  methods change behind a lock is in the returned state.
\<close>

section \<open>The hasher\<close>

definition mix :: "u64 \<Rightarrow> u64" where
  "mix x =
     (let z = x * 0x9E3779B97F4A7C15;
          z = z XOR drop_bit 32 z;
          z = z * 0xD6E8FEB86659FD93
      in z XOR drop_bit 32 z)"

definition hash_write :: "u64 \<Rightarrow> bytes \<Rightarrow> u64" where
  "hash_write h bs = foldl (\<lambda>h b. mix (h XOR ucast b)) h bs"

definition hash_write_u64 :: "u64 \<Rightarrow> u64 \<Rightarrow> u64" where
  "hash_write_u64 h i = mix i"

section \<open>The sorted table\<close>

text \<open>\<open>binary_search_by\<close>: halve until one element is left, then compare it. The second component counts
  the calls of the comparator (\<open>record_table_probe\<close>).\<close>

function search_base :: "u64 list \<Rightarrow> u64 \<Rightarrow> nat \<Rightarrow> nat \<Rightarrow> nat \<Rightarrow> nat \<times> nat" where
  "search_base xs key base len probes =
     (if len \<le> 1 then (base, probes)
      else let half = len div 2; mid = base + half
           in search_base xs key (if key < xs ! mid then base else mid) (len - half) (probes + 1))"
  by pat_completeness auto
termination by (relation "measure (\<lambda>(_, _, _, len, _). len)") auto

declare search_base.simps [simp del]

definition table_search :: "u64 list \<Rightarrow> u64 \<Rightarrow> bool \<times> nat" where
  "table_search tbl key =
     (if tbl = [] then (False, 0)
      else let (base, probes) = search_base tbl key 0 (length tbl) 0 in (tbl ! base = key, probes + 1))"

definition table_contains :: "u64 list \<Rightarrow> u64 \<Rightarrow> bool" where
  "table_contains tbl key = fst (table_search tbl key)"

section \<open>The index\<close>

record idmap =
  im_inner :: index
  im_slots :: "u64 list"
  im_map :: "(u64 \<rightharpoonup> nat) option"
  im_sorted :: "u64 list"
  im_added :: "u64 set"

definition idmap_new :: "nat \<Rightarrow> nat \<Rightarrow> construct_error + idmap" where
  "idmap_new dim bit_width =
     and_then (index_new dim bit_width) (\<lambda>inner.
       Inr \<lparr>im_inner = inner, im_slots = [], im_map = Some Map.empty, im_sorted = [], im_added = {}\<rparr>)"

definition idmap_new_lazy :: "nat \<Rightarrow> construct_error + idmap" where
  "idmap_new_lazy bit_width =
     and_then (new_lazy bit_width) (\<lambda>inner.
       Inr \<lparr>im_inner = inner, im_slots = [], im_map = Some Map.empty, im_sorted = [], im_added = {}\<rparr>)"

text \<open>The map of the slots, later slots winning, and its materialization, which frees the tables.\<close>

definition slot_map :: "u64 list \<Rightarrow> u64 \<rightharpoonup> nat" where
  "slot_map sids = foldl (\<lambda>m (slot, key). m(key \<mapsto> slot)) Map.empty (enumerate 0 sids)"

definition idmap_ids :: "idmap \<Rightarrow> idmap" where
  "idmap_ids m =
     (case im_map m of
        Some _ \<Rightarrow> m
      | None \<Rightarrow> m\<lparr>im_map := Some (slot_map (im_slots m)), im_sorted := [], im_added := {}\<rparr>)"

text \<open>What is already there: the map, or in the deferred window the two tables.\<close>

definition present :: "idmap \<Rightarrow> u64 \<Rightarrow> bool" where
  "present m key =
     (case im_map m of
        None \<Rightarrow> table_contains (im_sorted m) key \<or> key \<in> im_added m
      | Some f \<Rightarrow> f key \<noteq> None)"

fun check_ids :: "(u64 \<Rightarrow> bool) \<Rightarrow> u64 set \<Rightarrow> u64 list \<Rightarrow> add_error option" where
  "check_ids there seen [] = None"
| "check_ids there seen (key # rest) =
     (if there key then Some (AE_IdAlreadyPresent key)
      else if key \<in> seen then Some (AE_DuplicateIdInBatch key)
      else check_ids there (insert key seen) rest)"

text \<open>The tables after the inner add.\<close>

definition record_ids :: "nat \<Rightarrow> u64 list \<Rightarrow> idmap \<Rightarrow> idmap" where
  "record_ids base_slot new_ids m =
     (let m = (case im_map m of
                 None \<Rightarrow> m\<lparr>im_added := im_added m \<union> set new_ids\<rparr>
               | Some f \<Rightarrow> m\<lparr>im_map := Some (foldl (\<lambda>f (i, key). f(key \<mapsto> base_slot + i)) f (enumerate 0 new_ids))\<rparr>)
      in m\<lparr>im_slots := im_slots m @ new_ids\<rparr>)"

definition add_with_ids_2d :: "'r env \<Rightarrow> fault \<Rightarrow> idmap \<Rightarrow> f32 list \<Rightarrow> nat \<Rightarrow> u64 list \<Rightarrow> idmap \<times> (add_error + unit) outcome" where
  "add_with_ids_2d e ft m vectors dim new_ids =
     (if dim = 0 then (m, Returned (Inl AE_ZeroDim))
      else if length vectors mod dim \<noteq> 0 then (m, Returned (Inl (AE_VectorBufferNotMultipleOfDim (length vectors) dim)))
      else let n = length vectors div dim in
        if length new_ids \<noteq> n then (m, Returned (Inl (AE_IdsCountMismatch n (length new_ids))))
        else (case check_ids (present m) {} new_ids of
            Some err \<Rightarrow> (m, Returned (Inl err))
          | None \<Rightarrow>
              let base_slot = ix_n_vectors (im_inner m) in
              (case add_2d e ft (im_inner m) vectors dim of
                 (inner, Panicked) \<Rightarrow> (m\<lparr>im_inner := inner\<rparr>, Panicked)
               | (inner, Returned (Inl err)) \<Rightarrow> (m\<lparr>im_inner := inner\<rparr>, Returned (Inl err))
               | (inner, Returned (Inr _)) \<Rightarrow> (record_ids base_slot new_ids (m\<lparr>im_inner := inner\<rparr>), Returned (Inr ())))))"

definition add_with_ids :: "'r env \<Rightarrow> fault \<Rightarrow> idmap \<Rightarrow> f32 list \<Rightarrow> u64 list \<Rightarrow> idmap \<times> (add_error + unit) outcome" where
  "add_with_ids e ft m vectors new_ids =
     (case ix_dim (im_inner m) of None \<Rightarrow> (m, Panicked) | Some dim \<Rightarrow> add_with_ids_2d e ft m vectors dim new_ids)"

fun addable_scan :: "(u64 \<Rightarrow> bool) \<Rightarrow> u64 set \<Rightarrow> u64 list \<Rightarrow> bool" where
  "addable_scan there seen [] \<longleftrightarrow> True"
| "addable_scan there seen (key # rest) \<longleftrightarrow> key \<notin> seen \<and> \<not> there key \<and> addable_scan there (insert key seen) rest"

definition batch_addable :: "idmap \<Rightarrow> u64 list \<Rightarrow> bool" where
  "batch_addable m new_ids = addable_scan (present m) {} new_ids"

definition remove_id :: "'r env \<Rightarrow> idmap \<Rightarrow> u64 \<Rightarrow> idmap \<times> bool outcome" where
  "remove_id e m key =
     (let m = idmap_ids m; f = the (im_map m) in
      (case f key of
         None \<Rightarrow> (m, Returned False)
       | Some slot \<Rightarrow>
           let lst = length (im_slots m) - 1 in
           (case swap_remove e (im_inner m) slot of
              (inner, Panicked) \<Rightarrow> (m\<lparr>im_inner := inner\<rparr>, Panicked)
            | (inner, Returned _) \<Rightarrow>
                let f = f(key := None);
                    moved_id = im_slots m ! lst;
                    (sids, f) = (if slot \<noteq> lst then ((im_slots m)[slot := moved_id], f(moved_id \<mapsto> slot)) else (im_slots m, f))
                in (m\<lparr>im_inner := inner, im_slots := butlast sids, im_map := Some f\<rparr>, Returned True))))"

definition contains :: "idmap \<Rightarrow> u64 \<Rightarrow> idmap \<times> bool" where
  "contains m key = (let m = idmap_ids m in (m, the (im_map m) key \<noteq> None))"

definition iter_ids :: "idmap \<Rightarrow> u64 list" where "iter_ids m = im_slots m"

definition idmap_len :: "idmap \<Rightarrow> nat" where "idmap_len m = length (im_slots m)"

definition slots_ready :: "idmap \<Rightarrow> bool" where "slots_ready m \<longleftrightarrow> im_map m \<noteq> None"

definition idmap_prepare :: "'r env \<Rightarrow> idmap \<Rightarrow> idmap \<times> unit outcome" where
  "idmap_prepare e m =
     (case prepare e (im_inner m) of
        (inner, Panicked) \<Rightarrow> (m\<lparr>im_inner := inner\<rparr>, Panicked)
      | (inner, Returned _) \<Rightarrow> (idmap_ids (m\<lparr>im_inner := inner\<rparr>), Returned ()))"

definition idmap_calibrate_2d :: "'r env \<Rightarrow> calibrate_fault \<Rightarrow> idmap \<Rightarrow> f32 list \<Rightarrow> nat \<Rightarrow> idmap \<times> (calibrate_error + unit) outcome" where
  "idmap_calibrate_2d e ft m sample dim = (case calibrate_2d e ft (im_inner m) sample dim of (inner, out) \<Rightarrow> (m\<lparr>im_inner := inner\<rparr>, out))"

definition idmap_calibrate :: "'r env \<Rightarrow> calibrate_fault \<Rightarrow> idmap \<Rightarrow> f32 list \<Rightarrow> idmap \<times> (calibrate_error + unit) outcome" where
  "idmap_calibrate e ft m sample = (case calibrate e ft (im_inner m) sample of (inner, out) \<Rightarrow> (m\<lparr>im_inner := inner\<rparr>, out))"

section \<open>The allowlist of a search\<close>

datatype allow_error = AllowlistEmpty | UnknownId u64

fun set_allowed :: "(u64 \<rightharpoonup> nat) \<Rightarrow> u64 list \<Rightarrow> bool list \<Rightarrow> allow_error + bool list" where
  "set_allowed f [] allowed = Inr allowed"
| "set_allowed f (key # rest) allowed =
     (case f key of None \<Rightarrow> Inl (UnknownId key) | Some slot \<Rightarrow> set_allowed f rest (allowed[slot := True]))"

definition allow_mask :: "idmap \<Rightarrow> u64 list \<Rightarrow> idmap \<times> (allow_error + bool list)" where
  "allow_mask m allowlist =
     (if allowlist = [] then (m, Inl AllowlistEmpty)
      else let m = idmap_ids m
           in (m, set_allowed (the (im_map m)) allowlist (replicate (ix_n_vectors (im_inner m)) False)))"

text \<open>The slots a search returns, as ids; \<open>None\<close> is a slot out of bounds.\<close>

definition translate_slots :: "idmap \<Rightarrow> nat list \<Rightarrow> u64 list option" where
  "translate_slots m sids = those (map (get_at (im_slots m)) sids)"

section \<open>Files and images\<close>

datatype id_load_error = IL_Legacy | IL_Load load_error | IL_DuplicateIds

text \<open>\<open>windows(2).any(|w| w[0] == w[1])\<close>.\<close>

definition adjacent_equal :: "u64 list \<Rightarrow> bool" where
  "adjacent_equal xs = list_ex (\<lambda>(a, b). a = b) (zip xs (tl xs))"

definition loaded_idmap :: "index \<Rightarrow> u64 list \<Rightarrow> u64 list \<Rightarrow> idmap" where
  "loaded_idmap inner sids tbl = \<lparr>im_inner = inner, im_slots = sids, im_map = None, im_sorted = tbl, im_added = {}\<rparr>"

datatype from_ids_error = FI_Count nat nat | FI_DuplicateIds

definition from_index_and_ids :: "index \<Rightarrow> u64 list \<Rightarrow> from_ids_error + idmap" where
  "from_index_and_ids inner sids =
     (if length sids \<noteq> ix_n_vectors inner then Inl (FI_Count (length sids) (ix_n_vectors inner))
      else let tbl = sort sids
           in if adjacent_equal tbl then Inl FI_DuplicateIds else Inr (loaded_idmap inner sids tbl))"

text \<open>\<open>None\<close> is a panic of the codebook solver.\<close>

definition from_v7_load :: "'r env \<Rightarrow> v7_load \<Rightarrow> string option \<Rightarrow> (id_load_error + idmap) option" where
  "from_v7_load e l path =
     (let sids = vl_ids l in
      map_option (\<lambda>inner.
        let tbl = sort sids
        in if adjacent_equal tbl then Inl IL_DuplicateIds else Inr (loaded_idmap inner sids tbl))
        (from_v7 e (l\<lparr>vl_ids := []\<rparr>) path))"

definition idmap_load_v7 :: "'r env \<Rightarrow> bytes \<Rightarrow> string \<Rightarrow> (id_load_error + idmap) option" where
  "idmap_load_v7 e f path =
     (case load_file (env_numerics e) f 0 1 of
        Inl err \<Rightarrow> Some (Inl (IL_Load err))
      | Inr l \<Rightarrow> from_v7_load e l (if sc_nonce (vl_cursor l) \<noteq> UNCLAIMED_NONCE then Some path else None))"

definition idmap_load :: "'r env \<Rightarrow> bytes \<Rightarrow> string \<Rightarrow> (id_load_error + idmap) option" where
  "idmap_load e f path = (if is_v7 (Some f) then idmap_load_v7 e f path else Some (Inl IL_Legacy))"

definition idmap_from_bytes :: "'r env \<Rightarrow> bytes \<Rightarrow> (id_load_error + idmap) option" where
  "idmap_from_bytes e raw =
     (case load_image (env_numerics e) raw 0 1 of
        Inl err \<Rightarrow> Some (Inl (IL_Load err))
      | Inr l \<Rightarrow> from_v7_load e l None)"

definition idmap_sync :: "'r env \<Rightarrow> io_run \<Rightarrow> bytes option \<Rightarrow> idmap \<Rightarrow> string \<Rightarrow> idmap \<times> bytes option \<times> (sync_error + unit) outcome" where
  "idmap_sync e io file m path =
     (case sync_v7_impl e io file (im_inner m) path 1 (Some (im_slots m)) of
        (inner, file', out) \<Rightarrow> (m\<lparr>im_inner := inner\<rparr>, file', out))"

definition idmap_write :: "'r env \<Rightarrow> idmap \<Rightarrow> idmap \<times> bytes outcome" where
  "idmap_write e m =
     (case with_sync_source e (im_inner m) 1 (Some (im_slots m)) 8 write_snapshot of (inner, out) \<Rightarrow> (m\<lparr>im_inner := inner\<rparr>, out))"

definition idmap_write_to_writer :: "'r env \<Rightarrow> idmap \<Rightarrow> idmap \<times> bytes outcome" where
  "idmap_write_to_writer e m =
     (case with_sync_source e (im_inner m) 1 (Some (im_slots m)) 8 stream_image of (inner, out) \<Rightarrow> (m\<lparr>im_inner := inner\<rparr>, out))"

definition idmap_to_bytes :: "'r env \<Rightarrow> idmap \<Rightarrow> idmap \<times> bytes outcome" where
  "idmap_to_bytes e m = (case v7_image e (im_inner m) 1 (Some (im_slots m)) of (inner, out) \<Rightarrow> (m\<lparr>im_inner := inner\<rparr>, out))"

definition idmap_image_in_version :: "'r env \<Rightarrow> idmap \<Rightarrow> u8 \<Rightarrow> idmap \<times> bytes outcome" where
  "idmap_image_in_version e m version =
     (case image_in_version e (im_inner m) 1 (Some (im_slots m)) version of (inner, out) \<Rightarrow> (m\<lparr>im_inner := inner\<rparr>, out))"

end
