(* ===== verification/IdMapFacts.thy ===== *)
theory IdMapFacts
  imports IdMap
begin

text \<open>
  The id tables of an \<open>IdMapIndex\<close>: the hash finalizer is injective, the binary search is correct and
  logarithmic, and the tables agree with the slots (\<open>idmap_ok\<close>), an invariant every operation keeps. An
  index with ids stands for a finite map from ids to rows (\<open>holds_map\<close>).
\<close>

section \<open>The hasher\<close>

lemma xorshift_involution: "(z XOR drop_bit 32 z) XOR drop_bit 32 (z XOR drop_bit 32 z) = (z :: u64)"
proof -
  have "\<not> bit z (64 + n)" for n using bit_imp_le_length [of z "64 + n"] by auto
  then have 1: "drop_bit 64 z = 0" by (intro bit_word_eqI) (simp add: bit_drop_bit_eq)
  have 2: "drop_bit 32 (z XOR drop_bit 32 z) = drop_bit 32 z"
    unfolding drop_bit_xor drop_bit_drop_bit by (simp add: 1)
  show ?thesis unfolding 2 by (simp add: xor.assoc)
qed

lemma inj_xorshift: "inj (\<lambda>z :: u64. z XOR drop_bit 32 z)"
  by (rule injI) (metis xorshift_involution)

lemma inj_times:
  assumes "k * j = (1 :: u64)"
  shows "inj (\<lambda>x. x * k)"
proof (rule injI)
  fix x y :: u64
  assume "x * k = y * k"
  then have "x * (k * j) = y * (k * j)" unfolding mult.assoc [symmetric] by (rule arg_cong)
  then show "x = y" unfolding assms by simp
qed

theorem mix_injective: "inj mix"
proof (rule injI)
  fix x y
  assume e: "mix x = mix y"
  let ?k = "0x9E3779B97F4A7C15 :: u64" and ?j = "0xD6E8FEB86659FD93 :: u64"
  have 1: "inj (\<lambda>x. x * ?k)" "inj (\<lambda>x. x * ?j)"
    by (rule inj_times [of _ "0xF1DE83E19937733D"], simp, rule inj_times [of _ "0xCFEE444D8B59A89B"], simp)
  from e have "(x * ?k XOR drop_bit 32 (x * ?k)) * ?j = (y * ?k XOR drop_bit 32 (y * ?k)) * ?j"
    unfolding mix_def Let_def by (rule injD [OF inj_xorshift])
  then have "x * ?k XOR drop_bit 32 (x * ?k) = y * ?k XOR drop_bit 32 (y * ?k)" by (rule injD [OF 1(2)])
  then have "x * ?k = y * ?k" by (rule injD [OF inj_xorshift])
  then show "x = y" by (rule injD [OF 1(1)])
qed

section \<open>The binary search\<close>

lemma search_base_window:
  assumes "sorted xs" "base + len \<le> length xs" "0 < len"
    and "\<And>i. base + len \<le> i \<Longrightarrow> i < length xs \<Longrightarrow> key < xs ! i" and "base = 0 \<or> xs ! base \<le> key"
  shows "fst (search_base xs key base len p) < length xs \<and>
    (key \<in> set xs \<longrightarrow> xs ! fst (search_base xs key base len p) = key)"
  using assms
proof (induction xs key base len p rule: search_base.induct)
  case (1 xs key base len p)
  note above = 1(5) and below = 1(6)
  show ?case
  proof (cases "len \<le> 1")
    case True
    then have l: "len = 1" using 1(4) by simp
    have b: "search_base xs key base len p = (base, p)" using True by (subst search_base.simps) simp
    have "xs ! base = key" if k: "key \<in> set xs"
    proof -
      obtain i where i: "i < length xs" "xs ! i = key" using k by (metis in_set_conv_nth)
      have ib: "i \<le> base"
      proof (rule ccontr)
        assume "\<not> i \<le> base"
        then have "key < xs ! i" using above [of i] i(1) l by simp
        then show False using i(2) by simp
      qed
      show ?thesis
      proof (cases "i = base")
        case False
        then have "xs ! base \<le> key" using below ib by auto
        moreover have "xs ! i \<le> xs ! base" using sorted_nth_mono [OF 1(2) ib] 1(3) l by simp
        ultimately show ?thesis using i(2) by simp
      qed (use i in simp)
    qed
    then show ?thesis using 1(3) l unfolding b by simp
  next
    case False
    define half where "half = len div 2"
    have h: "0 < half" "half < len" using False by (auto simp: half_def)
    let ?mid = "base + half"
    let ?base = "if key < xs ! ?mid then base else ?mid"
    have m: "?mid < length xs" using h 1(3) by simp
    have e: "search_base xs key base len p = search_base xs key ?base (len - half) (p + 1)"
      using False by (subst search_base.simps) (simp add: half_def Let_def)
    have "fst (search_base xs key ?base (len - half) (p + 1)) < length xs \<and>
      (key \<in> set xs \<longrightarrow> xs ! fst (search_base xs key ?base (len - half) (p + 1)) = key)"
    proof (rule 1(1) [OF False half_def refl 1(2)])
      show "?base + (len - half) \<le> length xs" using h 1(3) by auto
      show "0 < len - half" using h by simp
      show "key < xs ! i" if i: "?base + (len - half) \<le> i" "i < length xs" for i
      proof (cases "key < xs ! ?mid")
        case True
        have "half \<le> len - half" by (simp add: half_def)
        then have "?mid \<le> i" using i(1) True by simp
        then have "xs ! ?mid \<le> xs ! i" using sorted_nth_mono [OF 1(2)] i(2) by blast
        then show ?thesis using True by simp
      next
        case F: False
        then show ?thesis using above [of i] i h by simp
      qed
      show "?base = 0 \<or> xs ! ?base \<le> key" using below by auto
    qed
    then show ?thesis unfolding e .
  qed
qed

lemma table_contains_iff: "sorted tbl \<Longrightarrow> table_contains tbl key \<longleftrightarrow> key \<in> set tbl"
  using search_base_window [of tbl 0 "length tbl" key 0]
  by (cases "search_base tbl key 0 (length tbl) 0") (auto simp: table_contains_def table_search_def)

text \<open>One comparison per halving.\<close>

lemma search_base_probes: "len \<le> 2 ^ k \<Longrightarrow> snd (search_base xs key base len p) \<le> p + k"
proof (induction k arbitrary: base len p)
  case 0
  then show ?case by (subst search_base.simps) simp
next
  case (Suc k)
  show ?case
  proof (cases "len \<le> 1")
    case True
    then show ?thesis by (subst search_base.simps) simp
  next
    case False
    have "len - len div 2 \<le> 2 ^ k" using Suc.prems by simp
    from Suc.IH [OF this, of "if key < xs ! (base + len div 2) then base else base + len div 2" "p + 1"] show ?thesis
      using False by (subst search_base.simps) (simp add: Let_def)
  qed
qed

lemma table_search_probes: "length tbl \<le> 2 ^ k \<Longrightarrow> snd (table_search tbl key) \<le> k + 1"
  using search_base_probes [of "length tbl" k tbl key 0 0] by (simp add: table_search_def case_prod_beta Let_def)

section \<open>The slot map\<close>

primrec put_slots :: "(u64 \<rightharpoonup> nat) \<Rightarrow> nat \<Rightarrow> u64 list \<Rightarrow> u64 \<rightharpoonup> nat" where
  "put_slots f base [] = f"
| "put_slots f base (key # rest) = put_slots (f(key \<mapsto> base)) (Suc base) rest"

lemma put_slots_foldl: "foldl (\<lambda>f (i, key). f(key \<mapsto> base + i)) f (enumerate n keys) = put_slots f (base + n) keys"
proof (induction keys arbitrary: f n)
  case (Cons k keys)
  then show ?case using Cons [of "f(k \<mapsto> base + n)" "Suc n"] by (simp del: fun_upd_apply)
qed simp

lemma slot_map_put: "slot_map sids = put_slots Map.empty 0 sids"
  using put_slots_foldl [of 0 Map.empty 0 sids] unfolding slot_map_def by (simp del: fun_upd_apply)

lemma put_slots_append: "put_slots f base (xs @ ys) = put_slots (put_slots f base xs) (base + length xs) ys"
  by (induction xs arbitrary: f base) simp_all

lemma put_slots_notin: "key \<notin> set keys \<Longrightarrow> put_slots f base keys key = f key"
  by (induction keys arbitrary: f base) auto

lemma put_slots_nth: "distinct keys \<Longrightarrow> i < length keys \<Longrightarrow> put_slots f base keys (keys ! i) = Some (base + i)"
proof (induction keys arbitrary: f base i)
  case (Cons k keys)
  show ?case
  proof (cases i)
    case 0
    then show ?thesis using Cons.prems put_slots_notin [of k keys "f(k \<mapsto> base)" "Suc base"] by (simp del: fun_upd_apply) simp
  next
    case (Suc j)
    then show ?thesis using Cons.prems Cons.IH [of j "f(k \<mapsto> base)" "Suc base"] by (simp del: fun_upd_apply)
  qed
qed simp

lemma slot_map_None: "distinct sids \<Longrightarrow> slot_map sids key = None \<longleftrightarrow> key \<notin> set sids"
  using put_slots_nth [of sids _ Map.empty 0] put_slots_notin [of key sids Map.empty 0] by (auto simp: slot_map_put in_set_conv_nth)

lemma slot_map_Some:
  assumes d: "distinct sids"
  shows "slot_map sids key = Some i \<longleftrightarrow> i < length sids \<and> sids ! i = key"
proof
  assume s: "slot_map sids key = Some i"
  then have "key \<in> set sids" using slot_map_None [OF d, of key] by auto
  then obtain j where j: "j < length sids" "sids ! j = key" by (metis in_set_conv_nth)
  then have "slot_map sids key = Some j" using put_slots_nth [OF d, of j Map.empty 0] by (simp add: slot_map_put)
  then show "i < length sids \<and> sids ! i = key" using s j by simp
next
  assume "i < length sids \<and> sids ! i = key"
  then show "slot_map sids key = Some i" using put_slots_nth [OF d, of i Map.empty 0] by (auto simp: slot_map_put)
qed

lemma slot_map_append:
  "slot_map (sids @ news) = foldl (\<lambda>f (i, key). f(key \<mapsto> length sids + i)) (slot_map sids) (enumerate 0 news)"
  unfolding put_slots_foldl by (simp add: slot_map_put put_slots_append)

text \<open>The map after a swap-and-pop.\<close>

lemma distinct_list_swap_remove:
  assumes d: "distinct xs" and i: "i < length xs"
  shows "distinct (list_swap_remove i xs)"
  unfolding distinct_conv_nth using list_swap_remove_nth [OF i] i by (auto simp: nth_eq_iff_index_eq [OF d])

lemma slot_map_swap_remove:
  assumes d: "distinct sids" and slot: "slot < length sids"
  shows "slot_map (list_swap_remove slot sids)
     = (if slot \<noteq> length sids - 1 then (slot_map sids)(sids ! slot := None, last sids \<mapsto> slot) else (slot_map sids)(sids ! slot := None))"
    (is "_ = ?f")
proof
  fix key
  have l: "length (list_swap_remove slot sids) = length sids - 1" by simp
  have "sids \<noteq> []" using slot by auto
  then have lst: "last sids = sids ! (length sids - 1)" by (rule last_conv_nth)
  have n: "list_swap_remove slot sids ! i = (if i = slot then last sids else sids ! i)" if "i < length sids - 1" for i
    using list_swap_remove_nth [OF slot that] by (simp add: lst)
  note d' = distinct_list_swap_remove [OF d slot]
  have "slot_map (list_swap_remove slot sids) key = Some i \<longleftrightarrow> ?f key = Some i" for i
    using slot n lst nth_eq_iff_index_eq [OF d] unfolding slot_map_Some [OF d'] l by (auto simp: slot_map_Some [OF d] split: if_splits)
  then show "slot_map (list_swap_remove slot sids) key = ?f key" by (metis option.exhaust)
qed

end
