(* ===== verification/IdMapRows.thy ===== *)
theory IdMapRows
  imports IdMapFacts
begin

text \<open>
  The invariant of an \<open>IdMapIndex\<close> (\<open>idmap_ok\<close>: the ids are distinct, one per row, and whichever tables are
  in use agree with them) and the finite map from ids to rows it stands for (\<open>id_rows\<close>): an add extends
  the map or changes nothing, a removal deletes one entry.
\<close>

section \<open>The check of a batch\<close>

lemma check_ids_None: "check_ids there seen ids = None \<longleftrightarrow> distinct ids \<and> (\<forall>k \<in> set ids. k \<notin> seen \<and> \<not> there k)"
  by (induction there seen ids rule: check_ids.induct) auto

lemma addable_scan_check: "addable_scan there seen ids \<longleftrightarrow> check_ids there seen ids = None"
  by (induction there seen ids rule: addable_scan.induct) auto

text \<open>The error names the first offending id.\<close>

lemma check_ids_Some:
  "check_ids there seen ids = Some err \<Longrightarrow>
     \<exists>pre k post. ids = pre @ k # post \<and> distinct pre \<and> (\<forall>p \<in> set pre. p \<notin> seen \<and> \<not> there p) \<and>
       (there k \<and> err = AE_IdAlreadyPresent k \<or> \<not> there k \<and> k \<in> seen \<union> set pre \<and> err = AE_DuplicateIdInBatch k)"
proof (induction there seen ids rule: check_ids.induct)
  case (2 there seen key rest)
  show ?case
  proof (cases "there key \<or> key \<in> seen")
    case True
    then show ?thesis using 2(2) by (intro exI [of _ "[]"]) (auto split: if_splits)
  next
    case False
    then obtain pre k post where p: "rest = pre @ k # post" "distinct pre" "\<forall>p \<in> set pre. p \<notin> insert key seen \<and> \<not> there p"
      "there k \<and> err = AE_IdAlreadyPresent k \<or> \<not> there k \<and> k \<in> insert key seen \<union> set pre \<and> err = AE_DuplicateIdInBatch k"
      using 2 by auto
    then show ?thesis using False by (intro exI [of _ "key # pre"] exI [of _ k] exI [of _ post]) auto
  qed
qed simp

section \<open>The tables\<close>

text \<open>What an add asks of whichever tables are in use: to answer membership, and to take up a batch. The
  tables of the deferred window and the slot map both provide it.\<close>

locale id_table =
  fixes member :: "'t \<Rightarrow> u64 \<Rightarrow> bool" and extend :: "'t \<Rightarrow> u64 list \<Rightarrow> 't" and holds :: "'t \<Rightarrow> u64 set \<Rightarrow> bool"
  assumes member_holds: "holds t A \<Longrightarrow> member t key \<longleftrightarrow> key \<in> A"
    and extend_holds: "holds t A \<Longrightarrow> holds (extend t keys) (A \<union> set keys)"
begin

lemma batch_accepted: "holds t A \<Longrightarrow> check_ids (member t) {} keys = None \<longleftrightarrow> distinct keys \<and> set keys \<inter> A = {}"
  by (auto simp: check_ids_None member_holds)

lemma next_batch_accepted:
  "holds t A \<Longrightarrow> check_ids (member (extend t keys)) {} later = None \<longleftrightarrow> distinct later \<and> set later \<inter> (A \<union> set keys) = {}"
  by (rule batch_accepted) (rule extend_holds)

end

lemma dom_put_slots: "dom (put_slots f base keys) = dom f \<union> set keys"
  by (induction keys arbitrary: f base) auto

interpretation deferred: id_table "\<lambda>(tbl, added) key. table_contains tbl key \<or> key \<in> added" "\<lambda>(tbl, added) keys. (tbl, added \<union> set keys)"
    "\<lambda>(tbl, added) A. sorted tbl \<and> set tbl \<union> added = A"
  by unfold_locales (auto simp: table_contains_iff)

interpretation mapped: id_table "\<lambda>f key. f key \<noteq> None" "\<lambda>f keys. put_slots f base keys" "\<lambda>f A. dom f = A" for base
  by unfold_locales (auto simp: dom_put_slots)

section \<open>The invariant\<close>

definition idmap_ok :: "idmap \<Rightarrow> bool" where
  "idmap_ok m \<longleftrightarrow> distinct (im_slots m) \<and> length (im_slots m) = ix_n_vectors (im_inner m) \<and>
     (case im_map m of
        Some f \<Rightarrow> f = slot_map (im_slots m)
      | None \<Rightarrow> sorted (im_sorted m) \<and> set (im_sorted m) \<union> im_added m = set (im_slots m))"

lemma idmap_ok_inner: "idmap_ok m \<Longrightarrow> ix_n_vectors inner = ix_n_vectors (im_inner m) \<Longrightarrow> idmap_ok (m\<lparr>im_inner := inner\<rparr>)"
  by (auto simp: idmap_ok_def split: option.splits)

lemma idmap_ids_same [simp]: "im_inner (idmap_ids m) = im_inner m" "im_slots (idmap_ids m) = im_slots m"
  by (simp_all add: idmap_ids_def split: option.split)

lemma idmap_ids_ok: "idmap_ok m \<Longrightarrow> idmap_ok (idmap_ids m)"
  by (auto simp: idmap_ok_def idmap_ids_def split: option.splits)

lemma idmap_ids_map: "idmap_ok m \<Longrightarrow> im_map (idmap_ids m) = Some (slot_map (im_slots m))"
  by (auto simp: idmap_ok_def idmap_ids_def split: option.splits)

text \<open>Whichever tables are in use, they hold the ids of the slots.\<close>

lemma tables_hold:
  assumes "idmap_ok m"
  shows "im_map m = None \<Longrightarrow> sorted (im_sorted m) \<and> set (im_sorted m) \<union> im_added m = set (im_slots m)"
    and "im_map m = Some f \<Longrightarrow> dom f = set (im_slots m)"
  using assms dom_put_slots [of Map.empty 0 "im_slots m"] by (auto simp: idmap_ok_def slot_map_put split: option.splits)

lemma present_iff:
  assumes "idmap_ok m"
  shows "present m key \<longleftrightarrow> key \<in> set (im_slots m)"
proof (cases "im_map m")
  case None
  then show ?thesis
    using deferred.member_holds [of "(im_sorted m, im_added m)" "set (im_slots m)" key] tables_hold(1) [OF assms None] by (simp add: present_def)
next
  case (Some f)
  then show ?thesis using mapped.member_holds [OF tables_hold(2) [OF assms Some], of key] by (simp add: present_def)
qed

lemma contains_iff: "idmap_ok m \<Longrightarrow> contains m key = (idmap_ids m, key \<in> set (im_slots m))"
  using slot_map_None [of "im_slots m" key] idmap_ids_map [of m] by (simp add: contains_def Let_def idmap_ok_def del: not_None_eq)

section \<open>The map from ids to rows\<close>

definition id_rows :: "idmap \<Rightarrow> row list \<Rightarrow> u64 \<rightharpoonup> row" where
  "id_rows m rows = map_of (zip (im_slots m) rows)"

lemma map_of_zip_Some:
  "distinct xs \<Longrightarrow> length xs = length ys \<Longrightarrow> map_of (zip xs ys) k = Some v \<longleftrightarrow> (\<exists>i < length xs. xs ! i = k \<and> ys ! i = v)"
  by (auto simp: map_of_eq_Some_iff in_set_zip)

lemma dom_id_rows: "length (im_slots m) = length rows \<Longrightarrow> dom (id_rows m rows) = set (im_slots m)"
  by (simp add: id_rows_def)

lemma map_of_zip_append:
  assumes "distinct (xs @ ys)" "length xs = length a" "length ys = length b"
  shows "map_of (zip (xs @ ys) (a @ b)) = map_of (zip xs a) ++ map_of (zip ys b)"
proof -
  have "dom (map_of (zip ys b)) \<inter> dom (map_of (zip xs a)) = {}" using assms by auto
  from map_add_comm [OF this] show ?thesis using assms(2,3) by (simp add: map_of_append)
qed

lemma map_of_zip_swap_remove:
  assumes d: "distinct xs" and l: "length xs = length ys" and i: "i < length xs"
  shows "map_of (zip (list_swap_remove i xs) (list_swap_remove i ys)) = (map_of (zip xs ys))(xs ! i := None)"
proof
  fix k
  have n: "list_swap_remove i zs ! v = zs ! (if v = i then length xs - 1 else v)" if "v < length xs - 1" "length zs = length xs" for v and zs :: "'c list"
    using list_swap_remove_nth [of i zs v] i that by simp
  note d' = distinct_list_swap_remove [OF d i]
  have "map_of (zip (list_swap_remove i xs) (list_swap_remove i ys)) k = Some v \<longleftrightarrow> ((map_of (zip xs ys))(xs ! i := None)) k = Some v" for v
  proof
    assume "map_of (zip (list_swap_remove i xs) (list_swap_remove i ys)) k = Some v"
    then obtain j where j: "j < length xs - 1" "list_swap_remove i xs ! j = k" "list_swap_remove i ys ! j = v"
      using map_of_zip_Some [OF d', of "list_swap_remove i ys" k v] l by auto
    define t where "t = (if j = i then length xs - 1 else j)"
    have t: "t < length xs" "t \<noteq> i" using j(1) i by (auto simp: t_def)
    have "xs ! t = k" "ys ! t = v" using j n [OF j(1), of xs] n [OF j(1), of ys] l by (simp_all add: t_def)
    moreover have "xs ! t \<noteq> xs ! i" using nth_eq_iff_index_eq [OF d t(1) i] t(2) by simp
    ultimately show "((map_of (zip xs ys))(xs ! i := None)) k = Some v" using map_of_zip_Some [OF d l, of k v] t(1) by auto
  next
    assume "((map_of (zip xs ys))(xs ! i := None)) k = Some v"
    then obtain j where j: "j < length xs" "xs ! j = k" "ys ! j = v" "j \<noteq> i"
      using map_of_zip_Some [OF d l, of k v] by (auto split: if_splits)
    define t where "t = (if j = length xs - 1 then i else j)"
    have t: "t < length xs - 1" "(if t = i then length xs - 1 else t) = j" using j i by (auto simp: t_def)
    have "list_swap_remove i xs ! t = k" "list_swap_remove i ys ! t = v" using n [OF t(1), of xs] n [OF t(1), of ys] l j(2,3) unfolding t(2) by simp_all
    then show "map_of (zip (list_swap_remove i xs) (list_swap_remove i ys)) k = Some v"
      using map_of_zip_Some [OF d', of "list_swap_remove i ys" k v] l t(1) by auto
  qed
  then show "map_of (zip (list_swap_remove i xs) (list_swap_remove i ys)) k = ((map_of (zip xs ys))(xs ! i := None)) k"
    by (metis option.exhaust)
qed

section \<open>Adds\<close>

lemma record_ids_same [simp]:
  "im_inner (record_ids b news m) = im_inner m" "im_slots (record_ids b news m) = im_slots m @ news"
  by (simp_all add: record_ids_def Let_def split: option.split)

lemma record_ids_ok:
  assumes ok: "idmap_ok m" and new: "distinct news" "set news \<inter> set (im_slots m) = {}"
    and n: "ix_n_vectors inner = ix_n_vectors (im_inner m) + length news"
  shows "idmap_ok (record_ids (ix_n_vectors (im_inner m)) news (m\<lparr>im_inner := inner\<rparr>))"
proof (cases "im_map m")
  case None
  then show ?thesis using assms by (auto simp: idmap_ok_def record_ids_def Let_def)
next
  case (Some f)
  then have "f = slot_map (im_slots m)" "length (im_slots m) = ix_n_vectors (im_inner m)" using ok by (simp_all add: idmap_ok_def)
  then show ?thesis using assms Some slot_map_append [of "im_slots m" news] by (auto simp: idmap_ok_def record_ids_def Let_def)
qed

lemma add_with_ids_cases:
  assumes "add_with_ids_2d e ft m vectors dim news = (m', out)"
  obtains (refused) err where "m' = m" "out = Returned (Inl err)"
  | (added) inner where "length news = length vectors div dim" "dim \<noteq> 0" "length vectors mod dim = 0" "check_ids (present m) {} news = None"
      "add_2d e ft (im_inner m) vectors dim = (inner, Returned (Inr ()))" "out = Returned (Inr ())"
      "m' = record_ids (ix_n_vectors (im_inner m)) news (m\<lparr>im_inner := inner\<rparr>)"
  | (inner) inner o1 where "add_2d e ft (im_inner m) vectors dim = (inner, o1)" "o1 \<noteq> Returned (Inr ())" "out = o1"
      "m' = m\<lparr>im_inner := inner\<rparr>" "check_ids (present m) {} news = None" "dim \<noteq> 0" "length vectors mod dim = 0"
proof -
  consider (bad) "dim = 0 \<or> length vectors mod dim \<noteq> 0 \<or> length news \<noteq> length vectors div dim \<or> check_ids (present m) {} news \<noteq> None"
    | (good) "dim \<noteq> 0" "length vectors mod dim = 0" "length news = length vectors div dim" "check_ids (present m) {} news = None" by blast
  then show thesis
  proof cases
    case bad
    then show thesis using assms refused by (auto simp: add_with_ids_2d_def Let_def split: if_splits)
  next
    case good
    obtain x o1 where a: "add_2d e ft (im_inner m) vectors dim = (x, o1)" by force
    have run: "(case o1 of Panicked \<Rightarrow> (m\<lparr>im_inner := x\<rparr>, Panicked) | Returned (Inl err) \<Rightarrow> (m\<lparr>im_inner := x\<rparr>, Returned (Inl err))
        | Returned (Inr u) \<Rightarrow> (record_ids (ix_n_vectors (im_inner m)) news (m\<lparr>im_inner := x\<rparr>), Returned (Inr ()))) = (m', out)"
      using assms good by (simp add: add_with_ids_2d_def Let_def a)
    show thesis
    proof (cases "o1 = Returned (Inr ())")
      case True
      then show thesis using added [OF good(3,1,2,4)] a run by simp
    next
      case False
      then have "m' = m\<lparr>im_inner := x\<rparr>" "out = o1" using run by (auto split: outcome.splits sum.splits)
      then show thesis using inner [OF a False] good by blast
    qed
  qed
qed

lemma check_present:
  assumes "idmap_ok m"
  shows "check_ids (present m) {} news = None \<longleftrightarrow> distinct news \<and> set news \<inter> set (im_slots m) = {}"
proof (cases "im_map m")
  case None
  have "present m = (\<lambda>key. table_contains (im_sorted m) key \<or> key \<in> im_added m)" by (rule ext) (simp add: present_def None)
  then show ?thesis
    using deferred.batch_accepted [of "(im_sorted m, im_added m)" "set (im_slots m)" news] tables_hold(1) [OF assms None] by simp
next
  case (Some f)
  have "present m = (\<lambda>key. f key \<noteq> None)" by (rule ext) (simp add: present_def Some)
  then show ?thesis using mapped.batch_accepted [OF tables_hold(2) [OF assms Some], of news] by simp
qed

theorem add_ids_represents:
  assumes ok: "idmap_ok m" and rep: "represents e (im_inner m) rows" and c: "index_coder e (im_inner m) dim = Some c" "wf_coder (e_fo e) c"
    and run: "add_with_ids_2d e ft m vectors dim news = (m', out)"
  shows "case out of
      Returned (Inr _) \<Rightarrow> distinct news \<and> set news \<inter> set (im_slots m) = {} \<and> length news = length vectors div dim \<and>
        input_ok vectors \<and> idmap_ok m' \<and> im_slots m' = im_slots m @ news \<and> (vectors \<noteq> [] \<longrightarrow> ix_dim (im_inner m') = Some dim) \<and>
        represents e (im_inner m') (rows @ map (encode_row (e_fo e) c) (rows_of dim (length vectors div dim) vectors))
    | Returned (Inl err) \<Rightarrow> m' = m
    | Panicked \<Rightarrow> represents e (im_inner m') rows \<and> ix_dim (im_inner m') = ix_dim (im_inner m) \<and> idmap_ok m' \<and>
        im_slots m' = im_slots m \<and> ft \<noteq> no_fault"
  using run
proof (cases rule: add_with_ids_cases)
  case (added x)
  note a = add_2d_represents [OF rep added(5) c]
  have n: "ix_n_vectors x = ix_n_vectors (im_inner m) + length news" using a representsD(1) [OF rep] added(1)
    by (auto simp: rows_of_def dest!: representsD(1))
  have new: "distinct news" "set news \<inter> set (im_slots m) = {}" using check_present [OF ok] added(4) by blast+
  from record_ids_ok [OF ok new n] show ?thesis using a added(1,6,7) new by simp
next
  case (inner x o1)
  note a = add_2d_represents [OF rep inner(1) c]
  show ?thesis
  proof (cases o1)
    case Panicked
    then have r: "represents e x rows" "ix_dim x = ix_dim (im_inner m)" "ft \<noteq> no_fault" using a inner(7) by simp_all
    then have "idmap_ok (m\<lparr>im_inner := x\<rparr>)" using idmap_ok_inner [OF ok] representsD(1) [OF rep] representsD(1) [OF r(1)] by simp
    then show ?thesis using r inner(3,4) Panicked by simp
  next
    case (Returned r)
    then obtain err where "r = Inl err" using inner(2) by (cases r) simp_all
    then show ?thesis using a inner(3,4) Returned by simp
  qed
qed simp

section \<open>Removals\<close>

theorem remove_id_represents:
  assumes ok: "idmap_ok m" and rep: "represents e (im_inner m) rows" and cap: "capture_ok (im_inner m) rows"
  shows "case slot_map (im_slots m) key of
      None \<Rightarrow> remove_id e m key = (idmap_ids m, Returned False)
    | Some slot \<Rightarrow> \<exists>m'. remove_id e m key = (m', Returned True) \<and> slot < length rows \<and> im_slots m ! slot = key \<and> idmap_ok m' \<and>
        im_slots m' = list_swap_remove slot (im_slots m) \<and> swap_remove e (im_inner m) slot = (im_inner m', Returned (length rows - 1)) \<and>
        represents e (im_inner m') (list_swap_remove slot rows) \<and> capture_ok (im_inner m') (list_swap_remove slot rows) \<and>
        removed_elsewhere (im_inner m) slot (im_inner m')"
proof -
  have d: "distinct (im_slots m)" and l: "length (im_slots m) = length rows" using ok representsD(1) [OF rep] by (simp_all add: idmap_ok_def)
  note f = idmap_ids_map [OF ok]
  show ?thesis
  proof (cases "slot_map (im_slots m) key")
    case None
    then show ?thesis by (simp add: remove_id_def Let_def f)
  next
    case (Some slot)
    then have s: "slot < length (im_slots m)" "im_slots m ! slot = key" using slot_map_Some [OF d] by auto
    have ne: "im_slots m \<noteq> []" using s(1) by auto
    have lst: "im_slots m ! (length rows - 1) = last (im_slots m)" using last_conv_nth [OF ne] l by simp
    obtain x where x: "swap_remove e (im_inner m) slot = (x, Returned (length rows - 1))" "represents e x (list_swap_remove slot rows)"
      "capture_ok x (list_swap_remove slot rows)" "removed_elsewhere (im_inner m) slot x"
      using swap_remove_represents [OF rep cap, of slot] s(1) l by auto
    let ?m = "(idmap_ids m)\<lparr>im_inner := x, im_slots := list_swap_remove slot (im_slots m), im_map := Some (slot_map (list_swap_remove slot (im_slots m)))\<rparr>"
    have b: "list_swap_remove slot (im_slots m) = butlast (im_slots m)" if "slot = length rows - 1"
      using that l ne by (simp add: list_swap_remove_def list_update_id flip: lst)
    have "remove_id e m key = (?m, Returned True)"
    proof (cases "slot = length rows - 1")
      case True
      then show ?thesis
        using slot_map_swap_remove [OF d s(1)] l b
        unfolding remove_id_def Let_def f idmap_ids_same option.sel Some option.case x(1) prod.case outcome.case
        unfolding s(2) by simp
    next
      case False
      then show ?thesis
        using slot_map_swap_remove [OF d s(1)] l
        unfolding remove_id_def Let_def f idmap_ids_same option.sel Some option.case x(1) prod.case outcome.case
        by (simp add: s(2) lst [unfolded One_nat_def] list_swap_remove_def)
    qed
    moreover have "idmap_ok ?m"
      using distinct_list_swap_remove [OF d s(1)] representsD(1) [OF x(2)] l by (simp add: idmap_ok_def)
    ultimately show ?thesis using Some s x l by auto
  qed
qed

section \<open>The allowlist\<close>

lemma set_allowed_ok:
  "set_allowed f ks a = (case find (\<lambda>k. f k = None) ks of
       Some k \<Rightarrow> Inl (UnknownId k)
     | None \<Rightarrow> Inr (map (\<lambda>i. a ! i \<or> Some i \<in> f ` set ks) [0..<length a]))"
proof (induction f ks a rule: set_allowed.induct)
  case (1 f a)
  then show ?case by (simp add: map_nth)
next
  case (2 f key rest a)
  show ?case
  proof (cases "f key")
    case None
    then show ?thesis by simp
  next
    case (Some slot)
    have "a[slot := True] ! i = (a ! i \<or> i = slot)" if "i < length a" for i
      using that by (cases "i = slot") simp_all
    then have "map (\<lambda>i. a[slot := True] ! i \<or> Some i \<in> f ` set rest) [0..<length a] = map (\<lambda>i. a ! i \<or> Some i \<in> f ` set (key # rest)) [0..<length a]"
      using Some by auto
    then show ?thesis using 2 [OF Some] Some by (simp split: option.split)
  qed
qed

lemma allow_mask_ok:
  assumes ok: "idmap_ok m" and ne: "ids \<noteq> []"
  shows "snd (allow_mask m ids) = (case find (\<lambda>k. k \<notin> set (im_slots m)) ids of
      Some k \<Rightarrow> Inl (UnknownId k)
    | None \<Rightarrow> Inr (map (\<lambda>key. key \<in> set ids) (im_slots m)))"
proof -
  have d: "distinct (im_slots m)" and l: "length (im_slots m) = ix_n_vectors (im_inner m)" using ok by (simp_all add: idmap_ok_def)
  have n: "(\<lambda>k. slot_map (im_slots m) k = None) = (\<lambda>k. k \<notin> set (im_slots m))" by (simp add: fun_eq_iff slot_map_None [OF d])
  have at: "Some i \<in> slot_map (im_slots m) ` set ids \<longleftrightarrow> im_slots m ! i \<in> set ids" if i: "i < length (im_slots m)" for i
  proof
    assume "Some i \<in> slot_map (im_slots m) ` set ids"
    then obtain k where "k \<in> set ids" "slot_map (im_slots m) k = Some i" by auto
    then show "im_slots m ! i \<in> set ids" using slot_map_Some [OF d, of k i] by auto
  next
    assume "im_slots m ! i \<in> set ids"
    moreover have "slot_map (im_slots m) (im_slots m ! i) = Some i" using slot_map_Some [OF d] i by blast
    ultimately show "Some i \<in> slot_map (im_slots m) ` set ids" by (metis imageI)
  qed
  have a: "map (\<lambda>i. replicate (length (im_slots m)) False ! i \<or> Some i \<in> slot_map (im_slots m) ` set ids) [0..<length (im_slots m)]
      = map (\<lambda>key. key \<in> set ids) (im_slots m)"
    by (rule nth_equalityI) (simp_all add: at)
  have "allow_mask m ids = (idmap_ids m, set_allowed (slot_map (im_slots m)) ids (replicate (length (im_slots m)) False))"
    using ne idmap_ids_map [OF ok] l by (simp add: allow_mask_def Let_def)
  then show ?thesis by (simp only: set_allowed_ok n length_replicate a snd_conv)
qed

section \<open>Loads\<close>

lemma adjacent_equal_sorted: "sorted xs \<Longrightarrow> adjacent_equal xs \<longleftrightarrow> \<not> distinct xs"
proof (induction xs)
  case (Cons x xs)
  show ?case
  proof (cases xs)
    case (Cons y ys)
    have "x \<in> set xs \<longleftrightarrow> x = y" using Cons Cons.prems by (auto intro: antisym)
    then show ?thesis using Cons.IH Cons.prems Cons by (auto simp: adjacent_equal_def)
  qed (simp add: adjacent_equal_def)
qed (simp add: adjacent_equal_def)

lemma adjacent_equal_sort: "adjacent_equal (sort xs) \<longleftrightarrow> \<not> distinct xs"
  by (simp add: adjacent_equal_sorted)

lemma from_v7_ids: "from_v7 e (l\<lparr>vl_ids := i\<rparr>) path = from_v7 e l path"
proof (cases l)
  case (fields a b c d f g h j k m n p q)
  show ?thesis unfolding fields from_v7_def native_cache_def v7_load.update_convs v7_load.select_convs ..
qed

lemma loaded_idmap_ok: "distinct sids \<Longrightarrow> length sids = ix_n_vectors inner \<Longrightarrow> idmap_ok (loaded_idmap inner sids (sort sids))"
  by (simp add: idmap_ok_def loaded_idmap_def)

lemma from_v7_load_eq:
  "from_v7_load e l path = map_option (\<lambda>inner.
     if distinct (vl_ids l) then Inr (loaded_idmap inner (vl_ids l) (sort (vl_ids l))) else Inl IL_DuplicateIds) (from_v7 e l path)"
  unfolding from_v7_load_def Let_def from_v7_ids adjacent_equal_sort by (cases "distinct (vl_ids l)") simp_all

end
