(* ===== verification/IdMapSession.thy ===== *)
theory IdMapSession
  imports IdMapRows
begin

text \<open>
  The life of an \<open>IdMapIndex\<close>: adds, removals, lookups, calibrations, syncs, power cuts and reopenings in any
  order (\<open>id_session\<close>). The live index keeps its invariant and stands for the rows of the list model; the
  file at its path holds the last synced snapshot, ids included, and opens to the same map from ids to rows.
\<close>

section \<open>Reopening\<close>

lemma id_load_reopens:
  assumes h: "file_holds e f sn c p" and l: "snap_loadable e sn" "same_numbers e e'" and sn: "sn_kind sn = 1" "sn_ids sn = Some ids" "distinct ids"
  shows "\<exists>inner. idmap_load e' f path = Some (Inr (loaded_idmap inner ids (sort ids))) \<and>
      reopened e' sn c p (if sc_nonce c \<noteq> UNCLAIMED_NONCE then Some path else None) inner"
    and "\<exists>inner. idmap_from_bytes e' f = Some (Inr (loaded_idmap inner ids (sort ids))) \<and> reopened e' sn c p None inner"
proof -
  let ?b = "if sc_nonce c \<noteq> UNCLAIMED_NONCE then Some path else None"
  obtain lf inner where 1: "load_file (env_numerics e') f 0 1 = Inr lf" "vl_ids lf = ids" "vl_cursor lf = c\<lparr>sc_calib_gen := 0\<rparr>"
    "from_v7 e' lf ?b = Some inner" "reopened e' sn c p ?b inner"
    using file_holds_loads(1) [OF h l, of ?b] sn by auto
  then show "\<exists>inner. idmap_load e' f path = Some (Inr (loaded_idmap inner ids (sort ids))) \<and> reopened e' sn c p ?b inner"
    using file_holds_is_v7 [OF h] sn(3) by (auto simp: idmap_load_def idmap_load_v7_def from_v7_load_eq)
  obtain li inner2 where "load_image (env_numerics e') f 0 1 = Inr li" "vl_ids li = ids" "from_v7 e' li None = Some inner2"
    "reopened e' sn c p None inner2"
    using file_holds_loads(2) [OF h l, of None] sn by auto
  then show "\<exists>inner. idmap_from_bytes e' f = Some (Inr (loaded_idmap inner ids (sort ids))) \<and> reopened e' sn c p None inner"
    using sn(3) by (auto simp: idmap_from_bytes_def from_v7_load_eq)
qed

section \<open>The sessions\<close>

text \<open>The rows after a removal.\<close>

definition removed_rows :: "idmap \<Rightarrow> u64 \<Rightarrow> row list \<Rightarrow> row list" where
  "removed_rows m key rows = (case slot_map (im_slots m) key of None \<Rightarrow> rows | Some slot \<Rightarrow> list_swap_remove slot rows)"

text \<open>\<open>id_session e path file stored m rows\<close>: \<open>file\<close> is what is at \<open>path\<close>, \<open>stored\<close> the snapshot it is
  known to hold, \<open>m\<close> the live index, \<open>rows\<close> the rows of its slots. After a power cut the loader adopts the old
  commit (\<open>id_cut\<close>) or the interrupted sync has taken effect (\<open>id_landed\<close>).\<close>

inductive id_session :: "'r env \<Rightarrow> string \<Rightarrow> bytes option \<Rightarrow> snapshot option \<Rightarrow> idmap \<Rightarrow> row list \<Rightarrow> bool" for e :: "'r env" and path where
  id_new: "idmap_new dim bits = Inr m \<Longrightarrow> id_session e path file None m []"
| id_new_lazy: "idmap_new_lazy bits = Inr m \<Longrightarrow> id_session e path file None m []"
| id_from_parts: "from_parts (e_fo e) dim bits n packed scales shift scale = Inr inner \<Longrightarrow> from_index_and_ids inner ids = Inr m \<Longrightarrow>
    id_session e path file None m (parts_rows dim bits n packed scales)"
| id_add: "id_session e path file stored m rows \<Longrightarrow> index_coder e (im_inner m) dim = Some c \<Longrightarrow> wf_coder (e_fo e) c \<Longrightarrow>
    add_with_ids_2d e ft m vectors dim news = (m', out) \<Longrightarrow>
    id_session e path file stored m'
      (if out = Returned (Inr ()) then rows @ map (encode_row (e_fo e) c) (rows_of dim (length vectors div dim) vectors) else rows)"
| id_remove: "id_session e path file stored m rows \<Longrightarrow> remove_id e m key = (m', out) \<Longrightarrow>
    id_session e path file stored m' (removed_rows m key rows)"
| id_lookup: "id_session e path file stored m rows \<Longrightarrow> contains m key = (m', b) \<Longrightarrow> id_session e path file stored m' rows"
| id_allow: "id_session e path file stored m rows \<Longrightarrow> allow_mask m allowlist = (m', r) \<Longrightarrow> id_session e path file stored m' rows"
| id_prepare: "id_session e path file stored m rows \<Longrightarrow> idmap_prepare e m = (m', out) \<Longrightarrow> id_session e path file stored m' rows"
| id_calibrate: "id_session e path file stored m rows \<Longrightarrow> index_coder e (im_inner m) dim = Some c \<Longrightarrow> wf_coder (e_fo e) c \<Longrightarrow>
    idmap_calibrate_2d e ft m sample dim = (m', out) \<Longrightarrow> ix_calib_gen (im_inner m) \<noteq> - 1 \<Longrightarrow>
    id_session e path file stored m' (if out = Returned (Inr ())
      then map (reencode_row (e_fo e) c (c\<lparr>c_calibration := calibrated_pair (im_inner m')\<rparr>)) rows else rows)"
| id_sync: "id_session e path file stored m rows \<Longrightarrow> idmap_sync e io file m path = (m', file', out) \<Longrightarrow>
    sync_fits e (im_inner m) rows path file' \<Longrightarrow>
    id_session e path file'
      (stored_after file file' stored out (snapshot_of (im_inner m) (the (ix_dim (im_inner m))) 1 rows (Some (im_slots m)))) m' rows"
| id_reopen: "id_session e path (Some f) (Some sn) m rows \<Longrightarrow> snap_loadable e sn \<Longrightarrow> idmap_load e f path = Some (Inr m') \<Longrightarrow>
    id_session e path (Some f) (Some sn) m' (sn_rows sn)"
| id_cut: "id_session e path (Some f) (Some sn) m rows \<Longrightarrow> sync_fits e (im_inner m) rows path None \<Longrightarrow>
    sync_cut e (im_inner m) path 1 (Some (im_slots m)) f f' \<Longrightarrow> choose_header f' (snap_geo sn) = choose_header f (snap_geo sn) \<Longrightarrow>
    snap_loadable e sn \<Longrightarrow> idmap_load e f' path = Some (Inr m') \<Longrightarrow>
    id_session e path (Some f') (Some sn) m' (sn_rows sn)"
| id_landed: "id_session e path (Some f) (Some sn) m rows \<Longrightarrow> sync_fits e (im_inner m) rows path None \<Longrightarrow>
    told_sync_cut e (im_inner m) path 1 (Some (im_slots m)) f f' \<Longrightarrow> choose_header f' (snap_geo sn) \<noteq> choose_header f (snap_geo sn) \<Longrightarrow>
    snap_loadable e sn \<Longrightarrow> idmap_load e f' path = Some (Inr m') \<Longrightarrow>
    id_session e path (Some f') (Some (snapshot_of (im_inner m) (sn_dim sn) 1 rows (Some (im_slots m)))) m' rows"

definition id_stored_ok :: "'r env \<Rightarrow> bytes option \<Rightarrow> snapshot option \<Rightarrow> bool" where
  "id_stored_ok e file stored \<longleftrightarrow> (\<forall>sn. stored = Some sn \<longrightarrow> sn_kind sn = 1 \<and>
     (\<exists>ids. sn_ids sn = Some ids \<and> distinct ids \<and> length ids = length (sn_rows sn)) \<and> (\<exists>f c p. file = Some f \<and> file_holds e f sn c p))"

definition id_inv :: "'r env \<Rightarrow> string \<Rightarrow> bytes option \<Rightarrow> snapshot option \<Rightarrow> idmap \<Rightarrow> row list \<Rightarrow> bool" where
  "id_inv e path file stored m rows \<longleftrightarrow>
     idmap_ok m \<and> live e path 1 file stored (im_inner m) rows (Some (im_slots m)) \<and> id_stored_ok e file stored"

lemma idmap_new_ok: "idmap_ok \<lparr>im_inner = inner, im_slots = [], im_map = Some Map.empty, im_sorted = [], im_added = {}\<rparr>"
  if "ix_n_vectors inner = 0"
  using that by (simp add: idmap_ok_def slot_map_def)

lemma id_inv_start:
  assumes "represents e inner []" "ix_sync_cursor inner = None" "ix_sync_fresh inner = {}" "ix_sync_capture_buf inner = []" "ix_sync_capture_at inner = []"
  shows "id_inv e path file None \<lparr>im_inner = inner, im_slots = [], im_map = Some Map.empty, im_sorted = [], im_added = {}\<rparr> []"
  using live_start [OF assms] representsD(1) [OF assms(1)] idmap_new_ok by (simp add: id_inv_def id_stored_ok_def)

lemma from_index_and_ids_ok:
  "from_index_and_ids inner ids = Inr m \<Longrightarrow> m = loaded_idmap inner ids (sort ids) \<and> idmap_ok m"
  by (auto simp: from_index_and_ids_def Let_def adjacent_equal_sort loaded_idmap_ok split: if_splits)

lemma id_inv_reopen:
  assumes h: "file_holds e f sn c p" and sn: "sn_kind sn = 1" "sn_ids sn = Some ids" "distinct ids" "length ids = length (sn_rows sn)"
    and l: "snap_loadable e sn" "idmap_load e f path = Some (Inr m)"
  shows "id_inv e path (Some f) (Some sn) m (sn_rows sn)"
proof -
  have "same_numbers e e" by (simp add: same_numbers_def)
  from id_load_reopens(1) [OF h l(1) this sn(1-3), of path] l(2)
  obtain inner where m: "m = loaded_idmap inner ids (sort ids)"
    and r: "reopened e sn c p (if sc_nonce c \<noteq> UNCLAIMED_NONCE then Some path else None) inner" by auto
  have b: "(if sc_nonce c \<noteq> UNCLAIMED_NONCE then Some path else None) = None
    \<or> (if sc_nonce c \<noteq> UNCLAIMED_NONCE then Some path else None) = Some path" by simp
  have "ix_n_vectors inner = length ids" using r sn(4) representsD(1) by (auto simp: reopened_def)
  then have "idmap_ok m" unfolding m using sn(3) by (intro loaded_idmap_ok) simp_all
  moreover have "id_stored_ok e (Some f) (Some sn)" using h sn by (auto simp: id_stored_ok_def)
  ultimately show ?thesis using live_reopened [OF h r b] by (simp add: id_inv_def sn m loaded_idmap_def)
qed

lemma id_inv_live:
  assumes "id_inv e path file stored m rows"
  shows "idmap_ok m" "represents e (im_inner m) rows" "capture_ok (im_inner m) rows" "live e path 1 file stored (im_inner m) rows (Some (im_slots m))"
    "id_stored_ok e file stored" "length (im_slots m) = length rows" "distinct (im_slots m)" "ids_fit 1 (Some (im_slots m)) (length rows)"
  using assms representsD(1) [of e "im_inner m" rows] by (auto simp: id_inv_def live_def idmap_ok_def ids_fit_def)

lemma id_inv_same_slots:
  assumes "id_inv e path file stored m rows" "live e path 1 file stored (im_inner m') rows' (Some (im_slots m))" "length rows' = length rows"
    and "idmap_ok m" "im_slots m' = im_slots m" "im_map m' = im_map m" "im_sorted m' = im_sorted m" "im_added m' = im_added m"
  shows "id_inv e path file stored m' rows'"
  using assms representsD(1) [OF liveD(1) [OF assms(2)]] id_inv_live(6) [OF assms(1)]
  by (auto simp: id_inv_def idmap_ok_def split: option.splits)

lemma id_inv_lookup: "id_inv e path file stored m rows \<Longrightarrow> id_inv e path file stored (idmap_ids m) rows"
  by (simp add: id_inv_def idmap_ids_ok)

lemma id_inv_add:
  assumes i: "id_inv e path file stored m rows" and c: "index_coder e (im_inner m) dim = Some c" "wf_coder (e_fo e) c"
    and run: "add_with_ids_2d e ft m vectors dim news = (m', out)"
  shows "id_inv e path file stored m'
    (if out = Returned (Inr ()) then rows @ map (encode_row (e_fo e) c) (rows_of dim (length vectors div dim) vectors) else rows)"
proof -
  note v = id_inv_live [OF i]
  note a = add_ids_represents [OF v(1,2) c run]
  from run show ?thesis
  proof (cases rule: add_with_ids_cases)
    case (refused err)
    then show ?thesis using i by simp
  next
    case (added x)
    then have r: "idmap_ok m'" "im_slots m' = im_slots m @ news" "im_inner m' = x"
      "represents e x (rows @ map (encode_row (e_fo e) c) (rows_of dim (length vectors div dim) vectors))" using a by simp_all
    have "ids_extend (Some (im_slots m)) (length rows) (Some (im_slots m @ news))" using v(6) by (simp add: ids_extend_def)
    from live_add [OF v(4) added(5) this r(4)] show ?thesis using r(1-3) v(5) added(6) by (simp add: id_inv_def)
  next
    case (inner x o1)
    have "represents e x rows"
    proof (cases o1)
      case Panicked
      then show ?thesis using a inner by simp
    next
      case (Returned r)
      then obtain err where "r = Inl err" using inner(2) by (cases r) simp_all
      then have "m\<lparr>im_inner := x\<rparr> = m" using a inner Returned by simp
      from arg_cong [OF this, of im_inner] show ?thesis using v(2) by simp
    qed
    then have r: "represents e x (rows @ [])" by simp
    have "ids_extend (Some (im_slots m)) (length rows) (Some (im_slots m))" using v(6) by (simp add: ids_extend_def)
    from live_add [OF v(4) inner(1) this r]
    have "id_inv e path file stored m' rows" using inner(4) by (intro id_inv_same_slots [OF i _ _ v(1)]) simp_all
    then show ?thesis using inner(2,3) by simp
  qed
qed

lemma id_inv_remove:
  assumes i: "id_inv e path file stored m rows" and run: "remove_id e m key = (m', out)"
  shows "id_inv e path file stored m' (removed_rows m key rows)"
proof -
  note v = id_inv_live [OF i]
  note r = remove_id_represents [OF v(1-3), of key]
  show ?thesis
  proof (cases "slot_map (im_slots m) key")
    case None
    then show ?thesis using r run id_inv_lookup [OF i] by (simp add: removed_rows_def)
  next
    case (Some slot)
    then have q: "slot < length rows" "idmap_ok m'" "im_slots m' = list_swap_remove slot (im_slots m)"
      "represents e (im_inner m') (list_swap_remove slot rows)" "capture_ok (im_inner m') (list_swap_remove slot rows)"
      "removed_elsewhere (im_inner m) slot (im_inner m')" using r run by auto
    have "tracked e file stored path 1 (im_inner m') (list_swap_remove slot rows) (Some (list_swap_remove slot (im_slots m)))"
      by (rule tracked_remove [OF liveD(3) [OF v(4)] q(1,6) representsD(1) [OF v(2)]]) (simp add: v(6))
    then show ?thesis using q v(5) Some by (simp add: id_inv_def live_def removed_rows_def)
  qed
qed

lemma id_inv_prepare:
  assumes i: "id_inv e path file stored m rows" and run: "idmap_prepare e m = (m', out)"
  shows "id_inv e path file stored m' rows"
proof -
  note v = id_inv_live [OF i]
  obtain x o1 where p: "prepare e (im_inner m) = (x, o1)" by force
  have "id_inv e path file stored (m\<lparr>im_inner := x\<rparr>) rows"
    using live_prepare [OF v(4) p] by (intro id_inv_same_slots [OF i _ _ v(1)]) simp_all
  then show ?thesis using run id_inv_lookup by (auto simp: idmap_prepare_def p split: outcome.splits)
qed

lemma id_inv_sync:
  assumes i: "id_inv e path file stored m rows" and run: "idmap_sync e io file m path = (m', file', out)"
    and fits: "sync_fits e (im_inner m) rows path file'"
  defines "sn \<equiv> snapshot_of (im_inner m) (the (ix_dim (im_inner m))) 1 rows (Some (im_slots m))"
  shows "id_inv e path file' (stored_after file file' stored out sn) m' rows"
    and "out = Returned (Inr ()) \<Longrightarrow> \<exists>f c. file' = Some f \<and> file_holds e f sn c (ix_sync_pending (im_inner m')) \<and> ix_dim (im_inner m) \<noteq> None"
proof -
  note v = id_inv_live [OF i]
  obtain x where s: "sync_v7_impl e io file (im_inner m) path 1 (Some (im_slots m)) = (x, file', out)" and m': "m' = m\<lparr>im_inner := x\<rparr>"
    using run by (auto simp: idmap_sync_def split: prod.splits)
  note t = sync_tracked [OF v(2,3) liveD(3) [OF v(4)] v(8) s fits]
  have sn: "sn_kind sn = 1" "sn_ids sn = Some (im_slots m)" "sn_rows sn = rows" by (simp_all add: sn_def snapshot_of_def)
  show ret: "out = Returned (Inr ()) \<Longrightarrow> \<exists>f c. file' = Some f \<and> file_holds e f sn c (ix_sync_pending (im_inner m')) \<and> ix_dim (im_inner m) \<noteq> None"
    using t(5) by (auto simp: sn_def m')
  have "id_stored_ok e file' (stored_after file file' stored out sn)"
  proof (cases "out = Returned (Inr ())")
    case True
    then show ?thesis using ret v(6,7) sn by (auto simp: id_stored_ok_def stored_after_def)
  next
    case False
    then show ?thesis using v(5) by (auto simp: id_stored_ok_def stored_after_def split: if_splits)
  qed
  moreover have "idmap_ok m'" unfolding m' using representsD(1) [OF t(1)] representsD(1) [OF v(2)] by (intro idmap_ok_inner [OF v(1)]) simp
  ultimately show "id_inv e path file' (stored_after file file' stored out sn) m' rows" using t(1-3) by (simp add: id_inv_def live_def m' sn_def)
qed

theorem id_session_invariant:
  assumes "id_session e path file stored m rows"
  shows "id_inv e path file stored m rows"
  using assms
proof (induction rule: id_session.induct)
  case (id_new dim bits m fl)
  then obtain inner where n: "index_new dim bits = Inr inner"
    "m = \<lparr>im_inner = inner, im_slots = [], im_map = Some Map.empty, im_sorted = [], im_added = {}\<rparr>"
    by (auto simp: idmap_new_def and_then_def split: sum.splits)
  then have "represents e inner []" using index_new_represents [where e = e and dim = dim and bits = bits] by simp
  then show ?case unfolding n(2) using n(1) by (intro id_inv_start) (auto simp: index_new_def blank_index_def split: if_splits)
next
  case (id_new_lazy bits m fl)
  then obtain inner where n: "new_lazy bits = Inr inner"
    "m = \<lparr>im_inner = inner, im_slots = [], im_map = Some Map.empty, im_sorted = [], im_added = {}\<rparr>"
    by (auto simp: idmap_new_lazy_def and_then_def split: sum.splits)
  then have "represents e inner []" using new_lazy_represents [where e = e] by blast
  then show ?case unfolding n(2) using n(1) by (intro id_inv_start) (auto simp: new_lazy_def blank_index_def split: if_splits)
next
  case (id_from_parts dim bits n packed scales shift scale inner ids m fl)
  have r: "represents e inner (parts_rows dim bits n packed scales)" using from_parts_represents [OF id_from_parts(1)] by blast
  obtain s c where "inner = (blank_index dim bits)\<lparr>ix_n_vectors := n, ix_packed_codes := Some packed, ix_scales := scales,
      ix_tqplus_shift := s, ix_tqplus_scale := c\<rparr>"
    by (rule from_parts_cases [OF id_from_parts(1)])
  then have "live e path 1 fl None inner (parts_rows dim bits n packed scales) (Some ids)"
    by (intro live_start [OF r]) (simp_all add: blank_index_def)
  then show ?case using from_index_and_ids_ok [OF id_from_parts(2)] by (auto simp: id_inv_def id_stored_ok_def loaded_idmap_def)
next
  case (id_add fl stored m rows dim c ft vectors news m' out)
  then show ?case by (blast intro: id_inv_add)
next
  case (id_remove fl stored m rows key m' out)
  then show ?case by (blast intro: id_inv_remove)
next
  case (id_lookup fl stored m rows key m' b)
  then show ?case using id_inv_lookup by (auto simp: contains_def Let_def)
next
  case (id_allow fl stored m rows allowlist m' r)
  then show ?case using id_inv_lookup by (auto simp: allow_mask_def Let_def split: if_splits)
next
  case (id_prepare fl stored m rows m' out)
  then show ?case by (blast intro: id_inv_prepare)
next
  case (id_calibrate fl stored m rows dim c ft sample m' out)
  note v = id_inv_live [OF id_calibrate(6)]
  obtain x where s: "calibrate_2d e ft (im_inner m) sample dim = (x, out)" and m': "m' = m\<lparr>im_inner := x\<rparr>"
    using id_calibrate(4) by (auto simp: idmap_calibrate_2d_def split: prod.splits)
  show ?case
    using live_calibrate [OF v(4) id_calibrate(2,3) s id_calibrate(5)] by (intro id_inv_same_slots [OF id_calibrate(6) _ _ v(1)]) (simp_all add: m' split: if_splits)
next
  case (id_sync fl stored m rows io m' fl' out)
  then show ?case by (blast intro: id_inv_sync(1))
next
  case (id_reopen f sn m rows m')
  then obtain c p ids where "file_holds e f sn c p" "sn_kind sn = 1" "sn_ids sn = Some ids" "distinct ids" "length ids = length (sn_rows sn)"
    by (auto simp: id_inv_def id_stored_ok_def)
  then show ?case using id_reopen(2,3) by (rule id_inv_reopen)
next
  case (id_cut f sn m rows f' m')
  note v = id_inv_live [OF id_cut(7)]
  obtain ids where sn: "sn_kind sn = 1" "sn_ids sn = Some ids" "distinct ids" "length ids = length (sn_rows sn)"
    using v(5) by (auto simp: id_stored_ok_def)
  obtain c p where "file_holds e f' sn c p" using sync_cut_holds [OF v(2,3) liveD(3) [OF v(4)] v(8) id_cut(2,3,4)] by blast
  then show ?case using sn id_cut(5,6) by (rule id_inv_reopen)
next
  case (id_landed f sn m rows f' m')
  note v = id_inv_live [OF id_landed(7)]
  let ?sn = "snapshot_of (im_inner m) (sn_dim sn) 1 rows (Some (im_slots m))"
  have sn: "sn_kind ?sn = 1" "sn_ids ?sn = Some (im_slots m)" "sn_rows ?sn = rows" by (simp_all add: snapshot_of_def)
  obtain c p where "file_holds e f' ?sn c p" "snap_loadable e ?sn"
    using told_cut_holds [OF v(2,3) liveD(3) [OF v(4)] v(8) id_landed(2,3)] id_landed(4,5) by auto
  from id_inv_reopen [OF this(1) sn(1,2) v(7) _ this(2) id_landed(6)] show ?case unfolding sn(3) using v(6) by blast
qed

end
