(* ===== verification/IdMapTheorems.thy ===== *)
theory IdMapTheorems
  imports IdMapSession SessionTheorems
begin

text \<open>
  What an \<open>IdMapIndex\<close> promises: it is a finite map from ids to rows, an add extends the map or changes
  nothing, a removal deletes one entry, and the map survives syncs, power cuts and reopenings.
\<close>

section \<open>The demo index with ids\<close>

definition demo_idmap :: idmap where
  "demo_idmap = loaded_idmap demo_index [7, 5] [5, 7]"

lemma demo_idmap_fields [simp]: "im_inner demo_idmap = demo_index" "im_slots demo_idmap = [7, 5]" "im_map demo_idmap = None"
  by (simp_all add: demo_idmap_def loaded_idmap_def)

lemma demo_id_session: "id_session demo_env path fl None demo_idmap demo_rows"
proof -
  have "from_index_and_ids demo_index [7, 5] = Inr demo_idmap"
    by (simp add: from_index_and_ids_def adjacent_equal_def demo_idmap_def)
  from id_from_parts [OF _ this, of demo_env "Some 8" 2 2 "[1, 2, 3, 4]" "[5, 6]" "[]" "[]"] demo_parts
  show ?thesis by (simp add: demo_parts_def demo_parts_rows)
qed

lemma demo_idmap_ok: "idmap_ok demo_idmap"
  using id_session_invariant [OF demo_id_session] by (simp add: id_inv_def)

lemma demo_id_rows: "id_rows demo_idmap demo_rows = [7 \<mapsto> ([1, 2], 5), 5 \<mapsto> ([3, 4], 6)]"
  by (auto simp: id_rows_def demo_rows_def)

lemma demo_id_loadable: "snap_loadable demo_env (snapshot_of demo_index 8 1 demo_rows (Some [7, 5]))"
  using demo_loadable by (simp add: snap_loadable_def snapshot_of_def)

lemma demo_same_numbers: "same_numbers demo_env demo_env"
  by (simp add: same_numbers_def)

section \<open>The map and its operations\<close>

text \<open>C6. After any session an \<open>IdMapIndex\<close> is a finite map from ids to rows: the ids are distinct, one per
  row of the inner index, \<open>contains\<close> is membership whichever tables answer it, and the file is known to
  hold the last synced rows and ids.\<close>

theorem id_session_map:
  assumes "id_session e path file stored m rows"
  shows "distinct (iter_ids m) \<and> idmap_len m = length rows \<and> represents e (im_inner m) rows \<and>
    dom (id_rows m rows) = set (iter_ids m) \<and> (\<forall>key. snd (contains m key) \<longleftrightarrow> id_rows m rows key \<noteq> None) \<and>
    (\<forall>sn. stored = Some sn \<longrightarrow> (\<exists>f c p. file = Some f \<and> file_holds e f sn c p))"
proof -
  note v = id_inv_live [OF id_session_invariant [OF assms]]
  have d: "dom (id_rows m rows) = set (im_slots m)" by (rule dom_id_rows) (simp add: v(6))
  then have "id_rows m rows key \<noteq> None \<longleftrightarrow> key \<in> set (im_slots m)" for key by (simp add: domIff flip: d)
  then show ?thesis using v(2,5-7) d contains_iff [OF v(1)] by (auto simp: iter_ids_def idmap_len_def id_stored_ok_def)
qed

theorem id_session_map_witness:
  "snd (contains demo_idmap 5) \<and> \<not> snd (contains demo_idmap 6) \<and> idmap_len demo_idmap = 2"
  using id_session_map [OF demo_id_session [of "[]" None]] unfolding demo_id_rows by (simp add: demo_rows_def)

text \<open>C7. \<open>add_with_ids_2d\<close> refines the extension of the map: it returns with exactly the batch's pairs of
  id and encoded row added, none of them there before; or it refuses and nothing has changed; or something
  inside the inner add panics and the map is the old one.\<close>

theorem add_extends_map:
  assumes "idmap_ok m" "represents e (im_inner m) rows" "index_coder e (im_inner m) dim = Some c" "wf_coder (e_fo e) c"
    and "add_with_ids_2d e ft m vectors dim ids = (m', out)"
  shows "case out of
      Returned (Inr _) \<Rightarrow>
        let news = map (encode_row (e_fo e) c) (rows_of dim (length vectors div dim) vectors)
        in distinct ids \<and> set ids \<inter> dom (id_rows m rows) = {} \<and> length ids = length news \<and> idmap_ok m' \<and>
           represents e (im_inner m') (rows @ news) \<and> id_rows m' (rows @ news) = id_rows m rows ++ map_of (zip ids news)
    | Returned (Inl _) \<Rightarrow> m' = m
    | Panicked \<Rightarrow> idmap_ok m' \<and> represents e (im_inner m') rows \<and> id_rows m' rows = id_rows m rows \<and> ft \<noteq> no_fault"
proof -
  have l: "length (im_slots m) = length rows" using assms(1) representsD(1) [OF assms(2)] by (simp add: idmap_ok_def)
  have d: "dom (id_rows m rows) = set (im_slots m)" by (rule dom_id_rows [OF l])
  note a = add_ids_represents [OF assms]
  show ?thesis
  proof (cases out)
    case (Returned r)
    show ?thesis
    proof (cases r)
      case (Inr u)
      let ?news = "map (encode_row (e_fo e) c) (rows_of dim (length vectors div dim) vectors)"
      have n: "length ids = length ?news" "distinct (im_slots m @ ids)" using a Returned Inr assms(1) by (auto simp: idmap_ok_def rows_of_def)
      then have "id_rows m' (rows @ ?news) = id_rows m rows ++ map_of (zip ids ?news)"
        using a Returned Inr map_of_zip_append [OF n(2) l n(1)] by (simp add: id_rows_def)
      then show ?thesis using a Returned Inr n(1) by (simp add: d Let_def inf_commute)
    qed (use a Returned in simp)
  qed (use a in \<open>simp add: id_rows_def\<close>)
qed

theorem add_extends_map_witness:
  "case add_with_ids_2d demo_env no_fault demo_idmap [1, 2, 3, 4, 5, 6, 7, 8] 8 [9] of
     (m', Returned (Inr _)) \<Rightarrow> idmap_ok m'
   | (m', Returned (Inl _)) \<Rightarrow> m' = demo_idmap
   | (m', Panicked) \<Rightarrow> False"
proof -
  have r: "represents demo_env (im_inner demo_idmap) demo_rows" using demo_index_represents by simp
  obtain c where c: "index_coder demo_env (im_inner demo_idmap) 8 = Some c" "wf_coder (e_fo demo_env) c"
    using demo_index_coder [of demo_index] by auto
  obtain m' out where run: "add_with_ids_2d demo_env no_fault demo_idmap [1, 2, 3, 4, 5, 6, 7, 8] 8 [9] = (m', out)" by force
  show ?thesis
    using add_extends_map [OF demo_idmap_ok r c run] unfolding run by (auto simp: Let_def split: outcome.splits sum.splits)
qed

text \<open>C8. \<open>remove\<close> refines the deletion from the map: it answers whether the id was there, never panics, and
  leaves the map without that id, every other id at its row, though one of them may have moved to another slot.\<close>

theorem remove_deletes_entry:
  assumes "idmap_ok m" "represents e (im_inner m) rows" "capture_ok (im_inner m) rows"
  shows "\<exists>m' rows'. remove_id e m key = (m', Returned (id_rows m rows key \<noteq> None)) \<and> idmap_ok m' \<and> slots_ready m' \<and>
    represents e (im_inner m') rows' \<and> capture_ok (im_inner m') rows' \<and> id_rows m' rows' = (id_rows m rows)(key := None)"
proof -
  have d: "distinct (im_slots m)" and l: "length (im_slots m) = length rows"
    using assms(1) representsD(1) [OF assms(2)] by (simp_all add: idmap_ok_def)
  note r = remove_id_represents [OF assms, of key]
  have dom: "id_rows m rows key \<noteq> None \<longleftrightarrow> key \<in> set (im_slots m)" using dom_id_rows [OF l] by (metis domIff)
  show ?thesis
  proof (cases "slot_map (im_slots m) key")
    case None
    then have n: "key \<notin> set (im_slots m)" using slot_map_None [OF d] by blast
    then have "id_rows m rows key = None" using dom by blast
    then have "id_rows (idmap_ids m) rows = (id_rows m rows)(key := None)" by (intro ext) (simp add: id_rows_def)
    then show ?thesis
      using None r n dom assms(2,3) idmap_ids_ok [OF assms(1)] idmap_ids_map [OF assms(1)] by (auto simp: slots_ready_def)
  next
    case (Some slot)
    then obtain m' where m': "remove_id e m key = (m', Returned True)" "slot < length rows" "im_slots m ! slot = key" "idmap_ok m'"
      "im_slots m' = list_swap_remove slot (im_slots m)" "represents e (im_inner m') (list_swap_remove slot rows)"
      "capture_ok (im_inner m') (list_swap_remove slot rows)" using r by auto
    have "id_rows m' (list_swap_remove slot rows) = (id_rows m rows)(key := None)"
      using map_of_zip_swap_remove [OF d l, of slot] m'(2,3,5) l by (simp add: id_rows_def)
    moreover have "slots_ready m'" using m'(1) Some idmap_ids_map [OF assms(1)]
      by (auto simp: remove_id_def Let_def slots_ready_def split: prod.splits outcome.splits)
    moreover have "id_rows m rows key \<noteq> None" using dom m'(2,3) l by (metis nth_mem)
    ultimately show ?thesis using m' by auto
  qed
qed

theorem remove_deletes_entry_witness:
  "\<exists>m' rows'. remove_id demo_env demo_idmap 7 = (m', Returned True) \<and> represents demo_env (im_inner m') rows' \<and>
     id_rows m' rows' = [5 \<mapsto> ([3, 4], 6)]"
proof -
  have "([7 \<mapsto> ([1, 2], 5), 5 \<mapsto> ([3, 4], 6)] :: u64 \<rightharpoonup> row)(7 := None) = [5 \<mapsto> ([3, 4], 6)]" by auto
  then show ?thesis
    using remove_deletes_entry [OF demo_idmap_ok, of demo_env demo_rows 7] demo_index_represents demo_index_captures
    by (auto simp: demo_id_rows)
qed

section \<open>Batches, the sorted table and the allowlist\<close>

text \<open>The inner add never complains about an id.\<close>

lemma add_2d_no_id_error:
  assumes "err \<in> {AE_IdAlreadyPresent key, AE_DuplicateIdInBatch key}"
  shows "snd (add_2d e ft ix vectors dim) \<noteq> Returned (Inl err)"
proof -
  have branches: "snd (case er of Some r \<Rightarrow> (ix, Returned (Inl r))
      | None \<Rightarrow> (case fi of None \<Rightarrow> (ix, Panicked)
          | Some (Some (vi, ci, v)) \<Rightarrow> (ix, Returned (Inl (AE_InvalidInputValue vi ci v)))
          | Some None \<Rightarrow> if a then (ix, Panicked) else if b then (ix, Returned (Inr ()))
              else if c then (case x1 of (y, Panicked) \<Rightarrow> (u y, Panicked) | (y, Returned _) \<Rightarrow> (y, Returned (Inr ())))
              else (case x2 of (y, Panicked) \<Rightarrow> (y, Panicked) | (y, Returned _) \<Rightarrow> (y, Returned (Inr ()))))) \<noteq> Returned (Inl err)"
    if "er \<noteq> Some err" for er fi a b c x1 x2 u
    using that assms by (auto split: option.split prod.split outcome.split)
  show ?thesis unfolding add_2d_def by (rule branches) (use assms in \<open>auto split: option.split\<close>)
qed

lemma add_2d_accepts:
  assumes "represents e ix rows" "index_coder e ix dim = Some c" "wf_coder (e_fo e) c"
    and "ix_dim ix = Some dim" "input_ok vectors" "length vectors mod dim = 0"
  shows "snd (add_2d e no_fault ix vectors dim) = Returned (Inr ())"
proof -
  obtain ix' out where run: "add_2d e no_fault ix vectors dim = (ix', out)" by force
  have fi: "first_invalid_coord (cpu_scan (e_cpu e)) vectors dim = Some None" using assms(5) by (simp add: first_invalid_coord_total)
  note a = add_2d_represents [OF assms(1) run assms(2,3)]
  have "out = Panicked \<or> out = Returned (Inr ())"
    using run assms(4,6) fi by (auto simp: add_2d_def split: if_splits prod.splits outcome.splits)
  then show ?thesis using a assms(6) run by auto
qed

text \<open>C37. \<open>batch_addable\<close> answers exactly whether \<open>add_with_ids_2d\<close> would refuse the batch for its ids. Where
  it says yes, the ids are distinct and new and the add goes on to the outcome of the inner \<open>add_2d\<close>, which is
  never an error about an id, the ids being appended when it returns; where it says no, the add changes nothing
  and its error names the first offending id of the batch and says whether the index already has it or the
  batch repeats it.\<close>

theorem batch_addable_exact:
  assumes "idmap_ok m" "dim \<noteq> 0" "length vectors = length ids * dim"
  shows "if batch_addable m ids
    then distinct ids \<and> set ids \<inter> set (iter_ids m) = {} \<and>
      snd (add_with_ids_2d e ft m vectors dim ids) = snd (add_2d e ft (im_inner m) vectors dim) \<and>
      (\<forall>key. snd (add_with_ids_2d e ft m vectors dim ids)
        \<notin> {Returned (Inl (AE_IdAlreadyPresent key)), Returned (Inl (AE_DuplicateIdInBatch key))}) \<and>
      iter_ids (fst (add_with_ids_2d e ft m vectors dim ids))
        = (if snd (add_2d e ft (im_inner m) vectors dim) = Returned (Inr ()) then iter_ids m @ ids else iter_ids m)
    else \<exists>pre key post. ids = pre @ key # post \<and> distinct pre \<and> set pre \<inter> set (iter_ids m) = {} \<and>
      (key \<in> set (iter_ids m) \<and> add_with_ids_2d e ft m vectors dim ids = (m, Returned (Inl (AE_IdAlreadyPresent key))) \<or>
       key \<notin> set (iter_ids m) \<and> key \<in> set pre \<and> add_with_ids_2d e ft m vectors dim ids = (m, Returned (Inl (AE_DuplicateIdInBatch key))))"
proof (cases "check_ids (present m) {} ids")
  case None
  obtain x o1 where a: "add_2d e ft (im_inner m) vectors dim = (x, o1)" by force
  have run: "add_with_ids_2d e ft m vectors dim ids = (case o1 of Panicked \<Rightarrow> (m\<lparr>im_inner := x\<rparr>, Panicked)
      | Returned (Inl err) \<Rightarrow> (m\<lparr>im_inner := x\<rparr>, Returned (Inl err))
      | Returned (Inr u) \<Rightarrow> (record_ids (ix_n_vectors (im_inner m)) ids (m\<lparr>im_inner := x\<rparr>), Returned (Inr ())))"
    using assms(2,3) by (simp add: add_with_ids_2d_def None a)
  have out: "snd (add_with_ids_2d e ft m vectors dim ids) = o1"
    unfolding run by (simp split: outcome.splits sum.splits)
  have slots: "im_slots (fst (add_with_ids_2d e ft m vectors dim ids)) = (if o1 = Returned (Inr ()) then im_slots m @ ids else im_slots m)"
    unfolding run by (simp add: record_ids_def Let_def split: outcome.splits sum.splits option.splits)
  have "batch_addable m ids" using None by (simp add: batch_addable_def addable_scan_check)
  then show ?thesis
    using check_present [OF assms(1), of ids] None add_2d_no_id_error [of _ _ e ft "im_inner m" vectors dim]
    by (simp add: iter_ids_def out slots a)
next
  case (Some err)
  then have run: "add_with_ids_2d e ft m vectors dim ids = (m, Returned (Inl err))" using assms(2,3) by (simp add: add_with_ids_2d_def)
  obtain pre k post where p: "ids = pre @ k # post" "distinct pre" "\<forall>p \<in> set pre. \<not> present m p"
    "present m k \<and> err = AE_IdAlreadyPresent k \<or> \<not> present m k \<and> k \<in> set pre \<and> err = AE_DuplicateIdInBatch k"
    using check_ids_Some [OF Some] by auto
  have "\<not> batch_addable m ids" using Some by (simp add: batch_addable_def addable_scan_check)
  then show ?thesis using p run by (auto simp: present_iff [OF assms(1)] iter_ids_def)
qed

theorem batch_addable_exact_witness:
  "batch_addable demo_idmap [1, 2] \<and>
     snd (add_with_ids_2d demo_env no_fault demo_idmap (replicate 16 0) 8 [1, 2]) = Returned (Inr ()) \<and>
     iter_ids (fst (add_with_ids_2d demo_env no_fault demo_idmap (replicate 16 0) 8 [1, 2])) = [7, 5, 1, 2] \<and>
     \<not> batch_addable demo_idmap [1, 5] \<and>
     add_with_ids_2d demo_env no_fault demo_idmap (replicate 16 0) 8 [1, 5] = (demo_idmap, Returned (Inl (AE_IdAlreadyPresent 5)))"
proof -
  have b: "batch_addable demo_idmap [1, 2]" "\<not> batch_addable demo_idmap [1, 5]"
    by (simp_all add: batch_addable_def present_iff [OF demo_idmap_ok])
  obtain c where c: "index_coder demo_env demo_index 8 = Some c" "wf_coder (e_fo demo_env) c"
    using demo_index_coder [of demo_index] by auto
  have acc: "snd (add_2d demo_env no_fault (im_inner demo_idmap) (replicate 16 0) 8) = Returned (Inr ())"
    unfolding demo_idmap_fields by (rule add_2d_accepts [OF demo_index_represents c]) (simp_all add: input_ok_def magnitude_fails_def f32_is_nan_def f32_mag_def f32_inf_mag_def f32_lt_def f32_ord_def f32_sign_def f32_abs_def MAX_INPUT_MAGNITUDE_def)
  from batch_addable_exact [OF demo_idmap_ok, of 8 "replicate 16 0" "[1, 5]" demo_env no_fault] b
  have "add_with_ids_2d demo_env no_fault demo_idmap (replicate 16 0) 8 [1, 5] = (demo_idmap, Returned (Inl (AE_IdAlreadyPresent 5)))"
    by (auto simp: iter_ids_def Cons_eq_append_conv)
  moreover from batch_addable_exact [OF demo_idmap_ok, of 8 "replicate 16 0" "[1, 2]" demo_env no_fault] b acc
  have "snd (add_with_ids_2d demo_env no_fault demo_idmap (replicate 16 0) 8 [1, 2]) = Returned (Inr ())"
    "iter_ids (fst (add_with_ids_2d demo_env no_fault demo_idmap (replicate 16 0) 8 [1, 2])) = [7, 5, 1, 2]"
    by (simp_all add: iter_ids_def)
  ultimately show ?thesis using b by blast
qed

text \<open>C39. Looking an id up in the table a load keeps is a correct binary search that compares at most
  \<open>k + 1\<close> times in a table of at most \<open>2^k\<close> ids, so an add after a load never walks the table.\<close>

theorem table_search_logarithmic:
  assumes "sorted tbl" "length tbl \<le> 2 ^ k"
  shows "(table_contains tbl key \<longleftrightarrow> key \<in> set tbl) \<and> snd (table_search tbl key) \<le> k + 1"
  using table_contains_iff [OF assms(1)] table_search_probes [OF assms(2)] by blast

theorem table_search_logarithmic_witness:
  "table_contains [1, 3, 5, 9] 5 \<and> \<not> table_contains [1, 3, 5, 9] 4 \<and> snd (table_search [1, 3, 5, 9] 4) \<le> 3"
  using table_search_logarithmic [of "[1, 3, 5, 9]" 2 5] table_search_logarithmic [of "[1, 3, 5, 9]" 2 4] by simp

text \<open>C38. The mask of an allowlist search has one entry per slot, set exactly for the ids of the list,
  repeats included; the first id the index does not have is the error.\<close>

theorem allow_mask_exact:
  assumes "idmap_ok m"
  shows "snd (allow_mask m ids) =
    (if ids = [] then Inl AllowlistEmpty
     else case find (\<lambda>key. key \<notin> set (iter_ids m)) ids of
         Some key \<Rightarrow> Inl (UnknownId key)
       | None \<Rightarrow> Inr (map (\<lambda>key. key \<in> set ids) (iter_ids m)))"
  using allow_mask_ok [OF assms, of ids] unfolding iter_ids_def by (cases "ids = []") (simp add: allow_mask_def, simp)

theorem allow_mask_exact_witness:
  "snd (allow_mask demo_idmap [5, 5]) = Inr [False, True] \<and> snd (allow_mask demo_idmap [5, 6, 8]) = Inl (UnknownId 6)"
  using allow_mask_exact [OF demo_idmap_ok, of "[5, 5]"] allow_mask_exact [OF demo_idmap_ok, of "[5, 6, 8]"] by (simp add: iter_ids_def)

section \<open>Files\<close>

text \<open>C5. Whatever came before, an \<open>IdMapIndex\<close> that syncs and returns leaves a file that opens, on any
  processor with the same arithmetic, to the same map from ids to rows in the same slots; the map of the
  reopened index is not built yet.\<close>

theorem id_sync_then_reopen:
  assumes "id_session e path file stored m rows" "idmap_sync e io file m path = (m', file', Returned (Inr ()))"
    and "sync_fits e (im_inner m) rows path file'" "ix_dim (im_inner m) = Some dim"
    and "snap_loadable e (snapshot_of (im_inner m) dim 1 rows (Some (im_slots m)))" "same_numbers e e'"
  shows "\<exists>f m2. file' = Some f \<and> idmap_load e' f path = Some (Inr m2) \<and> idmap_ok m2 \<and> represents e' (im_inner m2) rows \<and>
    id_rows m2 rows = id_rows m rows \<and> iter_ids m2 = iter_ids m \<and> calibrated_pair (im_inner m2) = calibrated_pair (im_inner m) \<and> \<not> slots_ready m2"
proof -
  note i = id_session_invariant [OF assms(1)]
  note v = id_inv_live [OF i]
  let ?sn = "snapshot_of (im_inner m) dim 1 rows (Some (im_slots m))"
  obtain f c where f: "file' = Some f" "file_holds e f ?sn c (ix_sync_pending (im_inner m'))"
    using id_inv_sync(2) [OF i assms(2,3)] assms(4) by auto
  have k: "sn_kind ?sn = 1" "sn_ids ?sn = Some (im_slots m)" "sn_rows ?sn = rows" "sn_dim ?sn = dim" by (simp_all add: snapshot_of_def)
  obtain inner b where l: "idmap_load e' f path = Some (Inr (loaded_idmap inner (im_slots m) (sort (im_slots m))))"
    and r: "reopened e' ?sn c (ix_sync_pending (im_inner m')) b inner"
    using id_load_reopens(1) [OF f(2) assms(5,6) k(1,2) v(7), of path] by blast
  have q: "represents e' inner rows" "snapshot_of inner dim 1 rows (Some (im_slots m)) = ?sn" using r unfolding reopened_def k by simp_all
  have "calibrated_pair inner = calibrated_pair (im_inner m)" using q(2) by (simp add: snapshot_of_def calibrated_pair_def)
  moreover have "idmap_ok (loaded_idmap inner (im_slots m) (sort (im_slots m)))"
    by (rule loaded_idmap_ok [OF v(7)]) (simp add: v(6) representsD(1) [OF q(1)])
  ultimately show ?thesis using f(1) l q(1) by (auto simp: loaded_idmap_def iter_ids_def id_rows_def slots_ready_def)
qed

theorem id_sync_then_reopen_witness:
  "\<exists>m' f m2. idmap_sync demo_env demo_io None demo_idmap [] = (m', Some f, Returned (Inr ())) \<and>
     idmap_load demo_env f [] = Some (Inr m2) \<and> id_rows m2 demo_rows = [7 \<mapsto> ([1, 2], 5), 5 \<mapsto> ([3, 4], 6)]"
proof -
  obtain ix f where s: "sync_v7_impl demo_env demo_io None demo_index [] 1 (Some [7, 5]) = (ix, Some f, Returned (Inr ()))"
    and fits: "sync_fits demo_env demo_index demo_rows [] (Some f)"
    using demo_sync_any [of 1 "Some [7, 5]" "[]"] by (auto simp: ids_fit_def demo_rows_def)
  have run: "idmap_sync demo_env demo_io None demo_idmap [] = (demo_idmap\<lparr>im_inner := ix\<rparr>, Some f, Returned (Inr ()))"
    by (simp add: idmap_sync_def s)
  from id_sync_then_reopen [OF demo_id_session run, of 8 demo_env] fits demo_id_loadable demo_same_numbers run
  show ?thesis by (auto simp: demo_id_rows)
qed

text \<open>The demo map after its first sync and a removal, ready for the next sync.\<close>

lemma demo_id_cut:
  obtains m f where "id_session demo_env [] (Some f) (Some (snapshot_of demo_index 8 1 demo_rows (Some [7, 5]))) m [([3, 4], 6)]"
    "im_slots m = [5]" "sync_fits demo_env (im_inner m) [([3, 4], 6)] [] None"
    "\<exists>f'. told_sync_cut demo_env (im_inner m) [] 1 (Some [5]) f f' \<and> f' \<noteq> f \<and>
      choose_header f' (snap_geo (snapshot_of demo_index 8 1 demo_rows (Some [7, 5])))
        = choose_header f (snap_geo (snapshot_of demo_index 8 1 demo_rows (Some [7, 5])))"
proof -
  let ?sn = "snapshot_of demo_index 8 1 demo_rows (Some [7, 5])"
  have ids: "ids_fit 1 (Some [7, 5]) (length demo_rows)" "ids_fit 1 (Some [5]) 1" by (simp_all add: ids_fit_def demo_rows_def)
  obtain ix f where s: "sync_v7_impl demo_env demo_io None demo_index [] 1 (Some [7, 5]) = (ix, Some f, Returned (Inr ()))"
    and fits: "sync_fits demo_env demo_index demo_rows [] (Some f)"
    using demo_sync_any [OF ids(1), of "[]"] by blast
  let ?m = "demo_idmap\<lparr>im_inner := ix\<rparr>"
  have run: "idmap_sync demo_env demo_io None demo_idmap [] = (?m, Some f, Returned (Inr ()))" by (simp add: idmap_sync_def s)
  have i: "id_session demo_env [] (Some f) (Some ?sn) ?m demo_rows"
    using id_sync [OF demo_id_session run] fits by (simp add: stored_after_def)
  note v = id_inv_live [OF id_session_invariant [OF i]]
  have sl: "slot_map (im_slots ?m) 7 = Some 0" by (simp add: slot_map_def)
  obtain m where m: "remove_id demo_env ?m 7 = (m, Returned True)" "im_slots m = list_swap_remove 0 [7, 5]"
    "removed_elsewhere ix 0 (im_inner m)"
    using remove_id_represents [OF v(1-3), of 7] unfolding sl by auto
  have r: "removed_rows ?m 7 demo_rows = [([3, 4], 6)]" "list_swap_remove 0 [7, 5] = [5 :: u64]"
    unfolding removed_rows_def sl by (simp_all add: demo_rows_def list_swap_remove_def)
  have j: "id_session demo_env [] (Some f) (Some ?sn) m [([3, 4], 6)]" using id_remove [OF i m(1)] unfolding r(1) .
  have "live demo_env [] 1 (Some f) (Some ?sn) (im_inner m) [([3, 4], 6)] (Some [5])"
    using id_inv_live(4) [OF id_session_invariant [OF j]] by (simp add: m(2) r(2))
  from that [OF j] demo_removed [OF ids s this m(3)] m(2) r(2) show thesis by simp
qed

text \<open>C9. An incremental sync of an \<open>IdMapIndex\<close> that loses power at any point, with its writes torn anyhow,
  leaves a file that opens to a map: to exactly the ids and rows of the last sync when the loader adopts the
  header it adopted before, and to exactly those of the interrupted sync when it does not. As for an index, this
  is for cuts after which the two checksums are not fooled by torn bytes and no header of an abandoned sync comes
  into reach (\<open>told_cut\<close>).\<close>

theorem id_power_cut_then_reopen:
  assumes "id_session e path (Some f) (Some sn) m rows" "sync_fits e (im_inner m) rows path None"
    and "told_sync_cut e (im_inner m) path 1 (Some (im_slots m)) f f'" "snap_loadable e sn" "same_numbers e e'"
  shows "\<exists>ids kept m2.
    (ids, kept) = (if choose_header f' (snap_geo sn) = choose_header f (snap_geo sn) then (the (sn_ids sn), sn_rows sn) else (iter_ids m, rows)) \<and>
    sn_ids sn \<noteq> None \<and> idmap_load e' f' path = Some (Inr m2) \<and> idmap_ok m2 \<and> iter_ids m2 = ids \<and>
    represents e' (im_inner m2) kept \<and> id_rows m2 kept = map_of (zip ids kept)"
proof -
  note v = id_inv_live [OF id_session_invariant [OF assms(1)]]
  obtain ids0 where sn: "sn_kind sn = 1" "sn_ids sn = Some ids0" "distinct ids0" "length ids0 = length (sn_rows sn)"
    using v(5) by (auto simp: id_stored_ok_def)
  define same where "same \<longleftrightarrow> choose_header f' (snap_geo sn) = choose_header f (snap_geo sn)"
  define sn' where "sn' = (if same then sn else snapshot_of (im_inner m) (sn_dim sn) 1 rows (Some (im_slots m)))"
  define ids where "ids = (if same then ids0 else im_slots m)"
  have k: "sn_kind sn' = 1" "sn_ids sn' = Some ids" "distinct ids" "length ids = length (sn_rows sn')"
    "(ids, sn_rows sn') = (if same then (the (sn_ids sn), sn_rows sn) else (iter_ids m, rows))"
    using sn v(6,7) by (simp_all add: sn'_def ids_def snapshot_of_def iter_ids_def)
  obtain c p where h: "file_holds e f' sn' c p" "snap_loadable e sn'"
    using told_cut_holds [OF v(2,3) liveD(3) [OF v(4)] v(8) assms(2,3), folded same_def, folded sn'_def] assms(4) by blast
  obtain inner b where l: "idmap_load e' f' path = Some (Inr (loaded_idmap inner ids (sort ids)))" and r: "reopened e' sn' c p b inner"
    using id_load_reopens(1) [OF h assms(5) k(1-3), of path] by blast
  have q: "represents e' inner (sn_rows sn')" using r by (simp add: reopened_def)
  have "idmap_ok (loaded_idmap inner ids (sort ids))"
    by (rule loaded_idmap_ok [OF k(3)]) (simp add: k(4) representsD(1) [OF q])
  then show ?thesis using l q sn(2) k(5) unfolding same_def by (auto simp: loaded_idmap_def iter_ids_def id_rows_def)
qed

theorem id_power_cut_then_reopen_witness:
  "\<exists>m f f' m2. id_session demo_env [] (Some f) (Some (snapshot_of demo_index 8 1 demo_rows (Some [7, 5]))) m [([3, 4], 6)] \<and>
     im_slots m = [5] \<and> told_sync_cut demo_env (im_inner m) [] 1 (Some (im_slots m)) f f' \<and> f' \<noteq> f \<and>
     idmap_load demo_env f' [] = Some (Inr m2) \<and> iter_ids m2 = [7, 5] \<and> represents demo_env (im_inner m2) demo_rows"
proof -
  let ?sn = "snapshot_of demo_index 8 1 demo_rows (Some [7, 5])"
  obtain m f where s: "id_session demo_env [] (Some f) (Some ?sn) m [([3, 4], 6)]" "im_slots m = [5]"
    and fits: "sync_fits demo_env (im_inner m) [([3, 4], 6)] [] None"
    and cut: "\<exists>f'. told_sync_cut demo_env (im_inner m) [] 1 (Some [5]) f f' \<and> f' \<noteq> f \<and> choose_header f' (snap_geo ?sn) = choose_header f (snap_geo ?sn)"
    by (rule demo_id_cut)
  obtain f' where c: "told_sync_cut demo_env (im_inner m) [] 1 (Some (im_slots m)) f f'" "f' \<noteq> f" "choose_header f' (snap_geo ?sn) = choose_header f (snap_geo ?sn)"
    using cut s(2) by auto
  from id_power_cut_then_reopen [OF s(1) fits c(1) demo_id_loadable demo_same_numbers] c(3)
  obtain m2 where "idmap_load demo_env f' [] = Some (Inr m2)" "iter_ids m2 = [7, 5]" "represents demo_env (im_inner m2) demo_rows"
    by (auto simp: snapshot_of_def)
  then show ?thesis using s c(1,2) by - (rule exI [of _ m], rule exI [of _ f], rule exI [of _ f'], auto)
qed

end
