(* ===== verification/Convert.thy ===== *)
theory Convert
  imports IdMap
begin

text \<open>
  The converter between the container versions (\<open>convert.rs\<close>): v5 and v6 are flat files, v7 and v8 the
  container \<open>sync\<close> keeps. Every reader decodes to one neutral image of packed rows, every writer
  starts from it. Sizes are natural numbers: the code bounds the row count by the length of the file before
  it multiplies.
\<close>

datatype version = V5 | V6 | V7 | V8
datatype file_kind = Plain | IdMapped

definition version_byte :: "version \<Rightarrow> u8" where
  "version_byte v = (case v of V5 \<Rightarrow> 5 | V6 \<Rightarrow> 6 | V7 \<Rightarrow> 1 | V8 \<Rightarrow> 1)"

record file_image =
  fi_bit_width :: nat
  fi_dim :: nat
  fi_n_vectors :: nat
  fi_packed_codes :: bytes
  fi_scales :: "f32 list"
  fi_tqplus_shift :: "f32 list"
  fi_tqplus_scale :: "f32 list"
  fi_ids :: "u64 list option"

definition image_kind :: "file_image \<Rightarrow> file_kind" where
  "image_kind im = (if fi_ids im \<noteq> None then IdMapped else Plain)"

definition TV_MAGIC :: bytes where "TV_MAGIC = [0x54, 0x56, 0x50, 0x49]"
definition TVIM_MAGIC :: bytes where "TVIM_MAGIC = [0x54, 0x56, 0x49, 0x4D]"
definition V5_HEADER :: nat where "V5_HEADER = 13"

datatype convert_error =
    CV_TooShort
  | CV_UnknownKind version "u8 option"
  | CV_BadMagic
  | CV_Version1
  | CV_OldRotation u8
  | CV_UnknownVersion u8
  | CV_TruncatedFile
  | CV_LengthOverflow
  | CV_Load load_error
  | CV_TruncatedHeader
  | CV_BitWidth nat
  | CV_RowsWithoutDim nat
  | CV_BadDim nat
  | CV_TooManyRows nat nat
  | CV_TruncatedCodes
  | CV_CalibrationLength nat nat
  | CV_PackedLength nat nat
  | CV_ScaleShiftLengths nat nat
  | CV_ScalesLength nat nat
  | CV_IdsLength nat nat
  | CV_FromParts from_parts_error
  | CV_FromIds from_ids_error
  | CV_Io

definition legacy_kind :: "bytes \<Rightarrow> file_kind option" where
  "legacy_kind magic = (if magic = TV_MAGIC then Some Plain else if magic = TVIM_MAGIC then Some IdMapped else None)"

definition detect :: "bytes \<Rightarrow> convert_error + version \<times> file_kind" where
  "detect raw =
     (if length raw < 5 then Inl CV_TooShort
      else case (if take 4 raw = V7_MAGIC then Some V7 else if take 4 raw = V8_MAGIC then Some V8 else None) of
        Some v \<Rightarrow>
          (case get_at raw 6 of
             Some b \<Rightarrow> if b = 0 then Inr (v, Plain) else if b = 1 then Inr (v, IdMapped) else Inl (CV_UnknownKind v (Some b))
           | None \<Rightarrow> Inl (CV_UnknownKind v None))
      | None \<Rightarrow>
          (case legacy_kind (take 4 raw) of
             None \<Rightarrow> Inl CV_BadMagic
           | Some kind \<Rightarrow>
               let v = raw ! 4
               in if v = 5 then Inr (V5, kind)
                  else if v = 6 then Inr (V6, kind)
                  else if v = 1 then Inl CV_Version1
                  else if 2 \<le> v \<and> v \<le> 4 then Inl (CV_OldRotation v)
                  else Inl (CV_UnknownVersion v)))"

section \<open>Reading\<close>

definition cv_rd_u32 :: "bytes \<Rightarrow> nat \<Rightarrow> convert_error + u32" where
  "cv_rd_u32 b p = ok_or CV_TruncatedFile (read_u32 b p)"

definition cv_rd_u64 :: "bytes \<Rightarrow> nat \<Rightarrow> convert_error + u64" where
  "cv_rd_u64 b p = ok_or CV_TruncatedFile (read_u64 b p)"

definition cv_rd_f32s :: "bytes \<Rightarrow> nat \<Rightarrow> nat \<Rightarrow> convert_error + f32 list" where
  "cv_rd_f32s b p n =
     (case checked_add p (n * 4) of
        None \<Rightarrow> Inl CV_LengthOverflow
      | Some stop \<Rightarrow>
          (case get_range b p stop of
             None \<Rightarrow> Inl CV_TruncatedFile
           | Some s \<Rightarrow> Inr (map (\<lambda>i. u32_from_le (take 4 (drop (4 * i) s))) [0..<length s div 4])))"

fun cv_rd_ids :: "bytes \<Rightarrow> nat \<Rightarrow> nat \<Rightarrow> convert_error + u64 list" where
  "cv_rd_ids b p 0 = Inr []"
| "cv_rd_ids b p (Suc n) = and_then (cv_rd_u64 b p) (\<lambda>v. and_then (cv_rd_ids b (p + 8) n) (\<lambda>vs. Inr (v # vs)))"

definition geometry :: "nat \<Rightarrow> nat \<Rightarrow> nat \<Rightarrow> nat \<times> nat" where
  "geometry bit_width dim n =
     (let packed_row = dim * bit_width div 8;
          blocked = ((n + BLOCK - 1) div BLOCK) * BLOCK * (dim div (8 div bit_width))
      in (packed_row, blocked))"

definition read_v7 :: "'r env \<Rightarrow> bytes \<Rightarrow> file_kind \<Rightarrow> convert_error + file_image" where
  "read_v7 e raw kind =
     (case load_image (env_numerics e) raw 0 (if kind = IdMapped then 1 else 0) of
        Inl err \<Rightarrow> Inl (CV_Load err)
      | Inr l \<Rightarrow>
          let ids = (if kind = IdMapped then Some (vl_ids l) else None);
              packed_codes =
                (if vl_n_vectors l = 0 then []
                 else if vl_layout l = LAYOUT_PLANES then
                   let (_, nbg, _) = blocked_geometry (vl_n_vectors l) (vl_bit_width l) (vl_dim l)
                   in planes_canonical_to_packed (vl_sign l) (vl_low l) (vl_bit_width l) nbg (vl_n_vectors l)
                 else seq_to_packed (vl_seq_blocked l) (vl_n_vectors l) (vl_bit_width l) (vl_dim l))
          in Inr \<lparr>fi_bit_width = vl_bit_width l, fi_dim = vl_dim l, fi_n_vectors = vl_n_vectors l, fi_packed_codes = packed_codes,
                  fi_scales = vl_scales l, fi_tqplus_shift = vl_tqplus_shift l, fi_tqplus_scale = vl_tqplus_scale l, fi_ids = ids\<rparr>)"

text \<open>The header of a flat file: width, dimension and row count, with every check.\<close>

definition legacy_header :: "bytes \<Rightarrow> convert_error + nat \<times> nat \<times> nat" where
  "legacy_header raw =
     and_then (ok_or CV_TruncatedHeader (get_range raw 5 (5 + V5_HEADER))) (\<lambda>hdr.
       let bit_width = unat (hdr ! 0);
           dim = unat (u32_from_le (take 4 (drop 1 hdr)));
           n_vectors = unat (u64_from_le (take 8 (drop 5 hdr)))
       in if \<not> (2 \<le> bit_width \<and> bit_width \<le> 4) then Inl (CV_BitWidth bit_width)
          else if dim = 0 \<and> n_vectors \<noteq> 0 then Inl (CV_RowsWithoutDim n_vectors)
          else if dim \<noteq> 0 \<and> (dim mod 8 \<noteq> 0 \<or> MAX_DIM < dim) then Inl (CV_BadDim dim)
          else if length raw < min (n_vectors * 5) usize_max then Inl (CV_TooManyRows n_vectors (length raw))
          else Inr (bit_width, dim, n_vectors))"

text \<open>The codes, as packed rows, and where they end.\<close>

definition legacy_codes :: "bytes \<Rightarrow> version \<Rightarrow> nat \<Rightarrow> nat \<Rightarrow> nat \<Rightarrow> nat \<Rightarrow> convert_error + bytes \<times> nat" where
  "legacy_codes raw version bit_width dim n_vectors p =
     (let (packed_row, blocked_len) = geometry bit_width dim n_vectors
      in if version = V5 then
           (let n = packed_row * n_vectors
            in and_then (ok_or CV_TruncatedCodes (get_range raw p (p + n))) (\<lambda>s. Inr (s, p + n)))
         else
           (let n_levels = 2 ^ bit_width;
                p = p + (2 * n_levels - 1) * 4
            in and_then (ok_or CV_TruncatedCodes (get_range raw p (p + blocked_len))) (\<lambda>s.
                 Inr (if n_vectors = 0 then [] else seq_to_packed s n_vectors bit_width dim, p + blocked_len))))"

definition read_legacy :: "bytes \<Rightarrow> version \<Rightarrow> file_kind \<Rightarrow> convert_error + file_image" where
  "read_legacy raw version kind =
     and_then (legacy_header raw) (\<lambda>(bit_width, dim, n_vectors).
     and_then (legacy_codes raw version bit_width dim n_vectors (5 + V5_HEADER)) (\<lambda>(packed_codes, p).
     and_then (cv_rd_f32s raw p n_vectors) (\<lambda>scales.
     let p = p + n_vectors * 4 in
     and_then (cv_rd_u32 raw p) (\<lambda>nc.
     let n_calib = unat nc; p = p + 4 in
     if n_calib \<noteq> 0 \<and> n_calib \<noteq> dim then Inl (CV_CalibrationLength n_calib dim)
     else
     and_then (cv_rd_f32s raw p n_calib) (\<lambda>shift.
     let p = p + n_calib * 4 in
     and_then (cv_rd_f32s raw p n_calib) (\<lambda>scale.
     let p = p + n_calib * 4 in
     and_then (if kind = Plain then Inr None else and_then (cv_rd_ids raw p n_vectors) (\<lambda>v. Inr (Some v))) (\<lambda>ids.
     Inr \<lparr>fi_bit_width = bit_width, fi_dim = dim, fi_n_vectors = n_vectors, fi_packed_codes = packed_codes,
          fi_scales = scales, fi_tqplus_shift = shift, fi_tqplus_scale = scale, fi_ids = ids\<rparr>)))))))"

definition read_any :: "'r env \<Rightarrow> bytes \<Rightarrow> convert_error + file_image" where
  "read_any e raw =
     and_then (detect raw) (\<lambda>(version, kind).
       if version = V7 \<or> version = V8 then read_v7 e raw kind else read_legacy raw version kind)"

section \<open>Writing\<close>

definition saturating_mul :: "nat \<Rightarrow> nat \<Rightarrow> nat" where
  "saturating_mul a b = min (a * b) usize_max"

definition write_error :: "file_image \<Rightarrow> convert_error option" where
  "write_error im =
     (let expect_codes = saturating_mul (saturating_mul (fi_n_vectors im) (fi_dim im)) (fi_bit_width im) div 8;
          calib = length (fi_tqplus_shift im)
      in if \<not> (2 \<le> fi_bit_width im \<and> fi_bit_width im \<le> 4) then Some (CV_BitWidth (fi_bit_width im))
         else if fi_dim im = 0 \<and> fi_n_vectors im \<noteq> 0 then Some (CV_RowsWithoutDim (fi_n_vectors im))
         else if fi_dim im \<noteq> 0 \<and> (fi_dim im mod 8 \<noteq> 0 \<or> MAX_DIM < fi_dim im) then Some (CV_BadDim (fi_dim im))
         else if length (fi_packed_codes im) \<noteq> expect_codes then Some (CV_PackedLength (length (fi_packed_codes im)) expect_codes)
         else if calib \<noteq> length (fi_tqplus_scale im) then Some (CV_ScaleShiftLengths calib (length (fi_tqplus_scale im)))
         else if calib \<noteq> 0 \<and> calib \<noteq> fi_dim im then Some (CV_CalibrationLength calib (fi_dim im))
         else if length (fi_scales im) \<noteq> fi_n_vectors im then Some (CV_ScalesLength (length (fi_scales im)) (fi_n_vectors im))
         else case fi_ids im of
             Some ids \<Rightarrow> if length ids \<noteq> fi_n_vectors im then Some (CV_IdsLength (length ids) (fi_n_vectors im)) else None
           | None \<Rightarrow> None)"

definition write_container :: "'r env \<Rightarrow> file_image \<Rightarrow> u8 \<Rightarrow> (convert_error + bytes) outcome" where
  "write_container e im version =
     (let dim = (if fi_dim im \<noteq> 0 then Some (fi_dim im) else None);
          finish = (\<lambda>out. case out of Panicked \<Rightarrow> Panicked | Returned b \<Rightarrow> Returned (Inr b))
      in case from_parts (e_fo e) dim (fi_bit_width im) (fi_n_vectors im) (fi_packed_codes im) (fi_scales im)
             (fi_tqplus_shift im) (fi_tqplus_scale im) of
           Inl err \<Rightarrow> Returned (Inl (CV_FromParts err))
         | Inr inner \<Rightarrow>
             (case fi_ids im of
                None \<Rightarrow> finish (snd (image_in_version e inner 0 None version))
              | Some ids \<Rightarrow>
                  (case from_index_and_ids inner ids of
                     Inl err \<Rightarrow> Returned (Inl (CV_FromIds err))
                   | Inr m \<Rightarrow> finish (snd (idmap_image_in_version e m version)))))"

text \<open>The embedded codebook and the blocked codes of a v6 file; \<open>None\<close> is a panic of the solver.\<close>

definition v6_codebook :: "'r env \<Rightarrow> file_image \<Rightarrow> bytes option" where
  "v6_codebook e im =
     (let n_levels = 2 ^ fi_bit_width im
      in map_option (\<lambda>(boundaries, centroids). f32s_to_le (boundaries @ centroids))
           (if fi_dim im = 0 then Some (replicate (n_levels - 1) f32_zero, replicate n_levels f32_zero)
            else codebook (e_fo e) (e_beta e) (fi_bit_width im) (fi_dim im)))"

definition v6_codes :: "'r env \<Rightarrow> file_image \<Rightarrow> bytes" where
  "v6_codes e im =
     (let (_, blocked_len) = geometry (fi_bit_width im) (fi_dim im) (fi_n_vectors im)
      in if fi_n_vectors im = 0 then replicate blocked_len 0
         else let (blocked, _) = repack (e_target e) (fi_packed_codes im) (fi_n_vectors im) (fi_bit_width im) (fi_dim im);
                  (_, nbg, _) = blocked_geometry (fi_n_vectors im) (fi_bit_width im) (fi_dim im)
              in native_to_seq (e_target e) blocked (fi_bit_width im) nbg)"

definition write_legacy :: "'r env \<Rightarrow> file_image \<Rightarrow> version \<Rightarrow> bytes outcome" where
  "write_legacy e im version =
     (case (if version = V6 then map_option (\<lambda>cb. cb @ v6_codes e im) (v6_codebook e im) else Some (fi_packed_codes im)) of
        None \<Rightarrow> Panicked
      | Some codes \<Rightarrow> Returned
          ((if image_kind im = Plain then TV_MAGIC else TVIM_MAGIC) @ [version_byte version] @ [of_nat (fi_bit_width im)] @
           u32_to_le (of_nat (fi_dim im)) @ u64_to_le (of_nat (fi_n_vectors im)) @ codes @ f32s_to_le (fi_scales im) @
           u32_to_le (of_nat (length (fi_tqplus_shift im))) @ f32s_to_le (fi_tqplus_shift im @ fi_tqplus_scale im) @
           (case fi_ids im of None \<Rightarrow> [] | Some ids \<Rightarrow> concat (map u64_to_le ids))))"

definition write_any :: "'r env \<Rightarrow> file_image \<Rightarrow> version \<Rightarrow> (convert_error + bytes) outcome" where
  "write_any e im version =
     (case write_error im of
        Some err \<Rightarrow> Returned (Inl err)
      | None \<Rightarrow>
          (case version of
             V7 \<Rightarrow> write_container e im 7
           | V8 \<Rightarrow> write_container e im 8
           | _ \<Rightarrow> (case write_legacy e im version of Panicked \<Rightarrow> Panicked | Returned b \<Rightarrow> Returned (Inr b))))"

section \<open>Files\<close>

text \<open>\<open>convert_file\<close>: the result is written aside and renamed over the destination; \<open>io_fails\<close> is what the
  file system does with that.\<close>

definition convert_file :: "'r env \<Rightarrow> bool \<Rightarrow> bytes \<Rightarrow> bytes option \<Rightarrow> version \<Rightarrow> bytes option \<times> (convert_error + unit) outcome" where
  "convert_file e io_fails src dst version =
     (case read_any e src of
        Inl err \<Rightarrow> (dst, Returned (Inl err))
      | Inr im \<Rightarrow>
          (case write_any e im version of
             Panicked \<Rightarrow> (dst, Panicked)
           | Returned (Inl err) \<Rightarrow> (dst, Returned (Inl err))
           | Returned (Inr out) \<Rightarrow> if io_fails then (dst, Returned (Inl CV_Io)) else (Some out, Returned (Inr ()))))"

definition version_of :: "bytes \<Rightarrow> convert_error + version \<times> file_kind" where
  "version_of file = (if length file < 8 then Inl CV_Io else detect (take 8 file))"

end
