(* ===== verification/ConvertFacts.thy ===== *)
theory ConvertFacts
  imports Convert IdMapSession LayoutTheorems
begin

text \<open>
  Every version of a file decodes to the image it was written from: the flat files byte for byte, the
  container up to the normal form of the calibration.
\<close>

section \<open>The readers on what was written\<close>

lemma f32s_to_le_nth: "i < length vs \<Longrightarrow> take 4 (drop (4 * i) (f32s_to_le vs)) = u32_to_le (vs ! i)"
proof (induction vs arbitrary: i)
  case (Cons v vs)
  show ?case
  proof (cases i)
    case (Suc j)
    then show ?thesis using Cons by (simp add: f32s_to_le_simps)
  qed (simp add: f32s_to_le_simps)
qed simp

lemma cv_rd_f32s_at:
  assumes "raw = pre @ f32s_to_le vs @ post" "p = length pre" "n = length vs" "length raw \<le> usize_max"
  shows "cv_rd_f32s raw p n = Inr vs"
proof -
  have "get_range raw p (p + n * 4) = Some (f32s_to_le vs)" using get_range_mid [where pre = pre and ys = "f32s_to_le vs" and post = post] assms by (simp add: mult.commute)
  moreover have "checked_add p (n * 4) = Some (p + n * 4)" using assms by (simp add: checked_add_def)
  moreover have "map (\<lambda>i. u32_from_le (take 4 (drop (4 * i) (f32s_to_le vs)))) [0..<length (f32s_to_le vs) div 4] = vs"
    by (rule nth_equalityI) (simp_all add: f32s_to_le_nth)
  ultimately show ?thesis by (simp add: cv_rd_f32s_def)
qed

lemma cv_rd_u32_at: "raw = pre @ u32_to_le v @ post \<Longrightarrow> p = length pre \<Longrightarrow> cv_rd_u32 raw p = Inr v"
  by (simp add: cv_rd_u32_def read_u32_mid)

lemma cv_rd_ids_at: "raw = pre @ concat (map u64_to_le ids) @ post \<Longrightarrow> p = length pre \<Longrightarrow> cv_rd_ids raw p (length ids) = Inr ids"
proof (induction ids arbitrary: pre p)
  case (Cons i ids)
  have "cv_rd_u64 raw p = Inr i" using Cons.prems by (simp add: cv_rd_u64_def read_u64_mid)
  moreover have "cv_rd_ids raw (p + 8) (length ids) = Inr ids" using Cons.prems by (intro Cons.IH [of "pre @ u64_to_le i"]) simp_all
  ultimately show ?case by simp
qed simp

definition flat_file :: "file_kind \<Rightarrow> version \<Rightarrow> nat \<Rightarrow> nat \<Rightarrow> nat \<Rightarrow> bytes \<Rightarrow> bytes" where
  "flat_file kind version bits dim n rest =
     (if kind = Plain then TV_MAGIC else TVIM_MAGIC) @ [version_byte version] @ [of_nat bits] @ u32_to_le (of_nat dim) @ u64_to_le (of_nat n) @ rest"

lemma length_flat_file: "length (flat_file kind version bits dim n rest) = 18 + length rest"
  by (simp add: flat_file_def TV_MAGIC_def TVIM_MAGIC_def)

lemma detect_flat_file: "version \<in> {V5, V6} \<Longrightarrow> detect (flat_file kind version bits dim n rest) = Inr (version, kind)"
  by (cases kind) (auto simp: detect_def flat_file_def legacy_kind_def TV_MAGIC_def TVIM_MAGIC_def V7_MAGIC_def V8_MAGIC_def version_byte_def Let_def)

lemma legacy_header_flat_file:
  assumes "2 \<le> bits" "bits \<le> 4" "dim = 0 \<longrightarrow> n = 0" "dim \<noteq> 0 \<longrightarrow> dim mod 8 = 0" "dim \<le> MAX_DIM" "n \<le> usize_max" "n * 5 \<le> 18 + length rest"
  shows "legacy_header (flat_file kind version bits dim n rest) = Inr (bits, dim, n)"
proof -
  let ?pre = "(if kind = Plain then TV_MAGIC else TVIM_MAGIC) @ [version_byte version]"
  let ?hdr = "[of_nat bits] @ u32_to_le (of_nat dim) @ u64_to_le (of_nat n)"
  have "flat_file kind version bits dim n rest = ?pre @ ?hdr @ rest" by (simp add: flat_file_def)
  moreover have "length ?pre = 5" "length ?hdr = 13" by (simp_all add: TV_MAGIC_def TVIM_MAGIC_def)
  ultimately have g: "get_range (flat_file kind version bits dim n rest) 5 (5 + V5_HEADER) = Some ?hdr"
    using get_range_mid [where pre = ?pre and ys = ?hdr and post = rest] by (simp add: V5_HEADER_def)
  have b: "unat (of_nat bits :: u8) = bits" "unat (of_nat dim :: u32) = dim" "unat (of_nat n :: u64) = n"
    using assms(1,2,5,6) by (simp_all add: unat_of_nat MAX_DIM_def)
  show ?thesis using assms b length_flat_file [of kind version bits dim n rest] by (auto simp: legacy_header_def g Let_def)
qed

lemma v6_codes_seq:
  "fi_n_vectors im \<noteq> 0 \<Longrightarrow> v6_codes e im = repack_seq (fi_packed_codes im) (fi_n_vectors im) (fi_bit_width im) (fi_dim im)"
proof -
  assume "fi_n_vectors im \<noteq> 0"
  moreover have "length (repack_seq (fi_packed_codes im) (fi_n_vectors im) (fi_bit_width im) (fi_dim im)) mod BLOCK = 0"
    by (simp add: length_repack_seq)
  ultimately show ?thesis
    by (simp add: v6_codes_def geometry_def repack_eq native_roundtrip blocked_geometry_def Let_def case_prod_beta)
qed

lemma length_v6_codes: "length (v6_codes e im) = snd (geometry (fi_bit_width im) (fi_dim im) (fi_n_vectors im))"
proof (cases "fi_n_vectors im = 0")
  case True
  then show ?thesis by (simp add: v6_codes_def case_prod_beta)
next
  case False
  then show ?thesis
    by (simp add: v6_codes_seq length_repack_seq geometry_def Let_def)
qed

section \<open>Flat files\<close>

text \<open>An image \<open>write\<close> accepts.\<close>

lemma write_error_None:
  assumes "write_error im = None" "fi_n_vectors im * fi_dim im * fi_bit_width im \<le> usize_max"
  shows "2 \<le> fi_bit_width im" "fi_bit_width im \<le> 4" "fi_dim im = 0 \<longrightarrow> fi_n_vectors im = 0" "fi_dim im \<noteq> 0 \<longrightarrow> fi_dim im mod 8 = 0"
    "fi_dim im \<le> MAX_DIM" "length (fi_packed_codes im) = fi_n_vectors im * (fi_bit_width im * (fi_dim im div 8))"
    "length (fi_tqplus_scale im) = length (fi_tqplus_shift im)" "length (fi_tqplus_shift im) \<in> {0, fi_dim im}"
    "length (fi_scales im) = fi_n_vectors im" "\<And>ids. fi_ids im = Some ids \<Longrightarrow> length ids = fi_n_vectors im"
proof -
  have c: "2 \<le> fi_bit_width im \<and> fi_bit_width im \<le> 4 \<and> (fi_dim im = 0 \<longrightarrow> fi_n_vectors im = 0) \<and> (fi_dim im \<noteq> 0 \<longrightarrow> fi_dim im mod 8 = 0) \<and>
    fi_dim im \<le> MAX_DIM \<and> length (fi_packed_codes im) = saturating_mul (saturating_mul (fi_n_vectors im) (fi_dim im)) (fi_bit_width im) div 8 \<and>
    length (fi_tqplus_scale im) = length (fi_tqplus_shift im) \<and> length (fi_tqplus_shift im) \<in> {0, fi_dim im} \<and>
    length (fi_scales im) = fi_n_vectors im \<and> (\<forall>ids. fi_ids im = Some ids \<longrightarrow> length ids = fi_n_vectors im)"
    using assms(1) by (auto simp: write_error_def Let_def split: if_splits option.splits)
  then show "2 \<le> fi_bit_width im" "fi_bit_width im \<le> 4" "fi_dim im = 0 \<longrightarrow> fi_n_vectors im = 0" "fi_dim im \<noteq> 0 \<longrightarrow> fi_dim im mod 8 = 0"
    "fi_dim im \<le> MAX_DIM" "length (fi_tqplus_scale im) = length (fi_tqplus_shift im)" "length (fi_tqplus_shift im) \<in> {0, fi_dim im}"
    "length (fi_scales im) = fi_n_vectors im" "\<And>ids. fi_ids im = Some ids \<Longrightarrow> length ids = fi_n_vectors im"
    by blast+
  obtain k where k: "fi_dim im = 8 * k" using c by (cases "fi_dim im = 0") (auto elim: dvdE simp: mod_eq_0_iff_dvd)
  have "fi_n_vectors im * fi_dim im * 1 \<le> fi_n_vectors im * fi_dim im * fi_bit_width im" using c by (intro mult_le_mono2) simp
  then have "fi_n_vectors im * fi_dim im \<le> usize_max" using assms(2) by linarith
  then have "saturating_mul (saturating_mul (fi_n_vectors im) (fi_dim im)) (fi_bit_width im) = fi_n_vectors im * fi_dim im * fi_bit_width im"
    using assms(2) by (simp add: saturating_mul_def)
  then show "length (fi_packed_codes im) = fi_n_vectors im * (fi_bit_width im * (fi_dim im div 8))" using c by (simp add: k ac_simps)
qed

lemma packed_row_bytes: "dim mod 8 = 0 \<Longrightarrow> fst (geometry bits dim n) = bits * (dim div 8)"
proof -
  assume "dim mod 8 = 0"
  then obtain k where "dim = 8 * k" by (auto elim: dvdE simp: mod_eq_0_iff_dvd)
  then show ?thesis by (simp add: geometry_def Let_def)
qed

lemma read_flat_file:
  assumes v: "version \<in> {V5, V6}" and w: "2 \<le> fi_bit_width im" "fi_bit_width im \<le> 4" "fi_dim im = 0 \<longrightarrow> fi_n_vectors im = 0"
      "fi_dim im \<noteq> 0 \<longrightarrow> fi_dim im mod 8 = 0" "fi_dim im \<le> MAX_DIM"
    and len: "length (fi_tqplus_scale im) = length (fi_tqplus_shift im)" "length (fi_tqplus_shift im) \<in> {0, fi_dim im}"
      "length (fi_scales im) = fi_n_vectors im" "\<And>ids. fi_ids im = Some ids \<Longrightarrow> length ids = fi_n_vectors im"
    and out: "out = flat_file (image_kind im) version (fi_bit_width im) (fi_dim im) (fi_n_vectors im)
      (codes @ f32s_to_le (fi_scales im) @ u32_to_le (of_nat (length (fi_tqplus_shift im))) @ f32s_to_le (fi_tqplus_shift im) @
       f32s_to_le (fi_tqplus_scale im) @ (case fi_ids im of None \<Rightarrow> [] | Some ids \<Rightarrow> concat (map u64_to_le ids)))"
    and fits: "length out \<le> usize_max" "fi_n_vectors im \<le> length codes"
    and lc: "legacy_codes out version (fi_bit_width im) (fi_dim im) (fi_n_vectors im) 18 = Inr (fi_packed_codes im, 18 + length codes)"
  shows "read_any e out = Inr im"
proof -
  let ?n = "fi_n_vectors im" and ?k = "length (fi_tqplus_shift im)"
  define pre where "pre = flat_file (image_kind im) version (fi_bit_width im) (fi_dim im) ?n codes"
  define ids where "ids = (case fi_ids im of None \<Rightarrow> [] | Some ids \<Rightarrow> concat (map u64_to_le ids))"
  have pre: "length pre = 18 + length codes" by (simp add: pre_def length_flat_file)
  have o: "out = pre @ f32s_to_le (fi_scales im) @ u32_to_le (of_nat ?k) @ f32s_to_le (fi_tqplus_shift im) @ f32s_to_le (fi_tqplus_scale im) @ ids"
    by (simp add: out pre_def ids_def flat_file_def)
  have h: "legacy_header out = Inr (fi_bit_width im, fi_dim im, ?n)"
    unfolding out by (rule legacy_header_flat_file [OF w]) (use fits len(3) in \<open>simp_all add: o\<close>)
  have k: "unat (of_nat ?k :: u32) = ?k" using len(2) w(5) by (intro unat_of_nat_u32) (auto simp: MAX_DIM_def)
  let ?p = "18 + length codes"
  have r1: "cv_rd_f32s out ?p ?n = Inr (fi_scales im)" by (rule cv_rd_f32s_at [OF o _ _ fits(1)]) (simp_all add: pre len(3))
  have r2: "cv_rd_u32 out (?p + ?n * 4) = Inr (of_nat ?k)"
    by (rule cv_rd_u32_at [of _ "pre @ f32s_to_le (fi_scales im)"]) (simp_all add: o pre len(3))
  have r3: "cv_rd_f32s out (?p + ?n * 4 + 4) ?k = Inr (fi_tqplus_shift im)"
    by (rule cv_rd_f32s_at [where pre = "pre @ f32s_to_le (fi_scales im) @ u32_to_le (of_nat ?k)", OF _ _ _ fits(1)]) (simp_all add: o pre len(3))
  have r4: "cv_rd_f32s out (?p + ?n * 4 + 4 + ?k * 4) ?k = Inr (fi_tqplus_scale im)"
    by (rule cv_rd_f32s_at [where pre = "pre @ f32s_to_le (fi_scales im) @ u32_to_le (of_nat ?k) @ f32s_to_le (fi_tqplus_shift im)", OF _ _ _ fits(1)])
      (simp_all add: o pre len)
  have r5: "(if image_kind im = Plain then Inr None else and_then (cv_rd_ids out (?p + ?n * 4 + 4 + ?k * 4 + ?k * 4) ?n) (\<lambda>v. Inr (Some v))) = Inr (fi_ids im)"
  proof (cases "fi_ids im")
    case (Some keys)
    have "cv_rd_ids out (?p + ?n * 4 + 4 + ?k * 4 + ?k * 4) (length keys) = Inr keys"
      by (rule cv_rd_ids_at [where post = "[]" and pre = "pre @ f32s_to_le (fi_scales im) @ u32_to_le (of_nat ?k) @ f32s_to_le (fi_tqplus_shift im) @ f32s_to_le (fi_tqplus_scale im)"])
        (simp_all add: o pre len Some ids_def)
    then show ?thesis using len(4) [OF Some] by (simp add: image_kind_def Some)
  qed (simp add: image_kind_def)
  have d: "detect out = Inr (version, image_kind im)" unfolding out by (rule detect_flat_file [OF v])
  have l: "legacy_codes out version (fi_bit_width im) (fi_dim im) ?n (5 + V5_HEADER) = Inr (fi_packed_codes im, ?p)" using lc by (simp add: V5_HEADER_def)
  have c: "\<not> (?k \<noteq> 0 \<and> ?k \<noteq> fi_dim im)" using len(2) by auto
  have "read_legacy out version (image_kind im) = Inr im"
    unfolding read_legacy_def h and_then_simps prod.case l r1 Let_def r2 k if_not_P [OF c] r3 r4 r5 by simp
  then show ?thesis using v unfolding read_any_def d and_then_simps prod.case by auto
qed

lemma codes_at_18:
  "out = flat_file kind version bits dim n (codes @ rest) \<Longrightarrow> k = length codes \<Longrightarrow> get_range out 18 (18 + k) = Some codes"
proof -
  assume o: "out = flat_file kind version bits dim n (codes @ rest)" and k: "k = length codes"
  have "out = flat_file kind version bits dim n [] @ codes @ rest" by (simp add: o flat_file_def)
  then show ?thesis using length_flat_file [of kind version bits dim n "[]"] k
    by (simp add: get_range_mid [where pre = "flat_file kind version bits dim n []"])
qed

lemma legacy_codes_v5:
  assumes "out = flat_file kind V5 bits dim n (codes @ rest)" "dim mod 8 = 0" "length codes = n * (bits * (dim div 8))"
  shows "legacy_codes out V5 bits dim n 18 = Inr (codes, 18 + length codes)"
proof -
  have l: "fst (geometry bits dim n) * n = length codes" using assms(3) packed_row_bytes [OF assms(2)] by (simp add: ac_simps)
  have "get_range out 18 (18 + fst (geometry bits dim n) * n) = Some codes" unfolding l by (rule codes_at_18 [OF assms(1) refl])
  then show ?thesis by (simp add: legacy_codes_def case_prod_beta Let_def l)
qed

lemma length_v6_codebook: "v6_codebook e im = Some cb \<Longrightarrow> length cb = (2 * 2 ^ fi_bit_width im - 1) * 4"
proof -
  assume "v6_codebook e im = Some cb"
  then obtain b c where "cb = f32s_to_le (b @ c)" "length b = 2 ^ fi_bit_width im - 1" "length c = 2 ^ fi_bit_width im"
    by (auto simp: v6_codebook_def Let_def dest: codebook_lengths split: if_splits)
  then show ?thesis by simp
qed

lemma legacy_codes_v6:
  assumes o: "out = flat_file kind V6 bits dim n ((cb @ v6_codes e im) @ rest)" and cb: "v6_codebook e im = Some cb"
    and im: "fi_bit_width im = bits" "fi_dim im = dim" "fi_n_vectors im = n" "fi_packed_codes im = packed"
    and g: "2 \<le> bits" "bits \<le> 4" "dim mod 8 = 0" "length packed = n * (bits * (dim div 8))"
  shows "legacy_codes out V6 bits dim n 18 = Inr (packed, 18 + length (cb @ v6_codes e im))"
proof -
  have l: "length (v6_codes e im) = snd (geometry bits dim n)" using length_v6_codes [of e im] im by simp
  have c: "(2 * 2 ^ bits - Suc 0) * 4 = length cb" using length_v6_codebook [OF cb] im by simp
  have "out = (flat_file kind V6 bits dim n cb) @ v6_codes e im @ rest" by (simp add: o flat_file_def)
  then have "get_range out (18 + length cb) (18 + length cb + snd (geometry bits dim n)) = Some (v6_codes e im)"
    using l by (simp add: get_range_mid length_flat_file)
  moreover have "(if n = 0 then [] else seq_to_packed (v6_codes e im) n bits dim) = packed"
  proof (cases "n = 0")
    case True
    then show ?thesis using g(4) by simp
  next
    case False
    have "bits \<in> {2, 3, 4}" using g(1,2) by auto
    then show ?thesis using False v6_codes_seq [of im e] seq_to_packed_repack [OF _ g(3,4)] im by simp
  qed
  ultimately show ?thesis unfolding legacy_codes_def by (simp add: case_prod_beta Let_def c l)
qed

lemma packed_ge_rows:
  fixes bits dim n :: nat
  assumes "2 \<le> bits" "dim = 0 \<longrightarrow> n = 0" "dim mod 8 = 0"
  shows "n \<le> n * (bits * (dim div 8))"
proof (cases "dim = 0")
  case False
  then have "0 < bits * (dim div 8)" using assms by auto
  then show ?thesis by (cases "bits * (dim div 8)") simp_all
qed (use assms in simp)

lemma blocked_ge_rows:
  assumes "2 \<le> bits" "bits \<le> 4" "dim = 0 \<longrightarrow> n = 0" "dim mod 8 = 0"
  shows "n \<le> snd (geometry bits dim n)"
proof (cases "dim = 0")
  case False
  then have "0 < dim div 8" using assms(4) by auto
  then have "8 div bits \<le> dim" using assms by (metis div_le_dividend div_le_mono le_trans less_eq_div_iff_mult_less_eq div_greater_zero_iff)
  then have "0 < dim div (8 div bits)" using assms(1,2) by (auto simp: div_greater_zero_iff)
  then have "nblk n * BLOCK * 1 \<le> nblk n * BLOCK * (dim div (8 div bits))" by (intro mult_le_mono2) simp
  moreover have "n \<le> nblk n * BLOCK * 1" by presburger
  ultimately have "n \<le> nblk n * BLOCK * (dim div (8 div bits))" by (rule order_trans [rotated])
  then show ?thesis by (simp add: geometry_def Let_def)
qed (use assms in simp)

theorem flat_roundtrip:
  assumes v: "version \<in> {V5, V6}" and w: "write_any e im version = Returned (Inr out)"
    and fits: "fi_n_vectors im * fi_dim im * fi_bit_width im \<le> usize_max" "length out \<le> usize_max"
  shows "read_any e' out = Inr im"
proof -
  have ok: "write_error im = None" using w by (auto simp: write_any_def split: option.splits)
  note c = write_error_None [OF ok fits(1)]
  have d8: "fi_dim im mod 8 = 0" using c(4) by (cases "fi_dim im = 0") auto
  have "write_legacy e im version = Returned out" using w v ok by (auto simp: write_any_def split: outcome.splits)
  then obtain codes where o: "out = flat_file (image_kind im) version (fi_bit_width im) (fi_dim im) (fi_n_vectors im)
      (codes @ f32s_to_le (fi_scales im) @ u32_to_le (of_nat (length (fi_tqplus_shift im))) @ f32s_to_le (fi_tqplus_shift im) @
       f32s_to_le (fi_tqplus_scale im) @ (case fi_ids im of None \<Rightarrow> [] | Some ids \<Rightarrow> concat (map u64_to_le ids)))"
    and codes: "version = V5 \<and> codes = fi_packed_codes im \<or> version = V6 \<and> (\<exists>cb. v6_codebook e im = Some cb \<and> codes = cb @ v6_codes e im)"
    using v by (auto simp: write_legacy_def flat_file_def f32s_to_le_append split: option.splits if_splits)
  show ?thesis
  proof (cases "version = V5")
    case True
    then have e: "codes = fi_packed_codes im" using codes by auto
    show ?thesis
      by (rule read_flat_file [OF v c(1-5,7-10) o fits(2)])
        (use c packed_ge_rows [OF c(1,3) d8] legacy_codes_v5 [OF o [unfolded True] d8] e True in simp_all)
  next
    case False
    then obtain cb where e: "version = V6" "v6_codebook e im = Some cb" "codes = cb @ v6_codes e im" using codes by auto
    show ?thesis
      by (rule read_flat_file [OF v c(1-5,7-10) o fits(2)])
        (use blocked_ge_rows [OF c(1-3) d8] length_v6_codes [of e im] legacy_codes_v6 [OF o [unfolded e] e(2) refl refl refl refl c(1,2) d8 c(6)] e in simp_all)
  qed
qed

end
