(* ===== verification/ConvertContainer.thy ===== *)
theory ConvertContainer
  imports ConvertFacts
begin

text \<open>
  The container versions of a converted file: an image written as v7 or v8 loads back to its packed rows,
  scales, ids and normalized calibration, the lazy sentinel included.
\<close>

section \<open>Loading a fresh image\<close>

definition written_ok :: "numerics \<Rightarrow> sync_source \<Rightarrow> bool" where
  "written_ok nm src \<longleftrightarrow>
     seq_source src \<and> bounded_scales src \<and> loadable nm src \<and> ss_layout src = LAYOUT_SEQ \<and> (ss_dim src = 0 \<longrightarrow> ss_n_vectors src = 0) \<and>
     length (image_bytes src) \<le> usize_max"

lemma image_loads:
  assumes "written_ok nm src"
  shows "\<exists>l c. load_image nm (image_bytes src) 0 (ss_kind src) = Inr l \<and> loads_source src c {} 0 l"
proof -
  note w = assms [unfolded written_ok_def]
  have wf: "wf_source src" using w by (simp add: loadable_def)
  have i: "write_full_inner src 0 UNCLAIMED_NONCE = (image_bytes src,
      \<lparr>sc_gen = 0, sc_n_synced = of_nat (ss_n_vectors src), sc_calib_gen = 0, sc_nonce = UNCLAIMED_NONCE\<rparr>)"
    by (simp add: write_full_inner_def image_bytes_def)
  from synced_full [OF wf _ _ refl i]
  have "synced (src_geo src) (image_bytes src) (image_commit src)
      \<lparr>sc_gen = 0, sc_n_synced = of_nat (ss_n_vectors src), sc_calib_gen = 0, sc_nonce = UNCLAIMED_NONCE\<rparr> {} src"
    using w by simp
  then have s: "synced_inv (src_geo src) (image_bytes src) (image_commit src)
      \<lparr>sc_gen = 0, sc_n_synced = of_nat (ss_n_vectors src), sc_calib_gen = 0, sc_nonce = UNCLAIMED_NONCE\<rparr> {} src"
    by (rule synced_invariant)
  then have hc: "holds_commit (src_geo src) (image_bytes src) (image_commit src) src UNCLAIMED_NONCE"
    by (auto simp: synced_inv_def holds_commit_def)
  have ch: "choose_header (image_bytes src) (src_geo src) = Some (image_commit src)" using s by (simp add: synced_inv_def)
  have lay: "g_layout (src_geo src) \<noteq> LAYOUT_PLANES" using w by (simp add: src_geo_def LAYOUT_SEQ_def LAYOUT_PLANES_def)
  have "loadable nm src" "ss_dim src = 0 \<longrightarrow> ss_n_vectors src = 0" using w by simp_all
  from holds_commit_loads [OF hc this(1) lay ch this(2) refl, of 0 0]
  show ?thesis by (auto simp: image_commit_simps)
qed

lemma detect_image:
  assumes "wf_source src"
  shows "detect (image_bytes src) = (if ss_kind src = 0 then Inr (if ss_version src = 8 then V8 else V7, Plain)
    else if ss_kind src = 1 then Inr (if ss_version src = 8 then V8 else V7, IdMapped)
    else Inl (CV_UnknownKind (if ss_version src = 8 then V8 else V7) (Some (ss_kind src))))"
proof -
  have hl: "unit_at (src_geo src) (ss_n_vectors src div BLOCK) \<le> length (image_bytes src)"
    unfolding image_bytes_def by (rule full_len_le [OF assms])
  then have "sb_len (src_geo src) \<le> length (image_bytes src)" by (simp add: unit_at_def hdr_at_def)
  then obtain rest where "image_bytes src = superblock src UNCLAIMED_NONCE @ rest"
    by (auto simp: image_bytes_def write_image_def Let_def)
  then have f: "image_bytes src = sb_head src @ (drop (length (sb_head src)) (sb_body src UNCLAIMED_NONCE) @ u32_to_le (crc32 (sb_body src UNCLAIMED_NONCE)) @ rest)"
    by (simp add: superblock_eq sb_body_def)
  have l: "7 \<le> length (sb_head src)" by (simp add: sb_head_def V7_MAGIC_def V8_MAGIC_def)
  have len: "7 \<le> length (image_bytes src)" unfolding f length_append using l by simp
  note b = sb_head_bytes [OF assms f]
  show ?thesis using b(1,4) len by (simp add: detect_def get_at_def V7_MAGIC_def V8_MAGIC_def)
qed

text \<open>What the loaded image reads as.\<close>

lemma loaded_packed:
  assumes l: "loads_source src c p g l" and b: "ss_bit_width src \<in> {2, 3, 4}" "ss_dim src mod 8 = 0"
    and len: "\<forall>x \<in> set (map fst rows). length x = ss_bit_width src * (ss_dim src div 8)" and n: "ss_n_vectors src = length rows"
    and codes: "\<And>v. v < length rows \<Longrightarrow> ss_row_codes src v = row_seq (ss_bit_width src) (ss_dim src) (rows ! v)"
  shows "seq_to_packed (vl_seq_blocked l) (length rows) (ss_bit_width src) (ss_dim src) = concat (map fst rows)"
proof -
  let ?p = "concat (map fst rows)" and ?n = "length rows" and ?w = "ss_dim src div codes_per_byte (ss_bit_width src)"
  have w: "row_bytes (src_geo src) = ?w" by (simp add: src_geo_def row_bytes_def blocked_geometry_def Let_def)
  have f: "length (vl_seq_blocked l) = nblk ?n * ?w * BLOCK"
    "\<forall>v < nblk ?n * BLOCK. stored_row (vl_seq_blocked l) ?w v = (if v < ?n then ss_row_codes src v else replicate ?w 0)"
    using l by (simp_all add: loads_source_def Let_def w n)
  have "vl_seq_blocked l = repack_seq ?p ?n (ss_bit_width src) (ss_dim src)"
  proof (rule stored_rows_eqI [OF f(1) length_repack_seq])
    fix v
    assume v: "v < nblk ?n * BLOCK"
    show "stored_row (vl_seq_blocked l) ?w v = stored_row (repack_seq ?p ?n (ss_bit_width src) (ss_dim src)) ?w v"
    proof (cases "v < ?n")
      case True
      then show ?thesis
        using f(2) v codes [OF True] stored_row_repack [OF b True, of ?p] extract_concat_row [OF len, of v] by (simp add: row_seq_def)
    next
      case False
      then show ?thesis using f(2) v stored_row_repack_pad [of ?n v ?p "ss_bit_width src" "ss_dim src"] by simp
    qed
  qed
  moreover have "length ?p = ?n * (ss_bit_width src * (ss_dim src div 8))" using length_concat_rows [OF len] by simp
  ultimately show ?thesis using seq_to_packed_repack [OF b] by simp
qed

lemma read_image:
  assumes w: "written_ok (env_numerics e) src" and k: "ss_ids src = None \<and> ss_kind src = 0 \<or> ss_ids src = Some ids \<and> ss_kind src = 1"
    and len: "\<forall>x \<in> set (map fst rows). length x = ss_bit_width src * (ss_dim src div 8)" and n: "ss_n_vectors src = length rows"
    and codes: "\<And>v. v < length rows \<Longrightarrow> ss_row_codes src v = row_seq (ss_bit_width src) (ss_dim src) (rows ! v)"
  shows "read_any e (image_bytes src) = Inr \<lparr>fi_bit_width = ss_bit_width src, fi_dim = ss_dim src, fi_n_vectors = length rows,
    fi_packed_codes = concat (map fst rows), fi_scales = ss_scales src, fi_tqplus_shift = ss_tqplus_shift src,
    fi_tqplus_scale = ss_tqplus_scale src, fi_ids = ss_ids src\<rparr>"
proof -
  have wf: "wf_source src" and lay: "ss_layout src = LAYOUT_SEQ" using w by (simp_all add: written_ok_def loadable_def)
  obtain l c where l: "load_image (env_numerics e) (image_bytes src) 0 (ss_kind src) = Inr l" "loads_source src c {} 0 l"
    using image_loads [OF w] by blast
  have f: "vl_dim l = ss_dim src" "vl_bit_width l = ss_bit_width src" "vl_n_vectors l = length rows" "vl_layout l \<noteq> LAYOUT_PLANES"
    "vl_scales l = ss_scales src" "vl_tqplus_shift l = ss_tqplus_shift src" "vl_tqplus_scale l = ss_tqplus_scale src"
    "ss_ids src = Some ids \<Longrightarrow> vl_ids l = ids"
    using l(2) lay n by (auto simp: loads_source_def Let_def LAYOUT_SEQ_def LAYOUT_PLANES_def)
  have p: "seq_to_packed (vl_seq_blocked l) (length rows) (ss_bit_width src) (ss_dim src) = concat (map fst rows)"
    by (rule loaded_packed [OF l(2) wf_sourceD(8) [OF wf] wf_sourceD(11) [OF wf] len n codes])
  have "rows = [] \<Longrightarrow> concat (map fst rows) = []" by simp
  then show ?thesis using k l(1) f p
    by (auto simp: read_any_def detect_image [OF wf] read_v7_def Let_def)
qed

section \<open>The source of a container\<close>

lemma version_source: "index_source e ix dim kind ids v l = (index_source e ix dim kind ids 8 l)\<lparr>ss_version := v\<rparr>"
  by (simp add: index_source_def)

lemma geo_version: "src_geo (src\<lparr>ss_version := v\<rparr>) = (src_geo src)\<lparr>g_version := v\<rparr>" "row_bytes (g\<lparr>g_version := v\<rparr>) = row_bytes g"
  "n_levels (g\<lparr>g_version := v\<rparr>) = n_levels g"
  by (simp_all add: src_geo_def row_bytes_def n_levels_def)

lemma written_version:
  assumes "wf_source src" "seq_source src" "bounded_scales src" "loadable nm src" "ss_layout src = LAYOUT_SEQ" "v \<in> {7, 8}"
    and "ss_dim src = 0 \<longrightarrow> ss_n_vectors src = 0" "length (image_bytes (src\<lparr>ss_version := v\<rparr>)) \<le> usize_max"
  shows "written_ok nm (src\<lparr>ss_version := v\<rparr>)"
proof -
  have "wf_source (src\<lparr>ss_version := v\<rparr>)" using assms(1,5,6)
    by (cases "ss_ids src") (auto simp: wf_source_def Let_def geo_version)
  then show ?thesis
    using assms(2-8) by (simp add: written_ok_def seq_source_def bounded_scales_def loadable_def geo_version LAYOUT_SEQ_def LAYOUT_PLANES_def)
qed

text \<open>The checks of \<open>from_parts\<close> include the loader's.\<close>

lemma find_at_None: "find_at P xs = None \<longleftrightarrow> (\<forall>x \<in> set xs. \<not> P x)"
proof -
  have "find (\<lambda>(i, x). P x) (enumerate k xs) = None \<longleftrightarrow> (\<forall>x \<in> set xs. \<not> P x)" for k
    by (induction xs arbitrary: k) auto
  then show ?thesis by (simp add: find_at_def)
qed

lemma find_index_None: "(\<forall>x \<in> set xs. \<not> P x) \<Longrightarrow> find_index P xs i = None"
  by (induction xs arbitrary: i) auto

lemma normalize_idem: "normalize_calibration shift scale = (s, c) \<Longrightarrow> normalize_calibration s c = (s, c)"
  by (auto simp: normalize_calibration_def split: if_splits)

lemma from_parts_validates:
  assumes "from_parts (e_fo e) dim bits n packed scales shift scale = Inr ix" "normalize_calibration shift scale = (s, c)"
  shows "validate_calibration (env_numerics e) s c = Inr ()"
proof -
  have "find_at (\<lambda>v. \<not> f32_is_finite v \<or> f32_gt (f32_abs v) (max_tqplus_shift (e_fo e) (length shift))) shift = None"
    "find_at (\<lambda>v. \<not> f32_is_finite v \<or> f32_lt v (min_tqplus_scale (e_fo e) (length scale))) scale = None"
    using assms(1) unfolding from_parts_def by (auto split: if_splits option.splits)
  then have "validate_calibration (env_numerics e) shift scale = Inr ()"
    by (simp add: validate_calibration_def env_numerics_def find_at_None find_index_None)
  then show ?thesis using assms(2) by (auto simp: normalize_calibration_def validate_calibration_def split: if_splits)
qed

lemma parts_source:
  assumes fp: "from_parts (e_fo e) (Some dim) bits n packed scales shift scale = Inr inner" and v: "v \<in> {7, 8}"
    and ids: "ids_fit kind ids n" and n: "n < 32 * 4294967296" and sc: "\<forall>s \<in> set scales. unat s < 0x64000000"
    and cb: "\<forall>b c. codebook (e_fo e) (e_beta e) bits dim = Some (b, c) \<longrightarrow> (\<forall>x \<in> set (b @ c). \<not> f32_is_nan x)"
    and lay: "v = 8 \<longrightarrow> n < PLANES_MIN_VECTORS"
    and run: "image_in_version e inner kind ids v = (inner', Returned out)" and len: "length out \<le> usize_max"
  obtains src where "out = image_bytes src" "written_ok (env_numerics e) src" "ss_kind src = kind" "ss_ids src = ids" "ss_dim src = dim"
    "ss_bit_width src = bits" "ss_n_vectors src = n" "ss_scales src = scales" "(ss_tqplus_shift src, ss_tqplus_scale src) = normalize_calibration shift scale"
    "length (rows_of (bits * (dim div 8)) n packed) = n" "concat (rows_of (bits * (dim div 8)) n packed) = packed"
    "\<forall>x \<in> set (rows_of (bits * (dim div 8)) n packed). length x = bits * (dim div 8)" "length scales = n"
    "\<forall>k < n. ss_row_codes src k = row_seq bits dim (parts_rows (Some dim) bits n packed scales ! k)"
proof -
  let ?rows = "parts_rows (Some dim) bits n packed scales"
  obtain s c where f: "normalize_calibration shift scale = (s, c)" and ix: "inner = (blank_index (Some dim) bits)\<lparr>ix_n_vectors := n,
      ix_packed_codes := Some packed, ix_scales := scales, ix_tqplus_shift := s, ix_tqplus_scale := c\<rparr>"
    and g: "dim \<noteq> 0" "length packed = n * (bits * (dim div 8))" "length scales = n"
    by (rule from_parts_cases [OF fp]) auto
  have rep: "represents e inner ?rows" using from_parts_represents [OF fp] by blast
  have d: "ix_dim inner = Some dim" "ix_bit_width inner = bits" "ix_n_vectors inner = n" by (simp_all add: ix blank_index_def)
  have cap: "capture_ok inner ?rows" by (rule capture_ok_empty) (simp_all add: ix blank_index_def)
  have rl: "length ?rows = n" using representsD(1) [OF rep] d(3) by simp
  have u: "unit_layout e x = LAYOUT_SEQ" if "ix_n_vectors x = n" "v = 8" for x
    using that lay by (simp add: unit_layout_def planes_wanted_def Let_def case_prod_beta split: option.split)
  obtain ix1 where sd: "seed_codebook e dim (code_layout_ready e inner) = Some ix1"
    using run d(1) g(1) by (auto simp: image_in_version_def with_sync_source_def Let_def split: option.splits)
  note p = sync_prepared [OF rep d(1) sd]
  have n1: "ix_n_vectors ix1 = n" using representsD(1) [OF p(1)] rl by simp
  let ?src8 = "index_source e ix1 dim kind ids 8 LAYOUT_SEQ" and ?src = "index_source e ix1 dim kind ids v LAYOUT_SEQ"
  have out: "out = image_bytes ?src" using run sd g(1) d(1) v u [OF n1] by (auto simp: image_in_version_def with_sync_source_def Let_def)
  have cap1: "capture_ok ix1 ?rows" by (rule capture_cong [OF cap p(2)]) (simp add: p(3) d)
  have scr: "\<forall>r \<in> set ?rows. unat (snd r) < 0x64000000" using sc g(3) by (auto simp: parts_rows_def dest: set_zip_rightD)
  have ids': "ids_fit kind ids (length ?rows)" using ids rl by simp
  have r: "ready e (snapshot_of ix1 dim kind ?rows ids) ?src8"
    by (rule ready_index [OF p(1,3) cap1 p(5) ids' _ scr]) (use n rl in simp)
  have st: "ix_bit_width ix1 = bits" "ix_tqplus_shift ix1 = s" "ix_tqplus_scale ix1 = c"
    using p(2) d(2) by (simp_all add: sync_state_def ix blank_index_def)
  obtain bs cs where b: "codebook (e_fo e) (e_beta e) bits dim = Some (bs, cs)"
    using r st(1) by (auto simp: ready_def source_of_def snapshot_of_def)
  have "snap_loadable e (snapshot_of ix1 dim kind ?rows ids)"
    using normalize_idem [OF f] from_parts_validates [OF fp f] b cb st by (simp add: snap_loadable_def snapshot_of_def)
  then have ld: "loadable (env_numerics e) ?src8" using r by (intro loadable_source [of e "snapshot_of ix1 dim kind ?rows ids"]) (simp_all add: ready_def)
  note sf = index_source_fields [OF p(1) g(1), where kind = kind and ids = ids and l = LAYOUT_SEQ]
  have "written_ok (env_numerics e) ?src"
    unfolding version_source [of e ix1 dim kind ids v]
    by (rule written_version) (use r ld sf(2,6) g(1) v len out in \<open>simp_all add: ready_def flip: version_source\<close>)
  moreover have "\<forall>k < n. ss_row_codes ?src k = row_seq bits dim (?rows ! k)"
    using index_source_codes(1) [OF p(1,3) cap1, of _ kind ids] rl st(1) unfolding version_source [of e ix1 dim kind ids v] by simp
  moreover have "ss_kind ?src = kind" "ss_ids ?src = ids" "ss_dim ?src = dim" "ss_bit_width ?src = bits" "ss_n_vectors ?src = n" "ss_scales ?src = scales"
    "(ss_tqplus_shift ?src, ss_tqplus_scale ?src) = normalize_calibration shift scale"
    using sf(1-4,7-10) rl st f g(2,3) by (simp_all add: parts_rows_def)
  ultimately show thesis
    using that [OF out] concat_rows_of [OF g(2)] row_length_rows_of [OF g(2)] g(3) length_rows_of by blast
qed

text \<open>The lazy sentinel.\<close>

lemma lazy_source:
  assumes fp: "from_parts (e_fo e) None bits n packed scales shift scale = Inr inner" and v: "v \<in> {7, 8}" and ids: "ids_fit kind ids n"
    and run: "image_in_version e inner kind ids v = (inner', Returned out)" and len: "length out \<le> usize_max"
  obtains src where "out = image_bytes src" "written_ok nm src" "ss_kind src = kind" "ss_ids src = ids" "ss_dim src = 0"
    "ss_bit_width src = bits" "ss_n_vectors src = 0" "ss_scales src = []" "ss_tqplus_shift src = []" "ss_tqplus_scale src = []"
    "n = 0" "packed = []" "scales = []" "normalize_calibration shift scale = ([], [])"
proof -
  obtain s c where b: "bits \<in> {2, 3, 4}" and l: "length shift = length scale" and f: "normalize_calibration shift scale = (s, c)"
    and ix: "inner = (blank_index None bits)\<lparr>ix_n_vectors := n, ix_packed_codes := Some packed, ix_scales := scales,
        ix_tqplus_shift := s, ix_tqplus_scale := c\<rparr>"
    and d: "case None of None \<Rightarrow> n = 0 \<and> packed = [] \<and> scales = [] \<and> shift = []
      | Some d \<Rightarrow> d \<noteq> 0 \<and> d mod 8 = 0 \<and> d \<le> MAX_DIM \<and> length packed = n * (bits * (d div 8)) \<and> length scales = n \<and>
          length shift \<in> {0, d}"
    by (rule from_parts_cases [OF fp])
  have g: "n = 0" "packed = []" "scales = []" "shift = []" "scale = []" using d l by simp_all
  have sc: "s = []" "c = []" using f g by (simp_all add: normalize_calibration_def)
  have i: "ix_dim inner = None" "code_layout_ready e inner = inner" by (simp_all add: ix blank_index_def code_layout_ready_def materialize_packed_def index_packed_def g)
  let ?src = "index_source e inner 0 kind ids v LAYOUT_SEQ"
  have out: "out = image_bytes ?src" using run i by (auto simp: image_in_version_def with_sync_source_def unit_layout_def Let_def split: if_splits)
  have st: "ix_bit_width inner = bits" "ix_n_vectors inner = 0" "ix_scales inner = []" "ix_tqplus_shift inner = []" "ix_tqplus_scale inner = []"
    by (simp_all add: ix blank_index_def g sc)
  have "wf_source ?src"
    using b v ids g(1) st by (auto simp: wf_source_def index_source_def Let_def src_geo_def n_levels_def ids_fit_def split: option.splits)
  moreover have "\<not> f32_is_nan f32_zero" by (simp add: f32_is_nan_def f32_mag_def f32_zero_def)
  ultimately have "written_ok nm ?src"
    using len st out
    by (simp add: written_ok_def loadable_def seq_source_def bounded_scales_def index_source_def validate_calibration_def LAYOUT_SEQ_def LAYOUT_PLANES_def)
  then show thesis using that [OF out] f g sc st by (simp add: index_source_def)
qed

section \<open>The round trip\<close>

definition normal_image :: "file_image \<Rightarrow> file_image" where
  "normal_image im = (let (s, c) = normalize_calibration (fi_tqplus_shift im) (fi_tqplus_scale im) in im\<lparr>fi_tqplus_shift := s, fi_tqplus_scale := c\<rparr>)"

lemma container_image:
  assumes w: "write_container e im v = Returned (Inr out)"
  obtains inner kind inner' where
    "from_parts (e_fo e) (if fi_dim im \<noteq> 0 then Some (fi_dim im) else None) (fi_bit_width im) (fi_n_vectors im) (fi_packed_codes im) (fi_scales im)
       (fi_tqplus_shift im) (fi_tqplus_scale im) = Inr inner"
    "kind = (if fi_ids im = None then 0 else 1)" "image_in_version e inner kind (fi_ids im) v = (inner', Returned out)"
    "ids_fit kind (fi_ids im) (fi_n_vectors im)"
proof -
  obtain inner where fp: "from_parts (e_fo e) (if fi_dim im \<noteq> 0 then Some (fi_dim im) else None) (fi_bit_width im) (fi_n_vectors im) (fi_packed_codes im) (fi_scales im)
       (fi_tqplus_shift im) (fi_tqplus_scale im) = Inr inner"
    using w by (auto simp: write_container_def Let_def split: sum.splits)
  obtain s c where ix: "ix_n_vectors inner = fi_n_vectors im" by (rule from_parts_cases [OF fp]) simp
  show thesis
  proof (cases "fi_ids im")
    case None
    obtain inner' o1 where r: "image_in_version e inner 0 None v = (inner', o1)" by force
    have "o1 = Returned out" using w None r unfolding write_container_def Let_def fp by (auto split: outcome.splits)
    then show thesis using that [OF fp, of 0 inner'] None r by (simp add: ids_fit_def)
  next
    case (Some ids)
    obtain m where m: "from_index_and_ids inner ids = Inr m"
      using w Some unfolding write_container_def Let_def fp by (auto split: sum.splits)
    then have mi: "im_inner m = inner" "im_slots m = ids" "length ids = fi_n_vectors im"
      using ix by (auto simp: from_index_and_ids_def loaded_idmap_def Let_def split: if_splits)
    obtain inner' o1 where r: "image_in_version e inner 1 (Some ids) v = (inner', o1)" by force
    have "o1 = Returned out" using w Some r unfolding write_container_def Let_def fp
      by (auto simp: m idmap_image_in_version_def mi split: outcome.splits)
    then show thesis using that [OF fp, of 1 inner'] Some r mi(3) by (simp add: ids_fit_def)
  qed
qed

theorem container_roundtrip:
  assumes v: "v \<in> {7, 8}" and w: "write_container e im v = Returned (Inr out)" and num: "same_numbers e e'"
    and n: "fi_n_vectors im < 32 * 4294967296" and len: "length out \<le> usize_max" and sc: "\<forall>s \<in> set (fi_scales im). unat s < 0x64000000"
    and cb: "\<forall>b c. codebook (e_fo e) (e_beta e) (fi_bit_width im) (fi_dim im) = Some (b, c) \<longrightarrow> (\<forall>x \<in> set (b @ c). \<not> f32_is_nan x)"
    and lay: "v = 8 \<longrightarrow> fi_n_vectors im < PLANES_MIN_VECTORS"
  shows "read_any e' out = Inr (normal_image im)"
proof -
  have nm: "env_numerics e' = env_numerics e" using num by (simp add: same_numbers_def env_numerics_def)
  obtain inner kind inner' where fp: "from_parts (e_fo e) (if fi_dim im \<noteq> 0 then Some (fi_dim im) else None) (fi_bit_width im) (fi_n_vectors im)
       (fi_packed_codes im) (fi_scales im) (fi_tqplus_shift im) (fi_tqplus_scale im) = Inr inner"
    and k: "kind = (if fi_ids im = None then 0 else 1)" and run: "image_in_version e inner kind (fi_ids im) v = (inner', Returned out)"
    and ids: "ids_fit kind (fi_ids im) (fi_n_vectors im)"
    by (rule container_image [OF w])
  show ?thesis
  proof (cases "fi_dim im = 0")
    case True
    then have fp0: "from_parts (e_fo e) None (fi_bit_width im) (fi_n_vectors im) (fi_packed_codes im) (fi_scales im)
        (fi_tqplus_shift im) (fi_tqplus_scale im) = Inr inner" using fp by simp
    obtain src where s: "out = image_bytes src" "written_ok (env_numerics e') src" "ss_kind src = kind" "ss_ids src = fi_ids im" "ss_dim src = 0"
      "ss_bit_width src = fi_bit_width im" "ss_n_vectors src = 0" "ss_scales src = []" "ss_tqplus_shift src = []" "ss_tqplus_scale src = []"
      "fi_n_vectors im = 0" "fi_packed_codes im = []" "fi_scales im = []"
      "normalize_calibration (fi_tqplus_shift im) (fi_tqplus_scale im) = ([], [])"
      by (rule lazy_source [OF fp0 v ids run len])
    have "ss_ids src = None \<and> ss_kind src = 0 \<or> ss_ids src = Some (the (fi_ids im)) \<and> ss_kind src = 1" using s(3,4) k by auto
    from read_image [OF s(2) this, of "[]"] show ?thesis using s True by (simp add: normal_image_def)
  next
    case False
    let ?rows = "parts_rows (Some (fi_dim im)) (fi_bit_width im) (fi_n_vectors im) (fi_packed_codes im) (fi_scales im)"
    let ?cut = "rows_of (fi_bit_width im * (fi_dim im div 8)) (fi_n_vectors im) (fi_packed_codes im)"
    have fp1: "from_parts (e_fo e) (Some (fi_dim im)) (fi_bit_width im) (fi_n_vectors im) (fi_packed_codes im) (fi_scales im)
        (fi_tqplus_shift im) (fi_tqplus_scale im) = Inr inner" using fp False by simp
    obtain src where s: "out = image_bytes src" "written_ok (env_numerics e) src" "ss_kind src = kind" "ss_ids src = fi_ids im" "ss_dim src = fi_dim im"
      "ss_bit_width src = fi_bit_width im" "ss_n_vectors src = fi_n_vectors im" "ss_scales src = fi_scales im"
      "(ss_tqplus_shift src, ss_tqplus_scale src) = normalize_calibration (fi_tqplus_shift im) (fi_tqplus_scale im)"
      "length ?cut = fi_n_vectors im" "concat ?cut = fi_packed_codes im" "\<forall>x \<in> set ?cut. length x = fi_bit_width im * (fi_dim im div 8)"
      "length (fi_scales im) = fi_n_vectors im"
      "\<forall>k < fi_n_vectors im. ss_row_codes src k = row_seq (fi_bit_width im) (fi_dim im) (?rows ! k)"
      by (rule parts_source [OF fp1 v ids n sc cb lay run len])
    have rows: "map fst ?rows = ?cut" "length ?rows = fi_n_vectors im" using s(10,13) by (simp_all add: parts_rows_def)
    have kd: "ss_ids src = None \<and> ss_kind src = 0 \<or> ss_ids src = Some (the (fi_ids im)) \<and> ss_kind src = 1" using s(3,4) k by auto
    have "read_any e' (image_bytes src) = Inr \<lparr>fi_bit_width = ss_bit_width src, fi_dim = ss_dim src, fi_n_vectors = length ?rows,
        fi_packed_codes = concat (map fst ?rows), fi_scales = ss_scales src, fi_tqplus_shift = ss_tqplus_shift src,
        fi_tqplus_scale = ss_tqplus_scale src, fi_ids = ss_ids src\<rparr>"
      by (rule read_image [OF s(2) [folded nm] kd]) (use s rows in simp_all)
    then show ?thesis using s(1,4-8,11) rows s(9) [symmetric] by (simp add: normal_image_def)
  qed
qed

end
