(* ===== verification/ConvertTheorems.thy ===== *)
theory ConvertTheorems
  imports ConvertContainer IdMapTheorems
begin

text \<open>
  What a conversion promises: the quantized codes, scales, calibration and ids survive every version, what
  the flat reader accepts every writer's checks accept, and a failed conversion leaves the destination.
\<close>

text \<open>What the code relies on and does not check: sizes below \<open>2^64\<close>, and for a container, that the rows
  fit its counter, the scales are in the loader's range, the codebook has no NaN, and (for v8) that the index
  is below the size at which its units become bit planes.\<close>

definition convert_fits :: "'r env \<Rightarrow> file_image \<Rightarrow> version \<Rightarrow> bytes \<Rightarrow> bool" where
  "convert_fits e im version out \<longleftrightarrow>
     fi_n_vectors im * fi_dim im * fi_bit_width im \<le> usize_max \<and> length out \<le> usize_max \<and>
     (version \<in> {V7, V8} \<longrightarrow>
        fi_n_vectors im < 32 * 4294967296 \<and> (\<forall>s \<in> set (fi_scales im). unat s < 0x64000000) \<and>
        (\<forall>b c. codebook (e_fo e) (e_beta e) (fi_bit_width im) (fi_dim im) = Some (b, c) \<longrightarrow> (\<forall>x \<in> set (b @ c). \<not> f32_is_nan x))) \<and>
     (version = V8 \<longrightarrow> fi_n_vectors im < PLANES_MIN_VECTORS)"

lemma write_any_read:
  assumes w: "write_any e im version = Returned (Inr out)" and num: "same_numbers e e'" and fits: "convert_fits e im version out"
  shows "read_any e' out = Inr (if version \<in> {V5, V6} then im else normal_image im)"
proof -
  have ok: "write_error im = None" using w by (auto simp: write_any_def split: option.splits)
  show ?thesis
  proof (cases "version \<in> {V5, V6}")
    case True
    then show ?thesis using flat_roundtrip [OF True w] fits by (simp add: convert_fits_def)
  next
    case False
    define v :: u8 where "v = (if version = V7 then 7 else 8)"
    have "write_container e im v = Returned (Inr out)"
      using w ok False by (cases version) (simp_all add: write_any_def v_def)
    from container_roundtrip [OF _ this num] show ?thesis
      using fits False by (cases version) (auto simp: convert_fits_def v_def)
  qed
qed

section \<open>Images read from flat files\<close>

lemma cv_rd_f32s_length: "cv_rd_f32s raw p n = Inr vs \<Longrightarrow> length vs = n"
  by (auto simp: cv_rd_f32s_def checked_add_Some split: option.splits dest!: get_range_length)

lemma cv_rd_ids_length: "cv_rd_ids raw p n = Inr vs \<Longrightarrow> length vs = n"
  by (induction n arbitrary: p vs) (auto simp: and_then_Inr)

lemma legacy_header_bounds:
  assumes "legacy_header raw = Inr (bits, dim, n)" "length raw < 2 ^ 50"
  shows "2 \<le> bits" "bits \<le> 4" "dim = 0 \<longrightarrow> n = 0" "dim mod 8 = 0" "dim \<le> MAX_DIM" "n * dim * bits \<le> usize_max"
proof -
  have h: "2 \<le> bits" "bits \<le> 4" "dim = 0 \<longrightarrow> n = 0" "dim = 0 \<or> dim mod 8 = 0 \<and> dim \<le> MAX_DIM" "min (n * 5) usize_max \<le> length raw"
    using assms(1) by (auto simp: legacy_header_def Let_def and_then_Inr ok_or_def split: if_splits option.splits)
  then show "2 \<le> bits" "bits \<le> 4" "dim = 0 \<longrightarrow> n = 0" "dim mod 8 = 0" "dim \<le> MAX_DIM" by auto
  have "n * 5 < 2 ^ 50" using h(5) assms(2) by (simp add: min_def split: if_splits)
  then have "n \<le> 2 ^ 48 - 1" by simp
  moreover have "dim * bits \<le> 16384 * 4" using h(2,4) by (intro mult_le_mono) (auto simp: MAX_DIM_def)
  ultimately have "n * (dim * bits) \<le> (2 ^ 48 - 1) * (16384 * 4)" by (rule mult_le_mono)
  then show "n * dim * bits \<le> usize_max" by (simp add: mult.assoc)
qed

lemma legacy_codes_length:
  assumes "legacy_codes raw version bits dim n p = Inr (packed, q)" "dim mod 8 = 0"
  shows "length packed = n * (bits * (dim div 8))"
proof (cases "version = V5")
  case True
  then show ?thesis using assms packed_row_bytes [OF assms(2), of bits n]
    by (auto simp: legacy_codes_def Let_def and_then_Inr ok_or_def case_prod_beta ac_simps split: option.splits dest!: get_range_length)
next
  case False
  then show ?thesis using assms by (auto simp: legacy_codes_def Let_def and_then_Inr ok_or_def case_prod_beta split: option.splits if_splits)
qed

lemma read_legacy_accepted:
  assumes r: "read_legacy raw version kind = Inr im" and len: "length raw < 2 ^ 50"
  shows "write_error im = None \<and> image_kind im = kind"
proof -
  obtain bits dim n where h: "legacy_header raw = Inr (bits, dim, n)"
    using r unfolding read_legacy_def and_then_Inr by (metis prod_cases3)
  note r1 = r [unfolded read_legacy_def h and_then_simps prod.case]
  obtain packed p where c: "legacy_codes raw version bits dim n (5 + V5_HEADER) = Inr (packed, p)"
    using r1 unfolding and_then_Inr by (metis surj_pair)
  note r2 = r1 [unfolded c and_then_simps prod.case Let_def]
  obtain scales where s: "cv_rd_f32s raw p n = Inr scales" using r2 unfolding and_then_Inr by blast
  note r3 = r2 [unfolded s and_then_simps]
  obtain nc where u: "cv_rd_u32 raw (p + n * 4) = Inr nc" using r3 unfolding and_then_Inr by blast
  note r4 = r3 [unfolded u and_then_simps]
  have nc: "\<not> (unat nc \<noteq> 0 \<and> unat nc \<noteq> dim)" using r4 by (metis Inl_Inr_False)
  note r5 = r4 [unfolded if_not_P [OF nc]]
  obtain shift where sh: "cv_rd_f32s raw (p + n * 4 + 4) (unat nc) = Inr shift" using r5 unfolding and_then_Inr by blast
  note r6 = r5 [unfolded sh and_then_simps]
  obtain scale where sc: "cv_rd_f32s raw (p + n * 4 + 4 + unat nc * 4) (unat nc) = Inr scale" using r6 unfolding and_then_Inr by blast
  note r7 = r6 [unfolded sc and_then_simps]
  obtain ids where ids: "(if kind = Plain then Inr None else and_then (cv_rd_ids raw (p + n * 4 + 4 + unat nc * 4 + unat nc * 4) n) (\<lambda>v. Inr (Some v))) = Inr ids"
    and im: "im = \<lparr>fi_bit_width = bits, fi_dim = dim, fi_n_vectors = n, fi_packed_codes = packed, fi_scales = scales,
      fi_tqplus_shift = shift, fi_tqplus_scale = scale, fi_ids = ids\<rparr>"
    using r7 unfolding and_then_Inr by blast
  note b = legacy_header_bounds [OF h len]
  obtain k where k: "dim = 8 * k" using b(4) by (auto elim: dvdE simp: mod_eq_0_iff_dvd)
  have "n * dim \<le> n * dim * bits" using b(1) by simp
  then have "n * dim \<le> usize_max" using b(6) by linarith
  then have "length packed = saturating_mul (saturating_mul n dim) bits div 8"
    using legacy_codes_length [OF c b(4)] b(6) by (simp add: saturating_mul_def k ac_simps)
  moreover have "length shift = length scale" "length shift = 0 \<or> length shift = dim" using cv_rd_f32s_length [OF sh] cv_rd_f32s_length [OF sc] nc by simp_all
  moreover have "kind = Plain \<and> ids = None \<or> kind = IdMapped \<and> (\<exists>v. ids = Some v \<and> length v = n)"
    using ids by (cases kind) (auto simp: and_then_Inr dest: cv_rd_ids_length)
  ultimately show ?thesis
    using b cv_rd_f32s_length [OF s] by (auto simp: write_error_def image_kind_def im Let_def split: option.split)
qed

section \<open>A demo file\<close>

definition demo_image :: file_image where
  "demo_image = \<lparr>fi_bit_width = 2, fi_dim = 8, fi_n_vectors = 2, fi_packed_codes = [1, 2, 3, 4], fi_scales = [5, 6], fi_tqplus_shift = [],
     fi_tqplus_scale = [], fi_ids = Some [7, 5]\<rparr>"

lemma demo_image_fields [simp]:
  "fi_bit_width demo_image = 2" "fi_dim demo_image = 8" "fi_n_vectors demo_image = 2" "fi_packed_codes demo_image = [1, 2, 3, 4]"
  "fi_scales demo_image = [5, 6]" "fi_tqplus_shift demo_image = []" "fi_tqplus_scale demo_image = []" "fi_ids demo_image = Some [7, 5]"
  by (simp_all add: demo_image_def)

definition demo_v5 :: bytes where
  "demo_v5 = TVIM_MAGIC @ [5, 2] @ u32_to_le 8 @ u64_to_le 2 @ [1, 2, 3, 4] @ u32_to_le 5 @ u32_to_le 6 @ u32_to_le 0 @ u64_to_le 7 @ u64_to_le 5"

lemma demo_v5_written: "write_any demo_env demo_image V5 = Returned (Inr demo_v5)"
proof -
  have "write_error demo_image = None" by (simp add: write_error_def saturating_mul_def MAX_DIM_def Let_def)
  then show ?thesis
    by (simp add: write_any_def write_legacy_def demo_v5_def image_kind_def version_byte_def f32s_to_le_def)
qed

lemma demo_v5_read: "read_any demo_env demo_v5 = Inr demo_image"
  using flat_roundtrip [OF _ demo_v5_written, of demo_env] by (simp add: demo_v5_def TVIM_MAGIC_def)

lemma demo_v6_written:
  "\<exists>out. write_any demo_env demo_image V6 = Returned (Inr out) \<and> length out \<le> usize_max"
proof -
  have ok: "write_error demo_image = None" by (simp add: write_error_def saturating_mul_def MAX_DIM_def Let_def)
  have cb: "v6_codebook demo_env demo_image = Some (f32s_to_le [1, 2, 3, 0, 1, 2, 3])"
    using demo_codebook by (simp add: v6_codebook_def)
  have l: "length (v6_codes demo_env demo_image) = 64" by (simp add: length_v6_codes geometry_def Let_def)
  obtain out where "write_legacy demo_env demo_image V6 = Returned out" "length out \<le> usize_max"
    using l by (simp add: write_legacy_def cb image_kind_def TVIM_MAGIC_def)
  then show ?thesis by (simp add: write_any_def ok)
qed

section \<open>The properties\<close>

text \<open>C15. A conversion that returns leaves a file that decodes, on any machine with the same arithmetic, to
  the image the source decodes to: the same packed codes, scales and ids, and the same calibration, in its
  normal form when the target is a container; this is for images within the bounds of \<open>convert_fits\<close>. One that
  is refused, fails or panics leaves the destination.\<close>

theorem convert_file_keeps_index:
  assumes "convert_file e io_fails src dst version = (dst', res)" "same_numbers e e'"
    and "\<And>im out. read_any e src = Inr im \<Longrightarrow> dst' = Some out \<Longrightarrow> convert_fits e im version out"
  shows "case res of
      Returned (Inr _) \<Rightarrow> \<exists>im out. read_any e src = Inr im \<and> dst' = Some out \<and>
        read_any e' out = Inr (if version \<in> {V5, V6} then im else normal_image im)
    | _ \<Rightarrow> dst' = dst"
proof (cases "res = Returned (Inr ())")
  case True
  then obtain im out where c: "read_any e src = Inr im" "write_any e im version = Returned (Inr out)" "dst' = Some out"
    using assms(1) by (auto simp: convert_file_def split: sum.splits outcome.splits if_splits)
  from write_any_read [OF c(2) assms(2) assms(3) [OF c(1,3)]] show ?thesis using True c by simp
next
  case False
  then show ?thesis using assms(1) by (auto simp: convert_file_def split: sum.splits outcome.splits if_splits)
qed

theorem convert_file_keeps_index_witness:
  "\<exists>out. convert_file demo_env False demo_v5 None V6 = (Some out, Returned (Inr ())) \<and> read_any demo_env out = Inr demo_image"
proof -
  obtain out where w: "write_any demo_env demo_image V6 = Returned (Inr out)" "length out \<le> usize_max" using demo_v6_written by blast
  have run: "convert_file demo_env False demo_v5 None V6 = (Some out, Returned (Inr ()))" by (simp add: convert_file_def demo_v5_read w(1))
  have fits: "convert_fits demo_env im V6 o1" if "read_any demo_env demo_v5 = Inr im" "Some out = Some o1" for im o1
    using that w(2) by (auto simp: demo_v5_read convert_fits_def)
  show ?thesis using convert_file_keeps_index [OF run demo_same_numbers fits] run demo_v5_read by simp
qed

text \<open>C40. Every image the reader of the flat versions accepts passes the writers' checks, and writing it as
  v5 cannot fail: a v5 or v6 file that opens can always be brought back to v5.\<close>

theorem flat_reader_checked:
  assumes "read_any e raw = Inr im" "detect raw = Inr (version, kind)" "version \<in> {V5, V6}" "length raw < 2 ^ 50"
  shows "write_error im = None \<and> image_kind im = kind \<and> (\<exists>out. write_any e im V5 = Returned (Inr out))"
proof -
  have "read_legacy raw version kind = Inr im" using assms(1-3) by (auto simp: read_any_def)
  from read_legacy_accepted [OF this assms(4)] show ?thesis by (auto simp: write_any_def write_legacy_def)
qed

theorem flat_reader_checked_witness:
  "write_error demo_image = None \<and> image_kind demo_image = IdMapped"
  using flat_reader_checked [OF demo_v5_read, of V5 IdMapped]
  by (simp add: demo_v5_def detect_def legacy_kind_def TV_MAGIC_def TVIM_MAGIC_def V7_MAGIC_def V8_MAGIC_def Let_def)

end
