(* ===== verification/Spec2Isabelle.thy ===== *)
theory Spec2Isabelle
  imports LoadTheorems FormatTheorems LayoutTheorems CacheTheorems RotationTheorems WhtNorm EncodeTheorems IndexTheorems SessionTheorems IdMapTheorems
    ConvertTheorems
begin

text \<open>
  A model of turbovec (\<open>src/turbovec/src\<close>), a vector index that stores every vector as a row of
  2-, 3- or 4-bit codes and a scale, searches the rows through a lane-blocked cache, and keeps the
  index in a single file that is updated in place.

  \<^bold>\<open>The parts and how they interact.\<close>
  An index (\<open>lib.rs\<close>) holds packed code rows or the search cache built from them (\<open>pack.rs\<close>), one
  scale per row and, with an id map (\<open>id_map.rs\<close>), one external id per row. An add encodes rows
  (\<open>encode.rs\<close>, \<open>rotation.rs\<close>) and appends them to the cache; a removal moves the last row into the
  hole. A sync (\<open>io_v7.rs\<close>) writes the units of 32 rows that changed and commits them by a header
  slot carrying redo operations for the slots it may not overwrite; a load replays the newest header
  whose delta digest matches.

  \<^bold>\<open>Conventions.\<close>
  Machine words are words of their width, an \<open>f32\<close> is its bit pattern, a \<open>usize\<close> is a natural
  number with the 64-bit bound written out where the source uses checked arithmetic. A \<open>Vec\<close> is a
  list; a slice or element read that the source checks is \<open>get_range\<close> or \<open>get_at\<close> with an optional
  result. An \<open>io::Result\<close> is a sum with an error datatype, an \<open>Option\<close> an option. A buffer mutated
  in place is passed in and returned. A rayon loop over disjoint chunks is the loop over the chunks
  in order. The target (architecture, CPU features and the environment switches the code asks for) is
  the record \<open>target\<close>, so the layout theorems hold for every build at once.

  \<^bold>\<open>The theories.\<close>
  \<^item> \<open>Prelude\<close>, \<open>Buffers\<close>: words, byte strings, little-endian encoding, error chaining, slices
    overwritten in place and loops over disjoint cells.
  \<^item> \<open>Crc\<close>: \<open>crc32\<close> of \<open>io_v7.rs\<close> (table-driven update, the three-way split) and the streaming
    \<open>DeltaDigest\<close>. The digest of a stream is the checksum of its concatenation, the table is the
    bit-serial register, and one changed byte changes the checksum.
  \<^item> \<open>Geometry\<close>, \<open>Header\<close>: the container's offsets, the byte encoders of superblock, units, row
    records and header slots, and the header parser. A written slot parses back.
  \<^item> \<open>SyncPlan\<close>, \<open>Plan_Facts\<close>: \<open>plan_incremental\<close>, \<open>delta_digest\<close>, \<open>delta_verified\<close>, \<open>run_sync\<close>.
  \<^item> \<open>Torn\<close>, \<open>Commit\<close>, \<open>CrashSafety\<close>: an interrupted sync leaves every byte old or new
    (\<open>torn\<close>); the plan's writes avoid everything the last commit can be read from, so that commit is
    still adopted.
  \<^item> \<open>SyncComplete\<close>, \<open>SyncRows\<close>, \<open>SyncResult\<close>: a finished sync is adopted and its rows are the source's.
  \<^item> \<open>TornCommit\<close>: what else than the old commit a loader may adopt after a power cut. If the checksums of
    the torn header slot and of the torn units are not matched by accident, the stale headers \<open>cursor_state\<close>
    reported are cleared first and no header of an abandoned sync comes into reach (\<open>told_cut\<close>), it is the header
    of the interrupted sync with all its units in place (\<open>told_crash_adopts\<close>, \<open>landed_rows\<close>).
  \<^item> \<open>Image\<close>, \<open>SyncHistory\<close>: the full write; the inductive relation \<open>synced\<close> of files reached by full
    writes, finished syncs and power cuts, after which either the old commit is there (\<open>synced_recover\<close>) or the
    interrupted sync has taken effect (\<open>synced_landed\<close>), with its invariant.
  \<^item> \<open>Load\<close>, \<open>LoadRows\<close>, \<open>LoadImage\<close>, \<open>LoadTotal\<close>: \<open>parse_image\<close>, \<open>load_image\<close> and \<open>load\<close>: every
    check, the in-place gathering of rows and the replay of redo operations. Loading a file of a sync
    history succeeds and gives the committed rows.
  \<^item> \<open>CursorState\<close>: \<open>cursor_state\<close>, the identity check before an incremental sync.
  \<^item> \<open>Damage\<close>, \<open>Demo\<close>, \<open>TornDemo\<close>: damage detection by the delta digest; a concrete index for the witnesses,
    and two cuts of its next sync: a header without its first byte, a unit without its first byte.
  \<^item> \<open>Float32\<close>: comparison and classification of bit patterns, \<open>f32_sort_key\<close>, \<open>next_down_f32\<close>.
  \<^item> \<open>Lanes\<close>, \<open>Packing\<close>, \<open>Native\<close>: lane access, packed bit planes to code bytes and back, and the
    native lane layouts of \<open>pack.rs\<close> with their inverses.
  \<^item> \<open>Planes\<close>, \<open>PlanesNative\<close>, \<open>PlanesConvert\<close>: the sign and low planes of a row, the two regions of
    the planes layout, and the conversions from and to the stored blocks, the chunked in-place one
    included.
  \<^item> \<open>Region\<close>, \<open>RowStore\<close>, \<open>Cache\<close>: the invariant of a lane buffer, the contract of a row store (the
    locales \<open>row_store\<close> and \<open>growing_store\<close>, interpreted by the packed rows and by the cache) and the
    search cache \<open>BlockedCache\<close> with its build, promotion, append, tail patch and removal.
  \<^item> \<open>FloatOps\<close>, \<open>Hadamard\<close>, \<open>Rotation\<close>: the rounding operations as parameters; the Walsh-Hadamard
    kernels (\<open>wht_block\<close> and its NEON, AVX2 and AVX-512 forms, each equal to the scalar ladder);
    \<open>Rotation::new\<close>, the permutation gathers, \<open>apply_scaled_into\<close> and \<open>apply_with_scratch\<close>.
  \<^item> \<open>Validate\<close>, \<open>Quantize\<close>, \<open>QuantizeKernels\<close>, \<open>Encode\<close>: the input check \<open>first_invalid_coord\<close>,
    the norm and the fused quantizer of \<open>encode.rs\<close> in scalar, NEON and AVX2 form with the proof that
    they agree, and \<open>encode\<close> over a batch.
  \<^item> \<open>Codebook\<close>, \<open>Calibration\<close>: the Lloyd-Max codebook with its quadrature and memo; the fit of a
    calibration by order statistics.
  \<^item> \<open>IndexState\<close>, \<open>IndexFacts\<close>, \<open>IndexAdd\<close>, \<open>IndexRemove\<close>, \<open>IndexCalibrate\<close>: \<open>TurboQuantIndex\<close>, the
    relation \<open>represents\<close> between an index and its list of rows, and every operation that changes the rows.
  \<^item> \<open>IndexSync\<close>, \<open>IndexSource\<close>, \<open>LoadFields\<close>, \<open>IndexLoad\<close>, \<open>IndexFile\<close>: \<open>sync\<close>, \<open>write\<close>, \<open>to_bytes\<close>, \<open>load\<close>
    and \<open>from_bytes\<close>; the source an index presents is the one its rows determine, and a loaded file becomes
    an index of the rows it was written from.
  \<^item> \<open>IndexTracked\<close>, \<open>IndexSession\<close>: the invariant of the sync bookkeeping (cursor, pending and fresh slots,
    capture log) against the bound file, kept by every operation, and the relation \<open>session\<close> of the states an
    index and its file reach.
  \<^item> \<open>IdMap\<close>, \<open>IdMapFacts\<close>, \<open>IdMapRows\<close>, \<open>IdMapSession\<close>: \<open>IdMapIndex\<close> of \<open>id_map.rs\<close> with its hasher, the binary
    search in the ids a load keeps, the lazily built slot map and every operation; the contract \<open>id_table\<close> of
    whichever tables answer membership; the map \<open>id_rows\<close> from ids to rows it stands for; and the relation
    \<open>id_session\<close> of the states such an index and its file reach.
  \<^item> \<open>Convert\<close>, \<open>ConvertFacts\<close>, \<open>ConvertContainer\<close>: the converter of \<open>convert.rs\<close>, its readers and writers of
    the flat versions v5 and v6 and of the containers v7 and v8, and the proof that reading undoes writing.
  \<^item> \<open>DemoIndex\<close>, \<open>SessionTheorems\<close>, \<open>IdMapTheorems\<close>, \<open>ConvertTheorems\<close>, \<open>IndexTheorems\<close>, \<open>RotationTheorems\<close>, \<open>WhtNorm\<close>, \<open>EncodeTheorems\<close>, \<open>SyncTheorems\<close>, \<open>LoadTheorems\<close>, \<open>FormatTheorems\<close>, \<open>LayoutTheorems\<close>, \<open>CacheTheorems\<close>: the
    properties, each with a witness where it has hypotheses.

  \<^bold>\<open>Bounds.\<close>
  Loops are structural or have a measure; there is no fuel. The sync theorems assume that file
  offsets stay below \<open>2^64\<close> (\<open>wf_source\<close>), that a generation number does not wrap, and, where a
  loader must accept the scales, that the source's scales are in range (\<open>bounded_scales\<close>); the session
  theorems assume the same of the index at each sync (\<open>sync_fits\<close>), and that it writes the sequential layout. The conversion theorem assumes that
  the written file is not longer than a \<open>usize\<close> counts and, for a container, that its scales are in range, its
  codebook has no NaN and its units are sequential (\<open>convert_fits\<close>).

  \<^bold>\<open>Not modelled, and why.\<close>
  The rounding operations of single and double precision and the Beta distribution are parameters; the
  loader takes the codebook as one. The SIMD scoring kernels of \<open>search.rs\<close> and the plane
  statistics are floating-point sums whose value the code does not promise exactly. File locking,
  \<open>fsync\<close>, atomic renames and memory mapping are the operating system's; the crash model assumes
  only that a batch of writes is complete before the next starts. That the old commit and its rows survive any
  cut needs nothing more (\<open>sync_power_cut\<close>); that the file then opens to the rows of the one sync or of the other
  rests on \<open>told_cut\<close>. Its last condition is one the code does not establish: \<open>abandoned_header_adopted\<close>
  in \<open>LoadTheorems\<close> is a cut after which the loader adopts an abandoned commit the identity check could not see.
  The in-place conversion of 3-bit codes to planes is never selected by \<open>planes_for\<close>. Error texts and
  the Python bindings are glue.
\<close>

end
